(* ===== verification/Prelude.thy ===== *)
theory Prelude
  imports Main "HOL-Library.Word" "HOL-Library.Multiset"
begin

text \<open>
  The prelude of the development: names for Rust's machine integers, the operations of
  Rust's standard library that the allocator's arithmetic uses (\<open>checked_add\<close>,
  \<open>leading_zeros\<close>, \<open>is_power_of_two\<close>, little-endian bytes, \<open>str::trim\<close>), and
  the generic lemmas on words, lists and multisets that the component theories share.

  Integer arithmetic follows the release profile: \<open>+\<close>, \<open>-\<close> and \<open>*\<close> on a
  \<^typ>\<open>64 word\<close> wrap, as \<open>usize\<close> arithmetic does without overflow checks.
\<close>

unbundle bit_operations_syntax

section \<open>Machine integers\<close>

type_synonym u8 = "8 word"
type_synonym u16 = "16 word"
type_synonym u32 = "32 word"
type_synonym u64 = "64 word"
type_synonym usize = "64 word"

text \<open>Addresses of blocks handed out by the backends. Address zero is the null pointer.\<close>
type_synonym addr = nat

named_theorems word_nat \<open>facts that turn word expressions into natural numbers\<close>

definition checked_add :: "usize \<Rightarrow> usize \<Rightarrow> usize option" where
  "checked_add a b = (if unat a + unat b < 2 ^ 64 then Some (a + b) else None)"

definition saturating_add :: "usize \<Rightarrow> usize \<Rightarrow> usize" where
  "saturating_add a b = (if unat a + unat b < 2 ^ 64 then a + b else - 1)"

fun bit_len :: "nat \<Rightarrow> nat" where
  "bit_len n = (if n = 0 then 0 else Suc (bit_len (n div 2)))"

declare bit_len.simps [simp del]

definition leading_zeros :: "u64 \<Rightarrow> nat" where
  "leading_zeros w = 64 - bit_len (unat w)"

definition is_power_of_two :: "usize \<Rightarrow> bool" where
  "is_power_of_two w \<longleftrightarrow> w \<noteq> 0 \<and> w AND (w - 1) = 0"

section \<open>Words read as natural numbers\<close>

lemma unat_and_mask [word_nat]:
  fixes x :: "'a::len word"
  shows "unat (x AND mask k) = unat x mod 2 ^ k"
  by (metis take_bit_eq_mask take_bit_eq_mod unsigned_take_bit_eq)

lemma unat_and_not_mask [word_nat]:
  fixes x :: "'a::len word"
  shows "unat (x AND NOT (mask k)) = unat x div 2 ^ k * 2 ^ k"
proof -
  have "x AND NOT (mask k) = push_bit k (drop_bit k x)"
    by (rule bit_word_eqI) (auto simp: bit_simps)
  moreover have "push_bit k (drop_bit k x) + take_bit k x = x" by (rule bits_ident)
  ultimately have "x AND NOT (mask k) = x - take_bit k x" by (metis add_diff_cancel_right')
  moreover have "take_bit k x \<le> x"
    by (simp add: word_le_nat_alt unsigned_take_bit_eq)
  ultimately have "unat (x AND NOT (mask k)) = unat x - take_bit k (unat x)"
    by (simp add: unat_sub unsigned_take_bit_eq)
  then show ?thesis by (simp add: take_bit_eq_mod minus_mod_eq_div_mult)
qed

lemma pow2_minus_1_mask: "(2::'a::len word) ^ k - 1 = mask k"
  by (simp add: mask_eq_exp_minus_1)

lemma unat_add_64 [word_nat]:
  fixes a b :: u64
  shows "unat a + unat b < 2 ^ 64 \<Longrightarrow> unat (a + b) = unat a + unat b"
  using unat_add_lem[of a b] by simp

lemma unat_lt_64: "unat (a::u64) < 2 ^ 64"
  using unsigned_less [of a] by simp

lemma unat_of_nat_64 [word_nat]: "n < 2 ^ 64 \<Longrightarrow> unat (of_nat n :: u64) = n"
  by (simp add: unat_of_nat)

lemma unat_pow2_64 [word_nat]:
  assumes "k < 64"
  shows "unat ((2::u64) ^ k) = 2 ^ k"
proof -
  have "(2::u64) ^ k = of_nat (2 ^ k)" by simp
  moreover have "(2::nat) ^ k < 2 ^ 64" using assms by (rule power_strict_increasing) simp
  ultimately show ?thesis by (metis unat_of_nat_64)
qed

lemma of_nat_eq_64:
  "m < 2 ^ 64 \<Longrightarrow> n < 2 ^ 64 \<Longrightarrow> (of_nat m :: u64) = of_nat n \<longleftrightarrow> m = n"
  by (metis unat_of_nat_64)

lemma checked_add_Some:
  "checked_add a b = Some c \<longleftrightarrow> unat a + unat b < 2 ^ 64 \<and> c = a + b"
  by (auto simp: checked_add_def)

lemma checked_add_unat:
  "checked_add a b = Some c \<Longrightarrow> unat c = unat a + unat b"
  by (auto simp: checked_add_Some unat_add_64)

lemma unat_ucast_up [word_nat]:
  fixes w :: "'a::len word"
  shows "LENGTH('a) \<le> LENGTH('b::len) \<Longrightarrow> unat (ucast w :: 'b word) = unat w"
  by (simp add: unsigned_ucast_eq take_bit_nat_eq_self_iff)
    (meson dual_order.strict_trans1 power_increasing unsigned_less one_le_numeral)

lemma ucast_up_inj:
  fixes a b :: "'a::len word"
  shows "LENGTH('a) \<le> LENGTH('b::len) \<Longrightarrow> (ucast a :: 'b word) = ucast b \<longleftrightarrow> a = b"
  by (metis unat_ucast_up word_unat_eq_iff)

section \<open>Bit lengths\<close>

lemma bit_len_0 [simp]: "bit_len 0 = 0"
  by (simp add: bit_len.simps)

lemma bit_len_le_iff: "bit_len n \<le> k \<longleftrightarrow> n < 2 ^ k"
proof (induction n arbitrary: k rule: bit_len.induct)
  case (1 n)
  show ?case
  proof (cases "n = 0")
    case False
    show ?thesis
    proof (cases k)
      case 0
      then show ?thesis using False by (simp add: bit_len.simps [of n])
    next
      case (Suc j)
      then show ?thesis using False 1 [OF False, of j]
        by (subst bit_len.simps) (auto simp: div_less_iff_less_mult mult.commute)
    qed
  qed simp
qed

lemma bit_len_mono: "m \<le> n \<Longrightarrow> bit_len m \<le> bit_len n"
  using bit_len_le_iff [of m "bit_len n"] bit_len_le_iff [of n "bit_len n"] by simp

lemma bit_len_less_iff: "k < bit_len n \<longleftrightarrow> 2 ^ k \<le> n"
  using bit_len_le_iff [of n k] by linarith

lemma bit_len_bounds:
  "0 < n \<Longrightarrow> 2 ^ (bit_len n - 1) \<le> n \<and> n < 2 ^ bit_len n"
  using bit_len_less_iff [of "bit_len n - 1" n] bit_len_le_iff [of n "bit_len n"]
  by (cases "bit_len n") (auto simp: bit_len.simps [of n])

lemma bit_len_eqI: "2 ^ k \<le> n \<Longrightarrow> n < 2 ^ Suc k \<Longrightarrow> bit_len n = Suc k"
  using bit_len_less_iff [of k n] bit_len_le_iff [of n "Suc k"] by simp

lemma bit_len_unat: "bit_len (unat (w::u64)) \<le> 64"
  using bit_len_le_iff [of "unat w" 64] unat_lt_64 [of w] by simp

lemma sub_leading_zeros: "64 - leading_zeros w = bit_len (unat w)"
  using bit_len_unat [of w] by (simp add: leading_zeros_def)

lemma is_power_of_two_pow2: "k < 64 \<Longrightarrow> is_power_of_two (2 ^ k)"
proof -
  assume k: "k < 64"
  have "unat ((2::usize) ^ k AND mask k) = 0"
    using k by (simp add: unat_and_mask unat_pow2_64)
  then have "(2::usize) ^ k AND (2 ^ k - 1) = 0"
    by (simp add: pow2_minus_1_mask unsigned_eq_0_iff)
  moreover have "(2::usize) ^ k \<noteq> 0"
    using unat_pow2_64 [OF k] by (metis power_not_zero unat_0 zero_neq_numeral)
  ultimately show ?thesis by (simp add: is_power_of_two_def)
qed

section \<open>Panics\<close>

text \<open>The result of code that may panic.\<close>

datatype 'a rust = Panic | Return (returned: 'a)

section \<open>Little-endian bytes\<close>

text \<open>\<open>to_le_bytes\<close> of an integer of \<open>n\<close> bytes, and \<open>from_le_bytes\<close>.\<close>

definition to_le_bytes :: "nat \<Rightarrow> 'a::len word \<Rightarrow> u8 list" where
  "to_le_bytes n w = map (\<lambda>i. ucast (drop_bit (8 * i) w)) [0..<n]"

fun from_le_bytes :: "u8 list \<Rightarrow> 'a::len word" where
  "from_le_bytes [] = 0"
| "from_le_bytes (b # bs) = ucast b OR push_bit 8 (from_le_bytes bs)"

lemma length_to_le_bytes [simp]: "length (to_le_bytes n w) = n"
  by (simp add: to_le_bytes_def)

lemma bit_from_le_bytes:
  "bit (from_le_bytes bs :: 'a::len word) i \<longleftrightarrow>
     i < LENGTH('a) \<and> i div 8 < length bs \<and> bit (bs ! (i div 8)) (i mod 8)"
proof (induction bs arbitrary: i)
  case (Cons b bs)
  show ?case
  proof (cases "i < 8")
    case True
    then show ?thesis by (auto simp: bit_simps)
  next
    case False
    then have d: "i div 8 = Suc ((i - 8) div 8)" "i mod 8 = (i - 8) mod 8"
      by (simp_all add: le_div_geq le_mod_geq)
    have "\<not> bit b i" using False bit_imp_le_length [of b i] by auto
    then show ?thesis using False Cons.IH [of "i - 8"] d by (auto simp: bit_simps)
  qed
qed simp

lemma from_to_le_bytes:
  fixes w :: "'a::len word"
  assumes "LENGTH('a) = 8 * n"
  shows "from_le_bytes (to_le_bytes n w) = w"
proof (rule bit_word_eqI)
  fix i assume i: "i < LENGTH('a)"
  then have "i div 8 < n" using assms by (simp add: less_mult_imp_div_less mult.commute)
  moreover have "8 * (i div 8) + i mod 8 = i" by (rule mult_div_mod_eq)
  ultimately show "bit (from_le_bytes (to_le_bytes n w) :: 'a word) i = bit w i"
    using i by (auto simp: bit_from_le_bytes to_le_bytes_def bit_simps)
qed

end
