(* ===== verification/Core.thy ===== *)
theory Core
  imports Prelude
begin

text \<open>
  The crate \<open>lohalloc-core\<close> (\<open>crates/lohalloc-core/src/lib.rs\<close>): the types that the
  allocator, the decision engine and the server share, the size-class table and the
  alignment arithmetic. \<open>usize\<close> and \<open>u64\<close> are 64-bit words.

  A Rust \<open>str\<close> is a list of characters with code points below 256; \<open>trim\<close> removes the
  code points of that range that Unicode calls white space.
\<close>

section \<open>Signatures, backends, strategies and operations\<close>

datatype signature = Signature (caller_pc: u64) (size_class: u8)

text \<open>\<open>#[derive(PartialOrd, Ord)]\<close> compares the fields in order.\<close>

instantiation signature :: linorder
begin

definition less_eq_signature :: "signature \<Rightarrow> signature \<Rightarrow> bool" where
  "a \<le> b \<longleftrightarrow> caller_pc a < caller_pc b \<or>
     (caller_pc a = caller_pc b \<and> size_class a \<le> size_class b)"

definition less_signature :: "signature \<Rightarrow> signature \<Rightarrow> bool" where
  "a < b \<longleftrightarrow> caller_pc a < caller_pc b \<or>
     (caller_pc a = caller_pc b \<and> size_class a < size_class b)"

instance
  by intro_classes (auto simp: less_eq_signature_def less_signature_def signature.expand)

end

datatype backend = Slab | Buddy | System | Arena

text \<open>The discriminants, \<open>self as u8\<close>.\<close>

fun backend_u8 :: "backend \<Rightarrow> u8" where
  "backend_u8 Slab = 0"
| "backend_u8 Buddy = 1"
| "backend_u8 System = 2"
| "backend_u8 Arena = 3"

definition backend_ALL :: "backend list" where
  "backend_ALL = [Slab, Buddy, System, Arena]"

fun backend_as_str :: "backend \<Rightarrow> string" where
  "backend_as_str Slab = ''slab''"
| "backend_as_str Buddy = ''buddy''"
| "backend_as_str System = ''system''"
| "backend_as_str Arena = ''arena''"

definition is_ws :: "char \<Rightarrow> bool" where
  "is_ws c \<longleftrightarrow> (let n = (of_char c :: nat) in (9 \<le> n \<and> n \<le> 13) \<or> n = 32 \<or> n = 133 \<or> n = 160)"

definition str_trim :: "string \<Rightarrow> string" where
  "str_trim s = rev (dropWhile is_ws (rev (dropWhile is_ws s)))"

datatype strategy = Default | LatencyPriority | ThroughputPriority

fun strategy_as_str :: "strategy \<Rightarrow> string" where
  "strategy_as_str Default = ''default''"
| "strategy_as_str LatencyPriority = ''latency_priority''"
| "strategy_as_str ThroughputPriority = ''throughput_priority''"

definition parse_strategy :: "string \<Rightarrow> strategy option" where
  "parse_strategy s =
     (let t = str_trim s in
      if t = ''default'' then Some Default
      else if t = ''latency_priority'' then Some LatencyPriority
      else if t = ''throughput_priority'' then Some ThroughputPriority
      else None)"

fun preferred_backend :: "strategy \<Rightarrow> usize \<Rightarrow> backend option" where
  "preferred_backend Default sz = None"
| "preferred_backend LatencyPriority sz = (if sz \<le> 16384 then Some Slab else Some Buddy)"
| "preferred_backend ThroughputPriority sz = (if sz \<le> 16384 then Some Arena else Some Buddy)"

datatype alloc_op = Alloc | Free

fun alloc_op_as_str :: "alloc_op \<Rightarrow> string" where
  "alloc_op_as_str Alloc = ''alloc''"
| "alloc_op_as_str Free = ''free''"

definition parse_op :: "string \<Rightarrow> alloc_op option" where
  "parse_op s =
     (let t = str_trim s in
      if t = ''alloc'' then Some Alloc else if t = ''free'' then Some Free else None)"

record trace_op =
  trace_timestamp :: u64
  trace_alloc_op :: alloc_op
  trace_size :: usize
  trace_stack_hash :: u64

section \<open>The size-class table and the alignment arithmetic\<close>

definition SLAB_SIZE_CLASSES :: "usize list" where
  "SLAB_SIZE_CLASSES =
     [8, 16, 32, 64, 128, 256, 512, 1024, 2048, 4096, 8192, 16384]"

definition SLAB_MAX :: usize where "SLAB_MAX = 16384"

definition BUDDY_MAX :: usize where "BUDDY_MAX = push_bit 20 1"

definition MIN_ALIGN :: usize where "MIN_ALIGN = 16"

definition slab_class_for :: "usize \<Rightarrow> nat option" where
  "slab_class_for sz =
     (if sz > SLAB_MAX then None
      else let s = max sz 1 - 1 in Some ((64 - leading_zeros (max s 7)) - 3))"

text \<open>The shift amount of \<open>1usize << n\<close> is taken modulo 64.\<close>

definition round_up_pow2 :: "usize \<Rightarrow> usize" where
  "round_up_pow2 sz =
     (if sz \<le> 1 then 1 else push_bit ((64 - leading_zeros (sz - 1)) mod 64) 1)"

definition align_up :: "usize \<Rightarrow> usize \<Rightarrow> usize" where
  "align_up n align = (n + align - 1) AND NOT (align - 1)"

definition is_aligned :: "usize \<Rightarrow> usize \<Rightarrow> bool" where
  "is_aligned p align \<longleftrightarrow> p AND (align - 1) = 0"

section \<open>Pointers on the wire\<close>

text \<open>
  \<open>serialize_ptr\<close> writes \<open>0x{ptr:x}\<close>; \<open>deserialize_ptr\<close> trims, strips an optional
  prefix and calls \<open>u64::from_str_radix(_, 16)\<close>, which takes an optional plus sign and
  fails on an empty digit string, on a character that is no digit and on overflow.
\<close>

definition hex_digit :: "nat \<Rightarrow> char" where
  "hex_digit d = ''0123456789abcdef'' ! d"

fun hex_digits :: "nat \<Rightarrow> string" where
  "hex_digits n =
     (if n < 16 then [hex_digit n] else hex_digits (n div 16) @ [hex_digit (n mod 16)])"

declare hex_digits.simps [simp del]

definition hex_value :: "char \<Rightarrow> nat option" where
  "hex_value c =
     (let n = (of_char c :: nat) in
      if 48 \<le> n \<and> n \<le> 57 then Some (n - 48)
      else if 97 \<le> n \<and> n \<le> 102 then Some (n - 87)
      else if 65 \<le> n \<and> n \<le> 70 then Some (n - 55)
      else None)"

fun hex_accumulate :: "nat \<Rightarrow> string \<Rightarrow> nat option" where
  "hex_accumulate acc [] = Some acc"
| "hex_accumulate acc (c # cs) =
     (case hex_value c of None \<Rightarrow> None
      | Some d \<Rightarrow> (if acc * 16 + d < 2 ^ 64 then hex_accumulate (acc * 16 + d) cs else None))"

definition from_str_radix16 :: "string \<Rightarrow> u64 option" where
  "from_str_radix16 s =
     (let ds = (case s of c # cs \<Rightarrow> if c = CHR ''+'' then cs else s | [] \<Rightarrow> s) in
      if ds = [] then None else map_option of_nat (hex_accumulate 0 ds))"

definition serialize_ptr :: "u64 \<Rightarrow> string" where
  "serialize_ptr p = ''0x'' @ hex_digits (unat p)"

definition deserialize_ptr :: "string \<Rightarrow> u64 option" where
  "deserialize_ptr s =
     (let t = str_trim s;
          hex = (if take 2 t = ''0x'' then drop 2 t
                 else if take 2 t = ''0X'' then drop 2 t else t)
      in from_str_radix16 hex)"

section \<open>Lemmas\<close>

lemma backend_u8_inj: "backend_u8 a = backend_u8 b \<longleftrightarrow> a = b"
  by (cases a; cases b) simp_all

lemma backend_as_str_inj: "backend_as_str a = backend_as_str b \<longleftrightarrow> a = b"
  by (cases a; cases b) simp_all

lemma MIN_ALIGN_pow2: "MIN_ALIGN = 2 ^ 4"
  by (simp add: MIN_ALIGN_def)

lemma slab_classes_pow2: "map unat SLAB_SIZE_CLASSES = map (\<lambda>i. 2 ^ (i + 3)) [0..<12]"
  by (simp add: SLAB_SIZE_CLASSES_def upt_rec)

lemma length_slab_classes [simp]: "length SLAB_SIZE_CLASSES = 12"
  by (simp add: SLAB_SIZE_CLASSES_def)

lemma slab_class_size: "i < 12 \<Longrightarrow> unat (SLAB_SIZE_CLASSES ! i) = 2 ^ (i + 3)"
  using arg_cong [OF slab_classes_pow2, of "\<lambda>xs. xs ! i"] by simp

lemma unat_max_64: "unat (max a b :: u64) = max (unat a) (unat b)"
  by (simp add: max_def word_le_nat_alt)

lemma slab_class_for_None: "slab_class_for sz = None \<longleftrightarrow> 16384 < unat sz"
  by (simp add: slab_class_for_def SLAB_MAX_def word_less_nat_alt Let_def)

lemma slab_class_for_bit_len:
  assumes "unat sz \<le> 16384"
  shows "slab_class_for sz = Some (bit_len (max (max (unat sz) 1 - 1) 7) - 3)"
proof -
  have "unat (max sz 1 - 1) = max (unat sz) 1 - 1"
    by (subst unat_sub) (auto simp: word_le_nat_alt unat_max_64)
  then have "unat (max (max sz 1 - 1) 7) = max (max (unat sz) 1 - 1) 7"
    by (simp add: unat_max_64)
  moreover have "\<not> SLAB_MAX < sz"
    using assms by (simp add: SLAB_MAX_def word_less_nat_alt)
  ultimately show ?thesis
    by (simp add: slab_class_for_def Let_def sub_leading_zeros)
qed

lemma slab_class_le_iff:
  assumes "slab_class_for sz = Some c" and "i < 12"
  shows "c \<le> i \<longleftrightarrow> sz \<le> SLAB_SIZE_CLASSES ! i"
proof -
  let ?m = "max (max (unat sz) 1 - 1) 7"
  have le: "unat sz \<le> 16384"
    using assms(1) slab_class_for_None [of sz] by (metis not_le option.distinct(1))
  then have c: "c = bit_len ?m - 3" using assms(1) slab_class_for_bit_len by simp
  have "c \<le> i \<longleftrightarrow> bit_len ?m \<le> i + 3" by (auto simp: c)
  also have "\<dots> \<longleftrightarrow> ?m < 2 ^ (i + 3)" by (rule bit_len_le_iff)
  also have "\<dots> \<longleftrightarrow> unat sz \<le> 2 ^ (i + 3)"
  proof -
    have "(8::nat) \<le> 2 ^ (i + 3)" by (simp add: power_add)
    then show ?thesis by auto
  qed
  also have "\<dots> \<longleftrightarrow> sz \<le> SLAB_SIZE_CLASSES ! i"
    using assms(2) by (simp add: word_le_nat_alt slab_class_size)
  finally show ?thesis .
qed

lemma slab_class_bound: "slab_class_for sz = Some c \<Longrightarrow> c < 12"
proof -
  assume a: "slab_class_for sz = Some c"
  then have "unat sz \<le> 16384"
    using slab_class_for_None [of sz] by (metis not_le option.distinct(1))
  then have "sz \<le> SLAB_SIZE_CLASSES ! 11"
    by (simp add: word_le_nat_alt slab_class_size)
  then have "c \<le> 11" using slab_class_le_iff [OF a, of 11] by simp
  then show ?thesis by simp
qed

lemma unat_pow2_pos: "0 < k \<Longrightarrow> k < 64 \<Longrightarrow> 1 \<le> unat ((2::usize) ^ k)"
  by (simp add: unat_pow2_64)

lemma align_up_unat:
  assumes k: "k < 64" and ov: "unat n + (2 ^ k - 1) < 2 ^ 64"
  shows "unat (align_up n (2 ^ k)) = (unat n + (2 ^ k - 1)) div 2 ^ k * 2 ^ k"
proof -
  have m: "unat ((2::usize) ^ k - 1) = 2 ^ k - 1"
    using k by (subst unat_sub) (auto simp: word_le_nat_alt unat_pow2_64)
  have "unat (n + (2 ^ k - 1)) = unat n + (2 ^ k - 1)"
    using ov m unat_add_64 [of n "2 ^ k - 1"] by presburger
  moreover have "n + 2 ^ k - 1 = n + (2 ^ k - 1)" by (simp only: add_diff_eq)
  ultimately have "unat (n + 2 ^ k - 1) = unat n + (2 ^ k - 1)" by presburger
  then show ?thesis
    by (simp add: align_up_def pow2_minus_1_mask unat_and_not_mask)
qed

lemma is_aligned_unat:
  "is_aligned p (2 ^ k) \<longleftrightarrow> 2 ^ k dvd unat p"
  by (metis (no_types, lifting) is_aligned_def pow2_minus_1_mask unat_and_mask unsigned_eq_0_iff dvd_eq_mod_eq_0)

lemma div_round_up:
  fixes n m :: nat
  assumes "0 < d"
  shows "n \<le> (n + (d - 1)) div d * d" "(n + (d - 1)) div d * d < n + d"
    "d dvd m \<Longrightarrow> n \<le> m \<Longrightarrow> (n + (d - 1)) div d * d \<le> m"
proof -
  have e: "(n + (d - 1)) div d * d + (n + (d - 1)) mod d = n + (d - 1)"
    by (simp add: div_mult_mod_eq)
  have l: "(n + (d - 1)) mod d < d" using assms by simp
  show "n \<le> (n + (d - 1)) div d * d" using e l assms by linarith
  show "(n + (d - 1)) div d * d < n + d" using e l assms by linarith
  assume "d dvd m" and "n \<le> m"
  then obtain q where q: "m = q * d" by (metis dvd_div_mult_self)
  then have "n + (d - 1) < (q + 1) * d" using \<open>n \<le> m\<close> assms by (simp add: add_mult_distrib)
  then have "(n + (d - 1)) div d < q + 1" using assms by (simp add: div_less_iff_less_mult)
  then have "(n + (d - 1)) div d \<le> q" by (simp only: less_Suc_eq_le Suc_eq_plus1 [symmetric])
  then show "(n + (d - 1)) div d * d \<le> m" unfolding q by (rule mult_le_mono1)
qed

lemma align_up_bounds:
  assumes "k < 64" and "unat n + (2 ^ k - 1) < 2 ^ 64"
  shows "n \<le> align_up n (2 ^ k)" and "unat (align_up n (2 ^ k)) < unat n + 2 ^ k"
    and "is_aligned (align_up n (2 ^ k)) (2 ^ k)"
  using div_round_up(1,2) [of "2 ^ k" "unat n"]
  by (simp_all add: word_le_nat_alt align_up_unat [OF assms] is_aligned_unat)

lemma align_up_id:
  assumes "k < 64" and "is_aligned n (2 ^ k)" and "unat n + (2 ^ k - 1) < 2 ^ 64"
  shows "align_up n (2 ^ k) = n"
proof -
  have "unat (align_up n (2 ^ k)) \<le> unat n"
    using div_round_up(3) [of "2 ^ k" "unat n" "unat n"] assms
    by (simp add: align_up_unat is_aligned_unat)
  moreover have "unat n \<le> unat (align_up n (2 ^ k))"
    using align_up_bounds(1) [OF assms(1,3)] by (simp add: word_le_nat_alt)
  ultimately show ?thesis by (simp add: word_unat_eq_iff)
qed

lemma round_up_pow2_unat:
  assumes "unat sz \<le> 2 ^ 63"
  shows "unat (round_up_pow2 sz) = 2 ^ bit_len (max (unat sz) 1 - 1)"
proof (cases "sz \<le> 1")
  case True
  then have "max (unat sz) 1 - 1 = 0" by (simp add: word_le_nat_alt)
  then show ?thesis using True by (simp add: round_up_pow2_def)
next
  case False
  then have s: "unat (sz - 1) = unat sz - 1" "1 < unat sz"
    by (auto simp: unat_sub word_le_nat_alt)
  let ?b = "bit_len (unat sz - 1)"
  have "?b \<le> 63" using assms s(2) by (subst bit_len_le_iff) simp
  then show ?thesis
    using False s unat_pow2_64 [of ?b]
    by (simp add: round_up_pow2_def sub_leading_zeros push_bit_eq_mult)
qed

lemma round_up_pow2_wraps:
  assumes "2 ^ 63 < unat sz"
  shows "round_up_pow2 sz = 1"
proof -
  have s: "unat (sz - 1) = unat sz - 1"
    using assms by (subst unat_sub) (auto simp: word_le_nat_alt)
  have "bit_len (unat sz - 1) = 64"
    using assms unat_lt_64 [of sz] by (intro bit_len_eqI [of 63, simplified]) simp_all
  moreover have "\<not> sz \<le> 1" using assms by (simp add: word_le_nat_alt)
  ultimately show ?thesis using s by (simp add: round_up_pow2_def sub_leading_zeros)
qed

lemma dropWhile_all: "list_all P ws \<Longrightarrow> dropWhile P (ws @ s) = dropWhile P s"
  by (induction ws) auto

lemma str_trim_padded:
  assumes "list_all is_ws a" and "list_all is_ws b"
    and "t \<noteq> []" and "\<not> is_ws (hd t)" and "\<not> is_ws (last t)"
  shows "str_trim (a @ t @ b) = t"
proof -
  have "dropWhile is_ws (t @ b) = t @ b" using assms(3,4) by (cases t) auto
  moreover have "list_all is_ws (rev b)" using assms(2) by (simp add: list_all_iff)
  moreover have "dropWhile is_ws (rev t) = rev t"
    using assms(3,5) by (cases t rule: rev_cases) auto
  ultimately show ?thesis using assms(1) by (simp add: str_trim_def dropWhile_all)
qed

lemma hex_digit_table:
  "list_all (\<lambda>d. hex_value (hex_digit d) = Some d \<and> \<not> is_ws (hex_digit d)
     \<and> hex_digit d \<noteq> CHR ''+'') [0..<16]"
  by (simp add: upt_rec is_ws_def hex_digit_def hex_value_def Let_def)

lemma hex_digit_value: "d < 16 \<Longrightarrow> hex_value (hex_digit d) = Some d"
  using hex_digit_table by (simp add: list_all_iff)

lemma hex_digits_nonempty [simp]: "hex_digits n \<noteq> []"
  by (subst hex_digits.simps) simp

lemma hex_accumulate_append:
  "hex_accumulate acc (xs @ ys) =
     (case hex_accumulate acc xs of None \<Rightarrow> None | Some a \<Rightarrow> hex_accumulate a ys)"
  by (induction xs arbitrary: acc) (auto split: option.splits)

lemma hex_accumulate_digits: "n < 2 ^ 64 \<Longrightarrow> hex_accumulate 0 (hex_digits n) = Some n"
proof (induction n rule: hex_digits.induct)
  case (1 n)
  show ?case
  proof (cases "n < 16")
    case True
    then show ?thesis using 1(2) by (simp add: hex_digits.simps [of n] hex_digit_value)
  next
    case False
    then have "hex_accumulate 0 (hex_digits (n div 16)) = Some (n div 16)" using 1 by simp
    moreover have "hex_digits n = hex_digits (n div 16) @ [hex_digit (n mod 16)]"
      using False by (simp add: hex_digits.simps [of n])
    ultimately show ?thesis
      using 1(2) by (simp add: hex_accumulate_append hex_digit_value mult.commute)
  qed
qed

lemma hex_digit_alnum:
  assumes "d < 16"
  shows "\<not> is_ws (hex_digit d)" and "hex_digit d \<noteq> CHR ''+''"
  using assms hex_digit_table by (simp_all add: list_all_iff)

lemma hex_digits_chars: "c \<in> set (hex_digits n) \<Longrightarrow> \<exists>d<16. c = hex_digit d"
proof (induction n rule: hex_digits.induct)
  case (1 n)
  have "\<exists>d<16. hex_digit (n mod 16) = hex_digit d" by (intro exI [of _ "n mod 16"]) simp
  with 1 show ?case by (cases "n < 16") (auto simp: hex_digits.simps [of n])
qed

text \<open>
  The branch-free \<open>slab_class_for\<close> agrees with a linear scan of the size-class table on
  every \<open>usize\<close>: it returns the index of the first class that holds the size, and nothing
  exactly when no class does.
\<close>

lemma slab_class_is_linear_scan:
  "slab_class_for sz = find (\<lambda>i. sz \<le> SLAB_SIZE_CLASSES ! i) [0..<12]"
proof (cases "slab_class_for sz")
  case None
  then have "16384 < unat sz" by (simp add: slab_class_for_None)
  have "\<not> sz \<le> SLAB_SIZE_CLASSES ! i" if "i < 12" for i
  proof -
    have "(2::nat) ^ (i + 3) \<le> 2 ^ 14" using that by (intro power_increasing) simp_all
    then show ?thesis
      using that \<open>16384 < unat sz\<close> by (simp add: word_le_nat_alt slab_class_size)
  qed
  then show ?thesis using None by (auto simp: find_None_iff2)
next
  case (Some c)
  note c = slab_class_bound [OF Some]
  have "sz \<le> SLAB_SIZE_CLASSES ! c" using slab_class_le_iff [OF Some c] by simp
  moreover have "\<not> sz \<le> SLAB_SIZE_CLASSES ! j" if "j < c" for j
    using slab_class_le_iff [OF Some, of j] that c by simp
  ultimately have "find (\<lambda>i. sz \<le> SLAB_SIZE_CLASSES ! i) [0..<12] = Some c"
    using c by (auto simp: find_Some_iff)
  then show ?thesis using Some by simp
qed

text \<open>
  For a power-of-two alignment and when the sum does not overflow, \<open>align_up\<close> returns
  the least aligned address that is at least its argument.
\<close>

lemma align_up_least:
  assumes "k < 64" and "unat n + (2 ^ k - 1) < 2 ^ 64"
  shows "n \<le> align_up n (2 ^ k) \<and> is_aligned (align_up n (2 ^ k)) (2 ^ k) \<and>
    (\<forall>m. n \<le> m \<and> is_aligned m (2 ^ k) \<longrightarrow> align_up n (2 ^ k) \<le> m)"
  using align_up_bounds [OF assms] div_round_up(3) [of "2 ^ k" _ "unat n"]
  by (simp add: word_le_nat_alt align_up_unat [OF assms] is_aligned_unat)

text \<open>Witness: rounding 4097 up to a page gives 8192.\<close>

lemma align_up_least_witness:
  "(4097::usize) \<le> align_up 4097 (2 ^ 12) \<and> is_aligned (align_up 4097 (2 ^ 12)) (2 ^ 12)
   \<and> align_up 4097 (2 ^ 12) \<le> 8192"
  using align_up_least [of 12 4097] by (simp add: is_aligned_def)

text \<open>
  \<open>round_up_pow2\<close> returns the least power of two that is at least its argument (and at
  least 1) up to \<open>2 ^ 63\<close>; above it the shift count reaches 64 and the release build
  returns 1.
\<close>

lemma round_up_pow2_least:
  "if unat sz \<le> 2 ^ 63 then unat (round_up_pow2 sz) = 2 ^ (LEAST k. unat sz \<le> 2 ^ k)
   else round_up_pow2 sz = 1"
proof (cases "unat sz \<le> 2 ^ 63")
  case True
  let ?b = "bit_len (max (unat sz) 1 - 1)"
  have le: "?b \<le> j \<longleftrightarrow> unat sz \<le> 2 ^ j" for j
    using bit_len_le_iff [of "max (unat sz) 1 - 1" j] by auto
  have "(LEAST k. unat sz \<le> 2 ^ k) = ?b"
    by (rule Least_equality) (use le in auto)
  then show ?thesis using True round_up_pow2_unat [OF True] by simp
next
  case False
  then show ?thesis using round_up_pow2_wraps [of sz] by simp
qed

text \<open>
  A pointer written to the wire as a hexadecimal string is read back unchanged, also with
  white space around the string.
\<close>

lemma pointer_wire_roundtrip:
  assumes "list_all is_ws a" and "list_all is_ws b"
  shows "deserialize_ptr (a @ serialize_ptr p @ b) = Some p"
proof -
  let ?h = "hex_digits (unat p)"
  have "last (serialize_ptr p) = last ?h" by (simp add: serialize_ptr_def)
  moreover obtain d where "d < 16" "last ?h = hex_digit d"
    using hex_digits_chars [of "last ?h" "unat p"] by auto
  moreover have "hd (serialize_ptr p) = CHR ''0''" "serialize_ptr p \<noteq> []"
    by (simp_all add: serialize_ptr_def)
  moreover have "\<not> is_ws (CHR ''0'')" by (simp add: is_ws_def)
  ultimately have trim: "str_trim (a @ serialize_ptr p @ b) = serialize_ptr p"
    using str_trim_padded [OF assms, of "serialize_ptr p"] hex_digit_alnum(1) by metis
  obtain c cs where h: "?h = c # cs" by (cases ?h) auto
  then obtain e where "e < 16" "c = hex_digit e" using hex_digits_chars [of c "unat p"] by auto
  then have "from_str_radix16 ?h = map_option of_nat (hex_accumulate 0 ?h)"
    using h hex_digit_alnum(2) by (simp add: from_str_radix16_def)
  also have "\<dots> = Some p"
    using unat_lt_64 [of p] by (simp add: hex_accumulate_digits)
  finally have "from_str_radix16 ?h = Some p" .
  then show ?thesis
    unfolding deserialize_ptr_def trim Let_def by (simp add: serialize_ptr_def)
qed

text \<open>Witness: an address with a trailing newline.\<close>

lemma pointer_wire_roundtrip_witness:
  "deserialize_ptr ('''' @ serialize_ptr 3735928559 @ [CHR 0x0A]) = Some 3735928559"
  by (rule pointer_wire_roundtrip) (simp_all add: is_ws_def)

end
