(* ===== verification/SysBackend.thy ===== *)
theory SysBackend
  imports Core
begin

text \<open>
  The System backend (\<open>crates/lohalloc-alloc/src/system.rs\<close>): page-backed mappings and the
  retention cache for large ones. The kernel is not part of the repository, so \<open>mmap\<close> is
  an argument of the model: a function from the kernel's state and a length to an address (or
  nothing, for \<open>MAP_FAILED\<close>) and the next kernel state. \<open>munmap\<close> calls are results: an
  operation that unmaps returns the range it unmapped.
\<close>

section \<open>Mappings\<close>

record mapping =
  map_base :: usize
  map_ptr :: usize
  map_len :: usize
  map_usable :: usize

text \<open>\<open>sysconf(_SC_PAGESIZE)\<close> is the argument; an error falls back to 4096.\<close>

definition page_size :: "int \<Rightarrow> usize" where
  "page_size v = (if v \<le> 0 then 4096 else of_int v)"

definition round_to_pages :: "usize \<Rightarrow> usize \<Rightarrow> usize" where
  "round_to_pages page n = align_up n page"

definition alloc_pages ::
  "usize \<Rightarrow> ('os \<Rightarrow> usize \<Rightarrow> usize option \<times> 'os) \<Rightarrow> usize \<Rightarrow> usize \<Rightarrow> 'os \<Rightarrow> mapping option \<times> 'os"
where
  "alloc_pages page mmap sz align os =
     (if sz = 0 then (None, os)
      else
        let al = max (max align page) 1;
            need = round_to_pages page sz;
            len = (if al \<le> page then need else round_to_pages page (sz + al))
        in case mmap os len of
             (None, os') \<Rightarrow> (None, os')
           | (Some base, os') \<Rightarrow>
               if base = 0 then (None, os')
               else let p = align_up base al
                    in (Some \<lparr>map_base = base, map_ptr = p, map_len = len,
                              map_usable = (base + len) - p\<rparr>, os'))"

text \<open>\<open>Drop for Mapping\<close> and the shim's release path hand this range to \<open>munmap\<close>.\<close>

definition unmap_range :: "mapping \<Rightarrow> usize \<times> usize" where
  "unmap_range m = (map_base m, map_len m)"

section \<open>The retention cache\<close>

definition SYSCACHE_MIN_LEN :: usize where "SYSCACHE_MIN_LEN = push_bit 20 1"
definition SYSCACHE_BUCKETS :: nat where "SYSCACHE_BUCKETS = 8"
definition SYSCACHE_PER_BUCKET :: nat where "SYSCACHE_PER_BUCKET = 4"
definition SYSCACHE_MAX_BYTES :: usize where "SYSCACHE_MAX_BYTES = push_bit 20 64"

text \<open>The slot of bucket \<open>b\<close> at index \<open>i\<close> is \<open>slots (b, i)\<close>, length zero when empty.\<close>

record system_cache =
  slots :: "nat \<times> nat \<Rightarrow> usize \<times> usize"
  next_slot :: "nat \<Rightarrow> u8"
  retained :: usize

definition system_cache_new :: system_cache where
  "system_cache_new = \<lparr>slots = (\<lambda>_. (0, 0)), next_slot = (\<lambda>_. 0), retained = 0\<rparr>"

definition bucket_for :: "usize \<Rightarrow> nat" where
  "bucket_for len =
     min ((64 - leading_zeros (max len SYSCACHE_MIN_LEN) - 1) - 20) (SYSCACHE_BUCKETS - 1)"

definition align_up_addr :: "usize \<Rightarrow> usize \<Rightarrow> usize" where
  "align_up_addr a align = (a + align - 1) AND NOT (align - 1)"

fun cache_scan ::
  "system_cache \<Rightarrow> usize \<Rightarrow> usize \<Rightarrow> (nat \<times> nat) list \<Rightarrow> ((usize \<times> usize) \<times> system_cache) option"
where
  "cache_scan c tot align [] = None"
| "cache_scan c tot align (bi # rest) =
     (let (base, len) = slots c bi in
      if len = 0 then cache_scan c tot align rest
      else if align_up_addr base align + tot \<le> base + len
      then Some ((base, len), c\<lparr>slots := (slots c)(bi := (0, 0)), retained := retained c - len\<rparr>)
      else cache_scan c tot align rest)"

definition cache_get ::
  "system_cache \<Rightarrow> usize \<Rightarrow> usize \<Rightarrow> ((usize \<times> usize) \<times> system_cache) option"
where
  "cache_get c tot align =
     (let start = bucket_for tot in
      cache_scan c tot align
        (List.product [start..<min (start + 2) SYSCACHE_BUCKETS] [0..<SYSCACHE_PER_BUCKET]))"

text \<open>
  \<open>put\<close> returns whether the mapping was retained, the mapping it evicted and unmapped, and
  the cache.
\<close>

definition cache_put ::
  "system_cache \<Rightarrow> usize \<Rightarrow> usize \<Rightarrow> bool \<times> (usize \<times> usize) option \<times> system_cache"
where
  "cache_put c base len =
     (if len < SYSCACHE_MIN_LEN \<or> retained c + len > SYSCACHE_MAX_BYTES then (False, None, c)
      else
        let b = bucket_for len;
            i = unat (next_slot c b) mod SYSCACHE_PER_BUCKET;
            old = slots c (b, i);
            r = (if snd old \<noteq> 0 then retained c - snd old else retained c)
        in (True, (if snd old \<noteq> 0 then Some old else None),
            c\<lparr>next_slot := (next_slot c)(b := next_slot c b + 1),
              slots := (slots c)((b, i) := (base, len)),
              retained := r + len\<rparr>))"

section \<open>Lemmas\<close>

lemma align_up_addr_eq: "align_up_addr = align_up"
  by (simp add: fun_eq_iff align_up_addr_def align_up_def)

text \<open>What the kernel promises of an anonymous mapping.\<close>

definition mmap_ok :: "usize \<Rightarrow> ('os \<Rightarrow> usize \<Rightarrow> usize option \<times> 'os) \<Rightarrow> bool" where
  "mmap_ok page mmap \<longleftrightarrow>
     (\<forall>os len b os'. mmap os len = (Some b, os') \<longrightarrow>
        is_aligned b page \<and> unat b + unat len < 2 ^ 63)"

lemma mmap_okD:
  "mmap_ok page mmap \<Longrightarrow> mmap os len = (Some b, os') \<Longrightarrow>
     is_aligned b page \<and> unat b + unat len < 2 ^ 63"
  by (auto simp: mmap_ok_def)

lemma max_pow2: "max ((2::usize) ^ a) (2 ^ p) = 2 ^ max a p" if "a < 64" "p < 64"
  using that by (cases "a \<le> p")
    (simp_all add: max_def word_le_nat_alt unat_pow2_64 power_increasing_iff)

lemma round_to_pages_unat:
  assumes "p < 62" and "unat n < 2 ^ 62"
  shows "unat (round_to_pages (2 ^ p) n) = (unat n + (2 ^ p - 1)) div 2 ^ p * 2 ^ p"
    and "unat n \<le> unat (round_to_pages (2 ^ p) n)"
    and "unat (round_to_pages (2 ^ p) n) < unat n + 2 ^ p"
proof -
  have "(2::nat) ^ p < 2 ^ 62" using assms(1) by (rule power_strict_increasing) simp
  then have a: "p < 64" "unat n + (2 ^ p - 1) < 2 ^ 64" using assms by simp_all
  show "unat (round_to_pages (2 ^ p) n) = (unat n + (2 ^ p - 1)) div 2 ^ p * 2 ^ p"
    using align_up_unat [OF a] by (simp add: round_to_pages_def)
  show "unat n \<le> unat (round_to_pages (2 ^ p) n)"
    using align_up_bounds(1) [OF a] by (simp add: round_to_pages_def word_le_nat_alt)
  show "unat (round_to_pages (2 ^ p) n) < unat n + 2 ^ p"
    using align_up_bounds(2) [OF a] by (simp add: round_to_pages_def)
qed

text \<open>
  The length that \<open>alloc_pages\<close> asks the kernel for: whole pages, with room for the alignment when
  it is larger than a page. The kernel refuses a length in a given state when it maps nothing, or maps address 0.
\<close>

definition pages_len :: "usize \<Rightarrow> usize \<Rightarrow> usize \<Rightarrow> usize" where
  "pages_len page sz align =
     (let al = max (max align page) 1 in round_to_pages page (if al \<le> page then sz else sz + al))"

definition os_refuses :: "('os \<Rightarrow> usize \<Rightarrow> usize option \<times> 'os) \<Rightarrow> 'os \<Rightarrow> usize \<Rightarrow> bool" where
  "os_refuses mmap os len \<longleftrightarrow> fst (mmap os len) = None \<or> fst (mmap os len) = Some 0"

lemma alloc_pages_refused:
  "alloc_pages page mmap sz align os = (None, os') \<Longrightarrow> sz \<noteq> 0 \<Longrightarrow> os_refuses mmap os (pages_len page sz align)"
  by (auto simp: alloc_pages_def pages_len_def os_refuses_def Let_def split: prod.splits option.splits if_splits)

lemma pages_len_page: "pages_len page sz (max align page) = pages_len page sz align"
  by (simp add: pages_len_def)

lemma alloc_pages_None: "alloc_pages page mmap 0 align os = (None, os)"
  by (simp add: alloc_pages_def)

lemma alloc_pages_Some:
  assumes res: "alloc_pages (2 ^ p) mmap sz (2 ^ a) os = (Some m, os')"
    and ok: "mmap_ok (2 ^ p) mmap" and p: "p < 60" and a: "a < 60" and sz: "unat sz < 2 ^ 60"
  shows "is_aligned (map_ptr m) (2 ^ a)" and "is_aligned (map_ptr m) (2 ^ p)"
    and "unat (map_base m) \<le> unat (map_ptr m)"
    and "unat (map_ptr m) + unat (map_usable m) = unat (map_base m) + unat (map_len m)"
    and "unat sz \<le> unat (map_usable m)"
    and "unat (map_base m) + unat (map_len m) < 2 ^ 63"
    and "map_base m \<noteq> 0"
    and "mmap os (map_len m) = (Some (map_base m), os')"
    and "unat (map_usable m) < unat sz + 2 ^ Suc (max a p)"
proof -
  define al :: usize where "al = 2 ^ max a p"
  define len where "len = (if al \<le> 2 ^ p then round_to_pages (2 ^ p) sz
                           else round_to_pages (2 ^ p) (sz + al))"
  have mx: "max a p < 60" using p a by simp
  have pw: "(2::nat) ^ max a p < 2 ^ 60" using mx by (rule power_strict_increasing) simp
  have ual: "unat al = 2 ^ max a p" using mx by (simp add: al_def unat_pow2_64)
  have pow1: "max ((2::usize) ^ max a p) 1 = 2 ^ max a p"
    using ual by (intro max_absorb1) (simp add: word_le_nat_alt al_def)
  have al: "max (max ((2::usize) ^ a) (2 ^ p)) 1 = al"
    using p a by (simp add: max_pow2 al_def pow1)
  from res have sz0: "sz \<noteq> 0" by (auto simp: alloc_pages_def)
  with res al obtain base where mm: "mmap os len = (Some base, os')" and b0: "base \<noteq> 0"
    and m: "m = \<lparr>map_base = base, map_ptr = align_up base al, map_len = len,
                  map_usable = (base + len) - align_up base al\<rparr>"
    by (auto simp: alloc_pages_def Let_def len_def split: prod.splits option.splits if_splits)
  from mmap_okD [OF ok mm] have bal: "is_aligned base (2 ^ p)" and bl: "unat base + unat len < 2 ^ 63"
    by auto
  have g: "max a p < 64" "unat base + (2 ^ max a p - 1) < 2 ^ 64" using mx pw bl by simp_all
  note ub = align_up_bounds [OF g]
  have ab: "unat (align_up base al) < unat base + 2 ^ max a p" "unat base \<le> unat (align_up base al)"
    using ub by (simp_all add: al_def word_le_nat_alt)
  have dv: "2 ^ max a p dvd unat (align_up base al)"
    using ub(3) by (simp add: is_aligned_unat al_def)
  have "(2::nat) ^ a dvd 2 ^ max a p" "(2::nat) ^ p dvd 2 ^ max a p"
    by (simp_all add: le_imp_power_dvd)
  then show "is_aligned (map_ptr m) (2 ^ a)" and "is_aligned (map_ptr m) (2 ^ p)"
    using dv by (auto simp: m is_aligned_unat intro: dvd_trans)
  have fit: "unat (align_up base al) + unat sz \<le> unat base + unat len
      \<and> unat len < unat sz + 2 ^ Suc (max a p)"
  proof (cases "al \<le> 2 ^ p")
    case True
    then have mp: "max a p = p" using ual p by (simp add: word_le_nat_alt unat_pow2_64)
    then have "align_up base al = base"
      using align_up_id [OF _ bal] g by (simp add: al_def)
    moreover have "unat sz \<le> unat len \<and> unat len < unat sz + 2 ^ p"
      using True round_to_pages_unat(2,3) [of p sz] p sz by (simp add: len_def)
    ultimately show ?thesis using mp by simp
  next
    case False
    have s: "unat (sz + al) = unat sz + 2 ^ max a p"
      using sz pw ual unat_add_64 [of sz al] by simp
    moreover have "unat (sz + al) < 2 ^ 62" using s sz pw by simp
    ultimately have "unat sz + 2 ^ max a p \<le> unat len \<and> unat len < unat sz + 2 ^ max a p + 2 ^ p"
      using False round_to_pages_unat(2,3) [of p "sz + al"] p by (simp add: len_def)
    moreover have "(2::nat) ^ p \<le> 2 ^ max a p" by (simp add: power_increasing)
    ultimately show ?thesis using ab unfolding power_Suc by linarith
  qed
  have "unat (base + len) = unat base + unat len" using bl by (intro unat_add_64) simp
  then have us: "unat ((base + len) - align_up base al) = unat base + unat len - unat (align_up base al)"
    using fit by (subst unat_sub) (auto simp: word_le_nat_alt)
  show "unat (map_base m) \<le> unat (map_ptr m)" using ab by (simp add: m)
  show "unat (map_ptr m) + unat (map_usable m) = unat (map_base m) + unat (map_len m)"
    using us fit by (simp add: m)
  have "unat sz \<le> unat ((base + len) - align_up base al)" using us fit by linarith
  then show "unat sz \<le> unat (map_usable m)" by (simp add: m)
  show "unat (map_base m) + unat (map_len m) < 2 ^ 63" using bl by (simp add: m)
  show "map_base m \<noteq> 0" using b0 by (simp add: m)
  show "mmap os (map_len m) = (Some (map_base m), os')" using mm by (simp add: m)
  have "unat ((base + len) - align_up base al) < unat sz + 2 ^ Suc (max a p)"
    using us fit ab by linarith
  then show "unat (map_usable m) < unat sz + 2 ^ Suc (max a p)" by (simp add: m)
qed

subsection \<open>The contents of the retention cache\<close>

definition cache_ix :: "(nat \<times> nat) set" where
  "cache_ix = {..<SYSCACHE_BUCKETS} \<times> {..<SYSCACHE_PER_BUCKET}"

definition cache_entries :: "system_cache \<Rightarrow> (usize \<times> usize) multiset" where
  "cache_entries c = filter_mset (\<lambda>e. snd e \<noteq> 0) (image_mset (slots c) (mset_set cache_ix))"

definition cache_inv :: "system_cache \<Rightarrow> bool" where
  "cache_inv c \<longleftrightarrow> unat (retained c) = (\<Sum>e \<in># cache_entries c. unat (snd e))
     \<and> retained c \<le> SYSCACHE_MAX_BYTES
     \<and> (\<forall>bi \<in> cache_ix. snd (slots c bi) \<noteq> 0 \<longrightarrow>
          SYSCACHE_MIN_LEN \<le> snd (slots c bi) \<and> bucket_for (snd (slots c bi)) = fst bi)"

lemma finite_cache_ix [simp]: "finite cache_ix"
  by (simp add: cache_ix_def)

lemma bucket_for_less [simp]: "bucket_for len < SYSCACHE_BUCKETS"
  by (simp add: bucket_for_def SYSCACHE_BUCKETS_def)

lemma cache_entries_upd:
  assumes "bi \<in> cache_ix"
  shows "cache_entries (c\<lparr>slots := (slots c)(bi := e)\<rparr>) + (if snd (slots c bi) \<noteq> 0 then {#slots c bi#} else {#})
       = cache_entries c + (if snd e \<noteq> 0 then {#e#} else {#})"
proof -
  have ix: "mset_set cache_ix = add_mset bi (mset_set (cache_ix - {bi}))"
    using assms by (simp add: mset_set.remove)
  have "image_mset ((slots c)(bi := e)) (mset_set (cache_ix - {bi}))
      = image_mset (slots c) (mset_set (cache_ix - {bi}))"
    by (rule image_mset_cong) auto
  then show ?thesis by (simp add: cache_entries_def ix)
qed

lemma cache_entries_more [simp]:
  "cache_entries (c\<lparr>retained := r\<rparr>) = cache_entries c"
  "cache_entries (c\<lparr>next_slot := n\<rparr>) = cache_entries c"
  "cache_entries (c\<lparr>next_slot := n, slots := s, retained := r\<rparr>) = cache_entries (c\<lparr>slots := s\<rparr>)"
  "cache_entries (c\<lparr>next_slot := n, slots := s\<rparr>) = cache_entries (c\<lparr>slots := s\<rparr>)"
  "cache_entries (c\<lparr>slots := s, retained := r\<rparr>) = cache_entries (c\<lparr>slots := s\<rparr>)"
  by (simp_all add: cache_entries_def)

lemma cache_inv_new: "cache_inv system_cache_new"
  by (auto simp: cache_inv_def system_cache_new_def cache_entries_def)

lemma cache_scan_Some:
  assumes "cache_scan c tot align bis = Some (e, c')"
  shows "\<exists>bi \<in> set bis. e = slots c bi \<and> snd e \<noteq> 0
           \<and> align_up (fst e) align + tot \<le> fst e + snd e
           \<and> c' = c\<lparr>slots := (slots c)(bi := (0, 0)), retained := retained c - snd e\<rparr>"
  using assms
  by (induction bis) (auto simp: align_up_addr_eq split_beta split: if_splits)

lemma cache_scan_None:
  "cache_scan c tot align bis = None \<Longrightarrow> bi \<in> set bis \<Longrightarrow> snd (slots c bi) \<noteq> 0 \<Longrightarrow>
     \<not> align_up (fst (slots c bi)) align + tot \<le> fst (slots c bi) + snd (slots c bi)"
  by (induction bis) (auto simp: align_up_addr_eq split_beta split: if_splits)

lemma cache_get_Some:
  assumes "cache_get c tot align = Some (e, c')"
  shows "\<exists>bi \<in> cache_ix. e = slots c bi \<and> snd e \<noteq> 0
           \<and> align_up (fst e) align + tot \<le> fst e + snd e
           \<and> c' = c\<lparr>slots := (slots c)(bi := (0, 0)), retained := retained c - snd e\<rparr>"
proof -
  let ?bis = "List.product [bucket_for tot..<min (bucket_for tot + 2) SYSCACHE_BUCKETS]
                           [0..<SYSCACHE_PER_BUCKET]"
  have "set ?bis \<subseteq> cache_ix" by (auto simp: cache_ix_def)
  moreover from assms have "cache_scan c tot align ?bis = Some (e, c')"
    by (simp add: cache_get_def Let_def)
  ultimately show ?thesis using cache_scan_Some by blast
qed

lemma cache_entry_member:
  "bi \<in> cache_ix \<Longrightarrow> snd (slots c bi) \<noteq> 0 \<Longrightarrow> slots c bi \<in># cache_entries c"
  by (auto simp: cache_entries_def)

lemma cache_entry_le_retained:
  assumes "cache_inv c" and "e \<in># cache_entries c"
  shows "unat (snd e) \<le> unat (retained c)"
proof -
  obtain M where "cache_entries c = add_mset e M" using assms(2) by (metis mset_add)
  then show ?thesis using assms(1) by (simp add: cache_inv_def)
qed

text \<open>
  A mapping the retention cache hands out can serve the request: the aligned start plus
  the requested bytes lies within the mapping. The mapping leaves the cache, nothing else
  does, and the invariant (\<open>retained\<close> is the sum of the retained lengths, within the byte
  cap, every entry in the bucket of its length) is kept.
\<close>

lemma cache_get_serves:
  assumes inv: "cache_inv c" and get: "cache_get c tot (2 ^ a) = Some ((base, len), c')"
    and a: "a < 60" and tot: "unat tot < 2 ^ 62" and rng: "unat base + unat len < 2 ^ 63"
  shows "unat (align_up base (2 ^ a)) + unat tot \<le> unat base + unat len
    \<and> cache_entries c = add_mset (base, len) (cache_entries c') \<and> cache_inv c'"
proof -
  obtain bi where bi: "bi \<in> cache_ix" "slots c bi = (base, len)" "len \<noteq> 0"
    and fits: "align_up base (2 ^ a) + tot \<le> base + len"
    and c': "c' = c\<lparr>slots := (slots c)(bi := (0, 0)), retained := retained c - len\<rparr>"
    using cache_get_Some [OF get] by auto
  have pw: "(2::nat) ^ a < 2 ^ 60" using a by (rule power_strict_increasing) simp
  have g: "a < 64" "unat base + (2 ^ a - 1) < 2 ^ 64" using a pw rng by simp_all
  have "unat (align_up base (2 ^ a)) < unat base + 2 ^ a" by (rule align_up_bounds(2) [OF g])
  then have "unat (align_up base (2 ^ a) + tot) = unat (align_up base (2 ^ a)) + unat tot"
    using tot pw rng by (intro unat_add_64) simp
  moreover have "unat (base + len) = unat base + unat len" using rng by (intro unat_add_64) simp
  ultimately have "unat (align_up base (2 ^ a)) + unat tot \<le> unat base + unat len"
    using fits by (simp add: word_le_nat_alt)
  moreover have ent: "cache_entries c = add_mset (base, len) (cache_entries c')"
    using cache_entries_upd [OF bi(1), of c "(0, 0)"] bi(2,3) by (simp add: c')
  moreover have "cache_inv c'"
  proof -
    have le: "unat len \<le> unat (retained c)"
      using cache_entry_le_retained [OF inv cache_entry_member [OF bi(1)]] bi(2,3) by simp
    then have "unat (retained c - len) = unat (retained c) - unat len"
      by (simp add: unat_sub word_le_nat_alt)
    then show ?thesis
      using inv ent le by (auto simp: cache_inv_def c' word_le_nat_alt)
  qed
  ultimately show ?thesis by blast
qed

lemma cache_put_ok:
  assumes inv: "cache_inv c" and put: "cache_put c base len = (took, evicted, c')"
    and rng: "unat len < 2 ^ 63"
  shows "cache_entries c' + (case evicted of None \<Rightarrow> {#} | Some e \<Rightarrow> {#e#})
       = cache_entries c + (if took then {#(base, len)#} else {#})
    \<and> cache_inv c' \<and> retained c' \<le> SYSCACHE_MAX_BYTES"
proof (cases took)
  case False
  then show ?thesis using put inv
    by (auto simp: cache_put_def Let_def cache_inv_def split: if_splits)
next
  case True
  define b where "b = bucket_for len"
  define i where "i = unat (next_slot c b) mod SYSCACHE_PER_BUCKET"
  define old where "old = slots c (b, i)"
  have cond: "SYSCACHE_MIN_LEN \<le> len" "retained c + len \<le> SYSCACHE_MAX_BYTES"
    using put True by (auto simp: cache_put_def not_le split: if_splits)
  have bi: "(b, i) \<in> cache_ix"
    by (simp add: cache_ix_def b_def i_def SYSCACHE_PER_BUCKET_def)
  have len0: "len \<noteq> 0" using cond(1) by (auto simp: SYSCACHE_MIN_LEN_def word_le_nat_alt)
  have ev: "evicted = (if snd old \<noteq> 0 then Some old else None)"
    and c': "c' = c\<lparr>next_slot := (next_slot c)(b := next_slot c b + 1),
                slots := (slots c)((b, i) := (base, len)),
                retained := (if snd old \<noteq> 0 then retained c - snd old else retained c) + len\<rparr>"
    using put cond by (auto simp: cache_put_def Let_def b_def i_def old_def not_less [symmetric])
  have ent: "cache_entries c' + (if snd old \<noteq> 0 then {#old#} else {#}) = add_mset (base, len) (cache_entries c)"
    using cache_entries_upd [OF bi, of c "(base, len)"] len0
    by (cases "snd (slots c (b, i)) = 0") (simp_all add: c' old_def)
  have sum: "(\<Sum>e \<in># cache_entries c'. unat (snd e)) + unat (snd old)
           = (\<Sum>e \<in># cache_entries c. unat (snd e)) + unat len"
    using arg_cong [OF ent, of "\<lambda>M. \<Sum>e \<in># M. unat (snd e)"] by (cases "snd old = 0") auto
  have r: "unat (retained c) = (\<Sum>e \<in># cache_entries c. unat (snd e))"
    "unat (retained c) \<le> 2 ^ 26"
    using inv by (simp_all add: cache_inv_def SYSCACHE_MAX_BYTES_def word_le_nat_alt)
  have le: "unat (snd old) \<le> unat (retained c)"
    using cache_entry_le_retained [OF inv cache_entry_member [OF bi]]
    by (cases "snd old = 0") (auto simp: old_def)
  have add: "unat (retained c + len) = unat (retained c) + unat len"
    using r rng by (intro unat_add_64) simp
  have sub: "unat (retained c - snd old) = unat (retained c) - unat (snd old)"
    using le by (simp add: unat_sub word_le_nat_alt)
  have r': "unat (retained c') = unat (retained c) - unat (snd old) + unat len"
  proof -
    have "unat (retained c - snd old + len) = unat (retained c - snd old) + unat len"
      using sub r rng by (intro unat_add_64) simp
    then show ?thesis using add sub by (auto simp: c')
  qed
  have cap: "retained c' \<le> SYSCACHE_MAX_BYTES"
    using cond(2) add r' le by (simp add: word_le_nat_alt)
  have "cache_inv c'"
    unfolding cache_inv_def
  proof (intro conjI)
    show "unat (retained c') = (\<Sum>e \<in># cache_entries c'. unat (snd e))"
      using sum r r' le by linarith
    show "retained c' \<le> SYSCACHE_MAX_BYTES" by (rule cap)
    show "\<forall>bi \<in> cache_ix. snd (slots c' bi) \<noteq> 0 \<longrightarrow>
          SYSCACHE_MIN_LEN \<le> snd (slots c' bi) \<and> bucket_for (snd (slots c' bi)) = fst bi"
      using inv cond(1) by (auto simp: cache_inv_def c' b_def)
  qed
  moreover have "cache_entries c' + (case evicted of None \<Rightarrow> {#} | Some e \<Rightarrow> {#e#})
       = cache_entries c + (if took then {#(base, len)#} else {#})"
    using ent ev True by auto
  ultimately show ?thesis using cap by blast
qed

text \<open>
  Offering a mapping to the retention cache loses and duplicates nothing: when the cache
  takes it, its contents become the old ones with the new mapping and without the evicted
  (unmapped) one, and when it declines, nothing changes. The invariant is kept, so never more
  than 64 MiB are retained.
\<close>

lemma cache_put_conserves:
  assumes inv: "cache_inv c" and put: "cache_put c base len = (took, evicted, c')"
    and rng: "unat len < 2 ^ 63"
  shows "cache_entries c' + (case evicted of None \<Rightarrow> {#} | Some e \<Rightarrow> {#e#})
       = cache_entries c + (if took then {#(base, len)#} else {#})
    \<and> cache_inv c' \<and> retained c' \<le> SYSCACHE_MAX_BYTES"
  by (rule cache_put_ok [OF assms])

text \<open>
  A mapping of \<open>alloc_pages\<close> starts at an address with the requested alignment, holds
  the requested bytes, and its usable part ends where the mapped range ends; for a kernel
  that returns page-aligned ranges below \<open>2 ^ 63\<close>.
\<close>

lemma alloc_pages_serves:
  assumes "alloc_pages (2 ^ p) mmap sz (2 ^ a) os = (Some m, os')"
    and "mmap_ok (2 ^ p) mmap" and "p < 60" and "a < 60" and "unat sz < 2 ^ 60"
  shows "is_aligned (map_ptr m) (2 ^ a) \<and> map_base m \<noteq> 0
    \<and> unat (map_base m) \<le> unat (map_ptr m) \<and> unat sz \<le> unat (map_usable m)
    \<and> unat (map_ptr m) + unat (map_usable m) = unat (map_base m) + unat (map_len m)"
  using alloc_pages_Some [OF assms] by simp

text \<open>Witness: 100 bytes at 64 KiB alignment from a kernel with 4 KiB pages.\<close>

lemma alloc_pages_serves_witness:
  "let mm = (\<lambda>(n::nat) (len::usize). if unat len < 2 ^ 20 then (Some 0x12000, Suc n) else (None, n));
       m = \<lparr>map_base = 0x12000, map_ptr = 0x20000, map_len = 0x11000, map_usable = 0x3000\<rparr>
   in mmap_ok (2 ^ 12) mm \<and> alloc_pages (2 ^ 12) mm 100 (2 ^ 16) 0 = (Some m, 1)
      \<and> is_aligned (map_ptr m) (2 ^ 16) \<and> unat (100::usize) \<le> unat (map_usable m)"
proof -
  define mm where "mm = (\<lambda>(n::nat) (len::usize). if unat len < 2 ^ 20 then (Some (0x12000::usize), Suc n) else (None, n))"
  define m where "m = \<lparr>map_base = 0x12000, map_ptr = 0x20000, map_len = 0x11000, map_usable = 0x3000\<rparr>"
  have ok: "mmap_ok (2 ^ 12) mm"
    by (auto simp: mmap_ok_def mm_def is_aligned_def split: if_splits)
  have run: "alloc_pages (2 ^ 12) mm 100 (2 ^ 16) 0 = (Some m, 1)"
    by (simp add: alloc_pages_def mm_def m_def round_to_pages_def align_up_def Let_def)
  have "is_aligned (map_ptr m) (2 ^ 16) \<and> unat (100::usize) \<le> unat (map_usable m)"
    using alloc_pages_serves [OF run ok] by simp
  then show ?thesis using ok run by (simp only: Let_def mm_def m_def)
qed

text \<open>Witness: a retained 2 MiB mapping serves a request of one MiB and a half.\<close>

definition cache_sample :: system_cache where
  "cache_sample = snd (snd (cache_put system_cache_new 0x200000 0x200000))"

lemma bucket_for_sample: "bucket_for 0x200000 = 1" "bucket_for 0x180000 = 0"
  by (simp_all add: bucket_for_def leading_zeros_def SYSCACHE_MIN_LEN_def SYSCACHE_BUCKETS_def
      bit_len.simps)

lemma cache_sample_put:
  "cache_put system_cache_new 0x200000 0x200000 = (True, None, cache_sample)"
  by (simp add: cache_sample_def cache_put_def system_cache_new_def SYSCACHE_MIN_LEN_def
      SYSCACHE_MAX_BYTES_def Let_def)

lemma cache_put_conserves_witness:
  "cache_inv cache_sample \<and> cache_entries cache_sample = {#(0x200000, 0x200000)#}"
  using cache_put_conserves [OF cache_inv_new cache_sample_put]
  by (simp add: cache_entries_def system_cache_new_def image_mset_const_eq)

lemma cache_get_serves_witness:
  "\<exists>c'. cache_get cache_sample 0x180000 (2 ^ 12) = Some ((0x200000, 0x200000), c') \<and> cache_inv c'
    \<and> unat (align_up 0x200000 (2 ^ 12)) + unat (0x180000::usize) \<le> 0x400000"
proof -
  have inv: "cache_inv cache_sample"
    using cache_put_ok [OF cache_inv_new cache_sample_put] by simp
  obtain c' where get: "cache_get cache_sample 0x180000 (2 ^ 12) = Some ((0x200000, 0x200000), c')"
    by (simp add: cache_get_def bucket_for_sample cache_sample_def cache_put_def
        system_cache_new_def SYSCACHE_MIN_LEN_def SYSCACHE_MAX_BYTES_def SYSCACHE_BUCKETS_def
        SYSCACHE_PER_BUCKET_def Let_def upt_rec align_up_addr_def)
  show ?thesis using cache_get_serves [OF inv get] get by auto
qed

end
