(* ===== verification/Registry.thy ===== *)
theory Registry
  imports Core
begin

text \<open>
  The ownership registries (\<open>crates/lohalloc-alloc/src/registry.rs\<close>): three insert-only,
  open-addressed tables with linear probing and a probe bound, from the base of a slab
  segment, a buddy region or an arena chunk to its owner. Keys are \<open>usize\<close> words and zero
  is the empty key; an array of atomics is a function from the slot index.

  The operations here are those of one thread at a time, where the compare-and-exchange of a
  slot that was just read as empty succeeds. The interleaved version is in the theory
  \<open>RegistryRace\<close>.
\<close>

section \<open>Constants and the home slot\<close>

definition SEGMENT_CAPACITY :: nat where "SEGMENT_CAPACITY = 4096"
definition REGION_CAPACITY :: nat where "REGION_CAPACITY = 2048"
definition ARENA_CHUNK_CAPACITY :: nat where "ARENA_CHUNK_CAPACITY = 512"
definition PROBE_MAX :: nat where "PROBE_MAX = 32"

definition slot_for :: "usize \<Rightarrow> nat \<Rightarrow> nat" where
  "slot_for base capacity =
     unat (drop_bit 48 (base * 0x9E3779B97F4A7C15) AND (of_nat capacity - 1))"

text \<open>\<open>(idx + 1) & (CAPACITY - 1)\<close> on slot indices.\<close>

definition next_idx :: "nat \<Rightarrow> nat \<Rightarrow> nat" where
  "next_idx capacity idx = unat ((of_nat idx + 1 :: usize) AND (of_nat capacity - 1))"

section \<open>The segment registry\<close>

record segment_registry =
  seg_keys :: "nat \<Rightarrow> usize"
  seg_vals :: "nat \<Rightarrow> u8"
  seg_stripes :: "nat \<Rightarrow> u8"

definition segment_registry_new :: segment_registry where
  "segment_registry_new = \<lparr>seg_keys = (\<lambda>_. 0), seg_vals = (\<lambda>_. 0), seg_stripes = (\<lambda>_. 0)\<rparr>"

text \<open>The loops count the probes that are left.\<close>

fun seg_insert_loop ::
  "nat \<Rightarrow> nat \<Rightarrow> segment_registry \<Rightarrow> usize \<Rightarrow> u8 \<Rightarrow> u8 \<Rightarrow> bool \<times> segment_registry"
where
  "seg_insert_loop 0 idx r base cls stripe = (False, r)"
| "seg_insert_loop (Suc n) idx r base cls stripe =
     (if seg_keys r idx = base then (True, r)
      else if seg_keys r idx = 0
      then (True, r\<lparr>seg_vals := (seg_vals r)(idx := cls),
                    seg_stripes := (seg_stripes r)(idx := stripe),
                    seg_keys := (seg_keys r)(idx := base)\<rparr>)
      else seg_insert_loop n (next_idx SEGMENT_CAPACITY idx) r base cls stripe)"

definition seg_insert ::
  "segment_registry \<Rightarrow> usize \<Rightarrow> u8 \<Rightarrow> u8 \<Rightarrow> bool \<times> segment_registry" where
  "seg_insert r base cls stripe =
     seg_insert_loop PROBE_MAX (slot_for base SEGMENT_CAPACITY) r base cls stripe"

fun seg_lookup_loop :: "nat \<Rightarrow> nat \<Rightarrow> segment_registry \<Rightarrow> usize \<Rightarrow> (u8 \<times> u8) option" where
  "seg_lookup_loop 0 idx r base = None"
| "seg_lookup_loop (Suc n) idx r base =
     (if seg_keys r idx = 0 then None
      else if seg_keys r idx = base then Some (seg_vals r idx, seg_stripes r idx)
      else seg_lookup_loop n (next_idx SEGMENT_CAPACITY idx) r base)"

definition seg_lookup_full :: "segment_registry \<Rightarrow> usize \<Rightarrow> (u8 \<times> u8) option" where
  "seg_lookup_full r base =
     seg_lookup_loop PROBE_MAX (slot_for base SEGMENT_CAPACITY) r base"

definition seg_lookup :: "segment_registry \<Rightarrow> usize \<Rightarrow> u8 option" where
  "seg_lookup r base = map_option fst (seg_lookup_full r base)"

section \<open>The region registry\<close>

record region_registry =
  reg_keys :: "nat \<Rightarrow> usize"
  reg_stripes :: "nat \<Rightarrow> u8"
  reg_maps :: "nat \<Rightarrow> usize"

definition region_registry_new :: region_registry where
  "region_registry_new = \<lparr>reg_keys = (\<lambda>_. 0), reg_stripes = (\<lambda>_. 0), reg_maps = (\<lambda>_. 0)\<rparr>"

fun reg_insert_loop ::
  "nat \<Rightarrow> nat \<Rightarrow> region_registry \<Rightarrow> usize \<Rightarrow> u8 \<Rightarrow> usize \<Rightarrow> bool \<times> region_registry"
where
  "reg_insert_loop 0 idx r base stripe omap = (False, r)"
| "reg_insert_loop (Suc n) idx r base stripe omap =
     (if reg_keys r idx = base then (True, r)
      else if reg_keys r idx = 0
      then (True, r\<lparr>reg_stripes := (reg_stripes r)(idx := stripe),
                    reg_maps := (reg_maps r)(idx := omap),
                    reg_keys := (reg_keys r)(idx := base)\<rparr>)
      else reg_insert_loop n (next_idx REGION_CAPACITY idx) r base stripe omap)"

definition reg_insert ::
  "region_registry \<Rightarrow> usize \<Rightarrow> u8 \<Rightarrow> usize \<Rightarrow> bool \<times> region_registry" where
  "reg_insert r base stripe omap =
     reg_insert_loop PROBE_MAX (slot_for base REGION_CAPACITY) r base stripe omap"

fun reg_lookup_loop :: "nat \<Rightarrow> nat \<Rightarrow> region_registry \<Rightarrow> usize \<Rightarrow> (u8 \<times> usize) option" where
  "reg_lookup_loop 0 idx r base = None"
| "reg_lookup_loop (Suc n) idx r base =
     (if reg_keys r idx = 0 then None
      else if reg_keys r idx = base then Some (reg_stripes r idx, reg_maps r idx)
      else reg_lookup_loop n (next_idx REGION_CAPACITY idx) r base)"

definition reg_lookup_full :: "region_registry \<Rightarrow> usize \<Rightarrow> (u8 \<times> usize) option" where
  "reg_lookup_full r base =
     reg_lookup_loop PROBE_MAX (slot_for base REGION_CAPACITY) r base"

definition reg_lookup :: "region_registry \<Rightarrow> usize \<Rightarrow> u8 option" where
  "reg_lookup r base = map_option fst (reg_lookup_full r base)"

section \<open>The arena chunk registry\<close>

record arena_chunk_registry =
  chk_keys :: "nat \<Rightarrow> usize"
  chk_vals :: "nat \<Rightarrow> usize"

definition arena_chunk_registry_new :: arena_chunk_registry where
  "arena_chunk_registry_new = \<lparr>chk_keys = (\<lambda>_. 0), chk_vals = (\<lambda>_. 0)\<rparr>"

fun chk_insert_loop ::
  "nat \<Rightarrow> nat \<Rightarrow> arena_chunk_registry \<Rightarrow> usize \<Rightarrow> usize \<Rightarrow> bool \<times> arena_chunk_registry"
where
  "chk_insert_loop 0 idx r base meta = (False, r)"
| "chk_insert_loop (Suc n) idx r base meta =
     (if chk_keys r idx = base then (True, r)
      else if chk_keys r idx = 0
      then (True, r\<lparr>chk_vals := (chk_vals r)(idx := meta),
                    chk_keys := (chk_keys r)(idx := base)\<rparr>)
      else chk_insert_loop n (next_idx ARENA_CHUNK_CAPACITY idx) r base meta)"

definition chk_insert ::
  "arena_chunk_registry \<Rightarrow> usize \<Rightarrow> usize \<Rightarrow> bool \<times> arena_chunk_registry" where
  "chk_insert r base meta =
     chk_insert_loop PROBE_MAX (slot_for base ARENA_CHUNK_CAPACITY) r base meta"

fun chk_lookup_loop :: "nat \<Rightarrow> nat \<Rightarrow> arena_chunk_registry \<Rightarrow> usize \<Rightarrow> usize option" where
  "chk_lookup_loop 0 idx r base = None"
| "chk_lookup_loop (Suc n) idx r base =
     (if chk_keys r idx = 0 then None
      else if chk_keys r idx = base then Some (chk_vals r idx)
      else chk_lookup_loop n (next_idx ARENA_CHUNK_CAPACITY idx) r base)"

definition chk_lookup :: "arena_chunk_registry \<Rightarrow> usize \<Rightarrow> usize option" where
  "chk_lookup r base =
     chk_lookup_loop PROBE_MAX (slot_for base ARENA_CHUNK_CAPACITY) r base"

definition chk_contains :: "arena_chunk_registry \<Rightarrow> usize \<Rightarrow> bool" where
  "chk_contains r base \<longleftrightarrow> chk_lookup r base \<noteq> None"

section \<open>Bounded linear probing\<close>

text \<open>The slots a loop visits, and the first one that stops it.\<close>

fun probe_seq :: "nat \<Rightarrow> nat \<Rightarrow> nat \<Rightarrow> nat list" where
  "probe_seq capacity 0 idx = []"
| "probe_seq capacity (Suc n) idx = idx # probe_seq capacity n (next_idx capacity idx)"

definition probe_stop :: "(nat \<Rightarrow> usize) \<Rightarrow> usize \<Rightarrow> nat \<Rightarrow> bool" where
  "probe_stop keys base i \<longleftrightarrow> keys i = base \<or> keys i = 0"

definition probe_find :: "nat \<Rightarrow> (nat \<Rightarrow> usize) \<Rightarrow> usize \<Rightarrow> nat option" where
  "probe_find capacity keys base =
     find (probe_stop keys base) (probe_seq capacity PROBE_MAX (slot_for base capacity))"

lemma find_prefix_cong:
  "find P xs = Some j \<Longrightarrow> Q j \<Longrightarrow> (\<And>x. \<not> P x \<Longrightarrow> \<not> Q x) \<Longrightarrow> find Q xs = Some j"
  by (induction xs) (auto split: if_splits)

lemma find_SomeD: "find P xs = Some j \<Longrightarrow> P j \<and> j \<in> set xs"
  by (induction xs) (auto split: if_splits)

lemma pow2_word_mask: "k < 64 \<Longrightarrow> (of_nat (2 ^ k) :: usize) - 1 = mask k"
  by (simp add: mask_eq_exp_minus_1)

lemma slot_for_less: "k < 64 \<Longrightarrow> slot_for base (2 ^ k) < 2 ^ k"
  by (simp only: slot_for_def pow2_word_mask unat_and_mask) simp

lemma next_idx_less: "k < 64 \<Longrightarrow> next_idx (2 ^ k) idx < 2 ^ k"
  by (simp only: next_idx_def pow2_word_mask unat_and_mask) simp

lemma probe_seq_less: "k < 64 \<Longrightarrow> idx < 2 ^ k \<Longrightarrow> i \<in> set (probe_seq (2 ^ k) n idx) \<Longrightarrow> i < 2 ^ k"
  by (induction n arbitrary: idx) (auto intro: next_idx_less)

text \<open>Every stored key is where probing for it stops.\<close>

definition probe_inv :: "nat \<Rightarrow> (nat \<Rightarrow> usize) \<Rightarrow> bool" where
  "probe_inv capacity keys \<longleftrightarrow>
     (\<forall>i < capacity. keys i \<noteq> 0 \<longrightarrow> probe_find capacity keys (keys i) = Some i)"

text \<open>A history of insertions, and those of them that were accepted.\<close>

fun run_inserts ::
  "('t \<Rightarrow> usize \<Rightarrow> 'v \<Rightarrow> bool \<times> 't) \<Rightarrow> (usize \<times> 'v) list \<Rightarrow> 't \<Rightarrow> (usize \<times> 'v) list \<times> 't"
where
  "run_inserts ins [] t = ([], t)"
| "run_inserts ins (op # ops) t =
     (let (ok, t') = ins t (fst op) (snd op); (acc, t'') = run_inserts ins ops t'
      in (if ok then op # acc else acc, t''))"

text \<open>
  The interface of a registry: where its keys and payloads are, and what its two operations
  do at the slot where probing stops.
\<close>

locale probe_table =
  fixes log_capacity :: nat
    and keys :: "'t \<Rightarrow> nat \<Rightarrow> usize"
    and payload :: "'t \<Rightarrow> nat \<Rightarrow> 'v"
    and ins :: "'t \<Rightarrow> usize \<Rightarrow> 'v \<Rightarrow> bool \<times> 't"
    and look :: "'t \<Rightarrow> usize \<Rightarrow> 'v option"
    and empty :: 't
  assumes log_capacity: "log_capacity < 64"
    and keys_empty: "keys empty i = 0"
    and look_eq: "look t b =
      (case probe_find (2 ^ log_capacity) (keys t) b of None \<Rightarrow> None
       | Some i \<Rightarrow> if keys t i = 0 then None else Some (payload t i))"
    and ins_full: "probe_find (2 ^ log_capacity) (keys t) b = None \<Longrightarrow> ins t b v = (False, t)"
    and ins_present: "probe_find (2 ^ log_capacity) (keys t) b = Some i \<Longrightarrow> keys t i = b \<Longrightarrow>
      ins t b v = (True, t)"
    and ins_free: "probe_find (2 ^ log_capacity) (keys t) b = Some i \<Longrightarrow> keys t i \<noteq> b \<Longrightarrow>
      \<exists>t'. ins t b v = (True, t') \<and> keys t' = (keys t)(i := b) \<and> payload t' = (payload t)(i := v)"
begin

lemma probe_find_less:
  "probe_find (2 ^ log_capacity) ks b = Some i \<Longrightarrow> i < 2 ^ log_capacity \<and> probe_stop ks b i"
  using log_capacity unfolding probe_find_def
  by (blast dest: find_SomeD intro: probe_seq_less slot_for_less)

abbreviation table_inv :: "'t \<Rightarrow> bool" where
  "table_inv t \<equiv> probe_inv (2 ^ log_capacity) (keys t)"

lemma table_inv_empty: "table_inv empty"
  by (simp add: probe_inv_def keys_empty)

lemma look_empty: "look empty b = None"
  by (auto simp: look_eq keys_empty split: option.splits)

lemma probe_find_other:
  assumes "probe_find c ks k = Some j" and "ks j = k" and "k \<noteq> 0" and "ks i = 0"
  shows "probe_find c (ks(i := b)) k = Some j"
  unfolding probe_find_def
  by (rule find_prefix_cong [OF assms(1) [unfolded probe_find_def]])
    (use assms in \<open>auto simp: probe_stop_def\<close>)

lemma probe_find_self:
  assumes "probe_find c ks b = Some i" and "ks i = 0"
  shows "probe_find c (ks(i := b)) b = Some i"
  unfolding probe_find_def
  by (rule find_prefix_cong [OF assms(1) [unfolded probe_find_def]])
    (use assms in \<open>auto simp: probe_stop_def\<close>)

lemma ins_free_look:
  assumes inv: "table_inv t" and pf: "probe_find (2 ^ log_capacity) (keys t) b = Some i"
    and ne: "keys t i \<noteq> b" and b: "b \<noteq> 0" and res: "ins t b v = (ok, t')"
  shows "ok \<and> look t b = None \<and> look t' b = Some v \<and> (\<forall>c. c \<noteq> 0 \<longrightarrow> c \<noteq> b \<longrightarrow> look t' c = look t c)
    \<and> table_inv t'"
proof -
  let ?C = "2 ^ log_capacity"
  have ki: "keys t i = 0" and i: "i < ?C"
    using probe_find_less [OF pf] ne by (auto simp: probe_stop_def)
  have t': "keys t' = (keys t)(i := b)" "payload t' = (payload t)(i := v)" and ok: "ok"
    using ins_free [OF pf ne, of v] res by auto
  have old: "probe_find ?C (keys t') k = Some j" if "probe_find ?C (keys t) k = Some j" "keys t j = k" "k \<noteq> 0" for k j
    using probe_find_other [OF that ki] t' by simp
  have self: "probe_find ?C (keys t') b = Some i" using probe_find_self [OF pf ki] t' by simp
  have inv': "table_inv t'"
    using inv self old by (auto simp: probe_inv_def t'(1))
  have other: "look t' c = look t c" if c: "c \<noteq> 0" "c \<noteq> b" for c
  proof (cases "look t c")
    case (Some w)
    then obtain j where j: "probe_find ?C (keys t) c = Some j" "keys t j \<noteq> 0"
      by (auto simp: look_eq split: option.splits if_splits)
    moreover have kj: "keys t j = c" using probe_find_less [OF j(1)] j(2) by (auto simp: probe_stop_def)
    ultimately show ?thesis using old [OF j(1) kj c(1)] ki t' by (auto simp: look_eq)
  next
    case None
    show ?thesis
    proof (cases "look t' c")
      case (Some w)
      then obtain j where j: "probe_find ?C (keys t') c = Some j" "keys t' j \<noteq> 0"
        by (auto simp: look_eq split: option.splits if_splits)
      then have kj: "keys t' j = c" and jl: "j < ?C"
        using probe_find_less [OF j(1)] by (auto simp: probe_stop_def)
      then have "j \<noteq> i" and "keys t j = c" using t'(1) c by (auto split: if_splits)
      then have "probe_find ?C (keys t) c = Some j" using inv jl c by (auto simp: probe_inv_def)
      then show ?thesis using None \<open>keys t j = c\<close> c by (simp add: look_eq)
    qed (use None in simp)
  qed
  show ?thesis using ok self inv' other b pf ki t' by (simp add: look_eq)
qed

lemma ins_correct:
  assumes inv: "table_inv t" and b: "b \<noteq> 0" and res: "ins t b v = (ok, t')"
  shows "table_inv t'
    \<and> look t' b = (if ok then Some (case look t b of None \<Rightarrow> v | Some w \<Rightarrow> w) else look t b)
    \<and> (\<forall>c. c \<noteq> 0 \<longrightarrow> c \<noteq> b \<longrightarrow> look t' c = look t c)
    \<and> (\<not> ok \<longrightarrow> t' = t \<and> look t b = None)"
proof (cases "probe_find (2 ^ log_capacity) (keys t) b")
  case None
  then show ?thesis using ins_full [OF None, of v] res inv by (auto simp: look_eq)
next
  case (Some i)
  show ?thesis
  proof (cases "keys t i = b")
    case True
    then show ?thesis using ins_present [OF Some True, of v] res inv Some b by (auto simp: look_eq)
  next
    case False
    then show ?thesis using ins_free_look [OF inv Some False b res] by simp
  qed
qed

lemma ins_fails_iff:
  "fst (ins t b v) \<longleftrightarrow> (\<exists>i \<in> set (probe_seq (2 ^ log_capacity) PROBE_MAX (slot_for b (2 ^ log_capacity))).
     keys t i = b \<or> keys t i = 0)"
proof (cases "probe_find (2 ^ log_capacity) (keys t) b")
  case None
  then show ?thesis using ins_full [OF None, of v]
    by (auto simp: probe_find_def find_None_iff probe_stop_def)
next
  case (Some i)
  have "fst (ins t b v)"
    using ins_present [OF Some, of v] ins_free [OF Some, of v] by (cases "keys t i = b") auto
  moreover have "i \<in> set (probe_seq (2 ^ log_capacity) PROBE_MAX (slot_for b (2 ^ log_capacity)))"
    and "keys t i = b \<or> keys t i = 0"
    using find_SomeD [OF Some [unfolded probe_find_def]] by (auto simp: probe_stop_def)
  ultimately show ?thesis by blast
qed

lemma run_inserts_look:
  assumes "table_inv t" and "\<forall>op \<in> set ops. fst op \<noteq> 0" and "run_inserts ins ops t = (acc, t')"
  shows "table_inv t' \<and> (\<forall>c. c \<noteq> 0 \<longrightarrow> look t' c = (map_of acc ++ look t) c)"
  using assms
proof (induction ops arbitrary: t acc)
  case (Cons op ops)
  obtain ok t1 where i: "ins t (fst op) (snd op) = (ok, t1)" by force
  obtain acc1 where r: "run_inserts ins ops t1 = (acc1, t')"
    and acc: "acc = (if ok then op # acc1 else acc1)"
    using Cons.prems(3) i by (auto simp: split_beta prod_eq_iff)
  have b: "fst op \<noteq> 0" using Cons.prems(2) by simp
  note c = ins_correct [OF Cons.prems(1) b i]
  have "table_inv t' \<and> (\<forall>c. c \<noteq> 0 \<longrightarrow> look t' c = (map_of acc1 ++ look t1) c)"
    using Cons.IH [of t1 acc1] c Cons.prems(2) r by simp
  then show ?case using c acc
    by (cases op) (auto simp: map_add_def split: option.splits if_splits)
qed simp

end

section \<open>The three registries are probe tables\<close>

lemma seg_lookup_loop_find:
  "seg_lookup_loop n idx r b =
     (case find (probe_stop (seg_keys r) b) (probe_seq SEGMENT_CAPACITY n idx) of None \<Rightarrow> None
      | Some i \<Rightarrow> if seg_keys r i = 0 then None else Some (seg_vals r i, seg_stripes r i))"
  by (induction n arbitrary: idx) (auto simp: probe_stop_def)

lemma seg_insert_loop_find:
  "seg_insert_loop n idx r b cls st =
     (case find (probe_stop (seg_keys r) b) (probe_seq SEGMENT_CAPACITY n idx) of None \<Rightarrow> (False, r)
      | Some i \<Rightarrow> (True, if seg_keys r i = b then r
          else r\<lparr>seg_vals := (seg_vals r)(i := cls), seg_stripes := (seg_stripes r)(i := st),
                 seg_keys := (seg_keys r)(i := b)\<rparr>))"
  by (induction n arbitrary: idx) (auto simp: probe_stop_def)

lemma reg_lookup_loop_find:
  "reg_lookup_loop n idx r b =
     (case find (probe_stop (reg_keys r) b) (probe_seq REGION_CAPACITY n idx) of None \<Rightarrow> None
      | Some i \<Rightarrow> if reg_keys r i = 0 then None else Some (reg_stripes r i, reg_maps r i))"
  by (induction n arbitrary: idx) (auto simp: probe_stop_def)

lemma reg_insert_loop_find:
  "reg_insert_loop n idx r b st om =
     (case find (probe_stop (reg_keys r) b) (probe_seq REGION_CAPACITY n idx) of None \<Rightarrow> (False, r)
      | Some i \<Rightarrow> (True, if reg_keys r i = b then r
          else r\<lparr>reg_stripes := (reg_stripes r)(i := st), reg_maps := (reg_maps r)(i := om),
                 reg_keys := (reg_keys r)(i := b)\<rparr>))"
  by (induction n arbitrary: idx) (auto simp: probe_stop_def)

lemma chk_lookup_loop_find:
  "chk_lookup_loop n idx r b =
     (case find (probe_stop (chk_keys r) b) (probe_seq ARENA_CHUNK_CAPACITY n idx) of None \<Rightarrow> None
      | Some i \<Rightarrow> if chk_keys r i = 0 then None else Some (chk_vals r i))"
  by (induction n arbitrary: idx) (auto simp: probe_stop_def)

lemma chk_insert_loop_find:
  "chk_insert_loop n idx r b v =
     (case find (probe_stop (chk_keys r) b) (probe_seq ARENA_CHUNK_CAPACITY n idx) of None \<Rightarrow> (False, r)
      | Some i \<Rightarrow> (True, if chk_keys r i = b then r
          else r\<lparr>chk_vals := (chk_vals r)(i := v), chk_keys := (chk_keys r)(i := b)\<rparr>))"
  by (induction n arbitrary: idx) (auto simp: probe_stop_def)

lemmas probe_loops =
  seg_lookup_loop_find seg_insert_loop_find reg_lookup_loop_find reg_insert_loop_find
  chk_lookup_loop_find chk_insert_loop_find

lemma capacity_pow2:
  "SEGMENT_CAPACITY = 2 ^ 12" "REGION_CAPACITY = 2 ^ 11" "ARENA_CHUNK_CAPACITY = 2 ^ 9"
  by (simp_all add: SEGMENT_CAPACITY_def REGION_CAPACITY_def ARENA_CHUNK_CAPACITY_def)

interpretation seg: probe_table 12 seg_keys "\<lambda>r i. (seg_vals r i, seg_stripes r i)"
  "\<lambda>r b v. seg_insert r b (fst v) (snd v)" seg_lookup_full segment_registry_new
  by unfold_locales
    (auto simp: seg_insert_def seg_lookup_full_def probe_loops capacity_pow2 probe_find_def
      segment_registry_new_def probe_stop_def split: option.splits)

interpretation reg: probe_table 11 reg_keys "\<lambda>r i. (reg_stripes r i, reg_maps r i)"
  "\<lambda>r b v. reg_insert r b (fst v) (snd v)" reg_lookup_full region_registry_new
  by unfold_locales
    (auto simp: reg_insert_def reg_lookup_full_def probe_loops capacity_pow2 probe_find_def
      region_registry_new_def probe_stop_def split: option.splits)

interpretation chk: probe_table 9 chk_keys chk_vals chk_insert chk_lookup arena_chunk_registry_new
  by unfold_locales
    (auto simp: chk_insert_def chk_lookup_def probe_loops capacity_pow2 probe_find_def
      arena_chunk_registry_new_def probe_stop_def split: option.splits)

section \<open>Properties of the registries\<close>

text \<open>
  C39: Whatever bases are registered, in whatever order and however often, a lookup in the
  segment registry returns the class and stripe of the first accepted registration of its base,
  and nothing for a base with no accepted registration: later registrations never overwrite,
  hide or duplicate an entry, and colliding bases do not disturb each other.
\<close>
theorem seg_registry_history:
  assumes "\<forall>op \<in> set ops. fst op \<noteq> 0"
    and "run_inserts (\<lambda>r b v. seg_insert r b (fst v) (snd v)) ops segment_registry_new = (acc, r)"
    and "c \<noteq> 0"
  shows "seg_lookup_full r c = map_of acc c \<and> seg_lookup r c = map_option fst (map_of acc c)"
  using seg.run_inserts_look [OF seg.table_inv_empty assms(1,2)] assms(3)
  by (auto simp: seg.look_empty seg_lookup_def map_add_def split: option.splits)

text \<open>Two bases that share a home slot.\<close>

lemma seg_registry_history_witness:
  "seg_lookup_full (snd (run_inserts (\<lambda>r b v. seg_insert r b (fst v) (snd v))
      [(0x10000, (3, 0)), (0x20000, (5, 1)), (0x10000, (7, 2))] segment_registry_new)) 0x10000
   = Some (3, 0)"
proof -
  let ?ops = "[(0x10000, (3, 0)), (0x20000, (5, 1)), (0x10000, (7, 2))] :: (usize \<times> u8 \<times> u8) list"
  obtain acc r where e: "run_inserts (\<lambda>r b v. seg_insert r b (fst v) (snd v)) ?ops
      segment_registry_new = (acc, r)" by force
  have "fst (run_inserts (\<lambda>r b v. seg_insert r b (fst v) (snd v)) ?ops segment_registry_new) = ?ops"
    by code_simp
  then show ?thesis using seg_registry_history [OF _ e, where c = "0x10000"] e by simp
qed

text \<open>
  A registration is refused only when the bounded probe is saturated, that is when all the
  slots it visits hold other bases; a refused registration leaves the registry as it was and
  its base unknown. An accepted one is found by the next lookup.
\<close>
lemma seg_insert_outcome:
  "fst (seg_insert r b cls st) \<longleftrightarrow>
     (\<exists>i \<in> set (probe_seq SEGMENT_CAPACITY PROBE_MAX (slot_for b SEGMENT_CAPACITY)).
        seg_keys r i = b \<or> seg_keys r i = 0)"
  using seg.ins_fails_iff [of r b "(cls, st)"] by (simp add: capacity_pow2)

text \<open>
  Registering the base of a buddy region keeps every other region's owner and page map, and
  makes this base known with the given stripe and map, unless it was known already (then its first entry stays) or
  the probe is saturated (then nothing changes).
\<close>
lemma reg_insert_frame:
  assumes "probe_inv REGION_CAPACITY (reg_keys r)" and "b \<noteq> 0"
    and "reg_insert r b stripe omap = (ok, r')"
  shows "probe_inv REGION_CAPACITY (reg_keys r')
    \<and> reg_lookup_full r' b = (if ok then Some (case reg_lookup_full r b of None \<Rightarrow> (stripe, omap) | Some w \<Rightarrow> w)
                             else reg_lookup_full r b)
    \<and> (\<forall>c. c \<noteq> 0 \<longrightarrow> c \<noteq> b \<longrightarrow> reg_lookup_full r' c = reg_lookup_full r c)
    \<and> (\<not> ok \<longrightarrow> r' = r \<and> reg_lookup_full r b = None)"
  using reg.ins_correct [of r b "(stripe, omap)" ok r'] assms by (simp add: capacity_pow2)

lemma reg_insert_frame_witness:
  "reg_lookup_full (snd (reg_insert region_registry_new 0x40000000 3 0x7000)) 0x40000000
     = Some (3, 0x7000)"
proof -
  obtain ok r where e: "reg_insert region_registry_new 0x40000000 3 0x7000 = (ok, r)" by force
  have "fst (reg_insert region_registry_new 0x40000000 3 0x7000)" by code_simp
  moreover have "probe_inv REGION_CAPACITY (reg_keys region_registry_new)"
    by (simp add: probe_inv_def region_registry_new_def)
  ultimately show ?thesis
    using reg_insert_frame [OF _ _ e] e reg.look_empty by simp
qed

text \<open>
  After any history of registrations, a chunk base is contained in the arena chunk registry
  exactly when one of its registrations was accepted, and its lookup returns the metadata
  address of the first accepted one.
\<close>
lemma chk_registry_history:
  assumes "\<forall>op \<in> set ops. fst op \<noteq> 0"
    and "run_inserts chk_insert ops arena_chunk_registry_new = (acc, r)"
    and "c \<noteq> 0"
  shows "chk_lookup r c = map_of acc c \<and> (chk_contains r c \<longleftrightarrow> c \<in> fst ` set acc)"
proof -
  have "chk_lookup r c = map_of acc c"
    using chk.run_inserts_look [OF chk.table_inv_empty assms(1,2)] assms(3)
    by (auto simp: chk.look_empty map_add_def split: option.splits)
  then show ?thesis by (simp add: chk_contains_def map_of_eq_None_iff)
qed

lemma chk_registry_history_witness:
  "chk_contains (snd (run_inserts chk_insert [(0x400000, 0x99), (0x800000, 0x77)]
      arena_chunk_registry_new)) 0x800000"
proof -
  let ?ops = "[(0x400000, 0x99), (0x800000, 0x77)] :: (usize \<times> usize) list"
  obtain acc r where e: "run_inserts chk_insert ?ops arena_chunk_registry_new = (acc, r)" by force
  have "fst (run_inserts chk_insert ?ops arena_chunk_registry_new) = ?ops" by code_simp
  then show ?thesis using chk_registry_history [OF _ e, where c = "0x800000"] e by simp
qed

end
