(* ===== verification/RegistryRace.thy ===== *)
theory RegistryRace
  imports Registry
begin

text \<open>
  The segment registry under interleaving (\<open>SegmentRegistry::insert\<close> and \<open>lookup_full\<close> of
  \<open>crates/lohalloc-alloc/src/registry.rs\<close>, one step per atomic access, in a sequentially
  consistent memory). The module's documentation asks for a single writer. Then every lookup, whatever it
  overlaps, gives nothing or what an insertion of that very base carried. The callers in \<open>lib.rs\<close>
  only hold the lock of their own stripe; with one writer per stripe there is a run that publishes a base
  with the class of another one.
\<close>

section \<open>Programs, one atomic access at a time\<close>

text \<open>
  Where a thread is: at the load of a key, the two payload stores, the compare-and-exchange or the two payload
  loads of slot \<open>idx\<close> with the given probes left (the current one included), or done.
\<close>

datatype pc =
    Idle
  | InsLoad usize u8 u8 nat nat
  | InsVal usize u8 u8 nat nat
  | InsStripe usize u8 u8 nat nat
  | InsCas usize u8 u8 nat nat
  | InsDone usize bool
  | LookLoad usize nat nat
  | LookVal usize nat
  | LookStripe usize nat u8
  | LookDone usize "(u8 \<times> u8) option"

definition ins_start :: "usize \<Rightarrow> u8 \<Rightarrow> u8 \<Rightarrow> pc" where
  "ins_start base cls stripe = InsLoad base cls stripe PROBE_MAX (slot_for base SEGMENT_CAPACITY)"

definition look_start :: "usize \<Rightarrow> pc" where
  "look_start base = LookLoad base PROBE_MAX (slot_for base SEGMENT_CAPACITY)"

text \<open>The slot after \<open>idx\<close>, or the end of the loop when no probe is left.\<close>

definition ins_next :: "usize \<Rightarrow> u8 \<Rightarrow> u8 \<Rightarrow> nat \<Rightarrow> nat \<Rightarrow> pc" where
  "ins_next base cls stripe n idx =
     (if n \<le> 1 then InsDone base False
      else InsLoad base cls stripe (n - 1) (next_idx SEGMENT_CAPACITY idx))"

fun thread_step :: "pc \<Rightarrow> segment_registry \<Rightarrow> pc \<times> segment_registry" where
  "thread_step (InsLoad base cls stripe n idx) r =
     (if n = 0 then (InsDone base False, r)
      else let existing = seg_keys r idx
           in if existing = base then (InsDone base True, r)
              else if existing = 0 then (InsVal base cls stripe n idx, r)
              else (ins_next base cls stripe n idx, r))"
| "thread_step (InsVal base cls stripe n idx) r =
     (InsStripe base cls stripe n idx, r\<lparr>seg_vals := (seg_vals r)(idx := cls)\<rparr>)"
| "thread_step (InsStripe base cls stripe n idx) r =
     (InsCas base cls stripe n idx, r\<lparr>seg_stripes := (seg_stripes r)(idx := stripe)\<rparr>)"
| "thread_step (InsCas base cls stripe n idx) r =
     (if seg_keys r idx = 0 then (InsDone base True, r\<lparr>seg_keys := (seg_keys r)(idx := base)\<rparr>)
      else if seg_keys r idx = base then (InsDone base True, r)
      else (ins_next base cls stripe n idx, r))"
| "thread_step (LookLoad base n idx) r =
     (if n = 0 then (LookDone base None, r)
      else let k = seg_keys r idx
           in if k = 0 then (LookDone base None, r)
              else if k = base then (LookVal base idx, r)
              else (LookLoad base (n - 1) (next_idx SEGMENT_CAPACITY idx), r))"
| "thread_step (LookVal base idx) r = (LookStripe base idx (seg_vals r idx), r)"
| "thread_step (LookStripe base idx v) r = (LookDone base (Some (v, seg_stripes r idx)), r)"
| "thread_step Idle r = (Idle, r)"
| "thread_step (InsDone base ok) r = (InsDone base ok, r)"
| "thread_step (LookDone base v) r = (LookDone base v, r)"

fun inserting :: "pc \<Rightarrow> bool" where
  "inserting (InsLoad _ _ _ _ _) = True"
| "inserting (InsVal _ _ _ _ _) = True"
| "inserting (InsStripe _ _ _ _ _) = True"
| "inserting (InsCas _ _ _ _ _) = True"
| "inserting _ = False"

fun pc_stripe :: "pc \<Rightarrow> u8" where
  "pc_stripe (InsLoad _ _ s _ _) = s"
| "pc_stripe (InsVal _ _ s _ _) = s"
| "pc_stripe (InsStripe _ _ s _ _) = s"
| "pc_stripe (InsCas _ _ s _ _) = s"
| "pc_stripe _ = 0"

fun running :: "pc \<Rightarrow> bool" where
  "running Idle = False"
| "running (InsDone _ _) = False"
| "running (LookDone _ _) = False"
| "running _ = True"

section \<open>Interleaving\<close>

text \<open>
  A state is the table, the place of each thread and the insertions begun so far. Under the discipline of the
  documentation a thread may begin an insertion when no other thread is inserting; under the one of the
  callers, when no thread is inserting for its stripe, whose lock it holds.
\<close>

record race_state =
  tab :: segment_registry
  pcs :: "nat \<Rightarrow> pc"
  begun :: "(usize \<times> u8 \<times> u8) set"

definition race_init :: race_state where
  "race_init = \<lparr>tab = segment_registry_new, pcs = (\<lambda>_. Idle), begun = {}\<rparr>"

definition single_writer :: "race_state \<Rightarrow> u8 \<Rightarrow> bool" where
  "single_writer s stripe \<longleftrightarrow> (\<forall>t. \<not> inserting (pcs s t))"

definition stripe_writer :: "race_state \<Rightarrow> u8 \<Rightarrow> bool" where
  "stripe_writer s stripe \<longleftrightarrow> (\<forall>t. inserting (pcs s t) \<longrightarrow> pc_stripe (pcs s t) \<noteq> stripe)"

inductive race_step :: "(race_state \<Rightarrow> u8 \<Rightarrow> bool) \<Rightarrow> race_state \<Rightarrow> race_state \<Rightarrow> bool" for allowed where
  begin_insert: "\<not> running (pcs s t) \<Longrightarrow> allowed s stripe \<Longrightarrow> base \<noteq> 0 \<Longrightarrow>
    race_step allowed s (s\<lparr>pcs := (pcs s)(t := ins_start base cls stripe),
                           begun := insert (base, cls, stripe) (begun s)\<rparr>)"
| begin_lookup: "\<not> running (pcs s t) \<Longrightarrow>
    race_step allowed s (s\<lparr>pcs := (pcs s)(t := look_start base)\<rparr>)"
| step: "running (pcs s t) \<Longrightarrow> thread_step (pcs s t) (tab s) = (p, r) \<Longrightarrow>
    race_step allowed s (s\<lparr>tab := r, pcs := (pcs s)(t := p)\<rparr>)"

inductive race_reach :: "(race_state \<Rightarrow> u8 \<Rightarrow> bool) \<Rightarrow> race_state \<Rightarrow> bool" for allowed where
  init: "race_reach allowed race_init"
| more: "race_reach allowed s \<Longrightarrow> race_step allowed s s' \<Longrightarrow> race_reach allowed s'"

section \<open>One writer\<close>

text \<open>What holds of a thread at its place, given the table and the insertions begun.\<close>

fun pc_ok :: "segment_registry \<Rightarrow> (usize \<times> u8 \<times> u8) set \<Rightarrow> pc \<Rightarrow> bool" where
  "pc_ok r B (InsLoad base cls stripe n idx) \<longleftrightarrow> base \<noteq> 0 \<and> (base, cls, stripe) \<in> B"
| "pc_ok r B (InsVal base cls stripe n idx) \<longleftrightarrow> base \<noteq> 0 \<and> (base, cls, stripe) \<in> B \<and> seg_keys r idx = 0"
| "pc_ok r B (InsStripe base cls stripe n idx) \<longleftrightarrow> base \<noteq> 0 \<and> (base, cls, stripe) \<in> B \<and> seg_keys r idx = 0
     \<and> seg_vals r idx = cls"
| "pc_ok r B (InsCas base cls stripe n idx) \<longleftrightarrow> base \<noteq> 0 \<and> (base, cls, stripe) \<in> B \<and> seg_keys r idx = 0
     \<and> seg_vals r idx = cls \<and> seg_stripes r idx = stripe"
| "pc_ok r B (LookVal base idx) \<longleftrightarrow> base \<noteq> 0 \<and> seg_keys r idx = base"
| "pc_ok r B (LookStripe base idx v) \<longleftrightarrow> base \<noteq> 0 \<and> seg_keys r idx = base \<and> seg_vals r idx = v"
| "pc_ok r B (LookDone base (Some w)) \<longleftrightarrow> (base, w) \<in> B"
| "pc_ok r B _ \<longleftrightarrow> True"

definition race_inv :: "race_state \<Rightarrow> bool" where
  "race_inv s \<longleftrightarrow>
     (\<forall>i. seg_keys (tab s) i \<noteq> 0 \<longrightarrow> (seg_keys (tab s) i, seg_vals (tab s) i, seg_stripes (tab s) i) \<in> begun s)
     \<and> (\<forall>t. pc_ok (tab s) (begun s) (pcs s t))
     \<and> (\<forall>t t'. inserting (pcs s t) \<longrightarrow> inserting (pcs s t') \<longrightarrow> t = t')"

text \<open>Published slots do not change, and only an insertion changes the table.\<close>

definition grows :: "segment_registry \<Rightarrow> segment_registry \<Rightarrow> bool" where
  "grows r r' \<longleftrightarrow> (\<forall>i. seg_keys r i \<noteq> 0 \<longrightarrow>
     seg_keys r' i = seg_keys r i \<and> seg_vals r' i = seg_vals r i \<and> seg_stripes r' i = seg_stripes r i)"

lemma thread_step_ok:
  assumes "pc_ok r B p" and "\<forall>i. seg_keys r i \<noteq> 0 \<longrightarrow> (seg_keys r i, seg_vals r i, seg_stripes r i) \<in> B"
    and "thread_step p r = (p', r')"
  shows "pc_ok r' B p'" and "\<forall>i. seg_keys r' i \<noteq> 0 \<longrightarrow> (seg_keys r' i, seg_vals r' i, seg_stripes r' i) \<in> B"
    and "grows r r'" and "inserting p' \<Longrightarrow> inserting p" and "\<not> inserting p \<Longrightarrow> r' = r"
  using assms
  by (cases p; auto simp: Let_def ins_next_def grows_def split: if_splits)+

lemma pc_ok_grows:
  assumes "pc_ok r B p" and "\<not> inserting p" and "grows r r'" and "B \<subseteq> B'"
  shows "pc_ok r' B' p"
proof (cases p)
  case (LookDone base w)
  then show ?thesis using assms by (cases w) auto
qed (use assms in \<open>auto simp: grows_def\<close>)

lemma pc_ok_mono: "pc_ok r B p \<Longrightarrow> B \<subseteq> B' \<Longrightarrow> pc_ok r B' p"
  by (cases "(r, B, p)" rule: pc_ok.cases) auto

lemma race_inv_step:
  assumes "race_step single_writer s s'" and inv: "race_inv s"
  shows "race_inv s'"
  using assms(1)
proof cases
  case (begin_insert t stripe base cls)
  have none: "\<not> inserting (pcs s u)" for u using begin_insert(3) by (simp add: single_writer_def)
  have "pc_ok (tab s) (begun s) (pcs s u)" for u using inv by (simp add: race_inv_def)
  then have "pc_ok (tab s) (insert (base, cls, stripe) (begun s)) (pcs s u)" for u
    by (rule pc_ok_mono) blast
  then show ?thesis using inv begin_insert(1,4) none
    by (auto simp: race_inv_def ins_start_def)
next
  case (begin_lookup t base)
  then show ?thesis using inv by (auto simp: race_inv_def look_start_def)
next
  case (step t p r)
  have I: "pc_ok (tab s) (begun s) (pcs s u)" "\<forall>i. seg_keys (tab s) i \<noteq> 0 \<longrightarrow>
      (seg_keys (tab s) i, seg_vals (tab s) i, seg_stripes (tab s) i) \<in> begun s"
    "\<And>t t'. inserting (pcs s t) \<Longrightarrow> inserting (pcs s t') \<Longrightarrow> t = t'" for u
    using inv by (auto simp: race_inv_def)
  note T = thread_step_ok [OF I(1,2) step(3)]
  have "pc_ok r (begun s) (pcs s u)" if "u \<noteq> t" for u
  proof (cases "inserting (pcs s u)")
    case True
    then have "\<not> inserting (pcs s t)" using I(3) that by blast
    then show ?thesis using T(5) I(1) by simp
  next
    case False
    then show ?thesis by (rule pc_ok_grows [OF I(1) _ T(3)]) simp
  qed
  then show ?thesis using T(1,2,4) I(3) step(1) by (auto simp: race_inv_def)
qed

lemma race_reach_inv: "race_reach single_writer s \<Longrightarrow> race_inv s"
proof (induction rule: race_reach.induct)
  case init
  then show ?case by (simp add: race_inv_def race_init_def segment_registry_new_def)
next
  case (more s s')
  then show ?case using race_inv_step by blast
qed

section \<open>Runs\<close>

text \<open>The threads of a list make one step each, in that order.\<close>

fun schedule :: "nat list \<Rightarrow> race_state \<Rightarrow> race_state option" where
  "schedule [] s = Some s"
| "schedule (t # ts) s =
     (if running (pcs s t)
      then let (p, r) = thread_step (pcs s t) (tab s) in schedule ts (s\<lparr>tab := r, pcs := (pcs s)(t := p)\<rparr>)
      else None)"

lemma schedule_reach: "race_reach allowed s \<Longrightarrow> schedule ts s = Some s' \<Longrightarrow> race_reach allowed s'"
proof (induction ts arbitrary: s)
  case (Cons t ts)
  obtain p r where p: "thread_step (pcs s t) (tab s) = (p, r)" by force
  have run: "running (pcs s t)" using Cons.prems(2) by (auto split: if_splits)
  have "race_reach allowed (s\<lparr>tab := r, pcs := (pcs s)(t := p)\<rparr>)"
    by (rule race_reach.more [OF Cons.prems(1) race_step.step [OF run p]])
  then show ?case using Cons.IH Cons.prems(2) run p by simp
qed simp

text \<open>Two bases of the same home slot, registered by two threads for their own stripes.\<close>

definition two_writers :: race_state where
  "two_writers = race_init\<lparr>
     pcs := (\<lambda>_. Idle)(0 := ins_start 0x1f0000 1 0, 1 := ins_start 0x43c0000 2 1),
     begun := {(0x43c0000, 2, 1), (0x1f0000, 1, 0)}\<rparr>"

lemma two_writers_reach: "race_reach stripe_writer two_writers"
proof -
  let ?s = "race_init\<lparr>pcs := (pcs race_init)(0 := ins_start 0x1f0000 1 0), begun := insert (0x1f0000, 1, 0) (begun race_init)\<rparr>"
  have "race_step stripe_writer race_init ?s"
    by (rule race_step.begin_insert) (simp_all add: race_init_def stripe_writer_def)
  then have r: "race_reach stripe_writer ?s" by (rule race_reach.more [OF race_reach.init])
  have "race_step stripe_writer ?s (?s\<lparr>pcs := (pcs ?s)(1 := ins_start 0x43c0000 2 1),
      begun := insert (0x43c0000, 2, 1) (begun ?s)\<rparr>)"
    by (rule race_step.begin_insert) (simp_all add: race_init_def stripe_writer_def ins_start_def)
  from race_reach.more [OF r this] show ?thesis by (simp add: two_writers_def race_init_def)
qed

lemma first_writer_publishes:
  "map_option (\<lambda>s. (pcs s 0, pcs s 2)) (schedule [0, 1, 0, 0, 1, 1, 0] two_writers) = Some (InsDone 0x1f0000 True, Idle)"
  by code_simp

lemma lookup_gets_other:
  "map_option (\<lambda>s. pcs s 2) (Option.bind (schedule [0, 1, 0, 0, 1, 1, 0] two_writers)
     (\<lambda>s. schedule [2, 2, 2] (s\<lparr>pcs := (pcs s)(2 := look_start 0x1f0000)\<rparr>))) = Some (LookDone 0x1f0000 (Some (2, 1)))"
  by code_simp

lemma schedule_begun: "schedule ts s = Some s' \<Longrightarrow> begun s' = begun s"
  by (induction ts arbitrary: s) (auto split: if_splits prod.splits)

section \<open>Without interference\<close>

text \<open>A thread that runs alone, for a number of steps.\<close>

fun alone :: "nat \<Rightarrow> pc \<times> segment_registry \<Rightarrow> pc \<times> segment_registry" where
  "alone 0 s = s"
| "alone (Suc n) s = alone n (thread_step (fst s) (snd s))"

lemma alone_insert:
  assumes "base \<noteq> 0" and "seg_insert_loop (Suc n) idx r base cls stripe = (ok, r')"
  shows "\<exists>m. alone m (InsLoad base cls stripe (Suc n) idx, r) = (InsDone base ok, r')"
  using assms(2)
proof (induction n arbitrary: idx)
  case 0
  then show ?case using assms(1)
    by (auto intro: exI [of _ 1] exI [of _ 4] simp: ins_next_def numeral_eq_Suc split: if_splits)
next
  case (Suc n)
  consider "seg_keys r idx = base" | "seg_keys r idx = 0" | "seg_keys r idx \<noteq> base" "seg_keys r idx \<noteq> 0" by blast
  then show ?case
  proof cases
    case 1
    then show ?thesis using Suc.prems by (intro exI [of _ 1]) auto
  next
    case 2
    then show ?thesis using Suc.prems assms(1) by (intro exI [of _ 4]) (auto simp: numeral_eq_Suc)
  next
    case 3
    then have "seg_insert_loop (Suc n) (next_idx SEGMENT_CAPACITY idx) r base cls stripe = (ok, r')"
      using Suc.prems by simp
    then obtain m where "alone m (InsLoad base cls stripe (Suc n) (next_idx SEGMENT_CAPACITY idx), r) = (InsDone base ok, r')"
      using Suc.IH by blast
    then show ?thesis using 3 by (intro exI [of _ "Suc m"]) (simp add: ins_next_def)
  qed
qed

lemma alone_lookup:
  assumes "base \<noteq> 0"
  shows "\<exists>m. alone m (LookLoad base n idx, r) = (LookDone base (seg_lookup_loop n idx r base), r)"
proof (induction n arbitrary: idx)
  case 0
  show ?case by (intro exI [of _ 1]) simp
next
  case (Suc n)
  obtain m where "alone m (LookLoad base n (next_idx SEGMENT_CAPACITY idx), r)
      = (LookDone base (seg_lookup_loop n (next_idx SEGMENT_CAPACITY idx) r base), r)" using Suc.IH by blast
  then show ?case using assms
    by (cases "seg_keys r idx = 0"; cases "seg_keys r idx = base")
      (auto intro: exI [of _ 1] exI [of _ 3] exI [of _ "Suc m"] simp: numeral_eq_Suc)
qed

section \<open>Properties\<close>

text \<open>
  C12: With a single writer at a time, as the module documents, a lookup that overlaps the stores of an
  insertion in any way finds nothing or the class and stripe of an insertion of that very base.
\<close>
theorem registry_single_writer:
  assumes "race_reach single_writer s" and "pcs s t = LookDone base (Some (cls, stripe))"
  shows "(base, cls, stripe) \<in> begun s"
proof -
  have "pc_ok (tab s) (begun s) (pcs s t)" using race_reach_inv [OF assms(1)] by (simp add: race_inv_def)
  then show ?thesis using assms(2) by simp
qed

lemma one_writer_reach:
  "\<exists>s. race_reach single_writer s \<and> pcs s 1 = LookDone 0x1f0000 (Some (5, 7))"
proof -
  let ?s = "race_init\<lparr>pcs := (pcs race_init)(0 := ins_start 0x1f0000 5 7), begun := insert (0x1f0000, 5, 7) (begun race_init)\<rparr>"
  have "race_step single_writer race_init ?s"
    by (rule race_step.begin_insert) (simp_all add: race_init_def single_writer_def)
  then have r: "race_reach single_writer ?s" by (rule race_reach.more [OF race_reach.init])
  have "race_step single_writer ?s (?s\<lparr>pcs := (pcs ?s)(1 := look_start 0x1f0000)\<rparr>)"
    by (rule race_step.begin_lookup) (simp add: race_init_def)
  then have r2: "race_reach single_writer (?s\<lparr>pcs := (pcs ?s)(1 := look_start 0x1f0000)\<rparr>)"
    by (rule race_reach.more [OF r])
  have "map_option (\<lambda>s. pcs s 1) (schedule [0, 0, 0, 0, 1, 1, 1] (?s\<lparr>pcs := (pcs ?s)(1 := look_start 0x1f0000)\<rparr>))
      = Some (LookDone 0x1f0000 (Some (5, 7)))"
    by code_simp
  then obtain s where s: "schedule [0, 0, 0, 0, 1, 1, 1] (?s\<lparr>pcs := (pcs ?s)(1 := look_start 0x1f0000)\<rparr>) = Some s"
    "pcs s 1 = LookDone 0x1f0000 (Some (5, 7))" unfolding map_option_eq_Some by blast
  show ?thesis using schedule_reach [OF r2 s(1)] s(2) by blast
qed

lemma registry_single_writer_witness:
  "\<exists>s. race_reach single_writer s \<and> pcs s 1 = LookDone 0x1f0000 (Some (5, 7)) \<and> (0x1f0000, 5, 7) \<in> begun s"
  using one_writer_reach registry_single_writer by blast

text \<open>
  C20: With one writer per stripe, which is what the callers' stripe locks give, a lookup can find a base with
  a class and a stripe that no insertion of the base carried: the payload of the slot is overwritten by
  another writer between the first writer's stores and its compare-and-exchange.
\<close>
theorem registry_stripe_writers_race:
  "\<exists>s. race_reach stripe_writer s \<and> pcs s 0 = InsDone 0x1f0000 True \<and> pcs s 2 = LookDone 0x1f0000 (Some (2, 1))
     \<and> {p \<in> begun s. fst p = 0x1f0000} = {(0x1f0000, 1, 0)}"
proof -
  obtain s where s: "schedule [0, 1, 0, 0, 1, 1, 0] two_writers = Some s" "pcs s 0 = InsDone 0x1f0000 True" "pcs s 2 = Idle"
    using first_writer_publishes by (auto simp: map_option_case split: option.splits)
  let ?s = "s\<lparr>pcs := (pcs s)(2 := look_start 0x1f0000)\<rparr>"
  have r: "race_reach stripe_writer s" by (rule schedule_reach [OF two_writers_reach s(1)])
  have "race_step stripe_writer s ?s" by (rule race_step.begin_lookup) (simp add: s(3))
  then have r2: "race_reach stripe_writer ?s" by (rule race_reach.more [OF r])
  obtain u where u: "schedule [2, 2, 2] ?s = Some u" "pcs u 2 = LookDone 0x1f0000 (Some (2, 1))"
    using lookup_gets_other unfolding s(1) by (auto simp: map_option_case split: option.splits)
  have "pcs u 0 = pcs s 0" using u(1) by (auto split: if_splits prod.splits)
  moreover have "begun u = {(0x43c0000, 2, 1), (0x1f0000, 1, 0)}"
    using schedule_begun [OF u(1)] schedule_begun [OF s(1)] by (simp add: two_writers_def)
  ultimately show ?thesis using schedule_reach [OF r2 u(1)] u(2) s(2) by (intro exI [of _ u]) auto
qed

text \<open>
  C21: A thread whose accesses are not interleaved with others does what the sequential operations of the
  model do: an insertion ends with the result and the table of \<open>seg_insert\<close>, a lookup with the result of
  \<open>seg_lookup_full\<close> and the table unchanged.
\<close>
theorem registry_alone_refines:
  assumes "base \<noteq> 0"
  shows "(\<exists>m. alone m (ins_start base cls stripe, r)
          = (InsDone base (fst (seg_insert r base cls stripe)), snd (seg_insert r base cls stripe)))
    \<and> (\<exists>m. alone m (look_start base, r) = (LookDone base (seg_lookup_full r base), r))"
proof -
  have p: "PROBE_MAX = Suc 31" by (simp add: PROBE_MAX_def)
  obtain ok r' where "seg_insert r base cls stripe = (ok, r')" by force
  then show ?thesis
    using alone_insert [OF assms, of 31 "slot_for base SEGMENT_CAPACITY" r cls stripe ok r']
      alone_lookup [OF assms, of PROBE_MAX "slot_for base SEGMENT_CAPACITY" r]
    by (simp add: seg_insert_def seg_lookup_full_def ins_start_def look_start_def p)
qed

lemma registry_alone_refines_witness:
  "\<exists>m. fst (alone m (ins_start 0x10000 4 2, segment_registry_new)) = InsDone 0x10000 True"
proof -
  have "fst (seg_insert segment_registry_new 0x10000 4 2)" by code_simp
  moreover obtain m where "alone m (ins_start 0x10000 4 2, segment_registry_new)
      = (InsDone 0x10000 (fst (seg_insert segment_registry_new 0x10000 4 2)), snd (seg_insert segment_registry_new 0x10000 4 2))"
    using registry_alone_refines [of "0x10000" 4 2 segment_registry_new] by auto
  ultimately show ?thesis by (intro exI [of _ m]) simp
qed

end
