(* ===== verification/HotTls.thy ===== *)
theory HotTls
  imports Core
begin

text \<open>
  The merged per-thread hot block (\<open>crates/lohalloc-alloc/src/hot.rs\<close>): one record with the
  fields of \<open>HotTls\<close>, its nested \<open>ArenaSpan\<close> and the pin cache, and the accessors of the
  two depth counters. Pointers are \<open>usize\<close> words where the code stores integers (\<open>table\<close>
  included, a pointer that is only compared) and \<open>addr\<close> for the magazine slots.
\<close>

definition MAG_CLASSES :: nat where "MAG_CLASSES = 12"
definition MAG_MAX_CAP :: nat where "MAG_MAX_CAP = 32"
definition PIN_ENTRIES :: nat where "PIN_ENTRIES = 64"
definition PIN_SC_SLOTS :: nat where "PIN_SC_SLOTS = 16"
definition PIN_UNKNOWN :: u8 where "PIN_UNKNOWN = 0xFE"
definition PIN_NOT_PINNED :: u8 where "PIN_NOT_PINNED = 0xFF"

record pin_entry =
  pin_table :: usize
  pin_ret0 :: usize
  pin_states :: "nat \<Rightarrow> u8"

record arena_span =
  span_owner :: u64
  span_epoch :: u64
  span_cursor :: usize
  span_end :: usize
  span_meta :: usize
  span_blocks :: usize

record hot_tls =
  in_alloc :: usize
  export_depth :: usize
  ahr :: u64
  thread_stripe :: usize
  mag_owner :: u64
  seg_base :: usize
  seg_class :: u8
  seg_owner :: u64
  arena_free_base :: usize
  arena_free_meta :: usize
  arena_free_owner :: u64
  arena_free_pending :: usize
  mag_counts :: "nat \<Rightarrow> u8"
  slab_scan_miss_epoch :: "nat \<Rightarrow> u32"
  span :: arena_span
  mag_slots :: "nat \<Rightarrow> nat \<Rightarrow> addr"
  pin :: "nat \<Rightarrow> pin_entry"

text \<open>The const initialiser of the thread-local block.\<close>

definition pin_entry_init :: pin_entry where
  "pin_entry_init = \<lparr>pin_table = 0, pin_ret0 = 0, pin_states = (\<lambda>_. PIN_UNKNOWN)\<rparr>"

definition arena_span_init :: arena_span where
  "arena_span_init = \<lparr>span_owner = 0, span_epoch = 0, span_cursor = 0, span_end = 0,
     span_meta = 0, span_blocks = 0\<rparr>"

definition HOT :: hot_tls where
  "HOT = \<lparr>in_alloc = 0, export_depth = 0, ahr = 0, thread_stripe = - 1, mag_owner = 0,
     seg_base = 0, seg_class = 0, seg_owner = 0, arena_free_base = 0, arena_free_meta = 0,
     arena_free_owner = 0, arena_free_pending = 0, mag_counts = (\<lambda>_. 0),
     slab_scan_miss_epoch = (\<lambda>_. 0), span = arena_span_init, mag_slots = (\<lambda>_ _. 0),
     pin = (\<lambda>_. pin_entry_init)\<rparr>"

definition in_alloc_get :: "hot_tls \<Rightarrow> usize" where "in_alloc_get h = in_alloc h"
definition in_alloc_set :: "hot_tls \<Rightarrow> usize \<Rightarrow> hot_tls" where "in_alloc_set h v = h\<lparr>in_alloc := v\<rparr>"
definition export_depth_get :: "hot_tls \<Rightarrow> usize" where "export_depth_get h = export_depth h"
definition export_depth_set :: "hot_tls \<Rightarrow> usize \<Rightarrow> hot_tls" where
  "export_depth_set h v = h\<lparr>export_depth := v\<rparr>"

end
