(* ===== verification/Magazine.thy ===== *)
theory Magazine
  imports HotTls
begin

text \<open>
  The per-thread magazines: \<open>magazine.rs\<close> (slab classes, whose state lives in the hot block)
  and \<open>buddy_mag.rs\<close> (buddy orders 10 to 14, with a block of its own). Both are bounded
  stacks tagged with the id of the allocator instance that owns their contents; the locale
  \<open>bounded_stacks\<close> states what the two have in common, and both interpret it.
\<close>

section \<open>Slab magazines (magazine.rs)\<close>

definition CLASS_CAPS :: "u8 list" where
  "CLASS_CAPS = [32, 32, 32, 32, 32, 32, 16, 16, 8, 8, 4, 4]"

definition mag_refill_count :: "nat \<Rightarrow> nat" where
  "mag_refill_count cls = max (unat (CLASS_CAPS ! cls) div 2) 1"

definition mag_ensure_owner :: "hot_tls \<Rightarrow> u64 \<Rightarrow> hot_tls" where
  "mag_ensure_owner h ownr =
     (if mag_owner h \<noteq> ownr then h\<lparr>mag_counts := (\<lambda>_. 0), mag_owner := ownr\<rparr> else h)"

definition mag_pop :: "hot_tls \<Rightarrow> u64 \<Rightarrow> nat \<Rightarrow> addr option \<times> hot_tls" where
  "mag_pop h ownr cls =
     (let h = mag_ensure_owner h ownr; n = mag_counts h cls
      in if n = 0 then (None, h)
         else let n = n - 1; h = h\<lparr>mag_counts := (mag_counts h)(cls := n)\<rparr>
              in (Some (mag_slots h cls (unat n)), h))"

definition mag_push :: "hot_tls \<Rightarrow> u64 \<Rightarrow> nat \<Rightarrow> addr \<Rightarrow> bool \<times> hot_tls" where
  "mag_push h ownr cls block =
     (let h = mag_ensure_owner h ownr; n = mag_counts h cls
      in if n \<ge> CLASS_CAPS ! cls then (False, h)
         else (True, h\<lparr>mag_slots := (mag_slots h)(cls := (mag_slots h cls)(unat n := block)),
                      mag_counts := (mag_counts h)(cls := n + 1)\<rparr>))"

text \<open>\<open>take\<close> writes into a buffer of length \<open>len\<close>; the model returns what it wrote.\<close>

definition mag_take :: "hot_tls \<Rightarrow> u64 \<Rightarrow> nat \<Rightarrow> nat \<Rightarrow> addr list \<times> hot_tls" where
  "mag_take h ownr cls len =
     (let h = mag_ensure_owner h ownr; hv = unat (mag_counts h cls); tk = min hv len
      in (map (\<lambda>i. mag_slots h cls (hv - 1 - i)) [0..<tk],
          h\<lparr>mag_counts := (mag_counts h)(cls := of_nat (hv - tk))\<rparr>))"

section \<open>Buddy magazines (buddy\_mag.rs)\<close>

definition MIN_MAGAZINE_ORDER :: nat where "MIN_MAGAZINE_ORDER = 10"
definition MAX_MAGAZINE_ORDER :: nat where "MAX_MAGAZINE_ORDER = 14"
definition NUM_MAG_ORDERS :: nat where
  "NUM_MAG_ORDERS = MAX_MAGAZINE_ORDER - MIN_MAGAZINE_ORDER + 1"

definition ORDER_CAPS :: "u8 list" where "ORDER_CAPS = [32, 16, 8, 4, 2]"

definition index_for :: "nat \<Rightarrow> nat option" where
  "index_for order =
     (if MIN_MAGAZINE_ORDER \<le> order \<and> order \<le> MAX_MAGAZINE_ORDER
      then Some (order - MIN_MAGAZINE_ORDER) else None)"

definition bm_refill_count :: "nat \<Rightarrow> nat" where
  "bm_refill_count idx = max (unat (ORDER_CAPS ! idx) div 2) 1"

record buddy_mag =
  bm_owner :: u64
  bm_counts :: "nat \<Rightarrow> u8"
  bm_slots :: "nat \<Rightarrow> nat \<Rightarrow> addr"

definition MAG :: buddy_mag where
  "MAG = \<lparr>bm_owner = 0, bm_counts = (\<lambda>_. 0), bm_slots = (\<lambda>_ _. 0)\<rparr>"

definition bm_ensure_owner :: "buddy_mag \<Rightarrow> u64 \<Rightarrow> buddy_mag" where
  "bm_ensure_owner m ownr =
     (if bm_owner m \<noteq> ownr then m\<lparr>bm_counts := (\<lambda>_. 0), bm_owner := ownr\<rparr> else m)"

definition bm_pop :: "buddy_mag \<Rightarrow> u64 \<Rightarrow> nat \<Rightarrow> addr option \<times> buddy_mag" where
  "bm_pop m ownr idx =
     (let m = bm_ensure_owner m ownr; n = bm_counts m idx
      in if n = 0 then (None, m)
         else let n = n - 1; m = m\<lparr>bm_counts := (bm_counts m)(idx := n)\<rparr>
              in (Some (bm_slots m idx (unat n)), m))"

definition bm_push :: "buddy_mag \<Rightarrow> u64 \<Rightarrow> nat \<Rightarrow> addr \<Rightarrow> bool \<times> buddy_mag" where
  "bm_push m ownr idx block =
     (let m = bm_ensure_owner m ownr; n = bm_counts m idx
      in if n \<ge> ORDER_CAPS ! idx then (False, m)
         else (True, m\<lparr>bm_slots := (bm_slots m)(idx := (bm_slots m idx)(unat n := block)),
                      bm_counts := (bm_counts m)(idx := n + 1)\<rparr>))"

definition bm_take :: "buddy_mag \<Rightarrow> u64 \<Rightarrow> nat \<Rightarrow> nat \<Rightarrow> addr list \<times> buddy_mag" where
  "bm_take m ownr idx len =
     (let m = bm_ensure_owner m ownr; hv = unat (bm_counts m idx); tk = min hv len
      in (map (\<lambda>i. bm_slots m idx (hv - 1 - i)) [0..<tk],
          m\<lparr>bm_counts := (bm_counts m)(idx := of_nat (hv - tk))\<rparr>))"

section \<open>Bounded stacks with an owner\<close>

text \<open>The contents of a magazine row as its owner sees it, top of the stack first.\<close>

definition row_stack :: "(nat \<Rightarrow> addr) \<Rightarrow> nat \<Rightarrow> addr list" where
  "row_stack slots n = map slots (rev [0..<n])"

definition mag_stack :: "hot_tls \<Rightarrow> u64 \<Rightarrow> nat \<Rightarrow> addr list" where
  "mag_stack h ownr cls =
     (if mag_owner h = ownr then row_stack (mag_slots h cls) (unat (mag_counts h cls)) else [])"

definition bm_stack :: "buddy_mag \<Rightarrow> u64 \<Rightarrow> nat \<Rightarrow> addr list" where
  "bm_stack m ownr idx =
     (if bm_owner m = ownr then row_stack (bm_slots m idx) (unat (bm_counts m idx)) else [])"

text \<open>
  A history of magazine operations by any number of instances: the pushes that were accepted
  and the blocks that were handed out, each tagged with the instance and the row.
\<close>

datatype mag_op = MPop u64 nat | MPush u64 nat addr | MTake u64 nat nat

type_synonym mag_event = "(u64 \<times> nat) \<times> addr"

fun mag_step ::
  "('s \<Rightarrow> u64 \<Rightarrow> nat \<Rightarrow> addr option \<times> 's) \<Rightarrow> ('s \<Rightarrow> u64 \<Rightarrow> nat \<Rightarrow> addr \<Rightarrow> bool \<times> 's) \<Rightarrow>
   ('s \<Rightarrow> u64 \<Rightarrow> nat \<Rightarrow> nat \<Rightarrow> addr list \<times> 's) \<Rightarrow> 's \<Rightarrow> mag_op \<Rightarrow>
   mag_event list \<times> mag_event list \<times> 's"
where
  "mag_step pop push tk s (MPop w k) =
     (case pop s w k of (None, s') \<Rightarrow> ([], [], s') | (Some b, s') \<Rightarrow> ([], [((w, k), b)], s'))"
| "mag_step pop push tk s (MPush w k b) =
     (case push s w k b of (ok, s') \<Rightarrow> (if ok then [((w, k), b)] else [], [], s'))"
| "mag_step pop push tk s (MTake w k n) =
     (case tk s w k n of (bs, s') \<Rightarrow> ([], map (Pair (w, k)) bs, s'))"

fun mag_run ::
  "('s \<Rightarrow> u64 \<Rightarrow> nat \<Rightarrow> addr option \<times> 's) \<Rightarrow> ('s \<Rightarrow> u64 \<Rightarrow> nat \<Rightarrow> addr \<Rightarrow> bool \<times> 's) \<Rightarrow>
   ('s \<Rightarrow> u64 \<Rightarrow> nat \<Rightarrow> nat \<Rightarrow> addr list \<times> 's) \<Rightarrow> 's \<Rightarrow> mag_op list \<Rightarrow>
   mag_event list \<times> mag_event list \<times> 's"
where
  "mag_run pop push tk s [] = ([], [], s)"
| "mag_run pop push tk s (op # ops) =
     (let (a, v, s1) = mag_step pop push tk s op; (a', v', s2) = mag_run pop push tk s1 ops
      in (a @ a', v @ v', s2))"

fun op_row :: "mag_op \<Rightarrow> u64 \<times> nat" where
  "op_row (MPop w k) = (w, k)"
| "op_row (MPush w k b) = (w, k)"
| "op_row (MTake w k n) = (w, k)"

definition events_of :: "u64 \<times> nat \<Rightarrow> mag_event list \<Rightarrow> addr multiset" where
  "events_of r es = mset (map snd (filter (\<lambda>e. fst e = r) es))"

lemma events_of_simps [simp]:
  "events_of r [] = {#}"
  "events_of r (e # es) = (if fst e = r then {#snd e#} else {#}) + events_of r es"
  "events_of r (es @ fs) = events_of r es + events_of r fs"
  "events_of r (map (Pair q) bs) = (if q = r then mset bs else {#})"
  by (auto simp: events_of_def) (induction bs; simp)+

locale bounded_stacks =
  fixes rows :: nat
    and cap :: "nat \<Rightarrow> nat"
    and stk :: "'s \<Rightarrow> u64 \<Rightarrow> nat \<Rightarrow> addr list"
    and pop :: "'s \<Rightarrow> u64 \<Rightarrow> nat \<Rightarrow> addr option \<times> 's"
    and push :: "'s \<Rightarrow> u64 \<Rightarrow> nat \<Rightarrow> addr \<Rightarrow> bool \<times> 's"
    and tk :: "'s \<Rightarrow> u64 \<Rightarrow> nat \<Rightarrow> nat \<Rightarrow> addr list \<times> 's"
  assumes pop_law: "k < rows \<Longrightarrow> fst (pop s w k) = (case stk s w k of [] \<Rightarrow> None | b # bs \<Rightarrow> Some b)
      \<and> stk (snd (pop s w k)) w' k' = (if w' \<noteq> w then [] else if k' = k then tl (stk s w k) else stk s w k')"
    and push_law: "k < rows \<Longrightarrow> fst (push s w k b) = (length (stk s w k) < cap k)
      \<and> stk (snd (push s w k b)) w' k' = (if w' \<noteq> w then [] else if k' = k \<and> fst (push s w k b) then b # stk s w k else stk s w k')"
    and take_law: "k < rows \<Longrightarrow> fst (tk s w k n) = take n (stk s w k)
      \<and> stk (snd (tk s w k n)) w' k' = (if w' \<noteq> w then [] else if k' = k then drop n (stk s w k) else stk s w k')"
begin

lemma push_pop:
  assumes "k < rows" and "push s w k b = (True, s')"
  shows "fst (pop s' w k) = Some b \<and> stk (snd (pop s' w k)) w k = stk s w k"
  using push_law [OF assms(1), of s w b w k] pop_law [OF assms(1), of s' w w k] assms(2) by simp

lemma owner_isolation:
  assumes "k < rows" and "w' \<noteq> w"
  shows "stk (snd (pop s w k)) w' k' = [] \<and> stk (snd (push s w k b)) w' k' = []
    \<and> stk (snd (tk s w k n)) w' k' = []"
  using pop_law [OF assms(1), of s w w' k'] push_law [OF assms(1), of s w b w' k']
    take_law [OF assms(1), of s w n w' k'] assms(2) by simp

lemma step_conserves:
  assumes "snd (op_row op) < rows" and "mag_step pop push tk s op = (a, v, s')"
  shows "stk s' w k = (if w \<noteq> fst (op_row op) then [] else stk s' w k)
    \<and> (w = fst (op_row op) \<longrightarrow> events_of (w, k) v + mset (stk s' w k) = events_of (w, k) a + mset (stk s w k))
    \<and> (w \<noteq> fst (op_row op) \<longrightarrow> events_of (w, k) v = {#})
    \<and> (length (stk s w k) \<le> cap k \<longrightarrow> length (stk s' w k) \<le> cap k)"
proof (cases op)
  case (MPop w1 k1)
  then have k1: "k1 < rows" using assms(1) by simp
  show ?thesis using pop_law [OF k1, of s w1 w k] assms(2) MPop
    by (cases "pop s w1 k1"; cases "stk s w1 k1") auto
next
  case (MPush w1 k1 b)
  then have k1: "k1 < rows" using assms(1) by simp
  show ?thesis using push_law [OF k1, of s w1 b w k] assms(2) MPush
    by (cases "push s w1 k1 b") auto
next
  case (MTake w1 k1 n)
  then have k1: "k1 < rows" using assms(1) by simp
  have "mset (take n xs) + mset (drop n xs) = mset xs" for xs :: "addr list"
    by (metis append_take_drop_id mset_append)
  then show ?thesis using take_law [OF k1, of s w1 n w k] assms(2) MTake
    by (cases "tk s w1 k1 n") auto
qed

lemma run_conserves:
  assumes "\<forall>op \<in> set ops. snd (op_row op) < rows" and "mag_run pop push tk s ops = (a, v, s')"
  shows "events_of (w, k) v + mset (stk s' w k) \<subseteq># events_of (w, k) a + mset (stk s w k)
    \<and> ((\<forall>op \<in> set ops. fst (op_row op) = w) \<longrightarrow>
         events_of (w, k) v + mset (stk s' w k) = events_of (w, k) a + mset (stk s w k))
    \<and> (length (stk s w k) \<le> cap k \<longrightarrow> length (stk s' w k) \<le> cap k)"
  using assms
proof (induction ops arbitrary: s a v)
  case (Cons op ops)
  obtain a1 v1 s1 where st: "mag_step pop push tk s op = (a1, v1, s1)" by (metis prod_cases3)
  obtain a2 v2 where rn: "mag_run pop push tk s1 ops = (a2, v2, s')"
    and av: "a = a1 @ a2" "v = v1 @ v2"
    using Cons.prems(2) st by (auto simp: split_beta prod_eq_iff)
  have r: "snd (op_row op) < rows" using Cons.prems(1) by simp
  note S = step_conserves [OF r st, of w k]
  note I = Cons.IH [of s1 a2 v2, OF _ rn]
  have "events_of (w, k) v1 + mset (stk s1 w k) \<subseteq># events_of (w, k) a1 + mset (stk s w k)"
  proof (cases "w = fst (op_row op)")
    case False
    then show ?thesis using S by (metis empty_neutral(1) mset.simps(1) subset_mset.zero_le)
  qed (use S in simp)
  moreover have "events_of (w, k) v2 + mset (stk s' w k) \<subseteq># events_of (w, k) a2 + mset (stk s1 w k)"
    using I Cons.prems(1) by simp
  ultimately have "(events_of (w, k) v1 + mset (stk s1 w k)) + (events_of (w, k) v2 + mset (stk s' w k))
      \<subseteq># (events_of (w, k) a1 + mset (stk s w k)) + (events_of (w, k) a2 + mset (stk s1 w k))"
    by (rule subset_mset.add_mono)
  then have "events_of (w, k) v + mset (stk s' w k) + mset (stk s1 w k)
      \<subseteq># events_of (w, k) a + mset (stk s w k) + mset (stk s1 w k)"
    by (simp add: av ac_simps)
  moreover have "events_of (w, k) v + mset (stk s' w k) = events_of (w, k) a + mset (stk s w k)"
    if "\<forall>op \<in> set (op # ops). fst (op_row op) = w"
    using S I that Cons.prems(1) by (simp add: av ac_simps)
  ultimately show ?case using S I Cons.prems(1) by auto
qed simp

end

section \<open>Both magazines are bounded stacks\<close>

lemma row_stack_Suc: "row_stack f (Suc n) = f n # row_stack f n"
  by (simp add: row_stack_def)

lemma row_stack_0 [simp]: "row_stack f 0 = []"
  by (simp add: row_stack_def)

lemma length_row_stack [simp]: "length (row_stack f n) = n"
  by (simp add: row_stack_def)

lemma row_stack_upd [simp]: "n \<le> i \<Longrightarrow> row_stack (f(i := b)) n = row_stack f n"
  by (auto simp: row_stack_def)

lemma row_stack_pop: "0 < n \<Longrightarrow> row_stack f n = f (n - 1) # row_stack f (n - 1)"
  by (cases n) (auto simp: row_stack_Suc)

lemma row_stack_take:
  "map (\<lambda>i. f (n - Suc i)) [0..<min n len] = take len (row_stack f n)"
  by (rule nth_equalityI) (auto simp: row_stack_def rev_nth)

lemma row_stack_drop: "row_stack f (n - min n len) = drop len (row_stack f n)"
  by (rule nth_equalityI) (auto simp: row_stack_def rev_nth)

lemma unat_pred_u8: "n \<noteq> 0 \<Longrightarrow> unat (n - 1 :: u8) = unat n - 1"
  by (rule unat_minus_one)

lemma unat_succ_u8: "\<not> unat (m::u8) \<le> unat (n::u8) \<Longrightarrow> unat (n + 1) = Suc (unat n)"
  using unsigned_less [of m, where ?'a = nat] by (simp add: unat_word_ariths(1))

lemma unat_diff_u8: "unat (of_nat (unat (n::u8) - t) :: u8) = unat n - t"
  by (metis diff_le_self le_unat_uoi)

lemma unat_pos_u8: "n \<noteq> 0 \<Longrightarrow> 0 < unat (n::u8)"
  by (simp add: unat_gt_0)

lemmas mag_words = unat_pred_u8 unat_diff_u8 row_stack_drop row_stack_take row_stack_pop [OF unat_pos_u8]

interpretation slab_mag: bounded_stacks 12 "\<lambda>k. unat (CLASS_CAPS ! k)" mag_stack mag_pop mag_push mag_take
proof
  fix s :: hot_tls and w w' :: u64 and k k' n :: nat and b :: addr
  show "fst (mag_pop s w k) = (case mag_stack s w k of [] \<Rightarrow> None | b # bs \<Rightarrow> Some b)
      \<and> mag_stack (snd (mag_pop s w k)) w' k' = (if w' \<noteq> w then [] else if k' = k then tl (mag_stack s w k) else mag_stack s w k')"
    by (auto simp: mag_pop_def mag_ensure_owner_def mag_stack_def Let_def mag_words)
  show "fst (mag_push s w k b) = (length (mag_stack s w k) < unat (CLASS_CAPS ! k))
      \<and> mag_stack (snd (mag_push s w k b)) w' k' = (if w' \<noteq> w then [] else if k' = k \<and> fst (mag_push s w k b) then b # mag_stack s w k else mag_stack s w k')"
    by (auto simp: mag_push_def mag_ensure_owner_def mag_stack_def Let_def row_stack_Suc
        unat_succ_u8 word_le_nat_alt word_less_nat_alt)
  show "fst (mag_take s w k n) = take n (mag_stack s w k)
      \<and> mag_stack (snd (mag_take s w k n)) w' k' = (if w' \<noteq> w then [] else if k' = k then drop n (mag_stack s w k) else mag_stack s w k')"
    by (auto simp: mag_take_def mag_ensure_owner_def mag_stack_def Let_def mag_words simp del: of_nat_diff)
qed

interpretation buddy_mags: bounded_stacks 5 "\<lambda>k. unat (ORDER_CAPS ! k)" bm_stack bm_pop bm_push bm_take
proof
  fix s :: buddy_mag and w w' :: u64 and k k' n :: nat and b :: addr
  show "fst (bm_pop s w k) = (case bm_stack s w k of [] \<Rightarrow> None | b # bs \<Rightarrow> Some b)
      \<and> bm_stack (snd (bm_pop s w k)) w' k' = (if w' \<noteq> w then [] else if k' = k then tl (bm_stack s w k) else bm_stack s w k')"
    by (auto simp: bm_pop_def bm_ensure_owner_def bm_stack_def Let_def mag_words)
  show "fst (bm_push s w k b) = (length (bm_stack s w k) < unat (ORDER_CAPS ! k))
      \<and> bm_stack (snd (bm_push s w k b)) w' k' = (if w' \<noteq> w then [] else if k' = k \<and> fst (bm_push s w k b) then b # bm_stack s w k else bm_stack s w k')"
    by (auto simp: bm_push_def bm_ensure_owner_def bm_stack_def Let_def row_stack_Suc
        unat_succ_u8 word_le_nat_alt word_less_nat_alt)
  show "fst (bm_take s w k n) = take n (bm_stack s w k)
      \<and> bm_stack (snd (bm_take s w k n)) w' k' = (if w' \<noteq> w then [] else if k' = k then drop n (bm_stack s w k) else bm_stack s w k')"
    by (auto simp: bm_take_def bm_ensure_owner_def bm_stack_def Let_def mag_words simp del: of_nat_diff)
qed

section \<open>Properties of the magazines\<close>

text \<open>
  C40: Over any history of pops, pushes and takes by any allocator instances, starting from a
  fresh thread, no block is handed out twice or invented: for every instance and class, the
  blocks handed out and those still in the magazine are among the blocks that instance pushed
  into that class (equal to them while no other instance touches the magazine), and a row never
  holds more than its cap.
\<close>
theorem slab_magazine_conserves:
  assumes "\<forall>op \<in> set ops. snd (op_row op) < MAG_CLASSES"
    and "mag_run mag_pop mag_push mag_take HOT ops = (pushed, served, h)"
  shows "events_of (w, k) served + mset (mag_stack h w k) \<subseteq># events_of (w, k) pushed
    \<and> ((\<forall>op \<in> set ops. fst (op_row op) = w) \<longrightarrow>
         events_of (w, k) served + mset (mag_stack h w k) = events_of (w, k) pushed)
    \<and> length (mag_stack h w k) \<le> unat (CLASS_CAPS ! k)"
proof -
  have "mag_stack HOT w k = []" by (simp add: mag_stack_def HOT_def)
  then show ?thesis
    using slab_mag.run_conserves [OF _ assms(2), of w k] assms(1) by (simp add: MAG_CLASSES_def)
qed

lemma slab_magazine_conserves_witness:
  "length (mag_stack (snd (snd (mag_run mag_pop mag_push mag_take HOT
       [MPush 7 2 16, MPush 7 2 32, MPop 7 2, MPush 7 2 48, MTake 7 2 5]))) 7 2) \<le> 32"
proof -
  let ?ops = "[MPush 7 2 16, MPush 7 2 32, MPop 7 2, MPush 7 2 48, MTake 7 2 5]"
  obtain a v h' where e: "mag_run mag_pop mag_push mag_take HOT ?ops = (a, v, h')"
    by (metis prod_cases3)
  have "length (mag_stack h' 7 2) \<le> 32"
    using slab_magazine_conserves [OF _ e, of 7 2] by (simp add: MAG_CLASSES_def CLASS_CAPS_def)
  then show ?thesis unfolding e by simp
qed

text \<open>
  The same holds of the buddy magazines and their orders.
\<close>
lemma buddy_magazine_conserves:
  assumes "\<forall>op \<in> set ops. snd (op_row op) < NUM_MAG_ORDERS"
    and "mag_run bm_pop bm_push bm_take MAG ops = (pushed, served, m)"
  shows "events_of (w, k) served + mset (bm_stack m w k) \<subseteq># events_of (w, k) pushed
    \<and> ((\<forall>op \<in> set ops. fst (op_row op) = w) \<longrightarrow>
         events_of (w, k) served + mset (bm_stack m w k) = events_of (w, k) pushed)
    \<and> length (bm_stack m w k) \<le> unat (ORDER_CAPS ! k)"
proof -
  have "bm_stack MAG w k = []" by (simp add: bm_stack_def MAG_def)
  then show ?thesis
    using buddy_mags.run_conserves [OF _ assms(2), of w k] assms(1)
    by (simp add: NUM_MAG_ORDERS_def MAX_MAGAZINE_ORDER_def MIN_MAGAZINE_ORDER_def)
qed

lemma buddy_magazine_conserves_witness:
  "events_of (7, 4) (fst (snd (mag_run bm_pop bm_push bm_take MAG
       [MPush 7 4 16, MPush 7 4 32, MPush 7 4 48, MTake 7 4 16])))
   \<subseteq># {# 16, 32 #}"
proof -
  let ?ops = "[MPush 7 4 16, MPush 7 4 32, MPush 7 4 48, MTake 7 4 16]"
  let ?r = "mag_run bm_pop bm_push bm_take MAG ?ops"
  obtain a v m where e: "?r = (a, v, m)" by (metis prod_cases3)
  have "fst ?r = [((7, 4), 16), ((7, 4), 32)]" by code_simp
  then have a: "a = [((7, 4), 16), ((7, 4), 32)]" unfolding e by simp
  have "\<forall>op \<in> set ?ops. snd (op_row op) < NUM_MAG_ORDERS"
    by (simp add: NUM_MAG_ORDERS_def MAX_MAGAZINE_ORDER_def MIN_MAGAZINE_ORDER_def)
  then have "events_of (7, 4) v \<subseteq># events_of (7, 4) a"
    using buddy_magazine_conserves [OF _ e, of 7 4]
    by (meson mset_subset_eq_add_left subset_mset.order_trans)
  then show ?thesis unfolding e by (simp add: a add_mset_commute)
qed

text \<open>
  A magazine serves the most recently freed block first, and the operations of one
  instance make the contents of every other instance disappear for good: no instance is ever
  served a block that another one pushed.
\<close>
lemma magazine_lifo_and_isolation:
  assumes "cls < MAG_CLASSES"
  shows "(fst (mag_push h w cls b) \<longrightarrow>
      fst (mag_pop (snd (mag_push h w cls b)) w cls) = Some b
      \<and> mag_stack (snd (mag_pop (snd (mag_push h w cls b)) w cls)) w cls = mag_stack h w cls)
    \<and> (w' \<noteq> w \<longrightarrow> mag_stack (snd (mag_pop h w cls)) w' k = []
      \<and> mag_stack (snd (mag_push h w cls b)) w' k = [] \<and> mag_stack (snd (mag_take h w cls n)) w' k = [])"
proof -
  have c: "cls < 12" using assms by (simp add: MAG_CLASSES_def)
  have "fst (mag_pop (snd (mag_push h w cls b)) w cls) = Some b
      \<and> mag_stack (snd (mag_pop (snd (mag_push h w cls b)) w cls)) w cls = mag_stack h w cls"
    if "fst (mag_push h w cls b)"
    by (rule slab_mag.push_pop [OF c]) (simp add: prod_eq_iff that)
  then show ?thesis using slab_mag.owner_isolation [OF c, of w' w h k b n] by simp
qed

lemma magazine_lifo_and_isolation_witness:
  "fst (mag_pop (snd (mag_push HOT 7 11 4096)) 7 11) = Some 4096
   \<and> mag_stack (snd (mag_pop (snd (mag_push HOT 7 11 4096)) 8 11)) 7 11 = []"
proof -
  have c: "11 < MAG_CLASSES" by (simp add: MAG_CLASSES_def)
  have "fst (mag_push HOT 7 11 4096)" by code_simp
  moreover have "mag_stack (snd (mag_pop (snd (mag_push HOT 7 11 4096)) 8 11)) 7 11 = []"
    using magazine_lifo_and_isolation [OF c, of "snd (mag_push HOT 7 11 4096)" 8 4096 7 11 0] by simp
  ultimately show ?thesis using magazine_lifo_and_isolation [OF c, of HOT 7 4096] by simp
qed

text \<open>
  A refill asks for at least one block and never for more than the row can hold, so a
  refill of an empty row is kept whole, and the batch buffers of sixteen entries in the central
  paths hold any refill of either kind of magazine.
\<close>
lemma refill_counts_fit:
  "list_all (\<lambda>k. 1 \<le> mag_refill_count k \<and> mag_refill_count k < unat (CLASS_CAPS ! k)
       \<and> unat (CLASS_CAPS ! k) \<le> MAG_MAX_CAP \<and> mag_refill_count k \<le> 16) [0..<MAG_CLASSES]
   \<and> list_all (\<lambda>k. 1 \<le> bm_refill_count k \<and> bm_refill_count k < unat (ORDER_CAPS ! k)
       \<and> unat (ORDER_CAPS ! k) \<le> 32 \<and> bm_refill_count k \<le> 16) [0..<NUM_MAG_ORDERS]"
  by code_simp

end
