(* ===== verification/Routing.thy ===== *)
theory Routing
  imports HotTls
begin

text \<open>
  The integer core of routing: size buckets, the routing keys and the freeze-time clamp of
  \<open>state.rs\<close>, its latency histogram and winsoriser, and the allocation-history register,
  the header padding and the header's backend byte of \<open>lib.rs\<close>.
\<close>

section \<open>Size buckets and routing keys (state.rs)\<close>

definition size_class_for :: "usize \<Rightarrow> u8" where
  "size_class_for sz =
     (case slab_class_for sz of Some idx \<Rightarrow> of_nat idx
      | None \<Rightarrow> if sz \<le> 65536 then 12 else if sz \<le> push_bit 20 1 then 13 else 14)"

definition combine_hash_size_class :: "u64 \<Rightarrow> u8 \<Rightarrow> u64" where
  "combine_hash_size_class hash sc =
     hash XOR word_rotl 17 (ucast sc * 0x9E3779B97F4A7C15)"

definition combine_key_ctx :: "u64 \<Rightarrow> u8 \<Rightarrow> u64" where
  "combine_key_ctx key ctx = key XOR word_rotl 23 ((ucast ctx + 1) * 0xD6E8FEB86659FD93)"

definition combine_key_ctx_deep :: "u64 \<Rightarrow> u8 \<Rightarrow> u64" where
  "combine_key_ctx_deep key deep = combine_key_ctx (key XOR 0xA5A55A5AC33C3CC3) deep"

definition default_backend_for_size_class :: "u8 \<Rightarrow> backend" where
  "default_backend_for_size_class sc =
     (if sc \<le> 11 then Slab else if sc \<le> 13 then Buddy else System)"

definition default_backend_for_size :: "usize \<Rightarrow> backend" where
  "default_backend_for_size sz =
     (let total_with_header = sz + 48
      in default_backend_for_size_class (size_class_for total_with_header))"

definition clamp_backend_for_size_class :: "u8 \<Rightarrow> backend \<Rightarrow> bool \<Rightarrow> backend" where
  "clamp_backend_for_size_class sc b demote_arena =
     (if b = System \<and> sc \<le> 13 then default_backend_for_size_class sc
      else
        let unservable =
          (case b of Slab \<Rightarrow> sc > 11 | Buddy \<Rightarrow> sc > 13 \<or> sc \<le> 10 | Arena \<Rightarrow> sc > 13 | System \<Rightarrow> False)
        in if unservable then default_backend_for_size_class sc
           else if demote_arena \<and> b = Arena then default_backend_for_size_class sc
           else b)"

section \<open>The latency histogram (state.rs)\<close>

definition LATENCY_HIST_BUCKETS :: nat where "LATENCY_HIST_BUCKETS = 24"

record latency_hist =
  hist_buckets :: "u32 list"
  hist_total :: u64

definition latency_hist_default :: latency_hist where
  "latency_hist_default = \<lparr>hist_buckets = replicate LATENCY_HIST_BUCKETS 0, hist_total = 0\<rparr>"

definition bucket_of :: "u64 \<Rightarrow> nat" where
  "bucket_of ns = min (63 - leading_zeros (max ns 1)) (LATENCY_HIST_BUCKETS - 1)"

definition hist_record :: "latency_hist \<Rightarrow> u64 \<Rightarrow> latency_hist" where
  "hist_record h ns =
     (let b = bucket_of ns; c = hist_buckets h ! b
      in h\<lparr>hist_buckets := (hist_buckets h)[b := if c = - 1 then c else c + 1],
           hist_total := saturating_add (hist_total h) 1\<rparr>)"

fun quantile_scan :: "u64 \<Rightarrow> u64 \<Rightarrow> nat \<Rightarrow> u32 list \<Rightarrow> u64" where
  "quantile_scan target cum i [] = - 1"
| "quantile_scan target cum i (c # cs) =
     (let cum = cum + ucast c
      in if cum \<ge> target then push_bit (i + 1) 1 else quantile_scan target cum (i + 1) cs)"

definition hist_quantile :: "latency_hist \<Rightarrow> u8 \<Rightarrow> u64" where
  "hist_quantile h pct =
     (if hist_total h = 0 then - 1
      else
        let pct = ucast (min pct 100) :: u64;
            scaled = unat (hist_total h * pct);
            target = max (of_nat ((scaled + 99) div 100)) 1
        in quantile_scan target 0 0 (hist_buckets h))"

text \<open>The two fields of \<open>TrainingConfig\<close> it reads are arguments.\<close>

definition winsorize_latency :: "latency_hist \<Rightarrow> u64 \<Rightarrow> u8 \<Rightarrow> u32 \<Rightarrow> u64 \<times> latency_hist" where
  "winsorize_latency h latency_ns clamp_percentile reward_batch =
     (if clamp_percentile = 0 then (latency_ns, h)
      else
        let h = hist_record h latency_ns
        in if hist_total h < ucast reward_batch then (latency_ns, h)
           else (min latency_ns (hist_quantile h clamp_percentile), h))"

section \<open>The allocation-history register (lib.rs)\<close>

definition SIZE_CLASS_UNTRACKED :: u8 where "SIZE_CLASS_UNTRACKED = 0xFF"
definition CTX_UNTRACKED :: u8 where "CTX_UNTRACKED = 0xFF"
definition CTX_EVENT_BITS :: nat where "CTX_EVENT_BITS = 2"
definition CTX_EVENTS :: nat where "CTX_EVENTS = 3"
definition CTX_BITS :: nat where "CTX_BITS = CTX_EVENTS * CTX_EVENT_BITS"
definition CTX_MASK :: u64 where "CTX_MASK = push_bit CTX_BITS 1 - 1"

definition ahr_alloc_code :: "u8 \<Rightarrow> u64" where
  "ahr_alloc_code sc =
     (if sc = SIZE_CLASS_UNTRACKED \<or> sc \<le> 11 then 1 else if sc \<le> 13 then 2 else 3)"

definition ahr_ctx_and_push_alloc :: "hot_tls \<Rightarrow> u8 \<Rightarrow> u16 \<times> hot_tls" where
  "ahr_ctx_and_push_alloc h sc =
     (let v = ahr h
      in (ucast (v AND 0xFFFF), h\<lparr>ahr := push_bit CTX_EVENT_BITS v OR ahr_alloc_code sc\<rparr>))"

definition ahr_shallow :: "u16 \<Rightarrow> u8" where
  "ahr_shallow raw = ucast ((ucast raw :: u64) AND CTX_MASK)"

definition ahr_deep :: "u16 \<Rightarrow> u8" where
  "ahr_deep raw =
     (let folded = ucast (drop_bit 8 raw XOR (raw AND 0xFF))
      in if folded = CTX_UNTRACKED then 0xFE else folded)"

definition ahr_push_alloc :: "hot_tls \<Rightarrow> u8 \<Rightarrow> hot_tls" where
  "ahr_push_alloc h sc = h\<lparr>ahr := push_bit CTX_EVENT_BITS (ahr h) OR ahr_alloc_code sc\<rparr>"

definition ahr_push_dealloc :: "hot_tls \<Rightarrow> hot_tls" where
  "ahr_push_dealloc h = h\<lparr>ahr := push_bit CTX_EVENT_BITS (ahr h)\<rparr>"

section \<open>The header (lib.rs)\<close>

definition HEADER_MAGIC :: u64 where "HEADER_MAGIC = 0x534d4152414c4844"

record header =
  hdr_magic :: u64
  hdr_backend :: u8
  hdr_size_class_hint :: u8
  hdr_align_log2 :: u8
  hdr_slab_class :: u8
  hdr_ctx :: u8
  hdr_pad :: "u8 list"
  hdr_size :: usize
  hdr_base :: usize
  hdr_map_len :: usize
  hdr_hash :: u64

definition HEADER_SIZE :: usize where "HEADER_SIZE = 48"

definition header_pad :: "usize \<Rightarrow> usize" where
  "header_pad align = align_up HEADER_SIZE align"

definition backend_of_u8 :: "u8 \<Rightarrow> backend option" where
  "backend_of_u8 v =
     (if v = 0 then Some Slab else if v = 1 then Some Buddy
      else if v = 2 then Some System else if v = 3 then Some Arena else None)"

section \<open>Lemmas\<close>

lemma mul_golden_inj: "(a::u64) * 0x9E3779B97F4A7C15 = b * 0x9E3779B97F4A7C15 \<longleftrightarrow> a = b"
proof
  assume "a * 0x9E3779B97F4A7C15 = b * 0x9E3779B97F4A7C15"
  then have "a * 0x9E3779B97F4A7C15 * 0xF1DE83E19937733D = b * 0x9E3779B97F4A7C15 * 0xF1DE83E19937733D"
    by simp
  moreover have "(0x9E3779B97F4A7C15::u64) * 0xF1DE83E19937733D = 1"
    by (simp add: word_unat_eq_iff)
  ultimately show "a = b" by (simp only: mult.assoc mult_1_right)
qed simp

lemma mul_ctx_inj: "(a::u64) * 0xD6E8FEB86659FD93 = b * 0xD6E8FEB86659FD93 \<longleftrightarrow> a = b"
proof
  assume "a * 0xD6E8FEB86659FD93 = b * 0xD6E8FEB86659FD93"
  then have "a * 0xD6E8FEB86659FD93 * 0xcfee444d8b59a89b = b * 0xD6E8FEB86659FD93 * 0xcfee444d8b59a89b" by simp
  moreover have "(0xD6E8FEB86659FD93::u64) * 0xcfee444d8b59a89b = 1"
    by (simp add: word_unat_eq_iff)
  ultimately show "a = b" by (simp only: mult.assoc mult_1_right)
qed simp

lemma xor_left_inj: "(a::'a::len word) XOR b = a XOR c \<longleftrightarrow> b = c"
  by (metis bit.xor_left_self)

lemma xor_right_inj: "(b::'a::len word) XOR a = c XOR a \<longleftrightarrow> b = c"
  by (metis xor_left_inj xor.commute)

lemma rotl_inj: "word_rotl n (a::'a::len word) = word_rotl n b \<longleftrightarrow> a = b"
  by (metis word_rot_gal(1))

lemma ucast_u8_inj: "(ucast (a::u8) :: u64) = ucast b \<longleftrightarrow> a = b"
  by (simp add: ucast_up_inj)

lemma ctx_mult_nonzero: "((ucast (c::u8) :: u64) + 1) * 0xD6E8FEB86659FD93 \<noteq> 0"
proof
  assume "((ucast c :: u64) + 1) * 0xD6E8FEB86659FD93 = 0"
  then have "(ucast c :: u64) + 1 = 0" using mul_ctx_inj [of "ucast c + 1" 0] by simp
  moreover have "unat ((ucast c :: u64) + 1) = unat c + 1"
    using unsigned_less [of c, where ?'a = nat] by (simp add: unat_word_ariths(1) unat_ucast_up)
  ultimately show False by (metis Suc_eq_plus1 nat.distinct(1) unat_0)
qed

text \<open>
  Routing keys keep what they combine apart: for one call site, different size classes get
  different keys, and for one size class different call sites do; the fine keys of a site differ
  from its coarse key and from each other in both families, and the shallow and the deep fine key
  of one context differ.
\<close>
lemma routing_keys_distinct:
  "(combine_hash_size_class h s = combine_hash_size_class h s' \<longleftrightarrow> s = s')
   \<and> (combine_hash_size_class h s = combine_hash_size_class h' s \<longleftrightarrow> h = h')
   \<and> combine_key_ctx k c \<noteq> k
   \<and> (combine_key_ctx k c = combine_key_ctx k c' \<longleftrightarrow> c = c')
   \<and> (combine_key_ctx_deep k c = combine_key_ctx_deep k c' \<longleftrightarrow> c = c')
   \<and> combine_key_ctx_deep k c \<noteq> combine_key_ctx k c"
proof -
  have rot0: "word_rotl n (0::u64) = 0" for n by simp
  have ctx_ne: "combine_key_ctx j c \<noteq> j" for j
  proof
    assume "combine_key_ctx j c = j"
    then have "j XOR word_rotl 23 ((ucast c + 1) * 0xD6E8FEB86659FD93) = j XOR 0"
      by (simp add: combine_key_ctx_def)
    then have "word_rotl 23 (((ucast c :: u64) + 1) * 0xD6E8FEB86659FD93) = word_rotl 23 0"
      unfolding xor_left_inj rot0 .
    then show False using ctx_mult_nonzero by (simp only: rotl_inj)
  qed
  have ctx_inj: "combine_key_ctx j c = combine_key_ctx j c' \<longleftrightarrow> c = c'" for j
    by (simp add: combine_key_ctx_def xor_left_inj rotl_inj mul_ctx_inj ucast_u8_inj)
  have "(k XOR 0xA5A55A5AC33C3CC3) \<noteq> k XOR 0" unfolding xor_left_inj by simp
  then have "combine_key_ctx_deep k c \<noteq> combine_key_ctx k c"
    by (simp add: combine_key_ctx_deep_def combine_key_ctx_def xor_right_inj)
  then show ?thesis using ctx_ne ctx_inj
    by (simp add: combine_hash_size_class_def combine_key_ctx_deep_def xor_left_inj xor_right_inj
        rotl_inj mul_golden_inj ucast_u8_inj)
qed

text \<open>
  The freeze-time clamp leaves no verdict that the deployment cannot serve: Slab only for
  slab classes, Buddy only from the headerless order floor to the buddy maximum, Arena only for
  classes that fit a chunk and only when Arena is not demoted, System only beyond the buddy
  range; clamping again changes nothing.
\<close>
lemma clamp_servable:
  "(case clamp_backend_for_size_class sc b d of
      Slab \<Rightarrow> sc \<le> 11 | Buddy \<Rightarrow> 11 \<le> sc \<and> sc \<le> 13 | Arena \<Rightarrow> sc \<le> 13 \<and> \<not> d | System \<Rightarrow> 13 < sc)
   \<and> clamp_backend_for_size_class sc (clamp_backend_for_size_class sc b d) d
       = clamp_backend_for_size_class sc b d"
  by (cases b; cases "sc \<le> 10"; cases "sc \<le> 11"; cases "sc \<le> 13"; cases d)
    (simp_all add: clamp_backend_for_size_class_def default_backend_for_size_class_def
      word_le_nat_alt word_less_nat_alt)

text \<open>
  The history register as a sequence of events, the most recent one first. An allocation has the
  nonzero code of its size class, a free the code zero.
\<close>

datatype ahr_event = AllocEvent u8 | DeallocEvent

fun ahr_event_code :: "ahr_event \<Rightarrow> u64" where
  "ahr_event_code (AllocEvent sc) = ahr_alloc_code sc"
| "ahr_event_code DeallocEvent = 0"

fun ahr_step :: "ahr_event \<Rightarrow> hot_tls \<Rightarrow> hot_tls" where
  "ahr_step (AllocEvent sc) h = ahr_push_alloc h sc"
| "ahr_step DeallocEvent h = ahr_push_dealloc h"

fun ahr_history :: "ahr_event list \<Rightarrow> hot_tls \<Rightarrow> hot_tls" where
  "ahr_history [] h = h"
| "ahr_history (e # es) h = ahr_step e (ahr_history es h)"

text \<open>The number whose base-four digits are the codes of the last events.\<close>

fun ahr_digits :: "nat \<Rightarrow> ahr_event list \<Rightarrow> nat" where
  "ahr_digits 0 es = 0"
| "ahr_digits (Suc n) [] = 0"
| "ahr_digits (Suc n) (e # es) = unat (ahr_event_code e) + 4 * ahr_digits n es"

lemma ahr_event_code_set: "ahr_event_code e \<in> {0, 1, 2, 3}"
  by (cases e) (auto simp: ahr_alloc_code_def)

lemma push_and_mask2: "push_bit 2 v AND (c AND mask 2) = (0::u64)"
  by (rule bit_word_eqI) (auto simp: bit_simps)

lemma push_and_code: "c \<in> {0, 1, 2, 3} \<Longrightarrow> push_bit 2 v AND c = (0::u64)"
proof -
  assume "c \<in> {0, 1, 2, 3}"
  then have "c AND mask 2 = c" by (auto simp: mask_eq_exp_minus_1)
  then show ?thesis by (metis push_and_mask2)
qed

lemma unat_push_or:
  fixes v c :: u64
  assumes c: "c \<in> {0, 1, 2, 3}" and n: "n \<le> 62"
  shows "unat (push_bit 2 v OR c) mod 2 ^ (n + 2) = unat c + 4 * (unat v mod 2 ^ n)"
proof -
  have "push_bit 2 v OR c = push_bit 2 v + c"
    using word_plus_and_or [of "push_bit 2 v" c] unfolding push_and_code [OF c, of v] by simp
  then have "push_bit 2 v OR c = v * 4 + c" by (simp add: push_bit_eq_mult)
  then have "unat (push_bit 2 v OR c) = (unat v * 4 + unat c) mod 2 ^ 64"
    by (simp add: unat_word_ariths mod_simps)
  also have "\<dots> mod 2 ^ (n + 2) = (unat v * 4 + unat c) mod 2 ^ (n + 2)"
    by (rule mod_mod_cancel, rule le_imp_power_dvd) (use n in simp)
  also have "\<dots> = unat c + 4 * (unat v mod 2 ^ n)"
    using c by (auto simp: mod_mult2_eq mult.commute power_add)
  finally show ?thesis .
qed

lemma ahr_step_eq: "ahr (ahr_step e h) = push_bit 2 (ahr h) OR ahr_event_code e"
  by (cases e) (simp_all add: ahr_push_alloc_def ahr_push_dealloc_def CTX_EVENT_BITS_def)

lemma ahr_history_digits:
  "n \<le> length es \<Longrightarrow> n \<le> 32 \<Longrightarrow> unat (ahr (ahr_history es h)) mod 2 ^ (2 * n) = ahr_digits n es"
proof (induction n arbitrary: es)
  case (Suc n)
  then obtain e es' where es: "es = e # es'" by (cases es) auto
  have "unat (push_bit 2 (ahr (ahr_history es' h)) OR ahr_event_code e) mod 2 ^ (2 * n + 2)
      = unat (ahr_event_code e) + 4 * (unat (ahr (ahr_history es' h)) mod 2 ^ (2 * n))"
    by (rule unat_push_or [OF ahr_event_code_set]) (use Suc.prems in simp)
  then show ?case using Suc es by (simp add: ahr_step_eq)
qed simp

lemma ahr_shallow_mod:
  fixes v :: u64
  shows "unat (ahr_shallow (ucast (v AND 0xFFFF))) = unat v mod 2 ^ 6"
proof -
  have m: "(0xFFFF :: u64) = mask 16" by (simp add: mask_eq_exp_minus_1)
  have k: "CTX_MASK = mask 6"
    by (simp add: CTX_MASK_def CTX_BITS_def CTX_EVENTS_def CTX_EVENT_BITS_def mask_eq_exp_minus_1 push_bit_eq_mult)
  have "(ucast (ucast (v AND mask 16) :: u16) :: u64) AND mask 6 = v AND mask 6"
    by (rule bit_word_eqI) (auto simp: bit_simps)
  moreover have "unat (ucast (v AND mask 6) :: u8) = unat (v AND mask 6)"
    by (simp add: unsigned_ucast_eq take_bit_nat_eq_self_iff unat_and_mask order_less_trans [of _ 64])
  ultimately show ?thesis by (simp add: ahr_shallow_def m k unat_and_mask)
qed

text \<open>
  The routing context of an allocation is the history before it: with at least eight earlier
  events on the thread, the shallow context spells the codes of the last three of them, most
  recent in the low bits, whatever came before; the allocation's own event is in the register
  afterwards. The deep context is never the reserved value, and the shallow context stays below
  64.
\<close>
lemma ahr_context_is_history:
  assumes "8 \<le> length es"
  shows "unat (ahr_shallow (fst (ahr_ctx_and_push_alloc (ahr_history es h) sc))) = ahr_digits 3 es
    \<and> unat (fst (ahr_ctx_and_push_alloc (ahr_history es h) sc)) = ahr_digits 8 es
    \<and> snd (ahr_ctx_and_push_alloc (ahr_history es h) sc) = ahr_history (AllocEvent sc # es) h
    \<and> ahr_deep raw \<noteq> CTX_UNTRACKED \<and> unat (ahr_shallow raw) < 64"
proof -
  let ?v = "ahr (ahr_history es h)"
  have m: "(0xFFFF :: u64) = mask 16" by (simp add: mask_eq_exp_minus_1)
  have "unat (ucast (?v AND mask 16) :: u16) = unat (?v AND mask 16)"
    by (simp add: unsigned_ucast_eq take_bit_eq_mod unat_and_mask)
  then have raw: "unat (ucast (?v AND 0xFFFF) :: u16) = unat ?v mod 2 ^ 16"
    by (simp add: m unat_and_mask)
  have deep: "ahr_deep raw \<noteq> CTX_UNTRACKED" by (simp add: ahr_deep_def CTX_UNTRACKED_def Let_def)
  have "ucast ((ucast raw :: u64) AND 0xFFFF) = raw"
    unfolding m by (rule bit_word_eqI) (auto simp: bit_simps)
  then have "unat (ahr_shallow raw) < 64"
    using ahr_shallow_mod [of "ucast raw"] by simp
  then show ?thesis
    using ahr_history_digits [of 3 es h] ahr_history_digits [of 8 es h] assms raw deep
      ahr_shallow_mod [of ?v]
    by (simp add: ahr_ctx_and_push_alloc_def ahr_push_alloc_def numeral_3_eq_3 Let_def)
qed

lemma ahr_context_is_history_witness:
  "unat (ahr_shallow (fst (ahr_ctx_and_push_alloc
     (ahr_history [AllocEvent 3, DeallocEvent, AllocEvent 14, DeallocEvent, DeallocEvent,
        DeallocEvent, DeallocEvent, AllocEvent 12] HOT) 0))) = 1 + 4 * (0 + 4 * 3)"
proof -
  let ?es = "[AllocEvent 3, DeallocEvent, AllocEvent 14, DeallocEvent, DeallocEvent,
        DeallocEvent, DeallocEvent, AllocEvent 12]"
  have "ahr_digits 3 ?es = 1 + 4 * (0 + 4 * 3)" by code_simp
  moreover have "8 \<le> length ?es" by simp
  ultimately show ?thesis using ahr_context_is_history [of ?es HOT 0] by simp
qed

section \<open>The histogram and its quantile\<close>

definition hist_of :: "u64 list \<Rightarrow> latency_hist" where
  "hist_of xs = foldl hist_record latency_hist_default xs"

lemma bucket_of_less: "bucket_of ns < 24"
  by (simp add: bucket_of_def LATENCY_HIST_BUCKETS_def)

lemma bucket_of_le_iff: "i < 23 \<Longrightarrow> bucket_of ns \<le> i \<longleftrightarrow> unat ns < 2 ^ Suc i"
proof -
  assume i: "i < 23"
  let ?n = "unat (max ns 1)"
  have n: "?n = max (unat ns) 1" by (simp add: max_def word_le_nat_alt)
  have "63 - leading_zeros (max ns 1) = bit_len ?n - 1"
    using sub_leading_zeros [of "max ns 1"] by simp
  moreover have "0 < bit_len ?n" using n bit_len_less_iff [of 0 ?n] by simp
  ultimately have "bucket_of ns \<le> i \<longleftrightarrow> bit_len ?n \<le> Suc i"
    using i by (auto simp: bucket_of_def LATENCY_HIST_BUCKETS_def min_le_iff_disj)
  also have "\<dots> \<longleftrightarrow> unat ns < 2 ^ Suc i"
    using bit_len_le_iff [of ?n "Suc i"] n one_less_power [of "2::nat" "Suc i"]
    by (cases "unat ns = 0") (simp_all add: max_def)
  finally show ?thesis .
qed

definition bucket_count :: "u64 list \<Rightarrow> nat \<Rightarrow> nat" where
  "bucket_count xs b = length (filter (\<lambda>x. bucket_of x = b) xs)"

lemma hist_of_counts:
  assumes "length xs < 2 ^ 32"
  shows "hist_buckets (hist_of xs) = map (\<lambda>b. of_nat (bucket_count xs b)) [0..<24]
    \<and> hist_total (hist_of xs) = of_nat (length xs)"
  using assms
proof (induction xs rule: rev_induct)
  case Nil
  then show ?case
    by (simp add: hist_of_def latency_hist_default_def LATENCY_HIST_BUCKETS_def bucket_count_def
        map_replicate_const)
next
  case (snoc x xs)
  let ?b = "bucket_of x"
  have IH: "hist_buckets (hist_of xs) = map (\<lambda>b. of_nat (bucket_count xs b)) [0..<24]"
    "hist_total (hist_of xs) = of_nat (length xs)" using snoc by auto
  have "bucket_count xs ?b \<le> length xs" by (simp add: bucket_count_def)
  then have lt: "bucket_count xs ?b < 2 ^ 32 - 1" using snoc.prems by simp
  have "(of_nat (bucket_count xs ?b) :: u32) \<noteq> - 1"
  proof
    assume "(of_nat (bucket_count xs ?b) :: u32) = - 1"
    then have "unat (of_nat (bucket_count xs ?b) :: u32) = 2 ^ 32 - 1" by (simp add: unsigned_minus_1_eq_mask mask_eq_exp_minus_1)
    then show False using lt by (simp add: unat_of_nat)
  qed
  moreover have "saturating_add (of_nat (length xs)) 1 = of_nat (length (xs @ [x]))"
    using snoc.prems by (simp add: saturating_add_def unat_of_nat_64)
  ultimately show ?case using IH bucket_of_less [of x] snoc.prems
    by (auto simp: hist_of_def hist_record_def Let_def bucket_count_def nth_list_update
        intro!: nth_equalityI)
qed

lemma quantile_scan_least:
  assumes "cs = map (\<lambda>b. of_nat (D b)) [i..<n]" and "\<forall>b < n. D b < 2 ^ 32"
    and "cum = of_nat (\<Sum>b<i. D b)" and "target = of_nat t" and "(\<Sum>b<n. D b) < 2 ^ 63" and "t < 2 ^ 63"
    and "(\<Sum>b<i. D b) < t" and "t \<le> (\<Sum>b<n. D b)" and "i \<le> n"
  shows "quantile_scan target cum i cs = push_bit (Suc (LEAST m. t \<le> (\<Sum>b<Suc m. D b))) 1"
  using assms
proof (induction cs arbitrary: i cum)
  case Nil
  then have "i = n" by auto
  then show ?case using Nil by simp
next
  case (Cons c cs)
  have i: "i < n" using Cons.prems(1,9) by (cases "i = n") auto
  then have cs: "c = of_nat (D i)" "cs = map (\<lambda>b. of_nat (D b)) [Suc i..<n]"
    using Cons.prems(1) by (simp_all add: upt_conv_Cons)
  have sub: "(\<Sum>b<Suc i. D b) \<le> (\<Sum>b<n. D b)" by (rule sum_mono2) (use i in auto)
  have Di: "(ucast (of_nat (D i) :: u32) :: u64) = of_nat (D i)"
  proof -
    have "unat (ucast (of_nat (D i) :: u32) :: u64) = D i"
      using Cons.prems(2) i by (simp add: unat_ucast_up unat_of_nat take_bit_nat_eq_self_iff)
    moreover have "unat (of_nat (D i) :: u64) = D i"
    proof (rule unat_of_nat_64)
      have "D i < 2 ^ 32" using Cons.prems(2) i by blast
      then show "D i < 2 ^ 64" by simp
    qed
    ultimately show ?thesis by (simp add: word_unat_eq_iff)
  qed
  have cum: "cum + ucast c = of_nat (\<Sum>b<Suc i. D b)"
    using Cons.prems(3) cs Di by simp
  have ge: "target \<le> cum + ucast c \<longleftrightarrow> t \<le> (\<Sum>b<Suc i. D b)"
  proof -
    have "(\<Sum>b<Suc i. D b) < 2 ^ 64" "t < 2 ^ 64"
      using sub Cons.prems(5,6) by (simp_all del: sum.lessThan_Suc)
    then show ?thesis unfolding cum Cons.prems(4) word_le_nat_alt by (simp only: unat_of_nat_64)
  qed
  show ?case
  proof (cases "t \<le> (\<Sum>b<Suc i. D b)")
    case True
    have "(LEAST m. t \<le> (\<Sum>b<Suc m. D b)) = i"
    proof (rule Least_equality)
      fix m assume m: "t \<le> (\<Sum>b<Suc m. D b)"
      show "i \<le> m"
      proof (rule ccontr)
        assume "\<not> i \<le> m"
        then have "(\<Sum>b<Suc m. D b) \<le> (\<Sum>b<i. D b)" by (intro sum_mono2) auto
        then show False using m Cons.prems(7) by simp
      qed
    qed (rule True)
    then show ?thesis using True ge by (simp add: Let_def del: sum.lessThan_Suc)
  next
    case False
    have "quantile_scan target (cum + ucast c) (i + 1) cs = push_bit (Suc (LEAST m. t \<le> (\<Sum>b<Suc m. D b))) 1"
      using Cons.IH [of "i + 1" "cum + ucast c"] Cons.prems cs cum False i by (simp del: sum.lessThan_Suc)
    then show ?thesis using False ge by (simp add: Let_def del: sum.lessThan_Suc)
  qed
qed

lemma bucket_count_sum:
  "(\<Sum>b<Suc m. bucket_count xs b) = length (filter (\<lambda>x. bucket_of x \<le> m) xs)"
proof (induction xs)
  case (Cons x xs)
  have "(\<Sum>b<Suc m. bucket_count (x # xs) b)
      = (\<Sum>b<Suc m. bucket_count xs b + (if b = bucket_of x then 1 else 0))"
    by (rule sum.cong) (auto simp: bucket_count_def)
  also have "\<dots> = (\<Sum>b<Suc m. bucket_count xs b) + (if bucket_of x \<le> m then 1 else 0)"
    by (simp add: sum.distrib sum.delta less_Suc_eq_le del: sum.lessThan_Suc)
  finally show ?case using Cons by simp
qed (simp add: bucket_count_def)

lemma ceil_percent_le: "p \<le> 100 \<Longrightarrow> (n * p + 99) div 100 \<le> (n::nat)"
proof -
  assume "p \<le> 100"
  then have "n * p + 99 \<le> n * 100 + 99" by (simp add: mult_le_mono2)
  then have "(n * p + 99) div 100 \<le> (n * 100 + 99) div 100" by (rule div_le_mono)
  then show ?thesis by simp
qed

lemma hist_quantile_least:
  assumes xs: "xs \<noteq> []" "length xs < 2 ^ 32" and pct: "1 \<le> unat pct" "unat pct \<le> 100"
  defines "t \<equiv> (length xs * unat pct + 99) div 100"
  shows "hist_quantile (hist_of xs) pct
      = push_bit (Suc (LEAST m. t \<le> length (filter (\<lambda>x. bucket_of x \<le> m) xs))) 1"
proof -
  let ?n = "length xs"
  have n: "unat (hist_total (hist_of xs)) = ?n" "hist_buckets (hist_of xs) = map (\<lambda>b. of_nat (bucket_count xs b)) [0..<24]"
    using hist_of_counts [OF xs(2)] xs(2) by (simp_all add: unat_of_nat_64)
  have np100: "?n * unat pct \<le> ?n * 100" using pct by simp
  then have np: "?n * unat pct < 2 ^ 39"
    by (rule le_less_trans) (use xs(2) in simp)
  have p: "min pct 100 = pct" using pct by (simp add: min_def word_le_nat_alt)
  have "unat (hist_total (hist_of xs) * (ucast pct :: u64)) = ?n * unat pct"
    using np n by (simp add: unat_word_ariths unat_ucast_up)
  moreover have t1: "1 \<le> t" "t < 2 ^ 63"
  proof -
    have "1 \<le> ?n * unat pct" using xs(1) pct by (cases xs; cases "unat pct") auto
    then show "1 \<le> t" unfolding t_def by linarith
    show "t < 2 ^ 63" using np unfolding t_def by (simp add: div_less_iff_less_mult)
  qed
  moreover have "max (of_nat t) 1 = (of_nat t :: u64)"
    using t1 by (simp add: max_def word_le_nat_alt unat_of_nat_64)
  moreover have "hist_total (hist_of xs) \<noteq> 0" using n xs(1) by auto
  ultimately have q: "hist_quantile (hist_of xs) pct = quantile_scan (of_nat t) 0 0 (hist_buckets (hist_of xs))"
    by (simp add: hist_quantile_def Let_def p t_def)
  have all: "(\<Sum>b<24. bucket_count xs b) = ?n"
    using bucket_count_sum [of xs 23] bucket_of_less by (simp add: less_Suc_eq_le [symmetric] del: sum.lessThan_Suc)
  have tn: "t \<le> ?n" unfolding t_def by (rule ceil_percent_le [OF pct(2)])
  have small: "\<forall>b < 24. bucket_count xs b < 2 ^ 32"
    using xs(2) by (auto simp: bucket_count_def intro: le_less_trans [OF length_filter_le])
  show ?thesis unfolding q
    using quantile_scan_least [OF n(2) small _ refl, of 0] t1 tn all xs(2)
    by (simp add: bucket_count_sum del: sum.lessThan_Suc)
qed

text \<open>
  The winsorisation threshold is the quantile it claims to be: for the histogram of up to
  2^32 - 1 recorded samples it is the least bucket edge, a power of two, that at least the given
  percentage of the samples stay below; samples past the top bucket count as covered by its edge.
\<close>
lemma quantile_is_least_edge:
  assumes "xs \<noteq> []" and "length xs < 2 ^ 32" and "1 \<le> unat pct" and "unat pct \<le> 100"
  shows "hist_quantile (hist_of xs) pct
    = push_bit (Suc (LEAST m. m = 23 \<or>
        (length xs * unat pct + 99) div 100 \<le> length (filter (\<lambda>x. unat x < 2 ^ Suc m) xs))) 1"
proof -
  let ?t = "(length xs * unat pct + 99) div 100"
  let ?C = "\<lambda>m. length (filter (\<lambda>x. bucket_of x \<le> m) xs)"
  have "?t \<le> length xs" by (rule ceil_percent_le [OF assms(4)])
  then have top: "?t \<le> ?C m" if "23 \<le> m" for m
    using that bucket_of_less by (simp add: less_Suc_eq_le [of _ 23, simplified] order_trans [of _ 23])
  have low: "?C m = length (filter (\<lambda>x. unat x < 2 ^ Suc m) xs)" if "m < 23" for m
    using that by (simp add: bucket_of_le_iff)
  let ?Q = "\<lambda>m. m = 23 \<or> ?t \<le> length (filter (\<lambda>x. unat x < 2 ^ Suc m) xs)"
  have "(LEAST m. ?t \<le> ?C m) = (LEAST m. ?Q m)"
  proof (rule Least_equality)
    have "?Q 23" by simp
    then have q: "?Q (LEAST m. ?Q m)" and le: "(LEAST m. ?Q m) \<le> 23" by (rule LeastI, rule Least_le)
    show "?t \<le> ?C (LEAST m. ?Q m)"
      using q le low [of "LEAST m. ?Q m"] top [of "LEAST m. ?Q m"] by (cases "(LEAST m. ?Q m) = 23") auto
  next
    fix m assume m: "?t \<le> ?C m"
    show "(LEAST m. ?Q m) \<le> m"
    proof (cases "m < 23")
      case True
      then have "?Q m" using m low by simp
      then show ?thesis by (rule Least_le)
    next
      case False
      have "(LEAST m. ?Q m) \<le> 23" by (rule Least_le) simp
      then show ?thesis using False by simp
    qed
  qed
  then show ?thesis using hist_quantile_least [OF assms] by simp
qed

lemma quantile_is_least_edge_witness:
  "hist_quantile (hist_of [3, 5, 20, 9000]) 75 = 32"
proof -
  have l: "(LEAST m. m = 23 \<or> 3 \<le> length (filter (\<lambda>x. unat x < 2 ^ Suc m) [3, 5, 20, 9000 :: u64])) = 4"
  proof (rule Least_equality)
    fix m assume "m = 23 \<or> 3 \<le> length (filter (\<lambda>x. unat x < 2 ^ Suc m) [3, 5, 20, 9000 :: u64])"
    then show "4 \<le> m"
      by (cases m; cases "m - 1"; cases "m - 2"; cases "m - 3") (auto split: if_splits)
  qed simp
  show ?thesis
    using quantile_is_least_edge [of "[3, 5, 20, 9000]" 75] l by (simp add: push_bit_eq_mult)
qed

text \<open>
  The header fits in front of the user pointer: for a power-of-two alignment up to 2^62, the
  padding is the least multiple of the alignment with room for the 48-byte header, so in a block
  that starts at a multiple of the alignment the user pointer is aligned and the header lies
  inside the block.
\<close>
lemma header_pad_fits:
  assumes "k \<le> 62"
  shows "2 ^ k dvd unat (header_pad (2 ^ k)) \<and> unat HEADER_SIZE \<le> unat (header_pad (2 ^ k))
    \<and> unat (header_pad (2 ^ k)) < unat HEADER_SIZE + 2 ^ k"
proof -
  have "(2::nat) ^ k \<le> 2 ^ 62" using assms by (rule power_increasing) simp
  then have "unat HEADER_SIZE + 2 ^ k \<le> 2 ^ 64" by (simp add: HEADER_SIZE_def)
  then show ?thesis
    using align_up_bounds [of k HEADER_SIZE] assms
    by (simp add: header_pad_def is_aligned_unat word_le_nat_alt dvd_eq_mod_eq_0)
qed

lemma header_pad_fits_witness: "2 ^ 12 dvd unat (header_pad 4096)"
  using header_pad_fits [of 12] by simp

text \<open>
  The size-based default routes a request, with its header, to a backend whose size range
  holds it: Slab for at most 16 KiB, Buddy for at most 1 MiB, System above.
\<close>
lemma default_backend_by_size:
  assumes "unat sz + 48 < 2 ^ 64"
  shows "default_backend_for_size sz =
    (if unat sz + 48 \<le> unat SLAB_MAX then Slab else if unat sz + 48 \<le> unat BUDDY_MAX then Buddy else System)"
proof -
  have s: "unat (sz + 48) = unat sz + 48" using assms by (simp add: unat_word_ariths)
  have small: "of_nat c \<le> (11 :: u8)" if "slab_class_for (sz + 48) = Some c" for c
    using slab_class_bound [OF that] by (simp add: word_le_nat_alt unat_of_nat take_bit_nat_eq_self_iff)
  show ?thesis
    using slab_class_for_None [of "sz + 48"] small s
    by (auto simp: default_backend_for_size_def default_backend_for_size_class_def size_class_for_def
        SLAB_MAX_def BUDDY_MAX_def word_le_nat_alt push_bit_eq_mult Let_def split: option.splits)
qed

lemma default_backend_by_size_witness: "default_backend_for_size 16336 = Slab \<and> default_backend_for_size 16337 = Buddy"
  using default_backend_by_size [of 16336] default_backend_by_size [of 16337]
  by (simp add: SLAB_MAX_def BUDDY_MAX_def push_bit_eq_mult)

end
