(* ===== verification/PerfectHash.thy ===== *)
theory PerfectHash
  imports Routing
begin

text \<open>
  The frozen routing tables (\<open>crates/lohalloc-alloc/src/perfect_hash.rs\<close>): the CHD minimal
  perfect hash, the two-table routing plane with its size-class shortcut, and the
  \<open>.lohalloc\<close> wire format. Byte buffers are \<open>u8\<close> lists. The construction may panic
  after its last retry, so it returns a \<open>rust\<close> value. A displacement search runs over
  \<open>1..=MAX_DISPLACEMENT\<close> and the retries over a fixed list of seeds, so nothing here needs
  fuel.
\<close>

definition PHT_MAGIC :: u64 where "PHT_MAGIC = 0x434f4c4c41484f4c"
definition PHT_VERSION :: u32 where "PHT_VERSION = 4"
definition FLAG_HAS_CONTEXT :: u8 where "FLAG_HAS_CONTEXT = 1"
definition FLAG_DEEP_CONTEXT :: u8 where "FLAG_DEEP_CONTEXT = 2"
definition BUCKET_LAMBDA :: nat where "BUCKET_LAMBDA = 4"
definition MAX_DISPLACEMENT :: u32 where "MAX_DISPLACEMENT = push_bit 16 1"
definition GLOBAL_RETRIES :: nat where "GLOBAL_RETRIES = 16"
definition ENTRY_BYTES :: nat where "ENTRY_BYTES = 10"
definition SC_VERDICT_LEN :: nat where "SC_VERDICT_LEN = 16"

record entry =
  e_hash :: u64
  e_backend :: backend
  e_size_class :: u8
  e_flags :: u8

type_synonym quad = "u64 \<times> u8 \<times> backend \<times> u8"

definition mix :: "u64 \<Rightarrow> u64 \<Rightarrow> u64" where
  "mix hash seed =
     (let z = hash XOR (seed * 0x9E3779B97F4A7C15);
          z = (z XOR drop_bit 30 z) * 0xBF58476D1CE4E5B9;
          z = (z XOR drop_bit 27 z) * 0x94D049BB133111EB
      in z XOR drop_bit 31 z)"

text \<open>The product is taken in 128 bits.\<close>

definition fastrange :: "u64 \<Rightarrow> nat \<Rightarrow> nat" where
  "fastrange x n = unat (drop_bit 64 ((ucast x :: 128 word) * of_nat n))"

definition backend_from_u8 :: "u8 \<Rightarrow> backend" where
  "backend_from_u8 b =
     (let d = b AND 0x3 in if d = 0 then Slab else if d = 1 then Buddy else if d = 2 then System else Arena)"

definition pack :: "u32 list \<Rightarrow> entry list \<Rightarrow> u8 list" where
  "pack seeds slots =
     concat (map (to_le_bytes 4) seeds)
     @ concat (map (\<lambda>e. to_le_bytes 8 (e_hash e)
         @ [backend_u8 (e_backend e) OR push_bit 2 (e_flags e), e_size_class e]) slots)"

record perfect_hash_table =
  global_seed :: u64
  num_buckets :: nat
  num_slots :: nat
  pht_buf :: "u8 list"

section \<open>Construction\<close>

text \<open>The bucket of every entry index, in index order.\<close>

fun push_buckets :: "nat \<Rightarrow> u64 \<Rightarrow> nat \<Rightarrow> entry list \<Rightarrow> nat list list \<Rightarrow> nat list list" where
  "push_buckets m g i [] buckets = buckets"
| "push_buckets m g i (e # es) buckets =
     (let b = fastrange (mix (e_hash e) g) m
      in push_buckets m g (i + 1) es (buckets[b := buckets ! b @ [i]]))"

text \<open>One displacement: the slots of the bucket's keys, if they are free and distinct.\<close>

fun candidates ::
  "entry list \<Rightarrow> u64 \<Rightarrow> nat \<Rightarrow> bool list \<Rightarrow> u32 \<Rightarrow> nat list \<Rightarrow> nat list \<Rightarrow> nat list option"
where
  "candidates entries g n occupied d cand [] = Some cand"
| "candidates entries g n occupied d cand (i # is) =
     (let slot = fastrange (mix (e_hash (entries ! i)) (g XOR ucast d)) n
      in if occupied ! slot \<or> slot \<in> set cand then None
         else candidates entries g n occupied d (cand @ [slot]) is)"

text \<open>The search \<open>for d in d..=MAX_DISPLACEMENT\<close>.\<close>

function seed_search ::
  "entry list \<Rightarrow> u64 \<Rightarrow> nat \<Rightarrow> bool list \<Rightarrow> nat list \<Rightarrow> u32 \<Rightarrow> (u32 \<times> nat list) option"
where
  "seed_search entries g n occupied bucket d =
     (if d > MAX_DISPLACEMENT then None
      else case candidates entries g n occupied d [] bucket of
        Some cand \<Rightarrow> Some (d, cand)
      | None \<Rightarrow> seed_search entries g n occupied bucket (d + 1))"
  by pat_completeness auto
termination
proof (relation "measure (\<lambda>(entries, g, n, occupied, bucket, d). 2 ^ 17 - unat d)")
  show "wf (measure (\<lambda>(entries :: entry list, g :: u64, n :: nat, occupied :: bool list, bucket :: nat list, d :: u32). 2 ^ 17 - unat d))"
    by simp
next
  fix entries :: "entry list" and g :: u64 and n :: nat and occupied bucket and d :: u32
  assume "\<not> MAX_DISPLACEMENT < d"
  then have "unat d \<le> 2 ^ 16" by (simp add: MAX_DISPLACEMENT_def word_less_nat_alt push_bit_eq_mult)
  then have "unat (d + 1) = unat d + 1" by (simp add: unat_word_ariths)
  then show "((entries, g, n, occupied, bucket, d + 1), entries, g, n, occupied, bucket, d)
      \<in> measure (\<lambda>(entries, g, n, occupied, bucket, d). 2 ^ 17 - unat d)"
    using \<open>unat d \<le> 2 ^ 16\<close> by simp
qed

declare seed_search.simps [simp del]

fun place_all :: "entry list \<Rightarrow> (nat \<times> nat) list \<Rightarrow> bool list \<times> entry list \<Rightarrow> bool list \<times> entry list" where
  "place_all entries [] st = st"
| "place_all entries ((i, slot) # ps) (occupied, slots) =
     place_all entries ps (occupied[slot := True], slots[slot := entries ! i])"

fun place_buckets ::
  "entry list \<Rightarrow> u64 \<Rightarrow> nat list list \<Rightarrow> nat list \<Rightarrow> bool list \<times> entry list \<Rightarrow> u32 list \<Rightarrow>
   (u32 list \<times> entry list) option"
where
  "place_buckets entries g buckets [] (occupied, slots) seeds = Some (seeds, slots)"
| "place_buckets entries g buckets (b # order) (occupied, slots) seeds =
     (if buckets ! b = [] then Some (seeds, slots)
      else case seed_search entries g (length entries) occupied (buckets ! b) 1 of
        None \<Rightarrow> None
      | Some (d, cand) \<Rightarrow>
          place_buckets entries g buckets order
            (place_all entries (zip (buckets ! b) cand) (occupied, slots)) (seeds[b := d]))"

definition empty_entry :: entry where
  "empty_entry = \<lparr>e_hash = 0, e_backend = System, e_size_class = 0, e_flags = 0\<rparr>"

definition try_build :: "entry list \<Rightarrow> nat \<Rightarrow> u64 \<Rightarrow> perfect_hash_table option" where
  "try_build entries m g =
     (let n = length entries;
          buckets = push_buckets m g 0 entries (replicate m []);
          order = sort_key (\<lambda>b. - int (length (buckets ! b))) [0..<m]
      in case place_buckets entries g buckets order
             (replicate n False, replicate n empty_entry) (replicate m 0) of
           None \<Rightarrow> None
         | Some (seeds, slots) \<Rightarrow>
             Some \<lparr>global_seed = g, num_buckets = m, num_slots = n, pht_buf = pack seeds slots\<rparr>)"

definition build_attempts :: "nat \<Rightarrow> (nat \<times> u64) list" where
  "build_attempts n =
     concat (map (\<lambda>m. map (\<lambda>a. (m, (of_nat a + 1) * 0x9E3779B97F4A7C15)) [0..<GLOBAL_RETRIES])
       [max ((n + BUCKET_LAMBDA - 1) div BUCKET_LAMBDA) 1, n])"

fun first_build :: "entry list \<Rightarrow> (nat \<times> u64) list \<Rightarrow> perfect_hash_table rust" where
  "first_build entries [] = Panic"
| "first_build entries ((m, g) # rest) =
     (case try_build entries m g of Some t \<Rightarrow> Return t | None \<Rightarrow> first_build entries rest)"

definition build :: "entry list \<Rightarrow> perfect_hash_table rust" where
  "build entries =
     (let n = length entries
      in if n = 0 then Return \<lparr>global_seed = 0, num_buckets = 0, num_slots = 0, pht_buf = []\<rparr>
         else first_build entries (build_attempts n))"

definition dedup_push :: "entry list \<Rightarrow> entry \<Rightarrow> entry list" where
  "dedup_push deduped e =
     (if deduped \<noteq> [] \<and> e_hash (last deduped) = e_hash e then butlast deduped @ [e]
      else deduped @ [e])"

definition entry_of_quad :: "quad \<Rightarrow> entry" where
  "entry_of_quad q =
     (case q of (h, sc, b, f) \<Rightarrow> \<lparr>e_hash = h, e_backend = b, e_size_class = sc, e_flags = f\<rparr>)"

definition canonical_entries :: "quad list \<Rightarrow> entry list" where
  "canonical_entries quads =
     (let entries = sort_key e_hash (map entry_of_quad quads)
      in if length entries > 1 then foldl dedup_push [] entries else entries)"

definition from_entries_flagged :: "quad list \<Rightarrow> perfect_hash_table rust" where
  "from_entries_flagged quads = build (canonical_entries quads)"

definition from_entries :: "(u64 \<times> u8 \<times> backend) list \<Rightarrow> perfect_hash_table rust" where
  "from_entries triples = from_entries_flagged (map (\<lambda>(h, sc, b). (h, sc, b, 0)) triples)"

section \<open>Lookup\<close>

definition entry_offset :: "perfect_hash_table \<Rightarrow> nat \<Rightarrow> nat" where
  "entry_offset t slot = num_buckets t * 4 + slot * ENTRY_BYTES"

definition bytes_at :: "u8 list \<Rightarrow> nat \<Rightarrow> nat \<Rightarrow> u8 list" where
  "bytes_at buf off n = take n (drop off buf)"

definition entry_hash_at :: "perfect_hash_table \<Rightarrow> nat \<Rightarrow> u64" where
  "entry_hash_at t slot = from_le_bytes (bytes_at (pht_buf t) (entry_offset t slot) 8)"

definition entry_backend_at :: "perfect_hash_table \<Rightarrow> nat \<Rightarrow> backend" where
  "entry_backend_at t slot = backend_from_u8 (pht_buf t ! (entry_offset t slot + 8))"

definition entry_size_class_at :: "perfect_hash_table \<Rightarrow> nat \<Rightarrow> u8" where
  "entry_size_class_at t slot = pht_buf t ! (entry_offset t slot + 9)"

definition lookup_with_flags :: "perfect_hash_table \<Rightarrow> u64 \<Rightarrow> (backend \<times> u8) option" where
  "lookup_with_flags t hash =
     (let n = num_slots t in
      if n = 0 then None
      else
        let g = global_seed t; m = num_buckets t;
            bucket = fastrange (mix hash g) m;
            d = ucast (from_le_bytes (bytes_at (pht_buf t) (bucket * 4) 4) :: u32) :: u64;
            slot = fastrange (mix hash (g XOR d)) n;
            eoff = m * 4 + slot * ENTRY_BYTES;
            stored = from_le_bytes (bytes_at (pht_buf t) eoff 8)
        in if stored \<noteq> hash then None
           else let b = pht_buf t ! (eoff + 8) in Some (backend_from_u8 b, drop_bit 2 b))"

definition lookup :: "perfect_hash_table \<Rightarrow> u64 \<Rightarrow> backend option" where
  "lookup t hash =
     (let n = num_slots t in
      if n = 0 then None
      else
        let g = global_seed t; m = num_buckets t;
            bucket = fastrange (mix hash g) m;
            d = ucast (from_le_bytes (bytes_at (pht_buf t) (bucket * 4) 4) :: u32) :: u64;
            slot = fastrange (mix hash (g XOR d)) n;
            eoff = m * 4 + slot * ENTRY_BYTES;
            stored = from_le_bytes (bytes_at (pht_buf t) eoff 8)
        in if stored \<noteq> hash then None
           else Some (backend_from_u8 (pht_buf t ! (eoff + 8))))"

definition entries_flagged :: "perfect_hash_table \<Rightarrow> quad list" where
  "entries_flagged t =
     sort_key fst (map (\<lambda>slot.
       let b = pht_buf t ! (entry_offset t slot + 8)
       in (entry_hash_at t slot, entry_size_class_at t slot, entry_backend_at t slot, drop_bit 2 b))
       [0..<num_slots t])"

definition table_entries :: "perfect_hash_table \<Rightarrow> (u64 \<times> u8 \<times> backend) list" where
  "table_entries t = map (\<lambda>(h, sc, b, f). (h, sc, b)) (entries_flagged t)"

definition has_backend :: "perfect_hash_table \<Rightarrow> backend \<Rightarrow> bool" where
  "has_backend t b \<longleftrightarrow> list_ex (\<lambda>slot. entry_backend_at t slot = b) [0..<num_slots t]"

definition table_len :: "perfect_hash_table \<Rightarrow> nat" where "table_len t = num_slots t"
definition table_is_empty :: "perfect_hash_table \<Rightarrow> bool" where "table_is_empty t \<longleftrightarrow> num_slots t = 0"

section \<open>The routing plane\<close>

record frozen_routing =
  fr_main :: perfect_hash_table
  fr_distilled :: perfect_hash_table
  fr_sc_verdict :: "backend option list"
  fr_ahr_needed :: bool

text \<open>One step of the unanimity scan over \<open>(agreed, conflict, seen)\<close>.\<close>

fun verdict_step ::
  "backend option list \<times> bool list \<times> bool list \<Rightarrow> quad \<Rightarrow> backend option list \<times> bool list \<times> bool list"
where
  "verdict_step (agreed, conflict, seen) (h, sc, b, flags) =
     (let i = unat sc in
      if i \<ge> SC_VERDICT_LEN then (agreed, conflict, seen)
      else
        let seen = seen[i := True]
        in if flags \<noteq> 0 then (agreed, conflict[i := True], seen)
           else case agreed ! i of
               None \<Rightarrow> (agreed[i := Some b], conflict, seen)
             | Some b' \<Rightarrow> if b' \<noteq> b then (agreed, conflict[i := True], seen) else (agreed, conflict, seen))"

definition compute_sc_verdict :: "perfect_hash_table \<Rightarrow> perfect_hash_table \<Rightarrow> backend option list" where
  "compute_sc_verdict main distilled =
     (case foldl verdict_step
         (replicate SC_VERDICT_LEN None, replicate SC_VERDICT_LEN False, replicate SC_VERDICT_LEN False)
         (entries_flagged main @ entries_flagged distilled) of
       (agreed, conflict, seen) \<Rightarrow>
         map (\<lambda>i. if seen ! i \<and> \<not> conflict ! i
                  then (case agreed ! i of None \<Rightarrow> None
                        | Some b \<Rightarrow> if b = default_backend_for_size_class (of_nat i) then Some b else None)
                  else None) [0..<SC_VERDICT_LEN])"

definition scan_has_context :: "perfect_hash_table \<Rightarrow> bool" where
  "scan_has_context main \<longleftrightarrow>
     list_ex (\<lambda>slot. drop_bit 2 (pht_buf main ! (entry_offset main slot + 8)) \<noteq> 0) [0..<num_slots main]"

definition frozen_routing_new :: "perfect_hash_table \<Rightarrow> perfect_hash_table \<Rightarrow> frozen_routing" where
  "frozen_routing_new main distilled =
     \<lparr>fr_main = main, fr_distilled = distilled, fr_sc_verdict = compute_sc_verdict main distilled,
      fr_ahr_needed = scan_has_context main\<rparr>"

definition sc_verdict :: "frozen_routing \<Rightarrow> u8 \<Rightarrow> backend option" where
  "sc_verdict fr sc =
     (if unat sc < length (fr_sc_verdict fr) then fr_sc_verdict fr ! unat sc else None)"

definition has_context_entries :: "frozen_routing \<Rightarrow> bool" where
  "has_context_entries fr \<longleftrightarrow> scan_has_context (fr_main fr)"

definition route_main :: "frozen_routing \<Rightarrow> u64 \<Rightarrow> (u8 \<times> u8) option \<Rightarrow> backend option" where
  "route_main fr key ctx =
     (case lookup_with_flags (fr_main fr) key of None \<Rightarrow> None
      | Some (b, flags) \<Rightarrow>
          let fine =
            (if flags AND FLAG_HAS_CONTEXT \<noteq> 0
             then (case ctx of None \<Rightarrow> None | Some (shallow, deep) \<Rightarrow> lookup (fr_main fr) (combine_key_ctx key shallow))
             else if flags AND FLAG_DEEP_CONTEXT \<noteq> 0
             then (case ctx of None \<Rightarrow> None | Some (shallow, deep) \<Rightarrow> lookup (fr_main fr) (combine_key_ctx_deep key deep))
             else None)
          in (case fine of Some f \<Rightarrow> Some f | None \<Rightarrow> Some b))"

section \<open>The wire format\<close>

definition wire_entry :: "quad \<Rightarrow> u8 list" where
  "wire_entry q =
     (case q of (h, sc, b, f) \<Rightarrow> to_le_bytes 8 h @ [backend_u8 b, sc, f, 0])"

definition xor_hashes :: "u64 list \<Rightarrow> u64" where
  "xor_hashes hs = foldl (XOR) 0 hs"

definition serialize :: "frozen_routing \<Rightarrow> u8 list" where
  "serialize fr =
     (let main = entries_flagged (fr_main fr); distilled = entries_flagged (fr_distilled fr)
      in to_le_bytes 8 PHT_MAGIC @ to_le_bytes 4 PHT_VERSION
         @ to_le_bytes 4 (of_nat (length main) :: u32) @ to_le_bytes 4 (of_nat (length distilled) :: u32)
         @ concat (map wire_entry main) @ concat (map wire_entry distilled)
         @ to_le_bytes 8 (xor_hashes (map fst (main @ distilled))))"

text \<open>\<open>count\<close> entries from position \<open>pos\<close>, with the checksum so far.\<close>

fun read_section :: "u8 list \<Rightarrow> nat \<Rightarrow> nat \<Rightarrow> u64 \<Rightarrow> (quad list \<times> nat \<times> u64) option" where
  "read_section data pos 0 checksum = Some ([], pos, checksum)"
| "read_section data pos (Suc cnt) checksum =
     (let hash = from_le_bytes (bytes_at data pos 8);
          b = data ! (pos + 8); sc = data ! (pos + 9); flags = data ! (pos + 10)
      in case backend_of_u8 b of None \<Rightarrow> None
         | Some bk \<Rightarrow>
             if flags > 0x3F then None
             else case read_section data (pos + 12) cnt (checksum XOR hash) of None \<Rightarrow> None
               | Some (es, pos', checksum') \<Rightarrow> Some ((hash, sc, bk, flags) # es, pos', checksum'))"

definition rebuild :: "quad list \<Rightarrow> perfect_hash_table rust" where
  "rebuild quads = from_entries_flagged quads"

definition deserialize :: "u8 list \<Rightarrow> frozen_routing option rust" where
  "deserialize data =
     (if length data < 28 then Return None
      else if (from_le_bytes (bytes_at data 0 8) :: u64) \<noteq> PHT_MAGIC then Return None
      else if (from_le_bytes (bytes_at data 8 4) :: u32) \<noteq> PHT_VERSION then Return None
      else
        let main_count = unat (from_le_bytes (bytes_at data 12 4) :: u32);
            distilled_count = unat (from_le_bytes (bytes_at data 16 4) :: u32)
        in if length data < 20 + (main_count + distilled_count) * 12 + 8 then Return None
           else case read_section data 20 main_count 0 of None \<Rightarrow> Return None
           | Some (main, pos, checksum) \<Rightarrow>
             case read_section data pos distilled_count checksum of None \<Rightarrow> Return None
             | Some (distilled, pos, checksum) \<Rightarrow>
               if (from_le_bytes (bytes_at data pos 8) :: u64) \<noteq> checksum then Return None
               else case rebuild main of Panic \<Rightarrow> Panic
               | Return m \<Rightarrow> (case rebuild distilled of Panic \<Rightarrow> Panic
                   | Return d \<Rightarrow> Return (Some (frozen_routing_new m d))))"

text \<open>The two conveniences on a single table.\<close>

definition table_serialize :: "perfect_hash_table \<Rightarrow> u8 list rust" where
  "table_serialize t =
     (case from_entries [] of Panic \<Rightarrow> Panic | Return d \<Rightarrow> Return (serialize (frozen_routing_new t d)))"

definition table_deserialize :: "u8 list \<Rightarrow> perfect_hash_table option rust" where
  "table_deserialize data =
     (case deserialize data of Panic \<Rightarrow> Panic
      | Return None \<Rightarrow> Return None | Return (Some fr) \<Rightarrow> Return (Some (fr_main fr)))"

end
