(* ===== verification/PerfectHashCorrect.thy ===== *)
theory PerfectHashCorrect
  imports PerfectHash
begin

text \<open>
  Correctness of the frozen tables: what a lookup in a constructed table returns, the round trip
  of the wire format and what it rejects, the size-class shortcut and the context gate.
\<close>

section \<open>Fast range\<close>

lemma fastrange_nat: "n < 2 ^ 64 \<Longrightarrow> fastrange x n = unat x * n div 2 ^ 64"
proof -
  assume n: "n < 2 ^ 64"
  have "unat x * n < 2 ^ 64 * 2 ^ 64"
    by (rule mult_strict_mono) (use n unat_lt_64 [of x] in simp_all)
  then have "unat ((ucast x :: 128 word) * of_nat n) = unat x * n"
    using n by (simp add: unat_word_ariths unat_ucast_up unat_of_nat take_bit_nat_eq_self_iff)
  moreover have "unat (drop_bit 64 y) = unat y div 2 ^ 64" for y :: "128 word"
    by (metis drop_bit_eq_div unat_drop_bit_eq)
  ultimately show ?thesis by (simp only: fastrange_def)
qed

lemma fastrange_less: "0 < n \<Longrightarrow> n < 2 ^ 64 \<Longrightarrow> fastrange x n < n"
  using unat_lt_64 [of x] by (simp add: fastrange_nat div_less_iff_less_mult)

section \<open>The buffer layout\<close>

lemma length_concat_uniform:
  "\<forall>xs \<in> set xss. length xs = k \<Longrightarrow> length (concat xss) = length xss * k"
  by (induction xss) auto

lemma drop_concat_uniform:
  assumes "\<forall>xs \<in> set xss. length xs = k"
  shows "drop (i * k) (concat xss) = concat (drop i xss)"
  using assms
proof (induction xss arbitrary: i)
  case (Cons xs xss)
  then show ?case by (cases i) auto
qed simp

lemma take_drop_concat_uniform:
  assumes "\<forall>xs \<in> set xss. length xs = k" and "i < length xss" and "p + n \<le> k"
  shows "take n (drop (i * k + p) (concat xss)) = take n (drop p (xss ! i))"
proof -
  have "drop (i * k + p) (concat xss) = drop p (concat (drop i xss))"
    using drop_concat_uniform [OF assms(1), of i] by (metis add.commute drop_drop)
  also have "\<dots> = drop p (xss ! i @ concat (drop (Suc i) xss))"
    using assms(2) by (simp add: Cons_nth_drop_Suc [symmetric])
  finally show ?thesis using assms by simp
qed

lemma nth_concat_uniform:
  assumes "\<forall>xs \<in> set xss. length xs = k" and "i < length xss" and "p < k"
  shows "concat xss ! (i * k + p) = xss ! i ! p"
proof -
  have "i * k + p < length (concat xss)"
    using mult_le_mono1 [of "Suc i" "length xss" k] length_concat_uniform [OF assms(1)] assms(2,3) by simp
  moreover have "take 1 (drop (i * k + p) (concat xss)) = take 1 (drop p (xss ! i))"
    by (rule take_drop_concat_uniform) (use assms in auto)
  moreover have "length (xss ! i) = k" using assms by simp
  ultimately show ?thesis using assms(3) by (simp add: take_Suc_conv_app_nth [of 0, simplified] hd_drop_conv_nth [symmetric] take_Suc)
qed

definition entry_bytes :: "entry \<Rightarrow> u8 list" where
  "entry_bytes e = to_le_bytes 8 (e_hash e)
     @ [backend_u8 (e_backend e) OR push_bit 2 (e_flags e), e_size_class e]"

lemma length_entry_bytes [simp]: "length (entry_bytes e) = 10"
  by (simp add: entry_bytes_def)

lemma pack_eq: "pack seeds slots = concat (map (to_le_bytes 4) seeds) @ concat (map entry_bytes slots)"
  unfolding pack_def entry_bytes_def ..

lemma pack_seed:
  "b < length seeds \<Longrightarrow> bytes_at (pack seeds slots) (b * 4) 4 = to_le_bytes 4 (seeds ! b)"
proof -
  assume b: "b < length seeds"
  have u: "\<forall>xs \<in> set (map (to_le_bytes 4) seeds). length xs = 4" by simp
  have "b * 4 + 4 \<le> length (concat (map (to_le_bytes 4) seeds))"
    using b by (simp add: length_concat_uniform [OF u])
  then have "bytes_at (pack seeds slots) (b * 4) 4 = take 4 (drop (b * 4) (concat (map (to_le_bytes 4) seeds)))"
    by (simp add: bytes_at_def pack_eq)
  also have "\<dots> = to_le_bytes 4 (seeds ! b)"
    using take_drop_concat_uniform [OF u, of b 0 4] b by simp
  finally show ?thesis .
qed

lemma pack_entry:
  assumes "s < length slots" and "length seeds = m"
  shows "bytes_at (pack seeds slots) (m * 4 + s * ENTRY_BYTES) 8 = to_le_bytes 8 (e_hash (slots ! s))"
    and "pack seeds slots ! (m * 4 + s * ENTRY_BYTES + 8)
      = backend_u8 (e_backend (slots ! s)) OR push_bit 2 (e_flags (slots ! s))"
    and "pack seeds slots ! (m * 4 + s * ENTRY_BYTES + 9) = e_size_class (slots ! s)"
proof -
  have u: "\<forall>xs \<in> set (map entry_bytes slots). length xs = 10" by simp
  have l: "length (concat (map (to_le_bytes 4) seeds)) = m * 4"
    using length_concat_uniform [of "map (to_le_bytes 4) seeds" 4] assms(2) by simp
  show "bytes_at (pack seeds slots) (m * 4 + s * ENTRY_BYTES) 8 = to_le_bytes 8 (e_hash (slots ! s))"
    using take_drop_concat_uniform [OF u, of s 0 8] assms l
    by (simp add: bytes_at_def pack_eq ENTRY_BYTES_def entry_bytes_def)
  show "pack seeds slots ! (m * 4 + s * ENTRY_BYTES + 8)
      = backend_u8 (e_backend (slots ! s)) OR push_bit 2 (e_flags (slots ! s))"
    using nth_concat_uniform [OF u, of s 8] assms l
    by (simp add: pack_eq ENTRY_BYTES_def nth_append add.assoc) (simp add: entry_bytes_def nth_append)
  show "pack seeds slots ! (m * 4 + s * ENTRY_BYTES + 9) = e_size_class (slots ! s)"
    using nth_concat_uniform [OF u, of s 9] assms l
    by (simp add: pack_eq ENTRY_BYTES_def nth_append add.assoc) (simp add: entry_bytes_def nth_append)
qed

lemma backend_byte:
  "backend_from_u8 (backend_u8 b OR push_bit 2 f) = b" "drop_bit 2 (backend_u8 b OR push_bit 2 f) = f AND 0x3F"
proof -
  have m: "(3::u8) = mask 2" "(0x3F::u8) = mask 6" by (simp_all add: mask_eq_exp_minus_1)
  have x: "backend_u8 b = backend_u8 b AND mask 2" by (cases b) (simp_all add: mask_eq_exp_minus_1)
  have "((y AND mask 2) OR push_bit 2 f) AND mask 2 = y AND mask 2" for y :: u8
    by (rule bit_word_eqI) (auto simp: bit_simps)
  then have "(backend_u8 b OR push_bit 2 f) AND 3 = backend_u8 b" unfolding m using x by metis
  then show "backend_from_u8 (backend_u8 b OR push_bit 2 f) = b"
    by (cases b) (simp_all add: backend_from_u8_def Let_def)
  have "drop_bit 2 ((y AND mask 2) OR push_bit 2 f) = f AND mask 6" for y :: u8
    by (rule bit_word_eqI) (auto simp: bit_simps)
  then show "drop_bit 2 (backend_u8 b OR push_bit 2 f) = f AND 0x3F" unfolding m using x by metis
qed

section \<open>Construction\<close>

text \<open>The bucket and the slot of a key.\<close>

abbreviation bucket_ix :: "u64 \<Rightarrow> nat \<Rightarrow> u64 \<Rightarrow> nat" where
  "bucket_ix g m h \<equiv> fastrange (mix h g) m"

abbreviation slot_ix :: "u64 \<Rightarrow> nat \<Rightarrow> u32 \<Rightarrow> u64 \<Rightarrow> nat" where
  "slot_ix g n d h \<equiv> fastrange (mix h (g XOR ucast d)) n"

lemma push_buckets_length [simp]: "length (push_buckets m g i es bs) = length bs"
  by (induction es arbitrary: i bs) (auto simp: Let_def)

lemma push_buckets_nth:
  assumes "0 < m" and "m < 2 ^ 64" and "b < m" and "i \<le> length es" and "length bs = m"
  shows "push_buckets m g i (drop i es) bs ! b
    = bs ! b @ filter (\<lambda>j. bucket_ix g m (e_hash (es ! j)) = b) [i..<length es]"
  using assms(4,5)
proof (induction i arbitrary: bs rule: inc_induct)
  case (step i)
  let ?b = "bucket_ix g m (e_hash (es ! i))"
  have "?b < m" using fastrange_less assms(1,2) by blast
  have "drop i es = es ! i # drop (Suc i) es" using step by (simp add: Cons_nth_drop_Suc)
  moreover have "[i..<length es] = i # [Suc i..<length es]" using step by (simp add: upt_conv_Cons)
  ultimately show ?case
    using step.IH [of "bs[?b := bs ! ?b @ [i]]"] step.prems \<open>?b < m\<close> assms(3)
    by (simp add: Let_def nth_list_update)
qed simp

lemma candidates_SomeD:
  assumes "candidates es g n occ d cand is = Some c" and "distinct cand"
  shows "\<exists>new. c = cand @ new \<and> length new = length is \<and> distinct c
    \<and> (\<forall>k < length is. new ! k = slot_ix g n d (e_hash (es ! (is ! k))) \<and> \<not> occ ! (new ! k))"
  using assms
proof (induction "is" arbitrary: cand)
  case (Cons i "is")
  let ?s = "slot_ix g n d (e_hash (es ! i))"
  from Cons.prems have f: "\<not> occ ! ?s" "?s \<notin> set cand"
    and r: "candidates es g n occ d (cand @ [?s]) is = Some c"
    by (auto simp: Let_def split: if_splits)
  have "distinct (cand @ [?s])" using Cons.prems(2) f by simp
  from Cons.IH [OF r this] obtain new where new: "c = (cand @ [?s]) @ new" "length new = length is"
    "distinct c" and nth: "\<forall>k < length is. new ! k = slot_ix g n d (e_hash (es ! (is ! k))) \<and> \<not> occ ! (new ! k)"
    by blast
  show ?case
  proof (intro exI conjI)
    show "c = cand @ ?s # new" "length (?s # new) = length (i # is)" "distinct c" using new by simp_all
    show "\<forall>k < length (i # is). (?s # new) ! k = slot_ix g n d (e_hash (es ! ((i # is) ! k)))
        \<and> \<not> occ ! ((?s # new) ! k)"
    proof (intro allI impI)
      fix k assume "k < length (i # is)"
      then show "(?s # new) ! k = slot_ix g n d (e_hash (es ! ((i # is) ! k))) \<and> \<not> occ ! ((?s # new) ! k)"
        using nth f by (cases k) auto
    qed
  qed
qed simp

lemma seed_search_SomeD:
  "seed_search es g n occ bucket d = Some (d', c) \<Longrightarrow> candidates es g n occ d' [] bucket = Some c"
  by (induction es g n occ bucket d rule: seed_search.induct)
    (subst (asm) (2) seed_search.simps, auto split: if_splits option.splits)

lemma place_all_spec:
  assumes "length is = length c" and "distinct c" and "\<forall>s \<in> set c. s < length occ \<and> s < length slots"
    and "place_all es (zip is c) (occ, slots) = (occ', slots')"
  shows "length occ' = length occ \<and> length slots' = length slots
    \<and> (\<forall>k < length c. occ' ! (c ! k) \<and> slots' ! (c ! k) = es ! (is ! k))
    \<and> (\<forall>s. s \<notin> set c \<longrightarrow> occ' ! s = occ ! s \<and> slots' ! s = slots ! s)"
  using assms
proof (induction "is" c arbitrary: occ slots rule: list_induct2)
  case (Cons i "is" s c)
  have r: "place_all es (zip is c) (occ[s := True], slots[s := es ! i]) = (occ', slots')"
    using Cons.prems(3) by simp
  have IH: "length occ' = length occ \<and> length slots' = length slots
    \<and> (\<forall>k < length c. occ' ! (c ! k) \<and> slots' ! (c ! k) = es ! (is ! k))
    \<and> (\<forall>t. t \<notin> set c \<longrightarrow> occ' ! t = occ[s := True] ! t \<and> slots' ! t = slots[s := es ! i] ! t)"
    using Cons.IH [OF _ _ r] Cons.prems(1,2) by simp
  then have "occ' ! s \<and> slots' ! s = es ! i" using Cons.prems(1,2) by simp
  then show ?case using IH by (auto simp: nth_Cons')
qed simp

text \<open>Every key of a bucket that was processed sits in its slot.\<close>

definition placed ::
  "entry list \<Rightarrow> u64 \<Rightarrow> nat \<Rightarrow> nat set \<Rightarrow> bool list \<Rightarrow> entry list \<Rightarrow> u32 list \<Rightarrow> bool"
where
  "placed es g m dn occ slots seeds \<longleftrightarrow>
     length occ = length es \<and> length slots = length es \<and> length seeds = m
     \<and> (\<forall>i < length es. bucket_ix g m (e_hash (es ! i)) \<in> dn \<longrightarrow>
          (let s = slot_ix g (length es) (seeds ! bucket_ix g m (e_hash (es ! i))) (e_hash (es ! i))
           in occ ! s \<and> slots ! s = es ! i))"

lemma place_one_bucket:
  assumes inv: "placed es g m dn occ slots seeds" and b: "b < m" "b \<notin> dn"
    and n: "0 < length es" "length es < 2 ^ 64"
    and bucket: "bk = filter (\<lambda>j. bucket_ix g m (e_hash (es ! j)) = b) [0..<length es]"
    and search: "seed_search es g (length es) occ bk 1 = Some (d, c)"
    and place: "place_all es (zip bk c) (occ, slots) = (occ', slots')"
  shows "placed es g m (insert b dn) occ' slots' (seeds[b := d])"
proof -
  let ?n = "length es"
  from candidates_SomeD [OF seed_search_SomeD [OF search]]
  have c: "length c = length bk" "distinct c"
    "\<forall>k < length bk. c ! k = slot_ix g ?n d (e_hash (es ! (bk ! k))) \<and> \<not> occ ! (c ! k)" by auto
  have bounds: "\<forall>s \<in> set c. s < length occ \<and> s < length slots"
    using c fastrange_less [OF n] inv by (auto simp: in_set_conv_nth placed_def)
  note P = place_all_spec [OF c(1) [symmetric] c(2) bounds place]
  have "let s = slot_ix g ?n (seeds[b := d] ! bucket_ix g m (e_hash (es ! i))) (e_hash (es ! i))
      in occ' ! s \<and> slots' ! s = es ! i"
    if i: "i < ?n" "bucket_ix g m (e_hash (es ! i)) \<in> insert b dn" for i
  proof (cases "bucket_ix g m (e_hash (es ! i)) = b")
    case True
    then have "i \<in> set bk" using i by (simp add: bucket)
    then obtain k where k: "k < length bk" "bk ! k = i" by (auto simp: in_set_conv_nth)
    have "length seeds = m" using inv by (simp add: placed_def)
    then show ?thesis using P c k b True by (simp add: Let_def) metis
  next
    case False
    let ?s = "slot_ix g ?n (seeds ! bucket_ix g m (e_hash (es ! i))) (e_hash (es ! i))"
    have s: "occ ! ?s" "slots ! ?s = es ! i" using inv i False by (auto simp: placed_def Let_def)
    then have "?s \<notin> set c" using c by (auto simp: in_set_conv_nth)
    then show ?thesis using P s False by (simp add: Let_def)
  qed
  then show ?thesis using P inv by (simp add: placed_def)
qed

lemma place_buckets_SomeD:
  assumes "placed es g m dn occ slots seeds"
    and "place_buckets es g buckets order (occ, slots) seeds = Some (seeds', slots')"
    and n: "0 < length es" "length es < 2 ^ 64"
    and buckets: "\<forall>b < m. buckets ! b = filter (\<lambda>j. bucket_ix g m (e_hash (es ! j)) = b) [0..<length es]"
    and order: "distinct order" "set order \<inter> dn = {}" "set order \<subseteq> {..<m}"
      "sorted (map (\<lambda>b. - int (length (buckets ! b))) order)"
    and rest: "\<forall>b < m. b \<notin> dn \<longrightarrow> b \<notin> set order \<longrightarrow> buckets ! b = []"
  shows "\<exists>occ'. placed es g m {b. b < m \<and> buckets ! b \<noteq> []} occ' slots' seeds'"
  using assms(1,2) order rest
proof (induction order arbitrary: dn occ slots seeds)
  case Nil
  then have "{b. b < m \<and> buckets ! b \<noteq> []} \<subseteq> dn" by auto
  then show ?case using Nil by (intro exI [of _ occ]) (auto simp: placed_def)
next
  case (Cons b order)
  show ?case
  proof (cases "buckets ! b = []")
    case True
    have "buckets ! b' = []" if "b' \<in> set order" for b'
    proof -
      have "- int (length (buckets ! b)) \<le> - int (length (buckets ! b'))" using Cons.prems(6) that by simp
      then show ?thesis using True by simp
    qed
    then have "{b. b < m \<and> buckets ! b \<noteq> []} \<subseteq> dn" using True Cons.prems(7) by auto
    then show ?thesis using Cons.prems(1,2) True by (intro exI [of _ occ]) (auto simp: placed_def)
  next
    case False
    obtain d c where search: "seed_search es g (length es) occ (buckets ! b) 1 = Some (d, c)"
      using Cons.prems(2) False by (auto split: option.splits)
    obtain occ1 slots1 where place: "place_all es (zip (buckets ! b) c) (occ, slots) = (occ1, slots1)"
      by force
    have b: "b < m" "b \<notin> dn" using Cons.prems(4,5) by auto
    have "placed es g m (insert b dn) occ1 slots1 (seeds[b := d])"
      by (rule place_one_bucket [OF Cons.prems(1) b n _ search place]) (use buckets b in simp)
    moreover have "place_buckets es g buckets order (occ1, slots1) (seeds[b := d]) = Some (seeds', slots')"
      using Cons.prems(2) False search place by simp
    ultimately show ?thesis
      by (rule Cons.IH) (use Cons.prems in auto)
  qed
qed

text \<open>What a successful construction over distinct keys looks like.\<close>

definition built :: "entry list \<Rightarrow> perfect_hash_table \<Rightarrow> u32 list \<Rightarrow> entry list \<Rightarrow> bool" where
  "built es t seeds slots \<longleftrightarrow>
     0 < length es \<and> length es < 2 ^ 64 \<and> 0 < num_buckets t \<and> num_buckets t < 2 ^ 64
     \<and> num_slots t = length es \<and> length slots = length es \<and> length seeds = num_buckets t
     \<and> pht_buf t = pack seeds slots
     \<and> (\<forall>i < length es.
          slots ! slot_ix (global_seed t) (length es)
            (seeds ! bucket_ix (global_seed t) (num_buckets t) (e_hash (es ! i))) (e_hash (es ! i)) = es ! i)"

lemma try_build_SomeD:
  assumes t: "try_build es m g = Some t" and m: "0 < m" "m < 2 ^ 64" and n: "0 < length es" "length es < 2 ^ 64"
  shows "\<exists>seeds slots. built es t seeds slots"
proof -
  let ?bs = "push_buckets m g 0 es (replicate m [])"
  let ?order = "sort_key (\<lambda>b. - int (length (?bs ! b))) [0..<m]"
  obtain seeds slots where p: "place_buckets es g ?bs ?order
      (replicate (length es) False, replicate (length es) empty_entry) (replicate m 0) = Some (seeds, slots)"
    and teq: "t = \<lparr>global_seed = g, num_buckets = m, num_slots = length es, pht_buf = pack seeds slots\<rparr>"
    using t by (auto simp: try_build_def Let_def split: option.splits)
  have bs: "\<forall>b < m. ?bs ! b = filter (\<lambda>j. bucket_ix g m (e_hash (es ! j)) = b) [0..<length es]"
    using push_buckets_nth [OF m, of _ 0 es "replicate m []"] by simp
  have init: "placed es g m {} (replicate (length es) False) (replicate (length es) empty_entry) (replicate m 0)"
    by (simp add: placed_def)
  obtain occ where pl: "placed es g m {b. b < m \<and> ?bs ! b \<noteq> []} occ slots seeds"
    using place_buckets_SomeD [OF init p n bs] by (auto simp: atLeast0LessThan)
  have "bucket_ix g m (e_hash (es ! i)) \<in> {b. b < m \<and> ?bs ! b \<noteq> []}" if "i < length es" for i
  proof -
    let ?b = "bucket_ix g m (e_hash (es ! i))"
    have b: "?b < m" by (rule fastrange_less [OF m])
    have "i \<in> set (filter (\<lambda>j. bucket_ix g m (e_hash (es ! j)) = ?b) [0..<length es])" using that by simp
    then have "?bs ! ?b \<noteq> []" using bs b by (metis empty_iff empty_set)
    then show ?thesis using b by simp
  qed
  then show ?thesis using pl m n teq by (auto simp: built_def placed_def Let_def)
qed

lemma first_build_ReturnD:
  assumes "first_build es attempts = Return t" and "\<forall>(m, g) \<in> set attempts. 0 < m \<and> m < 2 ^ 64"
    and "0 < length es" "length es < 2 ^ 64"
  shows "\<exists>seeds slots. built es t seeds slots"
  using assms
proof (induction attempts)
  case (Cons a attempts)
  then show ?case by (cases a) (auto split: option.splits dest: try_build_SomeD)
qed simp

lemma build_ReturnD:
  assumes "build es = Return t" and "length es < 2 ^ 64" and "es \<noteq> []"
  shows "\<exists>seeds slots. built es t seeds slots"
proof (rule first_build_ReturnD)
  show "first_build es (build_attempts (length es)) = Return t"
    using assms by (simp add: build_def Let_def)
  show "\<forall>(m, g) \<in> set (build_attempts (length es)). 0 < m \<and> m < 2 ^ 64"
    using assms(2,3) by (auto simp: build_attempts_def BUCKET_LAMBDA_def)
qed (use assms in auto)

lemma built_slots:
  assumes b: "built es t seeds slots" and d: "distinct (map e_hash es)"
  shows "set slots = set es \<and> distinct (map e_hash slots)"
proof -
  let ?n = "length es"
  have sub: "set es \<subseteq> set slots"
  proof
    fix e assume "e \<in> set es"
    then obtain i where i: "i < ?n" "es ! i = e" by (auto simp: in_set_conv_nth)
    let ?s = "slot_ix (global_seed t) ?n
      (seeds ! bucket_ix (global_seed t) (num_buckets t) (e_hash (es ! i))) (e_hash (es ! i))"
    have "slots ! ?s = e" "?s < length slots"
      using b i fastrange_less by (auto simp: built_def)
    then show "e \<in> set slots" by (metis nth_mem)
  qed
  have card: "card (set es) = ?n" using d by (metis distinct_card distinct_map)
  have "card (set slots) \<le> ?n" using b card_length [of slots] by (simp add: built_def)
  then have eq: "set slots = set es" using sub card by (metis List.finite_set card_seteq)
  have "card (set (map e_hash slots)) = card (set (map e_hash es))" using eq by simp
  also have "\<dots> = length (map e_hash slots)" using distinct_card [OF d] b by (simp add: built_def)
  finally show ?thesis using eq by (metis card_distinct)
qed

lemma built_read:
  assumes b: "built es t seeds slots" and s: "s < length es"
  shows "bytes_at (pht_buf t) (entry_offset t s) 8 = to_le_bytes 8 (e_hash (slots ! s))"
    and "entry_hash_at t s = e_hash (slots ! s)" and "entry_backend_at t s = e_backend (slots ! s)"
    and "entry_size_class_at t s = e_size_class (slots ! s)"
    and "drop_bit 2 (pht_buf t ! (entry_offset t s + 8)) = e_flags (slots ! s) AND 0x3F"
    and "backend_from_u8 (pht_buf t ! (entry_offset t s + 8)) = e_backend (slots ! s)"
  using pack_entry [of s slots seeds "num_buckets t"] b s
  by (simp_all add: built_def entry_offset_def entry_hash_at_def entry_backend_at_def
      entry_size_class_at_def from_to_le_bytes backend_byte del: drop_bit_or)

lemma map_of_map_None: "map_of (map (\<lambda>e. (f e, g e)) es) h = None \<longleftrightarrow> h \<notin> f ` set es"
  by (induction es) auto

text \<open>An entry as the packed table gives it back.\<close>

definition stored_quad :: "entry \<Rightarrow> quad" where
  "stored_quad e = (e_hash e, e_size_class e, e_backend e, e_flags e AND 0x3F)"

lemma built_lookup:
  assumes b: "built es t seeds slots" and d: "distinct (map e_hash es)"
  shows "lookup_with_flags t h = map_of (map (\<lambda>e. (e_hash e, (e_backend e, e_flags e AND 0x3F))) es) h"
proof -
  let ?n = "length es"
  let ?b = "bucket_ix (global_seed t) (num_buckets t) h"
  let ?s = "slot_ix (global_seed t) ?n (seeds ! ?b) h"
  have bb: "?b < num_buckets t" "?s < ?n" using b fastrange_less by (auto simp: built_def)
  have seed: "(from_le_bytes (bytes_at (pht_buf t) (?b * 4) 4) :: u32) = seeds ! ?b"
    using pack_seed [of ?b seeds slots] b bb by (simp add: built_def from_to_le_bytes)
  note read = built_read [OF b bb(2)]
  have lk: "lookup_with_flags t h = (if e_hash (slots ! ?s) \<noteq> h then None
      else Some (e_backend (slots ! ?s), e_flags (slots ! ?s) AND 0x3F))"
  proof -
    have n: "num_slots t = ?n" "?n \<noteq> 0" using b by (simp_all add: built_def)
    have h: "(from_le_bytes (to_le_bytes 8 w) :: u64) = w" for w :: u64 by (rule from_to_le_bytes) simp
    show ?thesis
      using n(2) read(1,5,6)
      by (simp add: lookup_with_flags_def Let_def n(1) seed entry_offset_def h del: drop_bit_or)
  qed
  have "length slots = ?n" using b by (simp add: built_def)
  then have mem: "slots ! ?s \<in> set es" using built_slots [OF b d] nth_mem bb(2) by metis
  show ?thesis
  proof (cases "e_hash (slots ! ?s) = h")
    case True
    have dk: "distinct (map fst (map (\<lambda>e. (e_hash e, (e_backend e, e_flags e AND 0x3F))) es))"
      using d by (simp add: comp_def)
    have "(h, (e_backend (slots ! ?s), e_flags (slots ! ?s) AND 0x3F))
        \<in> set (map (\<lambda>e. (e_hash e, (e_backend e, e_flags e AND 0x3F))) es)"
      using mem True by (auto intro!: image_eqI [of _ _ "slots ! ?s"])
    then show ?thesis using lk True map_of_is_SomeI [OF dk] by simp
  next
    case False
    have "h \<notin> e_hash ` set es"
    proof
      assume "h \<in> e_hash ` set es"
      then obtain i where i: "i < ?n" "e_hash (es ! i) = h" by (auto simp: in_set_conv_nth)
      then have "slots ! ?s = es ! i" using b by (auto simp: built_def)
      then show False using i False by simp
    qed
    then have "map_of (map (\<lambda>e. (e_hash e, (e_backend e, e_flags e AND 0x3F))) es) h = None"
      by (simp only: map_of_map_None not_False_eq_True)
    then show ?thesis using lk False by simp
  qed
qed

lemma sort_key_unique:
  fixes f :: "'a \<Rightarrow> 'b::linorder"
  assumes "set xs = set ys" "distinct (map f xs)" "distinct (map f ys)" "sorted (map f ys)"
  shows "sort_key f xs = ys"
proof -
  have "map f (sort_key f xs) = map f ys"
    by (rule sorted_distinct_set_unique) (use assms in \<open>auto simp: distinct_map\<close>)
  moreover have "inj_on f (set (sort_key f xs) \<union> set ys)" using assms by (simp add: distinct_map)
  ultimately show ?thesis by (rule map_inj_on)
qed

lemma built_entries:
  assumes b: "built es t seeds slots" and d: "distinct (map e_hash es)" and srt: "sorted (map e_hash es)"
  shows "entries_flagged t = map stored_quad es"
proof -
  have n: "num_slots t = length slots" "length slots = length es" using b by (auto simp: built_def)
  have "map (\<lambda>slot. let b = pht_buf t ! (entry_offset t slot + 8)
       in (entry_hash_at t slot, entry_size_class_at t slot, entry_backend_at t slot, drop_bit 2 b)) [0..<num_slots t]
     = map stored_quad slots"
    by (rule nth_equalityI) (use n built_read [OF b] in \<open>auto simp: stored_quad_def Let_def\<close>)
  moreover have "sort_key fst (map stored_quad slots) = map stored_quad es"
    by (rule sort_key_unique)
      (use built_slots [OF b d] d srt in \<open>simp_all add: comp_def stored_quad_def\<close>)
  ultimately show ?thesis by (simp add: entries_flagged_def)
qed

section \<open>Canonical entries: sorted, last duplicate wins\<close>

definition quad_of_entry :: "entry \<Rightarrow> quad" where
  "quad_of_entry e = (e_hash e, e_size_class e, e_backend e, e_flags e)"

lemma quad_entry [simp]: "quad_of_entry (entry_of_quad q) = q" "entry_of_quad (quad_of_entry e) = e"
  by (cases q; simp add: quad_of_entry_def entry_of_quad_def)+

lemma fst_quad [simp]: "fst (quad_of_entry e) = e_hash e" "e_hash (entry_of_quad q) = fst q"
  by (cases q; simp add: quad_of_entry_def entry_of_quad_def)+

text \<open>The entry that wins among those of one hash: the last one.\<close>

lemma map_of_rev_filter:
  "map_of (rev (map (\<lambda>e. (k e, v e)) es)) h
     = (let f = filter (\<lambda>e. k e = h) es in if f = [] then None else Some (v (last f)))"
  by (induction es rule: rev_induct) (auto simp: Let_def)

lemma dedup_foldl:
  assumes "sorted (map e_hash es)"
  shows "sorted_wrt (<) (map e_hash (foldl dedup_push [] es))
    \<and> (foldl dedup_push [] es = [] \<longleftrightarrow> es = [])
    \<and> (es \<noteq> [] \<longrightarrow> last (foldl dedup_push [] es) = last es)
    \<and> set (foldl dedup_push [] es) \<subseteq> set es
    \<and> (\<forall>h. filter (\<lambda>e. e_hash e = h) (foldl dedup_push [] es)
          = (let f = filter (\<lambda>e. e_hash e = h) es in if f = [] then [] else [last f]))"
  using assms
proof (induction es rule: rev_induct)
  case (snoc e es)
  let ?ds = "foldl dedup_push [] es"
  have srt: "sorted (map e_hash es)" "\<forall>x \<in> set es. e_hash x \<le> e_hash e"
    using snoc.prems by (auto simp: sorted_append)
  note IH = snoc.IH [OF srt(1)]
  show ?case
  proof (cases "es = []")
    case True
    then show ?thesis by (simp add: Let_def dedup_push_def)
  next
    case False
    then have ne: "?ds \<noteq> []" "last ?ds = last es" using IH by auto
    obtain ds0 where ds: "?ds = ds0 @ [last es]" using ne by (metis append_butlast_last_id)
    have low: "\<forall>x \<in> set ds0. e_hash x < e_hash (last es)" "sorted_wrt (<) (map e_hash ds0)"
      using IH unfolding ds by (auto simp: sorted_wrt_append)
    show ?thesis
    proof (cases "e_hash (last es) = e_hash e")
      case True
      then have step: "foldl dedup_push [] (es @ [e]) = ds0 @ [e]" using ds ne by (simp add: dedup_push_def)
      have "filter (\<lambda>x. e_hash x = h) (ds0 @ [e])
          = (let f = filter (\<lambda>x. e_hash x = h) (es @ [e]) in if f = [] then [] else [last f])" for h
      proof (cases "h = e_hash e")
        case True
        then have "filter (\<lambda>x. e_hash x = h) ds0 = []"
          using low \<open>e_hash (last es) = e_hash e\<close> by (auto simp: filter_empty_conv)
        then show ?thesis using True by (simp add: Let_def)
      next
        case False
        have "filter (\<lambda>x. e_hash x = h) ?ds
            = (let f = filter (\<lambda>x. e_hash x = h) es in if f = [] then [] else [last f])"
          using IH by blast
        then show ?thesis using False True unfolding ds by (simp add: \<open>e_hash (last es) = e_hash e\<close>)
      qed
      moreover have "set ds0 \<subseteq> set es" using IH unfolding ds by auto
      ultimately show ?thesis using low True unfolding step by (auto simp: sorted_wrt_append)
    next
      case F: False
      then have step: "foldl dedup_push [] (es @ [e]) = ?ds @ [e]" using ds ne by (simp add: dedup_push_def)
      have "last es \<in> set es" using False by simp
      then have lt: "e_hash (last es) < e_hash e" using srt(2) F by (metis order_le_less)
      then have all: "\<forall>x \<in> set ?ds. e_hash x < e_hash e" using low unfolding ds by auto
      have "filter (\<lambda>x. e_hash x = h) (?ds @ [e])
          = (let f = filter (\<lambda>x. e_hash x = h) (es @ [e]) in if f = [] then [] else [last f])" for h
      proof (cases "h = e_hash e")
        case True
        then have "filter (\<lambda>x. e_hash x = h) ?ds = []" using all by (auto simp: filter_empty_conv)
        then show ?thesis using True by (simp add: Let_def)
      next
        case False
        have "filter (\<lambda>x. e_hash x = h) ?ds
            = (let f = filter (\<lambda>x. e_hash x = h) es in if f = [] then [] else [last f])"
          using IH by blast
        then show ?thesis using False by simp
      qed
      then show ?thesis using IH all unfolding step by (auto simp: sorted_wrt_append)
    qed
  qed
qed simp

lemma canonical_entries_foldl:
  "canonical_entries qs = foldl dedup_push [] (sort_key e_hash (map entry_of_quad qs))"
proof (cases qs)
  case (Cons q qs')
  then show ?thesis by (cases qs') (simp_all add: canonical_entries_def Let_def dedup_push_def)
qed (simp add: canonical_entries_def)

lemma canonical_entries_props:
  shows canonical_sorted: "sorted (map e_hash (canonical_entries qs))"
    and canonical_distinct: "distinct (map e_hash (canonical_entries qs))"
    and canonical_subset: "set (canonical_entries qs) \<subseteq> entry_of_quad ` set qs"
    and canonical_map_of: "map_of (map (\<lambda>e. (e_hash e, v e)) (canonical_entries qs)) h
      = map_of (rev (map (\<lambda>q. (fst q, v (entry_of_quad q))) qs)) h"
proof -
  let ?es = "sort_key e_hash (map entry_of_quad qs)"
  have srt: "sorted (map e_hash ?es)" by (rule sorted_sort_key)
  note D = dedup_foldl [OF srt]
  show "sorted (map e_hash (canonical_entries qs))" and dst: "distinct (map e_hash (canonical_entries qs))"
    using D by (simp_all add: canonical_entries_foldl strict_sorted_iff)
  show "set (canonical_entries qs) \<subseteq> entry_of_quad ` set qs"
    using D by (auto simp: canonical_entries_foldl)
  have "filter (\<lambda>e. e_hash e = h) ?es = filter (\<lambda>e. e_hash e = h) (map entry_of_quad qs)"
    by (rule sort_key_stable)
  then have f: "filter (\<lambda>e. e_hash e = h) (canonical_entries qs)
      = (let f = filter (\<lambda>e. e_hash e = h) (map entry_of_quad qs) in if f = [] then [] else [last f])"
    using D by (simp add: canonical_entries_foldl)
  have "map_of (map (\<lambda>e. (e_hash e, v e)) (canonical_entries qs)) h
      = map_of (rev (map (\<lambda>e. (e_hash e, v e)) (canonical_entries qs))) h"
    using map_of_inject_set [of "map (\<lambda>e. (e_hash e, v e)) (canonical_entries qs)"
        "rev (map (\<lambda>e. (e_hash e, v e)) (canonical_entries qs))"] dst
    by (simp add: rev_map [symmetric] comp_def distinct_map)
  also have "\<dots> = map_of (rev (map (\<lambda>e. (e_hash e, v e)) (map entry_of_quad qs))) h"
    unfolding map_of_rev_filter f by (simp add: Let_def)
  finally show "map_of (map (\<lambda>e. (e_hash e, v e)) (canonical_entries qs)) h
      = map_of (rev (map (\<lambda>q. (fst q, v (entry_of_quad q))) qs)) h"
    by (simp add: comp_def)
qed

lemma canonical_length: "length (canonical_entries qs) \<le> length qs"
proof -
  have "length (canonical_entries qs) = card (set (canonical_entries qs))"
    using canonical_distinct by (metis distinct_card distinct_map)
  also have "\<dots> \<le> card (entry_of_quad ` set qs)" by (rule card_mono [OF _ canonical_subset]) simp
  also have "\<dots> \<le> length qs" by (meson card_image_le card_length finite_set le_trans)
  finally show ?thesis .
qed

lemma canonical_fixed:
  assumes "sorted (map e_hash es)" and "distinct (map e_hash es)"
  shows "canonical_entries (map quad_of_entry es) = es"
proof -
  have "sort_key e_hash es = es" by (rule sort_key_unique) (use assms in auto)
  moreover have "foldl dedup_push acc es = acc @ es"
    if "sorted (map e_hash (acc @ es))" "distinct (map e_hash (acc @ es))" for acc
    using that
  proof (induction es arbitrary: acc)
    case (Cons e es)
    have "\<not> (acc \<noteq> [] \<and> e_hash (last acc) = e_hash e)"
      using Cons.prems(2) by (cases acc rule: rev_cases) auto
    then show ?case using Cons.IH [of "acc @ [e]"] Cons.prems by (auto simp: dedup_push_def)
  qed simp
  ultimately show ?thesis using assms
    by (simp add: canonical_entries_foldl comp_def)
qed

section \<open>Lookups in a constructed table\<close>

lemma lookup_is_fst: "lookup t h = map_option fst (lookup_with_flags t h)"
  by (simp add: lookup_def lookup_with_flags_def Let_def)

lemma from_entries_cases:
  assumes "from_entries_flagged qs = Return t" and "length qs < 2 ^ 64"
  obtains "canonical_entries qs = []" "num_slots t = 0"
  | seeds slots where "built (canonical_entries qs) t seeds slots" "canonical_entries qs \<noteq> []"
proof (cases "canonical_entries qs = []")
  case True
  then show ?thesis using assms that(1) by (auto simp: from_entries_flagged_def build_def)
next
  case False
  have "length (canonical_entries qs) < 2 ^ 64" using canonical_length [of qs] assms(2) by simp
  then show ?thesis
    using build_ReturnD [of "canonical_entries qs" t] assms(1) False that(2)
    by (auto simp: from_entries_flagged_def)
qed

lemma from_entries_lookup:
  assumes "from_entries_flagged qs = Return t" and "length qs < 2 ^ 64"
  shows "lookup_with_flags t h = map_of (map (\<lambda>e. (e_hash e, (e_backend e, e_flags e AND 0x3F))) (canonical_entries qs)) h"
  using assms
proof (cases rule: from_entries_cases)
  case 1
  then show ?thesis by (simp add: lookup_with_flags_def)
next
  case (2 seeds slots)
  then show ?thesis using built_lookup [OF 2(1) canonical_distinct] by simp
qed

lemma from_entries_entries:
  assumes "from_entries_flagged qs = Return t" and "length qs < 2 ^ 64"
  shows "entries_flagged t = map stored_quad (canonical_entries qs)
    \<and> num_slots t = length (canonical_entries qs)"
  using assms
proof (cases rule: from_entries_cases)
  case 1
  then show ?thesis by (simp add: entries_flagged_def)
next
  case (2 seeds slots)
  then show ?thesis using built_entries [OF 2(1) canonical_distinct canonical_sorted]
    by (simp add: built_def)
qed

lemma frozen_lookup:
  assumes "from_entries_flagged qs = Return t" and "length qs < 2 ^ 64"
  shows "lookup_with_flags t h = map_of (rev (map (\<lambda>(k, sc, b, f). (k, (b, f AND 0x3F))) qs)) h
    \<and> lookup t h = map_option fst (map_of (rev (map (\<lambda>(k, sc, b, f). (k, (b, f AND 0x3F))) qs)) h)"
proof -
  have "(\<lambda>q :: quad. (fst q, (e_backend (entry_of_quad q), e_flags (entry_of_quad q) AND 0x3F)))
      = (\<lambda>(k, sc, b, f). (k, (b, f AND 0x3F)))"
    by (auto simp: entry_of_quad_def)
  then have "lookup_with_flags t h = map_of (rev (map (\<lambda>(k, sc, b, f). (k, (b, f AND 0x3F))) qs)) h"
    using from_entries_lookup [OF assms, of h]
      canonical_map_of [of "\<lambda>e. (e_backend e, e_flags e AND 0x3F)" qs h] by simp
  then show ?thesis by (simp add: lookup_is_fst)
qed

text \<open>
  C22: A lookup in a frozen table built from any list of entries returns the backend and the
  (six-bit) flags of the last entry with that hash, and nothing for a hash without an entry:
  the minimal perfect hash neither loses a key, nor serves a wrong one, nor invents one.
\<close>
theorem frozen_lookup_last_wins:
  assumes "from_entries_flagged qs = Return t" and "length qs < 2 ^ 64"
  shows "lookup_with_flags t h = map_of (rev (map (\<lambda>(k, sc, b, f). (k, (b, f AND 0x3F))) qs)) h
    \<and> lookup t h = map_option fst (map_of (rev (map (\<lambda>(k, sc, b, f). (k, (b, f AND 0x3F))) qs)) h)"
  by (rule frozen_lookup [OF assms])

lemma frozen_lookup_last_wins_witness:
  "case from_entries_flagged [(77, 3, Slab, 1), (5, 12, Buddy, 0), (77, 4, Arena, 2)] of
     Panic \<Rightarrow> False
   | Return t \<Rightarrow> lookup t 77 = Some Arena \<and> lookup t 5 = Some Buddy \<and> lookup t 6 = None"
proof -
  let ?qs = "[(77, 3, Slab, 1), (5, 12, Buddy, 0), (77, 4, Arena, 2)] :: quad list"
  have "case from_entries_flagged ?qs of Panic \<Rightarrow> False | Return t \<Rightarrow> True" by code_simp
  then obtain t where t: "from_entries_flagged ?qs = Return t" by (cases "from_entries_flagged ?qs") auto
  show ?thesis unfolding t
    using frozen_lookup_last_wins [OF t, of 77] frozen_lookup_last_wins [OF t, of 5]
      frozen_lookup_last_wins [OF t, of 6] by simp
qed

text \<open>
  The entries of a frozen table are listed strictly increasing in their hashes, one per
  distinct hash of the input, and each with the size class, backend and flags of the last input
  entry of its hash.
\<close>
lemma frozen_entries_canonical:
  assumes "from_entries_flagged qs = Return t" and "length qs < 2 ^ 64"
  shows "sorted_wrt (<) (map fst (entries_flagged t)) \<and> table_len t = card (fst ` set qs)
    \<and> map_of (entries_flagged t) h
      = map_of (rev (map (\<lambda>(k, sc, b, f). (k, (sc, b, f AND 0x3F))) qs)) h"
proof -
  let ?ce = "canonical_entries qs"
  have e: "entries_flagged t = map stored_quad ?ce" "num_slots t = length ?ce"
    using from_entries_entries [OF assms] by auto
  have f: "map fst (entries_flagged t) = map e_hash ?ce" by (simp add: e stored_quad_def comp_def)
  have v: "map_of (map (\<lambda>e. (e_hash e, g e)) ?ce) k = map_of (rev (map (\<lambda>q. (fst q, g (entry_of_quad q))) qs)) k"
    for g :: "entry \<Rightarrow> u8 \<times> backend \<times> u8" and k
    by (rule canonical_map_of)
  have "e_hash ` set ?ce = fst ` set qs"
  proof -
    have "dom (map_of (map (\<lambda>e. (e_hash e, g e)) ?ce)) = dom (map_of (rev (map (\<lambda>q. (fst q, g (entry_of_quad q))) qs)))"
      for g :: "entry \<Rightarrow> u8 \<times> backend \<times> u8"
      using v [of g] by auto
    then show ?thesis by (simp add: dom_map_of_conv_image_fst image_image)
  qed
  then have "card (fst ` set qs) = length ?ce"
    using distinct_card [OF canonical_distinct [of qs]] by simp
  moreover have "(\<lambda>q :: quad. (fst q, snd (stored_quad (entry_of_quad q)))) = (\<lambda>(k, sc, b, f). (k, (sc, b, f AND 0x3F)))"
    by (auto simp: entry_of_quad_def stored_quad_def)
  moreover have "entries_flagged t = map (\<lambda>e. (e_hash e, snd (stored_quad e))) ?ce"
    by (simp add: e stored_quad_def)
  ultimately have "map_of (entries_flagged t) h
      = map_of (rev (map (\<lambda>(k, sc, b, f). (k, (sc, b, f AND 0x3F))) qs)) h"
    using v [of "\<lambda>e. snd (stored_quad e)" h] by simp
  moreover have "sorted_wrt (<) (map fst (entries_flagged t))"
    unfolding f by (simp add: strict_sorted_iff canonical_sorted canonical_distinct)
  ultimately show ?thesis using e(2) \<open>card (fst ` set qs) = length ?ce\<close> by (simp add: table_len_def)
qed

lemma frozen_entries_canonical_witness:
  "case from_entries_flagged [(77, 3, Slab, 1), (5, 12, Buddy, 0), (77, 4, Arena, 2)] of
     Panic \<Rightarrow> False | Return t \<Rightarrow> table_len t = 2 \<and> map_of (entries_flagged t) 77 = Some (4, Arena, 2)"
proof -
  let ?qs = "[(77, 3, Slab, 1), (5, 12, Buddy, 0), (77, 4, Arena, 2)] :: quad list"
  have "case from_entries_flagged ?qs of Panic \<Rightarrow> False | Return t \<Rightarrow> True" by code_simp
  then obtain t where t: "from_entries_flagged ?qs = Return t" by (cases "from_entries_flagged ?qs") auto
  show ?thesis unfolding t using frozen_entries_canonical [OF t, of 77] by (simp add: card_insert_if)
qed

text \<open>
  The construction returns a table, and does not reach its panic, for the empty model and
  for every model of one entry.
\<close>
lemma small_models_build:
  "from_entries_flagged [] \<noteq> Panic \<and> from_entries_flagged [q] \<noteq> Panic"
proof -
  let ?e = "entry_of_quad q"
  have fr: "fastrange x (Suc 0) = 0" for x using fastrange_less [of 1 x] by simp
  have pb: "push_buckets 1 g 0 [?e] [[]] = [[0]]" for g by (simp add: fr)
  have ss: "seed_search [?e] g 1 [False] [0] 1 = Some (1, [0])" for g
    by (subst seed_search.simps) (simp add: fr MAX_DISPLACEMENT_def)
  have tb: "try_build [?e] 1 g \<noteq> None" for g
    using ss pb by (simp add: try_build_def Let_def del: push_buckets.simps)
  have "first_build [?e] ((1, g) # rest) \<noteq> Panic" for g rest
  proof -
    obtain t where "try_build [?e] 1 g = Some t" using tb [of g] by blast
    then show ?thesis by simp
  qed
  moreover have "build_attempts 1 = (1, 0x9E3779B97F4A7C15) # tl (build_attempts 1)" by code_simp
  ultimately have "first_build [?e] (build_attempts 1) \<noteq> Panic" by metis
  then show ?thesis
    by (simp add: from_entries_flagged_def canonical_entries_def build_def)
qed

section \<open>The wire format\<close>

lemma bytes_at_append:
  "length pre = p \<Longrightarrow> length xs = n \<Longrightarrow> bytes_at (pre @ xs @ post) p n = xs"
  by (simp add: bytes_at_def)

lemma bytes_at_append0: "length xs = n \<Longrightarrow> bytes_at (xs @ post) 0 n = xs"
  by (simp add: bytes_at_def)

lemma length_wire_entry [simp]: "length (wire_entry q) = 12"
  by (cases q) (simp add: wire_entry_def)

lemma length_wire_entries [simp]: "length (concat (map wire_entry qs)) = 12 * length qs"
  by (induction qs) auto

lemma backend_of_u8_u8 [simp]: "backend_of_u8 (backend_u8 b) = Some b"
  by (cases b) (simp_all add: backend_of_u8_def)

definition six_bit :: "quad \<Rightarrow> bool" where
  "six_bit q \<longleftrightarrow> (case q of (h, sc, b, f) \<Rightarrow> f \<le> 0x3F)"

lemma read_section_wire:
  assumes "\<forall>q \<in> set qs. six_bit q" and "length pre = pos"
  shows "read_section (pre @ concat (map wire_entry qs) @ post) pos (length qs) cs
    = Some (qs, pos + 12 * length qs, foldl (XOR) cs (map fst qs))"
  using assms
proof (induction qs arbitrary: pre pos cs)
  case (Cons q qs)
  obtain h sc b f where q: "q = (h, sc, b, f)" by (cases q) auto
  let ?data = "pre @ concat (map wire_entry (q # qs)) @ post"
  have data: "?data = pre @ to_le_bytes 8 h @ [backend_u8 b, sc, f, 0] @ concat (map wire_entry qs) @ post"
    by (simp add: q wire_entry_def)
  have "bytes_at ?data pos 8 = to_le_bytes 8 h"
    unfolding data by (rule bytes_at_append) (use Cons.prems in auto)
  then have h: "(from_le_bytes (bytes_at ?data pos 8) :: u64) = h" by (simp add: from_to_le_bytes)
  have byte: "?data ! (pos + 8) = backend_u8 b" "?data ! (pos + 9) = sc" "?data ! (pos + 10) = f"
    unfolding data using Cons.prems(2) by (simp_all add: nth_append)
  have f: "f \<le> 0x3F" using Cons.prems(1) by (simp add: q six_bit_def)
  have "read_section ((pre @ wire_entry q) @ concat (map wire_entry qs) @ post) (pos + 12) (length qs) (cs XOR h)
      = Some (qs, pos + 12 + 12 * length qs, foldl (XOR) (cs XOR h) (map fst qs))"
    by (rule Cons.IH) (use Cons.prems in auto)
  then have r: "read_section ?data (pos + 12) (length qs) (cs XOR h)
      = Some (qs, pos + 12 + 12 * length qs, foldl (XOR) (cs XOR h) (map fst qs))"
    by simp
  show ?case
    unfolding length_Cons read_section.simps Let_def h byte backend_of_u8_u8 option.case r
    using f by (simp add: q not_less)
qed simp

lemma u32_count: "n < 2 ^ 32 \<Longrightarrow> unat (from_le_bytes (to_le_bytes 4 (of_nat n :: u32)) :: u32) = n"
  by (simp add: from_to_le_bytes unat_of_nat take_bit_nat_eq_self_iff)

lemma serialize_layout:
  fixes fr
  defines "main \<equiv> entries_flagged (fr_main fr)" and "dist \<equiv> entries_flagged (fr_distilled fr)"
  shows "length (serialize fr) = 28 + 12 * (length main + length dist)"
    and "bytes_at (serialize fr) 0 8 = to_le_bytes 8 PHT_MAGIC"
    and "bytes_at (serialize fr) 8 4 = to_le_bytes 4 PHT_VERSION"
    and "bytes_at (serialize fr) 12 4 = to_le_bytes 4 (of_nat (length main) :: u32)"
    and "bytes_at (serialize fr) 16 4 = to_le_bytes 4 (of_nat (length dist) :: u32)"
    and "bytes_at (serialize fr) (20 + 12 * length main + 12 * length dist) 8
      = to_le_bytes 8 (xor_hashes (map fst (main @ dist)))"
  by (simp_all add: serialize_def Let_def bytes_at_def main_def dist_def)

lemma deserialize_serialize:
  assumes q: "\<forall>q \<in> set (entries_flagged (fr_main fr)) \<union> set (entries_flagged (fr_distilled fr)). six_bit q"
    and n: "length (entries_flagged (fr_main fr)) < 2 ^ 32" "length (entries_flagged (fr_distilled fr)) < 2 ^ 32"
  shows "deserialize (serialize fr)
    = (case rebuild (entries_flagged (fr_main fr)) of Panic \<Rightarrow> Panic
       | Return m \<Rightarrow> (case rebuild (entries_flagged (fr_distilled fr)) of Panic \<Rightarrow> Panic
           | Return d \<Rightarrow> Return (Some (frozen_routing_new m d))))"
proof -
  let ?m = "entries_flagged (fr_main fr)" and ?d = "entries_flagged (fr_distilled fr)"
  let ?h = "to_le_bytes 8 PHT_MAGIC @ to_le_bytes 4 PHT_VERSION
      @ to_le_bytes 4 (of_nat (length ?m) :: u32) @ to_le_bytes 4 (of_nat (length ?d) :: u32)"
  let ?c = "to_le_bytes 8 (xor_hashes (map fst (?m @ ?d)))"
  note L = serialize_layout [of fr]
  have s: "serialize fr = ?h @ concat (map wire_entry ?m) @ concat (map wire_entry ?d) @ ?c"
    by (simp add: serialize_def Let_def)
  have r1: "read_section (serialize fr) 20 (length ?m) 0 = Some (?m, 20 + 12 * length ?m, foldl (XOR) 0 (map fst ?m))"
    unfolding s by (rule read_section_wire) (use q in auto)
  have r2: "read_section (serialize fr) (20 + 12 * length ?m) (length ?d) (foldl (XOR) 0 (map fst ?m))
      = Some (?d, 20 + 12 * length ?m + 12 * length ?d, foldl (XOR) (foldl (XOR) 0 (map fst ?m)) (map fst ?d))"
    using read_section_wire [of ?d "?h @ concat (map wire_entry ?m)" "20 + 12 * length ?m" ?c] q
    unfolding s by simp
  have k: "(from_le_bytes (bytes_at (serialize fr) (20 + 12 * length ?m + 12 * length ?d) 8) :: u64)
      = foldl (XOR) (foldl (XOR) 0 (map fst ?m)) (map fst ?d)"
    unfolding L by (simp add: from_to_le_bytes xor_hashes_def)
  have mg: "(from_le_bytes (bytes_at (serialize fr) 0 8) :: u64) = PHT_MAGIC"
    "(from_le_bytes (bytes_at (serialize fr) 8 4) :: u32) = PHT_VERSION"
    unfolding L by (simp_all add: from_to_le_bytes)
  have ct: "unat (from_le_bytes (bytes_at (serialize fr) 12 4) :: u32) = length ?m"
    "unat (from_le_bytes (bytes_at (serialize fr) 16 4) :: u32) = length ?d"
    unfolding L by (simp_all only: u32_count n)
  show ?thesis
    by (simp add: deserialize_def mg ct r1 r2 k Let_def L(1))
qed

lemma rebuild_entries:
  assumes "from_entries_flagged qs = Return t" and "length qs < 2 ^ 64" and "\<forall>q \<in> set qs. six_bit q"
  shows "rebuild (entries_flagged t) = Return t \<and> (\<forall>q \<in> set (entries_flagged t). six_bit q)"
proof -
  let ?ce = "canonical_entries qs"
  have six: "e_flags e \<le> 0x3F" if "e \<in> set ?ce" for e
    using canonical_subset [of qs] that assms(3) by (force simp: six_bit_def entry_of_quad_def)
  have mask: "f AND 0x3F = f" if "f \<le> 0x3F" for f :: u8
  proof -
    have "unat (f AND mask 6) = unat f"
      using that by (simp add: unat_and_mask word_le_nat_alt)
    then show ?thesis by (simp add: mask_eq_exp_minus_1 word_unat_eq_iff)
  qed
  have e: "entries_flagged t = map quad_of_entry ?ce"
    using from_entries_entries [OF assms(1,2)] six mask by (auto simp: stored_quad_def quad_of_entry_def)
  have "canonical_entries (map quad_of_entry ?ce) = ?ce"
    by (rule canonical_fixed [OF canonical_sorted canonical_distinct])
  then show ?thesis using assms(1) e six
    by (auto simp: rebuild_def from_entries_flagged_def six_bit_def quad_of_entry_def)
qed

lemma plane_roundtrip:
  assumes "from_entries_flagged mq = Return m" and "from_entries_flagged dq = Return d"
    and "length mq < 2 ^ 32" and "length dq < 2 ^ 32" and "\<forall>q \<in> set mq \<union> set dq. six_bit q"
  shows "deserialize (serialize (frozen_routing_new m d)) = Return (Some (frozen_routing_new m d))"
proof -
  have l: "length mq < 2 ^ 64" "length dq < 2 ^ 64" using assms(3,4) by simp_all
  have s: "\<forall>q \<in> set mq. six_bit q" "\<forall>q \<in> set dq. six_bit q" using assms(5) by auto
  note M = rebuild_entries [OF assms(1) l(1) s(1)] and D = rebuild_entries [OF assms(2) l(2) s(2)]
  have n: "length (entries_flagged m) < 2 ^ 32" "length (entries_flagged d) < 2 ^ 32"
    using from_entries_entries [OF assms(1) l(1)] from_entries_entries [OF assms(2) l(2)]
      canonical_length [of mq] canonical_length [of dq] assms(3,4) by auto
  have "\<forall>q \<in> set (entries_flagged m) \<union> set (entries_flagged d). six_bit q" using M D by blast
  then show ?thesis
    using deserialize_serialize [of "frozen_routing_new m d"] M D n
    by (simp add: frozen_routing_new_def)
qed

text \<open>
  C23: Saving and loading a model is the identity: a routing plane built from any two lists of
  entries with six-bit flags (fewer than 2^32 each, the width of the counts) is serialised to
  bytes that deserialise to the very same plane, tables, shortcut and context flag included.
\<close>
theorem model_roundtrip:
  assumes "from_entries_flagged mq = Return m" and "from_entries_flagged dq = Return d"
    and "length mq < 2 ^ 32" and "length dq < 2 ^ 32" and "\<forall>q \<in> set mq \<union> set dq. six_bit q"
  shows "deserialize (serialize (frozen_routing_new m d)) = Return (Some (frozen_routing_new m d))"
  by (rule plane_roundtrip [OF assms])

lemma model_roundtrip_witness:
  "case (from_entries_flagged [(77, 3, Slab, 1), (5, 12, Buddy, 0)], from_entries_flagged [(9, 2, Slab, 0)]) of
     (Return m, Return d) \<Rightarrow>
       deserialize (serialize (frozen_routing_new m d)) = Return (Some (frozen_routing_new m d))
   | _ \<Rightarrow> False"
proof -
  let ?mq = "[(77, 3, Slab, 1), (5, 12, Buddy, 0)] :: quad list" and ?dq = "[(9, 2, Slab, 0)] :: quad list"
  have "case from_entries_flagged ?mq of Panic \<Rightarrow> False | Return t \<Rightarrow> True"
    "case from_entries_flagged ?dq of Panic \<Rightarrow> False | Return t \<Rightarrow> True" by code_simp+
  then obtain m d where t: "from_entries_flagged ?mq = Return m" "from_entries_flagged ?dq = Return d"
    by (cases "from_entries_flagged ?mq"; cases "from_entries_flagged ?dq") auto
  show ?thesis unfolding t using model_roundtrip [OF t] by (simp add: six_bit_def)
qed

text \<open>
  C24: A truncated model file is rejected, without a panic, wherever it was cut.
\<close>
theorem truncated_model_rejected:
  assumes "length (entries_flagged (fr_main fr)) < 2 ^ 32"
    and "length (entries_flagged (fr_distilled fr)) < 2 ^ 32" and "n < length (serialize fr)"
  shows "deserialize (take n (serialize fr)) = Return None"
proof (cases "n < 28")
  case False
  let ?m = "entries_flagged (fr_main fr)" and ?d = "entries_flagged (fr_distilled fr)"
  note L = serialize_layout [of fr]
  have cut: "bytes_at (take n xs) p k = bytes_at xs p k" if "p + k \<le> 28" for p k and xs :: "u8 list"
    using that False by (simp add: bytes_at_def take_drop min_def)
  have ct: "unat (from_le_bytes (bytes_at (take n (serialize fr)) 12 4) :: u32) = length ?m"
    "unat (from_le_bytes (bytes_at (take n (serialize fr)) 16 4) :: u32) = length ?d"
    by (simp_all only: cut L u32_count [OF assms(1)] u32_count [OF assms(2)])
  have "length (take n (serialize fr)) < 20 + (length ?m + length ?d) * 12 + 8"
    using assms(3) L(1) by simp
  then show ?thesis by (simp add: deserialize_def ct Let_def)
qed (simp add: deserialize_def min_less_iff_disj)

lemma truncated_model_rejected_witness:
  "case from_entries_flagged [] of
     Panic \<Rightarrow> False | Return t \<Rightarrow> deserialize (take 27 (serialize (frozen_routing_new t t))) = Return None"
proof -
  obtain t where t: "from_entries_flagged [] = Return t"
    by (simp add: from_entries_flagged_def canonical_entries_def build_def)
  have e: "entries_flagged t = []" using from_entries_entries [OF t] by (simp add: canonical_entries_def)
  have "27 < length (serialize (frozen_routing_new t t))"
    using serialize_layout(1) [of "frozen_routing_new t t"] by (simp add: frozen_routing_new_def e)
  then show ?thesis unfolding t
    using truncated_model_rejected [of "frozen_routing_new t t" 27] e by (simp add: frozen_routing_new_def)
qed

section \<open>The shortcut and the context gate\<close>

text \<open>The unanimity scan seen from one size class: \<open>(agreed, conflict, seen)\<close>.\<close>

fun class_step :: "backend option \<times> bool \<times> bool \<Rightarrow> backend \<times> u8 \<Rightarrow> backend option \<times> bool \<times> bool" where
  "class_step (a, c, s) (b, f) =
     (if f \<noteq> 0 then (a, True, True)
      else case a of None \<Rightarrow> (Some b, c, True) | Some b' \<Rightarrow> (a, c \<or> b' \<noteq> b, True))"

definition class_entries :: "nat \<Rightarrow> quad list \<Rightarrow> (backend \<times> u8) list" where
  "class_entries i qs = map (\<lambda>q. snd (snd q)) (filter (\<lambda>q. unat (fst (snd q)) = i) qs)"

lemma class_fold:
  "foldl class_step (None, False, False) ps = (a, c, s) \<Longrightarrow>
     (s \<longleftrightarrow> ps \<noteq> []) \<and> (\<not> c \<longleftrightarrow> (\<exists>b. \<forall>p \<in> set ps. p = (b, 0)))
     \<and> (\<not> c \<longrightarrow> a = (if ps = [] then None else Some (fst (hd ps))))"
proof (induction ps arbitrary: a c s rule: rev_induct)
  case (snoc p ps)
  obtain b f where p: "p = (b, f)" by (cases p) auto
  obtain a1 c1 s1 where st: "foldl class_step (None, False, False) ps = (a1, c1, s1)"
    by (metis prod_cases3)
  note IH = snoc.IH [OF st]
  have step: "class_step (a1, c1, s1) (b, f) = (a, c, s)" using snoc.prems st p by simp
  show ?case
  proof (cases "f = 0 \<and> \<not> c1")
    case True
    show ?thesis
    proof (cases ps)
      case Nil
      then show ?thesis using True IH step p by auto
    next
      case (Cons p1 ps1)
      obtain b1 where b1: "\<forall>p \<in> set ps. p = (b1, 0)" using IH True by blast
      then have "a1 = Some b1" using IH True Cons by auto
      then have "a = Some b1" "c = (b1 \<noteq> b)" "s" using step True by auto
      moreover have "fst (hd (ps @ [p])) = b1" using Cons b1 by simp
      moreover have "(\<exists>b'. \<forall>q \<in> set (ps @ [p]). q = (b', 0)) \<longleftrightarrow> b1 = b"
        using b1 Cons True p by auto
      ultimately show ?thesis by simp
    qed
  next
    case False
    have "c" "s" using False step by (auto split: option.splits if_splits)
    moreover have "\<not> (\<exists>b'. \<forall>q \<in> set (ps @ [p]). q = (b', 0))"
    proof
      assume "\<exists>b'. \<forall>q \<in> set (ps @ [p]). q = (b', 0)"
      then obtain b' where all: "\<forall>q \<in> set (ps @ [p]). q = (b', 0)" by blast
      then have "f = 0" using p by simp
      moreover have "\<not> c1" using IH all by auto
      ultimately show False using False by simp
    qed
    ultimately show ?thesis by simp
  qed
qed simp

lemma verdict_fold_class:
  assumes "foldl verdict_step (A, C, S) qs = (A', C', S')" and "i < 16"
    and "length A = 16" "length C = 16" "length S = 16"
  shows "foldl class_step (A ! i, C ! i, S ! i) (class_entries i qs) = (A' ! i, C' ! i, S' ! i)"
  using assms
proof (induction qs arbitrary: A C S)
  case (Cons q qs)
  obtain h sc b f where q: "q = (h, sc, b, f)" by (cases q) auto
  obtain A1 C1 S1 where st: "verdict_step (A, C, S) q = (A1, C1, S1)" by (metis prod_cases3)
  have len: "length A1 = 16" "length C1 = 16" "length S1 = 16"
    using st Cons.prems(3,4,5) by (auto simp: q Let_def split: if_splits option.splits)
  have IH: "foldl class_step (A1 ! i, C1 ! i, S1 ! i) (class_entries i qs) = (A' ! i, C' ! i, S' ! i)"
    using Cons.IH [of A1 C1 S1] Cons.prems(1,2) st len by simp
  show ?case
  proof (cases "unat sc = i")
    case True
    then have "class_step (A ! i, C ! i, S ! i) (b, f) = (A1 ! i, C1 ! i, S1 ! i)"
      using st Cons.prems(2-5) by (auto simp: q SC_VERDICT_LEN_def Let_def split: if_splits option.splits)
    then show ?thesis using IH True by (simp add: class_entries_def q)
  next
    case False
    then have "(A ! i, C ! i, S ! i) = (A1 ! i, C1 ! i, S1 ! i)"
      using st by (auto simp: q SC_VERDICT_LEN_def Let_def split: if_splits option.splits)
    then show ?thesis using IH False by (simp add: class_entries_def q)
  qed
qed (simp add: class_entries_def)

lemma sc_verdict_class:
  fixes m d :: perfect_hash_table
  assumes "i < 16"
  defines "ps \<equiv> class_entries i (entries_flagged m @ entries_flagged d)"
  shows "compute_sc_verdict m d ! i = Some b \<longleftrightarrow>
    ps \<noteq> [] \<and> (\<forall>p \<in> set ps. p = (b, 0)) \<and> b = default_backend_for_size_class (of_nat i)"
proof -
  obtain A C S where f: "foldl verdict_step (replicate SC_VERDICT_LEN None, replicate SC_VERDICT_LEN False,
      replicate SC_VERDICT_LEN False) (entries_flagged m @ entries_flagged d) = (A, C, S)"
    by (metis prod_cases3)
  have "foldl class_step (None, False, False) ps = (A ! i, C ! i, S ! i)"
    using verdict_fold_class [OF f assms(1)] assms(1) by (simp add: ps_def SC_VERDICT_LEN_def)
  note K = class_fold [OF this]
  have v: "compute_sc_verdict m d ! i = (if S ! i \<and> \<not> C ! i
      then (case A ! i of None \<Rightarrow> None
            | Some b \<Rightarrow> if b = default_backend_for_size_class (of_nat i) then Some b else None) else None)"
  proof -
    have "[0..<16] ! i = i" using assms(1) by (simp add: nth_upt [of 0 i 16, simplified])
    then show ?thesis
      unfolding compute_sc_verdict_def f prod.case using assms(1)
      by (simp add: SC_VERDICT_LEN_def split: option.split)
  qed
  show ?thesis
  proof (cases "ps \<noteq> [] \<and> \<not> C ! i")
    case True
    then obtain b1 where b1: "\<forall>p \<in> set ps. p = (b1, 0)" using K by blast
    have "hd ps \<in> set ps" using True by simp
    then have "A ! i = Some b1" using K True b1 by (metis fst_conv)
    moreover have "(\<forall>p \<in> set ps. p = (b, 0)) \<longleftrightarrow> b = b1"
      using b1 True by (metis fst_conv last_in_set)
    moreover have "S ! i" using K True by blast
    ultimately show ?thesis using v True by auto
  next
    case False
    then show ?thesis using v K by auto
  qed
qed

text \<open>
  The size-class shortcut serves a class exactly when the whole model agrees on it: the
  verdict of a routing plane for a class is a backend if and only if the two tables have an
  entry of that class, every one of them routes to that backend without a context flag, and it
  is the size default. Classes beyond the table have no verdict.
\<close>
lemma sc_verdict_unanimous:
  "sc_verdict (frozen_routing_new m d) sc = Some b \<longleftrightarrow>
     unat sc < SC_VERDICT_LEN
     \<and> class_entries (unat sc) (entries_flagged m @ entries_flagged d) \<noteq> []
     \<and> set (class_entries (unat sc) (entries_flagged m @ entries_flagged d)) \<subseteq> {(b, 0)}
     \<and> b = default_backend_for_size_class sc"
proof (cases "unat sc < 16")
  case True
  have l: "length (compute_sc_verdict m d) = 16"
    by (simp add: compute_sc_verdict_def SC_VERDICT_LEN_def split: prod.split)
  have s: "(of_nat (unat sc) :: u8) = sc" by simp
  show ?thesis using sc_verdict_class [OF True, of m d b] True l
    by (auto simp: sc_verdict_def frozen_routing_new_def SC_VERDICT_LEN_def)
next
  case False
  have "length (compute_sc_verdict m d) = 16"
    by (simp add: compute_sc_verdict_def SC_VERDICT_LEN_def split: prod.split)
  then show ?thesis using False by (simp add: sc_verdict_def frozen_routing_new_def SC_VERDICT_LEN_def)
qed

text \<open>
  C25: The context gate is sound: when a plane built from a model says that the history register
  is not needed, routing through the main table gives the same answer for every history, with
  or without one, namely the plain lookup.
\<close>
theorem context_gate_sound:
  assumes "from_entries_flagged qs = Return m" and "length qs < 2 ^ 64"
    and "\<not> fr_ahr_needed (frozen_routing_new m d)"
  shows "route_main (frozen_routing_new m d) key ctx = lookup m key"
proof (cases "lookup_with_flags m key")
  case None
  then show ?thesis by (simp add: route_main_def frozen_routing_new_def lookup_is_fst)
next
  case (Some bf)
  obtain b f where bf: "bf = (b, f)" by force
  have "f = 0"
    using assms(1,2)
  proof (cases rule: from_entries_cases)
    case 1
    then show ?thesis using Some by (simp add: lookup_with_flags_def)
  next
    case (2 seeds slots)
    have "map_of (map (\<lambda>e. (e_hash e, (e_backend e, e_flags e AND 0x3F))) (canonical_entries qs)) key = Some (b, f)"
      using from_entries_lookup [OF assms(1,2), of key] Some bf by simp
    from map_of_SomeD [OF this] obtain e where
      e: "e \<in> set (canonical_entries qs)" "f = e_flags e AND 0x3F" by auto
    then have "e \<in> set slots" using built_slots [OF 2(1) canonical_distinct] by simp
    then obtain s where s: "s < length slots" "slots ! s = e" by (auto simp: in_set_conv_nth)
    have l: "length slots = length (canonical_entries qs)" "num_slots m = length slots"
      using 2(1) by (auto simp: built_def)
    have "\<not> scan_has_context m" using assms(3) by (simp add: frozen_routing_new_def)
    then have "drop_bit 2 (pht_buf m ! (entry_offset m s + 8)) = 0"
      using s l by (simp add: scan_has_context_def list_ex_iff)
    then show ?thesis using built_read(5) [OF 2(1), of s] s l e by simp
  qed
  then show ?thesis using Some bf
    by (simp add: route_main_def frozen_routing_new_def lookup_is_fst)
qed

lemma context_gate_sound_witness:
  "case from_entries_flagged [(77, 3, Slab, 0)] of
     Panic \<Rightarrow> False | Return m \<Rightarrow> route_main (frozen_routing_new m m) 77 (Some (5, 6)) = lookup m 77"
proof -
  let ?qs = "[(77, 3, Slab, 0)] :: quad list"
  have "case from_entries_flagged ?qs of Panic \<Rightarrow> False | Return m \<Rightarrow> \<not> scan_has_context m" by code_simp
  then obtain m where m: "from_entries_flagged ?qs = Return m" "\<not> scan_has_context m"
    by (cases "from_entries_flagged ?qs") auto
  show ?thesis unfolding m(1)
    using context_gate_sound [OF m(1), of m 77 "Some (5, 6)"] m(2) by (simp add: frozen_routing_new_def)
qed

end
