(* ===== verification/Float64.thy ===== *)
theory Float64
  imports Prelude Complex_Main
begin

text \<open>
  The floating-point arithmetic of Rust's \<open>f64\<close> and \<open>f32\<close> that the decision engine
  computes with: IEEE 754 binary64 and binary32, rounding to nearest, ties to even. A value is a rational
  number, an infinity or NaN; the two zeros are one value, because no program of this development divides by
  a zero that can be negative. \<open>ln\<close> is not fixed by the standard and stays a parameter of its users.

  The lemmas show that rounding is monotone and that the comparisons order all values but NaN.
\<close>

section \<open>Values and rounding\<close>

datatype fp = Fin rat | PosInf | NegInf | NaN

text \<open>The number of binary digits, the exponent of the leading digit, the nearest integer, the exponent of
  the last digit that a format with \<open>p\<close> digits keeps.\<close>

fun bit_length :: "int \<Rightarrow> int" where
  "bit_length n = (if n \<le> 0 then 0 else 1 + bit_length (n div 2))"

declare bit_length.simps [simp del]

definition ilog2 :: "rat \<Rightarrow> int" where
  "ilog2 x = (case quotient_of x of (n, d) \<Rightarrow>
     let e = bit_length n - bit_length d
     in if 2 powi e \<le> x then e else e - 1)"

definition round_even :: "rat \<Rightarrow> int" where
  "round_even y = (let f = \<lfloor>y\<rfloor>; r = y - of_int f in if r < 1/2 \<or> (r = 1/2 \<and> even f) then f else f + 1)"

definition ulp :: "int \<Rightarrow> int \<Rightarrow> rat \<Rightarrow> int" where
  "ulp p emin x = max (ilog2 \<bar>x\<bar> - (p - 1)) emin"

definition round_to :: "int \<Rightarrow> int \<Rightarrow> rat \<Rightarrow> rat" where
  "round_to p emin x =
     (if x = 0 then 0 else let q = 2 powi ulp p emin x in of_int (round_even (x / q)) * q)"

definition to_fp :: "int \<Rightarrow> int \<Rightarrow> int \<Rightarrow> rat \<Rightarrow> fp" where
  "to_fp p emin emax x =
     (let r = round_to p emin x
      in if r = 0 \<or> ilog2 \<bar>r\<bar> < emax then Fin r else if 0 < r then PosInf else NegInf)"

definition f64_round :: "rat \<Rightarrow> fp" where "f64_round = to_fp 53 (- 1074) 1024"
definition f32_round :: "rat \<Rightarrow> fp" where "f32_round = to_fp 24 (- 149) 128"

section \<open>Operations\<close>

text \<open>The operations of either width are those below with the rounding of the width.\<close>

fun fp_neg :: "fp \<Rightarrow> fp" where
  "fp_neg (Fin x) = Fin (- x)"
| "fp_neg PosInf = NegInf"
| "fp_neg NegInf = PosInf"
| "fp_neg NaN = NaN"

fun fp_add :: "(rat \<Rightarrow> fp) \<Rightarrow> fp \<Rightarrow> fp \<Rightarrow> fp" where
  "fp_add rnd (Fin x) (Fin y) = rnd (x + y)"
| "fp_add rnd NaN b = NaN"
| "fp_add rnd a NaN = NaN"
| "fp_add rnd PosInf NegInf = NaN"
| "fp_add rnd NegInf PosInf = NaN"
| "fp_add rnd PosInf b = PosInf"
| "fp_add rnd NegInf b = NegInf"
| "fp_add rnd (Fin x) b = b"

definition inf_of_sign :: "rat \<Rightarrow> fp" where
  "inf_of_sign s = (if s = 0 then NaN else if 0 < s then PosInf else NegInf)"

fun fp_sign :: "fp \<Rightarrow> rat" where
  "fp_sign (Fin x) = sgn x"
| "fp_sign PosInf = 1"
| "fp_sign NegInf = - 1"
| "fp_sign NaN = 0"

fun fp_mul :: "(rat \<Rightarrow> fp) \<Rightarrow> fp \<Rightarrow> fp \<Rightarrow> fp" where
  "fp_mul rnd (Fin x) (Fin y) = rnd (x * y)"
| "fp_mul rnd a b = inf_of_sign (fp_sign a * fp_sign b)"

fun fp_div :: "(rat \<Rightarrow> fp) \<Rightarrow> fp \<Rightarrow> fp \<Rightarrow> fp" where
  "fp_div rnd (Fin x) (Fin y) = (if y = 0 then inf_of_sign (sgn x) else rnd (x / y))"
| "fp_div rnd NaN b = NaN"
| "fp_div rnd a NaN = NaN"
| "fp_div rnd (Fin x) b = Fin 0"
| "fp_div rnd a (Fin y) = (if y < 0 then fp_neg a else a)"
| "fp_div rnd a b = NaN"

definition f64_add :: "fp \<Rightarrow> fp \<Rightarrow> fp" where "f64_add = fp_add f64_round"
definition f64_sub :: "fp \<Rightarrow> fp \<Rightarrow> fp" where "f64_sub a b = fp_add f64_round a (fp_neg b)"
definition f64_mul :: "fp \<Rightarrow> fp \<Rightarrow> fp" where "f64_mul = fp_mul f64_round"
definition f64_div :: "fp \<Rightarrow> fp \<Rightarrow> fp" where "f64_div = fp_div f64_round"
definition f32_add :: "fp \<Rightarrow> fp \<Rightarrow> fp" where "f32_add = fp_add f32_round"
definition f32_mul :: "fp \<Rightarrow> fp \<Rightarrow> fp" where "f32_mul = fp_mul f32_round"
definition f32_div :: "fp \<Rightarrow> fp \<Rightarrow> fp" where "f32_div = fp_div f32_round"

text \<open>Conversions from integers round; \<open>f64::from\<close> of an \<open>f32\<close> is exact. A literal is rounded once.\<close>

definition f64_of :: "'a::len word \<Rightarrow> fp" where "f64_of w = f64_round (of_int (uint w))"
definition f32_of :: "'a::len word \<Rightarrow> fp" where "f32_of w = f32_round (of_int (uint w))"
definition f64_from :: "fp \<Rightarrow> fp" where "f64_from x = x"

text \<open>The comparisons are false on NaN; \<open>f64::max\<close> returns the other argument then.\<close>

fun fp_lt :: "fp \<Rightarrow> fp \<Rightarrow> bool" where
  "fp_lt (Fin x) (Fin y) \<longleftrightarrow> x < y"
| "fp_lt NaN b \<longleftrightarrow> False"
| "fp_lt a NaN \<longleftrightarrow> False"
| "fp_lt NegInf b \<longleftrightarrow> b \<noteq> NegInf"
| "fp_lt a PosInf \<longleftrightarrow> a \<noteq> PosInf"
| "fp_lt a b \<longleftrightarrow> False"

definition fp_le :: "fp \<Rightarrow> fp \<Rightarrow> bool" where
  "fp_le a b \<longleftrightarrow> fp_lt a b \<or> (a = b \<and> a \<noteq> NaN)"

definition fp_max :: "fp \<Rightarrow> fp \<Rightarrow> fp" where
  "fp_max a b = (if a = NaN then b else if b = NaN then a else if fp_lt a b then b else a)"

definition is_finite :: "fp \<Rightarrow> bool" where
  "is_finite a \<longleftrightarrow> a \<notin> {PosInf, NegInf, NaN}"

text \<open>\<open>f64::MIN\<close> is the least finite double, \<open>-(2 - 2^-52) * 2^1023\<close>.\<close>

definition f64_MIN :: fp where
  "f64_MIN = Fin (- (2 ^ 1024 - 2 ^ 971))"

text \<open>The integer square root, and the square root of a double rounded to 53 bits.\<close>

fun isqrt :: "int \<Rightarrow> int" where
  "isqrt n = (if n \<le> 0 then 0 else let r = 2 * isqrt (n div 4) in if (r + 1)\<^sup>2 \<le> n then r + 1 else r)"

declare isqrt.simps [simp del]

fun f64_sqrt :: "fp \<Rightarrow> fp" where
  "f64_sqrt (Fin x) =
     (if x < 0 then NaN else if x = 0 then Fin 0
      else let q = 2 powi (ilog2 x div 2 - 52); y = x / q\<^sup>2; r = isqrt \<lfloor>y\<rfloor>
           in Fin (of_int (if y \<le> (of_int r + 1/2)\<^sup>2 then r else r + 1) * q))"
| "f64_sqrt PosInf = PosInf"
| "f64_sqrt NegInf = NaN"
| "f64_sqrt NaN = NaN"

section \<open>Rounding is monotone\<close>

lemma bit_length_bounds:
  assumes "0 < n"
  shows "2 powi (bit_length n - 1) \<le> (of_int n :: rat) \<and> (of_int n :: rat) < 2 powi bit_length n \<and> 0 < bit_length n"
  using assms
proof (induction n rule: bit_length.induct)
  case (1 n)
  show ?case
  proof (cases "n = 1")
    case True
    then show ?thesis by (simp add: bit_length.simps)
  next
    case False
    then have n: "0 < n div 2" using 1 by simp
    have "\<not> n \<le> 0" using 1(2) by simp
    note IH = 1(1) [OF this n]
    have L: "bit_length n = 1 + bit_length (n div 2)" using 1(2) by (subst bit_length.simps) simp
    have "of_int (2 * (n div 2)) \<le> (of_int n :: rat)" "(of_int n :: rat) < of_int (2 * (n div 2 + 1))"
      unfolding of_int_le_iff of_int_less_iff by presburger+
    moreover have "of_int (n div 2 + 1) \<le> (2::rat) powi bit_length (n div 2)"
    proof -
      have P: "(2::rat) powi bit_length (n div 2) = of_int (2 ^ nat (bit_length (n div 2)))"
        using IH 1(2) by (simp add: power_int_def)
      have "(of_int (n div 2) :: rat) < of_int (2 ^ nat (bit_length (n div 2)))" using IH 1(2) unfolding P by blast
      then have "n div 2 + 1 \<le> 2 ^ nat (bit_length (n div 2))" unfolding of_int_less_iff by simp
      then show ?thesis unfolding P of_int_le_iff .
    qed
    ultimately show ?thesis using IH 1(2) by (simp add: L power_int_add power_int_diff)
  qed
qed

lemma ilog2_bounds:
  assumes "0 < x" shows "2 powi ilog2 x \<le> x" "x < 2 powi (ilog2 x + 1)"
proof -
  obtain n d where q: "quotient_of x = (n, d)" by (cases "quotient_of x")
  then have d: "0 < d" and x: "x = of_int n / of_int d" using quotient_of_denom_pos quotient_of_div by blast+
  have n: "0 < n" using assms d x by (simp add: zero_less_divide_iff)
  define a b where "a = bit_length n" and "b = bit_length d"
  note bnd = bit_length_bounds
  have "2 powi (a - 1 - b) < x"
  proof -
    have "(2::rat) powi (a - 1) / 2 powi b < of_int n / of_int d"
      using bnd [OF n] bnd [OF d] d n by (intro frac_less2) (auto simp: a_def b_def)
    then show ?thesis by (simp add: x power_int_diff)
  qed
  moreover have "x < 2 powi (a - (b - 1))"
  proof -
    have "of_int n / of_int d < (2::rat) powi a / 2 powi (b - 1)"
      using bnd [OF n] bnd [OF d] d n by (intro frac_less) (auto simp: a_def b_def)
    then show ?thesis by (simp add: x power_int_diff)
  qed
  ultimately show "2 powi ilog2 x \<le> x" "x < 2 powi (ilog2 x + 1)"
    by (auto simp: ilog2_def q Let_def a_def [symmetric] b_def [symmetric] algebra_simps)
qed

lemma powi_less_D: "(2::rat) powi i < 2 powi j \<Longrightarrow> i < j"
  by (rule ccontr) (use power_int_increasing [of j i "2::rat"] in auto)

lemma ilog2_mono:
  assumes "0 < x" "x \<le> y" shows "ilog2 x \<le> ilog2 y"
proof -
  have "2 powi ilog2 x < (2::rat) powi (ilog2 y + 1)"
    using ilog2_bounds [of x] ilog2_bounds [of y] assms by linarith
  then show ?thesis using powi_less_D by fastforce
qed

lemma round_even_bounds: "\<lfloor>y\<rfloor> \<le> round_even y" "round_even y \<le> \<lfloor>y\<rfloor> + 1" "round_even y \<le> \<lceil>y\<rceil>"
proof -
  show "\<lfloor>y\<rfloor> \<le> round_even y" "round_even y \<le> \<lfloor>y\<rfloor> + 1" by (simp_all add: round_even_def Let_def)
  show "round_even y \<le> \<lceil>y\<rceil>"
  proof (cases "y = of_int \<lfloor>y\<rfloor>")
    case True
    then have "round_even y = \<lfloor>y\<rfloor>" by (simp add: round_even_def Let_def)
    then show ?thesis using floor_le_ceiling by simp
  next
    case False
    then have "\<lfloor>y\<rfloor> + 1 \<le> \<lceil>y\<rceil>" by linarith
    moreover have "round_even y \<le> \<lfloor>y\<rfloor> + 1" by (simp add: round_even_def Let_def)
    ultimately show ?thesis by simp
  qed
qed

lemma round_even_ge: "of_int n \<le> y \<Longrightarrow> n \<le> round_even y"
  using round_even_bounds(1) [of y] by (simp add: le_floor_iff [symmetric])

lemma round_even_le: "y \<le> of_int n \<Longrightarrow> round_even y \<le> n"
  using round_even_bounds(3) [of y] by (simp add: ceiling_le_iff [symmetric])

lemma round_even_mono:
  assumes "x \<le> y" shows "round_even x \<le> round_even y"
proof (cases "\<lfloor>x\<rfloor> = \<lfloor>y\<rfloor>")
  case True
  then show ?thesis using assms by (auto simp: round_even_def Let_def)
next
  case False
  then have "\<lfloor>x\<rfloor> + 1 \<le> \<lfloor>y\<rfloor>" using floor_mono [OF assms] by simp
  then show ?thesis using round_even_bounds [of x] round_even_bounds [of y] by linarith
qed

lemma round_even_neg: "round_even (- y) = - round_even y"
proof (cases "y = of_int \<lfloor>y\<rfloor>")
  case True
  have I: "round_even (of_int n) = n" for n by (simp add: round_even_def Let_def)
  have "- y = of_int (- \<lfloor>y\<rfloor>)" using True by simp
  then show ?thesis using True I by metis
next
  case False
  then have f: "\<lfloor>- y\<rfloor> = - \<lfloor>y\<rfloor> - 1" by linarith
  show ?thesis unfolding round_even_def Let_def f by auto
qed

lemma round_to_neg: "round_to p emin (- x) = - round_to p emin x"
  by (simp add: round_to_def Let_def ulp_def round_even_neg)

lemma round_to_0 [simp]: "round_to p emin 0 = 0"
  by (simp add: round_to_def)

lemma round_to_nonneg: "0 \<le> x \<Longrightarrow> 0 \<le> round_to p emin x"
  using round_even_ge [of 0 "x / 2 powi ulp p emin x"] by (simp add: round_to_def Let_def)

lemma round_to_pos_mono:
  assumes p: "1 \<le> p" and x: "0 < x" and xy: "x \<le> y"
  shows "round_to p emin x \<le> round_to p emin y"
proof -
  define q q' where "q = ulp p emin x" and "q' = ulp p emin y"
  have pos: "0 < (2::rat) powi k" for k by simp
  have y: "0 < y" using x xy by simp
  have l: "ilog2 x \<le> ilog2 y" by (rule ilog2_mono [OF x xy])
  have R: "round_to p emin x = of_int (round_even (x / 2 powi q)) * 2 powi q"
    "round_to p emin y = of_int (round_even (y / 2 powi q')) * 2 powi q'"
    using x y by (simp_all add: round_to_def Let_def q_def q'_def)
  show ?thesis
  proof (cases "q = q'")
    case True
    have "round_even (x / 2 powi q) \<le> round_even (y / 2 powi q)"
      by (intro round_even_mono divide_right_mono xy) simp
    then show ?thesis unfolding R True [symmetric] by (intro mult_right_mono) simp_all
  next
    case False
    then have q': "q' = ilog2 y - (p - 1)" and lt: "q < q'" and lx: "ilog2 x < ilog2 y"
      using l x y by (auto simp: q_def q'_def ulp_def)
    have B: "(2::rat) powi ilog2 y = of_int (2 ^ nat (p - 1)) * 2 powi q'"
      "(2::rat) powi ilog2 y = of_int (2 ^ nat (ilog2 y - q)) * 2 powi q"
      using p lt by (simp_all add: q' power_int_add [symmetric] flip: power_int_of_nat)
    have "x \<le> 2 powi ilog2 y"
      using ilog2_bounds(2) [OF x] power_int_increasing [of "ilog2 x + 1" "ilog2 y" "2::rat"] lx by simp
    then have "x / 2 powi q \<le> of_int (2 ^ nat (ilog2 y - q))"
      unfolding B(2) by (simp add: pos_divide_le_eq)
    then have 1: "round_to p emin x \<le> 2 powi ilog2 y"
      unfolding R B(2) by (intro mult_right_mono) (use round_even_le of_int_le_iff in \<open>blast, simp\<close>)
    have "of_int (2 ^ nat (p - 1)) \<le> y / 2 powi q'"
      using ilog2_bounds(1) [OF y] unfolding B(1) by (simp add: pos_le_divide_eq)
    then have "2 powi ilog2 y \<le> round_to p emin y"
      unfolding R B(1) by (intro mult_right_mono) (use round_even_ge of_int_le_iff in \<open>blast, simp\<close>)
    with 1 show ?thesis by simp
  qed
qed

lemma round_to_mono:
  assumes "1 \<le> p" "x \<le> y" shows "round_to p emin x \<le> round_to p emin y"
proof -
  consider "0 < x" | "x \<le> 0" "0 \<le> y" | "y < 0" by linarith
  then show ?thesis
  proof cases
    case 1 then show ?thesis using round_to_pos_mono assms by blast
  next
    case 2
    then have "0 \<le> round_to p emin y" "0 \<le> round_to p emin (- x)" by (auto intro: round_to_nonneg)
    then show ?thesis by (simp add: round_to_neg)
  next
    case 3
    then have "round_to p emin (- y) \<le> round_to p emin (- x)" using assms by (intro round_to_pos_mono) auto
    then show ?thesis by (simp add: round_to_neg)
  qed
qed

section \<open>The order of the values\<close>

lemma fp_lt_irrefl [simp]: "\<not> fp_lt a a" by (cases a) auto
lemma fp_lt_trans: "fp_lt a b \<Longrightarrow> fp_lt b c \<Longrightarrow> fp_lt a c" by (cases a; cases b; cases c) auto
lemma fp_lt_total: "a \<noteq> NaN \<Longrightarrow> b \<noteq> NaN \<Longrightarrow> fp_lt a b \<or> a = b \<or> fp_lt b a" by (cases a; cases b) auto
lemma fp_lt_NaN [simp]: "\<not> fp_lt NaN a" "\<not> fp_lt a NaN" by (cases a; simp)+
lemma fp_le_refl: "a \<noteq> NaN \<Longrightarrow> fp_le a a" by (simp add: fp_le_def)
lemma fp_le_trans: "fp_le a b \<Longrightarrow> fp_le b c \<Longrightarrow> fp_le a c" by (auto simp: fp_le_def intro: fp_lt_trans)
lemma fp_not_lt: "a \<noteq> NaN \<Longrightarrow> b \<noteq> NaN \<Longrightarrow> \<not> fp_lt a b \<longleftrightarrow> fp_le b a"
  using fp_lt_total [of a b] fp_lt_trans [of a b a] by (auto simp: fp_le_def)
lemma fp_le_Fin [simp]: "fp_le (Fin x) (Fin y) \<longleftrightarrow> x \<le> y" by (auto simp: fp_le_def)
lemma fp_le_PosInf [simp]: "fp_le a PosInf \<longleftrightarrow> a \<noteq> NaN" by (cases a) (auto simp: fp_le_def)
lemma fp_le_NegInf [simp]: "fp_le NegInf a \<longleftrightarrow> a \<noteq> NaN" by (cases a) (auto simp: fp_le_def)

lemma ilog2_less_iff:
  assumes "0 < x" shows "ilog2 x < e \<longleftrightarrow> x < 2 powi e"
proof
  assume "ilog2 x < e"
  then have "(2::rat) powi (ilog2 x + 1) \<le> 2 powi e" by (intro power_int_increasing) simp_all
  then show "x < 2 powi e" using ilog2_bounds(2) [OF assms] by simp
next
  assume "x < 2 powi e"
  then show "ilog2 x < e" using ilog2_bounds(1) [OF assms] powi_less_D by (meson order_le_less_trans)
qed

lemma to_fp_eq:
  "to_fp p emin emax x =
     (let r = round_to p emin x
      in if 2 powi emax \<le> r then PosInf else if r \<le> - (2 powi emax) then NegInf else Fin r)"
proof -
  have "0 < (2::rat) powi emax" by simp
  then show ?thesis
    by (cases "round_to p emin x" "0::rat" rule: linorder_cases)
      (auto simp: to_fp_def Let_def ilog2_less_iff not_less simp del: zero_less_power_int)
qed

lemma to_fp_mono:
  assumes "1 \<le> p" "x \<le> y" shows "fp_le (to_fp p emin emax x) (to_fp p emin emax y)"
  using round_to_mono [OF assms, of emin] zero_less_power_int [of "2::rat" emax]
  by (auto simp: to_fp_eq Let_def)

lemma f64_round_mono: "x \<le> y \<Longrightarrow> fp_le (f64_round x) (f64_round y)"
  unfolding f64_round_def by (rule to_fp_mono) simp_all

text \<open>Integers of at most 53 bits are doubles.\<close>

lemma round_even_int [simp]: "round_even (of_int n) = n"
  by (simp add: round_even_def Let_def)

lemma round_to_int:
  assumes "\<bar>n\<bar> < 2 ^ nat p" "0 \<le> p" "emin \<le> 0"
  shows "round_to p emin (of_int n) = of_int n"
proof (cases "n = 0")
  case False
  define e where "e = ulp p emin (of_int n)"
  have "(2::rat) powi ilog2 (of_int \<bar>n\<bar>) \<le> of_int \<bar>n\<bar>" using False by (intro ilog2_bounds) simp
  also have "\<dots> < of_int (2 ^ nat p)" using assms(1) unfolding of_int_less_iff .
  also have "\<dots> = 2 powi p" using assms(2) by (simp add: power_int_def)
  finally have "e \<le> 0" using powi_less_D assms(3) by (fastforce simp: e_def ulp_def)
  then have E: "(2::rat) powi e * of_int (2 ^ nat (- e)) = 1" by (simp add: power_int_def flip: power_mult_distrib)
  then have "of_int n / (2::rat) powi e = of_int (n * 2 ^ nat (- e))" by (simp add: field_simps)
  then have "round_to p emin (of_int n) = of_int (n * 2 ^ nat (- e)) * 2 powi e"
    using False by (simp only: round_to_def Let_def e_def [symmetric] of_int_eq_0_iff if_False round_even_int)
  also have "\<dots> = of_int n" using E by (simp add: field_simps)
  finally show ?thesis .
qed simp

lemma f64_round_int:
  assumes "\<bar>n\<bar> < 2 ^ 53" shows "f64_round (of_int n) = Fin (of_int n)"
proof -
  have "\<bar>of_int n :: rat\<bar> = of_int \<bar>n\<bar>" by simp
  also have "\<dots> < of_int (2 ^ 53)" using assms unfolding of_int_less_iff .
  also have "\<dots> \<le> (2::rat) ^ 1024" unfolding of_int_power of_int_numeral by (intro power_increasing) simp_all
  finally have "\<bar>of_int n\<bar> < (2::rat) powi 1024" unfolding power_int_numeral .
  then have "\<not> 2 powi 1024 \<le> (of_int n :: rat)" "\<not> of_int n \<le> - ((2::rat) powi 1024)" by linarith+
  then show ?thesis using round_to_int [of n 53 "- 1074"] assms by (simp add: f64_round_def to_fp_eq Let_def)
qed

lemma f64_round_0 [simp]: "f64_round 0 = Fin 0" by (simp add: f64_round_def to_fp_def)
lemma f64_round_1 [simp]: "f64_round 1 = Fin 1" using f64_round_int [of 1] by simp
lemma f32_round_0 [simp]: "f32_round 0 = Fin 0" by (simp add: f32_round_def to_fp_def)

lemma fp_le_0_1: "fp_le (Fin 0) a \<Longrightarrow> fp_le a (Fin 1) \<Longrightarrow> \<exists>y. a = Fin y \<and> 0 \<le> y \<and> y \<le> 1"
  by (cases a) (auto simp: fp_le_def)

lemma f64_round_unit:
  assumes "0 \<le> x" "x \<le> 1" shows "\<exists>y. f64_round x = Fin y \<and> 0 \<le> y \<and> y \<le> 1"
  using f64_round_mono [OF assms(1)] f64_round_mono [OF assms(2)] by (intro fp_le_0_1) simp_all

lemma is_finite_Fin [simp]: "is_finite (Fin x)"
  by (simp add: is_finite_def)

lemma f64_round_unit_finite: "0 \<le> x \<Longrightarrow> x \<le> 1 \<Longrightarrow> is_finite (f64_round x) \<and> fp_le (Fin 0) (f64_round x)"
  using f64_round_unit [of x] by auto

section \<open>Rounded values are fixed by rounding\<close>

lemma ilog2_eqI: "2 powi e \<le> x \<Longrightarrow> x < 2 powi (e + 1) \<Longrightarrow> ilog2 x = e"
proof -
  assume e: "2 powi e \<le> x" "x < 2 powi (e + 1)"
  have "0 < (2::rat) powi e" by simp
  then have "0 < x" using e(1) by linarith
  then show "ilog2 x = e" using ilog2_less_iff [of x e] ilog2_less_iff [of x "e + 1"] e by simp
qed

lemma round_to_multiple:
  assumes "x / 2 powi ulp p emin x = of_int n" shows "round_to p emin x = x"
proof (cases "x = 0")
  case False
  have "round_to p emin x = of_int n * 2 powi ulp p emin x" using False assms by (simp add: round_to_def Let_def)
  also have "\<dots> = x" unfolding assms [symmetric] by simp
  finally show ?thesis .
qed simp

lemma powi_int: "0 \<le> k \<Longrightarrow> (2::rat) powi k = of_int (2 ^ nat k)"
  by (simp add: power_int_def)

lemma round_to_idem_pos:
  assumes p: "1 \<le> p" and x: "0 < x"
  shows "round_to p emin (round_to p emin x) = round_to p emin x"
proof -
  define e n r where "e = ulp p emin x" and "n = round_even (x / 2 powi e)" and "r = round_to p emin x"
  have r: "r = of_int n * 2 powi e" using x by (simp add: r_def n_def e_def round_to_def Let_def)
  have "0 \<le> n" unfolding n_def using x by (intro round_even_ge) simp
  show ?thesis
  proof (cases "n = 0")
    case False
    then have n: "0 < n" using \<open>0 \<le> n\<close> by simp
    then have rpos: "0 < r" by (simp add: r)
    have emin: "emin \<le> e" "ilog2 x \<le> e + p - 1" using x by (auto simp: e_def ulp_def)
    have "x < 2 powi (e + p)"
      using ilog2_bounds(2) [OF x] power_int_increasing [of "ilog2 x + 1" "e + p" "2::rat"] emin by simp
    then have "x / 2 powi e \<le> 2 powi p" by (simp add: power_int_add field_simps)
    then have np: "n \<le> 2 ^ nat p" using p unfolding n_def by (intro round_even_le) (simp add: powi_int)
    define e' where "e' = ulp p emin r"
    have "\<exists>m::int. r / 2 powi e' = of_int m"
    proof (cases "e' \<le> e")
      case True
      then have "r / 2 powi e' = of_int n * 2 powi (e - e')" by (simp add: r power_int_diff)
      also have "\<dots> = of_int (n * 2 ^ nat (e - e'))" using True by (simp add: powi_int)
      finally show ?thesis by blast
    next
      case False
      then have e': "e' = ilog2 r - (p - 1)" "e + p \<le> ilog2 r" using emin rpos by (auto simp: e'_def ulp_def)
      have "2 powi (e + p) \<le> r"
        using ilog2_bounds(1) [OF rpos] power_int_increasing [of "e + p" "ilog2 r" "2::rat"] e'(2) by simp
      moreover have "r \<le> 2 powi (e + p)"
      proof -
        have "of_int n \<le> (of_int (2 ^ nat p) :: rat)" using np by (simp only: of_int_le_iff)
        then have "of_int n \<le> (2::rat) powi p" using p by (simp add: powi_int)
        then show ?thesis by (simp add: r power_int_add mult.commute)
      qed
      ultimately have R: "r = 2 powi (e + p)" by simp
      then have "ilog2 r = e + p" by (intro ilog2_eqI) (simp_all add: power_int_add)
      then have "r / 2 powi e' = 2 powi (p - 1)" unfolding R e'(1) by (simp add: power_int_diff [symmetric])
      then show ?thesis using p by (auto simp: powi_int)
    qed
    then have "round_to p emin r = r" unfolding e'_def using round_to_multiple by blast
    then show ?thesis by (simp add: r_def)
  qed (simp add: r r_def [symmetric])
qed

lemma round_to_idem: "1 \<le> p \<Longrightarrow> round_to p emin (round_to p emin x) = round_to p emin x"
  using round_to_idem_pos [of p x emin] round_to_idem_pos [of p "- x" emin]
  by (cases x "0::rat" rule: linorder_cases) (auto simp: round_to_neg)

lemma f64_round_idem: "f64_round x = Fin y \<Longrightarrow> f64_round y = Fin y"
  using round_to_idem [of 53 "- 1074" x] by (auto simp: f64_round_def to_fp_def Let_def split: if_splits)

section \<open>Monotone operations\<close>

lemma f64_round_not_NaN [simp]: "f64_round x \<noteq> NaN"
  by (simp add: f64_round_def to_fp_def Let_def)

lemma f64_of_mono: "a \<le> b \<Longrightarrow> fp_le (f64_of a) (f64_of b)"
  unfolding f64_of_def word_le_def by (intro f64_round_mono) (simp only: of_int_le_iff)

lemma f64_of_not_NaN [simp]: "f64_of a \<noteq> NaN"
  by (simp add: f64_of_def)

lemma f64_of_nonneg: "fp_le (Fin 0) (f64_of (a :: 'a::len word))"
  using f64_of_mono [of 0 a] by (simp add: f64_of_def)

lemma fp_leE:
  assumes "fp_le a b"
  obtains x y where "a = Fin x" "b = Fin y" "x \<le> y" | "b = PosInf" "a \<noteq> NaN" | "a = NegInf" "b \<noteq> NaN"
  using assms by (cases a; cases b) (auto simp: fp_le_def)

lemma f64_add_mono: "fp_le a b \<Longrightarrow> fp_le (f64_add (Fin t) a) (f64_add (Fin t) b)"
proof (erule fp_leE)
  fix x y assume "a = Fin x" "b = Fin y" "x \<le> y"
  then show ?thesis by (simp add: f64_add_def f64_round_mono)
next
  assume "b = PosInf" "a \<noteq> NaN"
  then show ?thesis by (cases a) (simp_all add: f64_add_def)
next
  assume "a = NegInf" "b \<noteq> NaN"
  then show ?thesis by (cases b) (simp_all add: f64_add_def)
qed

lemma f64_round_nonneg: "0 \<le> x \<Longrightarrow> fp_le (Fin 0) (f64_round x)"
  using f64_round_mono [of 0 x] by simp

text \<open>Division of non-negative values: antitone in the positive divisor.\<close>

lemma f64_div_antimono:
  assumes t: "0 \<le> t" and s: "0 < s" "fp_le (Fin s) a" and ab: "fp_le a b"
  shows "fp_le (f64_div (Fin t) b) (f64_div (Fin t) a)"
  using ab
proof (cases rule: fp_leE)
  case (1 x y)
  then have "0 < x" "t / y \<le> t / x" using t s by (auto intro!: divide_left_mono)
  then show ?thesis using 1 by (auto simp: f64_div_def intro!: f64_round_mono)
next
  case 2
  show ?thesis
  proof (cases a)
    case (Fin x)
    then show ?thesis using 2 t s by (auto simp: f64_div_def intro!: f64_round_nonneg)
  qed (use 2 s in \<open>simp_all add: f64_div_def fp_le_def\<close>)
next
  case 3
  then show ?thesis using s by (simp add: fp_le_def)
qed

lemma f64_add_mono_left:
  assumes "x \<le> y" "c \<noteq> NaN" shows "fp_le (f64_add (Fin x) c) (f64_add (Fin y) c)"
  using assms by (cases c) (simp_all add: f64_add_def f64_round_mono)

text \<open>The finite values of the format.\<close>

definition is_double :: "fp \<Rightarrow> bool" where
  "is_double x \<longleftrightarrow> (case x of Fin r \<Rightarrow> f64_round r = Fin r | _ \<Rightarrow> False)"

lemma is_double_round: "is_finite (f64_round x) \<Longrightarrow> is_double (f64_round x)"
  using f64_round_idem [of x] by (cases "f64_round x") (auto simp: is_double_def is_finite_def)

lemma is_double_int: "\<bar>n\<bar> < 2 ^ 53 \<Longrightarrow> is_double (Fin (of_int n))"
  by (simp add: is_double_def f64_round_int)

end
