(* ===== verification/Tune.thy ===== *)
theory Tune
  imports Float64 Core
begin

text \<open>
  The training configuration (\<open>crates/lohalloc-alloc/src/tune.rs\<close>): the record of the knobs, its
  defaults, and the parser that builds it from a \<open>key=value\<close> file and the environment. The
  texts and the environment are parameters; what is printed about a bad value is not modelled, that
  the value is ignored is. Also what the parser uses of the standard library: \<open>lines\<close>,
  \<open>split_once\<close>, and the parsers of unsigned integers and of \<open>f64\<close>.
\<close>

section \<open>Standard library\<close>

text \<open>\<open>str::lines\<close>: the pieces after each line feed, without \<open>\n\<close> or \<open>\r\n\<close>.\<close>

definition LF :: char where "LF = CHR 0x0A"
definition CR :: char where "CR = CHR 0x0D"

fun split_inclusive :: "string \<Rightarrow> string \<Rightarrow> string list" where
  "split_inclusive acc [] = (if acc = [] then [] else [rev acc])"
| "split_inclusive acc (c # cs) =
     (if c = LF then rev (c # acc) # split_inclusive [] cs else split_inclusive (c # acc) cs)"

definition strip_eol :: "string \<Rightarrow> string" where
  "strip_eol l =
     (if l \<noteq> [] \<and> last l = LF
      then let l = butlast l in if l \<noteq> [] \<and> last l = CR then butlast l else l
      else l)"

definition str_lines :: "string \<Rightarrow> string list" where
  "str_lines s = map strip_eol (split_inclusive [] s)"

definition split_once :: "char \<Rightarrow> string \<Rightarrow> (string \<times> string) option" where
  "split_once c s =
     (case dropWhile (\<lambda>x. x \<noteq> c) s of [] \<Rightarrow> None | _ # v \<Rightarrow> Some (takeWhile (\<lambda>x. x \<noteq> c) s, v))"

definition is_digit :: "char \<Rightarrow> bool" where
  "is_digit c \<longleftrightarrow> 48 \<le> (of_char c :: nat) \<and> (of_char c :: nat) \<le> 57"

definition decimal :: "string \<Rightarrow> int" where
  "decimal ds = foldl (\<lambda>a c. 10 * a + (of_char c - 48)) 0 ds"

text \<open>\<open>parse\<close> of an unsigned integer with the largest value \<open>bound\<close>: digits after an optional plus.\<close>

definition parse_unsigned :: "int \<Rightarrow> string \<Rightarrow> int option" where
  "parse_unsigned bound s =
     (let ds = (case s of c # r \<Rightarrow> if c = CHR ''+'' then r else s | [] \<Rightarrow> s)
      in if ds \<noteq> [] \<and> list_all is_digit ds \<and> decimal ds \<le> bound then Some (decimal ds) else None)"

definition parse_word :: "string \<Rightarrow> 'a::len word option" where
  "parse_word s = map_option word_of_int (parse_unsigned (2 ^ LENGTH('a) - 1) s)"

text \<open>
  \<open>parse::<f64>\<close>: an optional sign, then digits with an optional point and exponent, or one of
  \<open>inf\<close>, \<open>infinity\<close> and \<open>nan\<close> in any case; the value is rounded once.
\<close>

definition split_sign :: "string \<Rightarrow> bool \<times> string" where
  "split_sign s =
     (case s of c # r \<Rightarrow> if c = CHR ''-'' then (True, r) else if c = CHR ''+'' then (False, r) else (False, s)
      | [] \<Rightarrow> (False, s))"

definition parse_exponent :: "string \<Rightarrow> int option" where
  "parse_exponent s =
     (case split_sign s of (neg, ds) \<Rightarrow>
        if ds \<noteq> [] \<and> list_all is_digit ds then Some ((if neg then - 1 else 1) * decimal ds) else None)"

definition parse_number :: "string \<Rightarrow> rat option" where
  "parse_number s =
     (let ip = takeWhile is_digit s; r = dropWhile is_digit s;
          (frac, r) = (case r of c # t \<Rightarrow> if c = CHR ''.'' then (takeWhile is_digit t, dropWhile is_digit t) else ([], r)
                       | [] \<Rightarrow> ([], r));
          mant = of_int (decimal (ip @ frac)) / 10 ^ length frac
      in if ip = [] \<and> frac = [] then None
         else case r of [] \<Rightarrow> Some mant
              | c # t \<Rightarrow> if c = CHR ''e'' \<or> c = CHR ''E''
                        then map_option (\<lambda>e. mant * 10 powi e) (parse_exponent t) else None)"

definition to_lower :: "char \<Rightarrow> char" where
  "to_lower c = (let n = (of_char c :: nat) in if 65 \<le> n \<and> n \<le> 90 then char_of (n + 32) else c)"

definition to_upper :: "char \<Rightarrow> char" where
  "to_upper c = (let n = (of_char c :: nat) in if 97 \<le> n \<and> n \<le> 122 then char_of (n - 32) else c)"

definition parse_float :: "string \<Rightarrow> fp option" where
  "parse_float s =
     (case split_sign s of (neg, t) \<Rightarrow>
        (case parse_number t of
           Some m \<Rightarrow> Some (f64_round (if neg then - m else m))
         | None \<Rightarrow>
             let l = map to_lower t
             in if l = ''inf'' \<or> l = ''infinity'' then Some (if neg then NegInf else PosInf)
                else if l = ''nan'' then Some NaN else None))"

section \<open>The configuration\<close>

datatype freeze_mode = Ops | Converged

record training_config =
  ucb_c :: fp
  hysteresis :: fp
  baseline_rewards :: "fp list"
  t_ref_ns :: fp
  frag_weight :: fp
  cfg_freeze_mode :: freeze_mode
  converge_stable_n :: u32
  freeze_after :: "u64 option"
  reward_batch :: u32
  demote_fraction :: fp
  clamp_percentile :: u8
  escalate_variance :: fp

definition ARENA_DEMOTE_VOLUME_FRACTION :: fp where
  "ARENA_DEMOTE_VOLUME_FRACTION = f64_round (10 / 100)"

definition defaults_const :: training_config where
  "defaults_const =
     \<lparr>ucb_c = Fin 2, hysteresis = f64_round (15 / 100),
      baseline_rewards = [Fin 1, f64_round (8 / 10), f64_round (3 / 10), f64_round (9 / 10)],
      t_ref_ns = Fin 50, frag_weight = Fin 0, cfg_freeze_mode = Ops, converge_stable_n = 64,
      freeze_after = None, reward_batch = 16, demote_fraction = ARENA_DEMOTE_VOLUME_FRACTION,
      clamp_percentile = 90, escalate_variance = f64_round (1 / 100)\<rparr>"

definition KEYS :: "string list" where
  "KEYS = [''focus'', ''ucb_c'', ''hysteresis'', ''t_ref_ns'', ''frag_weight'', ''baseline_slab'',
     ''baseline_buddy'', ''baseline_system'', ''baseline_arena'', ''freeze_mode'', ''converge_stable_n'',
     ''freeze_after'', ''reward_batch'', ''demote_fraction'', ''clamp_percentile'', ''escalate_variance'']"

definition apply_focus :: "string \<Rightarrow> training_config \<Rightarrow> training_config" where
  "apply_focus v cfg =
     (if v = ''latency'' then cfg\<lparr>t_ref_ns := Fin 50, frag_weight := Fin 0\<rparr>
      else if v = ''throughput'' then cfg\<lparr>t_ref_ns := Fin 200, frag_weight := f64_round (5 / 100)\<rparr>
      else if v = ''balanced'' then cfg\<lparr>t_ref_ns := Fin 100, frag_weight := f64_round (2 / 100)\<rparr>
      else cfg)"

text \<open>\<open>parse_f64\<close> inside \<open>apply_key\<close>, and the test of the two fields that must not be negative.\<close>

definition parse_finite :: "string \<Rightarrow> fp option" where
  "parse_finite v = (case parse_float v of Some x \<Rightarrow> if is_finite x then Some x else None | None \<Rightarrow> None)"

definition parse_nonneg :: "string \<Rightarrow> fp option" where
  "parse_nonneg v =
     (case parse_float v of Some x \<Rightarrow> if is_finite x \<and> fp_le (Fin 0) x then Some x else None | None \<Rightarrow> None)"

definition set_if :: "'a option \<Rightarrow> ('a \<Rightarrow> training_config \<Rightarrow> training_config) \<Rightarrow> training_config \<Rightarrow> training_config"
where
  "set_if x f cfg = (case x of Some v \<Rightarrow> f v cfg | None \<Rightarrow> cfg)"

definition set_baseline :: "nat \<Rightarrow> fp \<Rightarrow> training_config \<Rightarrow> training_config" where
  "set_baseline i x cfg = cfg\<lparr>baseline_rewards := (baseline_rewards cfg)[i := x]\<rparr>"

definition apply_key :: "string \<Rightarrow> string \<Rightarrow> training_config \<Rightarrow> training_config" where
  "apply_key key v cfg =
     (if key = ''focus'' then apply_focus v cfg
      else if key = ''ucb_c'' then set_if (parse_finite v) (\<lambda>x c. c\<lparr>ucb_c := x\<rparr>) cfg
      else if key = ''hysteresis'' then set_if (parse_finite v) (\<lambda>x c. c\<lparr>hysteresis := x\<rparr>) cfg
      else if key = ''t_ref_ns'' then set_if (parse_finite v) (\<lambda>x c. c\<lparr>t_ref_ns := x\<rparr>) cfg
      else if key = ''frag_weight'' then set_if (parse_finite v) (\<lambda>x c. c\<lparr>frag_weight := x\<rparr>) cfg
      else if key = ''baseline_slab'' then set_if (parse_finite v) (set_baseline 0) cfg
      else if key = ''baseline_buddy'' then set_if (parse_finite v) (set_baseline 1) cfg
      else if key = ''baseline_system'' then set_if (parse_finite v) (set_baseline 2) cfg
      else if key = ''baseline_arena'' then set_if (parse_finite v) (set_baseline 3) cfg
      else if key = ''freeze_mode'' then
        (if v = ''ops'' then cfg\<lparr>cfg_freeze_mode := Ops\<rparr>
         else if v = ''converged'' then cfg\<lparr>cfg_freeze_mode := Converged\<rparr> else cfg)
      else if key = ''converge_stable_n'' then
        set_if (parse_word v) (\<lambda>n c. if 0 < n then c\<lparr>converge_stable_n := n\<rparr> else c) cfg
      else if key = ''freeze_after'' then
        set_if (parse_word v) (\<lambda>n c. if 0 < n then c\<lparr>freeze_after := Some n\<rparr> else c) cfg
      else if key = ''reward_batch'' then
        set_if (parse_word v) (\<lambda>n c. if 0 < n then c\<lparr>reward_batch := n\<rparr> else c) cfg
      else if key = ''demote_fraction'' then set_if (parse_nonneg v) (\<lambda>x c. c\<lparr>demote_fraction := x\<rparr>) cfg
      else if key = ''escalate_variance'' then set_if (parse_nonneg v) (\<lambda>x c. c\<lparr>escalate_variance := x\<rparr>) cfg
      else if key = ''clamp_percentile'' then
        set_if (parse_word v) (\<lambda>n c. if n \<le> 100 then c\<lparr>clamp_percentile := n\<rparr> else c) cfg
      else cfg)"

definition parse_line :: "string \<Rightarrow> (string \<times> string) option" where
  "parse_line l = map_option (\<lambda>(k, v). (str_trim k, str_trim v)) (split_once (CHR ''='') l)"

definition parse_pairs :: "string \<Rightarrow> (string \<times> string) list" where
  "parse_pairs body =
     List.map_filter parse_line
       (filter (\<lambda>l. l \<noteq> [] \<and> hd l \<noteq> CHR ''#'') (map str_trim (str_lines body)))"

definition apply_layer :: "(string \<times> string) list \<Rightarrow> training_config \<Rightarrow> training_config" where
  "apply_layer pairs cfg =
     (let cfg = (case find (\<lambda>(k, v). k = ''focus'') pairs of Some (_, v) \<Rightarrow> apply_focus v cfg | None \<Rightarrow> cfg)
      in foldl (\<lambda>c (k, v). apply_key k v c) cfg (filter (\<lambda>(k, v). k \<noteq> ''focus'') pairs))"

definition build_config :: "string option \<Rightarrow> (string \<times> string) list \<Rightarrow> training_config" where
  "build_config file_text env_pairs =
     (let cfg = defaults_const;
          cfg = (case file_text of Some body \<Rightarrow> apply_layer (parse_pairs body) cfg | None \<Rightarrow> cfg)
      in apply_layer env_pairs cfg)"

text \<open>The environment and the file system are functions; an unreadable file is as no file.\<close>

definition load_config_uncached :: "(string \<Rightarrow> string option) \<Rightarrow> (string \<Rightarrow> string option) \<Rightarrow> training_config" where
  "load_config_uncached env_var read_to_string =
     build_config (Option.bind (env_var ''LOHALLOC_TUNE'') read_to_string)
       (List.map_filter (\<lambda>key. map_option (Pair key) (env_var (''LOHALLOC_'' @ map to_upper key))) KEYS)"

text \<open>\<open>CONFIG_PTR\<close>: nothing until \<open>load_from_env\<close> installs a configuration; a later call replaces it.\<close>

definition config :: "training_config option \<Rightarrow> training_config" where
  "config ptr = (case ptr of None \<Rightarrow> defaults_const | Some c \<Rightarrow> c)"

definition load_from_env ::
  "(string \<Rightarrow> string option) \<Rightarrow> (string \<Rightarrow> string option) \<Rightarrow> training_config option \<Rightarrow> training_config option" where
  "load_from_env env_var read_to_string ptr = Some (load_config_uncached env_var read_to_string)"

section \<open>What is accepted\<close>

definition config_ok :: "training_config \<Rightarrow> bool" where
  "config_ok c \<longleftrightarrow> is_double (ucb_c c) \<and> is_double (hysteresis c) \<and> is_double (t_ref_ns c) \<and> is_double (frag_weight c)
     \<and> length (baseline_rewards c) = 4 \<and> list_all is_double (baseline_rewards c)
     \<and> 1 \<le> unat (converge_stable_n c) \<and> 1 \<le> unat (reward_batch c) \<and> freeze_after c \<noteq> Some 0
     \<and> is_double (demote_fraction c) \<and> fp_le (Fin 0) (demote_fraction c)
     \<and> unat (clamp_percentile c) \<le> 100 \<and> is_double (escalate_variance c) \<and> fp_le (Fin 0) (escalate_variance c)"

lemma unit_double: "0 \<le> x \<Longrightarrow> x \<le> 1 \<Longrightarrow> is_double (f64_round x) \<and> fp_le (Fin 0) (f64_round x)"
  using f64_round_unit_finite is_double_round by blast

lemma small_double: "is_double (Fin 0)" "is_double (Fin 1)" "is_double (Fin (numeral n))" if "(numeral n :: int) < 2 ^ 53"
  using that is_double_int [of "numeral n"] is_double_int [of 0] is_double_int [of 1] by simp_all

lemma config_ok_defaults: "config_ok defaults_const"
  using unit_double [of "15 / 100"] unit_double [of "8 / 10"] unit_double [of "3 / 10"]
    unit_double [of "9 / 10"] unit_double [of "1 / 100"] unit_double [of "10 / 100"]
  by (simp add: config_ok_def defaults_const_def ARENA_DEMOTE_VOLUME_FRACTION_def small_double
      small_double(1,2) [of Num.One] del: divide_eq_0_iff)

lemma config_ok_focus: "config_ok c \<Longrightarrow> config_ok (apply_focus v c)"
  using unit_double [of "5 / 100"] unit_double [of "2 / 100"]
  by (simp add: config_ok_def apply_focus_def small_double small_double(1,2) [of Num.One])

lemma set_if_ok: "config_ok c \<Longrightarrow> (\<And>x. v = Some x \<Longrightarrow> config_ok (f x c)) \<Longrightarrow> config_ok (set_if v f c)"
  by (simp add: set_if_def split: option.split)

lemma parse_float_double: "parse_float v = Some x \<Longrightarrow> is_finite x \<Longrightarrow> is_double x"
  using is_double_round by (auto simp: parse_float_def Let_def is_finite_def split: prod.splits option.splits if_splits)

lemma parse_finite_finite: "parse_finite v = Some x \<Longrightarrow> is_double x"
  by (auto simp: parse_finite_def intro: parse_float_double split: option.splits if_splits)

lemma parse_nonneg_nonneg: "parse_nonneg v = Some x \<Longrightarrow> is_double x \<and> fp_le (Fin 0) x"
  by (auto simp: parse_nonneg_def intro: parse_float_double split: option.splits if_splits)

lemma config_ok_baseline: "config_ok c \<Longrightarrow> is_double x \<Longrightarrow> config_ok (set_baseline i x c)"
  by (auto simp: config_ok_def set_baseline_def list_all_iff dest: set_update_subset_insert [THEN subsetD])

lemma word_pos: "(0::'a::len word) < n \<longleftrightarrow> 1 \<le> unat n"
  by (metis One_nat_def Suc_le_eq unat_gt_0 word_neq_0_conv)

lemma config_ok_fields:
  assumes "config_ok c"
  shows "is_double x \<Longrightarrow> config_ok (c\<lparr>ucb_c := x\<rparr>)" "is_double x \<Longrightarrow> config_ok (c\<lparr>hysteresis := x\<rparr>)"
    "is_double x \<Longrightarrow> config_ok (c\<lparr>t_ref_ns := x\<rparr>)" "is_double x \<Longrightarrow> config_ok (c\<lparr>frag_weight := x\<rparr>)"
    "config_ok (c\<lparr>cfg_freeze_mode := m\<rparr>)" "0 < n \<Longrightarrow> config_ok (c\<lparr>converge_stable_n := n\<rparr>)"
    "0 < n \<Longrightarrow> config_ok (c\<lparr>reward_batch := n\<rparr>)" "0 < k \<Longrightarrow> config_ok (c\<lparr>freeze_after := Some k\<rparr>)"
    "p \<le> 100 \<Longrightarrow> config_ok (c\<lparr>clamp_percentile := p\<rparr>)"
    "is_double x \<and> fp_le (Fin 0) x \<Longrightarrow> config_ok (c\<lparr>demote_fraction := x\<rparr>)"
    "is_double x \<and> fp_le (Fin 0) x \<Longrightarrow> config_ok (c\<lparr>escalate_variance := x\<rparr>)"
  using assms by (auto simp: config_ok_def word_pos word_le_nat_alt)

lemma if_keep: "(b \<Longrightarrow> P x) \<Longrightarrow> (\<not> b \<Longrightarrow> P y) \<Longrightarrow> P (if b then x else y)"
  by simp

lemma config_ok_key: "config_ok c \<Longrightarrow> config_ok (apply_key k v c)"
  unfolding apply_key_def
  by (intro if_keep [where P = config_ok] set_if_ok config_ok_focus config_ok_baseline config_ok_fields;
      (assumption | erule parse_finite_finite parse_nonneg_nonneg)?)

lemma config_ok_layer: "config_ok c \<Longrightarrow> config_ok (apply_layer pairs c)"
proof -
  have "config_ok c \<Longrightarrow> config_ok (foldl (\<lambda>c (k, v). apply_key k v c) c xs)" for xs c
    by (induction xs arbitrary: c) (auto simp: config_ok_key)
  then show "config_ok c \<Longrightarrow> config_ok (apply_layer pairs c)"
    by (auto simp: apply_layer_def Let_def config_ok_focus split: option.split)
qed

lemma config_ok_build: "config_ok (build_config body env)"
  by (auto simp: build_config_def Let_def intro: config_ok_layer config_ok_defaults split: option.split)
section \<open>Which value wins\<close>

text \<open>
  The specification: a knob has the last of its values, where the values of a layer are those of its first
  \<open>focus\<close> preset and then those of its explicit keys that parse, and the layers are the default,
  the file and the environment. A knob is given by its key, the parser of its values and what a preset says of it.
\<close>

definition focus_preset :: "string \<Rightarrow> (fp \<times> fp) option" where
  "focus_preset v =
     (if v = ''latency'' then Some (Fin 50, Fin 0)
      else if v = ''throughput'' then Some (Fin 200, f64_round (5 / 100))
      else if v = ''balanced'' then Some (Fin 100, f64_round (2 / 100)) else None)"

definition preset_values :: "(string \<Rightarrow> 'a option) \<Rightarrow> (string \<times> string) list \<Rightarrow> 'a list" where
  "preset_values preset pairs =
     (case find (\<lambda>(k, v). k = ''focus'') pairs of
        Some (_, v) \<Rightarrow> (case preset v of Some x \<Rightarrow> [x] | None \<Rightarrow> []) | None \<Rightarrow> [])"

definition explicit_values :: "string \<Rightarrow> (string \<Rightarrow> 'a option) \<Rightarrow> (string \<times> string) list \<Rightarrow> 'a list" where
  "explicit_values key read pairs = List.map_filter (\<lambda>(k, v). if k = key then read v else None) pairs"

definition layer_values ::
  "string \<Rightarrow> (string \<Rightarrow> 'a option) \<Rightarrow> (string \<Rightarrow> 'a option) \<Rightarrow> (string \<times> string) list \<Rightarrow> 'a list" where
  "layer_values key read preset pairs = preset_values preset pairs @ explicit_values key read pairs"

definition file_pairs :: "string option \<Rightarrow> (string \<times> string) list" where
  "file_pairs body = (case body of Some t \<Rightarrow> parse_pairs t | None \<Rightarrow> [])"

definition knob ::
  "string \<Rightarrow> (string \<Rightarrow> 'a option) \<Rightarrow> (string \<Rightarrow> 'a option) \<Rightarrow> 'a \<Rightarrow> string option \<Rightarrow> (string \<times> string) list \<Rightarrow> 'a" where
  "knob key read preset d body env =
     last (d # layer_values key read preset (file_pairs body) @ layer_values key read preset env)"

text \<open>The values that are accepted: numbers that satisfy a condition, and the two modes.\<close>

definition word_such :: "('a::len word \<Rightarrow> bool) \<Rightarrow> string \<Rightarrow> 'a word option" where
  "word_such P v = (case parse_word v of Some n \<Rightarrow> if P n then Some n else None | None \<Rightarrow> None)"

definition mode_of :: "string \<Rightarrow> freeze_mode option" where
  "mode_of v = (if v = ''ops'' then Some Ops else if v = ''converged'' then Some Converged else None)"

text \<open>A field of the configuration is the knob of a key: that key sets it, no other does, and a preset may.\<close>

definition field_of ::
  "string \<Rightarrow> (string \<Rightarrow> 'a option) \<Rightarrow> (string \<Rightarrow> 'a option) \<Rightarrow> (training_config \<Rightarrow> 'a) \<Rightarrow> bool" where
  "field_of key read preset g \<longleftrightarrow> key \<noteq> ''focus'' \<and>
     (\<forall>c v. config_ok c \<longrightarrow> g (apply_key key v c) = (case read v of Some x \<Rightarrow> x | None \<Rightarrow> g c)) \<and>
     (\<forall>c v k. k \<noteq> key \<longrightarrow> k \<noteq> ''focus'' \<longrightarrow> g (apply_key k v c) = g c) \<and>
     (\<forall>c v. g (apply_focus v c) = (case preset v of Some x \<Rightarrow> x | None \<Rightarrow> g c))"

lemma last_Cons_append: "last (last (x # xs) # ys) = last (x # xs @ ys)"
  by (cases ys) auto

lemma explicit_values_Cons:
  "explicit_values key read ((k, v) # ps) =
     (if k = key then (case read v of Some x \<Rightarrow> [x] | None \<Rightarrow> []) else []) @ explicit_values key read ps"
  by (simp add: explicit_values_def map_filter_simps split: option.split)

lemma explicit_values_filter:
  "key \<noteq> ''focus'' \<Longrightarrow> explicit_values key read (filter (\<lambda>(k, v). k \<noteq> ''focus'') ps) = explicit_values key read ps"
  by (induction ps) (auto simp: explicit_values_def map_filter_simps split: option.split)

lemma foldl_last_value:
  assumes f: "field_of key read preset g"
  shows "config_ok c \<Longrightarrow> \<forall>p \<in> set ps. fst p \<noteq> ''focus'' \<Longrightarrow>
    g (foldl (\<lambda>c (k, v). apply_key k v c) c ps) = last (g c # explicit_values key read ps)"
proof (induction ps arbitrary: c)
  case Nil
  then show ?case by (simp add: explicit_values_def map_filter_simps)
next
  case (Cons p ps)
  obtain k v where p: "p = (k, v)" by force
  have "g (apply_key k v c) = last (g c # (if k = key then (case read v of Some x \<Rightarrow> [x] | None \<Rightarrow> []) else []))"
    using f Cons.prems by (auto simp: field_of_def p split: option.split)
  moreover have "g (foldl (\<lambda>c (k, v). apply_key k v c) (apply_key k v c) ps)
      = last (g (apply_key k v c) # explicit_values key read ps)"
    using Cons.IH [OF config_ok_key [OF Cons.prems(1)]] Cons.prems(2) by simp
  ultimately show ?case by (simp add: p explicit_values_Cons last_Cons_append del: last.simps)
qed

lemma layer_last_value:
  assumes f: "field_of key read preset g" and c: "config_ok c"
  shows "g (apply_layer pairs c) = last (g c # layer_values key read preset pairs)"
proof -
  let ?c = "case find (\<lambda>(k, v). k = ''focus'') pairs of Some (_, v) \<Rightarrow> apply_focus v c | None \<Rightarrow> c"
  have ok: "config_ok ?c" using c by (auto simp: config_ok_focus split: option.split)
  have "g ?c = last (g c # preset_values preset pairs)"
    using f by (auto simp: field_of_def preset_values_def split: option.split)
  moreover have "key \<noteq> ''focus''" using f by (simp add: field_of_def)
  ultimately show ?thesis
    using foldl_last_value [OF f ok, of "filter (\<lambda>(k, v). k \<noteq> ''focus'') pairs"]
    by (auto simp: apply_layer_def Let_def layer_values_def explicit_values_filter last_Cons_append case_prod_beta simp del: last.simps)
qed

lemma build_config_last:
  assumes f: "field_of key read preset g"
  shows "g (build_config body env) = knob key read preset (g defaults_const) body env"
proof (cases body)
  case None
  have "layer_values key read preset [] = []" by (simp add: layer_values_def preset_values_def explicit_values_def map_filter_simps)
  then show ?thesis by (simp add: None build_config_def layer_last_value [OF f config_ok_defaults] file_pairs_def knob_def)
next
  case (Some t)
  then show ?thesis
    by (simp add: build_config_def layer_last_value [OF f config_ok_defaults]
        layer_last_value [OF f config_ok_layer [OF config_ok_defaults]] file_pairs_def knob_def last_Cons_append del: last.simps)
qed

text \<open>What none of the keys but its own writes, a key leaves alone.\<close>

lemma set_if_keep: "(\<And>x. g (f x c) = g c) \<Longrightarrow> g (set_if v f c) = g c"
  by (simp add: set_if_def split: option.split)

lemma apply_key_keep:
  assumes "k \<noteq> ''focus''"
    and "\<And>c x. k = ''ucb_c'' \<Longrightarrow> g (c\<lparr>ucb_c := x\<rparr>) = g c"
    and "\<And>c x. k = ''hysteresis'' \<Longrightarrow> g (c\<lparr>hysteresis := x\<rparr>) = g c"
    and "\<And>c x. k = ''t_ref_ns'' \<Longrightarrow> g (c\<lparr>t_ref_ns := x\<rparr>) = g c"
    and "\<And>c x. k = ''frag_weight'' \<Longrightarrow> g (c\<lparr>frag_weight := x\<rparr>) = g c"
    and "\<And>c x. k = ''baseline_slab'' \<Longrightarrow> g (set_baseline 0 x c) = g c"
    and "\<And>c x. k = ''baseline_buddy'' \<Longrightarrow> g (set_baseline 1 x c) = g c"
    and "\<And>c x. k = ''baseline_system'' \<Longrightarrow> g (set_baseline 2 x c) = g c"
    and "\<And>c x. k = ''baseline_arena'' \<Longrightarrow> g (set_baseline 3 x c) = g c"
    and "\<And>c x. k = ''freeze_mode'' \<Longrightarrow> g (c\<lparr>cfg_freeze_mode := x\<rparr>) = g c"
    and "\<And>c x. k = ''converge_stable_n'' \<Longrightarrow> g (c\<lparr>converge_stable_n := x\<rparr>) = g c"
    and "\<And>c x. k = ''freeze_after'' \<Longrightarrow> g (c\<lparr>freeze_after := x\<rparr>) = g c"
    and "\<And>c x. k = ''reward_batch'' \<Longrightarrow> g (c\<lparr>reward_batch := x\<rparr>) = g c"
    and "\<And>c x. k = ''demote_fraction'' \<Longrightarrow> g (c\<lparr>demote_fraction := x\<rparr>) = g c"
    and "\<And>c x. k = ''escalate_variance'' \<Longrightarrow> g (c\<lparr>escalate_variance := x\<rparr>) = g c"
    and "\<And>c x. k = ''clamp_percentile'' \<Longrightarrow> g (c\<lparr>clamp_percentile := x\<rparr>) = g c"
  shows "g (apply_key k v c) = g c"
  unfolding apply_key_def
  by (intro if_keep [where P = "\<lambda>x. g x = g c"] set_if_keep [where g = g]; (erule assms | rule refl | rule notE [OF assms(1)], assumption))

lemma field_ofI:
  assumes "key \<noteq> ''focus''"
    and "\<And>c v. config_ok c \<Longrightarrow> g (apply_key key v c) = (case read v of Some x \<Rightarrow> x | None \<Rightarrow> g c)"
    and "\<And>c v. g (apply_focus v c) = (case preset v of Some x \<Rightarrow> x | None \<Rightarrow> g c)"
    and "\<And>c v k. k \<noteq> key \<Longrightarrow> k \<noteq> ''focus'' \<Longrightarrow> g (apply_key k v c) = g c"
  shows "field_of key read preset g"
  using assms by (simp add: field_of_def)

lemma baseline_same: "config_ok c \<Longrightarrow> i < 4 \<Longrightarrow> baseline_rewards (set_baseline i x c) ! i = x"
  by (simp add: set_baseline_def config_ok_def)

lemma float_fields:
  "field_of ''ucb_c'' parse_finite (\<lambda>_. None) ucb_c"
  "field_of ''hysteresis'' parse_finite (\<lambda>_. None) hysteresis"
  "field_of ''t_ref_ns'' parse_finite (map_option fst \<circ> focus_preset) t_ref_ns"
  "field_of ''frag_weight'' parse_finite (map_option snd \<circ> focus_preset) frag_weight"
  "field_of ''demote_fraction'' parse_nonneg (\<lambda>_. None) demote_fraction"
  "field_of ''escalate_variance'' parse_nonneg (\<lambda>_. None) escalate_variance"
  by (rule field_ofI; (rule apply_key_keep; simp add: set_baseline_def)?;
      simp add: apply_key_def set_if_def apply_focus_def focus_preset_def split: option.split)+

lemma baseline_fields:
  "field_of ''baseline_slab'' parse_finite (\<lambda>_. None) (\<lambda>c. baseline_rewards c ! 0)"
  "field_of ''baseline_buddy'' parse_finite (\<lambda>_. None) (\<lambda>c. baseline_rewards c ! 1)"
  "field_of ''baseline_system'' parse_finite (\<lambda>_. None) (\<lambda>c. baseline_rewards c ! 2)"
  "field_of ''baseline_arena'' parse_finite (\<lambda>_. None) (\<lambda>c. baseline_rewards c ! 3)"
  by (rule field_ofI; (rule apply_key_keep; simp add: set_baseline_def)?;
      simp add: apply_key_def set_if_def apply_focus_def baseline_same split: option.split)+

lemma other_fields:
  "field_of ''freeze_mode'' mode_of (\<lambda>_. None) cfg_freeze_mode"
  "field_of ''converge_stable_n'' (word_such (\<lambda>n. 0 < n)) (\<lambda>_. None) converge_stable_n"
  "field_of ''freeze_after'' (map_option Some \<circ> word_such (\<lambda>n. 0 < n)) (\<lambda>_. None) freeze_after"
  "field_of ''reward_batch'' (word_such (\<lambda>n. 0 < n)) (\<lambda>_. None) reward_batch"
  "field_of ''clamp_percentile'' (word_such (\<lambda>n. n \<le> 100)) (\<lambda>_. None) clamp_percentile"
  by (rule field_ofI; (rule apply_key_keep; simp add: set_baseline_def)?;
      simp add: apply_key_def set_if_def apply_focus_def word_such_def mode_of_def split: option.split)+

section \<open>Properties\<close>

text \<open>
  C37: Whatever the file and the environment hold, the configuration that is loaded is usable: every
  floating-point knob is a finite double, the batch size and the stability count are at least 1, the
  percentile is at most 100, the demotion fraction and the variance gate are not negative, an
  operation count for freezing is not 0, and there are four priors.
\<close>
theorem loaded_config_ok: "config_ok (load_config_uncached env_var read_to_string)"
  by (simp add: load_config_uncached_def config_ok_build)

text \<open>
  C38: In each layer an explicit key beats the \<open>focus\<close> preset wherever the preset stands, values that do
  not parse or are out of range count for nothing, and the environment beats the file, which beats the default: every
  knob has the last of the values so ordered, and only the two knobs of the presets take values from them.
\<close>
theorem knob_precedence:
  "ucb_c (build_config body env) = knob ''ucb_c'' parse_finite (\<lambda>_. None) (Fin 2) body env
   \<and> hysteresis (build_config body env) = knob ''hysteresis'' parse_finite (\<lambda>_. None) (f64_round (15 / 100)) body env
   \<and> t_ref_ns (build_config body env) = knob ''t_ref_ns'' parse_finite (map_option fst \<circ> focus_preset) (Fin 50) body env
   \<and> frag_weight (build_config body env) = knob ''frag_weight'' parse_finite (map_option snd \<circ> focus_preset) (Fin 0) body env
   \<and> baseline_rewards (build_config body env) =
       [knob ''baseline_slab'' parse_finite (\<lambda>_. None) (Fin 1) body env,
        knob ''baseline_buddy'' parse_finite (\<lambda>_. None) (f64_round (8 / 10)) body env,
        knob ''baseline_system'' parse_finite (\<lambda>_. None) (f64_round (3 / 10)) body env,
        knob ''baseline_arena'' parse_finite (\<lambda>_. None) (f64_round (9 / 10)) body env]
   \<and> cfg_freeze_mode (build_config body env) = knob ''freeze_mode'' mode_of (\<lambda>_. None) Ops body env
   \<and> converge_stable_n (build_config body env) = knob ''converge_stable_n'' (word_such (\<lambda>n. 0 < n)) (\<lambda>_. None) 64 body env
   \<and> freeze_after (build_config body env) =
       knob ''freeze_after'' (map_option Some \<circ> word_such (\<lambda>n. 0 < n)) (\<lambda>_. None) None body env
   \<and> reward_batch (build_config body env) = knob ''reward_batch'' (word_such (\<lambda>n. 0 < n)) (\<lambda>_. None) 16 body env
   \<and> demote_fraction (build_config body env) = knob ''demote_fraction'' parse_nonneg (\<lambda>_. None) (f64_round (10 / 100)) body env
   \<and> clamp_percentile (build_config body env) = knob ''clamp_percentile'' (word_such (\<lambda>n. n \<le> 100)) (\<lambda>_. None) 90 body env
   \<and> escalate_variance (build_config body env) = knob ''escalate_variance'' parse_nonneg (\<lambda>_. None) (f64_round (1 / 100)) body env"
proof -
  note fields = float_fields baseline_fields other_fields
  have "length (baseline_rewards (build_config body env)) = 4" using config_ok_build [of body env] by (simp add: config_ok_def)
  then have "baseline_rewards (build_config body env) = map ((!) (baseline_rewards (build_config body env))) [0, 1, 2, 3]"
    by (intro nth_equalityI) (auto simp: less_Suc_eq numeral_eq_Suc)
  then show ?thesis using fields [THEN build_config_last, of body env] by (simp add: defaults_const_def ARENA_DEMOTE_VOLUME_FRACTION_def)
qed

end
