(* ===== verification/BTree.thy ===== *)
theory BTree
  imports Prelude "HOL-Library.Product_Lexorder"
begin

text \<open>
  What the decision engine uses of Rust's \<open>BTreeMap\<close>: a map as the list of its pairs in the order of
  the keys, which is the order its iterators run in. Tuples are compared lexicographically. The locale
  \<open>key_value_map\<close> is the contract its clients rely on; it is interpreted on the list.
\<close>

section \<open>Operations\<close>

type_synonym ('k, 'v) btree = "('k \<times> 'v) list"

fun bt_insert :: "'k::linorder \<Rightarrow> 'v \<Rightarrow> ('k, 'v) btree \<Rightarrow> ('k, 'v) btree" where
  "bt_insert k v [] = [(k, v)]"
| "bt_insert k v ((k', v') # m) =
     (if k < k' then (k, v) # (k', v') # m else if k = k' then (k, v) # m else (k', v') # bt_insert k v m)"

definition bt_get :: "'k \<Rightarrow> ('k, 'v) btree \<Rightarrow> 'v option" where
  "bt_get k m = map_of m k"

definition bt_remove :: "'k \<Rightarrow> ('k, 'v) btree \<Rightarrow> ('k, 'v) btree" where
  "bt_remove k m = filter (\<lambda>p. fst p \<noteq> k) m"

text \<open>\<open>entry(k).or_insert(d)\<close>, and the write through the reference it returns.\<close>

definition bt_entry :: "'k \<Rightarrow> 'v \<Rightarrow> ('k, 'v) btree \<Rightarrow> 'v" where
  "bt_entry k d m = (case bt_get k m of Some v \<Rightarrow> v | None \<Rightarrow> d)"

definition bt_upd :: "'k::linorder \<Rightarrow> 'v \<Rightarrow> ('v \<Rightarrow> 'v) \<Rightarrow> ('k, 'v) btree \<Rightarrow> ('k, 'v) btree" where
  "bt_upd k d f m = bt_insert k (f (bt_entry k d m)) m"

text \<open>\<open>collect\<close>: a later pair replaces an earlier one of its key.\<close>

definition bt_collect :: "('k::linorder \<times> 'v) list \<Rightarrow> ('k, 'v) btree" where
  "bt_collect xs = foldl (\<lambda>m (k, v). bt_insert k v m) [] xs"

section \<open>The map is sorted, and behaves as a map\<close>

definition bt_ok :: "('k::linorder, 'v) btree \<Rightarrow> bool" where
  "bt_ok m \<longleftrightarrow> sorted_wrt (<) (map fst m)"

lemma bt_ok_Nil [simp]: "bt_ok []" by (simp add: bt_ok_def)

lemma bt_insert_keys: "fst ` set (bt_insert k v m) = insert k (fst ` set m)"
proof (induction m)
  case (Cons p m)
  then show ?case by (cases p) (simp split: if_split, blast)
qed simp

lemma bt_ok_insert [simp]: "bt_ok m \<Longrightarrow> bt_ok (bt_insert k v m)"
proof (induction m)
  case (Cons p m)
  then show ?case
    using bt_insert_keys [of k v m] by (cases p) (force simp: bt_ok_def image_iff)
qed (simp add: bt_ok_def)

lemma bt_ok_remove [simp]: "bt_ok m \<Longrightarrow> bt_ok (bt_remove k m)"
  by (induction m) (auto simp: bt_ok_def bt_remove_def)

lemma bt_ok_upd [simp]: "bt_ok m \<Longrightarrow> bt_ok (bt_upd k d f m)"
  by (simp add: bt_upd_def)

lemma bt_ok_distinct: "bt_ok m \<Longrightarrow> distinct (map fst m)"
  by (simp add: bt_ok_def strict_sorted_iff)

lemma bt_get_insert: "bt_ok m \<Longrightarrow> bt_get j (bt_insert k v m) = (if j = k then Some v else bt_get j m)"
proof (induction m)
  case (Cons p m)
  then show ?case by (cases p) (auto simp: bt_get_def bt_ok_def)
qed (simp add: bt_get_def)

lemma bt_get_remove: "bt_get j (bt_remove k m) = (if j = k then None else bt_get j m)"
  by (induction m) (auto simp: bt_get_def bt_remove_def)

lemma bt_get_upd:
  "bt_ok m \<Longrightarrow> bt_get j (bt_upd k d f m) = (if j = k then Some (f (bt_entry k d m)) else bt_get j m)"
  by (simp add: bt_upd_def bt_get_insert)

lemma bt_get_mem: "bt_ok m \<Longrightarrow> (k, v) \<in> set m \<longleftrightarrow> bt_get k m = Some v"
  by (simp add: bt_get_def bt_ok_distinct)

lemma bt_get_None: "bt_get k m = None \<longleftrightarrow> k \<notin> fst ` set m"
  by (simp add: bt_get_def map_of_eq_None_iff)

lemma bt_collect_snoc: "bt_collect (xs @ [(k, v)]) = bt_insert k v (bt_collect xs)"
  by (simp add: bt_collect_def)

lemma bt_ok_collect [simp]: "bt_ok (bt_collect xs)"
  by (induction xs rule: rev_induct) (auto simp: bt_collect_snoc, simp add: bt_collect_def)

lemma bt_get_collect: "bt_get k (bt_collect xs) = map_of (rev xs) k"
proof (induction xs rule: rev_induct)
  case Nil
  then show ?case by (simp add: bt_collect_def bt_get_def)
next
  case (snoc p xs)
  then show ?case by (cases p) (auto simp: bt_collect_snoc bt_get_insert)
qed

text \<open>What an insertion does to the pairs: those of other keys stay.\<close>

lemma bt_insert_set:
  "bt_ok m \<Longrightarrow> set (bt_insert k v m) = insert (k, v) {p \<in> set m. fst p \<noteq> k}"
proof (induction m)
  case (Cons p m)
  then show ?case by (cases p) (auto simp: bt_ok_def)
qed simp

text \<open>A sum over the values, after an insertion.\<close>

lemma bt_sum_insert:
  fixes g :: "'k::linorder \<Rightarrow> 'v \<Rightarrow> nat"
  assumes "bt_ok m"
  shows "(\<Sum>(j, w) \<leftarrow> bt_insert k v m. g j w) + (case bt_get k m of Some w \<Rightarrow> g k w | None \<Rightarrow> 0)
    = (\<Sum>(j, w) \<leftarrow> m. g j w) + g k v"
  using assms
proof (induction m)
  case (Cons p m)
  obtain j w where p: "p = (j, w)" by (cases p)
  have "bt_get k m = None" if "k \<le> j"
    using Cons.prems that unfolding bt_get_None by (force simp: bt_ok_def p)
  then show ?case using Cons by (auto simp: p bt_ok_def bt_get_def split: option.splits)
qed (simp add: bt_get_def)

section \<open>The contract of a map\<close>

locale key_value_map =
  fixes get :: "'k \<Rightarrow> 'm \<Rightarrow> 'v option" and ins :: "'k \<Rightarrow> 'v \<Rightarrow> 'm \<Rightarrow> 'm" and rem :: "'k \<Rightarrow> 'm \<Rightarrow> 'm"
    and ok :: "'m \<Rightarrow> bool"
  assumes ins_ok: "ok m \<Longrightarrow> ok (ins k v m)"
    and rem_ok: "ok m \<Longrightarrow> ok (rem k m)"
    and get_ins: "ok m \<Longrightarrow> get j (ins k v m) = (if j = k then Some v else get j m)"
    and get_rem: "ok m \<Longrightarrow> get j (rem k m) = (if j = k then None else get j m)"
begin

lemma ins_other: "ok m \<Longrightarrow> j \<noteq> k \<Longrightarrow> get j (ins k v m) = get j m"
  by (simp add: get_ins)

lemma rem_ins_same: "ok m \<Longrightarrow> get j (rem k (ins k v m)) = get j (rem k m)"
  by (simp add: get_ins get_rem ins_ok)

end

interpretation bt: key_value_map bt_get bt_insert bt_remove bt_ok
  by unfold_locales (simp_all add: bt_get_insert bt_get_remove)

end
