(* ===== verification/Bandit.thy ===== *)
theory Bandit
  imports Tune BTree Routing
begin

text \<open>
  The multi-armed bandit (\<open>crates/lohalloc-alloc/src/bandit.rs\<close>): the statistics of the arms of each
  signature, the selection by upper confidence bounds with hysteresis, the updates, and the collapse of the
  statistics into the entries of the routing tables, with the context overrides of the shadow maps and the
  distilled one-frame entries. \<open>f64::ln\<close>, whose result Rust leaves to the platform, is the parameter
  \<open>lnf\<close>. The counters of 32 bits wrap as in a release build.
\<close>

section \<open>Statistics\<close>

definition FINE_MIN_PULLS :: u32 where "FINE_MIN_PULLS = 32"
definition FINE_MARGIN :: fp where "FINE_MARGIN = f64_round (5 / 100)"
definition DEEP_CTX_MIN_FRACTION :: fp where "DEEP_CTX_MIN_FRACTION = f64_round (5 / 100)"

record arm_stats =
  sum_reward :: fp
  pulls :: u32
  obs :: u32
  obs_mean :: fp
  obs_m2 :: fp

definition arm_new :: "fp \<Rightarrow> arm_stats" where
  "arm_new reward = \<lparr>sum_reward = reward, pulls = 1, obs = 0, obs_mean = Fin 0, obs_m2 = Fin 0\<rparr>"

definition mean_reward :: "arm_stats \<Rightarrow> fp" where
  "mean_reward a = (if pulls a = 0 then Fin 0 else f64_div (sum_reward a) (f64_of (pulls a)))"

definition observe :: "fp \<Rightarrow> arm_stats \<Rightarrow> arm_stats" where
  "observe reward a =
     (let n = obs a + 1;
          delta = f64_sub reward (obs_mean a);
          m = f64_add (obs_mean a) (f64_div delta (f64_of n))
      in a\<lparr>obs := n, obs_mean := m, obs_m2 := f64_add (obs_m2 a) (f64_mul delta (f64_sub reward m))\<rparr>)"

definition reward_variance :: "arm_stats \<Rightarrow> fp" where
  "reward_variance a = (if obs a < 2 then Fin 0 else f64_div (obs_m2 a) (f64_of (obs a)))"

record signature_stats =
  arms :: "arm_stats list"
  total_pulls :: u32
  last_choice :: "backend option"
  stable_count :: u32
  one_frame :: u64

definition signature_stats_new :: "fp list \<Rightarrow> signature_stats" where
  "signature_stats_new baselines =
     \<lparr>arms = [arm_new (baselines ! 0), arm_new (baselines ! 1), arm_new (baselines ! 2), arm_new (baselines ! 3)],
      total_pulls = 4, last_choice = None, stable_count = 0, one_frame = 0\<rparr>"

record fine_stats =
  fine_sum :: "fp list"
  fine_pulls :: "u32 list"

definition fine_default :: fine_stats where
  "fine_default = \<lparr>fine_sum = replicate 4 (Fin 0), fine_pulls = replicate 4 0\<rparr>"

definition fine_mean :: "fine_stats \<Rightarrow> nat \<Rightarrow> fp" where
  "fine_mean f arm = (if fine_pulls f ! arm = 0 then Fin 0 else f64_div (fine_sum f ! arm) (f64_of (fine_pulls f ! arm)))"

record fine_freeze =
  ff_entries :: "(u64 \<times> u64 \<times> u8 \<times> backend) list"
  ff_flagged :: "u64 set"
  ff_flagged_frames :: "(u64, u64 \<times> u8) btree"
  ff_deep_entries :: "(u64 \<times> u64 \<times> u8 \<times> backend) list"
  ff_deep_flagged :: "u64 set"

record bandit_policy =
  bp_stats :: "(signature, signature_stats) btree"
  bp_fine :: "(signature \<times> u8, fine_stats) btree"
  bp_fine_deep :: "(signature \<times> u8, fine_stats) btree"

definition bandit_new :: bandit_policy where
  "bandit_new = \<lparr>bp_stats = [], bp_fine = [], bp_fine_deep = []\<rparr>"

text \<open>\<open>b as usize\<close>, and back.\<close>

definition backend_index :: "backend \<Rightarrow> nat" where
  "backend_index b = unat (backend_u8 b)"

definition backend_from_index :: "nat \<Rightarrow> backend" where
  "backend_from_index i = (if i = 0 then Slab else if i = 1 then Buddy else if i = 2 then System else if i = 3 then Arena else Slab)"

section \<open>Selection and updates\<close>

text \<open>The score of arm \<open>i\<close>, and the loop over the arms from \<open>i\<close> on with the best so far.\<close>

definition arm_score ::
  "(fp \<Rightarrow> fp) \<Rightarrow> training_config \<Rightarrow> fp \<Rightarrow> backend option \<Rightarrow> nat \<Rightarrow> arm_stats \<Rightarrow> fp" where
  "arm_score lnf cfg tot prev i a =
     (let exploration = (if 0 < pulls a
            then f64_mul (ucb_c cfg) (f64_sqrt (f64_div (lnf tot) (f64_of (pulls a)))) else PosInf);
          score = f64_add (mean_reward a) exploration
      in case prev of
           Some l \<Rightarrow> if backend_from_index i \<noteq> l then f64_sub score (hysteresis cfg) else score
         | None \<Rightarrow> score)"

definition masked :: "u8 \<Rightarrow> nat \<Rightarrow> bool" where
  "masked unservable_mask i \<longleftrightarrow> unservable_mask AND push_bit i 1 \<noteq> 0"

fun select_scan :: "(nat \<Rightarrow> arm_stats \<Rightarrow> fp) \<Rightarrow> u8 \<Rightarrow> nat \<Rightarrow> arm_stats list \<Rightarrow> backend \<times> fp \<Rightarrow> backend \<times> fp" where
  "select_scan score msk i [] best = best"
| "select_scan score msk i (a # as) best =
     (if masked msk i then select_scan score msk (i + 1) as best
      else let sc = score i a
           in select_scan score msk (i + 1) as
                (if fp_lt (snd best) sc then (backend_from_index i, sc) else best))"

definition saturating_inc :: "u32 \<Rightarrow> u32" where
  "saturating_inc n = (if n = - 1 then n else n + 1)"

definition count_pull :: "backend \<Rightarrow> signature_stats \<Rightarrow> signature_stats" where
  "count_pull best e =
     (let i = backend_index best
      in e\<lparr>arms := (arms e)[i := (arms e ! i)\<lparr>pulls := pulls (arms e ! i) + 1\<rparr>],
           total_pulls := total_pulls e + 1,
           stable_count := (if last_choice e = Some best then saturating_inc (stable_count e) else 0),
           last_choice := Some best\<rparr>)"

definition best_of :: "(fp \<Rightarrow> fp) \<Rightarrow> training_config \<Rightarrow> u8 \<Rightarrow> signature_stats \<Rightarrow> backend" where
  "best_of lnf cfg unservable_mask e =
     (let tot = f64_of (total_pulls e)
      in fst (select_scan (arm_score lnf cfg tot (last_choice e)) unservable_mask 0 (arms e) (Slab, f64_MIN)))"

definition select_with_frame ::
  "(fp \<Rightarrow> fp) \<Rightarrow> signature \<Rightarrow> u64 \<Rightarrow> training_config \<Rightarrow> u8 \<Rightarrow> bandit_policy \<Rightarrow> backend \<times> bandit_policy"
where
  "select_with_frame lnf sig frame cfg unservable_mask bp =
     (let e = bt_entry sig (signature_stats_new (baseline_rewards cfg)) (bp_stats bp);
          e = (if frame \<noteq> 0 then e\<lparr>one_frame := frame\<rparr> else e);
          best = best_of lnf cfg unservable_mask e
      in (best, bp\<lparr>bp_stats := bt_insert sig (count_pull best e) (bp_stats bp)\<rparr>))"

definition select_with :: "(fp \<Rightarrow> fp) \<Rightarrow> signature \<Rightarrow> training_config \<Rightarrow> bandit_policy \<Rightarrow> backend \<times> bandit_policy" where
  "select_with lnf sig cfg bp = select_with_frame lnf sig 0 cfg 0 bp"

text \<open>The process-wide configuration is an argument of the operations that read it.\<close>

definition select :: "(fp \<Rightarrow> fp) \<Rightarrow> training_config \<Rightarrow> signature \<Rightarrow> bandit_policy \<Rightarrow> backend \<times> bandit_policy" where
  "select lnf global sig bp = select_with lnf sig global bp"

definition update_weighted ::
  "training_config \<Rightarrow> signature \<Rightarrow> backend \<Rightarrow> fp \<Rightarrow> u32 \<Rightarrow> bandit_policy \<Rightarrow> bandit_policy" where
  "update_weighted global sig b reward weight bp =
     bp\<lparr>bp_stats := bt_upd sig (signature_stats_new (baseline_rewards global))
          (\<lambda>e. let i = backend_index b; a = arms e ! i;
                   a = a\<lparr>sum_reward := f64_add (sum_reward a) (f64_mul reward (f64_of weight))\<rparr>
               in e\<lparr>arms := (arms e)[i := observe reward a]\<rparr>) (bp_stats bp)\<rparr>"

definition update :: "training_config \<Rightarrow> signature \<Rightarrow> backend \<Rightarrow> fp \<Rightarrow> bandit_policy \<Rightarrow> bandit_policy" where
  "update global sig b reward bp = update_weighted global sig b reward 1 bp"

definition fine_add :: "backend \<Rightarrow> fp \<Rightarrow> u32 \<Rightarrow> fine_stats \<Rightarrow> fine_stats" where
  "fine_add b reward weight f =
     (let i = backend_index b
      in f\<lparr>fine_sum := (fine_sum f)[i := f64_add (fine_sum f ! i) (f64_mul reward (f64_of weight))],
           fine_pulls := (fine_pulls f)[i := fine_pulls f ! i + weight]\<rparr>)"

definition update_fine :: "signature \<Rightarrow> u8 \<Rightarrow> backend \<Rightarrow> fp \<Rightarrow> u32 \<Rightarrow> bandit_policy \<Rightarrow> bandit_policy" where
  "update_fine sig ctx b reward weight bp =
     bp\<lparr>bp_fine := bt_upd (sig, ctx) fine_default (fine_add b reward weight) (bp_fine bp)\<rparr>"

definition update_fine_deep :: "signature \<Rightarrow> u8 \<Rightarrow> backend \<Rightarrow> fp \<Rightarrow> u32 \<Rightarrow> bandit_policy \<Rightarrow> bandit_policy" where
  "update_fine_deep sig deep_ctx b reward weight bp =
     bp\<lparr>bp_fine_deep := bt_upd (sig, deep_ctx) fine_default (fine_add b reward weight) (bp_fine_deep bp)\<rparr>"

section \<open>Verdicts\<close>

text \<open>
  \<open>max_by\<close> with \<open>partial_cmp\<close>, incomparable values being equal: the accumulated element stays only
  when it is greater, so the last of the greatest is returned.
\<close>

definition last_max :: "('a \<Rightarrow> fp) \<Rightarrow> 'a list \<Rightarrow> 'a option" where
  "last_max f xs =
     (case xs of [] \<Rightarrow> None | x # xs \<Rightarrow> Some (foldl (\<lambda>a b. if fp_lt (f b) (f a) then a else b) x xs))"

definition best_arm_index :: "signature_stats \<Rightarrow> nat" where
  "best_arm_index e =
     (case last_max (\<lambda>(i, a). mean_reward a) (enumerate 0 (arms e)) of Some (i, _) \<Rightarrow> i | None \<Rightarrow> 0)"

definition entry_converged :: "(fp \<Rightarrow> fp) \<Rightarrow> u32 \<Rightarrow> signature_stats \<Rightarrow> bool" where
  "entry_converged lnf stable_n e =
     (if stable_count e < stable_n then False
      else let best = best_arm_index e; tot = f64_of (total_pulls e); best_mean = mean_reward (arms e ! best)
           in list_all (\<lambda>(i, a). if i = best then True
                else if pulls a = 0 then False
                else let radius = f64_sqrt (f64_div (lnf tot) (f64_of (pulls a)))
                     in fp_lt (f64_add (mean_reward a) radius) best_mean) (enumerate 0 (arms e)))"

definition bandit_is_converged :: "(fp \<Rightarrow> fp) \<Rightarrow> u32 \<Rightarrow> bandit_policy \<Rightarrow> bool" where
  "bandit_is_converged lnf stable_n bp =
     (if bp_stats bp = [] then False else list_all (\<lambda>(_, e). entry_converged lnf stable_n e) (bp_stats bp))"

definition verdict :: "signature_stats \<Rightarrow> backend" where
  "verdict e = backend_from_index (best_arm_index e)"

definition sig_key :: "signature \<Rightarrow> u64" where
  "sig_key sig = combine_hash_size_class (caller_pc sig) (size_class sig)"

definition bandit_freeze :: "bandit_policy \<Rightarrow> (u64 \<times> u8 \<times> backend \<times> u32) list" where
  "bandit_freeze bp = map (\<lambda>(sig, e). (sig_key sig, size_class sig, verdict e, total_pulls e)) (bp_stats bp)"

definition fine_override :: "fine_stats \<Rightarrow> backend \<Rightarrow> (backend \<times> fp) option" where
  "fine_override f coarse =
     (let best = (case last_max (fine_mean f) [0, 1, 2, 3] of Some i \<Rightarrow> i | None \<Rightarrow> 0);
          best_backend = backend_from_index best;
          coarse_arm = backend_index coarse;
          margin = f64_sub (fine_mean f best) (fine_mean f coarse_arm)
      in if fine_pulls f ! best < FINE_MIN_PULLS \<or> fine_pulls f ! coarse_arm = 0
            \<or> best_backend = coarse \<or> fp_lt margin FINE_MARGIN then None
         else Some (best_backend, margin))"

text \<open>The flagged frames of \<open>freeze_fine\<close>: a signature with a known leaf frame is noted.\<close>

definition note_frame :: "bandit_policy \<Rightarrow> signature \<Rightarrow> fine_freeze \<Rightarrow> fine_freeze" where
  "note_frame bp sig out =
     (case bt_get sig (bp_stats bp) of
        Some e \<Rightarrow> if one_frame e \<noteq> 0
          then out\<lparr>ff_flagged_frames := bt_insert (sig_key sig) (one_frame e, size_class sig) (ff_flagged_frames out)\<rparr>
          else out
      | None \<Rightarrow> out)"

definition fine_step ::
  "bandit_policy \<Rightarrow> (u64, backend) btree \<Rightarrow> fine_freeze \<Rightarrow> (signature \<times> u8) \<times> fine_stats \<Rightarrow> fine_freeze" where
  "fine_step bp coarse_final out row =
     (case row of ((sig, ctx), f) \<Rightarrow>
        (case bt_get (sig_key sig) coarse_final of None \<Rightarrow> out
         | Some coarse \<Rightarrow>
             (case fine_override f coarse of None \<Rightarrow> out
              | Some (best, _) \<Rightarrow>
                  note_frame bp sig (out\<lparr>
                    ff_entries := ff_entries out @ [(combine_key_ctx (sig_key sig) ctx, sig_key sig, size_class sig, best)],
                    ff_flagged := insert (sig_key sig) (ff_flagged out)\<rparr>))))"

definition sizes_per_site :: "bandit_policy \<Rightarrow> (u64, u8 set) btree" where
  "sizes_per_site bp =
     foldl (\<lambda>m (s, _). bt_upd (caller_pc s) {} (insert (size_class s)) m) [] (bp_stats bp)"

definition margin_step ::
  "(u64, backend) btree \<Rightarrow> (signature, fp) btree \<Rightarrow> (signature \<times> u8) \<times> fine_stats \<Rightarrow> (signature, fp) btree" where
  "margin_step coarse_final m row =
     (case row of ((sig, _), f) \<Rightarrow>
        (case bt_get (sig_key sig) coarse_final of None \<Rightarrow> m
         | Some coarse \<Rightarrow>
             if fine_pulls f ! backend_index coarse = 0 then m
             else let best = foldl fp_max f64_MIN (map (fine_mean f) [0, 1, 2, 3]);
                      margin = f64_sub best (fine_mean f (backend_index coarse))
                  in bt_upd sig (Fin 0) (\<lambda>x. if fp_lt x margin then margin else x) m))"

definition shallow_best_margin :: "bandit_policy \<Rightarrow> (u64, backend) btree \<Rightarrow> (signature, fp) btree" where
  "shallow_best_margin bp coarse_final = foldl (margin_step coarse_final) [] (bp_fine bp)"

text \<open>The gates of the deep pass that come before the override test.\<close>

definition deep_gate :: "bandit_policy \<Rightarrow> fp \<Rightarrow> signature \<Rightarrow> signature_stats \<Rightarrow> fine_stats \<Rightarrow> bool" where
  "deep_gate bp gate_var sig e f \<longleftrightarrow>
     \<not> fp_lt (reward_variance (arms e ! best_arm_index e)) gate_var
     \<and> \<not> (case bt_get (caller_pc sig) (sizes_per_site bp) of Some ss \<Rightarrow> card ss | None \<Rightarrow> 0) < 2
     \<and> \<not> (total_pulls e = 0
          \<or> fp_lt (f64_div (f64_of (sum_list (fine_pulls f))) (f64_of (total_pulls e))) DEEP_CTX_MIN_FRACTION)"

definition deep_step ::
  "bandit_policy \<Rightarrow> (u64, backend) btree \<Rightarrow> fp \<Rightarrow> fine_freeze \<Rightarrow> (signature \<times> u8) \<times> fine_stats \<Rightarrow> fine_freeze" where
  "deep_step bp coarse_final gate_var out row =
     (case row of ((sig, deep_ctx), f) \<Rightarrow>
        if sig_key sig \<in> ff_flagged out then out
        else (case bt_get (sig_key sig) coarse_final of None \<Rightarrow> out
         | Some coarse \<Rightarrow>
             (case bt_get sig (bp_stats bp) of None \<Rightarrow> out
              | Some e \<Rightarrow>
                  if \<not> deep_gate bp gate_var sig e f then out
                  else (case fine_override f coarse of None \<Rightarrow> out
                   | Some (best, deep_margin) \<Rightarrow>
                       if fp_le deep_margin
                            (case bt_get sig (shallow_best_margin bp coarse_final) of Some m \<Rightarrow> m | None \<Rightarrow> Fin 0)
                       then out
                       else note_frame bp sig (out\<lparr>
                              ff_deep_entries := ff_deep_entries out
                                @ [(combine_key_ctx_deep (sig_key sig) deep_ctx, sig_key sig, size_class sig, best)],
                              ff_deep_flagged := insert (sig_key sig) (ff_deep_flagged out)\<rparr>)))))"

definition fine_freeze_new :: fine_freeze where
  "fine_freeze_new =
     \<lparr>ff_entries = [], ff_flagged = {}, ff_flagged_frames = [], ff_deep_entries = [], ff_deep_flagged = {}\<rparr>"

definition freeze_fine :: "(u64, backend) btree \<Rightarrow> fp \<Rightarrow> bandit_policy \<Rightarrow> fine_freeze" where
  "freeze_fine coarse_final gate_var bp =
     (let out = foldl (fine_step bp coarse_final) fine_freeze_new (bp_fine bp)
      in if fp_lt (Fin 0) gate_var
         then foldl (deep_step bp coarse_final gate_var) out (bp_fine_deep bp)
         else out)"

section \<open>Distillation and snapshots\<close>

definition group_step ::
  "(u64 \<times> u8, backend option \<times> u64) btree \<Rightarrow> signature \<times> signature_stats \<Rightarrow> (u64 \<times> u8, backend option \<times> u64) btree"
where
  "group_step groups row =
     (case row of (sig, e) \<Rightarrow>
        if one_frame e = 0 then groups
        else bt_upd (one_frame e, size_class sig) (Some (verdict e), 0)
               (\<lambda>(agreed, n). (if agreed \<noteq> Some (verdict e) then None else agreed, n + ucast (total_pulls e))) groups)"

definition distill_groups :: "bandit_policy \<Rightarrow> (u64 \<times> u8, backend option \<times> u64) btree" where
  "distill_groups bp = foldl group_step [] (bp_stats bp)"

definition distill_row :: "(u64 \<times> u8) \<times> (backend option \<times> u64) \<Rightarrow> (u64 \<times> u8 \<times> backend \<times> u32) option" where
  "distill_row row =
     (case row of ((frame, sc), (agreed, n)) \<Rightarrow>
        map_option (\<lambda>b. (combine_hash_size_class frame sc, sc, b, ucast (min n 0xFFFFFFFF))) agreed)"

definition distill :: "bandit_policy \<Rightarrow> (u64 \<times> u8 \<times> backend \<times> u32) list" where
  "distill bp = List.map_filter distill_row (distill_groups bp)"

definition snapshot :: "bandit_policy \<Rightarrow> (u64 \<times> backend) list" where
  "snapshot bp = map (\<lambda>(sig, e). (caller_pc sig, verdict e)) (bp_stats bp)"

definition fine_snapshot :: "bandit_policy \<Rightarrow> (u64 \<times> u8 \<times> u8 \<times> u32 list \<times> fp list) list" where
  "fine_snapshot bp =
     map (\<lambda>((sig, ctx), f). (caller_pc sig, size_class sig, ctx, fine_pulls f, map (fine_mean f) [0, 1, 2, 3])) (bp_fine bp)"

definition variance_snapshot :: "bandit_policy \<Rightarrow> (u64 \<times> u8 \<times> u32 \<times> backend \<times> fp) list" where
  "variance_snapshot bp =
     map (\<lambda>(sig, e). (caller_pc sig, size_class sig, total_pulls e, verdict e, reward_variance (arms e ! best_arm_index e)))
       (bp_stats bp)"

definition bandit_len :: "bandit_policy \<Rightarrow> nat" where "bandit_len bp = length (bp_stats bp)"
definition bandit_is_empty :: "bandit_policy \<Rightarrow> bool" where "bandit_is_empty bp \<longleftrightarrow> bp_stats bp = []"

end
