(* ===== verification/BuddyAlloc.thy ===== *)
theory BuddyAlloc
  imports SysBackend "HOL-Library.Monad_Syntax"
begin

text \<open>
  The buddy sub-allocator (\<open>crates/lohalloc-alloc/src/buddy.rs\<close>): regions of 4 MiB with a free
  bitmap, an order map and link arrays each, per-order pointer caches and intrusive lists below
  order 10, out-of-band slot lists and lists of regions from order 10 on, splitting on allocation
  and merging when a tier is drained.

  Addresses are \<open>usize\<close> words and 0 is the null pointer. The state of a region owns the contents of
  its metadata carve, which the kernel gives zeroed; the addresses of the carve are kept beside
  them, since the registration callback is given one. The memory of free blocks is the
  function \<open>b_mem\<close> from the address of a block to the \<open>FreeNode\<close> at its head.

  Operations are in the option monad: \<open>None\<close> is a panic (\<open>expect\<close> on a \<open>None\<close>, an index out of
  bounds) and, for \<open>alloc_order\<close>, which loops, also a run that does not return. The
  \<open>debug_assert\<close>s are not part of a release build.
\<close>

section \<open>Sizes and orders\<close>

definition MIN_BLOCK :: usize where "MIN_BLOCK = MIN_ALIGN"

text \<open>
  \<open>while s < bs { s <<= 1; o += 1 }\<close> with the number of shifts that are left: after 64 of them \<open>s\<close> is 0.
\<close>

fun order_scan :: "nat \<Rightarrow> usize \<Rightarrow> usize \<Rightarrow> nat \<Rightarrow> nat" where
  "order_scan 0 s bs k = k"
| "order_scan (Suc n) s bs k = (if s < bs then order_scan n (push_bit 1 s) bs (k + 1) else k)"

definition MAX_ORDER :: nat where "MAX_ORDER = order_scan 64 MIN_BLOCK BUDDY_MAX 0"
definition NUM_ORDERS :: nat where "NUM_ORDERS = MAX_ORDER + 1"
definition REGION_BYTES :: usize where "REGION_BYTES = 4 * BUDDY_MAX"
definition MIN_BLOCK_SHIFT :: nat where "MIN_BLOCK_SHIFT = 4"

fun ORDER_BIT_OFFSET :: "nat \<Rightarrow> nat" where
  "ORDER_BIT_OFFSET 0 = 0"
| "ORDER_BIT_OFFSET (Suc k) = ORDER_BIT_OFFSET k + unat (drop_bit (MIN_BLOCK_SHIFT + k) REGION_BYTES)"

definition BITMAP_WORDS :: nat where "BITMAP_WORDS = (ORDER_BIT_OFFSET NUM_ORDERS + 63) div 64"
definition MIN_HEADERLESS_ORDER :: nat where "MIN_HEADERLESS_ORDER = 10"
definition ORDER_MAP_SLOTS :: nat where
  "ORDER_MAP_SLOTS = unat (drop_bit (MIN_BLOCK_SHIFT + MIN_HEADERLESS_ORDER) REGION_BYTES)"
definition ORDER_MAP_WORDS :: nat where "ORDER_MAP_WORDS = (ORDER_MAP_SLOTS + 7) div 8"
definition LINK_WORDS :: nat where "LINK_WORDS = (ORDER_MAP_SLOTS * 2 * 2 + 7) div 8"
definition METADATA_WORDS :: nat where "METADATA_WORDS = BITMAP_WORDS + ORDER_MAP_WORDS + LINK_WORDS"
definition OOB_MIN_ORDER :: nat where "OOB_MIN_ORDER = MIN_HEADERLESS_ORDER"
definition OOB_ORDERS :: nat where "OOB_ORDERS = NUM_ORDERS - OOB_MIN_ORDER"
definition BITMAP_BATCH :: nat where "BITMAP_BATCH = 16"
definition ORDER_CACHE :: nat where "ORDER_CACHE = 32"
definition OOB_DRAIN_AT :: u32 where "OOB_DRAIN_AT = 32"

definition block_size :: "nat \<Rightarrow> usize" where "block_size k = push_bit k MIN_BLOCK"

definition block_size_of :: "nat \<Rightarrow> usize" where "block_size_of k = block_size k"

definition order_for :: "usize \<Rightarrow> nat option" where
  "order_for sz =
     (if sz = 0 \<or> sz > BUDDY_MAX then None
      else let bs = max (round_up_pow2 sz) MIN_BLOCK; k = order_scan 64 MIN_BLOCK bs 0
           in if k > MAX_ORDER then None else Some k)"

definition order_map_slot :: "usize \<Rightarrow> usize \<Rightarrow> nat" where
  "order_map_slot a region_base = unat (drop_bit (MIN_BLOCK_SHIFT + MIN_HEADERLESS_ORDER) (a - region_base))"

section \<open>State\<close>

record free_node =
  fn_prev :: usize
  fn_next :: usize

record bitmap_batch =
  bb_base :: usize
  bb_used :: nat
  bb_mapping :: mapping

record region =
  r_base :: usize
  r_bitmap :: "nat \<Rightarrow> u64"
  r_order_map :: "nat \<Rightarrow> u8"
  r_links :: "nat \<Rightarrow> u16"
  oob_head :: "nat \<Rightarrow> u16"
  oob_tail :: "nat \<Rightarrow> u16"
  rl_prev :: "nat \<Rightarrow> usize"
  rl_next :: "nat \<Rightarrow> usize"
  r_mapping :: mapping
  r_bitmap_at :: usize
  r_order_map_at :: usize
  r_links_at :: usize

record buddy =
  b_mem :: "usize \<Rightarrow> free_node"
  free_lists :: "nat \<Rightarrow> usize"
  oob_region_heads :: "nat \<Rightarrow> usize"
  oob_len :: "nat \<Rightarrow> u32"
  oob_pending :: "nat \<Rightarrow> u32"
  b_cache :: "nat \<Rightarrow> nat \<Rightarrow> usize"
  b_cache_len :: "nat \<Rightarrow> u8"
  regions :: "region list"
  last_region :: nat
  bitmap_batches :: "bitmap_batch list"
  record_orders :: bool

definition buddy_new :: "(usize \<Rightarrow> free_node) \<Rightarrow> buddy" where
  "buddy_new mem = \<lparr>b_mem = mem, free_lists = (\<lambda>_. 0), oob_region_heads = (\<lambda>_. 0), oob_len = (\<lambda>_. 0),
     oob_pending = (\<lambda>_. 0), b_cache = (\<lambda>_ _. 0), b_cache_len = (\<lambda>_. 0), regions = [], last_region = 0,
     bitmap_batches = [], record_orders = False\<rparr>"

definition set_record_orders :: "buddy \<Rightarrow> buddy" where
  "set_record_orders b = b\<lparr>record_orders := True\<rparr>"

definition buddy_region_count :: "buddy \<Rightarrow> nat" where "buddy_region_count b = length (regions b)"

section \<open>The bitmap and the links of a region\<close>

definition bit_pos :: "region \<Rightarrow> usize \<Rightarrow> nat \<Rightarrow> nat" where
  "bit_pos r a k = ORDER_BIT_OFFSET k + unat (drop_bit (MIN_BLOCK_SHIFT + k) (a - r_base r))"

definition set_free_bit :: "usize \<Rightarrow> nat \<Rightarrow> region \<Rightarrow> region" where
  "set_free_bit a k r =
     (let pos = bit_pos r a k; i = pos div 64
      in r\<lparr>r_bitmap := (r_bitmap r)(i := r_bitmap r i OR push_bit (pos mod 64) 1)\<rparr>)"

definition clear_free_bit :: "usize \<Rightarrow> nat \<Rightarrow> region \<Rightarrow> region" where
  "clear_free_bit a k r =
     (let pos = bit_pos r a k; i = pos div 64
      in r\<lparr>r_bitmap := (r_bitmap r)(i := r_bitmap r i AND NOT (push_bit (pos mod 64) 1))\<rparr>)"

definition is_free_bit :: "region \<Rightarrow> usize \<Rightarrow> nat \<Rightarrow> bool" where
  "is_free_bit r a k =
     (let pos = bit_pos r a k in drop_bit (pos mod 64) (r_bitmap r (pos div 64)) AND 1 = 1)"

definition link_prev :: "region \<Rightarrow> nat \<Rightarrow> u16" where "link_prev r slot = r_links r slot"
definition set_link_prev :: "nat \<Rightarrow> u16 \<Rightarrow> region \<Rightarrow> region" where
  "set_link_prev slot v r = r\<lparr>r_links := (r_links r)(slot := v)\<rparr>"
definition link_next :: "region \<Rightarrow> nat \<Rightarrow> u16" where "link_next r slot = r_links r (ORDER_MAP_SLOTS + slot)"
definition set_link_next :: "nat \<Rightarrow> u16 \<Rightarrow> region \<Rightarrow> region" where
  "set_link_next slot v r = r\<lparr>r_links := (r_links r)(ORDER_MAP_SLOTS + slot := v)\<rparr>"

section \<open>Finding and updating regions\<close>

text \<open>\<open>partition_point\<close> on the sorted bases is the length of the prefix below \<open>masked\<close>.\<close>

definition region_index_of :: "usize \<Rightarrow> buddy \<Rightarrow> nat option \<times> buddy" where
  "region_index_of a b =
     (let masked = a AND NOT (REGION_BYTES - 1); rs = regions b
      in if last_region b < length rs \<and> r_base (rs ! last_region b) = masked then (Some (last_region b), b)
         else let idx = length (takeWhile (\<lambda>r. r_base r < masked) rs)
              in if idx < length rs \<and> r_base (rs ! idx) = masked then (Some idx, b\<lparr>last_region := idx\<rparr>)
                 else (None, b))"

text \<open>\<open>region_index_of(..).expect(..)\<close>, \<open>self.regions[idx]\<close> read and updated.\<close>

definition expect_region :: "usize \<Rightarrow> buddy \<Rightarrow> (nat \<times> buddy) option" where
  "expect_region a b = (case region_index_of a b of (None, _) \<Rightarrow> None | (Some i, b') \<Rightarrow> Some (i, b'))"

definition region_at :: "nat \<Rightarrow> buddy \<Rightarrow> region option" where
  "region_at idx b = (if idx < length (regions b) then Some (regions b ! idx) else None)"

definition upd_region :: "nat \<Rightarrow> (region \<Rightarrow> region) \<Rightarrow> buddy \<Rightarrow> buddy option" where
  "upd_region idx f b =
     (if idx < length (regions b) then Some (b\<lparr>regions := (regions b)[idx := f (regions b ! idx)]\<rparr>) else None)"

section \<open>The intrusive lists\<close>

definition push_list :: "usize \<Rightarrow> nat \<Rightarrow> buddy \<Rightarrow> buddy" where
  "push_list node k b =
     (let head = free_lists b k;
          mem = (b_mem b)(node := \<lparr>fn_prev = 0, fn_next = head\<rparr>);
          mem' = (if head \<noteq> 0 then mem(head := (mem head)\<lparr>fn_prev := node\<rparr>) else mem)
      in b\<lparr>b_mem := mem', free_lists := (free_lists b)(k := node)\<rparr>)"

definition unlink :: "usize \<Rightarrow> nat \<Rightarrow> buddy \<Rightarrow> buddy" where
  "unlink node k b =
     (let prev = fn_prev (b_mem b node); next = fn_next (b_mem b node);
          b' = (if prev = 0 then b\<lparr>free_lists := (free_lists b)(k := next)\<rparr>
                else b\<lparr>b_mem := (b_mem b)(prev := (b_mem b prev)\<lparr>fn_next := next\<rparr>)\<rparr>)
      in if next \<noteq> 0 then b'\<lparr>b_mem := (b_mem b')(next := (b_mem b' next)\<lparr>fn_prev := prev\<rparr>)\<rparr> else b')"

section \<open>The out-of-band lists\<close>

definition region_list_link :: "nat \<Rightarrow> nat \<Rightarrow> buddy \<Rightarrow> buddy option" where
  "region_list_link region_idx oi b =
     do {
       r \<leftarrow> region_at region_idx b;
       let base = r_base r;
       let head_base = oob_region_heads b oi;
       b \<leftarrow> upd_region region_idx (\<lambda>r. r\<lparr>rl_prev := (rl_prev r)(oi := 0), rl_next := (rl_next r)(oi := head_base)\<rparr>) b;
       b \<leftarrow> (if head_base \<noteq> 0
             then do {
               (hidx, b) \<leftarrow> expect_region head_base b;
               upd_region hidx (\<lambda>r. r\<lparr>rl_prev := (rl_prev r)(oi := base)\<rparr>) b
             }
             else Some b);
       Some (b\<lparr>oob_region_heads := (oob_region_heads b)(oi := base)\<rparr>)
     }"

definition region_list_unlink :: "nat \<Rightarrow> nat \<Rightarrow> buddy \<Rightarrow> buddy option" where
  "region_list_unlink region_idx oi b =
     do {
       r \<leftarrow> region_at region_idx b;
       let prev_base = rl_prev r oi;
       let next_base = rl_next r oi;
       b \<leftarrow> (if prev_base = 0 then Some (b\<lparr>oob_region_heads := (oob_region_heads b)(oi := next_base)\<rparr>)
             else do {
               (pidx, b) \<leftarrow> expect_region prev_base b;
               upd_region pidx (\<lambda>r. r\<lparr>rl_next := (rl_next r)(oi := next_base)\<rparr>) b
             });
       (if next_base \<noteq> 0
        then do {
          (nidx, b) \<leftarrow> expect_region next_base b;
          upd_region nidx (\<lambda>r. r\<lparr>rl_prev := (rl_prev r)(oi := prev_base)\<rparr>) b
        }
        else Some b)
     }"

text \<open>The updates of one region that the list operations make, and the operations themselves.\<close>

definition slot_push :: "nat \<Rightarrow> nat \<Rightarrow> region \<Rightarrow> region" where
  "slot_push oi slot r =
     (let enc = of_nat (slot + 1); head = oob_head r oi;
          r = set_link_next slot head (set_link_prev slot 0 r);
          r = (if head \<noteq> 0 then set_link_prev (unat (head - 1)) enc r
               else r\<lparr>oob_tail := (oob_tail r)(oi := enc)\<rparr>)
      in r\<lparr>oob_head := (oob_head r)(oi := enc)\<rparr>)"

definition slot_push_tail :: "nat \<Rightarrow> nat \<Rightarrow> region \<Rightarrow> region" where
  "slot_push_tail oi slot r =
     (let enc = of_nat (slot + 1); tail = oob_tail r oi;
          r = set_link_prev slot tail (set_link_next slot 0 r);
          r = (if tail \<noteq> 0 then set_link_next (unat (tail - 1)) enc r
               else r\<lparr>oob_head := (oob_head r)(oi := enc)\<rparr>)
      in r\<lparr>oob_tail := (oob_tail r)(oi := enc)\<rparr>)"

definition slot_remove :: "nat \<Rightarrow> nat \<Rightarrow> region \<Rightarrow> region" where
  "slot_remove oi slot r =
     (let p = link_prev r slot; n = link_next r slot;
          r = (if p = 0 then r\<lparr>oob_head := (oob_head r)(oi := n)\<rparr> else set_link_next (unat (p - 1)) n r)
      in if n = 0 then r\<lparr>oob_tail := (oob_tail r)(oi := p)\<rparr> else set_link_prev (unat (n - 1)) p r)"

definition oob_push :: "usize \<Rightarrow> nat \<Rightarrow> nat \<Rightarrow> buddy \<Rightarrow> buddy option" where
  "oob_push ptr k region_idx b =
     do {
       let oi = k - OOB_MIN_ORDER;
       r \<leftarrow> region_at region_idx b;
       let slot = order_map_slot ptr (r_base r);
       let head = oob_head r oi;
       b \<leftarrow> upd_region region_idx (slot_push oi slot) b;
       let b = b\<lparr>oob_len := (oob_len b)(oi := oob_len b oi + 1)\<rparr>;
       (if head = 0 then region_list_link region_idx oi b else Some b)
     }"

definition oob_push_tail :: "usize \<Rightarrow> nat \<Rightarrow> nat \<Rightarrow> buddy \<Rightarrow> buddy option" where
  "oob_push_tail ptr k region_idx b =
     do {
       let oi = k - OOB_MIN_ORDER;
       r \<leftarrow> region_at region_idx b;
       let slot = order_map_slot ptr (r_base r);
       let tail = oob_tail r oi;
       b \<leftarrow> upd_region region_idx (slot_push_tail oi slot) b;
       let b = b\<lparr>oob_len := (oob_len b)(oi := oob_len b oi + 1)\<rparr>;
       (if tail = 0 then region_list_link region_idx oi b else Some b)
     }"

definition oob_remove :: "usize \<Rightarrow> nat \<Rightarrow> nat \<Rightarrow> buddy \<Rightarrow> buddy option" where
  "oob_remove ptr k region_idx b =
     do {
       let oi = k - OOB_MIN_ORDER;
       r \<leftarrow> region_at region_idx b;
       let slot = order_map_slot ptr (r_base r);
       b \<leftarrow> upd_region region_idx (slot_remove oi slot) b;
       r \<leftarrow> region_at region_idx b;
       let b = b\<lparr>oob_len := (oob_len b)(oi := oob_len b oi - 1)\<rparr>;
       (if oob_head r oi = 0 then region_list_unlink region_idx oi b else Some b)
     }"

definition oob_pop :: "nat \<Rightarrow> buddy \<Rightarrow> (usize option \<times> buddy) option" where
  "oob_pop k b =
     do {
       let oi = k - OOB_MIN_ORDER;
       let head_base = oob_region_heads b oi;
       (if head_base = 0 then Some (None, b)
        else do {
          (region_idx, b) \<leftarrow> expect_region head_base b;
          r \<leftarrow> region_at region_idx b;
          let slot = unat (oob_head r oi - 1);
          let ptr = head_base + push_bit (MIN_BLOCK_SHIFT + OOB_MIN_ORDER) (of_nat slot);
          b \<leftarrow> oob_remove ptr k region_idx b;
          Some (Some ptr, b)
        })
     }"

section \<open>Merging\<close>

text \<open>A (bit already clear) block becomes free in its tier.\<close>

definition stash_free :: "usize \<Rightarrow> nat \<Rightarrow> nat \<Rightarrow> buddy \<Rightarrow> buddy option" where
  "stash_free ptr k region_idx b =
     do {
       b \<leftarrow> upd_region region_idx (set_free_bit ptr k) b;
       (if k \<ge> OOB_MIN_ORDER then oob_push ptr k region_idx b
        else if unat (b_cache_len b k) < ORDER_CACHE
        then Some (b\<lparr>b_cache := (b_cache b)(k := (b_cache b k)(unat (b_cache_len b k) := ptr)),
                     b_cache_len := (b_cache_len b)(k := b_cache_len b k + 1)\<rparr>)
        else Some (push_list ptr k b))
     }"

definition remove_free :: "usize \<Rightarrow> nat \<Rightarrow> buddy \<Rightarrow> buddy option" where
  "remove_free ptr k b =
     (let len = unat (b_cache_len b k)
      in case find (\<lambda>i. b_cache b k i = ptr) [0..<len] of
           Some i \<Rightarrow> Some (b\<lparr>b_cache := (b_cache b)(k := (b_cache b k)(i := b_cache b k (len - 1))),
                            b_cache_len := (b_cache_len b)(k := b_cache_len b k - 1)\<rparr>)
         | None \<Rightarrow>
             (if k \<ge> OOB_MIN_ORDER
              then do { (region_idx, b) \<leftarrow> expect_region ptr b; oob_remove ptr k region_idx b }
              else Some (unlink ptr k b)))"

function merge_up :: "usize \<Rightarrow> nat \<Rightarrow> nat \<Rightarrow> buddy \<Rightarrow> (usize \<times> nat \<times> buddy) option" where
  "merge_up a k region_idx b =
     (if k < MAX_ORDER
      then do {
        let buddy_addr = a XOR block_size k;
        r \<leftarrow> region_at region_idx b;
        (if \<not> is_free_bit r buddy_addr k then Some (a, k, b)
         else do {
           b \<leftarrow> remove_free buddy_addr k b;
           b \<leftarrow> upd_region region_idx (clear_free_bit buddy_addr k) b;
           merge_up (a AND NOT (block_size (k + 1) - 1)) (k + 1) region_idx b
         })
      }
      else Some (a, k, b))"
  by pat_completeness auto
termination by (relation "measure (\<lambda>(a, k, i, b). MAX_ORDER - k)") auto

declare merge_up.simps [simp del]

text \<open>Where a drained block goes: a merged one to its new order, an unmerged one to the given tier.\<close>

fun merge_drain_row :: "nat \<Rightarrow> nat \<Rightarrow> buddy \<Rightarrow> (bool \<times> buddy) option" where
  "merge_drain_row k 0 b = Some (False, b)"
| "merge_drain_row k (Suc n) b =
     (let len = b_cache_len b k
      in if len = 0 then Some (False, b)
         else let ptr = b_cache b k (unat (len - 1));
                  b = b\<lparr>b_cache_len := (b_cache_len b)(k := len - 1)\<rparr>
              in case region_index_of ptr b of
                   (None, b) \<Rightarrow> merge_drain_row k n b
                 | (Some region_idx, b) \<Rightarrow>
                     do {
                       b \<leftarrow> upd_region region_idx (clear_free_bit ptr k) b;
                       (a, j, b) \<leftarrow> merge_up ptr k region_idx b;
                       (if j = k
                        then do {
                          b \<leftarrow> upd_region region_idx (set_free_bit a j) b;
                          b \<leftarrow> (if j \<ge> OOB_MIN_ORDER then oob_push a j region_idx b else Some (push_list a j b));
                          merge_drain_row k n b
                        }
                        else do {
                          b \<leftarrow> stash_free a j region_idx b;
                          (_, b) \<leftarrow> merge_drain_row k n b;
                          Some (True, b)
                        })
                     })"

fun oob_drain :: "nat \<Rightarrow> nat \<Rightarrow> buddy \<Rightarrow> buddy option" where
  "oob_drain k 0 b = Some b"
| "oob_drain k (Suc n) b =
     do {
       (p, b) \<leftarrow> oob_pop k b;
       (case p of None \<Rightarrow> Some b
        | Some ptr \<Rightarrow>
            (case region_index_of ptr b of
               (None, b) \<Rightarrow> oob_drain k n b
             | (Some region_idx, b) \<Rightarrow>
                 do {
                   b \<leftarrow> upd_region region_idx (clear_free_bit ptr k) b;
                   (a, j, b) \<leftarrow> merge_up ptr k region_idx b;
                   (if j = k
                    then do {
                      b \<leftarrow> upd_region region_idx (set_free_bit a j) b;
                      b \<leftarrow> oob_push_tail a j region_idx b;
                      oob_drain k n b
                    }
                    else do {
                      b \<leftarrow> stash_free a j region_idx b;
                      oob_drain k n b
                    })
                 }))
     }"

section \<open>Freeing\<close>

definition free_order :: "usize \<Rightarrow> nat \<Rightarrow> buddy \<Rightarrow> buddy option" where
  "free_order ptr k b =
     (case region_index_of ptr b of
        (None, b) \<Rightarrow> Some b
      | (Some region_idx, b) \<Rightarrow>
          (if k \<ge> OOB_MIN_ORDER
           then do {
             b \<leftarrow> upd_region region_idx (set_free_bit ptr k) b;
             b \<leftarrow> oob_push ptr k region_idx b;
             let oi = k - OOB_MIN_ORDER;
             let b = b\<lparr>oob_pending := (oob_pending b)(oi := oob_pending b oi + 1)\<rparr>;
             (if oob_pending b oi \<ge> OOB_DRAIN_AT
              then oob_drain k (unat (OOB_DRAIN_AT div 2)) (b\<lparr>oob_pending := (oob_pending b)(oi := 0)\<rparr>)
              else Some b)
           }
           else do {
             b \<leftarrow> (if unat (b_cache_len b k) = ORDER_CACHE
                   then map_option snd (merge_drain_row k (ORDER_CACHE div 2) b) else Some b);
             b \<leftarrow> upd_region region_idx (set_free_bit ptr k) b;
             let n = b_cache_len b k;
             (if unat n < ORDER_CACHE
              then Some (b\<lparr>b_cache := (b_cache b)(k := (b_cache b k)(unat n := ptr)),
                     b_cache_len := (b_cache_len b)(k := n + 1)\<rparr>)
              else None)
           }))"

definition buddy_dealloc :: "usize \<Rightarrow> usize \<Rightarrow> buddy \<Rightarrow> buddy option" where
  "buddy_dealloc ptr sz b = (case order_for sz of None \<Rightarrow> Some b | Some k \<Rightarrow> free_order ptr k b)"

fun dealloc_order_batch :: "nat \<Rightarrow> usize list \<Rightarrow> buddy \<Rightarrow> buddy option" where
  "dealloc_order_batch k [] b = Some b"
| "dealloc_order_batch k (p # ps) b = do { b \<leftarrow> free_order p k b; dealloc_order_batch k ps b }"

section \<open>Allocating\<close>

text \<open>The environment's operations, and the state they and the allocator are in.\<close>

record ('os, 'r) buddy_env =
  be_page :: usize
  be_mmap :: "'os \<Rightarrow> usize \<Rightarrow> usize option \<times> 'os"
  be_munmap :: "'os \<Rightarrow> usize \<times> usize \<Rightarrow> 'os"
  be_register :: "'r \<Rightarrow> usize \<Rightarrow> usize \<Rightarrow> bool \<times> 'r"

record ('os, 'r) buddy_world =
  bw_buddy :: buddy
  bw_os :: 'os
  bw_reg :: 'r

text \<open>The addresses of a carve: bitmap, order map, links.\<close>

definition carve_of :: "bitmap_batch \<Rightarrow> usize \<times> usize \<times> usize" where
  "carve_of batch =
     (let ptr = bb_base batch + of_nat (bb_used batch * METADATA_WORDS) * 8
      in (ptr, ptr + of_nat BITMAP_WORDS * 8, ptr + of_nat (BITMAP_WORDS + ORDER_MAP_WORDS) * 8))"

definition alloc_bitmap ::
  "('os, 'r) buddy_env \<Rightarrow> ('os, 'r) buddy_world \<Rightarrow> (usize \<times> usize \<times> usize) option \<times> ('os, 'r) buddy_world"
where
  "alloc_bitmap env w =
     (let b = bw_buddy w;
          need_new_batch = (if bitmap_batches b = [] then True
                            else bb_used (last (bitmap_batches b)) \<ge> BITMAP_BATCH);
          (ok, w) =
            (if need_new_batch
             then case alloc_pages (be_page env) (be_mmap env) (of_nat (METADATA_WORDS * BITMAP_BATCH * 8)) 8 (bw_os w) of
                    (None, os') \<Rightarrow> (False, w\<lparr>bw_os := os'\<rparr>)
                  | (Some m, os') \<Rightarrow>
                      (True, w\<lparr>bw_os := os',
                         bw_buddy := b\<lparr>bitmap_batches := bitmap_batches b @ [\<lparr>bb_base = map_ptr m, bb_used = 0, bb_mapping = m\<rparr>]\<rparr>\<rparr>)
             else (True, w))
      in if \<not> ok then (None, w)
         else let b = bw_buddy w; batch = last (bitmap_batches b)
              in (Some (carve_of batch),
                  w\<lparr>bw_buddy := b\<lparr>bitmap_batches := butlast (bitmap_batches b) @ [batch\<lparr>bb_used := bb_used batch + 1\<rparr>]\<rparr>\<rparr>))"

definition fresh_region :: "mapping \<Rightarrow> usize \<times> usize \<times> usize \<Rightarrow> region" where
  "fresh_region m carve =
     \<lparr>r_base = map_ptr m, r_bitmap = (\<lambda>_. 0), r_order_map = (\<lambda>_. 0), r_links = (\<lambda>_. 0),
      oob_head = (\<lambda>_. 0), oob_tail = (\<lambda>_. 0), rl_prev = (\<lambda>_. 0), rl_next = (\<lambda>_. 0), r_mapping = m,
      r_bitmap_at = fst carve, r_order_map_at = fst (snd carve), r_links_at = snd (snd carve)\<rparr>"

text \<open>\<open>while off < REGION_BYTES\<close>, with the number of top-order blocks that are left.\<close>

fun carve_top :: "nat \<Rightarrow> usize \<Rightarrow> usize \<Rightarrow> nat \<Rightarrow> buddy \<Rightarrow> buddy option" where
  "carve_top 0 base off idx b = Some b"
| "carve_top (Suc n) base off idx b =
     (if off < REGION_BYTES
      then do { b \<leftarrow> stash_free (base + off) MAX_ORDER idx b; carve_top n base (off + block_size MAX_ORDER) idx b }
      else Some b)"

definition insert_region :: "region \<Rightarrow> buddy \<Rightarrow> nat \<times> buddy" where
  "insert_region r b =
     (let idx = length (takeWhile (\<lambda>r'. r_base r' < r_base r) (regions b))
      in (idx, b\<lparr>regions := take idx (regions b) @ r # drop idx (regions b), last_region := idx\<rparr>))"

definition buddy_refill ::
  "('os, 'r) buddy_env \<Rightarrow> ('os, 'r) buddy_world \<Rightarrow> (bool \<times> ('os, 'r) buddy_world) option"
where
  "buddy_refill env w =
     (case alloc_pages (be_page env) (be_mmap env) REGION_BYTES REGION_BYTES (bw_os w) of
        (None, os') \<Rightarrow> Some (False, w\<lparr>bw_os := os'\<rparr>)
      | (Some m, os') \<Rightarrow>
          (case alloc_bitmap env (w\<lparr>bw_os := os'\<rparr>) of
             (None, w) \<Rightarrow> Some (False, w\<lparr>bw_os := be_munmap env (bw_os w) (unmap_range m)\<rparr>)
           | (Some carve, w) \<Rightarrow>
               (case be_register env (bw_reg w) (map_ptr m) (fst (snd carve)) of
                  (False, r') \<Rightarrow>
                    Some (False, w\<lparr>bw_reg := r', bw_os := be_munmap env (bw_os w) (unmap_range m)\<rparr>)
                | (True, r') \<Rightarrow>
                    (case insert_region (fresh_region m carve) (bw_buddy w) of
                       (idx, b) \<Rightarrow>
                         do {
                           b \<leftarrow> carve_top (unat (REGION_BYTES div block_size MAX_ORDER)) (map_ptr m) 0 idx b;
                           Some (True, w\<lparr>bw_reg := r', bw_buddy := b\<rparr>)
                         }))))"

text \<open>The smallest order from \<open>k\<close> on with a free block in some tier, or \<open>MAX_ORDER + 1\<close>.\<close>

function free_order_from :: "buddy \<Rightarrow> nat \<Rightarrow> nat" where
  "free_order_from b k =
     (if k \<le> MAX_ORDER \<and> b_cache_len b k = 0 \<and> free_lists b k = 0
         \<and> (k < OOB_MIN_ORDER \<or> oob_region_heads b (k - OOB_MIN_ORDER) = 0)
      then free_order_from b (k + 1) else k)"
  by pat_completeness auto
termination by (relation "measure (\<lambda>(b, k). Suc MAX_ORDER - k)") auto

declare free_order_from.simps [simp del]

definition pop_block :: "nat \<Rightarrow> buddy \<Rightarrow> (usize \<times> buddy) option" where
  "pop_block k b =
     (if b_cache_len b k > 0
      then let n = b_cache_len b k - 1 in Some (b_cache b k (unat n), b\<lparr>b_cache_len := (b_cache_len b)(k := n)\<rparr>)
      else if k \<ge> OOB_MIN_ORDER \<and> oob_region_heads b (k - OOB_MIN_ORDER) \<noteq> 0
      then do {
        (p, b) \<leftarrow> oob_pop k b;
        (case p of None \<Rightarrow> None | Some ptr \<Rightarrow> Some (ptr, b))
      }
      else let head = free_lists b k in Some (head, unlink head k b))"

fun split_down :: "usize \<Rightarrow> nat \<Rightarrow> nat \<Rightarrow> nat \<Rightarrow> buddy \<Rightarrow> buddy option" where
  "split_down blk 0 k region_idx b = Some b"
| "split_down blk (Suc j) k region_idx b =
     (if j \<ge> k
      then do { b \<leftarrow> stash_free (blk + block_size j) j region_idx b; split_down blk j k region_idx b }
      else Some b)"

definition record_order :: "usize \<Rightarrow> nat \<Rightarrow> nat \<Rightarrow> buddy \<Rightarrow> buddy option" where
  "record_order blk k region_idx b =
     (if record_orders b \<and> k \<ge> MIN_HEADERLESS_ORDER
      then upd_region region_idx
             (\<lambda>r. r\<lparr>r_order_map := (r_order_map r)(order_map_slot blk (r_base r) := of_nat k)\<rparr>) b
      else Some b)"

text \<open>A block of order \<open>j\<close> with a free one at hand: pop, clear its bit, split, record.\<close>

definition take_block :: "nat \<Rightarrow> nat \<Rightarrow> buddy \<Rightarrow> (usize \<times> buddy) option" where
  "take_block j k b =
     do {
       (blk, b) \<leftarrow> pop_block j b;
       (region_idx, b) \<leftarrow> expect_region blk b;
       b \<leftarrow> upd_region region_idx (clear_free_bit blk j) b;
       b \<leftarrow> split_down blk j k region_idx b;
       b \<leftarrow> record_order blk k region_idx b;
       Some (blk, b)
     }"

partial_function (option) alloc_order ::
  "('os, 'r) buddy_env \<Rightarrow> nat \<Rightarrow> ('os, 'r) buddy_world \<Rightarrow> (usize option \<times> ('os, 'r) buddy_world) option"
where
  "alloc_order env k w =
     (let j = free_order_from (bw_buddy w) k
      in if j > MAX_ORDER
         then Option.bind (buddy_refill env w) (\<lambda>(ok, w).
                if ok then alloc_order env k w else Some (None, w))
         else Option.bind (take_block j k (bw_buddy w)) (\<lambda>(blk, b). Some (Some blk, w\<lparr>bw_buddy := b\<rparr>)))"

definition buddy_alloc ::
  "('os, 'r) buddy_env \<Rightarrow> usize \<Rightarrow> ('os, 'r) buddy_world \<Rightarrow> (usize option \<times> ('os, 'r) buddy_world) option"
where
  "buddy_alloc env sz w =
     (if sz = 0 \<or> sz > BUDDY_MAX then Some (None, w)
      else case order_for sz of None \<Rightarrow> Some (None, w) | Some k \<Rightarrow> alloc_order env k w)"

fun alloc_order_batch ::
  "('os, 'r) buddy_env \<Rightarrow> nat \<Rightarrow> nat \<Rightarrow> ('os, 'r) buddy_world \<Rightarrow> (usize list \<times> ('os, 'r) buddy_world) option"
where
  "alloc_order_batch env k 0 w = Some ([], w)"
| "alloc_order_batch env k (Suc n) w =
     do {
       (p, w) \<leftarrow> alloc_order env k w;
       (case p of None \<Rightarrow> Some ([], w)
        | Some blk \<Rightarrow> do { (bs, w) \<leftarrow> alloc_order_batch env k n w; Some (blk # bs, w) })
     }"

end
