(* ===== verification/Engine.thy ===== *)
theory Engine
  imports Bandit PerfectHash BuddyAlloc
begin

text \<open>
  The decision engine (\<open>crates/lohalloc-alloc/src/state.rs\<close>): training, where the bandit routes and
  rewards arrive in batches, and inference, where a frozen plane routes. The process-wide
  configuration \<open>cfg\<close>, the page size, the latch \<open>legacy\<close> of \<open>pin_exclude_legacy\<close> and the
  platform's \<open>ln\<close> are arguments of the operations that read them.
\<close>

section \<open>Rewards\<close>

text \<open>\<open>frag_pct_for\<close> of \<open>lib.rs\<close>: the internal fragmentation in percent, in single precision.\<close>

definition reserved_for :: "usize \<Rightarrow> backend \<Rightarrow> usize \<Rightarrow> usize option" where
  "reserved_for page b n =
     (case b of
        Slab \<Rightarrow> map_option (\<lambda>c. SLAB_SIZE_CLASSES ! c) (slab_class_for n)
      | Buddy \<Rightarrow> map_option block_size (order_for n)
      | System \<Rightarrow> Some (align_up n page)
      | Arena \<Rightarrow> None)"

definition frag_pct_for :: "usize \<Rightarrow> backend \<Rightarrow> usize \<Rightarrow> fp" where
  "frag_pct_for page b n =
     (case reserved_for page b n of
        Some r \<Rightarrow> if n < r then f32_mul (f32_div (f32_of (r - n)) (f32_of r)) (Fin 100) else Fin 0
      | None \<Rightarrow> Fin 0)"

definition shaped_reward :: "u64 \<Rightarrow> fp \<Rightarrow> training_config \<Rightarrow> fp" where
  "shaped_reward latency_ns frag_pct cfg =
     f64_sub (f64_div (t_ref_ns cfg) (f64_add (t_ref_ns cfg) (f64_of latency_ns)))
       (f64_div (f64_mul (frag_weight cfg) (f64_from frag_pct)) (Fin 100))"

record pending_batch =
  latency_sum :: u64
  frag_sum :: fp
  batch_count :: u32

definition pending_default :: pending_batch where
  "pending_default = \<lparr>latency_sum = 0, frag_sum = Fin 0, batch_count = 0\<rparr>"

record pending_rewards =
  batches :: "(signature \<times> u8, pending_batch) btree"
  fine_batches :: "(signature \<times> u8 \<times> u8, pending_batch) btree"
  fine_deep_batches :: "(signature \<times> u8 \<times> u8, pending_batch) btree"
  hists :: "(signature \<times> u8, latency_hist) btree"

definition pending_new :: pending_rewards where
  "pending_new = \<lparr>batches = [], fine_batches = [], fine_deep_batches = [], hists = []\<rparr>"

datatype allocator_state = Training bandit_policy pending_rewards | Inference frozen_routing

definition new_training :: allocator_state where
  "new_training = Training bandit_new pending_new"

definition is_inference :: "allocator_state \<Rightarrow> bool" where
  "is_inference st = (case st of Inference _ \<Rightarrow> True | Training _ _ \<Rightarrow> False)"

text \<open>
  The accumulation of one sample, written three times in the code: the batch of a key takes the sample and
  is either stored, or full, and then removed and turned into the reward and weight of its update.
\<close>

definition batch_add :: "u64 \<Rightarrow> fp \<Rightarrow> pending_batch \<Rightarrow> pending_batch" where
  "batch_add latency_ns frag_pct b =
     b\<lparr>latency_sum := latency_sum b + latency_ns, frag_sum := f32_add (frag_sum b) frag_pct,
       batch_count := batch_count b + 1\<rparr>"

definition batch_reward :: "training_config \<Rightarrow> pending_batch \<Rightarrow> fp" where
  "batch_reward cfg b =
     shaped_reward (latency_sum b div ucast (batch_count b)) (f32_div (frag_sum b) (f32_of (batch_count b))) cfg"

definition accumulate ::
  "training_config \<Rightarrow> 'k::linorder \<Rightarrow> u64 \<Rightarrow> fp \<Rightarrow> ('k, pending_batch) btree \<Rightarrow>
   (fp \<times> u32) option \<times> ('k, pending_batch) btree"
where
  "accumulate cfg key latency_ns frag_pct m =
     (let b = batch_add latency_ns frag_pct (bt_entry key pending_default m)
      in if reward_batch cfg \<le> batch_count b then (Some (batch_reward cfg b, batch_count b), bt_remove key m)
         else (None, bt_insert key b m))"

text \<open>The fragmentation is computed only when it is weighed.\<close>

definition sample_frag :: "training_config \<Rightarrow> usize \<Rightarrow> backend \<Rightarrow> usize \<Rightarrow> fp" where
  "sample_frag cfg page b total_bytes =
     (if fp_lt (Fin 0) (frag_weight cfg) then frag_pct_for page b total_bytes else Fin 0)"

definition winsorize ::
  "training_config \<Rightarrow> signature \<times> u8 \<Rightarrow> u64 \<Rightarrow> pending_rewards \<Rightarrow> u64 \<times> pending_rewards" where
  "winsorize cfg arm latency_ns p =
     (case winsorize_latency (bt_entry arm latency_hist_default (hists p)) latency_ns
             (clamp_percentile cfg) (reward_batch cfg) of
        (lat, h) \<Rightarrow> (lat, p\<lparr>hists := bt_insert arm h (hists p)\<rparr>))"

section \<open>Routing and recording\<close>

definition route_with_frame ::
  "(fp \<Rightarrow> fp) \<Rightarrow> training_config \<Rightarrow> u64 \<Rightarrow> u64 \<Rightarrow> usize \<Rightarrow> u8 \<Rightarrow> allocator_state \<Rightarrow> backend \<times> allocator_state"
where
  "route_with_frame lnf cfg hash frame sz unservable_mask st =
     (case st of
        Training bandit pending \<Rightarrow>
          (case select_with_frame lnf (Signature hash (size_class_for sz)) frame cfg unservable_mask bandit of
             (b, bandit) \<Rightarrow> (b, Training bandit pending))
      | Inference routing \<Rightarrow>
          (case lookup (fr_main routing) (combine_hash_size_class hash (size_class_for sz)) of
             Some b \<Rightarrow> (b, st) | None \<Rightarrow> (default_backend_for_size sz, st)))"

definition route ::
  "(fp \<Rightarrow> fp) \<Rightarrow> training_config \<Rightarrow> u64 \<Rightarrow> usize \<Rightarrow> allocator_state \<Rightarrow> backend \<times> allocator_state" where
  "route lnf cfg hash sz st = route_with_frame lnf cfg hash 0 sz 0 st"

definition record_latency ::
  "training_config \<Rightarrow> usize \<Rightarrow> u64 \<Rightarrow> backend \<Rightarrow> u8 \<Rightarrow> u64 \<Rightarrow> usize \<Rightarrow> allocator_state \<Rightarrow> allocator_state"
where
  "record_latency cfg page hash b sc latency_ns total_bytes st =
     (case st of
        Inference _ \<Rightarrow> st
      | Training bandit pending \<Rightarrow>
          let sig = Signature hash sc; arm = (sig, backend_u8 b);
              (lat, pending) = winsorize cfg arm latency_ns pending;
              (full, m) = accumulate cfg arm lat (sample_frag cfg page b total_bytes) (batches pending)
          in Training (case full of Some (reward, n) \<Rightarrow> update_weighted cfg sig b reward n bandit | None \<Rightarrow> bandit)
               (pending\<lparr>batches := m\<rparr>))"

definition record_fine_latency ::
  "training_config \<Rightarrow> usize \<Rightarrow> u64 \<Rightarrow> backend \<Rightarrow> u8 \<Rightarrow> u8 \<Rightarrow> u64 \<Rightarrow> usize \<Rightarrow> allocator_state \<Rightarrow> allocator_state"
where
  "record_fine_latency cfg page hash b sc ctx latency_ns total_bytes st =
     (case st of
        Inference _ \<Rightarrow> st
      | Training bandit pending \<Rightarrow>
          let sig = Signature hash sc;
              (lat, pending) = winsorize cfg (sig, backend_u8 b) latency_ns pending;
              (full, m) = accumulate cfg (sig, backend_u8 b, ctx) lat (sample_frag cfg page b total_bytes) (fine_batches pending)
          in Training (case full of Some (reward, n) \<Rightarrow> update_fine sig ctx b reward n bandit | None \<Rightarrow> bandit)
               (pending\<lparr>fine_batches := m\<rparr>))"

text \<open>The deep record reads the histogram without recording the sample again.\<close>

definition peek_clamp :: "training_config \<Rightarrow> signature \<times> u8 \<Rightarrow> u64 \<Rightarrow> pending_rewards \<Rightarrow> u64" where
  "peek_clamp cfg arm latency_ns p =
     (if 0 < clamp_percentile cfg
      then (case bt_get arm (hists p) of
              Some h \<Rightarrow> if ucast (reward_batch cfg) \<le> hist_total h
                       then min latency_ns (hist_quantile h (clamp_percentile cfg)) else latency_ns
            | None \<Rightarrow> latency_ns)
      else latency_ns)"

definition record_fine_deep_latency ::
  "training_config \<Rightarrow> usize \<Rightarrow> u64 \<Rightarrow> backend \<Rightarrow> u8 \<Rightarrow> u8 \<Rightarrow> u64 \<Rightarrow> usize \<Rightarrow> allocator_state \<Rightarrow> allocator_state"
where
  "record_fine_deep_latency cfg page hash b sc deep_ctx latency_ns total_bytes st =
     (case st of
        Inference _ \<Rightarrow> st
      | Training bandit pending \<Rightarrow>
          if fp_le (escalate_variance cfg) (Fin 0) then st
          else
            let sig = Signature hash sc;
                lat = peek_clamp cfg (sig, backend_u8 b) latency_ns pending;
                (full, m) = accumulate cfg (sig, backend_u8 b, deep_ctx) lat (sample_frag cfg page b total_bytes)
                              (fine_deep_batches pending)
            in Training (case full of Some (reward, n) \<Rightarrow> update_fine_deep sig deep_ctx b reward n bandit | None \<Rightarrow> bandit)
                 (pending\<lparr>fine_deep_batches := m\<rparr>))"

definition engine_is_converged :: "(fp \<Rightarrow> fp) \<Rightarrow> training_config \<Rightarrow> allocator_state \<Rightarrow> bool" where
  "engine_is_converged lnf cfg st =
     (case st of Training bandit _ \<Rightarrow> bandit_is_converged lnf (converge_stable_n cfg) bandit | Inference _ \<Rightarrow> True)"

section \<open>Freezing\<close>

definition demote_for :: "bool \<Rightarrow> bool \<Rightarrow> bool \<Rightarrow> u8 \<Rightarrow> bool" where
  "demote_for demote_arena reclaim_lifts_large heavy sc \<longleftrightarrow> demote_arena \<and> heavy \<and> \<not> (reclaim_lifts_large \<and> 12 \<le> sc)"

text \<open>The heavy verdict of an entry, by its share of the pulls of its table, and the clamped table.\<close>

definition is_heavy :: "fp \<Rightarrow> (u64 \<times> u8 \<times> backend \<times> u32) list \<Rightarrow> u32 \<Rightarrow> bool" where
  "is_heavy fraction entries n =
     (let total_all = sum_list (map (\<lambda>(_, _, _, p). ucast p :: u64) entries)
      in 0 < total_all \<and> fp_le fraction (f64_div (f64_of n) (f64_of total_all)))"

definition clamp_entries ::
  "(bool \<Rightarrow> u8 \<Rightarrow> bool) \<Rightarrow> fp \<Rightarrow> (u64 \<times> u8 \<times> backend \<times> u32) list \<Rightarrow> (u64 \<times> u8 \<times> backend \<times> bool) list"
where
  "clamp_entries demote fraction entries =
     map (\<lambda>(key, sc, b, n). let heavy = is_heavy fraction entries n
            in (key, sc, clamp_backend_for_size_class sc b (demote heavy sc), heavy)) entries"

text \<open>The context entries that survive: clamped as their parent is, and not back to the parent's verdict.\<close>

definition clamp_fine ::
  "(bool \<Rightarrow> u8 \<Rightarrow> bool) \<Rightarrow> (u64, bool) btree \<Rightarrow> u64 \<times> u64 \<times> u8 \<times> backend \<Rightarrow> u64 \<times> u64 \<times> u8 \<times> backend" where
  "clamp_fine demote heavy_map e =
     (case e of (fine_key, coarse_key, sc, b) \<Rightarrow>
        let parent_heavy = (case bt_get coarse_key heavy_map of Some h \<Rightarrow> h | None \<Rightarrow> True)
        in (fine_key, coarse_key, sc, clamp_backend_for_size_class sc b (demote parent_heavy sc)))"

definition surviving ::
  "(bool \<Rightarrow> u8 \<Rightarrow> bool) \<Rightarrow> (u64, backend) btree \<Rightarrow> (u64, bool) btree \<Rightarrow> (u64 \<times> u64 \<times> u8 \<times> backend) list \<Rightarrow>
   (u64 \<times> u64 \<times> u8 \<times> backend) list"
where
  "surviving demote final_map heavy_map entries =
     filter (\<lambda>(_, coarse_key, _, b). bt_get coarse_key final_map \<noteq> Some b) (map (clamp_fine demote heavy_map) entries)"

definition parents :: "(u64 \<times> u64 \<times> u8 \<times> backend) list \<Rightarrow> u64 set" where
  "parents entries = (\<lambda>(_, coarse_key, _, _). coarse_key) ` set entries"

definition fine_quad :: "u64 \<times> u64 \<times> u8 \<times> backend \<Rightarrow> quad" where
  "fine_quad e = (case e of (fine_key, _, sc, b) \<Rightarrow> (fine_key, sc, b, 0))"

text \<open>
  The entries of the two tables: \<open>final_map\<close> and \<open>heavy_map\<close> are collected from the clamped
  entries, so a later entry of the same key wins.
\<close>

definition frozen_main ::
  "(bool \<Rightarrow> u8 \<Rightarrow> bool) \<Rightarrow> fp \<Rightarrow> bandit_policy \<Rightarrow> (u64 \<times> u8 \<times> backend \<times> bool) list" where
  "frozen_main demote fraction bandit = clamp_entries demote fraction (bandit_freeze bandit)"

definition final_map_of :: "(u64 \<times> u8 \<times> backend \<times> bool) list \<Rightarrow> (u64, backend) btree" where
  "final_map_of main_clamped = bt_collect (map (\<lambda>(key, _, b, _). (key, b)) main_clamped)"

definition heavy_map_of :: "(u64 \<times> u8 \<times> backend \<times> bool) list \<Rightarrow> (u64, bool) btree" where
  "heavy_map_of main_clamped = bt_collect (map (\<lambda>(key, _, _, heavy). (key, heavy)) main_clamped)"

definition main_quad :: "u64 set \<Rightarrow> u64 set \<Rightarrow> u64 \<times> u8 \<times> backend \<times> bool \<Rightarrow> quad" where
  "main_quad shallow_parents deep_parents e =
     (case e of (key, sc, b, _) \<Rightarrow>
        (key, sc, b, if key \<in> shallow_parents then FLAG_HAS_CONTEXT
                     else if key \<in> deep_parents then FLAG_DEEP_CONTEXT else 0))"

definition excluded_keys :: "bool \<Rightarrow> u64 set \<Rightarrow> (u64, u64 \<times> u8) btree \<Rightarrow> u64 set" where
  "excluded_keys legacy parents_left frames =
     (\<lambda>(_, frame, sc). combine_hash_size_class frame sc) `
       set (filter (\<lambda>(coarse_key, _). legacy \<or> coarse_key \<in> parents_left) frames)"

definition distilled_entries ::
  "(bool \<Rightarrow> u8 \<Rightarrow> bool) \<Rightarrow> fp \<Rightarrow> u64 set \<Rightarrow> bandit_policy \<Rightarrow> (u64 \<times> u8 \<times> backend) list" where
  "distilled_entries demote fraction excluded bandit =
     map (\<lambda>(key, sc, b, _). (key, sc, b))
       (filter (\<lambda>(key, _, _, _). key \<notin> excluded) (clamp_entries demote fraction (distill bandit)))"

definition freeze_tables ::
  "bool \<Rightarrow> bool \<Rightarrow> bool \<Rightarrow> fp \<Rightarrow> fp \<Rightarrow> bandit_policy \<Rightarrow> quad list \<times> (u64 \<times> u8 \<times> backend) list"
where
  "freeze_tables legacy demote_arena lifts fraction gate bandit =
     (let demote = demote_for demote_arena lifts;
          main_clamped = frozen_main demote fraction bandit;
          final_map = final_map_of main_clamped;
          heavy_map = heavy_map_of main_clamped;
          fine = freeze_fine final_map gate bandit;
          shallow = surviving demote final_map heavy_map (ff_entries fine);
          deep = surviving demote final_map heavy_map (ff_deep_entries fine);
          main_quads = map (main_quad (parents shallow) (parents deep)) main_clamped @ map fine_quad (shallow @ deep);
          excluded = excluded_keys legacy (parents shallow \<union> parents deep) (ff_flagged_frames fine)
      in (main_quads, distilled_entries demote fraction excluded bandit))"

definition engine_freeze ::
  "bool \<Rightarrow> bool \<Rightarrow> bool \<Rightarrow> fp \<Rightarrow> fp \<Rightarrow> allocator_state \<Rightarrow> allocator_state rust" where
  "engine_freeze legacy demote_arena lifts fraction gate st =
     (case st of
        Inference _ \<Rightarrow> Panic
      | Training bandit _ \<Rightarrow>
          (case freeze_tables legacy demote_arena lifts fraction gate bandit of (main_quads, distilled) \<Rightarrow>
             (case from_entries_flagged main_quads of
                Panic \<Rightarrow> Panic
              | Return main_table \<Rightarrow>
                  (case from_entries distilled of
                     Panic \<Rightarrow> Panic
                   | Return distilled_table \<Rightarrow> Return (Inference (frozen_routing_new main_table distilled_table))))))"

section \<open>The rest of the state machine\<close>

definition routing_snapshot :: "allocator_state \<Rightarrow> (u64 \<times> backend) list" where
  "routing_snapshot st = (case st of Training bandit _ \<Rightarrow> snapshot bandit | Inference _ \<Rightarrow> [])"

definition engine_fine_snapshot :: "allocator_state \<Rightarrow> (u64 \<times> u8 \<times> u8 \<times> u32 list \<times> fp list) list" where
  "engine_fine_snapshot st = (case st of Training bandit _ \<Rightarrow> fine_snapshot bandit | Inference _ \<Rightarrow> [])"

definition engine_variance_snapshot :: "allocator_state \<Rightarrow> (u64 \<times> u8 \<times> u32 \<times> backend \<times> fp) list" where
  "engine_variance_snapshot st = (case st of Training bandit _ \<Rightarrow> variance_snapshot bandit | Inference _ \<Rightarrow> [])"

definition signature_count :: "allocator_state \<Rightarrow> nat" where
  "signature_count st = (case st of Training bandit _ \<Rightarrow> bandit_len bandit | Inference _ \<Rightarrow> 0)"

definition engine_reset_to_training :: "allocator_state \<Rightarrow> allocator_state" where
  "engine_reset_to_training st = new_training"

definition routing_of :: "allocator_state \<Rightarrow> frozen_routing option" where
  "routing_of st = (case st of Inference routing \<Rightarrow> Some routing | Training _ _ \<Rightarrow> None)"

definition routing_table :: "allocator_state \<Rightarrow> perfect_hash_table option" where
  "routing_table st = map_option fr_main (routing_of st)"

definition distilled_table :: "allocator_state \<Rightarrow> perfect_hash_table option" where
  "distilled_table st = map_option fr_distilled (routing_of st)"

definition export_model :: "allocator_state \<Rightarrow> u8 list option" where
  "export_model st = (case st of Inference routing \<Rightarrow> Some (serialize routing) | Training _ _ \<Rightarrow> None)"

definition load_state :: "u8 list \<Rightarrow> allocator_state option rust" where
  "load_state data =
     (case deserialize data of
        Panic \<Rightarrow> Panic | Return None \<Rightarrow> Return None | Return (Some routing) \<Rightarrow> Return (Some (Inference routing)))"

end
