(* ===== verification/EngineReward.thy ===== *)
theory EngineReward
  imports Engine
begin

text \<open>
  The rewards and the selection of the decision engine: a reward falls with the latency and lies
  in the unit interval, the bandit picks the first arm of the best score among those that can serve.
\<close>

section \<open>Rewards\<close>

lemma is_doubleE:
  assumes "is_double x" obtains r where "x = Fin r" "f64_round r = Fin r"
  using assms by (cases x) (auto simp: is_double_def)

text \<open>The latency term of the reward.\<close>

definition latency_term :: "fp \<Rightarrow> u64 \<Rightarrow> fp" where
  "latency_term t latency_ns = f64_div t (f64_add t (f64_of latency_ns))"

lemma latency_sum_ge:
  assumes t: "f64_round t = Fin t" "0 < t"
  shows "fp_le (Fin t) (f64_add (Fin t) (f64_of l))"
proof -
  have "fp_le (f64_add (Fin t) (Fin 0)) (f64_add (Fin t) (f64_of l))"
    by (intro f64_add_mono f64_of_nonneg)
  then show ?thesis using t by (simp add: f64_add_def)
qed

lemma latency_term_unit:
  assumes "f64_round t = Fin t" "0 < t"
  shows "\<exists>y. latency_term (Fin t) l = Fin y \<and> 0 \<le> y \<and> y \<le> 1 \<and> f64_round y = Fin y"
proof -
  have g: "fp_le (Fin t) (f64_add (Fin t) (f64_of l))" by (rule latency_sum_ge [OF assms])
  show ?thesis
  proof (cases "f64_add (Fin t) (f64_of l)")
    case (Fin s)
    then have s: "t \<le> s" using g by simp
    then have "0 \<le> t / s" "t / s \<le> 1" using assms(2) by simp_all
    then obtain y where y: "f64_round (t / s) = Fin y" "0 \<le> y" "y \<le> 1" using f64_round_unit by blast
    then show ?thesis using Fin s assms(2) f64_round_idem [OF y(1)] by (simp add: latency_term_def f64_div_def)
  next
    case PosInf
    then show ?thesis by (simp add: latency_term_def f64_div_def)
  qed (use g in \<open>simp_all add: fp_le_def\<close>)
qed

lemma latency_term_antimono:
  assumes "f64_round t = Fin t" "0 < t" and "l \<le> l'"
  shows "fp_le (latency_term (Fin t) l') (latency_term (Fin t) l)"
  unfolding latency_term_def
  using assms by (intro f64_div_antimono [where s = t] latency_sum_ge f64_add_mono f64_of_mono) simp_all

lemma reward_eq:
  "shaped_reward l frag cfg = f64_add (latency_term (t_ref_ns cfg) l) (fp_neg (f64_div (f64_mul (frag_weight cfg) frag) (Fin 100)))"
  by (simp add: shaped_reward_def latency_term_def f64_sub_def f64_add_def f64_from_def)

lemma frag_term_not_NaN:
  assumes "is_finite a" "is_finite b" shows "fp_neg (f64_div (f64_mul a b) (Fin 100)) \<noteq> NaN"
proof -
  obtain x y where "a = Fin x" "b = Fin y" using assms by (cases a; cases b) (auto simp: is_finite_def)
  then have "f64_mul a b \<noteq> NaN" by (simp add: f64_mul_def)
  then have "f64_div (f64_mul a b) (Fin 100) \<noteq> NaN" by (cases "f64_mul a b") (simp_all add: f64_div_def)
  then show ?thesis by (cases "f64_div (f64_mul a b) (Fin 100)") simp_all
qed

lemma reward_without_frag:
  assumes "frag_weight cfg = Fin 0" "is_finite frag"
  shows "shaped_reward l frag cfg = f64_add (latency_term (t_ref_ns cfg) l) (Fin 0)"
  using assms by (cases frag) (auto simp: reward_eq f64_mul_def f64_div_def is_finite_def)

text \<open>
  C36: With a usable configuration, a reference latency above 0 (the parser accepts others as well) and a finite
  fragmentation, the reward never rises with the latency, in
  double precision as computed, whatever the weight of the fragmentation; and without that weight it is a
  number between 0 and 1.
\<close>
theorem reward_falls_with_latency:
  assumes "config_ok cfg" and "fp_lt (Fin 0) (t_ref_ns cfg)" and "is_finite frag" and "l \<le> l'"
  shows "fp_le (shaped_reward l' frag cfg) (shaped_reward l frag cfg)
    \<and> (frag_weight cfg = Fin 0 \<longrightarrow> (\<exists>y. shaped_reward l frag cfg = Fin y \<and> 0 \<le> y \<and> y \<le> 1))"
proof -
  obtain t where t: "t_ref_ns cfg = Fin t" "f64_round t = Fin t" "0 < t"
    using assms(1,2) is_doubleE by (metis config_ok_def fp_lt.simps(1))
  obtain y where y: "latency_term (Fin t) l = Fin y" "0 \<le> y" "y \<le> 1" "f64_round y = Fin y"
    using latency_term_unit [OF t(2,3)] by blast
  obtain y' where y': "latency_term (Fin t) l' = Fin y'" using latency_term_unit [OF t(2,3)] by blast
  have w: "is_finite (frag_weight cfg)" using assms(1) is_doubleE by (metis config_ok_def is_finite_Fin)
  have "y' \<le> y" using latency_term_antimono [OF t(2,3) assms(4)] by (simp add: y y')
  then have "fp_le (shaped_reward l' frag cfg) (shaped_reward l frag cfg)"
    unfolding reward_eq t(1) y y' by (intro f64_add_mono_left frag_term_not_NaN w assms(3))
  moreover have "shaped_reward l frag cfg = Fin y" if "frag_weight cfg = Fin 0"
    using reward_without_frag [OF that assms(3)] by (simp add: t(1) y f64_add_def)
  ultimately show ?thesis using y by blast
qed

lemma reward_falls_with_latency_witness:
  "fp_le (shaped_reward 400 (Fin 0) defaults_const) (shaped_reward 25 (Fin 0) defaults_const)
    \<and> (\<exists>y. shaped_reward 25 (Fin 0) defaults_const = Fin y \<and> 0 \<le> y \<and> y \<le> 1)"
proof -
  have "fp_lt (Fin 0) (t_ref_ns defaults_const)" "frag_weight defaults_const = Fin 0" by (simp_all add: defaults_const_def)
  then show ?thesis
    using reward_falls_with_latency [OF config_ok_defaults, of "Fin 0" 25 400] by simp
qed

section \<open>Selection\<close>

lemma backend_index_inverse [simp]: "backend_from_index (backend_index b) = b"
  by (cases b) (simp_all add: backend_index_def backend_from_index_def)

lemma index_backend_inverse [simp]: "i < 4 \<Longrightarrow> backend_index (backend_from_index i) = i"
proof -
  assume "i < 4"
  then have "i \<in> {0, 1, 2, 3}" by auto
  then show ?thesis by (auto simp: backend_index_def backend_from_index_def)
qed

lemma backend_index_less [simp]: "backend_index b < 4"
  by (cases b) (simp_all add: backend_index_def)

text \<open>
  What the scan over the arms returns, without any assumption on the scores: the best so far when none
  beats it, and else the first arm that no other one beats.
\<close>

definition scan_result ::
  "(nat \<Rightarrow> arm_stats \<Rightarrow> fp) \<Rightarrow> u8 \<Rightarrow> nat \<Rightarrow> arm_stats list \<Rightarrow> backend \<times> fp \<Rightarrow> backend \<times> fp \<Rightarrow> bool" where
  "scan_result score msk i as best r \<longleftrightarrow>
     (r = best \<and> (\<forall>j < length as. masked msk (i + j) \<or> \<not> fp_lt (snd best) (score (i + j) (as ! j)))) \<or>
     (\<exists>k < length as. \<not> masked msk (i + k) \<and> r = (backend_from_index (i + k), score (i + k) (as ! k)) \<and> fp_lt (snd best) (snd r)
        \<and> (\<forall>j < length as. masked msk (i + j) \<or> \<not> fp_lt (snd r) (score (i + j) (as ! j)))
        \<and> (\<forall>j < k. masked msk (i + j) \<or> \<not> fp_le (snd r) (score (i + j) (as ! j))))"

lemma fp_lt_not_NaN: "fp_lt a b \<Longrightarrow> a \<noteq> NaN \<and> b \<noteq> NaN"
  by auto

lemma fp_lt_le: "fp_lt a b \<Longrightarrow> fp_le b c \<Longrightarrow> fp_lt a c"
  by (auto simp: fp_le_def intro: fp_lt_trans)

lemma fp_lt_not_le: "fp_lt a b \<Longrightarrow> \<not> fp_le b a"
  using fp_lt_le fp_lt_irrefl by blast

lemma all_less_Suc_length: "(\<forall>j < length (a # as). P j) \<longleftrightarrow> P 0 \<and> (\<forall>j < length as. P (Suc j))"
  by (auto simp: less_Suc_eq_0_disj)

lemma ex_less_Suc_length: "(\<exists>j < length (a # as). P j) \<longleftrightarrow> P 0 \<or> (\<exists>j < length as. P (Suc j))"
  by (auto simp: less_Suc_eq_0_disj)

lemma select_scan_result: "scan_result score msk i as best (select_scan score msk i as best)"
proof (induction as arbitrary: i best)
  case Nil
  then show ?case by (simp add: scan_result_def)
next
  case (Cons a as)
  have all0: "(\<forall>j < Suc k. P j) \<longleftrightarrow> P 0 \<and> (\<forall>j < k. P (Suc j))" for k and P :: "nat \<Rightarrow> bool"
    by (auto simp: less_Suc_eq_0_disj)
  show ?case
  proof (cases "masked msk i \<or> \<not> fp_lt (snd best) (score i a)")
    case True
    then have step: "select_scan score msk i (a # as) best = select_scan score msk (Suc i) as best"
      by (auto simp: Let_def)
    have skip: "masked msk i \<or> \<not> fp_lt b (score i a) \<and> \<not> fp_le b (score i a)" if "fp_lt (snd best) b" for b
      using True that fp_lt_trans fp_lt_le by blast
    show ?thesis
      using Cons.IH [of "Suc i" best] True skip
      unfolding scan_result_def step all_less_Suc_length ex_less_Suc_length all0
      by (simp only: nth_Cons_0 nth_Cons_Suc add_0_right add_Suc add_Suc_right) blast
  next
    case False
    define best' where "best' = (backend_from_index i, score i a)"
    have step: "select_scan score msk i (a # as) best = select_scan score msk (Suc i) as best'"
      using False by (simp add: Let_def best'_def)
    have lt: "fp_lt (snd best) (snd best')" using False by (simp add: best'_def)
    note IH = Cons.IH [of "Suc i" best']
    let ?r = "select_scan score msk (Suc i) as best'"
    have first: "scan_result score msk i (a # as) best best'"
      if "\<forall>j < length as. masked msk (Suc i + j) \<or> \<not> fp_lt (snd best') (score (Suc i + j) (as ! j))"
    proof -
      have "\<not> fp_lt (snd best') (score i a)" by (simp add: best'_def)
      then show ?thesis
        using that False lt
        unfolding scan_result_def all_less_Suc_length ex_less_Suc_length all0
        by (simp only: nth_Cons_0 nth_Cons_Suc add_0_right add_Suc add_Suc_right best'_def snd_conv) blast
    qed
    have later: "scan_result score msk i (a # as) best ?r"
      if k: "k < length as" "\<not> masked msk (Suc i + k)" "?r = (backend_from_index (Suc i + k), score (Suc i + k) (as ! k))"
        "fp_lt (snd best') (snd ?r)"
        "\<forall>j < length as. masked msk (Suc i + j) \<or> \<not> fp_lt (snd ?r) (score (Suc i + j) (as ! j))"
        "\<forall>j < k. masked msk (Suc i + j) \<or> \<not> fp_le (snd ?r) (score (Suc i + j) (as ! j))" for k
    proof -
      have "\<not> fp_le (snd ?r) (score i a)" "\<not> fp_lt (snd ?r) (score i a)" "fp_lt (snd best) (snd ?r)"
        using k(4) fp_lt_not_le [of "snd best'"] fp_lt_trans [OF lt k(4)] by (auto simp: best'_def fp_le_def)
      then show ?thesis
        using k unfolding scan_result_def all_less_Suc_length ex_less_Suc_length all0
        by (simp only: nth_Cons_0 nth_Cons_Suc add_0_right add_Suc add_Suc_right) blast
    qed
    show ?thesis
      unfolding step using IH [unfolded scan_result_def] first later by metis
  qed
qed

text \<open>The entry that a selection works on, and the scores of its arms.\<close>

definition entry_for :: "training_config \<Rightarrow> signature \<Rightarrow> u64 \<Rightarrow> bandit_policy \<Rightarrow> signature_stats" where
  "entry_for cfg sig frame bp =
     (let e = bt_entry sig (signature_stats_new (baseline_rewards cfg)) (bp_stats bp)
      in if frame \<noteq> 0 then e\<lparr>one_frame := frame\<rparr> else e)"

definition score_of :: "(fp \<Rightarrow> fp) \<Rightarrow> training_config \<Rightarrow> signature_stats \<Rightarrow> nat \<Rightarrow> fp" where
  "score_of lnf cfg e j = arm_score lnf cfg (f64_of (total_pulls e)) (last_choice e) j (arms e ! j)"

definition fine_ok :: "(signature \<times> u8, fine_stats) btree \<Rightarrow> bool" where
  "fine_ok m \<longleftrightarrow> bt_ok m \<and> (\<forall>(k, f) \<in> set m. length (fine_sum f) = 4 \<and> length (fine_pulls f) = 4)"

definition bandit_ok :: "bandit_policy \<Rightarrow> bool" where
  "bandit_ok bp \<longleftrightarrow> bt_ok (bp_stats bp) \<and> fine_ok (bp_fine bp) \<and> fine_ok (bp_fine_deep bp)
     \<and> (\<forall>(sig, e) \<in> set (bp_stats bp). length (arms e) = 4 \<and> total_pulls e = sum_list (map pulls (arms e)))"

lemma bt_entry_cases:
  obtains "bt_entry k d m = d" "bt_get k m = None" | "(k, bt_entry k d m) \<in> set m" "bt_get k m = Some (bt_entry k d m)"
  by (cases "bt_get k m") (auto simp: bt_entry_def bt_get_def dest: map_of_SomeD)

lemma stats_new_ok: "length (arms (signature_stats_new bl)) = 4"
    "total_pulls (signature_stats_new bl) = sum_list (map pulls (arms (signature_stats_new bl)))"
  by (simp_all add: signature_stats_new_def arm_new_def)

lemma entry_for_ok:
  assumes "bandit_ok bp"
  shows "length (arms (entry_for cfg sig frame bp)) = 4
    \<and> total_pulls (entry_for cfg sig frame bp) = sum_list (map pulls (arms (entry_for cfg sig frame bp)))"
  using assms by (cases rule: bt_entry_cases [of sig "signature_stats_new (baseline_rewards cfg)" "bp_stats bp"])
    (auto simp: entry_for_def Let_def bandit_ok_def stats_new_ok)

lemma select_eq:
  "select_with_frame lnf sig frame cfg msk bp =
     (let e = entry_for cfg sig frame bp; b = best_of lnf cfg msk e
      in (b, bp\<lparr>bp_stats := bt_insert sig (count_pull b e) (bp_stats bp)\<rparr>))"
  by (simp add: select_with_frame_def entry_for_def Let_def)

lemma best_of_scan:
  "best_of lnf cfg msk e =
     fst (select_scan (arm_score lnf cfg (f64_of (total_pulls e)) (last_choice e)) msk 0 (arms e) (Slab, f64_MIN))"
  by (simp add: best_of_def Let_def)

lemma best_of_spec:
  fixes lnf :: "fp \<Rightarrow> fp" and cfg :: training_config and msk :: u8
  assumes e: "length (arms e) = 4" and slab: "\<not> masked msk 0"
  defines "i \<equiv> backend_index (best_of lnf cfg msk e)"
  shows "\<not> masked msk i"
    and "\<exists>k < 4. \<not> masked msk k \<and> fp_lt f64_MIN (score_of lnf cfg e k) \<Longrightarrow>
      (\<forall>j < 4. \<not> masked msk j \<longrightarrow> \<not> fp_lt (score_of lnf cfg e i) (score_of lnf cfg e j))
      \<and> (\<forall>j < i. \<not> masked msk j \<longrightarrow> \<not> fp_le (score_of lnf cfg e i) (score_of lnf cfg e j))"
proof -
  let ?sc = "arm_score lnf cfg (f64_of (total_pulls e)) (last_choice e)"
  let ?r = "select_scan ?sc msk 0 (arms e) (Slab, f64_MIN)"
  have R: "scan_result ?sc msk 0 (arms e) (Slab, f64_MIN) ?r" by (rule select_scan_result)
  then consider
    (same) "?r = (Slab, f64_MIN)" "\<forall>j < 4. masked msk j \<or> \<not> fp_lt f64_MIN (score_of lnf cfg e j)"
  | (arm) k where "k < 4" "\<not> masked msk k" "?r = (backend_from_index k, score_of lnf cfg e k)"
      "\<forall>j < 4. masked msk j \<or> \<not> fp_lt (snd ?r) (score_of lnf cfg e j)"
      "\<forall>j < k. masked msk j \<or> \<not> fp_le (snd ?r) (score_of lnf cfg e j)"
    unfolding scan_result_def e add_0 score_of_def snd_conv by blast
  note C = this
  have i: "i = backend_index (fst ?r)" by (simp add: i_def best_of_scan)
  show "\<not> masked msk i"
    using C
  proof cases
    case same
    then show ?thesis using slab by (simp add: i backend_index_def)
  next
    case (arm k)
    then show ?thesis by (simp add: i)
  qed
  assume ex: "\<exists>k < 4. \<not> masked msk k \<and> fp_lt f64_MIN (score_of lnf cfg e k)"
  from C show "(\<forall>j < 4. \<not> masked msk j \<longrightarrow> \<not> fp_lt (score_of lnf cfg e i) (score_of lnf cfg e j))
      \<and> (\<forall>j < i. \<not> masked msk j \<longrightarrow> \<not> fp_le (score_of lnf cfg e i) (score_of lnf cfg e j))"
  proof cases
    case same
    then show ?thesis using ex by blast
  next
    case (arm k)
    then have "i = k" by (simp add: i)
    then show ?thesis using arm by auto
  qed
qed

text \<open>
  C35: The bandit never picks an arm that the instance cannot serve, whatever the scores are (NaN
  included), and when some arm that can serve has a score it picks the first of those that no other one
  beats. Exactly that pull is counted, and it becomes the last choice.
\<close>
theorem select_first_best:
  fixes lnf :: "fp \<Rightarrow> fp" and cfg :: training_config and msk :: u8 and sig :: signature and frame :: u64
  assumes "bandit_ok bp" and "\<not> masked msk 0"
  defines "e \<equiv> entry_for cfg sig frame bp"
  defines "b \<equiv> fst (select_with_frame lnf sig frame cfg msk bp)"
  shows "\<not> masked msk (backend_index b)
    \<and> ((\<exists>k < 4. \<not> masked msk k \<and> fp_lt f64_MIN (score_of lnf cfg e k)) \<longrightarrow>
       (\<forall>j < 4. \<not> masked msk j \<longrightarrow> \<not> fp_lt (score_of lnf cfg e (backend_index b)) (score_of lnf cfg e j))
       \<and> (\<forall>j < backend_index b. \<not> masked msk j \<longrightarrow> \<not> fp_le (score_of lnf cfg e (backend_index b)) (score_of lnf cfg e j)))
    \<and> bt_get sig (bp_stats (snd (select_with_frame lnf sig frame cfg msk bp))) = Some (count_pull b e)"
proof -
  have e: "length (arms e) = 4" using entry_for_ok [OF assms(1)] by (simp add: e_def)
  have b: "b = best_of lnf cfg msk e" by (simp add: b_def e_def select_eq Let_def)
  have "bt_get sig (bp_stats (snd (select_with_frame lnf sig frame cfg msk bp))) = Some (count_pull b e)"
    using assms(1) by (simp add: select_eq Let_def b e_def bt_get_insert bandit_ok_def)
  then show ?thesis using best_of_spec [OF e assms(2)] unfolding b by blast
qed

lemma bandit_ok_new: "bandit_ok bandit_new"
  by (simp add: bandit_ok_def fine_ok_def bandit_new_def)

lemma f64_MIN_less: "0 \<le> x \<Longrightarrow> fp_lt f64_MIN (Fin x)"
proof -
  assume "0 \<le> x"
  moreover have "(2::rat) ^ 971 < 2 ^ 1024" by (rule power_strict_increasing) simp_all
  ultimately show ?thesis unfolding f64_MIN_def fp_lt.simps by linarith
qed

lemma fresh_score:
  "score_of (\<lambda>_. Fin 1) defaults_const (entry_for defaults_const (Signature 7 3) 0 bandit_new) 0 = Fin 3"
proof -
  have "f64_sqrt (Fin 1) = Fin 1" by code_simp
  then show ?thesis
    using f64_round_int [of 2] f64_round_int [of 3]
    by (simp add: score_of_def arm_score_def entry_for_def bandit_new_def bt_entry_def bt_get_def signature_stats_new_def
        arm_new_def defaults_const_def mean_reward_def f64_of_def f64_div_def f64_mul_def f64_add_def)
qed

lemma select_first_best_witness:
  "let e = entry_for defaults_const (Signature 7 3) 0 bandit_new;
       b = fst (select_with_frame (\<lambda>_. Fin 1) (Signature 7 3) 0 defaults_const 2 bandit_new)
   in \<not> masked 2 (backend_index b)
     \<and> (\<forall>j < 4. \<not> masked 2 j \<longrightarrow>
          \<not> fp_lt (score_of (\<lambda>_. Fin 1) defaults_const e (backend_index b)) (score_of (\<lambda>_. Fin 1) defaults_const e j))"
proof -
  let ?e = "entry_for defaults_const (Signature 7 3) 0 bandit_new"
  have slab: "\<not> masked 2 0" by (simp add: masked_def)
  have "fp_lt f64_MIN (score_of (\<lambda>_. Fin 1) defaults_const ?e 0)" by (simp add: fresh_score f64_MIN_less)
  then have "\<exists>k < 4. \<not> masked 2 k \<and> fp_lt f64_MIN (score_of (\<lambda>_. Fin 1) defaults_const ?e k)"
    using slab by (intro exI [of _ 0]) simp
  then show ?thesis
    unfolding Let_def
    using select_first_best [where lnf = "\<lambda>_. Fin 1" and cfg = defaults_const and sig = "Signature 7 3" and frame = 0,
        OF bandit_ok_new slab] by blast
qed

end
