(* ===== verification/EngineRun.thy ===== *)
theory EngineRun
  imports EngineReward
begin

text \<open>
  Runs of the decision engine: its bookkeeping is consistent in every state that it reaches, and in training
  every full batch of samples reaches the bandit.
\<close>

section \<open>The operations keep the bookkeeping of the bandit\<close>

lemma sum_list_update_word:
  fixes xs :: "'a::len word list"
  assumes "i < length xs" shows "sum_list (xs[i := x]) = sum_list xs - xs ! i + x"
  using assms by (induction xs arbitrary: i) (auto simp: nth_Cons' split: nat.split)

lemma count_pull_ok:
  assumes "length (arms e) = 4" "total_pulls e = sum_list (map pulls (arms e))"
  shows "length (arms (count_pull b e)) = 4 \<and> total_pulls (count_pull b e) = sum_list (map pulls (arms (count_pull b e)))"
  using assms by (simp add: count_pull_def Let_def map_update sum_list_update_word)

lemma bt_all_insert:
  "bt_ok m \<Longrightarrow> (\<And>j w. (j, w) \<in> set m \<Longrightarrow> P j w) \<Longrightarrow> P k v \<Longrightarrow> (j, w) \<in> set (bt_insert k v m) \<Longrightarrow> P j w"
  by (auto simp: bt_insert_set)

lemma bandit_ok_stats:
  assumes "bandit_ok bp" "length (arms e) = 4" "total_pulls e = sum_list (map pulls (arms e))"
  shows "bandit_ok (bp\<lparr>bp_stats := bt_insert sig e (bp_stats bp)\<rparr>)"
  using assms by (auto simp: bandit_ok_def bt_insert_set)

lemma select_ok: "bandit_ok bp \<Longrightarrow> bandit_ok (snd (select_with_frame lnf sig frame cfg msk bp))"
  using entry_for_ok [of bp cfg sig frame]
  by (simp add: select_eq Let_def bandit_ok_stats count_pull_ok)

lemma observe_pulls [simp]: "pulls (observe r a) = pulls a" "obs (observe r a) = obs a + 1"
  by (simp_all add: observe_def Let_def)

lemma update_weighted_eq:
  "update_weighted cfg sig b reward n bp =
     (let e = entry_for cfg sig 0 bp; i = backend_index b; a = arms e ! i;
          a' = observe reward (a\<lparr>sum_reward := f64_add (sum_reward a) (f64_mul reward (f64_of n))\<rparr>)
      in bp\<lparr>bp_stats := bt_insert sig (e\<lparr>arms := (arms e)[i := a']\<rparr>) (bp_stats bp)\<rparr>)"
  by (simp add: update_weighted_def bt_upd_def entry_for_def Let_def)

lemma update_weighted_ok: "bandit_ok bp \<Longrightarrow> bandit_ok (update_weighted cfg sig b reward n bp)"
  using entry_for_ok [of bp cfg sig 0] unfolding update_weighted_eq Let_def
  by (intro bandit_ok_stats) (auto simp: map_update sum_list_update_word)

lemma fine_add_length:
  "length (fine_sum f) = 4 \<Longrightarrow> length (fine_pulls f) = 4 \<Longrightarrow>
   length (fine_sum (fine_add b r n f)) = 4 \<and> length (fine_pulls (fine_add b r n f)) = 4"
  by (simp add: fine_add_def Let_def)

lemma fine_default_length: "length (fine_sum fine_default) = 4" "length (fine_pulls fine_default) = 4"
  by (simp_all add: fine_default_def)

lemma fine_ok_upd:
  assumes "fine_ok m" shows "fine_ok (bt_upd k fine_default (fine_add b r n) m)"
proof -
  have "length (fine_sum (bt_entry k fine_default m)) = 4 \<and> length (fine_pulls (bt_entry k fine_default m)) = 4"
    using assms by (cases rule: bt_entry_cases [of k fine_default m]) (auto simp: fine_default_length fine_ok_def)
  then show ?thesis using assms fine_add_length by (auto simp: fine_ok_def bt_upd_def bt_insert_set)
qed

lemma update_fine_ok: "bandit_ok bp \<Longrightarrow> bandit_ok (update_fine sig ctx b reward n bp)"
  by (simp add: bandit_ok_def update_fine_def fine_ok_upd)

lemma update_fine_deep_ok: "bandit_ok bp \<Longrightarrow> bandit_ok (update_fine_deep sig ctx b reward n bp)"
  by (simp add: bandit_ok_def update_fine_deep_def fine_ok_upd)

section \<open>Pending batches\<close>

definition batches_ok :: "('k::linorder, pending_batch) btree \<Rightarrow> bool" where
  "batches_ok m \<longleftrightarrow> bt_ok m \<and> (\<forall>(k, b) \<in> set m. batch_count b \<noteq> 0 \<and> batch_count b \<noteq> - 1)"

definition pending_ok :: "pending_rewards \<Rightarrow> bool" where
  "pending_ok p \<longleftrightarrow> batches_ok (batches p) \<and> batches_ok (fine_batches p) \<and> batches_ok (fine_deep_batches p) \<and> bt_ok (hists p)"

lemma batch_entry_count: "batches_ok m \<Longrightarrow> batch_count (bt_entry k pending_default m) \<noteq> - 1"
  by (cases rule: bt_entry_cases [of k pending_default m]) (auto simp: pending_default_def batches_ok_def)

lemma word_succ_nonzero: "(x :: 'a::len word) \<noteq> - 1 \<Longrightarrow> x + 1 \<noteq> 0"
  by (metis add.commute add_eq_0_iff)

lemma less_max_not_max: "(x :: 'a::len word) < y \<Longrightarrow> x \<noteq> - 1"
  using word_n1_ge [of y] by auto

lemma batches_ok_remove: "batches_ok m \<Longrightarrow> batches_ok (bt_remove k m)"
  by (auto simp: batches_ok_def bt_remove_def bt_ok_remove [unfolded bt_remove_def])

lemma accumulate_ok:
  assumes "batches_ok m" and "accumulate cfg k lat frag m = (full, m')"
  shows "batches_ok m'" "full = Some (r, n) \<Longrightarrow> n \<noteq> 0"
proof -
  let ?b = "batch_add lat frag (bt_entry k pending_default m)"
  have c: "batch_count ?b \<noteq> 0"
    using batch_entry_count [OF assms(1), of k] by (simp add: batch_add_def word_succ_nonzero)
  show "batches_ok m'"
  proof (cases "reward_batch cfg \<le> batch_count ?b")
    case True
    then show ?thesis using assms batches_ok_remove by (auto simp: accumulate_def Let_def)
  next
    case False
    then have "batch_count ?b \<noteq> - 1" by (intro less_max_not_max [of _ "reward_batch cfg"]) simp
    then show ?thesis using assms c False by (auto simp: accumulate_def Let_def batches_ok_def bt_insert_set)
  qed
  show "full = Some (r, n) \<Longrightarrow> n \<noteq> 0" using assms(2) c by (auto simp: accumulate_def Let_def split: if_splits)
qed

lemma winsorize_frame:
  "winsorize cfg arm l p = (lat, p') \<Longrightarrow>
   batches p' = batches p \<and> fine_batches p' = fine_batches p \<and> fine_deep_batches p' = fine_deep_batches p
   \<and> (bt_ok (hists p) \<longrightarrow> bt_ok (hists p'))"
  by (auto simp: winsorize_def split: prod.splits)

section \<open>The reachable states\<close>

text \<open>The configuration may be replaced between any two operations; a loaded model may be any file.\<close>

inductive engine_step :: "(fp \<Rightarrow> fp) \<Rightarrow> usize \<Rightarrow> allocator_state \<Rightarrow> allocator_state \<Rightarrow> bool" for lnf page where
  step_route: "engine_step lnf page st (snd (route_with_frame lnf cfg hash frame sz msk st))"
| step_record: "engine_step lnf page st (record_latency cfg page hash b sc lat n st)"
| step_fine: "engine_step lnf page st (record_fine_latency cfg page hash b sc ctx lat n st)"
| step_deep: "engine_step lnf page st (record_fine_deep_latency cfg page hash b sc ctx lat n st)"
| step_freeze: "engine_freeze legacy demote lifts fraction gate st = Return st' \<Longrightarrow> engine_step lnf page st st'"
| step_reset: "engine_step lnf page st (engine_reset_to_training st)"
| step_load: "load_state data = Return (Some st') \<Longrightarrow> engine_step lnf page st st'"

inductive engine_reach :: "(fp \<Rightarrow> fp) \<Rightarrow> usize \<Rightarrow> allocator_state \<Rightarrow> bool" for lnf page where
  reach_new: "engine_reach lnf page new_training"
| reach_step: "engine_reach lnf page st \<Longrightarrow> engine_step lnf page st st' \<Longrightarrow> engine_reach lnf page st'"

definition engine_inv :: "allocator_state \<Rightarrow> bool" where
  "engine_inv st = (case st of Training bp p \<Rightarrow> bandit_ok bp \<and> pending_ok p | Inference _ \<Rightarrow> True)"

lemma engine_inv_new: "engine_inv new_training"
  by (simp add: engine_inv_def new_training_def bandit_ok_new pending_new_def pending_ok_def batches_ok_def)

lemma record_ok:
  assumes "bandit_ok bp" "pending_ok p"
  shows "engine_inv (record_latency cfg page hash b sc lat n (Training bp p))"
    and "engine_inv (record_fine_latency cfg page hash b sc ctx lat n (Training bp p))"
    and "engine_inv (record_fine_deep_latency cfg page hash b sc ctx lat n (Training bp p))"
proof -
  note P = assms(2) [unfolded pending_ok_def]
  note U = update_weighted_ok [OF assms(1)] update_fine_ok [OF assms(1)] update_fine_deep_ok [OF assms(1)]
  show "engine_inv (record_latency cfg page hash b sc lat n (Training bp p))"
    using P assms(1) U
    by (auto simp: record_latency_def Let_def engine_inv_def pending_ok_def split: prod.split option.split
        dest!: winsorize_frame intro: accumulate_ok(1))
  show "engine_inv (record_fine_latency cfg page hash b sc ctx lat n (Training bp p))"
    using P assms(1) U
    by (auto simp: record_fine_latency_def Let_def engine_inv_def pending_ok_def split: prod.split option.split
        dest!: winsorize_frame intro: accumulate_ok(1))
  show "engine_inv (record_fine_deep_latency cfg page hash b sc ctx lat n (Training bp p))"
    using P assms U
    by (auto simp: record_fine_deep_latency_def Let_def engine_inv_def pending_ok_def split: prod.split option.split
        intro: accumulate_ok(1))
qed

lemma engine_step_inv: "engine_step lnf page st st' \<Longrightarrow> engine_inv st \<Longrightarrow> engine_inv st'"
proof (induction rule: engine_step.induct)
  case (step_route st cfg hash frame sz msk)
  show ?case
  proof (cases st)
    case (Training bp p)
    then show ?thesis using step_route select_ok [of bp lnf "Signature hash (size_class_for sz)" frame cfg msk]
      by (simp add: route_with_frame_def engine_inv_def case_prod_beta)
  next
    case (Inference fr)
    then show ?thesis by (simp add: route_with_frame_def engine_inv_def split: option.split)
  qed
next
  case (step_record st cfg hash b sc lat n)
  then show ?case by (cases st) (auto simp: engine_inv_def [of "Training _ _"] record_ok record_latency_def [of _ _ _ _ _ _ _ "Inference _"])
next
  case (step_fine st cfg hash b sc ctx lat n)
  then show ?case by (cases st) (auto simp: engine_inv_def [of "Training _ _"] record_ok record_fine_latency_def [of _ _ _ _ _ _ _ _ "Inference _"])
next
  case (step_deep st cfg hash b sc ctx lat n)
  then show ?case by (cases st) (auto simp: engine_inv_def [of "Training _ _"] record_ok record_fine_deep_latency_def [of _ _ _ _ _ _ _ _ "Inference _"])
next
  case (step_freeze legacy demote lifts fraction gate st st')
  then show ?case by (cases st) (auto simp: engine_freeze_def engine_inv_def split: prod.splits rust.splits)
next
  case (step_reset st)
  then show ?case by (simp add: engine_reset_to_training_def engine_inv_new)
next
  case (step_load data st' st)
  then show ?case by (auto simp: load_state_def engine_inv_def split: rust.splits option.splits)
qed

lemma engine_reach_inv: "engine_reach lnf page st \<Longrightarrow> engine_inv st"
  by (induction rule: engine_reach.induct) (auto simp: engine_inv_new intro: engine_step_inv)

section \<open>Training runs\<close>

text \<open>The operations of a training run under one configuration, and how often an arm was sampled in it.\<close>

datatype training_event =
    Route u64 u64 usize u8
  | Sample u64 backend u8 u64 usize
  | FineSample u64 backend u8 u8 u64 usize
  | DeepSample u64 backend u8 u8 u64 usize

fun train_step :: "(fp \<Rightarrow> fp) \<Rightarrow> training_config \<Rightarrow> usize \<Rightarrow> allocator_state \<Rightarrow> training_event \<Rightarrow> allocator_state" where
  "train_step lnf cfg page st (Route hash frame sz msk) = snd (route_with_frame lnf cfg hash frame sz msk st)"
| "train_step lnf cfg page st (Sample hash b sc lat n) = record_latency cfg page hash b sc lat n st"
| "train_step lnf cfg page st (FineSample hash b sc ctx lat n) = record_fine_latency cfg page hash b sc ctx lat n st"
| "train_step lnf cfg page st (DeepSample hash b sc ctx lat n) = record_fine_deep_latency cfg page hash b sc ctx lat n st"

definition train :: "(fp \<Rightarrow> fp) \<Rightarrow> training_config \<Rightarrow> usize \<Rightarrow> training_event list \<Rightarrow> allocator_state" where
  "train lnf cfg page evs = foldl (train_step lnf cfg page) new_training evs"

fun is_sample :: "signature \<Rightarrow> backend \<Rightarrow> training_event \<Rightarrow> bool" where
  "is_sample sig b (Sample hash b' sc lat n) \<longleftrightarrow> Signature hash sc = sig \<and> b' = b"
| "is_sample sig b _ \<longleftrightarrow> False"

fun is_fine_sample :: "signature \<Rightarrow> u8 \<Rightarrow> backend \<Rightarrow> training_event \<Rightarrow> bool" where
  "is_fine_sample sig ctx b (FineSample hash b' sc ctx' lat n) \<longleftrightarrow> Signature hash sc = sig \<and> ctx' = ctx \<and> b' = b"
| "is_fine_sample sig ctx b _ \<longleftrightarrow> False"

definition times :: "(training_event \<Rightarrow> bool) \<Rightarrow> training_event list \<Rightarrow> nat" where
  "times P evs = length (filter P evs)"

text \<open>The batches the bandit got for an arm, the pulls of a context's arm, and the samples that wait.\<close>

definition arm_batches :: "bandit_policy \<Rightarrow> signature \<Rightarrow> backend \<Rightarrow> u32" where
  "arm_batches bp sig b = (case bt_get sig (bp_stats bp) of Some e \<Rightarrow> obs (arms e ! backend_index b) | None \<Rightarrow> 0)"

definition fine_credit :: "bandit_policy \<Rightarrow> signature \<Rightarrow> u8 \<Rightarrow> backend \<Rightarrow> u32" where
  "fine_credit bp sig ctx b = (case bt_get (sig, ctx) (bp_fine bp) of Some f \<Rightarrow> fine_pulls f ! backend_index b | None \<Rightarrow> 0)"

definition waiting :: "('k, pending_batch) btree \<Rightarrow> 'k \<Rightarrow> u32" where
  "waiting m k = (case bt_get k m of Some x \<Rightarrow> batch_count x | None \<Rightarrow> 0)"

lemma backend_inject [simp]: "backend_index a = backend_index b \<longleftrightarrow> a = b" "backend_u8 a = backend_u8 b \<longleftrightarrow> a = b"
  by (metis backend_index_inverse, metis backend_index_def backend_index_inverse)

lemma entry_count: "batch_count (bt_entry k pending_default m) = waiting m k"
  by (simp add: bt_entry_def waiting_def pending_default_def split: option.split)

lemma accumulate_waiting:
  assumes "bt_ok m" and "waiting m k = of_nat c" and "c < unat (reward_batch cfg)"
    and "accumulate cfg k lat frag m = (full, m')"
  shows "bt_ok m' \<and> (\<forall>j. waiting m' j = (if j = k then of_nat (Suc c mod unat (reward_batch cfg)) else waiting m j))
    \<and> (if Suc c = unat (reward_batch cfg) then \<exists>r. full = Some (r, reward_batch cfg) else full = None)"
proof -
  let ?n = "reward_batch cfg"
  let ?b = "batch_add lat frag (bt_entry k pending_default m)"
  have b: "batch_count ?b = of_nat (Suc c)" using assms(2) by (simp add: batch_add_def entry_count)
  have n: "unat ?n < 2 ^ 32" by (rule order_less_le_trans [OF unsigned_less]) simp
  have c: "Suc c < 2 ^ 32 \<or> Suc c = unat ?n" "Suc c \<le> unat ?n" using assms(3) n by auto
  then have u: "unat (of_nat (Suc c) :: u32) = Suc c" 
    using n c(2) by (subst unat_of_nat) (simp add: take_bit_nat_eq_self_iff)
  then have le: "?n \<le> batch_count ?b \<longleftrightarrow> Suc c = unat ?n" using c by (simp only: b word_le_nat_alt) linarith
  show ?thesis
  proof (cases "Suc c = unat ?n")
    case True
    then have "full = Some (batch_reward cfg ?b, batch_count ?b)" "m' = bt_remove k m"
      using assms(4) le by (auto simp: accumulate_def Let_def)
    moreover have "batch_count ?b = ?n" using True b by simp
    ultimately show ?thesis using assms(1) True by (simp add: waiting_def bt_get_remove)
  next
    case False
    then have "full = None" "m' = bt_insert k ?b m" using assms(4) le by (auto simp: accumulate_def Let_def)
    then show ?thesis using assms(1) False c(2) b by (auto simp: waiting_def bt_get_insert)
  qed
qed

text \<open>What the operations do to the counts of the bandit.\<close>

lemma arm_batches_entry:
  "obs (arms (entry_for cfg sig frame bp) ! backend_index b) = arm_batches bp sig b"
proof (cases "bt_get sig (bp_stats bp)")
  case None
  then show ?thesis
    by (cases b) (simp_all add: entry_for_def arm_batches_def bt_entry_def signature_stats_new_def arm_new_def backend_index_def Let_def)
next
  case (Some e)
  then show ?thesis by (simp add: entry_for_def arm_batches_def bt_entry_def Let_def)
qed

lemma select_counts:
  assumes "bandit_ok bp"
  shows "arm_batches (snd (select_with_frame lnf sig frame cfg msk bp)) s b = arm_batches bp s b"
    "bp_fine (snd (select_with_frame lnf sig frame cfg msk bp)) = bp_fine bp"
proof -
  let ?e = "entry_for cfg sig frame bp"
  have "obs (arms (count_pull d ?e) ! backend_index b) = obs (arms ?e ! backend_index b)" for d
    using entry_for_ok [OF assms, of cfg sig frame] by (simp add: count_pull_def Let_def nth_list_update)
  then show "arm_batches (snd (select_with_frame lnf sig frame cfg msk bp)) s b = arm_batches bp s b"
    using assms by (auto simp: select_eq Let_def arm_batches_def [of "bp\<lparr>bp_stats := _\<rparr>"] bt_get_insert bandit_ok_def
        arm_batches_entry) (auto simp: arm_batches_def)
  show "bp_fine (snd (select_with_frame lnf sig frame cfg msk bp)) = bp_fine bp" by (simp add: select_eq Let_def)
qed

lemma update_weighted_counts:
  assumes "bandit_ok bp"
  shows "arm_batches (update_weighted cfg sig d r n bp) s b = (if s = sig \<and> b = d then arm_batches bp s b + 1 else arm_batches bp s b)"
    "bp_fine (update_weighted cfg sig d r n bp) = bp_fine bp"
proof -
  have l: "length (arms (entry_for cfg sig 0 bp)) = 4" using entry_for_ok [OF assms] by blast
  show "arm_batches (update_weighted cfg sig d r n bp) s b = (if s = sig \<and> b = d then arm_batches bp s b + 1 else arm_batches bp s b)"
  proof (cases "s = sig")
    case True
    have "arm_batches (update_weighted cfg sig d r n bp) sig b = (if b = d then 1 else 0) + obs (arms (entry_for cfg sig 0 bp) ! backend_index b)"
      using assms l by (simp add: update_weighted_eq Let_def arm_batches_def bt_get_insert bandit_ok_def nth_list_update)
    then show ?thesis using True by (simp add: arm_batches_entry)
  next
    case False
    then show ?thesis using assms by (simp add: update_weighted_eq Let_def arm_batches_def bt_get_insert bandit_ok_def)
  qed
  show "bp_fine (update_weighted cfg sig d r n bp) = bp_fine bp" by (simp add: update_weighted_def)
qed

lemma update_fine_counts:
  assumes "bandit_ok bp"
  shows "fine_credit (update_fine sig ctx d r n bp) s x b =
      (if s = sig \<and> x = ctx \<and> b = d then fine_credit bp s x b + n else fine_credit bp s x b)"
    "bp_stats (update_fine sig ctx d r n bp) = bp_stats bp"
proof -
  have ok: "fine_ok (bp_fine bp)" using assms by (simp add: bandit_ok_def)
  let ?f = "bt_entry (sig, ctx) fine_default (bp_fine bp)"
  have l: "length (fine_pulls ?f) = 4" "fine_pulls ?f ! backend_index b = fine_credit bp sig ctx b" for b
    using ok by (cases rule: bt_entry_cases [of "(sig, ctx)" fine_default "bp_fine bp"];
        auto simp: fine_ok_def fine_default_def fine_credit_def)+
  show "fine_credit (update_fine sig ctx d r n bp) s x b =
      (if s = sig \<and> x = ctx \<and> b = d then fine_credit bp s x b + n else fine_credit bp s x b)"
  proof (cases "s = sig \<and> x = ctx")
    case True
    have "fine_credit (update_fine sig ctx d r n bp) sig ctx b = fine_pulls (fine_add d r n ?f) ! backend_index b"
      using ok by (simp add: update_fine_def fine_credit_def bt_get_upd fine_ok_def)
    also have "\<dots> = (if b = d then fine_credit bp sig ctx b + n else fine_credit bp sig ctx b)"
      using l by (simp add: fine_add_def Let_def nth_list_update)
    finally show ?thesis using True by auto
  next
    case False
    then show ?thesis using ok by (auto simp: update_fine_def fine_credit_def bt_get_upd fine_ok_def)
  qed
  show "bp_stats (update_fine sig ctx d r n bp) = bp_stats bp" by (simp add: update_fine_def)
qed

definition trained :: "training_config \<Rightarrow> training_event list \<Rightarrow> bandit_policy \<Rightarrow> pending_rewards \<Rightarrow> bool" where
  "trained cfg evs bp p \<longleftrightarrow>
     (\<forall>sig b. arm_batches bp sig b = of_nat (times (is_sample sig b) evs div unat (reward_batch cfg))
        \<and> waiting (batches p) (sig, backend_u8 b) = of_nat (times (is_sample sig b) evs mod unat (reward_batch cfg)))
     \<and> (\<forall>sig ctx b. fine_credit bp sig ctx b
          = of_nat (times (is_fine_sample sig ctx b) evs div unat (reward_batch cfg)) * reward_batch cfg
        \<and> waiting (fine_batches p) (sig, backend_u8 b, ctx)
          = of_nat (times (is_fine_sample sig ctx b) evs mod unat (reward_batch cfg)))"

lemma times_snoc: "times P (evs @ [ev]) = (if P ev then Suc (times P evs) else times P evs)"
  by (simp add: times_def)

lemma trained_quiet:
  assumes "trained cfg evs bp p" and "\<And>sig b. \<not> is_sample sig b ev" "\<And>sig ctx b. \<not> is_fine_sample sig ctx b ev"
    and "\<And>sig b. arm_batches bp' sig b = arm_batches bp sig b" "bp_fine bp' = bp_fine bp"
    and "batches p' = batches p" "fine_batches p' = fine_batches p"
  shows "trained cfg (evs @ [ev]) bp' p'"
  using assms by (simp add: trained_def times_snoc fine_credit_def)

lemma div_mod_Suc:
  "0 < n \<Longrightarrow> Suc k div n = (if Suc (k mod n) = n then Suc (k div n) else k div n)"
  "Suc k mod n = (if Suc (k mod n) = n then 0 else Suc (k mod n))"
  by (simp_all add: div_Suc mod_Suc)

lemma trained_sample:
  assumes T: "trained cfg evs bp p" and ok: "bandit_ok bp" "pending_ok p" and n: "0 < unat (reward_batch cfg)"
    and st: "record_latency cfg page hash b sc lat k (Training bp p) = Training bp' p'"
  shows "trained cfg (evs @ [Sample hash b sc lat k]) bp' p'"
proof -
  let ?n = "unat (reward_batch cfg)" and ?sig = "Signature hash sc"
  let ?c = "times (is_sample ?sig b) evs mod ?n"
  obtain l q where w: "winsorize cfg (?sig, backend_u8 b) lat p = (l, q)" by force
  obtain full m where a: "accumulate cfg (?sig, backend_u8 b) l (sample_frag cfg page b k) (batches p) = (full, m)" by force
  have q: "batches q = batches p" "fine_batches q = fine_batches p" using winsorize_frame [OF w] by auto
  have A: "(\<forall>j. waiting m j = (if j = (?sig, backend_u8 b) then of_nat (Suc ?c mod ?n) else waiting (batches p) j))
      \<and> (if Suc ?c = ?n then \<exists>r. full = Some (r, reward_batch cfg) else full = None)"
    using accumulate_waiting [OF _ _ _ a, of ?c] T ok n by (simp add: trained_def pending_ok_def batches_ok_def)
  have bp': "bp' = (case full of Some (r, n) \<Rightarrow> update_weighted cfg ?sig b r n bp | None \<Rightarrow> bp)"
    and p': "batches p' = m" "fine_batches p' = fine_batches p"
    using st by (auto simp: record_latency_def w q a)
  have B: "arm_batches bp' s d = (if s = ?sig \<and> d = b \<and> Suc ?c = ?n then arm_batches bp s d + 1 else arm_batches bp s d)"
    "bp_fine bp' = bp_fine bp" for s d
    using A unfolding bp' by (auto simp: update_weighted_counts [OF ok(1)] split: if_splits)
  have E: "is_sample s d (Sample hash b sc lat k) \<longleftrightarrow> s = ?sig \<and> d = b" for s d by auto
  have M: "Suc ?c mod ?n = Suc (times (is_sample ?sig b) evs) mod ?n" by (simp add: mod_Suc)
  have F: "fine_credit bp' = fine_credit bp" by (simp add: fine_credit_def B(2) fun_eq_iff)
  have "arm_batches bp' s d = of_nat (times (is_sample s d) (evs @ [Sample hash b sc lat k]) div ?n)" for s d
    using T unfolding times_snoc E B(1) trained_def by (simp add: div_mod_Suc(1) [OF n])
  moreover have "waiting (batches p') (s, backend_u8 d) = of_nat (times (is_sample s d) (evs @ [Sample hash b sc lat k]) mod ?n)" for s d
    using T A unfolding times_snoc E p' trained_def by (simp add: M)
  ultimately show ?thesis
    using T unfolding trained_def F p'(2) by (simp add: times_snoc [of "is_fine_sample _ _ _"])
qed

lemma trained_fine_sample:
  assumes T: "trained cfg evs bp p" and ok: "bandit_ok bp" "pending_ok p" and n: "0 < unat (reward_batch cfg)"
    and st: "record_fine_latency cfg page hash b sc ctx lat k (Training bp p) = Training bp' p'"
  shows "trained cfg (evs @ [FineSample hash b sc ctx lat k]) bp' p'"
proof -
  let ?n = "unat (reward_batch cfg)" and ?sig = "Signature hash sc"
  let ?c = "times (is_fine_sample ?sig ctx b) evs mod ?n"
  let ?ev = "FineSample hash b sc ctx lat k"
  obtain l q where w: "winsorize cfg (?sig, backend_u8 b) lat p = (l, q)" by force
  obtain full m where a: "accumulate cfg (?sig, backend_u8 b, ctx) l (sample_frag cfg page b k) (fine_batches p) = (full, m)" by force
  have q: "batches q = batches p" "fine_batches q = fine_batches p" using winsorize_frame [OF w] by auto
  have A: "(\<forall>j. waiting m j = (if j = (?sig, backend_u8 b, ctx) then of_nat (Suc ?c mod ?n) else waiting (fine_batches p) j))
      \<and> (if Suc ?c = ?n then \<exists>r. full = Some (r, reward_batch cfg) else full = None)"
    using accumulate_waiting [OF _ _ _ a, of ?c] T ok n by (simp add: trained_def pending_ok_def batches_ok_def)
  have bp': "bp' = (case full of Some (r, n) \<Rightarrow> update_fine ?sig ctx b r n bp | None \<Rightarrow> bp)"
    and p': "fine_batches p' = m" "batches p' = batches p"
    using st by (auto simp: record_fine_latency_def w q a)
  have B: "fine_credit bp' s x d = (if s = ?sig \<and> x = ctx \<and> d = b \<and> Suc ?c = ?n
      then fine_credit bp s x d + reward_batch cfg else fine_credit bp s x d)"
    "bp_stats bp' = bp_stats bp" for s x d
    using A unfolding bp' by (auto simp: update_fine_counts [OF ok(1)] split: if_splits)
  have E: "is_fine_sample s x d ?ev \<longleftrightarrow> s = ?sig \<and> x = ctx \<and> d = b" for s x d by auto
  have M: "Suc ?c mod ?n = Suc (times (is_fine_sample ?sig ctx b) evs) mod ?n" by (simp add: mod_Suc)
  have F: "arm_batches bp' = arm_batches bp" by (simp add: arm_batches_def B(2) fun_eq_iff)
  have "fine_credit bp' s x d = of_nat (times (is_fine_sample s x d) (evs @ [?ev]) div ?n) * reward_batch cfg" for s x d
    using T unfolding times_snoc E B(1) trained_def by (simp add: div_mod_Suc(1) [OF n] distrib_right)
  moreover have "waiting (fine_batches p') (s, backend_u8 d, x)
      = of_nat (times (is_fine_sample s x d) (evs @ [?ev]) mod ?n)" for s x d
    using T A unfolding times_snoc E p' trained_def by (simp add: M)
  ultimately show ?thesis
    using T unfolding trained_def F p'(2) by (simp add: times_snoc [of "is_sample _ _"])
qed

lemma deep_quiet:
  assumes "record_fine_deep_latency cfg page hash b sc ctx lat k (Training bp p) = Training bp' p'"
  shows "bp_stats bp' = bp_stats bp \<and> bp_fine bp' = bp_fine bp \<and> batches p' = batches p \<and> fine_batches p' = fine_batches p"
  using assms by (auto simp: record_fine_deep_latency_def update_fine_deep_def Let_def split: if_splits prod.splits option.splits)

lemma train_step_training: "\<exists>bp' p'. train_step lnf cfg page (Training bp p) ev = Training bp' p'"
  by (cases ev) (auto simp: route_with_frame_def record_latency_def record_fine_latency_def record_fine_deep_latency_def
      Let_def case_prod_beta)

lemma train_trained:
  assumes n: "0 < unat (reward_batch cfg)"
  shows "\<exists>bp p. train lnf cfg page evs = Training bp p \<and> bandit_ok bp \<and> pending_ok p \<and> trained cfg evs bp p"
proof (induction evs rule: rev_induct)
  case Nil
  have "engine_inv new_training" by (rule engine_inv_new)
  then show ?case
    by (simp add: train_def new_training_def engine_inv_def trained_def times_def arm_batches_def fine_credit_def waiting_def
        bandit_new_def pending_new_def bt_get_def)
next
  case (snoc ev evs)
  then obtain bp p where 1: "train lnf cfg page evs = Training bp p" "bandit_ok bp" "pending_ok p" "trained cfg evs bp p" by blast
  obtain bp' p' where st: "train_step lnf cfg page (Training bp p) ev = Training bp' p'" using train_step_training by blast
  have "engine_step lnf page (Training bp p) (train_step lnf cfg page (Training bp p) ev)"
    by (cases ev) (simp_all add: engine_step.intros)
  then have "engine_inv (Training bp' p')" using engine_step_inv [of lnf page "Training bp p" "Training bp' p'"] 1(2,3) by (simp add: st engine_inv_def)
  moreover have "trained cfg (evs @ [ev]) bp' p'"
  proof (cases ev)
    case (Route hash frame sz msk)
    have "bp' = snd (select_with_frame lnf (Signature hash (size_class_for sz)) frame cfg msk bp)" "p' = p"
      using st by (auto simp: Route route_with_frame_def case_prod_beta)
    then show ?thesis using select_counts [OF 1(2)] by (intro trained_quiet [OF 1(4)]) (simp_all add: Route)
  next
    case (Sample hash b sc lat k)
    then show ?thesis using st trained_sample [OF 1(4,2,3) n] by simp
  next
    case (FineSample hash b sc ctx lat k)
    then show ?thesis using st trained_fine_sample [OF 1(4,2,3) n] by simp
  next
    case (DeepSample hash b sc ctx lat k)
    then show ?thesis using st deep_quiet [of cfg page hash b sc ctx lat k bp p bp' p']
      by (intro trained_quiet [OF 1(4)]) (simp_all add: arm_batches_def)
  qed
  ultimately show ?case using st by (auto simp: train_def 1(1) [unfolded train_def] engine_inv_def)
qed

section \<open>Properties\<close>

text \<open>
  C34: In every state that the engine reaches by routing, samples, freezing, resets and loaded models, under
  any configurations, the bookkeeping of training is consistent: the maps are sorted, every
  signature has four arms whose pulls add up to its total, and a waiting batch has between 1 and
  \<open>2^32 - 2\<close> samples, so that the means of a flush never divide by zero.
\<close>
theorem engine_bookkeeping:
  assumes "engine_reach lnf page st"
  shows "engine_inv st"
  by (rule engine_reach_inv [OF assms])

lemma demo_train_reach: "engine_reach lnf page (train lnf cfg page evs)"
proof (induction evs rule: rev_induct)
  case (snoc ev evs)
  have "engine_step lnf page (train lnf cfg page evs) (train_step lnf cfg page (train lnf cfg page evs) ev)"
    by (cases ev) (simp_all add: engine_step.intros)
  then show ?case using reach_step [OF snoc] by (simp add: train_def)
qed (simp add: train_def reach_new)

lemma engine_bookkeeping_witness:
  "engine_inv (train (\<lambda>_. Fin 1) defaults_const 4096 [Route 7 9 100 0, Sample 7 Slab 4 30 148, FineSample 7 Slab 4 21 30 148])"
  by (rule engine_bookkeeping [OF demo_train_reach])

text \<open>
  C33: Every full batch of samples reaches the bandit, and none is lost or counted twice: after any training
  run, an arm sampled \<open>k\<close> times has \<open>k div n\<close> observed batches and \<open>k mod n\<close>
  samples that wait, and an arm sampled \<open>k\<close> times under a context has credit for \<open>k div n * n\<close>
  samples, where \<open>n\<close> is the batch size; whatever is routed and sampled in between.
\<close>
theorem batches_reach_bandit:
  assumes "config_ok cfg"
  shows "\<exists>bp p. train lnf cfg page evs = Training bp p \<and>
    (let n = unat (reward_batch cfg) in
      (\<forall>sig b. let k = times (is_sample sig b) evs in
         arm_batches bp sig b = of_nat (k div n) \<and> waiting (batches p) (sig, backend_u8 b) = of_nat (k mod n)) \<and>
      (\<forall>sig ctx b. let k = times (is_fine_sample sig ctx b) evs in
         fine_credit bp sig ctx b = of_nat (k div n * n) \<and> waiting (fine_batches p) (sig, backend_u8 b, ctx) = of_nat (k mod n)))"
proof -
  have "0 < unat (reward_batch cfg)" using assms by (simp add: config_ok_def)
  then obtain bp p where "train lnf cfg page evs = Training bp p" "trained cfg evs bp p" using train_trained by blast
  then show ?thesis by (intro exI [of _ bp] exI [of _ p]) (simp add: trained_def Let_def)
qed

lemma batches_reach_bandit_witness:
  "\<exists>bp p. train (\<lambda>_. Fin 1) defaults_const 4096 (replicate 35 (Sample 7 Slab 4 30 148)) = Training bp p \<and>
     arm_batches bp (Signature 7 4) Slab = 2 \<and> waiting (batches p) (Signature 7 4, 0) = 3"
proof -
  have n: "unat (reward_batch defaults_const) = 16" by (simp add: defaults_const_def)
  have t: "times (is_sample (Signature 7 4) Slab) (replicate 35 (Sample 7 Slab 4 30 148)) = 35"
    by (simp add: times_def filter_replicate)
  obtain bp p where T: "train (\<lambda>_. Fin 1) defaults_const 4096 (replicate 35 (Sample 7 Slab 4 30 148)) = Training bp p"
    and A: "\<forall>sig b. let k = times (is_sample sig b) (replicate 35 (Sample 7 Slab 4 30 148)) in
         arm_batches bp sig b = of_nat (k div 16) \<and> waiting (batches p) (sig, backend_u8 b) = of_nat (k mod 16)"
    using batches_reach_bandit [OF config_ok_defaults, of "\<lambda>_. Fin 1" 4096 "replicate 35 (Sample 7 Slab 4 30 148)"]
    unfolding n Let_def by blast
  show ?thesis using T A [THEN spec, of "Signature 7 4", THEN spec, of Slab] by (simp add: t)
qed

end
