(* ===== verification/EngineFreeze.thy ===== *)
theory EngineFreeze
  imports EngineRun PerfectHashCorrect
begin

text \<open>
  Freezing: what the frozen plane holds of what the bandit learned. Its verdicts are the clamped
  verdicts of training and can be served, a site that is routed by context is never in the distilled table that the
  pin cache reads, and a plane that is exported and loaded again is the same state. What the distilled entries say
  is in the theory \<open>EngineDistill\<close>.
\<close>

section \<open>Tables and entries\<close>

lemma rust_cases:
  assumes "engine_freeze legacy demote lifts fraction gate st = Return st'"
  obtains bp p mq dl m d where "st = Training bp p" "freeze_tables legacy demote lifts fraction gate bp = (mq, dl)"
    "from_entries_flagged mq = Return m" "from_entries dl = Return d" "st' = Inference (frozen_routing_new m d)"
  using assms by (cases st) (auto simp: engine_freeze_def split: prod.splits rust.splits)

lemma entries_from:
  assumes "from_entries_flagged qs = Return t" "length qs < 2 ^ 64" "q \<in> set (entries_flagged t)"
  shows "\<exists>k sc b f. (k, sc, b, f) \<in> set qs \<and> q = (k, sc, b, f AND 0x3F)"
proof -
  obtain e where e: "e \<in> set (canonical_entries qs)" "q = stored_quad e"
    using from_entries_entries [OF assms(1,2)] assms(3) by auto
  then obtain q' where q': "q' \<in> set qs" "e = entry_of_quad q'" using canonical_subset [of qs] by auto
  obtain k sc b f where "q' = (k, sc, b, f)" by (cases q')
  then have "(k, sc, b, f) \<in> set qs \<and> q = (k, sc, b, f AND 0x3F)" using q' e(2) by (simp add: stored_quad_def entry_of_quad_def)
  then show ?thesis by blast
qed

text \<open>The backends that serve a size class in a deployment that loads the model.\<close>

definition servable :: "u8 \<Rightarrow> backend \<Rightarrow> bool" where
  "servable sc b \<longleftrightarrow>
     (case b of Slab \<Rightarrow> sc \<le> 11 | Buddy \<Rightarrow> 11 \<le> sc \<and> sc \<le> 13 | Arena \<Rightarrow> sc \<le> 13 | System \<Rightarrow> 13 < sc)"

lemma clamp_is_servable: "servable sc (clamp_backend_for_size_class sc b d)"
  using clamp_servable [where sc = sc and b = b and d = d] by (auto simp: servable_def split: backend.splits)

definition quad_servable :: "quad \<Rightarrow> bool" where
  "quad_servable q = (case q of (_, sc, b, f) \<Rightarrow> servable sc b \<and> f \<in> {0, FLAG_HAS_CONTEXT, FLAG_DEEP_CONTEXT})"

lemma surviving_in:
  "x \<in> set (surviving demote fm hm es) \<longleftrightarrow>
   x \<in> clamp_fine demote hm ` set es \<and> bt_get (fst (snd x)) fm \<noteq> Some (snd (snd (snd x)))"
  unfolding surviving_def by (cases x) auto

lemma surviving_servable: "(k, ck, sc, b) \<in> set (surviving demote fm hm es) \<Longrightarrow> servable sc b"
  by (auto simp: surviving_in clamp_fine_def clamp_is_servable)

lemma tables_servable:
  assumes "freeze_tables legacy da lifts fraction gate bp = (mq, dl)"
  shows "\<forall>q \<in> set mq. quad_servable q" "\<forall>(k, sc, b) \<in> set dl. servable sc b"
  using assms
  by (auto simp: freeze_tables_def Let_def quad_servable_def main_quad_def frozen_main_def clamp_entries_def
      clamp_is_servable fine_quad_def distilled_entries_def dest: surviving_servable)

section \<open>Sizes\<close>

lemma note_frame_entries [simp]:
  "ff_entries (note_frame bp sig out) = ff_entries out" "ff_deep_entries (note_frame bp sig out) = ff_deep_entries out"
  "ff_flagged (note_frame bp sig out) = ff_flagged out" "ff_deep_flagged (note_frame bp sig out) = ff_deep_flagged out"
  by (simp_all add: note_frame_def split: option.split)

lemma fine_step_length:
  "length (ff_entries (fine_step bp cf out row)) \<le> Suc (length (ff_entries out))"
  "ff_deep_entries (fine_step bp cf out row) = ff_deep_entries out"
  by (auto simp: fine_step_def split: prod.split option.split)

lemma deep_step_length:
  "length (ff_deep_entries (deep_step bp cf gate out row)) \<le> Suc (length (ff_deep_entries out))"
  "ff_entries (deep_step bp cf gate out row) = ff_entries out"
  by (auto simp: deep_step_def split: prod.split option.split)

lemma foldl_measure:
  fixes g :: "'a \<Rightarrow> nat"
  assumes "\<And>x r. g (f x r) \<le> Suc (g x)" shows "g (foldl f x rs) \<le> g x + length rs"
proof (induction rs arbitrary: x)
  case (Cons r rs)
  show ?case using Cons [of "f x r"] assms [of x r] by simp
qed simp

lemma foldl_keep: "(\<And>x r. g (f x r) = g x) \<Longrightarrow> g (foldl f x rs) = g x"
  by (induction rs arbitrary: x) auto

lemma fine_fold_length:
  "length (ff_entries (foldl (fine_step bp cf) out rows)) \<le> length (ff_entries out) + length rows"
  "ff_deep_entries (foldl (fine_step bp cf) out rows) = ff_deep_entries out"
  by (rule foldl_measure [where g = "\<lambda>out. length (ff_entries out)"], rule fine_step_length)
    (rule foldl_keep, rule fine_step_length)

lemma deep_fold_length:
  "length (ff_deep_entries (foldl (deep_step bp cf gate) out rows)) \<le> length (ff_deep_entries out) + length rows"
  "ff_entries (foldl (deep_step bp cf gate) out rows) = ff_entries out"
  by (rule foldl_measure [where g = "\<lambda>out. length (ff_deep_entries out)"], rule deep_step_length)
    (rule foldl_keep, rule deep_step_length)

lemma freeze_fine_length:
  "length (ff_entries (freeze_fine cf gate bp)) \<le> length (bp_fine bp)"
  "length (ff_deep_entries (freeze_fine cf gate bp)) \<le> length (bp_fine_deep bp)"
proof -
  define out where "out = foldl (fine_step bp cf) fine_freeze_new (bp_fine bp)"
  have o: "length (ff_entries out) \<le> length (bp_fine bp)" "ff_deep_entries out = []"
    using fine_fold_length [of bp cf fine_freeze_new "bp_fine bp"] unfolding out_def by (simp_all add: fine_freeze_new_def)
  have f: "freeze_fine cf gate bp = (if fp_lt (Fin 0) gate then foldl (deep_step bp cf gate) out (bp_fine_deep bp) else out)"
    by (simp only: freeze_fine_def Let_def out_def)
  show "length (ff_entries (freeze_fine cf gate bp)) \<le> length (bp_fine bp)"
    unfolding f using o deep_fold_length(2) by (simp split: if_split)
  show "length (ff_deep_entries (freeze_fine cf gate bp)) \<le> length (bp_fine_deep bp)"
    unfolding f using o deep_fold_length(1) [of bp cf gate out "bp_fine_deep bp"] by (simp split: if_split)
qed

lemma surviving_length: "length (surviving demote fm hm es) \<le> length es"
  unfolding surviving_def by (rule order_trans [OF length_filter_le]) simp

lemma bt_insert_length: "length (bt_insert k v m) \<le> Suc (length m)"
  by (induction m) auto

lemma group_step_length: "length (group_step g row) \<le> Suc (length g)"
  by (auto simp: group_step_def bt_upd_def bt_insert_length split: prod.split)

lemma distill_groups_length: "length (distill_groups bp) \<le> length (bp_stats bp)"
  using foldl_measure [where g = length and f = group_step and x = "[]", OF group_step_length]
  by (simp add: distill_groups_def)

lemma map_filter_length: "length (List.map_filter f xs) \<le> length xs"
  by (induction xs) (auto simp: map_filter_simps split: option.split)

definition trained_size :: "bandit_policy \<Rightarrow> nat" where
  "trained_size bp = length (bp_stats bp) + length (bp_fine bp) + length (bp_fine_deep bp)"

lemma tables_length:
  assumes "freeze_tables legacy da lifts fraction gate bp = (mq, dl)"
  shows "length mq \<le> trained_size bp" "length dl \<le> trained_size bp"
proof -
  let ?d = "demote_for da lifts" and ?mc = "frozen_main (demote_for da lifts) fraction bp"
  let ?f = "freeze_fine (final_map_of ?mc) gate bp"
  have m: "length ?mc = length (bp_stats bp)" by (simp add: frozen_main_def clamp_entries_def bandit_freeze_def)
  have l: "length (surviving ?d fm hm (ff_entries ?f)) \<le> length (bp_fine bp)"
    "length (surviving ?d fm hm (ff_deep_entries ?f)) \<le> length (bp_fine_deep bp)" for fm hm
    by (rule order_trans [OF surviving_length freeze_fine_length(1)], rule order_trans [OF surviving_length freeze_fine_length(2)])
  show "length mq \<le> trained_size bp"
    using assms l [of "final_map_of ?mc" "heavy_map_of ?mc"] m
    by (auto simp: freeze_tables_def Let_def trained_size_def intro!: add_mono)
  have "length dl \<le> length (distill bp)"
    using assms by (auto simp: freeze_tables_def Let_def distilled_entries_def clamp_entries_def intro: order_trans [OF length_filter_le])
  also have "\<dots> \<le> length (bp_stats bp)"
    unfolding distill_def by (rule order_trans [OF map_filter_length distill_groups_length])
  finally show "length dl \<le> trained_size bp" by (simp add: trained_size_def)
qed

section \<open>Freezing in a reachable state\<close>

definition state_size :: "allocator_state \<Rightarrow> nat" where
  "state_size st = (case st of Training bp _ \<Rightarrow> trained_size bp | Inference _ \<Rightarrow> 0)"

lemma and_flags: "f \<in> {0, FLAG_HAS_CONTEXT, FLAG_DEEP_CONTEXT} \<Longrightarrow> f AND 0x3F = f"
  by (auto simp: FLAG_HAS_CONTEXT_def FLAG_DEEP_CONTEXT_def)

definition table_servable :: "perfect_hash_table \<Rightarrow> bool" where
  "table_servable t \<longleftrightarrow> (\<forall>q \<in> set (entries_flagged t). quad_servable q)"

lemma table_servable_from:
  assumes "from_entries_flagged qs = Return t" "length qs < 2 ^ 64" "\<forall>q \<in> set qs. quad_servable q"
  shows "table_servable t"
  unfolding table_servable_def
proof
  fix q assume "q \<in> set (entries_flagged t)"
  then obtain k sc b f where "(k, sc, b, f) \<in> set qs" "q = (k, sc, b, f AND 0x3F)" using entries_from [OF assms(1,2)] by blast
  then show "quad_servable q" using assms(3) by (force simp: quad_servable_def and_flags)
qed

lemma freeze_planes:
  assumes "engine_freeze legacy demote lifts fraction gate st = Return st'" and "state_size st < 2 ^ 32"
  shows "\<exists>bp p mq dq m d. st = Training bp p \<and> st' = Inference (frozen_routing_new m d)
    \<and> fst (freeze_tables legacy demote lifts fraction gate bp) = mq
    \<and> dq = map (\<lambda>(h, sc, b). (h, sc, b, 0)) (snd (freeze_tables legacy demote lifts fraction gate bp))
    \<and> from_entries_flagged mq = Return m \<and> from_entries_flagged dq = Return d
    \<and> length mq < 2 ^ 32 \<and> length dq < 2 ^ 32 \<and> (\<forall>q \<in> set mq \<union> set dq. quad_servable q)"
  using assms(1)
proof (rule rust_cases)
  fix bp p mq dl m d
  assume a: "st = Training bp p" "freeze_tables legacy demote lifts fraction gate bp = (mq, dl)"
    "from_entries_flagged mq = Return m" "from_entries dl = Return d" "st' = Inference (frozen_routing_new m d)"
  have l: "length mq < 2 ^ 32" "length dl < 2 ^ 32"
    using tables_length [OF a(2)] assms(2) by (simp_all add: a(1) state_size_def)
  have s: "\<forall>q \<in> set mq. quad_servable q" "\<forall>q \<in> set (map (\<lambda>(h, sc, b). (h, sc, b, 0)) dl). quad_servable q"
    using tables_servable [OF a(2)] by (auto simp: quad_servable_def)
  show ?thesis
    using a l s by (intro exI [of _ bp] exI [of _ p] exI [of _ mq] exI [of _ "map (\<lambda>(h, sc, b). (h, sc, b, 0)) dl"]
        exI [of _ m] exI [of _ d]) (auto simp: from_entries_def)
qed

lemma quad_servable_six_bit: "quad_servable q \<Longrightarrow> six_bit q"
  by (auto simp: quad_servable_def six_bit_def FLAG_HAS_CONTEXT_def FLAG_DEEP_CONTEXT_def)

text \<open>A state with one signature and no context freezes, so there is something to evaluate.\<close>

lemma short_list: "length xs \<le> 1 \<Longrightarrow> xs = [] \<or> (\<exists>x. xs = [x])"
  by (cases xs) auto

lemma small_freeze:
  assumes "trained_size bp \<le> 1"
  shows "\<exists>st'. engine_freeze legacy demote lifts fraction gate (Training bp p) = Return st'"
proof -
  obtain mq dl where t: "freeze_tables legacy demote lifts fraction gate bp = (mq, dl)" by force
  have "length mq \<le> 1" "length (map (\<lambda>(h, sc, b). (h, sc, b, 0::u8)) dl) \<le> 1"
    using tables_length [OF t] assms by auto
  then have "from_entries_flagged mq \<noteq> Panic" "from_entries dl \<noteq> Panic"
    using small_models_build short_list unfolding from_entries_def by metis+
  then obtain m d where "from_entries_flagged mq = Return m" "from_entries dl = Return d" by (meson rust.exhaust)
  then show ?thesis by (simp add: engine_freeze_def t)
qed

definition demo_state :: allocator_state where
  "demo_state = train (\<lambda>_. Fin 1) defaults_const 4096 [Route 7 9 100 0]"

lemma demo_state_eq:
  "\<exists>bp. demo_state = Training bp pending_new \<and> trained_size bp = 1"
  by (simp add: demo_state_def train_def new_training_def route_with_frame_def case_prod_beta select_eq Let_def bandit_new_def
      trained_size_def)

lemma demo_state_size: "state_size demo_state < 2 ^ 32"
proof -
  obtain bp where d: "demo_state = Training bp pending_new" "trained_size bp = 1" using demo_state_eq by blast
  show ?thesis unfolding state_size_def d(1) by (simp add: d(2))
qed

lemma demo_freezes: "\<exists>st'. engine_freeze legacy demote lifts fraction gate demo_state = Return st'"
proof -
  obtain bp where d: "demo_state = Training bp pending_new" "trained_size bp = 1" using demo_state_eq by blast
  show ?thesis unfolding d(1) by (rule small_freeze) (simp add: d(2))
qed

text \<open>
  C27: Whatever the bandit learned, and whatever is demoted, a frozen plane holds only verdicts
  that the deployment can serve at their size class, in both tables and for the context entries as well.
\<close>
theorem frozen_plane_servable:
  assumes "engine_freeze legacy demote lifts fraction gate st = Return st'" and "state_size st < 2 ^ 32"
  shows "\<exists>fr. st' = Inference fr \<and> table_servable (fr_main fr) \<and> table_servable (fr_distilled fr)"
proof -
  obtain mq dq m d where st': "st' = Inference (frozen_routing_new m d)"
    and t: "from_entries_flagged mq = Return m" "from_entries_flagged dq = Return d" "length mq < 2 ^ 32" "length dq < 2 ^ 32"
      "\<forall>q \<in> set mq \<union> set dq. quad_servable q"
    using freeze_planes [OF assms] by blast
  have "table_servable m" "table_servable d"
    using t by (auto intro!: table_servable_from [OF t(1)] table_servable_from [OF t(2)])
  then show ?thesis by (simp add: st' frozen_routing_new_def)
qed

lemma frozen_plane_servable_witness:
  "\<exists>fr. engine_freeze False True False (Fin 0) (Fin 0) demo_state = Return (Inference fr)
    \<and> table_servable (fr_main fr) \<and> table_servable (fr_distilled fr)"
proof -
  obtain st' where "engine_freeze False True False (Fin 0) (Fin 0) demo_state = Return st'" using demo_freezes by blast
  then show ?thesis using frozen_plane_servable [of False True False "Fin 0" "Fin 0" demo_state] demo_state_size by blast
qed

text \<open>
  C29: A frozen engine can be saved: its exported model loads into the same state, flags and context
  entries included.
\<close>
theorem frozen_model_reloads:
  assumes "engine_freeze legacy demote lifts fraction gate st = Return st'" and "state_size st < 2 ^ 32"
  shows "\<exists>bytes. export_model st' = Some bytes \<and> load_state bytes = Return (Some st')"
proof -
  obtain mq dq m d where st': "st' = Inference (frozen_routing_new m d)"
    and t: "from_entries_flagged mq = Return m" "from_entries_flagged dq = Return d" "length mq < 2 ^ 32" "length dq < 2 ^ 32"
      "\<forall>q \<in> set mq \<union> set dq. quad_servable q"
    using freeze_planes [OF assms] by blast
  have "deserialize (serialize (frozen_routing_new m d)) = Return (Some (frozen_routing_new m d))"
    using t quad_servable_six_bit by (intro plane_roundtrip [OF t(1,2,3,4)]) blast
  then show ?thesis by (simp add: st' export_model_def load_state_def)
qed

lemma frozen_model_reloads_witness:
  "\<exists>st' bytes. engine_freeze False True False (Fin 0) (Fin 0) demo_state = Return st'
    \<and> export_model st' = Some bytes \<and> load_state bytes = Return (Some st')"
proof -
  obtain st' where "engine_freeze False True False (Fin 0) (Fin 0) demo_state = Return st'" using demo_freezes by blast
  then show ?thesis using frozen_model_reloads [of False True False "Fin 0" "Fin 0" demo_state] demo_state_size by blast
qed

section \<open>The main table serves the verdicts of training\<close>

definition frozen_keys_distinct :: "bool \<Rightarrow> bool \<Rightarrow> bool \<Rightarrow> fp \<Rightarrow> fp \<Rightarrow> bandit_policy \<Rightarrow> bool" where
  "frozen_keys_distinct legacy demote lifts fraction gate bp \<longleftrightarrow>
     distinct (map fst (fst (freeze_tables legacy demote lifts fraction gate bp)))"

text \<open>What inference should route: the verdict of training, clamped, and demoted when the signature is heavy.\<close>

definition final_verdict :: "bool \<Rightarrow> bool \<Rightarrow> fp \<Rightarrow> bandit_policy \<Rightarrow> signature \<Rightarrow> signature_stats \<Rightarrow> backend" where
  "final_verdict demote lifts fraction bp sig e =
     clamp_backend_for_size_class (size_class sig) (verdict e)
       (demote_for demote lifts (is_heavy fraction (bandit_freeze bp) (total_pulls e)) (size_class sig))"

lemma main_quads_eq:
  "\<exists>sh dp tail. fst (freeze_tables legacy demote lifts fraction gate bp)
     = map (main_quad sh dp) (frozen_main (demote_for demote lifts) fraction bp) @ tail"
  by (auto simp: freeze_tables_def Let_def)

lemma main_quad_mem:
  assumes "(sig, e) \<in> set (bp_stats bp)"
  shows "\<exists>f. (sig_key sig, size_class sig, final_verdict demote lifts fraction bp sig e, f)
    \<in> set (fst (freeze_tables legacy demote lifts fraction gate bp))"
proof -
  obtain sh dp tail where q: "fst (freeze_tables legacy demote lifts fraction gate bp)
     = map (main_quad sh dp) (frozen_main (demote_for demote lifts) fraction bp) @ tail"
    using main_quads_eq by blast
  let ?h = "is_heavy fraction (bandit_freeze bp) (total_pulls e)"
  have "(sig_key sig, size_class sig, verdict e, total_pulls e) \<in> set (bandit_freeze bp)"
    using assms by (force simp: bandit_freeze_def)
  then have "(sig_key sig, size_class sig, final_verdict demote lifts fraction bp sig e, ?h)
      \<in> set (frozen_main (demote_for demote lifts) fraction bp)"
    by (force simp: frozen_main_def clamp_entries_def final_verdict_def Let_def image_iff)
  then have "main_quad sh dp (sig_key sig, size_class sig, final_verdict demote lifts fraction bp sig e, ?h)
      \<in> set (fst (freeze_tables legacy demote lifts fraction gate bp))"
    unfolding q by (simp only: set_append set_map) blast
  then show ?thesis by (auto simp: main_quad_def)
qed

lemma lookup_distinct:
  assumes "from_entries_flagged qs = Return t" "length qs < 2 ^ 64" "distinct (map fst qs)" "(k, sc, b, f) \<in> set qs"
  shows "lookup t k = Some b"
proof -
  let ?g = "\<lambda>(k, sc, b, f). (k, (b, f AND 0x3F)) :: u64 \<times> backend \<times> u8"
  have "map fst (map ?g qs) = map fst qs" by (induction qs) (auto split: prod.split)
  then have "distinct (map fst (rev (map ?g qs)))" using assms(3) by (simp only: rev_map [symmetric] distinct_rev)
  moreover have "(k, (b, f AND 0x3F)) \<in> set (rev (map ?g qs))" using assms(4) by force
  ultimately have "map_of (rev (map ?g qs)) k = Some (b, f AND 0x3F)" by simp
  then show ?thesis using frozen_lookup [OF assms(1,2), of k] by simp
qed

text \<open>
  A backend is the best arm of a signature: no arm has a greater mean reward, and of equally good arms it is the last.
\<close>

definition best_arm :: "signature_stats \<Rightarrow> backend \<Rightarrow> bool" where
  "best_arm e b \<longleftrightarrow> (\<exists>i < 4. b = [Slab, Buddy, System, Arena] ! i
     \<and> (\<forall>j \<le> i. fp_le (mean_reward (arms e ! j)) (mean_reward (arms e ! i)))
     \<and> (\<forall>j. i < j \<longrightarrow> j < 4 \<longrightarrow> fp_lt (mean_reward (arms e ! j)) (mean_reward (arms e ! i))))"

definition no_nan :: "signature_stats \<Rightarrow> bool" where
  "no_nan e \<longleftrightarrow> length (arms e) = 4 \<and> (\<forall>j < 4. mean_reward (arms e ! j) \<noteq> NaN)"

lemma foldl_last_max:
  assumes "\<forall>y \<in> set (x # xs). f y \<noteq> NaN"
  shows "\<exists>ys m zs. foldl (\<lambda>a b. if fp_lt (f b) (f a) then a else b) x xs = m \<and> x # xs = ys @ m # zs
    \<and> (\<forall>y \<in> set (ys @ [m]). fp_le (f y) (f m)) \<and> (\<forall>z \<in> set zs. fp_lt (f z) (f m))"
  using assms
proof (induction xs rule: rev_induct)
  case Nil
  then show ?case by (intro exI [of _ "[]"] exI [of _ x] exI [of _ "[]"]) (simp add: fp_le_refl)
next
  case (snoc b xs)
  let ?m = "foldl (\<lambda>a b. if fp_lt (f b) (f a) then a else b) x xs"
  have "\<forall>y \<in> set (x # xs). f y \<noteq> NaN" using snoc.prems by simp
  from snoc.IH [OF this] obtain ys zs where I: "x # xs = ys @ ?m # zs" "\<forall>y \<in> set (ys @ [?m]). fp_le (f y) (f ?m)"
    "\<forall>z \<in> set zs. fp_lt (f z) (f ?m)" by blast
  have nn: "f b \<noteq> NaN" "f ?m \<noteq> NaN"
    using snoc.prems I(1) by (simp, metis (no_types, lifting) Un_iff append_Cons in_set_conv_decomp set_append)
  show ?case
  proof (cases "fp_lt (f b) (f ?m)")
    case True
    then show ?thesis using I by (intro exI [of _ ys] exI [of _ ?m] exI [of _ "zs @ [b]"]) simp
  next
    case False
    then have le: "fp_le (f ?m) (f b)" using nn fp_not_lt by blast
    have "fp_le (f y) (f b)" if "y \<in> set (x # xs)" for y
      using that I fp_le_trans [OF _ le] unfolding I(1) by (auto simp: fp_le_def)
    then show ?thesis using False nn
      by (intro exI [of _ "x # xs"] exI [of _ b] exI [of _ "[]"]) (auto simp: fp_le_refl)
  qed
qed

lemma less_4_cases: "(i :: nat) < 4 \<longleftrightarrow> i = 0 \<or> i = 1 \<or> i = 2 \<or> i = 3" by linarith

lemma verdict_best_arm:
  assumes "no_nan e" shows "best_arm e (verdict e)"
proof -
  let ?f = "\<lambda>(i, a). mean_reward a"
  let ?xs = "enumerate 0 (arms e)"
  have len: "length (arms e) = 4" and nn: "\<forall>j < 4. mean_reward (arms e ! j) \<noteq> NaN" using assms by (simp_all add: no_nan_def)
  then obtain x rest where xs: "?xs = x # rest" by (cases ?xs) (auto simp: enumerate_eq_zip)
  have "\<forall>y \<in> set (x # rest). ?f y \<noteq> NaN"
    using nn len unfolding xs [symmetric] by (auto simp: in_set_enumerate_eq)
  from foldl_last_max [OF this] obtain ys m zs where
    M: "foldl (\<lambda>a b. if fp_lt (?f b) (?f a) then a else b) x rest = m" "?xs = ys @ m # zs"
      "\<forall>y \<in> set (ys @ [m]). fp_le (?f y) (?f m)" "\<forall>z \<in> set zs. fp_lt (?f z) (?f m)"
    unfolding xs by blast
  have nth: "?xs ! j = (j, arms e ! j)" if "j < 4" for j using that len by (simp add: nth_enumerate_eq)
  let ?i = "length ys"
  have "length ?xs = 4" using len by simp
  then have l4: "?i + length zs = 3" unfolding M(2) by simp
  then have m: "m = (?i, arms e ! ?i)" using nth [of ?i] unfolding M(2) by simp
  have le: "fp_le (mean_reward (arms e ! j)) (mean_reward (arms e ! ?i))" if "j \<le> ?i" for j
  proof -
    have "(ys @ m # zs) ! j \<in> set (ys @ [m])" using that by (cases "j = ?i") (auto simp: nth_append)
    then have "fp_le (?f ((ys @ m # zs) ! j)) (?f m)" using M(3) by blast
    moreover have "(ys @ m # zs) ! j = (j, arms e ! j)" using nth [of j] that l4 unfolding M(2) by simp
    ultimately show ?thesis by (simp add: m)
  qed
  have lt: "fp_lt (mean_reward (arms e ! j)) (mean_reward (arms e ! ?i))" if "?i < j" "j < 4" for j
  proof -
    have "(ys @ m # zs) ! j = zs ! (j - ?i - 1)" using that by (simp add: nth_append nth_Cons')
    moreover have "zs ! (j - ?i - 1) \<in> set zs" using that l4 by (intro nth_mem) linarith
    ultimately have "fp_lt (?f ((ys @ m # zs) ! j)) (?f m)" using M(4) by simp
    moreover have "(ys @ m # zs) ! j = (j, arms e ! j)" using nth [OF that(2)] unfolding M(2) .
    ultimately show ?thesis by (simp add: m)
  qed
  have "best_arm_index e = ?i" using M(1) by (simp add: best_arm_index_def last_max_def xs m)
  moreover have i4: "?i < 4" using l4 by linarith
  moreover have "backend_from_index ?i = [Slab, Buddy, System, Arena] ! ?i"
    using i4 unfolding less_4_cases by (auto simp: backend_from_index_def)
  ultimately show ?thesis using le lt unfolding best_arm_def verdict_def by (intro exI [of _ ?i]) simp
qed

text \<open>
  C26: When the 64-bit keys of the entries do not collide, a frozen engine routes each signature that was
  trained as training concluded: to the arm with the best mean reward (the last of equally good ones, when no mean is a
  NaN), clamped to what can be served at its size class, and with Arena demoted there for a signature whose share of the
  pulls reaches the threshold.
\<close>
theorem frozen_serves_verdicts:
  assumes "engine_freeze legacy demote lifts fraction gate st = Return st'" and "state_size st < 2 ^ 32"
    and "st = Training bp p" and "frozen_keys_distinct legacy demote lifts fraction gate bp"
    and "(Signature hash (size_class_for sz), e) \<in> set (bp_stats bp)" and "no_nan e"
  shows "\<exists>b. best_arm e b \<and> route lnf cfg hash sz st' =
    (clamp_backend_for_size_class (size_class_for sz) b
       (demote_for demote lifts (is_heavy fraction (bandit_freeze bp) (total_pulls e)) (size_class_for sz)), st')"
proof -
  let ?sig = "Signature hash (size_class_for sz)"
  obtain bp' p' mq dq m d where f: "st = Training bp' p'" "st' = Inference (frozen_routing_new m d)"
    "fst (freeze_tables legacy demote lifts fraction gate bp') = mq" "from_entries_flagged mq = Return m" "length mq < 2 ^ 32"
    using freeze_planes [OF assms(1,2)] by blast
  have mq: "fst (freeze_tables legacy demote lifts fraction gate bp) = mq" using f(1,3) assms(3) by simp
  obtain fl where "(sig_key ?sig, size_class ?sig, final_verdict demote lifts fraction bp ?sig e, fl) \<in> set mq"
    using main_quad_mem [OF assms(5), where legacy = legacy and demote = demote and lifts = lifts and fraction = fraction
        and gate = gate] unfolding mq by blast
  then have "lookup m (sig_key ?sig) = Some (final_verdict demote lifts fraction bp ?sig e)"
    using f(4,5) assms(4) unfolding frozen_keys_distinct_def mq by (intro lookup_distinct) auto
  then have "route lnf cfg hash sz st' = (final_verdict demote lifts fraction bp ?sig e, st')"
    by (simp add: route_def route_with_frame_def f(2) frozen_routing_new_def sig_key_def)
  then show ?thesis using verdict_best_arm [OF assms(6)]
    by (intro exI [of _ "verdict e"]) (simp add: final_verdict_def)
qed

lemma demo_distinct: "demo_state = Training bp pending_new \<Longrightarrow> frozen_keys_distinct legacy demote lifts fraction gate bp"
proof -
  assume d: "demo_state = Training bp pending_new"
  have "trained_size bp = 1" using demo_state_eq unfolding d by (metis allocator_state.inject(1))
  then have "length (fst (freeze_tables legacy demote lifts fraction gate bp)) \<le> 1"
    using tables_length(1) [of legacy demote lifts fraction gate bp] by (cases "freeze_tables legacy demote lifts fraction gate bp") auto
  then show ?thesis using short_list unfolding frozen_keys_distinct_def by fastforce
qed

lemma f64_of_1: "f64_of (1 :: u32) = Fin 1" by (simp add: f64_of_def)
lemma f64_of_2: "f64_of (2 :: u32) = Fin 2" using f64_round_int [of 2] by (simp add: f64_of_def)

lemma fresh_no_nan: "no_nan (count_pull b (entry_for defaults_const sig frame bandit_new))"
proof -
  have R: "f64_div (f64_round x) (Fin 1) \<noteq> NaN" "f64_div (f64_round x) (Fin 2) \<noteq> NaN"
    "f64_div (Fin 1) (Fin 1) \<noteq> NaN" "f64_div (Fin 1) (Fin 2) \<noteq> NaN" for x
    by (cases "f64_round x"; simp add: f64_div_def)+
  have all: "(\<forall>j < 4. P j) \<longleftrightarrow> P 0 \<and> P 1 \<and> P 2 \<and> P 3" for P :: "nat \<Rightarrow> bool"
    unfolding less_4_cases by blast
  show ?thesis
    by (cases b) (simp_all add: no_nan_def all count_pull_def entry_for_def bandit_new_def bt_entry_def bt_get_def
        signature_stats_new_def arm_new_def mean_reward_def defaults_const_def backend_index_def f64_of_1 f64_of_2 Let_def R)
qed

lemma demo_stats:
  "\<exists>bp e. demo_state = Training bp pending_new \<and> (Signature 7 (size_class_for 100), e) \<in> set (bp_stats bp) \<and> no_nan e"
  by (simp add: demo_state_def train_def new_training_def route_with_frame_def case_prod_beta select_eq Let_def bandit_new_def
      fresh_no_nan [unfolded bandit_new_def])

lemma frozen_serves_verdicts_witness:
  "\<exists>st' b. engine_freeze False True False (Fin 0) (Fin 0) demo_state = Return st'
     \<and> route (\<lambda>_. Fin 1) defaults_const 7 100 st' = (b, st')"
proof -
  obtain st' where f: "engine_freeze False True False (Fin 0) (Fin 0) demo_state = Return st'" using demo_freezes by blast
  obtain bp e where d: "demo_state = Training bp pending_new" "(Signature 7 (size_class_for 100), e) \<in> set (bp_stats bp)" "no_nan e"
    using demo_stats by blast
  show ?thesis
    using frozen_serves_verdicts [OF f demo_state_size d(1) demo_distinct [OF d(1)] d(2,3), of "\<lambda>_. Fin 1" defaults_const] f by blast
qed

section \<open>The distilled table holds no site that is routed by context\<close>

definition sigs :: "bandit_policy \<Rightarrow> signature set" where
  "sigs bp = fst ` set (bp_stats bp) \<union> fst ` fst ` set (bp_fine bp) \<union> fst ` fst ` set (bp_fine_deep bp)"

definition frames_ok :: "bandit_policy \<Rightarrow> fine_freeze \<Rightarrow> bool" where
  "frames_ok bp out \<longleftrightarrow> bt_ok (ff_flagged_frames out) \<and>
     (\<forall>(fk, ck, sc, b) \<in> set (ff_entries out) \<union> set (ff_deep_entries out). \<exists>sig \<in> sigs bp. ck = sig_key sig \<and>
        (\<forall>e. bt_get sig (bp_stats bp) = Some e \<longrightarrow> one_frame e \<noteq> 0 \<longrightarrow>
           bt_get ck (ff_flagged_frames out) = Some (one_frame e, size_class sig)))"

lemma frames_ok_note:
  assumes F: "frames_ok bp out" and sig: "sig \<in> sigs bp" and inj: "inj_on sig_key (sigs bp)"
    and fr: "ff_flagged_frames out' = ff_flagged_frames out"
    and en: "set (ff_entries out') \<union> set (ff_deep_entries out')
      = insert (x, sig_key sig, sc, b) (set (ff_entries out) \<union> set (ff_deep_entries out))"
  shows "frames_ok bp (note_frame bp sig out')"
proof -
  let ?new = "ff_flagged_frames (note_frame bp sig out')" and ?old = "ff_flagged_frames out"
  have N: "?new = (case bt_get sig (bp_stats bp) of
      Some e \<Rightarrow> if one_frame e \<noteq> 0 then bt_insert (sig_key sig) (one_frame e, size_class sig) ?old else ?old | None \<Rightarrow> ?old)"
    by (simp add: note_frame_def fr split: option.split)
  have ok: "bt_ok ?old" using F by (simp add: frames_ok_def)
  have good: "bt_get (sig_key s) ?new = Some (one_frame e, size_class s)"
    if "s \<in> sigs bp" "bt_get s (bp_stats bp) = Some e" "one_frame e \<noteq> 0"
      "s = sig \<or> bt_get (sig_key s) ?old = Some (one_frame e, size_class s)" for s e
  proof (cases "s = sig")
    case True
    then show ?thesis using that ok by (simp add: N bt_get_insert)
  next
    case False
    then have "sig_key s \<noteq> sig_key sig" using inj that(1) sig by (auto dest: inj_onD)
    then show ?thesis using that False ok by (auto simp: N bt_get_insert split: option.split)
  qed
  have okn: "bt_ok ?new" using ok by (simp add: N split: option.split)
  have "\<exists>s \<in> sigs bp. ck = sig_key s \<and> (\<forall>e. bt_get s (bp_stats bp) = Some e \<longrightarrow> one_frame e \<noteq> 0 \<longrightarrow>
       bt_get ck ?new = Some (one_frame e, size_class s))"
    if "(fk, ck, c, d) \<in> insert (x, sig_key sig, sc, b) (set (ff_entries out) \<union> set (ff_deep_entries out))" for fk ck c d
  proof (cases "(fk, ck, c, d) = (x, sig_key sig, sc, b)")
    case True
    then show ?thesis using sig good by blast
  next
    case False
    then have "(fk, ck, c, d) \<in> set (ff_entries out) \<union> set (ff_deep_entries out)"
      using that unfolding insert_iff by blast
    then obtain s where "s \<in> sigs bp" "ck = sig_key s" "\<And>e. bt_get s (bp_stats bp) = Some e \<Longrightarrow> one_frame e \<noteq> 0 \<Longrightarrow>
        bt_get ck ?old = Some (one_frame e, size_class s)"
      using F unfolding frames_ok_def by fast
    then show ?thesis using good by blast
  qed
  then show ?thesis unfolding frames_ok_def note_frame_entries en using okn by fast
qed

lemma fine_step_frames:
  assumes "frames_ok bp out" "inj_on sig_key (sigs bp)" "row \<in> set (bp_fine bp)"
  shows "frames_ok bp (fine_step bp cf out row)"
proof -
  obtain sig ctx f where row: "row = ((sig, ctx), f)" by (cases row) auto
  have sig: "sig \<in> sigs bp" using assms(3) by (force simp: row sigs_def)
  show ?thesis
    unfolding fine_step_def row
    by (auto split: option.split simp: assms(1) intro!: frames_ok_note [OF assms(1) sig assms(2)])
qed

lemma deep_step_frames:
  assumes "frames_ok bp out" "inj_on sig_key (sigs bp)" "row \<in> set (bp_fine_deep bp)"
  shows "frames_ok bp (deep_step bp cf gate out row)"
proof -
  obtain sig ctx f where row: "row = ((sig, ctx), f)" by (cases row) auto
  have sig: "sig \<in> sigs bp" using assms(3) by (force simp: row sigs_def)
  show ?thesis
    unfolding deep_step_def row
    by (auto split: option.split simp: assms(1) intro!: frames_ok_note [OF assms(1) sig assms(2)])
qed

lemma foldl_inv:
  assumes "P x" "\<And>x r. P x \<Longrightarrow> r \<in> set rs \<Longrightarrow> P (f x r)" shows "P (foldl f x rs)"
  using assms by (induction rs arbitrary: x) auto

lemma freeze_fine_frames:
  assumes "inj_on sig_key (sigs bp)" shows "frames_ok bp (freeze_fine cf gate bp)"
proof -
  have n: "frames_ok bp fine_freeze_new" by (simp add: frames_ok_def fine_freeze_new_def)
  have s: "frames_ok bp (foldl (fine_step bp cf) fine_freeze_new (bp_fine bp))"
    by (rule foldl_inv [where P = "frames_ok bp"]) (auto intro: n fine_step_frames assms)
  have "frames_ok bp (foldl (deep_step bp cf gate) (foldl (fine_step bp cf) fine_freeze_new (bp_fine bp)) (bp_fine_deep bp))"
    by (rule foldl_inv [where P = "frames_ok bp"]) (auto intro: s deep_step_frames assms)
  then show ?thesis using s by (simp add: freeze_fine_def Let_def)
qed

lemma freeze_tables_parts:
  assumes "freeze_tables legacy da lifts fraction gate bp = (mq, dl)"
  shows "\<exists>d fine sh dp. d = demote_for da lifts \<and> fine = freeze_fine (final_map_of (frozen_main d fraction bp)) gate bp
    \<and> parents sh \<subseteq> (\<lambda>(_, ck, _, _). ck) ` set (ff_entries fine)
    \<and> parents dp \<subseteq> (\<lambda>(_, ck, _, _). ck) ` set (ff_deep_entries fine)
    \<and> mq = map (main_quad (parents sh) (parents dp)) (frozen_main d fraction bp) @ map fine_quad (sh @ dp)
    \<and> dl = distilled_entries d fraction (excluded_keys legacy (parents sh \<union> parents dp) (ff_flagged_frames fine)) bp"
proof -
  define d where "d = demote_for da lifts"
  define mc where "mc = frozen_main d fraction bp"
  define fine where "fine = freeze_fine (final_map_of mc) gate bp"
  define sh where "sh = surviving d (final_map_of mc) (heavy_map_of mc) (ff_entries fine)"
  define dp where "dp = surviving d (final_map_of mc) (heavy_map_of mc) (ff_deep_entries fine)"
  have p: "parents (surviving d fm hm es) \<subseteq> (\<lambda>(_, ck, _, _). ck) ` set es" for fm hm es
    by (force simp: parents_def surviving_def clamp_fine_def Let_def)
  have "mq = map (main_quad (parents sh) (parents dp)) mc @ map fine_quad (sh @ dp)"
    "dl = distilled_entries d fraction (excluded_keys legacy (parents sh \<union> parents dp) (ff_flagged_frames fine)) bp"
    using assms by (simp_all add: freeze_tables_def Let_def d_def mc_def fine_def sh_def dp_def)
  then show ?thesis unfolding mc_def using p [of "final_map_of mc" "heavy_map_of mc"] fine_def [unfolded mc_def] d_def
    by (metis sh_def dp_def)
qed

lemma excluded_mem:
  assumes "bt_ok frames" "bt_get ck frames = Some (frame, sc)" "ck \<in> P"
  shows "combine_hash_size_class frame sc \<in> excluded_keys legacy P frames"
  using assms bt_get_mem [of frames ck "(frame, sc)"] by (force simp: excluded_keys_def)

lemma frames_okD:
  assumes "frames_ok bp out" "(fk, ck, sc, b) \<in> set (ff_entries out) \<union> set (ff_deep_entries out)"
  shows "\<exists>sig \<in> sigs bp. ck = sig_key sig \<and> (\<forall>e. bt_get sig (bp_stats bp) = Some e \<longrightarrow> one_frame e \<noteq> 0 \<longrightarrow>
    bt_get ck (ff_flagged_frames out) = Some (one_frame e, size_class sig))"
  using assms(1) [unfolded frames_ok_def, THEN conjunct2, THEN bspec, OF assms(2)] by simp

lemma flagged_excluded:
  assumes t: "freeze_tables legacy da lifts fraction gate bp = (mq, dl)" and ok: "bandit_ok bp"
    and inj: "inj_on sig_key (sigs bp)" and d: "distinct (map fst mq)"
    and sig: "(sig, e) \<in> set (bp_stats bp)" "one_frame e \<noteq> 0"
    and q: "(sig_key sig, sc, b, f) \<in> set mq" "f \<noteq> 0"
  shows "combine_hash_size_class (one_frame e) (size_class sig) \<notin> fst ` set dl"
proof -
  obtain dm fine sh dp where P: "fine = freeze_fine (final_map_of (frozen_main dm fraction bp)) gate bp"
    "parents sh \<subseteq> (\<lambda>(_, ck, _, _). ck) ` set (ff_entries fine)"
    "parents dp \<subseteq> (\<lambda>(_, ck, _, _). ck) ` set (ff_deep_entries fine)"
    "mq = map (main_quad (parents sh) (parents dp)) (frozen_main dm fraction bp) @ map fine_quad (sh @ dp)"
    "dl = distilled_entries dm fraction (excluded_keys legacy (parents sh \<union> parents dp) (ff_flagged_frames fine)) bp"
    using freeze_tables_parts [OF t] by blast
  have "(sig_key sig, sc, b, f) \<notin> set (map fine_quad (sh @ dp))" using q(2) by (auto simp: fine_quad_def)
  then have "(sig_key sig, sc, b, f) \<in> set (map (main_quad (parents sh) (parents dp)) (frozen_main dm fraction bp))"
    using q(1) unfolding P(4) by simp
  then have in_par: "sig_key sig \<in> parents sh \<union> parents dp" using q(2) by (auto simp: main_quad_def split: if_splits)
  then have "\<exists>fk c b'. (fk, sig_key sig, c, b') \<in> set (ff_entries fine) \<union> set (ff_deep_entries fine)"
  proof -
    have "sig_key sig \<in> (\<lambda>(_, ck, _, _). ck) ` (set (ff_entries fine) \<union> set (ff_deep_entries fine))"
      using in_par P(2,3) unfolding image_Un by blast
    then show ?thesis by force
  qed
  then obtain fk c b' where mem: "(fk, sig_key sig, c, b') \<in> set (ff_entries fine) \<union> set (ff_deep_entries fine)" by blast
  have fro: "frames_ok bp fine" unfolding P(1) by (rule freeze_fine_frames [OF inj])
  then have okf: "bt_ok (ff_flagged_frames fine)" by (simp add: frames_ok_def)
  obtain s where s: "s \<in> sigs bp" "sig_key sig = sig_key s"
    "\<forall>e. bt_get s (bp_stats bp) = Some e \<longrightarrow> one_frame e \<noteq> 0 \<longrightarrow>
       bt_get (sig_key sig) (ff_flagged_frames fine) = Some (one_frame e, size_class s)"
    using frames_okD [OF fro mem] by blast
  have "sig \<in> sigs bp" using sig(1) by (force simp: sigs_def)
  then have "s = sig" using inj s(1,2) by (auto dest: inj_onD)
  moreover have "bt_get sig (bp_stats bp) = Some e" using sig(1) ok by (simp add: bt_get_mem bandit_ok_def)
  ultimately have "bt_get (sig_key sig) (ff_flagged_frames fine) = Some (one_frame e, size_class sig)" using s(3) sig(2) by blast
  then have "combine_hash_size_class (one_frame e) (size_class sig)
      \<in> excluded_keys legacy (parents sh \<union> parents dp) (ff_flagged_frames fine)"
    using excluded_mem okf in_par by blast
  then show ?thesis unfolding P(5) distilled_entries_def by auto
qed

lemma lookup_flags_distinct:
  assumes "from_entries_flagged qs = Return t" "length qs < 2 ^ 64" "lookup_with_flags t k = Some (b, f)"
  shows "\<exists>sc f'. (k, sc, b, f') \<in> set qs \<and> f = f' AND 0x3F"
proof -
  have "map_of (rev (map (\<lambda>(k, sc, b, f). (k, (b, f AND 0x3F))) qs)) k = Some (b, f)"
    using frozen_lookup [OF assms(1,2), of k] assms(3) by simp
  then show ?thesis by (force dest!: map_of_SomeD)
qed

lemma lookup_absent:
  assumes "from_entries_flagged qs = Return t" "length qs < 2 ^ 64" "k \<notin> fst ` set qs"
  shows "lookup t k = None"
proof -
  have "map_of (rev (map (\<lambda>(k, sc, b, f). (k, (b, f AND 0x3F))) qs)) k = None"
    using assms(3) by (force simp: map_of_eq_None_iff)
  then show ?thesis using frozen_lookup [OF assms(1,2), of k] by simp
qed

text \<open>
  C28: The pin cache, which serves the distilled table with no further check, never serves a site that the
  main table routes by context: when the entry of a trained signature with a known leaf frame carries a context flag,
  the distilled table has no entry for that frame at the size class of the signature, also when other sites share the
  frame. This needs that the 64-bit keys of the main table and of the trained signatures do not collide, and the
  bookkeeping of a reachable engine (sorted maps, four arms).
\<close>
theorem pin_never_bypasses_context:
  assumes "engine_freeze legacy demote lifts fraction gate st = Return (Inference fr)" and "state_size st < 2 ^ 32"
    and "st = Training bp p" and "bandit_ok bp"
    and "frozen_keys_distinct legacy demote lifts fraction gate bp" and "inj_on sig_key (sigs bp)"
    and "(sig, e) \<in> set (bp_stats bp)" and "one_frame e \<noteq> 0"
    and "lookup_with_flags (fr_main fr) (sig_key sig) = Some (b, f)" and "f \<noteq> 0"
  shows "lookup (fr_distilled fr) (combine_hash_size_class (one_frame e) (size_class sig)) = None"
proof -
  obtain bp' p' mq dl m d where t': "st = Training bp' p'" "freeze_tables legacy demote lifts fraction gate bp' = (mq, dl)"
    "from_entries_flagged mq = Return m" "from_entries dl = Return d" "Inference fr = Inference (frozen_routing_new m d)"
    by (rule rust_cases [OF assms(1)])
  have t: "freeze_tables legacy demote lifts fraction gate bp = (mq, dl)"
    "from_entries_flagged mq = Return m" "from_entries dl = Return d" "fr = frozen_routing_new m d"
    using t' assms(3) by simp_all
  have l: "length mq < 2 ^ 64" "length dl < 2 ^ 64"
    using tables_length [OF t(1)] assms(2) by (simp_all add: assms(3) state_size_def)
  have f: "fr_main fr = m" "fr_distilled fr = d" by (simp_all add: t(4) frozen_routing_new_def)
  obtain sc f' where q: "(sig_key sig, sc, b, f') \<in> set mq" "f = f' AND 0x3F"
    using lookup_flags_distinct [OF t(2) l(1)] assms(9) unfolding f by blast
  have "f' \<noteq> 0" using q(2) assms(10) by auto
  then have "combine_hash_size_class (one_frame e) (size_class sig) \<notin> fst ` set dl"
    using flagged_excluded [OF t(1) assms(4,6) _ assms(7,8) q(1)] assms(5) by (simp add: frozen_keys_distinct_def t(1))
  then have "combine_hash_size_class (one_frame e) (size_class sig) \<notin> fst ` set (map (\<lambda>(h, sc, b). (h, sc, b, 0 :: u8)) dl)"
    by force
  then show ?thesis unfolding f using lookup_absent [OF t(3) [unfolded from_entries_def]] l(2) by simp
qed

text \<open>A signature that wants Slab, and Arena under the history \<open>5\<close>.\<close>

definition context_entry :: signature_stats where
  "context_entry =
     \<lparr>arms = [arm_new (Fin 1), arm_new (Fin 0), arm_new (Fin 0), arm_new (Fin 0)], total_pulls = 4,
      last_choice = None, stable_count = 0, one_frame = 9\<rparr>"

definition context_bandit :: bandit_policy where
  "context_bandit =
     \<lparr>bp_stats = [(Signature 7 3, context_entry)],
      bp_fine = [((Signature 7 3, 5), \<lparr>fine_sum = [Fin 16, Fin 0, Fin 0, Fin 32], fine_pulls = [32, 0, 0, 32]\<rparr>)],
      bp_fine_deep = []\<rparr>"

definition context_key :: u64 where "context_key = sig_key (Signature 7 3)"

lemma context_main: "frozen_main (demote_for False False) (Fin 0) context_bandit = [(context_key, 3, Slab, True)]"
proof -
  have v: "verdict context_entry = Slab" by code_simp
  have h: "is_heavy (Fin 0) [(k, c, b, 4 :: u32)] 4" for k :: u64 and c :: u8 and b :: backend
    using f64_round_int [of 4] by (simp add: is_heavy_def f64_of_def f64_div_def)
  show ?thesis
    using v by (simp add: frozen_main_def bandit_freeze_def clamp_entries_def context_bandit_def context_entry_def h demote_for_def
        clamp_backend_for_size_class_def context_key_def)
qed

lemma context_fine:
  "freeze_fine [(context_key, Slab)] (Fin 0) context_bandit =
     \<lparr>ff_entries = [(combine_key_ctx context_key 5, context_key, 3, Arena)], ff_flagged = {context_key},
      ff_flagged_frames = [(context_key, (9, 3))], ff_deep_entries = [], ff_deep_flagged = {}\<rparr>"
proof -
  have "fine_override \<lparr>fine_sum = [Fin 16, Fin 0, Fin 0, Fin 32], fine_pulls = [32, 0, 0, 32]\<rparr> Slab = Some (Arena, Fin (1/2))"
    by code_simp
  then show ?thesis
    by (simp add: freeze_fine_def fine_step_def context_key_def [symmetric] bt_get_def note_frame_def context_bandit_def
        context_entry_def fine_freeze_new_def)
qed

lemma context_tables:
  "fst (freeze_tables False False False (Fin 0) (Fin 0) context_bandit)
     = [(context_key, 3, Slab, FLAG_HAS_CONTEXT), (combine_key_ctx context_key 5, 3, Arena, 0)]"
proof -
  have m: "final_map_of [(context_key, 3, Slab, True)] = [(context_key, Slab)]"
    "heavy_map_of [(context_key, 3, Slab, True)] = [(context_key, True)]"
    by (simp_all add: final_map_of_def heavy_map_of_def bt_collect_def)
  have s: "surviving (demote_for False False) [(context_key, Slab)] [(context_key, True)] [(x, context_key, 3, Arena)]
      = [(x, context_key, 3, Arena)]"
    "surviving (demote_for False False) [(context_key, Slab)] [(context_key, True)] [] = []" for x
    by (simp_all add: surviving_def clamp_fine_def bt_get_def demote_for_def clamp_backend_for_size_class_def)
  show ?thesis
    unfolding freeze_tables_def Let_def context_main m context_fine fst_conv
    by (simp add: s parents_def main_quad_def fine_quad_def)
qed

lemma context_freezes:
  "\<exists>fr. engine_freeze False False False (Fin 0) (Fin 0) (Training context_bandit pending_new) = Return (Inference fr)
     \<and> lookup_with_flags (fr_main fr) context_key = Some (Slab, FLAG_HAS_CONTEXT)"
proof -
  let ?mq = "[(context_key, 3, Slab, FLAG_HAS_CONTEXT), (combine_key_ctx context_key 5, 3, Arena, 0)]"
  obtain dl where t: "freeze_tables False False False (Fin 0) (Fin 0) context_bandit = (?mq, dl)"
    using context_tables by (metis prod.collapse)
  have "length dl \<le> 1"
  proof -
    have "length dl \<le> length (distill context_bandit)"
      using t by (auto simp: freeze_tables_def Let_def distilled_entries_def clamp_entries_def intro: order_trans [OF length_filter_le])
    also have "\<dots> \<le> length (bp_stats context_bandit)"
      unfolding distill_def by (rule order_trans [OF map_filter_length distill_groups_length])
    finally show ?thesis by (simp add: context_bandit_def)
  qed
  then have "length (map (\<lambda>(h, sc, b). (h, sc, b, 0::u8)) dl) \<le> 1" by simp
  then have "from_entries dl \<noteq> Panic" using small_models_build short_list unfolding from_entries_def by metis
  then obtain d where d: "from_entries dl = Return d" by (meson rust.exhaust)
  have "case from_entries_flagged ?mq of Panic \<Rightarrow> False | Return t \<Rightarrow> True" by code_simp
  then obtain m where m: "from_entries_flagged ?mq = Return m" by (cases "from_entries_flagged ?mq") auto
  have k: "combine_key_ctx context_key 5 \<noteq> context_key" by code_simp
  have "lookup_with_flags m context_key = Some (Slab, FLAG_HAS_CONTEXT)"
    using frozen_lookup [OF m, of context_key] k by (simp add: FLAG_HAS_CONTEXT_def)
  then show ?thesis by (simp add: engine_freeze_def t m d frozen_routing_new_def)
qed

lemma pin_never_bypasses_context_witness:
  "\<exists>fr. engine_freeze False False False (Fin 0) (Fin 0) (Training context_bandit pending_new) = Return (Inference fr)
     \<and> lookup_with_flags (fr_main fr) (sig_key (Signature 7 3)) = Some (Slab, FLAG_HAS_CONTEXT)
     \<and> lookup (fr_distilled fr) (combine_hash_size_class 9 3) = None"
proof -
  obtain fr where fr: "engine_freeze False False False (Fin 0) (Fin 0) (Training context_bandit pending_new) = Return (Inference fr)"
    and l: "lookup_with_flags (fr_main fr) (sig_key (Signature 7 3)) = Some (Slab, FLAG_HAS_CONTEXT)"
    using context_freezes unfolding context_key_def by blast
  have ok: "bandit_ok context_bandit"
    by (simp add: bandit_ok_def fine_ok_def context_bandit_def context_entry_def bt_ok_def arm_new_def)
  have k: "combine_key_ctx context_key 5 \<noteq> context_key" by code_simp
  have d: "frozen_keys_distinct False False False (Fin 0) (Fin 0) context_bandit"
    using k by (simp add: frozen_keys_distinct_def context_tables)
  have i: "inj_on sig_key (sigs context_bandit)" by (simp add: sigs_def context_bandit_def)
  have s: "state_size (Training context_bandit pending_new) < 2 ^ 32" by (simp add: state_size_def trained_size_def context_bandit_def)
  have m: "(Signature 7 3, context_entry) \<in> set (bp_stats context_bandit)" by (simp add: context_bandit_def)
  have o: "one_frame context_entry \<noteq> 0" by (simp add: context_entry_def)
  have f: "FLAG_HAS_CONTEXT \<noteq> 0" by (simp add: FLAG_HAS_CONTEXT_def)
  have "lookup (fr_distilled fr) (combine_hash_size_class (one_frame context_entry) (size_class (Signature 7 3))) = None"
    by (rule pin_never_bypasses_context [OF fr s refl ok d i m o l f])
  then show ?thesis using fr l by (simp add: context_entry_def)
qed

end
