(* ===== verification/EngineDistill.thy ===== *)
theory EngineDistill
  imports EngineFreeze
begin

text \<open>
  The distilled table: an entry stands for the signatures of a leaf frame and a size class, exists
  exactly when their verdicts agree, and is demoted whenever one of them is. The converse does not hold, so a
  pinned site can be routed otherwise than the main table routes it.
\<close>

section \<open>Groups\<close>

definition group_of :: "(signature \<times> signature_stats) list \<Rightarrow> u64 \<Rightarrow> u8 \<Rightarrow> (signature \<times> signature_stats) list" where
  "group_of rows frame sc = filter (\<lambda>(sig, e). one_frame e = frame \<and> size_class sig = sc) rows"

definition agreed_of :: "(signature \<times> signature_stats) list \<Rightarrow> backend option" where
  "agreed_of ms = (if \<forall>m \<in> set ms. verdict (snd m) = verdict (snd (hd ms)) then Some (verdict (snd (hd ms))) else None)"

definition pulls_of :: "(signature \<times> signature_stats) list \<Rightarrow> u64" where
  "pulls_of ms = sum_list (map (\<lambda>m. ucast (total_pulls (snd m))) ms)"

definition group_value :: "(signature \<times> signature_stats) list \<Rightarrow> u64 \<Rightarrow> u8 \<Rightarrow> (backend option \<times> u64) option" where
  "group_value rows frame sc =
     (let ms = group_of rows frame sc in if frame = 0 \<or> ms = [] then None else Some (agreed_of ms, pulls_of ms))"

lemma agreed_of_snoc:
  "agreed_of (ms @ [m]) = (if ms = [] then Some (verdict (snd m))
     else if agreed_of ms \<noteq> Some (verdict (snd m)) then None else agreed_of ms)"
  by (cases ms) (auto simp: agreed_of_def)

lemma agreed_of_single [simp]: "agreed_of [m] = Some (verdict (snd m))"
  by (simp add: agreed_of_def)

lemma group_of_snoc:
  "group_of (rows @ [(sig, e)]) frame sc =
     (if one_frame e = frame \<and> size_class sig = sc then group_of rows frame sc @ [(sig, e)] else group_of rows frame sc)"
  by (simp add: group_of_def)

lemma groups_value:
  "bt_ok (foldl group_step [] rows) \<and> bt_get (frame, sc) (foldl group_step [] rows) = group_value rows frame sc"
proof (induction rows arbitrary: frame sc rule: rev_induct)
  case Nil
  then show ?case by (simp add: group_value_def group_of_def bt_get_def)
next
  case (snoc row rows)
  obtain sig e where row: "row = (sig, e)" by (cases row)
  let ?g = "foldl group_step [] rows"
  have ok: "bt_ok ?g" and get: "bt_get (f, c) ?g = group_value rows f c" for f c using snoc.IH by auto
  show ?case
  proof (cases "one_frame e = 0 \<or> (frame, sc) \<noteq> (one_frame e, size_class sig)")
    case True
    then have "bt_get (frame, sc) (group_step ?g row) = bt_get (frame, sc) ?g" "bt_ok (group_step ?g row)"
      using ok by (auto simp: group_step_def row bt_get_upd)
    moreover have "group_value (rows @ [row]) frame sc = group_value rows frame sc"
      using True by (auto simp: group_value_def row group_of_snoc)
    ultimately show ?thesis by (simp add: get)
  next
    case False
    let ?ms = "group_of rows frame sc"
    have v: "group_value (rows @ [row]) frame sc = Some (agreed_of (?ms @ [(sig, e)]), pulls_of (?ms @ [(sig, e)]))"
      using False by (simp add: group_value_def row group_of_snoc Let_def)
    have "bt_get (frame, sc) (group_step ?g row) = Some (agreed_of (?ms @ [(sig, e)]), pulls_of (?ms @ [(sig, e)]))"
      using False ok
      by (cases "?ms = []")
        (auto simp: group_step_def row bt_get_upd bt_entry_def get group_value_def Let_def agreed_of_snoc pulls_of_def)
    moreover have "bt_ok (group_step ?g row)" using ok by (simp add: group_step_def row)
    ultimately show ?thesis using v by simp
  qed
qed

lemma distill_row_Some:
  "distill_row ((frame, c), (a, t)) = Some (k, sc, b, n) \<longleftrightarrow>
     c = sc \<and> a = Some b \<and> k = combine_hash_size_class frame sc \<and> n = ucast (min t 0xFFFFFFFF)"
  by (auto simp: distill_row_def)

lemma map_filter_mem: "y \<in> set (List.map_filter f xs) \<longleftrightarrow> (\<exists>x \<in> set xs. f x = Some y)"
  by (induction xs) (auto simp: map_filter_simps split: option.split)

lemma distill_mem:
  "(k, sc, b, n) \<in> set (distill bp) \<longleftrightarrow>
     (\<exists>frame t. group_value (bp_stats bp) frame sc = Some (Some b, t) \<and> k = combine_hash_size_class frame sc
        \<and> n = ucast (min t 0xFFFFFFFF))"
proof -
  have "(k, sc, b, n) \<in> set (distill bp) \<longleftrightarrow>
      (\<exists>frame c a t. ((frame, c), (a, t)) \<in> set (distill_groups bp) \<and> distill_row ((frame, c), (a, t)) = Some (k, sc, b, n))"
    by (simp add: distill_def map_filter_mem Bex_def split_paired_Ex)
  then show ?thesis
    using groups_value [of "bp_stats bp"] by (simp add: distill_row_Some distill_groups_def bt_get_mem)
qed

lemma agreed_of_iff: "ms \<noteq> [] \<Longrightarrow> agreed_of ms = Some b \<longleftrightarrow> (\<forall>m \<in> set ms. verdict (snd m) = b)"
  by (cases ms) (auto simp: agreed_of_def)

lemma group_value_agreed:
  "group_value rows frame sc = Some (a, t) \<longleftrightarrow>
     frame \<noteq> 0 \<and> group_of rows frame sc \<noteq> [] \<and> agreed_of (group_of rows frame sc) = a \<and> t = pulls_of (group_of rows frame sc)"
  by (auto simp: group_value_def Let_def)

text \<open>
  C30: The list that \<open>distill\<close> hands to the freeze, which then clamps and demotes its verdicts and leaves out
  the frames of context-routed sites, has an entry for a leaf frame and a size class exactly when some signature
  of that class was trained under that frame and all of them came to the same verdict, which is the verdict of the
  entry; sites without a known frame have none. The volume of the entry is that of all its signatures,
  cut off at the largest 32-bit number.
\<close>
theorem distilled_unanimous:
  "(k, sc, b, n) \<in> set (distill bp) \<longleftrightarrow>
     (\<exists>frame. frame \<noteq> 0 \<and> k = combine_hash_size_class frame sc \<and> group_of (bp_stats bp) frame sc \<noteq> []
        \<and> (\<forall>(sig, e) \<in> set (group_of (bp_stats bp) frame sc). verdict e = b)
        \<and> n = ucast (min (pulls_of (group_of (bp_stats bp) frame sc)) 0xFFFFFFFF))"
proof -
  have "group_value (bp_stats bp) frame sc = Some (Some b, t) \<longleftrightarrow>
      frame \<noteq> 0 \<and> group_of (bp_stats bp) frame sc \<noteq> []
      \<and> (\<forall>(sig, e) \<in> set (group_of (bp_stats bp) frame sc). verdict e = b) \<and> t = pulls_of (group_of (bp_stats bp) frame sc)" for frame t
    using agreed_of_iff [of "group_of (bp_stats bp) frame sc" b]
    by (cases "group_of (bp_stats bp) frame sc = []") (simp_all add: group_value_agreed case_prod_beta)
  then show ?thesis unfolding distill_mem by (simp only:) blast
qed

section \<open>Volumes\<close>

lemma unat_sum_list:
  fixes ws :: "u64 list"
  shows "sum_list (map unat ws) < 2 ^ 64 \<Longrightarrow> unat (sum_list ws) = sum_list (map unat ws)"
proof (induction ws)
  case (Cons w ws)
  then have "unat (sum_list ws) = sum_list (map unat ws)" by simp
  then show ?case using Cons.prems by (simp add: unat_word_ariths)
qed simp

definition volume :: "(signature \<times> signature_stats) list \<Rightarrow> nat" where
  "volume ms = (\<Sum>m \<leftarrow> ms. unat (total_pulls (snd m)))"

lemma unat_ucast_32_64 [simp]: "unat (ucast (x :: u32) :: u64) = unat x"
proof -
  have "unat x < 2 ^ 32" by (rule order_less_le_trans [OF unsigned_less]) simp
  then have "unat x < 2 ^ 64" by simp
  then show ?thesis unfolding unsigned_ucast_eq by (simp add: take_bit_nat_eq_self_iff)
qed

lemma pulls_of_volume: "volume ms < 2 ^ 64 \<Longrightarrow> unat (pulls_of ms) = volume ms"
  using unat_sum_list [of "map (\<lambda>m. ucast (total_pulls (snd m))) ms"] by (simp add: pulls_of_def volume_def comp_def)

lemma volume_bound: "volume ms \<le> length ms * (2 ^ 32 - 1)"
proof (induction ms)
  case (Cons m ms)
  have "unat (total_pulls (snd m)) < 2 ^ 32" by (rule order_less_le_trans [OF unsigned_less]) simp
  then show ?case using Cons by (simp add: volume_def)
qed (simp add: volume_def)

lemma volume_small: "length ms < 2 ^ 32 \<Longrightarrow> volume ms < 2 ^ 64"
proof -
  assume "length ms < 2 ^ 32"
  then have "length ms * (2 ^ 32 - 1) \<le> (2 ^ 32 - 1) * (2 ^ 32 - 1)" by (intro mult_right_mono) simp_all
  then show ?thesis using volume_bound [of ms] by (simp add: order_le_less_trans)
qed

lemma volume_group: "volume (group_of rows frame sc) \<le> volume rows"
  by (induction rows) (auto simp: volume_def group_of_def)

lemma volume_member: "(sig, e) \<in> set rows \<Longrightarrow> unat (total_pulls e) \<le> volume rows"
  by (induction rows) (auto simp: volume_def)

definition groups_volume :: "(u64 \<times> u8, backend option \<times> u64) btree \<Rightarrow> nat" where
  "groups_volume g = (\<Sum>(k, v) \<leftarrow> g. unat (snd v))"

lemma groups_volume_le: "volume rows < 2 ^ 64 \<Longrightarrow> groups_volume (foldl group_step [] rows) \<le> volume rows"
proof (induction rows rule: rev_induct)
  case (snoc row rows)
  obtain sig e where row: "row = (sig, e)" by (cases row)
  let ?g = "foldl group_step [] rows" and ?k = "(one_frame e, size_class sig)" and ?p = "unat (total_pulls e)"
  have vol: "volume (rows @ [row]) = volume rows + ?p" by (simp add: volume_def row)
  then have IH: "groups_volume ?g \<le> volume rows" using snoc by simp
  have ok: "bt_ok ?g" using groups_value by blast
  show ?case
  proof (cases "one_frame e = 0")
    case True
    then have "group_step g row = g" for g by (simp add: group_step_def row)
    then show ?thesis using IH vol by simp
  next
    case False
    obtain a t where v: "bt_entry ?k (Some (verdict e), 0) ?g = (a, t)" by force
    let ?new = "(if a \<noteq> Some (verdict e) then None else a, t + ucast (total_pulls e))"
    have S: "groups_volume (bt_insert ?k ?new ?g)
        + (case bt_get ?k ?g of Some w \<Rightarrow> unat (snd w) | None \<Rightarrow> 0) = groups_volume ?g + unat (snd ?new)"
      using bt_sum_insert [OF ok, of "\<lambda>k v. unat (snd v)" ?k ?new] by (simp add: groups_volume_def)
    have old: "unat t = (case bt_get ?k ?g of Some w \<Rightarrow> unat (snd w) | None \<Rightarrow> 0)"
      using v by (auto simp: bt_entry_def split: option.splits)
    have "unat (snd ?new) \<le> unat t + ?p" by (simp add: unat_word_ariths)
    then have "groups_volume (bt_insert ?k ?new ?g) \<le> groups_volume ?g + ?p" using S old by linarith
    moreover have "group_step ?g row = bt_insert ?k ?new ?g" using False by (simp add: group_step_def row bt_upd_def v)
    ultimately show ?thesis using IH vol by simp
  qed
qed (simp add: groups_volume_def)

lemma unat_cut: "unat (ucast (min (t :: u64) 0xFFFFFFFF) :: u32) = min (unat t) (2 ^ 32 - 1)"
proof -
  have "unat (min t 0xFFFFFFFF) = min (unat t) (2 ^ 32 - 1)" by (simp add: min_def word_le_nat_alt)
  then show ?thesis by (simp add: unsigned_ucast_eq take_bit_nat_eq_self_iff min_def)
qed

lemma distilled_volume:
  "(\<Sum>r \<leftarrow> List.map_filter distill_row g. unat (snd (snd (snd r)))) \<le> groups_volume g"
proof (induction g)
  case (Cons x g)
  obtain frame c a t where x: "x = ((frame, c), (a, t))" by (metis prod.collapse)
  then show ?case
    using Cons by (cases a) (auto simp: map_filter_simps distill_row_def groups_volume_def unat_cut)
qed (simp add: map_filter_simps groups_volume_def)

lemma f64_of_u32: "f64_of (w :: u32) = Fin (of_int (uint w))"
proof -
  have "uint w < 2 ^ 32" by (rule order_less_le_trans [OF unsigned_less]) simp
  then show ?thesis using f64_round_int [of "uint w"] by (simp add: f64_of_def)
qed

lemma f64_div_mono_left:
  assumes "0 \<le> x" "x \<le> y" "fp_le (Fin 1) a" shows "fp_le (f64_div (Fin x) a) (f64_div (Fin y) a)"
  using assms by (cases a) (auto simp: f64_div_def fp_le_def [of "Fin 1"] intro!: f64_round_mono divide_right_mono)

lemma f64_of_ge_1: "0 < (w :: 'a::len word) \<Longrightarrow> fp_le (Fin 1) (f64_of w)"
proof -
  assume "0 < w"
  then have "1 \<le> uint w" by (simp add: word_less_def)
  then have "(1::rat) \<le> of_int (uint w)" by (metis of_int_1 of_int_le_iff)
  then show ?thesis using f64_round_mono [of 1 "of_int (uint w)"] unfolding f64_of_def f64_round_1 by blast
qed

text \<open>The share of a larger volume in a smaller table is larger, as computed.\<close>

lemma share_mono:
  fixes T T' :: u64
  assumes "p \<le> (q :: u32)" "T' \<le> T" "0 < T'"
  shows "fp_le (f64_div (f64_of p) (f64_of T)) (f64_div (f64_of q) (f64_of T'))"
proof -
  have T: "0 < T" using assms(2,3) by order
  have q: "(0::rat) \<le> of_int (uint q)" by (simp only: of_int_0_le_iff uint_ge_0)
  have "(0::rat) \<le> of_int (uint p)" "(of_int (uint p) :: rat) \<le> of_int (uint q)"
    using assms(1) by (simp_all only: of_int_0_le_iff of_int_le_iff word_le_def uint_ge_0)
  then have "fp_le (f64_div (f64_of p) (f64_of T)) (f64_div (f64_of q) (f64_of T))"
    unfolding f64_of_u32 by (intro f64_div_mono_left f64_of_ge_1 T)
  also have "fp_le \<dots> (f64_div (f64_of q) (f64_of T'))"
    using assms(2,3) unfolding f64_of_u32 [of q]
    by (intro f64_div_antimono [where s = 1] f64_of_ge_1 f64_of_mono q) simp_all
  finally (fp_le_trans) show ?thesis .
qed

section \<open>Demotion\<close>

definition entries_volume :: "(u64 \<times> u8 \<times> backend \<times> u32) list \<Rightarrow> u64" where
  "entries_volume es = sum_list (map (\<lambda>(_, _, _, p). ucast p :: u64) es)"

lemma is_heavy_share:
  "is_heavy fraction es n \<longleftrightarrow> 0 < entries_volume es \<and> fp_le fraction (f64_div (f64_of n) (f64_of (entries_volume es)))"
  by (simp add: is_heavy_def entries_volume_def Let_def)

lemma main_volume: "entries_volume (bandit_freeze bp) = pulls_of (bp_stats bp)"
  by (simp add: entries_volume_def bandit_freeze_def pulls_of_def comp_def case_prod_beta)

lemma distill_total:
  assumes "length (bp_stats bp) < 2 ^ 32"
  shows "unat (entries_volume (distill bp)) = (\<Sum>r \<leftarrow> distill bp. unat (snd (snd (snd r))))"
    and "unat (entries_volume (distill bp)) \<le> volume (bp_stats bp)"
proof -
  let ?ws = "map (\<lambda>r. ucast (snd (snd (snd r))) :: u64) (distill bp)"
  have n: "sum_list (map unat ?ws) = (\<Sum>r \<leftarrow> distill bp. unat (snd (snd (snd r))))" by (simp add: comp_def)
  have v: "volume (bp_stats bp) < 2 ^ 64" by (rule volume_small [OF assms])
  have le: "(\<Sum>r \<leftarrow> distill bp. unat (snd (snd (snd r)))) \<le> volume (bp_stats bp)"
    using distilled_volume [of "distill_groups bp"] groups_volume_le [OF v] by (simp add: distill_def distill_groups_def)
  have "entries_volume (distill bp) = sum_list ?ws" by (simp add: entries_volume_def case_prod_unfold)
  moreover have "unat (sum_list ?ws) = sum_list (map unat ?ws)" using n le v by (intro unat_sum_list) simp
  ultimately show "unat (entries_volume (distill bp)) = (\<Sum>r \<leftarrow> distill bp. unat (snd (snd (snd r))))"
    and "unat (entries_volume (distill bp)) \<le> volume (bp_stats bp)"
    using n le by simp_all
qed

lemma combine_hash_inject: "combine_hash_size_class h sc = combine_hash_size_class h' sc \<longleftrightarrow> h = h'"
  by (simp add: combine_hash_size_class_def xor_right_inj)

lemma distill_pulls:
  assumes "length (bp_stats bp) < 2 ^ 32" and "(sig, e) \<in> set (bp_stats bp)"
    and "(combine_hash_size_class (one_frame e) (size_class sig), size_class sig, b, n) \<in> set (distill bp)"
  shows "total_pulls e \<le> n"
proof -
  let ?ms = "group_of (bp_stats bp) (one_frame e) (size_class sig)"
  obtain t where t: "group_value (bp_stats bp) (one_frame e) (size_class sig) = Some (Some b, t)"
    "n = ucast (min t 0xFFFFFFFF)"
    using assms(3) unfolding distill_mem combine_hash_inject by blast
  have "volume ?ms < 2 ^ 64" using volume_group volume_small [OF assms(1)] by (rule order_le_less_trans)
  then have "unat t = volume ?ms" using t(1) pulls_of_volume by (simp add: group_value_agreed)
  moreover have "unat (total_pulls e) \<le> volume ?ms"
    using assms(2) by (intro volume_member [of sig]) (simp add: group_of_def)
  moreover have "unat (total_pulls e) \<le> 2 ^ 32 - 1"
    using order_less_le_trans [OF unsigned_less [of "total_pulls e"], of "2 ^ 32 :: nat"] by simp
  ultimately show ?thesis unfolding t(2) word_le_nat_alt unat_cut by simp
qed

text \<open>
  C31: The distilled table demotes Arena whenever the main table does: if a signature is heavy by its share
  of the main table's pulls, then the distilled entry of its leaf frame is heavy by its share of
  the distilled table's, with the shares computed in double precision and the counters cut off and summed as in the code.
\<close>
theorem distilled_demotes_with_main:
  assumes "length (bp_stats bp) < 2 ^ 32" and "(sig, e) \<in> set (bp_stats bp)" and "0 < total_pulls e"
    and "is_heavy fraction (bandit_freeze bp) (total_pulls e)"
    and "(combine_hash_size_class (one_frame e) (size_class sig), size_class sig, b, n) \<in> set (distill bp)"
  shows "is_heavy fraction (distill bp) n"
proof -
  let ?T = "entries_volume (bandit_freeze bp)" and ?T' = "entries_volume (distill bp)"
  have pn: "total_pulls e \<le> n" by (rule distill_pulls [OF assms(1,2,5)])
  have "unat ?T = volume (bp_stats bp)" using pulls_of_volume volume_small [OF assms(1)] by (simp add: main_volume)
  then have T: "?T' \<le> ?T" using distill_total(2) [OF assms(1)] by (simp add: word_le_nat_alt)
  have "unat n \<le> unat ?T'"
    unfolding distill_total(1) [OF assms(1)] using assms(5) by (intro member_le_sum_list) (simp_all, force)
  then have "0 < unat ?T'" using pn assms(3) by (simp add: word_le_nat_alt word_less_nat_alt)
  then have T': "0 < ?T'" by (simp add: word_less_nat_alt)
  have "fp_le fraction (f64_div (f64_of (total_pulls e)) (f64_of ?T))" using assms(4) by (simp add: is_heavy_share)
  then have "fp_le fraction (f64_div (f64_of n) (f64_of ?T'))" using share_mono [OF pn T T'] by (rule fp_le_trans)
  then show ?thesis using T' by (simp add: is_heavy_share)
qed

text \<open>
  Two sites of one class after one selection each, the first with a known leaf frame, under a configuration whose
  priors favour Arena.
\<close>

definition arena_config :: training_config where
  "arena_config = defaults_const\<lparr>baseline_rewards := [Fin 0, Fin 0, Fin 0, Fin 1]\<rparr>"

definition arena_entry :: "u64 \<Rightarrow> signature_stats" where
  "arena_entry frame =
     \<lparr>arms = [arm_new (Fin 0), arm_new (Fin 0), arm_new (Fin 0), (arm_new (Fin 1))\<lparr>pulls := 2\<rparr>], total_pulls = 5,
      last_choice = Some Arena, stable_count = 0, one_frame = frame\<rparr>"

definition arena_bandit :: bandit_policy where
  "arena_bandit =
     \<lparr>bp_stats = [(Signature 5 3, arena_entry 9), (Signature 7 3, arena_entry 0)], bp_fine = [], bp_fine_deep = []\<rparr>"

lemma f64_half: "f64_round (1 / 2) = Fin (1 / 2)" by code_simp

text \<open>The square root of a double between 1 and 3/2, as computed.\<close>

lemma isqrt_bounds: "0 \<le> n \<Longrightarrow> 0 \<le> isqrt n \<and> (isqrt n)\<^sup>2 \<le> n \<and> n < (isqrt n + 1)\<^sup>2"
proof (induction n rule: isqrt.induct)
  case (1 n)
  show ?case
  proof (cases "n = 0")
    case True
    then show ?thesis by (simp add: isqrt.simps)
  next
    case False
    then have n: "\<not> n \<le> 0" using 1 by simp
    let ?r = "isqrt (n div 4)"
    have I: "0 \<le> ?r" "?r\<^sup>2 \<le> n div 4" "n div 4 < (?r + 1)\<^sup>2" using 1 n by simp_all
    have "4 * ?r\<^sup>2 \<le> n" "n < 4 * (?r + 1)\<^sup>2" using I(2,3) by linarith+
    then have "(2 * ?r)\<^sup>2 \<le> n" "n < (2 * ?r + 2)\<^sup>2" by (simp_all add: power2_eq_square algebra_simps)
    then show ?thesis using n I(1) by (auto simp: isqrt.simps [of n] Let_def algebra_simps)
  qed
qed

lemma f64_sqrt_bounds:
  assumes "1 \<le> x" and "x \<le> 3/2"
  shows "\<exists>s. f64_sqrt (Fin x) = Fin s \<and> 1 \<le> s \<and> s \<le> 5/4"
proof -
  have "ilog2 x = 0" by (rule ilog2_eqI) (use assms in simp_all)
  let ?y = "x * 2 ^ 104" and ?r = "isqrt \<lfloor>x * 2 ^ 104\<rfloor>"
  let ?m = "if ?y \<le> (of_int ?r + 1/2)\<^sup>2 then ?r else ?r + 1"
  have q: "f64_sqrt (Fin x) = Fin (of_int ?m / 2 ^ 52)"
    using assms \<open>ilog2 x = 0\<close> by (simp add: Let_def power_int_def field_simps)
  have f: "2 ^ 104 \<le> \<lfloor>?y\<rfloor>" "\<lfloor>?y\<rfloor> \<le> 3 * 2 ^ 103" using assms by (simp_all add: le_floor_iff floor_le_iff)
  have r: "0 \<le> ?r" "?r\<^sup>2 \<le> \<lfloor>?y\<rfloor>" "\<lfloor>?y\<rfloor> < (?r + 1)\<^sup>2" using isqrt_bounds [of "\<lfloor>?y\<rfloor>"] f(1) by simp_all
  have "(2 ^ 52)\<^sup>2 < (?r + 1)\<^sup>2" using order_le_less_trans [OF f(1) r(3)] by (simp only: power_mult [symmetric]) simp
  then have lo: "2 ^ 52 \<le> ?r" using r(1) power2_less_imp_less [of "2 ^ 52" "?r + 1"] by simp
  have "?r\<^sup>2 < (5 * 2 ^ 50)\<^sup>2" using order_trans [OF r(2) f(2)] by (rule order_le_less_trans) simp
  then have hi: "?r + 1 \<le> 5 * 2 ^ 50" using power2_less_imp_less [of ?r "5 * 2 ^ 50"] by simp
  have m: "2 ^ 52 \<le> ?m" "?m \<le> 5 * 2 ^ 50" using lo hi by simp_all
  then have "(of_int (2 ^ 52) :: rat) \<le> of_int ?m" "(of_int ?m :: rat) \<le> of_int (5 * 2 ^ 50)" by (simp_all only: of_int_le_iff)
  then show ?thesis unfolding q by (intro exI [of _ "of_int ?m / 2 ^ 52"]) simp
qed

lemma fp_le_between:
  assumes "fp_le (Fin a) x" and "fp_le x (Fin b)" obtains y where "x = Fin y" "a \<le> y" "y \<le> b"
  using assms by (cases x) (auto simp: fp_le_def)

text \<open>
  One selection of a new signature, with any logarithm that is between 1 and 3/2 at 4 (it is 1.386): the exploration
  terms of the four arms are equal and the prior decides.
\<close>

lemma arena_selected:
  assumes ln: "lnf (Fin 4) = Fin r" "1 \<le> r" "r \<le> 3/2" and new: "bt_get (Signature hash 3) (bp_stats bp) = None"
  shows "select_with_frame lnf (Signature hash 3) frame arena_config 0 bp
     = (Arena, bp\<lparr>bp_stats := bt_insert (Signature hash 3) (arena_entry frame) (bp_stats bp)\<rparr>)"
proof -
  let ?e = "(signature_stats_new (baseline_rewards arena_config))\<lparr>one_frame := frame\<rparr>"
  have e: "entry_for arena_config (Signature hash 3) frame bp = ?e"
    using new by (simp add: entry_for_def bt_entry_def Let_def signature_stats_new_def)
  have c: "f64_round (3 / 2) = Fin (3 / 2)" "f64_round (5 / 2) = Fin (5 / 2)" by code_simp+
  have "fp_le (f64_round 1) (f64_round r)" "fp_le (f64_round r) (f64_round (3/2))" using ln(2,3) by (intro f64_round_mono; simp)+
  then obtain x where x: "f64_round r = Fin x" "1 \<le> x" "x \<le> 3/2" unfolding c f64_round_1 by (rule fp_le_between)
  obtain s where s: "f64_sqrt (Fin x) = Fin s" "1 \<le> s" "s \<le> 5/4" using f64_sqrt_bounds [OF x(2,3)] by blast
  have "fp_le (f64_round (of_int 2)) (f64_round (2 * s))" "fp_le (f64_round (2 * s)) (f64_round (5/2))"
    using s(2,3) by (intro f64_round_mono; simp)+
  then obtain z where z: "f64_round (2 * s) = Fin z" "2 \<le> z" "z \<le> 5/2"
    unfolding c using f64_round_int [of 2] by (auto elim: fp_le_between)
  have "fp_le (Fin 3) (f64_round (1 + z))"
    using f64_round_mono [of "of_int 3" "1 + z"] f64_round_int [of 3] z(2) by simp
  moreover have "f64_round z = Fin z" by (rule f64_round_idem [OF z(1)])
  ultimately have lt: "fp_lt (Fin z) (f64_round (1 + z))" using z(3) by (cases "f64_round (1 + z)") (auto simp: fp_le_def)
  have sc: "arm_score lnf arena_config (Fin 4) None k (arm_new (Fin 0)) = Fin z"
    "arm_score lnf arena_config (Fin 4) None k (arm_new (Fin 1)) = f64_round (1 + z)" for k
    using x(1) s(1) z(1) \<open>f64_round z = Fin z\<close>
    by (simp_all add: arm_score_def arena_config_def defaults_const_def arm_new_def mean_reward_def f64_of_1 f64_div_def
        f64_mul_def f64_add_def ln(1))
  have four: "f64_of (4 :: u32) = Fin 4" using f64_round_int [of 4] by (simp add: f64_of_def)
  have b: "best_of lnf arena_config 0 ?e = Arena"
    using f64_MIN_less [of z] z(2) lt
    by (simp add: best_of_def signature_stats_new_def arena_config_def masked_def sc [unfolded arena_config_def] Let_def
        backend_from_index_def four)
  have "count_pull Arena ?e = arena_entry frame"
    by (simp add: count_pull_def arena_entry_def signature_stats_new_def arena_config_def arm_new_def backend_index_def)
  then show ?thesis by (simp add: select_eq Let_def e b)
qed

lemma arena_trained:
  assumes "lnf (Fin 4) = Fin r" "1 \<le> r" "r \<le> 3/2"
  shows "train lnf arena_config 4096 [Route 5 9 64 0, Route 7 0 64 0] = Training arena_bandit pending_new"
proof -
  have sc: "size_class_for 64 = 3" by code_simp
  have lt: "Signature 5 3 < Signature 7 3" by (simp add: less_signature_def)
  show ?thesis
    using lt by (simp add: train_def new_training_def route_with_frame_def sc arena_selected [where lnf = lnf, OF assms] bandit_new_def bt_get_def
        arena_bandit_def)
qed

lemma arena_verdict: "verdict (arena_entry frame) = Arena"
  by (simp add: verdict_def best_arm_index_def arena_entry_def last_max_def mean_reward_def arm_new_def f64_div_def
      f64_of_1 f64_of_2 f64_half backend_from_index_def)

lemma arena_distill: "distill arena_bandit = [(combine_hash_size_class 9 3, 3, Arena, 5)]"
proof -
  have o: "one_frame (arena_entry f) = f" "total_pulls (arena_entry f) = 5" for f by (simp_all add: arena_entry_def)
  show ?thesis
    by (simp add: distill_def distill_groups_def arena_bandit_def group_step_def arena_verdict bt_upd_def bt_entry_def
        bt_get_def map_filter_simps distill_row_def o)
qed

lemma arena_freeze_list:
  "bandit_freeze arena_bandit = [(combine_hash_size_class 5 3, 3, Arena, 5), (combine_hash_size_class 7 3, 3, Arena, 5)]"
  by (simp add: bandit_freeze_def arena_bandit_def arena_verdict sig_key_def) (simp add: arena_entry_def)

lemma arena_shares:
  "is_heavy fraction (bandit_freeze arena_bandit) 5 \<longleftrightarrow> fp_le fraction (Fin (1/2))"
  "is_heavy fraction (distill arena_bandit) 5 \<longleftrightarrow> fp_le fraction (Fin 1)"
  using f64_round_int [of 5] f64_round_int [of 10]
  by (simp_all add: is_heavy_def arena_freeze_list arena_distill f64_of_def f64_div_def f64_half)

lemma distilled_demotes_with_main_witness:
  "is_heavy (Fin (1/2)) (distill arena_bandit) 5"
proof -
  have m: "(Signature 5 3, arena_entry 9) \<in> set (bp_stats arena_bandit)" by (simp add: arena_bandit_def)
  have p: "total_pulls (arena_entry 9) = 5" by (simp add: arena_entry_def)
  have h: "is_heavy (Fin (1/2)) (bandit_freeze arena_bandit) (total_pulls (arena_entry 9))" by (simp add: p arena_shares)
  show ?thesis
    by (rule distilled_demotes_with_main [OF _ m _ h])
      (simp_all add: arena_distill, simp_all add: arena_bandit_def arena_entry_def)
qed

text \<open>The agreement of the one site with a known leaf frame.\<close>

lemma distilled_unanimous_witness:
  "(combine_hash_size_class 9 3, 3, Arena, 5) \<in> set (distill arena_bandit)"
proof -
  have g: "group_of (bp_stats arena_bandit) 9 3 = [(Signature 5 3, arena_entry 9)]"
    by (simp add: group_of_def arena_bandit_def) (simp add: arena_entry_def)
  show ?thesis
    unfolding distilled_unanimous
    by (rule exI [of _ 9]) (simp add: g arena_verdict pulls_of_def, simp add: arena_entry_def)
qed

section \<open>Distillation can change a routing decision\<close>

lemma arena_tables:
  "freeze_tables False True False (Fin (3/4)) (Fin 0) arena_bandit =
     ([(combine_hash_size_class 5 3, 3, Arena, 0), (combine_hash_size_class 7 3, 3, Arena, 0)],
      [(combine_hash_size_class 9 3, 3, Slab)])"
proof -
  have heavy: "is_heavy (Fin (3/4)) (bandit_freeze arena_bandit) 5 = False" "is_heavy (Fin (3/4)) (distill arena_bandit) 5"
    by (simp_all add: arena_shares)
  have m: "frozen_main (demote_for True False) (Fin (3/4)) arena_bandit =
      [(combine_hash_size_class 5 3, 3, Arena, False), (combine_hash_size_class 7 3, 3, Arena, False)]"
    using heavy(1) unfolding frozen_main_def clamp_entries_def arena_freeze_list
    by (simp add: demote_for_def clamp_backend_for_size_class_def)
  have f: "freeze_fine cf (Fin 0) arena_bandit = fine_freeze_new" for cf by (simp add: freeze_fine_def arena_bandit_def)
  have d: "clamp_entries (demote_for True False) (Fin (3/4)) (distill arena_bandit) = [(combine_hash_size_class 9 3, 3, Slab, True)]"
    using heavy(2) unfolding clamp_entries_def arena_distill
    by (simp add: demote_for_def clamp_backend_for_size_class_def default_backend_for_size_class_def)
  show ?thesis
    unfolding freeze_tables_def Let_def m f
    by (simp add: fine_freeze_new_def surviving_def parents_def main_quad_def distilled_entries_def d excluded_keys_def)
qed

text \<open>
  C32: Distillation can change a routing decision, against its documentation: under any natural logarithm that is
  between 1 and 3/2 at 4, where it is 1.386, an engine reaches a state in which
  two sites of equal volume both want Arena, and freezes it to a plane whose main table routes the first
  site to Arena, a light user of it, while the distilled entry of its leaf frame, alone in its
  table and so heavy there, says Slab; the site changes its backend when it is pinned.
\<close>
theorem pinned_site_rerouted:
  assumes "lnf (Fin 4) = Fin r" and "1 \<le> r" and "r \<le> 3/2"
  shows "engine_reach lnf 4096 (Training arena_bandit pending_new)
   \<and> (Signature 5 3, arena_entry 9) \<in> set (bp_stats arena_bandit) \<and> one_frame (arena_entry 9) = 9
   \<and> (\<exists>fr. engine_freeze False True False (Fin (3/4)) (Fin 0) (Training arena_bandit pending_new) = Return (Inference fr)
        \<and> lookup (fr_main fr) (combine_hash_size_class 5 3) = Some Arena
        \<and> lookup (fr_distilled fr) (combine_hash_size_class 9 3) = Some Slab)"
proof -
  let ?mq = "[(combine_hash_size_class 5 3, 3, Arena, 0), (combine_hash_size_class 7 3, 3, Arena, 0)] :: quad list"
  let ?dq = "[(combine_hash_size_class 9 3, 3, Slab, 0)] :: quad list"
  have "case from_entries_flagged ?mq of Panic \<Rightarrow> False | Return t \<Rightarrow> True" by code_simp
  then obtain m where m: "from_entries_flagged ?mq = Return m" by (cases "from_entries_flagged ?mq") auto
  obtain d where d: "from_entries_flagged ?dq = Return d" using small_models_build by (meson rust.exhaust)
  have ne: "combine_hash_size_class 5 3 \<noteq> combine_hash_size_class 7 3" by (simp add: combine_hash_inject)
  have "lookup m (combine_hash_size_class 5 3) = Some Arena"
    using frozen_lookup [OF m, of "combine_hash_size_class 5 3"] ne by simp
  moreover have "lookup d (combine_hash_size_class 9 3) = Some Slab"
    using frozen_lookup [OF d, of "combine_hash_size_class 9 3"] by simp
  moreover have "engine_freeze False True False (Fin (3/4)) (Fin 0) (Training arena_bandit pending_new)
      = Return (Inference (frozen_routing_new m d))"
    by (simp add: engine_freeze_def arena_tables m from_entries_def d)
  moreover have "engine_reach lnf 4096 (Training arena_bandit pending_new)"
    using demo_train_reach [of lnf 4096 arena_config "[Route 5 9 64 0, Route 7 0 64 0]"] by (simp add: arena_trained [where lnf = lnf, OF assms])
  ultimately show ?thesis
    by (auto simp: frozen_routing_new_def arena_bandit_def arena_entry_def)
qed

text \<open>
  An executable stand-in for the logarithm: at a power of two the multiple of the double nearest to the logarithm of 2,
  linear in between.
\<close>

definition ln_approx :: "fp \<Rightarrow> fp" where
  "ln_approx a =
     (case a of
        Fin x \<Rightarrow> if x < 0 then NaN else if x = 0 then NegInf
          else f64_round ((of_int (ilog2 x) + x / 2 powi ilog2 x - 1) * 6243314768165359 / 2 ^ 53)
      | PosInf \<Rightarrow> PosInf | _ \<Rightarrow> NaN)"

lemma pinned_site_rerouted_witness:
  "engine_reach ln_approx 4096 (Training arena_bandit pending_new)
   \<and> (\<exists>fr. engine_freeze False True False (Fin (3/4)) (Fin 0) (Training arena_bandit pending_new) = Return (Inference fr)
        \<and> lookup (fr_main fr) (combine_hash_size_class 5 3) = Some Arena
        \<and> lookup (fr_distilled fr) (combine_hash_size_class 9 3) = Some Slab)"
proof -
  have "ln_approx (Fin 4) = Fin (6243314768165359 / 4503599627370496)" by code_simp
  from pinned_site_rerouted [where lnf = ln_approx, OF this] show ?thesis by simp
qed

end
