(* ===== verification/SlabAlloc.thy ===== *)
theory SlabAlloc
  imports SysBackend
begin

text \<open>
  The slab sub-allocator (\<open>crates/lohalloc-alloc/src/slab.rs\<close>): per class a no-touch pointer
  cache, an intrusive overflow list and a carve cursor, in two disjoint flavours. Pointers are
  \<open>usize\<close> words. The memory of free blocks is the function \<open>node_mem\<close> from the address of a
  block to the \<open>next\<close> field of the \<open>FreeNode\<close> at its head; the application owns it while the
  block is allocated. The kernel, the registration callback and their states are parameters.

  The two refill loops that are not structurally bounded, \<open>alloc_class\<close> and
  \<open>alloc_batch_headerless\<close>, are partial functions: \<open>None\<close> is a run that does not return.
\<close>

definition CENTRAL_CACHE :: nat where "CENTRAL_CACHE = 64"
definition NUM_CLASSES :: nat where "NUM_CLASSES = 12"
definition SEGMENT_SIZE :: usize where "SEGMENT_SIZE = 64 * 1024"

type_synonym node_mem = "usize \<Rightarrow> usize option"

record tiers =
  free_heads :: "nat \<Rightarrow> usize option"
  tier_cache :: "nat \<Rightarrow> nat \<Rightarrow> usize"
  cache_len :: "nat \<Rightarrow> u16"
  carve_cursor :: "nat \<Rightarrow> usize"
  carve_end :: "nat \<Rightarrow> usize"

definition tiers_new :: tiers where
  "tiers_new = \<lparr>free_heads = (\<lambda>_. None), tier_cache = (\<lambda>_ _. 0), cache_len = (\<lambda>_. 0),
     carve_cursor = (\<lambda>_. 0), carve_end = (\<lambda>_. 0)\<rparr>"

definition class_stride :: "nat \<Rightarrow> usize" where
  "class_stride c = align_up (SLAB_SIZE_CLASSES ! c) MIN_ALIGN"

definition pop_untouched :: "tiers \<Rightarrow> nat \<Rightarrow> usize option \<times> tiers" where
  "pop_untouched t c =
     (let n = cache_len t c
      in if n > 0 then (Some (tier_cache t c (unat (n - 1))), t\<lparr>cache_len := (cache_len t)(c := n - 1)\<rparr>)
         else (None, t))"

definition pop_carve :: "tiers \<Rightarrow> nat \<Rightarrow> usize option \<times> tiers" where
  "pop_carve t c =
     (let cur = carve_cursor t c
      in if cur = carve_end t c then (None, t)
         else (Some cur, t\<lparr>carve_cursor := (carve_cursor t)(c := cur + class_stride c)\<rparr>))"

definition pop_intrusive :: "node_mem \<Rightarrow> tiers \<Rightarrow> nat \<Rightarrow> usize option \<times> tiers" where
  "pop_intrusive mem t c =
     (case free_heads t c of None \<Rightarrow> (None, t)
      | Some block \<Rightarrow> (Some block, t\<lparr>free_heads := (free_heads t)(c := mem block)\<rparr>))"

definition pop_recycled :: "node_mem \<Rightarrow> tiers \<Rightarrow> nat \<Rightarrow> usize option \<times> tiers" where
  "pop_recycled mem t c =
     (case pop_untouched t c of (Some b, t') \<Rightarrow> (Some b, t') | (None, t') \<Rightarrow> pop_intrusive mem t' c)"

definition pop_any :: "node_mem \<Rightarrow> tiers \<Rightarrow> nat \<Rightarrow> usize option \<times> tiers" where
  "pop_any mem t c =
     (case pop_recycled mem t c of (Some b, t') \<Rightarrow> (Some b, t') | (None, t') \<Rightarrow> pop_carve t' c)"

definition tiers_dealloc_class :: "node_mem \<Rightarrow> tiers \<Rightarrow> usize \<Rightarrow> nat \<Rightarrow> node_mem \<times> tiers" where
  "tiers_dealloc_class mem t ptr c =
     (let n = cache_len t c
      in if unat n < CENTRAL_CACHE
         then (mem, t\<lparr>tier_cache := (tier_cache t)(c := (tier_cache t c)(unat n := ptr)),
                      cache_len := (cache_len t)(c := n + 1)\<rparr>)
         else (mem(ptr := free_heads t c), t\<lparr>free_heads := (free_heads t)(c := Some ptr)\<rparr>))"

definition set_carve :: "tiers \<Rightarrow> nat \<Rightarrow> usize \<Rightarrow> usize \<Rightarrow> tiers" where
  "set_carve t c base lim =
     t\<lparr>carve_cursor := (carve_cursor t)(c := base), carve_end := (carve_end t)(c := lim)\<rparr>"

record slab =
  header_tiers :: tiers
  hl_tiers :: tiers
  slab_regions :: "mapping list"

definition slab_new :: slab where
  "slab_new = \<lparr>header_tiers = tiers_new, hl_tiers = tiers_new, slab_regions = []\<rparr>"

text \<open>The environment's operations, and the state they and the memory are in.\<close>

record ('os, 'r) slab_env =
  env_page :: usize
  env_mmap :: "'os \<Rightarrow> usize \<Rightarrow> usize option \<times> 'os"
  env_munmap :: "'os \<Rightarrow> usize \<times> usize \<Rightarrow> 'os"
  env_register :: "'r \<Rightarrow> usize \<Rightarrow> bool \<times> 'r"

record ('os, 'r) slab_world =
  w_slab :: slab
  w_mem :: node_mem
  w_os :: 'os
  w_reg :: 'r

definition page_or :: "usize \<Rightarrow> usize \<Rightarrow> usize" where
  "page_or a b = (if a > b then a else b)"

definition slab_refill ::
  "('os, 'r) slab_env \<Rightarrow> nat \<Rightarrow> usize \<Rightarrow> ('os, 'r) slab_world \<Rightarrow> bool \<times> ('os, 'r) slab_world"
where
  "slab_refill env c class_size w =
     (let stride = align_up class_size MIN_ALIGN;
          region_bytes = max (page_or (stride * 16) (env_page env)) (env_page env)
      in case alloc_pages (env_page env) (env_mmap env) region_bytes (max stride (env_page env)) (w_os w) of
           (None, os') \<Rightarrow> (False, w\<lparr>w_os := os'\<rparr>)
         | (Some region, os') \<Rightarrow>
             let base = map_ptr region; n = map_usable region div stride; s = w_slab w
             in (True, w\<lparr>w_os := os',
                   w_slab := s\<lparr>header_tiers := set_carve (header_tiers s) c base (base + n * stride),
                                slab_regions := slab_regions s @ [region]\<rparr>\<rparr>))"

definition refill_segment ::
  "('os, 'r) slab_env \<Rightarrow> nat \<Rightarrow> ('os, 'r) slab_world \<Rightarrow> usize option \<times> ('os, 'r) slab_world"
where
  "refill_segment env c w =
     (case alloc_pages (env_page env) (env_mmap env) SEGMENT_SIZE SEGMENT_SIZE (w_os w) of
        (None, os') \<Rightarrow> (None, w\<lparr>w_os := os'\<rparr>)
      | (Some region, os') \<Rightarrow>
          let base = map_ptr region
          in (case env_register env (w_reg w) base of
                (False, r') \<Rightarrow> (None, w\<lparr>w_os := env_munmap env os' (unmap_range region), w_reg := r'\<rparr>)
              | (True, r') \<Rightarrow>
                  let stride = align_up (SLAB_SIZE_CLASSES ! c) MIN_ALIGN; n = SEGMENT_SIZE div stride; s = w_slab w
                  in (Some base, w\<lparr>w_os := os', w_reg := r',
                        w_slab := s\<lparr>hl_tiers := set_carve (hl_tiers s) c base (base + n * stride),
                                     slab_regions := slab_regions s @ [region]\<rparr>\<rparr>)))"

text \<open>\<open>pop_any\<close> on one flavour of the slab.\<close>

definition pop_header :: "nat \<Rightarrow> ('os, 'r) slab_world \<Rightarrow> usize option \<times> ('os, 'r) slab_world" where
  "pop_header c w =
     (case pop_any (w_mem w) (header_tiers (w_slab w)) c of
        (b, t) \<Rightarrow> (b, w\<lparr>w_slab := (w_slab w)\<lparr>header_tiers := t\<rparr>\<rparr>))"

definition pop_hl :: "nat \<Rightarrow> ('os, 'r) slab_world \<Rightarrow> usize option \<times> ('os, 'r) slab_world" where
  "pop_hl c w =
     (case pop_any (w_mem w) (hl_tiers (w_slab w)) c of
        (b, t) \<Rightarrow> (b, w\<lparr>w_slab := (w_slab w)\<lparr>hl_tiers := t\<rparr>\<rparr>))"

partial_function (option) slab_alloc_class ::
  "('os, 'r) slab_env \<Rightarrow> nat \<Rightarrow> ('os, 'r) slab_world \<Rightarrow> (usize option \<times> ('os, 'r) slab_world) option"
where
  "slab_alloc_class env c w =
     (case pop_header c w of
        (Some b, w') \<Rightarrow> Some (Some b, w')
      | (None, w') \<Rightarrow>
          (case slab_refill env c (SLAB_SIZE_CLASSES ! c) w' of
             (ok, w'') \<Rightarrow> if ok then slab_alloc_class env c w'' else Some (None, w'')))"

definition slab_alloc ::
  "('os, 'r) slab_env \<Rightarrow> usize \<Rightarrow> ('os, 'r) slab_world \<Rightarrow> (usize option \<times> ('os, 'r) slab_world) option"
where
  "slab_alloc env sz w =
     (case slab_class_for sz of None \<Rightarrow> Some (None, w) | Some c \<Rightarrow> slab_alloc_class env c w)"

text \<open>The batch loops count the free places of the output buffer and return what they wrote.\<close>

function slab_alloc_batch_loop ::
  "('os, 'r) slab_env \<Rightarrow> nat \<Rightarrow> bool \<Rightarrow> nat \<Rightarrow> ('os, 'r) slab_world \<Rightarrow> usize list \<times> ('os, 'r) slab_world"
where
  "slab_alloc_batch_loop env c refilled 0 w = ([], w)"
| "slab_alloc_batch_loop env c refilled (Suc k) w =
     (case pop_header c w of
        (Some b, w') \<Rightarrow> (case slab_alloc_batch_loop env c refilled k w' of (bs, w'') \<Rightarrow> (b # bs, w''))
      | (None, w') \<Rightarrow>
          if refilled then ([], w')
          else (case slab_refill env c (SLAB_SIZE_CLASSES ! c) w' of
                  (False, w'') \<Rightarrow> ([], w'')
                | (True, w'') \<Rightarrow> slab_alloc_batch_loop env c True (Suc k) w''))"
  by pat_completeness auto
termination by (relation "measure (\<lambda>(env, c, refilled, k, w). 2 * k + (if refilled then 0 else 1))") auto

definition slab_alloc_batch ::
  "('os, 'r) slab_env \<Rightarrow> nat \<Rightarrow> nat \<Rightarrow> ('os, 'r) slab_world \<Rightarrow> usize list \<times> ('os, 'r) slab_world"
where
  "slab_alloc_batch env c len w = slab_alloc_batch_loop env c False len w"

fun recycle_loop :: "node_mem \<Rightarrow> nat \<Rightarrow> nat \<Rightarrow> tiers \<Rightarrow> usize list \<times> tiers" where
  "recycle_loop mem c 0 t = ([], t)"
| "recycle_loop mem c (Suc k) t =
     (case pop_recycled mem t c of
        (Some b, t') \<Rightarrow> (case recycle_loop mem c k t' of (bs, t'') \<Rightarrow> (b # bs, t''))
      | (None, t') \<Rightarrow> ([], t'))"

definition slab_alloc_batch_recycled ::
  "nat \<Rightarrow> nat \<Rightarrow> bool \<Rightarrow> ('os, 'r) slab_world \<Rightarrow> usize list \<times> ('os, 'r) slab_world"
where
  "slab_alloc_batch_recycled c len headerless w =
     (if headerless
      then (case recycle_loop (w_mem w) c len (hl_tiers (w_slab w)) of
              (bs, t) \<Rightarrow> (bs, w\<lparr>w_slab := (w_slab w)\<lparr>hl_tiers := t\<rparr>\<rparr>))
      else (case recycle_loop (w_mem w) c len (header_tiers (w_slab w)) of
              (bs, t) \<Rightarrow> (bs, w\<lparr>w_slab := (w_slab w)\<lparr>header_tiers := t\<rparr>\<rparr>)))"

definition slab_dealloc_class :: "usize \<Rightarrow> nat \<Rightarrow> ('os, 'r) slab_world \<Rightarrow> ('os, 'r) slab_world" where
  "slab_dealloc_class ptr c w =
     (case tiers_dealloc_class (w_mem w) (header_tiers (w_slab w)) ptr c of
        (mem, t) \<Rightarrow> w\<lparr>w_mem := mem, w_slab := (w_slab w)\<lparr>header_tiers := t\<rparr>\<rparr>)"

definition slab_dealloc :: "usize \<Rightarrow> usize \<Rightarrow> ('os, 'r) slab_world \<Rightarrow> ('os, 'r) slab_world" where
  "slab_dealloc ptr sz w = (case slab_class_for sz of None \<Rightarrow> w | Some c \<Rightarrow> slab_dealloc_class ptr c w)"

fun slab_dealloc_batch :: "nat \<Rightarrow> usize list \<Rightarrow> ('os, 'r) slab_world \<Rightarrow> ('os, 'r) slab_world" where
  "slab_dealloc_batch c [] w = w"
| "slab_dealloc_batch c (b # bs) w = slab_dealloc_batch c bs (slab_dealloc_class b c w)"

definition slab_dealloc_headerless :: "usize \<Rightarrow> nat \<Rightarrow> ('os, 'r) slab_world \<Rightarrow> ('os, 'r) slab_world" where
  "slab_dealloc_headerless ptr c w =
     (case tiers_dealloc_class (w_mem w) (hl_tiers (w_slab w)) ptr c of
        (mem, t) \<Rightarrow> w\<lparr>w_mem := mem, w_slab := (w_slab w)\<lparr>hl_tiers := t\<rparr>\<rparr>)"

fun slab_dealloc_batch_headerless :: "nat \<Rightarrow> usize list \<Rightarrow> ('os, 'r) slab_world \<Rightarrow> ('os, 'r) slab_world" where
  "slab_dealloc_batch_headerless c [] w = w"
| "slab_dealloc_batch_headerless c (b # bs) w =
     slab_dealloc_batch_headerless c bs (slab_dealloc_headerless b c w)"

definition slab_alloc_class_headerless ::
  "('os, 'r) slab_env \<Rightarrow> nat \<Rightarrow> ('os, 'r) slab_world \<Rightarrow> (usize \<times> usize option) option \<times> ('os, 'r) slab_world"
where
  "slab_alloc_class_headerless env c w =
     (case pop_hl c w of
        (Some b, w') \<Rightarrow> (Some (b, None), w')
      | (None, w') \<Rightarrow>
          (case refill_segment env c w' of
             (None, w'') \<Rightarrow> (None, w'')
           | (Some new_base, w'') \<Rightarrow>
               (case pop_carve (hl_tiers (w_slab w'')) c of
                  (None, t) \<Rightarrow> (None, w''\<lparr>w_slab := (w_slab w'')\<lparr>hl_tiers := t\<rparr>\<rparr>)
                | (Some b, t) \<Rightarrow> (Some (b, Some new_base), w''\<lparr>w_slab := (w_slab w'')\<lparr>hl_tiers := t\<rparr>\<rparr>))))"

partial_function (option) slab_alloc_batch_headerless ::
  "('os, 'r) slab_env \<Rightarrow> nat \<Rightarrow> nat \<Rightarrow> ('os, 'r) slab_world \<Rightarrow> (usize list \<times> ('os, 'r) slab_world) option"
where
  "slab_alloc_batch_headerless env c len w =
     (if len = 0 then Some ([], w)
      else case pop_hl c w of
        (Some b, w') \<Rightarrow>
          Option.bind (slab_alloc_batch_headerless env c (len - 1) w') (\<lambda>(bs, w''). Some (b # bs, w''))
      | (None, w') \<Rightarrow>
          (case refill_segment env c w' of
             (None, w'') \<Rightarrow> Some ([], w'')
           | (Some base, w'') \<Rightarrow> slab_alloc_batch_headerless env c len w''))"

declare slab_alloc_class.simps [code]
declare slab_alloc_batch_headerless.simps [code]

definition slab_region_count :: "('os, 'r) slab_world \<Rightarrow> nat" where
  "slab_region_count w = length (slab_regions (w_slab w))"

end
