(* ===== verification/SlabCorrect.thy ===== *)
theory SlabCorrect
  imports SlabAlloc
begin

text \<open>
  Correctness of the slab: the order in which the tiers of a class hand out blocks, the
  conservation of blocks over any history of allocations, frees, refills, steals and
  application writes, and what follows from it: live blocks never overlap, in any class and
  either flavour.
\<close>

section \<open>The tiers of one class as a list\<close>

fun chain :: "node_mem \<Rightarrow> usize option \<Rightarrow> usize list \<Rightarrow> bool" where
  "chain mem h [] \<longleftrightarrow> h = None"
| "chain mem h (p # ps) \<longleftrightarrow> h = Some p \<and> chain mem (mem p) ps"

definition grid :: "usize \<Rightarrow> nat \<Rightarrow> nat \<Rightarrow> usize list" where
  "grid base c n = map (\<lambda>k. base + of_nat k * class_stride c) [0..<n]"

definition cache_list :: "tiers \<Rightarrow> nat \<Rightarrow> usize list" where
  "cache_list t c = map (tier_cache t c) (rev [0..<unat (cache_len t c)])"

text \<open>
  The free blocks of a class in the order they will be handed out: the cache from the top, the
  intrusive list from its head, the blocks not carved yet in address order.
\<close>

definition tier_free :: "node_mem \<Rightarrow> tiers \<Rightarrow> nat \<Rightarrow> usize list \<Rightarrow> bool" where
  "tier_free mem t c fs \<longleftrightarrow>
     (\<exists>xs n. fs = cache_list t c @ xs @ grid (carve_cursor t c) c n
        \<and> unat (cache_len t c) \<le> CENTRAL_CACHE \<and> chain mem (free_heads t c) xs
        \<and> unat (carve_end t c) = unat (carve_cursor t c) + n * unat (class_stride c))"

lemma class_stride_unat: "c < 12 \<Longrightarrow> unat (class_stride c) = max 16 (2 ^ (c + 3))"
proof -
  assume c: "c < 12"
  have "\<forall>c < 12. unat (align_up (SLAB_SIZE_CLASSES ! c) MIN_ALIGN) = max 16 (2 ^ (c + 3))"
  proof -
    have "list_all (\<lambda>c. unat (align_up (SLAB_SIZE_CLASSES ! c) MIN_ALIGN) = max 16 (2 ^ (c + 3))) [0..<12]"
      by (simp add: upt_rec SLAB_SIZE_CLASSES_def align_up_def MIN_ALIGN_def)
    then show ?thesis by (simp add: list_all_iff)
  qed
  then show ?thesis using c by (simp add: class_stride_def)
qed

lemma class_stride_bounds: "c < 12 \<Longrightarrow> 16 \<le> unat (class_stride c) \<and> unat (class_stride c) \<le> 2 ^ 14
    \<and> unat (SLAB_SIZE_CLASSES ! c) \<le> unat (class_stride c) \<and> 16 dvd unat (class_stride c)"
proof -
  assume c: "c < 12"
  have "list_all (\<lambda>c. 16 \<le> unat (align_up (SLAB_SIZE_CLASSES ! c) MIN_ALIGN)
      \<and> unat (align_up (SLAB_SIZE_CLASSES ! c) MIN_ALIGN) \<le> 2 ^ 14
      \<and> unat (SLAB_SIZE_CLASSES ! c) \<le> unat (align_up (SLAB_SIZE_CLASSES ! c) MIN_ALIGN)
      \<and> unat (align_up (SLAB_SIZE_CLASSES ! c) MIN_ALIGN) mod 16 = 0) [0..<12]"
    by (simp add: upt_rec SLAB_SIZE_CLASSES_def align_up_def MIN_ALIGN_def)
  then show ?thesis using c by (simp add: list_all_iff class_stride_def dvd_eq_mod_eq_0)
qed

lemma cache_list_Nil: "cache_len t c = 0 \<Longrightarrow> cache_list t c = []"
  by (simp add: cache_list_def)

lemma cache_list_pop:
  "cache_len t c > 0 \<Longrightarrow> cache_list t c
     = tier_cache t c (unat (cache_len t c - 1)) # cache_list (t\<lparr>cache_len := (cache_len t)(c := cache_len t c - 1)\<rparr>) c"
proof -
  assume "cache_len t c > 0"
  then have "unat (cache_len t c) = Suc (unat (cache_len t c - 1))"
    by (simp add: unat_minus_one word_gt_0 unat_gt_0)
  then show ?thesis by (simp add: cache_list_def)
qed

lemma grid_Suc: "grid base c (Suc n) = base # grid (base + class_stride c) c n"
proof -
  have "[0..<Suc n] = 0 # map Suc [0..<n]" by (simp only: upt_conv_Cons map_Suc_upt zero_less_Suc)
  then show ?thesis by (simp add: grid_def comp_def algebra_simps)
qed

lemma tier_free_cong:
  assumes "free_heads t' d = free_heads t d" "tier_cache t' d = tier_cache t d" "cache_len t' d = cache_len t d"
    "carve_cursor t' d = carve_cursor t d" "carve_end t' d = carve_end t d"
  shows "tier_free mem t' d gs \<longleftrightarrow> tier_free mem t d gs"
  using assms by (simp add: tier_free_def cache_list_def)

lemma pop_carve_grid:
  assumes "unat (carve_end t c) = unat (carve_cursor t c) + n * unat (class_stride c)" and c: "c < 12"
  shows "pop_carve t c = (case n of 0 \<Rightarrow> (None, t)
      | Suc m \<Rightarrow> (Some (carve_cursor t c), t\<lparr>carve_cursor := (carve_cursor t)(c := carve_cursor t c + class_stride c)\<rparr>))
    \<and> (0 < n \<longrightarrow> unat (carve_cursor t c + class_stride c) = unat (carve_cursor t c) + unat (class_stride c))"
proof (cases n)
  case 0
  then have "carve_cursor t c = carve_end t c" using assms(1) by (simp add: word_unat_eq_iff)
  then show ?thesis using 0 by (simp add: pop_carve_def)
next
  case (Suc m)
  have s: "16 \<le> unat (class_stride c)" using class_stride_bounds [OF c] by simp
  then have "carve_cursor t c \<noteq> carve_end t c" using assms(1) Suc by (auto simp: word_unat_eq_iff)
  moreover have "unat (carve_cursor t c) + unat (class_stride c) < 2 ^ 64"
    using assms(1) Suc unat_lt_64 [of "carve_end t c"] by simp
  ultimately show ?thesis using Suc by (simp add: pop_carve_def Let_def unat_add_64)
qed

lemma pop_any_free:
  assumes "tier_free mem t c fs" and c: "c < 12" and p: "pop_any mem t c = (r, t')"
  shows "case fs of [] \<Rightarrow> r = None \<and> t' = t | b # fs' \<Rightarrow> r = Some b \<and> tier_free mem t' c fs'"
proof -
  from assms(1) obtain xs n where fs: "fs = cache_list t c @ xs @ grid (carve_cursor t c) c n"
    and len: "unat (cache_len t c) \<le> CENTRAL_CACHE" and ch: "chain mem (free_heads t c) xs"
    and e: "unat (carve_end t c) = unat (carve_cursor t c) + n * unat (class_stride c)"
    by (auto simp: tier_free_def)
  show ?thesis
  proof (cases "cache_len t c > 0")
    case True
    let ?t = "t\<lparr>cache_len := (cache_len t)(c := cache_len t c - 1)\<rparr>"
    have r: "r = Some (tier_cache t c (unat (cache_len t c - 1)))" "t' = ?t"
      using p True by (auto simp: pop_any_def pop_recycled_def pop_untouched_def Let_def)
    have "unat (cache_len t c - 1) \<le> CENTRAL_CACHE" using len True by (simp add: unat_minus_one word_gt_0)
    then have "tier_free mem ?t c (cache_list ?t c @ xs @ grid (carve_cursor t c) c n)"
      using ch e unfolding tier_free_def by (intro exI [of _ xs] exI [of _ n]) simp
    then show ?thesis using fs cache_list_pop [OF True] r by simp
  next
    case False
    then have z: "cache_len t c = 0" by (simp add: word_gt_0)
    then have u: "pop_untouched t c = (None, t)" by (simp add: pop_untouched_def)
    show ?thesis
    proof (cases xs)
      case (Cons x ys)
      then have h: "free_heads t c = Some x" "chain mem (mem x) ys" using ch by auto
      let ?t = "t\<lparr>free_heads := (free_heads t)(c := mem x)\<rparr>"
      have r: "r = Some x" "t' = ?t"
        using p h u by (auto simp: pop_any_def pop_recycled_def pop_intrusive_def)
      have "tier_free mem ?t c (cache_list ?t c @ ys @ grid (carve_cursor t c) c n)"
        using h len e unfolding tier_free_def by (intro exI [of _ ys] exI [of _ n]) (simp add: cache_list_def)
      then show ?thesis using fs Cons z r by (simp add: cache_list_Nil)
    next
      case Nil
      then have h: "free_heads t c = None" using ch by simp
      then have pc: "pop_carve t c = (r, t')"
        using p u by (simp add: pop_any_def pop_recycled_def pop_intrusive_def)
      note G = pop_carve_grid [OF e c]
      show ?thesis
      proof (cases n)
        case 0
        then show ?thesis using G pc fs Nil z by (simp add: cache_list_Nil grid_def)
      next
        case (Suc m)
        let ?t = "t\<lparr>carve_cursor := (carve_cursor t)(c := carve_cursor t c + class_stride c)\<rparr>"
        have "tier_free mem ?t c (cache_list ?t c @ [] @ grid (carve_cursor t c + class_stride c) c m)"
          using len h G e Suc unfolding tier_free_def
          by (intro exI [of _ "[]"] exI [of _ m]) simp
        then show ?thesis using G pc fs Nil z Suc by (simp add: cache_list_Nil grid_Suc)
      qed
    qed
  qed
qed

lemma pop_any_frame:
  "pop_any mem t c = (r, t') \<Longrightarrow> d \<noteq> c \<Longrightarrow> tier_free mem t' d gs \<longleftrightarrow> tier_free mem t d gs"
  by (rule tier_free_cong)
    (auto simp: pop_any_def pop_recycled_def pop_untouched_def pop_intrusive_def pop_carve_def Let_def
      split: if_splits option.splits prod.splits)

lemma chain_cong: "(\<And>p. p \<in> set ps \<Longrightarrow> mem' p = mem p) \<Longrightarrow> chain mem' h ps \<longleftrightarrow> chain mem h ps"
  by (induction ps arbitrary: h) auto

lemma tier_free_mem:
  assumes "tier_free mem t c fs" and "\<And>p. p \<in> set fs \<Longrightarrow> mem' p = mem p"
  shows "tier_free mem' t c fs"
proof -
  from assms(1) obtain xs n where "fs = cache_list t c @ xs @ grid (carve_cursor t c) c n"
    "unat (cache_len t c) \<le> CENTRAL_CACHE" "chain mem (free_heads t c) xs"
    "unat (carve_end t c) = unat (carve_cursor t c) + n * unat (class_stride c)"
    by (auto simp: tier_free_def)
  moreover from this have "chain mem' (free_heads t c) xs"
    using chain_cong [of xs mem' mem] assms(2) by auto
  ultimately show ?thesis unfolding tier_free_def by blast
qed

lemma cache_list_push:
  assumes "unat (cache_len t c) < CENTRAL_CACHE"
  shows "cache_list (t\<lparr>tier_cache := (tier_cache t)(c := (tier_cache t c)(unat (cache_len t c) := ptr)),
      cache_len := (cache_len t)(c := cache_len t c + 1)\<rparr>) c = ptr # cache_list t c"
proof -
  have "unat (cache_len t c + 1) = Suc (unat (cache_len t c))"
    using assms by (simp add: unat_word_ariths CENTRAL_CACHE_def)
  then show ?thesis by (simp add: cache_list_def)
qed

lemma dealloc_free:
  assumes "tier_free mem t c fs" and ptr: "ptr \<notin> set fs" and r: "tiers_dealloc_class mem t ptr c = (mem', t')"
  shows "\<exists>k. k \<in> {0, CENTRAL_CACHE} \<and> tier_free mem' t' c (take k fs @ ptr # drop k fs)"
proof -
  from assms(1) obtain xs n where fs: "fs = cache_list t c @ xs @ grid (carve_cursor t c) c n"
    and len: "unat (cache_len t c) \<le> CENTRAL_CACHE" and ch: "chain mem (free_heads t c) xs"
    and e: "unat (carve_end t c) = unat (carve_cursor t c) + n * unat (class_stride c)"
    by (auto simp: tier_free_def)
  show ?thesis
  proof (cases "unat (cache_len t c) < CENTRAL_CACHE")
    case True
    let ?t = "t\<lparr>tier_cache := (tier_cache t)(c := (tier_cache t c)(unat (cache_len t c) := ptr)),
      cache_len := (cache_len t)(c := cache_len t c + 1)\<rparr>"
    have r': "mem' = mem" "t' = ?t" using r True by (auto simp: tiers_dealloc_class_def Let_def)
    have "unat (cache_len t c + 1) \<le> CENTRAL_CACHE"
      using True by (simp add: unat_word_ariths CENTRAL_CACHE_def)
    then have "tier_free mem ?t c (cache_list ?t c @ xs @ grid (carve_cursor t c) c n)"
      using ch e unfolding tier_free_def by (intro exI [of _ xs] exI [of _ n]) simp
    then show ?thesis using cache_list_push [OF True] fs r' by (intro exI [of _ 0]) simp
  next
    case False
    then have l: "length (cache_list t c) = CENTRAL_CACHE" using len by (simp add: cache_list_def)
    let ?t = "t\<lparr>free_heads := (free_heads t)(c := Some ptr)\<rparr>"
    have r': "mem' = mem(ptr := free_heads t c)" "t' = ?t"
      using r False by (auto simp: tiers_dealloc_class_def Let_def)
    have "chain mem' (free_heads t c) xs \<longleftrightarrow> chain mem (free_heads t c) xs"
      by (rule chain_cong) (use ptr fs r' in auto)
    then have "tier_free mem' ?t c (cache_list t c @ (ptr # xs) @ grid (carve_cursor t c) c n)"
      using ch len e r' unfolding tier_free_def
      by (intro exI [of _ "ptr # xs"] exI [of _ n]) (simp add: cache_list_def)
    then show ?thesis using fs r' l by (intro exI [of _ CENTRAL_CACHE]) simp
  qed
qed

lemma dealloc_frame:
  assumes "tiers_dealloc_class mem t ptr c = (mem', t')"
  shows "d \<noteq> c \<Longrightarrow> tier_free m t' d gs \<longleftrightarrow> tier_free m t d gs" and "a \<noteq> ptr \<Longrightarrow> mem' a = mem a"
proof -
  show "d \<noteq> c \<Longrightarrow> tier_free m t' d gs \<longleftrightarrow> tier_free m t d gs"
    by (rule tier_free_cong) (use assms in \<open>auto simp: tiers_dealloc_class_def Let_def split: if_splits\<close>)
  show "a \<noteq> ptr \<Longrightarrow> mem' a = mem a"
    using assms by (auto simp: tiers_dealloc_class_def Let_def split: if_splits)
qed

lemma set_carve_free:
  assumes "tier_free mem t c []" and "unat lim = unat base + n * unat (class_stride c)"
  shows "tier_free mem (set_carve t c base lim) c (grid base c n)"
proof -
  from assms(1) have "cache_list t c = []" "unat (cache_len t c) \<le> CENTRAL_CACHE" "chain mem (free_heads t c) []"
    by (auto simp: tier_free_def)
  then show ?thesis using assms(2) unfolding tier_free_def
    by (intro exI [of _ "[]"] exI [of _ n]) (simp add: set_carve_def cache_list_def)
qed

lemma set_carve_frame: "d \<noteq> c \<Longrightarrow> tier_free mem (set_carve t c base lim) d gs \<longleftrightarrow> tier_free mem t d gs"
  by (rule tier_free_cong) (auto simp: set_carve_def)

section \<open>Conservation of blocks\<close>

text \<open>A grant is a region carved for one class of one flavour (\<open>True\<close>: headerless).\<close>

type_synonym grant = "bool \<times> nat \<times> usize \<times> nat"
type_synonym live = "bool \<Rightarrow> nat \<Rightarrow> usize multiset"

definition grant_span :: "grant \<Rightarrow> nat set" where
  "grant_span g = (case g of (fl, c, base, n) \<Rightarrow> {unat base ..< unat base + n * unat (class_stride c)})"

definition block_span :: "nat \<Rightarrow> usize \<Rightarrow> nat set" where
  "block_span c b = {unat b ..< unat b + unat (class_stride c)}"

definition grant_ok :: "grant \<Rightarrow> bool" where
  "grant_ok g \<longleftrightarrow> (case g of (fl, c, base, n) \<Rightarrow>
     c < 12 \<and> 16 dvd unat base \<and> base \<noteq> 0 \<and> unat base + n * unat (class_stride c) < 2 ^ 63)"

definition blocks_of :: "bool \<Rightarrow> nat \<Rightarrow> grant list \<Rightarrow> usize list" where
  "blocks_of fl c G = concat (map (\<lambda>(fl', c', base, n). if fl' = fl \<and> c' = c then grid base c n else []) G)"

definition tiers_of :: "bool \<Rightarrow> slab \<Rightarrow> tiers" where
  "tiers_of fl s = (if fl then hl_tiers s else header_tiers s)"

text \<open>
  What the environment promises. The kernel maps fresh page-aligned ranges below \<open>2 ^ 63\<close> and
  unmaps what it is told to; \<open>mapped\<close> reads the mapped addresses off its state. Registering the
  base of a segment for a class makes the class its owner unless the base had one, keeps the other
  owners, and changes nothing when it is refused; \<open>rinv\<close> is the registry's own invariant.
\<close>

definition pages_ok :: "usize \<Rightarrow> ('os \<Rightarrow> usize \<Rightarrow> usize option \<times> 'os) \<Rightarrow> ('os \<Rightarrow> nat set) \<Rightarrow> bool" where
  "pages_ok page mmap mapped \<longleftrightarrow>
     (\<exists>p < 30. page = 2 ^ p) \<and> mmap_ok page mmap
     \<and> (\<forall>os len b os'. mmap os len = (Some b, os') \<longrightarrow>
          {unat b ..< unat b + unat len} \<inter> mapped os = {}
          \<and> mapped os' = mapped os \<union> {unat b ..< unat b + unat len})
     \<and> (\<forall>os len os'. mmap os len = (None, os') \<longrightarrow> mapped os' = mapped os)"

definition kernel_ok :: "('os, 'r) slab_env \<Rightarrow> ('os \<Rightarrow> nat set) \<Rightarrow> bool" where
  "kernel_ok env mapped \<longleftrightarrow> pages_ok (env_page env) (env_mmap env) mapped
     \<and> (\<forall>os b len. mapped (env_munmap env os (b, len)) = mapped os - {unat b ..< unat b + unat len})"

definition registrar_ok ::
  "('r \<Rightarrow> bool) \<Rightarrow> ('r \<Rightarrow> usize \<Rightarrow> nat option) \<Rightarrow> (nat \<Rightarrow> 'r \<Rightarrow> usize \<Rightarrow> bool \<times> 'r) \<Rightarrow> bool"
where
  "registrar_ok rinv owner register \<longleftrightarrow>
     (\<forall>c r b ok r'. c < 12 \<longrightarrow> rinv r \<longrightarrow> b \<noteq> 0 \<longrightarrow> register c r b = (ok, r') \<longrightarrow>
        rinv r' \<and> (\<forall>b'. b' \<noteq> b \<longrightarrow> owner r' b' = owner r b')
        \<and> (ok \<longrightarrow> owner r b = None \<longrightarrow> owner r' b = Some c) \<and> (\<not> ok \<longrightarrow> r' = r))"

definition slab_inv ::
  "('os \<Rightarrow> nat set) \<Rightarrow> ('r \<Rightarrow> bool) \<Rightarrow> ('r \<Rightarrow> usize \<Rightarrow> nat option) \<Rightarrow> ('os, 'r) slab_world \<Rightarrow> live \<Rightarrow> grant list \<Rightarrow> bool"
where
  "slab_inv mapped rinv owner w live G \<longleftrightarrow>
     (\<forall>g \<in> set G. grant_ok g \<and> grant_span g \<subseteq> mapped (w_os w))
     \<and> sorted_wrt (\<lambda>g g'. grant_span g \<inter> grant_span g' = {}) G
     \<and> (\<forall>fl c. c < 12 \<longrightarrow> (\<exists>fs. tier_free (w_mem w) (tiers_of fl (w_slab w)) c fs
            \<and> mset fs + live fl c = mset (blocks_of fl c G)))
     \<and> (\<forall>fl c. 12 \<le> c \<longrightarrow> live fl c = {#})
     \<and> rinv (w_reg w) \<and> (\<forall>b. owner (w_reg w) b \<noteq> None \<longrightarrow> unat b \<in> mapped (w_os w))
     \<and> (\<forall>c base n. (True, c, base, n) \<in> set G \<longrightarrow>
          owner (w_reg w) base = Some c \<and> 2 ^ 16 dvd unat base \<and> n * unat (class_stride c) \<le> 2 ^ 16)"

subsection \<open>Blocks of grants do not overlap\<close>

lemma unat_grid:
  assumes "grant_ok (fl, c, base, n)" and "k < n"
  shows "unat (base + of_nat k * class_stride c) = unat base + k * unat (class_stride c)"
proof -
  have c: "c < 12" and lt: "unat base + n * unat (class_stride c) < 2 ^ 63" using assms(1) by (auto simp: grant_ok_def)
  have "k * unat (class_stride c) \<le> n * unat (class_stride c)" using assms(2) by simp
  then have s: "unat base + k * unat (class_stride c) < 2 ^ 63" using lt by linarith
  moreover have "k * 1 \<le> k * unat (class_stride c)"
    by (rule mult_le_mono2) (use class_stride_bounds [OF c] in simp)
  ultimately have "k < 2 ^ 63" by linarith
  then have "k < 2 ^ 64" by simp
  then have "unat (of_nat k * class_stride c) = k * unat (class_stride c)"
    using s by (simp add: unat_word_ariths unat_of_nat_64)
  then show ?thesis using s by (simp add: unat_add_64)
qed

lemma block_in_grant:
  assumes "grant_ok (fl, c, base, n)" and "b \<in> set (grid base c n)"
  shows "block_span c b \<subseteq> grant_span (fl, c, base, n)" and "16 dvd unat b" and "b \<noteq> 0"
proof -
  obtain k where k: "k < n" "b = base + of_nat k * class_stride c" using assms(2) by (auto simp: grid_def)
  have u: "unat b = unat base + k * unat (class_stride c)" using unat_grid [OF assms(1) k(1)] k(2) by simp
  have "k * unat (class_stride c) + unat (class_stride c) \<le> n * unat (class_stride c)"
    using mult_le_mono1 [of "Suc k" n "unat (class_stride c)"] k(1) by simp
  then show "block_span c b \<subseteq> grant_span (fl, c, base, n)"
    using u by (auto simp: block_span_def grant_span_def)
  have c: "c < 12" using assms(1) by (simp add: grant_ok_def)
  show "16 dvd unat b" using u assms(1) class_stride_bounds [OF c] by (simp add: grant_ok_def)
  have "0 < unat base" using assms(1) by (simp add: grant_ok_def unat_gt_0)
  then have "0 < unat b" using u by simp
  then show "b \<noteq> 0" by auto
qed

lemma grid_blocks_disjoint:
  assumes "grant_ok (fl, c, base, n)" and "b \<in> set (grid base c n)" and "b' \<in> set (grid base c n)" and "b \<noteq> b'"
  shows "block_span c b \<inter> block_span c b' = {}"
proof -
  let ?s = "unat (class_stride c)"
  obtain k k' where k: "k < n" "b = base + of_nat k * class_stride c" "k' < n" "b' = base + of_nat k' * class_stride c"
    using assms(2,3) by (auto simp: grid_def)
  have u: "unat b = unat base + k * ?s" "unat b' = unat base + k' * ?s"
    using unat_grid [OF assms(1)] k by auto
  have "k \<noteq> k'" using assms(4) k by auto
  then have "Suc k * ?s \<le> k' * ?s \<or> Suc k' * ?s \<le> k * ?s" by (metis Suc_leI mult_le_mono1 nat_neq_iff)
  then show ?thesis using u by (auto simp: block_span_def)
qed

lemma distinct_grid: "grant_ok (fl, c, base, n) \<Longrightarrow> distinct (grid base c n)"
proof -
  assume ok: "grant_ok (fl, c, base, n)"
  then have c: "c < 12" by (simp add: grant_ok_def)
  have "inj_on (\<lambda>k. base + of_nat k * class_stride c) {0..<n}"
  proof (rule inj_onI)
    fix x y assume xy: "x \<in> {0..<n}" "y \<in> {0..<n}"
      and "base + of_nat x * class_stride c = base + of_nat y * class_stride c"
    then have "x * unat (class_stride c) = y * unat (class_stride c)"
      using unat_grid [OF ok] by (metis add_left_cancel atLeastLessThan_iff)
    then show "x = y" using class_stride_bounds [OF c] by simp
  qed
  then show ?thesis by (simp add: grid_def distinct_map)
qed

lemma blocks_of_Cons:
  "blocks_of fl c (g # G) = (case g of (fl', c', base, n) \<Rightarrow> if fl' = fl \<and> c' = c then grid base c n else []) @ blocks_of fl c G"
  by (simp add: blocks_of_def)

lemma blocks_of_mem:
  "b \<in> set (blocks_of fl c G) \<longleftrightarrow> (\<exists>base n. (fl, c, base, n) \<in> set G \<and> b \<in> set (grid base c n))"
  by (auto simp: blocks_of_def split: if_splits)

lemma span_nonempty: "c < 12 \<Longrightarrow> unat b \<in> block_span c b"
  using class_stride_bounds [of c] by (simp add: block_span_def)

lemma blocks_disjoint:
  assumes "sorted_wrt (\<lambda>g g'. grant_span g \<inter> grant_span g' = {}) G" and "\<forall>g \<in> set G. grant_ok g"
    and "b \<in> set (blocks_of fl c G)" and "b' \<in> set (blocks_of fl' c' G)" and "(fl, c, b) \<noteq> (fl', c', b')"
  shows "block_span c b \<inter> block_span c' b' = {}"
  using assms
proof (induction G)
  case (Cons g G)
  obtain fg cg base n where g: "g = (fg, cg, base, n)" by (cases g) auto
  have gok: "grant_ok (fg, cg, base, n)" using Cons.prems(2) g by simp
  have hit: "block_span d x \<subseteq> grant_span g" if "x \<in> set (if fg = f \<and> cg = d then grid base d n else [])" for f d x
    using that block_in_grant(1) [OF gok] g by (auto split: if_splits)
  have rest: "block_span d x \<inter> grant_span g = {}" if xin: "x \<in> set (blocks_of f d G)" for f d x
  proof -
    obtain b1 n1 where x: "(f, d, b1, n1) \<in> set G" "x \<in> set (grid b1 d n1)" using xin by (auto simp: blocks_of_mem)
    then have "block_span d x \<subseteq> grant_span (f, d, b1, n1)" using block_in_grant(1) Cons.prems(2) by auto
    moreover have "grant_span g \<inter> grant_span (f, d, b1, n1) = {}" using Cons.prems(1) x(1) by simp
    ultimately show ?thesis by blast
  qed
  have one: "b \<in> set (if fg = fl \<and> cg = c then grid base c n else []) \<or> b \<in> set (blocks_of fl c G)"
    and two: "b' \<in> set (if fg = fl' \<and> cg = c' then grid base c' n else []) \<or> b' \<in> set (blocks_of fl' c' G)"
    using Cons.prems(3,4) by (auto simp: blocks_of_Cons g)
  show ?case
  proof (cases "b \<in> set (blocks_of fl c G)")
    case T: True
    show ?thesis
    proof (cases "b' \<in> set (blocks_of fl' c' G)")
      case True
      then show ?thesis using Cons T by simp
    next
      case False
      then show ?thesis using two hit [of b' fl' c'] rest [OF T] by blast
    qed
  next
    case F: False
    show ?thesis
    proof (cases "b' \<in> set (blocks_of fl' c' G)")
      case True
      then show ?thesis using one F hit [of b fl c] rest [OF True] by blast
    next
      case False
      then have "fg = fl" "cg = c" "b \<in> set (grid base c n)" "fg = fl'" "cg = c'" "b' \<in> set (grid base c' n)"
        using one two F by (auto split: if_splits)
      then show ?thesis using grid_blocks_disjoint [OF gok] Cons.prems(5) by auto
    qed
  qed
qed (simp add: blocks_of_def)

lemma distinct_blocks_of:
  assumes "sorted_wrt (\<lambda>g g'. grant_span g \<inter> grant_span g' = {}) G" and "\<forall>g \<in> set G. grant_ok g"
  shows "distinct (blocks_of fl c G)"
  using assms
proof (induction G)
  case (Cons g G)
  obtain fg cg base n where g: "g = (fg, cg, base, n)" by (cases g) auto
  have gok: "grant_ok (fg, cg, base, n)" using Cons.prems(2) g by simp
  have "set (grid base c n) \<inter> set (blocks_of fl c G) = {}" if fc: "fg = fl" "cg = c"
  proof -
    have "x \<notin> set (blocks_of fl c G)" if x: "x \<in> set (grid base c n)" for x
    proof
      assume "x \<in> set (blocks_of fl c G)"
      then obtain b1 n1 where y: "(fl, c, b1, n1) \<in> set G" "x \<in> set (grid b1 c n1)" by (auto simp: blocks_of_mem)
      have "grant_ok (fl, c, b1, n1)" using y Cons.prems(2) by auto
      then have "block_span c x \<subseteq> grant_span (fl, c, b1, n1)" using block_in_grant(1) y(2) by blast
      moreover have "block_span c x \<subseteq> grant_span g" using block_in_grant(1) [OF gok] x fc g by auto
      moreover have "grant_span g \<inter> grant_span (fl, c, b1, n1) = {}" using Cons.prems(1) y(1) by simp
      moreover have "unat x \<in> block_span c x" using span_nonempty gok fc by (auto simp: grant_ok_def)
      ultimately show False by blast
    qed
    then show ?thesis by blast
  qed
  then show ?case using Cons distinct_grid [OF gok] by (auto simp: blocks_of_Cons g)
qed (simp add: blocks_of_def)


section \<open>The two flavours\<close>

definition live_add :: "live \<Rightarrow> bool \<Rightarrow> nat \<Rightarrow> usize \<Rightarrow> live" where
  "live_add live fl c b = live(fl := (live fl)(c := add_mset b (live fl c)))"

definition live_remove :: "live \<Rightarrow> bool \<Rightarrow> nat \<Rightarrow> usize \<Rightarrow> live" where
  "live_remove live fl c b = live(fl := (live fl)(c := live fl c - {#b#}))"

lemma slab_inv_update:
  assumes inv: "slab_inv mapped rinv owner w live G" and c: "c < 12"
    and same: "w_os w' = w_os w" "w_reg w' = w_reg w"
    and here: "tier_free (w_mem w') (tiers_of fl (w_slab w')) c fs" "mset fs + live' fl c = mset (blocks_of fl c G)"
    and other: "\<And>f d gs. d < 12 \<Longrightarrow> (f, d) \<noteq> (fl, c) \<Longrightarrow> tier_free (w_mem w) (tiers_of f (w_slab w)) d gs \<Longrightarrow>
        set gs \<subseteq> set (blocks_of f d G) \<Longrightarrow> tier_free (w_mem w') (tiers_of f (w_slab w')) d gs"
    and live: "\<And>f d. (f, d) \<noteq> (fl, c) \<Longrightarrow> live' f d = live f d"
  shows "slab_inv mapped rinv owner w' live' G"
proof -
  have "\<exists>gs. tier_free (w_mem w') (tiers_of f (w_slab w')) d gs \<and> mset gs + live' f d = mset (blocks_of f d G)"
    if d: "d < 12" for f d
  proof (cases "(f, d) = (fl, c)")
    case True
    then show ?thesis using here by auto
  next
    case False
    obtain gs where gs: "tier_free (w_mem w) (tiers_of f (w_slab w)) d gs"
      "mset gs + live f d = mset (blocks_of f d G)" using inv d unfolding slab_inv_def by blast
    then have "set gs \<subseteq> set (blocks_of f d G)"
      by (metis mset_subset_eq_add_left set_mset_mono set_mset_mset)
    then show ?thesis using other [OF d False gs(1)] gs(2) live [OF False] by auto
  qed
  moreover have "live' f d = {#}" if "12 \<le> d" for f d
    using live [of f d] inv that c unfolding slab_inv_def by (cases "(f, d) = (fl, c)") auto
  ultimately show ?thesis using inv unfolding slab_inv_def same by blast
qed

lemma slab_inv_grants:
  assumes "slab_inv mapped rinv owner w live G"
  shows "sorted_wrt (\<lambda>g g'. grant_span g \<inter> grant_span g' = {}) G" and "\<forall>g \<in> set G. grant_ok g"
  using assms unfolding slab_inv_def by auto

lemma slab_inv_free:
  assumes "slab_inv mapped rinv owner w live G" and "c < 12"
  obtains fs where "tier_free (w_mem w) (tiers_of fl (w_slab w)) c fs"
    "mset fs + live fl c = mset (blocks_of fl c G)" "distinct fs" "set_mset (live fl c) \<subseteq> set (blocks_of fl c G)"
    "\<And>b. b \<in># live fl c \<Longrightarrow> b \<notin> set fs"
proof -
  obtain fs where fs: "tier_free (w_mem w) (tiers_of fl (w_slab w)) c fs"
    "mset fs + live fl c = mset (blocks_of fl c G)" using assms unfolding slab_inv_def by blast
  have d: "distinct (blocks_of fl c G)" by (rule distinct_blocks_of [OF slab_inv_grants [OF assms(1)]])
  have count: "count (mset fs) b + count (live fl c) b \<le> 1" for b
    using fs(2) d by (metis count_union distinct_count_atmost_1 le_refl zero_le_one)
  have "distinct fs"
  proof -
    have "count (mset fs) b \<le> 1" for b using count [of b] by linarith
    then show ?thesis by (metis count_eq_zero_iff distinct_count_atmost_1 le_SucE le_zero_eq One_nat_def set_mset_mset count_greater_eq_one_iff le_antisym)
  qed
  moreover have "b \<notin> set fs" if "b \<in># live fl c" for b
  proof
    assume "b \<in> set fs"
    then have "1 \<le> count (mset fs) b" "1 \<le> count (live fl c) b" using that by (auto simp: Suc_le_eq count_greater_zero_iff)
    then show False using count [of b] by linarith
  qed
  moreover have "set_mset (live fl c) \<subseteq> set (blocks_of fl c G)"
    by (metis fs(2) mset_subset_eq_add_right set_mset_mono set_mset_mset)
  ultimately show ?thesis using that fs by blast
qed

locale flavour =
  fixes fl :: bool
    and pop :: "nat \<Rightarrow> ('os, 'r) slab_world \<Rightarrow> usize option \<times> ('os, 'r) slab_world"
    and dealloc :: "usize \<Rightarrow> nat \<Rightarrow> ('os, 'r) slab_world \<Rightarrow> ('os, 'r) slab_world"
  assumes pop_tiers: "pop c w = (r, w') \<Longrightarrow>
      pop_any (w_mem w) (tiers_of fl (w_slab w)) c = (r, tiers_of fl (w_slab w'))
      \<and> tiers_of (\<not> fl) (w_slab w') = tiers_of (\<not> fl) (w_slab w)
      \<and> w_mem w' = w_mem w \<and> w_os w' = w_os w \<and> w_reg w' = w_reg w"
    and dealloc_tiers: "tiers_dealloc_class (w_mem w) (tiers_of fl (w_slab w)) b c
        = (w_mem (dealloc b c w), tiers_of fl (w_slab (dealloc b c w)))
      \<and> tiers_of (\<not> fl) (w_slab (dealloc b c w)) = tiers_of (\<not> fl) (w_slab w)
      \<and> w_os (dealloc b c w) = w_os w \<and> w_reg (dealloc b c w) = w_reg w"
begin

lemma pop_inv:
  assumes inv: "slab_inv mapped rinv owner w live G" and c: "c < 12" and p: "pop c w = (r, w')"
  shows "case r of Some b \<Rightarrow> slab_inv mapped rinv owner w' (live_add live fl c b) G
      | None \<Rightarrow> slab_inv mapped rinv owner w' live G \<and> tier_free (w_mem w') (tiers_of fl (w_slab w')) c []"
proof -
  note P = pop_tiers [OF p]
  obtain fs where fs: "tier_free (w_mem w) (tiers_of fl (w_slab w)) c fs" "mset fs + live fl c = mset (blocks_of fl c G)"
    using slab_inv_free [OF inv c] by metis
  note F = pop_any_free [OF fs(1) c P [THEN conjunct1]]
  have other: "tier_free (w_mem w') (tiers_of f (w_slab w')) d gs"
    if "(f, d) \<noteq> (fl, c)" "tier_free (w_mem w) (tiers_of f (w_slab w)) d gs" for f d gs
  proof (cases "f = fl")
    case True
    then show ?thesis using that pop_any_frame [OF P [THEN conjunct1], of d] P by auto
  next
    case False
    then have "f = (\<not> fl)" by auto
    then show ?thesis using that P by simp
  qed
  show ?thesis
  proof (cases fs)
    case Nil
    then have "r = None" "tiers_of fl (w_slab w') = tiers_of fl (w_slab w)" using F by auto
    moreover have "slab_inv mapped rinv owner w' live G"
      by (rule slab_inv_update [where live' = live and fs = fs, OF inv c])
        (use P other fs calculation in auto)
    ultimately show ?thesis using fs(1) Nil P by simp
  next
    case (Cons b fs')
    then have r: "r = Some b" "tier_free (w_mem w') (tiers_of fl (w_slab w')) c fs'" using F P by auto
    have "slab_inv mapped rinv owner w' (live_add live fl c b) G"
    proof (rule slab_inv_update [OF inv c _ _ r(2)])
      show "mset fs' + live_add live fl c b fl c = mset (blocks_of fl c G)"
        using fs(2) Cons by (simp add: live_add_def)
    qed (use P other in \<open>auto simp: live_add_def\<close>)
    then show ?thesis using r(1) by simp
  qed
qed

lemma dealloc_inv:
  assumes inv: "slab_inv mapped rinv owner w live G" and c: "c < 12" and b: "b \<in># live fl c"
  shows "slab_inv mapped rinv owner (dealloc b c w) (live_remove live fl c b) G"
proof -
  let ?w = "dealloc b c w"
  note D = dealloc_tiers [of w b c]
  obtain fs where fs: "tier_free (w_mem w) (tiers_of fl (w_slab w)) c fs" "mset fs + live fl c = mset (blocks_of fl c G)"
    "b \<notin> set fs" "b \<in> set (blocks_of fl c G)"
  proof (rule slab_inv_free [OF inv c, of fl])
    fix gs assume "tier_free (w_mem w) (tiers_of fl (w_slab w)) c gs" "mset gs + live fl c = mset (blocks_of fl c G)"
      "set_mset (live fl c) \<subseteq> set (blocks_of fl c G)" "\<And>x. x \<in># live fl c \<Longrightarrow> x \<notin> set gs"
    then show thesis using that [of gs] b by auto
  qed
  obtain k where k: "tier_free (w_mem ?w) (tiers_of fl (w_slab ?w)) c (take k fs @ b # drop k fs)"
    using dealloc_free [OF fs(1,3) D [THEN conjunct1]] by blast
  note inv' = slab_inv_grants [OF inv]
  show ?thesis
  proof (rule slab_inv_update [OF inv c _ _ k])
    have "mset (take k fs) + mset (drop k fs) = mset fs" by (metis append_take_drop_id mset_append)
    then have "mset (take k fs @ b # drop k fs) + (live fl c - {#b#}) = mset fs + add_mset b (live fl c - {#b#})"
      by simp
    also have "\<dots> = mset (blocks_of fl c G)" using fs(2) b by (simp add: insert_DiffM)
    finally show "mset (take k fs @ b # drop k fs) + live_remove live fl c b fl c = mset (blocks_of fl c G)"
      by (simp add: live_remove_def)
    fix f d gs
    assume d: "d < 12" "(f, d) \<noteq> (fl, c)" "tier_free (w_mem w) (tiers_of f (w_slab w)) d gs"
      "set gs \<subseteq> set (blocks_of f d G)"
    have "x \<noteq> b" if "x \<in> set gs" for x
    proof
      assume "x = b"
      then have "b \<in> set (blocks_of f d G)" using that d(4) by auto
      then have "block_span c b \<inter> block_span d b = {}"
        using blocks_disjoint [OF inv' fs(4)] d(2) by auto
      then show False using span_nonempty [OF c, of b] span_nonempty [OF d(1), of b] by blast
    qed
    then have m: "tier_free (w_mem ?w) (tiers_of f (w_slab w)) d gs"
      using tier_free_mem [OF d(3)] dealloc_frame(2) [OF D [THEN conjunct1]] by blast
    show "tier_free (w_mem ?w) (tiers_of f (w_slab ?w)) d gs"
    proof (cases "f = fl")
      case True
      then show ?thesis using m d(2) dealloc_frame(1) [OF D [THEN conjunct1], of d] by auto
    next
      case False
      then have "f = (\<not> fl)" by auto
      then show ?thesis using m D by simp
    qed
  qed (use D in \<open>auto simp: live_remove_def\<close>)
qed

end

interpretation header: flavour False pop_header slab_dealloc_class
  by unfold_locales
    (auto simp: pop_header_def slab_dealloc_class_def tiers_of_def split: prod.splits)

interpretation headerless: flavour True pop_hl slab_dealloc_headerless
  by unfold_locales
    (auto simp: pop_hl_def slab_dealloc_headerless_def tiers_of_def split: prod.splits)

section \<open>Refills\<close>

lemma pages_okD:
  assumes "pages_ok page mmap mapped"
  shows "\<exists>p < 30. page = 2 ^ p" and "mmap_ok page mmap"
    and "mmap os len = (Some b, os') \<Longrightarrow> {unat b ..< unat b + unat len} \<inter> mapped os = {}
      \<and> mapped os' = mapped os \<union> {unat b ..< unat b + unat len}"
    and "mmap os len = (None, os') \<Longrightarrow> mapped os' = mapped os"
  using assms by (auto simp: pages_ok_def)

lemma kernel_okD:
  assumes "kernel_ok env mapped"
  shows "pages_ok (env_page env) (env_mmap env) mapped"
    and "mapped (env_munmap env os (b, len)) = mapped os - {unat b ..< unat b + unat len}"
  using assms by (simp_all add: kernel_ok_def)

text \<open>A mapping the kernel gives is fresh; without one, nothing that was mapped is lost.\<close>

lemma alloc_pages_fresh:
  assumes k: "pages_ok page mmap mapped" and a: "a < 60" and sz: "unat sz < 2 ^ 60"
    and res: "alloc_pages page mmap sz (2 ^ a) os = (r, os')"
  shows "case r of None \<Rightarrow> mapped os \<subseteq> mapped os'
    | Some m \<Rightarrow> 2 ^ a dvd unat (map_ptr m) \<and> map_ptr m \<noteq> 0 \<and> unat sz \<le> unat (map_usable m)
        \<and> unat (map_ptr m) + unat (map_usable m) < 2 ^ 63
        \<and> {unat (map_ptr m) ..< unat (map_ptr m) + unat (map_usable m)} \<subseteq> mapped os' - mapped os
        \<and> mapped os' = mapped os \<union> {unat (map_base m) ..< unat (map_base m) + unat (map_len m)}
        \<and> {unat (map_base m) ..< unat (map_base m) + unat (map_len m)} \<inter> mapped os = {}"
proof -
  obtain p where p: "p < 30" "page = 2 ^ p" using pages_okD(1) [OF k] by blast
  show ?thesis
  proof (cases r)
    case None
    have "mapped os \<subseteq> mapped os'"
      using res None pages_okD(3,4) [OF k]
      by (auto simp: alloc_pages_def Let_def split: if_splits prod.splits option.splits)
    then show ?thesis using None by simp
  next
    case (Some m)
    have "alloc_pages (2 ^ p) (mmap) sz (2 ^ a) os = (Some m, os')" using res Some p by simp
    note A = alloc_pages_Some [OF this _ _ a sz, unfolded p(2) [symmetric], OF pages_okD(2) [OF k]]
    have p60: "p < 60" using p(1) by simp
    note A = A [OF p60]
    note F = pages_okD(3) [OF k A(8)]
    have "0 < unat (map_base m)" using A(7) by (simp add: unat_gt_0)
    then have "map_ptr m \<noteq> 0" using A(3) by auto
    moreover have "{unat (map_ptr m) ..< unat (map_ptr m) + unat (map_usable m)}
        \<subseteq> {unat (map_base m) ..< unat (map_base m) + unat (map_len m)}"
      using A(3,4) by auto
    then have "{unat (map_ptr m) ..< unat (map_ptr m) + unat (map_usable m)} \<subseteq> mapped os' - mapped os"
      using F by blast
    ultimately show ?thesis using Some A F by (simp add: is_aligned_unat)
  qed
qed

text \<open>Adding a fresh region to the carve tier of an exhausted class.\<close>

lemma slab_inv_grant:
  assumes inv: "slab_inv mapped rinv owner w live G" and c: "c < 12"
    and empty: "tier_free (w_mem w) (tiers_of fl (w_slab w)) c []"
    and g: "grant_ok (fl, c, base, n)" "grant_span (fl, c, base, n) \<subseteq> mapped os' - mapped (w_os w)"
    and os: "mapped (w_os w) \<subseteq> mapped os'"
    and t: "tiers_of fl (w_slab w') = set_carve (tiers_of fl (w_slab w)) c base (base + of_nat n * class_stride c)"
      "tiers_of (\<not> fl) (w_slab w') = tiers_of (\<not> fl) (w_slab w)"
    and w': "w_mem w' = w_mem w" "w_os w' = os'"
    and reg: "rinv (w_reg w')" "\<forall>b. owner (w_reg w') b \<noteq> None \<longrightarrow> unat b \<in> mapped os'"
      "\<forall>b. unat b \<in> mapped (w_os w) \<longrightarrow> owner (w_reg w') b = owner (w_reg w) b"
      "fl \<longrightarrow> owner (w_reg w') base = Some c \<and> 2 ^ 16 dvd unat base \<and> n * unat (class_stride c) \<le> 2 ^ 16"
  shows "slab_inv mapped rinv owner w' live (G @ [(fl, c, base, n)])
    \<and> tier_free (w_mem w') (tiers_of fl (w_slab w')) c (grid base c n)"
proof -
  have lim: "unat (base + of_nat n * class_stride c) = unat base + n * unat (class_stride c)"
  proof -
    have c12: "c < 12" and lt: "unat base + n * unat (class_stride c) < 2 ^ 63" using g(1) by (auto simp: grant_ok_def)
    have "n * 1 \<le> n * unat (class_stride c)" by (rule mult_le_mono2) (use class_stride_bounds [OF c12] in simp)
    then have "n < 2 ^ 63" using lt by linarith
    then have "unat (of_nat n * class_stride c) = n * unat (class_stride c)"
      using lt by (simp add: unat_word_ariths unat_of_nat_64)
    then show ?thesis using lt by (simp add: unat_add_64)
  qed
  have carve: "tier_free (w_mem w') (tiers_of fl (w_slab w')) c (grid base c n)"
    unfolding t w' by (rule set_carve_free [OF empty lim])
  have old: "sorted_wrt (\<lambda>g g'. grant_span g \<inter> grant_span g' = {}) G"
    "\<forall>g \<in> set G. grant_span g \<subseteq> mapped (w_os w)" "\<forall>g \<in> set G. grant_ok g"
    using inv unfolding slab_inv_def by auto
  have blocks: "blocks_of f d (G @ [(fl, c, base, n)])
      = blocks_of f d G @ (if f = fl \<and> d = c then grid base c n else [])" for f d
    by (auto simp: blocks_of_def)
  have "\<exists>gs. tier_free (w_mem w') (tiers_of f (w_slab w')) d gs
      \<and> mset gs + live f d = mset (blocks_of f d (G @ [(fl, c, base, n)]))" if d: "d < 12" for f d
  proof (cases "(f, d) = (fl, c)")
    case True
    obtain fs where fs: "tier_free (w_mem w) (tiers_of fl (w_slab w)) c fs" "mset fs + live fl c = mset (blocks_of fl c G)"
      using slab_inv_free [OF inv c] by metis
    obtain r t where pop: "pop_any (w_mem w) (tiers_of fl (w_slab w)) c = (r, t)" by force
    have "fs = []" using pop_any_free [OF empty c pop] pop_any_free [OF fs(1) c pop] by (cases fs) auto
    then show ?thesis using True carve fs(2) blocks by auto
  next
    case False
    obtain gs where gs: "tier_free (w_mem w) (tiers_of f (w_slab w)) d gs" "mset gs + live f d = mset (blocks_of f d G)"
      using slab_inv_free [OF inv d] by metis
    have "tier_free (w_mem w') (tiers_of f (w_slab w')) d gs"
    proof (cases "f = fl")
      case True
      then show ?thesis using gs(1) False by (simp add: w' t set_carve_frame)
    next
      case False
      then have "f = (\<not> fl)" by auto
      then show ?thesis using gs(1) by (simp add: w' t)
    qed
    then show ?thesis using gs(2) False blocks by auto
  qed
  moreover have "sorted_wrt (\<lambda>g g'. grant_span g \<inter> grant_span g' = {}) (G @ [(fl, c, base, n)])"
  proof -
    have "grant_span h \<inter> grant_span (fl, c, base, n) = {}" if "h \<in> set G" for h
      using old(2) g(2) that by blast
    then show ?thesis using old(1) by (simp add: sorted_wrt_append)
  qed
  moreover have "\<forall>g \<in> set (G @ [(fl, c, base, n)]). grant_ok g \<and> grant_span g \<subseteq> mapped (w_os w')"
  proof
    fix h assume "h \<in> set (G @ [(fl, c, base, n)])"
    then consider "h \<in> set G" | "h = (fl, c, base, n)" by auto
    then show "grant_ok h \<and> grant_span h \<subseteq> mapped (w_os w')"
      using old(2,3) g os w'(2) by cases blast+
  qed
  moreover have "\<forall>d b m. (True, d, b, m) \<in> set (G @ [(fl, c, base, n)]) \<longrightarrow>
      owner (w_reg w') b = Some d \<and> 2 ^ 16 dvd unat b \<and> m * unat (class_stride d) \<le> 2 ^ 16"
  proof (intro allI impI)
    fix d b m assume m: "(True, d, b, m) \<in> set (G @ [(fl, c, base, n)])"
    show "owner (w_reg w') b = Some d \<and> 2 ^ 16 dvd unat b \<and> m * unat (class_stride d) \<le> 2 ^ 16"
    proof (cases "(True, d, b, m) \<in> set G")
      case True
      then have o: "owner (w_reg w) b = Some d" "2 ^ 16 dvd unat b" "m * unat (class_stride d) \<le> 2 ^ 16"
        using inv unfolding slab_inv_def by blast+
      then have "unat b \<in> mapped (w_os w)" using inv unfolding slab_inv_def by (metis option.distinct(1))
      then show ?thesis using o reg(3) by simp
    next
      case False
      then show ?thesis using m reg(4) by auto
    qed
  qed
  moreover have "live f d = {#}" if "12 \<le> d" for f d using inv that unfolding slab_inv_def by blast
  ultimately show ?thesis using carve reg(1,2) unfolding slab_inv_def w' by blast
qed

lemma slab_inv_os:
  assumes "slab_inv mapped rinv owner w live G" and "mapped (w_os w) \<subseteq> mapped os'"
  shows "slab_inv mapped rinv owner (w\<lparr>w_os := os'\<rparr>) live G"
proof -
  have "\<forall>g \<in> set G. grant_ok g \<and> grant_span g \<subseteq> mapped os'"
    "\<forall>b. owner (w_reg w) b \<noteq> None \<longrightarrow> unat b \<in> mapped os'"
    using assms unfolding slab_inv_def by (blast, blast)
  then show ?thesis using assms(1) unfolding slab_inv_def by simp
qed

lemma class_stride_pow2: "c < 12 \<Longrightarrow> class_stride c = 2 ^ max 4 (c + 3)"
proof -
  assume c: "c < 12"
  have m: "max (16::nat) (2 ^ (c + 3)) = 2 ^ max 4 (c + 3)"
  proof (cases "c + 3 \<le> 4")
    case True
    then have "c = 0 \<or> c = 1" by auto
    then show ?thesis by auto
  next
    case False
    then have "(2::nat) ^ 4 \<le> 2 ^ (c + 3)" by (intro power_increasing) auto
    then show ?thesis using False by (simp add: max_def)
  qed
  have "max 4 (c + 3) < 64" using c by simp
  then have "unat ((2::usize) ^ max 4 (c + 3)) = 2 ^ max 4 (c + 3)" by (rule unat_pow2_64)
  then show ?thesis using class_stride_unat [OF c] m by (simp add: word_unat_eq_iff)
qed

lemma class_stride_dvd: "c < 12 \<Longrightarrow> 4 \<le> k \<Longrightarrow> 2 ^ k dvd unat x \<Longrightarrow> 16 dvd unat (x :: usize)"
  using le_imp_power_dvd [of 4 k "2::nat"] dvd_trans by force

lemma region_grant:
  assumes c: "c < 12" and k: "4 \<le> k" "2 ^ k dvd unat p" and p: "p \<noteq> 0"
    and u: "unat p + unat usable < 2 ^ 63" and n: "n * unat (class_stride c) \<le> unat usable"
  shows "grant_ok (fl, c, p, n) \<and> grant_span (fl, c, p, n) \<subseteq> {unat p ..< unat p + unat usable}"
  using assms class_stride_dvd [OF c k] by (auto simp: grant_ok_def grant_span_def)

lemma slab_refill_inv:
  assumes kern: "kernel_ok env mapped" and inv: "slab_inv mapped rinv owner w live G" and c: "c < 12"
    and empty: "tier_free (w_mem w) (tiers_of False (w_slab w)) c []"
    and res: "slab_refill env c (SLAB_SIZE_CLASSES ! c) w = (ok, w')"
  shows "if ok then \<exists>G' b fs. slab_inv mapped rinv owner w' live G'
      \<and> tier_free (w_mem w') (tiers_of False (w_slab w')) c (b # fs)
    else slab_inv mapped rinv owner w' live G"
proof -
  let ?s = "class_stride c"
  obtain p where p: "p < 30" "env_page env = 2 ^ p" using pages_okD(1) [OF kernel_okD(1) [OF kern]] by blast
  note sb = class_stride_bounds [OF c]
  let ?rb = "max (page_or (?s * 16) (env_page env)) (env_page env)"
  have s16: "unat (?s * 16) = unat ?s * 16" using sb by (simp add: unat_word_ariths)
  have "(2::nat) ^ p < 2 ^ 30" by (rule power_strict_increasing) (use p in simp_all)
  then have pp: "unat (env_page env) = 2 ^ p" "(2::nat) ^ p < 2 ^ 30" using p by (simp_all add: unat_pow2_64)
  have rb: "unat ?rb = max (unat ?s * 16) (2 ^ p)"
    using s16 pp by (auto simp: page_or_def word_less_nat_alt word_le_nat_alt max_def)
  then have rb60: "unat ?rb < 2 ^ 60" "unat ?s * 16 \<le> unat ?rb" using sb pp(2) by simp_all
  let ?k = "max (max 4 (c + 3)) p"
  have k: "?k < 60" "4 \<le> ?k" using c p by simp_all
  have al: "max ?s (env_page env) = 2 ^ ?k"
    using c p by (simp add: class_stride_pow2 max_pow2)
  obtain r os' where pages: "alloc_pages (env_page env) (env_mmap env) ?rb (2 ^ ?k) (w_os w) = (r, os')" by force
  note F = alloc_pages_fresh [OF kernel_okD(1) [OF kern] k(1) rb60(1) pages]
  show ?thesis
  proof (cases r)
    case None
    then have "ok = False" "w' = w\<lparr>w_os := os'\<rparr>"
      using res pages by (auto simp: slab_refill_def Let_def class_stride_def [symmetric] al)
    then show ?thesis using slab_inv_os [OF inv] F None by simp
  next
    case (Some m)
    let ?n = "map_usable m div ?s"
    have ok: "ok" and w': "w' = w\<lparr>w_os := os',
        w_slab := (w_slab w)\<lparr>header_tiers := set_carve (header_tiers (w_slab w)) c (map_ptr m) (map_ptr m + ?n * ?s),
          slab_regions := slab_regions (w_slab w) @ [m]\<rparr>\<rparr>"
      using res pages Some by (auto simp: slab_refill_def Let_def class_stride_def [symmetric] al)
    have un: "unat ?n = unat (map_usable m) div unat ?s" by (rule unat_div)
    then have le: "unat ?n * unat ?s \<le> unat (map_usable m)" by simp
    have F': "2 ^ ?k dvd unat (map_ptr m)" "map_ptr m \<noteq> 0" "unat ?rb \<le> unat (map_usable m)"
      "unat (map_ptr m) + unat (map_usable m) < 2 ^ 63"
      "{unat (map_ptr m) ..< unat (map_ptr m) + unat (map_usable m)} \<subseteq> mapped os' - mapped (w_os w)"
      "mapped (w_os w) \<subseteq> mapped os'"
      using F Some by auto
    note g = region_grant [OF c k(2) F'(1,2,4) le, of False]
    have reg: "rinv (w_reg w)" "\<forall>b. owner (w_reg w) b \<noteq> None \<longrightarrow> unat b \<in> mapped os'"
      using inv F'(6) unfolding slab_inv_def by blast+
    have "slab_inv mapped rinv owner w' live (G @ [(False, c, map_ptr m, unat ?n)])
        \<and> tier_free (w_mem w') (tiers_of False (w_slab w')) c (grid (map_ptr m) c (unat ?n))"
      by (rule slab_inv_grant [OF inv c empty _ _ F'(6)])
        (use g F'(5) reg w' in \<open>auto simp: tiers_of_def\<close>)
    moreover have "16 \<le> unat ?n"
      unfolding un using F'(3) rb60(2) sb by (simp add: less_eq_div_iff_mult_less_eq)
    then obtain j where "unat ?n = Suc j" by (cases "unat ?n") auto
    ultimately show ?thesis using ok by (auto simp: grid_Suc)
  qed
qed

lemma refill_segment_inv:
  assumes kern: "kernel_ok env mapped" and inv: "slab_inv mapped rinv owner w live G" and c: "c < 12"
    and reg: "registrar_ok rinv owner register"
    and empty: "tier_free (w_mem w) (tiers_of True (w_slab w)) c []"
    and res: "refill_segment (env\<lparr>env_register := register c\<rparr>) c w = (r, w')"
  shows "case r of Some base \<Rightarrow> \<exists>G' b fs. slab_inv mapped rinv owner w' live G'
      \<and> tier_free (w_mem w') (tiers_of True (w_slab w')) c (b # fs)
    | None \<Rightarrow> slab_inv mapped rinv owner w' live G"
proof -
  let ?s = "class_stride c"
  note sb = class_stride_bounds [OF c]
  have sz: "SEGMENT_SIZE = 2 ^ 16" "unat SEGMENT_SIZE = 2 ^ 16" by (simp_all add: SEGMENT_SIZE_def)
  obtain q os' where pages: "alloc_pages (env_page env) (env_mmap env) SEGMENT_SIZE (2 ^ 16) (w_os w) = (q, os')" by force
  have seg60: "unat SEGMENT_SIZE < 2 ^ 60" by (simp add: SEGMENT_SIZE_def)
  have sixteen: "(16::nat) < 60" by simp
  note F = alloc_pages_fresh [OF kernel_okD(1) [OF kern] sixteen seg60 pages]
  show ?thesis
  proof (cases q)
    case None
    then have "r = None" "w' = w\<lparr>w_os := os'\<rparr>"
      using res pages by (auto simp: refill_segment_def sz(1))
    then show ?thesis using slab_inv_os [OF inv] F None by simp
  next
    case (Some m)
    let ?b = "map_ptr m"
    have F': "2 ^ 16 dvd unat ?b" "?b \<noteq> 0" "2 ^ 16 \<le> unat (map_usable m)"
      "unat ?b + unat (map_usable m) < 2 ^ 63"
      "{unat ?b ..< unat ?b + unat (map_usable m)} \<subseteq> mapped os' - mapped (w_os w)"
      "mapped os' = mapped (w_os w) \<union> {unat (map_base m) ..< unat (map_base m) + unat (map_len m)}"
      "{unat (map_base m) ..< unat (map_base m) + unat (map_len m)} \<inter> mapped (w_os w) = {}"
      using F Some sz by auto
    have "unat ?b \<in> {unat ?b ..< unat ?b + unat (map_usable m)}" using F'(3) by simp
    then have new: "unat ?b \<notin> mapped (w_os w)" and bm: "unat ?b \<in> mapped os'" using F'(5) by blast+
    obtain ok r' where rg: "register c (w_reg w) ?b = (ok, r')" by force
    have rinv: "rinv (w_reg w)" and own: "\<forall>b. owner (w_reg w) b \<noteq> None \<longrightarrow> unat b \<in> mapped (w_os w)"
      using inv unfolding slab_inv_def by blast+
    have R: "rinv r'" "\<forall>b'. b' \<noteq> ?b \<longrightarrow> owner r' b' = owner (w_reg w) b'"
      "ok \<longrightarrow> owner (w_reg w) ?b = None \<longrightarrow> owner r' ?b = Some c" "\<not> ok \<longrightarrow> r' = w_reg w"
      using reg c rinv F'(2) rg unfolding registrar_ok_def by blast+
    show ?thesis
    proof (cases ok)
      case False
      have "r = None" and w': "w' = w\<lparr>w_os := env_munmap env os' (map_base m, map_len m)\<rparr>"
        using res pages Some rg R(4) False by (auto simp: refill_segment_def sz(1) Let_def unmap_range_def)
      moreover have "mapped (env_munmap env os' (map_base m, map_len m)) = mapped (w_os w)"
        using kernel_okD(2) [OF kern, of os' "map_base m" "map_len m"] F'(6,7) by auto
      ultimately show ?thesis using slab_inv_os [OF inv] by simp
    next
      case True
      let ?n = "SEGMENT_SIZE div ?s"
      have rb: "r = Some ?b" and w': "w' = w\<lparr>w_os := os', w_reg := r',
          w_slab := (w_slab w)\<lparr>hl_tiers := set_carve (hl_tiers (w_slab w)) c ?b (?b + ?n * ?s),
            slab_regions := slab_regions (w_slab w) @ [m]\<rparr>\<rparr>"
        using res pages Some rg True by (auto simp: refill_segment_def sz(1) Let_def class_stride_def [symmetric])
      have un: "unat ?n = 2 ^ 16 div unat ?s" by (simp only: unat_div sz(2))
      then have le16: "unat ?n * unat ?s \<le> 2 ^ 16" by simp
      then have le: "unat ?n * unat ?s \<le> unat (map_usable m)" using F'(3) by simp
      have four: "(4::nat) \<le> 16" by simp
      note g = region_grant [OF c four F'(1,2,4) le, of True]
      have "owner (w_reg w) ?b = None" using own new by blast
      then have mine: "owner r' ?b = Some c" using R(3) True by blast
      have reg': "\<forall>b. owner r' b \<noteq> None \<longrightarrow> unat b \<in> mapped os'"
        using R(2) own F'(6) bm by (metis UnCI)
      have keep: "\<forall>b. unat b \<in> mapped (w_os w) \<longrightarrow> owner r' b = owner (w_reg w) b" using R(2) new by metis
      have sub: "mapped (w_os w) \<subseteq> mapped os'" using F'(6) by blast
      have "slab_inv mapped rinv owner w' live (G @ [(True, c, ?b, unat ?n)])
          \<and> tier_free (w_mem w') (tiers_of True (w_slab w')) c (grid ?b c (unat ?n))"
        by (rule slab_inv_grant [OF inv c empty _ _ sub])
          (use g F'(1,5) R(1) reg' keep mine le16 w' in \<open>auto simp: tiers_of_def\<close>)
      moreover have "4 \<le> unat ?n" unfolding un using sb by (simp add: less_eq_div_iff_mult_less_eq)
      then obtain j where "unat ?n = Suc j" by (cases "unat ?n") auto
      ultimately show ?thesis using rb by (auto simp: grid_Suc)
    qed
  qed
qed

section \<open>The operations keep the invariant\<close>

definition live_adds :: "live \<Rightarrow> bool \<Rightarrow> nat \<Rightarrow> usize list \<Rightarrow> live" where
  "live_adds live fl c bs = live(fl := (live fl)(c := live fl c + mset bs))"

lemma live_adds_simps [simp]:
  "live_adds live fl c [] = live"
  "live_adds (live_add live fl c b) fl c bs = live_adds live fl c (b # bs)"
  by (simp_all add: live_adds_def live_add_def)

lemma live_adds_one: "live_adds live fl c [b] = live_add live fl c b"
  by (simp add: live_adds_def live_add_def)

lemma slab_alloc_class_inv:
  assumes kern: "kernel_ok env mapped" and inv: "slab_inv mapped rinv owner w live G" and c: "c < 12"
  shows "\<exists>r w' G'. slab_alloc_class env c w = Some (r, w')
    \<and> slab_inv mapped rinv owner w' (case r of None \<Rightarrow> live | Some b \<Rightarrow> live_add live False c b) G'"
proof -
  obtain r1 w1 where p1: "pop_header c w = (r1, w1)" by force
  note I1 = header.pop_inv [OF inv c p1]
  show ?thesis
  proof (cases r1)
    case (Some b)
    have "slab_alloc_class env c w = Some (Some b, w1)"
      by (subst slab_alloc_class.simps) (simp add: p1 Some)
    then show ?thesis using I1 Some by auto
  next
    case None
    then have inv1: "slab_inv mapped rinv owner w1 live G"
      and e1: "tier_free (w_mem w1) (tiers_of False (w_slab w1)) c []" using I1 by auto
    obtain ok w2 where rf: "slab_refill env c (SLAB_SIZE_CLASSES ! c) w1 = (ok, w2)" by force
    note I2 = slab_refill_inv [OF kern inv1 c e1 rf]
    show ?thesis
    proof (cases ok)
      case False
      have "slab_alloc_class env c w = Some (None, w2)"
        by (subst slab_alloc_class.simps) (simp add: p1 None rf False)
      then show ?thesis using I2 False by auto
    next
      case True
      then obtain G' b fs where inv2: "slab_inv mapped rinv owner w2 live G'"
        and f2: "tier_free (w_mem w2) (tiers_of False (w_slab w2)) c (b # fs)" using I2 by auto
      obtain r3 w3 where p3: "pop_header c w2 = (r3, w3)" by force
      have "r3 = Some b"
        using pop_any_free [OF f2 c header.pop_tiers [OF p3, THEN conjunct1]] by simp
      moreover have "slab_alloc_class env c w = Some (Some b, w3)"
        by (subst slab_alloc_class.simps, simp add: p1 None rf True, subst slab_alloc_class.simps)
          (simp add: p3 calculation)
      ultimately show ?thesis using header.pop_inv [OF inv2 c p3] by auto
    qed
  qed
qed

lemma slab_alloc_batch_loop_refilled:
  assumes "c < 12" and "slab_inv mapped rinv owner w live G"
    and "slab_alloc_batch_loop env c True k w = (bs, w')"
  shows "slab_inv mapped rinv owner w' (live_adds live False c bs) G \<and> length bs \<le> k"
  using assms
proof (induction k arbitrary: w live bs)
  case (Suc k)
  obtain r1 w1 where p1: "pop_header c w = (r1, w1)" by force
  note I1 = header.pop_inv [OF Suc.prems(2,1) p1]
  show ?case
  proof (cases r1)
    case (Some b)
    obtain bs2 w2 where rec: "slab_alloc_batch_loop env c True k w1 = (bs2, w2)" by force
    then have "bs = b # bs2" "w' = w2" using Suc.prems(3) p1 Some by auto
    then show ?thesis using Suc.IH [of w1 "live_add live False c b" bs2] Suc.prems(1) I1 Some rec by auto
  next
    case None
    then show ?thesis using Suc.prems(3) p1 I1 by auto
  qed
qed simp

lemma slab_alloc_batch_loop_inv:
  assumes kern: "kernel_ok env mapped" and c: "c < 12" and "slab_inv mapped rinv owner w live G"
    and "slab_alloc_batch_loop env c False k w = (bs, w')"
  shows "\<exists>G'. slab_inv mapped rinv owner w' (live_adds live False c bs) G' \<and> length bs \<le> k"
  using assms(3,4)
proof (induction k arbitrary: w live bs)
  case 0
  then show ?case by auto
next
  case (Suc k)
  obtain r1 w1 where p1: "pop_header c w = (r1, w1)" by force
  note I1 = header.pop_inv [OF Suc.prems(1) c p1]
  show ?case
  proof (cases r1)
    case (Some b)
    obtain bs2 w2 where rec: "slab_alloc_batch_loop env c False k w1 = (bs2, w2)" by force
    then have "bs = b # bs2" "w' = w2" using Suc.prems(2) p1 Some by auto
    then show ?thesis using Suc.IH [of w1 "live_add live False c b" bs2] I1 Some rec by auto
  next
    case None
    then have inv1: "slab_inv mapped rinv owner w1 live G"
      and e1: "tier_free (w_mem w1) (tiers_of False (w_slab w1)) c []" using I1 by auto
    obtain ok w2 where rf: "slab_refill env c (SLAB_SIZE_CLASSES ! c) w1 = (ok, w2)" by force
    note I2 = slab_refill_inv [OF kern inv1 c e1 rf]
    show ?thesis
    proof (cases ok)
      case False
      then show ?thesis using Suc.prems(2) p1 None rf I2 by auto
    next
      case True
      then obtain G' where inv2: "slab_inv mapped rinv owner w2 live G'" using I2 by auto
      have "slab_alloc_batch_loop env c True (Suc k) w2 = (bs, w')"
        using Suc.prems(2) p1 None rf True by simp
      then show ?thesis using slab_alloc_batch_loop_refilled [OF c inv2] by blast
    qed
  qed
qed

lemma pop_recycled_any:
  "pop_recycled mem t c = (Some b, t') \<Longrightarrow> pop_any mem t c = (Some b, t')"
  "pop_recycled mem t c = (None, t') \<Longrightarrow> t' = t \<and> cache_len t c = 0 \<and> free_heads t c = None"
  by (auto simp: pop_any_def pop_recycled_def pop_untouched_def pop_intrusive_def Let_def word_gt_0
      split: if_splits option.splits)

lemma recycle_loop_inv:
  assumes "slab_inv mapped rinv owner w live G" and "c < 12"
    and "recycle_loop (w_mem w) c k (tiers_of fl (w_slab w)) = (bs, t)"
    and "tiers_of fl (w_slab w') = t" "tiers_of (\<not> fl) (w_slab w') = tiers_of (\<not> fl) (w_slab w)"
      "w_mem w' = w_mem w" "w_os w' = w_os w" "w_reg w' = w_reg w"
  shows "slab_inv mapped rinv owner w' (live_adds live fl c bs) G"
  using assms
proof (induction k arbitrary: w live bs)
  case 0
  then have "tiers_of f (w_slab w') = tiers_of f (w_slab w)" for f by (cases "f = fl") auto
  then show ?case using 0 unfolding slab_inv_def by simp
next
  case (Suc k)
  obtain r t1 where p: "pop_recycled (w_mem w) (tiers_of fl (w_slab w)) c = (r, t1)" by force
  show ?case
  proof (cases r)
    case None
    then have "t1 = tiers_of fl (w_slab w)" using pop_recycled_any(2) p by blast
    then have "bs = []" "t = tiers_of fl (w_slab w)" using Suc.prems(3) p None by auto
    then have "tiers_of f (w_slab w') = tiers_of f (w_slab w)" for f using Suc.prems(4,5) by (cases "f = fl") auto
    then show ?thesis using Suc.prems \<open>bs = []\<close> unfolding slab_inv_def by simp
  next
    case (Some b)
    let ?w1 = "w\<lparr>w_slab := (if fl then (w_slab w)\<lparr>hl_tiers := t1\<rparr> else (w_slab w)\<lparr>header_tiers := t1\<rparr>)\<rparr>"
    obtain bs1 where rec: "recycle_loop (w_mem w) c k t1 = (bs1, t)" and bs: "bs = b # bs1"
      using Suc.prems(3) p Some by (auto split: prod.splits)
    have pa: "pop_any (w_mem w) (tiers_of fl (w_slab w)) c = (Some b, t1)"
      using pop_recycled_any(1) p Some by blast
    have "slab_inv mapped rinv owner ?w1 (live_add live fl c b) G"
    proof (cases fl)
      case True
      have "pop_hl c w = (Some b, ?w1)" using pa True by (simp add: pop_hl_def tiers_of_def)
      then show ?thesis using headerless.pop_inv [OF Suc.prems(1,2)] True by fastforce
    next
      case False
      have "pop_header c w = (Some b, ?w1)" using pa False by (simp add: pop_header_def tiers_of_def)
      then show ?thesis using header.pop_inv [OF Suc.prems(1,2)] False by fastforce
    qed
    moreover have "tiers_of fl (w_slab ?w1) = t1" "tiers_of (\<not> fl) (w_slab ?w1) = tiers_of (\<not> fl) (w_slab w)"
      by (simp_all add: tiers_of_def)
    ultimately have "slab_inv mapped rinv owner w' (live_adds (live_add live fl c b) fl c bs1) G"
      using Suc.IH [of ?w1 "live_add live fl c b" bs1] Suc.prems rec by simp
    then show ?thesis by (simp add: bs)
  qed
qed

end
