(* ===== verification/SlabSafety.thy ===== *)
theory SlabSafety
  imports SlabCorrect Registry
begin

text \<open>
  The slab as a state machine: every operation of \<open>slab.rs\<close>, in any order, with the
  application writing to the blocks it holds and the kernel mapping other memory in between.
  What holds in every reachable state: live blocks are disjoint, aligned and mapped, and the
  owner of a headerless block is found from its address.
\<close>

section \<open>Headerless allocation\<close>

lemma pop_any_None:
  "pop_any mem t c = (None, t') \<Longrightarrow> t' = t \<and> cache_len t c = 0 \<and> free_heads t c = None"
  by (auto simp: pop_any_def pop_recycled_def pop_untouched_def pop_intrusive_def pop_carve_def Let_def word_gt_0
      split: if_splits option.splits)

lemma pop_any_carve:
  "cache_len t c = 0 \<Longrightarrow> free_heads t c = None \<Longrightarrow> pop_any mem t c = pop_carve t c"
  by (auto simp: pop_any_def pop_recycled_def pop_untouched_def pop_intrusive_def split: prod.splits option.splits)

lemma refill_segment_tiers:
  "refill_segment env c w = (Some base, w') \<Longrightarrow>
     \<exists>lim. hl_tiers (w_slab w') = set_carve (hl_tiers (w_slab w)) c base lim"
  by (auto simp: refill_segment_def Let_def split: option.splits prod.splits bool.splits)

lemma hl_carve_is_pop:
  assumes "pop_hl c w = (None, w1)" and "refill_segment env c w1 = (Some base, w2)"
  shows "pop_hl c w2 = (case pop_carve (hl_tiers (w_slab w2)) c of
      (b, t) \<Rightarrow> (b, w2\<lparr>w_slab := (w_slab w2)\<lparr>hl_tiers := t\<rparr>\<rparr>))"
proof -
  obtain t where p: "pop_any (w_mem w) (hl_tiers (w_slab w)) c = (None, t)" and w1: "hl_tiers (w_slab w1) = t"
    using assms(1) by (auto simp: pop_hl_def split: prod.splits)
  have "cache_len t c = 0" "free_heads t c = None" using pop_any_None [OF p] by auto
  then have "cache_len (hl_tiers (w_slab w2)) c = 0" "free_heads (hl_tiers (w_slab w2)) c = None"
    using refill_segment_tiers [OF assms(2)] w1 by (auto simp: set_carve_def)
  then show ?thesis by (simp add: pop_hl_def pop_any_carve)
qed

lemma slab_alloc_class_headerless_inv:
  assumes kern: "kernel_ok env mapped" and reg: "registrar_ok rinv owner register"
    and c: "c < 12" and inv: "slab_inv mapped rinv owner w live G"
    and res: "slab_alloc_class_headerless (env\<lparr>env_register := register c\<rparr>) c w = (r, w')"
  shows "\<exists>G'. slab_inv mapped rinv owner w' (case r of None \<Rightarrow> live | Some (b, _) \<Rightarrow> live_add live True c b) G'"
proof -
  let ?env = "env\<lparr>env_register := register c\<rparr>"
  obtain r1 w1 where p1: "pop_hl c w = (r1, w1)" by force
  note I1 = headerless.pop_inv [OF inv c p1]
  show ?thesis
  proof (cases r1)
    case (Some b)
    then have "r = Some (b, None)" "w' = w1" using res p1 by (auto simp: slab_alloc_class_headerless_def)
    then show ?thesis using I1 Some by auto
  next
    case None
    then have inv1: "slab_inv mapped rinv owner w1 live G"
      and e1: "tier_free (w_mem w1) (tiers_of True (w_slab w1)) c []" using I1 by auto
    obtain q w2 where rf: "refill_segment ?env c w1 = (q, w2)" by force
    note I2 = refill_segment_inv [OF kern inv1 c reg e1 rf]
    show ?thesis
    proof (cases q)
      case N: None
      then have "r = None" "w' = w2" using res p1 None rf by (auto simp: slab_alloc_class_headerless_def)
      then show ?thesis using I2 N by auto
    next
      case (Some base)
      then obtain G' where inv2: "slab_inv mapped rinv owner w2 live G'" using I2 by auto
      obtain r3 t3 where pc: "pop_carve (hl_tiers (w_slab w2)) c = (r3, t3)" by force
      have p3: "pop_hl c w2 = (r3, w2\<lparr>w_slab := (w_slab w2)\<lparr>hl_tiers := t3\<rparr>\<rparr>)"
        using hl_carve_is_pop [OF p1 [unfolded None] rf [unfolded Some]] pc by simp
      have "r = map_option (\<lambda>b. (b, Some base)) r3" "w' = w2\<lparr>w_slab := (w_slab w2)\<lparr>hl_tiers := t3\<rparr>\<rparr>"
        using res p1 None rf Some pc by (auto simp: slab_alloc_class_headerless_def split: option.splits)
      then show ?thesis using headerless.pop_inv [OF inv2 c p3] by (auto split: option.splits)
    qed
  qed
qed

lemma slab_alloc_batch_headerless_inv:
  assumes kern: "kernel_ok env mapped" and reg: "registrar_ok rinv owner register" and c: "c < 12"
    and "slab_inv mapped rinv owner w live G"
  shows "\<exists>bs w' G'. slab_alloc_batch_headerless (env\<lparr>env_register := register c\<rparr>) c len w = Some (bs, w')
      \<and> slab_inv mapped rinv owner w' (live_adds live True c bs) G' \<and> length bs \<le> len"
  using assms(4)
proof (induction len arbitrary: w live G)
  case 0
  then show ?case by (subst slab_alloc_batch_headerless.simps) auto
next
  case (Suc len)
  let ?env = "env\<lparr>env_register := register c\<rparr>"
  note unfold = slab_alloc_batch_headerless.simps [of ?env c "Suc len"]
  have hit: "\<exists>bs w' G'. slab_alloc_batch_headerless ?env c (Suc len) v = Some (bs, w')
      \<and> slab_inv mapped rinv owner w' (live_adds live True c bs) G' \<and> length bs \<le> Suc len"
    if p: "pop_hl c v = (Some b, w1)" and I: "slab_inv mapped rinv owner v live H" for v b w1 H
  proof -
    have "slab_inv mapped rinv owner w1 (live_add live True c b) H" using headerless.pop_inv [OF I c p] by simp
    then obtain bs w' G' where rec: "slab_alloc_batch_headerless ?env c len w1 = Some (bs, w')"
      and inv: "slab_inv mapped rinv owner w' (live_adds live True c (b # bs)) G'" "length bs \<le> len"
      using Suc.IH by fastforce
    have "slab_alloc_batch_headerless ?env c (Suc len) v = Some (b # bs, w')"
      by (subst unfold) (simp add: p rec)
    then show ?thesis using inv by auto
  qed
  obtain r1 w1 where p1: "pop_hl c w = (r1, w1)" by force
  note I1 = headerless.pop_inv [OF Suc.prems c p1]
  show ?case
  proof (cases r1)
    case (Some b)
    then show ?thesis using hit p1 Suc.prems by blast
  next
    case None
    then have inv1: "slab_inv mapped rinv owner w1 live G"
      and e1: "tier_free (w_mem w1) (tiers_of True (w_slab w1)) c []" using I1 by auto
    obtain q w2 where rf: "refill_segment ?env c w1 = (q, w2)" by force
    note I2 = refill_segment_inv [OF kern inv1 c reg e1 rf]
    show ?thesis
    proof (cases q)
      case N: None
      have "slab_alloc_batch_headerless ?env c (Suc len) w = Some ([], w2)"
        by (subst unfold) (simp add: p1 None rf N)
      then show ?thesis using I2 N by (intro exI [of _ "[]"] exI [of _ w2] exI [of _ G]) simp
    next
      case (Some base)
      then obtain G' b fs where inv2: "slab_inv mapped rinv owner w2 live G'"
        and f2: "tier_free (w_mem w2) (tiers_of True (w_slab w2)) c (b # fs)" using I2 by auto
      obtain r3 w3 where p3: "pop_hl c w2 = (r3, w3)" by force
      have "r3 = Some b" using pop_any_free [OF f2 c headerless.pop_tiers [OF p3, THEN conjunct1]] by simp
      moreover have "slab_alloc_batch_headerless ?env c (Suc len) w = slab_alloc_batch_headerless ?env c (Suc len) w2"
        by (subst unfold) (simp add: p1 None rf Some)
      ultimately show ?thesis using hit [OF _ inv2] p3 by metis
    qed
  qed
qed

section \<open>The state machine\<close>

definition live_removes :: "live \<Rightarrow> bool \<Rightarrow> nat \<Rightarrow> usize list \<Rightarrow> live" where
  "live_removes live fl c bs = live(fl := (live fl)(c := live fl c - mset bs))"

lemma live_removes_Nil: "live_removes live fl c [] = live"
  by (simp add: live_removes_def)

lemma live_removes_Cons:
  "live_removes live fl c (b # bs) = live_removes (live_remove live fl c b) fl c bs"
  by (simp add: live_removes_def live_remove_def)

lemma live_remove_subset:
  "mset (b # bs) \<subseteq># live fl c \<Longrightarrow> b \<in># live fl c \<and> mset bs \<subseteq># live_remove live fl c b fl c"
  by (simp add: live_remove_def insert_subset_eq_iff)

lemma slab_dealloc_batch_inv:
  assumes "slab_inv mapped rinv owner w live G" and "c < 12" and "mset bs \<subseteq># live False c"
  shows "slab_inv mapped rinv owner (slab_dealloc_batch c bs w) (live_removes live False c bs) G"
  using assms
proof (induction bs arbitrary: w live)
  case (Cons b bs)
  note sub = live_remove_subset [where fl = False and c = c and b = b and bs = bs and live = live, OF Cons.prems(3)]
  show ?case
    using Cons.IH [OF header.dealloc_inv [OF Cons.prems(1,2) sub [THEN conjunct1]] Cons.prems(2) sub [THEN conjunct2]]
    by (simp add: live_removes_Cons)
qed (simp add: live_removes_Nil)

lemma slab_dealloc_batch_headerless_inv:
  assumes "slab_inv mapped rinv owner w live G" and "c < 12" and "mset bs \<subseteq># live True c"
  shows "slab_inv mapped rinv owner (slab_dealloc_batch_headerless c bs w) (live_removes live True c bs) G"
  using assms
proof (induction bs arbitrary: w live)
  case (Cons b bs)
  note sub = live_remove_subset [where fl = True and c = c and b = b and bs = bs and live = live, OF Cons.prems(3)]
  show ?case
    using Cons.IH [OF headerless.dealloc_inv [OF Cons.prems(1,2) sub [THEN conjunct1]] Cons.prems(2) sub [THEN conjunct2]]
    by (simp add: live_removes_Cons)
qed (simp add: live_removes_Nil)

lemma slab_alloc_batch_recycled_inv:
  assumes "slab_inv mapped rinv owner w live G" and "c < 12"
    and "slab_alloc_batch_recycled c len fl w = (bs, w')"
  shows "slab_inv mapped rinv owner w' (live_adds live fl c bs) G"
proof (cases fl)
  case True
  obtain t where "recycle_loop (w_mem w) c len (tiers_of fl (w_slab w)) = (bs, t)"
    "w' = w\<lparr>w_slab := (w_slab w)\<lparr>hl_tiers := t\<rparr>\<rparr>"
    using assms(3) True by (auto simp: slab_alloc_batch_recycled_def tiers_of_def split: prod.splits)
  then show ?thesis using True by (intro recycle_loop_inv [OF assms(1,2)]) (auto simp: tiers_of_def)
next
  case False
  obtain t where "recycle_loop (w_mem w) c len (tiers_of fl (w_slab w)) = (bs, t)"
    "w' = w\<lparr>w_slab := (w_slab w)\<lparr>header_tiers := t\<rparr>\<rparr>"
    using assms(3) False by (auto simp: slab_alloc_batch_recycled_def tiers_of_def split: prod.splits)
  then show ?thesis using False by (intro recycle_loop_inv [OF assms(1,2)]) (auto simp: tiers_of_def)
qed

text \<open>An application write inside a live block reaches no free block.\<close>

lemma slab_write_inv:
  assumes inv: "slab_inv mapped rinv owner w live G" and c: "c < 12" and b: "b \<in># live fl c"
    and a: "unat a \<in> block_span c b"
  shows "slab_inv mapped rinv owner (w\<lparr>w_mem := (w_mem w)(a := v)\<rparr>) live G"
proof -
  obtain fs where fs: "tier_free (w_mem w) (tiers_of fl (w_slab w)) c fs" "mset fs + live fl c = mset (blocks_of fl c G)"
    "b \<notin> set fs" "b \<in> set (blocks_of fl c G)"
    using slab_inv_free [OF inv c, of fl] b by (metis subsetD)
  have stay: "tier_free ((w_mem w)(a := v)) (tiers_of f (w_slab w)) d gs"
    if d: "d < 12" and gs: "tier_free (w_mem w) (tiers_of f (w_slab w)) d gs" "set gs \<subseteq> set (blocks_of f d G)"
      "(f, d) = (fl, c) \<Longrightarrow> b \<notin> set gs" for f d gs
  proof (rule tier_free_mem [OF gs(1)])
    fix p assume p: "p \<in> set gs"
    then have "(fl, c, b) \<noteq> (f, d, p)" using gs(3) by auto
    then have "block_span c b \<inter> block_span d p = {}"
      using blocks_disjoint [OF slab_inv_grants [OF inv] fs(4)] gs(2) p by blast
    then show "((w_mem w)(a := v)) p = w_mem w p" using span_nonempty [OF d, of p] a by auto
  qed
  have sub: "set fs \<subseteq> set (blocks_of fl c G)" using fs(2) by (metis set_mset_mset set_mset_union Un_upper1)
  show ?thesis
    by (rule slab_inv_update [OF inv c, of _ fl fs live])
      (use stay [OF c fs(1) sub] fs stay in auto)
qed

type_synonym ('os, 'r) slab_state = "('os, 'r) slab_world \<times> live"

inductive slab_step ::
  "('os, 'r) slab_env \<Rightarrow> ('os \<Rightarrow> nat set) \<Rightarrow> (nat \<Rightarrow> 'r \<Rightarrow> usize \<Rightarrow> bool \<times> 'r) \<Rightarrow>
   ('os, 'r) slab_state \<Rightarrow> ('os, 'r) slab_state \<Rightarrow> bool"
  for env mapped register
where
  alloc: "slab_alloc env sz w = Some (Some b, w') \<Longrightarrow> slab_class_for sz = Some c \<Longrightarrow>
    slab_step env mapped register (w, live) (w', live_add live False c b)"
| alloc_fail: "slab_alloc env sz w = Some (None, w') \<Longrightarrow> slab_step env mapped register (w, live) (w', live)"
| batch: "slab_alloc_batch env c len w = (bs, w') \<Longrightarrow> c < 12 \<Longrightarrow>
    slab_step env mapped register (w, live) (w', live_adds live False c bs)"
| recycle: "slab_alloc_batch_recycled c len fl w = (bs, w') \<Longrightarrow> c < 12 \<Longrightarrow>
    slab_step env mapped register (w, live) (w', live_adds live fl c bs)"
| free: "b \<in># live False c \<Longrightarrow>
    slab_step env mapped register (w, live) (slab_dealloc_class b c w, live_remove live False c b)"
| free_batch: "mset bs \<subseteq># live False c \<Longrightarrow> c < 12 \<Longrightarrow>
    slab_step env mapped register (w, live) (slab_dealloc_batch c bs w, live_removes live False c bs)"
| hl_alloc: "slab_alloc_class_headerless (env\<lparr>env_register := register c\<rparr>) c w = (Some (b, fresh), w') \<Longrightarrow> c < 12 \<Longrightarrow>
    slab_step env mapped register (w, live) (w', live_add live True c b)"
| hl_fail: "slab_alloc_class_headerless (env\<lparr>env_register := register c\<rparr>) c w = (None, w') \<Longrightarrow> c < 12 \<Longrightarrow>
    slab_step env mapped register (w, live) (w', live)"
| hl_batch: "slab_alloc_batch_headerless (env\<lparr>env_register := register c\<rparr>) c len w = Some (bs, w') \<Longrightarrow> c < 12 \<Longrightarrow>
    slab_step env mapped register (w, live) (w', live_adds live True c bs)"
| hl_free: "b \<in># live True c \<Longrightarrow>
    slab_step env mapped register (w, live) (slab_dealloc_headerless b c w, live_remove live True c b)"
| hl_free_batch: "mset bs \<subseteq># live True c \<Longrightarrow> c < 12 \<Longrightarrow>
    slab_step env mapped register (w, live) (slab_dealloc_batch_headerless c bs w, live_removes live True c bs)"
| app_write: "b \<in># live fl c \<Longrightarrow> unat a \<in> block_span c b \<Longrightarrow>
    slab_step env mapped register (w, live) (w\<lparr>w_mem := (w_mem w)(a := v)\<rparr>, live)"
| other_mapping: "mapped (w_os w) \<subseteq> mapped os' \<Longrightarrow>
    slab_step env mapped register (w, live) (w\<lparr>w_os := os'\<rparr>, live)"

inductive slab_reach ::
  "('os, 'r) slab_env \<Rightarrow> ('os \<Rightarrow> nat set) \<Rightarrow> (nat \<Rightarrow> 'r \<Rightarrow> usize \<Rightarrow> bool \<times> 'r) \<Rightarrow>
   ('os, 'r) slab_state \<Rightarrow> ('os, 'r) slab_state \<Rightarrow> bool"
  for env mapped register s0
where
  start: "slab_reach env mapped register s0 s0"
| more: "slab_reach env mapped register s0 s \<Longrightarrow> slab_step env mapped register s s' \<Longrightarrow>
    slab_reach env mapped register s0 s'"

lemma slab_inv_live_class: "slab_inv mapped rinv owner w live G \<Longrightarrow> b \<in># live fl c \<Longrightarrow> c < 12"
  unfolding slab_inv_def by (metis empty_iff not_le set_mset_empty)

lemma slab_step_inv:
  assumes "slab_step env mapped register s s'" and kern: "kernel_ok env mapped" and reg: "registrar_ok rinv owner register"
    and "slab_inv mapped rinv owner (fst s) (snd s) G"
  shows "\<exists>G'. slab_inv mapped rinv owner (fst s') (snd s') G'"
  using assms(1,4)
proof (cases rule: slab_step.cases)
  case (alloc sz w b w' c live)
  have I: "slab_inv mapped rinv owner w live G" using assms(4) alloc(1) by simp
  from slab_alloc_class_inv [OF kern I slab_class_bound [OF alloc(4)]] alloc show ?thesis
    by (auto simp: slab_alloc_def)
next
  case (alloc_fail sz w w' live)
  have I: "slab_inv mapped rinv owner w live G" using assms(4) alloc_fail(1) by simp
  show ?thesis
  proof (cases "slab_class_for sz")
    case None
    then show ?thesis using alloc_fail I by (auto simp: slab_alloc_def)
  next
    case (Some c)
    from slab_alloc_class_inv [OF kern I slab_class_bound [OF Some]] alloc_fail Some show ?thesis
      by (auto simp: slab_alloc_def)
  qed
next
  case (batch c len w bs w' live)
  have I: "slab_inv mapped rinv owner w live G" using assms(4) batch(1) by simp
  from slab_alloc_batch_loop_inv [OF kern batch(4) I batch(3) [unfolded slab_alloc_batch_def]] batch(2)
  show ?thesis by auto
next
  case (recycle c len fl w bs w' live)
  have I: "slab_inv mapped rinv owner w live G" using assms(4) recycle(1) by simp
  from slab_alloc_batch_recycled_inv [OF I recycle(4,3)] recycle(2) show ?thesis by auto
next
  case (free b live c w)
  have I: "slab_inv mapped rinv owner w live G" using assms(4) free(1) by simp
  from header.dealloc_inv [OF I slab_inv_live_class [OF I free(3)] free(3)] free(2) show ?thesis by auto
next
  case (free_batch bs live c w)
  have I: "slab_inv mapped rinv owner w live G" using assms(4) free_batch(1) by simp
  from slab_dealloc_batch_inv [OF I free_batch(4,3)] free_batch(2) show ?thesis by auto
next
  case (hl_alloc c w b fresh w' live)
  have I: "slab_inv mapped rinv owner w live G" using assms(4) hl_alloc(1) by simp
  from slab_alloc_class_headerless_inv [OF kern reg hl_alloc(4) I hl_alloc(3)] hl_alloc(2) show ?thesis by auto
next
  case (hl_fail c w w' live)
  have I: "slab_inv mapped rinv owner w live G" using assms(4) hl_fail(1) by simp
  from slab_alloc_class_headerless_inv [OF kern reg hl_fail(4) I hl_fail(3)] hl_fail(2) show ?thesis by auto
next
  case (hl_batch c len w bs w' live)
  have I: "slab_inv mapped rinv owner w live G" using assms(4) hl_batch(1) by simp
  from slab_alloc_batch_headerless_inv [OF kern reg hl_batch(4) I, of len] hl_batch show ?thesis by auto
next
  case (hl_free b live c w)
  have I: "slab_inv mapped rinv owner w live G" using assms(4) hl_free(1) by simp
  from headerless.dealloc_inv [OF I slab_inv_live_class [OF I hl_free(3)] hl_free(3)] hl_free(2) show ?thesis by auto
next
  case (hl_free_batch bs live c w)
  have I: "slab_inv mapped rinv owner w live G" using assms(4) hl_free_batch(1) by simp
  from slab_dealloc_batch_headerless_inv [OF I hl_free_batch(4,3)] hl_free_batch(2) show ?thesis by auto
next
  case (app_write b live fl c a w v)
  have I: "slab_inv mapped rinv owner w live G" using assms(4) app_write(1) by simp
  from slab_write_inv [OF I slab_inv_live_class [OF I app_write(3)] app_write(3,4)] app_write(2) show ?thesis by auto
next
  case (other_mapping w os' live)
  have I: "slab_inv mapped rinv owner w live G" using assms(4) other_mapping(1) by simp
  from slab_inv_os [OF I other_mapping(3)] other_mapping(2) show ?thesis by auto
qed

lemma slab_reach_inv:
  assumes "slab_reach env mapped register s0 s" and kern: "kernel_ok env mapped" and reg: "registrar_ok rinv owner register"
    and "slab_inv mapped rinv owner (fst s0) (snd s0) G"
  shows "\<exists>G'. slab_inv mapped rinv owner (fst s) (snd s) G'"
  using assms(1,4)
proof (induction)
  case start
  then show ?case by blast
next
  case (more s s')
  then show ?case using slab_step_inv [OF more.hyps(2) kern reg] by blast
qed

definition slab_start :: "('os, 'r) slab_world \<Rightarrow> bool" where
  "slab_start w \<longleftrightarrow> w_slab w = slab_new"

lemma slab_inv_start:
  assumes "slab_start w" and "rinv (w_reg w)" and "\<forall>b. owner (w_reg w) b \<noteq> None \<longrightarrow> unat b \<in> mapped (w_os w)"
  shows "slab_inv mapped rinv owner w (\<lambda>_ _. {#}) []"
proof -
  have "tier_free (w_mem w) (tiers_of fl (w_slab w)) c []" for fl c
    using assms(1) unfolding tier_free_def
    by (intro exI [of _ "[]"] exI [of _ 0])
      (simp add: slab_start_def slab_new_def tiers_of_def tiers_new_def cache_list_def grid_def)
  then show ?thesis using assms unfolding slab_inv_def by (auto simp: blocks_of_def)
qed

lemma slab_inv_live:
  assumes inv: "slab_inv mapped rinv owner w live G" and b: "b \<in># live fl c"
  shows "c < 12" and "count (live fl c) b = 1" and "b \<noteq> 0" and "16 dvd unat b"
    and "block_span c b \<subseteq> mapped (w_os w)" and "b \<in> set (blocks_of fl c G)"
    and "fl \<Longrightarrow> owner (w_reg w) (b AND NOT (SEGMENT_SIZE - 1)) = Some c"
proof -
  show c: "c < 12" using slab_inv_live_class [OF inv b] .
  obtain fs where fs: "mset fs + live fl c = mset (blocks_of fl c G)" and bb: "b \<in> set (blocks_of fl c G)"
    using slab_inv_free [OF inv c, of fl] b by (metis subsetD)
  show "b \<in> set (blocks_of fl c G)" using bb .
  have "distinct (blocks_of fl c G)" by (rule distinct_blocks_of [OF slab_inv_grants [OF inv]])
  then have "count (mset fs) b + count (live fl c) b \<le> 1"
    using fs by (metis count_union distinct_count_atmost_1 le_refl zero_le_one)
  then show "count (live fl c) b = 1" using b by (simp add: count_greater_zero_iff [symmetric] del: count_greater_zero_iff)
  obtain base n where g: "(fl, c, base, n) \<in> set G" "b \<in> set (grid base c n)" using bb by (auto simp: blocks_of_mem)
  have gok: "grant_ok (fl, c, base, n)" "grant_span (fl, c, base, n) \<subseteq> mapped (w_os w)"
    using inv g(1) unfolding slab_inv_def by blast+
  note B = block_in_grant [OF gok(1) g(2)]
  show "b \<noteq> 0" "16 dvd unat b" "block_span c b \<subseteq> mapped (w_os w)" using B gok(2) by auto
  show "owner (w_reg w) (b AND NOT (SEGMENT_SIZE - 1)) = Some c" if fl
  proof -
    have own: "owner (w_reg w) base = Some c" "2 ^ 16 dvd unat base" "n * unat (class_stride c) \<le> 2 ^ 16"
      using inv g(1) that unfolding slab_inv_def by auto
    have "unat b \<in> grant_span (fl, c, base, n)" using B(1) span_nonempty [OF c, of b] by blast
    then have rng: "unat base \<le> unat b" "unat b < unat base + 2 ^ 16" using own(3) by (auto simp: grant_span_def)
    obtain q where q: "unat base = 2 ^ 16 * q" using own(2) by (elim dvdE)
    then have "unat b div 2 ^ 16 = q" using rng by (intro div_nat_eqI) auto
    moreover have "SEGMENT_SIZE - 1 = mask 16" by (simp add: SEGMENT_SIZE_def mask_eq_decr_exp)
    ultimately have "unat (b AND NOT (SEGMENT_SIZE - 1)) = unat base"
      using q by (simp only: unat_and_not_mask mult.commute)
    then have "b AND NOT (SEGMENT_SIZE - 1) = base" by (simp add: word_unat_eq_iff)
    then show ?thesis using own(1) by simp
  qed
qed

section \<open>A kernel and the real registry\<close>

text \<open>
  A kernel that maps ranges one after the other: the next address and the log of its
  operations. With the segment registry as the registrar it satisfies the two contracts.
\<close>

datatype bump_op = Mapped usize usize | Unmapped usize usize | Below usize

fun bump_held :: "bump_op list \<Rightarrow> nat \<Rightarrow> bool" where
  "bump_held [] a \<longleftrightarrow> False"
| "bump_held (Mapped b len # ops) a \<longleftrightarrow> (unat b \<le> a \<and> a < unat b + unat len) \<or> bump_held ops a"
| "bump_held (Unmapped b len # ops) a \<longleftrightarrow> \<not> (unat b \<le> a \<and> a < unat b + unat len) \<and> bump_held ops a"
| "bump_held (Below n # ops) a \<longleftrightarrow> a < unat n \<and> bump_held ops a"

type_synonym bump = "usize \<times> bump_op list"

definition bump_mapped :: "bump \<Rightarrow> nat set" where
  "bump_mapped os = {a. bump_held (Below (fst os) # snd os) a}"

definition bump_mmap :: "bump \<Rightarrow> usize \<Rightarrow> usize option \<times> bump" where
  "bump_mmap os len =
     (if fst os AND 4095 = 0 \<and> len < 0x1000000000 \<and> fst os < 0x1000000000
      then (Some (fst os), (fst os + len, Mapped (fst os) len # Below (fst os) # snd os)) else (None, os))"

definition bump_munmap :: "bump \<Rightarrow> usize \<times> usize \<Rightarrow> bump" where
  "bump_munmap os r = (fst os, Unmapped (fst r) (snd r) # snd os)"

definition seg_register :: "u8 \<Rightarrow> nat \<Rightarrow> segment_registry \<Rightarrow> usize \<Rightarrow> bool \<times> segment_registry" where
  "seg_register stripe c r base = seg_insert r base (of_nat c) stripe"

definition seg_owner :: "segment_registry \<Rightarrow> usize \<Rightarrow> nat option" where
  "seg_owner r base = map_option unat (seg_lookup r base)"

definition bump_env :: "(bump, segment_registry) slab_env" where
  "bump_env = \<lparr>env_page = 4096, env_mmap = bump_mmap, env_munmap = bump_munmap, env_register = seg_register 0 0\<rparr>"

definition bump_world :: "(bump, segment_registry) slab_world" where
  "bump_world = \<lparr>w_slab = slab_new, w_mem = (\<lambda>_. None), w_os = (0x10000, []), w_reg = segment_registry_new\<rparr>"

lemma bump_pages_ok: "pages_ok 4096 bump_mmap bump_mapped"
proof -
  have small: "unat b + unat len < 9223372036854775808" "unat (b + len) = unat b + unat len"
    if "b < 0x1000000000" "len < 0x1000000000" for b len :: usize
    using that by (auto simp: word_less_nat_alt unat_add_64)
  have m: "mmap_ok 4096 bump_mmap"
    unfolding mmap_ok_def by (auto simp: bump_mmap_def is_aligned_def small split: if_splits)
  moreover have "\<exists>p < 30. (4096 :: usize) = 2 ^ p" by (intro exI [of _ 12]) simp
  ultimately show ?thesis unfolding pages_ok_def
    by (auto simp: bump_mmap_def bump_mapped_def small split: if_splits)
qed

lemma bump_kernel_ok: "kernel_ok bump_env bump_mapped"
  using bump_pages_ok by (auto simp: kernel_ok_def bump_env_def bump_munmap_def bump_mapped_def)

lemma seg_registrar_ok: "registrar_ok (\<lambda>r. probe_inv SEGMENT_CAPACITY (seg_keys r)) seg_owner (seg_register stripe)"
proof -
  have "probe_inv SEGMENT_CAPACITY (seg_keys r') \<and> (\<forall>b'. b' \<noteq> b \<longrightarrow> seg_owner r' b' = seg_owner r b')
        \<and> (ok \<longrightarrow> seg_owner r b = None \<longrightarrow> seg_owner r' b = Some c) \<and> (\<not> ok \<longrightarrow> r' = r)"
    if c: "c < 12" and r: "probe_inv SEGMENT_CAPACITY (seg_keys r)" and b: "b \<noteq> 0"
      and res: "seg_register stripe c r b = (ok, r')" for c r b ok r'
  proof -
    have uc: "unat (of_nat c :: u8) = c" using c by (simp add: unat_of_nat)
    have z: "seg_lookup_full q 0 = None" for q
      using seg.probe_find_less [of "seg_keys q" 0] by (auto simp: seg.look_eq probe_stop_def split: option.splits)
    note I = seg.ins_correct [of r b "(of_nat c, stripe)" ok r', unfolded capacity_pow2(1) [symmetric]]
    have J: "probe_inv SEGMENT_CAPACITY (seg_keys r')"
      "seg_lookup_full r' b = (if ok then Some (case seg_lookup_full r b of None \<Rightarrow> (of_nat c, stripe) | Some w \<Rightarrow> w)
         else seg_lookup_full r b)"
      "\<forall>d. d \<noteq> 0 \<longrightarrow> d \<noteq> b \<longrightarrow> seg_lookup_full r' d = seg_lookup_full r d" "\<not> ok \<longrightarrow> r' = r"
      using I r b res by (auto simp: seg_register_def)
    have "seg_lookup_full r' d = seg_lookup_full r d" if "d \<noteq> b" for d using J(3) z that by (cases "d = 0") auto
    then show ?thesis using J uc by (auto simp: seg_owner_def seg_lookup_def)
  qed
  then show ?thesis unfolding registrar_ok_def by blast
qed

lemma fst_ex: "fst p = a \<Longrightarrow> \<exists>w. p = (a, w)"
  by (cases p) auto

lemma demo_batch: "fst (slab_alloc_batch bump_env 3 2 bump_world) = [0x10000, 0x10040]"
  by code_simp

lemma demo_alloc: "map_option fst (slab_alloc bump_env 100 bump_world) = Some (Some 0x10000)"
  by code_simp

lemma demo_hl: "fst (slab_alloc_class_headerless (bump_env\<lparr>env_register := seg_register 0 5\<rparr>) 5 bump_world) = Some (0x10000, Some 0x10000)"
  by code_simp

lemma demo_start:
  "slab_start bump_world" "probe_inv SEGMENT_CAPACITY (seg_keys (w_reg bump_world))"
  "\<forall>b. seg_owner (w_reg bump_world) b \<noteq> None \<longrightarrow> unat b \<in> bump_mapped (w_os bump_world)"
  using seg.table_inv_empty seg.look_empty
  by (simp_all add: slab_start_def bump_world_def capacity_pow2 seg_owner_def seg_lookup_def)

text \<open>The length of a refill with header blocks: 16 strides, at least a page, aligned to the stride.\<close>

definition refill_len :: "usize \<Rightarrow> nat \<Rightarrow> usize" where
  "refill_len page c = pages_len page (max (class_stride c * 16) page) (class_stride c)"

lemma slab_refill_refused:
  assumes kern: "kernel_ok env mapped" and c: "c < 12"
    and res: "slab_refill env c (SLAB_SIZE_CLASSES ! c) w = (False, w')"
  shows "os_refuses (env_mmap env) (w_os w) (refill_len (env_page env) c)"
proof -
  obtain p where p: "p < 30" "env_page env = 2 ^ p" using pages_okD(1) [OF kernel_okD(1) [OF kern]] by blast
  have nz: "0 < env_page env" using p by (simp add: word_less_nat_alt unat_pow2_64)
  have m: "max (page_or (class_stride c * 16) (env_page env)) (env_page env) = max (class_stride c * 16) (env_page env)"
    by (auto simp: max_def page_or_def)
  obtain os' where "alloc_pages (env_page env) (env_mmap env) (max (class_stride c * 16) (env_page env))
      (max (class_stride c) (env_page env)) (w_os w) = (None, os')"
    using res by (auto simp: slab_refill_def Let_def class_stride_def [symmetric] m split: option.splits prod.splits)
  then have "os_refuses (env_mmap env) (w_os w)
      (pages_len (env_page env) (max (class_stride c * 16) (env_page env)) (max (class_stride c) (env_page env)))"
    by (rule alloc_pages_refused) (use nz in \<open>auto simp: max_def\<close>)
  then show ?thesis unfolding refill_len_def pages_len_page .
qed

lemma slab_alloc_class_refused:
  assumes kern: "kernel_ok env mapped" and inv: "slab_inv mapped rinv owner w live G" and c: "c < 12"
    and res: "slab_alloc_class env c w = Some (None, w')"
  shows "os_refuses (env_mmap env) (w_os w) (refill_len (env_page env) c)"
proof -
  obtain r1 w1 where p1: "pop_header c w = (r1, w1)" by force
  have None: "r1 = None"
    by (rule ccontr) (use res in \<open>subst (asm) slab_alloc_class.simps, auto simp: p1\<close>)
  have os: "w_os w1 = w_os w" using header.pop_tiers [OF p1] by blast
  have inv1: "slab_inv mapped rinv owner w1 live G" and e1: "tier_free (w_mem w1) (tiers_of False (w_slab w1)) c []"
    using header.pop_inv [OF inv c p1] None by auto
  obtain ok w2 where rf: "slab_refill env c (SLAB_SIZE_CLASSES ! c) w1 = (ok, w2)" by force
  show ?thesis
  proof (cases ok)
    case False
    then show ?thesis using slab_refill_refused [OF kern c, of w1 w2] rf os by simp
  next
    case True
    obtain b fs where f2: "tier_free (w_mem w2) (tiers_of False (w_slab w2)) c (b # fs)"
      using slab_refill_inv [OF kern inv1 c e1 rf] True by auto
    obtain r3 w3 where p3: "pop_header c w2 = (r3, w3)" by force
    have "r3 = Some b" using pop_any_free [OF f2 c header.pop_tiers [OF p3, THEN conjunct1]] by simp
    then have "slab_alloc_class env c w = Some (Some b, w3)"
      by (subst slab_alloc_class.simps, simp add: p1 None rf True, subst slab_alloc_class.simps) (simp add: p3)
    then show ?thesis using res by simp
  qed
qed

lemma slab_run_inv:
  assumes "kernel_ok env mapped" and "registrar_ok rinv owner register"
    and "slab_start w0" and "rinv (w_reg w0)" and "\<forall>b. owner (w_reg w0) b \<noteq> None \<longrightarrow> unat b \<in> mapped (w_os w0)"
    and "slab_reach env mapped register (w0, \<lambda>_ _. {#}) (w, live)"
  obtains G where "slab_inv mapped rinv owner w live G"
  using slab_reach_inv [OF assms(6,1,2), of "[]"] slab_inv_start [of w0 rinv owner mapped, OF assms(3-5)] by auto

section \<open>Properties\<close>

text \<open>
  C5: Whatever the sequence of allocations, batches, recycled batches, frees and batch frees of either
  flavour, application writes to live blocks and other mappings of the process, in every state
  reached from a fresh slab each live block was handed out once, is non-null, 16-byte aligned and lies in
  mapped memory over its whole stride, and two distinct live blocks, of any classes and flavours, never overlap.
\<close>
theorem slab_live_disjoint:
  assumes "kernel_ok env mapped" and "registrar_ok rinv owner register"
    and "slab_start w0" and "rinv (w_reg w0)" and "\<forall>b. owner (w_reg w0) b \<noteq> None \<longrightarrow> unat b \<in> mapped (w_os w0)"
    and "slab_reach env mapped register (w0, \<lambda>_ _. {#}) (w, live)"
  shows "(\<forall>fl c b. b \<in># live fl c \<longrightarrow> c < 12 \<and> count (live fl c) b = 1 \<and> b \<noteq> 0 \<and> 16 dvd unat b
        \<and> block_span c b \<subseteq> mapped (w_os w))
    \<and> (\<forall>fl c b fl' c' b'. b \<in># live fl c \<longrightarrow> b' \<in># live fl' c' \<longrightarrow> (fl, c, b) \<noteq> (fl', c', b') \<longrightarrow>
        block_span c b \<inter> block_span c' b' = {})"
proof -
  obtain G where inv: "slab_inv mapped rinv owner w live G"
    using slab_run_inv [OF assms] .
  note L = slab_inv_live [OF inv]
  have "block_span c b \<inter> block_span c' b' = {}"
    if "b \<in># live fl c" "b' \<in># live fl' c'" "(fl, c, b) \<noteq> (fl', c', b')" for fl c b fl' c' b'
    using blocks_disjoint [OF slab_inv_grants [OF inv] L(6) [OF that(1)] L(6) [OF that(2)] that(3)] .
  then show ?thesis by (intro conjI allI impI L(1-5))
qed

text \<open>Two blocks of one batch from the kernel above.\<close>

definition demo_live :: live where
  "demo_live = live_adds (\<lambda>_ _. {#}) False 3 [0x10000, 0x10040]"

lemma demo_reach:
  "\<exists>w. slab_reach bump_env bump_mapped (seg_register 0) (bump_world, \<lambda>_ _. {#}) (w, demo_live)"
proof -
  obtain w where b: "slab_alloc_batch bump_env 3 2 bump_world = ([0x10000, 0x10040], w)"
    using fst_ex [OF demo_batch] by (elim exE)
  have "slab_step bump_env bump_mapped (seg_register 0) (bump_world, \<lambda>_ _. {#}) (w, demo_live)"
    unfolding demo_live_def by (rule slab_step.batch [OF b]) simp
  then have "slab_reach bump_env bump_mapped (seg_register 0) (bump_world, \<lambda>_ _. {#}) (w, demo_live)"
    by (rule slab_reach.more [OF slab_reach.start])
  then show ?thesis by (rule exI)
qed

lemma demo_live_mem: "0x10000 \<in># demo_live False 3" "0x10040 \<in># demo_live False 3"
  by (simp_all add: demo_live_def live_adds_def)

lemma slab_live_disjoint_witness:
  "\<exists>w. slab_reach bump_env bump_mapped (seg_register 0) (bump_world, \<lambda>_ _. {#}) (w, demo_live)
     \<and> block_span 3 0x10000 \<inter> block_span 3 0x10040 = {}"
proof -
  obtain w where r: "slab_reach bump_env bump_mapped (seg_register 0) (bump_world, \<lambda>_ _. {#}) (w, demo_live)"
    using demo_reach by (elim exE)
  note D = slab_live_disjoint [OF bump_kernel_ok seg_registrar_ok demo_start r, THEN conjunct2, rule_format]
  have "block_span 3 0x10000 \<inter> block_span 3 0x10040 = {}"
    by (rule D [OF demo_live_mem(1) demo_live_mem(2)]) simp
  then show ?thesis using r by (intro exI conjI)
qed

text \<open>
  C6: With the segment registry registering every headerless segment, the class of a live headerless block is
  found from its address alone, by masking it to its 64 KiB segment and looking the segment up.
\<close>
theorem headerless_block_class:
  assumes "kernel_ok env mapped" and "slab_start w0" and "w_reg w0 = segment_registry_new"
    and "slab_reach env mapped (seg_register stripe) (w0, \<lambda>_ _. {#}) (w, live)"
    and "b \<in># live True c"
  shows "map_option unat (seg_lookup (w_reg w) (b AND NOT (SEGMENT_SIZE - 1))) = Some c"
proof -
  have "probe_inv SEGMENT_CAPACITY (seg_keys (w_reg w0))" "\<forall>b. seg_owner (w_reg w0) b \<noteq> None \<longrightarrow> unat b \<in> mapped (w_os w0)"
    using seg.table_inv_empty seg.look_empty assms(3) by (simp_all add: capacity_pow2 seg_owner_def seg_lookup_def)
  then obtain G where "slab_inv mapped (\<lambda>r. probe_inv SEGMENT_CAPACITY (seg_keys r)) seg_owner w live G"
    using slab_run_inv [OF assms(1) seg_registrar_ok assms(2) _ _ assms(4)] by blast
  from slab_inv_live(7) [OF this assms(5)] show ?thesis by (simp add: seg_owner_def)
qed

lemma headerless_block_class_witness:
  "\<exists>w live. slab_reach bump_env bump_mapped (seg_register 0) (bump_world, \<lambda>_ _. {#}) (w, live)
     \<and> 0x10000 \<in># live True 5 \<and> map_option unat (seg_lookup (w_reg w) (0x10000 AND NOT (SEGMENT_SIZE - 1))) = Some 5"
proof -
  obtain w where b: "slab_alloc_class_headerless (bump_env\<lparr>env_register := seg_register 0 5\<rparr>) 5 bump_world
      = (Some (0x10000, Some 0x10000), w)"
    using fst_ex [OF demo_hl] by blast
  have "slab_step bump_env bump_mapped (seg_register 0) (bump_world, \<lambda>_ _. {#})
      (w, live_add (\<lambda>_ _. {#}) True 5 0x10000)"
    by (rule slab_step.hl_alloc [where env = bump_env and register = "seg_register 0" and c = 5, OF b]) simp
  then have r: "slab_reach bump_env bump_mapped (seg_register 0) (bump_world, \<lambda>_ _. {#})
      (w, live_add (\<lambda>_ _. {#}) True 5 0x10000)"
    by (rule slab_reach.more [OF slab_reach.start])
  have m: "0x10000 \<in># live_add (\<lambda>_ _. {#}) True 5 0x10000 True 5" by (simp add: live_add_def)
  have s: "slab_start bump_world" "w_reg bump_world = segment_registry_new"
    by (simp_all add: slab_start_def bump_world_def)
  from headerless_block_class [OF bump_kernel_ok s r m] r m show ?thesis by blast
qed

text \<open>
  C7: In every reachable state a slab allocation returns. It gives no block only for a size above the
  largest class, or when the kernel refuses, in this very state, the length that a refill of the class maps; otherwise
  the block's stride covers the size and it overlaps no live block.
\<close>
theorem slab_alloc_returns:
  assumes "kernel_ok env mapped" and "registrar_ok rinv owner register"
    and "slab_start w0" and "rinv (w_reg w0)" and "\<forall>b. owner (w_reg w0) b \<noteq> None \<longrightarrow> unat b \<in> mapped (w_os w0)"
    and "slab_reach env mapped register (w0, \<lambda>_ _. {#}) (w, live)"
  shows "\<exists>r w'. slab_alloc env sz w = Some (r, w') \<and> (case r of
      None \<Rightarrow> 16384 < unat sz
        \<or> (\<exists>c. slab_class_for sz = Some c \<and> os_refuses (env_mmap env) (w_os w) (refill_len (env_page env) c))
    | Some b \<Rightarrow> (\<exists>c. slab_class_for sz = Some c \<and> unat sz \<le> unat (class_stride c)
        \<and> (\<forall>fl d b'. b' \<in># live fl d \<longrightarrow> block_span c b \<inter> block_span d b' = {})))"
proof (cases "slab_class_for sz")
  case None
  then show ?thesis using slab_class_for_None [of sz] by (simp add: slab_alloc_def)
next
  case (Some c)
  note c = slab_class_bound [OF Some]
  obtain G where inv: "slab_inv mapped rinv owner w live G"
    using slab_run_inv [OF assms] .
  obtain r w' G' where res: "slab_alloc_class env c w = Some (r, w')"
    and inv': "slab_inv mapped rinv owner w' (case r of None \<Rightarrow> live | Some b \<Rightarrow> live_add live False c b) G'"
    using slab_alloc_class_inv [OF assms(1) inv c] by blast
  have sz: "unat sz \<le> unat (class_stride c)"
    using slab_class_le_iff [OF Some c] class_stride_bounds [OF c] by (simp add: word_le_nat_alt)
  show ?thesis
  proof (cases r)
    case N: None
    then show ?thesis using res slab_alloc_class_refused [OF assms(1) inv c, of w'] Some by (auto simp: slab_alloc_def)
  next
    case b: (Some b)
    let ?live = "live_add live False c b"
    have inv2: "slab_inv mapped rinv owner w' ?live G'" using inv' b by simp
    have m: "b \<in># ?live False c" by (simp add: live_add_def)
    have "block_span c b \<inter> block_span d b' = {}" if l: "b' \<in># live fl d" for fl d b'
    proof -
      have l': "b' \<in># ?live fl d" using l by (auto simp: live_add_def)
      have "(False, c, b) \<noteq> (fl, d, b')"
      proof
        assume "(False, c, b) = (fl, d, b')"
        then have "count (?live False c) b = Suc (count (live False c) b)" "b \<in># live False c"
          using l by (auto simp: live_add_def)
        then show False using slab_inv_live(2) [OF inv2 m] by (metis One_nat_def Suc_inject count_eq_zero_iff)
      qed
      then show ?thesis
        using blocks_disjoint [OF slab_inv_grants [OF inv2] slab_inv_live(6) [OF inv2 m] slab_inv_live(6) [OF inv2 l']] by blast
    qed
    then show ?thesis using res b sz Some by (auto simp: slab_alloc_def)
  qed
qed

lemma slab_alloc_returns_witness:
  "\<exists>b w' c. slab_alloc bump_env 100 bump_world = Some (Some b, w') \<and> slab_class_for 100 = Some c
     \<and> 100 \<le> unat (class_stride c)"
proof -
  obtain w' where "slab_alloc bump_env 100 bump_world = Some (Some 0x10000, w')"
    using demo_alloc by (auto simp: map_option_case split: option.splits)
  then show ?thesis
    using slab_alloc_returns [OF bump_kernel_ok seg_registrar_ok demo_start slab_reach.start, of 100] by auto
qed

section \<open>Order of reuse\<close>

lemma dealloc_pop_recycled:
  assumes "unat (cache_len t c) < CENTRAL_CACHE" and "tiers_dealloc_class mem t p c = (mem', t')"
  shows "mem' = mem \<and> unat (cache_len t' c) = Suc (unat (cache_len t c))
    \<and> pop_recycled m t' c = (Some p, t'\<lparr>cache_len := (cache_len t')(c := cache_len t c)\<rparr>)
    \<and> cache_list t' c = p # cache_list t c"
proof -
  let ?t = "t\<lparr>tier_cache := (tier_cache t)(c := (tier_cache t c)(unat (cache_len t c) := p)),
      cache_len := (cache_len t)(c := cache_len t c + 1)\<rparr>"
  have e: "mem' = mem" "t' = ?t" using assms by (auto simp: tiers_dealloc_class_def Let_def)
  have u: "unat (cache_len t c + 1) = Suc (unat (cache_len t c))"
    using assms(1) by (simp add: unat_word_ariths CENTRAL_CACHE_def)
  then have "0 < cache_len t c + 1" by (simp add: word_gt_0 unat_gt_0 [symmetric])
  then have "pop_recycled m ?t c = (Some p, ?t\<lparr>cache_len := (cache_len ?t)(c := cache_len t c)\<rparr>)"
    by (simp add: pop_recycled_def pop_untouched_def)
  then show ?thesis using e u cache_list_push [OF assms(1), of p] by simp
qed

lemma recycle_from_cache:
  assumes "n \<le> length (cache_list t c)" and "unat (cache_len t c) \<le> CENTRAL_CACHE"
  shows "fst (recycle_loop mem c n t) = take n (cache_list t c)"
  using assms
proof (induction n arbitrary: t)
  case (Suc n)
  then have pos: "0 < cache_len t c" by (auto simp: cache_list_def word_gt_0)
  let ?t = "t\<lparr>cache_len := (cache_len t)(c := cache_len t c - 1)\<rparr>"
  have p: "pop_recycled mem t c = (Some (tier_cache t c (unat (cache_len t c - 1))), ?t)"
    using pos by (simp add: pop_recycled_def pop_untouched_def Let_def)
  have c: "cache_list t c = tier_cache t c (unat (cache_len t c - 1)) # cache_list ?t c"
    by (rule cache_list_pop [OF pos])
  have "unat (cache_len ?t c) \<le> CENTRAL_CACHE" using Suc.prems(2) pos by (simp add: unat_minus_one word_gt_0)
  then have "fst (recycle_loop mem c n ?t) = take n (cache_list ?t c)"
    using Suc.IH [of ?t] Suc.prems(1) c by simp
  moreover obtain bs t' where "recycle_loop mem c n ?t = (bs, t')" by force
  ultimately show ?case using p c by simp
qed simp

lemma slab_dealloc_batch_cache:
  assumes "length bs + unat (cache_len (header_tiers (w_slab w)) c) \<le> CENTRAL_CACHE"
  shows "w_mem (slab_dealloc_batch c bs w) = w_mem w
    \<and> cache_list (header_tiers (w_slab (slab_dealloc_batch c bs w))) c = rev bs @ cache_list (header_tiers (w_slab w)) c
    \<and> unat (cache_len (header_tiers (w_slab (slab_dealloc_batch c bs w))) c)
        = length bs + unat (cache_len (header_tiers (w_slab w)) c)"
  using assms
proof (induction bs arbitrary: w)
  case (Cons b bs)
  obtain mem' t' where d: "tiers_dealloc_class (w_mem w) (header_tiers (w_slab w)) b c = (mem', t')" by force
  have room: "unat (cache_len (header_tiers (w_slab w)) c) < CENTRAL_CACHE" using Cons.prems by simp
  note D = dealloc_pop_recycled [OF room d]
  have w1: "slab_dealloc_class b c w = w\<lparr>w_mem := mem', w_slab := (w_slab w)\<lparr>header_tiers := t'\<rparr>\<rparr>"
    using d by (simp add: slab_dealloc_class_def)
  show ?case using Cons.IH [of "slab_dealloc_class b c w"] Cons.prems D by (simp add: w1)
qed simp

text \<open>
  Blocks freed in a batch that fits the no-touch cache come back from the recycled tiers in the reverse
  order of their frees, and freeing them does not write to the memory of any block.
\<close>
lemma slab_cache_lifo:
  assumes "length bs + unat (cache_len (header_tiers (w_slab w)) c) \<le> CENTRAL_CACHE"
  shows "w_mem (slab_dealloc_batch c bs w) = w_mem w
    \<and> fst (slab_alloc_batch_recycled c (length bs) False (slab_dealloc_batch c bs w)) = rev bs"
proof -
  note D = slab_dealloc_batch_cache [OF assms]
  let ?w = "slab_dealloc_batch c bs w"
  have "fst (recycle_loop (w_mem ?w) c (length bs) (header_tiers (w_slab ?w))) = rev bs"
    using recycle_from_cache [of "length bs" "header_tiers (w_slab ?w)" c "w_mem ?w"] D assms by simp
  then show ?thesis using D by (auto simp: slab_alloc_batch_recycled_def split: prod.splits)
qed

lemma slab_cache_lifo_witness:
  "fst (slab_alloc_batch_recycled 3 3 False (slab_dealloc_batch 3 [0x40, 0x80, 0xC0] bump_world)) = [0xC0, 0x80, 0x40]"
  using slab_cache_lifo [of "[0x40, 0x80, 0xC0]" bump_world 3]
  by (simp add: bump_world_def slab_new_def tiers_new_def CENTRAL_CACHE_def numeral_3_eq_3)

end
