(* ===== verification/LinkedList.thy ===== *)
theory LinkedList
  imports Main
begin

text \<open>
  Doubly linked lists over link functions: \<open>dseg P N z p h t xs\<close> holds when following \<open>N\<close> from \<open>h\<close>
  runs through \<open>xs\<close> up to \<open>t\<close> and \<open>P\<close> points back, to \<open>p\<close> from the first element; no element is the null key \<open>z\<close>. A
  whole list starts after the null key and ends in it. The update lemmas only look at
  the links of the elements, so they serve links kept in block memory, in an array of a region,
  and in the regions themselves.
\<close>

fun dseg :: "('k \<Rightarrow> 'k) \<Rightarrow> ('k \<Rightarrow> 'k) \<Rightarrow> 'k \<Rightarrow> 'k \<Rightarrow> 'k \<Rightarrow> 'k \<Rightarrow> 'k list \<Rightarrow> bool" where
  "dseg P N z p h t [] \<longleftrightarrow> h = t"
| "dseg P N z p h t (x # xs) \<longleftrightarrow> h = x \<and> x \<noteq> z \<and> P x = p \<and> dseg P N z x (N x) t xs"

definition dll :: "('k \<Rightarrow> 'k) \<Rightarrow> ('k \<Rightarrow> 'k) \<Rightarrow> 'k \<Rightarrow> 'k \<Rightarrow> 'k list \<Rightarrow> bool" where
  "dll P N z h xs \<longleftrightarrow> dseg P N z z h z xs"

definition last_or :: "'k \<Rightarrow> 'k list \<Rightarrow> 'k" where
  "last_or z xs = (if xs = [] then z else last xs)"

lemma last_or_simps [simp]:
  "last_or z [] = z" "last_or z (x # xs) = last_or x xs" "last_or z (xs @ ys) = last_or (last_or z xs) ys"
  by (auto simp: last_or_def)

lemma last_or_in: "xs \<noteq> [] \<Longrightarrow> last_or z xs \<in> set xs"
  by (simp add: last_or_def)

lemma last_or_null: "z \<notin> set xs \<Longrightarrow> last_or z xs = z \<longleftrightarrow> xs = []"
  by (auto simp: last_or_def)

lemma dseg_cong:
  assumes "\<And>x. x \<in> set xs \<Longrightarrow> P' x = P x \<and> N' x = N x"
  shows "dseg P' N' z p h t xs \<longleftrightarrow> dseg P N z p h t xs"
  using assms by (induction xs arbitrary: p h) auto

lemma dseg_append:
  "dseg P N z p h t (xs @ ys) \<longleftrightarrow> (\<exists>m. dseg P N z p h m xs \<and> dseg P N z (last_or p xs) m t ys)"
  by (induction xs arbitrary: p h) auto

lemma dseg_nonnull: "dseg P N z p h t xs \<Longrightarrow> z \<notin> set xs"
  by (induction xs arbitrary: p h) auto

lemma dseg_head: "dseg P N z p h t xs \<Longrightarrow> h = (case xs of [] \<Rightarrow> t | x # _ \<Rightarrow> x)"
  by (cases xs) auto

lemma dll_cong:
  "(\<And>x. x \<in> set xs \<Longrightarrow> P' x = P x \<and> N' x = N x) \<Longrightarrow> dll P' N' z h xs \<longleftrightarrow> dll P N z h xs"
  unfolding dll_def by (rule dseg_cong)

lemma dll_Nil: "dll P N z h [] \<longleftrightarrow> h = z"
  by (simp add: dll_def)

lemma dll_empty_iff: "dll P N z h xs \<Longrightarrow> h = z \<longleftrightarrow> xs = []"
  unfolding dll_def by (cases xs) auto

lemma dll_head: "dll P N z h xs \<Longrightarrow> xs \<noteq> [] \<Longrightarrow> h = hd xs"
  unfolding dll_def by (cases xs) auto

lemma dll_nonnull: "dll P N z h xs \<Longrightarrow> z \<notin> set xs"
  unfolding dll_def by (rule dseg_nonnull)

text \<open>The neighbours of an element are elements, or null at the ends.\<close>

lemma dll_split:
  "dll P N z h (xs @ x # ys) \<longleftrightarrow>
     dseg P N z z h x xs \<and> x \<noteq> z \<and> P x = last_or z xs \<and> dseg P N z x (N x) z ys"
  by (auto simp: dll_def dseg_append)

lemma dll_neighbours:
  assumes "dll P N z h xs" and "x \<in> set xs" and "distinct xs"
  shows "P x \<in> insert z (set xs - {x})" and "N x \<in> insert z (set xs - {x})"
    and "P x = z \<longleftrightarrow> h = x"
proof -
  obtain as bs where xs: "xs = as @ x # bs" using assms(2) by (meson split_list)
  have d: "dseg P N z z h x as" "P x = last_or z as" "dseg P N z x (N x) z bs"
    using assms(1) by (auto simp: xs dll_split)
  show "P x \<in> insert z (set xs - {x})"
    using d(2) last_or_in [of as z] assms(3) by (cases "as = []") (auto simp: xs)
  show "N x \<in> insert z (set xs - {x})"
    using dseg_head [OF d(3)] assms(3) by (cases bs) (auto simp: xs)
  have nn: "z \<notin> set as" using dll_nonnull [OF assms(1)] by (simp add: xs)
  show "P x = z \<longleftrightarrow> h = x"
  proof (cases as)
    case Nil
    then show ?thesis using d by simp
  next
    case (Cons a as')
    then show ?thesis using d nn last_or_null [OF nn] assms(3) by (auto simp: xs)
  qed
qed

lemma dll_push:
  assumes "dll P N z h xs" and "x \<notin> set xs" and "x \<noteq> z" and "distinct xs"
    and "P' x = z" and "N' x = h"
    and "\<And>y. y \<in> set xs \<Longrightarrow> N' y = N y \<and> P' y = (if y = h then x else P y)"
  shows "dll P' N' z x (x # xs)"
proof (cases xs)
  case Nil
  then show ?thesis using assms by (simp add: dll_def)
next
  case (Cons y ys)
  have "dseg P N z y (N y) z ys" "h = y" "y \<noteq> z" using assms(1) by (simp_all add: dll_def Cons)
  moreover from this have "dseg P' N' z y (N y) z ys"
    using assms(4,7) Cons by (subst dseg_cong [of ys P' P N' N]) auto
  ultimately show ?thesis using assms Cons by (simp add: dll_def)
qed

lemma dll_snoc:
  assumes "dll P N z h xs" and "x \<notin> set xs" and "x \<noteq> z" and "distinct xs"
    and "P' x = last_or z xs" and "N' x = z"
    and "\<And>y. y \<in> set xs \<Longrightarrow> P' y = P y \<and> N' y = (if y = last_or z xs then x else N y)"
  shows "dll P' N' z (if xs = [] then x else h) (xs @ [x])"
proof (cases xs rule: rev_cases)
  case Nil
  then show ?thesis using assms by (simp add: dll_def)
next
  case (snoc as y)
  have "dseg P N z z h y as" "y \<noteq> z" "P y = last_or z as" using assms(1) by (auto simp: snoc dll_split)
  moreover from this have "dseg P' N' z z h y as"
    using assms(4,7) snoc by (subst dseg_cong [of as P' P N' N]) auto
  ultimately show ?thesis using assms snoc by (auto simp: dll_def dseg_append)
qed

lemma dll_remove:
  assumes l: "dll P N z h xs" and x: "x \<in> set xs" and d: "distinct xs"
    and upd: "\<And>y. y \<in> set xs - {x} \<Longrightarrow>
        N' y = (if y = P x then N x else N y) \<and> P' y = (if y = N x then P x else P y)"
  shows "dll P' N' z (if P x = z then N x else h) (remove1 x xs)"
    and "(if N x = z then P x else last_or z xs) = last_or z (remove1 x xs)"
proof -
  obtain as bs where xs: "xs = as @ x # bs" using x by (meson split_list)
  have r: "remove1 x xs = as @ bs" using d by (simp add: xs remove1_append)
  have s: "dseg P N z z h x as" "P x = last_or z as" "dseg P N z x (N x) z bs"
    using l by (auto simp: xs dll_split)
  have nn: "z \<notin> set as" "z \<notin> set bs" using dll_nonnull [OF l] by (auto simp: xs)
  have pb: "P x \<notin> set bs"
    using s(2) last_or_in [of as z] nn d by (cases "as = []") (auto simp: xs)
  have bs: "dseg P' N' z (P x) (N x) z bs"
  proof (cases bs)
    case (Cons y ys)
    have e: "dseg P N z y (N y) z ys" "N x = y" "y \<noteq> z" using s(3) Cons by auto
    have "N' v = N v \<and> P' v = P v" if v: "v \<in> set ys" for v
    proof -
      have "v \<noteq> x" "v \<noteq> P x" "v \<noteq> N x" "v \<in> set xs" using v d pb e(2) by (auto simp: xs Cons)
      then show ?thesis using upd [of v] by auto
    qed
    then have "dseg P' N' z y (N y) z ys" using e(1) by (subst dseg_cong [of ys P' P N' N]) auto
    moreover have "N' y = N y \<and> P' y = P x"
      using upd [of y] d pb e(2) by (auto simp: xs Cons)
    ultimately show ?thesis using e by (simp add: Cons)
  qed (use s in simp)
  have as: "dseg P' N' z z (if P x = z then N x else h) (N x) as"
  proof (cases as rule: rev_cases)
    case Nil
    then show ?thesis using s by simp
  next
    case (snoc cs c)
    have Px: "P x = c" "c \<noteq> z" using s(2) nn snoc by auto
    have sc: "dseg P N z z h c cs" "P c = last_or z cs" using s(1) by (auto simp: snoc dseg_append)
    have bsx: "N x \<notin> set as" using dseg_head [OF s(3)] nn d by (cases bs) (auto simp: xs)
    have "N' v = N v \<and> P' v = P v" if v: "v \<in> set cs" for v
    proof -
      have "v \<noteq> x" "v \<noteq> P x" "v \<noteq> N x" "v \<in> set xs" using v d bsx Px by (auto simp: xs snoc)
      then show ?thesis using upd [of v] by auto
    qed
    then have "dseg P' N' z z h c cs"
      using sc(1) by (subst dseg_cong [of cs P' P N' N]) auto
    moreover have "N' c = N x \<and> P' c = P c" using upd [of c] d bsx Px by (auto simp: xs snoc)
    ultimately show ?thesis using Px sc by (simp add: snoc dseg_append)
  qed
  show "dll P' N' z (if P x = z then N x else h) (remove1 x xs)"
    unfolding r dll_def dseg_append using as bs s(2) by auto
  show "(if N x = z then P x else last_or z xs) = last_or z (remove1 x xs)"
    unfolding r unfolding xs using dseg_head [OF s(3)] s nn by (cases bs) auto
qed

end
