(* ===== verification/BuddyGeometry.thy ===== *)
theory BuddyGeometry
  imports BuddyAlloc LinkedList
begin

text \<open>
  The arithmetic under the buddy allocator: the values of its constants, blocks and regions as
  ranges of addresses, the halves of a block, bitmap positions and slots.
\<close>

section \<open>Constants\<close>

lemma MAX_ORDER_16 [simp]: "MAX_ORDER = 16"
  by code_simp

lemma NUM_ORDERS_17: "NUM_ORDERS = 17"
  by (simp add: NUM_ORDERS_def)

lemma OOB_MIN_ORDER_10 [simp]: "OOB_MIN_ORDER = 10"
  by (simp add: OOB_MIN_ORDER_def MIN_HEADERLESS_ORDER_def)

lemma REGION_BYTES_eq: "REGION_BYTES = 2 ^ 22"
  by (simp add: REGION_BYTES_def BUDDY_MAX_def)

lemma unat_REGION_BYTES: "unat REGION_BYTES = 2 ^ 22"
  by (simp add: REGION_BYTES_eq)

lemma unat_drop_bit_64: "unat (drop_bit n (a :: usize)) = unat a div 2 ^ n"
proof -
  have "take_bit LENGTH(64) (unat a) = unat a" using unat_lt_64 [of a] by (simp add: take_bit_nat_eq_self)
  moreover have "unat (drop_bit n a) = drop_bit n (take_bit LENGTH(64) (unat a))" by (rule unsigned_drop_bit_eq)
  ultimately show ?thesis by (simp only: drop_bit_eq_div [of n "unat a"])
qed

lemma ORDER_MAP_SLOTS_256: "ORDER_MAP_SLOTS = 256"
  unfolding ORDER_MAP_SLOTS_def unat_drop_bit_64 unat_REGION_BYTES
  by (simp add: MIN_BLOCK_SHIFT_def MIN_HEADERLESS_ORDER_def)

lemma block_size_pow2: "k \<le> 17 \<Longrightarrow> block_size k = 2 ^ (4 + k)"
  by (simp add: block_size_def MIN_BLOCK_def MIN_ALIGN_def push_bit_eq_mult power_add)

lemma unat_block_size: "k \<le> 17 \<Longrightarrow> unat (block_size k) = 2 ^ (4 + k)"
  by (simp only: block_size_pow2) (rule unat_pow2_64, simp)

text \<open>The bits of order \<open>k\<close> start at \<open>2 ^ 19 - 2 ^ (19 - k)\<close>.\<close>

lemma ORDER_BIT_OFFSET_eq: "k \<le> 17 \<Longrightarrow> ORDER_BIT_OFFSET k + 2 ^ (19 - k) = 2 ^ 19"
proof (induction k)
  case (Suc k)
  have "unat (drop_bit (MIN_BLOCK_SHIFT + k) REGION_BYTES) = 2 ^ 22 div 2 ^ (4 + k)"
    by (simp only: unat_drop_bit_64 unat_REGION_BYTES MIN_BLOCK_SHIFT_def)
  also have "\<dots> = 2 ^ (18 - k)"
    using power_diff [of "2::nat" "4 + k" 22] Suc.prems by simp
  finally have "ORDER_BIT_OFFSET (Suc k) = ORDER_BIT_OFFSET k + 2 ^ (18 - k)" by simp
  moreover have "(2::nat) ^ (19 - k) = 2 ^ (18 - k) + 2 ^ (19 - Suc k)"
    using Suc.prems power_Suc [of "2::nat" "18 - k"] by (simp add: Suc_diff_le [symmetric])
  ultimately show ?case using Suc.IH Suc.prems by linarith
qed simp

section \<open>Blocks and regions\<close>

definition rbase :: "usize \<Rightarrow> usize" where "rbase a = a AND NOT (REGION_BYTES - 1)"

definition blk :: "usize \<Rightarrow> nat \<Rightarrow> bool" where "blk a k \<longleftrightarrow> k \<le> 16 \<and> 2 ^ (4 + k) dvd unat a"

definition span :: "usize \<Rightarrow> nat \<Rightarrow> nat set" where "span a k = {unat a ..< unat a + 2 ^ (4 + k)}"

definition rspan :: "usize \<Rightarrow> nat set" where "rspan base = {unat base ..< unat base + 2 ^ 22}"

definition region_base_ok :: "usize \<Rightarrow> bool" where
  "region_base_ok base \<longleftrightarrow> base \<noteq> 0 \<and> 2 ^ 22 dvd unat base \<and> unat base + 2 ^ 22 < 2 ^ 63"

lemma unat_rbase: "unat (rbase a) = unat a div 2 ^ 22 * 2 ^ 22"
proof -
  have "REGION_BYTES - 1 = mask 22" by (simp add: REGION_BYTES_eq mask_eq_decr_exp)
  then show ?thesis by (simp only: rbase_def unat_and_not_mask)
qed

lemma rbase_le: "unat (rbase a) \<le> unat a" "unat a < unat (rbase a) + 2 ^ 22"
proof -
  have "unat a = unat a div 2 ^ 22 * 2 ^ 22 + unat a mod 2 ^ 22" by (rule div_mult_mod_eq [symmetric])
  moreover have "unat a mod 2 ^ 22 < (2::nat) ^ 22" by (rule mod_less_divisor) simp
  ultimately show "unat (rbase a) \<le> unat a" "unat a < unat (rbase a) + 2 ^ 22" unfolding unat_rbase by linarith+
qed

lemma rbase_eqI: "2 ^ 22 dvd unat base \<Longrightarrow> unat a \<in> rspan base \<Longrightarrow> rbase a = base"
proof -
  assume "2 ^ 22 dvd unat base" and a: "unat a \<in> rspan base"
  then obtain q where q: "unat base = 2 ^ 22 * q" by (elim dvdE)
  then have "unat a div 2 ^ 22 = q" using a by (intro div_nat_eqI) (auto simp: rspan_def)
  then have "unat (rbase a) = unat base" using q by (simp only: unat_rbase mult.commute)
  then show ?thesis by (simp add: word_unat_eq_iff)
qed

lemma rbase_base: "2 ^ 22 dvd unat base \<Longrightarrow> rbase base = base"
  by (rule rbase_eqI) (auto simp: rspan_def)

lemma rbase_idem [simp]: "rbase (rbase a) = rbase a"
  by (rule rbase_base) (simp only: unat_rbase dvd_triv_right)

lemma rspan_mem: "unat a \<in> rspan (rbase a)"
  using rbase_le by (auto simp: rspan_def)

lemma rspan_disjoint: "2 ^ 22 dvd unat b1 \<Longrightarrow> 2 ^ 22 dvd unat b2 \<Longrightarrow> b1 \<noteq> b2 \<Longrightarrow> rspan b1 \<inter> rspan b2 = {}"
proof (rule ccontr)
  assume d: "2 ^ 22 dvd unat b1" "2 ^ 22 dvd unat b2" "b1 \<noteq> b2" and "rspan b1 \<inter> rspan b2 \<noteq> {}"
  then obtain x where x: "x \<in> rspan b1" "x \<in> rspan b2" by auto
  obtain p q where pq: "unat b1 = 2 ^ 22 * p" "unat b2 = 2 ^ 22 * q" using d by (auto elim!: dvdE)
  have "x div 2 ^ 22 = p" using x(1) pq by (intro div_nat_eqI) (auto simp: rspan_def)
  moreover have "x div 2 ^ 22 = q" using x(2) pq by (intro div_nat_eqI) (auto simp: rspan_def)
  ultimately show False using pq d(3) by (simp add: word_unat_eq_iff)
qed

lemma blk_offset:
  assumes "blk a k"
  obtains j where "unat a = unat (rbase a) + j * 2 ^ (4 + k)" and "j < 2 ^ (18 - k)"
proof -
  have k: "k \<le> 16" and dv: "2 ^ (4 + k) dvd unat a" using assms by (auto simp: blk_def)
  have split: "(2::nat) ^ 22 = 2 ^ (18 - k) * 2 ^ (4 + k)" using k by (simp add: power_add [symmetric])
  have "2 ^ (4 + k) dvd unat (rbase a)" by (simp only: unat_rbase split) simp
  then have "2 ^ (4 + k) dvd unat a - unat (rbase a)" using dv by simp
  then obtain j where j: "unat a - unat (rbase a) = 2 ^ (4 + k) * j" by (elim dvdE)
  have e: "unat a = unat (rbase a) + j * 2 ^ (4 + k)" using j rbase_le(1) [of a] by (simp add: mult.commute)
  then have "j * 2 ^ (4 + k) < 2 ^ (18 - k) * 2 ^ (4 + k)" using rbase_le(2) [of a] split by linarith
  then have "j < 2 ^ (18 - k)" by simp
  then show ?thesis using that e by blast
qed

lemma span_in_region: "blk a k \<Longrightarrow> span a k \<subseteq> rspan (rbase a)"
proof -
  assume b: "blk a k"
  then obtain j where j: "unat a = unat (rbase a) + j * 2 ^ (4 + k)" "j < 2 ^ (18 - k)" by (rule blk_offset)
  have k: "k \<le> 16" using b by (simp add: blk_def)
  have "Suc j * 2 ^ (4 + k) \<le> 2 ^ (18 - k) * 2 ^ (4 + k)" using j(2) by (intro mult_le_mono1) simp
  also have "\<dots> = 2 ^ 22" using k by (simp add: power_add [symmetric])
  finally show ?thesis using j(1) by (auto simp: span_def rspan_def)
qed

lemma bspan_nonempty: "unat a \<in> span a k"
  by (simp add: span_def)

lemma blk_word_add:
  assumes "blk a k" and "region_base_ok (rbase a)" and "n \<le> 2 ^ (4 + k)"
  shows "unat (a + of_nat n) = unat a + n"
proof -
  have "unat a + 2 ^ (4 + k) \<le> unat (rbase a) + 2 ^ 22"
    using span_in_region [OF assms(1)] unfolding span_def rspan_def
    using ivl_subset [of "unat a" "unat a + 2 ^ (4 + k)" "unat (rbase a)" "unat (rbase a) + 2 ^ 22"] by simp
  then have lt: "unat a + n < 2 ^ 64" using assms(2,3) by (simp add: region_base_ok_def)
  then show ?thesis by (simp add: unat_add_64 unat_of_nat_64)
qed

section \<open>Halves\<close>

lemma pow5: "(2::nat) ^ (5 + k) = 2 * 2 ^ (4 + k)"
  by (simp add: power_add)

lemma blk_le: "blk a (Suc k) \<Longrightarrow> blk a k"
  unfolding blk_def add_Suc_right power_Suc by (auto elim: dvd_mult_right)

lemma span_halves:
  assumes "unat u = unat a + 2 ^ (4 + k)"
  shows "span a (Suc k) = span a k \<union> span u k" and "span a k \<inter> span u k = {}"
  using assms by (auto simp: span_def pow5)

lemma upper_half:
  assumes "blk a (Suc k)" and "region_base_ok (rbase a)"
  shows "unat (a + block_size k) = unat a + 2 ^ (4 + k)" and "blk (a + block_size k) k"
    and "rbase (a + block_size k) = rbase a"
    and "span a (Suc k) = span a k \<union> span (a + block_size k) k" and "span a k \<inter> span (a + block_size k) k = {}"
proof -
  have k: "Suc k \<le> 16" and dv: "2 ^ (4 + k) dvd unat a"
    using blk_le [OF assms(1)] assms(1) by (auto simp: blk_def)
  have bs: "block_size k = of_nat (2 ^ (4 + k))" using k by (simp add: block_size_pow2)
  have le: "(2::nat) ^ (4 + k) \<le> 2 ^ (4 + Suc k)" by (intro power_increasing) auto
  show u: "unat (a + block_size k) = unat a + 2 ^ (4 + k)"
    using blk_word_add [OF assms le] by (simp only: bs)
  then show "blk (a + block_size k) k" using k dv by (simp add: blk_def)
  show sp: "span a (Suc k) = span a k \<union> span (a + block_size k) k" and "span a k \<inter> span (a + block_size k) k = {}"
    using span_halves [OF u] by auto
  have "unat (a + block_size k) \<in> rspan (rbase a)"
    using span_in_region [OF assms(1)] sp bspan_nonempty by blast
  then show "rbase (a + block_size k) = rbase a" using assms(2) by (intro rbase_eqI) (auto simp: region_base_ok_def)
qed

text \<open>A block and its buddy are the halves of the block one order up.\<close>

lemma unat_and_not_block:
  assumes "k \<le> 16"
  shows "unat (a AND NOT (block_size (k + 1) - 1)) = unat a div 2 ^ (5 + k) * 2 ^ (5 + k)"
proof -
  have "block_size (k + 1) - 1 = mask (5 + k)"
    using assms by (simp add: block_size_pow2 mask_eq_decr_exp)
  then show ?thesis by (simp only: unat_and_not_mask)
qed

lemma xor_bit_lower:
  fixes a :: usize
  assumes "n < 64" and "2 ^ Suc n dvd unat a"
  shows "a XOR 2 ^ n = a + 2 ^ n" and "(a + 2 ^ n) XOR 2 ^ n = a"
proof -
  have "\<not> bit (unat a) n" using assms(2) by (auto simp: bit_iff_odd elim!: dvdE)
  then have nb: "\<not> bit a n" by (simp add: bit_unsigned_iff)
  have "a AND 2 ^ n = 0" by (rule bit_word_eqI) (use nb in \<open>auto simp: bit_simps\<close>)
  then have "a + 2 ^ n = a OR 2 ^ n" by (rule disjunctive_add_eq_or)
  then show "a XOR 2 ^ n = a + 2 ^ n" and "(a + 2 ^ n) XOR 2 ^ n = a"
    using nb by (auto intro!: bit_word_eqI simp: bit_simps)
qed

lemma buddy_halves:
  assumes b: "blk a k" and k: "k < 16" and ok: "region_base_ok (rbase a)"
  defines "u \<equiv> a XOR block_size k" and "m \<equiv> a AND NOT (block_size (k + 1) - 1)"
  shows "blk u k" and "blk m (Suc k)" and "rbase u = rbase a" and "rbase m = rbase a"
    and "span m (Suc k) = span a k \<union> span u k" and "span a k \<inter> span u k = {}" and "u \<noteq> a"
proof -
  have bs: "block_size k = 2 ^ (4 + k)" using k by (simp add: block_size_pow2)
  have um: "unat m = unat a div 2 ^ (5 + k) * 2 ^ (5 + k)" unfolding m_def by (rule unat_and_not_block) (use k in simp)
  have bm: "blk m (Suc k)" using um k by (simp add: blk_def)
  have split: "(2::nat) ^ 22 = 2 ^ (17 - k) * 2 ^ (5 + k)" using k by (simp add: power_add [symmetric])
  have rm: "rbase m = rbase a"
  proof (rule rbase_eqI)
    show "2 ^ 22 dvd unat (rbase a)" by (simp only: unat_rbase dvd_triv_right)
    have "unat (rbase a) div 2 ^ (5 + k) * 2 ^ (5 + k) = unat (rbase a)"
      by (simp only: unat_rbase split mult.assoc [symmetric]) simp
    then have "unat (rbase a) \<le> unat m" using rbase_le(1) [of a] um by (metis div_le_mono mult_le_mono1)
    moreover have "unat m \<le> unat a" by (simp only: um) (simp add: div_mult_mod_eq [symmetric] del: div_mult_mod_eq)
    ultimately show "unat m \<in> rspan (rbase a)" using rbase_le(2) [of a] by (simp add: rspan_def)
  qed
  have up: "unat (m + 2 ^ (4 + k)) = unat m + 2 ^ (4 + k)" "blk (m + 2 ^ (4 + k)) k"
    "rbase (m + 2 ^ (4 + k)) = rbase a"
    "span m (Suc k) = span m k \<union> span (m + 2 ^ (4 + k)) k" "span m k \<inter> span (m + 2 ^ (4 + k)) k = {}"
    using upper_half [OF bm] ok rm bs by simp_all
  have x: "m XOR 2 ^ (4 + k) = m + 2 ^ (4 + k)" "(m + 2 ^ (4 + k)) XOR 2 ^ (4 + k) = m"
    using xor_bit_lower [of "4 + k" m] um k by (simp_all add: pow5)
  have "a = m \<or> a = m + 2 ^ (4 + k)"
  proof -
    obtain j where j: "unat a = 2 ^ (4 + k) * j" using b by (auto simp: blk_def elim!: dvdE)
    have "unat m = j div 2 * 2 * 2 ^ (4 + k)"
    proof -
      have "unat a div 2 ^ (5 + k) = j div 2"
        unfolding j pow5 mult.commute [of 2 "2 ^ (4 + k)"] by (rule div_mult_mult1) simp
      then show ?thesis using um by (simp only: pow5 mult.assoc)
    qed
    then have "unat a = unat m + j mod 2 * 2 ^ (4 + k)"
      using j by (metis add_mult_distrib div_mult_mod_eq mult.commute)
    moreover have "j mod 2 = 0 \<or> j mod 2 = 1" by auto
    ultimately have "unat a = unat m \<or> unat a = unat (m + 2 ^ (4 + k))" using up(1) by auto
    then show ?thesis by (simp add: word_unat_eq_iff)
  qed
  then have cases: "(a = m \<and> u = m + 2 ^ (4 + k)) \<or> (a = m + 2 ^ (4 + k) \<and> u = m)"
    using x bs unfolding u_def by auto
  have ne: "m \<noteq> m + 2 ^ (4 + k)"
  proof
    assume "m = m + 2 ^ (4 + k)"
    then have "unat m = unat m + 2 ^ (4 + k)" using up(1) by metis
    then show False by simp
  qed
  show "blk u k" using cases up(2) blk_le [OF bm] by auto
  show "blk m (Suc k)" by (rule bm)
  show "rbase u = rbase a" using cases up(3) rm by auto
  show "rbase m = rbase a" by (rule rm)
  show "span m (Suc k) = span a k \<union> span u k" using cases up(4) by auto
  show "span a k \<inter> span u k = {}" using cases up(5) by auto
  show "u \<noteq> a" using cases ne by auto
qed

section \<open>Bitmap positions and slots\<close>

lemma unat_region_offset:
  "rbase a = base \<Longrightarrow> unat (a - base) = unat a - unat base"
  using rbase_le(1) [of a] by (auto simp: unat_sub word_le_nat_alt)

lemma bit_pos_eq:
  assumes "rbase a = r_base r" and "k \<le> 16"
  shows "bit_pos r a k = ORDER_BIT_OFFSET k + (unat a - unat (r_base r)) div 2 ^ (4 + k)"
  using assms unat_region_offset [OF assms(1)] by (simp add: bit_pos_def unat_drop_bit_64 MIN_BLOCK_SHIFT_def)

lemma bit_pos_range:
  assumes "rbase a = r_base r" and "blk a k"
  shows "ORDER_BIT_OFFSET k \<le> bit_pos r a k" and "bit_pos r a k < ORDER_BIT_OFFSET (Suc k)"
proof -
  obtain j where j: "unat a = unat (rbase a) + j * 2 ^ (4 + k)" "j < 2 ^ (18 - k)" using blk_offset [OF assms(2)] .
  have k: "k \<le> 16" using assms(2) by (simp add: blk_def)
  have p: "bit_pos r a k = ORDER_BIT_OFFSET k + j" using bit_pos_eq [OF assms(1) k] j(1) assms(1) by simp
  then show "ORDER_BIT_OFFSET k \<le> bit_pos r a k" by simp
  have "(2::nat) ^ (19 - k) = 2 * 2 ^ (18 - k)"
    using k power_Suc [of "2::nat" "18 - k"] by (simp add: Suc_diff_le [symmetric])
  then show "bit_pos r a k < ORDER_BIT_OFFSET (Suc k)"
    using p j(2) ORDER_BIT_OFFSET_eq [of k] ORDER_BIT_OFFSET_eq [of "Suc k"] k by simp
qed

lemma ORDER_BIT_OFFSET_mono: "j \<le> k \<Longrightarrow> ORDER_BIT_OFFSET j \<le> ORDER_BIT_OFFSET k"
  by (induction k) (auto simp: le_Suc_eq)

lemma bit_pos_inj:
  assumes "rbase a = r_base r" "blk a k" "rbase a' = r_base r" "blk a' k'" "bit_pos r a k = bit_pos r a' k'"
  shows "a = a' \<and> k = k'"
proof -
  have "\<not> k < k'" using bit_pos_range [OF assms(1,2)] bit_pos_range [OF assms(3,4)] assms(5)
      ORDER_BIT_OFFSET_mono [of "Suc k" k'] by auto
  moreover have "\<not> k' < k" using bit_pos_range [OF assms(1,2)] bit_pos_range [OF assms(3,4)] assms(5)
      ORDER_BIT_OFFSET_mono [of "Suc k'" k] by auto
  ultimately have k: "k = k'" by simp
  obtain j where j: "unat a = unat (rbase a) + j * 2 ^ (4 + k)" using blk_offset [OF assms(2)] .
  obtain j' where j': "unat a' = unat (rbase a') + j' * 2 ^ (4 + k)" using blk_offset [OF assms(4)] k by metis
  have "k \<le> 16" using assms(2) by (simp add: blk_def)
  then have "(unat a - unat (r_base r)) div 2 ^ (4 + k) = (unat a' - unat (r_base r)) div 2 ^ (4 + k)"
    using assms(5) bit_pos_eq [OF assms(1)] bit_pos_eq [OF assms(3)] k by simp
  then have "j = j'" using j j' assms(1,3) by simp
  then have "unat a = unat a'" using j j' assms(1,3) by simp
  then show ?thesis using k by (simp add: word_unat_eq_iff)
qed

lemma test_bit_1: "drop_bit n (w :: u64) AND 1 = 1 \<longleftrightarrow> bit w n"
  by (simp add: and_one_eq odd_iff_mod_2_eq_one [symmetric] bit_iff_odd_drop_bit)

lemma is_free_bit_bit: "is_free_bit r a k \<longleftrightarrow> bit (r_bitmap r (bit_pos r a k div 64)) (bit_pos r a k mod 64)"
  by (simp only: is_free_bit_def Let_def test_bit_1)

lemma pos_eq: "p = q \<longleftrightarrow> p div 64 = q div 64 \<and> p mod 64 = q mod (64::nat)"
  by (metis div_mod_decomp)

lemma set_free_bit_base [simp]: "r_base (set_free_bit a k r) = r_base r"
  and clear_free_bit_base [simp]: "r_base (clear_free_bit a k r) = r_base r"
  by (simp_all add: set_free_bit_def clear_free_bit_def Let_def)

lemma is_free_bit_set:
  assumes "rbase a = r_base r" "blk a k" "rbase a' = r_base r" "blk a' k'"
  shows "is_free_bit (set_free_bit a k r) a' k' \<longleftrightarrow> (a' = a \<and> k' = k) \<or> is_free_bit r a' k'"
proof -
  let ?p = "bit_pos r a k" and ?q = "bit_pos r a' k'"
  have q: "bit_pos (set_free_bit a k r) a' k' = ?q" by (simp add: bit_pos_def)
  have lt: "?q mod 64 < 64" by simp
  have "is_free_bit (set_free_bit a k r) a' k' \<longleftrightarrow> ?p = ?q \<or> is_free_bit r a' k'"
    unfolding is_free_bit_bit q pos_eq [of ?p ?q]
    using lt by (auto simp: set_free_bit_def Let_def bit_simps)
  also have "?p = ?q \<longleftrightarrow> a' = a \<and> k' = k" using bit_pos_inj [OF assms] by auto
  finally show ?thesis .
qed

lemma is_free_bit_clear:
  assumes "rbase a = r_base r" "blk a k" "rbase a' = r_base r" "blk a' k'"
  shows "is_free_bit (clear_free_bit a k r) a' k' \<longleftrightarrow> \<not> (a' = a \<and> k' = k) \<and> is_free_bit r a' k'"
proof -
  let ?p = "bit_pos r a k" and ?q = "bit_pos r a' k'"
  have q: "bit_pos (clear_free_bit a k r) a' k' = ?q" by (simp add: bit_pos_def)
  have lt: "?q mod 64 < 64" by simp
  have "is_free_bit (clear_free_bit a k r) a' k' \<longleftrightarrow> \<not> ?p = ?q \<and> is_free_bit r a' k'"
    unfolding is_free_bit_bit q pos_eq [of ?p ?q]
    using lt by (auto simp: clear_free_bit_def Let_def bit_simps)
  also have "?p = ?q \<longleftrightarrow> a' = a \<and> k' = k" using bit_pos_inj [OF assms] by auto
  finally show ?thesis .
qed

lemma order_map_slot_eq: "rbase a = base \<Longrightarrow> order_map_slot a base = (unat a - unat base) div 2 ^ 14"
  by (simp add: order_map_slot_def unat_drop_bit_64 unat_region_offset MIN_BLOCK_SHIFT_def MIN_HEADERLESS_ORDER_def)

text \<open>From order 10 on, the slot of a block determines it, and \<open>base + (slot << 14)\<close> is its address.\<close>

lemma slot_of_block:
  assumes "blk a k" and "10 \<le> k" and "rbase a = base" and "region_base_ok base"
  shows "order_map_slot a base < 256" and "unat a = unat base + order_map_slot a base * 2 ^ 14"
    and "base + push_bit (MIN_BLOCK_SHIFT + OOB_MIN_ORDER) (of_nat (order_map_slot a base)) = a"
proof -
  obtain j where j: "unat a = unat (rbase a) + j * 2 ^ (4 + k)" "j < 2 ^ (18 - k)" using blk_offset [OF assms(1)] .
  have k: "k \<le> 16" using assms(1) by (simp add: blk_def)
  have "(2::nat) ^ (4 + k) = 2 ^ (k - 10) * 2 ^ 14" unfolding power_add [symmetric] using assms(2) by simp
  then have s: "order_map_slot a base = j * 2 ^ (k - 10)"
    and u: "unat a = unat base + j * 2 ^ (k - 10) * 2 ^ 14" using j assms(3) by (simp_all add: order_map_slot_eq)
  have "j * 2 ^ (k - 10) < 2 ^ (18 - k) * 2 ^ (k - 10)" using j(2) by simp
  also have "\<dots> = 2 ^ 8" using k assms(2) by (simp add: power_add [symmetric])
  finally show lt: "order_map_slot a base < 256" using s by simp
  show e: "unat a = unat base + order_map_slot a base * 2 ^ 14" using s u by simp
  have "unat (push_bit 14 (of_nat (order_map_slot a base)) :: usize) = order_map_slot a base * 2 ^ 14"
    using lt by (simp add: push_bit_eq_mult unat_word_ariths unat_of_nat)
  then have "unat (base + push_bit 14 (of_nat (order_map_slot a base))) = unat a"
    using e unat_lt_64 [of a] by (subst unat_add_64) simp_all
  then show "base + push_bit (MIN_BLOCK_SHIFT + OOB_MIN_ORDER) (of_nat (order_map_slot a base)) = a"
    by (simp add: MIN_BLOCK_SHIFT_def word_unat_eq_iff)
qed

lemma slot_inj:
  assumes "blk a k" "10 \<le> k" "rbase a = base" "blk a' k'" "10 \<le> k'" "rbase a' = base" "region_base_ok base"
    and "order_map_slot a base = order_map_slot a' base"
  shows "a = a'"
  using slot_of_block(2) [OF assms(1-3,7)] slot_of_block(2) [OF assms(4-6,7)] assms(8) by (simp add: word_unat_eq_iff)

section \<open>Tilings\<close>

text \<open>
  A set of blocks tiles the regions with the given bases: the blocks are valid, lie in the regions, do not overlap
  and leave nothing out.
\<close>

definition tiling :: "usize set \<Rightarrow> (usize \<times> nat) set \<Rightarrow> bool" where
  "tiling B S \<longleftrightarrow>
     (\<forall>(a, k) \<in> S. blk a k \<and> rbase a \<in> B)
     \<and> (\<forall>x \<in> S. \<forall>y \<in> S. x \<noteq> y \<longrightarrow> span (fst x) (snd x) \<inter> span (fst y) (snd y) = {})
     \<and> (\<forall>base \<in> B. rspan base \<subseteq> (\<Union>(a, k) \<in> S. span a k))"

lemma tilingD:
  assumes "tiling B S" and "(a, k) \<in> S"
  shows "blk a k" and "rbase a \<in> B"
    and "(a', k') \<in> S \<Longrightarrow> (a, k) \<noteq> (a', k') \<Longrightarrow> span a k \<inter> span a' k' = {}"
    and "(a, k') \<in> S \<Longrightarrow> k' = k"
proof -
  show "blk a k" and "rbase a \<in> B" using assms unfolding tiling_def by blast+
  show d: "span a k \<inter> span a' k' = {}" if "(a', k') \<in> S" "(a, k) \<noteq> (a', k')" for a' k'
    using assms that unfolding tiling_def by fastforce
  show "k' = k" if "(a, k') \<in> S" using d [OF that] bspan_nonempty [of a k] bspan_nonempty [of a k'] by blast
qed

lemma tiling_refine:
  assumes "tiling B (insert (a, k) S)" and "(a, k) \<notin> S"
    and "blk a1 k1" "blk a2 k2" "rbase a1 = rbase a" "rbase a2 = rbase a"
    and "span a k = span a1 k1 \<union> span a2 k2" and "span a1 k1 \<inter> span a2 k2 = {}"
  shows "tiling B (insert (a1, k1) (insert (a2, k2) S))"
proof -
  have ok: "\<forall>(a, k) \<in> insert (a1, k1) (insert (a2, k2) S). blk a k \<and> rbase a \<in> B"
    using assms(1,3-6) unfolding tiling_def by auto
  have far: "span a k \<inter> span (fst y) (snd y) = {}" if "y \<in> S" for y
    using assms(1,2) that unfolding tiling_def by fastforce
  have old: "span (fst x) (snd x) \<inter> span (fst y) (snd y) = {}" if "x \<in> S" "y \<in> S" "x \<noteq> y" for x y
    using assms(1) that unfolding tiling_def by blast
  have "span (fst x) (snd x) \<inter> span (fst y) (snd y) = {}"
    if "x \<in> insert (a1, k1) (insert (a2, k2) S)" "y \<in> insert (a1, k1) (insert (a2, k2) S)" "x \<noteq> y" for x y
    using that far [of x] far [of y] old [of x y] assms(7,8) by auto
  moreover have "(\<Union>(a, k) \<in> insert (a1, k1) (insert (a2, k2) S). span a k) = (\<Union>(a, k) \<in> insert (a, k) S. span a k)"
    using assms(7) by auto
  ultimately show ?thesis using ok assms(1) unfolding tiling_def by auto
qed

lemma tiling_coarsen:
  assumes "tiling B (insert (a1, k1) (insert (a2, k2) S))" and "(a1, k1) \<notin> S" "(a2, k2) \<notin> S"
    and "blk a k" "rbase a = rbase a1"
    and "span a k = span a1 k1 \<union> span a2 k2" and "span a1 k1 \<inter> span a2 k2 = {}"
  shows "tiling B (insert (a, k) S)"
proof -
  have far: "span a k \<inter> span (fst y) (snd y) = {}" if "y \<in> S" for y
    using assms(1-3,6) that unfolding tiling_def by fastforce
  have old: "span (fst x) (snd x) \<inter> span (fst y) (snd y) = {}" if "x \<in> S" "y \<in> S" "x \<noteq> y" for x y
    using assms(1) that unfolding tiling_def by blast
  have "span (fst x) (snd x) \<inter> span (fst y) (snd y) = {}"
    if "x \<in> insert (a, k) S" "y \<in> insert (a, k) S" "x \<noteq> y" for x y
    using that far [of x] far [of y] old [of x y] by auto
  moreover have "(\<Union>(a, k) \<in> insert (a1, k1) (insert (a2, k2) S). span a k) = (\<Union>(a, k) \<in> insert (a, k) S. span a k)"
    using assms(6) by auto
  ultimately show ?thesis using assms(1,4,5) unfolding tiling_def by auto
qed

end
