(* ===== verification/BuddyTiers.thy ===== *)
theory BuddyTiers
  imports BuddyGeometry
begin

text \<open>
  The tiers in which the buddy allocator keeps its free blocks. \<open>tiers_ok b F\<close> states that the
  tiers of \<open>b\<close> hold exactly the blocks \<open>F k\<close> of each order \<open>k\<close>: below order 10 the pointer cache and the
  intrusive list, from order 10 on the slot lists of the regions, with the regions that have one
  linked into the list of the order. Each operation on a tier is shown to add or remove its block
  and to leave the bitmaps and order maps alone.
\<close>

section \<open>Slot lists\<close>

definition slots_ok :: "region \<Rightarrow> nat \<Rightarrow> u16 list \<Rightarrow> bool" where
  "slots_ok r oi es \<longleftrightarrow>
     dll (\<lambda>e. link_prev r (unat (e - 1))) (\<lambda>e. link_next r (unat (e - 1))) 0 (oob_head r oi) es
     \<and> oob_tail r oi = last_or 0 es \<and> distinct es \<and> (\<forall>e \<in> set es. 1 \<le> unat e \<and> unat e \<le> 256)"

lemma link_simps [simp]:
  "link_prev (set_link_prev s v r) s' = (if s' = s then v else link_prev r s')"
  "link_next (set_link_next s v r) s' = (if s' = s then v else link_next r s')"
  "s < 256 \<Longrightarrow> link_next (set_link_prev s v r) s' = link_next r s'"
  "s' < 256 \<Longrightarrow> link_prev (set_link_next s v r) s' = link_prev r s'"
  by (auto simp: link_prev_def link_next_def set_link_prev_def set_link_next_def ORDER_MAP_SLOTS_256)

lemma link_frame [simp]:
  "oob_head (set_link_prev s v r) = oob_head r" "oob_head (set_link_next s v r) = oob_head r"
  "oob_tail (set_link_prev s v r) = oob_tail r" "oob_tail (set_link_next s v r) = oob_tail r"
  "link_prev (r\<lparr>oob_head := h\<rparr>) = link_prev r" "link_next (r\<lparr>oob_head := h\<rparr>) = link_next r"
  "link_prev (r\<lparr>oob_tail := t\<rparr>) = link_prev r" "link_next (r\<lparr>oob_tail := t\<rparr>) = link_next r"
  by (auto simp: link_prev_def link_next_def set_link_prev_def set_link_next_def fun_eq_iff)

text \<open>Everything of a region but its slot lists.\<close>

definition same_rest :: "region \<Rightarrow> region \<Rightarrow> bool" where
  "same_rest r r' \<longleftrightarrow> r_base r' = r_base r \<and> r_bitmap r' = r_bitmap r \<and> r_order_map r' = r_order_map r
     \<and> rl_prev r' = rl_prev r \<and> rl_next r' = rl_next r \<and> r_mapping r' = r_mapping r
     \<and> r_order_map_at r' = r_order_map_at r"

lemma same_rest_slots:
  "same_rest r (slot_push oi s r)" "same_rest r (slot_push_tail oi s r)" "same_rest r (slot_remove oi s r)"
  by (auto simp: same_rest_def slot_push_def slot_push_tail_def slot_remove_def set_link_prev_def
      set_link_next_def Let_def)

lemma head_other:
  "oi' \<noteq> oi \<Longrightarrow> oob_head (slot_push oi s r) oi' = oob_head r oi'"
  "oi' \<noteq> oi \<Longrightarrow> oob_head (slot_push_tail oi s r) oi' = oob_head r oi'"
  "oi' \<noteq> oi \<Longrightarrow> oob_head (slot_remove oi s r) oi' = oob_head r oi'"
  by (auto simp: slot_push_def slot_push_tail_def slot_remove_def Let_def)

lemma tail_other:
  "oi' \<noteq> oi \<Longrightarrow> oob_tail (slot_push oi s r) oi' = oob_tail r oi'"
  "oi' \<noteq> oi \<Longrightarrow> oob_tail (slot_push_tail oi s r) oi' = oob_tail r oi'"
  "oi' \<noteq> oi \<Longrightarrow> oob_tail (slot_remove oi s r) oi' = oob_tail r oi'"
  by (auto simp: slot_push_def slot_push_tail_def slot_remove_def Let_def)

lemma unat_of_nat_u16: "n \<le> 256 \<Longrightarrow> unat (of_nat n :: u16) = n"
  by (simp add: unat_of_nat)

lemma enc_slot: "s < 256 \<Longrightarrow> unat (of_nat (s + 1) :: u16) = s + 1"
  by (rule unat_of_nat_u16) simp

lemma enc_minus: "e \<noteq> 0 \<Longrightarrow> unat (e - 1 :: u16) = unat e - 1"
  by (simp add: unat_minus_one)

lemma enc_minus_inj: "e \<noteq> 0 \<Longrightarrow> e' \<noteq> 0 \<Longrightarrow> unat (e - 1 :: u16) = unat (e' - 1) \<longleftrightarrow> e = e'"
  by (metis diff_add_cancel word_unat_eq_iff)

lemma enc_nonzero: "s < 256 \<Longrightarrow> (of_nat (s + 1) :: u16) \<noteq> 0"
  using enc_slot [of s] by (metis add_is_0 unat_0 zero_neq_one)

lemma enc_back: "s < 256 \<Longrightarrow> unat ((of_nat (s + 1) :: u16) - 1) = s"
  using enc_minus [OF enc_nonzero] enc_slot by simp

lemma slots_okD:
  assumes "slots_ok r oi es"
  shows "dll (\<lambda>e. link_prev r (unat (e - 1))) (\<lambda>e. link_next r (unat (e - 1))) 0 (oob_head r oi) es"
    and "oob_tail r oi = last_or 0 es" and "distinct es"
    and "e \<in> set es \<Longrightarrow> e \<noteq> 0" and "e \<in> set es \<Longrightarrow> unat (e - 1) < 256"
proof -
  show "dll (\<lambda>e. link_prev r (unat (e - 1))) (\<lambda>e. link_next r (unat (e - 1))) 0 (oob_head r oi) es"
    and "oob_tail r oi = last_or 0 es" and "distinct es"
    using assms by (auto simp: slots_ok_def)
  show nz: "e \<in> set es \<Longrightarrow> e \<noteq> 0" using assms by (auto simp: slots_ok_def)
  show "e \<in> set es \<Longrightarrow> unat (e - 1) < 256" using assms enc_minus [OF nz] by (auto simp: slots_ok_def)
qed

lemma slots_ok_head: "slots_ok r oi es \<Longrightarrow> oob_head r oi = 0 \<longleftrightarrow> es = []"
  by (rule dll_empty_iff [OF slots_okD(1)])

lemma slots_ok_tail: "slots_ok r oi es \<Longrightarrow> oob_tail r oi = 0 \<longleftrightarrow> es = []"
  using last_or_null [OF dll_nonnull [OF slots_okD(1)], of r oi es] slots_okD(2) [of r oi es] by simp

text \<open>Lists of other orders are not touched.\<close>

lemma slots_ok_other:
  assumes "slots_ok r oi' es'" and "oob_head r' oi' = oob_head r oi'" and "oob_tail r' oi' = oob_tail r oi'"
    and "\<And>e. e \<in> set es' \<Longrightarrow> link_prev r' (unat (e - 1)) = link_prev r (unat (e - 1))
      \<and> link_next r' (unat (e - 1)) = link_next r (unat (e - 1))"
  shows "slots_ok r' oi' es'"
  using assms unfolding slots_ok_def by (auto simp: dll_cong [of es' "\<lambda>e. link_prev r' (unat (e - 1))"])

lemma slot_push_ok:
  assumes ok: "slots_ok r oi es" and s: "s < 256" and e: "e = of_nat (s + 1)" and new: "e \<notin> set es"
  shows "slots_ok (slot_push oi s r) oi (e # es)"
    and "oi' \<noteq> oi \<Longrightarrow> slots_ok r oi' es' \<Longrightarrow> e \<notin> set es' \<Longrightarrow> set es \<inter> set es' = {} \<Longrightarrow> slots_ok (slot_push oi s r) oi' es'"
proof -
  let ?h = "oob_head r oi" and ?r = "slot_push oi s r"
  note D = slots_okD [OF ok]
  have en: "e \<noteq> 0" "unat (e - 1) = s" "1 \<le> unat e" "unat e \<le> 256" using enc_slot [OF s] enc_back [OF s] s e by auto
  have h: "?h = 0 \<or> ?h \<in> set es" using dll_head [OF D(1)] dll_empty_iff [OF D(1)] by (cases es) auto
  have hs: "?h \<noteq> 0 \<Longrightarrow> unat (?h - 1) < 256" using h D(5) by blast
  have pv: "link_prev ?r (unat (x - 1)) = (if ?h \<noteq> 0 \<and> x = ?h then e else if x = e then 0 else link_prev r (unat (x - 1)))"
    and nx: "link_next ?r (unat (x - 1)) = (if x = e then ?h else link_next r (unat (x - 1)))"
    if x: "x \<noteq> 0" "unat (x - 1) < 256" for x
    using x en hs s enc_minus_inj [of x e] enc_minus_inj [of x ?h] by (auto simp: slot_push_def Let_def e [symmetric])
  have ne: "e \<noteq> ?h" using h new en by auto
  have "dll (\<lambda>e. link_prev ?r (unat (e - 1))) (\<lambda>e. link_next ?r (unat (e - 1))) 0 e (e # es)"
  proof (rule dll_push [OF D(1) new en(1) D(3)])
    show "link_prev ?r (unat (e - 1)) = 0" "link_next ?r (unat (e - 1)) = ?h"
      using pv [of e] nx [of e] en s ne by auto
    fix y assume y: "y \<in> set es"
    show "link_next ?r (unat (y - 1)) = link_next r (unat (y - 1))
        \<and> link_prev ?r (unat (y - 1)) = (if y = ?h then e else link_prev r (unat (y - 1)))"
      using pv [of y] nx [of y] D(4,5) [OF y] y new by auto
  qed
  moreover have "oob_head ?r oi = e" by (simp add: slot_push_def Let_def e)
  moreover have "oob_tail ?r oi = last_or 0 (e # es)"
    using D(2) slots_ok_head [OF ok] by (auto simp: slot_push_def Let_def e last_or_def)
  ultimately show "slots_ok ?r oi (e # es)" using ok new en unfolding slots_ok_def by auto
  show "slots_ok ?r oi' es'" if "oi' \<noteq> oi" "slots_ok r oi' es'" "e \<notin> set es'" "set es \<inter> set es' = {}"
  proof (rule slots_ok_other [OF that(2)])
    fix y assume y: "y \<in> set es'"
    then have "y \<noteq> e" "?h \<noteq> 0 \<Longrightarrow> y \<noteq> ?h" using that(3,4) h by auto
    then show "link_prev ?r (unat (y - 1)) = link_prev r (unat (y - 1))
        \<and> link_next ?r (unat (y - 1)) = link_next r (unat (y - 1))"
      using pv [of y] nx [of y] slots_okD(4,5) [OF that(2) y] by auto
  qed (use that head_other tail_other in auto)
qed

lemma slot_push_tail_ok:
  assumes ok: "slots_ok r oi es" and s: "s < 256" and e: "e = of_nat (s + 1)" and new: "e \<notin> set es"
  shows "slots_ok (slot_push_tail oi s r) oi (es @ [e])"
    and "oi' \<noteq> oi \<Longrightarrow> slots_ok r oi' es' \<Longrightarrow> e \<notin> set es' \<Longrightarrow> set es \<inter> set es' = {} \<Longrightarrow> slots_ok (slot_push_tail oi s r) oi' es'"
proof -
  let ?t = "oob_tail r oi" and ?r = "slot_push_tail oi s r"
  note D = slots_okD [OF ok]
  have en: "e \<noteq> 0" "unat (e - 1) = s" "1 \<le> unat e" "unat e \<le> 256"
    using enc_slot [OF s] enc_back [OF s] enc_nonzero [OF s] s e by auto
  have t: "?t = 0 \<or> ?t \<in> set es" using D(2) last_or_in [of es 0] by (cases "es = []") auto
  have ts: "?t \<noteq> 0 \<Longrightarrow> unat (?t - 1) < 256" using t D(5) by blast
  have ne: "e \<noteq> ?t" using t new en by auto
  have nx: "link_next ?r (unat (x - 1)) = (if ?t \<noteq> 0 \<and> x = ?t then e else if x = e then 0 else link_next r (unat (x - 1)))"
    and pv: "link_prev ?r (unat (x - 1)) = (if x = e then ?t else link_prev r (unat (x - 1)))"
    if x: "x \<noteq> 0" "unat (x - 1) < 256" for x
    using x en ts s enc_minus_inj [of x e] enc_minus_inj [of x ?t] by (auto simp: slot_push_tail_def Let_def e [symmetric])
  have hd: "oob_head ?r oi = (if es = [] then e else oob_head r oi)"
    using slots_ok_tail [OF ok] by (simp add: slot_push_tail_def Let_def e)
  have "dll (\<lambda>e. link_prev ?r (unat (e - 1))) (\<lambda>e. link_next ?r (unat (e - 1))) 0 (oob_head ?r oi) (es @ [e])"
    unfolding hd
  proof (rule dll_snoc [OF D(1) new en(1) D(3)])
    show "link_prev ?r (unat (e - 1)) = last_or 0 es" "link_next ?r (unat (e - 1)) = 0"
      using pv [of e] nx [of e] en s ne D(2) by auto
    fix y assume y: "y \<in> set es"
    show "link_prev ?r (unat (y - 1)) = link_prev r (unat (y - 1))
        \<and> link_next ?r (unat (y - 1)) = (if y = last_or 0 es then e else link_next r (unat (y - 1)))"
      using pv [of y] nx [of y] D(2) D(4,5) [OF y] y new by auto
  qed
  moreover have "oob_tail ?r oi = last_or 0 (es @ [e])" by (simp add: slot_push_tail_def Let_def e)
  ultimately show "slots_ok ?r oi (es @ [e])" using ok new en unfolding slots_ok_def by auto
  show "slots_ok ?r oi' es'" if "oi' \<noteq> oi" "slots_ok r oi' es'" "e \<notin> set es'" "set es \<inter> set es' = {}"
  proof (rule slots_ok_other [OF that(2)])
    fix y assume y: "y \<in> set es'"
    then have "y \<noteq> e" "?t \<noteq> 0 \<Longrightarrow> y \<noteq> ?t" using that(3,4) t by auto
    then show "link_prev ?r (unat (y - 1)) = link_prev r (unat (y - 1))
        \<and> link_next ?r (unat (y - 1)) = link_next r (unat (y - 1))"
      using pv [of y] nx [of y] slots_okD(4,5) [OF that(2) y] by auto
  qed (use that head_other tail_other in auto)
qed

lemma slot_remove_ok:
  assumes ok: "slots_ok r oi es" and s: "s < 256" and e: "e = of_nat (s + 1)" and mem: "e \<in> set es"
  shows "slots_ok (slot_remove oi s r) oi (remove1 e es)"
    and "oi' \<noteq> oi \<Longrightarrow> slots_ok r oi' es' \<Longrightarrow> set es \<inter> set es' = {} \<Longrightarrow> slots_ok (slot_remove oi s r) oi' es'"
proof -
  let ?r = "slot_remove oi s r" and ?p = "link_prev r s" and ?n = "link_next r s"
  note D = slots_okD [OF ok]
  have en: "e \<noteq> 0" "unat (e - 1) = s"
    using enc_back [OF s] enc_nonzero [OF s] e by auto
  note nb = dll_neighbours [OF D(1) mem D(3), unfolded en(2)]
  have ps: "?p \<noteq> 0 \<Longrightarrow> unat (?p - 1) < 256" and ns: "?n \<noteq> 0 \<Longrightarrow> unat (?n - 1) < 256"
    using nb(1,2) D(5) by blast+
  have pv: "link_prev ?r (unat (x - 1)) = (if ?n \<noteq> 0 \<and> x = ?n then ?p else link_prev r (unat (x - 1)))"
    and nx: "link_next ?r (unat (x - 1)) = (if ?p \<noteq> 0 \<and> x = ?p then ?n else link_next r (unat (x - 1)))"
    if x: "x \<noteq> 0" "unat (x - 1) < 256" for x
    using x ps ns enc_minus_inj [of x ?p] enc_minus_inj [of x ?n] by (auto simp: slot_remove_def Let_def)
  have hd: "oob_head ?r oi = (if ?p = 0 then ?n else oob_head r oi)" by (simp add: slot_remove_def Let_def)
  have tl: "oob_tail ?r oi = (if ?n = 0 then ?p else last_or 0 es)" by (simp add: slot_remove_def Let_def D(2))
  have upd: "link_next ?r (unat (y - 1)) = (if y = ?p then ?n else link_next r (unat (y - 1)))
      \<and> link_prev ?r (unat (y - 1)) = (if y = ?n then ?p else link_prev r (unat (y - 1)))"
    if "y \<in> set es - {e}" for y
    using pv [of y] nx [of y] D(4,5) [of y] that by auto
  note R = dll_remove [OF D(1) mem D(3), where P' = "\<lambda>e. link_prev ?r (unat (e - 1))"
      and N' = "\<lambda>e. link_next ?r (unat (e - 1))", unfolded en(2), OF upd]
  have sub: "set (remove1 e es) \<subseteq> set es" by (rule set_remove1_subset)
  show "slots_ok ?r oi (remove1 e es)"
    using R hd tl ok sub unfolding slots_ok_def by auto
  show "slots_ok ?r oi' es'" if "oi' \<noteq> oi" "slots_ok r oi' es'" "set es \<inter> set es' = {}"
  proof (rule slots_ok_other [OF that(2)])
    fix y assume y: "y \<in> set es'"
    then have "?p \<noteq> 0 \<Longrightarrow> y \<noteq> ?p" "?n \<noteq> 0 \<Longrightarrow> y \<noteq> ?n" using that(3) nb(1,2) by auto
    then show "link_prev ?r (unat (y - 1)) = link_prev r (unat (y - 1))
        \<and> link_next ?r (unat (y - 1)) = link_next r (unat (y - 1))"
      using pv [of y] nx [of y] slots_okD(4,5) [OF that(2) y] by auto
  qed (use that head_other tail_other in auto)
qed

section \<open>Regions\<close>

definition rg :: "buddy \<Rightarrow> usize \<Rightarrow> region option" where
  "rg b base = find (\<lambda>r. r_base r = base) (regions b)"

definition bases_sorted :: "buddy \<Rightarrow> bool" where
  "bases_sorted b \<longleftrightarrow> sorted_wrt (<) (map r_base (regions b))"

definition upd :: "usize \<Rightarrow> (region \<Rightarrow> region) \<Rightarrow> buddy \<Rightarrow> buddy" where
  "upd base f b = b\<lparr>regions := map (\<lambda>r. if r_base r = base then f r else r) (regions b)\<rparr>"

lemma rg_last [simp]: "rg (b\<lparr>last_region := l\<rparr>) = rg b"
  and bases_sorted_last [simp]: "bases_sorted (b\<lparr>last_region := l\<rparr>) = bases_sorted b"
  by (simp_all add: rg_def bases_sorted_def fun_eq_iff)

lemma rg_fields [simp]:
  "rg (b\<lparr>b_mem := x1\<rparr>) = rg b" "rg (b\<lparr>free_lists := x2\<rparr>) = rg b" "rg (b\<lparr>oob_region_heads := x3\<rparr>) = rg b"
  "rg (b\<lparr>oob_len := x4\<rparr>) = rg b" "rg (b\<lparr>oob_pending := x5\<rparr>) = rg b" "rg (b\<lparr>b_cache := x6\<rparr>) = rg b"
  "rg (b\<lparr>b_cache_len := x7\<rparr>) = rg b"
  by (simp_all add: rg_def fun_eq_iff)

lemma bases_sorted_fields [simp]:
  "bases_sorted (b\<lparr>b_mem := x1\<rparr>) = bases_sorted b" "bases_sorted (b\<lparr>free_lists := x2\<rparr>) = bases_sorted b"
  "bases_sorted (b\<lparr>oob_region_heads := x3\<rparr>) = bases_sorted b" "bases_sorted (b\<lparr>oob_len := x4\<rparr>) = bases_sorted b"
  "bases_sorted (b\<lparr>oob_pending := x5\<rparr>) = bases_sorted b" "bases_sorted (b\<lparr>b_cache := x6\<rparr>) = bases_sorted b"
  "bases_sorted (b\<lparr>b_cache_len := x7\<rparr>) = bases_sorted b"
  by (simp_all add: bases_sorted_def)

lemma rg_Some_base: "rg b base = Some r \<Longrightarrow> r_base r = base \<and> r \<in> set (regions b)"
  by (auto simp: rg_def find_Some_iff)

lemma find_map_upd:
  assumes "\<And>r. r_base (f r) = r_base r"
  shows "find (\<lambda>r. r_base r = x) (map (\<lambda>r. if r_base r = base then f r else r) rs)
    = (if x = base then map_option f (find (\<lambda>r. r_base r = x) rs) else find (\<lambda>r. r_base r = x) rs)"
  using assms by (induction rs) auto

lemma rg_upd:
  "(\<And>r. r_base (f r) = r_base r) \<Longrightarrow> rg (upd base f b) x = (if x = base then map_option f (rg b x) else rg b x)"
  by (simp add: rg_def upd_def find_map_upd)

lemma bases_upd: "(\<And>r. r_base (f r) = r_base r) \<Longrightarrow> map r_base (regions (upd base f b)) = map r_base (regions b)"
  by (auto simp: upd_def)

lemma bases_sorted_upd: "(\<And>r. r_base (f r) = r_base r) \<Longrightarrow> bases_sorted (upd base f b) = bases_sorted b"
  by (simp add: bases_sorted_def bases_upd)

lemma upd_fields [simp]:
  "b_mem (upd base f b) = b_mem b" "free_lists (upd base f b) = free_lists b"
  "oob_region_heads (upd base f b) = oob_region_heads b" "oob_len (upd base f b) = oob_len b"
  "oob_pending (upd base f b) = oob_pending b" "b_cache (upd base f b) = b_cache b"
  "b_cache_len (upd base f b) = b_cache_len b" "bitmap_batches (upd base f b) = bitmap_batches b"
  "record_orders (upd base f b) = record_orders b" "last_region (upd base f b) = last_region b"
  by (simp_all add: upd_def)

lemma sorted_base_inj:
  "bases_sorted b \<Longrightarrow> i < length (regions b) \<Longrightarrow> j < length (regions b) \<Longrightarrow>
     r_base (regions b ! i) = r_base (regions b ! j) \<Longrightarrow> i = j"
  unfolding bases_sorted_def sorted_wrt_iff_nth_less by (metis length_map less_irrefl nat_neq_iff nth_map)

lemma rg_nth: "bases_sorted b \<Longrightarrow> i < length (regions b) \<Longrightarrow> rg b (r_base (regions b ! i)) = Some (regions b ! i)"
proof -
  assume b: "bases_sorted b" and i: "i < length (regions b)"
  have "r_base (regions b ! j) \<noteq> r_base (regions b ! i)" if "j < i" for j
    using sorted_base_inj [OF b i, of j] that i by auto
  then show ?thesis unfolding rg_def find_Some_iff using i by (intro exI [of _ i]) simp
qed

lemma region_at_Some: "region_at i b = Some r \<longleftrightarrow> i < length (regions b) \<and> r = regions b ! i"
  by (auto simp: region_at_def)

lemma upd_region_upd:
  assumes "bases_sorted b" and "i < length (regions b)"
  shows "upd_region i f b = Some (upd (r_base (regions b ! i)) f b)"
proof -
  have "(regions b)[i := f (regions b ! i)]
      = map (\<lambda>r. if r_base r = r_base (regions b ! i) then f r else r) (regions b)"
    by (rule nth_equalityI) (use assms sorted_base_inj in \<open>auto simp: nth_list_update\<close>)
  then show ?thesis using assms(2) by (simp add: upd_region_def upd_def)
qed

text \<open>The search for a region finds it, and only moves the last-hit index.\<close>

lemma takeWhile_sorted_find:
  assumes "sorted_wrt (<) (map r_base rs)"
  shows "let i = length (takeWhile (\<lambda>r. r_base r < x) rs)
    in if i < length rs \<and> r_base (rs ! i) = x then find (\<lambda>r. r_base r = x) rs = Some (rs ! i)
       else find (\<lambda>r. r_base r = x) rs = None"
  using assms
proof (induction rs)
  case (Cons r rs)
  have gt: "\<forall>y \<in> set rs. r_base r < r_base y" using Cons.prems by simp
  consider "r_base r < x" | "r_base r = x" | "x < r_base r" by (metis less_linear)
  then show ?case
  proof cases
    case 1
    then show ?thesis using Cons by (auto simp: Let_def)
  next
    case 3
    then have "find (\<lambda>r. r_base r = x) rs = None" using gt by (auto simp: find_None_iff)
    then show ?thesis using 3 by auto
  qed simp
qed (simp add: Let_def)

lemma region_index_of_spec:
  assumes "bases_sorted b" and "region_index_of a b = (res, b')"
  shows "\<exists>l. b' = b\<lparr>last_region := l\<rparr>"
    and "case res of None \<Rightarrow> rg b (rbase a) = None
      | Some i \<Rightarrow> i < length (regions b) \<and> r_base (regions b ! i) = rbase a \<and> rg b (rbase a) = Some (regions b ! i)"
proof -
  note T = takeWhile_sorted_find [OF assms(1) [unfolded bases_sorted_def], of "rbase a", folded rg_def]
  have "b' = b \<or> (\<exists>l. b' = b\<lparr>last_region := l\<rparr>)"
    using assms(2) unfolding region_index_of_def by (auto simp: Let_def split: if_splits)
  moreover have "b = b\<lparr>last_region := last_region b\<rparr>" by simp
  ultimately show "\<exists>l. b' = b\<lparr>last_region := l\<rparr>" by blast
  show "case res of None \<Rightarrow> rg b (rbase a) = None
      | Some i \<Rightarrow> i < length (regions b) \<and> r_base (regions b ! i) = rbase a \<and> rg b (rbase a) = Some (regions b ! i)"
  proof (cases "last_region b < length (regions b) \<and> r_base (regions b ! last_region b) = rbase a")
    case True
    then have "res = Some (last_region b)"
      using assms(2) by (auto simp: region_index_of_def rbase_def [symmetric] Let_def)
    moreover have "rg b (rbase a) = Some (regions b ! last_region b)"
      using rg_nth [OF assms(1), of "last_region b"] True by simp
    ultimately show ?thesis using True by simp
  next
    case False
    then show ?thesis
      using assms(2) T unfolding region_index_of_def rbase_def [symmetric] by (auto simp: Let_def split: if_splits)
  qed
qed

lemma region_index_of_Some:
  assumes "bases_sorted b" and "rg b (rbase a) = Some r"
  obtains i l where "region_index_of a b = (Some i, b\<lparr>last_region := l\<rparr>)"
    and "i < length (regions b)" and "regions b ! i = r" and "r_base r = rbase a"
proof -
  obtain res b' where e: "region_index_of a b = (res, b')" by force
  note S = region_index_of_spec [OF assms(1) e]
  obtain l where l: "b' = b\<lparr>last_region := l\<rparr>" using S(1) by blast
  obtain i where "res = Some i" using S(2) assms(2) by (cases res) auto
  then show ?thesis using that [of i l] S(2) assms(2) e l by simp
qed

section \<open>The lists of regions\<close>

definition rlp :: "buddy \<Rightarrow> nat \<Rightarrow> usize \<Rightarrow> usize" where
  "rlp b oi base = (case rg b base of None \<Rightarrow> 0 | Some r \<Rightarrow> rl_prev r oi)"

definition rln :: "buddy \<Rightarrow> nat \<Rightarrow> usize \<Rightarrow> usize" where
  "rln b oi base = (case rg b base of None \<Rightarrow> 0 | Some r \<Rightarrow> rl_next r oi)"

definition listed :: "buddy \<Rightarrow> nat \<Rightarrow> usize set" where
  "listed b oi = {base. \<exists>r. rg b base = Some r \<and> oob_head r oi \<noteq> 0}"

definition rlist_ok :: "buddy \<Rightarrow> nat \<Rightarrow> usize list \<Rightarrow> bool" where
  "rlist_ok b oi rs \<longleftrightarrow>
     dll (rlp b oi) (rln b oi) 0 (oob_region_heads b oi) rs \<and> distinct rs \<and> (\<forall>x \<in> set rs. rg b x \<noteq> None)"

definition bases_ok :: "buddy \<Rightarrow> bool" where
  "bases_ok b \<longleftrightarrow> bases_sorted b \<and> (\<forall>x. rg b x \<noteq> None \<longrightarrow> region_base_ok x)"

text \<open>What the operations on the out-of-band lists leave alone, and those on the list of regions in particular.\<close>

definition meta_same :: "region \<Rightarrow> region \<Rightarrow> bool" where
  "meta_same r r' \<longleftrightarrow> r_base r' = r_base r \<and> r_bitmap r' = r_bitmap r \<and> r_order_map r' = r_order_map r
     \<and> r_mapping r' = r_mapping r \<and> r_order_map_at r' = r_order_map_at r"

definition slots_same :: "region \<Rightarrow> region \<Rightarrow> bool" where
  "slots_same r r' \<longleftrightarrow> r_links r' = r_links r \<and> oob_head r' = oob_head r \<and> oob_tail r' = oob_tail r"

definition frame :: "buddy \<Rightarrow> buddy \<Rightarrow> bool" where
  "frame b b' \<longleftrightarrow> (\<forall>x. rel_option meta_same (rg b x) (rg b' x)) \<and> map r_base (regions b') = map r_base (regions b)
     \<and> bitmap_batches b' = bitmap_batches b \<and> record_orders b' = record_orders b"

definition low_same :: "buddy \<Rightarrow> buddy \<Rightarrow> bool" where
  "low_same b b' \<longleftrightarrow> b_mem b' = b_mem b \<and> free_lists b' = free_lists b \<and> b_cache b' = b_cache b
     \<and> b_cache_len b' = b_cache_len b"

lemma meta_same_refl [simp]: "meta_same r r"
  and slots_same_refl [simp]: "slots_same r r"
  by (auto simp: meta_same_def slots_same_def)

lemma meta_same_trans: "meta_same r r' \<Longrightarrow> meta_same r' r'' \<Longrightarrow> meta_same r r''"
  by (auto simp: meta_same_def)

lemma frame_refl [simp]: "frame b b"
  by (auto simp: frame_def rel_option_iff split: option.splits)

lemma low_same_refl [simp]: "low_same b b"
  and low_same_trans: "low_same b b' \<Longrightarrow> low_same b' b'' \<Longrightarrow> low_same b b''"
  by (auto simp: low_same_def)

lemma frame_rg: "frame b b' \<Longrightarrow> rg b x = Some r \<Longrightarrow> \<exists>r'. rg b' x = Some r' \<and> meta_same r r'"
  unfolding frame_def by (metis option.rel_cases option.distinct(1) option.inject)

lemma frame_rg_back: "frame b b' \<Longrightarrow> rg b' x = Some r' \<Longrightarrow> \<exists>r. rg b x = Some r \<and> meta_same r r'"
  unfolding frame_def by (metis option.rel_cases option.distinct(1) option.inject)

lemma frame_trans [trans]:
  assumes "frame b b'" and "frame b' b''" shows "frame b b''"
proof -
  have "rel_option meta_same (rg b x) (rg b'' x)" for x
  proof (cases "rg b x")
    case None
    then have "rg b' x = None" using assms(1) by (metis frame_rg_back option.exhaust option.distinct(1))
    then have "rg b'' x = None" using assms(2) by (metis frame_rg_back option.exhaust option.distinct(1))
    then show ?thesis using None by simp
  next
    case (Some r)
    then show ?thesis using frame_rg [OF assms(1) Some] frame_rg [OF assms(2)] meta_same_trans by fastforce
  qed
  then show ?thesis using assms unfolding frame_def by simp
qed

lemma frame_None: "frame b b' \<Longrightarrow> rg b' x = None \<longleftrightarrow> rg b x = None"
  using frame_rg frame_rg_back by (metis option.exhaust option.distinct(1))

lemma frame_bases_ok: "frame b b' \<Longrightarrow> bases_ok b' \<longleftrightarrow> bases_ok b"
  unfolding bases_ok_def using frame_None [of b b'] by (simp add: frame_def bases_sorted_def)

lemma frame_upd:
  assumes "\<And>r. meta_same r (f r)" shows "frame b (upd base f b)"
proof -
  have "r_base (f r) = r_base r" for r using assms [of r] by (simp add: meta_same_def)
  then show ?thesis using assms
    by (auto simp: frame_def rg_upd bases_upd rel_option_iff split: option.splits)
qed

lemma frame_last [simp]: "frame b (b'\<lparr>last_region := l\<rparr>) \<longleftrightarrow> frame b b'"
  and low_same_last [simp]: "low_same b (b'\<lparr>last_region := l\<rparr>) \<longleftrightarrow> low_same b b'"
  and frame_len [simp]: "frame b (b'\<lparr>oob_len := m\<rparr>) \<longleftrightarrow> frame b b'"
  and low_same_len [simp]: "low_same b (b'\<lparr>oob_len := m\<rparr>) \<longleftrightarrow> low_same b b'"
  and frame_heads [simp]: "frame b (b'\<lparr>oob_region_heads := h\<rparr>) \<longleftrightarrow> frame b b'"
  and low_same_heads [simp]: "low_same b (b'\<lparr>oob_region_heads := h\<rparr>) \<longleftrightarrow> low_same b b'"
  and low_same_upd [simp]: "low_same b (upd base f b') \<longleftrightarrow> low_same b b'"
  by (simp_all add: frame_def low_same_def)

lemma rl_fields [simp]:
  "rlp (b\<lparr>last_region := l\<rparr>) = rlp b" "rln (b\<lparr>last_region := l\<rparr>) = rln b" "listed (b\<lparr>last_region := l\<rparr>) = listed b"
  "rlp (b\<lparr>oob_len := m\<rparr>) = rlp b" "rln (b\<lparr>oob_len := m\<rparr>) = rln b" "listed (b\<lparr>oob_len := m\<rparr>) = listed b"
  "rlp (b\<lparr>oob_region_heads := h\<rparr>) = rlp b" "rln (b\<lparr>oob_region_heads := h\<rparr>) = rln b"
  "listed (b\<lparr>oob_region_heads := h\<rparr>) = listed b"
  by (auto simp: rlp_def rln_def listed_def fun_eq_iff)

lemma rlist_ok_last [simp]: "rlist_ok (b\<lparr>last_region := l\<rparr>) oi rs = rlist_ok b oi rs"
  and rlist_ok_len [simp]: "rlist_ok (b\<lparr>oob_len := m\<rparr>) oi rs = rlist_ok b oi rs"
  by (auto simp: rlist_ok_def)

text \<open>The operations with the searches resolved.\<close>

definition link_abs :: "usize \<Rightarrow> nat \<Rightarrow> buddy \<Rightarrow> buddy" where
  "link_abs base oi b =
     (let h = oob_region_heads b oi;
          b1 = upd base (\<lambda>r. r\<lparr>rl_prev := (rl_prev r)(oi := 0), rl_next := (rl_next r)(oi := h)\<rparr>) b;
          b2 = (if h \<noteq> 0 then upd h (\<lambda>r. r\<lparr>rl_prev := (rl_prev r)(oi := base)\<rparr>) b1 else b1)
      in b2\<lparr>oob_region_heads := (oob_region_heads b)(oi := base)\<rparr>)"

definition unlink_abs :: "usize \<Rightarrow> nat \<Rightarrow> buddy \<Rightarrow> buddy" where
  "unlink_abs base oi b =
     (let p = rlp b oi base; n = rln b oi base;
          b1 = (if p = 0 then b\<lparr>oob_region_heads := (oob_region_heads b)(oi := n)\<rparr>
                else upd p (\<lambda>r. r\<lparr>rl_next := (rl_next r)(oi := n)\<rparr>) b)
      in if n \<noteq> 0 then upd n (\<lambda>r. r\<lparr>rl_prev := (rl_prev r)(oi := p)\<rparr>) b1 else b1)"

lemma expect_region_base:
  assumes "bases_ok b" and "rg b x \<noteq> None"
  obtains i l where "expect_region x b = Some (i, b\<lparr>last_region := l\<rparr>)" and "i < length (regions b)"
    and "r_base (regions b ! i) = x"
proof -
  have x: "rbase x = x" using assms by (auto simp: bases_ok_def region_base_ok_def intro: rbase_base)
  obtain r where "rg b (rbase x) = Some r" using assms(2) x by auto
  then obtain i l where "region_index_of x b = (Some i, b\<lparr>last_region := l\<rparr>)" "i < length (regions b)"
      "regions b ! i = r" "r_base r = rbase x"
    using region_index_of_Some [of b x r] assms(1) unfolding bases_ok_def by metis
  then show ?thesis using that [of i l] x by (simp add: expect_region_def)
qed

lemma upd_last: "upd base f (b\<lparr>last_region := l\<rparr>) = (upd base f b)\<lparr>last_region := l\<rparr>"
  by (simp add: upd_def)

lemma rl_meta [simp]:
  "meta_same r (r\<lparr>rl_prev := p\<rparr>)" "meta_same r (r\<lparr>rl_next := n\<rparr>)" "meta_same r (r\<lparr>rl_prev := p, rl_next := n\<rparr>)"
  by (simp_all add: meta_same_def)

lemma last_id: "last_region b = l \<Longrightarrow> b\<lparr>last_region := l\<rparr> = b"
  by auto

lemma rlist_ok_head: "rlist_ok b oi rs \<Longrightarrow> oob_region_heads b oi = (case rs of [] \<Rightarrow> 0 | x # _ \<Rightarrow> x)"
  unfolding rlist_ok_def dll_def using dseg_head by metis

lemma region_list_link_abs:
  assumes ok: "bases_ok b" and i: "i < length (regions b)" and rs: "rlist_ok b oi rs"
  shows "\<exists>l. region_list_link i oi b = Some ((link_abs (r_base (regions b ! i)) oi b)\<lparr>last_region := l\<rparr>)"
proof -
  let ?base = "r_base (regions b ! i)" and ?h = "oob_region_heads b oi"
  let ?b1 = "upd ?base (\<lambda>r. r\<lparr>rl_prev := (rl_prev r)(oi := 0), rl_next := (rl_next r)(oi := ?h)\<rparr>) b"
  have so: "bases_sorted b" using ok by (simp add: bases_ok_def)
  have f1: "frame b ?b1" by (rule frame_upd) simp
  have ok1: "bases_ok ?b1" using frame_bases_ok [OF f1] ok by simp
  have unf: "region_list_link i oi b =
      Option.bind (if ?h \<noteq> 0 then Option.bind (expect_region ?h ?b1)
          (\<lambda>(hidx, b). upd_region hidx (\<lambda>r. r\<lparr>rl_prev := (rl_prev r)(oi := ?base)\<rparr>) b) else Some ?b1)
        (\<lambda>b. Some (b\<lparr>oob_region_heads := (oob_region_heads b)(oi := ?base)\<rparr>))"
    using i by (simp only: region_list_link_def region_at_def if_True Option.bind.simps Let_def upd_region_upd [OF so i])
  show ?thesis
  proof (cases "?h = 0")
    case True
    have "region_list_link i oi b = Some (link_abs ?base oi b)"
      unfolding unf link_abs_def Let_def using True by simp
    then show ?thesis by (intro exI [of _ "last_region (link_abs ?base oi b)"]) (simp only: last_id)
  next
    case False
    then have "rg b ?h \<noteq> None" using rs rlist_ok_head [OF rs] by (cases rs) (auto simp: rlist_ok_def)
    then have "rg ?b1 ?h \<noteq> None" using frame_None [OF f1] by simp
    then obtain j l where j: "expect_region ?h ?b1 = Some (j, ?b1\<lparr>last_region := l\<rparr>)" "j < length (regions ?b1)"
      "r_base (regions ?b1 ! j) = ?h" using expect_region_base [OF ok1] by blast
    have so1: "bases_sorted (?b1\<lparr>last_region := l\<rparr>)" using ok1 by (simp add: bases_ok_def)
    have u: "upd_region j f (?b1\<lparr>last_region := l\<rparr>) = Some ((upd ?h f ?b1)\<lparr>last_region := l\<rparr>)" for f
      using upd_region_upd [OF so1, of j f] j(2,3) by (simp add: upd_last)
    have "region_list_link i oi b = Some ((link_abs ?base oi b)\<lparr>last_region := l\<rparr>)"
      unfolding unf link_abs_def Let_def using False j(1) u by simp
    then show ?thesis by blast
  qed
qed

lemma region_list_unlink_abs:
  assumes ok: "bases_ok b" and i: "i < length (regions b)" and rs: "rlist_ok b oi rs"
    and mem: "r_base (regions b ! i) \<in> set rs"
  shows "\<exists>l. region_list_unlink i oi b = Some ((unlink_abs (r_base (regions b ! i)) oi b)\<lparr>last_region := l\<rparr>)"
proof -
  let ?base = "r_base (regions b ! i)" and ?p = "rlp b oi (r_base (regions b ! i))" and ?n = "rln b oi (r_base (regions b ! i))"
  have so: "bases_sorted b" using ok by (simp add: bases_ok_def)
  have rgb: "rg b ?base = Some (regions b ! i)" by (rule rg_nth [OF so i])
  have pn: "?p = rl_prev (regions b ! i) oi" "?n = rl_next (regions b ! i) oi" by (simp_all add: rlp_def rln_def rgb)
  have D: "dll (rlp b oi) (rln b oi) 0 (oob_region_heads b oi) rs" "distinct rs" using rs by (auto simp: rlist_ok_def)
  note nb = dll_neighbours [OF D(1) mem D(2)]
  have ex: "\<exists>l. Option.bind (expect_region x b') (\<lambda>(j, b). upd_region j f b) = Some ((upd x f b')\<lparr>last_region := l\<rparr>)"
    if x: "rg b' x \<noteq> None" and okb: "bases_ok b'" for x f b'
  proof -
    obtain j l where j: "expect_region x b' = Some (j, b'\<lparr>last_region := l\<rparr>)" "j < length (regions b')"
      "r_base (regions b' ! j) = x" using expect_region_base [OF okb x] by blast
    have "bases_sorted (b'\<lparr>last_region := l\<rparr>)" using okb by (simp add: bases_ok_def)
    from upd_region_upd [OF this, of j f] j show ?thesis by (intro exI [of _ l]) (simp add: upd_last)
  qed
  define b1 where "b1 = (if ?p = 0 then b\<lparr>oob_region_heads := (oob_region_heads b)(oi := ?n)\<rparr>
      else upd ?p (\<lambda>r. r\<lparr>rl_next := (rl_next r)(oi := ?n)\<rparr>) b)"
  have f1: "frame b b1" using frame_upd [of "\<lambda>r. r\<lparr>rl_next := (rl_next r)(oi := ?n)\<rparr>" b ?p] by (simp add: b1_def)
  have "\<exists>l. (if ?p = 0 then Some (b\<lparr>oob_region_heads := (oob_region_heads b)(oi := ?n)\<rparr>)
      else Option.bind (expect_region ?p b) (\<lambda>(j, b). upd_region j (\<lambda>r. r\<lparr>rl_next := (rl_next r)(oi := ?n)\<rparr>) b))
    = Some (b1\<lparr>last_region := l\<rparr>)"
  proof (cases "?p = 0")
    case True
    then show ?thesis unfolding b1_def by (intro exI [of _ "last_region b"]) simp
  next
    case False
    then have "rg b ?p \<noteq> None" using nb(1) rs by (auto simp: rlist_ok_def)
    then show ?thesis unfolding b1_def using ex [OF _ ok, of ?p] False by simp
  qed
  then obtain l1 where l1: "(if ?p = 0 then Some (b\<lparr>oob_region_heads := (oob_region_heads b)(oi := ?n)\<rparr>)
      else Option.bind (expect_region ?p b) (\<lambda>(j, b). upd_region j (\<lambda>r. r\<lparr>rl_next := (rl_next r)(oi := ?n)\<rparr>) b))
    = Some (b1\<lparr>last_region := l1\<rparr>)" by blast
  have ok1: "bases_ok (b1\<lparr>last_region := l1\<rparr>)" using frame_bases_ok [OF f1] ok by (simp add: bases_ok_def)
  have unf: "region_list_unlink i oi b =
      (if ?n \<noteq> 0 then Option.bind (expect_region ?n (b1\<lparr>last_region := l1\<rparr>))
          (\<lambda>(j, b). upd_region j (\<lambda>r. r\<lparr>rl_prev := (rl_prev r)(oi := ?p)\<rparr>) b) else Some (b1\<lparr>last_region := l1\<rparr>))"
    by (simp only: region_list_unlink_def region_at_def i if_True Option.bind.simps Let_def pn [symmetric] l1)
  show ?thesis
  proof (cases "?n = 0")
    case True
    then show ?thesis unfolding unf unlink_abs_def Let_def b1_def by auto
  next
    case False
    then have "rg b ?n \<noteq> None" using nb(2) rs by (auto simp: rlist_ok_def)
    then have "rg (b1\<lparr>last_region := l1\<rparr>) ?n \<noteq> None" using frame_None [OF f1] by simp
    from ex [OF this ok1, of "\<lambda>r. r\<lparr>rl_prev := (rl_prev r)(oi := ?p)\<rparr>"]
    show ?thesis unfolding unf unlink_abs_def Let_def b1_def [symmetric] using False by (auto simp: upd_last)
  qed
qed

definition slots_frame :: "buddy \<Rightarrow> buddy \<Rightarrow> bool" where
  "slots_frame b b' \<longleftrightarrow> (\<forall>x. rel_option slots_same (rg b x) (rg b' x))"

lemma slots_frame_refl [simp]: "slots_frame b b"
  by (auto simp: slots_frame_def rel_option_iff split: option.splits)

lemma slots_same_trans: "slots_same r r' \<Longrightarrow> slots_same r' r'' \<Longrightarrow> slots_same r r''"
  by (auto simp: slots_same_def)

lemma slots_frame_upd:
  assumes "slots_frame b b'" and "\<And>r. slots_same r (f r)" and "\<And>r. r_base (f r) = r_base r"
  shows "slots_frame b (upd base f b')"
proof -
  have "rel_option slots_same (rg b x) (rg (upd base f b') x)" for x
    using assms(1) slots_same_trans [OF _ assms(2)]
    by (cases "rg b x"; cases "rg b' x") (auto simp: slots_frame_def rg_upd [OF assms(3)] dest: spec [of _ x])
  then show ?thesis by (simp add: slots_frame_def)
qed

lemma slots_frame_fields [simp]:
  "slots_frame b (b'\<lparr>last_region := l\<rparr>) = slots_frame b b'"
  "slots_frame b (b'\<lparr>oob_region_heads := h\<rparr>) = slots_frame b b'"
  by (simp_all add: slots_frame_def)

lemma rl_slots_same [simp]:
  "slots_same r (r\<lparr>rl_prev := p\<rparr>)" "slots_same r (r\<lparr>rl_next := n\<rparr>)" "slots_same r (r\<lparr>rl_prev := p, rl_next := n\<rparr>)"
  by (simp_all add: slots_same_def)

lemma slots_frame_listed: "slots_frame b b' \<Longrightarrow> listed b' oi = listed b oi"
proof -
  assume f: "slots_frame b b'"
  have "x \<in> listed b' oi \<longleftrightarrow> x \<in> listed b oi" for x
    using f unfolding slots_frame_def listed_def slots_same_def
    by (cases "rg b x"; cases "rg b' x") (auto dest: spec [of _ x])
  then show ?thesis by blast
qed

lemma slots_same_ok: "slots_same r r' \<Longrightarrow> slots_ok r' oi es = slots_ok r oi es"
  by (simp add: slots_same_def slots_ok_def link_prev_def link_next_def)

lemma rl_upd:
  assumes "\<And>r. r_base (f r) = r_base r"
  shows "rlp (upd x f b) oi y = (if y = x then (case rg b x of None \<Rightarrow> 0 | Some r \<Rightarrow> rl_prev (f r) oi) else rlp b oi y)"
    and "rln (upd x f b) oi y = (if y = x then (case rg b x of None \<Rightarrow> 0 | Some r \<Rightarrow> rl_next (f r) oi) else rln b oi y)"
  by (auto simp: rlp_def rln_def rg_upd [OF assms] split: option.splits)

lemma link_abs_frames:
  "frame b (link_abs base oi b)" "low_same b (link_abs base oi b)" "slots_frame b (link_abs base oi b)"
proof -
  have f: "frame b' (upd x (\<lambda>r. r\<lparr>rl_prev := p r, rl_next := n r\<rparr>) b')"
    "frame b' (upd x (\<lambda>r. r\<lparr>rl_prev := p r\<rparr>) b')" for b' x p n
    by (rule frame_upd, simp)+
  show "frame b (link_abs base oi b)" using f(1) frame_trans [OF f(1) f(2)] by (simp add: link_abs_def Let_def)
  show "low_same b (link_abs base oi b)" by (simp add: link_abs_def Let_def)
  show "slots_frame b (link_abs base oi b)" by (simp add: link_abs_def Let_def slots_frame_upd)
qed

lemma unlink_abs_frames:
  "frame b (unlink_abs base oi b)" "low_same b (unlink_abs base oi b)" "slots_frame b (unlink_abs base oi b)"
proof -
  have f: "frame b' (upd x (\<lambda>r. r\<lparr>rl_next := n r\<rparr>) b')"
    "frame b' (upd x (\<lambda>r. r\<lparr>rl_prev := p r\<rparr>) b')" for b' x p n
    by (rule frame_upd, simp)+
  have g: "frame b (b\<lparr>oob_region_heads := h\<rparr>)" for h by simp
  show "frame b (unlink_abs base oi b)"
    using f(1) frame_trans [OF f(1) f(2)] frame_trans [OF g f(2)] by (simp add: unlink_abs_def Let_def)
  show "low_same b (unlink_abs base oi b)" by (simp add: unlink_abs_def Let_def)
  show "slots_frame b (unlink_abs base oi b)" by (simp add: unlink_abs_def Let_def slots_frame_upd)
qed

lemma link_abs_ok:
  assumes rs: "rlist_ok b oi rs" and base: "rg b base \<noteq> None" "base \<noteq> 0" "base \<notin> set rs"
  shows "rlist_ok (link_abs base oi b) oi (base # rs)"
    and "oi' \<noteq> oi \<Longrightarrow> rlist_ok b oi' rs' \<Longrightarrow> rlist_ok (link_abs base oi b) oi' rs'"
proof -
  let ?b = "link_abs base oi b" and ?h = "oob_region_heads b oi"
  have D: "dll (rlp b oi) (rln b oi) 0 ?h rs" "distinct rs" "\<forall>x \<in> set rs. rg b x \<noteq> None"
    using rs by (auto simp: rlist_ok_def)
  have h: "?h = 0 \<or> ?h \<in> set rs" using rlist_ok_head [OF rs] by (cases rs) auto
  obtain r where r: "rg b base = Some r" using base(1) by auto
  have hr: "\<exists>r. rg b ?h = Some r" if "?h \<noteq> 0" using h D(3) that by auto
  have P: "rlp ?b oi y = (if ?h \<noteq> 0 \<and> y = ?h then base else if y = base then 0 else rlp b oi y)" for y
    using h base(3) hr r by (auto simp: link_abs_def Let_def rl_upd rg_upd split: option.splits)
  have N: "rln ?b oi y = (if y = base then ?h else rln b oi y)" for y
    using h base(3) hr r by (auto simp: link_abs_def Let_def rl_upd rg_upd rln_def split: option.splits)
  have O: "rlp ?b oi' y = rlp b oi' y \<and> rln ?b oi' y = rln b oi' y" if "oi' \<noteq> oi" for oi' y
    using that by (auto simp: link_abs_def Let_def rl_upd rg_upd rlp_def rln_def split: option.splits)
  have hd: "oob_region_heads ?b = (oob_region_heads b)(oi := base)" by (simp add: link_abs_def Let_def)
  have "dll (rlp ?b oi) (rln ?b oi) 0 base (base # rs)"
    by (rule dll_push [OF D(1) base(3,2) D(2)]) (use P N base(3) h dll_nonnull [OF D(1)] in auto)
  then show "rlist_ok ?b oi (base # rs)"
    using D base hd frame_None [OF link_abs_frames(1)] by (auto simp: rlist_ok_def)
  show "rlist_ok ?b oi' rs'" if "oi' \<noteq> oi" "rlist_ok b oi' rs'"
    using that O hd frame_None [OF link_abs_frames(1)] unfolding rlist_ok_def
    by (auto simp: dll_cong [of rs' "rlp ?b oi'" "rlp b oi'" "rln ?b oi'" "rln b oi'"])
qed

lemma unlink_abs_ok:
  assumes rs: "rlist_ok b oi rs" and base: "base \<in> set rs"
  shows "rlist_ok (unlink_abs base oi b) oi (remove1 base rs)"
    and "oi' \<noteq> oi \<Longrightarrow> rlist_ok b oi' rs' \<Longrightarrow> rlist_ok (unlink_abs base oi b) oi' rs'"
proof -
  let ?b = "unlink_abs base oi b" and ?p = "rlp b oi base" and ?n = "rln b oi base"
  have D: "dll (rlp b oi) (rln b oi) 0 (oob_region_heads b oi) rs" "distinct rs" "\<forall>x \<in> set rs. rg b x \<noteq> None"
    using rs by (auto simp: rlist_ok_def)
  note nb = dll_neighbours [OF D(1) base D(2)]
  have pr: "\<exists>r. rg b ?p = Some r" if "?p \<noteq> 0" using nb(1) D(3) that by auto
  have nr: "\<exists>r. rg b ?n = Some r" if "?n \<noteq> 0" using nb(2) D(3) that by auto
  have P: "rlp ?b oi y = (if ?n \<noteq> 0 \<and> y = ?n then ?p else rlp b oi y)" for y
    using nr by (auto simp: unlink_abs_def Let_def rl_upd rg_upd rlp_def split: option.splits)
  have N: "rln ?b oi y = (if ?p \<noteq> 0 \<and> y = ?p then ?n else rln b oi y)" for y
    using pr by (auto simp: unlink_abs_def Let_def rl_upd rg_upd rln_def split: option.splits)
  have O: "rlp ?b oi' y = rlp b oi' y \<and> rln ?b oi' y = rln b oi' y" if "oi' \<noteq> oi" for oi' y
    using that by (auto simp: unlink_abs_def Let_def rl_upd rg_upd rlp_def rln_def split: option.splits)
  have hd: "oob_region_heads ?b oi = (if ?p = 0 then ?n else oob_region_heads b oi)"
    "oi' \<noteq> oi \<Longrightarrow> oob_region_heads ?b oi' = oob_region_heads b oi'" for oi'
    by (auto simp: unlink_abs_def Let_def)
  have nz: "y \<in> set rs \<Longrightarrow> y \<noteq> 0" for y using dll_nonnull [OF D(1)] by auto
  have "dll (rlp ?b oi) (rln ?b oi) 0 (if ?p = 0 then ?n else oob_region_heads b oi) (remove1 base rs)"
    by (rule dll_remove(1) [OF D(1) base D(2)]) (use P N nz in auto)
  then show "rlist_ok ?b oi (remove1 base rs)"
    using D hd frame_None [OF unlink_abs_frames(1)] notin_set_remove1 unfolding rlist_ok_def
    by (auto dest: notin_set_remove1)
  show "rlist_ok ?b oi' rs'" if "oi' \<noteq> oi" "rlist_ok b oi' rs'"
    using that O hd frame_None [OF unlink_abs_frames(1)] unfolding rlist_ok_def
    by (auto simp: dll_cong [of rs' "rlp ?b oi'" "rlp b oi'" "rln ?b oi'" "rln b oi'"])
qed

section \<open>The tiers\<close>

definition enc :: "usize \<Rightarrow> usize \<Rightarrow> u16" where "enc base a = of_nat (order_map_slot a base + 1)"

definition row :: "buddy \<Rightarrow> nat \<Rightarrow> usize list" where
  "row b k = map (b_cache b k) [0..<unat (b_cache_len b k)]"

definition low_ok :: "buddy \<Rightarrow> nat \<Rightarrow> usize set \<Rightarrow> bool" where
  "low_ok b k A \<longleftrightarrow>
     (\<exists>xs. dll (\<lambda>a. fn_prev (b_mem b a)) (\<lambda>a. fn_next (b_mem b a)) 0 (free_lists b k) xs
        \<and> distinct (row b k @ xs) \<and> set (row b k @ xs) = A) \<and> unat (b_cache_len b k) \<le> ORDER_CACHE"

definition high_slots :: "buddy \<Rightarrow> (nat \<Rightarrow> usize set) \<Rightarrow> bool" where
  "high_slots b F \<longleftrightarrow>
     (\<forall>(k::nat) base r. 10 \<le> k \<longrightarrow> k \<le> 16 \<longrightarrow> rg b base = Some r \<longrightarrow>
        (\<exists>es. slots_ok r (k - 10) es \<and> set es = enc base ` {a \<in> F k. rbase a = base}))"

definition high_lists :: "buddy \<Rightarrow> bool" where
  "high_lists b \<longleftrightarrow> (\<forall>oi < 7. \<exists>rs. rlist_ok b oi rs \<and> set rs = listed b oi)"

definition high_idle :: "buddy \<Rightarrow> bool" where
  "high_idle b \<longleftrightarrow> (\<forall>k. 10 \<le> k \<longrightarrow> k \<le> 16 \<longrightarrow> b_cache_len b k = 0 \<and> free_lists b k = 0)"

definition free_ok :: "buddy \<Rightarrow> (nat \<Rightarrow> usize set) \<Rightarrow> bool" where
  "free_ok b F \<longleftrightarrow> bases_ok b \<and> (\<forall>k. \<forall>a \<in> F k. blk a k \<and> rg b (rbase a) \<noteq> None)
     \<and> (\<forall>k k'. k \<noteq> k' \<longrightarrow> F k \<inter> F k' = {})"

definition tiers_ok :: "buddy \<Rightarrow> (nat \<Rightarrow> usize set) \<Rightarrow> bool" where
  "tiers_ok b F \<longleftrightarrow> free_ok b F \<and> (\<forall>k < 10. low_ok b k (F k)) \<and> high_idle b \<and> high_slots b F \<and> high_lists b"

lemma enc_inj:
  assumes "blk a k" "10 \<le> k" "rbase a = base" "blk a' k'" "10 \<le> k'" "rbase a' = base" "region_base_ok base"
    and "enc base a = enc base a'"
  shows "a = a'"
proof -
  have lt: "order_map_slot a base < 256" "order_map_slot a' base < 256"
    using slot_of_block(1) [OF assms(1-3,7)] slot_of_block(1) [OF assms(4-7)] .
  have u: "unat (enc base a) = order_map_slot a base + 1" "unat (enc base a') = order_map_slot a' base + 1"
    unfolding enc_def by (rule enc_slot, rule lt)+
  have "order_map_slot a base = order_map_slot a' base" by (rule add_right_imp_eq [of _ 1]) (simp only: u [symmetric] assms(8))
  then show ?thesis by (rule slot_inj [OF assms(1-7)])
qed

lemma tiers_ok_last [simp]: "tiers_ok (b\<lparr>last_region := l\<rparr>) F = tiers_ok b F"
  by (simp add: tiers_ok_def free_ok_def bases_ok_def low_ok_def row_def high_idle_def high_slots_def high_lists_def)

lemma low_same_ok: "low_same b b' \<Longrightarrow> low_ok b' k A = low_ok b k A"
  by (simp add: low_same_def low_ok_def row_def)

lemma low_same_idle: "low_same b b' \<Longrightarrow> high_idle b' = high_idle b"
  by (simp add: low_same_def high_idle_def)

lemma frame_free_ok: "frame b b' \<Longrightarrow> free_ok b' F = free_ok b F"
  using frame_bases_ok [of b b'] frame_None [of b b'] by (simp add: free_ok_def)

lemma slots_frame_slots:
  assumes "slots_frame b b'" and "high_slots b F" shows "high_slots b' F"
  unfolding high_slots_def
proof (intro allI impI)
  fix k :: nat and base r' assume k: "10 \<le> k" "k \<le> 16" and r': "rg b' base = Some r'"
  then obtain r where r: "rg b base = Some r" "slots_same r r'"
    using assms(1) unfolding slots_frame_def by (metis option.rel_cases option.distinct(1) option.inject)
  then show "\<exists>es. slots_ok r' (k - 10) es \<and> set es = enc base ` {a \<in> F k. rbase a = base}"
    using assms(2) k unfolding high_slots_def by (simp add: slots_same_ok)
qed

lemma tiers_okD:
  assumes "tiers_ok b F"
  shows "bases_ok b" and "bases_sorted b" and "a \<in> F k \<Longrightarrow> blk a k" and "a \<in> F k \<Longrightarrow> rg b (rbase a) \<noteq> None"
    and "k \<noteq> k' \<Longrightarrow> a \<in> F k \<Longrightarrow> a \<notin> F k'" and "rg b x \<noteq> None \<Longrightarrow> region_base_ok x"
  using assms unfolding tiers_ok_def free_ok_def bases_ok_def by blast+

text \<open>Updating the slot lists of one region.\<close>

lemma high_slots_upd:
  assumes hs: "high_slots b F" and r: "rg b base = Some r" and f: "\<And>r. r_base (f r) = r_base r"
    and here: "\<And>k::nat. 10 \<le> k \<Longrightarrow> k \<le> 16 \<Longrightarrow> \<exists>es. slots_ok (f r) (k - 10) es \<and> set es = enc base ` {a \<in> F' k. rbase a = base}"
    and far: "\<And>k a. rbase a \<noteq> base \<Longrightarrow> a \<in> F' k \<longleftrightarrow> a \<in> F k"
  shows "high_slots (upd base f b) F'"
  unfolding high_slots_def
proof (intro allI impI)
  fix k :: nat and x r' assume k: "10 \<le> k" "k \<le> 16" and r': "rg (upd base f b) x = Some r'"
  show "\<exists>es. slots_ok r' (k - 10) es \<and> set es = enc x ` {a \<in> F' k. rbase a = x}"
  proof (cases "x = base")
    case True
    then show ?thesis using here [OF k] r r' by (simp add: rg_upd [OF f])
  next
    case False
    then have "rg b x = Some r'" using r' by (simp add: rg_upd [OF f])
    then obtain es where "slots_ok r' (k - 10) es" "set es = enc x ` {a \<in> F k. rbase a = x}"
      using hs k unfolding high_slots_def by blast
    moreover have "{a \<in> F' k. rbase a = x} = {a \<in> F k. rbase a = x}" using far False by blast
    ultimately show ?thesis by auto
  qed
qed

lemma rl_upd_same:
  assumes "\<And>r. same_rest r (f r)"
  shows "rlp (upd x f b) = rlp b" and "rln (upd x f b) = rln b" and "frame b (upd x f b)"
proof -
  have f: "r_base (f r) = r_base r" "rl_prev (f r) = rl_prev r" "rl_next (f r) = rl_next r" "meta_same r (f r)" for r
    using assms [of r] by (simp_all add: same_rest_def meta_same_def)
  show "rlp (upd x f b) = rlp b" and "rln (upd x f b) = rln b"
    by (auto simp: fun_eq_iff rl_upd f rg_upd [OF f(1)] rlp_def rln_def split: option.splits)
  show "frame b (upd x f b)" by (rule frame_upd) (rule f(4))
qed

text \<open>
  Adding a block at either end of the slot list of its region and order: what \<open>oob_push\<close> and
  \<open>oob_push_tail\<close> share.
\<close>

lemma oob_insert:
  assumes ok: "tiers_ok b F" and a: "blk a k" "10 \<le> k" "\<forall>j. a \<notin> F j"
    and i: "i < length (regions b)" "r_base (regions b ! i) = rbase a"
    and rest: "\<And>r. same_rest r (f r)"
    and here: "\<And>r es. slots_ok r (k - 10) es \<Longrightarrow> enc (rbase a) a \<notin> set es \<Longrightarrow>
        \<exists>es'. slots_ok (f r) (k - 10) es' \<and> set es' = insert (enc (rbase a) a) (set es)"
    and there: "\<And>r es oi es'. slots_ok r (k - 10) es \<Longrightarrow> enc (rbase a) a \<notin> set es \<Longrightarrow> oi \<noteq> k - 10 \<Longrightarrow>
        slots_ok r oi es' \<Longrightarrow> enc (rbase a) a \<notin> set es' \<Longrightarrow> set es \<inter> set es' = {} \<Longrightarrow> slots_ok (f r) oi es'"
    and h: "(h :: u16) = 0 \<longleftrightarrow> oob_head (regions b ! i) (k - 10) = 0"
    and heads: "\<And>r oi. oi \<noteq> k - 10 \<Longrightarrow> oob_head (f r) oi = oob_head r oi"
  shows "\<exists>b'. Option.bind (upd_region i f b) (\<lambda>b. let b = b\<lparr>oob_len := m b\<rparr>
      in if h = 0 then region_list_link i (k - 10) b else Some b) = Some b'
    \<and> tiers_ok b' (F(k := insert a (F k))) \<and> frame b b' \<and> low_same b b'"
proof -
  let ?base = "rbase a" and ?oi = "k - 10" and ?F = "F(k := insert a (F k))" and ?r = "regions b ! i"
  let ?b1 = "upd ?base f b" let ?b2 = "?b1\<lparr>oob_len := m ?b1\<rparr>"
  note D = tiers_okD [OF ok]
  have rgb: "rg b ?base = Some ?r" using rg_nth [OF D(2) i(1)] i(2) by simp
  have bok: "region_base_ok ?base" using D(6) [of ?base] rgb by simp
  have k16: "k \<le> 16" using a(1) by (simp add: blk_def)
  have base: "r_base (f r) = r_base r" for r using rest [of r] by (simp add: same_rest_def)
  note RS = rl_upd_same [of f, OF rest]
  have hs: "high_slots b F" and hl: "high_lists b" and fr: "free_ok b F" using ok by (auto simp: tiers_ok_def)
  obtain es where es: "slots_ok ?r ?oi es" "set es = enc ?base ` {x \<in> F k. rbase x = ?base}"
    using hs rgb a(2) k16 unfolding high_slots_def by blast
  have new: "enc ?base a \<notin> enc ?base ` {x \<in> F j. rbase x = ?base}" if "10 \<le> j" for j
  proof
    assume "enc ?base a \<in> enc ?base ` {x \<in> F j. rbase x = ?base}"
    then obtain x where x: "x \<in> F j" "rbase x = ?base" "enc ?base a = enc ?base x" by auto
    have "a = x" by (rule enc_inj [OF a(1,2) refl D(3) [OF x(1)] that x(2) bok x(3)])
    then show False using a(3) x(1) by blast
  qed
  then have e: "enc ?base a \<notin> set es" using es(2) a(2) by simp
  obtain es' where es': "slots_ok (f ?r) ?oi es'" "set es' = insert (enc ?base a) (set es)" using here [OF es(1) e] by blast
  have slots: "high_slots ?b1 ?F"
  proof (rule high_slots_upd [OF hs rgb base])
    fix j :: nat assume j: "10 \<le> j" "j \<le> 16"
    show "\<exists>es. slots_ok (f ?r) (j - 10) es \<and> set es = enc ?base ` {x \<in> ?F j. rbase x = ?base}"
    proof (cases "j = k")
      case True
      have "{x \<in> insert a (F k). rbase x = ?base} = insert a {x \<in> F k. rbase x = ?base}" by auto
      then show ?thesis using es' es(2) True by (intro exI [of _ es']) simp
    next
      case False
      obtain fs where fs: "slots_ok ?r (j - 10) fs" "set fs = enc ?base ` {x \<in> F j. rbase x = ?base}"
        using hs rgb j unfolding high_slots_def by blast
      have "set es \<inter> set fs = {}"
      proof (rule ccontr)
        assume "set es \<inter> set fs \<noteq> {}"
        then obtain x y where xy: "x \<in> F k" "rbase x = ?base" "y \<in> F j" "rbase y = ?base" "enc ?base x = enc ?base y"
          using es(2) fs(2) by auto
        have "x = y" by (rule enc_inj [OF D(3) [OF xy(1)] a(2) xy(2) D(3) [OF xy(3)] j(1) xy(4) bok xy(5)])
        then show False using D(5) False xy by blast
      qed
      moreover have "j - 10 \<noteq> ?oi" using False a(2) j(1) by simp
      ultimately have "slots_ok (f ?r) (j - 10) fs"
        using there [OF es(1) e _ fs(1)] new [OF j(1)] fs(2) by simp
      then show ?thesis using fs(2) False by auto
    qed
  qed auto
  have head': "oob_head (f ?r) ?oi \<noteq> 0" using slots_ok_head [OF es'(1)] es'(2) by auto
  have li: "listed ?b1 oi = (if oi = ?oi then insert ?base (listed b oi) else listed b oi)" for oi
    using head' heads rgb by (auto simp: listed_def rg_upd [OF base] split: if_splits)
  have rlo: "rlist_ok ?b1 oi rs = rlist_ok b oi rs" for oi rs
    using frame_None [OF RS(3)] by (simp add: rlist_ok_def RS(1,2))
  have bases1: "bases_ok ?b2" using frame_bases_ok [of b ?b2] RS(3) D(1) by simp
  have i2: "i < length (regions ?b2)" "r_base (regions ?b2 ! i) = ?base"
    using i(1) i(2) by (simp_all add: upd_def base)
  have u: "upd_region i f b = Some ?b1" using upd_region_upd [OF D(2) i(1)] i(2) by simp
  have free: "free_ok b' ?F" if "frame b b'" for b'
    using fr a rgb frame_free_ok [OF that, of ?F] by (auto simp: free_ok_def)
  have fin: "tiers_ok b' ?F" if "frame b b'" "low_same b b'" "high_slots b' ?F" "high_lists b'" for b'
    using ok that free [OF that(1)] low_same_ok [OF that(2)] low_same_idle [OF that(2)] a(2) by (auto simp: tiers_ok_def)
  show ?thesis
  proof (cases "oob_head ?r ?oi = 0")
    case False
    then have "listed ?b1 oi = listed b oi" for oi using li rgb by (auto simp: listed_def)
    then have "high_lists ?b2" using hl by (simp add: high_lists_def rlo)
    moreover have "high_slots ?b2 ?F" using slots by (simp add: high_slots_def)
    ultimately show ?thesis using u h False RS(3) by (intro exI [of _ ?b2]) (simp add: fin)
  next
    case True
    have oi7: "?oi < 7" using a(2) k16 by linarith
    obtain rs where rs: "rlist_ok b ?oi rs" "set rs = listed b ?oi" using hl oi7 unfolding high_lists_def by blast
    have nin: "?base \<notin> set rs" using rs(2) True rgb by (simp add: listed_def)
    have rs2: "rlist_ok ?b2 ?oi rs" using rs(1) rlo by simp
    obtain l where l: "region_list_link i ?oi ?b2 = Some ((link_abs ?base ?oi ?b2)\<lparr>last_region := l\<rparr>)"
      using region_list_link_abs [OF bases1 i2(1) rs2] i2(2) by auto
    let ?b3 = "link_abs ?base ?oi ?b2"
    note LF = link_abs_frames [of ?b2 ?base ?oi]
    have rg2: "rg ?b2 ?base \<noteq> None" using rgb by (simp add: rg_upd [OF base])
    have nz: "?base \<noteq> 0" using bok by (simp add: region_base_ok_def)
    note LO = link_abs_ok [OF rs2 rg2 nz nin]
    have lists: "high_lists ?b3" unfolding high_lists_def
    proof (intro allI impI)
      fix oi :: nat assume oi: "oi < 7"
      show "\<exists>rs. rlist_ok ?b3 oi rs \<and> set rs = listed ?b3 oi"
      proof (cases "oi = ?oi")
        case True
        then show ?thesis using LO(1) rs(2) li slots_frame_listed [OF LF(3)] by (intro exI [of _ "?base # rs"]) simp
      next
        case False
        obtain rs' where "rlist_ok b oi rs'" "set rs' = listed b oi" using hl oi unfolding high_lists_def by blast
        then show ?thesis using LO(2) [OF False] rlo li False slots_frame_listed [OF LF(3)] by (intro exI [of _ rs']) simp
      qed
    qed
    have slots2: "high_slots ?b2 ?F" using slots by (simp add: high_slots_def)
    have f2: "frame b ?b2" using RS(3) by simp
    have "frame b ?b3" "low_same b ?b3"
      using frame_trans [OF f2 LF(1)] low_same_trans [of b ?b2 ?b3] LF(2) by simp_all
    then have "tiers_ok ?b3 ?F" using fin lists slots_frame_slots [OF LF(3) slots2] by blast
    then show ?thesis using u h True l \<open>frame b ?b3\<close> \<open>low_same b ?b3\<close>
      by (intro exI [of _ "?b3\<lparr>last_region := l\<rparr>"]) simp
  qed
qed

lemma enc_new_slot:
  assumes "blk a k" and "10 \<le> k" and "region_base_ok (rbase a)"
  shows "order_map_slot a (rbase a) < 256" and "enc (rbase a) a = of_nat (order_map_slot a (rbase a) + 1)"
  using slot_of_block(1) [OF assms(1,2) refl assms(3)] by (simp_all add: enc_def)

lemma oob_push_ok:
  assumes ok: "tiers_ok b F" and a: "blk a k" "10 \<le> k" "\<forall>j. a \<notin> F j"
    and i: "i < length (regions b)" "r_base (regions b ! i) = rbase a"
  shows "\<exists>b'. oob_push a k i b = Some b' \<and> tiers_ok b' (F(k := insert a (F k))) \<and> frame b b' \<and> low_same b b'"
    and "\<exists>b'. oob_push_tail a k i b = Some b' \<and> tiers_ok b' (F(k := insert a (F k))) \<and> frame b b' \<and> low_same b b'"
proof -
  let ?slot = "order_map_slot a (rbase a)" and ?oi = "k - 10" and ?r = "regions b ! i"
  note D = tiers_okD [OF ok]
  have rgb: "rg b (rbase a) = Some ?r" using rg_nth [OF D(2) i(1)] i(2) by simp
  have bok: "region_base_ok (rbase a)" using D(6) [of "rbase a"] rgb by simp
  note E = enc_new_slot [OF a(1,2) bok]
  have k16: "k \<le> 16" using a(1) by (simp add: blk_def)
  obtain es where es: "slots_ok ?r ?oi es" using ok rgb a(2) k16 unfolding tiers_ok_def high_slots_def by blast
  have "oob_push a k i b = Option.bind (upd_region i (slot_push ?oi ?slot) b) (\<lambda>b.
      let b = b\<lparr>oob_len := (oob_len b)(?oi := oob_len b ?oi + 1)\<rparr>
      in if oob_head ?r ?oi = 0 then region_list_link i ?oi b else Some b)"
    using i by (simp add: oob_push_def region_at_def Let_def)
  then show "\<exists>b'. oob_push a k i b = Some b' \<and> tiers_ok b' (F(k := insert a (F k))) \<and> frame b b' \<and> low_same b b'"
    using oob_insert [OF ok a i, of "slot_push ?oi ?slot" "oob_head ?r ?oi" "\<lambda>b. (oob_len b)(?oi := oob_len b ?oi + 1)"]
      same_rest_slots(1) slot_push_ok(1) [OF _ E] slot_push_ok(2) [OF _ E] head_other(1)
    by (fastforce intro!: exI [of _ "_ # _"])
  have "oob_push_tail a k i b = Option.bind (upd_region i (slot_push_tail ?oi ?slot) b) (\<lambda>b.
      let b = b\<lparr>oob_len := (oob_len b)(?oi := oob_len b ?oi + 1)\<rparr>
      in if oob_tail ?r ?oi = 0 then region_list_link i ?oi b else Some b)"
    using i by (simp add: oob_push_tail_def region_at_def Let_def)
  moreover have "oob_tail ?r ?oi = 0 \<longleftrightarrow> oob_head ?r ?oi = 0" using slots_ok_head [OF es] slots_ok_tail [OF es] by simp
  ultimately show "\<exists>b'. oob_push_tail a k i b = Some b' \<and> tiers_ok b' (F(k := insert a (F k))) \<and> frame b b' \<and> low_same b b'"
    using oob_insert [OF ok a i, of "slot_push_tail ?oi ?slot" "oob_tail ?r ?oi" "\<lambda>b. (oob_len b)(?oi := oob_len b ?oi + 1)"]
      same_rest_slots(2) slot_push_tail_ok(1) [OF _ E] slot_push_tail_ok(2) [OF _ E] head_other(2)
    by (fastforce intro!: exI [of _ "_ @ [_]"])
qed

lemma free_ok_mono: "free_ok b F \<Longrightarrow> (\<And>k. F' k \<subseteq> F k) \<Longrightarrow> free_ok b F'"
  unfolding free_ok_def by (meson disjoint_iff subsetD)

lemma oob_remove_ok:
  assumes ok: "tiers_ok b F" and a: "a \<in> F k" "10 \<le> k"
    and i: "i < length (regions b)" "r_base (regions b ! i) = rbase a"
  shows "\<exists>b'. oob_remove a k i b = Some b' \<and> tiers_ok b' (F(k := F k - {a})) \<and> frame b b' \<and> low_same b b'"
proof -
  let ?base = "rbase a" and ?oi = "k - 10" and ?F = "F(k := F k - {a})" and ?r = "regions b ! i"
  let ?slot = "order_map_slot a (rbase a)"
  let ?f = "slot_remove ?oi ?slot"
  let ?b1 = "upd ?base ?f b" let ?b2 = "?b1\<lparr>oob_len := (oob_len ?b1)(?oi := oob_len ?b1 ?oi - 1)\<rparr>"
  note D = tiers_okD [OF ok]
  have rgb: "rg b ?base = Some ?r" using rg_nth [OF D(2) i(1)] i(2) by simp
  have bok: "region_base_ok ?base" using D(6) [of ?base] rgb by simp
  have ba: "blk a k" using D(3) [OF a(1)] .
  have k16: "k \<le> 16" using ba by (simp add: blk_def)
  note E = enc_new_slot [OF ba a(2) bok]
  have base: "r_base (?f r) = r_base r" for r using same_rest_slots(3) [of r] by (simp add: same_rest_def)
  note RS = rl_upd_same [of ?f, OF same_rest_slots(3)]
  have hs: "high_slots b F" and hl: "high_lists b" and fr: "free_ok b F" using ok by (auto simp: tiers_ok_def)
  obtain es where es: "slots_ok ?r ?oi es" "set es = enc ?base ` {x \<in> F k. rbase x = ?base}"
    using hs rgb a(2) k16 unfolding high_slots_def by blast
  have e: "enc ?base a \<in> set es" using es(2) a(1) by auto
  note SR = slot_remove_ok [OF es(1) E e]
  have setr: "set (remove1 (enc ?base a) es) = enc ?base ` {x \<in> F k - {a}. rbase x = ?base}"
  proof -
    have "enc ?base x = enc ?base a \<longleftrightarrow> x = a" if "x \<in> F k" "rbase x = ?base" for x
      using enc_inj [OF D(3) [OF that(1)] a(2) that(2) ba a(2) refl bok] by auto
    then show ?thesis using slots_okD(3) [OF es(1)] es(2) by (auto simp: set_remove1_eq)
  qed
  have slots: "high_slots ?b1 ?F"
  proof (rule high_slots_upd [OF hs rgb base])
    fix j :: nat assume j: "10 \<le> j" "j \<le> 16"
    show "\<exists>es. slots_ok (?f ?r) (j - 10) es \<and> set es = enc ?base ` {x \<in> ?F j. rbase x = ?base}"
    proof (cases "j = k")
      case True
      then show ?thesis using SR(1) setr by (intro exI [of _ "remove1 (enc ?base a) es"]) simp
    next
      case False
      obtain fs where fs: "slots_ok ?r (j - 10) fs" "set fs = enc ?base ` {x \<in> F j. rbase x = ?base}"
        using hs rgb j unfolding high_slots_def by blast
      have "set es \<inter> set fs = {}"
      proof (rule ccontr)
        assume "set es \<inter> set fs \<noteq> {}"
        then obtain x y where xy: "x \<in> F k" "rbase x = ?base" "y \<in> F j" "rbase y = ?base" "enc ?base x = enc ?base y"
          using es(2) fs(2) by auto
        have "x = y" by (rule enc_inj [OF D(3) [OF xy(1)] a(2) xy(2) D(3) [OF xy(3)] j(1) xy(4) bok xy(5)])
        then show False using D(5) False xy by blast
      qed
      moreover have "j - 10 \<noteq> ?oi" using False a(2) j(1) by simp
      ultimately have "slots_ok (?f ?r) (j - 10) fs" using SR(2) fs(1) by blast
      then show ?thesis using fs(2) False by auto
    qed
  qed auto
  let ?empty = "oob_head (?f ?r) ?oi = 0"
  have li: "listed ?b1 oi = (if oi = ?oi \<and> ?empty then listed b oi - {?base} else listed b oi)" for oi
  proof -
    have "oob_head ?r ?oi \<noteq> 0" using slots_ok_head [OF es(1)] e by auto
    then show ?thesis using head_other(3) [of oi ?oi ?slot ?r] rgb
      by (cases "oi = ?oi") (auto simp: listed_def rg_upd [OF base] split: if_splits)
  qed
  have rlo: "rlist_ok ?b1 oi rs = rlist_ok b oi rs" for oi rs
    using frame_None [OF RS(3)] by (simp add: rlist_ok_def RS(1,2))
  have bases1: "bases_ok ?b2" using frame_bases_ok [of b ?b2] RS(3) D(1) by simp
  have i2: "i < length (regions ?b2)" "r_base (regions ?b2 ! i) = ?base" "regions ?b1 ! i = ?f ?r"
    using i(1) i(2) by (simp_all add: upd_def base)
  have u: "upd_region i ?f b = Some ?b1" using upd_region_upd [OF D(2) i(1)] i(2) by simp
  have unf: "oob_remove a k i b = (if ?empty then region_list_unlink i ?oi ?b2 else Some ?b2)"
    using i i2 u by (simp add: oob_remove_def region_at_def Let_def)
  have free: "free_ok b' ?F" if "frame b b'" for b'
    unfolding frame_free_ok [OF that] by (rule free_ok_mono [OF fr]) auto
  have fin: "tiers_ok b' ?F" if "frame b b'" "low_same b b'" "high_slots b' ?F" "high_lists b'" for b'
    using ok that free [OF that(1)] low_same_ok [OF that(2)] low_same_idle [OF that(2)] a(2) by (auto simp: tiers_ok_def)
  show ?thesis
  proof (cases ?empty)
    case False
    then have "high_lists ?b2" using hl li by (simp add: high_lists_def rlo)
    moreover have "high_slots ?b2 ?F" using slots by (simp add: high_slots_def)
    ultimately show ?thesis using unf False RS(3) by (intro exI [of _ ?b2]) (simp add: fin)
  next
    case True
    have oi7: "?oi < 7" using a(2) k16 by linarith
    obtain rs where rs: "rlist_ok b ?oi rs" "set rs = listed b ?oi" using hl oi7 unfolding high_lists_def by blast
    have mem: "?base \<in> set rs" using rs(2) rgb slots_ok_head [OF es(1)] e by (auto simp: listed_def)
    have rs2: "rlist_ok ?b2 ?oi rs" using rs(1) rlo by simp
    obtain l where l: "region_list_unlink i ?oi ?b2 = Some ((unlink_abs ?base ?oi ?b2)\<lparr>last_region := l\<rparr>)"
      using region_list_unlink_abs [OF bases1 i2(1) rs2] i2(2) mem by auto
    let ?b3 = "unlink_abs ?base ?oi ?b2"
    note LF = unlink_abs_frames [of ?b2 ?base ?oi]
    note LO = unlink_abs_ok [OF rs2 mem]
    have lists: "high_lists ?b3" unfolding high_lists_def
    proof (intro allI impI)
      fix oi :: nat assume oi: "oi < 7"
      show "\<exists>rs. rlist_ok ?b3 oi rs \<and> set rs = listed ?b3 oi"
      proof (cases "oi = ?oi")
        case True
        have "distinct rs" using rs(1) by (simp add: rlist_ok_def)
        then have "set (remove1 ?base rs) = listed ?b1 ?oi" using li rs(2) \<open>?empty\<close> by (simp add: set_remove1_eq)
        then show ?thesis using LO(1) True slots_frame_listed [OF LF(3)] by (intro exI [of _ "remove1 ?base rs"]) simp
      next
        case False
        obtain rs' where "rlist_ok b oi rs'" "set rs' = listed b oi" using hl oi unfolding high_lists_def by blast
        then show ?thesis using LO(2) [OF False] rlo li False slots_frame_listed [OF LF(3)] by (intro exI [of _ rs']) simp
      qed
    qed
    have slots2: "high_slots ?b2 ?F" using slots by (simp add: high_slots_def)
    have f2: "frame b ?b2" using RS(3) by simp
    have "frame b ?b3" "low_same b ?b3"
      using frame_trans [OF f2 LF(1)] low_same_trans [of b ?b2 ?b3] LF(2) by simp_all
    then have "tiers_ok ?b3 ?F" using fin lists slots_frame_slots [OF LF(3) slots2] by blast
    then show ?thesis using unf True l \<open>frame b ?b3\<close> \<open>low_same b ?b3\<close>
      by (intro exI [of _ "?b3\<lparr>last_region := l\<rparr>"]) simp
  qed
qed

lemma oob_heads_iff:
  assumes ok: "tiers_ok b F" and k: "10 \<le> k" "k \<le> 16"
  shows "oob_region_heads b (k - 10) = 0 \<longleftrightarrow> F k = {}"
proof -
  have hl: "high_lists b" and hs: "high_slots b F" using ok by (auto simp: tiers_ok_def)
  have "k - 10 < 7" using k by linarith
  then obtain rs where rs: "rlist_ok b (k - 10) rs" "set rs = listed b (k - 10)" using hl unfolding high_lists_def by blast
  have "oob_region_heads b (k - 10) = 0 \<longleftrightarrow> rs = []"
    using rs(1) dll_empty_iff unfolding rlist_ok_def by metis
  also have "\<dots> \<longleftrightarrow> listed b (k - 10) = {}" using rs(2) by auto
  also have "\<dots> \<longleftrightarrow> F k = {}"
  proof
    assume l: "listed b (k - 10) = {}"
    show "F k = {}"
    proof (rule ccontr)
      assume "F k \<noteq> {}"
      then obtain a where a: "a \<in> F k" by auto
      then obtain r where r: "rg b (rbase a) = Some r" using tiers_okD(4) [OF ok a] by auto
      then obtain es where es: "slots_ok r (k - 10) es" "set es = enc (rbase a) ` {x \<in> F k. rbase x = rbase a}"
        using hs k unfolding high_slots_def by blast
      then have "es \<noteq> []" using a by auto
      then have "rbase a \<in> listed b (k - 10)" using r slots_ok_head [OF es(1)] by (auto simp: listed_def)
      then show False using l by simp
    qed
  next
    assume f: "F k = {}"
    have "x \<notin> listed b (k - 10)" for x
    proof
      assume "x \<in> listed b (k - 10)"
      then obtain r where r: "rg b x = Some r" "oob_head r (k - 10) \<noteq> 0" by (auto simp: listed_def)
      then obtain es where "slots_ok r (k - 10) es" "set es = enc x ` {y \<in> F k. rbase y = x}"
        using hs k unfolding high_slots_def by blast
      then show False using f r(2) slots_ok_head [of r "k - 10" es] by simp
    qed
    then show "listed b (k - 10) = {}" by blast
  qed
  finally show ?thesis .
qed

lemma oob_pop_ok:
  assumes ok: "tiers_ok b F" and k: "10 \<le> k" "k \<le> 16"
  shows "if F k = {} then oob_pop k b = Some (None, b)
    else \<exists>a b'. oob_pop k b = Some (Some a, b') \<and> a \<in> F k \<and> tiers_ok b' (F(k := F k - {a})) \<and> frame b b' \<and> low_same b b'"
proof (cases "F k = {}")
  case True
  then show ?thesis using oob_heads_iff [OF ok k] by (simp add: oob_pop_def Let_def)
next
  case False
  let ?h = "oob_region_heads b (k - 10)"
  have hl: "high_lists b" and hs: "high_slots b F" using ok by (auto simp: tiers_ok_def)
  have h0: "?h \<noteq> 0" using oob_heads_iff [OF ok k] False by simp
  have "k - 10 < 7" using k by linarith
  then obtain rs where rs: "rlist_ok b (k - 10) rs" "set rs = listed b (k - 10)" using hl unfolding high_lists_def by blast
  have "?h \<in> listed b (k - 10)" using rlist_ok_head [OF rs(1)] h0 rs(2) by (cases rs) auto
  then obtain r where r: "rg b ?h = Some r" "oob_head r (k - 10) \<noteq> 0" by (auto simp: listed_def)
  note D = tiers_okD [OF ok]
  have bok: "region_base_ok ?h" using D(6) r(1) by simp
  obtain es where es: "slots_ok r (k - 10) es" "set es = enc ?h ` {x \<in> F k. rbase x = ?h}"
    using hs k r(1) unfolding high_slots_def by blast
  have "oob_head r (k - 10) \<in> set es"
    using dll_head [OF slots_okD(1) [OF es(1)]] slots_ok_head [OF es(1)] r(2) by auto
  then obtain a where a: "a \<in> F k" "rbase a = ?h" "oob_head r (k - 10) = enc ?h a" using es(2) by auto
  note S = slot_of_block [OF D(3) [OF a(1)] k(1) a(2) bok]
  have slot: "unat (oob_head r (k - 10) - 1) = order_map_slot a ?h"
    unfolding a(3) enc_def by (rule enc_back [OF S(1)])
  have ptr: "?h + push_bit (MIN_BLOCK_SHIFT + OOB_MIN_ORDER) (of_nat (unat (oob_head r (k - 10) - 1))) = a"
    unfolding slot by (rule S(3))
  obtain i l where i: "expect_region ?h b = Some (i, b\<lparr>last_region := l\<rparr>)" "i < length (regions b)"
    "r_base (regions b ! i) = ?h" using expect_region_base [OF D(1), of ?h] r(1) by auto
  have ri: "regions b ! i = r" using rg_nth [OF D(2) i(2)] i(3) r(1) by simp
  let ?b = "b\<lparr>last_region := l\<rparr>"
  obtain b' where b': "oob_remove a k i ?b = Some b'" "tiers_ok b' (F(k := F k - {a}))" "frame ?b b'" "low_same ?b b'"
    using oob_remove_ok [of ?b F a k i] ok a(1,2) k(1) i(2,3) by auto
  have fb: "frame b ?b" "low_same b ?b" by simp_all
  have "oob_pop k b = Some (Some a, b')"
    using h0 i ri ptr b'(1) by (simp add: oob_pop_def Let_def region_at_def)
  then show ?thesis using False a(1) b' frame_trans [OF fb(1)] low_same_trans [OF fb(2)] by auto
qed

section \<open>The tiers below order 10\<close>

lemma low_okE:
  assumes "low_ok b k A"
  obtains xs where "dll (\<lambda>a. fn_prev (b_mem b a)) (\<lambda>a. fn_next (b_mem b a)) 0 (free_lists b k) xs"
    and "distinct (row b k @ xs)" and "set (row b k @ xs) = A" and "unat (b_cache_len b k) \<le> ORDER_CACHE"
  using assms unfolding low_ok_def by blast

lemma low_update:
  assumes ok: "tiers_ok b F" and k: "k < 10"
    and same: "regions b' = regions b" "oob_region_heads b' = oob_region_heads b"
      "\<And>j. j \<noteq> k \<Longrightarrow> b_cache b' j = b_cache b j \<and> b_cache_len b' j = b_cache_len b j \<and> free_lists b' j = free_lists b j"
    and mem: "\<And>j x. j < 10 \<Longrightarrow> j \<noteq> k \<Longrightarrow> x \<in> F j \<Longrightarrow> b_mem b' x = b_mem b x"
    and here: "low_ok b' k A" and free: "free_ok b (F(k := A))"
  shows "tiers_ok b' (F(k := A))"
proof -
  have rg': "rg b' = rg b" using same(1) by (simp add: rg_def fun_eq_iff)
  have bs: "bases_sorted b' = bases_sorted b" using same(1) by (simp add: bases_sorted_def)
  have rl: "rlp b' = rlp b" "rln b' = rln b" "listed b' = listed b"
    by (simp_all add: fun_eq_iff rlp_def rln_def listed_def rg')
  have "low_ok b' j (F j)" if j: "j < 10" "j \<noteq> k" for j
  proof -
    have "low_ok b j (F j)" using ok j by (simp add: tiers_ok_def)
    then obtain xs where xs: "dll (\<lambda>a. fn_prev (b_mem b a)) (\<lambda>a. fn_next (b_mem b a)) 0 (free_lists b j) xs"
      "distinct (row b j @ xs)" "set (row b j @ xs) = F j" "unat (b_cache_len b j) \<le> ORDER_CACHE" by (rule low_okE)
    have "b_mem b' x = b_mem b x" if "x \<in> set xs" for x using mem [OF j, of x] that xs(3) by auto
    then have "dll (\<lambda>a. fn_prev (b_mem b' a)) (\<lambda>a. fn_next (b_mem b' a)) 0 (free_lists b j) xs"
      using xs(1) by (subst dll_cong [of xs _ "\<lambda>a. fn_prev (b_mem b a)" _ "\<lambda>a. fn_next (b_mem b a)"]) simp_all
    then show ?thesis using xs same(3) [OF j(2)] unfolding low_ok_def by (auto simp: row_def)
  qed
  moreover have "high_idle b'" using ok same(3) k by (auto simp: tiers_ok_def high_idle_def)
  moreover have "high_slots b' (F(k := A))" using ok k by (auto simp: tiers_ok_def high_slots_def rg')
  moreover have "high_lists b'" using ok by (simp add: tiers_ok_def high_lists_def rlist_ok_def rl same(2) rg')
  moreover have "free_ok b' (F(k := A))" using free by (simp add: free_ok_def bases_ok_def rg' bs)
  ultimately show ?thesis using here by (simp add: tiers_ok_def)
qed

lemma free_ok_insert:
  assumes "free_ok b F" and "blk a k" and "rg b (rbase a) \<noteq> None" and "\<forall>j. a \<notin> F j"
  shows "free_ok b (F(k := insert a (F k)))"
  using assms unfolding free_ok_def by auto

lemma frame_regions: "regions b' = regions b \<Longrightarrow> bitmap_batches b' = bitmap_batches b \<Longrightarrow>
    record_orders b' = record_orders b \<Longrightarrow> frame b b'"
  by (auto simp: frame_def rg_def rel_option_iff split: option.splits)

lemma unat_u8_Suc: "unat (n :: u8) < 32 \<Longrightarrow> unat (n + 1) = Suc (unat n)"
  by (simp add: unat_word_ariths)

lemma row_push:
  assumes "unat (b_cache_len b k) < ORDER_CACHE"
  shows "row (b\<lparr>b_cache := (b_cache b)(k := (b_cache b k)(unat (b_cache_len b k) := a)),
      b_cache_len := (b_cache_len b)(k := b_cache_len b k + 1)\<rparr>) k = row b k @ [a]"
  using assms unat_u8_Suc [of "b_cache_len b k"] by (simp add: row_def ORDER_CACHE_def)

lemma row_pop:
  assumes "0 < b_cache_len b k"
  shows "row b k = row (b\<lparr>b_cache_len := (b_cache_len b)(k := b_cache_len b k - 1)\<rparr>) k
      @ [b_cache b k (unat (b_cache_len b k - 1))]"
proof -
  have "unat (b_cache_len b k) = Suc (unat (b_cache_len b k - 1))"
    using assms by (simp add: unat_minus_one word_gt_0 unat_gt_0)
  then show ?thesis by (simp add: row_def)
qed

lemma cache_push_ok:
  assumes ok: "tiers_ok b F" and a: "blk a k" "k < 10" "\<forall>j. a \<notin> F j" "rg b (rbase a) \<noteq> None"
    and len: "unat (b_cache_len b k) < ORDER_CACHE"
  shows "tiers_ok (b\<lparr>b_cache := (b_cache b)(k := (b_cache b k)(unat (b_cache_len b k) := a)),
      b_cache_len := (b_cache_len b)(k := b_cache_len b k + 1)\<rparr>) (F(k := insert a (F k)))" (is "tiers_ok ?b _")
proof (rule low_update [OF ok a(2)])
  have "low_ok b k (F k)" using ok a(2) by (simp add: tiers_ok_def)
  then obtain xs where xs: "dll (\<lambda>a. fn_prev (b_mem b a)) (\<lambda>a. fn_next (b_mem b a)) 0 (free_lists b k) xs"
    "distinct (row b k @ xs)" "set (row b k @ xs) = F k" "unat (b_cache_len b k) \<le> ORDER_CACHE" by (rule low_okE)
  have "unat (b_cache_len b k + 1) \<le> ORDER_CACHE" using len unat_u8_Suc by (simp add: ORDER_CACHE_def)
  then show "low_ok ?b k (insert a (F k))"
    using xs a(3) unfolding low_ok_def row_push [OF len] by (intro conjI exI [of _ xs]) auto
  show "free_ok b (F(k := insert a (F k)))"
    using free_ok_insert [OF _ a(1,4,3)] ok by (simp add: tiers_ok_def)
qed auto

lemma cache_pop_ok:
  assumes ok: "tiers_ok b F" and k: "k < 10" and len: "0 < b_cache_len b k"
  shows "b_cache b k (unat (b_cache_len b k - 1)) \<in> F k"
    and "tiers_ok (b\<lparr>b_cache_len := (b_cache_len b)(k := b_cache_len b k - 1)\<rparr>)
      (F(k := F k - {b_cache b k (unat (b_cache_len b k - 1))}))" (is "tiers_ok ?b _")
proof -
  let ?a = "b_cache b k (unat (b_cache_len b k - 1))"
  have "low_ok b k (F k)" using ok k by (simp add: tiers_ok_def)
  then obtain xs where xs: "dll (\<lambda>a. fn_prev (b_mem b a)) (\<lambda>a. fn_next (b_mem b a)) 0 (free_lists b k) xs"
    "distinct (row b k @ xs)" "set (row b k @ xs) = F k" "unat (b_cache_len b k) \<le> ORDER_CACHE" by (rule low_okE)
  note R = row_pop [OF len]
  show "?a \<in> F k" using xs(3) by (auto simp: R)
  show "tiers_ok ?b (F(k := F k - {?a}))"
  proof (rule low_update [OF ok k])
    have "set (row ?b k @ xs) = F k - {?a}" using xs(2,3) unfolding R by auto
    moreover have "unat (b_cache_len b k - 1) \<le> ORDER_CACHE" using xs(4) len by (simp add: unat_minus_one word_gt_0)
    ultimately show "low_ok ?b k (F k - {?a})"
      using xs(1,2) unfolding low_ok_def R by (intro conjI exI [of _ xs]) auto
    show "free_ok b (F(k := F k - {?a}))" by (rule free_ok_mono [of b F]) (use ok in \<open>auto simp: tiers_ok_def\<close>)
  qed auto
qed

lemma push_list_ok:
  assumes ok: "tiers_ok b F" and a: "blk a k" "k < 10" "\<forall>j. a \<notin> F j" "rg b (rbase a) \<noteq> None"
  shows "tiers_ok (push_list a k b) (F(k := insert a (F k)))"
proof (rule low_update [OF ok a(2)])
  let ?b = "push_list a k b"
  have "low_ok b k (F k)" using ok a(2) by (simp add: tiers_ok_def)
  then obtain xs where xs: "dll (\<lambda>a. fn_prev (b_mem b a)) (\<lambda>a. fn_next (b_mem b a)) 0 (free_lists b k) xs"
    "distinct (row b k @ xs)" "set (row b k @ xs) = F k" "unat (b_cache_len b k) \<le> ORDER_CACHE" by (rule low_okE)
  have a0: "a \<noteq> 0"
  proof
    assume "a = 0"
    then have "region_base_ok 0" using a(4) tiers_okD(6) [OF ok, of 0] by (simp add: rbase_def)
    then show False by (simp add: region_base_ok_def)
  qed
  have h: "free_lists b k = 0 \<or> free_lists b k \<in> set xs" using dll_head [OF xs(1)] dll_empty_iff [OF xs(1)] by (cases xs) auto
  have nin: "a \<notin> set xs" using xs(3) a(3) by auto
  have nz: "0 \<notin> set xs" by (rule dll_nonnull [OF xs(1)])
  have "dll (\<lambda>a. fn_prev (b_mem ?b a)) (\<lambda>a. fn_next (b_mem ?b a)) 0 a (a # xs)"
    by (rule dll_push [OF xs(1) nin a0]) (use xs(2) h nin nz in \<open>auto simp: push_list_def Let_def\<close>)
  then show "low_ok ?b k (insert a (F k))"
    using xs a(3) unfolding low_ok_def by (intro conjI exI [of _ "a # xs"]) (auto simp: push_list_def Let_def row_def)
  show "free_ok b (F(k := insert a (F k)))"
    using free_ok_insert [OF _ a(1,4,3)] ok by (simp add: tiers_ok_def)
  show "b_mem ?b x = b_mem b x" if "j < 10" "j \<noteq> k" "x \<in> F j" for j x
    using that a(3) h xs(3) tiers_okD(5) [OF ok that(2)] by (auto simp: push_list_def Let_def)
qed (auto simp: push_list_def Let_def)

lemma unlink_ok:
  assumes ok: "tiers_ok b F" and k: "k < 10" and a: "a \<in> F k" "a \<notin> set (row b k)"
  shows "tiers_ok (unlink a k b) (F(k := F k - {a}))"
proof (rule low_update [OF ok k])
  let ?b = "unlink a k b" and ?P = "\<lambda>a. fn_prev (b_mem b a)" and ?N = "\<lambda>a. fn_next (b_mem b a)"
  have "low_ok b k (F k)" using ok k by (simp add: tiers_ok_def)
  then obtain xs where xs: "dll ?P ?N 0 (free_lists b k) xs"
    "distinct (row b k @ xs)" "set (row b k @ xs) = F k" "unat (b_cache_len b k) \<le> ORDER_CACHE" by (rule low_okE)
  have mem: "a \<in> set xs" and d: "distinct xs" using xs(2,3) a by auto
  note nb = dll_neighbours [OF xs(1) mem d]
  have nz: "0 \<notin> set xs" by (rule dll_nonnull [OF xs(1)])
  have "dll (\<lambda>a. fn_prev (b_mem ?b a)) (\<lambda>a. fn_next (b_mem ?b a)) 0 (if ?P a = 0 then ?N a else free_lists b k) (remove1 a xs)"
  proof (rule dll_remove(1) [OF xs(1) mem d])
    fix y assume "y \<in> set xs - {a}"
    then have "y \<noteq> 0" using nz by auto
    then show "fn_next (b_mem ?b y) = (if y = ?P a then ?N a else ?N y) \<and> fn_prev (b_mem ?b y) = (if y = ?N a then ?P a else ?P y)"
      by (auto simp: unlink_def Let_def)
  qed
  moreover have "free_lists ?b k = (if ?P a = 0 then ?N a else free_lists b k)" by (simp add: unlink_def Let_def)
  moreover have "row ?b k = row b k" "b_cache_len ?b = b_cache_len b" by (simp_all add: unlink_def Let_def row_def)
  moreover have "set (row b k @ remove1 a xs) = F k - {a}" using xs(2,3) a(2) d by (auto simp: set_remove1_eq)
  moreover have "distinct (row b k @ remove1 a xs)" using xs(2) by (auto dest: notin_set_remove1)
  ultimately show "low_ok ?b k (F k - {a})" using xs(4) unfolding low_ok_def by (intro conjI exI [of _ "remove1 a xs"]) simp_all
  show "free_ok b (F(k := F k - {a}))" by (rule free_ok_mono [of b F]) (use ok in \<open>auto simp: tiers_ok_def\<close>)
  show "b_mem ?b x = b_mem b x" if "j < 10" "j \<noteq> k" "x \<in> F j" for j x
  proof -
    have "x \<notin> F k" using that tiers_okD(5) [OF ok] by blast
    then have "x \<notin> set xs" using xs(3) by auto
    then show ?thesis using nb(1,2) by (auto simp: unlink_def Let_def)
  qed
qed (auto simp: unlink_def Let_def)

section \<open>Adding and removing a block, whatever its order\<close>

lemma low_frames:
  "frame b (push_list a k b)" "frame b (unlink a k b)" "frame b (b\<lparr>b_cache := c\<rparr>)" "frame b (b\<lparr>b_cache_len := n\<rparr>)"
  "frame b (b\<lparr>b_cache := c, b_cache_len := n\<rparr>)"
  by (rule frame_regions; simp add: push_list_def unlink_def Let_def)+

lemma tier_insert_ok:
  assumes ok: "tiers_ok b F" and a: "blk a k" "\<forall>j. a \<notin> F j"
    and i: "i < length (regions b)" "r_base (regions b ! i) = rbase a"
  shows "\<exists>b'. (if k \<ge> OOB_MIN_ORDER then oob_push a k i b
        else if unat (b_cache_len b k) < ORDER_CACHE
        then Some (b\<lparr>b_cache := (b_cache b)(k := (b_cache b k)(unat (b_cache_len b k) := a)),
                     b_cache_len := (b_cache_len b)(k := b_cache_len b k + 1)\<rparr>)
        else Some (push_list a k b)) = Some b'
    \<and> tiers_ok b' (F(k := insert a (F k))) \<and> frame b b' \<and> (\<forall>j. j \<noteq> k \<longrightarrow> b_cache_len b' j = b_cache_len b j)"
proof -
  have rgb: "rg b (rbase a) \<noteq> None" using rg_nth [OF tiers_okD(2) [OF ok] i(1)] i(2) by simp
  consider "10 \<le> k" | "k < 10" "unat (b_cache_len b k) < ORDER_CACHE" | "k < 10" "\<not> unat (b_cache_len b k) < ORDER_CACHE"
    by linarith
  then show ?thesis
  proof cases
    case 1
    then show ?thesis using oob_push_ok(1) [OF ok a(1) 1 a(2) i] by (auto simp: low_same_def)
  next
    case 2
    then show ?thesis using cache_push_ok [OF ok a(1) 2(1) a(2) rgb 2(2)] low_frames(5) by auto
  next
    case 3
    then show ?thesis using push_list_ok [OF ok a(1) 3(1) a(2) rgb] low_frames(1) by (auto simp: push_list_def Let_def)
  qed
qed

lemma swap_remove:
  assumes "distinct xs" and "i < length xs"
  shows "set (butlast (xs[i := last xs])) = set xs - {xs ! i}" and "distinct (butlast (xs[i := last xs]))"
proof -
  obtain ys y where xs: "xs = ys @ [y]" using assms(2) by (cases xs rule: rev_cases) auto
  show "set (butlast (xs[i := last xs])) = set xs - {xs ! i}"
  proof (cases "i = length ys")
    case True
    then show ?thesis using assms(1) by (auto simp: xs)
  next
    case False
    then have i: "i < length ys" using assms(2) xs by simp
    then have b: "butlast (xs[i := last xs]) = ys[i := y]" by (simp add: xs list_update_append)
    have "set (ys[i := y]) = insert y (set ys - {ys ! i})"
      using i assms(1) xs by (auto simp: set_update_distinct)
    then show ?thesis using i assms(1) b by (auto simp: xs nth_append)
  qed
  show "distinct (butlast (xs[i := last xs]))"
  proof (cases "i = length ys")
    case True
    then show ?thesis using assms(1) by (auto simp: xs)
  next
    case False
    then have i: "i < length ys" using assms(2) xs by simp
    then show ?thesis using assms(1) by (simp add: xs list_update_append distinct_list_update)
  qed
qed

lemma row_swap:
  assumes "i < unat (b_cache_len b k)"
  shows "row (b\<lparr>b_cache := (b_cache b)(k := (b_cache b k)(i := b_cache b k (unat (b_cache_len b k) - 1))),
      b_cache_len := (b_cache_len b)(k := b_cache_len b k - 1)\<rparr>) k
    = butlast ((row b k)[i := last (row b k)])"
proof -
  let ?n = "unat (b_cache_len b k)"
  have n: "unat (b_cache_len b k - 1) = ?n - 1" using assms by (simp add: unat_minus_one unat_gt_0 [symmetric] word_gt_0)
  have "length (row b k) = ?n" by (simp add: row_def)
  then have l: "last (row b k) = b_cache b k (?n - 1)" using assms by (subst last_conv_nth) (auto simp: row_def)
  show ?thesis by (rule nth_equalityI) (use assms in \<open>auto simp: row_def n nth_butlast nth_list_update l [unfolded row_def]\<close>)
qed

lemma remove_free_ok:
  assumes ok: "tiers_ok b F" and a: "a \<in> F k"
  shows "\<exists>b'. remove_free a k b = Some b' \<and> tiers_ok b' (F(k := F k - {a})) \<and> frame b b'
    \<and> (\<forall>j. unat (b_cache_len b' j) \<le> unat (b_cache_len b j))"
proof (cases "a \<in> set (row b k)")
  case True
  note D = tiers_okD [OF ok]
  have k16: "k \<le> 16" using D(3) [OF a] by (simp add: blk_def)
  have "\<not> 10 \<le> k"
  proof
    assume "10 \<le> k"
    then have "b_cache_len b k = 0" using ok k16 by (simp add: tiers_ok_def high_idle_def)
    then show False using True by (simp add: row_def)
  qed
  then have k: "k < 10" by simp
  have "find (\<lambda>i. b_cache b k i = a) [0..<unat (b_cache_len b k)] \<noteq> None"
    using True by (auto simp: find_None_iff row_def)
  then obtain i where i: "find (\<lambda>i. b_cache b k i = a) [0..<unat (b_cache_len b k)] = Some i" by auto
  then have lt: "i < unat (b_cache_len b k)" and ai: "b_cache b k i = a"
    by (auto simp: find_Some_iff)
  let ?b = "b\<lparr>b_cache := (b_cache b)(k := (b_cache b k)(i := b_cache b k (unat (b_cache_len b k) - 1))),
      b_cache_len := (b_cache_len b)(k := b_cache_len b k - 1)\<rparr>"
  have "low_ok b k (F k)" using ok k by (simp add: tiers_ok_def)
  then obtain xs where xs: "dll (\<lambda>a. fn_prev (b_mem b a)) (\<lambda>a. fn_next (b_mem b a)) 0 (free_lists b k) xs"
    "distinct (row b k @ xs)" "set (row b k @ xs) = F k" "unat (b_cache_len b k) \<le> ORDER_CACHE" by (rule low_okE)
  have len: "length (row b k) = unat (b_cache_len b k)" and nth: "row b k ! i = a" using lt ai by (simp_all add: row_def)
  note SW = swap_remove [of "row b k" i, unfolded len nth]
  have d: "distinct (row b k)" using xs(2) by simp
  have n: "unat (b_cache_len b k - 1) = unat (b_cache_len b k) - 1"
    using lt by (simp add: unat_minus_one unat_gt_0 [symmetric] word_gt_0)
  have "tiers_ok ?b (F(k := F k - {a}))"
  proof (rule low_update [OF ok k])
    have row: "row ?b k = butlast ((row b k)[i := last (row b k)])" by (rule row_swap [OF lt])
    have "set (row ?b k @ xs) = F k - {a}" unfolding row using SW(1) [OF d lt] xs(2,3) True by auto
    moreover have "distinct (row ?b k @ xs)"
      unfolding row using SW [OF d lt] xs(2) True by (auto dest: in_set_butlastD)
    ultimately show "low_ok ?b k (F k - {a})"
      using xs(1,4) n unfolding low_ok_def by (intro conjI exI [of _ xs]) simp_all
    show "free_ok b (F(k := F k - {a}))" by (rule free_ok_mono [of b F]) (use ok in \<open>auto simp: tiers_ok_def\<close>)
  qed auto
  moreover have "remove_free a k b = Some ?b" by (simp add: remove_free_def Let_def i)
  moreover have "unat (b_cache_len ?b j) \<le> unat (b_cache_len b j)" for j using n by simp
  ultimately show ?thesis using low_frames(5) by blast
next
  case False
  note D = tiers_okD [OF ok]
  have none: "find (\<lambda>i. b_cache b k i = a) [0..<unat (b_cache_len b k)] = None"
    using False by (auto simp: find_None_iff row_def)
  show ?thesis
  proof (cases "10 \<le> k")
    case True
    obtain r where r: "rg b (rbase a) = Some r" using D(4) [OF a] by auto
    obtain i l where i: "region_index_of a b = (Some i, b\<lparr>last_region := l\<rparr>)" "i < length (regions b)"
      "regions b ! i = r" "r_base r = rbase a" using region_index_of_Some [OF D(2) r] .
    let ?b = "b\<lparr>last_region := l\<rparr>"
    obtain b' where b': "oob_remove a k i ?b = Some b'" "tiers_ok b' (F(k := F k - {a}))" "frame ?b b'" "low_same ?b b'"
      using oob_remove_ok [of ?b F a k i] ok a True i(2-4) by auto
    have fb: "frame b ?b" by simp
    have "remove_free a k b = Some b'" using none True i(1) b'(1) by (simp add: remove_free_def Let_def expect_region_def)
    moreover have "b_cache_len b' = b_cache_len b" using b'(4) by (simp add: low_same_def)
    ultimately show ?thesis using b'(2) frame_trans [OF fb b'(3)] by auto
  next
    case F: False
    then have "remove_free a k b = Some (unlink a k b)" using none by (simp add: remove_free_def Let_def)
    moreover have "b_cache_len (unlink a k b) = b_cache_len b" by (simp add: unlink_def Let_def)
    moreover have "k < 10" using F by simp
    ultimately show ?thesis using unlink_ok [OF ok _ a False] low_frames(2) by auto
  qed
qed

lemma pop_block_ok:
  assumes ok: "tiers_ok b F" and k: "k \<le> 16" and ne: "F k \<noteq> {}"
  shows "\<exists>a b'. pop_block k b = Some (a, b') \<and> a \<in> F k \<and> tiers_ok b' (F(k := F k - {a})) \<and> frame b b'"
proof (cases "10 \<le> k")
  case True
  have z: "b_cache_len b k = 0" using ok True k by (simp add: tiers_ok_def high_idle_def)
  have h: "oob_region_heads b (k - 10) \<noteq> 0" using oob_heads_iff [OF ok True k] ne by simp
  obtain a b' where p: "oob_pop k b = Some (Some a, b')" "a \<in> F k" "tiers_ok b' (F(k := F k - {a}))" "frame b b'"
    using oob_pop_ok [OF ok True k] ne by auto
  have "pop_block k b = Some (a, b')" using z h True p(1) by (simp add: pop_block_def)
  then show ?thesis using p by blast
next
  case False
  then have k: "k < 10" by simp
  show ?thesis
  proof (cases "0 < b_cache_len b k")
    case True
    let ?a = "b_cache b k (unat (b_cache_len b k - 1))" and ?b = "b\<lparr>b_cache_len := (b_cache_len b)(k := b_cache_len b k - 1)\<rparr>"
    have "pop_block k b = Some (?a, ?b)" using True by (simp add: pop_block_def Let_def)
    moreover note cache_pop_ok [OF ok k True]
    moreover have "frame b ?b" by (rule low_frames(4))
    ultimately show ?thesis by blast
  next
    case F: False
    have "low_ok b k (F k)" using ok k by (simp add: tiers_ok_def)
    then obtain xs where xs: "dll (\<lambda>a. fn_prev (b_mem b a)) (\<lambda>a. fn_next (b_mem b a)) 0 (free_lists b k) xs"
      "distinct (row b k @ xs)" "set (row b k @ xs) = F k" "unat (b_cache_len b k) \<le> ORDER_CACHE" by (rule low_okE)
    have z: "b_cache_len b k = 0" using F by (simp add: word_gt_0)
    have row: "row b k = []" by (simp add: row_def z)
    then have Fk: "F k = set xs" using xs(3) by simp
    then have "xs \<noteq> []" using ne by auto
    then have h: "free_lists b k \<in> F k" unfolding Fk dll_head [OF xs(1) \<open>xs \<noteq> []\<close>] by (rule hd_in_set)
    have nin: "free_lists b k \<notin> set (row b k)" by (simp add: row)
    have "pop_block k b = Some (free_lists b k, unlink (free_lists b k) k b)"
      using z False by (simp add: pop_block_def Let_def)
    moreover note unlink_ok [OF ok k h nin] h
    moreover have "frame b (unlink (free_lists b k) k b)" by (rule low_frames(2))
    ultimately show ?thesis by blast
  qed
qed

text \<open>The search for the smallest order with a free block.\<close>

lemma no_free_order:
  assumes ok: "tiers_ok b F" and k: "k \<le> 16"
  shows "b_cache_len b k = 0 \<and> free_lists b k = 0 \<and> (k < OOB_MIN_ORDER \<or> oob_region_heads b (k - OOB_MIN_ORDER) = 0)
    \<longleftrightarrow> F k = {}"
proof (cases "10 \<le> k")
  case True
  then show ?thesis using oob_heads_iff [OF ok True k] ok k by (auto simp: tiers_ok_def high_idle_def)
next
  case False
  then have "low_ok b k (F k)" using ok by (simp add: tiers_ok_def)
  then obtain xs where xs: "dll (\<lambda>a. fn_prev (b_mem b a)) (\<lambda>a. fn_next (b_mem b a)) 0 (free_lists b k) xs"
    "set (row b k @ xs) = F k" by (rule low_okE)
  have "row b k = [] \<longleftrightarrow> b_cache_len b k = 0" by (simp add: row_def unat_eq_zero)
  moreover have "xs = [] \<longleftrightarrow> free_lists b k = 0" using dll_empty_iff [OF xs(1)] by simp
  ultimately show ?thesis using xs(2) False by auto
qed

lemma free_order_from_ok:
  assumes ok: "tiers_ok b F"
  shows "k \<le> free_order_from b k" and "(\<forall>j. k \<le> j \<longrightarrow> j < free_order_from b k \<longrightarrow> F j = {})
    \<and> (free_order_from b k \<le> 16 \<longrightarrow> F (free_order_from b k) \<noteq> {})"
proof (induction "17 - k" arbitrary: k)
  case 0
  {
    case 1
    show ?case using 0 by (subst free_order_from.simps) auto
  next
    case 2
    show ?case using 0 by (subst (1 2 3) free_order_from.simps) auto
  }
next
  case (Suc n)
  have k: "k \<le> 16" using Suc.hyps(3) by simp
  note N = no_free_order [OF ok k]
  have step: "free_order_from b k = (if F k = {} then free_order_from b (k + 1) else k)"
    using N k by (subst free_order_from.simps) auto
  {
    case 1
    have "k + 1 \<le> free_order_from b (k + 1)" by (rule Suc.hyps(1)) (use Suc.hyps(3) in simp)
    then show ?case using step by auto
  next
    case 2
    show ?case
    proof (cases "F k = {}")
      case True
      have "\<forall>j. k + 1 \<le> j \<longrightarrow> j < free_order_from b (k + 1) \<longrightarrow> F j = {}"
        "free_order_from b (k + 1) \<le> 16 \<longrightarrow> F (free_order_from b (k + 1)) \<noteq> {}"
        using Suc.hyps(2) [of "k + 1"] Suc.hyps(3) by auto
      moreover have "F j = {}" if "k \<le> j" "j < free_order_from b (k + 1)" for j
        using that True calculation(1) by (cases "j = k") auto
      ultimately show ?thesis using True step by auto
    next
      case False
      then show ?thesis using step by auto
    qed
  }
qed

end
