(* ===== verification/BuddyCorrect.thy ===== *)
theory BuddyCorrect
  imports BuddyTiers SlabCorrect
begin

text \<open>
  Correctness of the buddy allocator: the free blocks of its tiers agree with the bitmaps, and
  with the live blocks they tile every region, through splitting, merging, draining and refilling. No
  operation panics, an allocation returns, and live blocks never overlap.
\<close>

section \<open>Bitmaps\<close>

definition bits_ok :: "buddy \<Rightarrow> (nat \<Rightarrow> usize set) \<Rightarrow> bool" where
  "bits_ok b F \<longleftrightarrow>
     (\<forall>r a k. rg b (rbase a) = Some r \<longrightarrow> blk a k \<longrightarrow> (is_free_bit r a k \<longleftrightarrow> a \<in> F k))"

definition good :: "buddy \<Rightarrow> (nat \<Rightarrow> usize set) \<Rightarrow> bool" where
  "good b F \<longleftrightarrow> tiers_ok b F \<and> bits_ok b F"

text \<open>What the free-block operations leave alone: the regions, their order maps and mappings.\<close>

definition kept :: "region \<Rightarrow> region \<Rightarrow> bool" where
  "kept r r' \<longleftrightarrow> r_base r' = r_base r \<and> r_order_map r' = r_order_map r \<and> r_mapping r' = r_mapping r
     \<and> r_order_map_at r' = r_order_map_at r"

definition keep :: "buddy \<Rightarrow> buddy \<Rightarrow> bool" where
  "keep b b' \<longleftrightarrow> (\<forall>x. rel_option kept (rg b x) (rg b' x)) \<and> map r_base (regions b') = map r_base (regions b)
     \<and> bitmap_batches b' = bitmap_batches b \<and> record_orders b' = record_orders b"

lemma kept_refl [simp]: "kept r r"
  by (simp add: kept_def)

lemma keep_refl [simp]: "keep b b"
  by (auto simp: keep_def rel_option_iff split: option.splits)

lemma keep_Some: "keep b b' \<Longrightarrow> rg b x = Some r \<Longrightarrow> \<exists>r'. rg b' x = Some r' \<and> kept r r'"
  unfolding keep_def by (metis option.rel_cases option.distinct(1) option.inject)

lemma keep_None: "keep b b' \<Longrightarrow> rg b x = None \<Longrightarrow> rg b' x = None"
  unfolding keep_def by (metis option.rel_cases option.distinct(1))

lemma keep_rg: "keep b b' \<Longrightarrow> rg b' x = None \<longleftrightarrow> rg b x = None"
  using keep_Some keep_None by (metis option.exhaust option.distinct(1))

lemma keep_trans [trans]: assumes "keep b b'" and "keep b' b''" shows "keep b b''"
proof -
  have "rel_option kept (rg b x) (rg b'' x)" for x
  proof (cases "rg b x")
    case None
    then show ?thesis using keep_None assms by (metis option.rel_intros(1))
  next
    case (Some r)
    then obtain r' r'' where "rg b' x = Some r'" "kept r r'" "rg b'' x = Some r''" "kept r' r''"
      using keep_Some assms by meson
    then show ?thesis using Some by (simp add: kept_def)
  qed
  then show ?thesis using assms unfolding keep_def by simp
qed

lemma frame_keep: "frame b b' \<Longrightarrow> keep b b'"
  unfolding frame_def keep_def by (metis (mono_tags, lifting) kept_def meta_same_def option.rel_mono_strong)

lemma keep_length: "keep b b' \<Longrightarrow> length (regions b') = length (regions b)"
  unfolding keep_def by (metis length_map)

lemma keep_base: "keep b b' \<Longrightarrow> i < length (regions b) \<Longrightarrow> r_base (regions b' ! i) = r_base (regions b ! i)"
  unfolding keep_def by (metis length_map nth_map)

lemma frame_bits: "frame b b' \<Longrightarrow> bits_ok b' F = bits_ok b F"
proof -
  assume f: "frame b b'"
  have e: "is_free_bit r' a k = is_free_bit r a k" if "meta_same r r'" for r r' a k
    using that by (simp add: meta_same_def is_free_bit_def bit_pos_def)
  show ?thesis
  proof
    assume h: "bits_ok b' F"
    show "bits_ok b F" unfolding bits_ok_def
    proof (intro allI impI)
      fix r a k assume r: "rg b (rbase a) = Some r" and k: "blk a k"
      obtain r' where r': "rg b' (rbase a) = Some r'" "meta_same r r'" using frame_rg [OF f r] by blast
      have "is_free_bit r' a k \<longleftrightarrow> a \<in> F k" using h r'(1) k unfolding bits_ok_def by blast
      then show "is_free_bit r a k \<longleftrightarrow> a \<in> F k" using e [OF r'(2)] by simp
    qed
  next
    assume h: "bits_ok b F"
    show "bits_ok b' F" unfolding bits_ok_def
    proof (intro allI impI)
      fix r a k assume r: "rg b' (rbase a) = Some r" and k: "blk a k"
      obtain r' where r': "rg b (rbase a) = Some r'" "meta_same r' r" using frame_rg_back [OF f r] by blast
      have "is_free_bit r' a k \<longleftrightarrow> a \<in> F k" using h r'(1) k unfolding bits_ok_def by blast
      then show "is_free_bit r a k \<longleftrightarrow> a \<in> F k" using e [OF r'(2)] by simp
    qed
  qed
qed

text \<open>Changing only bitmaps or order maps does not disturb the tiers.\<close>

lemma tiers_ok_meta:
  assumes ok: "tiers_ok b F" and f: "\<And>r. r_base (f r) = r_base r" "\<And>r. slots_same r (f r)"
    "\<And>r. rl_prev (f r) = rl_prev r" "\<And>r. rl_next (f r) = rl_next r"
  shows "tiers_ok (upd x f b) F"
proof -
  let ?b = "upd x f b"
  have sf: "slots_frame b ?b" by (rule slots_frame_upd) (simp_all add: f)
  have rl: "rlp ?b = rlp b" "rln ?b = rln b"
    by (auto simp: fun_eq_iff rl_upd [OF f(1)] rg_upd [OF f(1)] rlp_def rln_def f(3,4) split: option.splits)
  have none: "rg ?b y = None \<longleftrightarrow> rg b y = None" for y by (auto simp: rg_upd [OF f(1)])
  have "low_ok ?b k (F k)" if "k < 10" for k
    using ok that low_same_ok [of b ?b] by (simp add: tiers_ok_def)
  moreover have "high_idle ?b" using ok low_same_idle [of b ?b] by (simp add: tiers_ok_def)
  moreover have "high_slots ?b F" using slots_frame_slots [OF sf] ok by (simp add: tiers_ok_def)
  moreover have "high_lists ?b" using ok
    by (simp add: tiers_ok_def high_lists_def rlist_ok_def rl none slots_frame_listed [OF sf])
  moreover have "free_ok ?b F" using ok
    by (simp add: tiers_ok_def free_ok_def bases_ok_def none bases_sorted_upd [OF f(1)])
  ultimately show ?thesis by (simp add: tiers_ok_def)
qed

lemma keep_upd:
  assumes "\<And>r. kept r (f r)" shows "keep b (upd x f b)"
proof -
  have "r_base (f r) = r_base r" for r using assms [of r] by (simp add: kept_def)
  then show ?thesis using assms by (auto simp: keep_def rg_upd bases_upd rel_option_iff split: option.splits)
qed

lemma bit_ops_same:
  "slots_same r (set_free_bit a k r)" "rl_prev (set_free_bit a k r) = rl_prev r" "rl_next (set_free_bit a k r) = rl_next r"
  "slots_same r (clear_free_bit a k r)" "rl_prev (clear_free_bit a k r) = rl_prev r" "rl_next (clear_free_bit a k r) = rl_next r"
  "kept r (set_free_bit a k r)" "kept r (clear_free_bit a k r)"
  by (simp_all add: slots_same_def set_free_bit_def clear_free_bit_def Let_def kept_def)

lemma set_bit_ok:
  assumes ok: "tiers_ok b F" and bits: "bits_ok b G" and a: "blk a k"
    and i: "i < length (regions b)" "r_base (regions b ! i) = rbase a"
  shows "\<exists>b'. upd_region i (set_free_bit a k) b = Some b' \<and> tiers_ok b' F \<and> bits_ok b' (G(k := insert a (G k)))
    \<and> keep b b' \<and> b_cache_len b' = b_cache_len b"
proof -
  let ?b = "upd (rbase a) (set_free_bit a k) b"
  have u: "upd_region i (set_free_bit a k) b = Some ?b"
    using upd_region_upd [OF tiers_okD(2) [OF ok] i(1)] i(2) by simp
  have "bits_ok ?b (G(k := insert a (G k)))"
    unfolding bits_ok_def
  proof (intro allI impI)
    fix r x j assume r: "rg ?b (rbase x) = Some r" and x: "blk x j"
    show "is_free_bit r x j \<longleftrightarrow> x \<in> (G(k := insert a (G k))) j"
    proof (cases "rbase x = rbase a")
      case True
      then obtain r0 where r0: "rg b (rbase x) = Some r0" "r = set_free_bit a k r0" using r by (auto simp: rg_upd)
      have base: "r_base r0 = rbase x" using rg_Some_base [OF r0(1)] by simp
      show ?thesis using is_free_bit_set [of a r0 k x j] a x base True bits r0 by (auto simp: bits_ok_def)
    next
      case False
      then have "rg b (rbase x) = Some r" "x \<noteq> a" using r by (auto simp: rg_upd)
      then show ?thesis using bits x by (auto simp: bits_ok_def)
    qed
  qed
  moreover have "tiers_ok ?b F" by (rule tiers_ok_meta [OF ok]) (simp_all add: bit_ops_same)
  moreover have "keep b ?b" by (rule keep_upd) (rule bit_ops_same)
  ultimately show ?thesis using u by auto
qed

lemma clear_bit_ok:
  assumes ok: "tiers_ok b F" and bits: "bits_ok b G" and a: "blk a k"
    and i: "i < length (regions b)" "r_base (regions b ! i) = rbase a"
  shows "\<exists>b'. upd_region i (clear_free_bit a k) b = Some b' \<and> tiers_ok b' F \<and> bits_ok b' (G(k := G k - {a}))
    \<and> keep b b' \<and> b_cache_len b' = b_cache_len b"
proof -
  let ?b = "upd (rbase a) (clear_free_bit a k) b"
  have u: "upd_region i (clear_free_bit a k) b = Some ?b"
    using upd_region_upd [OF tiers_okD(2) [OF ok] i(1)] i(2) by simp
  have "bits_ok ?b (G(k := G k - {a}))"
    unfolding bits_ok_def
  proof (intro allI impI)
    fix r x j assume r: "rg ?b (rbase x) = Some r" and x: "blk x j"
    show "is_free_bit r x j \<longleftrightarrow> x \<in> (G(k := G k - {a})) j"
    proof (cases "rbase x = rbase a")
      case True
      then obtain r0 where r0: "rg b (rbase x) = Some r0" "r = clear_free_bit a k r0" using r by (auto simp: rg_upd)
      have base: "r_base r0 = rbase x" using rg_Some_base [OF r0(1)] by simp
      show ?thesis using is_free_bit_clear [of a r0 k x j] a x base True bits r0 by (auto simp: bits_ok_def)
    next
      case False
      then have "rg b (rbase x) = Some r" "x \<noteq> a" using r by (auto simp: rg_upd)
      then show ?thesis using bits x by (auto simp: bits_ok_def)
    qed
  qed
  moreover have "tiers_ok ?b F" by (rule tiers_ok_meta [OF ok]) (simp_all add: bit_ops_same)
  moreover have "keep b ?b" by (rule keep_upd) (rule bit_ops_same)
  ultimately show ?thesis using u by auto
qed

section \<open>Free, live and in-hand blocks\<close>

definition fs :: "(nat \<Rightarrow> usize set) \<Rightarrow> (usize \<times> nat) set" where "fs F = {(a, k). a \<in> F k}"

text \<open>
  The free blocks \<open>F\<close>, the live blocks \<open>L\<close> and the blocks \<open>H\<close> an operation holds are disjoint and tile the
  regions.
\<close>

definition binv :: "buddy \<Rightarrow> (nat \<Rightarrow> usize set) \<Rightarrow> (usize \<times> nat) set \<Rightarrow> (usize \<times> nat) set \<Rightarrow> bool" where
  "binv b F L H \<longleftrightarrow> tiers_ok b F \<and> bits_ok b F \<and> tiling {x. rg b x \<noteq> None} (H \<union> fs F \<union> L)
     \<and> H \<inter> fs F = {} \<and> H \<inter> L = {} \<and> fs F \<inter> L = {}"

lemma fs_insert: "fs (F(k := insert a (F k))) = insert (a, k) (fs F)"
  and fs_remove: "fs (F(k := F k - {a})) = fs F - {(a, k)}"
  by (auto simp: fs_def split: if_splits)

lemma fs_mem [simp]: "(a, k) \<in> fs F \<longleftrightarrow> a \<in> F k"
  by (simp add: fs_def)

lemma binvD:
  assumes "binv b F L H"
  shows "tiers_ok b F" and "bits_ok b F" and "tiling {x. rg b x \<noteq> None} (H \<union> fs F \<union> L)"
    and "bases_sorted b" and "bases_ok b"
  using assms tiers_okD(1,2) [of b F] by (auto simp: binv_def)

lemma binv_held:
  assumes inv: "binv b F L H" and a: "(a, k) \<in> H"
  shows "blk a k" and "\<forall>j. a \<notin> F j" and "rg b (rbase a) \<noteq> None" and "region_base_ok (rbase a)"
proof -
  note D = binvD [OF inv]
  have m: "(a, k) \<in> H \<union> fs F \<union> L" using a by simp
  note T = tilingD [OF D(3) m]
  show "blk a k" and r: "rg b (rbase a) \<noteq> None" using T(1,2) by auto
  then show "region_base_ok (rbase a)" using tiers_okD(6) [OF D(1)] by simp
  show "\<forall>j. a \<notin> F j"
  proof (intro allI notI)
    fix j assume j: "a \<in> F j"
    then have "j = k" using T(4) [of j] by auto
    then show False using inv a j unfolding binv_def by auto
  qed
qed

lemma binv_put:
  assumes "binv b F L (insert (a, k) H)" and "(a, k) \<notin> H" and "tiers_ok b' (F(k := insert a (F k)))"
    and "bits_ok b' (F(k := insert a (F k)))" and "keep b b'"
  shows "binv b' (F(k := insert a (F k))) L H"
proof -
  have e: "{x. rg b' x \<noteq> None} = {x. rg b x \<noteq> None}" using keep_rg [OF assms(5)] by simp
  have "H \<union> fs (F(k := insert a (F k))) \<union> L = insert (a, k) H \<union> fs F \<union> L" by (auto simp: fs_insert)
  then show ?thesis using assms unfolding binv_def e fs_insert by auto
qed

lemma binv_take:
  assumes "binv b F L H" and "a \<in> F k" and "tiers_ok b' (F(k := F k - {a}))"
    and "bits_ok b' (F(k := F k - {a}))" and "keep b b'"
  shows "binv b' (F(k := F k - {a})) L (insert (a, k) H)" and "(a, k) \<notin> H"
proof -
  have e: "{x. rg b' x \<noteq> None} = {x. rg b x \<noteq> None}" using keep_rg [OF assms(5)] by simp
  have m: "(a, k) \<in> fs F" using assms(2) by simp
  have nl: "(a, k) \<notin> L" using assms(1) m unfolding binv_def by blast
  have "insert (a, k) H \<union> fs (F(k := F k - {a})) \<union> L = H \<union> fs F \<union> L" using m by (auto simp: fs_remove)
  then show "binv b' (F(k := F k - {a})) L (insert (a, k) H)" using assms m nl unfolding binv_def e fs_remove by auto
  show "(a, k) \<notin> H" using assms(1) m unfolding binv_def by blast
qed

lemma insert_tier_bits:
  assumes inv: "binv b F L (insert (a, k) H)" and nin: "(a, k) \<notin> H"
    and i: "i < length (regions b)" "r_base (regions b ! i) = rbase a"
    and put: "\<And>b1. tiers_ok b1 F \<Longrightarrow> i < length (regions b1) \<Longrightarrow> r_base (regions b1 ! i) = rbase a \<Longrightarrow>
      b_cache_len b1 = b_cache_len b \<Longrightarrow>
      \<exists>b'. op b1 = Some b' \<and> tiers_ok b' (F(k := insert a (F k))) \<and> frame b1 b'
        \<and> (\<forall>j. j \<noteq> k \<longrightarrow> b_cache_len b' j = b_cache_len b1 j)"
  shows "\<exists>b'. Option.bind (upd_region i (set_free_bit a k) b) op = Some b' \<and> binv b' (F(k := insert a (F k))) L H
    \<and> keep b b' \<and> (\<forall>j. j \<noteq> k \<longrightarrow> b_cache_len b' j = b_cache_len b j)"
proof -
  note D = binvD [OF inv]
  have m: "(a, k) \<in> insert (a, k) H" by simp
  note A = binv_held [OF inv m]
  obtain b1 where b1: "upd_region i (set_free_bit a k) b = Some b1" "tiers_ok b1 F" "bits_ok b1 (F(k := insert a (F k)))"
    "keep b b1" "b_cache_len b1 = b_cache_len b" using set_bit_ok [OF D(1,2) A(1) i] by blast
  have i1: "i < length (regions b1)" "r_base (regions b1 ! i) = rbase a"
    using keep_length [OF b1(4)] keep_base [OF b1(4) i(1)] i by auto
  obtain b' where b': "op b1 = Some b'" "tiers_ok b' (F(k := insert a (F k)))" "frame b1 b'"
    "\<forall>j. j \<noteq> k \<longrightarrow> b_cache_len b' j = b_cache_len b1 j" using put [OF b1(2) i1 b1(5)] by blast
  have k': "keep b b'" by (rule keep_trans [OF b1(4) frame_keep [OF b'(3)]])
  have "bits_ok b' (F(k := insert a (F k)))" using b1(3) frame_bits [OF b'(3)] by simp
  then have "binv b' (F(k := insert a (F k))) L H" using binv_put [OF inv nin b'(2) _ k'] by blast
  then show ?thesis using b1(1,5) b'(1,4) k' by auto
qed

lemma stash_free_ok:
  assumes inv: "binv b F L (insert (a, k) H)" and nin: "(a, k) \<notin> H"
    and i: "i < length (regions b)" "r_base (regions b ! i) = rbase a"
  shows "\<exists>b'. stash_free a k i b = Some b' \<and> binv b' (F(k := insert a (F k))) L H
    \<and> keep b b' \<and> (\<forall>j. j \<noteq> k \<longrightarrow> b_cache_len b' j = b_cache_len b j)"
  unfolding stash_free_def
proof (rule insert_tier_bits [OF inv nin i])
  have m: "(a, k) \<in> insert (a, k) H" by simp
  fix b1 assume "tiers_ok b1 F" "i < length (regions b1)" "r_base (regions b1 ! i) = rbase a"
  then show "\<exists>b'. (if k \<ge> OOB_MIN_ORDER then oob_push a k i b1
        else if unat (b_cache_len b1 k) < ORDER_CACHE
        then Some (b1\<lparr>b_cache := (b_cache b1)(k := (b_cache b1 k)(unat (b_cache_len b1 k) := a)),
                     b_cache_len := (b_cache_len b1)(k := b_cache_len b1 k + 1)\<rparr>)
        else Some (push_list a k b1)) = Some b' \<and> tiers_ok b' (F(k := insert a (F k))) \<and> frame b1 b'
        \<and> (\<forall>j. j \<noteq> k \<longrightarrow> b_cache_len b' j = b_cache_len b1 j)"
    using tier_insert_ok [of b1 F a k i] binv_held [OF inv m] by blast
qed

section \<open>Merging\<close>

lemma merge_step:
  assumes inv: "binv b F L (insert (a, k) H)" and nin: "(a, k) \<notin> H" and k: "k < 16"
    and i: "i < length (regions b)" "r_base (regions b ! i) = rbase a"
  defines "u \<equiv> a XOR block_size k" and "m \<equiv> a AND NOT (block_size (k + 1) - 1)"
  assumes free: "is_free_bit (regions b ! i) u k"
  shows "\<exists>b1 b2. remove_free u k b = Some b1 \<and> upd_region i (clear_free_bit u k) b1 = Some b2
      \<and> binv b2 (F(k := F k - {u})) L (insert (m, k + 1) H) \<and> (m, k + 1) \<notin> H \<and> keep b b2
      \<and> (\<forall>j. unat (b_cache_len b2 j) \<le> unat (b_cache_len b j))"
    and "rbase m = rbase a"
proof -
  note D = binvD [OF inv]
  have mem: "(a, k) \<in> insert (a, k) H" by simp
  note A = binv_held [OF inv mem]
  note G = buddy_halves [OF A(1) k A(4), folded u_def m_def]
  show "rbase m = rbase a" by (rule G(4))
  have rgb: "rg b (rbase u) = Some (regions b ! i)" using rg_nth [OF D(4) i(1)] i(2) G(3) by simp
  then have uF: "u \<in> F k" using D(2) G(1) free by (simp add: bits_ok_def)
  obtain b1 where b1: "remove_free u k b = Some b1" "tiers_ok b1 (F(k := F k - {u}))" "frame b b1"
    "\<forall>j. unat (b_cache_len b1 j) \<le> unat (b_cache_len b j)" using remove_free_ok [OF D(1) uF] by blast
  have kp1: "keep b b1" by (rule frame_keep [OF b1(3)])
  have i1: "i < length (regions b1)" "r_base (regions b1 ! i) = rbase u"
    using keep_length [OF kp1] keep_base [OF kp1 i(1)] i G(3) by auto
  have "bits_ok b1 F" using frame_bits [OF b1(3)] D(2) by simp
  then obtain b2 where b2: "upd_region i (clear_free_bit u k) b1 = Some b2" "tiers_ok b2 (F(k := F k - {u}))"
    "bits_ok b2 (F(k := F k - {u}))" "keep b1 b2" "b_cache_len b2 = b_cache_len b1"
    using clear_bit_ok [OF b1(2) _ G(1) i1] by blast
  have kp: "keep b b2" by (rule keep_trans [OF kp1 b2(4)])
  let ?F = "F(k := F k - {u})"
  note T = binv_take [OF inv uF b2(2,3) kp]
  let ?B = "{x. rg b2 x \<noteq> None}" and ?R = "H \<union> fs ?F \<union> L"
  have t: "tiling ?B (insert (u, k) (insert (a, k) ?R))" using T(1) by (simp add: binv_def)
  have out: "(a, k) \<notin> ?R" "(u, k) \<notin> ?R"
    using T nin uF G(7) unfolding binv_def by (auto simp: fs_remove)
  have t': "tiling ?B (insert (m, k + 1) ?R)"
    by (rule tiling_coarsen [OF t out(2,1)]) (use G in auto)
  have far: "(m, k + 1) \<notin> ?R"
  proof
    assume "(m, k + 1) \<in> ?R"
    then have "(m, k + 1) \<in> insert (u, k) (insert (a, k) ?R)" by simp
    then have "span a k \<inter> span m (k + 1) = {}" using tilingD(3) [OF t, of a k m "k + 1"] by auto
    then show False using G(5) bspan_nonempty [of a k] by auto
  qed
  have "binv b2 ?F L (insert (m, k + 1) H)"
    using T(1) t' far b2(2,3) unfolding binv_def by auto
  then show "\<exists>b1 b2. remove_free u k b = Some b1 \<and> upd_region i (clear_free_bit u k) b1 = Some b2
      \<and> binv b2 (F(k := F k - {u})) L (insert (m, k + 1) H) \<and> (m, k + 1) \<notin> H \<and> keep b b2
      \<and> (\<forall>j. unat (b_cache_len b2 j) \<le> unat (b_cache_len b j))"
    using b1(1,4) b2(1,5) kp far by auto
qed

lemma merge_up_ok:
  assumes "binv b F L (insert (a, k) H)" and "(a, k) \<notin> H"
    and "i < length (regions b)" "r_base (regions b ! i) = rbase a"
  shows "\<exists>a' k' b' F'. merge_up a k i b = Some (a', k', b') \<and> binv b' F' L (insert (a', k') H) \<and> (a', k') \<notin> H
    \<and> keep b b' \<and> rbase a' = rbase a \<and> k \<le> k' \<and> (\<forall>j. unat (b_cache_len b' j) \<le> unat (b_cache_len b j))"
  using assms
proof (induction "16 - k" arbitrary: a k b F)
  case 0
  then show ?case by (subst merge_up.simps) auto
next
  case (Suc n)
  then have k: "k < 16" by simp
  let ?u = "a XOR block_size k" and ?m = "a AND NOT (block_size (k + 1) - 1)"
  have at: "region_at i b = Some (regions b ! i)" using Suc.prems(3) by (simp add: region_at_def)
  show ?case
  proof (cases "is_free_bit (regions b ! i) ?u k")
    case False
    then have "merge_up a k i b = Some (a, k, b)" by (subst merge_up.simps) (simp add: k at Let_def)
    then show ?thesis using Suc.prems by auto
  next
    case True
    note M = merge_step [OF Suc.prems(1,2) k Suc.prems(3,4) True]
    obtain b1 b2 where b: "remove_free ?u k b = Some b1" "upd_region i (clear_free_bit ?u k) b1 = Some b2"
      "binv b2 (F(k := F k - {?u})) L (insert (?m, k + 1) H)" "(?m, k + 1) \<notin> H" "keep b b2"
      "\<forall>j. unat (b_cache_len b2 j) \<le> unat (b_cache_len b j)" using M(1) by blast
    have i2: "i < length (regions b2)" "r_base (regions b2 ! i) = rbase ?m"
      using keep_length [OF b(5)] keep_base [OF b(5) Suc.prems(3)] Suc.prems(3,4) M(2) by auto
    have "n = 16 - (k + 1)" using Suc.hyps(2) by simp
    from Suc.hyps(1) [OF this b(3,4) i2] obtain a' k' b' F' where
      r: "merge_up ?m (k + 1) i b2 = Some (a', k', b')" "binv b' F' L (insert (a', k') H)" "(a', k') \<notin> H"
      "keep b2 b'" "rbase a' = rbase ?m" "k + 1 \<le> k'" "\<forall>j. unat (b_cache_len b' j) \<le> unat (b_cache_len b2 j)" by blast
    have "merge_up a k i b = Some (a', k', b')" by (subst merge_up.simps) (simp add: k at Let_def True b(1,2) r(1) [simplified])
    moreover have "\<forall>j. unat (b_cache_len b' j) \<le> unat (b_cache_len b j)" using r(7) b(6) le_trans by blast
    ultimately show ?thesis using r(2,3,5,6) M(2) keep_trans [OF b(5) r(4)] by (intro exI [of _ a'] exI [of _ k'] exI [of _ b'] exI [of _ F']) simp
  qed
qed

end
