(* ===== verification/BuddyFree.thy ===== *)
theory BuddyFree
  imports BuddyCorrect
begin

text \<open>
  Freeing in the buddy allocator: draining a tier merges blocks with their free buddies and puts each in
  the tier of its order, and \<open>free_order\<close> never panics, whatever the tiers hold, and moves its block
  from the live blocks to the free ones.
\<close>

section \<open>Draining\<close>

text \<open>A block popped from its tier: its region is found and its bit cleared.\<close>

lemma take_clear:
  assumes inv: "binv b F L H" and a: "a \<in> F k" and b1: "tiers_ok b1 (F(k := F k - {a}))" "frame b b1"
  shows "\<exists>i l b2. region_index_of a b1 = (Some i, b1\<lparr>last_region := l\<rparr>)
    \<and> upd_region i (clear_free_bit a k) (b1\<lparr>last_region := l\<rparr>) = Some b2
    \<and> binv b2 (F(k := F k - {a})) L (insert (a, k) H) \<and> (a, k) \<notin> H \<and> keep b b2
    \<and> i < length (regions b2) \<and> r_base (regions b2 ! i) = rbase a \<and> b_cache_len b2 = b_cache_len b1"
proof -
  note D = binvD [OF inv]
  note A = tiers_okD(3,4) [OF D(1) a]
  have "rg b1 (rbase a) \<noteq> None" using A(2) frame_None [OF b1(2)] by simp
  then obtain r where r: "rg b1 (rbase a) = Some r" by auto
  obtain i l where i: "region_index_of a b1 = (Some i, b1\<lparr>last_region := l\<rparr>)" "i < length (regions b1)"
    "regions b1 ! i = r" "r_base r = rbase a" using region_index_of_Some [OF tiers_okD(2) [OF b1(1)] r] .
  let ?b = "b1\<lparr>last_region := l\<rparr>"
  have f: "frame b ?b" using b1(2) by simp
  have t: "tiers_ok ?b (F(k := F k - {a}))" using b1(1) by simp
  have bits: "bits_ok ?b F" using frame_bits [OF f] D(2) by simp
  have ii: "i < length (regions ?b)" "r_base (regions ?b ! i) = rbase a" using i by auto
  obtain b2 where b2: "upd_region i (clear_free_bit a k) ?b = Some b2" "tiers_ok b2 (F(k := F k - {a}))"
    "bits_ok b2 (F(k := F k - {a}))" "keep ?b b2" "b_cache_len b2 = b_cache_len ?b"
    using clear_bit_ok [OF t bits A(1) ii] by blast
  have kp: "keep b b2" by (rule keep_trans [OF frame_keep [OF f] b2(4)])
  have i2: "i < length (regions b2)" "r_base (regions b2 ! i) = rbase a"
    using keep_length [OF b2(4)] keep_base [OF b2(4)] ii by auto
  show ?thesis using i(1) b2(1,5) binv_take [OF inv a b2(2,3) kp] kp i2
    by (intro exI [of _ i] exI [of _ l] exI [of _ b2]) simp
qed

lemma oob_drain_ok:
  assumes "binv b F L H" and "10 \<le> k" and "k \<le> 16"
  shows "\<exists>b' F'. oob_drain k n b = Some b' \<and> binv b' F' L H \<and> keep b b'"
  using assms(1)
proof (induction n arbitrary: b F)
  case 0
  then show ?case by auto
next
  case (Suc n)
  note D = binvD [OF Suc.prems]
  show ?case
  proof (cases "F k = {}")
    case True
    then have "oob_drain k (Suc n) b = Some b" using oob_pop_ok [OF D(1) assms(2,3)] by simp
    then show ?thesis using Suc.prems by auto
  next
    case False
    obtain a b1 where b1: "oob_pop k b = Some (Some a, b1)" "a \<in> F k" "tiers_ok b1 (F(k := F k - {a}))" "frame b b1"
      using oob_pop_ok [OF D(1) assms(2,3)] False by (simp only: if_False) blast
    obtain i l b2 where b2: "region_index_of a b1 = (Some i, b1\<lparr>last_region := l\<rparr>)"
      "upd_region i (clear_free_bit a k) (b1\<lparr>last_region := l\<rparr>) = Some b2"
      "binv b2 (F(k := F k - {a})) L (insert (a, k) H)" "(a, k) \<notin> H" "keep b b2"
      "i < length (regions b2)" "r_base (regions b2 ! i) = rbase a"
      using take_clear [OF Suc.prems b1(2-4)] by blast
    obtain a' k' b3 F3 where m: "merge_up a k i b2 = Some (a', k', b3)" "binv b3 F3 L (insert (a', k') H)" "(a', k') \<notin> H"
      "keep b2 b3" "rbase a' = rbase a" "k \<le> k'" using merge_up_ok [OF b2(3,4,6,7)] by blast
    have kp3: "keep b b3" by (rule keep_trans [OF b2(5) m(4)])
    have i3: "i < length (regions b3)" "r_base (regions b3 ! i) = rbase a'"
      using keep_length [OF m(4)] keep_base [OF m(4)] b2(6,7) m(5) by auto
    have mem: "(a', k') \<in> insert (a', k') H" by simp
    note A = binv_held [OF m(2) mem]
    have "\<exists>b4. (if k' = k then Option.bind (upd_region i (set_free_bit a' k') b3) (oob_push_tail a' k' i)
        else stash_free a' k' i b3) = Some b4 \<and> binv b4 (F3(k' := insert a' (F3 k'))) L H \<and> keep b3 b4"
    proof (cases "k' = k")
      case True
      have put: "\<exists>b'. oob_push_tail a' k' i c = Some b' \<and> tiers_ok b' (F3(k' := insert a' (F3 k'))) \<and> frame c b'
          \<and> (\<forall>j. j \<noteq> k' \<longrightarrow> b_cache_len b' j = b_cache_len c j)"
        if c: "tiers_ok c F3" "i < length (regions c)" "r_base (regions c ! i) = rbase a'" for c
      proof -
        have "10 \<le> k'" using True assms(2) by simp
        from oob_push_ok(2) [OF c(1) A(1) this A(2) c(2,3)] show ?thesis
          by (elim exE conjE) (intro exI conjI, assumption+, simp add: low_same_def)
      qed
      obtain b4 where b4: "Option.bind (upd_region i (set_free_bit a' k') b3) (oob_push_tail a' k' i) = Some b4"
        "binv b4 (F3(k' := insert a' (F3 k'))) L H" "keep b3 b4"
        using insert_tier_bits [OF m(2,3) i3 put] by blast
      show ?thesis by (rule exI [of _ b4]) (simp only: True if_True b4 simp_thms b4 [unfolded True])
    next
      case False
      obtain b4 where b4: "stash_free a' k' i b3 = Some b4"
        "binv b4 (F3(k' := insert a' (F3 k'))) L H" "keep b3 b4"
        using stash_free_ok [OF m(2,3) i3] by blast
      show ?thesis by (rule exI [of _ b4]) (simp only: False if_False b4 simp_thms)
    qed
    then obtain b4 where b4: "(if k' = k then Option.bind (upd_region i (set_free_bit a' k') b3) (oob_push_tail a' k' i)
        else stash_free a' k' i b3) = Some b4" "binv b4 (F3(k' := insert a' (F3 k'))) L H" "keep b3 b4" by blast
    have e: "oob_drain k (Suc n) b = oob_drain k n b4"
    proof (cases "k' = k")
      case True
      then obtain c where "upd_region i (set_free_bit a' k) b3 = Some c" "oob_push_tail a' k i c = Some b4"
        using b4(1) by (auto simp: Option.bind_eq_Some_conv)
      then show ?thesis using b1(1) b2(1,2) m(1) True by simp
    next
      case False
      then show ?thesis using b1(1) b2(1,2) m(1) b4(1) by simp
    qed
    obtain b' F' where r: "oob_drain k n b4 = Some b'" "binv b' F' L H" "keep b4 b'"
      using Suc.IH [OF b4(2)] by blast
    show ?thesis using e r keep_trans [OF keep_trans [OF kp3 b4(3)] r(3)]
      by (intro exI [of _ b'] exI [of _ F']) simp
  qed
qed

lemma row_last:
  assumes ok: "tiers_ok b F" and k: "k \<le> 16" and len: "b_cache_len b k \<noteq> 0"
  shows "k < 10" and "b_cache b k (unat (b_cache_len b k - 1)) \<in> F k"
    and "tiers_ok (b\<lparr>b_cache_len := (b_cache_len b)(k := b_cache_len b k - 1)\<rparr>)
      (F(k := F k - {b_cache b k (unat (b_cache_len b k - 1))}))"
proof -
  show k10: "k < 10"
  proof (rule ccontr)
    assume "\<not> k < 10"
    then have "b_cache_len b k = 0" using ok k by (simp add: tiers_ok_def high_idle_def)
    then show False using len by simp
  qed
  have pos: "0 < b_cache_len b k" using len by (simp add: word_gt_0)
  show "b_cache b k (unat (b_cache_len b k - 1)) \<in> F k"
    and "tiers_ok (b\<lparr>b_cache_len := (b_cache_len b)(k := b_cache_len b k - 1)\<rparr>)
      (F(k := F k - {b_cache b k (unat (b_cache_len b k - 1))}))" using cache_pop_ok [OF ok k10 pos] by auto
qed

lemma merge_drain_row_ok:
  assumes "binv b F L H" and "k \<le> 16"
  shows "\<exists>m b' F'. merge_drain_row k n b = Some (m, b') \<and> binv b' F' L H \<and> keep b b'
    \<and> unat (b_cache_len b' k) \<le> unat (b_cache_len b k) - (if 0 < n then 1 else 0)"
  using assms(1)
proof (induction n arbitrary: b F)
  case 0
  then show ?case by auto
next
  case (Suc n)
  note D = binvD [OF Suc.prems]
  show ?case
  proof (cases "b_cache_len b k = 0")
    case True
    then show ?thesis using Suc.prems by auto
  next
    case False
    let ?a = "b_cache b k (unat (b_cache_len b k - 1))"
    let ?b1 = "b\<lparr>b_cache_len := (b_cache_len b)(k := b_cache_len b k - 1)\<rparr>"
    note R = row_last [OF D(1) assms(2) False]
    have f1: "frame b ?b1" by (rule low_frames(4))
    obtain i l b2 where b2: "region_index_of ?a ?b1 = (Some i, ?b1\<lparr>last_region := l\<rparr>)"
      "upd_region i (clear_free_bit ?a k) (?b1\<lparr>last_region := l\<rparr>) = Some b2"
      "binv b2 (F(k := F k - {?a})) L (insert (?a, k) H)" "(?a, k) \<notin> H" "keep b b2"
      "i < length (regions b2)" "r_base (regions b2 ! i) = rbase ?a" "b_cache_len b2 = b_cache_len ?b1"
      using take_clear [OF Suc.prems R(2,3) f1] by blast
    obtain a' k' b3 F3 where m: "merge_up ?a k i b2 = Some (a', k', b3)" "binv b3 F3 L (insert (a', k') H)" "(a', k') \<notin> H"
      "keep b2 b3" "rbase a' = rbase ?a" "k \<le> k'" "\<forall>j. unat (b_cache_len b3 j) \<le> unat (b_cache_len b2 j)"
      using merge_up_ok [OF b2(3,4,6,7)] by blast
    have kp3: "keep b b3" by (rule keep_trans [OF b2(5) m(4)])
    have i3: "i < length (regions b3)" "r_base (regions b3 ! i) = rbase a'"
      using keep_length [OF m(4)] keep_base [OF m(4)] b2(6,7) m(5) by auto
    have mem: "(a', k') \<in> insert (a', k') H" by simp
    note A = binv_held [OF m(2) mem]
    have "\<exists>b4. (if k' = k then Option.bind (upd_region i (set_free_bit a' k') b3)
          (\<lambda>b. if k' \<ge> OOB_MIN_ORDER then oob_push a' k' i b else Some (push_list a' k' b))
        else stash_free a' k' i b3) = Some b4 \<and> binv b4 (F3(k' := insert a' (F3 k'))) L H \<and> keep b3 b4
        \<and> b_cache_len b4 k = b_cache_len b3 k"
    proof (cases "k' = k")
      case True
      have put: "\<exists>b'. (if k' \<ge> OOB_MIN_ORDER then oob_push a' k' i c else Some (push_list a' k' c)) = Some b'
          \<and> tiers_ok b' (F3(k' := insert a' (F3 k'))) \<and> frame c b' \<and> (\<forall>j. j \<noteq> k' \<longrightarrow> b_cache_len b' j = b_cache_len c j)"
        if c: "tiers_ok c F3" "i < length (regions c)" "r_base (regions c ! i) = rbase a'" for c
      proof -
        have "rg c (rbase a') \<noteq> None" using rg_nth [OF tiers_okD(2) [OF c(1)] c(2)] c(3) by simp
        then show ?thesis using push_list_ok [OF c(1) A(1) _ A(2)] low_frames(1) R(1) True
          by (auto simp: push_list_def Let_def)
      qed
      obtain b4 where b4: "Option.bind (upd_region i (set_free_bit a' k') b3)
          (\<lambda>b. if k' \<ge> OOB_MIN_ORDER then oob_push a' k' i b else Some (push_list a' k' b)) = Some b4"
        "binv b4 (F3(k' := insert a' (F3 k'))) L H" "keep b3 b4"
        using insert_tier_bits [OF m(2,3) i3 put] by blast
      obtain c where c: "upd_region i (set_free_bit a' k') b3 = Some c" "b4 = push_list a' k' c"
        using b4(1) True R(1) by (auto simp: Option.bind_eq_Some_conv)
      have "b_cache_len b4 = b_cache_len b3"
        using c by (auto simp: upd_region_def push_list_def Let_def split: if_splits)
      then show ?thesis using b4 True by auto
    next
      case False
      then show ?thesis using stash_free_ok [OF m(2,3) i3] by auto
    qed
    then obtain b4 where b4: "(if k' = k then Option.bind (upd_region i (set_free_bit a' k') b3)
          (\<lambda>b. if k' \<ge> OOB_MIN_ORDER then oob_push a' k' i b else Some (push_list a' k' b))
        else stash_free a' k' i b3) = Some b4" "binv b4 (F3(k' := insert a' (F3 k'))) L H" "keep b3 b4"
        "b_cache_len b4 k = b_cache_len b3 k" by blast
    obtain q b' F' where r: "merge_drain_row k n b4 = Some (q, b')" "binv b' F' L H" "keep b4 b'"
      "unat (b_cache_len b' k) \<le> unat (b_cache_len b4 k) - (if 0 < n then 1 else 0)" using Suc.IH [OF b4(2)] by blast
    have "\<exists>q'. merge_drain_row k (Suc n) b = Some (q', b')"
    proof (cases "k' = k")
      case True
      then obtain c where "upd_region i (set_free_bit a' k) b3 = Some c"
        "(if k \<ge> OOB_MIN_ORDER then oob_push a' k i c else Some (push_list a' k c)) = Some b4"
        using b4(1) by (auto simp: Option.bind_eq_Some_conv)
      then show ?thesis using False b2(1,2) m(1) True r(1) by (simp add: Let_def)
    next
      case F: False
      then show ?thesis using False b2(1,2) m(1) b4(1) r(1) by (intro exI [of _ True]) (simp add: Let_def)
    qed
    moreover have "unat (b_cache_len b' k) \<le> unat (b_cache_len b k) - 1"
    proof -
      have "unat (b_cache_len b2 k) = unat (b_cache_len b k) - 1"
        using b2(8) False by (simp add: unat_minus_one)
      then show ?thesis using r(4) b4(4) m(7) by (metis diff_le_self le_trans)
    qed
    ultimately show ?thesis using r(2) keep_trans [OF keep_trans [OF kp3 b4(3)] r(3)] by auto
  qed
qed

section \<open>Freeing\<close>

lemma pending_fields [simp]:
  "rlp (b\<lparr>oob_pending := p\<rparr>) = rlp b" "rln (b\<lparr>oob_pending := p\<rparr>) = rln b" "listed (b\<lparr>oob_pending := p\<rparr>) = listed b"
  "regions (b\<lparr>oob_pending := p\<rparr>) = regions b"
  by (auto simp: rlp_def rln_def listed_def fun_eq_iff)

lemma binv_pending [simp]: "binv (b\<lparr>oob_pending := p\<rparr>) F L H = binv b F L H"
  and keep_pending [simp]: "keep b (b'\<lparr>oob_pending := p\<rparr>) = keep b b'"
  and keep_pending' [simp]: "keep (b\<lparr>oob_pending := p\<rparr>) b' = keep b b'"
  by (simp_all add: binv_def bits_ok_def tiers_ok_def free_ok_def bases_ok_def low_ok_def row_def high_idle_def
      high_slots_def high_lists_def rlist_ok_def keep_def)

lemma binv_last [simp]: "binv (b\<lparr>last_region := l\<rparr>) F L H = binv b F L H"
  and keep_last [simp]: "keep b (b'\<lparr>last_region := l\<rparr>) = keep b b'"
  and keep_last' [simp]: "keep (b\<lparr>last_region := l\<rparr>) b' = keep b b'"
  by (simp_all add: binv_def bits_ok_def keep_def)

lemma binv_release:
  assumes "binv b F L H" and "(a, k) \<in> L" shows "binv b F (L - {(a, k)}) (insert (a, k) H)"
proof -
  have "insert (a, k) H \<union> fs F \<union> (L - {(a, k)}) = H \<union> fs F \<union> L" using assms(2) by blast
  moreover have "(a, k) \<notin> fs F" using assms unfolding binv_def by blast
  ultimately show ?thesis using assms unfolding binv_def by auto
qed

lemma binv_acquire:
  assumes "binv b F L (insert (a, k) H)" and "(a, k) \<notin> H" shows "binv b F (insert (a, k) L) H"
proof -
  have "H \<union> fs F \<union> insert (a, k) L = insert (a, k) H \<union> fs F \<union> L" by blast
  then show ?thesis using assms unfolding binv_def by auto
qed

lemma free_high_ok:
  assumes inv: "binv b F L (insert (a, k) H)" and nin: "(a, k) \<notin> H" and k: "10 \<le> k"
    and i: "i < length (regions b)" "r_base (regions b ! i) = rbase a"
  shows "\<exists>b1 b2. upd_region i (set_free_bit a k) b = Some b1 \<and> oob_push a k i b1 = Some b2
    \<and> binv b2 (F(k := insert a (F k))) L H \<and> keep b b2"
proof -
  have m: "(a, k) \<in> insert (a, k) H" by simp
  note A = binv_held [OF inv m]
  have put: "\<exists>b'. oob_push a k i c = Some b' \<and> tiers_ok b' (F(k := insert a (F k))) \<and> frame c b'
      \<and> (\<forall>j. j \<noteq> k \<longrightarrow> b_cache_len b' j = b_cache_len c j)"
    if c: "tiers_ok c F" "i < length (regions c)" "r_base (regions c ! i) = rbase a" for c
    using oob_push_ok(1) [OF c(1) A(1) k A(2) c(2,3)]
    by (elim exE conjE) (intro exI conjI, assumption+, simp add: low_same_def)
  obtain b2 where b2: "Option.bind (upd_region i (set_free_bit a k) b) (oob_push a k i) = Some b2"
    "binv b2 (F(k := insert a (F k))) L H" "keep b b2" using insert_tier_bits [OF inv nin i put] by blast
  then show ?thesis by (auto simp: Option.bind_eq_Some_conv)
qed

lemma free_low_ok:
  assumes inv: "binv b F L (insert (a, k) H)" and nin: "(a, k) \<notin> H" and k: "k < 10"
    and i: "i < length (regions b)" "r_base (regions b ! i) = rbase a" and len: "unat (b_cache_len b k) < ORDER_CACHE"
  shows "\<exists>b1. upd_region i (set_free_bit a k) b = Some b1 \<and> unat (b_cache_len b1 k) < ORDER_CACHE
    \<and> binv (b1\<lparr>b_cache := (b_cache b1)(k := (b_cache b1 k)(unat (b_cache_len b1 k) := a)),
              b_cache_len := (b_cache_len b1)(k := b_cache_len b1 k + 1)\<rparr>) (F(k := insert a (F k))) L H
    \<and> keep b (b1\<lparr>b_cache := (b_cache b1)(k := (b_cache b1 k)(unat (b_cache_len b1 k) := a)),
              b_cache_len := (b_cache_len b1)(k := b_cache_len b1 k + 1)\<rparr>)"
proof -
  have m: "(a, k) \<in> insert (a, k) H" by simp
  note A = binv_held [OF inv m] and D = binvD [OF inv]
  let ?put = "\<lambda>c. c\<lparr>b_cache := (b_cache c)(k := (b_cache c k)(unat (b_cache_len c k) := a)),
      b_cache_len := (b_cache_len c)(k := b_cache_len c k + 1)\<rparr>"
  have put: "\<exists>b'. Some (?put c) = Some b' \<and> tiers_ok b' (F(k := insert a (F k))) \<and> frame c b'
      \<and> (\<forall>j. j \<noteq> k \<longrightarrow> b_cache_len b' j = b_cache_len c j)"
    if c: "tiers_ok c F" "i < length (regions c)" "r_base (regions c ! i) = rbase a" "b_cache_len c = b_cache_len b" for c
  proof (intro exI [of _ "?put c"] conjI)
    have "rg c (rbase a) \<noteq> None" using rg_nth [OF tiers_okD(2) [OF c(1)] c(2)] c(3) by simp
    then show "tiers_ok (?put c) (F(k := insert a (F k)))" using cache_push_ok [OF c(1) A(1) k A(2)] len c(4) by simp
    show "frame c (?put c)" by (rule low_frames(5))
  qed simp_all
  obtain b2 where b2: "Option.bind (upd_region i (set_free_bit a k) b) (\<lambda>c. Some (?put c)) = Some b2"
    "binv b2 (F(k := insert a (F k))) L H" "keep b b2" using insert_tier_bits [OF inv nin i put] by blast
  obtain b1 where b1: "upd_region i (set_free_bit a k) b = Some b1" "b2 = ?put b1"
    using b2(1) by (auto simp: Option.bind_eq_Some_conv)
  have "b_cache_len b1 = b_cache_len b" using b1(1) by (auto simp: upd_region_def split: if_splits)
  then show ?thesis using b1 b2(2,3) len by (intro exI [of _ b1]) simp
qed

lemma free_order_ok:
  assumes inv: "binv b F L (insert (a, k) H)" and nin: "(a, k) \<notin> H"
  shows "\<exists>b' F'. free_order a k b = Some b' \<and> binv b' F' L H \<and> keep b b'"
proof -
  have m: "(a, k) \<in> insert (a, k) H" by simp
  note A = binv_held [OF inv m] and D = binvD [OF inv]
  have k16: "k \<le> 16" using A(1) by (simp add: blk_def)
  obtain r where r: "rg b (rbase a) = Some r" using A(3) by auto
  obtain i l where i: "region_index_of a b = (Some i, b\<lparr>last_region := l\<rparr>)" "i < length (regions b)"
    "regions b ! i = r" "r_base r = rbase a" using region_index_of_Some [OF D(4) r] .
  let ?b = "b\<lparr>last_region := l\<rparr>"
  have inv0: "binv ?b F L (insert (a, k) H)" using inv by simp
  have i0: "i < length (regions ?b)" "r_base (regions ?b ! i) = rbase a" using i by auto
  show ?thesis
  proof (cases "10 \<le> k")
    case True
    obtain b1 b2 where b2: "upd_region i (set_free_bit a k) ?b = Some b1" "oob_push a k i b1 = Some b2"
      "binv b2 (F(k := insert a (F k))) L H" "keep ?b b2" using free_high_ok [OF inv0 nin True i0] by blast
    let ?p = "(oob_pending b2)(k - 10 := oob_pending b2 (k - 10) + 1)"
    let ?b3 = "b2\<lparr>oob_pending := ?p\<rparr>" and ?b4 = "b2\<lparr>oob_pending := ?p(k - 10 := 0)\<rparr>"
    obtain b5 F5 where d: "oob_drain k (unat (OOB_DRAIN_AT div 2)) ?b4 = Some b5" "binv b5 F5 L H" "keep ?b4 b5"
      using oob_drain_ok [of ?b4 "F(k := insert a (F k))" L H k "unat (OOB_DRAIN_AT div 2)"] b2(3) True k16
      by (simp only: binv_pending) blast
    have kp: "keep b b2" using keep_trans [of b ?b b2] b2(4) by simp
    have kp5: "keep b b5" using keep_trans [of b ?b4 b5] kp d(3) by simp
    show ?thesis
    proof (cases "?p (k - 10) \<ge> OOB_DRAIN_AT")
      case t: True
      have "free_order a k b = Some b5"
        using i(1) True b2(1,2) t d(1) by (simp add: free_order_def Let_def)
      then show ?thesis using d(2) kp5 by blast
    next
      case f: False
      have "free_order a k b = Some ?b3"
        using i(1) True b2(1,2) f by (simp add: free_order_def Let_def)
      then show ?thesis using b2(3) kp by (intro exI [of _ ?b3] exI [of _ "F(k := insert a (F k))"]) simp
    qed
  next
    case False
    then have k: "k < 10" by simp
    have le: "unat (b_cache_len ?b k) \<le> ORDER_CACHE"
      using D(1) k by (auto simp: tiers_ok_def low_ok_def)
    have "\<exists>c Fc. (if unat (b_cache_len ?b k) = ORDER_CACHE
        then map_option snd (merge_drain_row k (ORDER_CACHE div 2) ?b) else Some ?b) = Some c
        \<and> binv c Fc L (insert (a, k) H) \<and> keep ?b c \<and> unat (b_cache_len c k) < ORDER_CACHE"
    proof (cases "unat (b_cache_len ?b k) = ORDER_CACHE")
      case True
      obtain q c Fc where c: "merge_drain_row k (ORDER_CACHE div 2) ?b = Some (q, c)" "binv c Fc L (insert (a, k) H)"
        "keep ?b c" "unat (b_cache_len c k) \<le> unat (b_cache_len ?b k) - (if 0 < ORDER_CACHE div 2 then 1 else 0)"
        using merge_drain_row_ok [OF inv0 k16] by blast
      have "unat (b_cache_len c k) < ORDER_CACHE" using c(4) True by (simp add: ORDER_CACHE_def)
      then show ?thesis using True c(1-3) by (intro exI [of _ c] exI [of _ Fc]) simp
    next
      case f: False
      show ?thesis using f le inv0 by (intro exI [of _ ?b] exI [of _ F]) simp
    qed
    then obtain c Fc where c: "(if unat (b_cache_len ?b k) = ORDER_CACHE
        then map_option snd (merge_drain_row k (ORDER_CACHE div 2) ?b) else Some ?b) = Some c"
      "binv c Fc L (insert (a, k) H)" "keep ?b c" "unat (b_cache_len c k) < ORDER_CACHE" by blast
    have ic: "i < length (regions c)" "r_base (regions c ! i) = rbase a"
      using keep_length [OF c(3)] keep_base [OF c(3) i0(1)] i0 by auto
    obtain b1 where b1: "upd_region i (set_free_bit a k) c = Some b1" "unat (b_cache_len b1 k) < ORDER_CACHE"
      "binv (b1\<lparr>b_cache := (b_cache b1)(k := (b_cache b1 k)(unat (b_cache_len b1 k) := a)),
              b_cache_len := (b_cache_len b1)(k := b_cache_len b1 k + 1)\<rparr>) (Fc(k := insert a (Fc k))) L H"
      "keep c (b1\<lparr>b_cache := (b_cache b1)(k := (b_cache b1 k)(unat (b_cache_len b1 k) := a)),
              b_cache_len := (b_cache_len b1)(k := b_cache_len b1 k + 1)\<rparr>)" (is "keep c ?b2")
      using free_low_ok [OF c(2) nin k ic c(4)] by blast
    have "free_order a k b = Some ?b2"
      using i(1) k c(1) b1(1,2) by (simp add: free_order_def Let_def del: map_option_eq_Some)
    moreover have "keep b ?b2" using keep_trans [OF c(3) b1(4)] keep_trans [of b ?b ?b2] by simp
    ultimately show ?thesis using b1(3) by (intro exI [of _ ?b2] exI [of _ "Fc(k := insert a (Fc k))"]) simp
  qed
qed

lemma dealloc_order_batch_ok:
  assumes "binv b F L H" and "set ps \<times> {k} \<subseteq> L" and "distinct ps" and "L \<inter> H = {}"
  shows "\<exists>b' F'. dealloc_order_batch k ps b = Some b' \<and> binv b' F' (L - set ps \<times> {k}) H \<and> keep b b'"
  using assms
proof (induction ps arbitrary: b F L)
  case Nil
  then show ?case by auto
next
  case (Cons p ps)
  have nin: "(p, k) \<notin> H" using Cons.prems(2,4) by auto
  have "(p, k) \<in> L" using Cons.prems(2) by auto
  from free_order_ok [OF binv_release [OF Cons.prems(1) this] nin]
  obtain b1 F1 where b1: "free_order p k b = Some b1" "binv b1 F1 (L - {(p, k)}) H" "keep b b1" by blast
  have "set ps \<times> {k} \<subseteq> L - {(p, k)}" "distinct ps" "(L - {(p, k)}) \<inter> H = {}" using Cons.prems by auto
  from Cons.IH [OF b1(2) this] obtain b' F' where
    b': "dealloc_order_batch k ps b1 = Some b'" "binv b' F' (L - {(p, k)} - set ps \<times> {k}) H" "keep b1 b'" by blast
  have "L - {(p, k)} - set ps \<times> {k} = L - set (p # ps) \<times> {k}" by auto
  then show ?case using b1(1) b'(1,2) keep_trans [OF b1(3) b'(3)] by auto
qed

end
