(* ===== verification/BuddyTake.thy ===== *)
theory BuddyTake
  imports BuddyFree
begin

text \<open>
  Allocation in the buddy allocator: a block is taken from the smallest order that has one, split down to the
  order asked for and recorded in the order map; a refill maps a fresh region, whose four top blocks
  it puts in the tiers. An allocation returns, and only when a refill fails is it without a block.
\<close>

section \<open>Splitting\<close>

lemma binv_split:
  assumes inv: "binv b F L (insert (a, Suc j) H)" and nin: "(a, Suc j) \<notin> H"
  defines "u \<equiv> a + block_size j"
  shows "binv b F L (insert (u, j) (insert (a, j) H))" and "(u, j) \<notin> insert (a, j) H" and "(a, j) \<notin> H"
    and "rbase u = rbase a"
proof -
  have m: "(a, Suc j) \<in> insert (a, Suc j) H" by simp
  note D = binvD [OF inv] and A = binv_held [OF inv m]
  note U = upper_half [OF A(1,4), folded u_def]
  show "rbase u = rbase a" by (rule U(3))
  let ?S = "H \<union> fs F \<union> L"
  have t: "tiling {x. rg b x \<noteq> None} (insert (a, Suc j) ?S)" using D(3) by simp
  have out: "(a, Suc j) \<notin> ?S" using inv nin unfolding binv_def by auto
  have t': "tiling {x. rg b x \<noteq> None} (insert (a, j) (insert (u, j) ?S))"
    by (rule tiling_refine [OF t out]) (use blk_le [OF A(1)] U in auto)
  have far: "span a (Suc j) \<inter> span (fst y) (snd y) = {}" if "y \<in> ?S" for y
  proof -
    have "(a, Suc j) \<noteq> (fst y, snd y)" "(fst y, snd y) \<in> insert (a, Suc j) ?S" using out that by auto
    then show ?thesis using tilingD(3) [OF t] by blast
  qed
  have na: "(a, j) \<notin> ?S" using far [of "(a, j)"] U(4) bspan_nonempty [of a j] by auto
  have nu: "(u, j) \<notin> ?S" using far [of "(u, j)"] U(4) bspan_nonempty [of u j] by auto
  have ne: "u \<noteq> a" using U(5) bspan_nonempty [of a j] by auto
  show "(u, j) \<notin> insert (a, j) H" and "(a, j) \<notin> H" using na nu ne by auto
  have "insert (u, j) (insert (a, j) H) \<union> fs F \<union> L = insert (a, j) (insert (u, j) ?S)" by auto
  then show "binv b F L (insert (u, j) (insert (a, j) H))"
    using inv t' na nu ne unfolding binv_def by auto
qed

lemma split_down_ok:
  assumes "binv b F L (insert (a, j) H)" and "(a, j) \<notin> H" and "k \<le> j"
    and "i < length (regions b)" "r_base (regions b ! i) = rbase a"
  shows "\<exists>b' F'. split_down a j k i b = Some b' \<and> binv b' F' L (insert (a, k) H) \<and> (a, k) \<notin> H \<and> keep b b'"
  using assms
proof (induction j arbitrary: b F)
  case 0
  then show ?case by auto
next
  case (Suc j)
  show ?case
  proof (cases "k \<le> j")
    case False
    then show ?thesis using Suc.prems by (auto simp: le_Suc_eq)
  next
    case True
    let ?u = "a + block_size j"
    note S = binv_split [OF Suc.prems(1,2)]
    have iu: "i < length (regions b)" "r_base (regions b ! i) = rbase ?u" using Suc.prems(4,5) S(4) by auto
    obtain b1 where b1: "stash_free ?u j i b = Some b1" "binv b1 (F(j := insert ?u (F j))) L (insert (a, j) H)" "keep b b1"
      using stash_free_ok [OF S(1,2) iu] by blast
    have i1: "i < length (regions b1)" "r_base (regions b1 ! i) = rbase a"
      using keep_length [OF b1(3)] keep_base [OF b1(3) iu(1)] Suc.prems(4,5) by auto
    from Suc.IH [OF b1(2) S(3) True i1] obtain b' F' where
      b': "split_down a j k i b1 = Some b'" "binv b' F' L (insert (a, k) H)" "(a, k) \<notin> H" "keep b1 b'" by blast
    have "split_down a (Suc j) k i b = Some b'" using True b1(1) b'(1) by simp
    then show ?thesis using b'(2,3) keep_trans [OF b1(3) b'(4)] by blast
  qed
qed

section \<open>The order map\<close>

text \<open>While orders are recorded, the byte of a live block's slot is its order.\<close>

definition omap_ok :: "buddy \<Rightarrow> (usize \<times> nat) set \<Rightarrow> bool" where
  "omap_ok b L \<longleftrightarrow> (record_orders b \<longrightarrow> (\<forall>(a, k) \<in> L. 10 \<le> k \<longrightarrow>
     (\<exists>r. rg b (rbase a) = Some r \<and> r_order_map r (order_map_slot a (rbase a)) = of_nat k)))"

lemma omap_keep:
  assumes "omap_ok b L" and "keep b b'" and "L' \<subseteq> L" shows "omap_ok b' L'"
  unfolding omap_ok_def
proof (intro impI ballI, clarify)
  fix a k assume r: "record_orders b'" and a: "(a, k) \<in> L'" "10 \<le> k"
  have "record_orders b" using r assms(2) by (simp add: keep_def)
  then obtain r where "rg b (rbase a) = Some r" "r_order_map r (order_map_slot a (rbase a)) = of_nat k"
    using assms(1,3) a unfolding omap_ok_def by blast
  then show "\<exists>r. rg b' (rbase a) = Some r \<and> r_order_map r (order_map_slot a (rbase a)) = of_nat k"
    using keep_Some [OF assms(2)] unfolding kept_def by metis
qed

text \<open>The address of the order map of each region.\<close>

definition map_at :: "buddy \<Rightarrow> usize \<Rightarrow> usize option" where
  "map_at b x = map_option r_order_map_at (rg b x)"

lemma map_at_None: "map_at b x = None \<longleftrightarrow> rg b x = None"
  by (simp add: map_at_def)

lemma keep_map_at: assumes "keep b b'" shows "map_at b' = map_at b"
proof
  fix x
  have "rel_option kept (rg b x) (rg b' x)" using assms by (simp add: keep_def)
  then show "map_at b' x = map_at b x" by (cases "rg b x"; cases "rg b' x") (auto simp: map_at_def kept_def)
qed

text \<open>Recording an order only changes the order map.\<close>

definition put_order :: "usize \<Rightarrow> nat \<Rightarrow> region \<Rightarrow> region" where
  "put_order a k r = r\<lparr>r_order_map := (r_order_map r)(order_map_slot a (r_base r) := of_nat k)\<rparr>"

lemma put_order_fields [simp]:
  "r_base (put_order a k r) = r_base r" "slots_same r (put_order a k r)" "rl_prev (put_order a k r) = rl_prev r"
  "rl_next (put_order a k r) = rl_next r" "is_free_bit (put_order a k r) x j = is_free_bit r x j"
  "r_mapping (put_order a k r) = r_mapping r" "r_order_map_at (put_order a k r) = r_order_map_at r"
  by (simp_all add: put_order_def slots_same_def is_free_bit_def bit_pos_def)

lemma put_order_binv:
  assumes inv: "binv b F L H" shows "binv (upd x (put_order a k) b) F L H"
proof -
  have e: "{y. rg (upd x (put_order a k) b) y \<noteq> None} = {y. rg b y \<noteq> None}" by (auto simp: rg_upd)
  have "tiers_ok (upd x (put_order a k) b) F" by (rule tiers_ok_meta) (use binvD(1) [OF inv] in simp_all)
  moreover have "bits_ok (upd x (put_order a k) b) F"
    using binvD(2) [OF inv] by (auto simp: bits_ok_def rg_upd split: if_splits)
  ultimately show ?thesis using inv unfolding binv_def e by blast
qed

lemma record_order_ok:
  assumes inv: "binv b F L (insert (a, k) H)" and nin: "(a, k) \<notin> H" and om: "omap_ok b L"
    and i: "i < length (regions b)" "r_base (regions b ! i) = rbase a"
  shows "\<exists>b'. record_order a k i b = Some b' \<and> binv b' F (insert (a, k) L) H \<and> omap_ok b' (insert (a, k) L)
    \<and> map_at b' = map_at b \<and> record_orders b' = record_orders b"
proof (cases "record_orders b \<and> 10 \<le> k")
  case False
  then have "record_order a k i b = Some b" by (auto simp: record_order_def MIN_HEADERLESS_ORDER_def)
  moreover have "omap_ok b (insert (a, k) L)" using om False by (auto simp: omap_ok_def)
  ultimately show ?thesis using binv_acquire [OF inv nin] by auto
next
  case True
  let ?b = "upd (rbase a) (put_order a k) b"
  have m: "(a, k) \<in> insert (a, k) H" by simp
  note D = binvD [OF inv] and A = binv_held [OF inv m]
  have "record_order a k i b = Some ?b"
    using True upd_region_upd [OF D(4) i(1)] i(2)
    by (simp add: record_order_def MIN_HEADERLESS_ORDER_def put_order_def [abs_def])
  moreover have "binv ?b F (insert (a, k) L) H" by (rule put_order_binv [OF binv_acquire [OF inv nin]])
  moreover have "omap_ok ?b (insert (a, k) L)"
    unfolding omap_ok_def
  proof (intro impI ballI, clarify)
    fix a' k' assume a': "(a', k') \<in> insert (a, k) L" "10 \<le> k'"
    have T: "blk a' k'" using tilingD(1) [OF D(3), of a' k'] a'(1) by auto
    have L: "\<exists>r. rg b (rbase a') = Some r \<and> r_order_map r (order_map_slot a' (rbase a')) = of_nat k'" if "(a', k') \<in> L"
      using om True that a'(2) unfolding omap_ok_def by blast
    show "\<exists>r. rg ?b (rbase a') = Some r \<and> r_order_map r (order_map_slot a' (rbase a')) = of_nat k'"
    proof (cases "a' = a")
      case e: True
      have "k' = k" using tilingD(4) [OF D(3), of a k k'] a'(1) e by auto
      moreover obtain r where "rg b (rbase a) = Some r" using A(3) by auto
      ultimately show ?thesis using e rg_Some_base [of b "rbase a" r] by (auto simp: rg_upd put_order_def)
    next
      case ne: False
      then obtain r where r: "rg b (rbase a') = Some r" "r_order_map r (order_map_slot a' (rbase a')) = of_nat k'"
        using L a'(1) by auto
      have "order_map_slot a (rbase a) \<noteq> order_map_slot a' (rbase a')" if "rbase a' = rbase a"
        using slot_inj [OF A(1) _ refl T a'(2) that A(4)] True ne that by auto
      then show ?thesis using r rg_Some_base [OF r(1)] by (auto simp: rg_upd put_order_def)
    qed
  qed
  moreover have "map_at ?b = map_at b" by (auto simp: map_at_def rg_upd option.map_comp comp_def fun_eq_iff)
  ultimately show ?thesis by auto
qed

section \<open>Taking a block\<close>

lemma take_block_ok:
  assumes inv: "binv b F L {}" and om: "omap_ok b L" and k: "k \<le> j" "j \<le> 16" and ne: "F j \<noteq> {}"
  shows "\<exists>a b' F'. take_block j k b = Some (a, b') \<and> binv b' F' (insert (a, k) L) {} \<and> (a, k) \<notin> L
    \<and> omap_ok b' (insert (a, k) L) \<and> map_at b' = map_at b \<and> record_orders b' = record_orders b"
proof -
  note D = binvD [OF inv]
  obtain a b1 where b1: "pop_block j b = Some (a, b1)" "a \<in> F j" "tiers_ok b1 (F(j := F j - {a}))" "frame b b1"
    using pop_block_ok [OF D(1) k(2) ne] by blast
  obtain i l b2 where b2: "region_index_of a b1 = (Some i, b1\<lparr>last_region := l\<rparr>)"
    "upd_region i (clear_free_bit a j) (b1\<lparr>last_region := l\<rparr>) = Some b2"
    "binv b2 (F(j := F j - {a})) L {(a, j)}" "keep b b2"
    "i < length (regions b2)" "r_base (regions b2 ! i) = rbase a"
    using take_clear [OF inv b1(2-4)] by blast
  obtain b3 F3 where b3: "split_down a j k i b2 = Some b3" "binv b3 F3 L {(a, k)}" "keep b2 b3"
    using split_down_ok [OF b2(3) _ k(1) b2(5,6)] by blast
  have kp: "keep b b3" by (rule keep_trans [OF b2(4) b3(3)])
  have i3: "i < length (regions b3)" "r_base (regions b3 ! i) = rbase a"
    using keep_length [OF b3(3)] keep_base [OF b3(3) b2(5)] b2(5,6) by auto
  have om3: "omap_ok b3 L" by (rule omap_keep [OF om kp]) simp
  obtain b' where b': "record_order a k i b3 = Some b'" "binv b' F3 (insert (a, k) L) {}" "omap_ok b' (insert (a, k) L)"
    "map_at b' = map_at b3" "record_orders b' = record_orders b3"
    using record_order_ok [OF b3(2) _ om3 i3] by auto
  have "take_block j k b = Some (a, b')"
    using b1(1) b2(1,2) b3(1) b'(1) by (simp add: take_block_def expect_region_def)
  moreover have "(a, k) \<notin> L" using b3(2) unfolding binv_def by auto
  moreover have "map_at b' = map_at b" using b'(4) keep_map_at [OF kp] by simp
  moreover have "record_orders b' = record_orders b" using b'(5) kp by (simp add: keep_def)
  ultimately show ?thesis using b'(2,3) by blast
qed

section \<open>A new region\<close>

lemma find_insert:
  assumes "find (\<lambda>r. r_base r = r_base new) rs = None"
  shows "find (\<lambda>r. r_base r = x) (take i rs @ new # drop i rs)
    = (if x = r_base new then Some new else find (\<lambda>r. r_base r = x) rs)"
  using assms
proof (induction rs arbitrary: i)
  case Nil
  then show ?case by auto
next
  case (Cons r rs)
  then show ?case by (cases i) (auto split: if_splits)
qed

lemma sorted_insert:
  assumes "sorted_wrt (<) (map r_base rs)" and "\<forall>r \<in> set rs. r_base r \<noteq> r_base new"
  defines "i \<equiv> length (takeWhile (\<lambda>r. r_base r < r_base new) rs)"
  shows "sorted_wrt (<) (map r_base (take i rs @ new # drop i rs))" and "i \<le> length rs"
proof -
  show "i \<le> length rs" by (simp add: i_def length_takeWhile_le)
  show "sorted_wrt (<) (map r_base (take i rs @ new # drop i rs))"
    using assms(1,2) unfolding i_def
  proof (induction rs)
    case (Cons r rs)
    then have "r_base r \<noteq> r_base new" and gt: "\<forall>y \<in> set rs. r_base r < r_base y" by auto
    then consider "r_base r < r_base new" | "r_base new < r_base r" by (metis less_linear)
    then show ?case
    proof cases
      case 1
      then show ?thesis using Cons gt by (auto dest: in_set_takeD in_set_dropD)
    next
      case 2
      then show ?thesis using Cons.prems gt by (auto dest: order.strict_trans)
    qed
  qed simp
qed

lemma insert_region_ok:
  assumes ok: "tiers_ok b F" and bits: "bits_ok b F" and new: "rg b base = None" "region_base_ok base"
    and r: "r = fresh_region m carve" "map_ptr m = base" and e: "insert_region r b = (i, b')"
  shows "tiers_ok b' F" and "bits_ok b' F" and "i < length (regions b')" and "r_base (regions b' ! i) = base"
    and "rg b' x = (if x = base then Some r else rg b x)" and "record_orders b' = record_orders b"
proof -
  have rb: "r_base r = base" using r by (simp add: fresh_region_def)
  let ?j = "length (takeWhile (\<lambda>r'. r_base r' < base) (regions b))"
  have b': "b' = b\<lparr>regions := take ?j (regions b) @ r # drop ?j (regions b), last_region := ?j\<rparr>" and ij: "i = ?j"
    using e rb by (auto simp: insert_region_def Let_def)
  have notin: "\<forall>r' \<in> set (regions b). r_base r' \<noteq> r_base r"
    using new(1) rb by (auto simp: rg_def find_None_iff)
  note S = sorted_insert [OF tiers_okD(2) [OF ok, unfolded bases_sorted_def] notin, unfolded rb]
  have so: "bases_sorted b'" using S(1) by (simp add: bases_sorted_def b')
  show "i < length (regions b')" and "r_base (regions b' ! i) = base" using S(2) rb by (simp_all add: b' ij nth_append)
  have g: "rg b' x = (if x = base then Some r else rg b x)" for x
    using find_insert [of r "regions b" x ?j] new(1) rb by (simp add: rg_def b')
  then show "rg b' x = (if x = base then Some r else rg b x)" .
  show "record_orders b' = record_orders b" by (simp add: b')
  have out: "rbase a \<noteq> base" if "a \<in> F k" for a k using tiers_okD(4) [OF ok that] new(1) by auto
  have "free_ok b' F" using ok new(2) so unfolding tiers_ok_def free_ok_def bases_ok_def by (auto simp: g)
  moreover have "low_ok b' k (F k)" if "k < 10" for k
    using ok that by (simp add: tiers_ok_def low_ok_def row_def b')
  moreover have "high_idle b'" using ok by (simp add: tiers_ok_def high_idle_def b')
  moreover have "high_slots b' F"
    unfolding high_slots_def
  proof (intro allI impI)
    fix k x r' assume k: "10 \<le> k" "k \<le> (16::nat)" and r': "rg b' x = Some r'"
    show "\<exists>es. slots_ok r' (k - 10) es \<and> set es = enc x ` {a \<in> F k. rbase a = x}"
    proof (cases "x = base")
      case True
      have "{a \<in> F k. rbase a = base} = {}" using out by auto
      moreover have "r' = fresh_region m carve" using r' r True by (simp add: g)
      ultimately show ?thesis using True
        by (intro exI [of _ "[]"]) (simp add: slots_ok_def dll_Nil fresh_region_def last_or_def)
    next
      case False
      then show ?thesis using ok k r' by (simp add: g tiers_ok_def high_slots_def)
    qed
  qed
  moreover have "high_lists b'"
    unfolding high_lists_def
  proof (intro allI impI)
    fix oi :: nat assume "oi < 7"
    then obtain rs where rs: "rlist_ok b oi rs" "set rs = listed b oi" using ok unfolding tiers_ok_def high_lists_def by blast
    have ne: "x \<noteq> base" if "x \<in> set rs" for x using rs(1) that new(1) by (auto simp: rlist_ok_def)
    have "dll (rlp b' oi) (rln b' oi) 0 (oob_region_heads b oi) rs \<longleftrightarrow> dll (rlp b oi) (rln b oi) 0 (oob_region_heads b oi) rs"
      by (rule dll_cong) (simp add: rlp_def rln_def g ne)
    moreover have "oob_region_heads b' = oob_region_heads b" by (simp add: b')
    ultimately have "rlist_ok b' oi rs" using rs(1) by (auto simp: rlist_ok_def g)
    moreover have "listed b' oi = listed b oi" using new(1) r by (auto simp: listed_def g fresh_region_def)
    ultimately show "\<exists>rs. rlist_ok b' oi rs \<and> set rs = listed b' oi" using rs(2) by blast
  qed
  ultimately show "tiers_ok b' F" by (simp add: tiers_ok_def)
  show "bits_ok b' F" unfolding bits_ok_def
  proof (intro allI impI)
    fix r' a k assume r': "rg b' (rbase a) = Some r'" and k: "blk a k"
    show "is_free_bit r' a k \<longleftrightarrow> a \<in> F k"
    proof (cases "rbase a = base")
      case True
      then have "a \<notin> F k" using out by auto
      moreover have "r' = fresh_region m carve" using r' r True by (simp add: g)
      then have "\<not> is_free_bit r' a k" by (simp add: fresh_region_def is_free_bit_def Let_def)
      ultimately show ?thesis by simp
    next
      case False
      then show ?thesis using r' bits k by (simp add: g bits_ok_def)
    qed
  qed
qed

text \<open>The four top blocks tile a region.\<close>

definition top_blocks :: "usize \<Rightarrow> (usize \<times> nat) set" where
  "top_blocks base = {(base, 16), (base + 0x100000, 16), (base + 0x200000, 16), (base + 0x300000, 16)}"

lemma top_block:
  assumes "region_base_ok base" and "n \<in> {0, 0x100000, 0x200000, 0x300000}"
  shows "unat (base + n) = unat base + unat n" and "blk (base + n) 16" and "rbase (base + n) = base"
proof -
  have n: "unat n \<le> 0x300000" "2 ^ 20 dvd unat n" using assms(2) by auto
  have b: "2 ^ 22 dvd unat base" "unat base + 2 ^ 22 < 2 ^ 63" using assms(1) by (auto simp: region_base_ok_def)
  show u: "unat (base + n) = unat base + unat n" using b(2) n(1) by (simp add: unat_add_64)
  have "(2::nat) ^ 20 dvd 2 ^ 22" by (rule le_imp_power_dvd) simp
  then have "2 ^ 20 dvd unat base" using b(1) dvd_trans by blast
  then show "blk (base + n) 16" using n(2) by (simp add: blk_def u)
  show "rbase (base + n) = base" by (rule rbase_eqI [OF b(1)]) (use u n(1) in \<open>simp add: rspan_def\<close>)
qed

lemma top_blocks_tile:
  assumes "region_base_ok base"
  shows "(a, k) \<in> top_blocks base \<Longrightarrow> blk a k \<and> rbase a = base"
    and "x \<in> top_blocks base \<Longrightarrow> y \<in> top_blocks base \<Longrightarrow> x \<noteq> y \<Longrightarrow> span (fst x) (snd x) \<inter> span (fst y) (snd y) = {}"
    and "rspan base \<subseteq> (\<Union>(a, k) \<in> top_blocks base. span a k)"
proof -
  note T = top_block [OF assms]
  let ?n = "unat base"
  have s: "span base 16 = {?n ..< ?n + 1048576}" "span (base + 0x100000) 16 = {?n + 1048576 ..< ?n + 2097152}"
    "span (base + 0x200000) 16 = {?n + 2097152 ..< ?n + 3145728}" "span (base + 0x300000) 16 = {?n + 3145728 ..< ?n + 4194304}"
    using T(1) [of "0x100000"] T(1) [of "0x200000"] T(1) [of "0x300000"] by (simp_all add: span_def add.assoc)
  have t: "blk base 16 \<and> rbase base = base" "blk (base + 0x100000) 16 \<and> rbase (base + 0x100000) = base"
    "blk (base + 0x200000) 16 \<and> rbase (base + 0x200000) = base" "blk (base + 0x300000) 16 \<and> rbase (base + 0x300000) = base"
    using T(2,3) [of 0] T(2,3) [of "0x100000"] T(2,3) [of "0x200000"] T(2,3) [of "0x300000"] by simp_all
  show "blk a k \<and> rbase a = base" if "(a, k) \<in> top_blocks base"
  proof -
    have "(a, k) = (base, 16) \<or> (a, k) = (base + 0x100000, 16) \<or> (a, k) = (base + 0x200000, 16)
      \<or> (a, k) = (base + 0x300000, 16)" using that by (simp add: top_blocks_def)
    then show ?thesis using t by (elim disjE) (simp_all only: prod.inject)
  qed
  have e: "\<exists>j < 4. fst z = base + of_nat j * 0x100000 \<and> span (fst z) (snd z) = {?n + j * 1048576 ..< ?n + Suc j * 1048576}"
    if "z \<in> top_blocks base" for z
  proof -
    have "z = (base, 16) \<or> z = (base + 0x100000, 16) \<or> z = (base + 0x200000, 16) \<or> z = (base + 0x300000, 16)"
      using that by (simp add: top_blocks_def)
    then show ?thesis
    proof (elim disjE)
      assume "z = (base, 16)" then show ?thesis by (intro exI [of _ 0]) (simp add: s)
    next
      assume "z = (base + 0x100000, 16)" then show ?thesis by (intro exI [of _ 1]) (simp add: s)
    next
      assume "z = (base + 0x200000, 16)" then show ?thesis by (intro exI [of _ 2]) (simp add: s)
    next
      assume "z = (base + 0x300000, 16)" then show ?thesis by (intro exI [of _ 3]) (simp add: s)
    qed
  qed
  show "span (fst x) (snd x) \<inter> span (fst y) (snd y) = {}" if xy: "x \<in> top_blocks base" "y \<in> top_blocks base" "x \<noteq> y"
  proof -
    obtain i j where i: "fst x = base + of_nat i * 0x100000" "span (fst x) (snd x) = {?n + i * 1048576 ..< ?n + Suc i * 1048576}"
      and j: "fst y = base + of_nat j * 0x100000" "span (fst y) (snd y) = {?n + j * 1048576 ..< ?n + Suc j * 1048576}"
      using e [OF xy(1)] e [OF xy(2)] by blast
    have "snd x = 16" "snd y = 16" using xy(1,2) by (auto simp: top_blocks_def)
    then have "i \<noteq> j" using i(1) j(1) xy(3) by (metis prod.collapse)
    then have "Suc i * 1048576 \<le> j * 1048576 \<or> Suc j * 1048576 \<le> i * 1048576" by auto
    then show ?thesis unfolding i(2) j(2) by auto
  qed
  have "rspan base = {?n ..< ?n + 4194304}" by (simp add: rspan_def)
  then show "rspan base \<subseteq> (\<Union>(a, k) \<in> top_blocks base. span a k)"
    by (simp only: top_blocks_def UN_insert UN_empty prod.case s) auto
qed

lemma tiling_region:
  assumes t: "tiling B S" and base: "base \<notin> B" "region_base_ok base" and B: "\<And>x. x \<in> B \<Longrightarrow> region_base_ok x"
  shows "tiling (insert base B) (top_blocks base \<union> S)" and "top_blocks base \<inter> S = {}"
proof -
  note T = top_blocks_tile [OF base(2)]
  have far: "span a k \<inter> span a' k' = {}" if "(a, k) \<in> top_blocks base" "(a', k') \<in> S" for a k a' k'
  proof -
    have X: "span a k \<subseteq> rspan base" using span_in_region [of a k] T(1) [OF that(1)] by simp
    have Y: "rbase a' \<in> B" "span a' k' \<subseteq> rspan (rbase a')"
      using tilingD(1,2) [OF t that(2)] span_in_region [of a' k'] by simp_all
    have "base \<noteq> rbase a'" using Y(1) base(1) by blast
    moreover have "2 ^ 22 dvd unat base" "2 ^ 22 dvd unat (rbase a')"
      using base(2) B [OF Y(1)] unfolding region_base_ok_def by blast+
    ultimately have "rspan base \<inter> rspan (rbase a') = {}" by (rule rspan_disjoint [rotated 2])
    then show ?thesis using X Y(2) by blast
  qed
  show "top_blocks base \<inter> S = {}"
  proof (rule ccontr)
    assume "top_blocks base \<inter> S \<noteq> {}"
    then obtain a k where "(a, k) \<in> top_blocks base" "(a, k) \<in> S" by auto
    then show False using far bspan_nonempty [of a k] by blast
  qed
  have "span (fst x) (snd x) \<inter> span (fst y) (snd y) = {}"
    if xy: "x \<in> top_blocks base \<union> S" "y \<in> top_blocks base \<union> S" "x \<noteq> y" for x y
  proof -
    consider "x \<in> top_blocks base" "y \<in> top_blocks base" | "x \<in> top_blocks base" "y \<in> S"
      | "x \<in> S" "y \<in> top_blocks base" | "x \<in> S" "y \<in> S" using xy(1,2) by blast
    then show ?thesis
    proof cases
      case 1
      then show ?thesis by (rule T(2) [OF _ _ xy(3)])
    next
      case 2
      then show ?thesis using far [of "fst x" "snd x" "fst y" "snd y"] by simp
    next
      case 3
      then show ?thesis using far [of "fst y" "snd y" "fst x" "snd x"] by (simp add: Int_commute)
    next
      case 4
      then show ?thesis using tilingD(3) [OF t, of "fst x" "snd x" "fst y" "snd y"] xy(3) by (simp add: prod_eq_iff)
    qed
  qed
  moreover have "blk (fst z) (snd z)" "rbase (fst z) \<in> insert base B" if "z \<in> top_blocks base \<union> S" for z
    using that T(1) [of "fst z" "snd z"] tilingD(1,2) [OF t, of "fst z" "snd z"] by auto
  moreover have "rspan x \<subseteq> (\<Union>(a, k) \<in> top_blocks base \<union> S. span a k)" if x: "x \<in> insert base B" for x
  proof (cases "x = base")
    case True
    then show ?thesis using T(3) unfolding UN_Un by (simp only: le_supI1)
  next
    case False
    then have "rspan x \<subseteq> (\<Union>(a, k) \<in> S. span a k)" using x t unfolding tiling_def by simp
    then show ?thesis unfolding UN_Un by (simp only: le_supI2)
  qed
  ultimately show "tiling (insert base B) (top_blocks base \<union> S)"
    unfolding tiling_def case_prod_beta
    by (intro conjI ballI impI) simp_all
qed

section \<open>Refilling\<close>

text \<open>The kernel contract is the slab's, for the same operations.\<close>

definition pages_env :: "('os, 'r) buddy_env \<Rightarrow> ('os, unit) slab_env" where
  "pages_env env = \<lparr>env_page = be_page env, env_mmap = be_mmap env, env_munmap = be_munmap env,
     env_register = (\<lambda>r _. (True, r))\<rparr>"

lemma pages_env_simps [simp]:
  "env_page (pages_env env) = be_page env" "env_mmap (pages_env env) = be_mmap env"
  "env_munmap (pages_env env) = be_munmap env"
  by (simp_all add: pages_env_def)

definition buddy_kernel_ok :: "('os, 'r) buddy_env \<Rightarrow> ('os \<Rightarrow> nat set) \<Rightarrow> bool" where
  "buddy_kernel_ok env mapped \<longleftrightarrow> kernel_ok (pages_env env) mapped"

text \<open>
  The registration callback: \<open>rinv\<close> is the registry's invariant and \<open>owner\<close> the order map it has for a
  region base.
\<close>

definition buddy_registrar_ok ::
  "('r \<Rightarrow> bool) \<Rightarrow> ('r \<Rightarrow> usize \<Rightarrow> usize option) \<Rightarrow> ('r \<Rightarrow> usize \<Rightarrow> usize \<Rightarrow> bool \<times> 'r) \<Rightarrow> bool"
where
  "buddy_registrar_ok rinv owner register \<longleftrightarrow>
     (\<forall>r base omap ok r'. rinv r \<longrightarrow> base \<noteq> 0 \<longrightarrow> register r base omap = (ok, r') \<longrightarrow>
        rinv r' \<and> (\<forall>x. x \<noteq> base \<longrightarrow> owner r' x = owner r x)
        \<and> (ok \<longrightarrow> owner r base = None \<longrightarrow> owner r' base = Some omap) \<and> (\<not> ok \<longrightarrow> r' = r))"

text \<open>
  The invariant of the allocator, the kernel and the registry: the tiers, the bitmaps and the live blocks
  agree, the order map is right, the regions are mapped and registered, and what is registered is mapped.
\<close>

definition world_ok ::
  "('os \<Rightarrow> nat set) \<Rightarrow> ('r \<Rightarrow> bool) \<Rightarrow> ('r \<Rightarrow> usize \<Rightarrow> usize option) \<Rightarrow> (usize \<Rightarrow> usize option) \<Rightarrow> 'os \<Rightarrow> 'r \<Rightarrow> bool"
where
  "world_ok mapped rinv owner maps os reg \<longleftrightarrow> rinv reg
     \<and> (\<forall>x m. maps x = Some m \<longrightarrow> rspan x \<subseteq> mapped os \<and> owner reg x = Some m)
     \<and> (\<forall>x. owner reg x \<noteq> None \<longrightarrow> unat x \<in> mapped os)"

definition buddy_inv ::
  "('os \<Rightarrow> nat set) \<Rightarrow> ('r \<Rightarrow> bool) \<Rightarrow> ('r \<Rightarrow> usize \<Rightarrow> usize option) \<Rightarrow> ('os, 'r) buddy_world \<Rightarrow>
   (nat \<Rightarrow> usize set) \<Rightarrow> (usize \<times> nat) set \<Rightarrow> bool"
where
  "buddy_inv mapped rinv owner w F L \<longleftrightarrow> binv (bw_buddy w) F L {} \<and> omap_ok (bw_buddy w) L
     \<and> world_ok mapped rinv owner (map_at (bw_buddy w)) (bw_os w) (bw_reg w)"

lemma world_ok_os:
  assumes "world_ok mapped rinv owner maps os reg" and "mapped os \<subseteq> mapped os'"
  shows "world_ok mapped rinv owner maps os' reg"
  using assms unfolding world_ok_def by blast

lemma world_ok_unmap:
  assumes "world_ok mapped rinv owner maps os reg" and "mapped os' = mapped os2 - X" and "X \<inter> mapped os = {}"
    and "mapped os \<subseteq> mapped os2"
  shows "world_ok mapped rinv owner maps os' reg"
proof -
  have "mapped os \<subseteq> mapped os'" using assms(2-4) by blast
  then show ?thesis by (rule world_ok_os [OF assms(1)])
qed

lemma world_ok_register:
  assumes ok: "world_ok mapped rinv owner maps os reg" and reg: "buddy_registrar_ok rinv owner register"
    and r: "register reg base omap = (True, reg')" and base: "base \<noteq> 0" "unat base \<notin> mapped os"
    and os': "mapped os \<subseteq> mapped os'" "rspan base \<subseteq> mapped os'"
  shows "world_ok mapped rinv owner (maps(base \<mapsto> omap)) os' reg'"
proof -
  have W: "rinv reg" "\<And>x m. maps x = Some m \<Longrightarrow> rspan x \<subseteq> mapped os \<and> owner reg x = Some m"
    "\<And>x. owner reg x \<noteq> None \<Longrightarrow> unat x \<in> mapped os" using ok unfolding world_ok_def by blast+
  have n: "owner reg base = None" using W(3) [of base] base(2) by blast
  have R: "rinv reg'" "\<And>x. x \<noteq> base \<Longrightarrow> owner reg' x = owner reg x" "owner reg' base = Some omap"
    using reg [unfolded buddy_registrar_ok_def] W(1) base(1) r n by blast+
  have "unat base \<in> rspan base" by (simp add: rspan_def)
  then have b: "unat base \<in> mapped os'" using os'(2) by blast
  have "rspan x \<subseteq> mapped os' \<and> owner reg' x = Some m" if "(maps(base \<mapsto> omap)) x = Some m" for x m
    using that R(2,3) W(2) [of x m] os' by (cases "x = base") auto
  moreover have "unat x \<in> mapped os'" if "owner reg' x \<noteq> None" for x
    using that R(2) W(3) [of x] os'(1) b by (cases "x = base") auto
  ultimately show ?thesis using R(1) unfolding world_ok_def by blast
qed

lemma batches_fields [simp]:
  "regions (b\<lparr>bitmap_batches := bs\<rparr>) = regions b" "rg (b\<lparr>bitmap_batches := bs\<rparr>) = rg b"
  "bases_sorted (b\<lparr>bitmap_batches := bs\<rparr>) = bases_sorted b"
  "rlp (b\<lparr>bitmap_batches := bs\<rparr>) = rlp b" "rln (b\<lparr>bitmap_batches := bs\<rparr>) = rln b"
  "listed (b\<lparr>bitmap_batches := bs\<rparr>) = listed b"
  by (auto simp: rg_def bases_sorted_def rlp_def rln_def listed_def fun_eq_iff)

lemma binv_batches [simp]: "binv (b\<lparr>bitmap_batches := bs\<rparr>) F L H = binv b F L H"
  and omap_batches [simp]: "omap_ok (b\<lparr>bitmap_batches := bs\<rparr>) L = omap_ok b L"
  by (simp_all add: binv_def bits_ok_def tiers_ok_def free_ok_def bases_ok_def low_ok_def row_def high_idle_def
      high_slots_def high_lists_def rlist_ok_def omap_ok_def)

lemma metadata_size: "of_nat (METADATA_WORDS * BITMAP_BATCH * 8) = (0x105000 :: usize)"
proof -
  have "ORDER_BIT_OFFSET 17 + 2 ^ (19 - 17) = 2 ^ 19" by (rule ORDER_BIT_OFFSET_eq) simp
  then have "ORDER_BIT_OFFSET 17 = 524284" by simp
  then have "BITMAP_WORDS = 8192" by (simp add: BITMAP_WORDS_def NUM_ORDERS_17)
  then have "METADATA_WORDS = 8352" by (simp add: METADATA_WORDS_def ORDER_MAP_WORDS_def LINK_WORDS_def ORDER_MAP_SLOTS_256)
  then have "METADATA_WORDS * BITMAP_BATCH * 8 = 1069056" by (simp add: BITMAP_BATCH_def)
  then show ?thesis by (simp only: of_nat_numeral)
qed

lemma alloc_bitmap_ok:
  assumes k: "buddy_kernel_ok env mapped" and res: "alloc_bitmap env w = (r, w')"
  shows "\<exists>bs os'. w' = w\<lparr>bw_buddy := (bw_buddy w)\<lparr>bitmap_batches := bs\<rparr>, bw_os := os'\<rparr> \<and> mapped (bw_os w) \<subseteq> mapped os'"
proof -
  let ?new = "bitmap_batches (bw_buddy w) = [] \<or> bb_used (last (bitmap_batches (bw_buddy w))) \<ge> BITMAP_BATCH"
  obtain q os' where p: "alloc_pages (be_page env) (be_mmap env) 0x105000 8 (bw_os w) = (q, os')" by force
  note res = res [unfolded alloc_bitmap_def metadata_size]
  have "mapped (bw_os w) \<subseteq> mapped os'"
    using alloc_pages_fresh [OF kernel_okD(1) [OF k [unfolded buddy_kernel_ok_def], unfolded pages_env_simps], of 3 "0x105000" "bw_os w" q os'] p
    by (cases q) auto
  show ?thesis
  proof (cases ?new)
    case False
    let ?bs = "bitmap_batches (bw_buddy w)"
    have "w' = w\<lparr>bw_buddy := (bw_buddy w)\<lparr>bitmap_batches := butlast ?bs @ [(last ?bs)\<lparr>bb_used := bb_used (last ?bs) + 1\<rparr>]\<rparr>\<rparr>"
      using False res by (auto simp: Let_def)
    then show ?thesis
      by (intro exI [of _ "butlast ?bs @ [(last ?bs)\<lparr>bb_used := bb_used (last ?bs) + 1\<rparr>]"] exI [of _ "bw_os w"]) simp
  next
    case True
    then have new: "(if bitmap_batches (bw_buddy w) = [] then True
        else BITMAP_BATCH \<le> bb_used (last (bitmap_batches (bw_buddy w)))) = True" by auto
    have res: "(case case alloc_pages (be_page env) (be_mmap env) 0x105000 8 (bw_os w) of
          (None, os') \<Rightarrow> (False, w\<lparr>bw_os := os'\<rparr>)
        | (Some m, os') \<Rightarrow> (True, w\<lparr>bw_os := os', bw_buddy := (bw_buddy w)\<lparr>bitmap_batches :=
            bitmap_batches (bw_buddy w) @ [\<lparr>bb_base = map_ptr m, bb_used = 0, bb_mapping = m\<rparr>]\<rparr>\<rparr>) of
        (ok, w) \<Rightarrow> if \<not> ok then (None, w)
          else (Some (carve_of (last (bitmap_batches (bw_buddy w)))), w\<lparr>bw_buddy := (bw_buddy w)\<lparr>bitmap_batches :=
            butlast (bitmap_batches (bw_buddy w)) @
              [(last (bitmap_batches (bw_buddy w)))\<lparr>bb_used := bb_used (last (bitmap_batches (bw_buddy w))) + 1\<rparr>]\<rparr>\<rparr>)) = (r, w')"
      using res by (simp only: new if_True Let_def)
    show ?thesis
    proof (cases q)
      case None
      then have "w' = w\<lparr>bw_os := os'\<rparr>" using res p by simp
      then show ?thesis using \<open>mapped (bw_os w) \<subseteq> mapped os'\<close>
        by (intro exI [of _ "bitmap_batches (bw_buddy w)"] exI [of _ os']) simp
    next
      case (Some m)
      then have "w' = w\<lparr>bw_os := os', bw_buddy := (bw_buddy w)\<lparr>bitmap_batches := bitmap_batches (bw_buddy w) @
          [\<lparr>bb_base = map_ptr m, bb_used = 1, bb_mapping = m\<rparr>]\<rparr>\<rparr>" using res p by auto
      then show ?thesis using \<open>mapped (bw_os w) \<subseteq> mapped os'\<close>
        by (intro exI [of _ "bitmap_batches (bw_buddy w) @ [\<lparr>bb_base = map_ptr m, bb_used = 1, bb_mapping = m\<rparr>]"]
            exI [of _ os']) simp
    qed
  qed
qed

lemma carve_top_ok:
  assumes inv: "binv b F L (top_blocks base)" and base: "region_base_ok base"
    and i: "i < length (regions b)" "r_base (regions b ! i) = base"
  shows "\<exists>b' F'. carve_top (unat (REGION_BYTES div block_size MAX_ORDER)) base 0 i b = Some b'
    \<and> binv b' F' L {} \<and> keep b b' \<and> F' 16 \<noteq> {}"
proof -
  have n: "unat (REGION_BYTES div block_size MAX_ORDER) = Suc (Suc (Suc (Suc 0)))"
    by (simp add: REGION_BYTES_eq block_size_pow2 unat_div)
  have bs: "block_size 16 = 0x100000" by (simp add: block_size_pow2)
  have rb: "rbase base = base" "rbase (base + 0x100000) = base" "rbase (base + 0x200000) = base" "rbase (base + 0x300000) = base"
    using top_block(3) [OF base, of 0] top_block(3) [OF base, of "0x100000"] top_block(3) [OF base, of "0x200000"]
      top_block(3) [OF base, of "0x300000"] by simp_all
  have step: "\<exists>b' F'. stash_free a 16 i c = Some b' \<and> binv b' F' L H \<and> keep c b' \<and> F' 16 \<noteq> {}
      \<and> i < length (regions b') \<and> r_base (regions b' ! i) = base"
    if c: "binv c Fc L (insert (a, 16) H)" "(a, 16) \<notin> H" "i < length (regions c)" "r_base (regions c ! i) = base" "rbase a = base"
    for a c Fc H
  proof -
    have "r_base (regions c ! i) = rbase a" using c by simp
    then obtain b' where b': "stash_free a 16 i c = Some b'" "binv b' (Fc(16 := insert a (Fc 16))) L H" "keep c b'"
      using stash_free_ok [OF c(1-3)] by blast
    then show ?thesis using keep_length [OF b'(3)] keep_base [OF b'(3) c(3)] c(3,4)
      by (intro exI [of _ b'] exI [of _ "Fc(16 := insert a (Fc 16))"]) simp
  qed
  have inv0: "binv b F L (insert (base, 16) {(base + 0x100000, 16), (base + 0x200000, 16), (base + 0x300000, 16)})"
    using inv by (simp add: top_blocks_def)
  obtain b1 F1 where b1: "stash_free base 16 i b = Some b1" "keep b b1" "i < length (regions b1)" "r_base (regions b1 ! i) = base"
    "binv b1 F1 L (insert (base + 0x100000, 16) {(base + 0x200000, 16), (base + 0x300000, 16)})"
    using step [OF inv0 _ i rb(1)] by auto
  obtain b2 F2 where b2: "stash_free (base + 0x100000) 16 i b1 = Some b2" "keep b1 b2" "i < length (regions b2)" "r_base (regions b2 ! i) = base"
    "binv b2 F2 L (insert (base + 0x200000, 16) {(base + 0x300000, 16)})"
    using step [OF b1(5) _ b1(3,4) rb(2)] by auto
  obtain b3 F3 where b3: "stash_free (base + 0x200000) 16 i b2 = Some b3" "keep b2 b3" "i < length (regions b3)" "r_base (regions b3 ! i) = base"
    "binv b3 F3 L (insert (base + 0x300000, 16) {})"
    using step [OF b2(5) _ b2(3,4) rb(3)] by auto
  obtain b4 F4 where b4: "stash_free (base + 0x300000) 16 i b3 = Some b4" "keep b3 b4" "binv b4 F4 L {}" "F4 16 \<noteq> {}"
    using step [OF b3(5) _ b3(3,4) rb(4)] by blast
  have "carve_top (unat (REGION_BYTES div block_size MAX_ORDER)) base 0 i b = Some b4"
    unfolding n using b1(1) b2(1) b3(1) b4(1) by (simp add: bs REGION_BYTES_eq)
  moreover have "keep b b4" using keep_trans [OF keep_trans [OF keep_trans [OF b1(2) b2(2)] b3(2)] b4(2)] .
  ultimately show ?thesis using b4(3,4) by blast
qed

lemma new_region_ok:
  assumes inv: "binv b F L {}" and om: "omap_ok b L" and new: "rg b base = None" "region_base_ok base" and m: "map_ptr m = base"
    and e: "insert_region (fresh_region m carve) b = (i, b1)"
  shows "\<exists>b' F'. carve_top (unat (REGION_BYTES div block_size MAX_ORDER)) base 0 i b1 = Some b' \<and> binv b' F' L {}
    \<and> omap_ok b' L \<and> map_at b' = (map_at b)(base \<mapsto> fst (snd carve)) \<and> F' 16 \<noteq> {}"
proof -
  note D = binvD [OF inv]
  note I = insert_region_ok [OF D(1,2) new refl m e]
  have dom: "{x. rg b1 x \<noteq> None} = insert base {x. rg b x \<noteq> None}" by (auto simp: I(5))
  have reg: "region_base_ok x" if "x \<in> {x. rg b x \<noteq> None}" for x using tiers_okD(6) [OF D(1), of x] that by simp
  have base: "base \<notin> {x. rg b x \<noteq> None}" using new(1) by simp
  note R = tiling_region [OF D(3) base new(2) reg]
  have "binv b1 F L (top_blocks base)"
    using R I(1,2) inv unfolding binv_def dom by (auto simp: Un_assoc)
  from carve_top_ok [OF this new(2) I(3,4)] obtain b' F' where
    b': "carve_top (unat (REGION_BYTES div block_size MAX_ORDER)) base 0 i b1 = Some b'" "binv b' F' L {}" "keep b1 b'" "F' 16 \<noteq> {}"
    by blast
  have "omap_ok b1 L" unfolding omap_ok_def
  proof (intro impI ballI, clarify)
    fix a k assume ro: "record_orders b1" and a: "(a, k) \<in> L" "10 \<le> k"
    have "record_orders b" using ro I(6) by simp
    then obtain r where r: "rg b (rbase a) = Some r" "r_order_map r (order_map_slot a (rbase a)) = of_nat k"
      using om a unfolding omap_ok_def by blast
    then have "rbase a \<noteq> base" using new(1) by auto
    then show "\<exists>r. rg b1 (rbase a) = Some r \<and> r_order_map r (order_map_slot a (rbase a)) = of_nat k"
      using r by (simp add: I(5))
  qed
  then have "omap_ok b' L" by (rule omap_keep [OF _ b'(3)]) simp
  moreover have "map_at b' = (map_at b)(base \<mapsto> fst (snd carve))"
    unfolding keep_map_at [OF b'(3)] by (auto simp: map_at_def I(5) fresh_region_def fun_eq_iff)
  ultimately show ?thesis using b'(1,2,4) by blast
qed

lemma buddy_refill_ok:
  assumes k: "buddy_kernel_ok env mapped" and reg: "buddy_registrar_ok rinv owner (be_register env)"
    and inv: "buddy_inv mapped rinv owner w F L"
  shows "\<exists>ok w' F'. buddy_refill env w = Some (ok, w') \<and> buddy_inv mapped rinv owner w' F' L \<and> (ok \<longrightarrow> F' 16 \<noteq> {})"
proof -
  have b: "binv (bw_buddy w) F L {}" and om: "omap_ok (bw_buddy w) L"
    and wo: "world_ok mapped rinv owner (map_at (bw_buddy w)) (bw_os w) (bw_reg w)"
    using inv by (auto simp: buddy_inv_def)
  obtain q os' where q: "alloc_pages (be_page env) (be_mmap env) REGION_BYTES (2 ^ 22) (bw_os w) = (q, os')" by force
  have F: "case q of None \<Rightarrow> mapped (bw_os w) \<subseteq> mapped os'
    | Some m \<Rightarrow> 2 ^ 22 dvd unat (map_ptr m) \<and> map_ptr m \<noteq> 0 \<and> unat REGION_BYTES \<le> unat (map_usable m)
        \<and> unat (map_ptr m) + unat (map_usable m) < 2 ^ 63
        \<and> {unat (map_ptr m) ..< unat (map_ptr m) + unat (map_usable m)} \<subseteq> mapped os' - mapped (bw_os w)
        \<and> mapped os' = mapped (bw_os w) \<union> {unat (map_base m) ..< unat (map_base m) + unat (map_len m)}
        \<and> {unat (map_base m) ..< unat (map_base m) + unat (map_len m)} \<inter> mapped (bw_os w) = {}"
    using alloc_pages_fresh [OF kernel_okD(1) [OF k [unfolded buddy_kernel_ok_def], unfolded pages_env_simps], of 22 REGION_BYTES "bw_os w" q os'] q
    by (simp add: unat_REGION_BYTES)
  have q': "alloc_pages (be_page env) (be_mmap env) REGION_BYTES REGION_BYTES (bw_os w) = (q, os')"
    using q by (simp add: REGION_BYTES_eq)
  show ?thesis
  proof (cases q)
    case None
    have "mapped (bw_os w) \<subseteq> mapped os'" using F None by simp
    then have "buddy_inv mapped rinv owner (w\<lparr>bw_os := os'\<rparr>) F L"
      using b om world_ok_os [OF wo] by (simp add: buddy_inv_def)
    moreover have "buddy_refill env w = Some (False, w\<lparr>bw_os := os'\<rparr>)" using q' None by (simp add: buddy_refill_def)
    ultimately show ?thesis by blast
  next
    case (Some m)
    let ?base = "map_ptr m" and ?range = "{unat (map_base m) ..< unat (map_base m) + unat (map_len m)}"
    have M: "2 ^ 22 dvd unat ?base" "?base \<noteq> 0" "2 ^ 22 \<le> unat (map_usable m)"
      "unat ?base + unat (map_usable m) < 2 ^ 63"
      "{unat ?base ..< unat ?base + unat (map_usable m)} \<subseteq> mapped os' - mapped (bw_os w)"
      "mapped os' = mapped (bw_os w) \<union> ?range" "?range \<inter> mapped (bw_os w) = {}"
      using F [unfolded Some option.case unat_REGION_BYTES] by blast+
    have rok: "region_base_ok ?base" using M(1-4) by (simp add: region_base_ok_def)
    have "rspan ?base \<subseteq> {unat ?base ..< unat ?base + unat (map_usable m)}" using M(3) by (auto simp: rspan_def)
    then have fresh: "rspan ?base \<subseteq> mapped os'" "rspan ?base \<inter> mapped (bw_os w) = {}" using M(5) by blast+
    have mem: "unat ?base \<in> rspan ?base" by (simp add: rspan_def)
    then have out: "unat ?base \<notin> mapped (bw_os w)" using fresh(2) by blast
    have new: "rg (bw_buddy w) ?base = None"
    proof (rule ccontr)
      assume "rg (bw_buddy w) ?base \<noteq> None"
      then obtain om where "map_at (bw_buddy w) ?base = Some om" by (auto simp: map_at_def)
      then have "rspan ?base \<subseteq> mapped (bw_os w)" using wo unfolding world_ok_def by blast
      then show False using fresh(2) mem by blast
    qed
    obtain r w2 where r: "alloc_bitmap env (w\<lparr>bw_os := os'\<rparr>) = (r, w2)" by force
    obtain bs os2 where w2: "w2 = w\<lparr>bw_buddy := (bw_buddy w)\<lparr>bitmap_batches := bs\<rparr>, bw_os := os2\<rparr>" "mapped os' \<subseteq> mapped os2"
      using alloc_bitmap_ok [OF k r] by auto
    let ?b2 = "(bw_buddy w)\<lparr>bitmap_batches := bs\<rparr>"
    have ma: "map_at ?b2 = map_at (bw_buddy w)" by (simp add: map_at_def fun_eq_iff)
    have b2: "binv ?b2 F L {}" "omap_ok ?b2 L" "rg ?b2 ?base = None" using b om new by simp_all
    have sub: "mapped (bw_os w) \<subseteq> mapped os2" using M(6) w2(2) by blast
    have "mapped (be_munmap env os2 (unmap_range m)) = mapped os2 - ?range"
      using kernel_okD(2) [OF k [unfolded buddy_kernel_ok_def], of os2 "map_base m" "map_len m"] by (simp add: unmap_range_def)
    from world_ok_unmap [OF wo this M(7) sub]
    have unmap: "buddy_inv mapped rinv owner (w2\<lparr>bw_os := be_munmap env os2 (unmap_range m)\<rparr>) F L"
      using b2 by (simp add: buddy_inv_def w2(1) ma)
    show ?thesis
    proof (cases r)
      case None
      have "buddy_refill env w = Some (False, w2\<lparr>bw_os := be_munmap env (bw_os w2) (unmap_range m)\<rparr>)"
        using q' Some r None by (simp add: buddy_refill_def)
      then show ?thesis using unmap by (auto simp: w2(1))
    next
      case c: (Some carve)
      obtain ok r' where rr: "be_register env (bw_reg w2) ?base (fst (snd carve)) = (ok, r')" by force
      have rw: "bw_reg w2 = bw_reg w" by (simp add: w2(1))
      show ?thesis
      proof (cases ok)
        case False
        have "rinv (bw_reg w)" using wo by (simp add: world_ok_def)
        then have "r' = bw_reg w"
          using reg [unfolded buddy_registrar_ok_def] rr M(2) False unfolding rw by blast
        then have "w2\<lparr>bw_reg := r', bw_os := be_munmap env (bw_os w2) (unmap_range m)\<rparr>
            = w2\<lparr>bw_os := be_munmap env os2 (unmap_range m)\<rparr>" by (simp add: w2(1))
        moreover have "buddy_refill env w = Some (False, w2\<lparr>bw_reg := r', bw_os := be_munmap env (bw_os w2) (unmap_range m)\<rparr>)"
          using q' Some r c rr False by (simp add: buddy_refill_def)
        ultimately show ?thesis using unmap by auto
      next
        case True
        obtain i b1 where i: "insert_region (fresh_region m carve) ?b2 = (i, b1)" by force
        obtain b' F' where b': "carve_top (unat (REGION_BYTES div block_size MAX_ORDER)) ?base 0 i b1 = Some b'"
          "binv b' F' L {}" "omap_ok b' L" "map_at b' = (map_at ?b2)(?base \<mapsto> fst (snd carve))" "F' 16 \<noteq> {}"
          using new_region_ok [OF b2 rok refl i] by blast
        let ?w = "w2\<lparr>bw_reg := r', bw_buddy := b'\<rparr>"
        have "buddy_refill env w = Some (True, ?w)"
          using q' Some r c rr True i b'(1) by (simp add: buddy_refill_def w2(1))
        moreover have "be_register env (bw_reg w) ?base (fst (snd carve)) = (True, r')" using rr True rw by simp
        from world_ok_register [OF wo reg this M(2) out sub] fresh(1) w2(2)
        have "world_ok mapped rinv owner ((map_at (bw_buddy w))(?base \<mapsto> fst (snd carve))) os2 r'" by blast
        then have "buddy_inv mapped rinv owner ?w F' L" using b'(2-4) by (simp add: buddy_inv_def w2(1) ma)
        ultimately show ?thesis using b'(5) by blast
      qed
    qed
  qed
qed

section \<open>Allocating\<close>

lemma take_inv:
  assumes inv: "buddy_inv mapped rinv owner w F L" and j: "free_order_from (bw_buddy w) k = j" "j \<le> 16"
  shows "\<exists>a b' F'. take_block j k (bw_buddy w) = Some (a, b') \<and> buddy_inv mapped rinv owner (w\<lparr>bw_buddy := b'\<rparr>) F' (insert (a, k) L)
    \<and> (a, k) \<notin> L"
proof -
  have b: "binv (bw_buddy w) F L {}" and om: "omap_ok (bw_buddy w) L"
    and wo: "world_ok mapped rinv owner (map_at (bw_buddy w)) (bw_os w) (bw_reg w)"
    using inv by (auto simp: buddy_inv_def)
  have kj: "k \<le> j" "F j \<noteq> {}" using free_order_from_ok [OF binvD(1) [OF b], of k] j by auto
  obtain a b' F' where b': "take_block j k (bw_buddy w) = Some (a, b')" "binv b' F' (insert (a, k) L) {}" "(a, k) \<notin> L"
    "omap_ok b' (insert (a, k) L)" "map_at b' = map_at (bw_buddy w)"
    using take_block_ok [OF b om kj(1) j(2) kj(2)] by blast
  have "buddy_inv mapped rinv owner (w\<lparr>bw_buddy := b'\<rparr>) F' (insert (a, k) L)"
    unfolding buddy_inv_def using b'(2,4,5) wo by simp
  then show ?thesis using b'(1,3) by blast
qed

lemma alloc_order_ok:
  assumes k: "buddy_kernel_ok env mapped" and reg: "buddy_registrar_ok rinv owner (be_register env)" and inv: "buddy_inv mapped rinv owner w F L" and o: "k \<le> 16"
  shows "\<exists>r w' F'. alloc_order env k w = Some (r, w')
    \<and> (case r of None \<Rightarrow> buddy_inv mapped rinv owner w' F' L \<and> buddy_refill env w = Some (False, w')
       | Some a \<Rightarrow> buddy_inv mapped rinv owner w' F' (insert (a, k) L) \<and> (a, k) \<notin> L)"
proof (cases "free_order_from (bw_buddy w) k \<le> 16")
  case True
  obtain a b' F' where "take_block (free_order_from (bw_buddy w) k) k (bw_buddy w) = Some (a, b')"
    "buddy_inv mapped rinv owner (w\<lparr>bw_buddy := b'\<rparr>) F' (insert (a, k) L)" "(a, k) \<notin> L"
    using take_inv [OF inv refl True] by blast
  then show ?thesis using True
    by (intro exI [of _ "Some a"] exI [of _ "w\<lparr>bw_buddy := b'\<rparr>"] exI [of _ F'])
      (subst alloc_order.simps, simp add: Let_def)
next
  case False
  obtain ok w1 F1 where w1: "buddy_refill env w = Some (ok, w1)" "buddy_inv mapped rinv owner w1 F1 L" "ok \<longrightarrow> F1 16 \<noteq> {}"
    using buddy_refill_ok [OF k reg inv] by blast
  show ?thesis
  proof (cases ok)
    case f: False
    have "alloc_order env k w = Some (None, w1)"
      using False w1(1) f by (subst alloc_order.simps) (simp add: Let_def)
    then show ?thesis using w1 f by (intro exI [of _ None] exI [of _ w1] exI [of _ F1]) simp
  next
    case t: True
    have "tiers_ok (bw_buddy w1) F1" using w1(2) by (simp add: buddy_inv_def binv_def)
    then have j: "free_order_from (bw_buddy w1) k \<le> 16"
      using free_order_from_ok [of "bw_buddy w1" F1 k] w1(3) t o by (meson not_le)
    obtain a b' F' where a: "take_block (free_order_from (bw_buddy w1) k) k (bw_buddy w1) = Some (a, b')"
      "buddy_inv mapped rinv owner (w1\<lparr>bw_buddy := b'\<rparr>) F' (insert (a, k) L)" "(a, k) \<notin> L"
      using take_inv [OF w1(2) refl j] by blast
    have "alloc_order env k w1 = Some (Some a, w1\<lparr>bw_buddy := b'\<rparr>)"
      using j a(1) by (subst alloc_order.simps) (simp add: Let_def)
    then have "alloc_order env k w = Some (Some a, w1\<lparr>bw_buddy := b'\<rparr>)"
      using False w1(1) t by (subst alloc_order.simps) (simp add: Let_def)
    then show ?thesis using a(2,3)
      by (intro exI [of _ "Some a"] exI [of _ "w1\<lparr>bw_buddy := b'\<rparr>"] exI [of _ F']) simp
  qed
qed

lemma alloc_order_batch_ok:
  assumes k: "buddy_kernel_ok env mapped" and reg: "buddy_registrar_ok rinv owner (be_register env)" and o: "k \<le> 16" and inv: "buddy_inv mapped rinv owner w F L"
  shows "\<exists>bs w' F'. alloc_order_batch env k n w = Some (bs, w') \<and> buddy_inv mapped rinv owner w' F' (set bs \<times> {k} \<union> L)
    \<and> distinct bs \<and> (set bs \<times> {k}) \<inter> L = {} \<and> length bs \<le> n"
  using inv
proof (induction n arbitrary: w F L)
  case 0
  then show ?case by auto
next
  case (Suc n)
  obtain r w1 F1 where r: "alloc_order env k w = Some (r, w1)"
    "case r of None \<Rightarrow> buddy_inv mapped rinv owner w1 F1 L \<and> buddy_refill env w = Some (False, w1)
       | Some a \<Rightarrow> buddy_inv mapped rinv owner w1 F1 (insert (a, k) L) \<and> (a, k) \<notin> L" using alloc_order_ok [OF k reg Suc.prems o] by blast
  show ?case
  proof (cases r)
    case None
    then show ?thesis using r by (intro exI [of _ "[]"] exI [of _ w1] exI [of _ F1]) simp
  next
    case (Some a)
    then have a: "buddy_inv mapped rinv owner w1 F1 (insert (a, k) L)" "(a, k) \<notin> L" using r(2) by simp_all
    obtain bs w' F' where b: "alloc_order_batch env k n w1 = Some (bs, w')"
      "buddy_inv mapped rinv owner w' F' (set bs \<times> {k} \<union> insert (a, k) L)" "distinct bs" "(set bs \<times> {k}) \<inter> insert (a, k) L = {}"
      "length bs \<le> n" using Suc.IH [OF a(1)] by blast
    have e: "set bs \<times> {k} \<union> insert (a, k) L = set (a # bs) \<times> {k} \<union> L" by auto
    have "alloc_order_batch env k (Suc n) w = Some (a # bs, w')" using r(1) Some b(1) by simp
    moreover have "distinct (a # bs)" "(set (a # bs) \<times> {k}) \<inter> L = {}" using b(3,4) a(2) by auto
    ultimately show ?thesis using b(2,5) unfolding e
      by (intro exI [of _ "a # bs"] exI [of _ w'] exI [of _ F']) simp
  qed
qed

end
