(* ===== verification/BuddySafety.thy ===== *)
theory BuddySafety
  imports BuddyTake SlabSafety
begin

text \<open>
  The buddy allocator as a state machine with its live blocks, and what holds in every state it reaches:
  live blocks are aligned and disjoint, no byte of a region is lost, no operation panics, allocations
  return, and the order map gives the order of every live block that carries no header.
\<close>

section \<open>Orders\<close>

lemma order_scan_pow2:
  assumes "m \<le> 63" and "4 + k \<le> 63" and "m \<le> 4 + k + n"
  shows "order_scan n (2 ^ (4 + k)) (2 ^ m) k = max k (m - 4)"
  using assms
proof (induction n arbitrary: k)
  case 0
  then show ?case by auto
next
  case (Suc n)
  have lt: "(2 ^ (4 + k) :: usize) < 2 ^ m \<longleftrightarrow> 4 + k < m"
    using Suc.prems by (simp add: word_less_nat_alt unat_pow2_64)
  show ?case
  proof (cases "4 + k < m")
    case True
    have e: "push_bit 1 (2 ^ (4 + k)) = (2 ^ (4 + Suc k) :: usize)"
      by (simp add: push_bit_eq_mult power_add)
    have "order_scan n (2 ^ (4 + Suc k)) (2 ^ m) (Suc k) = max (Suc k) (m - 4)"
      by (rule Suc.IH) (use Suc.prems True in auto)
    then have "order_scan (Suc n) (2 ^ (4 + k)) (2 ^ m) k = max (Suc k) (m - 4)"
      using lt True by (simp only: order_scan.simps if_True e Suc_eq_plus1 [symmetric])
    then show ?thesis using True by auto
  next
    case False
    then have "order_scan (Suc n) (2 ^ (4 + k)) (2 ^ m) k = k" using lt by (simp only: order_scan.simps if_False)
    then show ?thesis using False by auto
  qed
qed

lemma minus_4_eq_iff: "(b :: nat) - 4 = k \<longleftrightarrow> b \<le> 4 + k \<and> (\<forall>j < k. \<not> b \<le> 4 + j)"
proof
  assume r: "b \<le> 4 + k \<and> (\<forall>j < k. \<not> b \<le> 4 + j)"
  show "b - 4 = k"
  proof (rule ccontr)
    assume "b - 4 \<noteq> k"
    then have "b - 4 < k" using r by auto
    then have "\<not> b \<le> 4 + (b - 4)" using r by blast
    then show False by simp
  qed
qed auto

lemma order_for_Some_iff:
  "order_for sz = Some k \<longleftrightarrow> 0 < unat sz \<and> unat sz \<le> 2 ^ 20 \<and> unat sz \<le> 2 ^ (4 + k) \<and> (\<forall>j < k. 2 ^ (4 + j) < unat sz)"
proof (cases "sz = 0 \<or> 2 ^ 20 < unat sz")
  case True
  then have "order_for sz = None" by (auto simp: order_for_def BUDDY_MAX_def word_less_nat_alt)
  then show ?thesis using True by auto
next
  case False
  then have sz: "0 < unat sz" "unat sz \<le> 2 ^ 20" by (auto simp: unat_gt_0)
  let ?b = "bit_len (max (unat sz) 1 - 1)"
  have le: "?b \<le> j \<longleftrightarrow> unat sz \<le> 2 ^ j" for j using bit_len_le_iff [of "max (unat sz) 1 - 1" j] sz(1) by auto
  have b20: "?b \<le> 20" using le [of 20] sz(2) by simp
  have u: "unat (round_up_pow2 sz) = 2 ^ ?b" using round_up_pow2_unat [of sz] sz(2) by simp
  then have r: "round_up_pow2 sz = 2 ^ ?b" using b20 by (simp add: word_unat_eq_iff unat_pow2_64)
  have m: "max (round_up_pow2 sz) MIN_BLOCK = 2 ^ max ?b 4"
  proof -
    have "unat (2 ^ ?b :: usize) = 2 ^ ?b" using b20 by (simp add: unat_pow2_64)
    moreover have "(2::nat) ^ ?b \<le> 2 ^ 4 \<longleftrightarrow> ?b \<le> 4" by (rule power_increasing_iff) simp
    ultimately have "(2 ^ ?b :: usize) \<le> 16 \<longleftrightarrow> ?b \<le> 4" by (simp add: word_le_nat_alt)
    then show ?thesis unfolding r by (auto simp: MIN_BLOCK_def MIN_ALIGN_def max_def)
  qed
  have s: "order_scan 64 MIN_BLOCK (2 ^ max ?b 4) 0 = max 0 (max ?b 4 - 4)"
    using order_scan_pow2 [of "max ?b 4" 0 64] b20 by (simp add: MIN_BLOCK_def MIN_ALIGN_def)
  have "max 0 (max ?b 4 - 4) = ?b - 4" and n16: "\<not> 16 < ?b - 4" using b20 by linarith+
  then have s': "order_scan 64 MIN_BLOCK (2 ^ max ?b 4) 0 = ?b - 4" using trans [OF s] by simp
  have "\<not> (sz = 0 \<or> BUDDY_MAX < sz)" using False by (simp add: BUDDY_MAX_def word_less_nat_alt)
  then have o: "order_for sz = Some (?b - 4)"
    unfolding order_for_def Let_def MAX_ORDER_16 m s' by (simp only: if_False n16)
  then show ?thesis using sz minus_4_eq_iff [of ?b k] unfolding o le by (simp add: not_le)
qed

lemma order_for_le: "order_for sz = Some k \<Longrightarrow> k \<le> 16"
proof (rule ccontr)
  assume k: "order_for sz = Some k" and "\<not> k \<le> 16"
  have o: "unat sz \<le> 2 ^ 20" "\<forall>j < k. 2 ^ (4 + j) < unat sz" using k unfolding order_for_Some_iff by blast+
  have "16 < k" using \<open>\<not> k \<le> 16\<close> by simp
  then have "2 ^ (4 + 16) < unat sz" using o(2) by blast
  then show False using o(1) by simp
qed

section \<open>The state machine\<close>

text \<open>
  A step is a call on the allocator, a write of the application to a live block, or another mapping made in
  the process. The live blocks are pairs of an address and an order.
\<close>

type_synonym ('os, 'r) buddy_state = "('os, 'r) buddy_world \<times> (usize \<times> nat) set"

inductive buddy_step ::
  "('os, 'r) buddy_env \<Rightarrow> ('os \<Rightarrow> nat set) \<Rightarrow> ('os, 'r) buddy_state \<Rightarrow> ('os, 'r) buddy_state \<Rightarrow> bool"
  for env mapped
where
  alloc: "buddy_alloc env sz w = Some (Some a, w') \<Longrightarrow> order_for sz = Some k \<Longrightarrow>
    buddy_step env mapped (w, L) (w', insert (a, k) L)"
| alloc_fail: "buddy_alloc env sz w = Some (None, w') \<Longrightarrow> buddy_step env mapped (w, L) (w', L)"
| batch: "alloc_order_batch env k n w = Some (bs, w') \<Longrightarrow> k \<le> 16 \<Longrightarrow>
    buddy_step env mapped (w, L) (w', set bs \<times> {k} \<union> L)"
| free: "(a, k) \<in> L \<Longrightarrow> order_for sz = Some k \<Longrightarrow> buddy_dealloc a sz (bw_buddy w) = Some b' \<Longrightarrow>
    buddy_step env mapped (w, L) (w\<lparr>bw_buddy := b'\<rparr>, L - {(a, k)})"
| free_order: "(a, k) \<in> L \<Longrightarrow> free_order a k (bw_buddy w) = Some b' \<Longrightarrow>
    buddy_step env mapped (w, L) (w\<lparr>bw_buddy := b'\<rparr>, L - {(a, k)})"
| free_batch: "set ps \<times> {k} \<subseteq> L \<Longrightarrow> distinct ps \<Longrightarrow> dealloc_order_batch k ps (bw_buddy w) = Some b' \<Longrightarrow>
    buddy_step env mapped (w, L) (w\<lparr>bw_buddy := b'\<rparr>, L - set ps \<times> {k})"
| app_write: "(a, k) \<in> L \<Longrightarrow> unat x \<in> span a k \<Longrightarrow>
    buddy_step env mapped (w, L) (w\<lparr>bw_buddy := (bw_buddy w)\<lparr>b_mem := (b_mem (bw_buddy w))(x := v)\<rparr>\<rparr>, L)"
| other_mapping: "mapped (bw_os w) \<subseteq> mapped os' \<Longrightarrow> buddy_step env mapped (w, L) (w\<lparr>bw_os := os'\<rparr>, L)"

inductive buddy_reach ::
  "('os, 'r) buddy_env \<Rightarrow> ('os \<Rightarrow> nat set) \<Rightarrow> ('os, 'r) buddy_state \<Rightarrow> ('os, 'r) buddy_state \<Rightarrow> bool"
  for env mapped s0
where
  start: "buddy_reach env mapped s0 s0"
| more: "buddy_reach env mapped s0 s \<Longrightarrow> buddy_step env mapped s s' \<Longrightarrow> buddy_reach env mapped s0 s'"

text \<open>A new allocator, with or without recorded orders, in any kernel.\<close>

definition buddy_start :: "('os, 'r) buddy_world \<Rightarrow> bool" where
  "buddy_start w \<longleftrightarrow> (\<exists>mem. bw_buddy w = buddy_new mem \<or> bw_buddy w = set_record_orders (buddy_new mem))"

lemma buddy_inv_start:
  assumes "buddy_start w" and "rinv (bw_reg w)" and "\<forall>x. owner (bw_reg w) x \<noteq> None \<longrightarrow> unat x \<in> mapped (bw_os w)"
  shows "buddy_inv mapped rinv owner w (\<lambda>_. {}) {}"
proof -
  have r: "regions (bw_buddy w) = []" "\<And>k. b_cache_len (bw_buddy w) k = 0" "\<And>k. free_lists (bw_buddy w) k = 0"
    "\<And>k. oob_region_heads (bw_buddy w) k = 0"
    using assms by (auto simp: buddy_start_def buddy_new_def set_record_orders_def)
  have g: "rg (bw_buddy w) x = None" for x by (simp add: rg_def r(1))
  have "low_ok (bw_buddy w) k {}" for k
    unfolding low_ok_def by (intro conjI exI [of _ "[]"]) (simp_all add: r row_def dll_Nil)
  moreover have "high_lists (bw_buddy w)" unfolding high_lists_def
    by (intro allI impI exI [of _ "[]"]) (simp add: rlist_ok_def dll_Nil r listed_def g)
  ultimately have "tiers_ok (bw_buddy w) (\<lambda>_. {})"
    by (simp add: tiers_ok_def free_ok_def bases_ok_def bases_sorted_def r g high_idle_def high_slots_def)
  moreover have "fs (\<lambda>_. {}) = {}" by (simp add: fs_def)
  ultimately show ?thesis using assms(2,3)
    by (simp add: buddy_inv_def binv_def bits_ok_def g tiling_def omap_ok_def world_ok_def map_at_def)
qed

lemma buddy_write_inv:
  assumes inv: "buddy_inv mapped rinv owner w F L" and l: "(a, k) \<in> L" and x: "unat x \<in> span a k"
  shows "buddy_inv mapped rinv owner (w\<lparr>bw_buddy := (bw_buddy w)\<lparr>b_mem := (b_mem (bw_buddy w))(x := v)\<rparr>\<rparr>) F L"
proof -
  let ?b = "bw_buddy w"
  let ?c = "?b\<lparr>b_mem := (b_mem ?b)(x := v)\<rparr>"
  have b: "binv ?b F L {}" and om: "omap_ok ?b L" using inv by (auto simp: buddy_inv_def)
  note D = binvD [OF b]
  have ne: "y \<noteq> x" if y: "y \<in> F j" for y j
  proof -
    have "(y, j) \<in> {} \<union> fs F \<union> L" "(a, k) \<in> {} \<union> fs F \<union> L" "(y, j) \<noteq> (a, k)"
    proof -
      have "(y, j) \<in> fs F" using y by simp
      then show "(y, j) \<in> {} \<union> fs F \<union> L" "(a, k) \<in> {} \<union> fs F \<union> L" "(y, j) \<noteq> (a, k)"
        using l b unfolding binv_def by blast+
    qed
    then have "span y j \<inter> span a k = {}" using tilingD(3) [OF D(3)] by blast
    then show ?thesis using x bspan_nonempty [of y j] by auto
  qed
  have low: "low_ok ?c j (F j)" if "j < 10" for j
  proof -
    have "low_ok ?b j (F j)" using D(1) that by (simp add: tiers_ok_def)
    then obtain xs where xs: "dll (\<lambda>a. fn_prev (b_mem ?b a)) (\<lambda>a. fn_next (b_mem ?b a)) 0 (free_lists ?b j) xs"
      "distinct (row ?b j @ xs)" "set (row ?b j @ xs) = F j" "unat (b_cache_len ?b j) \<le> ORDER_CACHE" by (rule low_okE)
    have "y \<noteq> x" if "y \<in> set xs" for y using ne [of y j] xs(3) that by auto
    then have "dll (\<lambda>a. fn_prev (b_mem ?c a)) (\<lambda>a. fn_next (b_mem ?c a)) 0 (free_lists ?b j) xs"
      using xs(1) by (subst dll_cong [of xs _ "\<lambda>a. fn_prev (b_mem ?b a)" _ "\<lambda>a. fn_next (b_mem ?b a)"]) auto
    then show ?thesis using xs(2-4) unfolding low_ok_def by (intro conjI exI [of _ xs]) (simp_all add: row_def)
  qed
  have "rlp ?c = rlp ?b" "rln ?c = rln ?b" "listed ?c = listed ?b"
    by (auto simp: rlp_def rln_def listed_def fun_eq_iff)
  then have "tiers_ok ?c F" using D(1) low
    by (simp add: tiers_ok_def free_ok_def bases_ok_def high_idle_def high_slots_def high_lists_def rlist_ok_def)
  then have "binv ?c F L {}" using b by (simp add: binv_def bits_ok_def)
  moreover have "omap_ok ?c L" using om by (simp add: omap_ok_def)
  moreover have "map_at ?c = map_at ?b" by (simp add: map_at_def fun_eq_iff)
  ultimately show ?thesis using inv by (simp add: buddy_inv_def)
qed

lemma buddy_free_inv:
  assumes inv: "buddy_inv mapped rinv owner w F L" and l: "(a, k) \<in> L"
  shows "\<exists>b' F'. free_order a k (bw_buddy w) = Some b' \<and> buddy_inv mapped rinv owner (w\<lparr>bw_buddy := b'\<rparr>) F' (L - {(a, k)})"
proof -
  have b: "binv (bw_buddy w) F L {}" and om: "omap_ok (bw_buddy w) L" using inv by (auto simp: buddy_inv_def)
  obtain b' F' where b': "free_order a k (bw_buddy w) = Some b'" "binv b' F' (L - {(a, k)}) {}" "keep (bw_buddy w) b'"
    using free_order_ok [OF binv_release [OF b l]] by blast
  have "omap_ok b' (L - {(a, k)})" by (rule omap_keep [OF om b'(3)]) blast
  then show ?thesis using b'(1,2) inv by (intro exI [of _ b'] exI [of _ F']) (simp add: buddy_inv_def keep_map_at [OF b'(3)])
qed

lemma buddy_free_batch_inv:
  assumes inv: "buddy_inv mapped rinv owner w F L" and l: "set ps \<times> {k} \<subseteq> L" "distinct ps"
  shows "\<exists>b' F'. dealloc_order_batch k ps (bw_buddy w) = Some b'
    \<and> buddy_inv mapped rinv owner (w\<lparr>bw_buddy := b'\<rparr>) F' (L - set ps \<times> {k})"
proof -
  have b: "binv (bw_buddy w) F L {}" and om: "omap_ok (bw_buddy w) L" using inv by (auto simp: buddy_inv_def)
  obtain b' F' where b': "dealloc_order_batch k ps (bw_buddy w) = Some b'" "binv b' F' (L - set ps \<times> {k}) {}"
    "keep (bw_buddy w) b'" using dealloc_order_batch_ok [OF b l] by blast
  have "omap_ok b' (L - set ps \<times> {k})" by (rule omap_keep [OF om b'(3)]) blast
  then show ?thesis using b'(1,2) inv by (intro exI [of _ b'] exI [of _ F']) (simp add: buddy_inv_def keep_map_at [OF b'(3)])
qed

lemma buddy_step_inv:
  assumes "buddy_step env mapped s s'" and kern: "buddy_kernel_ok env mapped"
    and reg: "buddy_registrar_ok rinv owner (be_register env)" and "buddy_inv mapped rinv owner (fst s) F (snd s)"
  shows "\<exists>F'. buddy_inv mapped rinv owner (fst s') F' (snd s')"
  using assms(1,4)
proof (cases rule: buddy_step.cases)
  case (alloc sz w a w' k L)
  have I: "buddy_inv mapped rinv owner w F L" using assms(4) alloc(1) by simp
  have "alloc_order env k w = Some (Some a, w')" using alloc(3,4) by (simp add: buddy_alloc_def split: if_splits)
  then show ?thesis using alloc_order_ok [OF kern reg I order_for_le [OF alloc(4)]] alloc(2) by auto
next
  case (alloc_fail sz w w' L)
  have I: "buddy_inv mapped rinv owner w F L" using assms(4) alloc_fail(1) by simp
  show ?thesis
  proof (cases "w' = w")
    case True
    then show ?thesis using I alloc_fail(2) by auto
  next
    case False
    then obtain k where k: "order_for sz = Some k" "alloc_order env k w = Some (None, w')"
      using alloc_fail(3) by (auto simp: buddy_alloc_def split: if_splits option.splits)
    then show ?thesis using alloc_order_ok [OF kern reg I order_for_le [OF k(1)]] alloc_fail(2) by auto
  qed
next
  case (batch k n w bs w' L)
  have I: "buddy_inv mapped rinv owner w F L" using assms(4) batch(1) by simp
  then show ?thesis using alloc_order_batch_ok [OF kern reg batch(4) I, of n] batch(2,3) by auto
next
  case (free a k L sz w b')
  have I: "buddy_inv mapped rinv owner w F L" using assms(4) free(1) by simp
  have "free_order a k (bw_buddy w) = Some b'" using free(4,5) by (simp add: buddy_dealloc_def)
  then show ?thesis using buddy_free_inv [OF I free(3)] free(2) by auto
next
  case (free_order a k L w b')
  have I: "buddy_inv mapped rinv owner w F L" using assms(4) free_order(1) by simp
  then show ?thesis using buddy_free_inv [OF I free_order(3)] free_order(2,4) by auto
next
  case (free_batch ps k L w b')
  have I: "buddy_inv mapped rinv owner w F L" using assms(4) free_batch(1) by simp
  then show ?thesis using buddy_free_batch_inv [OF I free_batch(3,4)] free_batch(2,5) by auto
next
  case (app_write a k L x w v)
  have I: "buddy_inv mapped rinv owner w F L" using assms(4) app_write(1) by simp
  then show ?thesis using buddy_write_inv [OF I app_write(3,4)] app_write(2) by auto
next
  case (other_mapping w os' L)
  have I: "buddy_inv mapped rinv owner w F L" using assms(4) other_mapping(1) by simp
  then have "buddy_inv mapped rinv owner (w\<lparr>bw_os := os'\<rparr>) F L"
    using world_ok_os [where mapped = mapped and rinv = rinv and owner = owner, OF _ other_mapping(3)] by (simp add: buddy_inv_def)
  then show ?thesis using other_mapping(2) by auto
qed

lemma buddy_run_inv:
  assumes "buddy_kernel_ok env mapped" and "buddy_registrar_ok rinv owner (be_register env)" and "buddy_start w0"
    and "rinv (bw_reg w0)" and "\<forall>x. owner (bw_reg w0) x \<noteq> None \<longrightarrow> unat x \<in> mapped (bw_os w0)"
    and "buddy_reach env mapped (w0, {}) (w, L)"
  obtains F where "buddy_inv mapped rinv owner w F L"
proof -
  have "\<exists>F. buddy_inv mapped rinv owner (fst s) F (snd s)" if "buddy_reach env mapped (w0, {}) s" for s
    using that
  proof induction
    case start
    then show ?case using buddy_inv_start [where w = w0 and rinv = rinv and owner = owner and mapped = mapped, OF assms(3-5)] by auto
  next
    case (more s s')
    then show ?case using buddy_step_inv [OF more.hyps(2) assms(1,2)] by blast
  qed
  from this [OF assms(6)] show ?thesis using that by auto
qed

section \<open>The region registry as the registrar\<close>

definition region_register :: "u8 \<Rightarrow> region_registry \<Rightarrow> usize \<Rightarrow> usize \<Rightarrow> bool \<times> region_registry" where
  "region_register stripe r base omap = reg_insert r base stripe omap"

definition region_owner :: "region_registry \<Rightarrow> usize \<Rightarrow> usize option" where
  "region_owner r base = map_option snd (reg_lookup_full r base)"

lemma region_registrar_ok:
  "buddy_registrar_ok (\<lambda>r. probe_inv REGION_CAPACITY (reg_keys r)) region_owner (region_register stripe)"
proof -
  have "probe_inv REGION_CAPACITY (reg_keys r') \<and> (\<forall>x. x \<noteq> b \<longrightarrow> region_owner r' x = region_owner r x)
        \<and> (ok \<longrightarrow> region_owner r b = None \<longrightarrow> region_owner r' b = Some m) \<and> (\<not> ok \<longrightarrow> r' = r)"
    if r: "probe_inv REGION_CAPACITY (reg_keys r)" and b: "b \<noteq> 0"
      and res: "region_register stripe r b m = (ok, r')" for r b m ok r'
  proof -
    have z: "reg_lookup_full q 0 = None" for q
      using reg.probe_find_less [of "reg_keys q" 0] by (auto simp: reg.look_eq probe_stop_def split: option.splits)
    note I = reg.ins_correct [of r b "(stripe, m)" ok r', unfolded capacity_pow2(2) [symmetric]]
    have J: "probe_inv REGION_CAPACITY (reg_keys r')"
      "reg_lookup_full r' b = (if ok then Some (case reg_lookup_full r b of None \<Rightarrow> (stripe, m) | Some w \<Rightarrow> w)
         else reg_lookup_full r b)"
      "\<forall>d. d \<noteq> 0 \<longrightarrow> d \<noteq> b \<longrightarrow> reg_lookup_full r' d = reg_lookup_full r d" "\<not> ok \<longrightarrow> r' = r"
      using I r b res by (auto simp: region_register_def)
    have "reg_lookup_full r' d = reg_lookup_full r d" if "d \<noteq> b" for d using J(3) z that by (cases "d = 0") auto
    then show ?thesis using J by (auto simp: region_owner_def)
  qed
  then show ?thesis unfolding buddy_registrar_ok_def by blast
qed

text \<open>A new allocator on the kernel of the slab's demonstration, with the region registry.\<close>

definition bump_buddy_env :: "(bump, region_registry) buddy_env" where
  "bump_buddy_env = \<lparr>be_page = 4096, be_mmap = bump_mmap, be_munmap = bump_munmap, be_register = region_register 3\<rparr>"

definition bump_buddy_world :: "(bump, region_registry) buddy_world" where
  "bump_buddy_world = \<lparr>bw_buddy = set_record_orders (buddy_new (\<lambda>_. \<lparr>fn_prev = 0, fn_next = 0\<rparr>)),
     bw_os = (0x400000, []), bw_reg = region_registry_new\<rparr>"

lemma bump_buddy_kernel_ok: "buddy_kernel_ok bump_buddy_env bump_mapped"
  using bump_kernel_ok by (simp add: buddy_kernel_ok_def pages_env_def bump_buddy_env_def bump_env_def kernel_ok_def)

lemma bump_buddy_registrar_ok:
  "buddy_registrar_ok (\<lambda>r. probe_inv REGION_CAPACITY (reg_keys r)) region_owner (be_register bump_buddy_env)"
  using region_registrar_ok by (simp add: bump_buddy_env_def)

lemma bump_buddy_start:
  "buddy_start bump_buddy_world" "probe_inv REGION_CAPACITY (reg_keys (bw_reg bump_buddy_world))"
  "\<forall>b. region_owner (bw_reg bump_buddy_world) b \<noteq> None \<longrightarrow> unat b \<in> bump_mapped (bw_os bump_buddy_world)"
  using reg.table_inv_empty reg.look_empty
  by (auto simp: buddy_start_def bump_buddy_world_def capacity_pow2 region_owner_def)

lemma bump_refill: "buddy_refill bump_buddy_env bump_buddy_world \<noteq> Some (False, w)"
proof -
  have a: "alloc_pages 4096 bump_mmap REGION_BYTES REGION_BYTES (0x400000, [])
    = (Some \<lparr>map_base = 0x400000, map_ptr = 0x400000, map_len = 0x800000, map_usable = 0x800000\<rparr>,
       (0xC00000, [Mapped 0x400000 0x800000, Below 0x400000]))"
    by code_simp
  have b: "alloc_pages 4096 bump_mmap 0x105000 8 (0xC00000, [Mapped 0x400000 0x800000, Below 0x400000])
    = (Some \<lparr>map_base = 0xC00000, map_ptr = 0xC00000, map_len = 0x105000, map_usable = 0x105000\<rparr>,
       (0xD05000, [Mapped 0xC00000 0x105000, Below 0xC00000, Mapped 0x400000 0x800000, Below 0x400000]))"
    by code_simp
  have c: "reg_insert region_registry_new 0x400000 3 omap \<noteq> (False, q)" for omap q
    by (simp add: reg_insert_def PROBE_MAX_def region_registry_new_def numeral_eq_Suc)
  let ?w = "bump_buddy_world\<lparr>bw_os := (0xC00000, [Mapped 0x400000 0x800000, Below 0x400000])\<rparr>"
  obtain carve w2 where d: "alloc_bitmap bump_buddy_env ?w = (Some carve, w2)" "bw_reg w2 = region_registry_new"
    unfolding alloc_bitmap_def metadata_size
    by (simp add: bump_buddy_env_def bump_buddy_world_def set_record_orders_def buddy_new_def b)
  have e: "alloc_pages (be_page bump_buddy_env) (be_mmap bump_buddy_env) REGION_BYTES REGION_BYTES (bw_os bump_buddy_world)
    = (Some \<lparr>map_base = 0x400000, map_ptr = 0x400000, map_len = 0x800000, map_usable = 0x800000\<rparr>,
       (0xC00000, [Mapped 0x400000 0x800000, Below 0x400000]))"
    using a by (simp add: bump_buddy_env_def bump_buddy_world_def)
  have "be_register bump_buddy_env (bw_reg w2) 0x400000 omap \<noteq> (False, q)" for omap q
    using c d(2) by (simp add: bump_buddy_env_def region_register_def)
  then show ?thesis
    by (auto simp: buddy_refill_def e d(1) Option.bind_eq_Some_conv split: prod.splits bool.splits)
qed

lemma bump_buddy_alloc:
  assumes "order_for sz = Some k"
  shows "\<exists>a w. buddy_alloc bump_buddy_env sz bump_buddy_world = Some (Some a, w)"
proof -
  have inv: "buddy_inv bump_mapped (\<lambda>r. probe_inv REGION_CAPACITY (reg_keys r)) region_owner bump_buddy_world (\<lambda>_. {}) {}"
    using buddy_inv_start [where mapped = bump_mapped and rinv = "\<lambda>r. probe_inv REGION_CAPACITY (reg_keys r)"
        and owner = region_owner, OF bump_buddy_start(1)] bump_buddy_start(2,3) by simp
  obtain r w where r: "alloc_order bump_buddy_env k bump_buddy_world = Some (r, w)"
    "r = None \<longrightarrow> buddy_refill bump_buddy_env bump_buddy_world = Some (False, w)"
    using alloc_order_ok [OF bump_buddy_kernel_ok bump_buddy_registrar_ok inv order_for_le [OF assms]]
    by (auto split: option.splits)
  then obtain a where "r = Some a" using bump_refill by (cases r) auto
  moreover have "buddy_alloc bump_buddy_env sz bump_buddy_world = alloc_order bump_buddy_env k bump_buddy_world"
    using assms by (auto simp: buddy_alloc_def order_for_def split: if_splits)
  ultimately show ?thesis using r by simp
qed

lemma order_demo: "order_for 20000 = Some 11"
proof -
  have "(2::nat) ^ (4 + j) < 20000" if "j < 11" for j
  proof -
    have "(2::nat) ^ (4 + j) \<le> 2 ^ 14" by (rule power_increasing) (use that in simp_all)
    then show ?thesis by simp
  qed
  then show ?thesis unfolding order_for_Some_iff by simp
qed

text \<open>A reachable state with a live block of 32 KiB.\<close>

lemma bump_buddy_reach:
  "\<exists>a w. buddy_reach bump_buddy_env bump_mapped (bump_buddy_world, {}) (w, {(a, 11)})"
proof -
  obtain a w where "buddy_alloc bump_buddy_env 20000 bump_buddy_world = Some (Some a, w)"
    using bump_buddy_alloc [OF order_demo] by blast
  from buddy_reach.more [OF buddy_reach.start buddy_step.alloc [OF this order_demo]] show ?thesis by blast
qed

section \<open>Properties\<close>

lemma buddy_inv_live:
  assumes inv: "buddy_inv mapped rinv owner w F L" and a: "(a, k) \<in> L"
  shows "k \<le> 16" and "a \<noteq> 0" and "2 ^ (4 + k) dvd unat a" and "span a k \<subseteq> mapped (bw_os w)"
    and "(a', k') \<in> L \<Longrightarrow> (a, k) \<noteq> (a', k') \<Longrightarrow> span a k \<inter> span a' k' = {}"
    and "rg (bw_buddy w) (rbase a) \<noteq> None" and "region_base_ok (rbase a)"
proof -
  have b: "binv (bw_buddy w) F L {}" and wo: "world_ok mapped rinv owner (map_at (bw_buddy w)) (bw_os w) (bw_reg w)"
    using inv by (auto simp: buddy_inv_def)
  note D = binvD [OF b]
  have m: "(a, k) \<in> {} \<union> fs F \<union> L" using a by simp
  note T = tilingD [OF D(3) m]
  show "k \<le> 16" "2 ^ (4 + k) dvd unat a" using T(1) by (auto simp: blk_def)
  show r: "rg (bw_buddy w) (rbase a) \<noteq> None" using T(2) by simp
  show ok: "region_base_ok (rbase a)" by (rule tiers_okD(6) [OF D(1) r])
  have "0 < unat (rbase a)" using ok by (auto simp: region_base_ok_def unat_gt_0)
  then show "a \<noteq> 0" using rbase_le(1) [of a] by auto
  obtain om where "map_at (bw_buddy w) (rbase a) = Some om" using r by (auto simp: map_at_def)
  then have "rspan (rbase a) \<subseteq> mapped (bw_os w)" using wo unfolding world_ok_def by blast
  then show "span a k \<subseteq> mapped (bw_os w)" using span_in_region [OF T(1)] by blast
  show "span a k \<inter> span a' k' = {}" if "(a', k') \<in> L" "(a, k) \<noteq> (a', k')" using T(3) that by blast
qed

text \<open>
  C8: Whatever the sequence of allocations, batches, frees, batch frees, writes of the application to its
  blocks and other mappings of the process, in every state reached from a new buddy allocator each live block is
  non-null, aligned to its size and mapped over its whole size, and no two live blocks overlap, through
  all splitting, merging, draining and refilling.
\<close>
theorem buddy_live_disjoint:
  assumes "buddy_kernel_ok env mapped" and "buddy_registrar_ok rinv owner (be_register env)" and "buddy_start w0"
    and "rinv (bw_reg w0)" and "\<forall>x. owner (bw_reg w0) x \<noteq> None \<longrightarrow> unat x \<in> mapped (bw_os w0)"
    and "buddy_reach env mapped (w0, {}) (w, L)"
  shows "(\<forall>(a, k) \<in> L. k \<le> MAX_ORDER \<and> a \<noteq> 0 \<and> unat (block_size k) dvd unat a
        \<and> {unat a ..< unat a + unat (block_size k)} \<subseteq> mapped (bw_os w))
    \<and> (\<forall>(a, k) \<in> L. \<forall>(a', k') \<in> L. (a, k) \<noteq> (a', k') \<longrightarrow>
        {unat a ..< unat a + unat (block_size k)} \<inter> {unat a' ..< unat a' + unat (block_size k')} = {})"
proof -
  obtain F where inv: "buddy_inv mapped rinv owner w F L" using buddy_run_inv [OF assms] .
  note I = buddy_inv_live [OF inv]
  have e: "unat (block_size k) = 2 ^ (4 + k)" if "(a, k) \<in> L" for a k using I(1) [OF that] by (simp add: unat_block_size)
  have "\<forall>(a, k) \<in> L. k \<le> MAX_ORDER \<and> a \<noteq> 0 \<and> unat (block_size k) dvd unat a
      \<and> {unat a ..< unat a + unat (block_size k)} \<subseteq> mapped (bw_os w)"
    using I(1-4) e unfolding span_def by fastforce
  moreover have "{unat a ..< unat a + unat (block_size k)} \<inter> {unat a' ..< unat a' + unat (block_size k')} = {}"
    if "(a, k) \<in> L" "(a', k') \<in> L" "(a, k) \<noteq> (a', k')" for a k a' k'
    using I(5) [OF that] unfolding span_def e [OF that(1)] e [OF that(2)] .
  ultimately show ?thesis by blast
qed

lemma buddy_live_disjoint_witness:
  "\<exists>a w. buddy_reach bump_buddy_env bump_mapped (bump_buddy_world, {}) (w, {(a, 11)}) \<and> 32768 dvd unat a"
proof -
  obtain a w where r: "buddy_reach bump_buddy_env bump_mapped (bump_buddy_world, {}) (w, {(a, 11)})"
    using bump_buddy_reach by blast
  from buddy_live_disjoint [OF bump_buddy_kernel_ok bump_buddy_registrar_ok bump_buddy_start r]
  have "unat (block_size 11) dvd unat a" by simp
  then show ?thesis using r by (auto simp: unat_block_size)
qed

text \<open>
  C9: No memory of a buddy region is ever lost or held twice: in every reachable state each byte of each region
  lies in exactly one block that is live or that the region's bitmap records as free.
\<close>
theorem buddy_nothing_lost:
  assumes "buddy_kernel_ok env mapped" and "buddy_registrar_ok rinv owner (be_register env)" and "buddy_start w0"
    and "rinv (bw_reg w0)" and "\<forall>x. owner (bw_reg w0) x \<noteq> None \<longrightarrow> unat x \<in> mapped (bw_os w0)"
    and "buddy_reach env mapped (w0, {}) (w, L)"
    and "r \<in> set (regions (bw_buddy w))" and "unat (r_base r) \<le> x" and "x < unat (r_base r) + unat REGION_BYTES"
  shows "\<exists>!(a, k). k \<le> MAX_ORDER \<and> unat (block_size k) dvd unat a \<and> unat a \<le> x \<and> x < unat a + unat (block_size k)
    \<and> ((a, k) \<in> L \<or> is_free_bit r a k)"
proof -
  obtain F where inv: "buddy_inv mapped rinv owner w F L" using buddy_run_inv [OF assms(1-6)] .
  have b: "binv (bw_buddy w) F L {}" using inv by (simp add: buddy_inv_def)
  note D = binvD [OF b]
  let ?S = "{} \<union> fs F \<union> L"
  obtain i where i: "i < length (regions (bw_buddy w))" "regions (bw_buddy w) ! i = r" using assms(7) by (auto simp: in_set_conv_nth)
  have rg: "rg (bw_buddy w) (r_base r) = Some r" using rg_nth [OF D(4) i(1)] i(2) by simp
  then have rok: "region_base_ok (r_base r)" using tiers_okD(6) [OF D(1), of "r_base r"] by simp
  have x: "x \<in> rspan (r_base r)" using assms(8,9) by (simp add: rspan_def unat_REGION_BYTES)
  have bs: "unat (block_size k) = 2 ^ (4 + k)" if "k \<le> 16" for k using that by (simp add: unat_block_size)
  have blks: "k \<le> MAX_ORDER \<and> unat (block_size k) dvd unat a \<and> unat a \<le> x \<and> x < unat a + unat (block_size k)
      \<longleftrightarrow> blk a k \<and> x \<in> span a k" for a k
    using bs [of k] by (auto simp: blk_def span_def)
  have mem: "(a, k) \<in> ?S \<longleftrightarrow> (a, k) \<in> L \<or> is_free_bit r a k" if k: "blk a k" "x \<in> span a k" for a k
  proof -
    have "rbase a = r_base r"
    proof -
      have d: "2 ^ 22 dvd unat (r_base r)" "2 ^ 22 dvd unat (rbase a)"
        using rok by (simp_all only: region_base_ok_def unat_rbase dvd_triv_right)
      have "x \<in> rspan (rbase a)" using span_in_region [OF k(1)] k(2) by blast
      then show ?thesis using rspan_disjoint [OF d(2,1)] x by blast
    qed
    then show ?thesis using D(2) rg k(1) unfolding bits_ok_def by auto
  qed
  have "rspan (r_base r) \<subseteq> (\<Union>(a, k) \<in> ?S. span a k)" using D(3) rg unfolding tiling_def by blast
  then obtain a k where ak: "(a, k) \<in> ?S" "x \<in> span a k" using x by blast
  have one: "(a', k') = (a, k)" if "(a', k') \<in> ?S" "x \<in> span a' k'" for a' k'
    using tilingD(3) [OF D(3) ak(1) that(1)] ak(2) that(2) by (metis disjoint_iff)
  have B: "blk a' k'" if "(a', k') \<in> ?S" for a' k' by (rule tilingD(1) [OF D(3) that])
  have P: "k' \<le> MAX_ORDER \<and> unat (block_size k') dvd unat a' \<and> unat a' \<le> x \<and> x < unat a' + unat (block_size k')
    \<and> ((a', k') \<in> L \<or> is_free_bit r a' k') \<longleftrightarrow> (a', k') \<in> ?S \<and> x \<in> span a' k'" for a' k'
    using blks [of k' a'] mem [of a' k'] B [of a' k'] by blast
  have "\<exists>!p. p \<in> ?S \<and> x \<in> span (fst p) (snd p)"
  proof (rule ex1I [of _ "(a, k)"])
    fix p assume "p \<in> ?S \<and> x \<in> span (fst p) (snd p)"
    then show "p = (a, k)" using one [of "fst p" "snd p"] by (simp only: prod.collapse)
  qed (use ak in \<open>simp only: fst_conv snd_conv simp_thms\<close>)
  then show ?thesis unfolding case_prod_beta P by (simp only: prod.collapse)
qed

lemma buddy_nothing_lost_witness:
  "\<exists>a w r. buddy_reach bump_buddy_env bump_mapped (bump_buddy_world, {}) (w, {(a, 11)}) \<and> r \<in> set (regions (bw_buddy w))
     \<and> (\<exists>b k. unat b \<le> unat (r_base r) \<and> unat (r_base r) < unat b + unat (block_size k)
          \<and> ((b, k) = (a, 11) \<or> is_free_bit r b k))"
proof -
  obtain a w where r: "buddy_reach bump_buddy_env bump_mapped (bump_buddy_world, {}) (w, {(a, 11)})"
    using bump_buddy_reach by blast
  obtain F where "buddy_inv bump_mapped (\<lambda>r. probe_inv REGION_CAPACITY (reg_keys r)) region_owner w F {(a, 11)}"
    using buddy_run_inv [OF bump_buddy_kernel_ok bump_buddy_registrar_ok bump_buddy_start r] .
  from buddy_inv_live(6) [OF this] obtain q where q: "rg (bw_buddy w) (rbase a) = Some q" by auto
  then have m: "q \<in> set (regions (bw_buddy w))" using rg_Some_base by blast
  have "unat (r_base q) < unat (r_base q) + unat REGION_BYTES" by (simp add: unat_REGION_BYTES)
  from buddy_nothing_lost [OF bump_buddy_kernel_ok bump_buddy_registrar_ok bump_buddy_start r m order.refl this]
  obtain b k where "unat b \<le> unat (r_base q) \<and> unat (r_base q) < unat b + unat (block_size k)
      \<and> ((b, k) = (a, 11) \<or> is_free_bit q b k)" by auto
  then show ?thesis using r m by blast
qed

text \<open>
  C10: In every reachable state an allocation of the buddy allocator returns, without a panic. It gives no block
  only for a size of 0 or above the largest block, or when a refill fails; otherwise the block has the least
  order that covers the size and it overlaps no live block.
\<close>
theorem buddy_alloc_returns:
  assumes "buddy_kernel_ok env mapped" and "buddy_registrar_ok rinv owner (be_register env)" and "buddy_start w0"
    and "rinv (bw_reg w0)" and "\<forall>x. owner (bw_reg w0) x \<noteq> None \<longrightarrow> unat x \<in> mapped (bw_os w0)"
    and "buddy_reach env mapped (w0, {}) (w, L)"
  shows "\<exists>r w'. buddy_alloc env sz w = Some (r, w') \<and> (case r of
      None \<Rightarrow> sz = 0 \<or> BUDDY_MAX < sz \<or> buddy_refill env w = Some (False, w')
    | Some a \<Rightarrow> (\<exists>k. order_for sz = Some k \<and> sz \<le> block_size k \<and> (\<forall>j < k. block_size j < sz)
        \<and> (\<forall>(a', k') \<in> L. span a k \<inter> span a' k' = {})))"
proof (cases "sz = 0 \<or> BUDDY_MAX < sz")
  case True
  then show ?thesis by (auto simp: buddy_alloc_def)
next
  case False
  then have s: "0 < unat sz" "unat sz \<le> 2 ^ 20" by (auto simp: BUDDY_MAX_def word_less_nat_alt unat_gt_0)
  have "unat sz \<le> 2 ^ (4 + 16)" using s(2) by simp
  then have ex: "unat sz \<le> 2 ^ (4 + (LEAST j. unat sz \<le> 2 ^ (4 + j)))" by (rule LeastI)
  let ?k = "LEAST j. unat sz \<le> 2 ^ (4 + j)"
  have "\<forall>j < ?k. 2 ^ (4 + j) < unat sz" using not_less_Least not_le by blast
  then have k: "order_for sz = Some ?k" using ex s order_for_Some_iff by blast
  note k16 = order_for_le [OF k]
  obtain F where inv: "buddy_inv mapped rinv owner w F L" using buddy_run_inv [OF assms] .
  obtain r w' F' where r: "alloc_order env ?k w = Some (r, w')"
    "case r of None \<Rightarrow> buddy_inv mapped rinv owner w' F' L \<and> buddy_refill env w = Some (False, w')
       | Some a \<Rightarrow> buddy_inv mapped rinv owner w' F' (insert (a, ?k) L) \<and> (a, ?k) \<notin> L"
    using alloc_order_ok [OF assms(1,2) inv k16] by blast
  have e: "buddy_alloc env sz w = Some (r, w')" using False k r(1) by (simp add: buddy_alloc_def)
  show ?thesis
  proof (cases r)
    case None
    then show ?thesis using e r(2) by (intro exI [of _ None] exI [of _ w']) simp
  next
    case (Some a)
    then have i: "buddy_inv mapped rinv owner w' F' (insert (a, ?k) L)" "(a, ?k) \<notin> L" using r(2) by simp_all
    have "span a ?k \<inter> span a' k' = {}" if "(a', k') \<in> L" for a' k'
      using buddy_inv_live(5) [OF i(1), of a ?k a' k'] that i(2) by auto
    moreover have "sz \<le> block_size ?k" using ex k16 by (simp add: word_le_nat_alt unat_block_size)
    moreover have "block_size j < sz" if "j < ?k" for j
      using \<open>\<forall>j < ?k. 2 ^ (4 + j) < unat sz\<close> that k16 by (simp add: word_less_nat_alt unat_block_size)
    ultimately show ?thesis using e Some k by (intro exI [of _ r] exI [of _ w']) auto
  qed
qed

lemma buddy_alloc_returns_witness:
  "\<exists>a w. buddy_alloc bump_buddy_env 20000 bump_buddy_world = Some (Some a, w) \<and> 20000 \<le> block_size 11"
proof -
  obtain a w where "buddy_alloc bump_buddy_env 20000 bump_buddy_world = Some (Some a, w)"
    using bump_buddy_alloc [OF order_demo] by blast
  then show ?thesis
    using buddy_alloc_returns [OF bump_buddy_kernel_ok bump_buddy_registrar_ok bump_buddy_start buddy_reach.start, of 20000]
      order_demo by auto
qed

text \<open>A byte of a region that no live block holds lies in a free block, so the bytes of freed blocks do.\<close>

definition byte_free :: "buddy \<Rightarrow> nat \<Rightarrow> bool" where
  "byte_free b x \<longleftrightarrow> (\<exists>a k r. x \<in> span a k \<and> rg b (rbase a) = Some r \<and> is_free_bit r a k)"

lemma freed_bytes:
  assumes b: "binv b F L {}" and b': "binv b' F' (L - X) {}" "keep b b'" and l: "X \<subseteq> L" "(a, k) \<in> X" and x: "x \<in> span a k"
  shows "byte_free b' x"
proof -
  note D = binvD [OF b'(1)]
  have m: "(a, k) \<in> {} \<union> fs F \<union> L" using l by auto
  note T = tilingD [OF binvD(3) [OF b] m]
  have "rg b' (rbase a) \<noteq> None" using T(2) b'(2) keep_rg by simp
  then have "rspan (rbase a) \<subseteq> (\<Union>(a, k) \<in> {} \<union> fs F' \<union> (L - X). span a k)" using D(3) unfolding tiling_def by blast
  moreover have "x \<in> rspan (rbase a)" using span_in_region [OF T(1)] x by blast
  ultimately have "x \<in> (\<Union>(a, k) \<in> {} \<union> fs F' \<union> (L - X). span a k)" by blast
  then obtain a' k' where ak: "(a', k') \<in> {} \<union> fs F' \<union> (L - X)" "x \<in> span a' k'" by blast
  have "(a', k') \<notin> L - X" using T(3) [of a' k'] ak(2) x l(2) by auto
  then have f: "a' \<in> F' k'" using ak(1) by auto
  then obtain r' where r': "rg b' (rbase a') = Some r'" using tiers_okD(4) [OF D(1) f] by auto
  then have "is_free_bit r' a' k'" using D(2) tiers_okD(3) [OF D(1) f] f unfolding bits_ok_def by blast
  then show ?thesis using ak(2) r' unfolding byte_free_def by blast
qed

text \<open>
  C11: Freeing a live block, or a batch of distinct live blocks of one order, never panics in any reachable state,
  whatever the pointer caches, lists and bitmaps have become; afterwards every byte of each freed block lies in a free
  block of a region, one whose free bit is set.
\<close>
theorem buddy_free_returns:
  assumes "buddy_kernel_ok env mapped" and "buddy_registrar_ok rinv owner (be_register env)" and "buddy_start w0"
    and "rinv (bw_reg w0)" and "\<forall>x. owner (bw_reg w0) x \<noteq> None \<longrightarrow> unat x \<in> mapped (bw_os w0)"
    and "buddy_reach env mapped (w0, {}) (w, L)"
  shows "(\<forall>(a, k) \<in> L. \<exists>b'. free_order a k (bw_buddy w) = Some b' \<and> (\<forall>x \<in> span a k. byte_free b' x))
    \<and> (\<forall>ps k. set ps \<times> {k} \<subseteq> L \<longrightarrow> distinct ps \<longrightarrow>
        (\<exists>b'. dealloc_order_batch k ps (bw_buddy w) = Some b' \<and> (\<forall>a \<in> set ps. \<forall>x \<in> span a k. byte_free b' x)))"
proof -
  obtain F where inv: "buddy_inv mapped rinv owner w F L" using buddy_run_inv [OF assms] .
  then have b: "binv (bw_buddy w) F L {}" by (simp add: buddy_inv_def)
  have "\<exists>b'. free_order a k (bw_buddy w) = Some b' \<and> (\<forall>x \<in> span a k. byte_free b' x)" if l: "(a, k) \<in> L" for a k
  proof -
    obtain b' F' where b': "free_order a k (bw_buddy w) = Some b'" "binv b' F' (L - {(a, k)}) {}" "keep (bw_buddy w) b'"
      using free_order_ok [OF binv_release [OF b l]] by blast
    then show ?thesis using freed_bytes [OF b b'(2,3)] l by simp
  qed
  moreover have "\<exists>b'. dealloc_order_batch k ps (bw_buddy w) = Some b' \<and> (\<forall>a \<in> set ps. \<forall>x \<in> span a k. byte_free b' x)"
    if l: "set ps \<times> {k} \<subseteq> L" "distinct ps" for ps k
  proof -
    obtain b' F' where b': "dealloc_order_batch k ps (bw_buddy w) = Some b'" "binv b' F' (L - set ps \<times> {k}) {}" "keep (bw_buddy w) b'"
      using dealloc_order_batch_ok [OF b l] by blast
    then show ?thesis using freed_bytes [OF b b'(2,3) l(1)] by simp
  qed
  ultimately show ?thesis by blast
qed

lemma buddy_free_returns_witness:
  "\<exists>a w. buddy_reach bump_buddy_env bump_mapped (bump_buddy_world, {}) (w, {(a, 11)})
     \<and> free_order a 11 (bw_buddy w) \<noteq> None"
proof -
  obtain a w where r: "buddy_reach bump_buddy_env bump_mapped (bump_buddy_world, {}) (w, {(a, 11)})"
    using bump_buddy_reach by blast
  from buddy_free_returns [OF bump_buddy_kernel_ok bump_buddy_registrar_ok bump_buddy_start r]
  show ?thesis using r by auto
qed

end
