(* ===== verification/ArenaAlloc.thy ===== *)
theory ArenaAlloc
  imports SysBackend HotTls Registry "HOL-Library.Monad_Syntax"
begin

text \<open>
  The bump arena (\<open>crates/lohalloc-alloc/src/arena.rs\<close>) and its users in \<open>lib.rs\<close>: the
  lock-free span path, the slow path under the arena's mutex, the free-side accounting, chunk recycling and
  reset. An operation is one function on the shared state and the thread's hot block; a compare-and-exchange
  loop that nobody interferes with succeeds at once.

  A \<open>ChunkMeta\<close> is only reached through its address, which never changes: the address of the meta of
  chunk \<open>i\<close> is modelled by \<open>i + 1\<close>, and 0 stays the null value. A published descriptor is the
  index of its chunk. \<open>None\<close> is a panic or a loop that does not end.
\<close>

section \<open>Constants\<close>

definition DEFAULT_CHUNK_SIZE :: usize where "DEFAULT_CHUNK_SIZE = push_bit 20 1"
definition CHUNK_BYTES :: usize where "CHUNK_BYTES = DEFAULT_CHUNK_SIZE"
definition BASE_MAX_CHUNKS :: nat where "BASE_MAX_CHUNKS = 32"
definition PER_CPU_CHUNKS :: nat where "PER_CPU_CHUNKS = 4"
definition MAX_CHUNKS_CAP :: nat where "MAX_CHUNKS_CAP = 128"
definition ARENA_SPAN_BYTES :: usize where "ARENA_SPAN_BYTES = 4096"

text \<open>The argument is \<open>available_parallelism\<close>, 0 when it fails.\<close>

definition scaled_max_chunks :: "nat \<Rightarrow> nat" where
  "scaled_max_chunks ncpus = min (max (BASE_MAX_CHUNKS + PER_CPU_CHUNKS * ncpus) BASE_MAX_CHUNKS) MAX_CHUNKS_CAP"

section \<open>Chunks\<close>

record chunk_meta =
  cm_intent :: usize
  cm_spans :: usize
  cm_carved :: usize
  cm_freed :: usize

definition chunk_meta_new :: chunk_meta where
  "chunk_meta_new = \<lparr>cm_intent = 0, cm_spans = 0, cm_carved = 0, cm_freed = 0\<rparr>"

record chunk =
  ch_mapping :: mapping
  ch_base :: usize
  ch_capacity :: usize
  ch_cursor :: usize
  ch_meta :: chunk_meta
  ch_desc :: bool

definition chunk_new :: "usize \<Rightarrow> ('os \<Rightarrow> usize \<Rightarrow> usize option \<times> 'os) \<Rightarrow> usize \<Rightarrow> 'os \<Rightarrow> chunk option \<times> 'os" where
  "chunk_new page mmap sz os =
     (let align = max (max (round_up_pow2 sz) page) MIN_ALIGN
      in case alloc_pages page mmap sz align os of
           (None, os') \<Rightarrow> (None, os')
         | (Some m, os') \<Rightarrow>
             (Some \<lparr>ch_mapping = m, ch_base = map_ptr m, ch_capacity = min (map_usable m) sz,
                    ch_cursor = map_ptr m, ch_meta = chunk_meta_new, ch_desc = False\<rparr>, os'))"

definition chunk_alloc :: "usize \<Rightarrow> usize \<Rightarrow> chunk \<Rightarrow> usize option \<times> chunk" where
  "chunk_alloc sz align c =
     (let al = max align MIN_ALIGN; aligned = align_up (ch_cursor c) al
      in case checked_add aligned sz of
           None \<Rightarrow> (None, c)
         | Some new_cur \<Rightarrow>
             if new_cur > ch_base c + ch_capacity c then (None, c)
             else (Some aligned, c\<lparr>ch_cursor := new_cur\<rparr>))"

definition chunk_used :: "chunk \<Rightarrow> usize" where "chunk_used c = ch_cursor c - ch_base c"

section \<open>The arena\<close>

record recycle_stats =
  st_recycles :: usize
  st_grows :: usize
  st_skip_pinned :: usize
  st_skip_unfreed :: usize
  st_skip_uncarved :: usize

definition recycle_stats_default :: recycle_stats where
  "recycle_stats_default = \<lparr>st_recycles = 0, st_grows = 0, st_skip_pinned = 0, st_skip_unfreed = 0, st_skip_uncarved = 0\<rparr>"

record bump_arena =
  ar_chunks :: "chunk list"
  ar_current :: nat
  ar_chunk_size :: usize
  ar_max_chunks :: nat
  ar_reclaim :: bool
  ar_stats :: recycle_stats

definition arena_with_cap ::
  "usize \<Rightarrow> ('os \<Rightarrow> usize \<Rightarrow> usize option \<times> 'os) \<Rightarrow> usize \<Rightarrow> nat \<Rightarrow> 'os \<Rightarrow> bump_arena option \<times> 'os"
where
  "arena_with_cap page mmap chunk_size max_chunks os =
     (case chunk_new page mmap chunk_size os of
        (None, os') \<Rightarrow> (None, os')
      | (Some c, os') \<Rightarrow>
          (Some \<lparr>ar_chunks = [c], ar_current = 0, ar_chunk_size = chunk_size, ar_max_chunks = max_chunks,
                 ar_reclaim = False, ar_stats = recycle_stats_default\<rparr>, os'))"

definition arena_new :: "usize \<Rightarrow> ('os \<Rightarrow> usize \<Rightarrow> usize option \<times> 'os) \<Rightarrow> nat \<Rightarrow> 'os \<Rightarrow> bump_arena option \<times> 'os" where
  "arena_new page mmap ncpus os = arena_with_cap page mmap DEFAULT_CHUNK_SIZE (scaled_max_chunks ncpus) os"

definition arena_with_capacity ::
  "usize \<Rightarrow> ('os \<Rightarrow> usize \<Rightarrow> usize option \<times> 'os) \<Rightarrow> usize \<Rightarrow> 'os \<Rightarrow> bump_arena option \<times> 'os" where
  "arena_with_capacity page mmap chunk_size os = arena_with_cap page mmap chunk_size BASE_MAX_CHUNKS os"

definition set_reclaim :: "bool \<Rightarrow> bump_arena \<Rightarrow> bump_arena" where
  "set_reclaim on a = a\<lparr>ar_reclaim := on\<rparr>"

text \<open>\<open>self.chunks[i]\<close>, read and updated.\<close>

definition chunk_at :: "nat \<Rightarrow> bump_arena \<Rightarrow> chunk option" where
  "chunk_at i a = (if i < length (ar_chunks a) then Some (ar_chunks a ! i) else None)"

definition upd_chunk :: "nat \<Rightarrow> (chunk \<Rightarrow> chunk) \<Rightarrow> bump_arena \<Rightarrow> bump_arena" where
  "upd_chunk i f a = a\<lparr>ar_chunks := (ar_chunks a)[i := f (ar_chunks a ! i)]\<rparr>"

definition upd_meta :: "nat \<Rightarrow> (chunk_meta \<Rightarrow> chunk_meta) \<Rightarrow> bump_arena \<Rightarrow> bump_arena" where
  "upd_meta i f a = upd_chunk i (\<lambda>c. c\<lparr>ch_meta := f (ch_meta c)\<rparr>) a"

definition note_direct_carve :: "nat \<Rightarrow> bump_arena \<Rightarrow> bump_arena" where
  "note_direct_carve i a = (if ar_reclaim a then upd_meta i (\<lambda>m. m\<lparr>cm_carved := cm_carved m + 1\<rparr>) a else a)"

text \<open>The scan over the chunks that are left; the recycle intent is up while a candidate is examined.\<close>

fun recycle_scan :: "nat list \<Rightarrow> bump_arena \<Rightarrow> nat option \<times> bump_arena" where
  "recycle_scan [] a = (None, a)"
| "recycle_scan (i # is) a =
     (if i = ar_current a then recycle_scan is a
      else let c = ar_chunks a ! i
           in if chunk_used c = 0 then recycle_scan is a
              else let a = upd_meta i (\<lambda>m. m\<lparr>cm_intent := 1\<rparr>) a;
                       m = ch_meta (ar_chunks a ! i);
                       pinned = (cm_spans m \<noteq> 0); carved = cm_carved m; freed = cm_freed m
                   in if pinned \<or> carved = 0 \<or> freed \<noteq> carved
                      then let a = upd_meta i (\<lambda>m. m\<lparr>cm_intent := 0\<rparr>) a; s = ar_stats a;
                               s = (if pinned then s\<lparr>st_skip_pinned := st_skip_pinned s + 1\<rparr>
                                    else if carved = 0 then s\<lparr>st_skip_uncarved := st_skip_uncarved s + 1\<rparr>
                                    else s\<lparr>st_skip_unfreed := st_skip_unfreed s + 1\<rparr>)
                           in recycle_scan is (a\<lparr>ar_stats := s\<rparr>)
                      else let a = upd_chunk i (\<lambda>c. c\<lparr>ch_cursor := ch_base c\<rparr>) a;
                               a = upd_meta i (\<lambda>m. m\<lparr>cm_intent := 0\<rparr>) a
                           in (Some i, a\<lparr>ar_stats := (ar_stats a)\<lparr>st_recycles := st_recycles (ar_stats a) + 1\<rparr>\<rparr>))"

definition try_recycle :: "bump_arena \<Rightarrow> nat option \<times> bump_arena" where
  "try_recycle a = (if \<not> ar_reclaim a then (None, a) else recycle_scan [0 ..< length (ar_chunks a)] a)"

text \<open>A bump in the current chunk, with its accounting.\<close>

definition alloc_current :: "usize \<Rightarrow> usize \<Rightarrow> bump_arena \<Rightarrow> (usize option \<times> bump_arena) option" where
  "alloc_current sz align a =
     do {
       c \<leftarrow> chunk_at (ar_current a) a;
       (case chunk_alloc sz align c of
          (None, _) \<Rightarrow> Some (None, a)
        | (Some p, c') \<Rightarrow> Some (Some p, note_direct_carve (ar_current a) (upd_chunk (ar_current a) (\<lambda>_. c') a)))
     }"

text \<open>
  Before the next attempt: the next mapped chunk, a recycled one, or a new one below the cap. The loop has no
  bound of its own.
\<close>

definition arena_next ::
  "usize \<Rightarrow> ('os \<Rightarrow> usize \<Rightarrow> usize option \<times> 'os) \<Rightarrow> bump_arena \<Rightarrow> 'os \<Rightarrow> bool \<times> bump_arena \<times> 'os"
where
  "arena_next page mmap a os =
     (if ar_current a + 1 < length (ar_chunks a) then (True, a\<lparr>ar_current := ar_current a + 1\<rparr>, os)
      else case try_recycle a of
        (Some i, a) \<Rightarrow> (True, a\<lparr>ar_current := i\<rparr>, os)
      | (None, a) \<Rightarrow>
          if length (ar_chunks a) < ar_max_chunks a
          then case chunk_new page mmap (ar_chunk_size a) os of
                 (None, os') \<Rightarrow> (False, a, os')
               | (Some c, os') \<Rightarrow>
                   (True, a\<lparr>ar_chunks := ar_chunks a @ [c], ar_current := ar_current a + 1,
                      ar_stats := (ar_stats a)\<lparr>st_grows := st_grows (ar_stats a) + 1\<rparr>\<rparr>, os')
          else (False, a, os))"

partial_function (option) arena_advance ::
  "usize \<Rightarrow> ('os \<Rightarrow> usize \<Rightarrow> usize option \<times> 'os) \<Rightarrow> usize \<Rightarrow> usize \<Rightarrow> bump_arena \<Rightarrow> 'os \<Rightarrow>
   (usize option \<times> bump_arena \<times> 'os) option"
where
  "arena_advance page mmap sz align a os =
     (case arena_next page mmap a os of (ok, a, os) \<Rightarrow>
        if \<not> ok then Some (None, a, os)
        else Option.bind (alloc_current sz align a) (\<lambda>(p, a).
               if p \<noteq> None then Some (p, a, os) else arena_advance page mmap sz align a os))"

definition arena_alloc_block ::
  "usize \<Rightarrow> ('os \<Rightarrow> usize \<Rightarrow> usize option \<times> 'os) \<Rightarrow> usize \<Rightarrow> usize \<Rightarrow> bump_arena \<Rightarrow> 'os \<Rightarrow>
   (usize option \<times> bump_arena \<times> 'os) option"
where
  "arena_alloc_block page mmap sz align a os =
     (if sz = 0 then Some (None, a, os)
      else do {
        let align = max align MIN_ALIGN;
        (p, a) \<leftarrow> alloc_current sz align a;
        (case p of Some p \<Rightarrow> Some (Some p, a, os)
         | None \<Rightarrow> do {
             c \<leftarrow> chunk_at (ar_current a) a;
             (case checked_add sz align of
                None \<Rightarrow> Some (None, a, os)
              | Some n \<Rightarrow>
                  if n > max (ch_capacity c) (ar_chunk_size a) then Some (None, a, os)
                  else arena_advance page mmap sz align a os)
           })
      })"

definition arena_reset :: "bump_arena \<Rightarrow> bump_arena" where
  "arena_reset a = a\<lparr>ar_chunks := map (\<lambda>c. c\<lparr>ch_cursor := ch_base c\<rparr>) (ar_chunks a), ar_current := 0, ar_reclaim := False\<rparr>"

definition exhausted_after_failed :: "usize \<Rightarrow> usize \<Rightarrow> bump_arena \<Rightarrow> bool" where
  "exhausted_after_failed sz align a \<longleftrightarrow>
     length (ar_chunks a) = ar_max_chunks a \<and> saturating_add sz (max align MIN_ALIGN) \<le> ar_chunk_size a"

definition meta_addr :: "nat \<Rightarrow> usize" where "meta_addr i = of_nat (i + 1)"

definition chunk_entries :: "bump_arena \<Rightarrow> (usize \<times> usize) list" where
  "chunk_entries a = map (\<lambda>i. (ch_base (ar_chunks a ! i), meta_addr i)) [0 ..< length (ar_chunks a)]"

definition chunk_debug :: "bump_arena \<Rightarrow> (usize \<times> usize \<times> usize \<times> usize) list" where
  "chunk_debug a = map (\<lambda>c. (chunk_used c, cm_carved (ch_meta c), cm_freed (ch_meta c), cm_spans (ch_meta c))) (ar_chunks a)"

definition chunks_are_default_sized :: "bump_arena \<Rightarrow> bool" where
  "chunks_are_default_sized a \<longleftrightarrow>
     ar_chunk_size a = DEFAULT_CHUNK_SIZE \<and> list_all (\<lambda>c. ch_capacity c \<le> CHUNK_BYTES) (ar_chunks a)"

definition arena_capacity :: "bump_arena \<Rightarrow> usize" where
  "arena_capacity a = sum_list (map ch_capacity (ar_chunks a))"

definition arena_used :: "bump_arena \<Rightarrow> usize" where
  "arena_used a = sum_list (map chunk_used (ar_chunks a))"

definition arena_remaining :: "bump_arena \<Rightarrow> usize" where
  "arena_remaining a = arena_capacity a - arena_used a"

end
