(* ===== verification/ArenaLib.thy ===== *)
theory ArenaLib
  imports ArenaAlloc Routing
begin

text \<open>
  The arena as \<open>crates/lohalloc-alloc/src/lib.rs\<close> uses it: the per-thread span, the shared carve, the
  free-side batches, the slow path of the arena's routing arm, publication and reset. An operation takes the hot
  block of its thread and the shared state of the instance. \<open>None\<close> is a panic, a loop that does not end
  or the use of a descriptor or meta address of no chunk.
\<close>

record 'os arena_env =
  ae_page :: usize
  ae_mmap :: "'os \<Rightarrow> usize \<Rightarrow> usize option \<times> 'os"
  ae_ncpus :: nat
  ae_reclaim :: bool
  ae_self_flush :: bool
  ae_owner :: u64

record 'os arena_world =
  aw_arena :: "bump_arena option"
  aw_published :: "nat option"
  aw_epoch :: u64
  aw_exhausted :: bool
  aw_headerless :: bool
  aw_reclaim_on :: u8
  aw_chunks :: arena_chunk_registry
  aw_os :: 'os

definition arena_reclaim_active :: "'os arena_env \<Rightarrow> 'os arena_world \<Rightarrow> bool \<times> 'os arena_world" where
  "arena_reclaim_active env w =
     (if aw_reclaim_on w \<noteq> 0 then (aw_reclaim_on w = 1, w)
      else (ae_reclaim env, w\<lparr>aw_reclaim_on := (if ae_reclaim env then 1 else 2)\<rparr>))"

text \<open>The chunk of a descriptor, and a chunk's meta at an address.\<close>

definition world_chunk :: "nat \<Rightarrow> 'os arena_world \<Rightarrow> chunk option" where
  "world_chunk i w = Option.bind (aw_arena w) (chunk_at i)"

definition set_chunk :: "nat \<Rightarrow> (chunk \<Rightarrow> chunk) \<Rightarrow> 'os arena_world \<Rightarrow> 'os arena_world" where
  "set_chunk i f w = w\<lparr>aw_arena := map_option (upd_chunk i f) (aw_arena w)\<rparr>"

definition meta_index :: "usize \<Rightarrow> nat" where "meta_index addr = unat addr - 1"

definition with_meta :: "usize \<Rightarrow> (chunk_meta \<Rightarrow> chunk_meta) \<Rightarrow> 'os arena_world \<Rightarrow> 'os arena_world option" where
  "with_meta addr f w =
     (case world_chunk (meta_index addr) w of
        None \<Rightarrow> None
      | Some _ \<Rightarrow> Some (set_chunk (meta_index addr) (\<lambda>c. c\<lparr>ch_meta := f (ch_meta c)\<rparr>) w))"

definition pin_meta :: "chunk_meta \<Rightarrow> chunk_meta" where "pin_meta m = m\<lparr>cm_spans := cm_spans m + 1\<rparr>"
definition unpin_meta :: "chunk_meta \<Rightarrow> chunk_meta" where "unpin_meta m = m\<lparr>cm_spans := cm_spans m - 1\<rparr>"

text \<open>A span's block count goes to its chunk and its pin is released.\<close>

definition retire_meta :: "usize \<Rightarrow> chunk_meta \<Rightarrow> chunk_meta" where
  "retire_meta n m = m\<lparr>cm_carved := cm_carved m + n, cm_spans := cm_spans m - 1\<rparr>"

section \<open>The lock-free path\<close>

definition arena_carve_shared ::
  "'os arena_env \<Rightarrow> usize \<Rightarrow> 'os arena_world \<Rightarrow> ((usize \<times> usize) option \<times> 'os arena_world) option"
where
  "arena_carve_shared env reserve w =
     (case aw_published w of None \<Rightarrow> Some (None, w)
      | Some i \<Rightarrow>
          do {
            _ \<leftarrow> world_chunk i w;
            let (reclaim, w) = arena_reclaim_active env w;
            let w = (if reclaim then set_chunk i (\<lambda>c. c\<lparr>ch_meta := pin_meta (ch_meta c)\<rparr>) w else w);
            let unpin = (\<lambda>w. if reclaim then set_chunk i (\<lambda>c. c\<lparr>ch_meta := unpin_meta (ch_meta c)\<rparr>) w else w);
            c \<leftarrow> world_chunk i w;
            (if reclaim \<and> cm_intent (ch_meta c) \<noteq> 0 then Some (None, unpin w)
             else let aligned = align_up (ch_cursor c) MIN_ALIGN
                  in case checked_add aligned reserve of
                       None \<Rightarrow> Some (None, unpin w)
                     | Some new_cur \<Rightarrow>
                         if new_cur > ch_base c + ch_capacity c then Some (None, unpin w)
                         else Some (Some (aligned, if reclaim then meta_addr i else 0),
                                    set_chunk i (\<lambda>c. c\<lparr>ch_cursor := new_cur\<rparr>) w))
          })"

text \<open>A bump in the thread's span, if it belongs to this instance and epoch.\<close>

definition span_bump ::
  "'os arena_env \<Rightarrow> usize \<Rightarrow> usize \<Rightarrow> hot_tls \<Rightarrow> 'os arena_world \<Rightarrow> (usize \<times> hot_tls) option"
where
  "span_bump env sz align h w =
     (let s = span h
      in if span_owner s = ae_owner env \<and> span_epoch s = aw_epoch w
         then let aligned = align_up (span_cursor s) align
              in case checked_add aligned sz of
                   None \<Rightarrow> None
                 | Some new_cur \<Rightarrow>
                     if new_cur \<le> span_end s
                     then Some (aligned, h\<lparr>span := s\<lparr>span_cursor := new_cur,
                            span_blocks := (if span_meta s \<noteq> 0 then span_blocks s + 1 else span_blocks s)\<rparr>\<rparr>)
                     else None
         else None)"

definition retire_span :: "'os arena_env \<Rightarrow> hot_tls \<Rightarrow> 'os arena_world \<Rightarrow> 'os arena_world option" where
  "retire_span env h w =
     (let s = span h
      in if span_meta s \<noteq> 0 \<and> span_owner s = ae_owner env
         then with_meta (span_meta s) (retire_meta (span_blocks s)) w else Some w)"

definition arena_alloc_fast ::
  "'os arena_env \<Rightarrow> usize \<Rightarrow> usize \<Rightarrow> hot_tls \<Rightarrow> 'os arena_world \<Rightarrow> (usize option \<times> hot_tls \<times> 'os arena_world) option"
where
  "arena_alloc_fast env sz align h w =
     (let align = max align MIN_ALIGN
      in case span_bump env sz align h w of
           Some (p, h) \<Rightarrow> Some (Some p, h, w)
         | None \<Rightarrow>
             let want = max sz ARENA_SPAN_BYTES
             in case (if align > MIN_ALIGN then checked_add want align else Some want) of
                  None \<Rightarrow> Some (None, h, w)
                | Some reserve \<Rightarrow>
                    do {
                      (carve, w) \<leftarrow> arena_carve_shared env reserve w;
                      (case carve of None \<Rightarrow> Some (None, h, w)
                       | Some (base, meta) \<Rightarrow>
                           do {
                             w \<leftarrow> retire_span env h w;
                             let aligned = align_up base align;
                             Some (Some aligned,
                               h\<lparr>span := \<lparr>span_owner = ae_owner env, span_epoch = aw_epoch w, span_cursor = aligned + sz,
                                   span_end = base + reserve, span_meta = meta,
                                   span_blocks = (if meta \<noteq> 0 then 1 else 0)\<rparr>\<rparr>, w)
                           })
                    })"

section \<open>Freeing\<close>

definition arena_flush_free_batch ::
  "'os arena_env \<Rightarrow> hot_tls \<Rightarrow> 'os arena_world \<Rightarrow> (hot_tls \<times> 'os arena_world) option"
where
  "arena_flush_free_batch env h w =
     (let n = arena_free_pending h
      in if n = 0 then Some (h, w)
         else let h = h\<lparr>arena_free_pending := 0\<rparr>
              in if arena_free_owner h \<noteq> ae_owner env then Some (h\<lparr>arena_free_base := 0\<rparr>, w)
                 else do {
                   w \<leftarrow> with_meta (arena_free_meta h) (\<lambda>m. m\<lparr>cm_freed := cm_freed m + n\<rparr>) w;
                   c \<leftarrow> world_chunk (meta_index (arena_free_meta h)) w;
                   let m = ch_meta c;
                   Some (h, if aw_exhausted w \<and> cm_spans m = 0 \<and> cm_freed m = cm_carved m
                            then w\<lparr>aw_exhausted := False\<rparr> else w)
                 })"

definition chunk_base_of :: "usize \<Rightarrow> usize" where "chunk_base_of p = p AND NOT (CHUNK_BYTES - 1)"

definition arena_note_free ::
  "'os arena_env \<Rightarrow> usize \<Rightarrow> hot_tls \<Rightarrow> 'os arena_world \<Rightarrow> (hot_tls \<times> 'os arena_world) option"
where
  "arena_note_free env p h w =
     (let (active, w) = arena_reclaim_active env w
      in if \<not> active then Some (h, w)
         else let base = chunk_base_of p; owner = ae_owner env;
                  last = (\<lambda>(h, w). if aw_exhausted w then arena_flush_free_batch env h w else Some (h, w))
              in if arena_free_base h = base \<and> arena_free_owner h = owner
                 then last (h\<lparr>arena_free_pending := arena_free_pending h + 1\<rparr>, w)
                 else do {
                   (h, w) \<leftarrow> arena_flush_free_batch env h w;
                   (case chk_lookup (aw_chunks w) base of
                      None \<Rightarrow> Some (h, w)
                    | Some meta \<Rightarrow>
                        last (h\<lparr>arena_free_base := base, arena_free_meta := meta, arena_free_owner := owner,
                                arena_free_pending := 1\<rparr>, w))
                 })"

definition arena_headerless_hit :: "usize \<Rightarrow> 'os arena_world \<Rightarrow> bool" where
  "arena_headerless_hit p w = (aw_headerless w \<and> chk_contains (aw_chunks w) (chunk_base_of p))"

section \<open>The slow path\<close>

definition arena_clear_own_blockers ::
  "'os arena_env \<Rightarrow> hot_tls \<Rightarrow> 'os arena_world \<Rightarrow> (hot_tls \<times> 'os arena_world) option"
where
  "arena_clear_own_blockers env h w =
     (let (active, w) = arena_reclaim_active env w
      in if \<not> active \<or> \<not> ae_self_flush env then Some (h, w)
         else do {
           (h, w) \<leftarrow> arena_flush_free_batch env h w;
           w \<leftarrow> retire_span env h w;
           Some (h\<lparr>span := (span h)\<lparr>span_meta := 0, span_blocks := 0, span_end := 0, span_cursor := 1\<rparr>\<rparr>, w)
         })"

definition publish_arena_chunk :: "bump_arena \<Rightarrow> 'os arena_world \<Rightarrow> 'os arena_world" where
  "publish_arena_chunk a w =
     w\<lparr>aw_arena := Some (upd_chunk (ar_current a) (\<lambda>c. c\<lparr>ch_desc := True\<rparr>) a), aw_published := Some (ar_current a)\<rparr>"

text \<open>\<open>all\<close> over the entries stops at the first one that is refused.\<close>

fun register_all :: "(usize \<times> usize) list \<Rightarrow> arena_chunk_registry \<Rightarrow> bool \<times> arena_chunk_registry" where
  "register_all [] r = (True, r)"
| "register_all ((b, m) # es) r = (case chk_insert r b m of (ok, r) \<Rightarrow> if ok then register_all es r else (False, r))"

text \<open>The arena under its mutex, made on first use.\<close>

definition lazy_arena :: "'os arena_env \<Rightarrow> bool \<Rightarrow> 'os arena_world \<Rightarrow> 'os arena_world" where
  "lazy_arena env arm w =
     (case aw_arena w of Some _ \<Rightarrow> w
      | None \<Rightarrow>
          (case arena_new (ae_page env) (ae_mmap env) (ae_ncpus env) (aw_os w) of
             (None, os') \<Rightarrow> w\<lparr>aw_os := os'\<rparr>
           | (Some a, os') \<Rightarrow>
               if arm then (case arena_reclaim_active env (w\<lparr>aw_os := os'\<rparr>) of
                 (on, w) \<Rightarrow> w\<lparr>aw_arena := Some (set_reclaim on a)\<rparr>)
               else w\<lparr>aw_os := os', aw_arena := Some a\<rparr>))"

definition arena_slow ::
  "'os arena_env \<Rightarrow> usize \<Rightarrow> usize \<Rightarrow> 'os arena_world \<Rightarrow> (usize option \<times> 'os arena_world) option"
where
  "arena_slow env request align w =
     (let w = lazy_arena env True w
      in case aw_arena w of None \<Rightarrow> Some (None, w)
         | Some a \<Rightarrow>
             do {
               (block, a, os') \<leftarrow> arena_alloc_block (ae_page env) (ae_mmap env) request align a (aw_os w);
               let (registered_ok, chunks) =
                 (if block = None then (True, aw_chunks w)
                  else if chunks_are_default_sized a then register_all (chunk_entries a) (aw_chunks w)
                  else (False, aw_chunks w));
               let result = (if registered_ok then block else None);
               let w = w\<lparr>aw_arena := Some a, aw_os := os', aw_chunks := chunks\<rparr>;
               let w = (if registered_ok then publish_arena_chunk a w else w);
               Some (result, if result = None \<and> exhausted_after_failed request align a
                             then w\<lparr>aw_exhausted := True\<rparr> else w)
             })"

text \<open>
  The arena's arm of \<open>try_backend_inner\<close>: the block and whether it carries no header. A header is
  written over the front of the block otherwise.
\<close>

definition arena_arm ::
  "'os arena_env \<Rightarrow> usize \<Rightarrow> usize \<Rightarrow> usize \<Rightarrow> hot_tls \<Rightarrow> 'os arena_world \<Rightarrow>
   ((usize \<times> bool) option \<times> hot_tls \<times> 'os arena_world) option"
where
  "arena_arm env tot pad align h w =
     (if aw_exhausted w then Some (None, h, w)
      else do {
        let headerless = (aw_headerless w \<and> align \<le> MIN_ALIGN);
        let request = (if headerless then tot - pad else tot);
        (fast, h, w) \<leftarrow> arena_alloc_fast env request align h w;
        (case fast of Some p \<Rightarrow> Some (Some (p, headerless), h, w)
         | None \<Rightarrow>
             do {
               (h, w) \<leftarrow> arena_clear_own_blockers env h w;
               (r, w) \<leftarrow> arena_slow env request align w;
               Some (map_option (\<lambda>p. (p, headerless)) r, h, w)
             })
      })"

section \<open>Reset and direct allocation\<close>

definition reset_arena :: "'os arena_world \<Rightarrow> 'os arena_world" where
  "reset_arena w =
     (let w = w\<lparr>aw_reclaim_on := 2, aw_arena := map_option arena_reset (aw_arena w), aw_epoch := aw_epoch w + 1\<rparr>;
          w = (case aw_arena w of None \<Rightarrow> w | Some a \<Rightarrow> publish_arena_chunk a w)
      in w\<lparr>aw_exhausted := False\<rparr>)"

text \<open>
  \<open>Lohalloc::arena_alloc\<close>: the block, in front of which the header of \<open>header_pad\<close> bytes lies; the
  fallback to the system backend is the result \<open>None\<close>.
\<close>

definition arena_alloc_direct ::
  "'os arena_env \<Rightarrow> usize \<Rightarrow> usize \<Rightarrow> 'os arena_world \<Rightarrow> (usize option \<times> 'os arena_world) option"
where
  "arena_alloc_direct env sz align w =
     (let align = max align MIN_ALIGN; tot = sz + header_pad align; w = lazy_arena env False w
      in case aw_arena w of None \<Rightarrow> Some (None, w)
         | Some a \<Rightarrow>
             do {
               (block, a, os') \<leftarrow> arena_alloc_block (ae_page env) (ae_mmap env) tot align a (aw_os w);
               Some (block, publish_arena_chunk a (w\<lparr>aw_os := os'\<rparr>))
             })"

end
