(* ===== verification/ArenaInv.thy ===== *)
theory ArenaInv
  imports ArenaLib SlabCorrect
begin

text \<open>
  The invariant of the arena: where blocks and spans are, and what the counters of a chunk say about
  its live blocks. A span or a live block is an item, a set of addresses below the cursor of some chunk.
\<close>

section \<open>Geometry\<close>

definition cspan :: "chunk \<Rightarrow> nat set" where
  "cspan c = {unat (ch_base c) ..< unat (ch_base c) + unat (ch_capacity c)}"

definition cused :: "chunk \<Rightarrow> nat set" where "cused c = {unat (ch_base c) ..< unat (ch_cursor c)}"

definition ch_ok :: "chunk \<Rightarrow> bool" where
  "ch_ok c \<longleftrightarrow> ch_base c \<noteq> 0 \<and> 2 ^ 20 dvd unat (ch_base c) \<and> unat (ch_capacity c) = 2 ^ 20
     \<and> unat (ch_base c) + 2 ^ 20 < 2 ^ 63 \<and> ch_base c \<le> ch_cursor c
     \<and> unat (ch_cursor c) \<le> unat (ch_base c) + 2 ^ 20 \<and> cm_intent (ch_meta c) = 0"

definition chunks_ok :: "chunk list \<Rightarrow> nat set \<Rightarrow> bool" where
  "chunks_ok cs M \<longleftrightarrow> (\<forall>c \<in> set cs. ch_ok c \<and> cspan c \<subseteq> M)
     \<and> (\<forall>i < length cs. \<forall>j < length cs. i \<noteq> j \<longrightarrow> cspan (cs ! i) \<inter> cspan (cs ! j) = {})"

text \<open>Items are pairwise disjoint and lie below the cursors.\<close>

definition geo :: "chunk list \<Rightarrow> ('k \<Rightarrow> nat set) \<Rightarrow> bool" where
  "geo cs items \<longleftrightarrow> (\<forall>k. items k = {} \<or> (\<exists>i < length cs. items k \<subseteq> cused (cs ! i)))
     \<and> (\<forall>k k'. k \<noteq> k' \<longrightarrow> items k \<inter> items k' = {})"

lemma cused_cspan: "ch_ok c \<Longrightarrow> cused c \<subseteq> cspan c"
  by (auto simp: ch_ok_def cused_def cspan_def)

lemma chunks_okD:
  assumes "chunks_ok cs M" and "i < length cs"
  shows "ch_ok (cs ! i)" and "cspan (cs ! i) \<subseteq> M"
    and "j < length cs \<Longrightarrow> i \<noteq> j \<Longrightarrow> cspan (cs ! i) \<inter> cspan (cs ! j) = {}"
  using assms by (auto simp: chunks_ok_def)

lemma chunk_base_inj:
  assumes "chunks_ok cs M" and "i < length cs" and "j < length cs" and "ch_base (cs ! i) = ch_base (cs ! j)"
  shows "i = j"
proof (rule ccontr)
  assume "i \<noteq> j"
  moreover have "unat (ch_base (cs ! i)) \<in> cspan (cs ! i)" "unat (ch_base (cs ! i)) \<in> cspan (cs ! j)"
    using chunks_okD(1) [OF assms(1,2)] chunks_okD(1) [OF assms(1,3)] assms(4) by (simp_all add: cspan_def ch_ok_def)
  ultimately show False using chunks_okD(3) [OF assms(1-3)] by blast
qed

lemma geo_mono:
  assumes "geo cs items" and "length cs \<le> length cs'" and "\<And>i. i < length cs \<Longrightarrow> cused (cs ! i) \<subseteq> cused (cs' ! i)"
  shows "geo cs' items"
  unfolding geo_def
proof (intro conjI allI impI)
  fix k
  show "items k = {} \<or> (\<exists>i < length cs'. items k \<subseteq> cused (cs' ! i))"
  proof (cases "items k = {}")
    case False
    then obtain i where "i < length cs" "items k \<subseteq> cused (cs ! i)" using assms(1) unfolding geo_def by blast
    then show ?thesis using assms(2,3) by (intro disjI2 exI [of _ i]) auto
  qed simp
qed (use assms(1) in \<open>auto simp: geo_def\<close>)

text \<open>A new item above the cursor of a chunk whose cursor moves past it.\<close>

lemma geo_bump:
  assumes g: "geo cs items" and cs: "chunks_ok cs M" and i: "i < length cs"
    and c': "c' = (cs ! i)\<lparr>ch_cursor := cur'\<rparr>" and le: "ch_cursor (cs ! i) \<le> cur'"
    and X: "X \<subseteq> {unat (ch_cursor (cs ! i)) ..< unat cur'}" and fit: "unat cur' \<le> unat (ch_base (cs ! i)) + 2 ^ 20"
  shows "geo (cs[i := c']) (items(k := X))" and "items k' \<inter> X = {}"
proof -
  have ci: "ch_ok (cs ! i)" by (rule chunks_okD(1) [OF cs i])
  have Xsub: "X \<subseteq> cspan (cs ! i)" using X fit ci by (auto simp: cspan_def ch_ok_def word_le_nat_alt)
  show far: "items k' \<inter> X = {}" for k'
  proof (cases "items k' = {}")
    case False
    then obtain j where j: "j < length cs" "items k' \<subseteq> cused (cs ! j)" using g unfolding geo_def by blast
    show ?thesis
    proof (cases "j = i")
      case True
      have "y < unat (ch_cursor (cs ! i))" if "y \<in> cused (cs ! i)" for y using that by (simp add: cused_def)
      moreover have "unat (ch_cursor (cs ! i)) \<le> y" if "y \<in> X" for y using X that by auto
      ultimately have "cused (cs ! i) \<inter> X = {}" by fastforce
      then show ?thesis using j(2) True by blast
    next
      case F: False
      then have "cspan (cs ! j) \<inter> cspan (cs ! i) = {}" using chunks_okD(3) [OF cs j(1) i] by simp
      then show ?thesis using j(2) cused_cspan [OF chunks_okD(1) [OF cs j(1)]] Xsub by blast
    qed
  qed simp
  have g': "geo (cs[i := c']) items"
    by (rule geo_mono [OF g]) (use le i in \<open>auto simp: nth_list_update c' cused_def word_le_nat_alt\<close>)
  have new: "X \<subseteq> cused (cs[i := c'] ! i)"
    using i X ci by (auto simp: c' cused_def ch_ok_def word_le_nat_alt)
  show "geo (cs[i := c']) (items(k := X))"
    unfolding geo_def
  proof (intro conjI allI impI)
    fix k1
    show "(items(k := X)) k1 = {} \<or> (\<exists>j < length (cs[i := c']). (items(k := X)) k1 \<subseteq> cused (cs[i := c'] ! j))"
    proof (cases "k1 = k")
      case True
      then show ?thesis using new i by (intro disjI2 exI [of _ i]) simp
    next
      case False
      then show ?thesis using g' unfolding geo_def by simp
    qed
    fix k2 assume "k1 \<noteq> k2"
    then show "(items(k := X)) k1 \<inter> (items(k := X)) k2 = {}"
      using g' far [of k1] far [of k2] unfolding geo_def by auto
  qed
qed

lemma geo_shrink:
  assumes "geo cs items" and "Y \<subseteq> items k" shows "geo cs (items(k := Y))"
  unfolding geo_def
proof (intro conjI allI impI)
  fix k1
  show "(items(k := Y)) k1 = {} \<or> (\<exists>i < length cs. (items(k := Y)) k1 \<subseteq> cused (cs ! i))"
    using assms unfolding geo_def by (cases "k1 = k") (auto, blast+)
  fix k2 assume "k1 \<noteq> k2"
  then show "(items(k := Y)) k1 \<inter> (items(k := Y)) k2 = {}"
    using assms unfolding geo_def by (auto, blast+)
qed

text \<open>A part of an item becomes an item of its own.\<close>

lemma geo_move:
  assumes g: "geo cs items" and k: "k \<noteq> k'" "items k' = {}" and X: "X \<subseteq> items k" "Y \<subseteq> items k" "X \<inter> Y = {}"
  shows "geo cs (items(k := Y, k' := X))"
  unfolding geo_def
proof (intro conjI allI impI)
  let ?I = "items(k := Y, k' := X)"
  fix k1
  have "items k = {} \<or> (\<exists>i < length cs. items k \<subseteq> cused (cs ! i))" using g unfolding geo_def by blast
  then have "X = {} \<or> (\<exists>i < length cs. X \<subseteq> cused (cs ! i))" "Y = {} \<or> (\<exists>i < length cs. Y \<subseteq> cused (cs ! i))"
    using X(1,2) by (auto, blast+)
  then show "?I k1 = {} \<or> (\<exists>i < length cs. ?I k1 \<subseteq> cused (cs ! i))" using g unfolding geo_def by auto
  fix k2 assume "k1 \<noteq> k2"
  then have "items k1 \<inter> items k2 = {}" "items k1 \<inter> items k = {} \<or> k1 = k" "items k2 \<inter> items k = {} \<or> k2 = k"
    using g unfolding geo_def by blast+
  then show "?I k1 \<inter> ?I k2 = {}" using X k \<open>k1 \<noteq> k2\<close>
    by (cases "k1 = k'"; cases "k2 = k'"; cases "k1 = k"; cases "k2 = k") (simp_all, blast+)
qed

text \<open>A chunk in which no item lies is rewound.\<close>

lemma geo_rewind:
  assumes g: "geo cs items" and i: "i < length cs" and free: "\<And>k. items k \<inter> cused (cs ! i) = {}"
    and c': "ch_base c' = ch_base (cs ! i)"
  shows "geo (cs[i := c']) items"
  unfolding geo_def
proof (intro conjI allI impI)
  fix k
  show "items k = {} \<or> (\<exists>j < length (cs[i := c']). items k \<subseteq> cused (cs[i := c'] ! j))"
  proof (cases "items k = {}")
    case False
    then obtain j where j: "j < length cs" "items k \<subseteq> cused (cs ! j)" using g unfolding geo_def by blast
    have "j \<noteq> i" using free [of k] j(2) False by blast
    then show ?thesis using j by (intro disjI2 exI [of _ j]) simp
  qed simp
qed (use g in \<open>auto simp: geo_def\<close>)

section \<open>Sums over the threads\<close>

definition sum_t :: "nat \<Rightarrow> (hot_tls \<Rightarrow> nat) \<Rightarrow> (nat \<Rightarrow> hot_tls) \<Rightarrow> nat" where
  "sum_t N f tls = (\<Sum>t < N. f (tls t))"

lemma sum_t_upd:
  assumes "t < N" shows "sum_t N f (tls(t := h)) + f (tls t) = sum_t N f tls + f h"
proof -
  have e: "sum_t N f g = f (g t) + (\<Sum>u \<in> {..<N} - {t}. f (g u))" for g
    unfolding sum_t_def using assms by (intro sum.remove) auto
  have "(\<Sum>u \<in> {..<N} - {t}. f ((tls(t := h)) u)) = (\<Sum>u \<in> {..<N} - {t}. f (tls u))" by (rule sum.cong) auto
  then show ?thesis using e [of "tls(t := h)"] e [of tls] by simp
qed

lemma sum_t_same: "t < N \<Longrightarrow> f h = f (tls t) \<Longrightarrow> sum_t N f (tls(t := h)) = sum_t N f tls"
  using sum_t_upd [of t N f tls h] by simp

lemma sum_t_ge: "t < N \<Longrightarrow> f (tls t) \<le> sum_t N f tls"
  unfolding sum_t_def by (intro member_le_sum) auto

definition mine :: "u64 \<Rightarrow> nat \<Rightarrow> hot_tls \<Rightarrow> bool" where
  "mine owner i h \<longleftrightarrow> span_owner (span h) = owner \<and> span_meta (span h) = meta_addr i"

definition pin_of :: "u64 \<Rightarrow> nat \<Rightarrow> hot_tls \<Rightarrow> nat" where
  "pin_of owner i h = (if mine owner i h then 1 else 0)"

definition blk_of :: "u64 \<Rightarrow> nat \<Rightarrow> hot_tls \<Rightarrow> nat" where
  "blk_of owner i h = (if mine owner i h then unat (span_blocks (span h)) else 0)"

definition pend_of :: "u64 \<Rightarrow> nat \<Rightarrow> hot_tls \<Rightarrow> nat" where
  "pend_of owner i h =
     (if arena_free_owner h = owner \<and> arena_free_meta h = meta_addr i then unat (arena_free_pending h) else 0)"

lemma meta_addr_inj: "i < 2 ^ 32 \<Longrightarrow> j < 2 ^ 32 \<Longrightarrow> meta_addr i = meta_addr j \<longleftrightarrow> i = j"
  and meta_addr_nz: "i < 2 ^ 32 \<Longrightarrow> meta_addr i \<noteq> 0"
  and meta_index_addr: "i < 2 ^ 32 \<Longrightarrow> meta_index (meta_addr i) = i"
proof -
  have u: "unat (meta_addr i) = i + 1" if "i < 2 ^ 32" for i
    unfolding meta_addr_def using that by (intro unat_of_nat_64) simp
  show "i < 2 ^ 32 \<Longrightarrow> j < 2 ^ 32 \<Longrightarrow> meta_addr i = meta_addr j \<longleftrightarrow> i = j" using u by (metis add_right_cancel)
  show "i < 2 ^ 32 \<Longrightarrow> meta_addr i \<noteq> 0" using u [of i] by auto
  show "i < 2 ^ 32 \<Longrightarrow> meta_index (meta_addr i) = i" using u [of i] by (simp add: meta_index_def)
qed

section \<open>The invariant\<close>

type_synonym block = "usize \<times> usize"

definition bset :: "block \<Rightarrow> nat set" where "bset b = {unat (fst b) ..< unat (fst b) + unat (snd b)}"

definition window :: "u64 \<Rightarrow> u64 \<Rightarrow> hot_tls \<Rightarrow> nat set" where
  "window owner epoch h =
     (if span_owner (span h) = owner \<and> span_epoch (span h) = epoch
      then {unat (span_cursor (span h)) ..< unat (span_end (span h))} else {})"

text \<open>The items: live blocks and the windows of the threads.\<close>

definition item :: "u64 \<Rightarrow> u64 \<Rightarrow> nat \<Rightarrow> (nat \<Rightarrow> hot_tls) \<Rightarrow> block set \<Rightarrow> block + nat \<Rightarrow> nat set" where
  "item owner epoch N tls live k =
     (case k of Inl b \<Rightarrow> (if b \<in> live then bset b else {})
      | Inr t \<Rightarrow> (if t < N then window owner epoch (tls t) else {}))"

definition live_in :: "block set \<Rightarrow> chunk \<Rightarrow> block set" where
  "live_in live c = {b \<in> live. unat (fst b) \<in> cspan c}"

text \<open>
  The counters of chunk \<open>i\<close>: its pins are the spans of the threads in it; while chunks are recycled, its
  live blocks and the frees so far, noted or pending, are covered by the blocks carved so far, \<open>n\<close> at most.
\<close>

definition counts_ok :: "u64 \<Rightarrow> nat \<Rightarrow> (nat \<Rightarrow> hot_tls) \<Rightarrow> block set \<Rightarrow> nat \<Rightarrow> bool \<Rightarrow> nat \<Rightarrow> chunk \<Rightarrow> bool" where
  "counts_ok owner N tls live n reclaim i c \<longleftrightarrow>
     unat (cm_spans (ch_meta c)) = sum_t N (pin_of owner i) tls
     \<and> (reclaim \<longrightarrow> unat (cm_freed (ch_meta c)) + sum_t N (pend_of owner i) tls + card (live_in live c)
            \<le> unat (cm_carved (ch_meta c)) + sum_t N (blk_of owner i) tls
          \<and> unat (cm_carved (ch_meta c)) + sum_t N (blk_of owner i) tls \<le> n)"

text \<open>What a thread's hot block knows of the arena.\<close>

definition tls_ok :: "u64 \<Rightarrow> u64 \<Rightarrow> bool \<Rightarrow> chunk list \<Rightarrow> hot_tls \<Rightarrow> bool" where
  "tls_ok owner epoch reclaim cs h \<longleftrightarrow>
     (span_owner (span h) = owner \<longrightarrow> span_epoch (span h) \<le> epoch \<and> unat (span_cursor (span h)) < 2 ^ 63
        \<and> unat (span_end (span h)) < 2 ^ 63
        \<and> (span_meta (span h) \<noteq> 0 \<longrightarrow> (\<exists>i < length cs. span_meta (span h) = meta_addr i
              \<and> (window owner epoch h = {} \<or> window owner epoch h \<subseteq> cused (cs ! i))))
        \<and> (reclaim \<longrightarrow> window owner epoch h \<noteq> {} \<longrightarrow> span_meta (span h) \<noteq> 0))
     \<and> (arena_free_owner h = owner \<longrightarrow>
          (\<exists>i < length cs. arena_free_meta h = meta_addr i \<and> arena_free_base h = ch_base (cs ! i)))"

definition arena_inv ::
  "u64 \<Rightarrow> u64 \<Rightarrow> nat \<Rightarrow> (nat \<Rightarrow> hot_tls) \<Rightarrow> block set \<Rightarrow> nat \<Rightarrow> nat set \<Rightarrow> bump_arena \<Rightarrow> bool"
where
  "arena_inv owner epoch N tls live n M a \<longleftrightarrow>
     chunks_ok (ar_chunks a) M \<and> ar_chunk_size a = 2 ^ 20 \<and> ar_current a < length (ar_chunks a)
     \<and> length (ar_chunks a) \<le> ar_max_chunks a \<and> ar_max_chunks a \<le> 128
     \<and> geo (ar_chunks a) (item owner epoch N tls live)
     \<and> (\<forall>i < length (ar_chunks a). counts_ok owner N tls live n (ar_reclaim a) i (ar_chunks a ! i))
     \<and> (\<forall>t < N. tls_ok owner epoch (ar_reclaim a) (ar_chunks a) (tls t))
     \<and> finite live \<and> (\<forall>b \<in> live. 0 < unat (snd b)) \<and> n < 2 ^ 64 \<and> N < 2 ^ 32"

end
