(* ===== verification/ArenaBump.thy ===== *)
theory ArenaBump
  imports ArenaInv
begin

text \<open>
  The operations of the bump arena keep its invariant: a bump makes a live block of its own, a
  recycled chunk holds no live block and no span, the advance to a chunk with room ends.
\<close>

lemma arena_inv_stats [simp]: "arena_inv owner epoch N tls live n M (a\<lparr>ar_stats := s\<rparr>) = arena_inv owner epoch N tls live n M a"
  by (simp add: arena_inv_def)

lemma arena_invD:
  assumes "arena_inv owner epoch N tls live n M a"
  shows "chunks_ok (ar_chunks a) M" and "ar_chunk_size a = 2 ^ 20" and "ar_current a < length (ar_chunks a)"
    and "length (ar_chunks a) \<le> ar_max_chunks a" and "ar_max_chunks a \<le> 128"
    and "geo (ar_chunks a) (item owner epoch N tls live)"
    and "i < length (ar_chunks a) \<Longrightarrow> counts_ok owner N tls live n (ar_reclaim a) i (ar_chunks a ! i)"
    and "t < N \<Longrightarrow> tls_ok owner epoch (ar_reclaim a) (ar_chunks a) (tls t)"
    and "finite live" and "b \<in> live \<Longrightarrow> 0 < unat (snd b)" and "n < 2 ^ 64" and "N < 2 ^ 32"
  using assms by (auto simp: arena_inv_def)

text \<open>One chunk changes, its base and capacity apart.\<close>

lemma arena_inv_chunk:
  assumes inv: "arena_inv owner epoch N tls live n M a" and i: "i < length (ar_chunks a)"
    and c': "ch_base c' = ch_base (ar_chunks a ! i)" "ch_capacity c' = ch_capacity (ar_chunks a ! i)" "ch_ok c'"
    and geo': "geo ((ar_chunks a)[i := c']) (item owner epoch N tls' live')"
    and here: "counts_ok owner N tls' live' n' (ar_reclaim a) i c'"
    and there: "\<And>j. j < length (ar_chunks a) \<Longrightarrow> j \<noteq> i \<Longrightarrow> counts_ok owner N tls' live' n' (ar_reclaim a) j (ar_chunks a ! j)"
    and tls': "\<And>t. t < N \<Longrightarrow> tls_ok owner epoch (ar_reclaim a) ((ar_chunks a)[i := c']) (tls' t)"
    and live': "finite live'" "\<And>b. b \<in> live' \<Longrightarrow> 0 < unat (snd b)" "n' < 2 ^ 64"
  shows "arena_inv owner epoch N tls' live' n' M (a\<lparr>ar_chunks := (ar_chunks a)[i := c']\<rparr>)"
proof -
  let ?cs = "ar_chunks a"
  have span: "cspan (?cs[i := c'] ! j) = cspan (?cs ! j)" for j
    using c' i by (cases "j = i") (simp_all add: cspan_def)
  have ok: "chunks_ok ?cs M" by (rule arena_invD(1) [OF inv])
  have "chunks_ok (?cs[i := c']) M"
    unfolding chunks_ok_def
  proof (intro conjI ballI allI impI)
    fix c assume "c \<in> set (?cs[i := c'])"
    then obtain j where j: "j < length ?cs" "c = ?cs[i := c'] ! j" by (auto simp: in_set_conv_nth)
    show "ch_ok c" using c'(3) chunks_okD(1) [OF ok j(1)] i j by (cases "j = i") auto
    show "cspan c \<subseteq> M" using chunks_okD(2) [OF ok j(1)] span j(2) by simp
  next
    fix j k assume "j < length (?cs[i := c'])" "k < length (?cs[i := c'])" "j \<noteq> k"
    then show "cspan (?cs[i := c'] ! j) \<inter> cspan (?cs[i := c'] ! k) = {}"
      unfolding span using chunks_okD(3) [OF ok] by simp
  qed
  moreover have "counts_ok owner N tls' live' n' (ar_reclaim a) j (?cs[i := c'] ! j)" if "j < length ?cs" for j
    using here there that i by (cases "j = i") auto
  ultimately show ?thesis using inv geo' tls' live' unfolding arena_inv_def by simp
qed

text \<open>What the hot blocks know survives when cursors only move up and no base changes.\<close>

lemma tls_ok_mono:
  assumes "tls_ok owner epoch reclaim cs h" and "length cs \<le> length cs'"
    and "\<And>i. i < length cs \<Longrightarrow> ch_base (cs' ! i) = ch_base (cs ! i)
      \<and> (mine owner i h \<longrightarrow> cused (cs ! i) \<subseteq> cused (cs' ! i))"
  shows "tls_ok owner epoch reclaim cs' h"
  unfolding tls_ok_def
proof (intro conjI impI)
  have T: "span_owner (span h) = owner \<Longrightarrow> span_epoch (span h) \<le> epoch \<and> unat (span_cursor (span h)) < 2 ^ 63
        \<and> unat (span_end (span h)) < 2 ^ 63"
    "span_owner (span h) = owner \<Longrightarrow> span_meta (span h) \<noteq> 0 \<Longrightarrow> \<exists>i < length cs. span_meta (span h) = meta_addr i
              \<and> (window owner epoch h = {} \<or> window owner epoch h \<subseteq> cused (cs ! i))"
    "span_owner (span h) = owner \<Longrightarrow> reclaim \<Longrightarrow> window owner epoch h \<noteq> {} \<Longrightarrow> span_meta (span h) \<noteq> 0"
    "arena_free_owner h = owner \<Longrightarrow> \<exists>i < length cs. arena_free_meta h = meta_addr i \<and> arena_free_base h = ch_base (cs ! i)"
    using assms(1) unfolding tls_ok_def by blast+
  { assume o: "span_owner (span h) = owner"
    show "span_epoch (span h) \<le> epoch" "unat (span_cursor (span h)) < 2 ^ 63" "unat (span_end (span h)) < 2 ^ 63"
      using T(1) [OF o] by auto
    show "\<exists>i < length cs'. span_meta (span h) = meta_addr i
        \<and> (window owner epoch h = {} \<or> window owner epoch h \<subseteq> cused (cs' ! i))" if nz: "span_meta (span h) \<noteq> 0"
    proof -
      obtain i where i: "i < length cs" "span_meta (span h) = meta_addr i"
        "window owner epoch h = {} \<or> window owner epoch h \<subseteq> cused (cs ! i)" using T(2) [OF o nz] by blast
      then show ?thesis using o assms(2) assms(3) [OF i(1)] by (intro exI [of _ i]) (auto simp: mine_def)
    qed
    show "reclaim \<Longrightarrow> window owner epoch h \<noteq> {} \<Longrightarrow> span_meta (span h) \<noteq> 0" using T(3) [OF o] . }
  assume "arena_free_owner h = owner"
  then obtain i where i: "i < length cs" "arena_free_meta h = meta_addr i" "arena_free_base h = ch_base (cs ! i)"
    using T(4) by blast
  then show "\<exists>i < length cs'. arena_free_meta h = meta_addr i \<and> arena_free_base h = ch_base (cs' ! i)"
    using assms(2) assms(3) [OF i(1)] by (intro exI [of _ i]) auto
qed

section \<open>Bumping a chunk\<close>

lemma max_min_align: "a \<le> 62 \<Longrightarrow> max (2 ^ a) MIN_ALIGN = (2 :: usize) ^ max a 4"
proof -
  assume a: "a \<le> 62"
  then have "unat ((2 :: usize) ^ a) = 2 ^ a" by (simp add: unat_pow2_64)
  moreover have "(2::nat) ^ a \<le> 2 ^ 4 \<longleftrightarrow> a \<le> 4" by (rule power_increasing_iff) simp
  ultimately have "(2 :: usize) ^ a \<le> 16 \<longleftrightarrow> a \<le> 4" by (simp add: word_le_nat_alt)
  then show ?thesis by (auto simp: MIN_ALIGN_def max_def)
qed

lemma align_cursor:
  assumes "unat cur < 2 ^ 63" and "a \<le> 62"
  shows "cur \<le> align_up cur (2 ^ a)" and "unat (align_up cur (2 ^ a)) < unat cur + 2 ^ a"
    and "2 ^ a dvd unat (align_up cur (2 ^ a))"
proof -
  have "(2::nat) ^ a \<le> 2 ^ 62" using assms(2) by (intro power_increasing) auto
  then have ov: "unat cur + (2 ^ a - 1) < 2 ^ 64" using assms(1) by simp
  have a64: "a < 64" using assms(2) by simp
  show "cur \<le> align_up cur (2 ^ a)" and "unat (align_up cur (2 ^ a)) < unat cur + 2 ^ a"
    and "2 ^ a dvd unat (align_up cur (2 ^ a))"
    using align_up_bounds [OF a64 ov] by (simp_all add: is_aligned_unat)
qed

lemma chunk_alloc_ok:
  assumes c: "ch_ok c" and a: "a \<le> 62" and res: "chunk_alloc sz (2 ^ a) c = (r, c')"
  shows "case r of None \<Rightarrow> c' = c
    | Some p \<Rightarrow> \<exists>cur'. c' = c\<lparr>ch_cursor := cur'\<rparr> \<and> ch_cursor c \<le> p \<and> unat cur' = unat p + unat sz
        \<and> unat cur' \<le> unat (ch_base c) + 2 ^ 20 \<and> ch_cursor c \<le> cur' \<and> 2 ^ max a 4 dvd unat p"
    and "ch_cursor c = ch_base c \<Longrightarrow> unat sz + 2 ^ max a 4 \<le> 2 ^ 20 \<Longrightarrow> r \<noteq> None"
proof -
  let ?al = "max a 4"
  have C: "unat (ch_base c) + 2 ^ 20 < 2 ^ 63" "unat (ch_capacity c) = 2 ^ 20" "unat (ch_cursor c) \<le> unat (ch_base c) + 2 ^ 20"
    using c by (auto simp: ch_ok_def)
  have cur: "unat (ch_cursor c) < 2 ^ 63" using C by linarith
  have al: "?al \<le> 62" using a by simp
  let ?p = "align_up (ch_cursor c) (2 ^ ?al)"
  note P = align_cursor [OF cur al]
  have lim: "unat (ch_base c + ch_capacity c) = unat (ch_base c) + 2 ^ 20" using C by (simp add: unat_add_64)
  have e: "chunk_alloc sz (2 ^ a) c = (case checked_add ?p sz of None \<Rightarrow> (None, c)
      | Some n \<Rightarrow> if n > ch_base c + ch_capacity c then (None, c) else (Some ?p, c\<lparr>ch_cursor := n\<rparr>))"
    by (simp add: chunk_alloc_def max_min_align [OF a] Let_def)
  show "case r of None \<Rightarrow> c' = c
    | Some p \<Rightarrow> \<exists>cur'. c' = c\<lparr>ch_cursor := cur'\<rparr> \<and> ch_cursor c \<le> p \<and> unat cur' = unat p + unat sz
        \<and> unat cur' \<le> unat (ch_base c) + 2 ^ 20 \<and> ch_cursor c \<le> cur' \<and> 2 ^ max a 4 dvd unat p"
  proof (cases "checked_add ?p sz")
    case None
    then show ?thesis using res e by auto
  next
    case (Some n)
    have u: "unat n = unat ?p + unat sz" by (rule checked_add_unat [OF Some])
    then have "ch_cursor c \<le> n" using P(1) by (simp add: word_le_nat_alt)
    moreover have "2 ^ max a 4 dvd unat ?p" by (rule P(3))
    moreover have "unat n \<le> unat (ch_base c) + 2 ^ 20" if "\<not> n > ch_base c + ch_capacity c"
      using that lim by (simp add: word_less_nat_alt)
    moreover have "(r, c') = (if n > ch_base c + ch_capacity c then (None, c) else (Some ?p, c\<lparr>ch_cursor := n\<rparr>))"
      using res e Some by simp
    ultimately show ?thesis using P(1) u
      by (cases "n > ch_base c + ch_capacity c"; simp) (rule exI [of _ n], simp)
  qed
  assume z: "ch_cursor c = ch_base c" and sz: "unat sz + 2 ^ max a 4 \<le> 2 ^ 20"
  have "unat ?p + unat sz \<le> unat (ch_base c) + 2 ^ 20" using P(2) sz by (simp add: z)
  moreover from this have "checked_add ?p sz = Some (?p + sz)" "unat (?p + sz) = unat ?p + unat sz"
    using C by (simp_all add: checked_add_def unat_add_64)
  ultimately show "r \<noteq> None" using res e lim by (auto simp: word_less_nat_alt)
qed

text \<open>A new block in chunk \<open>i\<close>.\<close>

lemma item_insert:
  assumes "b \<notin> live"
  shows "item owner epoch N tls (insert b live) = (item owner epoch N tls live)(Inl b := bset b)"
  using assms by (auto simp: item_def fun_eq_iff split: sum.splits)

lemma live_in_insert:
  "live_in (insert b live) c = (if unat (fst b) \<in> cspan c then insert b (live_in live c) else live_in live c)"
  by (auto simp: live_in_def)

lemma counts_ok_more:
  assumes "counts_ok owner N tls live n reclaim i c" and "unat (fst b) \<notin> cspan c" and "n \<le> n'"
  shows "counts_ok owner N tls (insert b live) n' reclaim i c"
  using assms by (auto simp: counts_ok_def live_in_insert)

lemma bump_block_inv:
  assumes inv: "arena_inv owner epoch N tls live n M a" and i: "i < length (ar_chunks a)"
    and p: "ch_cursor (ar_chunks a ! i) \<le> p" "unat cur' = unat p + unat sz"
      "unat cur' \<le> unat (ch_base (ar_chunks a ! i)) + 2 ^ 20" and sz: "0 < unat sz" and n: "n + 1 < 2 ^ 64"
  defines "a' \<equiv> note_direct_carve i (upd_chunk i (\<lambda>c. c\<lparr>ch_cursor := cur'\<rparr>) a)"
  shows "arena_inv owner epoch N tls (insert (p, sz) live) (n + 1) M a'" and "(p, sz) \<notin> live"
    and "bset (p, sz) \<subseteq> cspan (ar_chunks a ! i)"
proof -
  let ?cs = "ar_chunks a" and ?c = "ar_chunks a ! i" and ?b = "(p, sz)"
  let ?m = "\<lambda>m. if ar_reclaim a then m\<lparr>cm_carved := cm_carved m + 1\<rparr> else m"
  let ?c1 = "?c\<lparr>ch_cursor := cur'\<rparr>" and ?c' = "?c\<lparr>ch_cursor := cur', ch_meta := ?m (ch_meta ?c)\<rparr>"
  note D = arena_invD [OF inv]
  have ok: "ch_ok ?c" by (rule chunks_okD(1) [OF D(1) i])
  have le: "ch_cursor ?c \<le> cur'" using p by (simp add: word_le_nat_alt)
  have X: "bset ?b \<subseteq> {unat (ch_cursor ?c) ..< unat cur'}" using p by (auto simp: bset_def word_le_nat_alt)
  have g: "geo (?cs[i := ?c1]) ((item owner epoch N tls live)(Inl ?b := bset ?b))"
    by (rule geo_bump(1) [OF D(6,1) i refl le X p(3)])
  have far: "item owner epoch N tls live k \<inter> bset ?b = {}" for k
    by (rule geo_bump(2) [OF D(6,1) i refl le X p(3)])
  have ne: "unat p \<in> bset ?b" using sz by (simp add: bset_def)
  show nin: "?b \<notin> live"
  proof
    assume "?b \<in> live"
    then have "item owner epoch N tls live (Inl ?b) = bset ?b" by (simp add: item_def)
    then show False using far [of "Inl ?b"] ne by blast
  qed
  show sub: "bset ?b \<subseteq> cspan ?c" using X p(3) ok by (auto simp: cspan_def ch_ok_def word_le_nat_alt)
  have a': "a' = a\<lparr>ar_chunks := ?cs[i := ?c']\<rparr>"
    using i by (auto simp: a'_def note_direct_carve_def upd_meta_def upd_chunk_def)
  have same: "cused (?cs[i := ?c'] ! j) = cused (?cs[i := ?c1] ! j)" for j
    using i by (cases "j = i") (simp_all add: cused_def)
  have geo': "geo (?cs[i := ?c']) (item owner epoch N tls (insert ?b live))"
    unfolding item_insert [OF nin] by (rule geo_mono [OF g]) (simp_all add: same)
  have cnt: "counts_ok owner N tls (insert ?b live) (n + 1) (ar_reclaim a) i ?c'"
  proof -
    have C: "counts_ok owner N tls live n (ar_reclaim a) i ?c" by (rule D(7) [OF i])
    have in_c: "unat p \<in> cspan ?c'" using ne sub by (auto simp: cspan_def)
    have "live_in live ?c' = live_in live ?c" by (simp add: live_in_def cspan_def)
    then have card: "card (live_in (insert ?b live) ?c') = card (live_in live ?c) + 1"
      using in_c nin D(9) by (simp add: live_in_insert) (simp add: live_in_def)
    have "unat (cm_carved (ch_meta ?c) + 1) = unat (cm_carved (ch_meta ?c)) + 1" if "ar_reclaim a"
      using C that n by (simp add: counts_ok_def unat_add_64)
    then show ?thesis using C card by (auto simp: counts_ok_def)
  qed
  have out: "counts_ok owner N tls (insert ?b live) (n + 1) (ar_reclaim a) j (?cs ! j)" if "j < length ?cs" "j \<noteq> i" for j
  proof (rule counts_ok_more [OF D(7) [OF that(1)]])
    show "unat (fst ?b) \<notin> cspan (?cs ! j)" using chunks_okD(3) [OF D(1) that(1) i] that(2) ne sub by auto
  qed simp
  show "arena_inv owner epoch N tls (insert ?b live) (n + 1) M a'"
    unfolding a'
  proof (rule arena_inv_chunk [OF inv i _ _ _ geo' cnt out])
    show "ch_ok ?c'" using ok p(3) le by (auto simp: ch_ok_def)
    show "tls_ok owner epoch (ar_reclaim a) (?cs[i := ?c']) (tls t)" if "t < N" for t
      by (rule tls_ok_mono [OF D(8) [OF that]])
        (use i le in \<open>auto simp: nth_list_update cused_def word_le_nat_alt\<close>)
    show "finite (insert ?b live)" using D(9) by simp
    show "0 < unat (snd b)" if "b \<in> insert ?b live" for b using that D(10) [of b] sz by (cases "b = ?b") auto
    show "n + 1 < 2 ^ 64" by (rule n)
  qed simp_all
qed

section \<open>The allocation path\<close>

lemma alloc_current_ok:
  assumes inv: "arena_inv owner epoch N tls live n M a" and al: "al \<le> 62" and sz: "0 < unat sz" and n: "n + 1 < 2 ^ 64"
  obtains r a' where "alloc_current sz (2 ^ al) a = Some (r, a')" and "ar_reclaim a' = ar_reclaim a"
    and "ar_current a' = ar_current a" and "length (ar_chunks a') = length (ar_chunks a)"
    and "ar_max_chunks a' = ar_max_chunks a"
    and "\<forall>i < length (ar_chunks a). ch_base (ar_chunks a' ! i) = ch_base (ar_chunks a ! i)"
    and "case r of None \<Rightarrow> a' = a
      | Some p \<Rightarrow> arena_inv owner epoch N tls (insert (p, sz) live) (n + 1) M a' \<and> (p, sz) \<notin> live
          \<and> bset (p, sz) \<subseteq> cspan (ar_chunks a ! ar_current a) \<and> 2 ^ max al 4 dvd unat p"
    and "ch_cursor (ar_chunks a ! ar_current a) = ch_base (ar_chunks a ! ar_current a) \<longrightarrow>
      unat sz + 2 ^ max al 4 \<le> 2 ^ 20 \<longrightarrow> r \<noteq> None"
proof -
  let ?i = "ar_current a"
  let ?c = "ar_chunks a ! ?i"
  note D = arena_invD [OF inv]
  have ok: "ch_ok ?c" by (rule chunks_okD(1) [OF D(1,3)])
  obtain r c' where c: "chunk_alloc sz (2 ^ al) ?c = (r, c')" by (cases "chunk_alloc sz (2 ^ al) ?c")
  note K = chunk_alloc_ok [OF ok al c]
  have at: "chunk_at ?i a = Some ?c" using D(3) by (simp add: chunk_at_def)
  show thesis
  proof (cases r)
    case None
    then have "alloc_current sz (2 ^ al) a = Some (None, a)" using c at by (simp add: alloc_current_def)
    then show ?thesis using None K(2) by (intro that [of None a]) auto
  next
    case (Some p)
    then obtain cur' where k: "c' = ?c\<lparr>ch_cursor := cur'\<rparr>" "ch_cursor ?c \<le> p" "unat cur' = unat p + unat sz"
      "unat cur' \<le> unat (ch_base ?c) + 2 ^ 20" "2 ^ max al 4 dvd unat p" using K(1) by auto
    let ?a = "note_direct_carve ?i (upd_chunk ?i (\<lambda>c. c\<lparr>ch_cursor := cur'\<rparr>) a)"
    have e: "alloc_current sz (2 ^ al) a = Some (Some p, ?a)"
      using c at Some k(1) by (simp add: alloc_current_def upd_chunk_def)
    have keep: "ar_reclaim ?a = ar_reclaim a" "ar_current ?a = ar_current a" "ar_max_chunks ?a = ar_max_chunks a"
      "length (ar_chunks ?a) = length (ar_chunks a)" "ch_base (ar_chunks ?a ! i) = ch_base (ar_chunks a ! i)"
      if "i < length (ar_chunks a)" for i
      using that D(3) by (auto simp: note_direct_carve_def upd_meta_def upd_chunk_def nth_list_update)
    note B = bump_block_inv [OF inv D(3) k(2,3,4) sz n]
    show ?thesis
      using that [OF e keep(1) [OF D(3)] keep(2) [OF D(3)] keep(4) [OF D(3)] keep(3) [OF D(3)]] keep(5) B k(5) by simp
  qed
qed

section \<open>Recycling\<close>

lemma intent_same: "cm_intent m = 0 \<Longrightarrow> m\<lparr>cm_intent := 0\<rparr> = m"
  by (cases m) simp

lemma intent_round:
  assumes "i < length (ar_chunks a)" and "cm_intent (ch_meta (ar_chunks a ! i)) = 0"
  shows "upd_meta i (\<lambda>m. m\<lparr>cm_intent := 0\<rparr>) (upd_meta i (\<lambda>m. m\<lparr>cm_intent := 1\<rparr>) a) = a"
  using assms by (simp add: upd_meta_def upd_chunk_def intent_same)

lemma recycle_scan_cases:
  assumes "\<And>i. i \<in> set is \<Longrightarrow> i < length (ar_chunks a)"
    and "\<And>i. i < length (ar_chunks a) \<Longrightarrow> cm_intent (ch_meta (ar_chunks a ! i)) = 0"
    and "recycle_scan is a = (r, a')"
  shows "case r of None \<Rightarrow> \<exists>s. a' = a\<lparr>ar_stats := s\<rparr>
    | Some i \<Rightarrow> i < length (ar_chunks a) \<and> cm_spans (ch_meta (ar_chunks a ! i)) = 0
        \<and> cm_freed (ch_meta (ar_chunks a ! i)) = cm_carved (ch_meta (ar_chunks a ! i))
        \<and> (\<exists>s. a' = a\<lparr>ar_chunks := (ar_chunks a)[i := (ar_chunks a ! i)\<lparr>ch_cursor := ch_base (ar_chunks a ! i)\<rparr>], ar_stats := s\<rparr>)"
  using assms
proof (induction "is" arbitrary: a)
  case Nil
  then show ?case by (auto intro: exI [of _ "ar_stats a"])
next
  case (Cons i ks)
  let ?c = "ar_chunks a ! i" and ?up = "upd_meta i (\<lambda>m. m\<lparr>cm_intent := 1\<rparr>) a"
  let ?m = "ch_meta (ar_chunks ?up ! i)"
  have i: "i < length (ar_chunks a)" using Cons.prems(1) by simp
  note round = intent_round [OF i Cons.prems(2) [OF i]]
  have m: "cm_spans ?m = cm_spans (ch_meta ?c)" "cm_carved ?m = cm_carved (ch_meta ?c)" "cm_freed ?m = cm_freed (ch_meta ?c)"
    using i by (simp_all add: upd_meta_def upd_chunk_def)
  consider (skip) "i = ar_current a \<or> chunk_used ?c = 0" "recycle_scan ks a = (r, a')"
    | (miss) s where "recycle_scan ks (a\<lparr>ar_stats := s\<rparr>) = (r, a')"
    | (hit) s where "cm_spans (ch_meta ?c) = 0" "cm_freed (ch_meta ?c) = cm_carved (ch_meta ?c)" "r = Some i"
        "a' = (upd_meta i (\<lambda>m. m\<lparr>cm_intent := 0\<rparr>) (upd_chunk i (\<lambda>c. c\<lparr>ch_cursor := ch_base c\<rparr>) ?up))\<lparr>ar_stats := s\<rparr>"
    using Cons.prems(3) by (simp only: recycle_scan.simps Let_def m round split: if_splits) auto
  then show ?case
  proof cases
    case skip
    show ?thesis by (rule Cons.IH [OF _ _ skip(2)]) (use Cons.prems in auto)
  next
    case (miss s)
    show ?thesis
      using Cons.IH [of "a\<lparr>ar_stats := s\<rparr>"] Cons.prems(1,2) miss by (cases r) simp_all
  next
    case (hit s)
    have "a' = a\<lparr>ar_chunks := (ar_chunks a)[i := ?c\<lparr>ch_cursor := ch_base ?c\<rparr>], ar_stats := s\<rparr>"
      using hit(4) i Cons.prems(2) [OF i] by (simp add: upd_meta_def upd_chunk_def intent_same)
    then show ?thesis using hit(1-3) i by auto
  qed
qed

text \<open>A chunk without pins whose frees have caught up holds no live block and no span.\<close>

lemma idle_chunk:
  assumes inv: "arena_inv owner epoch N tls live n M a" and i: "i < length (ar_chunks a)" and rc: "ar_reclaim a"
    and pin: "cm_spans (ch_meta (ar_chunks a ! i)) = 0"
    and freed: "cm_freed (ch_meta (ar_chunks a ! i)) = cm_carved (ch_meta (ar_chunks a ! i))"
  shows "live_in live (ar_chunks a ! i) = {}" and "t < N \<Longrightarrow> \<not> mine owner i (tls t)"
    and "item owner epoch N tls live k \<inter> cused (ar_chunks a ! i) = {}"
proof -
  let ?cs = "ar_chunks a"
  note D = arena_invD [OF inv]
  have C: "counts_ok owner N tls live n True i (?cs ! i)" using D(7) [OF i] rc by simp
  have "sum_t N (pin_of owner i) tls = 0" using C pin by (simp add: counts_ok_def)
  then have pins: "pin_of owner i (tls t) = 0" if "t < N" for t using sum_t_ge [OF that, of "pin_of owner i" tls] by simp
  show nm: "\<not> mine owner i (tls t)" if "t < N" for t using pins [OF that] by (simp add: pin_of_def split: if_splits)
  then have "sum_t N (blk_of owner i) tls = 0" by (simp add: sum_t_def blk_of_def)
  then have "card (live_in live (?cs ! i)) = 0" using C freed by (simp add: counts_ok_def)
  then show L: "live_in live (?cs ! i) = {}" using D(9) by (simp add: live_in_def)
  have other: "X \<inter> cused (?cs ! i) = {}" if "X \<subseteq> cused (?cs ! j)" "j < length ?cs" "j \<noteq> i" for X j
    using chunks_okD(3) [OF D(1) that(2) i that(3)] cused_cspan [OF chunks_okD(1) [OF D(1) that(2)]]
      cused_cspan [OF chunks_okD(1) [OF D(1) i]] that(1) by blast
  have g: "item owner epoch N tls live k = {} \<or> (\<exists>j < length ?cs. item owner epoch N tls live k \<subseteq> cused (?cs ! j))"
    using D(6) unfolding geo_def by blast
  show "item owner epoch N tls live k \<inter> cused (?cs ! i) = {}"
  proof (cases k)
    case (Inl b)
    show ?thesis
    proof (cases "b \<in> live")
      case True
      then have ib: "item owner epoch N tls live k = bset b" by (simp add: item_def Inl)
      have ne: "unat (fst b) \<in> bset b" using D(10) [OF True] by (simp add: bset_def)
      obtain j where j: "j < length ?cs" "bset b \<subseteq> cused (?cs ! j)" using g ne unfolding ib by blast
      have "j \<noteq> i"
      proof
        assume "j = i"
        then have "b \<in> live_in live (?cs ! i)"
          using True ne j(2) cused_cspan [OF chunks_okD(1) [OF D(1) i]] by (auto simp: live_in_def)
        then show False using L by simp
      qed
      then show ?thesis using other [OF j(2,1)] unfolding ib by simp
    qed (simp add: item_def Inl)
  next
    case (Inr t)
    show ?thesis
    proof (cases "t < N \<and> window owner epoch (tls t) \<noteq> {}")
      case True
      then have it: "item owner epoch N tls live k = window owner epoch (tls t)" by (simp add: item_def Inr)
      have T: "tls_ok owner epoch True ?cs (tls t)" using D(8) [of t] True rc by simp
      have o: "span_owner (span (tls t)) = owner" using True by (auto simp: window_def split: if_splits)
      then have "span_meta (span (tls t)) \<noteq> 0" using T True unfolding tls_ok_def by blast
      then obtain j where j: "j < length ?cs" "span_meta (span (tls t)) = meta_addr j" "window owner epoch (tls t) \<subseteq> cused (?cs ! j)"
        using T o True unfolding tls_ok_def by blast
      have "j \<noteq> i" using nm [of t] True o j(2) by (auto simp: mine_def)
      then show ?thesis using other [OF j(3,1)] unfolding it by simp
    qed (auto simp: item_def Inr)
  qed
qed

lemma try_recycle_ok:
  assumes inv: "arena_inv owner epoch N tls live n M a" and res: "try_recycle a = (r, a')"
  shows "arena_inv owner epoch N tls live n M a'" and "ar_reclaim a' = ar_reclaim a"
    and "ar_current a' = ar_current a" and "length (ar_chunks a') = length (ar_chunks a)"
    and "ar_max_chunks a' = ar_max_chunks a"
    and "i < length (ar_chunks a) \<Longrightarrow> ch_base (ar_chunks a' ! i) = ch_base (ar_chunks a ! i)"
    and "r = Some j \<Longrightarrow> ar_reclaim a \<and> j < length (ar_chunks a) \<and> ch_cursor (ar_chunks a' ! j) = ch_base (ar_chunks a' ! j)"
    and "r = None \<Longrightarrow> \<exists>s. a' = a\<lparr>ar_stats := s\<rparr>"
proof -
  let ?cs = "ar_chunks a"
  note D = arena_invD [OF inv]
  have "(r = None \<and> (\<exists>s. a' = a\<lparr>ar_stats := s\<rparr>)) \<or> (\<exists>k s. r = Some k \<and> ar_reclaim a \<and> k < length ?cs
      \<and> cm_spans (ch_meta (?cs ! k)) = 0 \<and> cm_freed (ch_meta (?cs ! k)) = cm_carved (ch_meta (?cs ! k))
      \<and> a' = a\<lparr>ar_chunks := ?cs[k := (?cs ! k)\<lparr>ch_cursor := ch_base (?cs ! k)\<rparr>], ar_stats := s\<rparr>)"
  proof (cases "ar_reclaim a")
    case False
    then show ?thesis using res by (auto simp: try_recycle_def intro: exI [of _ "ar_stats a"])
  next
    case True
    have "cm_intent (ch_meta (?cs ! i)) = 0" if "i < length ?cs" for i
      using chunks_okD(1) [OF D(1) that] by (simp add: ch_ok_def)
    from recycle_scan_cases [OF _ this, of "[0 ..< length ?cs]" r a'] res True
    show ?thesis by (cases r) (auto simp: try_recycle_def)
  qed
  then consider (none) s where "r = None" "a' = a\<lparr>ar_stats := s\<rparr>"
    | (some) k s where "r = Some k" "ar_reclaim a" "k < length ?cs" "cm_spans (ch_meta (?cs ! k)) = 0"
        "cm_freed (ch_meta (?cs ! k)) = cm_carved (ch_meta (?cs ! k))"
        "a' = a\<lparr>ar_chunks := ?cs[k := (?cs ! k)\<lparr>ch_cursor := ch_base (?cs ! k)\<rparr>], ar_stats := s\<rparr>"
    by blast
  note cs = this
  show "arena_inv owner epoch N tls live n M a'"
  proof (rule cs)
    fix s assume "a' = a\<lparr>ar_stats := s\<rparr>"
    then show ?thesis using inv by simp
  next
    fix k s
    assume some: "r = Some k" "ar_reclaim a" "k < length ?cs" "cm_spans (ch_meta (?cs ! k)) = 0"
      "cm_freed (ch_meta (?cs ! k)) = cm_carved (ch_meta (?cs ! k))"
      "a' = a\<lparr>ar_chunks := ?cs[k := (?cs ! k)\<lparr>ch_cursor := ch_base (?cs ! k)\<rparr>], ar_stats := s\<rparr>"
    let ?c = "?cs ! k" let ?c' = "?c\<lparr>ch_cursor := ch_base ?c\<rparr>"
    have ok: "ch_ok ?c" by (rule chunks_okD(1) [OF D(1) some(3)])
    note idle = idle_chunk [OF inv some(3,2,4,5)]
    have "arena_inv owner epoch N tls live n M (a\<lparr>ar_chunks := ?cs[k := ?c']\<rparr>)"
    proof (rule arena_inv_chunk [OF inv some(3) _ _ _ _ _ D(7)])
      show "ch_ok ?c'" using ok by (simp add: ch_ok_def)
      show "geo (?cs[k := ?c']) (item owner epoch N tls live)"
        by (rule geo_rewind [OF D(6) some(3) idle(3)]) simp
      show "counts_ok owner N tls live n (ar_reclaim a) k ?c'"
        using D(7) [OF some(3)] by (simp add: counts_ok_def live_in_def cspan_def)
      show "tls_ok owner epoch (ar_reclaim a) (?cs[k := ?c']) (tls t)" if t: "t < N" for t
        by (rule tls_ok_mono [OF D(8) [OF t]])
          (use idle(2) [OF t] some(3) in \<open>auto simp: nth_list_update\<close>)
    qed (use D in simp_all)
    then show ?thesis using some(6) by simp
  qed
  show "ar_reclaim a' = ar_reclaim a" by (rule cs) simp_all
  show "ar_current a' = ar_current a" by (rule cs) simp_all
  show "length (ar_chunks a') = length ?cs" by (rule cs) simp_all
  show "ar_max_chunks a' = ar_max_chunks a" by (rule cs) simp_all
  show "ch_base (ar_chunks a' ! i) = ch_base (?cs ! i)" if "i < length ?cs"
    by (rule cs) (use that in \<open>simp_all add: nth_list_update\<close>)
  show "ar_reclaim a \<and> j < length ?cs \<and> ch_cursor (ar_chunks a' ! j) = ch_base (ar_chunks a' ! j)" if "r = Some j"
    by (rule cs) (use that in simp_all)
  show "\<exists>s. a' = a\<lparr>ar_stats := s\<rparr>" if "r = None" by (rule cs) (use that in auto)
qed

end
