(* ===== verification/ArenaGrow.thy ===== *)
theory ArenaGrow
  imports ArenaBump
begin

text \<open>
  The arena moves on: to the next chunk, a recycled one or a new one, until a chunk has room. The loop ends
  because it walks the mapped chunks once, and a recycled or new chunk is empty.
\<close>

section \<open>A new chunk\<close>

text \<open>A chunk is aligned to its size, or to a page when that is more.\<close>

lemma chunk_align:
  assumes p: "p < 30" shows "max (max (round_up_pow2 (2 ^ 20)) (2 ^ p)) MIN_ALIGN = max (2 ^ 20) ((2 :: usize) ^ p)"
proof -
  have le: "(2 :: usize) ^ i \<le> 2 ^ j \<longleftrightarrow> i \<le> j" if "i < 60" "j < 60" for i j :: nat
  proof -
    have "(2::nat) ^ i \<le> 2 ^ j \<longleftrightarrow> i \<le> j" by (rule power_increasing_iff) simp
    then show ?thesis using that by (simp only: word_le_nat_alt unat_pow2_64)
  qed
  have "bit_len 1048575 = Suc 19" by (rule bit_len_eqI) simp_all
  then have "unat (round_up_pow2 (2 ^ 20)) = unat ((2::usize) ^ 20)" by (simp add: round_up_pow2_unat)
  then have r: "round_up_pow2 (2 ^ 20) = 2 ^ 20" by (simp only: unsigned_word_eqI)
  have m: "MIN_ALIGN = 2 ^ 4" by (simp add: MIN_ALIGN_def)
  have x: "max (2 ^ 20) (2 ^ p) = (2::usize) ^ max 20 p" using p by (intro max_pow2) simp_all
  show ?thesis unfolding r x m using le [of "max 20 p" 4] p by (simp only: max_def) simp
qed

text \<open>What the kernel is asked for, and refuses when there is no new chunk.\<close>

definition chunk_len :: "usize \<Rightarrow> usize" where "chunk_len page = pages_len page (2 ^ 20) (2 ^ 20)"

lemma chunk_new_refused:
  assumes k: "pages_ok page mmap mapped" and c: "fst (chunk_new page mmap (2 ^ 20) os) = None"
  shows "os_refuses mmap os (chunk_len page)"
proof -
  obtain p where p: "p < 30" "page = 2 ^ p" using pages_okD(1) [OF k] by blast
  have al: "max (max (round_up_pow2 (2 ^ 20)) page) MIN_ALIGN = max (2 ^ 20) page" using chunk_align [OF p(1)] p(2) by simp
  obtain os' where "alloc_pages page mmap (2 ^ 20) (max (2 ^ 20) page) os = (None, os')"
    using c unfolding chunk_new_def Let_def al by (auto split: prod.splits option.splits)
  from alloc_pages_refused [OF this] show ?thesis unfolding chunk_len_def pages_len_page by simp
qed

lemma chunk_new_ok:
  assumes k: "pages_ok page mmap mapped" and c: "chunk_new page mmap (2 ^ 20) os = (r, os')"
  shows "mapped os \<subseteq> mapped os'"
    and "r = Some c \<Longrightarrow> ch_ok c \<and> cspan c \<subseteq> mapped os' - mapped os \<and> ch_meta c = chunk_meta_new \<and> ch_cursor c = ch_base c"
proof -
  obtain p where p: "p < 30" "page = 2 ^ p" using pages_okD(1) [OF k] by blast
  have align: "max (max (round_up_pow2 (2 ^ 20)) page) MIN_ALIGN = 2 ^ max 20 p"
    using chunk_align [of p] p max_pow2 [of 20 p] by simp
  obtain q os2 where q: "alloc_pages page mmap (2 ^ 20) (2 ^ max 20 p) os = (q, os2)" by force
  have res: "(case (q, os2) of (None, os') \<Rightarrow> (None, os')
      | (Some m, os') \<Rightarrow> (Some \<lparr>ch_mapping = m, ch_base = map_ptr m, ch_capacity = min (map_usable m) (2 ^ 20),
           ch_cursor = map_ptr m, ch_meta = chunk_meta_new, ch_desc = False\<rparr>, os')) = (r, os')"
    using c unfolding chunk_new_def Let_def align q .
  have e: "alloc_pages page mmap (2 ^ 20) (2 ^ max 20 p) os = (map_option ch_mapping r, os')"
    using res unfolding q by (cases q) auto
  have B': "ch_base c = map_ptr (ch_mapping c)" "ch_capacity c = min (map_usable (ch_mapping c)) (2 ^ 20)"
    "ch_cursor c = map_ptr (ch_mapping c)" "ch_meta c = chunk_meta_new" if "r = Some c"
    using res that by (cases q; auto)+
  have "unat ((2::usize) ^ 20) < 2 ^ 60" by simp
  note small = this
  have A: "case map_option ch_mapping r of None \<Rightarrow> mapped os \<subseteq> mapped os'
    | Some m \<Rightarrow> 2 ^ max 20 p dvd unat (map_ptr m) \<and> map_ptr m \<noteq> 0 \<and> unat ((2::usize) ^ 20) \<le> unat (map_usable m)
        \<and> unat (map_ptr m) + unat (map_usable m) < 2 ^ 63
        \<and> {unat (map_ptr m) ..< unat (map_ptr m) + unat (map_usable m)} \<subseteq> mapped os' - mapped os
        \<and> mapped os' = mapped os \<union> {unat (map_base m) ..< unat (map_base m) + unat (map_len m)}
        \<and> {unat (map_base m) ..< unat (map_base m) + unat (map_len m)} \<inter> mapped os = {}"
    by (rule alloc_pages_fresh [OF k _ small e]) (use p(1) in simp)
  show "mapped os \<subseteq> mapped os'"
  proof (cases r)
    case None
    then show ?thesis using A by simp
  next
    case (Some c)
    have "mapped os' = mapped os \<union> {unat (map_base (ch_mapping c)) ..< unat (map_base (ch_mapping c)) + unat (map_len (ch_mapping c))}"
      using A unfolding Some option.map option.case by blast
    then show ?thesis by blast
  qed
  assume r: "r = Some c"
  note B = B' [OF r]
  have C: "2 ^ max 20 p dvd unat (ch_base c)" "ch_base c \<noteq> 0" "unat ((2::usize) ^ 20) \<le> unat (map_usable (ch_mapping c))"
    "unat (ch_base c) + unat (map_usable (ch_mapping c)) < 2 ^ 63"
    "{unat (ch_base c) ..< unat (ch_base c) + unat (map_usable (ch_mapping c))} \<subseteq> mapped os' - mapped os"
    using A unfolding r option.map option.case B(1) [symmetric] by blast+
  have cap: "ch_capacity c = 2 ^ 20" using C(3) B(2) by (simp only: min_absorb2 word_le_nat_alt [symmetric])
  have u: "unat ((2::usize) ^ 20) = 2 ^ 20" by simp
  have "(2::nat) ^ 20 dvd 2 ^ max 20 p" by (rule le_imp_power_dvd) simp
  then have d: "2 ^ 20 dvd unat (ch_base c)" using C(1) by (rule dvd_trans)
  have "ch_ok c" unfolding ch_ok_def cap u
  proof (intro conjI)
    show "unat (ch_base c) + 2 ^ 20 < 2 ^ 63" using C(3,4) u by linarith
    show "ch_base c \<le> ch_cursor c" "unat (ch_cursor c) \<le> unat (ch_base c) + 2 ^ 20" "cm_intent (ch_meta c) = 0"
      using B by (simp_all add: chunk_meta_new_def)
  qed (use C(2) d in simp_all)
  moreover have "cspan c \<subseteq> {unat (ch_base c) ..< unat (ch_base c) + unat (map_usable (ch_mapping c))}"
    unfolding cspan_def cap u using C(3) u by (intro ivl_subset [THEN iffD2]) simp
  ultimately show "ch_ok c \<and> cspan c \<subseteq> mapped os' - mapped os \<and> ch_meta c = chunk_meta_new \<and> ch_cursor c = ch_base c"
    by (intro conjI subset_trans [OF _ C(5)]) (simp_all add: B)
qed

lemma live_in_M:
  assumes inv: "arena_inv owner epoch N tls live n M a" and b: "b \<in> live"
  obtains i where "i < length (ar_chunks a)" and "bset b \<subseteq> cused (ar_chunks a ! i)" and "unat (fst b) \<in> bset b"
    and "bset b \<subseteq> cspan (ar_chunks a ! i)" and "bset b \<subseteq> M"
proof -
  note D = arena_invD [OF inv]
  have ne: "unat (fst b) \<in> bset b" using D(10) [OF b] by (simp add: bset_def)
  have "item owner epoch N tls live (Inl b) = bset b" using b by (simp add: item_def)
  then have "bset b = {} \<or> (\<exists>i < length (ar_chunks a). bset b \<subseteq> cused (ar_chunks a ! i))"
    using D(6) unfolding geo_def by metis
  then obtain i where i: "i < length (ar_chunks a)" "bset b \<subseteq> cused (ar_chunks a ! i)" using ne by blast
  then show thesis using that [OF i ne] cused_cspan chunks_okD(1,2) [OF D(1) i(1)] by blast
qed

lemma arena_inv_grow:
  assumes inv: "arena_inv owner epoch N tls live n M a" and c: "ch_ok c" "cspan c \<subseteq> M' - M" "ch_meta c = chunk_meta_new"
    and M: "M \<subseteq> M'" and room: "length (ar_chunks a) < ar_max_chunks a"
  shows "arena_inv owner epoch N tls live n M' (a\<lparr>ar_chunks := ar_chunks a @ [c]\<rparr>)"
proof -
  let ?cs = "ar_chunks a" let ?l = "length ?cs"
  note D = arena_invD [OF inv]
  have l32: "?l < 2 ^ 32" using D(4,5) by simp
  have ok: "chunks_ok (?cs @ [c]) M'"
    unfolding chunks_ok_def
  proof (intro conjI ballI allI impI)
    fix d assume "d \<in> set (?cs @ [c])"
    then show "ch_ok d" "cspan d \<subseteq> M'" using D(1) c M by (auto simp: chunks_ok_def)
  next
    fix i j assume ij: "i < length (?cs @ [c])" "j < length (?cs @ [c])" "i \<noteq> j"
    show "cspan ((?cs @ [c]) ! i) \<inter> cspan ((?cs @ [c]) ! j) = {}"
    proof (cases "i = ?l \<or> j = ?l")
      case True
      have "cspan (?cs ! k) \<inter> cspan c = {}" if "k < ?l" for k using chunks_okD(2) [OF D(1) that] c(2) by blast
      moreover have "i < ?l \<or> j < ?l" "\<not> (i < ?l \<and> j < ?l)" using ij True by auto
      ultimately show ?thesis using ij by (cases "i < ?l") (simp_all add: nth_append Int_commute)
    next
      case False
      then show ?thesis using ij chunks_okD(3) [OF D(1)] by (simp add: nth_append)
    qed
  qed
  have geo: "geo (?cs @ [c]) (item owner epoch N tls live)"
    by (rule geo_mono [OF D(6)]) (simp_all add: nth_append)
  have tls: "tls_ok owner epoch (ar_reclaim a) (?cs @ [c]) (tls t)" if "t < N" for t
    by (rule tls_ok_mono [OF D(8) [OF that]]) (simp_all add: nth_append)
  have other: "meta_addr j \<noteq> meta_addr ?l" if "j < ?l" for j using meta_addr_inj [of j ?l] l32 that by auto
  have nospan: "\<not> mine owner ?l (tls t)" if t: "t < N" for t
  proof
    assume m: "mine owner ?l (tls t)"
    then have "span_meta (span (tls t)) \<noteq> 0" using meta_addr_nz [OF l32] by (simp add: mine_def)
    then obtain j where "j < ?l" "span_meta (span (tls t)) = meta_addr j"
      using D(8) [OF t] m unfolding tls_ok_def mine_def by blast
    then show False using other m by (simp add: mine_def)
  qed
  have nopend: "pend_of owner ?l (tls t) = 0" if t: "t < N" for t
  proof (cases "arena_free_owner (tls t) = owner")
    case True
    then obtain j where "j < ?l" "arena_free_meta (tls t) = meta_addr j"
      using D(8) [OF t] unfolding tls_ok_def by blast
    then show ?thesis using other by (simp add: pend_of_def)
  qed (simp add: pend_of_def)
  have "sum_t N (pin_of owner ?l) tls = 0" "sum_t N (blk_of owner ?l) tls = 0" "sum_t N (pend_of owner ?l) tls = 0"
    using nospan nopend by (simp_all add: sum_t_def pin_of_def blk_of_def)
  moreover have "live_in live c = {}"
  proof -
    have "unat (fst b) \<notin> cspan c" if b: "b \<in> live" for b
    proof -
      obtain i where "unat (fst b) \<in> bset b" "bset b \<subseteq> M" by (rule live_in_M [OF inv b])
      then show ?thesis using c(2) by blast
    qed
    then show ?thesis by (auto simp: live_in_def)
  qed
  ultimately have new: "counts_ok owner N tls live n (ar_reclaim a) ?l c"
    by (simp add: counts_ok_def c(3) chunk_meta_new_def)
  have cnt: "counts_ok owner N tls live n (ar_reclaim a) i ((?cs @ [c]) ! i)" if "i < length (?cs @ [c])" for i
    using that new D(7) [of i] by (cases "i = ?l") (simp_all add: nth_append)
  show ?thesis using inv ok geo tls cnt room unfolding arena_inv_def by simp
qed

lemma arena_inv_current:
  "arena_inv owner epoch N tls live n M a \<Longrightarrow> i < length (ar_chunks a) \<Longrightarrow>
   arena_inv owner epoch N tls live n M (a\<lparr>ar_current := i\<rparr>)"
  by (simp add: arena_inv_def)

lemma arena_inv_M: "arena_inv owner epoch N tls live n M a \<Longrightarrow> M \<subseteq> M' \<Longrightarrow> arena_inv owner epoch N tls live n M' a"
  by (auto simp: arena_inv_def chunks_ok_def)

section \<open>The next chunk\<close>

text \<open>What every step of the allocation path keeps.\<close>

definition grows :: "bump_arena \<Rightarrow> bump_arena \<Rightarrow> bool" where
  "grows a a' \<longleftrightarrow> ar_reclaim a' = ar_reclaim a \<and> ar_max_chunks a' = ar_max_chunks a
     \<and> length (ar_chunks a) \<le> length (ar_chunks a')
     \<and> (\<forall>i < length (ar_chunks a). ch_base (ar_chunks a' ! i) = ch_base (ar_chunks a ! i))"

lemma grows_refl: "grows a a"
  by (simp add: grows_def)

lemma grows_trans: "grows a b \<Longrightarrow> grows b c \<Longrightarrow> grows a c"
  by (auto simp: grows_def)

lemma arena_next_ok:
  assumes inv: "arena_inv owner epoch N tls live n (mapped os) a" and k: "pages_ok page mmap mapped"
    and res: "arena_next page mmap a os = (ok, a', os')"
  shows "arena_inv owner epoch N tls live n (mapped os') a' \<and> mapped os \<subseteq> mapped os' \<and> grows a a'
    \<and> (ok \<longrightarrow> (ar_current a' = ar_current a + 1 \<and> length (ar_chunks a') = length (ar_chunks a) \<and> os' = os)
         \<or> ch_cursor (ar_chunks a' ! ar_current a') = ch_base (ar_chunks a' ! ar_current a'))
    \<and> (\<not> ok \<longrightarrow> length (ar_chunks a') = length (ar_chunks a)
         \<and> (length (ar_chunks a') = ar_max_chunks a' \<or> os_refuses mmap os (chunk_len page)))"
proof (cases "ar_current a + 1 < length (ar_chunks a)")
  case True
  then have "ok" "a' = a\<lparr>ar_current := ar_current a + 1\<rparr>" "os' = os" using res by (auto simp: arena_next_def)
  then show ?thesis using arena_inv_current [OF inv True] by (simp add: grows_def)
next
  case next_False: False
  note D = arena_invD [OF inv]
  obtain r a1 where tr: "try_recycle a = (r, a1)" by force
  note R = try_recycle_ok [OF inv tr]
  have g1: "grows a a1" using R(2-6) by (simp add: grows_def)
  show ?thesis
  proof (cases r)
    case (Some i)
    then have e: "ok" "a' = a1\<lparr>ar_current := i\<rparr>" "os' = os" using res next_False tr by (auto simp: arena_next_def)
    have i: "i < length (ar_chunks a1)" "ch_cursor (ar_chunks a1 ! i) = ch_base (ar_chunks a1 ! i)"
      using R(7) [of i] R(4) Some by auto
    have "grows a a'" using g1 e by (simp add: grows_def)
    then show ?thesis using e i arena_inv_current [OF R(1) i(1)] by simp
  next
    case None
    obtain c os2 where cn: "chunk_new page mmap (2 ^ 20) os = (c, os2)" by force
    have size1: "ar_chunk_size a1 = 2 ^ 20" by (rule arena_invD(2) [OF R(1)])
    note K = chunk_new_ok [OF k cn]
    show ?thesis
    proof (cases "length (ar_chunks a1) < ar_max_chunks a1")
      case False
      then have "\<not> ok" "a' = a1" "os' = os" using res next_False tr None by (auto simp: arena_next_def)
      then show ?thesis using R(1,4) g1 False arena_invD(4) [OF R(1)] by simp
    next
      case room: True
      show ?thesis
      proof (cases c)
        case None2: None
        then have e: "\<not> ok" "a' = a1" "os' = os2" using res next_False tr None room cn size1 by (auto simp: arena_next_def)
        have "os_refuses mmap os (chunk_len page)" by (rule chunk_new_refused [OF k]) (use cn None2 in simp)
        then show ?thesis using e arena_inv_M [OF R(1) K(1)] K(1) g1 R(4) by blast
      next
        case (Some d)
        note C = K(2) [OF Some]
        let ?a2 = "a1\<lparr>ar_chunks := ar_chunks a1 @ [d]\<rparr>"
        let ?st = "(ar_stats a1)\<lparr>st_grows := st_grows (ar_stats a1) + 1\<rparr>"
        have last: "ar_current a1 + 1 = length (ar_chunks a1)" using next_False D(3) R(3,4) by simp
        have e: "ok" "a' = ?a2\<lparr>ar_current := ar_current a1 + 1, ar_stats := ?st\<rparr>" "os' = os2"
          using res next_False tr None room cn size1 Some by (auto simp: arena_next_def)
        have "arena_inv owner epoch N tls live n (mapped os2) ?a2"
          by (rule arena_inv_grow [OF R(1) _ _ _ K(1) room]) (use C in simp_all)
        then have "arena_inv owner epoch N tls live n (mapped os2) (?a2\<lparr>ar_current := ar_current a1 + 1\<rparr>)"
          by (rule arena_inv_current) (use last in simp)
        then have "arena_inv owner epoch N tls live n (mapped os') a'" unfolding e(2,3) by simp
        moreover have "grows a a'" using g1 e(2) by (simp add: grows_def nth_append)
        moreover have "ch_cursor (ar_chunks a' ! ar_current a') = ch_base (ar_chunks a' ! ar_current a')"
        proof -
          have "(ar_chunks a1 @ [d]) ! (ar_current a1 + 1) = d" unfolding last by simp
          then show ?thesis using e(2) C by simp
        qed
        ultimately show ?thesis using e(1,3) K(1) by simp
      qed
    qed
  qed
qed

section \<open>The loop\<close>

text \<open>The outcome of an attempt to bump a block of \<open>sz\<close> bytes.\<close>

definition got_block ::
  "u64 \<Rightarrow> u64 \<Rightarrow> nat \<Rightarrow> (nat \<Rightarrow> hot_tls) \<Rightarrow> block set \<Rightarrow> nat \<Rightarrow> nat \<Rightarrow> usize \<Rightarrow> usize option \<Rightarrow> nat set \<Rightarrow> bump_arena \<Rightarrow> bool"
where
  "got_block owner epoch N tls live n al sz r M a \<longleftrightarrow>
     (case r of None \<Rightarrow> arena_inv owner epoch N tls live n M a
      | Some p \<Rightarrow> arena_inv owner epoch N tls (insert (p, sz) live) (n + 1) M a \<and> (p, sz) \<notin> live \<and> 2 ^ al dvd unat p
          \<and> bset (p, sz) \<subseteq> cspan (ar_chunks a ! ar_current a))"

lemma alloc_current_got:
  assumes inv: "arena_inv owner epoch N tls live n M a" and al: "4 \<le> al" "al \<le> 62" and sz: "0 < unat sz" and n: "n + 1 < 2 ^ 64"
  obtains r a' where "alloc_current sz (2 ^ al) a = Some (r, a')" and "grows a a'"
    and "ar_current a' = ar_current a" and "length (ar_chunks a') = length (ar_chunks a)"
    and "got_block owner epoch N tls live n al sz r M a'"
    and "ch_cursor (ar_chunks a ! ar_current a) = ch_base (ar_chunks a ! ar_current a) \<longrightarrow>
      unat sz + 2 ^ al \<le> 2 ^ 20 \<longrightarrow> r \<noteq> None"
proof -
  have al4: "max al 4 = al" using al(1) by simp
  obtain r a' where A: "alloc_current sz (2 ^ al) a = Some (r, a')" "ar_reclaim a' = ar_reclaim a"
    "ar_current a' = ar_current a" "length (ar_chunks a') = length (ar_chunks a)" "ar_max_chunks a' = ar_max_chunks a"
    "\<forall>i < length (ar_chunks a). ch_base (ar_chunks a' ! i) = ch_base (ar_chunks a ! i)"
    "case r of None \<Rightarrow> a' = a
      | Some p \<Rightarrow> arena_inv owner epoch N tls (insert (p, sz) live) (n + 1) M a' \<and> (p, sz) \<notin> live
          \<and> bset (p, sz) \<subseteq> cspan (ar_chunks a ! ar_current a) \<and> 2 ^ max al 4 dvd unat p"
    "ch_cursor (ar_chunks a ! ar_current a) = ch_base (ar_chunks a ! ar_current a) \<longrightarrow>
      unat sz + 2 ^ max al 4 \<le> 2 ^ 20 \<longrightarrow> r \<noteq> None"
    by (rule alloc_current_ok [OF inv al(2) sz n])
  have g: "grows a a'" using A(2,4-6) by (simp add: grows_def)
  have "got_block owner epoch N tls live n al sz r M a'"
  proof (cases r)
    case None
    then show ?thesis using A(7) inv by (simp add: got_block_def)
  next
    case (Some p)
    have inv': "arena_inv owner epoch N tls (insert (p, sz) live) (n + 1) M a'" using A(7) Some by simp
    have cur: "ar_current a < length (ar_chunks a)" by (rule arena_invD(3) [OF inv])
    have "ch_ok (ar_chunks a ! ar_current a)" "ch_ok (ar_chunks a' ! ar_current a)"
      using chunks_okD(1) [OF arena_invD(1) [OF inv] cur] chunks_okD(1) [OF arena_invD(1) [OF inv'], of "ar_current a"] cur A(4)
      by simp_all
    then have "cspan (ar_chunks a' ! ar_current a') = cspan (ar_chunks a ! ar_current a)"
      using A(3,6) cur by (simp add: cspan_def ch_ok_def)
    then show ?thesis using A(7) Some al4 by (simp add: got_block_def)
  qed
  then show thesis using that [OF A(1) g A(3,4)] A(8) al4 by simp
qed

lemma arena_advance_ok:
  assumes "arena_inv owner epoch N tls live n (mapped os) a" and k: "pages_ok page mmap mapped"
    and al: "4 \<le> al" "al \<le> 62" and sz: "0 < unat sz" and n: "n + 1 < 2 ^ 64" and fit: "unat sz + 2 ^ al \<le> 2 ^ 20"
  shows "\<exists>r a' os'. arena_advance page mmap sz (2 ^ al) a os = Some (r, a', os') \<and> mapped os \<subseteq> mapped os' \<and> grows a a'
    \<and> got_block owner epoch N tls live n al sz r (mapped os') a'
    \<and> (r = None \<longrightarrow> length (ar_chunks a') = length (ar_chunks a)
         \<and> (length (ar_chunks a') = ar_max_chunks a' \<or> os_refuses mmap os (chunk_len page)))"
  using assms(1)
proof (induction "length (ar_chunks a) - ar_current a" arbitrary: a os rule: less_induct)
  case (less a os)
  obtain ok a1 os1 where nx: "arena_next page mmap a os = (ok, a1, os1)" by (rule prod_cases3)
  note X = arena_next_ok [OF less.prems k nx]
  then have X1: "arena_inv owner epoch N tls live n (mapped os1) a1" "mapped os \<subseteq> mapped os1" "grows a a1" by blast+
  show ?case
  proof (cases ok)
    case False
    then have "arena_advance page mmap sz (2 ^ al) a os = Some (None, a1, os1)"
      by (simp add: arena_advance.simps [of page mmap sz _ a os] nx)
    moreover have "length (ar_chunks a1) = length (ar_chunks a)
        \<and> (length (ar_chunks a1) = ar_max_chunks a1 \<or> os_refuses mmap os (chunk_len page))"
      using X False by blast
    ultimately show ?thesis using X1 by (auto simp: got_block_def)
  next
    case True
    obtain r a2 where A: "alloc_current sz (2 ^ al) a1 = Some (r, a2)" "grows a1 a2"
      "ar_current a2 = ar_current a1" "length (ar_chunks a2) = length (ar_chunks a1)"
      "got_block owner epoch N tls live n al sz r (mapped os1) a2"
      "ch_cursor (ar_chunks a1 ! ar_current a1) = ch_base (ar_chunks a1 ! ar_current a1) \<longrightarrow>
        unat sz + 2 ^ al \<le> 2 ^ 20 \<longrightarrow> r \<noteq> None"
      by (rule alloc_current_got [OF X1(1) al sz n])
    have step: "arena_advance page mmap sz (2 ^ al) a os =
      (if r \<noteq> None then Some (r, a2, os1) else arena_advance page mmap sz (2 ^ al) a2 os1)"
      using True A(1) by (simp add: arena_advance.simps [of page mmap sz _ a os] nx)
    note g = grows_trans [OF X1(3) A(2)]
    show ?thesis
    proof (cases r)
      case (Some p)
      then show ?thesis using step A(5) g X1(2) by (intro exI [of _ r] exI [of _ a2] exI [of _ os1]) simp
    next
      case None
      then have "\<not> ch_cursor (ar_chunks a1 ! ar_current a1) = ch_base (ar_chunks a1 ! ar_current a1)" using A(6) fit by blast
      then have m: "ar_current a1 = ar_current a + 1" "length (ar_chunks a1) = length (ar_chunks a)" "os1 = os" using X True by blast+
      have inv2: "arena_inv owner epoch N tls live n (mapped os1) a2" using A(5) None by (simp add: got_block_def)
      have "ar_current a < length (ar_chunks a)" by (rule arena_invD(3) [OF less.prems])
      then have "length (ar_chunks a2) - ar_current a2 < length (ar_chunks a) - ar_current a" using m A(3,4) by simp
      from less.hyps [OF this inv2] obtain r' a' os' where R:
        "arena_advance page mmap sz (2 ^ al) a2 os1 = Some (r', a', os')" "mapped os1 \<subseteq> mapped os'" "grows a2 a'"
        "got_block owner epoch N tls live n al sz r' (mapped os') a'"
        "r' = None \<longrightarrow> length (ar_chunks a') = length (ar_chunks a2)
           \<and> (length (ar_chunks a') = ar_max_chunks a' \<or> os_refuses mmap os1 (chunk_len page))"
        by blast
      have "mapped os \<subseteq> mapped os'" using X1(2) R(2) by (rule subset_trans)
      then show ?thesis using step None R grows_trans [OF g R(3)] m(2,3) A(4)
        by (intro exI [of _ r'] exI [of _ a'] exI [of _ os']) auto
    qed
  qed
qed

lemma arena_alloc_block_ok:
  assumes inv: "arena_inv owner epoch N tls live n (mapped os) a" and k: "pages_ok page mmap mapped"
    and al: "al \<le> 62" and sz: "0 < unat sz" and n: "n + 1 < 2 ^ 64"
  shows "\<exists>r a' os'. arena_alloc_block page mmap sz (2 ^ al) a os = Some (r, a', os') \<and> mapped os \<subseteq> mapped os' \<and> grows a a'
    \<and> got_block owner epoch N tls live n (max al 4) sz r (mapped os') a'
    \<and> (r = None \<longrightarrow> length (ar_chunks a') = length (ar_chunks a)
         \<and> (2 ^ 20 < unat sz + 2 ^ max al 4 \<or> length (ar_chunks a') = ar_max_chunks a'
            \<or> os_refuses mmap os (chunk_len page)))
    \<and> (ch_cursor (ar_chunks a ! ar_current a) = ch_base (ar_chunks a ! ar_current a) \<longrightarrow>
         unat sz + 2 ^ max al 4 \<le> 2 ^ 20 \<longrightarrow> r \<noteq> None)"
proof -
  let ?al = "max al 4"
  have al4: "4 \<le> ?al" "?al \<le> 62" using al by simp_all
  have szn: "sz \<noteq> 0" using sz by auto
  obtain r a1 where A: "alloc_current sz (2 ^ ?al) a = Some (r, a1)" "grows a a1"
    "ar_current a1 = ar_current a" "length (ar_chunks a1) = length (ar_chunks a)"
    "got_block owner epoch N tls live n ?al sz r (mapped os) a1"
    "ch_cursor (ar_chunks a ! ar_current a) = ch_base (ar_chunks a ! ar_current a) \<longrightarrow>
      unat sz + 2 ^ ?al \<le> 2 ^ 20 \<longrightarrow> r \<noteq> None"
    by (rule alloc_current_got [OF inv al4 sz n])
  show ?thesis
  proof (cases r)
    case (Some p)
    have "arena_alloc_block page mmap sz (2 ^ al) a os = Some (Some p, a1, os)"
      using szn A(1) Some by (simp add: arena_alloc_block_def max_min_align [OF al] Let_def)
    then show ?thesis using A Some by (intro exI [of _ r] exI [of _ a1] exI [of _ os]) simp
  next
    case None
    have inv1: "arena_inv owner epoch N tls live n (mapped os) a1" using A(5) None by (simp add: got_block_def)
    have i1: "ar_current a1 < length (ar_chunks a1)" by (rule arena_invD(3) [OF inv1])
    have c1: "unat (ch_capacity (ar_chunks a1 ! ar_current a1)) = 2 ^ 20" "ar_chunk_size a1 = 2 ^ 20"
      using chunks_okD(1) [OF arena_invD(1) [OF inv1] i1] arena_invD(2) [OF inv1] by (simp_all add: ch_ok_def)
    have cap1: "ch_capacity (ar_chunks a1 ! ar_current a1) = 2 ^ 20" using c1(1) by (simp add: word_unat_eq_iff)
    have e: "arena_alloc_block page mmap sz (2 ^ al) a os = (case checked_add sz (2 ^ ?al) of None \<Rightarrow> Some (None, a1, os)
        | Some m \<Rightarrow> if m > 2 ^ 20 then Some (None, a1, os) else arena_advance page mmap sz (2 ^ ?al) a1 os)"
      using szn A(1) None i1 cap1 c1(2)
      by (cases "checked_add sz (2 ^ ?al)") (simp_all add: arena_alloc_block_def max_min_align [OF al] Let_def chunk_at_def)
    have fitc: "(case checked_add sz (2 ^ ?al) of None \<Rightarrow> True | Some m \<Rightarrow> m > 2 ^ 20) \<longleftrightarrow> 2 ^ 20 < unat sz + 2 ^ ?al"
    proof -
      have u: "unat ((2::usize) ^ ?al) = 2 ^ ?al" using al4 by (simp add: unat_pow2_64)
      show ?thesis
        by (cases "checked_add sz (2 ^ ?al)")
          (auto simp: checked_add_def u word_less_nat_alt unat_add_64 split: if_splits)
    qed
    show ?thesis
    proof (cases "2 ^ 20 < unat sz + 2 ^ ?al")
      case True
      then have "arena_alloc_block page mmap sz (2 ^ al) a os = Some (None, a1, os)"
        using e fitc by (auto split: option.splits)
      then show ?thesis using True A inv1 by (intro exI [of _ None] exI [of _ a1] exI [of _ os]) (simp add: got_block_def)
    next
      case False
      then have ea: "arena_alloc_block page mmap sz (2 ^ al) a os = arena_advance page mmap sz (2 ^ ?al) a1 os"
        using e fitc by (auto split: option.splits)
      have fit: "unat sz + 2 ^ ?al \<le> 2 ^ 20" using False by simp
      have used: "\<not> ch_cursor (ar_chunks a ! ar_current a) = ch_base (ar_chunks a ! ar_current a)" using A(6) None fit by blast
      show ?thesis using arena_advance_ok [OF inv1 k al4 sz n fit] grows_trans [OF A(2)] used unfolding ea A(4) by blast
    qed
  qed
qed

end
