(* ===== verification/ArenaSpan.thy ===== *)
theory ArenaSpan
  imports ArenaGrow
begin

text \<open>
  The moves of a thread's hot block keep the arena's invariant: a span is retired, carved, bumped; a batch of
  frees is noted and flushed; the arena is reset.
\<close>

lemma counts_ok_tls:
  assumes "counts_ok owner N tls live n reclaim i c" and "t < N"
    and "pin_of owner i h = pin_of owner i (tls t)" and "blk_of owner i h = blk_of owner i (tls t)"
    and "pend_of owner i h = pend_of owner i (tls t)"
  shows "counts_ok owner N (tls(t := h)) live n reclaim i c"
  using assms by (simp add: counts_ok_def sum_t_same)

lemma counts_ok_live:
  assumes "counts_ok owner N tls live n reclaim i c" and "finite live" and "live' \<subseteq> live"
  shows "counts_ok owner N tls live' n reclaim i c"
proof -
  have "card (live_in live' c) \<le> card (live_in live c)"
    using assms(2,3) by (intro card_mono) (auto simp: live_in_def)
  then show ?thesis using assms(1) by (auto simp: counts_ok_def)
qed

lemma counts_ok_desc [simp]: "counts_ok owner N tls live n reclaim i (c\<lparr>ch_desc := d\<rparr>) = counts_ok owner N tls live n reclaim i c"
  by (simp add: counts_ok_def live_in_def cspan_def)

definition dead_span :: "hot_tls \<Rightarrow> hot_tls" where
  "dead_span h = h\<lparr>span := (span h)\<lparr>span_meta := 0, span_blocks := 0, span_end := 0, span_cursor := 1\<rparr>\<rparr>"

lemma window_dead [simp]: "window owner epoch (dead_span h) = {}"
  by (simp add: window_def dead_span_def)

lemma mine_dead: "i < 2 ^ 32 \<Longrightarrow> \<not> mine owner i (dead_span h)"
  using meta_addr_nz [of i] by (auto simp: mine_def dead_span_def)

lemma dead_span_simps [simp]:
  "arena_free_owner (dead_span h) = arena_free_owner h" "arena_free_meta (dead_span h) = arena_free_meta h"
  "arena_free_base (dead_span h) = arena_free_base h" "arena_free_pending (dead_span h) = arena_free_pending h"
  "span_owner (span (dead_span h)) = span_owner (span h)" "span_meta (span (dead_span h)) = 0"
  "span_epoch (span (dead_span h)) = span_epoch (span h)" "pend_of owner i (dead_span h) = pend_of owner i h"
  by (simp_all add: dead_span_def pend_of_def)

lemma tls_ok_dead: "tls_ok owner epoch reclaim cs h \<Longrightarrow> tls_ok owner epoch reclaim cs (dead_span h)"
  by (simp add: tls_ok_def) (simp add: dead_span_def)

lemma item_dead:
  "t < N \<Longrightarrow> item owner epoch N (tls(t := dead_span h)) live = (item owner epoch N tls live)(Inr t := {})"
  by (auto simp: item_def fun_eq_iff split: sum.splits)

text \<open>Other threads are not concerned.\<close>

lemma tls_upd_ok:
  assumes "\<And>u. u < N \<Longrightarrow> tls_ok owner epoch reclaim cs (tls u)" and "u < N" and "length cs \<le> length cs'"
    and "\<And>i. i < length cs \<Longrightarrow> ch_base (cs' ! i) = ch_base (cs ! i) \<and> cused (cs ! i) \<subseteq> cused (cs' ! i)"
    and "tls_ok owner epoch reclaim cs' h"
  shows "tls_ok owner epoch reclaim cs' ((tls(t := h)) u)"
  using assms(5) tls_ok_mono [OF assms(1) [OF assms(2)] assms(3)] assms(4) by (cases "u = t") auto

section \<open>Retiring a span\<close>

definition retire_in :: "u64 \<Rightarrow> hot_tls \<Rightarrow> bump_arena \<Rightarrow> bump_arena" where
  "retire_in owner h a =
     (if span_meta (span h) \<noteq> 0 \<and> span_owner (span h) = owner
      then upd_meta (meta_index (span_meta (span h))) (retire_meta (span_blocks (span h))) a else a)"

lemma retire_in_frame [simp]:
  "length (ar_chunks (retire_in owner h a)) = length (ar_chunks a)" "ar_reclaim (retire_in owner h a) = ar_reclaim a"
  "ar_current (retire_in owner h a) = ar_current a" "ar_max_chunks (retire_in owner h a) = ar_max_chunks a"
  by (simp_all add: retire_in_def upd_meta_def upd_chunk_def)

lemma grows_retire: "grows a (retire_in owner h a)"
proof -
  have "ch_base (ar_chunks (upd_meta j f a) ! i) = ch_base (ar_chunks a ! i)" if "i < length (ar_chunks a)" for i j f
    using that by (cases "i = j") (simp_all add: upd_meta_def upd_chunk_def)
  then show ?thesis by (auto simp: grows_def retire_in_def) (simp_all add: upd_meta_def upd_chunk_def)
qed

lemma own_span_index:
  assumes inv: "arena_inv owner epoch N tls live n M a" and t: "t < N"
    and own: "span_meta (span (tls t)) \<noteq> 0" "span_owner (span (tls t)) = owner"
  obtains j where "j < length (ar_chunks a)" and "j < 2 ^ 32" and "span_meta (span (tls t)) = meta_addr j"
    and "meta_index (span_meta (span (tls t))) = j" and "mine owner j (tls t)"
    and "window owner epoch (tls t) = {} \<or> window owner epoch (tls t) \<subseteq> cused (ar_chunks a ! j)"
proof -
  obtain j where j: "j < length (ar_chunks a)" "span_meta (span (tls t)) = meta_addr j"
    "window owner epoch (tls t) = {} \<or> window owner epoch (tls t) \<subseteq> cused (ar_chunks a ! j)"
    using arena_invD(8) [OF inv t] own unfolding tls_ok_def by blast
  have "j < 2 ^ 32" using j(1) arena_invD(4,5) [OF inv] by simp
  then show thesis using that [OF j(1) _ j(2)] j meta_index_addr [of j] own by (simp add: mine_def)
qed

lemma retire_inv:
  assumes inv: "arena_inv owner epoch N tls live n M a" and t: "t < N"
  shows "arena_inv owner epoch N (tls(t := dead_span (tls t))) live n M (retire_in owner (tls t) a)"
proof -
  let ?h = "tls t" let ?tls = "tls(t := dead_span (tls t))" let ?cs = "ar_chunks a"
  note D = arena_invD [OF inv]
  have l32: "i < 2 ^ 32" if "i < length ?cs" for i using that D(4,5) by simp
  have geo: "geo ?cs (item owner epoch N ?tls live)"
    unfolding item_dead [OF t] by (rule geo_shrink [OF D(6)]) simp
  have same: "counts_ok owner N ?tls live n (ar_reclaim a) i (?cs ! i)" if "i < length ?cs" "\<not> mine owner i ?h" for i
    by (rule counts_ok_tls [OF D(7) [OF that(1)] t])
      (use that(2) mine_dead [OF l32 [OF that(1)]] in \<open>simp_all add: pin_of_def blk_of_def\<close>)
  show ?thesis
  proof (cases "span_meta (span ?h) \<noteq> 0 \<and> span_owner (span ?h) = owner")
    case False
    have nm: "\<not> mine owner i ?h" if "i < length ?cs" for i
      using False meta_addr_nz [OF l32 [OF that]] by (auto simp: mine_def)
    have "tls_ok owner epoch (ar_reclaim a) ?cs (?tls u)" if "u < N" for u
      using D(8) [OF that] D(8) [OF t] tls_ok_dead by (cases "u = t") auto
    moreover have "retire_in owner ?h a = a" unfolding retire_in_def using False by (rule if_not_P)
    ultimately show ?thesis using inv geo same nm unfolding arena_inv_def by simp
  next
    case True
    obtain j where j: "j < length ?cs" "j < 2 ^ 32" "span_meta (span ?h) = meta_addr j"
      "meta_index (span_meta (span ?h)) = j" "mine owner j ?h"
      using own_span_index [OF inv t] True by metis
    let ?c = "?cs ! j" let ?b = "span_blocks (span ?h)"
    let ?c' = "?c\<lparr>ch_meta := retire_meta ?b (ch_meta ?c)\<rparr>"
    have e: "retire_in owner ?h a = a\<lparr>ar_chunks := ?cs[j := ?c']\<rparr>"
      using True j(4) by (simp add: retire_in_def upd_meta_def upd_chunk_def)
    have C: "counts_ok owner N tls live n (ar_reclaim a) j ?c" by (rule D(7) [OF j(1)])
    have md: "\<not> mine owner j (dead_span ?h)" by (rule mine_dead [OF j(2)])
    have pin: "sum_t N (pin_of owner j) ?tls + 1 = sum_t N (pin_of owner j) tls"
      using sum_t_upd [OF t, of "pin_of owner j" tls "dead_span ?h"] j(5) md by (simp add: pin_of_def)
    have blk: "sum_t N (blk_of owner j) ?tls + unat ?b = sum_t N (blk_of owner j) tls"
      using sum_t_upd [OF t, of "blk_of owner j" tls "dead_span ?h"] j(5) md by (simp add: blk_of_def)
    have pend: "sum_t N (pend_of owner j) ?tls = sum_t N (pend_of owner j) tls" by (rule sum_t_same [OF t]) simp
    have sp: "unat (cm_spans (ch_meta ?c) - 1) = sum_t N (pin_of owner j) ?tls"
      using C pin by (simp add: counts_ok_def unat_sub word_le_nat_alt)
    have cv: "unat (cm_carved (ch_meta ?c) + ?b) = unat (cm_carved (ch_meta ?c)) + unat ?b" if "ar_reclaim a"
      using C that blk D(11) by (simp add: counts_ok_def unat_add_64)
    have lc: "live_in live ?c' = live_in live ?c" by (simp add: live_in_def cspan_def)
    have cnt: "counts_ok owner N ?tls live n (ar_reclaim a) j ?c'"
      using C sp cv blk pend lc unfolding counts_ok_def retire_meta_def by auto
    have nm: "\<not> mine owner i ?h" if "i < length ?cs" "i \<noteq> j" for i
      using that j(3) meta_addr_inj [OF l32 [OF that(1)] j(2)] by (auto simp: mine_def)
    have base: "ch_base (?cs[j := ?c'] ! i) = ch_base (?cs ! i)" "cused (?cs[j := ?c'] ! i) = cused (?cs ! i)" for i
      using j(1) by (cases "i = j"; simp add: cused_def)+
    show ?thesis
      unfolding e
    proof (rule arena_inv_chunk [OF inv j(1) _ _ _ _ cnt])
      show "geo (?cs[j := ?c']) (item owner epoch N ?tls live)" by (rule geo_mono [OF geo]) (simp_all add: base)
      show "tls_ok owner epoch (ar_reclaim a) (?cs[j := ?c']) (?tls u)" if "u < N" for u
      proof (rule tls_upd_ok [OF D(8) that])
        show "tls_ok owner epoch (ar_reclaim a) (?cs[j := ?c']) (dead_span ?h)"
          by (rule tls_ok_mono [OF tls_ok_dead [OF D(8) [OF t]]]) (simp_all add: base)
      qed (simp_all add: base)
      show "ch_ok ?c'" using chunks_okD(1) [OF D(1) j(1)] by (simp add: ch_ok_def retire_meta_def)
    qed (use D same nm in simp_all)
  qed
qed

section \<open>Carving a span\<close>

definition carve_in :: "bool \<Rightarrow> nat \<Rightarrow> usize \<Rightarrow> bump_arena \<Rightarrow> bump_arena" where
  "carve_in on i cur a =
     upd_chunk i (\<lambda>c. c\<lparr>ch_cursor := cur, ch_meta := (if on then pin_meta (ch_meta c) else ch_meta c)\<rparr>) a"

lemma grows_carve: "grows a (carve_in on i cur a)"
proof -
  have "ch_base (ar_chunks (carve_in on i cur a) ! j) = ch_base (ar_chunks a ! j)" if "j < length (ar_chunks a)" for j
    using that by (cases "i = j") (simp_all add: carve_in_def upd_chunk_def)
  then show ?thesis by (simp add: grows_def) (simp add: carve_in_def upd_chunk_def)
qed

definition span_in :: "u64 \<Rightarrow> u64 \<Rightarrow> bool \<Rightarrow> nat \<Rightarrow> usize \<Rightarrow> usize \<Rightarrow> hot_tls \<Rightarrow> hot_tls" where
  "span_in owner epoch on i lo hi h =
     h\<lparr>span := \<lparr>span_owner = owner, span_epoch = epoch, span_cursor = lo, span_end = hi,
                 span_meta = (if on then meta_addr i else 0), span_blocks = 0\<rparr>\<rparr>"

lemma span_in_simps [simp]:
  "arena_free_owner (span_in owner epoch on i lo hi h) = arena_free_owner h"
  "arena_free_meta (span_in owner epoch on i lo hi h) = arena_free_meta h"
  "arena_free_base (span_in owner epoch on i lo hi h) = arena_free_base h"
  "pend_of ow j (span_in owner epoch on i lo hi h) = pend_of ow j h"
  "blk_of ow j (span_in owner epoch on i lo hi h) = 0"
  "window owner epoch (span_in owner epoch on i lo hi h) = {unat lo ..< unat hi}"
  "span_meta (span (span_in owner epoch on i lo hi h)) = (if on then meta_addr i else 0)"
  by (simp_all add: span_in_def pend_of_def blk_of_def window_def)

lemma mine_span_in:
  "i < 2 ^ 32 \<Longrightarrow> j < 2 ^ 32 \<Longrightarrow> mine owner j (span_in owner epoch on i lo hi h) \<longleftrightarrow> on \<and> i = j"
  using meta_addr_inj [of i j] meta_addr_nz [of j] by (auto simp: mine_def span_in_def)

lemma item_span:
  "t < N \<Longrightarrow> item owner epoch N (tls(t := h)) live = (item owner epoch N tls live)(Inr t := window owner epoch h)"
  by (auto simp: item_def fun_eq_iff split: sum.splits)

lemma carve_inv:
  assumes inv: "arena_inv owner epoch N tls live n M a" and t: "t < N" and i: "i < length (ar_chunks a)"
    and idle: "\<And>j. j < length (ar_chunks a) \<Longrightarrow> \<not> mine owner j (tls t)" and on: "ar_reclaim a \<Longrightarrow> on"
    and cur: "ch_cursor (ar_chunks a ! i) \<le> lo" "lo \<le> hi" "unat hi \<le> unat (ch_base (ar_chunks a ! i)) + 2 ^ 20"
  shows "arena_inv owner epoch N (tls(t := span_in owner epoch on i lo hi (tls t))) live n M (carve_in on i hi a)"
proof -
  let ?cs = "ar_chunks a" let ?c = "?cs ! i" let ?h = "span_in owner epoch on i lo hi (tls t)"
  let ?c1 = "?c\<lparr>ch_cursor := hi\<rparr>" and ?c' = "?c\<lparr>ch_cursor := hi, ch_meta := (if on then pin_meta (ch_meta ?c) else ch_meta ?c)\<rparr>"
  note D = arena_invD [OF inv]
  have l32: "j < 2 ^ 32" if "j < length ?cs" for j using that D(4,5) by simp
  have ok: "ch_ok ?c" by (rule chunks_okD(1) [OF D(1) i])
  have le: "ch_cursor ?c \<le> hi" using cur(1,2) by (rule order_trans)
  have X: "{unat lo ..< unat hi} \<subseteq> {unat (ch_cursor ?c) ..< unat hi}" using cur(1) by (auto simp: word_le_nat_alt)
  have "geo (?cs[i := ?c1]) ((item owner epoch N tls live)(Inr t := {unat lo ..< unat hi}))"
    by (rule geo_bump(1) [OF D(6,1) i refl le X cur(3)])
  then have geo: "geo (?cs[i := ?c1]) (item owner epoch N (tls(t := ?h)) live)" by (simp add: item_span [OF t])
  have same: "cused (?cs[i := ?c'] ! j) = cused (?cs[i := ?c1] ! j)" for j
    using i by (cases "j = i") (simp_all add: cused_def)
  have grow: "ch_base (?cs[i := ?c'] ! j) = ch_base (?cs ! j)" "cused (?cs ! j) \<subseteq> cused (?cs[i := ?c'] ! j)" for j
    using i le by (cases "j = i"; auto simp: cused_def word_le_nat_alt)+
  have e: "carve_in on i hi a = a\<lparr>ar_chunks := ?cs[i := ?c']\<rparr>" by (simp add: carve_in_def upd_chunk_def)
  have C: "counts_ok owner N tls live n (ar_reclaim a) j (?cs ! j)" if "j < length ?cs" for j by (rule D(7) [OF that])
  have blk: "sum_t N (blk_of owner j) (tls(t := ?h)) = sum_t N (blk_of owner j) tls" if "j < length ?cs" for j
    by (rule sum_t_same [OF t]) (use idle [OF that] in \<open>simp add: blk_of_def [of _ _ "tls t"]\<close>)
  have pend: "sum_t N (pend_of owner j) (tls(t := ?h)) = sum_t N (pend_of owner j) tls" for j
    by (rule sum_t_same [OF t]) simp
  have pin: "sum_t N (pin_of owner j) (tls(t := ?h)) = sum_t N (pin_of owner j) tls + (if on \<and> i = j then 1 else 0)"
    if "j < length ?cs" for j
    using sum_t_upd [OF t, of "pin_of owner j" tls ?h] idle [OF that] mine_span_in [OF l32 [OF i] l32 [OF that]]
    by (simp add: pin_of_def split: if_splits)
  have few: "sum_t N (pin_of owner i) tls \<le> N"
    unfolding sum_t_def using sum_bounded_above [of "{..<N}" "\<lambda>t. pin_of owner i (tls t)" 1] by (simp add: pin_of_def)
  have "unat (cm_spans (ch_meta ?c) + 1) = unat (cm_spans (ch_meta ?c)) + 1"
    using C [OF i] few D(12) by (simp add: counts_ok_def unat_add_64)
  moreover have "live_in live ?c' = live_in live ?c" by (simp add: live_in_def cspan_def)
  ultimately have cnt: "counts_ok owner N (tls(t := ?h)) live n (ar_reclaim a) i ?c'"
    using C [OF i] pin [OF i] blk [OF i] pend [of i] by (simp add: counts_ok_def pin_meta_def)
  have out: "counts_ok owner N (tls(t := ?h)) live n (ar_reclaim a) j (?cs ! j)" if "j < length ?cs" "j \<noteq> i" for j
    using C [OF that(1)] pin [OF that(1)] blk [OF that(1)] pend [of j] that(2) by (simp add: counts_ok_def)
  have h_ok: "tls_ok owner epoch (ar_reclaim a) (?cs[i := ?c']) ?h"
  proof -
    have T: "arena_free_owner (tls t) = owner \<longrightarrow>
        (\<exists>j < length ?cs. arena_free_meta (tls t) = meta_addr j \<and> arena_free_base (tls t) = ch_base (?cs ! j))"
      using D(8) [OF t] unfolding tls_ok_def by blast
    have b: "unat hi < 2 ^ 63" "unat lo < 2 ^ 63" using cur(2,3) ok by (simp_all add: ch_ok_def word_le_nat_alt)
    have w: "{unat lo ..< unat hi} \<subseteq> cused ?c'" using cur(1) ok by (auto simp: cused_def ch_ok_def word_le_nat_alt)
    show ?thesis
      unfolding tls_ok_def
    proof (intro conjI impI)
      show "\<exists>j < length (?cs[i := ?c']). span_meta (span ?h) = meta_addr j
          \<and> (window owner epoch ?h = {} \<or> window owner epoch ?h \<subseteq> cused (?cs[i := ?c'] ! j))"
        if "span_meta (span ?h) \<noteq> 0"
        using i w that by (intro exI [of _ i]) (simp split: if_splits)
      show "span_meta (span ?h) \<noteq> 0" if "ar_reclaim a"
        using on [OF that] meta_addr_nz [OF l32 [OF i]] by (simp add: span_in_def)
      show "\<exists>j < length (?cs[i := ?c']). arena_free_meta ?h = meta_addr j \<and> arena_free_base ?h = ch_base (?cs[i := ?c'] ! j)"
        if "arena_free_owner ?h = owner" using T that grow(1) by simp
    qed (use b in \<open>simp_all add: span_in_def\<close>)
  qed
  show ?thesis
    unfolding e
  proof (rule arena_inv_chunk [OF inv i _ _ _ _ cnt out])
    show "geo (?cs[i := ?c']) (item owner epoch N (tls(t := ?h)) live)" by (rule geo_mono [OF geo]) (simp_all add: same)
    show "tls_ok owner epoch (ar_reclaim a) (?cs[i := ?c']) ((tls(t := ?h)) u)" if "u < N" for u
      by (rule tls_upd_ok [OF D(8) that _ _ h_ok]) (simp_all add: grow)
    show "ch_ok ?c'" using ok cur(3) le by (auto simp: ch_ok_def pin_meta_def)
  qed (use D in simp_all)
qed

section \<open>A bump in a span\<close>

definition bump_in :: "usize \<Rightarrow> hot_tls \<Rightarrow> hot_tls" where
  "bump_in cur h =
     h\<lparr>span := (span h)\<lparr>span_cursor := cur,
          span_blocks := (if span_meta (span h) \<noteq> 0 then span_blocks (span h) + 1 else span_blocks (span h))\<rparr>\<rparr>"

lemma bump_in_simps [simp]:
  "arena_free_owner (bump_in cur h) = arena_free_owner h" "arena_free_meta (bump_in cur h) = arena_free_meta h"
  "arena_free_base (bump_in cur h) = arena_free_base h" "pend_of ow j (bump_in cur h) = pend_of ow j h"
  "mine ow j (bump_in cur h) = mine ow j h" "pin_of ow j (bump_in cur h) = pin_of ow j h"
  "span_owner (span (bump_in cur h)) = span_owner (span h)" "span_meta (span (bump_in cur h)) = span_meta (span h)"
  "span_epoch (span (bump_in cur h)) = span_epoch (span h)" "span_end (span (bump_in cur h)) = span_end (span h)"
  "span_cursor (span (bump_in cur h)) = cur"
  "span_blocks (span (bump_in cur h)) = (if span_meta (span h) \<noteq> 0 then span_blocks (span h) + 1 else span_blocks (span h))"
  by (simp_all add: bump_in_def pend_of_def mine_def pin_of_def)

lemma bump_in_inv:
  assumes inv: "arena_inv owner epoch N tls live n M a" and t: "t < N"
    and own: "span_owner (span (tls t)) = owner" "span_epoch (span (tls t)) = epoch"
    and p: "span_cursor (span (tls t)) \<le> p" "unat cur = unat p + unat sz" "cur \<le> span_end (span (tls t))"
    and sz: "0 < unat sz" and n: "n + 1 < 2 ^ 64"
  shows "arena_inv owner epoch N (tls(t := bump_in cur (tls t))) (insert (p, sz) live) (n + 1) M a"
    and "(p, sz) \<notin> live" and "\<exists>i < length (ar_chunks a). bset (p, sz) \<subseteq> cused (ar_chunks a ! i)"
proof -
  let ?cs = "ar_chunks a" let ?h = "bump_in cur (tls t)" let ?b = "(p, sz)" let ?I = "item owner epoch N tls live"
  let ?tls = "tls(t := bump_in cur (tls t))"
  note D = arena_invD [OF inv]
  have l32: "j < 2 ^ 32" if "j < length ?cs" for j using that D(4,5) by simp
  have W: "?I (Inr t) = {unat (span_cursor (span (tls t))) ..< unat (span_end (span (tls t)))}"
    using own t by (simp add: item_def window_def)
  have W': "window owner epoch ?h = {unat cur ..< unat (span_end (span (tls t)))}"
    using own by (simp add: window_def)
  have sub: "bset ?b \<subseteq> ?I (Inr t)" "window owner epoch ?h \<subseteq> ?I (Inr t)" "bset ?b \<inter> window owner epoch ?h = {}"
    unfolding W W' using p by (auto simp: bset_def word_le_nat_alt)
  have ne: "unat p \<in> bset ?b" using sz by (simp add: bset_def)
  show nin: "?b \<notin> live"
  proof
    assume "?b \<in> live"
    then have "?I (Inl ?b) = bset ?b" by (simp add: item_def)
    moreover have "?I (Inl ?b) \<inter> ?I (Inr t) = {}" using D(6) unfolding geo_def by blast
    ultimately show False using sub(1) ne by blast
  qed
  have "geo ?cs (?I(Inr t := window owner epoch ?h, Inl ?b := bset ?b))"
    by (rule geo_move [OF D(6) _ _ sub]) (use nin in \<open>simp_all add: item_def\<close>)
  moreover have "?I(Inr t := window owner epoch ?h, Inl ?b := bset ?b) = item owner epoch N ?tls (insert ?b live)"
    using t nin by (auto simp: item_def fun_eq_iff split: sum.splits)
  ultimately have geo: "geo ?cs (item owner epoch N ?tls (insert ?b live))" by simp
  have "?I (Inr t) = {} \<or> (\<exists>i < length ?cs. ?I (Inr t) \<subseteq> cused (?cs ! i))" using D(6) unfolding geo_def by blast
  then obtain i where i: "i < length ?cs" "?I (Inr t) \<subseteq> cused (?cs ! i)" using sub(1) ne by blast
  then show "\<exists>i < length ?cs. bset ?b \<subseteq> cused (?cs ! i)" using sub(1) by blast
  have only: "j = i" if "j < length ?cs" "unat p \<in> cspan (?cs ! j)" for j
    using chunks_okD(3) [OF D(1) that(1) i(1)] that(2) ne sub(1) i(2) cused_cspan [OF chunks_okD(1) [OF D(1) i(1)]] by blast
  have p_in: "unat p \<in> cspan (?cs ! i)" using ne sub(1) i(2) cused_cspan [OF chunks_okD(1) [OF D(1) i(1)]] by blast
  have T: "tls_ok owner epoch (ar_reclaim a) ?cs (tls t)" by (rule D(8) [OF t])
  have win: "window owner epoch (tls t) = ?I (Inr t)" using t by (simp add: item_def)
  then have wne: "window owner epoch (tls t) \<noteq> {}" using sub(1) ne by auto
  have mi: "mine owner i (tls t)" if rc: "ar_reclaim a"
  proof -
    have "span_meta (span (tls t)) \<noteq> 0" using T own(1) wne rc unfolding tls_ok_def by blast
    then obtain j where j: "j < length ?cs" "mine owner j (tls t)"
      "window owner epoch (tls t) = {} \<or> window owner epoch (tls t) \<subseteq> cused (?cs ! j)"
      using own_span_index [OF inv t] own(1) by metis
    then have "unat p \<in> cspan (?cs ! j)" using wne win sub(1) ne cused_cspan [OF chunks_okD(1) [OF D(1) j(1)]] by blast
    then show ?thesis using only [OF j(1)] j(2) by simp
  qed
  have cnt: "counts_ok owner N ?tls (insert ?b live) (n + 1) (ar_reclaim a) j (?cs ! j)" if j: "j < length ?cs" for j
  proof -
    have C: "counts_ok owner N tls live n (ar_reclaim a) j (?cs ! j)" by (rule D(7) [OF j])
    have pin: "sum_t N (pin_of owner j) ?tls = sum_t N (pin_of owner j) tls" by (rule sum_t_same [OF t]) simp
    have pend: "sum_t N (pend_of owner j) ?tls = sum_t N (pend_of owner j) tls" by (rule sum_t_same [OF t]) simp
    have b: "sum_t N (blk_of owner j) ?tls + blk_of owner j (tls t) = sum_t N (blk_of owner j) tls + blk_of owner j ?h"
      by (rule sum_t_upd [OF t])
    show ?thesis
    proof (cases "ar_reclaim a")
      case False
      then show ?thesis using C pin by (simp add: counts_ok_def)
    next
      case rc: True
      have m: "mine owner i (tls t)" by (rule mi [OF rc])
      have nz: "span_meta (span (tls t)) \<noteq> 0" using m meta_addr_nz [OF l32 [OF i(1)]] by (simp add: mine_def)
      show ?thesis
      proof (cases "j = i")
        case True
        have "blk_of owner i (tls t) \<le> sum_t N (blk_of owner i) tls" by (rule sum_t_ge [OF t])
        then have "unat (span_blocks (span (tls t))) + 1 < 2 ^ 64"
          using C rc True m n by (simp add: counts_ok_def blk_of_def)
        then have "unat (span_blocks (span (tls t)) + 1) = unat (span_blocks (span (tls t))) + 1" by (simp add: unat_add_64)
        then have "sum_t N (blk_of owner i) ?tls = sum_t N (blk_of owner i) tls + 1"
          using b True m nz by (simp add: blk_of_def)
        moreover have "card (live_in (insert ?b live) (?cs ! i)) = card (live_in live (?cs ! i)) + 1"
          using p_in nin D(9) by (simp add: live_in_insert) (simp add: live_in_def)
        ultimately show ?thesis using C rc True pin pend by (simp add: counts_ok_def)
      next
        case False
        have "\<not> mine owner j (tls t)" using m False meta_addr_inj [OF l32 [OF i(1)] l32 [OF j]] by (auto simp: mine_def)
        then have "sum_t N (blk_of owner j) ?tls = sum_t N (blk_of owner j) tls" using b by (simp add: blk_of_def)
        moreover have "live_in (insert ?b live) (?cs ! j) = live_in live (?cs ! j)"
          using only [OF j] False by (auto simp: live_in_insert)
        ultimately show ?thesis using C rc pin pend by (simp add: counts_ok_def)
      qed
    qed
  qed
  have "tls_ok owner epoch (ar_reclaim a) ?cs ?h"
    unfolding tls_ok_def
  proof (intro conjI impI)
    have B: "span_epoch (span (tls t)) \<le> epoch" "unat (span_cursor (span (tls t))) < 2 ^ 63" "unat (span_end (span (tls t))) < 2 ^ 63"
      using T own(1) unfolding tls_ok_def by blast+
    show "span_epoch (span ?h) \<le> epoch" "unat (span_end (span ?h)) < 2 ^ 63" using B by simp_all
    show "unat (span_cursor (span ?h)) < 2 ^ 63" using B(3) p(3) by (simp add: word_le_nat_alt)
    show "\<exists>i < length ?cs. span_meta (span ?h) = meta_addr i \<and> (window owner epoch ?h = {} \<or> window owner epoch ?h \<subseteq> cused (?cs ! i))"
      if nz: "span_meta (span ?h) \<noteq> 0"
    proof -
      have "span_meta (span (tls t)) \<noteq> 0" using nz by simp
      then obtain j where "j < length ?cs" "span_meta (span (tls t)) = meta_addr j" "window owner epoch (tls t) \<subseteq> cused (?cs ! j)"
        using T own(1) wne unfolding tls_ok_def by blast
      then show ?thesis using sub(2) win by (intro exI [of _ j]) auto
    qed
    show "span_meta (span ?h) \<noteq> 0" if "ar_reclaim a" using T own(1) wne that unfolding tls_ok_def by auto
    show "\<exists>i < length ?cs. arena_free_meta ?h = meta_addr i \<and> arena_free_base ?h = ch_base (?cs ! i)"
      if "arena_free_owner ?h = owner" using T that unfolding tls_ok_def by simp
  qed
  then have tl: "tls_ok owner epoch (ar_reclaim a) ?cs (?tls u)" if "u < N" for u
    using D(8) [OF that] by (cases "u = t") auto
  show "arena_inv owner epoch N ?tls (insert ?b live) (n + 1) M a"
    unfolding arena_inv_def
  proof (intro conjI allI impI)
    show "\<forall>b \<in> insert ?b live. 0 < unat (snd b)" using D(10) sz by auto
    show "finite (insert ?b live)" using D(9) by simp
  qed (use D geo cnt tl n in blast)+
qed

section \<open>Freeing\<close>

text \<open>Frees that are noted in the thread's batch are taken from the live blocks.\<close>

lemma note_inv:
  assumes inv: "arena_inv owner epoch N tls live n M a" and t: "t < N" and s: "span h = span (tls t)"
    and ok: "tls_ok owner epoch (ar_reclaim a) (ar_chunks a) h" and live: "live' \<subseteq> live"
    and pend: "\<And>j. j < length (ar_chunks a) \<Longrightarrow>
      pend_of owner j h + card (live_in live' (ar_chunks a ! j)) \<le> pend_of owner j (tls t) + card (live_in live (ar_chunks a ! j))"
  shows "arena_inv owner epoch N (tls(t := h)) live' n M a"
proof -
  let ?cs = "ar_chunks a"
  note D = arena_invD [OF inv]
  have w: "window owner epoch h = window owner epoch (tls t)" using s by (simp add: window_def)
  have sh: "item owner epoch N (tls(t := h)) live' k \<subseteq> item owner epoch N tls live k" for k
    using live w by (auto simp: item_def split: sum.splits)
  have geo: "geo ?cs (item owner epoch N (tls(t := h)) live')"
    unfolding geo_def
  proof (intro conjI allI impI)
    fix k
    have "item owner epoch N tls live k = {} \<or> (\<exists>i < length ?cs. item owner epoch N tls live k \<subseteq> cused (?cs ! i))"
      using D(6) unfolding geo_def by blast
    then show "item owner epoch N (tls(t := h)) live' k = {}
        \<or> (\<exists>i < length ?cs. item owner epoch N (tls(t := h)) live' k \<subseteq> cused (?cs ! i))"
      using sh [of k] by blast
    fix k' assume "k \<noteq> k'"
    then have "item owner epoch N tls live k \<inter> item owner epoch N tls live k' = {}" using D(6) unfolding geo_def by blast
    then show "item owner epoch N (tls(t := h)) live' k \<inter> item owner epoch N (tls(t := h)) live' k' = {}"
      using sh [of k] sh [of k'] by blast
  qed
  have cnt: "counts_ok owner N (tls(t := h)) live' n (ar_reclaim a) j (?cs ! j)" if j: "j < length ?cs" for j
  proof -
    have "sum_t N (pin_of owner j) (tls(t := h)) = sum_t N (pin_of owner j) tls"
      "sum_t N (blk_of owner j) (tls(t := h)) = sum_t N (blk_of owner j) tls"
      by (rule sum_t_same [OF t], simp add: pin_of_def blk_of_def mine_def s)+
    moreover have "sum_t N (pend_of owner j) (tls(t := h)) + pend_of owner j (tls t) = sum_t N (pend_of owner j) tls + pend_of owner j h"
      by (rule sum_t_upd [OF t])
    ultimately show ?thesis using D(7) [OF j] pend [OF j] by (auto simp: counts_ok_def)
  qed
  have tl: "tls_ok owner epoch (ar_reclaim a) ?cs ((tls(t := h)) u)" if "u < N" for u
    using D(8) [OF that] ok by (cases "u = t") auto
  have fin: "finite live'" using D(9) live by (rule finite_subset [rotated])
  have pos: "\<forall>b \<in> live'. 0 < unat (snd b)" using D(10) live by blast
  show ?thesis
    unfolding arena_inv_def by (intro conjI allI impI) (use D geo cnt tl fin pos in blast)+
qed

definition flush_in :: "usize \<Rightarrow> nat \<Rightarrow> bump_arena \<Rightarrow> bump_arena" where
  "flush_in m j a = upd_meta j (\<lambda>c. c\<lparr>cm_freed := cm_freed c + m\<rparr>) a"

lemma flush_in_frame [simp]:
  "length (ar_chunks (flush_in m j a)) = length (ar_chunks a)" "ar_reclaim (flush_in m j a) = ar_reclaim a"
  "ar_current (flush_in m j a) = ar_current a" "ar_max_chunks (flush_in m j a) = ar_max_chunks a"
  by (simp_all add: flush_in_def upd_meta_def upd_chunk_def)

lemma flush_in_chunk:
  "i < length (ar_chunks a) \<Longrightarrow> ch_base (ar_chunks (flush_in m j a) ! i) = ch_base (ar_chunks a ! i)"
  "i < length (ar_chunks a) \<Longrightarrow> cspan (ar_chunks (flush_in m j a) ! i) = cspan (ar_chunks a ! i)"
  by (cases "i = j"; simp add: flush_in_def upd_meta_def upd_chunk_def cspan_def)+

lemma grows_flush: "grows a (flush_in m j a)"
  by (simp add: grows_def flush_in_chunk(1))

lemma flush_inv:
  assumes inv: "arena_inv owner epoch N tls live n M a" and t: "t < N" and j: "j < length (ar_chunks a)"
    and own: "arena_free_owner (tls t) = owner" "arena_free_meta (tls t) = meta_addr j"
  shows "arena_inv owner epoch N (tls(t := (tls t)\<lparr>arena_free_pending := 0\<rparr>)) live n M
    (flush_in (arena_free_pending (tls t)) j a)"
proof -
  let ?cs = "ar_chunks a" let ?c = "?cs ! j" let ?m = "arena_free_pending (tls t)" let ?h = "(tls t)\<lparr>arena_free_pending := 0\<rparr>"
  let ?c' = "?c\<lparr>ch_meta := (ch_meta ?c)\<lparr>cm_freed := cm_freed (ch_meta ?c) + ?m\<rparr>\<rparr>"
  note D = arena_invD [OF inv]
  have e: "flush_in ?m j a = a\<lparr>ar_chunks := ?cs[j := ?c']\<rparr>" by (simp add: flush_in_def upd_meta_def upd_chunk_def)
  have l32: "i < 2 ^ 32" if "i < length ?cs" for i using that D(4,5) by simp
  have w: "window owner epoch ?h = window owner epoch (tls t)" by (simp add: window_def)
  have it: "item owner epoch N (tls(t := ?h)) live = item owner epoch N tls live"
    using w by (auto simp: item_def fun_eq_iff split: sum.splits)
  have base: "ch_base (?cs[j := ?c'] ! i) = ch_base (?cs ! i)" "cused (?cs[j := ?c'] ! i) = cused (?cs ! i)" for i
    using j by (cases "i = j"; simp add: cused_def)+
  have sums: "sum_t N (pin_of owner i) (tls(t := ?h)) = sum_t N (pin_of owner i) tls"
    "sum_t N (blk_of owner i) (tls(t := ?h)) = sum_t N (blk_of owner i) tls" for i
    by (rule sum_t_same [OF t], simp add: pin_of_def blk_of_def mine_def)+
  have pend: "sum_t N (pend_of owner i) (tls(t := ?h)) + pend_of owner i (tls t) = sum_t N (pend_of owner i) tls" for i
    using sum_t_upd [OF t, of "pend_of owner i" tls ?h] by (simp add: pend_of_def [of _ _ ?h])
  have C: "counts_ok owner N tls live n (ar_reclaim a) i (?cs ! i)" if "i < length ?cs" for i by (rule D(7) [OF that])
  have pj: "pend_of owner j (tls t) = unat ?m" using own by (simp add: pend_of_def)
  have "unat (cm_freed (ch_meta ?c) + ?m) = unat (cm_freed (ch_meta ?c)) + unat ?m" if "ar_reclaim a"
    using C [OF j] that pend [of j] pj D(11) by (simp add: counts_ok_def unat_add_64)
  moreover have "live_in live ?c' = live_in live ?c" by (simp add: live_in_def cspan_def)
  ultimately have cnt: "counts_ok owner N (tls(t := ?h)) live n (ar_reclaim a) j ?c'"
    using C [OF j] sums [of j] pend [of j] pj by (auto simp: counts_ok_def)
  have out: "counts_ok owner N (tls(t := ?h)) live n (ar_reclaim a) i (?cs ! i)" if "i < length ?cs" for i
    using C [OF that] sums [of i] pend [of i] by (auto simp: counts_ok_def)
  have hok: "tls_ok owner epoch (ar_reclaim a) (?cs[j := ?c']) ?h"
  proof -
    have "tls_ok owner epoch (ar_reclaim a) (?cs[j := ?c']) (tls t)"
      by (rule tls_ok_mono [OF D(8) [OF t]]) (simp_all add: base)
    then show ?thesis by (simp add: tls_ok_def w)
  qed
  show ?thesis
    unfolding e
  proof (rule arena_inv_chunk [OF inv j _ _ _ _ cnt])
    show "geo (?cs[j := ?c']) (item owner epoch N (tls(t := ?h)) live)"
      unfolding it by (rule geo_mono [OF D(6)]) (simp_all add: base)
    show "tls_ok owner epoch (ar_reclaim a) (?cs[j := ?c']) ((tls(t := ?h)) u)" if "u < N" for u
      by (rule tls_upd_ok [OF D(8) that _ _ hok]) (simp_all add: base)
    show "ch_ok ?c'" using chunks_okD(1) [OF D(1) j] by (simp add: ch_ok_def)
  qed (use D out in simp_all)
qed

section \<open>Reset and publication\<close>

lemma arena_inv_publish:
  assumes inv: "arena_inv owner epoch N tls live n M a" and i: "i < length (ar_chunks a)"
  shows "arena_inv owner epoch N tls live n M (upd_chunk i (\<lambda>c. c\<lparr>ch_desc := True\<rparr>) a)"
proof -
  let ?cs = "ar_chunks a" let ?c' = "(?cs ! i)\<lparr>ch_desc := True\<rparr>"
  note D = arena_invD [OF inv]
  have base: "ch_base (?cs[i := ?c'] ! j) = ch_base (?cs ! j)" "cused (?cs[i := ?c'] ! j) = cused (?cs ! j)" for j
    using i by (cases "i = j"; simp add: cused_def)+
  show ?thesis
    unfolding upd_chunk_def
  proof (rule arena_inv_chunk [OF inv i])
    show "geo (?cs[i := ?c']) (item owner epoch N tls live)" by (rule geo_mono [OF D(6)]) (simp_all add: base)
    show "tls_ok owner epoch (ar_reclaim a) (?cs[i := ?c']) (tls u)" if "u < N" for u
      by (rule tls_ok_mono [OF D(8) [OF that]]) (simp_all add: base)
    show "ch_ok ?c'" using chunks_okD(1) [OF D(1) i] by (simp add: ch_ok_def)
  qed (use D i in simp_all)
qed

lemma reset_inv:
  assumes inv: "arena_inv owner epoch N tls live n M a" and e: "unat epoch + 1 < 2 ^ 64"
  shows "arena_inv owner (epoch + 1) N tls {} n M (arena_reset a)"
proof -
  let ?cs = "ar_chunks a" let ?r = "\<lambda>c. c\<lparr>ch_cursor := ch_base c\<rparr>"
  note D = arena_invD [OF inv]
  have up: "epoch < epoch + 1" using e by (simp add: word_less_nat_alt unat_add_64)
  have cs: "ar_chunks (arena_reset a) = map ?r ?cs" "ar_reclaim (arena_reset a) = False" "ar_current (arena_reset a) = 0"
    "ar_max_chunks (arena_reset a) = ar_max_chunks a" "ar_chunk_size (arena_reset a) = ar_chunk_size a"
    by (simp_all add: arena_reset_def)
  have none: "window owner (epoch + 1) (tls t) = {}" if "t < N" for t
  proof (cases "span_owner (span (tls t)) = owner")
    case True
    then have "span_epoch (span (tls t)) \<le> epoch" using D(8) [OF that] unfolding tls_ok_def by blast
    then show ?thesis using up by (auto simp: window_def)
  qed (simp add: window_def)
  have items: "item owner (epoch + 1) N tls {} k = {}" for k
    using none by (auto simp: item_def split: sum.splits)
  have span: "cspan (?r c) = cspan c" for c by (simp add: cspan_def)
  have ok: "chunks_ok (map ?r ?cs) M"
    using D(1) by (auto simp: chunks_ok_def span ch_ok_def)
  have cnt: "counts_ok owner N tls {} n False i (?r (?cs ! i))" if "i < length ?cs" for i
    using D(7) [OF that] by (simp add: counts_ok_def)
  have tl: "tls_ok owner (epoch + 1) False (map ?r ?cs) (tls t)" if t: "t < N" for t
    unfolding tls_ok_def
  proof (intro conjI impI)
    have T: "tls_ok owner epoch (ar_reclaim a) ?cs (tls t)" by (rule D(8) [OF t])
    { assume o: "span_owner (span (tls t)) = owner"
      have "span_epoch (span (tls t)) \<le> epoch" using T o unfolding tls_ok_def by blast
      then show "span_epoch (span (tls t)) \<le> epoch + 1" using up by simp
      show "unat (span_cursor (span (tls t))) < 2 ^ 63" "unat (span_end (span (tls t))) < 2 ^ 63"
        using T o unfolding tls_ok_def by blast+
      show "\<exists>i < length (map ?r ?cs). span_meta (span (tls t)) = meta_addr i
          \<and> (window owner (epoch + 1) (tls t) = {} \<or> window owner (epoch + 1) (tls t) \<subseteq> cused (map ?r ?cs ! i))"
        if "span_meta (span (tls t)) \<noteq> 0"
        using T o that none [OF t] unfolding tls_ok_def by auto }
    show "\<exists>i < length (map ?r ?cs). arena_free_meta (tls t) = meta_addr i \<and> arena_free_base (tls t) = ch_base (map ?r ?cs ! i)"
      if "arena_free_owner (tls t) = owner"
      using T that unfolding tls_ok_def by auto
  qed simp
  have "0 < length ?cs" using D(3) by linarith
  then show ?thesis
    unfolding arena_inv_def cs using D ok cnt tl by (simp add: items geo_def)
qed

end
