(* ===== verification/ArenaWorld.thy ===== *)
theory ArenaWorld
  imports ArenaSpan
begin

text \<open>
  The arena in its instance: the world invariant and the operations of \<open>lib.rs\<close> on it, each of which
  returns and keeps the invariant.
\<close>

section \<open>The invariant of the instance\<close>

definition chunks_known :: "arena_chunk_registry \<Rightarrow> bump_arena \<Rightarrow> bool" where
  "chunks_known r a \<longleftrightarrow> (\<forall>b m. b \<noteq> 0 \<longrightarrow> chk_lookup r b = Some m \<longrightarrow>
     (\<exists>i < length (ar_chunks a). b = ch_base (ar_chunks a ! i) \<and> m = meta_addr i))"

definition world_inv ::
  "'os arena_env \<Rightarrow> ('os \<Rightarrow> nat set) \<Rightarrow> nat \<Rightarrow> (nat \<Rightarrow> hot_tls) \<Rightarrow> block set \<Rightarrow> nat \<Rightarrow> 'os arena_world \<Rightarrow> bool"
where
  "world_inv env mapped N tls live n w \<longleftrightarrow>
     n < 2 ^ 64 \<and> N < 2 ^ 32 \<and> probe_inv (2 ^ 9) (chk_keys (aw_chunks w))
     \<and> (case aw_arena w of
          None \<Rightarrow> live = {} \<and> aw_published w = None \<and> (\<forall>b. b \<noteq> 0 \<longrightarrow> chk_lookup (aw_chunks w) b = None)
            \<and> (\<forall>t < N. span_owner (span (tls t)) \<noteq> ae_owner env \<and> arena_free_owner (tls t) \<noteq> ae_owner env)
        | Some a \<Rightarrow> arena_inv (ae_owner env) (aw_epoch w) N tls live n (mapped (aw_os w)) a
            \<and> chunks_known (aw_chunks w) a \<and> (\<forall>i. aw_published w = Some i \<longrightarrow> i < length (ar_chunks a))
            \<and> (ar_reclaim a \<longrightarrow> aw_reclaim_on w = 1))"

lemma chunks_known_grows: "chunks_known r a \<Longrightarrow> grows a a' \<Longrightarrow> chunks_known r a'"
  unfolding chunks_known_def grows_def by (metis order_less_le_trans)

lemma world_inv_NoneD:
  assumes "world_inv env mapped N tls live n w" and "aw_arena w = None"
  shows "live = {}" and "aw_published w = None" and "b \<noteq> 0 \<Longrightarrow> chk_lookup (aw_chunks w) b = None"
    and "t < N \<Longrightarrow> span_owner (span (tls t)) \<noteq> ae_owner env \<and> arena_free_owner (tls t) \<noteq> ae_owner env"
  using assms by (auto simp: world_inv_def)

lemma world_inv_SomeD:
  assumes "world_inv env mapped N tls live n w" and "aw_arena w = Some a"
  shows "arena_inv (ae_owner env) (aw_epoch w) N tls live n (mapped (aw_os w)) a" and "chunks_known (aw_chunks w) a"
    and "aw_published w = Some i \<Longrightarrow> i < length (ar_chunks a)" and "ar_reclaim a \<Longrightarrow> aw_reclaim_on w = 1"
  using assms by (auto simp: world_inv_def)

lemma world_inv_bounds:
  assumes "world_inv env mapped N tls live n w"
  shows "n < 2 ^ 64" and "N < 2 ^ 32" and "probe_inv (2 ^ 9) (chk_keys (aw_chunks w))"
  using assms by (simp_all add: world_inv_def)

text \<open>The arena is replaced by one that has only grown.\<close>

lemma world_inv_arena:
  assumes inv: "world_inv env mapped N tls live n w" and a: "aw_arena w = Some a" and g: "grows a a'"
    and inv': "arena_inv (ae_owner env) (aw_epoch w) N tls' live' n' (mapped (aw_os w)) a'"
  shows "world_inv env mapped N tls' live' n' (w\<lparr>aw_arena := Some a'\<rparr>)"
proof -
  note S = world_inv_SomeD [OF inv a]
  have "ar_reclaim a' = ar_reclaim a" "length (ar_chunks a) \<le> length (ar_chunks a')" using g by (simp_all add: grows_def)
  then show ?thesis
    using S(3,4) chunks_known_grows [OF S(2) g] world_inv_bounds [OF inv] inv' arena_invD(11) [OF inv']
    unfolding world_inv_def by (auto intro: order_less_le_trans)
qed

lemma world_inv_flags [simp]:
  "world_inv env mapped N tls live n (w\<lparr>aw_exhausted := x\<rparr>) = world_inv env mapped N tls live n w"
  by (cases "aw_arena w") (simp_all add: world_inv_def)

lemma reclaim_active_cases:
  assumes "arena_reclaim_active env w = (on, w')"
  obtains r where "w' = w\<lparr>aw_reclaim_on := r\<rparr>" and "on \<longleftrightarrow> r = 1" and "aw_reclaim_on w = 1 \<Longrightarrow> r = 1"
proof (cases "aw_reclaim_on w = 0")
  case True
  then have "w' = w\<lparr>aw_reclaim_on := (if ae_reclaim env then 1 else 2)\<rparr>" "on = ae_reclaim env"
    using assms by (auto simp: arena_reclaim_active_def)
  then show ?thesis using True by (intro that [of "if ae_reclaim env then 1 else 2"]) auto
next
  case False
  then have "w' = w" "on \<longleftrightarrow> aw_reclaim_on w = 1" using assms by (auto simp: arena_reclaim_active_def)
  then show ?thesis by (intro that [of "aw_reclaim_on w"]) simp_all
qed

lemma reclaim_active_inv:
  assumes inv: "world_inv env mapped N tls live n w" and r: "arena_reclaim_active env w = (on, w')"
  shows "world_inv env mapped N tls live n w'" and "aw_arena w' = Some a \<Longrightarrow> ar_reclaim a \<Longrightarrow> on"
    and "aw_arena w' = aw_arena w" and "aw_published w' = aw_published w" and "aw_chunks w' = aw_chunks w"
    and "aw_exhausted w' = aw_exhausted w" and "aw_headerless w' = aw_headerless w" and "aw_epoch w' = aw_epoch w"
    and "aw_os w' = aw_os w" and "on \<longleftrightarrow> aw_reclaim_on w' = 1"
proof -
  obtain q where q: "w' = w\<lparr>aw_reclaim_on := q\<rparr>" "on \<longleftrightarrow> q = 1" "aw_reclaim_on w = 1 \<Longrightarrow> q = 1"
    using reclaim_active_cases [OF r] by metis
  show "world_inv env mapped N tls live n w'" using inv q by (auto simp: world_inv_def split: option.splits)
  show "aw_arena w' = Some a \<Longrightarrow> ar_reclaim a \<Longrightarrow> on" using world_inv_SomeD(4) [OF inv] q by simp
  show "aw_arena w' = aw_arena w" "aw_published w' = aw_published w" "aw_chunks w' = aw_chunks w"
    "aw_exhausted w' = aw_exhausted w" "aw_headerless w' = aw_headerless w" "aw_epoch w' = aw_epoch w"
    "aw_os w' = aw_os w" "on \<longleftrightarrow> aw_reclaim_on w' = 1"
    using q by simp_all
qed

section \<open>Retiring and flushing\<close>

lemma with_meta_arena:
  assumes "aw_arena w = Some a" and "meta_index addr < length (ar_chunks a)"
  shows "with_meta addr f w = Some (w\<lparr>aw_arena := Some (upd_meta (meta_index addr) f a)\<rparr>)"
  using assms by (simp add: with_meta_def world_chunk_def chunk_at_def set_chunk_def upd_meta_def)

lemma retire_span_ok:
  assumes inv: "world_inv env mapped N tls live n w" and t: "t < N"
  shows "retire_span env (tls t) w = Some (w\<lparr>aw_arena := map_option (retire_in (ae_owner env) (tls t)) (aw_arena w)\<rparr>)"
    and "world_inv env mapped N (tls(t := dead_span (tls t))) live n
      (w\<lparr>aw_arena := map_option (retire_in (ae_owner env) (tls t)) (aw_arena w)\<rparr>)"
proof -
  have "retire_span env (tls t) w = Some (w\<lparr>aw_arena := map_option (retire_in (ae_owner env) (tls t)) (aw_arena w)\<rparr>)
    \<and> world_inv env mapped N (tls(t := dead_span (tls t))) live n
        (w\<lparr>aw_arena := map_option (retire_in (ae_owner env) (tls t)) (aw_arena w)\<rparr>)"
  proof (cases "aw_arena w")
    case None
    then have "span_owner (span (tls t)) \<noteq> ae_owner env" using world_inv_NoneD(4) [OF inv None t] by simp
    then show ?thesis using None inv by (simp add: retire_span_def world_inv_def)
  next
    case (Some a)
    note S = world_inv_SomeD [OF inv Some]
    have "retire_span env (tls t) w = Some (w\<lparr>aw_arena := Some (retire_in (ae_owner env) (tls t) a)\<rparr>)"
    proof (cases "span_meta (span (tls t)) \<noteq> 0 \<and> span_owner (span (tls t)) = ae_owner env")
      case True
      obtain j where j: "j < length (ar_chunks a)" "meta_index (span_meta (span (tls t))) = j"
        using own_span_index [OF S(1) t] True by metis
      then show ?thesis using True with_meta_arena [OF Some] by (simp add: retire_span_def retire_in_def)
    next
      case False
      then have "retire_in (ae_owner env) (tls t) a = a" unfolding retire_in_def by (rule if_not_P)
      moreover have "retire_span env (tls t) w = Some w" unfolding retire_span_def Let_def using False by (rule if_not_P)
      ultimately show ?thesis using Some by simp
    qed
    moreover have "world_inv env mapped N (tls(t := dead_span (tls t))) live n
        (w\<lparr>aw_arena := Some (retire_in (ae_owner env) (tls t) a)\<rparr>)"
      by (rule world_inv_arena [OF inv Some grows_retire retire_inv [OF S(1) t]])
    ultimately show ?thesis unfolding Some option.map by (rule conjI)
  qed
  then show "retire_span env (tls t) w = Some (w\<lparr>aw_arena := map_option (retire_in (ae_owner env) (tls t)) (aw_arena w)\<rparr>)"
    "world_inv env mapped N (tls(t := dead_span (tls t))) live n
        (w\<lparr>aw_arena := map_option (retire_in (ae_owner env) (tls t)) (aw_arena w)\<rparr>)"
    by blast+
qed

text \<open>A hot block whose batch is gone, of another instance or of none.\<close>

lemma drop_batch_inv:
  assumes inv: "world_inv env mapped N tls live n w" and t: "t < N" and s: "span h = span (tls t)"
    and own: "arena_free_owner h \<noteq> ae_owner env"
  shows "world_inv env mapped N (tls(t := h)) live n w"
proof (cases "aw_arena w")
  case None
  then show ?thesis using inv own s by (auto simp: world_inv_def)
next
  case (Some a)
  note S = world_inv_SomeD [OF inv Some]
  have w: "window (ae_owner env) (aw_epoch w) h = window (ae_owner env) (aw_epoch w) (tls t)" by (simp add: window_def s)
  have "tls_ok (ae_owner env) (aw_epoch w) (ar_reclaim a) (ar_chunks a) h"
    using arena_invD(8) [OF S(1) t] own by (simp add: tls_ok_def s w)
  then have "arena_inv (ae_owner env) (aw_epoch w) N (tls(t := h)) live n (mapped (aw_os w)) a"
    by (rule note_inv [OF S(1) t s _ subset_refl]) (use own in \<open>simp add: pend_of_def [of _ _ h]\<close>)
  then have "world_inv env mapped N (tls(t := h)) live n (w\<lparr>aw_arena := Some a\<rparr>)"
    by (rule world_inv_arena [OF inv Some grows_refl])
  moreover have "w\<lparr>aw_arena := Some a\<rparr> = w" using Some by (cases w) simp
  ultimately show ?thesis by simp
qed

lemma flush_batch_ok:
  assumes inv: "world_inv env mapped N tls live n w" and t: "t < N"
  obtains h w' where "arena_flush_free_batch env (tls t) w = Some (h, w')"
    and "world_inv env mapped N (tls(t := h)) live n w'" and "span h = span (tls t)" and "arena_free_pending h = 0"
    and "aw_headerless w' = aw_headerless w" and "aw_chunks w' = aw_chunks w" and "aw_published w' = aw_published w"
    and "aw_os w' = aw_os w" and "aw_epoch w' = aw_epoch w" and "aw_reclaim_on w' = aw_reclaim_on w"
    and "aw_arena w' = None \<longleftrightarrow> aw_arena w = None"
    and "\<And>a. aw_arena w = Some a \<Longrightarrow> \<exists>a'. aw_arena w' = Some a' \<and> grows a a' \<and> length (ar_chunks a') = length (ar_chunks a)
      \<and> (\<forall>i < length (ar_chunks a). cspan (ar_chunks a' ! i) = cspan (ar_chunks a ! i))"
proof -
  let ?m = "arena_free_pending (tls t)"
  consider (none) "?m = 0" | (foreign) "?m \<noteq> 0" "arena_free_owner (tls t) \<noteq> ae_owner env"
    | (own) "?m \<noteq> 0" "arena_free_owner (tls t) = ae_owner env" by blast
  then show thesis
  proof cases
    case none
    then have "arena_flush_free_batch env (tls t) w = Some (tls t, w)" by (simp add: arena_flush_free_batch_def)
    then show thesis using inv none grows_refl by (intro that [of "tls t" w]) auto
  next
    case foreign
    let ?h = "(tls t)\<lparr>arena_free_pending := 0, arena_free_base := 0\<rparr>"
    have "arena_flush_free_batch env (tls t) w = Some (?h, w)"
      using foreign by (simp add: arena_flush_free_batch_def)
    moreover have "world_inv env mapped N (tls(t := ?h)) live n w"
      by (rule drop_batch_inv [OF inv t]) (use foreign in simp_all)
    ultimately show thesis using grows_refl by (intro that [of ?h w]) auto
  next
    case own
    obtain a where a: "aw_arena w = Some a"
      using world_inv_NoneD(4) [OF inv _ t] own(2) by (cases "aw_arena w") auto
    note S = world_inv_SomeD [OF inv a]
    obtain j where j: "j < length (ar_chunks a)" "arena_free_meta (tls t) = meta_addr j"
      using arena_invD(8) [OF S(1) t] own(2) unfolding tls_ok_def by blast
    have "j < 2 ^ 32" using j(1) arena_invD(4,5) [OF S(1)] by simp
    then have ix: "meta_index (arena_free_meta (tls t)) = j" using j(2) meta_index_addr by simp
    let ?h = "(tls t)\<lparr>arena_free_pending := 0\<rparr>" let ?w1 = "w\<lparr>aw_arena := Some (flush_in ?m j a)\<rparr>"
    have wm: "with_meta (arena_free_meta (tls t)) (\<lambda>m. m\<lparr>cm_freed := cm_freed m + ?m\<rparr>) w = Some ?w1"
      using with_meta_arena [OF a] j(1) ix by (simp add: flush_in_def)
    have wc: "world_chunk j ?w1 = Some (ar_chunks (flush_in ?m j a) ! j)"
      using j(1) by (simp add: world_chunk_def chunk_at_def)
    define x where "x = (let m = ch_meta (ar_chunks (flush_in ?m j a) ! j)
      in if aw_exhausted w \<and> cm_spans m = 0 \<and> cm_freed m = cm_carved m then False else aw_exhausted w)"
    have e: "arena_flush_free_batch env (tls t) w = Some (?h, ?w1\<lparr>aw_exhausted := x\<rparr>)"
      using own wm wc ix by (simp add: arena_flush_free_batch_def Let_def x_def)
    have "world_inv env mapped N (tls(t := ?h)) live n ?w1"
      by (rule world_inv_arena [OF inv a grows_flush flush_inv [OF S(1) t j(1) own(2) j(2)]])
    then show thesis
      using a by (intro that [OF e]) (auto simp: grows_flush flush_in_chunk)
  qed
qed

section \<open>The lock-free path\<close>

lemma unpin_pin: "unpin_meta (pin_meta m) = m"
  by (cases m) (simp add: unpin_meta_def pin_meta_def)

lemma upd_chunk_twice: "i < length (ar_chunks a) \<Longrightarrow> upd_chunk i f (upd_chunk i g a) = upd_chunk i (f \<circ> g) a"
  by (simp add: upd_chunk_def)

lemma meta_cursor_swap: "c\<lparr>ch_meta := m, ch_cursor := cur\<rparr> = c\<lparr>ch_cursor := cur, ch_meta := m\<rparr>"
  by (cases c) simp

lemma upd_chunk_id: "upd_chunk i (\<lambda>c. c) a = a"
  by (simp add: upd_chunk_def)

lemma world_same_arena: "aw_arena w = Some a \<Longrightarrow> w\<lparr>aw_arena := Some a\<rparr> = w"
  by (cases w) simp

text \<open>The shared carve refuses and changes nothing, or moves the cursor of the published chunk and pins it.\<close>

lemma carve_shared_cases:
  assumes inv: "world_inv env mapped N tls live n w" and r: "arena_reclaim_active env w = (on, w1)"
  shows "arena_carve_shared env reserve w = Some (None, w) \<or> arena_carve_shared env reserve w = Some (None, w1)
    \<or> (\<exists>a i lo hi. aw_arena w = Some a \<and> aw_published w = Some i \<and> i < length (ar_chunks a)
        \<and> ch_cursor (ar_chunks a ! i) \<le> lo \<and> unat hi = unat lo + unat reserve
        \<and> unat hi \<le> unat (ch_base (ar_chunks a ! i)) + 2 ^ 20 \<and> 16 dvd unat lo \<and> hi = lo + reserve
        \<and> arena_carve_shared env reserve w =
            Some (Some (lo, if on then meta_addr i else 0), w1\<lparr>aw_arena := Some (carve_in on i hi a)\<rparr>))"
proof (cases "aw_published w")
  case None
  then show ?thesis by (simp add: arena_carve_shared_def)
next
  case (Some i)
  obtain a where a: "aw_arena w = Some a"
    using world_inv_NoneD(2) [OF inv] Some by (cases "aw_arena w") auto
  note S = world_inv_SomeD [OF inv a]
  have i: "i < length (ar_chunks a)" by (rule S(3) [OF Some])
  have a1: "aw_arena w1 = Some a" using reclaim_active_inv(3) [OF inv r] a by simp
  let ?c = "ar_chunks a ! i"
  have ok: "ch_ok ?c" by (rule chunks_okD(1) [OF arena_invD(1) [OF S(1)] i])
  let ?w2 = "if on then set_chunk i (\<lambda>c. c\<lparr>ch_meta := pin_meta (ch_meta c)\<rparr>) w1 else w1"
  have wc: "world_chunk i w = Some ?c" using a i by (simp add: world_chunk_def chunk_at_def)
  have wc2: "world_chunk i ?w2 = Some (?c\<lparr>ch_meta := (if on then pin_meta (ch_meta ?c) else ch_meta ?c)\<rparr>)"
    using a1 i by (cases on) (simp_all add: world_chunk_def chunk_at_def set_chunk_def upd_chunk_def)
  have undone: "(if on then set_chunk i (\<lambda>c. c\<lparr>ch_meta := unpin_meta (ch_meta c)\<rparr>) ?w2 else ?w2) = w1"
    using a1 i by (simp add: set_chunk_def upd_chunk_twice o_def unpin_pin upd_chunk_id world_same_arena)
  have carve: "set_chunk i (\<lambda>c. c\<lparr>ch_cursor := hi\<rparr>) ?w2 = w1\<lparr>aw_arena := Some (carve_in on i hi a)\<rparr>" for hi
    using a1 i by (cases on) (simp_all add: set_chunk_def upd_chunk_twice o_def carve_in_def meta_cursor_swap)
  have int: "cm_intent (ch_meta ?c) = 0" using ok by (simp add: ch_ok_def)
  let ?lo = "align_up (ch_cursor (ar_chunks a ! i)) MIN_ALIGN"
  have e: "arena_carve_shared env reserve w = (case checked_add ?lo reserve of None \<Rightarrow> Some (None, w1)
      | Some hi \<Rightarrow> if hi > ch_base ?c + ch_capacity ?c then Some (None, w1)
          else Some (Some (?lo, if on then meta_addr i else 0), w1\<lparr>aw_arena := Some (carve_in on i hi a)\<rparr>))"
    unfolding arena_carve_shared_def Some option.case r Let_def prod.case wc Option.bind.bind_lunit undone
    by (simp only: wc2 Option.bind.bind_lunit carve) (cases on; cases "checked_add ?lo reserve"; simp add: int pin_meta_def)
  have cr: "chunk_alloc reserve (2 ^ 4) ?c = (case checked_add ?lo reserve of None \<Rightarrow> (None, ?c)
      | Some hi \<Rightarrow> if hi > ch_base ?c + ch_capacity ?c then (None, ?c) else (Some ?lo, ?c\<lparr>ch_cursor := hi\<rparr>))"
  proof -
    have "max (2 ^ 4) MIN_ALIGN = MIN_ALIGN" by (simp add: MIN_ALIGN_def)
    then show ?thesis by (simp only: chunk_alloc_def Let_def)
  qed
  show ?thesis
  proof (cases "checked_add ?lo reserve")
    case None
    then show ?thesis using e by simp
  next
    case hi: (Some hi)
    show ?thesis
    proof (cases "hi > ch_base ?c + ch_capacity ?c")
      case True
      then show ?thesis using e hi by simp
    next
      case False
      have "chunk_alloc reserve (2 ^ 4) ?c = (Some ?lo, ?c\<lparr>ch_cursor := hi\<rparr>)" using cr hi False by simp
      from chunk_alloc_ok(1) [OF ok _ this]
      obtain cur' where k: "?c\<lparr>ch_cursor := hi\<rparr> = ?c\<lparr>ch_cursor := cur'\<rparr>" "ch_cursor ?c \<le> ?lo" "unat cur' = unat ?lo + unat reserve"
        "unat cur' \<le> unat (ch_base ?c) + 2 ^ 20" "2 ^ max 4 4 dvd unat ?lo" by auto
      have "cur' = hi" using arg_cong [OF k(1), of ch_cursor] by simp
      moreover have "hi = ?lo + reserve" using hi by (simp add: checked_add_def split: if_splits)
      moreover have "arena_carve_shared env reserve w =
          Some (Some (?lo, if on then meta_addr i else 0), w1\<lparr>aw_arena := Some (carve_in on i hi a)\<rparr>)"
        using e hi False by simp
      ultimately show ?thesis using a Some i k(2-5)
        by (intro disjI2 exI [of _ a] exI [of _ i] exI [of _ ?lo] exI [of _ hi]) simp
    qed
  qed
qed

lemma retire_carve:
  assumes "i < length (ar_chunks a)"
  shows "retire_in owner h (carve_in on i hi a) = carve_in on i hi (retire_in owner h a)"
proof -
  have m: "cm_carved (pin_meta m) = cm_carved m" for m by (simp add: pin_meta_def)
  have sw: "retire_meta k (pin_meta m) = pin_meta (retire_meta k m)" for k m
    by (cases m) (simp add: retire_meta_def pin_meta_def)
  have "upd_chunk j f (upd_chunk i g a) = upd_chunk i g (upd_chunk j f a)" if "j \<noteq> i" for j f g
    using that by (simp add: upd_chunk_def list_update_swap)
  moreover have "upd_chunk i f (upd_chunk i g a) = upd_chunk i g (upd_chunk i f a)" if "f \<circ> g = g \<circ> f" for f g
    using assms that by (simp add: upd_chunk_twice)
  ultimately have "upd_meta j (retire_meta k) (carve_in on i hi a) = carve_in on i hi (upd_meta j (retire_meta k) a)" for j k
    unfolding upd_meta_def carve_in_def by (cases "j = i") (auto simp: fun_eq_iff sw meta_cursor_swap)
  then show ?thesis by (simp add: retire_in_def)
qed

lemma align_up_unat_le:
  assumes "unat x < 2 ^ 63" and "a \<le> 62"
  shows "unat x \<le> unat (align_up x (2 ^ a))" and "unat (align_up x (2 ^ a)) < unat x + 2 ^ a" and "2 ^ a dvd unat (align_up x (2 ^ a))"
  using align_cursor [OF assms] by (simp_all add: word_le_nat_alt)

text \<open>What an allocation of \<open>sz\<close> bytes by thread \<open>t\<close> leaves behind.\<close>

definition served ::
  "'os arena_env \<Rightarrow> ('os \<Rightarrow> nat set) \<Rightarrow> nat \<Rightarrow> (nat \<Rightarrow> hot_tls) \<Rightarrow> block set \<Rightarrow> nat \<Rightarrow> nat \<Rightarrow> usize \<Rightarrow> nat \<Rightarrow>
   usize option \<Rightarrow> hot_tls \<Rightarrow> 'os arena_world \<Rightarrow> bool"
where
  "served env mapped N tls live n al sz t r h w \<longleftrightarrow>
     (case r of None \<Rightarrow> world_inv env mapped N (tls(t := h)) live n w
      | Some p \<Rightarrow> world_inv env mapped N (tls(t := h)) (insert (p, sz) live) (n + 1) w \<and> (p, sz) \<notin> live \<and> 2 ^ al dvd unat p
          \<and> (\<exists>a i. aw_arena w = Some a \<and> i < length (ar_chunks a) \<and> bset (p, sz) \<subseteq> cspan (ar_chunks a ! i)))"

lemma span_bump_ok:
  assumes inv: "world_inv env mapped N tls live n w" and t: "t < N" and al: "4 \<le> al" "al \<le> 62"
    and sz: "0 < unat sz" and n: "n + 1 < 2 ^ 64" and b: "span_bump env sz (2 ^ al) (tls t) w = Some (p, h)"
  shows "served env mapped N tls live n al sz t (Some p) h w"
proof -
  let ?s = "span (tls t)"
  have own: "span_owner ?s = ae_owner env" "span_epoch ?s = aw_epoch w" and p: "p = align_up (span_cursor ?s) (2 ^ al)"
    using b by (auto simp: span_bump_def Let_def split: if_splits option.splits)
  obtain cur where cur: "checked_add p sz = Some cur" "cur \<le> span_end ?s" "h = bump_in cur (tls t)"
    using b by (auto simp: span_bump_def Let_def bump_in_def split: if_splits option.splits)
  obtain a where a: "aw_arena w = Some a" using world_inv_NoneD(4) [OF inv _ t] own(1) by (cases "aw_arena w") auto
  note S = world_inv_SomeD [OF inv a]
  have "unat (span_cursor ?s) < 2 ^ 63" using arena_invD(8) [OF S(1) t] own(1) unfolding tls_ok_def by blast
  note A = align_cursor [OF this al(2)]
  have u: "unat cur = unat p + unat sz" by (rule checked_add_unat [OF cur(1)])
  note B = bump_in_inv [OF S(1) t own A(1) u [unfolded p] cur(2) sz n]
  obtain i where i: "i < length (ar_chunks a)" "bset (p, sz) \<subseteq> cused (ar_chunks a ! i)" using B(3) p by blast
  have "bset (p, sz) \<subseteq> cspan (ar_chunks a ! i)"
    using i(2) cused_cspan [OF chunks_okD(1) [OF arena_invD(1) [OF S(1)] i(1)]] by blast
  moreover have "world_inv env mapped N (tls(t := h)) (insert (p, sz) live) (n + 1) (w\<lparr>aw_arena := Some a\<rparr>)"
    unfolding cur(3) p by (rule world_inv_arena [OF inv a grows_refl B(1)])
  ultimately show ?thesis using a B(2) A(3) p i(1) by (auto simp: served_def world_same_arena)
qed
text \<open>What the lock-free path leaves alone.\<close>

definition calm :: "'os arena_world \<Rightarrow> 'os arena_world \<Rightarrow> bool" where
  "calm w w' \<longleftrightarrow> aw_chunks w' = aw_chunks w \<and> aw_published w' = aw_published w \<and> aw_headerless w' = aw_headerless w
     \<and> aw_epoch w' = aw_epoch w \<and> aw_os w' = aw_os w \<and> (aw_arena w' = None \<longleftrightarrow> aw_arena w = None)
     \<and> (aw_exhausted w' \<longrightarrow> aw_exhausted w)
     \<and> (\<forall>a a'. aw_arena w = Some a \<longrightarrow> aw_arena w' = Some a' \<longrightarrow> grows a a' \<and> length (ar_chunks a') = length (ar_chunks a))"

lemma calm_refl: "calm w w"
  by (simp add: calm_def grows_refl)

lemma calm_trans:
  assumes uv: "calm u v" and vw: "calm v w" shows "calm u w"
  unfolding calm_def
proof (intro conjI allI impI)
  show "aw_chunks w = aw_chunks u" "aw_published w = aw_published u" "aw_headerless w = aw_headerless u"
    "aw_epoch w = aw_epoch u" "aw_os w = aw_os u" "aw_arena w = None \<longleftrightarrow> aw_arena u = None"
    "aw_exhausted w \<Longrightarrow> aw_exhausted u"
    using assms unfolding calm_def by presburger+
  fix a c assume ac: "aw_arena u = Some a" "aw_arena w = Some c"
  then obtain b where b: "aw_arena v = Some b" using uv by (cases "aw_arena v") (auto simp: calm_def)
  then show "grows a c" "length (ar_chunks c) = length (ar_chunks a)"
    using uv vw ac grows_trans [of a b c] by (simp_all add: calm_def)
qed

lemma calm_arena:
  assumes "aw_arena w = Some a" and "grows a a'" and "length (ar_chunks a') = length (ar_chunks a)"
  shows "calm w (w\<lparr>aw_arena := Some a'\<rparr>)"
  using assms by (simp add: calm_def)

lemma calm_reclaim: "arena_reclaim_active env w = (on, w') \<Longrightarrow> calm w w'"
  by (rule reclaim_active_cases) (auto simp: calm_def grows_refl)

lemma calm_exhausted: "calm w (w\<lparr>aw_exhausted := False\<rparr>)"
  by (simp add: calm_def grows_refl)

lemma alloc_fast_ok:
  assumes inv: "world_inv env mapped N tls live n w" and t: "t < N" and al: "al \<le> 62"
    and sz: "0 < unat sz" and n: "n + 1 < 2 ^ 64"
  shows "\<exists>r h w'. arena_alloc_fast env sz (2 ^ al) (tls t) w = Some (r, h, w') \<and> calm w w'
    \<and> served env mapped N tls live n (max al 4) sz t r h w'"
proof -
  let ?A = "max al 4" let ?own = "ae_owner env"
  have A: "4 \<le> ?A" "?A \<le> 62" using al by simp_all
  note align = max_min_align [OF al]
  have same: "served env mapped N tls live n ?A sz t None (tls t) w' \<longleftrightarrow> world_inv env mapped N tls live n w'" for w'
    by (simp add: served_def)
  show ?thesis
  proof (cases "span_bump env sz (2 ^ ?A) (tls t) w")
    case (Some ph)
    obtain p h where ph: "ph = (p, h)" by force
    have "arena_alloc_fast env sz (2 ^ al) (tls t) w = Some (Some p, h, w)"
      by (simp add: arena_alloc_fast_def Let_def align Some ph)
    moreover have "served env mapped N tls live n ?A sz t (Some p) h w"
      by (rule span_bump_ok [OF inv t A sz n]) (simp add: Some ph)
    ultimately show ?thesis using calm_refl by blast
  next
    case None
    let ?want = "max sz ARENA_SPAN_BYTES"
    let ?res = "if (2 :: usize) ^ ?A > MIN_ALIGN then checked_add ?want (2 ^ ?A) else Some ?want"
    show ?thesis
    proof (cases ?res)
      case None2: None
      have "arena_alloc_fast env sz (2 ^ al) (tls t) w = Some (None, tls t, w)"
        unfolding arena_alloc_fast_def Let_def align None option.case None2 ..
      then show ?thesis using inv same calm_refl by blast
    next
      case (Some reserve)
      have e: "arena_alloc_fast env sz (2 ^ al) (tls t) w = Option.bind (arena_carve_shared env reserve w) (\<lambda>(carve, w).
        case carve of None \<Rightarrow> Some (None, tls t, w)
        | Some (base, meta) \<Rightarrow> Option.bind (retire_span env (tls t) w) (\<lambda>w.
            Some (Some (align_up base (2 ^ ?A)),
              (tls t)\<lparr>span := \<lparr>span_owner = ?own, span_epoch = aw_epoch w, span_cursor = align_up base (2 ^ ?A) + sz,
                  span_end = base + reserve, span_meta = meta, span_blocks = (if meta \<noteq> 0 then 1 else 0)\<rparr>\<rparr>, w)))"
        unfolding arena_alloc_fast_def Let_def align None option.case Some ..
      obtain on w1 where r: "arena_reclaim_active env w = (on, w1)" by force
      note R = reclaim_active_inv [OF inv r]
      from carve_shared_cases [OF inv r, of reserve] consider
        (keep) "arena_carve_shared env reserve w = Some (None, w)" | (miss) "arena_carve_shared env reserve w = Some (None, w1)"
        | (hit) a i lo hi where "aw_arena w = Some a" "aw_published w = Some i" "i < length (ar_chunks a)"
            "ch_cursor (ar_chunks a ! i) \<le> lo" "unat hi = unat lo + unat reserve"
            "unat hi \<le> unat (ch_base (ar_chunks a ! i)) + 2 ^ 20" "16 dvd unat lo" "hi = lo + reserve"
            "arena_carve_shared env reserve w =
              Some (Some (lo, if on then meta_addr i else 0), w1\<lparr>aw_arena := Some (carve_in on i hi a)\<rparr>)"
        by blast
      then show ?thesis
      proof cases
        case keep
        then have "arena_alloc_fast env sz (2 ^ al) (tls t) w = Some (None, tls t, w)" using e by simp
        then show ?thesis using inv same calm_refl by blast
      next
        case miss
        then have "arena_alloc_fast env sz (2 ^ al) (tls t) w = Some (None, tls t, w1)" using e by simp
        then show ?thesis using R(1) same calm_reclaim [OF r] by blast
      next
        case (hit a i lo hi)
        note S = world_inv_SomeD [OF inv hit(1)]
        have a1: "aw_arena w1 = Some a" using R(3) hit(1) by simp
        note S1 = world_inv_SomeD [OF R(1) a1]
        let ?a2 = "retire_in ?own (tls t) a" and ?d = "dead_span (tls t)"
        let ?a3 = "carve_in on i hi ?a2"
        have inv2: "arena_inv ?own (aw_epoch w1) N (tls(t := ?d)) live n (mapped (aw_os w1)) ?a2"
          by (rule retire_inv [OF S1(1) t])
        have i2: "i < length (ar_chunks ?a2)" using hit(3) by simp
        have c2: "ch_cursor (ar_chunks ?a2 ! i) = ch_cursor (ar_chunks a ! i)" "ch_base (ar_chunks ?a2 ! i) = ch_base (ar_chunks a ! i)"
          using hit(3) by (cases "meta_index (span_meta (span (tls t))) = i"; simp add: retire_in_def upd_meta_def upd_chunk_def)+
        have idle: "\<not> mine ?own j ((tls(t := ?d)) t)" if "j < length (ar_chunks ?a2)" for j
        proof -
          have "j < 2 ^ 32" using that arena_invD(4,5) [OF inv2] by simp
          then show ?thesis using mine_dead by simp
        qed
        have on: "ar_reclaim ?a2 \<Longrightarrow> on" using R(2) [OF a1] by simp
        let ?tls3 = "tls(t := span_in ?own (aw_epoch w1) on i lo hi ?d)"
        have lohi: "lo \<le> hi" using hit(5) by (simp add: word_le_nat_alt)
        have "arena_inv ?own (aw_epoch w1) N ((tls(t := ?d))(t := span_in ?own (aw_epoch w1) on i lo hi ((tls(t := ?d)) t))) live n
            (mapped (aw_os w1)) ?a3"
          by (rule carve_inv [OF inv2 t i2 idle on]) (use hit(4,6) lohi c2 in simp_all)
        then have inv3: "arena_inv ?own (aw_epoch w1) N ?tls3 live n (mapped (aw_os w1)) ?a3" by simp
        let ?p = "align_up lo (2 ^ ?A)" let ?cur = "?p + sz"
        let ?h = "bump_in ?cur (?tls3 t)"
        have base: "unat (ch_base (ar_chunks a ! i)) + 2 ^ 20 < 2 ^ 63"
          using chunks_okD(1) [OF arena_invD(1) [OF S(1)] hit(3)] by (simp add: ch_ok_def)
        have lo63: "unat lo < 2 ^ 63" using hit(5,6) base by linarith
        note P = align_cursor [OF lo63 A(2)]
        have uA: "unat ((2 :: usize) ^ ?A) = 2 ^ ?A" using A by (simp add: unat_pow2_64)
        have szw: "unat sz \<le> unat ?want" by (simp add: max_def word_le_nat_alt)
        have fit: "unat ?p + unat sz \<le> unat hi"
        proof (cases "(2 :: usize) ^ ?A > MIN_ALIGN")
          case True
          then have "unat reserve = unat ?want + 2 ^ ?A" using Some checked_add_unat [of ?want "2 ^ ?A" reserve] uA by simp
          then show ?thesis using P(2) hit(5) szw by linarith
        next
          case False
          have "?A = 4"
          proof (rule ccontr)
            assume "?A \<noteq> 4"
            then have "(2::nat) ^ 5 \<le> 2 ^ ?A" using A by (intro power_increasing) auto
            then show False using False uA by (simp add: word_less_nat_alt MIN_ALIGN_def)
          qed
          moreover have "align_up lo (2 ^ 4) = lo"
            using hit(7) lo63 is_aligned_unat [of lo 4] by (intro align_up_id) simp_all
          ultimately have "?p = lo" by simp
          then show ?thesis using Some False hit(5) szw by simp
        qed
        have ucur: "unat ?cur = unat ?p + unat sz" using fit hit(6) base by (simp add: unat_add_64)
        have B1: "span_owner (span (?tls3 t)) = ?own" "span_epoch (span (?tls3 t)) = aw_epoch w1" "span_cursor (span (?tls3 t)) \<le> ?p"
          "?cur \<le> span_end (span (?tls3 t))"
          using P(1) ucur fit by (simp_all add: span_in_def word_le_nat_alt)
        note B = bump_in_inv [OF inv3 t B1(1,2,3) ucur B1(4) sz n]
        have hh: "?h = (tls t)\<lparr>span := \<lparr>span_owner = ?own, span_epoch = aw_epoch w1, span_cursor = ?cur,
            span_end = lo + reserve, span_meta = (if on then meta_addr i else 0),
            span_blocks = (if (if on then meta_addr i else 0) \<noteq> 0 then 1 else 0)\<rparr>\<rparr>"
          using hit(8) by (simp add: bump_in_def span_in_def dead_span_def)
        let ?w3 = "w1\<lparr>aw_arena := Some (retire_in ?own (tls t) (carve_in on i hi a))\<rparr>"
        have rc: "retire_in ?own (tls t) (carve_in on i hi a) = ?a3" by (rule retire_carve [OF hit(3)])
        have "retire_span env (tls t) (w1\<lparr>aw_arena := Some (carve_in on i hi a)\<rparr>) = Some ?w3"
        proof (cases "span_meta (span (tls t)) \<noteq> 0 \<and> span_owner (span (tls t)) = ?own")
          case True
          obtain j where "j < length (ar_chunks a)" "meta_index (span_meta (span (tls t))) = j"
            using own_span_index [OF S(1) t] True by metis
          then have "meta_index (span_meta (span (tls t))) < length (ar_chunks (carve_in on i hi a))"
            by (simp add: carve_in_def upd_chunk_def)
          then show ?thesis using True with_meta_arena [of "w1\<lparr>aw_arena := Some (carve_in on i hi a)\<rparr>"]
            by (simp add: retire_span_def retire_in_def Let_def)
        next
          case False
          then have "retire_in ?own (tls t) (carve_in on i hi a) = carve_in on i hi a" unfolding retire_in_def by (rule if_not_P)
          moreover have "retire_span env (tls t) (w1\<lparr>aw_arena := Some (carve_in on i hi a)\<rparr>) = Some (w1\<lparr>aw_arena := Some (carve_in on i hi a)\<rparr>)"
            unfolding retire_span_def Let_def using False by (rule if_not_P)
          ultimately show ?thesis by simp
        qed
        then have fin: "arena_alloc_fast env sz (2 ^ al) (tls t) w = Some (Some ?p, ?h, ?w3)"
          unfolding e hit(9) hh by simp
        have g: "grows a ?a3" using grows_trans [OF grows_retire grows_carve] by blast
        have l: "length (ar_chunks ?a3) = length (ar_chunks a)" by (simp add: carve_in_def upd_chunk_def)
        have "calm w1 ?w3" unfolding rc by (rule calm_arena [OF a1 g l])
        then have cw: "calm w ?w3" using calm_trans [OF calm_reclaim [OF r]] by blast
        have "world_inv env mapped N (?tls3(t := ?h)) (insert (?p, sz) live) (n + 1) (w1\<lparr>aw_arena := Some ?a3\<rparr>)"
          by (rule world_inv_arena [OF R(1) a1 g B(1)])
        then have W: "world_inv env mapped N (tls(t := ?h)) (insert (?p, sz) live) (n + 1) ?w3" unfolding rc by simp
        obtain k where k: "k < length (ar_chunks ?a3)" "bset (?p, sz) \<subseteq> cused (ar_chunks ?a3 ! k)" using B(3) by blast
        have "bset (?p, sz) \<subseteq> cspan (ar_chunks ?a3 ! k)"
          using k(2) cused_cspan [OF chunks_okD(1) [OF arena_invD(1) [OF inv3] k(1)]] by blast
        then have "served env mapped N tls live n ?A sz t (Some ?p) ?h ?w3"
          using W B(2) P(3) k(1) unfolding served_def rc option.case by auto
        then show ?thesis using fin cw by blast
      qed
    qed
  qed
qed

text \<open>Flushing a batch and noting a free are calm, whatever the state.\<close>

lemma with_meta_calm:
  assumes "with_meta addr f w = Some w'" shows "calm w w'"
proof -
  let ?j = "meta_index addr"
  obtain a where a: "aw_arena w = Some a" "?j < length (ar_chunks a)"
    using assms by (auto simp: with_meta_def world_chunk_def chunk_at_def bind_eq_Some_conv split: option.splits if_splits)
  have "grows a (upd_meta ?j f a)"
  proof -
    have "ch_base (ar_chunks (upd_meta ?j f a) ! i) = ch_base (ar_chunks a ! i)" if "i < length (ar_chunks a)" for i
      using that by (cases "i = ?j") (simp_all add: upd_meta_def upd_chunk_def)
    then show ?thesis by (simp add: grows_def) (simp add: upd_meta_def upd_chunk_def)
  qed
  moreover have "w' = w\<lparr>aw_arena := Some (upd_meta ?j f a)\<rparr>" using with_meta_arena [OF a] assms by simp
  ultimately show ?thesis using calm_arena [OF a(1)] by (simp add: upd_meta_def upd_chunk_def)
qed

lemma flush_calm:
  assumes "arena_flush_free_batch env h w = Some (h', w')" shows "calm w w'"
proof (cases "arena_free_pending h = 0 \<or> arena_free_owner h \<noteq> ae_owner env")
  case True
  then have "w' = w" using assms by (auto simp: arena_flush_free_batch_def Let_def split: if_splits)
  then show ?thesis using calm_refl by simp
next
  case False
  then obtain w1 where w1: "with_meta (arena_free_meta h) (\<lambda>m. m\<lparr>cm_freed := cm_freed m + arena_free_pending h\<rparr>) w = Some w1"
    "w' = w1 \<or> w' = w1\<lparr>aw_exhausted := False\<rparr>"
    using assms by (auto simp: arena_flush_free_batch_def Let_def bind_eq_Some_conv split: if_splits)
  show ?thesis using w1(2) with_meta_calm [OF w1(1)] calm_trans [OF _ calm_exhausted] by blast
qed

lemma note_free_calm:
  assumes "arena_note_free env p h w = Some (h', w')" shows "calm w w'"
proof -
  obtain on w1 where r: "arena_reclaim_active env w = (on, w1)" by force
  have last: "calm v w'" if "(if aw_exhausted v then arena_flush_free_batch env g v else Some (g, v)) = Some (h', w')" for g v
    using that flush_calm calm_refl by (auto split: if_splits)
  have "calm w1 w'"
  proof (cases "\<not> on")
    case True
    then show ?thesis using assms r calm_refl by (simp add: arena_note_free_def)
  next
    case on: False
    show ?thesis
    proof (cases "arena_free_base h = chunk_base_of p \<and> arena_free_owner h = ae_owner env")
      case True
      then show ?thesis using assms r on last by (simp add: arena_note_free_def Let_def)
    next
      case False
      then obtain g v where f: "arena_flush_free_batch env h w1 = Some (g, v)"
        "(case chk_lookup (aw_chunks v) (chunk_base_of p) of None \<Rightarrow> Some (g, v)
          | Some meta \<Rightarrow> (\<lambda>(h, w). if aw_exhausted w then arena_flush_free_batch env h w else Some (h, w))
              (g\<lparr>arena_free_base := chunk_base_of p, arena_free_meta := meta, arena_free_owner := ae_owner env,
                arena_free_pending := 1\<rparr>, v)) = Some (h', w')"
        using assms r on by (auto simp: arena_note_free_def Let_def bind_eq_Some_conv)
      have "calm v w'" using f(2) last calm_refl by (auto split: option.splits)
      then show ?thesis using calm_trans [OF flush_calm [OF f(1)]] by blast
    qed
  qed
  then show ?thesis using calm_trans [OF calm_reclaim [OF r]] by blast
qed

end
