(* ===== verification/ArenaSafety.thy ===== *)
theory ArenaSafety
  imports ArenaWorld SlabSafety
begin

text \<open>
  Freeing, the slow path, reset and direct allocation keep the invariant of the instance; the runs of the
  arena over any threads, and its properties.
\<close>

section \<open>Freeing\<close>

lemma chunk_base_of_in:
  assumes "ch_ok c" and "unat p \<in> cspan c"
  shows "chunk_base_of p = ch_base c"
proof -
  have "CHUNK_BYTES - 1 = mask 20"
    by (simp add: CHUNK_BYTES_def DEFAULT_CHUNK_SIZE_def mask_eq_exp_minus_1 push_bit_eq_mult)
  then have "unat (chunk_base_of p) = unat p div 2 ^ 20 * 2 ^ 20"
    unfolding chunk_base_of_def by (simp only: unat_and_not_mask)
  moreover obtain k where k: "unat (ch_base c) = 2 ^ 20 * k" using assms(1) by (auto simp: ch_ok_def dvd_def)
  moreover have "2 ^ 20 * k \<le> unat p" "unat p < 2 ^ 20 * k + 2 ^ 20"
    using assms k by (auto simp: cspan_def ch_ok_def)
  then have "unat p div 2 ^ 20 = k" by (intro div_nat_eqI) (simp_all add: mult.commute)
  ultimately have "unat (chunk_base_of p) = unat (ch_base c)" by simp
  then show ?thesis by (simp add: word_unat_eq_iff)
qed

lemma live_in_remove:
  assumes "finite live" and "b \<in> live"
  shows "card (live_in (live - {b}) c) + (if unat (fst b) \<in> cspan c then 1 else 0) = card (live_in live c)"
proof (cases "unat (fst b) \<in> cspan c")
  case True
  then have "live_in (live - {b}) c = live_in live c - {b}" "b \<in> live_in live c" using assms(2) by (auto simp: live_in_def)
  moreover have "finite (live_in live c)" using assms(1) by (simp add: live_in_def)
  ultimately show ?thesis using True card_Suc_Diff1 [of "live_in live c" b] by simp
next
  case False
  then have "live_in (live - {b}) c = live_in live c" by (auto simp: live_in_def)
  then show ?thesis using False by simp
qed

text \<open>A free of \<open>b\<close> that is noted for the chunk of \<open>b\<close>, or for none.\<close>

lemma note_world_inv:
  assumes inv: "world_inv env mapped N tls live n w" and t: "t < N" and b: "b \<in> live" and a: "aw_arena w = Some a"
    and s: "span h = span (tls t)" and i: "i < length (ar_chunks a)" "unat (fst b) \<in> cspan (ar_chunks a ! i)"
    and own: "arena_free_owner h = ae_owner env \<Longrightarrow>
      \<exists>j < length (ar_chunks a). arena_free_meta h = meta_addr j \<and> arena_free_base h = ch_base (ar_chunks a ! j)"
    and pend: "\<And>j. j < length (ar_chunks a) \<Longrightarrow>
      pend_of (ae_owner env) j h \<le> pend_of (ae_owner env) j (tls t) + (if j = i then 1 else 0)"
  shows "world_inv env mapped N (tls(t := h)) (live - {b}) n w"
proof -
  note S = world_inv_SomeD [OF inv a]
  note D = arena_invD [OF S(1)]
  have w: "window (ae_owner env) (aw_epoch w) h = window (ae_owner env) (aw_epoch w) (tls t)" by (simp add: window_def s)
  have ok: "tls_ok (ae_owner env) (aw_epoch w) (ar_reclaim a) (ar_chunks a) h"
    using D(8) [OF t] own by (simp add: tls_ok_def s w)
  have "arena_inv (ae_owner env) (aw_epoch w) N (tls(t := h)) (live - {b}) n (mapped (aw_os w)) a"
  proof (rule note_inv [OF S(1) t s ok])
    fix j assume j: "j < length (ar_chunks a)"
    show "pend_of (ae_owner env) j h + card (live_in (live - {b}) (ar_chunks a ! j))
        \<le> pend_of (ae_owner env) j (tls t) + card (live_in live (ar_chunks a ! j))"
      using pend [OF j] i live_in_remove [OF D(9) b, of "ar_chunks a ! j"] by (auto split: if_splits)
  qed blast
  then have "world_inv env mapped N (tls(t := h)) (live - {b}) n (w\<lparr>aw_arena := Some a\<rparr>)"
    by (rule world_inv_arena [OF inv a grows_refl])
  then show ?thesis using a by (simp add: world_same_arena)
qed

lemma live_chunk:
  assumes inv: "world_inv env mapped N tls live n w" and b: "b \<in> live"
  obtains a i where "aw_arena w = Some a" and "i < length (ar_chunks a)" and "bset b \<subseteq> cspan (ar_chunks a ! i)"
    and "unat (fst b) \<in> cspan (ar_chunks a ! i)" and "ch_ok (ar_chunks a ! i)"
proof -
  obtain a where a: "aw_arena w = Some a" using world_inv_NoneD(1) [OF inv] b by (cases "aw_arena w") auto
  note S = world_inv_SomeD [OF inv a]
  obtain i where i: "i < length (ar_chunks a)" "unat (fst b) \<in> bset b" "bset b \<subseteq> cspan (ar_chunks a ! i)"
    by (rule live_in_M [OF S(1) b])
  then show thesis using that [OF a i(1,3)] chunks_okD(1) [OF arena_invD(1) [OF S(1)] i(1)] by blast
qed

lemma flush_if_exhausted:
  assumes "world_inv env mapped N tls live n w" and "t < N"
  shows "\<exists>h w'. (if aw_exhausted w then arena_flush_free_batch env (tls t) w else Some (tls t, w)) = Some (h, w')
    \<and> world_inv env mapped N (tls(t := h)) live n w'"
proof (cases "aw_exhausted w")
  case True
  obtain h w' where "arena_flush_free_batch env (tls t) w = Some (h, w')" "world_inv env mapped N (tls(t := h)) live n w'"
    by (rule flush_batch_ok [OF assms])
  then show ?thesis using True by simp
qed (use assms in simp)

lemma note_free_ok:
  assumes inv: "world_inv env mapped N tls live n w" and t: "t < N" and b: "b \<in> live" and q: "unat q \<in> bset b"
  shows "\<exists>h w'. arena_note_free env q (tls t) w = Some (h, w') \<and> world_inv env mapped N (tls(t := h)) (live - {b}) n w'"
proof -
  let ?own = "ae_owner env"
  obtain a i where a: "aw_arena w = Some a" and i: "i < length (ar_chunks a)" "bset b \<subseteq> cspan (ar_chunks a ! i)"
    "unat (fst b) \<in> cspan (ar_chunks a ! i)" "ch_ok (ar_chunks a ! i)"
    by (rule live_chunk [OF inv b])
  have base: "chunk_base_of q = ch_base (ar_chunks a ! i)" using chunk_base_of_in [OF i(4)] i(2) q by blast
  obtain on w1 where r: "arena_reclaim_active env w = (on, w1)" by force
  note R = reclaim_active_inv [OF inv r]
  have a1: "aw_arena w1 = Some a" using R(3) a by simp
  note S1 = world_inv_SomeD [OF R(1) a1]
  have drop: "world_inv env mapped N tls (live - {b}) n w1"
    using note_world_inv [OF R(1) t b a1 refl i(1,3)] arena_invD(8) [OF S1(1) t] unfolding tls_ok_def by simp
  show ?thesis
  proof (cases on)
    case False
    then show ?thesis using r drop by (simp add: arena_note_free_def)
  next
    case on: True
    show ?thesis
    proof (cases "arena_free_base (tls t) = chunk_base_of q \<and> arena_free_owner (tls t) = ?own")
      case True
      let ?h = "(tls t)\<lparr>arena_free_pending := arena_free_pending (tls t) + 1\<rparr>"
      have own: "\<exists>j < length (ar_chunks a). arena_free_meta (tls t) = meta_addr j \<and> arena_free_base (tls t) = ch_base (ar_chunks a ! j)"
        using arena_invD(8) [OF S1(1) t] True unfolding tls_ok_def by blast
      then obtain j where j: "j < length (ar_chunks a)" "arena_free_meta (tls t) = meta_addr j" "ch_base (ar_chunks a ! j) = ch_base (ar_chunks a ! i)"
        using True base by auto
      have ji: "j = i" by (rule chunk_base_inj [OF arena_invD(1) [OF S1(1)] j(1) i(1) j(3)])
      have l: "k < 2 ^ 32" if "k < length (ar_chunks a)" for k using that arena_invD(4,5) [OF S1(1)] by simp
      have "unat (x + 1) \<le> unat x + 1" for x :: usize by (simp add: unat_word_ariths) 
      then have pend: "pend_of ?own k ?h \<le> pend_of ?own k (tls t) + (if k = i then 1 else 0)" if "k < length (ar_chunks a)" for k
        using j(2) ji meta_addr_inj [OF l [OF i(1)] l [OF that]] by (auto simp: pend_of_def)
      have "world_inv env mapped N (tls(t := ?h)) (live - {b}) n w1"
        by (rule note_world_inv [OF R(1) t b a1 _ i(1,3) _ pend]) (use own in simp_all)
      from flush_if_exhausted [OF this t] show ?thesis
        using on True r by (cases "aw_exhausted w1") (simp_all add: arena_note_free_def Let_def)
    next
      case False
      obtain h2 w2 where F: "arena_flush_free_batch env (tls t) w1 = Some (h2, w2)" "world_inv env mapped N (tls(t := h2)) live n w2"
        "span h2 = span (tls t)" "arena_free_pending h2 = 0" "aw_chunks w2 = aw_chunks w1"
        "\<And>a. aw_arena w1 = Some a \<Longrightarrow> \<exists>a'. aw_arena w2 = Some a' \<and> grows a a' \<and> length (ar_chunks a') = length (ar_chunks a)
          \<and> (\<forall>i < length (ar_chunks a). cspan (ar_chunks a' ! i) = cspan (ar_chunks a ! i))"
        by (rule flush_batch_ok [OF R(1) t]) blast
      obtain a2 where a2: "aw_arena w2 = Some a2" "grows a a2" "length (ar_chunks a2) = length (ar_chunks a)"
        "\<forall>i < length (ar_chunks a). cspan (ar_chunks a2 ! i) = cspan (ar_chunks a ! i)"
        using F(6) [OF a1] by blast
      note S2 = world_inv_SomeD [OF F(2) a2(1)]
      have i2: "i < length (ar_chunks a2)" "unat (fst b) \<in> cspan (ar_chunks a2 ! i)" using i a2(3,4) by simp_all
      have bi: "ch_base (ar_chunks a2 ! i) = chunk_base_of q" using a2(2) i(1) base by (simp add: grows_def)
      have bz: "chunk_base_of q \<noteq> 0" using base i(4) by (simp add: ch_ok_def)
      have e: "arena_note_free env q (tls t) w = (case chk_lookup (aw_chunks w2) (chunk_base_of q) of None \<Rightarrow> Some (h2, w2)
          | Some m \<Rightarrow> (let h = h2\<lparr>arena_free_base := chunk_base_of q, arena_free_meta := m, arena_free_owner := ?own,
                arena_free_pending := 1\<rparr> in if aw_exhausted w2 then arena_flush_free_batch env h w2 else Some (h, w2)))"
        using on False r F(1) by (auto simp: arena_note_free_def Let_def split: option.splits)
      show ?thesis
      proof (cases "chk_lookup (aw_chunks w2) (chunk_base_of q)")
        case None
        have "\<exists>j < length (ar_chunks a2). arena_free_meta ((tls(t := h2)) t) = meta_addr j
            \<and> arena_free_base ((tls(t := h2)) t) = ch_base (ar_chunks a2 ! j)" if "arena_free_owner h2 = ?own"
          using arena_invD(8) [OF S2(1) t] that unfolding tls_ok_def by simp
        then have "world_inv env mapped N ((tls(t := h2))(t := h2)) (live - {b}) n w2"
          by (intro note_world_inv [OF F(2) t b a2(1) _ i2]) simp_all
        then show ?thesis using e None by simp
      next
        case (Some m)
        obtain j where j: "j < length (ar_chunks a2)" "ch_base (ar_chunks a2 ! j) = chunk_base_of q" "m = meta_addr j"
          using S2(2) Some bz unfolding chunks_known_def by metis
        have ji: "j = i" using chunk_base_inj [OF arena_invD(1) [OF S2(1)] j(1) i2(1)] j(2) bi by simp
        let ?h = "h2\<lparr>arena_free_base := chunk_base_of q, arena_free_meta := m, arena_free_owner := ?own, arena_free_pending := 1\<rparr>"
        have l: "k < 2 ^ 32" if "k < length (ar_chunks a2)" for k using that arena_invD(4,5) [OF S2(1)] by simp
        have pend: "pend_of ?own k ?h \<le> pend_of ?own k ((tls(t := h2)) t) + (if k = i then 1 else 0)"
          if "k < length (ar_chunks a2)" for k
          using j(3) ji meta_addr_inj [OF l [OF i2(1)] l [OF that]] by (auto simp: pend_of_def)
        have "world_inv env mapped N ((tls(t := h2))(t := ?h)) (live - {b}) n w2"
          by (rule note_world_inv [OF F(2) t b a2(1) _ i2 _ pend]) (use j in auto)
        then have "world_inv env mapped N (tls(t := ?h)) (live - {b}) n w2" by simp
        from flush_if_exhausted [OF this t] show ?thesis using e Some by (cases "aw_exhausted w2") (simp_all add: Let_def)
      qed
    qed
  qed
qed

section \<open>The slow path\<close>

lemma world_inv_mono: "world_inv env mapped N tls live n w \<Longrightarrow> n \<le> n' \<Longrightarrow> n' < 2 ^ 64 \<Longrightarrow> world_inv env mapped N tls live n' w"
  by (cases "aw_arena w") (auto simp: world_inv_def arena_inv_def counts_ok_def)

lemma world_inv_fewer:
  assumes inv: "world_inv env mapped N tls live n w" and t: "t < N" and sub: "live' \<subseteq> live"
  shows "world_inv env mapped N tls live' n w"
proof (cases "aw_arena w")
  case None
  then show ?thesis using inv sub by (simp add: world_inv_def)
next
  case (Some a)
  note S = world_inv_SomeD [OF inv Some]
  note D = arena_invD [OF S(1)]
  have "arena_inv (ae_owner env) (aw_epoch w) N (tls(t := tls t)) live' n (mapped (aw_os w)) a"
  proof (rule note_inv [OF S(1) t refl D(8) [OF t] sub])
    fix j
    have "card (live_in live' (ar_chunks a ! j)) \<le> card (live_in live (ar_chunks a ! j))"
      using sub D(9) by (intro card_mono) (auto simp: live_in_def)
    then show "pend_of (ae_owner env) j (tls t) + card (live_in live' (ar_chunks a ! j))
        \<le> pend_of (ae_owner env) j (tls t) + card (live_in live (ar_chunks a ! j))" by simp
  qed
  then have "world_inv env mapped N tls live' n (w\<lparr>aw_arena := Some a\<rparr>)"
    by (intro world_inv_arena [OF inv Some grows_refl]) simp
  then show ?thesis using Some by (simp add: world_same_arena)
qed

lemma clear_blockers_ok:
  assumes inv: "world_inv env mapped N tls live n w" and t: "t < N"
  shows "\<exists>h w'. arena_clear_own_blockers env (tls t) w = Some (h, w') \<and> world_inv env mapped N (tls(t := h)) live n w'
    \<and> aw_chunks w' = aw_chunks w \<and> calm w w'"
proof -
  obtain on w1 where r: "arena_reclaim_active env w = (on, w1)" by force
  note R = reclaim_active_inv [OF inv r]
  show ?thesis
  proof (cases "on \<and> ae_self_flush env")
    case False
    then have "arena_clear_own_blockers env (tls t) w = Some (tls t, w1)" using r by (auto simp: arena_clear_own_blockers_def)
    then show ?thesis using R calm_reclaim [OF r] by simp
  next
    case True
    obtain h w2 where F: "arena_flush_free_batch env (tls t) w1 = Some (h, w2)" "world_inv env mapped N (tls(t := h)) live n w2"
      by (rule flush_batch_ok [OF R(1) t])
    note fc = flush_calm [OF F(1)]
    have ht: "(tls(t := h)) t = h" by simp
    note T = retire_span_ok [OF F(2) t, unfolded ht]
    have "arena_clear_own_blockers env (tls t) w = Some (dead_span h, w2\<lparr>aw_arena := map_option (retire_in (ae_owner env) h) (aw_arena w2)\<rparr>)"
      using True r F(1) T(1) by (simp add: arena_clear_own_blockers_def dead_span_def)
    moreover have "world_inv env mapped N (tls(t := dead_span h)) live n (w2\<lparr>aw_arena := map_option (retire_in (ae_owner env) h) (aw_arena w2)\<rparr>)"
      using T(2) by simp
    moreover have "calm w2 (w2\<lparr>aw_arena := map_option (retire_in (ae_owner env) h) (aw_arena w2)\<rparr>)"
      by (cases "aw_arena w2") (simp_all add: calm_def grows_retire)
    then have c: "calm w (w2\<lparr>aw_arena := map_option (retire_in (ae_owner env) h) (aw_arena w2)\<rparr>)"
      using calm_trans [OF calm_trans [OF calm_reclaim [OF r] fc]] by blast
    moreover have "aw_chunks (w2\<lparr>aw_arena := map_option (retire_in (ae_owner env) h) (aw_arena w2)\<rparr>) = aw_chunks w"
      using c unfolding calm_def by blast
    ultimately show ?thesis by blast
  qed
qed

lemma arena_new_inv:
  assumes k: "pages_ok page mmap mapped" and c: "arena_new page mmap ncpus os = (Some a, os')"
    and other: "\<And>t. t < N \<Longrightarrow> span_owner (span (tls t)) \<noteq> owner \<and> arena_free_owner (tls t) \<noteq> owner"
    and n: "n < 2 ^ 64" "N < 2 ^ 32"
  shows "arena_inv owner epoch N tls {} n (mapped os') (set_reclaim on a)"
proof -
  have size: "DEFAULT_CHUNK_SIZE = 2 ^ 20" by (simp add: DEFAULT_CHUNK_SIZE_def push_bit_eq_mult)
  obtain c where c1: "chunk_new page mmap (2 ^ 20) os = (Some c, os')"
    and a: "a = \<lparr>ar_chunks = [c], ar_current = 0, ar_chunk_size = 2 ^ 20, ar_max_chunks = scaled_max_chunks ncpus,
      ar_reclaim = False, ar_stats = recycle_stats_default\<rparr>"
    using c unfolding arena_new_def arena_with_cap_def size by (auto split: prod.splits option.splits)
  have C: "ch_ok c" "cspan c \<subseteq> mapped os'" "ch_meta c = chunk_meta_new" using chunk_new_ok [OF k c1] by auto
  have mx: "1 \<le> scaled_max_chunks ncpus" "scaled_max_chunks ncpus \<le> 128"
    by (simp_all add: scaled_max_chunks_def BASE_MAX_CHUNKS_def MAX_CHUNKS_CAP_def)
  have items: "item owner epoch N tls {} k = {}" for k
    using other by (auto simp: item_def window_def split: sum.splits)
  have "sum_t N (pin_of owner 0) tls = 0" "sum_t N (blk_of owner 0) tls = 0" "sum_t N (pend_of owner 0) tls = 0"
    using other by (auto simp: sum_t_def pin_of_def blk_of_def pend_of_def mine_def)
  then have cnt: "counts_ok owner N tls {} n r 0 c" for r
    by (simp add: counts_ok_def C(3) chunk_meta_new_def live_in_def)
  have tl: "tls_ok owner epoch r [c] (tls t)" if "t < N" for t r using other [OF that] by (simp add: tls_ok_def)
  show ?thesis
    unfolding a set_reclaim_def arena_inv_def using C mx cnt tl n by (simp add: chunks_ok_def geo_def items)
qed

lemma lazy_arena_ok:
  assumes inv: "world_inv env mapped N tls live n w" and k: "pages_ok (ae_page env) (ae_mmap env) mapped"
  shows "world_inv env mapped N tls live n (lazy_arena env arm w)" and "aw_chunks (lazy_arena env arm w) = aw_chunks w"
    and "aw_headerless (lazy_arena env arm w) = aw_headerless w" and "aw_published (lazy_arena env arm w) = aw_published w"
    and "aw_arena (lazy_arena env arm w) = None \<Longrightarrow> os_refuses (ae_mmap env) (aw_os w) (chunk_len (ae_page env))"
proof -
  have "world_inv env mapped N tls live n (lazy_arena env arm w) \<and> aw_chunks (lazy_arena env arm w) = aw_chunks w
    \<and> aw_headerless (lazy_arena env arm w) = aw_headerless w \<and> aw_published (lazy_arena env arm w) = aw_published w
    \<and> (aw_arena (lazy_arena env arm w) = None \<longrightarrow> os_refuses (ae_mmap env) (aw_os w) (chunk_len (ae_page env)))"
  proof (cases "aw_arena w")
    case (Some a)
    then show ?thesis using inv by (simp add: lazy_arena_def)
  next
    case None
    note O = world_inv_NoneD [OF inv None] and B = world_inv_bounds [OF inv]
    obtain q os' where q: "arena_new (ae_page env) (ae_mmap env) (ae_ncpus env) (aw_os w) = (q, os')" by force
    show ?thesis
    proof (cases q)
      case None2: None
      then have e: "lazy_arena env arm w = w\<lparr>aw_os := os'\<rparr>" using None q by (simp add: lazy_arena_def)
      have size: "DEFAULT_CHUNK_SIZE = 2 ^ 20" by (simp add: DEFAULT_CHUNK_SIZE_def push_bit_eq_mult)
      have "fst (chunk_new (ae_page env) (ae_mmap env) (2 ^ 20) (aw_os w)) = None"
        using q None2 unfolding arena_new_def arena_with_cap_def size by (auto split: prod.splits option.splits)
      from chunk_new_refused [OF k this] show ?thesis using e inv None by (auto simp: world_inv_def)
    next
      case (Some a)
      note A = arena_new_inv [OF k q [unfolded Some] O(4) B(1,2), where epoch = "aw_epoch w"]
      show ?thesis
      proof (cases arm)
        case False
        have sr: "set_reclaim False a = a"
          using q Some unfolding arena_new_def arena_with_cap_def by (auto simp: set_reclaim_def split: prod.splits option.splits)
        have e: "lazy_arena env arm w = w\<lparr>aw_os := os', aw_arena := Some a\<rparr>"
          using None q Some False by (simp add: lazy_arena_def)
        have rc: "\<not> ar_reclaim a" using arg_cong [OF sr, of ar_reclaim] by (simp add: set_reclaim_def)
        have "arena_inv (ae_owner env) (aw_epoch w) N tls live n (mapped os') a" using A [where on = False] sr O(1) by simp
        then show ?thesis using e O B rc by (simp add: world_inv_def chunks_known_def)
      next
        case True
        obtain on w1 where r: "arena_reclaim_active env (w\<lparr>aw_os := os'\<rparr>) = (on, w1)" by force
        obtain z where z: "w1 = w\<lparr>aw_os := os', aw_reclaim_on := z\<rparr>" "on \<longleftrightarrow> z = 1" using reclaim_active_cases [OF r] by metis
        have e: "lazy_arena env arm w = w1\<lparr>aw_arena := Some (set_reclaim on a)\<rparr>"
          using None q Some True r by (simp add: lazy_arena_def)
        have "arena_inv (ae_owner env) (aw_epoch w) N tls live n (mapped os') (set_reclaim on a)" using A O(1) by simp
        then show ?thesis using e O B z by (simp add: world_inv_def chunks_known_def set_reclaim_def)
      qed
    qed
  qed
  then show "world_inv env mapped N tls live n (lazy_arena env arm w)" "aw_chunks (lazy_arena env arm w) = aw_chunks w"
    "aw_headerless (lazy_arena env arm w) = aw_headerless w" "aw_published (lazy_arena env arm w) = aw_published w"
    "aw_arena (lazy_arena env arm w) = None \<Longrightarrow> os_refuses (ae_mmap env) (aw_os w) (chunk_len (ae_page env))"
    by blast+
qed

lemma register_all_ok:
  assumes "probe_inv (2 ^ 9) (chk_keys r)" and "\<forall>e \<in> set es. fst e \<noteq> 0" and "register_all es r = (ok, r')"
  shows "probe_inv (2 ^ 9) (chk_keys r')"
    and "b \<noteq> 0 \<Longrightarrow> chk_lookup r' b = Some m \<Longrightarrow> chk_lookup r b = Some m \<or> (b, m) \<in> set es"
    and "b \<noteq> 0 \<Longrightarrow> chk_lookup r b \<noteq> None \<Longrightarrow> chk_lookup r' b \<noteq> None"
    and "ok \<Longrightarrow> e \<in> set es \<Longrightarrow> chk_lookup r' (fst e) \<noteq> None"
proof -
  have "probe_inv (2 ^ 9) (chk_keys r')
    \<and> (\<forall>b m. b \<noteq> 0 \<longrightarrow> chk_lookup r' b = Some m \<longrightarrow> chk_lookup r b = Some m \<or> (b, m) \<in> set es)
    \<and> (\<forall>b. b \<noteq> 0 \<longrightarrow> chk_lookup r b \<noteq> None \<longrightarrow> chk_lookup r' b \<noteq> None)
    \<and> (ok \<longrightarrow> (\<forall>e \<in> set es. chk_lookup r' (fst e) \<noteq> None))"
    using assms
  proof (induction es r arbitrary: ok r' rule: register_all.induct)
    case (1 r)
    then show ?case by auto
  next
    case (2 b m es r)
    obtain ok1 r1 where i: "chk_insert r b m = (ok1, r1)" by force
    have b: "b \<noteq> 0" using "2.prems"(2) by simp
    note I = chk.ins_correct [OF "2.prems"(1) b i]
    show ?case
    proof (cases ok1)
      case False
      then show ?thesis using "2.prems" i I by auto
    next
      case True
      have r: "register_all es r1 = (ok, r')" using "2.prems"(3) i True by simp
      have IH: "probe_inv (2 ^ 9) (chk_keys r')"
        "\<forall>b m. b \<noteq> 0 \<longrightarrow> chk_lookup r' b = Some m \<longrightarrow> chk_lookup r1 b = Some m \<or> (b, m) \<in> set es"
        "\<forall>b. b \<noteq> 0 \<longrightarrow> chk_lookup r1 b \<noteq> None \<longrightarrow> chk_lookup r' b \<noteq> None"
        "ok \<longrightarrow> (\<forall>e \<in> set es. chk_lookup r' (fst e) \<noteq> None)"
        using "2.IH" [OF i [symmetric] True _ _ r] I "2.prems"(2) by simp_all
      have old: "chk_lookup r1 c = Some q \<Longrightarrow> chk_lookup r c = Some q \<or> (c, q) = (b, m)" if "c \<noteq> 0" for c q
        using I that True by (cases "c = b") (auto split: option.splits)
      have kept: "chk_lookup r1 c \<noteq> None" if "c \<noteq> 0" "chk_lookup r c \<noteq> None" for c
        using I that True by (cases "c = b") auto
      have "chk_lookup r1 b \<noteq> None" using I True by simp
      then have "chk_lookup r' b \<noteq> None" using IH(3) b by blast
      then show ?thesis using IH old kept by (intro conjI allI impI ballI) (auto, blast+)
    qed
  qed
  then show "probe_inv (2 ^ 9) (chk_keys r')"
    "b \<noteq> 0 \<Longrightarrow> chk_lookup r' b = Some m \<Longrightarrow> chk_lookup r b = Some m \<or> (b, m) \<in> set es"
    "b \<noteq> 0 \<Longrightarrow> chk_lookup r b \<noteq> None \<Longrightarrow> chk_lookup r' b \<noteq> None"
    "ok \<Longrightarrow> e \<in> set es \<Longrightarrow> chk_lookup r' (fst e) \<noteq> None"
    by blast+
qed

text \<open>Every chunk is in the chunk registry; the lock-free path keeps it so.\<close>

definition registered :: "'os arena_world \<Rightarrow> bool" where
  "registered w \<longleftrightarrow> (\<forall>a. aw_arena w = Some a \<longrightarrow>
     (\<forall>i < length (ar_chunks a). chk_lookup (aw_chunks w) (ch_base (ar_chunks a ! i)) \<noteq> None))"

text \<open>The chunk registry takes the chunks of the arena.\<close>

definition accepted :: "arena_chunk_registry \<Rightarrow> 'os arena_world \<Rightarrow> bool" where
  "accepted r w \<longleftrightarrow> (\<forall>a. aw_arena w = Some a \<longrightarrow> fst (register_all (chunk_entries a) r))"

lemma calm_registered:
  assumes c: "calm w w'" and r: "registered w"
  shows "registered w'"
  unfolding registered_def
proof (intro allI impI)
  fix a' i assume a: "aw_arena w' = Some a'" "i < length (ar_chunks a')"
  then obtain a where "aw_arena w = Some a" using c by (cases "aw_arena w") (auto simp: calm_def)
  then show "chk_lookup (aw_chunks w') (ch_base (ar_chunks a' ! i)) \<noteq> None"
    using c r a by (simp add: calm_def registered_def grows_def)
qed

lemma registered_flags [simp]: "registered (w\<lparr>aw_exhausted := x\<rparr>) = registered w"
  by (simp add: registered_def)

lemma lazy_fresh:
  assumes "aw_arena w = None" and "aw_arena (lazy_arena env arm w) = Some a" and "pages_ok (ae_page env) (ae_mmap env) mapped"
  shows "ch_cursor (ar_chunks a ! ar_current a) = ch_base (ar_chunks a ! ar_current a)"
proof -
  have size: "DEFAULT_CHUNK_SIZE = 2 ^ 20" by (simp add: DEFAULT_CHUNK_SIZE_def push_bit_eq_mult)
  obtain b os' on where b: "arena_new (ae_page env) (ae_mmap env) (ae_ncpus env) (aw_os w) = (Some b, os')" "a = set_reclaim on b \<or> a = b"
    using assms(1,2) by (auto simp: lazy_arena_def split: prod.splits option.splits if_splits)
  then obtain c where "chunk_new (ae_page env) (ae_mmap env) (2 ^ 20) (aw_os w) = (Some c, os')" "ar_chunks b = [c]" "ar_current b = 0"
    unfolding arena_new_def arena_with_cap_def size by (auto split: prod.splits option.splits)
  then show ?thesis using b(2) chunk_new_ok(2) [OF assms(3)] by (auto simp: set_reclaim_def)
qed

text \<open>What every operation on the arena may answer and leave.\<close>

definition answered ::
  "'os arena_env \<Rightarrow> ('os \<Rightarrow> nat set) \<Rightarrow> nat \<Rightarrow> (nat \<Rightarrow> hot_tls) \<Rightarrow> block set \<Rightarrow> nat \<Rightarrow> nat \<Rightarrow> usize \<Rightarrow>
   usize option \<Rightarrow> 'os arena_world \<Rightarrow> bool"
where
  "answered env mapped N tls live n al sz r w \<longleftrightarrow>
     (case r of None \<Rightarrow> world_inv env mapped N tls live (n + 1) w
      | Some p \<Rightarrow> world_inv env mapped N tls (insert (p, sz) live) (n + 1) w \<and> (p, sz) \<notin> live \<and> 2 ^ al dvd unat p
          \<and> (\<exists>a i. aw_arena w = Some a \<and> i < length (ar_chunks a) \<and> bset (p, sz) \<subseteq> cspan (ar_chunks a ! i)))"

lemma answered_flag: "answered env mapped N tls live n al sz r (w\<lparr>aw_exhausted := x\<rparr>) = answered env mapped N tls live n al sz r w"
  by (cases r) (simp_all add: answered_def)

text \<open>
  Why the arena may refuse a request, answered in the world \<open>w\<close>: it does not fit an empty chunk, the kernel refuses a chunk
  in the state \<open>os\<close> that the request finds, the cap is reached, or the chunk registry takes not all chunks.
\<close>

definition refusable ::
  "'os arena_env \<Rightarrow> 'os \<Rightarrow> arena_chunk_registry \<Rightarrow> nat \<Rightarrow> usize \<Rightarrow> 'os arena_world \<Rightarrow> bool"
where
  "refusable env os chunks al sz w \<longleftrightarrow>
     2 ^ 20 < unat sz + 2 ^ al \<or> os_refuses (ae_mmap env) os (chunk_len (ae_page env))
     \<or> (\<exists>a. aw_arena w = Some a \<and> (length (ar_chunks a) = ar_max_chunks a \<or> \<not> fst (register_all (chunk_entries a) chunks)))"

lemma refusable_flag: "refusable env os chunks al sz (w\<lparr>aw_exhausted := x\<rparr>) = refusable env os chunks al sz w"
  by (simp add: refusable_def)

lemma default_sized:
  assumes "arena_inv owner epoch N tls live n M a" shows "chunks_are_default_sized a"
proof -
  have "ch_capacity c \<le> CHUNK_BYTES" if "c \<in> set (ar_chunks a)" for c
    using arena_invD(1) [OF assms] that
    by (auto simp: chunks_ok_def ch_ok_def CHUNK_BYTES_def DEFAULT_CHUNK_SIZE_def word_le_nat_alt)
  then show ?thesis using arena_invD(2) [OF assms]
    by (simp add: chunks_are_default_sized_def list_all_iff DEFAULT_CHUNK_SIZE_def push_bit_eq_mult)
qed

lemma chunk_entries_mem:
  "(b, m) \<in> set (chunk_entries a) \<longleftrightarrow> (\<exists>i < length (ar_chunks a). b = ch_base (ar_chunks a ! i) \<and> m = meta_addr i)"
  by (auto simp: chunk_entries_def)

lemma register_world_inv:
  assumes inv: "world_inv env mapped N tls live n w" and a: "aw_arena w = Some a"
    and r: "register_all (chunk_entries a) (aw_chunks w) = (ok, r')"
  shows "world_inv env mapped N tls live n (w\<lparr>aw_chunks := r'\<rparr>)"
    and "ok \<Longrightarrow> i < length (ar_chunks a) \<Longrightarrow> chk_lookup r' (ch_base (ar_chunks a ! i)) \<noteq> None"
proof -
  note S = world_inv_SomeD [OF inv a] and B = world_inv_bounds [OF inv]
  have nz: "\<forall>e \<in> set (chunk_entries a). fst e \<noteq> 0"
    using chunks_okD(1) [OF arena_invD(1) [OF S(1)]] by (auto simp: chunk_entries_def ch_ok_def)
  note R = register_all_ok [OF B(3) nz r]
  have "chunks_known r' a"
    unfolding chunks_known_def
  proof (intro allI impI)
    fix b m assume "b \<noteq> 0" "chk_lookup r' b = Some m"
    then have "chk_lookup (aw_chunks w) b = Some m \<or> (b, m) \<in> set (chunk_entries a)" by (rule R(2))
    then show "\<exists>i < length (ar_chunks a). b = ch_base (ar_chunks a ! i) \<and> m = meta_addr i"
      using S(2) \<open>b \<noteq> 0\<close> unfolding chunks_known_def chunk_entries_mem by blast
  qed
  then show "world_inv env mapped N tls live n (w\<lparr>aw_chunks := r'\<rparr>)" using inv a R(1) by (simp add: world_inv_def)
  show "ok \<Longrightarrow> i < length (ar_chunks a) \<Longrightarrow> chk_lookup r' (ch_base (ar_chunks a ! i)) \<noteq> None"
    using R(4) [of "(ch_base (ar_chunks a ! i), meta_addr i)"] chunk_entries_mem by auto
qed

lemma publish_world_inv:
  assumes inv: "world_inv env mapped N tls live n w" and a: "aw_arena w = Some a"
  shows "world_inv env mapped N tls live n (publish_arena_chunk a w)"
proof -
  note S = world_inv_SomeD [OF inv a]
  have cur: "ar_current a < length (ar_chunks a)" by (rule arena_invD(3) [OF S(1)])
  have inv': "arena_inv (ae_owner env) (aw_epoch w) N tls live n (mapped (aw_os w)) (upd_chunk (ar_current a) (\<lambda>c. c\<lparr>ch_desc := True\<rparr>) a)"
    by (rule arena_inv_publish [OF S(1) cur])
  have g: "grows a (upd_chunk (ar_current a) (\<lambda>c. c\<lparr>ch_desc := True\<rparr>) a)"
  proof -
    have "ch_base (ar_chunks (upd_chunk (ar_current a) (\<lambda>c. c\<lparr>ch_desc := True\<rparr>) a) ! i) = ch_base (ar_chunks a ! i)"
      if "i < length (ar_chunks a)" for i
      using that by (cases "i = ar_current a") (simp_all add: upd_chunk_def)
    then show ?thesis by (simp add: grows_def) (simp add: upd_chunk_def)
  qed
  have "world_inv env mapped N tls live n (w\<lparr>aw_arena := Some (upd_chunk (ar_current a) (\<lambda>c. c\<lparr>ch_desc := True\<rparr>) a)\<rparr>)"
    by (rule world_inv_arena [OF inv a g inv'])
  then show ?thesis using cur by (simp add: world_inv_def publish_arena_chunk_def upd_chunk_def)
qed

lemma publish_frame:
  "aw_arena (publish_arena_chunk a w) = Some (upd_chunk (ar_current a) (\<lambda>c. c\<lparr>ch_desc := True\<rparr>) a)"
  "aw_chunks (publish_arena_chunk a w) = aw_chunks w" "aw_published (publish_arena_chunk a w) = Some (ar_current a)"
  "aw_headerless (publish_arena_chunk a w) = aw_headerless w" "aw_exhausted (publish_arena_chunk a w) = aw_exhausted w"
  "aw_epoch (publish_arena_chunk a w) = aw_epoch w"
  by (simp_all add: publish_arena_chunk_def)

lemma publish_entries:
  assumes "ar_current a < length (ar_chunks a)"
  shows "chunk_entries (upd_chunk (ar_current a) (\<lambda>c. c\<lparr>ch_desc := True\<rparr>) a) = chunk_entries a"
    and "length (ar_chunks (upd_chunk i f a)) = length (ar_chunks a)" and "ar_max_chunks (upd_chunk i f a) = ar_max_chunks a"
    and "cspan (ar_chunks (upd_chunk (ar_current a) (\<lambda>c. c\<lparr>ch_desc := True\<rparr>) a) ! j) = cspan (ar_chunks a ! j)"
proof -
  have "ch_base (ar_chunks (upd_chunk (ar_current a) (\<lambda>c. c\<lparr>ch_desc := True\<rparr>) a) ! i) = ch_base (ar_chunks a ! i)" for i
    using assms by (cases "i = ar_current a") (simp_all add: upd_chunk_def)
  then show "chunk_entries (upd_chunk (ar_current a) (\<lambda>c. c\<lparr>ch_desc := True\<rparr>) a) = chunk_entries a"
    by (simp add: chunk_entries_def) (simp add: upd_chunk_def)
  show "cspan (ar_chunks (upd_chunk (ar_current a) (\<lambda>c. c\<lparr>ch_desc := True\<rparr>) a) ! j) = cspan (ar_chunks a ! j)"
    using assms by (cases "j = ar_current a") (simp_all add: upd_chunk_def cspan_def)
qed (simp_all add: upd_chunk_def)

text \<open>The block the arena bumps under its mutex.\<close>

lemma mutex_alloc_ok:
  assumes inv: "world_inv env mapped N tls live n w" and a: "aw_arena w = Some a"
    and k: "pages_ok (ae_page env) (ae_mmap env) mapped" and al: "al \<le> 62" and sz: "0 < unat sz" and n: "n + 1 < 2 ^ 64"
  shows "\<exists>r a' os'. arena_alloc_block (ae_page env) (ae_mmap env) sz (2 ^ al) a (aw_os w) = Some (r, a', os')
    \<and> answered env mapped N tls live n (max al 4) sz r (w\<lparr>aw_arena := Some a', aw_os := os'\<rparr>)
    \<and> (r = None \<longrightarrow> refusable env (aw_os w) (aw_chunks w) (max al 4) sz (w\<lparr>aw_arena := Some a', aw_os := os'\<rparr>)
         \<and> length (ar_chunks a') = length (ar_chunks a))
    \<and> grows a a' \<and> (ch_cursor (ar_chunks a ! ar_current a) = ch_base (ar_chunks a ! ar_current a) \<longrightarrow>
         unat sz + 2 ^ max al 4 \<le> 2 ^ 20 \<longrightarrow> r \<noteq> None)"
proof -
  note S = world_inv_SomeD [OF inv a]
  obtain r a' os' where B: "arena_alloc_block (ae_page env) (ae_mmap env) sz (2 ^ al) a (aw_os w) = Some (r, a', os')"
    "mapped (aw_os w) \<subseteq> mapped os'" "grows a a'"
    "got_block (ae_owner env) (aw_epoch w) N tls live n (max al 4) sz r (mapped os') a'"
    "r = None \<longrightarrow> length (ar_chunks a') = length (ar_chunks a) \<and> (2 ^ 20 < unat sz + 2 ^ max al 4
         \<or> length (ar_chunks a') = ar_max_chunks a' \<or> os_refuses (ae_mmap env) (aw_os w) (chunk_len (ae_page env)))"
    "ch_cursor (ar_chunks a ! ar_current a) = ch_base (ar_chunks a ! ar_current a) \<longrightarrow>
         unat sz + 2 ^ max al 4 \<le> 2 ^ 20 \<longrightarrow> r \<noteq> None"
    using arena_alloc_block_ok [OF S(1) k al sz n] by blast
  have inv': "world_inv env mapped N tls live n (w\<lparr>aw_os := os'\<rparr>)"
    using inv arena_inv_M [OF S(1) B(2)] a by (simp add: world_inv_def)
  have up: "world_inv env mapped N tls live' n' (w\<lparr>aw_arena := Some a', aw_os := os'\<rparr>)"
    if "arena_inv (ae_owner env) (aw_epoch w) N tls live' n' (mapped os') a'" for live' n'
  proof -
    have "world_inv env mapped N tls live' n' ((w\<lparr>aw_os := os'\<rparr>)\<lparr>aw_arena := Some a'\<rparr>)"
      by (rule world_inv_arena [OF inv' _ B(3)]) (use a that in simp_all)
    moreover have "(w\<lparr>aw_os := os'\<rparr>)\<lparr>aw_arena := Some a'\<rparr> = w\<lparr>aw_arena := Some a', aw_os := os'\<rparr>" by (cases w) simp
    ultimately show ?thesis by simp
  qed
  have "answered env mapped N tls live n (max al 4) sz r (w\<lparr>aw_arena := Some a', aw_os := os'\<rparr>)"
  proof (cases r)
    case None
    then have "world_inv env mapped N tls live n (w\<lparr>aw_arena := Some a', aw_os := os'\<rparr>)"
      using up B(4) by (simp add: got_block_def)
    then have "world_inv env mapped N tls live (n + 1) (w\<lparr>aw_arena := Some a', aw_os := os'\<rparr>)"
      by (rule world_inv_mono [OF _ _ n]) simp
    then show ?thesis using None by (simp add: answered_def)
  next
    case (Some p)
    then have G: "arena_inv (ae_owner env) (aw_epoch w) N tls (insert (p, sz) live) (n + 1) (mapped os') a'" "(p, sz) \<notin> live"
      "2 ^ max al 4 dvd unat p" "bset (p, sz) \<subseteq> cspan (ar_chunks a' ! ar_current a')"
      using B(4) by (simp_all add: got_block_def)
    then show ?thesis using Some up [OF G(1)] arena_invD(3) [OF G(1)] by (auto simp: answered_def)
  qed
  moreover have "r = None \<longrightarrow> refusable env (aw_os w) (aw_chunks w) (max al 4) sz (w\<lparr>aw_arena := Some a', aw_os := os'\<rparr>)"
    using B(5) by (auto simp: refusable_def)
  ultimately show ?thesis using B(1,3,5,6) by blast
qed

lemma answered_publish:
  assumes ans: "answered env mapped N tls live n al sz r w" and a: "aw_arena w = Some a"
  shows "answered env mapped N tls live n al sz r (publish_arena_chunk a w)"
proof (cases r)
  case None
  then show ?thesis using ans publish_world_inv [OF _ a] by (simp add: answered_def)
next
  case (Some p)
  then have G: "world_inv env mapped N tls (insert (p, sz) live) (n + 1) w" "(p, sz) \<notin> live" "2 ^ al dvd unat p"
    "\<exists>i. i < length (ar_chunks a) \<and> bset (p, sz) \<subseteq> cspan (ar_chunks a ! i)"
    using ans a by (auto simp: answered_def)
  have cur: "ar_current a < length (ar_chunks a)" using arena_invD(3) [OF world_inv_SomeD(1) [OF G(1) a]] .
  show ?thesis using Some publish_world_inv [OF G(1) a] G(2-4) publish_entries(2,4) [OF cur]
    by (simp add: answered_def publish_frame)
qed

lemma arena_slow_ok:
  assumes inv: "world_inv env mapped N tls live n w" and t: "t < N"
    and k: "pages_ok (ae_page env) (ae_mmap env) mapped" and al: "al \<le> 62" and sz: "0 < unat sz" and n: "n + 1 < 2 ^ 64"
  shows "\<exists>r w'. arena_slow env sz (2 ^ al) w = Some (r, w') \<and> answered env mapped N tls live n (max al 4) sz r w'
    \<and> (r = None \<longrightarrow> refusable env (aw_os w) (aw_chunks w) (max al 4) sz w')
    \<and> (registered w \<longrightarrow> unat sz + 2 ^ max al 4 \<le> 2 ^ 20 \<longrightarrow> accepted (aw_chunks w) w' \<longrightarrow> registered w')"
proof -
  let ?w0 = "lazy_arena env True w" let ?A = "max al 4"
  note L = lazy_arena_ok [OF inv k, of True]
  show ?thesis
  proof (cases "aw_arena ?w0")
    case None
    then have "arena_slow env sz (2 ^ al) w = Some (None, ?w0)" by (simp add: arena_slow_def)
    then show ?thesis using world_inv_mono [OF L(1) _ n] L(5) [OF None] None by (simp add: answered_def refusable_def registered_def)
  next
    case (Some a)
    obtain r a' os' where B: "arena_alloc_block (ae_page env) (ae_mmap env) sz (2 ^ al) a (aw_os ?w0) = Some (r, a', os')"
      "answered env mapped N tls live n ?A sz r (?w0\<lparr>aw_arena := Some a', aw_os := os'\<rparr>)"
      "r = None \<longrightarrow> refusable env (aw_os ?w0) (aw_chunks ?w0) ?A sz (?w0\<lparr>aw_arena := Some a', aw_os := os'\<rparr>)
         \<and> length (ar_chunks a') = length (ar_chunks a)"
      "grows a a'" "ch_cursor (ar_chunks a ! ar_current a) = ch_base (ar_chunks a ! ar_current a) \<longrightarrow>
         unat sz + 2 ^ max al 4 \<le> 2 ^ 20 \<longrightarrow> r \<noteq> None"
      using mutex_alloc_ok [OF L(1) Some k al sz n] by blast
    let ?w1 = "?w0\<lparr>aw_arena := Some a', aw_os := os'\<rparr>"
    have a1: "aw_arena ?w1 = Some a'" by simp
    have i1: "\<exists>live'. live \<subseteq> live' \<and> world_inv env mapped N tls live' (n + 1) ?w1"
      using B(2) unfolding answered_def by (cases r) (auto simp: subset_insertI2)
    then obtain live' where i1: "live \<subseteq> live'" "world_inv env mapped N tls live' (n + 1) ?w1" by blast
    note S1 = world_inv_SomeD [OF i1(2) a1]
    have cur: "ar_current a' < length (ar_chunks a')" by (rule arena_invD(3) [OF S1(1)])
    have ds: "chunks_are_default_sized a'" by (rule default_sized [OF S1(1)])
    have e: "arena_slow env sz (2 ^ al) w =
      (case (if r = None then (True, aw_chunks ?w0) else register_all (chunk_entries a') (aw_chunks ?w0)) of (reg, chunks) \<Rightarrow>
        (let result = (if reg then r else None); w2 = ?w1\<lparr>aw_chunks := chunks\<rparr>;
             w3 = (if reg then publish_arena_chunk a' w2 else w2)
         in Some (result, if result = None \<and> exhausted_after_failed sz (2 ^ al) a' then w3\<lparr>aw_exhausted := True\<rparr> else w3)))"
      unfolding arena_slow_def Let_def Some option.case B(1) Option.bind.bind_lunit prod.case by (simp only: ds if_True)
    show ?thesis
    proof (cases r)
      case None
      have cs: "?w1\<lparr>aw_chunks := aw_chunks ?w0\<rparr> = ?w1" by simp
      have P: "answered env mapped N tls live n ?A sz None (publish_arena_chunk a' ?w1)"
        by (rule answered_publish [OF _ a1]) (use B(2) None in simp)
      have Q: "refusable env (aw_os w) (aw_chunks w) ?A sz (publish_arena_chunk a' ?w1)"
      proof -
        have F: "refusable env (aw_os ?w0) (aw_chunks ?w0) ?A sz ?w1" using B(3) None by blast
        have "refusable env (aw_os w) (aw_chunks ?w0) ?A sz ?w1"
        proof (cases "aw_arena w")
          case new: None
          have "2 ^ 20 < unat sz + 2 ^ ?A" using lazy_fresh [OF new Some k] B(5) None by linarith
          then show ?thesis by (simp add: refusable_def)
        next
          case (Some b)
          then show ?thesis using F by (simp add: lazy_arena_def)
        qed
        then show ?thesis using L(2) publish_entries [OF cur] by (simp add: refusable_def publish_frame)
      qed
      have R: "registered (publish_arena_chunk a' ?w1)" if r: "registered w" "unat sz + 2 ^ ?A \<le> 2 ^ 20"
      proof -
        obtain b where b: "aw_arena w = Some b"
          using lazy_fresh [OF _ Some k] B(5) None r(2) by (cases "aw_arena w") auto
        then have "a = b" using Some by (simp add: lazy_arena_def)
        then have "chk_lookup (aw_chunks w) (ch_base (ar_chunks a' ! i)) \<noteq> None" if "i < length (ar_chunks a')" for i
          using r(1) b B(3,4) None that by (simp add: registered_def grows_def)
        moreover have "ch_base (ar_chunks (upd_chunk (ar_current a') (\<lambda>c. c\<lparr>ch_desc := True\<rparr>) a') ! i) = ch_base (ar_chunks a' ! i)" for i
          using cur by (cases "i = ar_current a'") (simp_all add: upd_chunk_def)
        ultimately show ?thesis using L(2) by (simp add: registered_def publish_frame publish_entries(2) [OF cur])
      qed
      show ?thesis using e None P Q R cs
        by (simp add: Let_def answered_flag refusable_flag)
    next
      case (Some p)
      obtain reg q where rq: "register_all (chunk_entries a') (aw_chunks ?w0) = (reg, q)" by force
      let ?w2 = "?w1\<lparr>aw_chunks := q\<rparr>"
      have rq1: "register_all (chunk_entries a') (aw_chunks ?w1) = (reg, q)" using rq by simp
      show ?thesis
      proof (cases reg)
        case False
        have "world_inv env mapped N tls live' (n + 1) ?w2" by (rule register_world_inv(1) [OF i1(2) a1 rq1])
        then have "world_inv env mapped N tls live (n + 1) ?w2" by (rule world_inv_fewer [OF _ t i1(1)])
        moreover have "refusable env (aw_os w) (aw_chunks w) ?A sz ?w2"
          using rq False L(2) by (auto simp: refusable_def)
        moreover have "\<not> accepted (aw_chunks w) ?w2" using rq False L(2) by (auto simp: accepted_def)
        ultimately show ?thesis using e Some rq False
          by (simp add: Let_def answered_def refusable_flag) (simp add: accepted_def)
      next
        case True
        have "answered env mapped N tls live n ?A sz (Some p) ?w2"
          using B(2) Some register_world_inv(1) [OF _ a1 rq1] by (simp add: answered_def)
        then have "answered env mapped N tls live n ?A sz (Some p) (publish_arena_chunk a' ?w2)"
          by (rule answered_publish) simp
        moreover have "registered (publish_arena_chunk a' ?w2)"
        proof -
          have "chk_lookup q (ch_base (ar_chunks a' ! i)) \<noteq> None" if "i < length (ar_chunks a')" for i
            using register_world_inv(2) [OF i1(2) a1 rq1 True that] .
          moreover have "ch_base (ar_chunks (upd_chunk (ar_current a') (\<lambda>c. c\<lparr>ch_desc := True\<rparr>) a') ! i) = ch_base (ar_chunks a' ! i)" for i
            using cur by (cases "i = ar_current a'") (simp_all add: upd_chunk_def)
          ultimately show ?thesis by (simp add: registered_def publish_frame publish_entries(2) [OF cur])
        qed
        ultimately show ?thesis using e Some rq True by (simp add: Let_def)
      qed
    qed
  qed
qed

lemma arena_arm_ok:
  assumes inv: "world_inv env mapped N tls live n w" and t: "t < N"
    and k: "pages_ok (ae_page env) (ae_mmap env) mapped" and al: "al \<le> 62" and n: "n + 1 < 2 ^ 64"
    and sz: "sz = (if aw_headerless w \<and> (2 :: usize) ^ al \<le> MIN_ALIGN then tot - pad else tot)" "0 < unat sz"
  shows "\<exists>r h w'. arena_arm env tot pad (2 ^ al) (tls t) w =
      Some (map_option (\<lambda>p. (p, aw_headerless w \<and> (2 :: usize) ^ al \<le> MIN_ALIGN)) r, h, w')
    \<and> answered env mapped N (tls(t := h)) live n (max al 4) sz r w'
    \<and> (r = None \<longrightarrow> aw_exhausted w \<or> refusable env (aw_os w) (aw_chunks w) (max al 4) sz w')
    \<and> (registered w \<longrightarrow> unat sz + 2 ^ max al 4 \<le> 2 ^ 20 \<longrightarrow> accepted (aw_chunks w) w' \<longrightarrow> registered w')"
proof (cases "aw_exhausted w")
  case True
  have "arena_arm env tot pad (2 ^ al) (tls t) w = Some (map_option f None, tls t, w)" for f :: "usize \<Rightarrow> usize \<times> bool"
    using True by (simp add: arena_arm_def)
  moreover have "answered env mapped N (tls(t := tls t)) live n (max al 4) sz None w"
    using world_inv_mono [OF inv _ n] by (simp add: answered_def)
  ultimately show ?thesis using True by blast
next
  case False
  let ?hl = "aw_headerless w \<and> (2 :: usize) ^ al \<le> MIN_ALIGN"
  obtain r h w1 where F: "arena_alloc_fast env sz (2 ^ al) (tls t) w = Some (r, h, w1)" "calm w w1"
    "served env mapped N tls live n (max al 4) sz t r h w1"
    using alloc_fast_ok [OF inv t al sz(2) n] by blast
  show ?thesis
  proof (cases r)
    case (Some p)
    have "arena_arm env tot pad (2 ^ al) (tls t) w = Some (map_option (\<lambda>p. (p, ?hl)) (Some p), h, w1)"
      using False F(1) Some sz(1) by (auto simp: arena_arm_def Let_def)
    moreover have "answered env mapped N (tls(t := h)) live n (max al 4) sz (Some p) w1"
      using F(3) Some by (simp add: served_def answered_def)
    ultimately show ?thesis using calm_registered [OF F(2)] by blast
  next
    case None
    have i1: "world_inv env mapped N (tls(t := h)) live n w1" using F(3) None by (simp add: served_def)
    have ht: "(tls(t := h)) t = h" by simp
    obtain h2 w2 where C: "arena_clear_own_blockers env h w1 = Some (h2, w2)"
      "world_inv env mapped N (tls(t := h2)) live n w2" "aw_chunks w2 = aw_chunks w1" "calm w1 w2"
      using clear_blockers_ok [OF i1 t] unfolding ht by auto
    obtain q w3 where W: "arena_slow env sz (2 ^ al) w2 = Some (q, w3)"
      "answered env mapped N (tls(t := h2)) live n (max al 4) sz q w3"
      "q = None \<longrightarrow> refusable env (aw_os w2) (aw_chunks w2) (max al 4) sz w3"
      "registered w2 \<longrightarrow> unat sz + 2 ^ max al 4 \<le> 2 ^ 20 \<longrightarrow> accepted (aw_chunks w2) w3 \<longrightarrow> registered w3"
      using arena_slow_ok [OF C(2) t k al sz(2) n] by blast
    have "arena_arm env tot pad (2 ^ al) (tls t) w = Some (map_option (\<lambda>p. (p, ?hl)) q, h2, w3)"
      using False F(1) None sz(1) C(1) W(1) by (auto simp: arena_arm_def Let_def)
    moreover have "aw_chunks w2 = aw_chunks w" "aw_os w2 = aw_os w" using C(3,4) F(2) by (simp_all add: calm_def)
    moreover have "registered w \<Longrightarrow> registered w2" by (rule calm_registered [OF calm_trans [OF F(2) C(4)]])
    ultimately show ?thesis using W(2-4) by auto
  qed
qed

section \<open>Reset and direct allocation\<close>

lemma reset_arena_ok:
  assumes inv: "world_inv env mapped N tls live n w" and e: "unat (aw_epoch w) + 1 < 2 ^ 64"
  shows "world_inv env mapped N tls {} n (reset_arena w)"
proof (cases "aw_arena w")
  case None
  then show ?thesis using inv by (simp add: reset_arena_def world_inv_def)
next
  case (Some a)
  note S = world_inv_SomeD [OF inv Some] and B = world_inv_bounds [OF inv]
  let ?w = "w\<lparr>aw_reclaim_on := 2, aw_arena := Some (arena_reset a), aw_epoch := aw_epoch w + 1\<rparr>"
  have c: "chunks_known (aw_chunks w) (arena_reset a)"
    using S(2) by (simp add: chunks_known_def arena_reset_def cong: conj_cong)
  have "world_inv env mapped N tls {} n ?w"
    using reset_inv [OF S(1) e] c S(3) B by (simp add: world_inv_def) (simp add: arena_reset_def)
  then have "world_inv env mapped N tls {} n (publish_arena_chunk (arena_reset a) ?w)"
    by (rule publish_world_inv) simp
  then show ?thesis using Some by (simp add: reset_arena_def Let_def)
qed

lemma arena_direct_ok:
  assumes inv: "world_inv env mapped N tls live n w"
    and k: "pages_ok (ae_page env) (ae_mmap env) mapped" and al: "al \<le> 62" and n: "n + 1 < 2 ^ 64"
    and sz: "sz = request + header_pad (2 ^ max al 4)" "0 < unat sz"
  shows "\<exists>r w'. arena_alloc_direct env request (2 ^ al) w = Some (r, w') \<and> answered env mapped N tls live n (max al 4) sz r w'"
proof -
  let ?w0 = "lazy_arena env False w" let ?A = "max al 4"
  note L = lazy_arena_ok [OF inv k, of False]
  note align = max_min_align [OF al]
  have A: "?A \<le> 62" "max ?A 4 = ?A" using al by simp_all
  show ?thesis
  proof (cases "aw_arena ?w0")
    case None
    then have "arena_alloc_direct env request (2 ^ al) w = Some (None, ?w0)" by (simp add: arena_alloc_direct_def Let_def)
    then show ?thesis using world_inv_mono [OF L(1) _ n] by (simp add: answered_def)
  next
    case (Some a)
    obtain r a' os' where B: "arena_alloc_block (ae_page env) (ae_mmap env) sz (2 ^ ?A) a (aw_os ?w0) = Some (r, a', os')"
      "answered env mapped N tls live n ?A sz r (?w0\<lparr>aw_arena := Some a', aw_os := os'\<rparr>)"
      using mutex_alloc_ok [OF L(1) Some k A(1) sz(2) n] unfolding A(2) by blast
    have "publish_arena_chunk a' (?w0\<lparr>aw_os := os'\<rparr>) = publish_arena_chunk a' (?w0\<lparr>aw_arena := Some a', aw_os := os'\<rparr>)"
      by (simp add: publish_arena_chunk_def)
    then have "arena_alloc_direct env request (2 ^ al) w = Some (r, publish_arena_chunk a' (?w0\<lparr>aw_arena := Some a', aw_os := os'\<rparr>))"
      using Some B(1) sz(1) by (simp add: arena_alloc_direct_def Let_def align)
    moreover have "answered env mapped N tls live n ?A sz r (publish_arena_chunk a' (?w0\<lparr>aw_arena := Some a', aw_os := os'\<rparr>))"
      by (rule answered_publish [OF B(2)]) simp
    ultimately show ?thesis by blast
  qed
qed

section \<open>Runs\<close>

text \<open>
  A fresh instance: no arena yet, no chunk registered, not latched as exhausted, and no hot block of its owner. A \<open>strict\<close> run only
  asks for what an empty chunk holds, only through the routed arm, and its chunk registry takes every chunk.
\<close>

definition arena_start :: "'os arena_env \<Rightarrow> nat \<Rightarrow> (nat \<Rightarrow> hot_tls) \<Rightarrow> 'os arena_world \<Rightarrow> bool" where
  "arena_start env N tls w \<longleftrightarrow> N < 2 ^ 32 \<and> aw_arena w = None \<and> aw_published w = None
     \<and> aw_chunks w = arena_chunk_registry_new \<and> \<not> aw_exhausted w
     \<and> (\<forall>t < N. span_owner (span (tls t)) \<noteq> ae_owner env \<and> arena_free_owner (tls t) \<noteq> ae_owner env)"

text \<open>
  \<open>N\<close> threads with hot blocks \<open>tls\<close> allocate, free what is live, reset the arena (after which nothing is
  live), allocate directly; the rest of the process maps memory. \<open>n\<close> counts the allocations asked for.
\<close>

inductive arena_reach ::
  "bool \<Rightarrow> 'os arena_env \<Rightarrow> ('os \<Rightarrow> nat set) \<Rightarrow> nat \<Rightarrow> (nat \<Rightarrow> hot_tls) \<Rightarrow> block set \<Rightarrow> nat \<Rightarrow> 'os arena_world \<Rightarrow> bool"
  for strict :: bool and env :: "'os arena_env" and mapped :: "'os \<Rightarrow> nat set" and N :: nat
where
  start: "arena_start env N tls w \<Longrightarrow> arena_reach strict env mapped N tls {} 0 w"
| alloc: "arena_reach strict env mapped N tls live n w \<Longrightarrow> t < N \<Longrightarrow> al \<le> 62 \<Longrightarrow> n + 1 < 2 ^ 64 \<Longrightarrow>
    sz = (if aw_headerless w \<and> (2 :: usize) ^ al \<le> MIN_ALIGN then tot - pad else tot) \<Longrightarrow> 0 < unat sz \<Longrightarrow>
    arena_arm env tot pad (2 ^ al) (tls t) w = Some (r, h, w') \<Longrightarrow>
    (strict \<Longrightarrow> unat sz + 2 ^ max al 4 \<le> 2 ^ 20 \<and> accepted (aw_chunks w) w') \<Longrightarrow>
    arena_reach strict env mapped N (tls(t := h)) (case r of None \<Rightarrow> live | Some (p, _) \<Rightarrow> insert (p, sz) live) (n + 1) w'"
| free: "arena_reach strict env mapped N tls live n w \<Longrightarrow> t < N \<Longrightarrow> b \<in> live \<Longrightarrow> unat q \<in> bset b \<Longrightarrow>
    arena_note_free env q (tls t) w = Some (h, w') \<Longrightarrow>
    arena_reach strict env mapped N (tls(t := h)) (live - {b}) n w'"
| reset: "arena_reach strict env mapped N tls live n w \<Longrightarrow> unat (aw_epoch w) + 1 < 2 ^ 64 \<Longrightarrow>
    arena_reach strict env mapped N tls {} n (reset_arena w)"
| direct: "arena_reach strict env mapped N tls live n w \<Longrightarrow> \<not> strict \<Longrightarrow> al \<le> 62 \<Longrightarrow> n + 1 < 2 ^ 64 \<Longrightarrow>
    sz = request + header_pad (2 ^ max al 4) \<Longrightarrow> 0 < unat sz \<Longrightarrow>
    arena_alloc_direct env request (2 ^ al) w = Some (r, w') \<Longrightarrow>
    arena_reach strict env mapped N tls (case r of None \<Rightarrow> live | Some p \<Rightarrow> insert (p, sz) live) (n + 1) w'"
| maps: "arena_reach strict env mapped N tls live n w \<Longrightarrow> mapped (aw_os w) \<subseteq> mapped os' \<Longrightarrow>
    arena_reach strict env mapped N tls live n (w\<lparr>aw_os := os'\<rparr>)"

inductive_simps arena_reach_zero: "arena_reach strict env mapped N tls live 0 w"

lemma answered_inv:
  "answered env mapped N tls live n al sz r w \<Longrightarrow>
   world_inv env mapped N tls (case r of None \<Rightarrow> live | Some p \<Rightarrow> insert (p, sz) live) (n + 1) w"
  by (cases r) (simp_all add: answered_def)

lemma arena_reach_inv:
  assumes "arena_reach strict env mapped N tls live n w" and k: "pages_ok (ae_page env) (ae_mmap env) mapped"
  shows "world_inv env mapped N tls live n w \<and> (strict \<longrightarrow> registered w)"
  using assms(1)
proof induction
  case (start tls w)
  then show ?case using chk.look_empty chk.table_inv_empty by (simp add: arena_start_def world_inv_def registered_def)
next
  case (alloc tls live n w t al sz tot pad r h w')
  obtain q h' w2 where A: "arena_arm env tot pad (2 ^ al) (tls t) w =
      Some (map_option (\<lambda>p. (p, aw_headerless w \<and> (2 :: usize) ^ al \<le> MIN_ALIGN)) q, h', w2)"
    "answered env mapped N (tls(t := h')) live n (max al 4) sz q w2"
    "registered w \<longrightarrow> unat sz + 2 ^ max al 4 \<le> 2 ^ 20 \<longrightarrow> accepted (aw_chunks w) w2 \<longrightarrow> registered w2"
    using arena_arm_ok [OF conjunct1 [OF alloc.IH] alloc.hyps(2) k alloc.hyps(3-6)] by blast
  have e: "r = map_option (\<lambda>p. (p, aw_headerless w \<and> (2 :: usize) ^ al \<le> MIN_ALIGN)) q" "h' = h" "w2 = w'"
    using A(1) alloc.hyps(7) by simp_all
  then have "(case r of None \<Rightarrow> live | Some (p, _) \<Rightarrow> insert (p, sz) live) = (case q of None \<Rightarrow> live | Some p \<Rightarrow> insert (p, sz) live)"
    by (cases q) simp_all
  moreover have "strict \<longrightarrow> registered w'" using A(3) alloc.hyps(8) alloc.IH e(3) by blast
  ultimately show ?case using answered_inv [OF A(2)] unfolding e(2,3) by argo
next
  case (free tls live n w t b q h w')
  have "calm w w'" by (rule note_free_calm [OF free.hyps(5)])
  then have "strict \<longrightarrow> registered w'" using free.IH calm_registered by blast
  moreover obtain h' w2 where "arena_note_free env q (tls t) w = Some (h', w2)" "world_inv env mapped N (tls(t := h')) (live - {b}) n w2"
    using note_free_ok [OF conjunct1 [OF free.IH] free.hyps(2-4)] by blast
  moreover from this have "h' = h" "w2 = w'" using free.hyps(5) by simp_all
  ultimately show ?case by blast
next
  case (reset tls live n w)
  have "registered (reset_arena w)" if r: "registered w"
  proof (cases "aw_arena w")
    case None
    then show ?thesis by (simp add: reset_arena_def registered_def)
  next
    case (Some a)
    note S = world_inv_SomeD [OF conjunct1 [OF reset.IH] Some]
    have "0 < length (ar_chunks a)" using arena_invD(3) [OF S(1)] by linarith
    then have "ch_base (ar_chunks (upd_chunk 0 (\<lambda>c. c\<lparr>ch_desc := True\<rparr>) (arena_reset a)) ! i) = ch_base (ar_chunks a ! i)"
      if "i < length (ar_chunks a)" for i using that by (cases i) (simp_all add: upd_chunk_def arena_reset_def)
    moreover have "ar_current (arena_reset a) = 0" "length (ar_chunks (upd_chunk 0 (\<lambda>c. c\<lparr>ch_desc := True\<rparr>) (arena_reset a))) = length (ar_chunks a)"
      by (simp_all add: arena_reset_def upd_chunk_def)
    ultimately show ?thesis using r Some by (simp add: reset_arena_def Let_def registered_def publish_frame)
  qed
  then show ?case using reset_arena_ok [OF conjunct1 [OF reset.IH] reset.hyps(2)] reset.IH by blast
next
  case (direct tls live n w al sz request r w')
  obtain q w2 where "arena_alloc_direct env request (2 ^ al) w = Some (q, w2)" "answered env mapped N tls live n (max al 4) sz q w2"
    using arena_direct_ok [OF conjunct1 [OF direct.IH] k direct.hyps(3-6)] by blast
  then show ?case using answered_inv direct.hyps(2,7) by fastforce
next
  case (maps tls live n w os')
  have "world_inv env mapped N tls live n (w\<lparr>aw_os := os'\<rparr>)"
    using maps.IH arena_inv_M [OF _ maps.hyps(2)] by (cases "aw_arena w") (auto simp: world_inv_def)
  then show ?case using maps.IH by (simp add: registered_def)
qed

text \<open>The arena is latched as exhausted only while it has all the chunks of its cap.\<close>

definition capped :: "'os arena_world \<Rightarrow> bool" where
  "capped w \<longleftrightarrow> (\<exists>a. aw_arena w = Some a \<and> length (ar_chunks a) = ar_max_chunks a)"

lemma calm_capped: "calm w w' \<Longrightarrow> capped w \<Longrightarrow> capped w'"
  by (cases "aw_arena w'") (auto simp: calm_def capped_def grows_def)

lemma lazy_arena_exhausted: "aw_exhausted (lazy_arena env arm w) = aw_exhausted w"
  by (auto simp: lazy_arena_def arena_reclaim_active_def split: option.split prod.split)

lemma slow_latch:
  assumes "arena_slow env sz al w = Some (r, w')" and "\<not> aw_exhausted w" and "aw_exhausted w'"
  shows "capped w'"
proof -
  let ?w = "lazy_arena env True w"
  have x: "\<not> aw_exhausted ?w" using assms(2) by (simp add: lazy_arena_exhausted)
  show ?thesis
  proof (cases "aw_arena ?w")
    case None
    then show ?thesis using assms(1,3) x by (simp add: arena_slow_def Let_def)
  next
    case (Some a)
    obtain q a' os' where q: "arena_alloc_block (ae_page env) (ae_mmap env) sz al a (aw_os ?w) = Some (q, a', os')"
      using assms(1) Some by (auto simp: arena_slow_def Let_def bind_eq_Some_conv)
    let ?step = "\<lambda>reg chunks. (let w1 = ?w\<lparr>aw_arena := Some a', aw_os := os', aw_chunks := chunks\<rparr>;
        w2 = (if reg then publish_arena_chunk a' w1 else w1); result = (if reg then q else None)
      in (result, if result = None \<and> exhausted_after_failed sz al a' then w2\<lparr>aw_exhausted := True\<rparr> else w2))"
    obtain reg chunks where rc: "(if q = None then (True, aw_chunks ?w)
        else if chunks_are_default_sized a' then register_all (chunk_entries a') (aw_chunks ?w) else (False, aw_chunks ?w)) = (reg, chunks)"
      by force
    have "arena_slow env sz al w = Some (?step reg chunks)"
      unfolding arena_slow_def Let_def Some option.case q Option.bind.bind_lunit prod.case rc ..
    then have w': "(r, w') = ?step reg chunks" using assms(1) by simp
    have "capped w'" if "exhausted_after_failed sz al a'"
      using w' that by (auto simp: Let_def capped_def exhausted_after_failed_def publish_arena_chunk_def upd_chunk_def)
    moreover have "exhausted_after_failed sz al a'"
      using w' assms(3) x by (auto simp: Let_def publish_arena_chunk_def split: if_splits)
    ultimately show ?thesis .
  qed
qed

lemma arm_latch:
  assumes inv: "world_inv env mapped N tls live n w" and t: "t < N" and al: "al \<le> 62" and n: "n + 1 < 2 ^ 64"
    and sz: "sz = (if aw_headerless w \<and> (2 :: usize) ^ al \<le> MIN_ALIGN then tot - pad else tot)" "0 < unat sz"
    and run: "arena_arm env tot pad (2 ^ al) (tls t) w = Some (r, h, w')"
    and old: "aw_exhausted w \<longrightarrow> capped w" and new: "aw_exhausted w'"
  shows "capped w'"
proof (cases "aw_exhausted w")
  case True
  then show ?thesis using run old by (simp add: arena_arm_def)
next
  case False
  obtain q g w1 where F: "arena_alloc_fast env sz (2 ^ al) (tls t) w = Some (q, g, w1)" "calm w w1"
    "served env mapped N tls live n (max al 4) sz t q g w1"
    using alloc_fast_ok [OF inv t al sz(2) n] by blast
  have x1: "\<not> aw_exhausted w1" using F(2) False by (auto simp: calm_def)
  show ?thesis
  proof (cases q)
    case (Some p)
    then have "w' = w1" using run False F(1) sz(1) by (auto simp: arena_arm_def Let_def split: if_splits)
    then show ?thesis using x1 new by simp
  next
    case None
    have i1: "world_inv env mapped N (tls(t := g)) live n w1" using F(3) None by (simp add: served_def)
    have gt: "(tls(t := g)) t = g" by simp
    obtain h2 w2 where C: "arena_clear_own_blockers env g w1 = Some (h2, w2)" "calm w1 w2"
      using clear_blockers_ok [OF i1 t] unfolding gt by auto
    have x2: "\<not> aw_exhausted w2" using C(2) x1 by (auto simp: calm_def)
    have "\<exists>q. arena_slow env sz (2 ^ al) w2 = Some (q, w')"
      using run False F(1) None C(1) sz(1) by (auto simp: arena_arm_def Let_def bind_eq_Some_conv split: if_splits)
    then show ?thesis using slow_latch [OF _ x2 new] by blast
  qed
qed

lemma direct_latch:
  assumes inv: "world_inv env mapped N tls live n w" and k: "pages_ok (ae_page env) (ae_mmap env) mapped"
    and al: "al \<le> 62" and n: "n + 1 < 2 ^ 64" and sz: "sz = request + header_pad (2 ^ max al 4)" "0 < unat sz"
    and run: "arena_alloc_direct env request (2 ^ al) w = Some (r, w')" and a: "capped w"
  shows "capped w'"
proof -
  obtain a where a: "aw_arena w = Some a" "length (ar_chunks a) = ar_max_chunks a" using a by (auto simp: capped_def)
  have A: "max al 4 \<le> 62" "max (max al 4) 4 = max al 4" using al by simp_all
  have l: "lazy_arena env False w = w" by (simp add: lazy_arena_def a)
  obtain q a' os' where B: "arena_alloc_block (ae_page env) (ae_mmap env) sz (2 ^ max al 4) a (aw_os w) = Some (q, a', os')" "grows a a'"
    "got_block (ae_owner env) (aw_epoch w) N tls live n (max al 4) sz q (mapped os') a'"
    using arena_alloc_block_ok [OF world_inv_SomeD(1) [OF inv a(1)] k A(1) sz(2) n] unfolding A(2) by blast
  have "length (ar_chunks a') \<le> ar_max_chunks a'"
    using B(3) arena_invD(4) by (cases q) (auto simp: got_block_def)
  then have "length (ar_chunks a') = ar_max_chunks a'" using B(2) a(2) by (simp add: grows_def)
  moreover have "w' = publish_arena_chunk a' (w\<lparr>aw_os := os'\<rparr>)"
    using run B(1) by (simp add: arena_alloc_direct_def Let_def l a(1) max_min_align [OF al] sz(1))
  ultimately show ?thesis by (simp add: capped_def publish_arena_chunk_def upd_chunk_def)
qed

lemma arena_reach_capped:
  assumes "arena_reach strict env mapped N tls live n w" and k: "pages_ok (ae_page env) (ae_mmap env) mapped"
  shows "aw_exhausted w \<Longrightarrow> capped w"
  using assms(1)
proof induction
  case (start tls w)
  then show ?case by (simp add: arena_start_def)
next
  case (alloc tls live n w t al sz tot pad r h w')
  note inv = conjunct1 [OF arena_reach_inv [OF alloc.hyps(1) k]]
  show ?case using arm_latch [OF inv alloc.hyps(2-7)] alloc.IH alloc.prems by blast
next
  case (free tls live n w t b q h w')
  have c: "calm w w'" by (rule note_free_calm [OF free.hyps(5)])
  then have "aw_exhausted w" using free.prems by (simp add: calm_def)
  then show ?case using calm_capped [OF c] free.IH by blast
next
  case (reset tls live n w)
  then show ?case by (simp add: reset_arena_def Let_def)
next
  case (direct tls live n w al sz request r w')
  note inv = conjunct1 [OF arena_reach_inv [OF direct.hyps(1) k]]
  have "aw_exhausted w' = aw_exhausted w"
    using direct.hyps(7) by (auto simp: arena_alloc_direct_def Let_def bind_eq_Some_conv lazy_arena_exhausted publish_frame
        split: option.splits)
  then show ?case using direct_latch [OF inv k direct.hyps(3-7)] direct.IH direct.prems by blast
next
  case (maps tls live n w os')
  then show ?case by (simp add: capped_def)
qed

section \<open>A first request that fits no chunk\<close>

lemma foreign_fast_none:
  assumes "aw_published w = None" and "span_owner (span h) \<noteq> ae_owner env"
  shows "arena_alloc_fast env sz al h w = Some (None, h, w)"
  using assms by (auto simp: arena_alloc_fast_def span_bump_def arena_carve_shared_def Let_def split: option.split)

lemma foreign_clear:
  assumes "span_owner (span h) \<noteq> ae_owner env" and "arena_free_owner h \<noteq> ae_owner env"
  obtains h' r where "arena_clear_own_blockers env h w = Some (h', w\<lparr>aw_reclaim_on := r\<rparr>)" and "span_owner (span h') \<noteq> ae_owner env"
proof -
  obtain on w1 where r: "arena_reclaim_active env w = (on, w1)" by force
  obtain q where q: "w1 = w\<lparr>aw_reclaim_on := q\<rparr>" using reclaim_active_cases [OF r] by metis
  show thesis
  proof (cases "\<not> on \<or> \<not> ae_self_flush env")
    case True
    then show thesis using that [of h q] assms(1) r q by (simp add: arena_clear_own_blockers_def)
  next
    case False
    obtain g where g: "arena_flush_free_batch env h w1 = Some (g, w1)" "span g = span h"
      using assms(2) by (cases "arena_free_pending h = 0") (simp_all add: arena_flush_free_batch_def Let_def)
    then show thesis using that [of "g\<lparr>span := (span g)\<lparr>span_meta := 0, span_blocks := 0, span_end := 0, span_cursor := 1\<rparr>\<rparr>" q] assms(1) r q False
      by (simp add: arena_clear_own_blockers_def retire_span_def Let_def)
  qed
qed

text \<open>The first chunk: empty, aligned to its size, and alone in a fresh arena.\<close>

lemma first_chunk:
  assumes k: "pages_ok page mmap mapped" and m: "fst (chunk_new page mmap (2 ^ 20) os) \<noteq> None"
  obtains c os' where "arena_new page mmap ncpus os = (Some \<lparr>ar_chunks = [c], ar_current = 0, ar_chunk_size = 2 ^ 20,
      ar_max_chunks = scaled_max_chunks ncpus, ar_reclaim = False, ar_stats = recycle_stats_default\<rparr>, os')"
    and "ch_ok c" and "ch_cursor c = ch_base c" and "ch_capacity c = 2 ^ 20"
proof -
  have size: "DEFAULT_CHUNK_SIZE = 2 ^ 20" by (simp add: DEFAULT_CHUNK_SIZE_def push_bit_eq_mult)
  obtain c os' where c: "chunk_new page mmap (2 ^ 20) os = (Some c, os')"
    using m by (cases "chunk_new page mmap (2 ^ 20) os") auto
  have C: "ch_ok c" "ch_cursor c = ch_base c" using chunk_new_ok(2) [OF k c] by blast+
  have "unat (ch_capacity c) = unat ((2 :: usize) ^ 20)" using C(1) by (simp add: ch_ok_def)
  then have "ch_capacity c = 2 ^ 20" by (simp only: word_unat_eq_iff)
  then show thesis using that [OF _ C] c unfolding arena_new_def arena_with_cap_def size by simp
qed

lemma too_big_for_chunk:
  assumes c: "ch_ok c" "ch_cursor c = ch_base c" "ch_capacity c = 2 ^ 20" and a: "a \<le> 62" and sz: "2 ^ 20 < unat sz"
  shows "chunk_alloc sz (2 ^ a) c = (None, c)"
proof -
  have b: "unat (ch_base c) + 2 ^ 20 < 2 ^ 63" using c(1) by (simp add: ch_ok_def)
  let ?p = "align_up (ch_cursor c) (2 ^ max a 4)"
  have le: "unat (ch_base c) \<le> unat ?p" using align_up_unat_le(1) [of "ch_cursor c" "max a 4"] b a c(2) by simp
  show ?thesis
  proof (cases "checked_add ?p sz")
    case None
    then show ?thesis by (simp add: chunk_alloc_def max_min_align [OF a] Let_def)
  next
    case (Some e)
    have "unat (ch_base c + 2 ^ 20) = unat (ch_base c) + 2 ^ 20" using b by (simp add: unat_add_64)
    then have "ch_base c + ch_capacity c < e" using checked_add_unat [OF Some] le sz c(3) by (simp add: word_less_nat_alt)
    then show ?thesis using Some by (simp add: chunk_alloc_def max_min_align [OF a] Let_def)
  qed
qed

lemma too_big_for_arena:
  assumes c: "ch_ok c" "ch_cursor c = ch_base c" "ch_capacity c = 2 ^ 20" and a: "al \<le> 62" and sz: "2 ^ 20 < unat sz"
    and A: "A = \<lparr>ar_chunks = [c], ar_current = 0, ar_chunk_size = 2 ^ 20, ar_max_chunks = m, ar_reclaim = on, ar_stats = st\<rparr>"
  shows "arena_alloc_block page mmap sz (2 ^ al) A os = Some (None, A, os)" and "\<not> exhausted_after_failed sz (2 ^ al) A"
proof -
  have m: "max al 4 \<le> 62" using a by simp
  have z: "sz \<noteq> 0" using sz by auto
  have cur: "alloc_current sz (2 ^ max al 4) A = Some (None, A)"
    using too_big_for_chunk [OF c m sz] by (simp add: alloc_current_def A chunk_at_def)
  have big: "2 ^ 20 < n" if "checked_add sz (2 ^ max al 4) = Some n" for n
    using checked_add_unat [OF that] sz by (simp add: word_less_nat_alt)
  show "arena_alloc_block page mmap sz (2 ^ al) A os = Some (None, A, os)"
    using z cur big c(3) by (auto simp: arena_alloc_block_def max_min_align [OF a] Let_def chunk_at_def A split: option.split)
  have "sz \<le> saturating_add sz (max (2 ^ al) MIN_ALIGN)"
  proof (cases "unat sz + unat (max (2 ^ al) MIN_ALIGN :: usize) < 2 ^ 64")
    case True
    then show ?thesis by (simp add: saturating_add_def word_le_nat_alt unat_add_64)
  next
    case False
    then show ?thesis unfolding saturating_add_def by (simp only: if_False word_n1_ge)
  qed
  then have "\<not> saturating_add sz (max (2 ^ al) MIN_ALIGN) \<le> 2 ^ 20" using sz by (simp add: word_le_nat_alt)
  then show "\<not> exhausted_after_failed sz (2 ^ al) A" by (simp add: exhausted_after_failed_def A)
qed

text \<open>The failed request leaves the chunk published and the chunk registry as it was.\<close>

lemma first_failure:
  assumes k: "pages_ok (ae_page env) (ae_mmap env) mapped" and w: "arena_start env N tls w" and t: "t < N"
    and m: "fst (chunk_new (ae_page env) (ae_mmap env) (2 ^ 20) (aw_os w)) \<noteq> None"
    and al: "al \<le> 62" and sz: "sz = (if aw_headerless w \<and> (2 :: usize) ^ al \<le> MIN_ALIGN then tot - pad else tot)" "2 ^ 20 < unat sz"
  obtains h w' c A where "arena_arm env tot pad (2 ^ al) (tls t) w = Some (None, h, w')" and "span_owner (span h) \<noteq> ae_owner env"
    and "aw_arena w' = Some A" and "ar_chunks A = [c]" and "aw_published w' = Some 0" and "aw_chunks w' = arena_chunk_registry_new"
    and "\<not> aw_exhausted w'" and "aw_headerless w' = aw_headerless w"
    and "ch_ok c" and "ch_cursor c = ch_base c" and "ch_capacity c = 2 ^ 20"
proof -
  have W: "aw_published w = None" "aw_arena w = None" "\<not> aw_exhausted w" "aw_chunks w = arena_chunk_registry_new"
    "span_owner (span (tls t)) \<noteq> ae_owner env" "arena_free_owner (tls t) \<noteq> ae_owner env"
    using w t by (simp_all add: arena_start_def)
  obtain h r where C: "arena_clear_own_blockers env (tls t) w = Some (h, w\<lparr>aw_reclaim_on := r\<rparr>)" "span_owner (span h) \<noteq> ae_owner env"
    by (rule foreign_clear [OF W(5,6)])
  let ?w = "w\<lparr>aw_reclaim_on := r\<rparr>"
  obtain c os' where N: "arena_new (ae_page env) (ae_mmap env) (ae_ncpus env) (aw_os w) =
      (Some \<lparr>ar_chunks = [c], ar_current = 0, ar_chunk_size = 2 ^ 20,
      ar_max_chunks = scaled_max_chunks (ae_ncpus env), ar_reclaim = False, ar_stats = recycle_stats_default\<rparr>, os')"
    and c: "ch_ok c" "ch_cursor c = ch_base c" "ch_capacity c = 2 ^ 20" by (rule first_chunk [OF k m])
  obtain on w1 where R: "arena_reclaim_active env (?w\<lparr>aw_os := os'\<rparr>) = (on, w1)" by force
  obtain q where q: "w1 = ?w\<lparr>aw_os := os', aw_reclaim_on := q\<rparr>" using reclaim_active_cases [OF R] by metis
  let ?A = "\<lparr>ar_chunks = [c], ar_current = 0, ar_chunk_size = 2 ^ 20, ar_max_chunks = scaled_max_chunks (ae_ncpus env),
    ar_reclaim = on, ar_stats = recycle_stats_default\<rparr>"
  let ?l = "w1\<lparr>aw_arena := Some ?A\<rparr>"
  have L: "lazy_arena env True ?w = ?l" using W(2) N R by (simp add: lazy_arena_def set_reclaim_def)
  note B = too_big_for_arena [OF c al sz(2) refl]
  have la: "aw_arena ?l = Some ?A" by simp
  have S: "?l\<lparr>aw_arena := Some ?A, aw_os := aw_os ?l, aw_chunks := aw_chunks ?l\<rparr> = ?l" by (cases w1) simp
  have "arena_slow env sz (2 ^ al) ?w = Some (None, publish_arena_chunk ?A ?l)"
    unfolding arena_slow_def Let_def L la option.case B(1) Option.bind.bind_lunit prod.case simp_thms if_True S
    using B(2) by (simp only: if_False)
  then have "arena_arm env tot pad (2 ^ al) (tls t) w = Some (None, h, publish_arena_chunk ?A ?l)"
    using W(3) C(1) sz(1) foreign_fast_none [OF W(1,5)] by (auto simp: arena_arm_def Let_def)
  then show thesis
    by (rule that [OF _ C(2), of _ "?A\<lparr>ar_chunks := [c\<lparr>ch_desc := True\<rparr>]\<rparr>" "c\<lparr>ch_desc := True\<rparr>"])
      (use c W(3,4) in \<open>simp_all add: publish_arena_chunk_def upd_chunk_def q ch_ok_def\<close>)
qed

text \<open>The next small request is served from the published chunk, which the registry does not learn.\<close>

lemma published_serves:
  assumes h: "span_owner (span h) \<noteq> ae_owner env"
    and w: "aw_arena w = Some A" "ar_chunks A = [c]" "aw_published w = Some 0" "\<not> aw_exhausted w" "aw_headerless w"
    and c: "ch_ok c" "ch_cursor c = ch_base c" "ch_capacity c = 2 ^ 20"
    and j: "j \<le> 4" and sz: "unat (tot - pad) \<le> 2 ^ 20"
  shows "\<exists>h' w'. arena_arm env tot pad (2 ^ j) h w = Some (Some (ch_base c, True), h', w') \<and> aw_chunks w' = aw_chunks w"
proof -
  obtain on w1 where R: "arena_reclaim_active env w = (on, w1)" by force
  obtain q where q: "w1 = w\<lparr>aw_reclaim_on := q\<rparr>" using reclaim_active_cases [OF R] by metis
  have b: "2 ^ 20 dvd unat (ch_base c)" "unat (ch_base c) + 2 ^ 20 < 2 ^ 63" "cm_intent (ch_meta c) = 0"
    using c(1) by (simp_all add: ch_ok_def)
  have "(2 :: nat) ^ 4 dvd 2 ^ 20" by (rule le_imp_power_dvd) simp
  then have "2 ^ 4 dvd unat (ch_base c)" using b(1) by (rule dvd_trans)
  then have "is_aligned (ch_base c) (2 ^ 4)" by (simp only: is_aligned_unat)
  then have up: "align_up (ch_base c) 16 = ch_base c" using align_up_id [of 4 "ch_base c"] b(2) by simp
  have al: "max (2 ^ j) MIN_ALIGN = (16 :: usize)" "(2 :: usize) ^ j \<le> MIN_ALIGN"
  proof -
    have "j = 0 \<or> j = 1 \<or> j = 2 \<or> j = 3 \<or> j = 4" using j by linarith
    then show "max (2 ^ j) MIN_ALIGN = (16 :: usize)" "(2 :: usize) ^ j \<le> MIN_ALIGN" by (auto simp: MIN_ALIGN_def)
  qed
  let ?res = "max (tot - pad) ARENA_SPAN_BYTES"
  have res: "unat ?res \<le> 2 ^ 20" using sz by (simp add: max_def ARENA_SPAN_BYTES_def)
  have add: "checked_add (ch_base c) ?res = Some (ch_base c + ?res)" using res b(2) by (simp add: checked_add_Some)
  have "unat (ch_base c + ?res) = unat (ch_base c) + unat ?res" "unat (ch_base c + 2 ^ 20) = unat (ch_base c) + 2 ^ 20"
    using res b(2) by (simp_all add: unat_add_64)
  then have room: "\<not> ch_base c + ch_capacity c < ch_base c + ?res" using res c(3) by (simp add: word_less_nat_alt)
  have "span_bump env (tot - pad) 16 h w = None" using h by (simp add: span_bump_def Let_def)
  then show ?thesis
    using h w c(2) b(3) up add room R q
    by (simp add: arena_arm_def Let_def al al [unfolded MIN_ALIGN_def] arena_alloc_fast_def arena_carve_shared_def world_chunk_def chunk_at_def
        set_chunk_def upd_chunk_def pin_meta_def MIN_ALIGN_def retire_span_def)
qed

section \<open>A concrete instance\<close>

text \<open>
  The kernel of the slab's example, one processor that reports nothing, recycling on, owner 1. The header-free
  latch is the argument.
\<close>

definition arena_demo_env :: "bump arena_env" where
  "arena_demo_env = \<lparr>ae_page = 4096, ae_mmap = bump_mmap, ae_ncpus = 0, ae_reclaim = True, ae_self_flush = True, ae_owner = 1\<rparr>"

definition arena_demo_world :: "bump arena_world" where
  "arena_demo_world = \<lparr>aw_arena = None, aw_published = None, aw_epoch = 0, aw_exhausted = False, aw_headerless = True,
     aw_reclaim_on = 0, aw_chunks = arena_chunk_registry_new, aw_os = (0x10000, [])\<rparr>"

lemma round_up_mib: "round_up_pow2 0x100000 = 0x100000"
proof -
  have "bit_len 1048575 = Suc 19" by (rule bit_len_eqI) simp_all
  then have "unat (round_up_pow2 0x100000) = unat (0x100000::usize)" by (simp add: round_up_pow2_unat)
  then show ?thesis by (simp only: unsigned_word_eqI)
qed

definition demo_chunk :: "usize \<Rightarrow> chunk_meta \<Rightarrow> bool \<Rightarrow> chunk" where
  "demo_chunk cur m d = \<lparr>ch_mapping = \<lparr>map_base = 0x10000, map_ptr = 0x100000, map_len = 0x200000, map_usable = 0x110000\<rparr>,
     ch_base = 0x100000, ch_capacity = 0x100000, ch_cursor = cur, ch_meta = m, ch_desc = d\<rparr>"

definition demo_os :: bump where "demo_os = (0x210000, [Mapped 0x10000 0x200000, Below 0x10000])"

definition demo_meta :: "usize \<Rightarrow> usize \<Rightarrow> chunk_meta" where
  "demo_meta s c = \<lparr>cm_intent = 0, cm_spans = s, cm_carved = c, cm_freed = 0\<rparr>"

definition demo_arena :: "bool \<Rightarrow> usize \<Rightarrow> usize \<Rightarrow> usize \<Rightarrow> bool \<Rightarrow> bump_arena" where
  "demo_arena on cur s c d = \<lparr>ar_chunks = [demo_chunk cur (demo_meta s c) d], ar_current = 0, ar_chunk_size = 0x100000, ar_max_chunks = 32,
     ar_reclaim = on, ar_stats = recycle_stats_default\<rparr>"

lemma demo_new: "arena_new 4096 bump_mmap 0 (0x10000, []) = (Some (demo_arena False 0x100000 0 0 False), demo_os)"
proof -
  have a: "align_up 0x200000 4096 = 0x200000" "align_up 0x10000 0x100000 = 0x100000" by code_simp+
  have d: "DEFAULT_CHUNK_SIZE = 0x100000" by (simp add: DEFAULT_CHUNK_SIZE_def push_bit_eq_mult)
  have "scaled_max_chunks 0 = 32" by (simp add: scaled_max_chunks_def BASE_MAX_CHUNKS_def MAX_CHUNKS_CAP_def)
  moreover have "chunk_new 4096 bump_mmap 0x100000 (0x10000, []) = (Some (demo_chunk 0x100000 (demo_meta 0 0) False), demo_os)"
    by (simp add: chunk_new_def Let_def round_up_mib MIN_ALIGN_def alloc_pages_def bump_mmap_def round_to_pages_def a
        demo_chunk_def demo_os_def demo_meta_def chunk_meta_new_def)
  ultimately show ?thesis by (simp add: arena_new_def arena_with_cap_def d demo_arena_def)
qed

definition demo_reg :: arena_chunk_registry where "demo_reg = snd (chk_insert arena_chunk_registry_new 0x100000 1)"

definition demo_world :: "bool \<Rightarrow> usize \<Rightarrow> usize \<Rightarrow> usize \<Rightarrow> arena_chunk_registry \<Rightarrow> bump arena_world" where
  "demo_world on cur s c reg = \<lparr>aw_arena = Some (demo_arena on cur s c True), aw_published = Some 0, aw_epoch = 0, aw_exhausted = False,
     aw_headerless = True, aw_reclaim_on = 1, aw_chunks = reg, aw_os = demo_os\<rparr>"

lemma demo_registers: "register_all [(0x100000, 1)] arena_chunk_registry_new = (True, demo_reg)"
proof -
  have "fst (chk_insert arena_chunk_registry_new 0x100000 1)" by code_simp
  then show ?thesis by (simp add: demo_reg_def prod_eq_iff split: prod.splits)
qed

lemma demo_lazy: "lazy_arena arena_demo_env True (arena_demo_world\<lparr>aw_reclaim_on := 1\<rparr>) =
    arena_demo_world\<lparr>aw_reclaim_on := 1, aw_os := demo_os, aw_arena := Some (demo_arena True 0x100000 0 0 False)\<rparr>"
  by (simp add: lazy_arena_def arena_demo_env_def arena_demo_world_def demo_new arena_reclaim_active_def set_reclaim_def demo_arena_def)

text \<open>The first block makes the arena and registers its chunk.\<close>

lemma HOT_simps [simp]:
  "span HOT = arena_span_init" "arena_free_pending HOT = 0" "span_owner arena_span_init = 0" "span_meta arena_span_init = 0"
  by (simp_all add: HOT_def arena_span_init_def)

lemma env_simps [simp]:
  "ae_owner arena_demo_env = 1" "ae_reclaim arena_demo_env" "ae_self_flush arena_demo_env" "ae_page arena_demo_env = 4096"
  "ae_mmap arena_demo_env = bump_mmap"
  by (simp_all add: arena_demo_env_def)

lemma demo_world_simps [simp]:
  "aw_exhausted arena_demo_world = False" "aw_headerless arena_demo_world" "aw_published arena_demo_world = None"
  "aw_arena arena_demo_world = None" "aw_reclaim_on arena_demo_world = 0" "aw_os arena_demo_world = (0x10000, [])" "aw_chunks arena_demo_world = arena_chunk_registry_new"
  by (simp_all add: arena_demo_world_def)

lemma demo_fast_none:
  assumes "al = 16 \<or> al = 64" and "unat sz < 2 ^ 32"
  shows "arena_alloc_fast arena_demo_env sz al HOT arena_demo_world = Some (None, HOT, arena_demo_world)"
proof -
  have "checked_add (max sz 4096) 64 = Some (max sz 4096 + 64)"
    using assms(2) by (simp add: checked_add_def max_def)
  then show ?thesis using assms(1)
    by (auto simp: arena_alloc_fast_def MIN_ALIGN_def ARENA_SPAN_BYTES_def Let_def span_bump_def arena_carve_shared_def max_def)
qed

lemma demo_clear: "arena_clear_own_blockers arena_demo_env HOT arena_demo_world =
    Some (dead_span HOT, arena_demo_world\<lparr>aw_reclaim_on := 1\<rparr>)"
  by (simp add: arena_clear_own_blockers_def arena_reclaim_active_def arena_flush_free_batch_def retire_span_def dead_span_def Let_def)

lemma demo_publish: "publish_arena_chunk (demo_arena on cur s c False)
    (arena_demo_world\<lparr>aw_reclaim_on := 1, aw_arena := x, aw_os := demo_os, aw_chunks := reg\<rparr>) = demo_world on cur s c reg"
  by (simp add: publish_arena_chunk_def demo_arena_def demo_chunk_def upd_chunk_def demo_world_def arena_demo_world_def)

lemma demo_sized: "chunks_are_default_sized (demo_arena on cur s c d)" "chunk_entries (demo_arena on cur s c d) = [(0x100000, 1)]"
  by (simp_all add: chunks_are_default_sized_def chunk_entries_def demo_arena_def demo_chunk_def CHUNK_BYTES_def DEFAULT_CHUNK_SIZE_def meta_addr_def)

lemma demo_alloc_first: "arena_alloc_block 4096 bump_mmap 64 16 (demo_arena True 0x100000 0 0 False) demo_os =
    Some (Some 0x100000, demo_arena True 0x100040 0 1 False, demo_os)"
proof -
  have "align_up 0x100000 (16 :: usize) = 0x100000" by code_simp
  then show ?thesis
    by (simp add: arena_alloc_block_def alloc_current_def chunk_at_def chunk_alloc_def MIN_ALIGN_def demo_arena_def demo_chunk_def
      checked_add_def note_direct_carve_def upd_chunk_def upd_meta_def demo_meta_def Let_def)
qed

lemma demo_first: "arena_arm arena_demo_env 112 48 16 HOT arena_demo_world =
    Some (Some (0x100000, True), dead_span HOT, demo_world True 0x100040 0 1 demo_reg)"
proof -
  have "arena_slow arena_demo_env 64 16 (arena_demo_world\<lparr>aw_reclaim_on := 1\<rparr>) =
    Some (Some 0x100000, demo_world True 0x100040 0 1 demo_reg)"
    using demo_alloc_first demo_registers demo_publish [of True "0x100040" 0 1] demo_sized
    by (simp add: arena_slow_def demo_lazy Let_def)
  then show ?thesis by (simp add: arena_arm_def demo_fast_none demo_clear MIN_ALIGN_def Let_def)
qed

lemma demo_accepts: "accepted arena_chunk_registry_new (demo_world on cur s c reg)"
  using demo_registers by (simp add: accepted_def demo_world_def demo_sized del: register_all.simps)

lemma demo_arena_start: "arena_start arena_demo_env 1 (\<lambda>_. HOT) arena_demo_world"
  by (simp add: arena_start_def) (simp add: HOT_def)

lemma demo_pages: "pages_ok (ae_page arena_demo_env) (ae_mmap arena_demo_env) bump_mapped"
  using bump_pages_ok by simp

lemma demo_arena_reach:
  "arena_reach True arena_demo_env bump_mapped 1 ((\<lambda>_. HOT)(0 := dead_span HOT)) {(0x100000, 64)} 1 (demo_world True 0x100040 0 1 demo_reg)"
proof -
  have "arena_reach True arena_demo_env bump_mapped 1 ((\<lambda>_. HOT)(0 := dead_span HOT))
      (case Some (0x100000, True) of None \<Rightarrow> {} | Some (p, _) \<Rightarrow> insert (p, 64) {}) (0 + 1) (demo_world True 0x100040 0 1 demo_reg)"
  proof (rule arena_reach.alloc [OF arena_reach.start [OF demo_arena_start], where t = 0 and al = 4 and tot = 112 and pad = 48])
    show "(64 :: usize) = (if aw_headerless arena_demo_world \<and> (2 :: usize) ^ 4 \<le> MIN_ALIGN then 112 - 48 else 112)"
      by (simp add: MIN_ALIGN_def)
    show "arena_arm arena_demo_env 112 48 (2 ^ 4) HOT arena_demo_world =
        Some (Some (0x100000, True), dead_span HOT, demo_world True 0x100040 0 1 demo_reg)"
      using demo_first by simp
    show "unat (64 :: usize) + 2 ^ max 4 4 \<le> 2 ^ 20 \<and> accepted (aw_chunks arena_demo_world) (demo_world True 0x100040 0 1 demo_reg)"
      using demo_accepts by simp
  qed simp_all
  then show ?thesis by simp
qed

section \<open>Properties\<close>

text \<open>
  C13: In every state the arena can reach through allocations by any threads, frees, chunk recycling,
  resets and direct allocations, a live block is mapped, non-empty and disjoint from every other live block:
  neither a span, nor the mutex path, nor a recycled chunk hands out memory twice.
\<close>

theorem arena_live_disjoint:
  assumes "pages_ok (ae_page env) (ae_mmap env) mapped" and "arena_reach strict env mapped N tls live n w" and "b \<in> live"
  shows "bset b \<subseteq> mapped (aw_os w) \<and> bset b \<noteq> {} \<and> 0 < unat (fst b)
    \<and> (\<forall>b' \<in> live. b' \<noteq> b \<longrightarrow> bset b \<inter> bset b' = {})"
proof -
  have inv: "world_inv env mapped N tls live n w" using arena_reach_inv [OF assms(2,1)] ..
  obtain a where a: "aw_arena w = Some a" by (rule live_chunk [OF inv assms(3)])
  note S = world_inv_SomeD [OF inv a]
  obtain i where i: "i < length (ar_chunks a)" "unat (fst b) \<in> bset b" "bset b \<subseteq> cspan (ar_chunks a ! i)" "bset b \<subseteq> mapped (aw_os w)"
    by (rule live_in_M [OF S(1) assms(3)])
  have "0 < unat (ch_base (ar_chunks a ! i))" "unat (ch_base (ar_chunks a ! i)) \<le> unat (fst b)"
    using chunks_okD(1) [OF arena_invD(1) [OF S(1)] i(1)] i(2,3) by (auto simp: ch_ok_def cspan_def unat_gt_0)
  moreover have "bset b \<inter> bset b' = {}" if "b' \<in> live" "b' \<noteq> b" for b'
  proof -
    have "item (ae_owner env) (aw_epoch w) N tls live (Inl b) \<inter> item (ae_owner env) (aw_epoch w) N tls live (Inl b') = {}"
      using arena_invD(6) [OF S(1)] that(2) unfolding geo_def by blast
    then show ?thesis using assms(3) that(1) by (simp add: item_def)
  qed
  ultimately show ?thesis using i(2,4) by auto
qed

lemma arena_live_disjoint_witness: "bset (0x100000, 64) \<subseteq> bump_mapped (aw_os (demo_world True 0x100040 0 1 demo_reg))"
  using arena_live_disjoint [OF demo_pages demo_arena_reach, of "(0x100000, 64)"] by simp

text \<open>
  C14: In every reachable state an allocation from the arena returns, without a panic or an endless
  advance; it fails only if the arena is latched as exhausted and has all the chunks of its cap, an empty chunk cannot
  hold the request, the chunk cap is reached, the kernel refuses the length of a chunk in the state that the request finds, or the chunk registry
  refuses one; otherwise the block has
  the alignment asked for, is mapped and overlaps no live block.
\<close>

theorem arena_alloc_returns:
  assumes "pages_ok (ae_page env) (ae_mmap env) mapped" and "arena_reach strict env mapped N tls live n w"
    and "t < N" and "al \<le> 62" and "n + 1 < 2 ^ 64"
    and "sz = (if aw_headerless w \<and> (2 :: usize) ^ al \<le> MIN_ALIGN then tot - pad else tot)" and "0 < unat sz"
  shows "\<exists>r h w'. arena_arm env tot pad (2 ^ al) (tls t) w = Some (r, h, w')
    \<and> (case r of None \<Rightarrow> aw_exhausted w \<and> capped w \<or> refusable env (aw_os w) (aw_chunks w) (max al 4) sz w'
       | Some (p, headerless) \<Rightarrow> headerless = (aw_headerless w \<and> (2 :: usize) ^ al \<le> MIN_ALIGN) \<and> 2 ^ max al 4 dvd unat p
           \<and> bset (p, sz) \<subseteq> mapped (aw_os w') \<and> (\<forall>b \<in> live. bset b \<inter> bset (p, sz) = {}))"
proof -
  have inv: "world_inv env mapped N tls live n w" using arena_reach_inv [OF assms(2,1)] ..
  let ?hl = "aw_headerless w \<and> (2 :: usize) ^ al \<le> MIN_ALIGN"
  obtain r h w' where A: "arena_arm env tot pad (2 ^ al) (tls t) w = Some (map_option (\<lambda>p. (p, ?hl)) r, h, w')"
    "answered env mapped N (tls(t := h)) live n (max al 4) sz r w'"
    "r = None \<longrightarrow> aw_exhausted w \<and> capped w \<or> refusable env (aw_os w) (aw_chunks w) (max al 4) sz w'"
    using arena_arm_ok [OF inv assms(3,1,4-7)] arena_reach_capped [OF assms(2,1)] by blast
  show ?thesis
  proof (cases r)
    case None
    then show ?thesis using A by auto
  next
    case (Some p)
    then have G: "world_inv env mapped N (tls(t := h)) (insert (p, sz) live) (n + 1) w'" "(p, sz) \<notin> live" "2 ^ max al 4 dvd unat p"
      using A(2) by (simp_all add: answered_def)
    obtain a where a: "aw_arena w' = Some a" using live_chunk [OF G(1), of "(p, sz)"] by blast
    note S = world_inv_SomeD [OF G(1) a]
    have "bset (p, sz) \<subseteq> mapped (aw_os w')" using live_in_M [OF S(1), of "(p, sz)"] by blast
    moreover have "bset b \<inter> bset (p, sz) = {}" if "b \<in> live" for b
    proof -
      have "Inl b \<noteq> (Inl (p, sz) :: block + nat)" using that G(2) by auto
      then have "item (ae_owner env) (aw_epoch w') N (tls(t := h)) (insert (p, sz) live) (Inl b)
          \<inter> item (ae_owner env) (aw_epoch w') N (tls(t := h)) (insert (p, sz) live) (Inl (p, sz)) = {}"
        using arena_invD(6) [OF S(1)] unfolding geo_def by blast
      then show ?thesis using that by (simp add: item_def)
    qed
    ultimately show ?thesis using A(1) Some G(3) by auto
  qed
qed

lemma arena_alloc_returns_witness:
  "\<exists>r h w'. arena_arm arena_demo_env 112 48 (2 ^ 4) (dead_span HOT) (demo_world True 0x100040 0 1 demo_reg) = Some (r, h, w')"
proof -
  have "(64 :: usize) = (if aw_headerless (demo_world True 0x100040 0 1 demo_reg) \<and> (2 :: usize) ^ 4 \<le> MIN_ALIGN then 112 - 48 else 112)"
    by (simp add: MIN_ALIGN_def demo_world_def)
  from arena_alloc_returns [OF demo_pages demo_arena_reach _ _ _ this, of 0] show ?thesis by auto
qed

text \<open>
  C15: While every request fits an empty chunk, only the routed arm is used and the chunk registry takes
  every chunk, each live block of a header-free instance is recognised as an arena block from any of its
  addresses, so that no free reads a header that is not there.
\<close>

theorem arena_headerless_found:
  assumes "pages_ok (ae_page env) (ae_mmap env) mapped" and "arena_reach True env mapped N tls live n w"
    and "aw_headerless w" and "b \<in> live" and "unat q \<in> bset b"
  shows "arena_headerless_hit q w"
proof -
  note I = arena_reach_inv [OF assms(2,1)]
  obtain a i where a: "aw_arena w = Some a" "i < length (ar_chunks a)" "bset b \<subseteq> cspan (ar_chunks a ! i)" "ch_ok (ar_chunks a ! i)"
    by (rule live_chunk [OF conjunct1 [OF I] assms(4)])
  have "chunk_base_of q = ch_base (ar_chunks a ! i)" using chunk_base_of_in [OF a(4)] a(3) assms(5) by blast
  then show ?thesis using I a(1,2) assms(3) by (simp add: arena_headerless_hit_def chk_contains_def registered_def)
qed

lemma arena_headerless_found_witness: "arena_headerless_hit 0x100010 (demo_world True 0x100040 0 1 demo_reg)"
proof -
  have "unat (0x100010 :: usize) \<in> bset (0x100000, 64)" "aw_headerless (demo_world True 0x100040 0 1 demo_reg)"
    by (simp_all add: bset_def demo_world_def)
  then show ?thesis using arena_headerless_found [OF demo_pages demo_arena_reach _ _ , of "(0x100000, 64)"] by simp
qed

text \<open>
  C16: A header-free block is lost to the free path when the first arena request of an instance fits no
  chunk: whenever a fresh instance that serves header-free blocks gets a first request of more than a chunk and the
  kernel maps the first chunk, the request fails and publishes that chunk, which was never registered; the next
  request of at most a chunk at a natural alignment gets a header-free block of it, and the free path does not
  recognise the block.
\<close>

theorem arena_first_failure_unregistered:
  assumes "pages_ok (ae_page env) (ae_mmap env) mapped" and "arena_start env N tls w" and "t < N" and "aw_headerless w"
    and "fst (chunk_new (ae_page env) (ae_mmap env) (2 ^ 20) (aw_os w)) \<noteq> None"
    and "al \<le> 62" and "2 ^ 20 < unat (if (2 :: usize) ^ al \<le> MIN_ALIGN then tot - pad else tot)"
    and "j \<le> 4" and "unat (tot' - pad') \<le> 2 ^ 20"
  shows "\<exists>h w1 p h' w2. arena_arm env tot pad (2 ^ al) (tls t) w = Some (None, h, w1)
    \<and> arena_arm env tot' pad' (2 ^ j) h w1 = Some (Some (p, True), h', w2) \<and> \<not> arena_headerless_hit p w2"
proof -
  have sz: "(if (2 :: usize) ^ al \<le> MIN_ALIGN then tot - pad else tot) =
    (if aw_headerless w \<and> (2 :: usize) ^ al \<le> MIN_ALIGN then tot - pad else tot)" using assms(4) by simp
  obtain h w1 c A where F: "arena_arm env tot pad (2 ^ al) (tls t) w = Some (None, h, w1)" "span_owner (span h) \<noteq> ae_owner env"
    "aw_arena w1 = Some A" "ar_chunks A = [c]" "aw_published w1 = Some 0" "aw_chunks w1 = arena_chunk_registry_new"
    "\<not> aw_exhausted w1" "aw_headerless w1 = aw_headerless w" "ch_ok c" "ch_cursor c = ch_base c" "ch_capacity c = 2 ^ 20"
    by (rule first_failure [OF assms(1-3,5,6) sz assms(7)])
  have "aw_headerless w1" using F(8) assms(4) by simp
  from published_serves [OF F(2-5,7) this F(9-11) assms(8,9)] obtain h' w2 where
    S: "arena_arm env tot' pad' (2 ^ j) h w1 = Some (Some (ch_base c, True), h', w2)" "aw_chunks w2 = arena_chunk_registry_new"
    using F(6) by auto
  have "\<not> arena_headerless_hit (ch_base c) w2"
  proof (cases "chunk_base_of (ch_base c) = 0")
    case True
    have "chunk_base_of (ch_base c) = ch_base c" by (rule chunk_base_of_in [OF F(9)]) (use F(9) in \<open>simp add: cspan_def ch_ok_def\<close>)
    then show ?thesis using F(9) True by (simp add: ch_ok_def)
  next
    case False
    then show ?thesis using chk.look_empty by (simp add: arena_headerless_hit_def chk_contains_def S(2))
  qed
  then show ?thesis using F(1) S(1) by blast
qed

lemma arena_first_failure_unregistered_witness:
  "\<exists>h w1 p h' w2. arena_arm arena_demo_env (0x100000 + header_pad 64) (header_pad 64) (2 ^ 6) HOT arena_demo_world = Some (None, h, w1)
    \<and> arena_arm arena_demo_env (64 + header_pad 16) (header_pad 16) (2 ^ 4) h w1 = Some (Some (p, True), h', w2)
    \<and> \<not> arena_headerless_hit p w2"
proof -
  have pads: "header_pad 64 = 64" "header_pad 16 = 48" by code_simp+
  have "fst (arena_new 4096 bump_mmap 0 (0x10000, [])) \<noteq> None" by (simp add: demo_new)
  then have "fst (chunk_new 4096 bump_mmap (2 ^ 20) (0x10000, [])) \<noteq> None"
    unfolding arena_new_def arena_with_cap_def by (auto simp: DEFAULT_CHUNK_SIZE_def push_bit_eq_mult split: prod.splits option.splits)
  then show ?thesis
    unfolding pads
    by (intro arena_first_failure_unregistered [OF demo_pages demo_arena_start, of 0]) (simp_all add: MIN_ALIGN_def)
qed
lemma sum_list_unat_le:
  fixes xs :: "usize list"
  assumes "length xs \<le> 128" and "\<forall>x \<in> set xs. unat x \<le> 2 ^ 20"
  shows "unat (sum_list xs) = sum_list (map unat xs)" and "sum_list (map unat xs) \<le> 2 ^ 20 * length xs"
  using assms
proof (induction xs)
  case (Cons x xs)
  { case 1
    then show ?case using Cons.IH by (simp add: unat_add_64)
  next
    case 2
    then show ?case using Cons.IH by simp }
qed simp_all

text \<open>
  C17: The arena holds at most its cap of chunks, 128 at most, of 1 MiB each; its reported capacity is
  exactly that, and the bytes it reports as used never exceed it.
\<close>

theorem arena_bounded:
  assumes "pages_ok (ae_page env) (ae_mmap env) mapped" and "arena_reach strict env mapped N tls live n w"
    and "aw_arena w = Some a"
  shows "length (ar_chunks a) \<le> ar_max_chunks a \<and> ar_max_chunks a \<le> 128
    \<and> unat (arena_capacity a) = 2 ^ 20 * length (ar_chunks a) \<and> arena_used a \<le> arena_capacity a"
proof -
  have inv: "world_inv env mapped N tls live n w" using arena_reach_inv [OF assms(2,1)] ..
  note D = arena_invD [OF world_inv_SomeD(1) [OF inv assms(3)]]
  let ?cs = "ar_chunks a"
  have len: "length ?cs \<le> 128" using D(4,5) by linarith
  have c: "unat (ch_capacity c) = 2 ^ 20" "unat (chunk_used c) \<le> 2 ^ 20" if "c \<in> set ?cs" for c
    using D(1) that by (auto simp: chunks_ok_def ch_ok_def chunk_used_def unat_sub word_le_nat_alt)
  have cap: "unat (arena_capacity a) = sum_list (map (\<lambda>c. unat (ch_capacity c)) ?cs)"
    using sum_list_unat_le(1) [of "map ch_capacity ?cs"] len c(1) by (simp add: arena_capacity_def o_def)
  also have "\<dots> = sum_list (map (\<lambda>c. 2 ^ 20) ?cs)" using c(1) by (intro arg_cong [of _ _ sum_list] map_cong) auto
  finally have "unat (arena_capacity a) = 2 ^ 20 * length ?cs" by (simp add: sum_list_triv)
  moreover have "unat (arena_used a) = sum_list (map unat (map chunk_used ?cs))"
    using sum_list_unat_le(1) [of "map chunk_used ?cs"] len c(2) by (simp add: arena_used_def)
  moreover have "sum_list (map unat (map chunk_used ?cs)) \<le> 2 ^ 20 * length ?cs"
    using sum_list_unat_le(2) [of "map chunk_used ?cs"] len c(2) by simp
  ultimately show ?thesis using D(4,5) by (simp add: word_le_nat_alt)
qed

lemma arena_bounded_witness: "arena_used (demo_arena True 0x100040 0 1 True) \<le> arena_capacity (demo_arena True 0x100040 0 1 True)"
  using arena_bounded [OF demo_pages demo_arena_reach, of "demo_arena True 0x100040 0 1 True"] by (simp add: demo_world_def)

end
