(* ===== verification/Instance.thy ===== *)
theory Instance
  imports SlabSafety BuddySafety ArenaSafety Magazine PerfectHashCorrect
begin

text \<open>
  The state of a \<open>Lohalloc\<close> instance and of one thread's hot blocks (\<open>lib.rs\<close>, \<open>hot.rs\<close>), and the
  paths that put the per-thread magazines in front of the striped central slab and buddy allocators: batched
  refill with the recycled-first scan of the sibling stripes, the flush to the owning stripes, and the registry
  probes that find class, order and stripe from an address. An operation is one step of one thread; \<open>None\<close>
  is a panic or a loop that does not end. \<open>busy\<close> says which stripes a \<open>try_lock\<close> finds locked by other
  threads. A poisoned mutex is not modelled.
\<close>

section \<open>State\<close>

definition MAX_STRIPES :: usize where "MAX_STRIPES = 32"
definition MIN_STRIPES :: usize where "MIN_STRIPES = 8"

text \<open>
  The environment: the kernel, the number of processors and the latched switches (in \<open>le_arena\<close> for the
  arena), and \<open>stripe_mask()\<close> once it is latched.
\<close>

record 'os lo_env =
  le_arena :: "'os arena_env"
  le_munmap :: "'os \<Rightarrow> usize \<times> usize \<Rightarrow> 'os"
  le_mask :: usize
  le_owner_free :: bool
  le_scan_gate :: bool
  le_train_headerless :: bool
  le_fast_lane :: bool
  le_sc_shortcut :: bool
  le_servable :: bool

abbreviation le_page :: "'os lo_env \<Rightarrow> usize" where "le_page env \<equiv> ae_page (le_arena env)"
abbreviation le_mmap :: "'os lo_env \<Rightarrow> 'os \<Rightarrow> usize \<Rightarrow> usize option \<times> 'os" where "le_mmap env \<equiv> ae_mmap (le_arena env)"

text \<open>
  The instance, with the hot blocks of the thread that runs (\<open>s_hot\<close>, \<open>s_bmag\<close>). The kernel's state is in the
  arena's record. \<open>s_nodes\<close> is the memory of the slab's free-list nodes, \<open>s_bytes\<close> the bytes that headers are
  read from. \<open>s_next_id\<close> and \<open>s_next_stripe\<close> are the process-wide counters.
\<close>

record 'os sys =
  s_hot :: hot_tls
  s_bmag :: buddy_mag
  s_slab :: "nat \<Rightarrow> slab"
  s_buddy :: "nat \<Rightarrow> buddy"
  s_regions :: region_registry
  s_segments :: segment_registry
  s_arena :: "'os arena_world"
  s_nodes :: node_mem
  s_bytes :: "usize \<Rightarrow> u8"
  s_cache :: system_cache
  s_cache_hits :: u64
  s_slab_headerless :: bool
  s_buddy_headerless :: bool
  s_fast_lane :: bool
  s_ahr_on :: bool
  s_sc_shortcut :: bool
  s_frozen :: bool
  s_train_init :: bool
  s_table :: "(usize \<times> frozen_routing) option"
  s_magazine_id :: u64
  s_gain :: "nat \<Rightarrow> u32"
  s_next_id :: u64
  s_next_stripe :: u64

abbreviation s_os :: "'os sys \<Rightarrow> 'os" where "s_os s \<equiv> aw_os (s_arena s)"

definition set_os :: "'os \<Rightarrow> 'os sys \<Rightarrow> 'os sys" where
  "set_os os s = s\<lparr>s_arena := (s_arena s)\<lparr>aw_os := os\<rparr>\<rparr>"

text \<open>\<open>Lohalloc::new\<close>, with the given counters, memory and kernel.\<close>

definition arena_world_new :: "'os \<Rightarrow> 'os arena_world" where
  "arena_world_new os =
     \<lparr>aw_arena = None, aw_published = None, aw_epoch = 0, aw_exhausted = False, aw_headerless = False,
      aw_reclaim_on = 0, aw_chunks = arena_chunk_registry_new, aw_os = os\<rparr>"

definition lohalloc_new ::
  "'os \<Rightarrow> u64 \<Rightarrow> u64 \<Rightarrow> node_mem \<Rightarrow> (usize \<Rightarrow> free_node) \<Rightarrow> (usize \<Rightarrow> u8) \<Rightarrow> 'os sys"
where
  "lohalloc_new os next_id next_stripe nodes bnodes bytes =
     \<lparr>s_hot = HOT, s_bmag = MAG, s_slab = (\<lambda>_. slab_new), s_buddy = (\<lambda>_. buddy_new bnodes),
      s_regions = region_registry_new, s_segments = segment_registry_new, s_arena = arena_world_new os,
      s_nodes = nodes, s_bytes = bytes, s_cache = system_cache_new, s_cache_hits = 0,
      s_slab_headerless = False, s_buddy_headerless = False, s_fast_lane = False, s_ahr_on = True,
      s_sc_shortcut = False, s_frozen = False, s_train_init = False, s_table = None, s_magazine_id = 0,
      s_gain = (\<lambda>_. 1), s_next_id = next_id, s_next_stripe = next_stripe\<rparr>"

section \<open>Stripes and magazine ids\<close>

text \<open>
  The override of the stripe count from the bytes of the environment variable, up to its terminator;
  \<open>checked_mul\<close> and \<open>checked_add\<close> give up on overflow.
\<close>

fun override_loop :: "u8 list \<Rightarrow> nat \<Rightarrow> usize \<Rightarrow> (nat \<times> usize) option" where
  "override_loop [] i n = Some (i, n)"
| "override_loop (b # bs) i n =
     (if b = 0 then Some (i, n)
      else if b < 48 \<or> b > 57 then None
      else if unat n * 10 \<ge> 2 ^ 64 then None
      else case checked_add (n * 10) (ucast (b - 48)) of None \<Rightarrow> None | Some n \<Rightarrow> override_loop bs (i + 1) n)"

definition stripe_override :: "u8 list option \<Rightarrow> usize option" where
  "stripe_override var =
     (case var of None \<Rightarrow> None
      | Some bytes \<Rightarrow>
          (case override_loop bytes 0 0 of None \<Rightarrow> None
           | Some (i, n) \<Rightarrow> if i = 0 \<or> n = 0 then None else Some n))"

definition train_headerless_disabled :: "u8 list option \<Rightarrow> bool" where
  "train_headerless_disabled var = (case var of None \<Rightarrow> False | Some bytes \<Rightarrow> take 2 bytes = [48, 0])"

definition stripe_count :: "usize option \<Rightarrow> usize \<Rightarrow> usize" where
  "stripe_count override_n ncpus =
     (case override_n of Some n \<Rightarrow> min (round_up_pow2 n) MAX_STRIPES
      | None \<Rightarrow> max MIN_STRIPES (min (round_up_pow2 ncpus) MAX_STRIPES))"

definition stripe_mask :: "u8 list option \<Rightarrow> usize \<Rightarrow> usize" where
  "stripe_mask var ncpus = stripe_count (stripe_override var) ncpus - 1"

text \<open>The stripes that are active, \<open>0..=stripe_mask()\<close>.\<close>

definition stripes_of :: "'os lo_env \<Rightarrow> nat list" where "stripes_of env = [0 ..< unat (le_mask env) + 1]"

definition thread_stripe_of :: "'os lo_env \<Rightarrow> 'os sys \<Rightarrow> nat \<times> 'os sys" where
  "thread_stripe_of env s =
     (let v = thread_stripe (s_hot s)
      in if v \<noteq> - 1 then (unat v, s)
         else let v = s_next_stripe s AND le_mask env
              in (unat v, s\<lparr>s_next_stripe := s_next_stripe s + 1, s_hot := (s_hot s)\<lparr>thread_stripe := v\<rparr>\<rparr>))"

definition magazine_owner :: "'os sys \<Rightarrow> u64 \<times> 'os sys" where
  "magazine_owner s =
     (if s_magazine_id s \<noteq> 0 then (s_magazine_id s, s)
      else let fresh = s_next_id s in (fresh, s\<lparr>s_next_id := fresh + 1, s_magazine_id := fresh\<rparr>))"

definition invalidate_magazines :: "'os sys \<Rightarrow> 'os sys" where
  "invalidate_magazines s = s\<lparr>s_next_id := s_next_id s + 1, s_magazine_id := s_next_id s\<rparr>"

definition note_slab_central_gain :: "'os lo_env \<Rightarrow> nat \<Rightarrow> 'os sys \<Rightarrow> 'os sys" where
  "note_slab_central_gain env c s =
     (if le_scan_gate env then s\<lparr>s_gain := (s_gain s)(c := s_gain s c + 1)\<rparr> else s)"

section \<open>A stripe of the slab\<close>

text \<open>The slab of a stripe with what it shares with the instance, and back.\<close>

definition slab_world_of :: "nat \<Rightarrow> 'os sys \<Rightarrow> ('os, segment_registry) slab_world" where
  "slab_world_of i s = \<lparr>w_slab = s_slab s i, w_mem = s_nodes s, w_os = s_os s, w_reg = s_segments s\<rparr>"

definition put_slab :: "nat \<Rightarrow> ('os, segment_registry) slab_world \<Rightarrow> 'os sys \<Rightarrow> 'os sys" where
  "put_slab i w s = (set_os (w_os w) s)\<lparr>s_slab := (s_slab s)(i := w_slab w), s_nodes := w_mem w, s_segments := w_reg w\<rparr>"

definition slab_env_of :: "'os lo_env \<Rightarrow> nat \<Rightarrow> nat \<Rightarrow> ('os, segment_registry) slab_env" where
  "slab_env_of env i c =
     \<lparr>env_page = le_page env, env_mmap = le_mmap env, env_munmap = le_munmap env,
      env_register = seg_register (of_nat i) c\<rparr>"

definition slab_stripe_of :: "usize \<Rightarrow> 'os sys \<Rightarrow> nat option" where
  "slab_stripe_of p s =
     map_option (\<lambda>(_, i). unat ((ucast i :: usize) AND (MAX_STRIPES - 1)))
       (seg_lookup_full (s_segments s) (p AND NOT (SEGMENT_SIZE - 1)))"

definition headerless_class_for :: "usize \<Rightarrow> 'os sys \<Rightarrow> nat option" where
  "headerless_class_for p s =
     (if \<not> s_slab_headerless s then None
      else map_option unat (seg_lookup (s_segments s) (p AND NOT (SEGMENT_SIZE - 1))))"

section \<open>Slab blocks through the magazine\<close>

text \<open>The sibling stripes in turn, skipping those whose lock is taken.\<close>

fun sibling_scan ::
  "'os lo_env \<Rightarrow> (nat \<Rightarrow> bool) \<Rightarrow> nat \<Rightarrow> nat \<Rightarrow> bool \<Rightarrow> nat \<Rightarrow> nat list \<Rightarrow> 'os sys \<Rightarrow> usize list \<times> 'os sys"
where
  "sibling_scan env busy c len headerless i [] s = ([], s)"
| "sibling_scan env busy c len headerless i (k # ks) s =
     (let j = unat (of_nat (i + k) AND le_mask env)
      in if busy j then sibling_scan env busy c len headerless i ks s
         else case slab_alloc_batch_recycled c len headerless (slab_world_of j s) of
                (bs, w) \<Rightarrow>
                  let s = put_slab j w s
                  in if bs \<noteq> [] then (bs, s) else sibling_scan env busy c len headerless i ks s)"

text \<open>This stripe's carve, with fresh memory when it is used up.\<close>

definition central_carve ::
  "'os lo_env \<Rightarrow> nat \<Rightarrow> nat \<Rightarrow> bool \<Rightarrow> nat \<Rightarrow> 'os sys \<Rightarrow> (usize list \<times> 'os sys) option"
where
  "central_carve env c len headerless i s =
     (if headerless
      then do {
        (bs, w) \<leftarrow> slab_alloc_batch_headerless (slab_env_of env i c) c len (slab_world_of i s);
        Some (bs, put_slab i w s)
      }
      else case slab_alloc_batch (slab_env_of env i c) c len (slab_world_of i s) of
             (bs, w) \<Rightarrow> Some (bs, put_slab i w s))"

definition slab_batch_recycled_first ::
  "'os lo_env \<Rightarrow> (nat \<Rightarrow> bool) \<Rightarrow> nat \<Rightarrow> nat \<Rightarrow> bool \<Rightarrow> 'os sys \<Rightarrow> (usize list \<times> 'os sys) option"
where
  "slab_batch_recycled_first env busy c len headerless s =
     (let (i, s) = thread_stripe_of env s;
          gain_epoch = s_gain s c;
          scan_gated = (le_scan_gate env \<and> slab_scan_miss_epoch (s_hot s) c = gain_epoch)
      in if scan_gated then central_carve env c len headerless i s
         else case slab_alloc_batch_recycled c len headerless (slab_world_of i s) of
           (bs, w) \<Rightarrow>
             let s = put_slab i w s
             in if bs \<noteq> [] then Some (bs, s)
                else case sibling_scan env busy c len headerless i [1 ..< unat (le_mask env) + 1] s of
                  (bs, s) \<Rightarrow>
                    if bs \<noteq> [] then Some (bs, s)
                    else central_carve env c len headerless i
                           (s\<lparr>s_hot := (s_hot s)\<lparr>slab_scan_miss_epoch := (slab_scan_miss_epoch (s_hot s))(c := gain_epoch)\<rparr>\<rparr>))"

text \<open>The rest of a batch goes into the magazine, which was empty.\<close>

fun mag_push_all :: "u64 \<Rightarrow> nat \<Rightarrow> usize list \<Rightarrow> hot_tls \<Rightarrow> hot_tls" where
  "mag_push_all owner c [] h = h"
| "mag_push_all owner c (p # ps) h = mag_push_all owner c ps (snd (mag_push h owner c (unat p)))"

definition slab_magazine_or_batch ::
  "'os lo_env \<Rightarrow> (nat \<Rightarrow> bool) \<Rightarrow> bool \<Rightarrow> usize \<Rightarrow> 'os sys \<Rightarrow> (usize option \<times> 'os sys) option"
where
  "slab_magazine_or_batch env busy headerless sz s =
     (case slab_class_for sz of None \<Rightarrow> Some (None, s)
      | Some c \<Rightarrow>
          let (owner, s) = magazine_owner s; (b, h) = mag_pop (s_hot s) owner c; s = s\<lparr>s_hot := h\<rparr>
          in case b of Some b \<Rightarrow> Some (Some (of_nat b), s)
             | None \<Rightarrow>
                 do {
                   (bs, s) \<leftarrow> slab_batch_recycled_first env busy c (min (mag_refill_count c) 16) headerless s;
                   (case bs of [] \<Rightarrow> Some (None, s)
                    | p # ps \<Rightarrow> Some (Some p, s\<lparr>s_hot := mag_push_all owner c ps (s_hot s)\<rparr>))
                 })"

definition slab_block_via_magazine ::
  "'os lo_env \<Rightarrow> (nat \<Rightarrow> bool) \<Rightarrow> usize \<Rightarrow> 'os sys \<Rightarrow> (usize option \<times> 'os sys) option"
where
  "slab_block_via_magazine env busy tot s = slab_magazine_or_batch env busy False tot s"

definition slab_block_headerless_via_magazine ::
  "'os lo_env \<Rightarrow> (nat \<Rightarrow> bool) \<Rightarrow> usize \<Rightarrow> 'os sys \<Rightarrow> (usize option \<times> 'os sys) option"
where
  "slab_block_headerless_via_magazine env busy sz s = slab_magazine_or_batch env busy True sz s"

text \<open>A batch of headerless blocks goes back to one stripe, or to the stripes that own them.\<close>

definition flush_to :: "nat \<Rightarrow> nat \<Rightarrow> usize list \<Rightarrow> 'os sys \<Rightarrow> 'os sys" where
  "flush_to c i ps s = put_slab i (slab_dealloc_batch_headerless c ps (slab_world_of i s)) s"

fun flush_groups :: "nat \<Rightarrow> (usize \<times> nat) list \<Rightarrow> nat list \<Rightarrow> 'os sys \<Rightarrow> 'os sys" where
  "flush_groups c tagged [] s = s"
| "flush_groups c tagged (i # js) s =
     (let g = map fst (filter (\<lambda>e. snd e = i) tagged)
      in flush_groups c tagged js (if g = [] then s else flush_to c i g s))"

definition slab_dealloc_headerless_front :: "'os lo_env \<Rightarrow> usize \<Rightarrow> nat \<Rightarrow> 'os sys \<Rightarrow> 'os sys" where
  "slab_dealloc_headerless_front env block c s =
     (let (owner, s) = magazine_owner s; (ok, h) = mag_push (s_hot s) owner c (unat block); s = s\<lparr>s_hot := h\<rparr>
      in if ok then s
         else
           let (bs, h) = mag_take (s_hot s) owner c (min (mag_refill_count c) 16);
               s = s\<lparr>s_hot := h\<rparr>; buf = map of_nat bs @ [block]; (fallback, s) = thread_stripe_of env s
           in if \<not> le_owner_free env then note_slab_central_gain env c (flush_to c fallback buf s)
              else
                let stripe = (\<lambda>p. case slab_stripe_of p s of Some i \<Rightarrow> i | None \<Rightarrow> fallback);
                    first = stripe (hd buf)
                in if list_all (\<lambda>p. stripe p = first) buf
                   then note_slab_central_gain env c (flush_to c first buf s)
                   else note_slab_central_gain env c
                          (flush_groups c (map (\<lambda>p. (p, stripe p)) buf) (stripes_of env) s))"

section \<open>A stripe of the buddy allocator\<close>

definition buddy_world_of :: "nat \<Rightarrow> 'os sys \<Rightarrow> ('os, region_registry) buddy_world" where
  "buddy_world_of i s = \<lparr>bw_buddy = s_buddy s i, bw_os = s_os s, bw_reg = s_regions s\<rparr>"

definition put_buddy :: "nat \<Rightarrow> ('os, region_registry) buddy_world \<Rightarrow> 'os sys \<Rightarrow> 'os sys" where
  "put_buddy i w s = (set_os (bw_os w) s)\<lparr>s_buddy := (s_buddy s)(i := bw_buddy w), s_regions := bw_reg w\<rparr>"

definition buddy_env_of :: "'os lo_env \<Rightarrow> nat \<Rightarrow> ('os, region_registry) buddy_env" where
  "buddy_env_of env i =
     \<lparr>be_page = le_page env, be_mmap = le_mmap env, be_munmap = le_munmap env,
      be_register = (\<lambda>r base omap. reg_insert r base (of_nat i) omap)\<rparr>"

definition region_base_of :: "usize \<Rightarrow> usize" where "region_base_of p = p AND NOT (REGION_BYTES - 1)"

definition buddy_stripe_of :: "usize \<Rightarrow> 'os sys \<Rightarrow> nat option" where
  "buddy_stripe_of p s =
     map_option (\<lambda>i. unat ((ucast i :: usize) AND (MAX_STRIPES - 1))) (reg_lookup (s_regions s) (region_base_of p))"

text \<open>The byte at an address of some region's order map, found by the region whose map lies there.\<close>

definition order_map_byte :: "'os lo_env \<Rightarrow> 'os sys \<Rightarrow> usize \<Rightarrow> u8" where
  "order_map_byte env s a =
     (case List.find (\<lambda>r. unat (a - r_order_map_at r) < ORDER_MAP_SLOTS)
             (concat (map (\<lambda>i. regions (s_buddy s i)) (stripes_of env))) of
        None \<Rightarrow> 0
      | Some r \<Rightarrow> r_order_map r (unat (a - r_order_map_at r)))"

definition buddy_headerless_order_for :: "'os lo_env \<Rightarrow> usize \<Rightarrow> 'os sys \<Rightarrow> nat option" where
  "buddy_headerless_order_for env p s =
     (if \<not> s_buddy_headerless s then None
      else let base = region_base_of p
           in case reg_lookup_full (s_regions s) base of None \<Rightarrow> None
              | Some (_, omap) \<Rightarrow>
                  if omap = 0 then None
                  else let k = unat (order_map_byte env s (omap + of_nat (order_map_slot p base)))
                       in if MIN_HEADERLESS_ORDER \<le> k \<and> k \<le> MAX_ORDER then Some k else None)"

section \<open>Buddy blocks through the magazine\<close>

fun bm_push_all :: "u64 \<Rightarrow> nat \<Rightarrow> usize list \<Rightarrow> buddy_mag \<Rightarrow> buddy_mag" where
  "bm_push_all owner idx [] m = m"
| "bm_push_all owner idx (p # ps) m = bm_push_all owner idx ps (snd (bm_push m owner idx (unat p)))"

definition buddy_block_via_magazine :: "'os lo_env \<Rightarrow> usize \<Rightarrow> 'os sys \<Rightarrow> (usize option \<times> 'os sys) option" where
  "buddy_block_via_magazine env tot s =
     (case order_for tot of None \<Rightarrow> Some (None, s)
      | Some k \<Rightarrow>
          let (i, s) = thread_stripe_of env s
          in case index_for k of
               None \<Rightarrow> do {
                 (b, w) \<leftarrow> buddy_alloc (buddy_env_of env i) tot (buddy_world_of i s);
                 Some (b, put_buddy i w s)
               }
             | Some idx \<Rightarrow>
                 let (owner, s) = magazine_owner s; (b, m) = bm_pop (s_bmag s) owner idx; s = s\<lparr>s_bmag := m\<rparr>
                 in case b of Some b \<Rightarrow> Some (Some (of_nat b), s)
                    | None \<Rightarrow> do {
                        (bs, w) \<leftarrow> alloc_order_batch (buddy_env_of env i) k (min (bm_refill_count idx) 32) (buddy_world_of i s);
                        let s = put_buddy i w s;
                        (case bs of [] \<Rightarrow> Some (None, s)
                         | p # ps \<Rightarrow> Some (Some p, s\<lparr>s_bmag := bm_push_all owner idx ps (s_bmag s)\<rparr>))
                      })"

definition buddy_block_headerless_via_magazine ::
  "'os lo_env \<Rightarrow> usize \<Rightarrow> 'os sys \<Rightarrow> (usize option \<times> 'os sys) option" where
  "buddy_block_headerless_via_magazine env sz s =
     (case order_for sz of None \<Rightarrow> Some (None, s)
      | Some k \<Rightarrow> if k < MIN_HEADERLESS_ORDER then Some (None, s) else buddy_block_via_magazine env sz s)"

definition buddy_free_in :: "nat \<Rightarrow> (buddy \<Rightarrow> buddy option) \<Rightarrow> 'os sys \<Rightarrow> 'os sys option" where
  "buddy_free_in i f s = map_option (\<lambda>b. s\<lparr>s_buddy := (s_buddy s)(i := b)\<rparr>) (f (s_buddy s i))"

fun buddy_flush_groups :: "nat \<Rightarrow> (usize \<times> nat option) list \<Rightarrow> nat list \<Rightarrow> 'os sys \<Rightarrow> 'os sys option" where
  "buddy_flush_groups k tagged [] s = Some s"
| "buddy_flush_groups k tagged (i # js) s =
     (let g = map fst (filter (\<lambda>e. snd e = Some i) tagged)
      in if g = [] then buddy_flush_groups k tagged js s
         else do { s \<leftarrow> buddy_free_in i (dealloc_order_batch k g) s; buddy_flush_groups k tagged js s })"

definition buddy_dealloc_via_magazine :: "'os lo_env \<Rightarrow> usize \<Rightarrow> usize \<Rightarrow> 'os sys \<Rightarrow> 'os sys option" where
  "buddy_dealloc_via_magazine env block sz s =
     (case order_for sz of None \<Rightarrow> Some s
      | Some k \<Rightarrow>
          (case index_for k of
             None \<Rightarrow> (case buddy_stripe_of block s of None \<Rightarrow> Some s
                       | Some i \<Rightarrow> buddy_free_in i (buddy_dealloc block sz) s)
           | Some idx \<Rightarrow>
               let (owner, s) = magazine_owner s; (ok, m) = bm_push (s_bmag s) owner idx (unat block); s = s\<lparr>s_bmag := m\<rparr>
               in if ok then Some s
                  else let (bs, m) = bm_take (s_bmag s) owner idx (min (bm_refill_count idx) 32);
                           s = s\<lparr>s_bmag := m\<rparr>; buf = map of_nat bs @ [block]
                       in buddy_flush_groups k (map (\<lambda>p. (p, buddy_stripe_of p s)) buf) (stripes_of env) s))"

section \<open>Latching the header-free paths\<close>

text \<open>
  The loop over the stripes sets the recording flag of each untouched stripe and stops at the first one that has
  a region.
\<close>

fun record_untouched :: "nat list \<Rightarrow> 'os sys \<Rightarrow> bool \<times> 'os sys" where
  "record_untouched [] s = (True, s)"
| "record_untouched (i # js) s =
     (if buddy_region_count (s_buddy s i) = 0
      then record_untouched js (s\<lparr>s_buddy := (s_buddy s)(i := set_record_orders (s_buddy s i))\<rparr>)
      else (False, s))"

definition latch_headerless :: "'os sys \<Rightarrow> 'os sys" where
  "latch_headerless s =
     (let s = invalidate_magazines (s\<lparr>s_slab_headerless := True\<rparr>);
          (untouched, s) = record_untouched [0 ..< unat MAX_STRIPES] s;
          s = (if untouched then s\<lparr>s_buddy_headerless := True\<rparr> else s)
      in if aw_arena (s_arena s) = None then s\<lparr>s_arena := (s_arena s)\<lparr>aw_headerless := True\<rparr>\<rparr> else s)"

definition latch_train_headerless_once :: "'os lo_env \<Rightarrow> 'os sys \<Rightarrow> 'os sys" where
  "latch_train_headerless_once env s =
     (if s_train_init s then s
      else let s = s\<lparr>s_train_init := True\<rparr>
           in if s_frozen s \<or> \<not> le_train_headerless env then s else latch_headerless s)"

definition enable_training_headerless :: "'os sys \<Rightarrow> 'os sys" where
  "enable_training_headerless s = latch_headerless (s\<lparr>s_train_init := True\<rparr>)"

definition disable_training_headerless :: "'os sys \<Rightarrow> 'os sys" where
  "disable_training_headerless s = s\<lparr>s_train_init := True\<rparr>"

end
