(* ===== verification/Routes.thy ===== *)
theory Routes
  imports Instance
begin

text \<open>
  Serving and freeing a request (\<open>lib.rs\<close>): the ownership header in front of a block, the arm of each backend,
  the size-based fallback, the system backend with its retention cache, and the dispatch of a free on the registries
  or the header, with the queries that use the same dispatch.
\<close>

section \<open>The header in memory\<close>

text \<open>\<open>repr(C)\<close>: the fields in order, little-endian.\<close>

definition header_bytes :: "header \<Rightarrow> u8 list" where
  "header_bytes hdr =
     to_le_bytes 8 (hdr_magic hdr) @ [hdr_backend hdr, hdr_size_class_hint hdr, hdr_align_log2 hdr, hdr_slab_class hdr, hdr_ctx hdr]
     @ hdr_pad hdr @ to_le_bytes 8 (hdr_size hdr) @ to_le_bytes 8 (hdr_base hdr) @ to_le_bytes 8 (hdr_map_len hdr)
     @ to_le_bytes 8 (hdr_hash hdr)"

definition header_of_bytes :: "u8 list \<Rightarrow> header" where
  "header_of_bytes bs =
     \<lparr>hdr_magic = from_le_bytes (take 8 bs), hdr_backend = bs ! 8, hdr_size_class_hint = bs ! 9, hdr_align_log2 = bs ! 10,
      hdr_slab_class = bs ! 11, hdr_ctx = bs ! 12, hdr_pad = [bs ! 13, bs ! 14, bs ! 15],
      hdr_size = from_le_bytes (take 8 (drop 16 bs)), hdr_base = from_le_bytes (take 8 (drop 24 bs)),
      hdr_map_len = from_le_bytes (take 8 (drop 32 bs)), hdr_hash = from_le_bytes (take 8 (drop 40 bs))\<rparr>"

definition write_bytes :: "usize \<Rightarrow> u8 list \<Rightarrow> (usize \<Rightarrow> u8) \<Rightarrow> usize \<Rightarrow> u8" where
  "write_bytes a bs m = (\<lambda>x. if unat (x - a) < length bs then bs ! unat (x - a) else m x)"

definition read_bytes :: "usize \<Rightarrow> nat \<Rightarrow> (usize \<Rightarrow> u8) \<Rightarrow> u8 list" where
  "read_bytes a n m = map (\<lambda>i. m (a + of_nat i)) [0..<n]"

definition read_header :: "usize \<Rightarrow> 'os sys \<Rightarrow> header" where
  "read_header p s = header_of_bytes (read_bytes (p - HEADER_SIZE) (unat HEADER_SIZE) (s_bytes s))"

text \<open>\<open>align.trailing_zeros() as u8\<close>.\<close>

definition trailing_zeros :: "usize \<Rightarrow> u8" where
  "trailing_zeros a = of_nat (length (takeWhile (\<lambda>i. \<not> bit a i) [0..<64]))"

definition header_for :: "backend \<Rightarrow> usize \<Rightarrow> usize \<Rightarrow> usize \<Rightarrow> u64 \<Rightarrow> u8 \<Rightarrow> u8 \<Rightarrow> usize \<Rightarrow> header" where
  "header_for backend tot base mlen hash hint ctx align =
     \<lparr>hdr_magic = HEADER_MAGIC, hdr_backend = backend_u8 backend, hdr_size_class_hint = hint,
      hdr_align_log2 = trailing_zeros align,
      hdr_slab_class =
        (if backend = Slab then case slab_class_for tot of Some c \<Rightarrow> of_nat c | None \<Rightarrow> SIZE_CLASS_UNTRACKED
         else SIZE_CLASS_UNTRACKED),
      hdr_ctx = ctx, hdr_pad = [0, 0, 0], hdr_size = tot, hdr_base = base, hdr_map_len = mlen, hdr_hash = hash\<rparr>"

definition write_header :: "usize \<Rightarrow> usize \<Rightarrow> header \<Rightarrow> 'os sys \<Rightarrow> usize \<times> 'os sys" where
  "write_header block pad hdr s =
     (let user = block + pad
      in (user, s\<lparr>s_bytes := write_bytes (user - HEADER_SIZE) (header_bytes hdr) (s_bytes s)\<rparr>))"

section \<open>The system backend\<close>

text \<open>\<open>locked\<close>: another thread holds the try-lock of the retention cache.\<close>

definition system_alloc_with_header ::
  "'os lo_env \<Rightarrow> bool \<Rightarrow> usize \<Rightarrow> usize \<Rightarrow> u64 \<Rightarrow> u8 \<Rightarrow> u8 \<Rightarrow> 'os sys \<Rightarrow> usize option \<times> 'os sys"
where
  "system_alloc_with_header env locked tot align hash hint ctx s =
     (let pad = header_pad align; eff_align = max align (le_page env);
          hit = (if locked then None else cache_get (s_cache s) tot eff_align)
      in case hit of
           Some ((raw_base, raw_len), cache) \<Rightarrow>
             (case write_header (align_up_addr raw_base eff_align) pad (header_for System tot raw_base raw_len hash hint ctx align)
                     (s\<lparr>s_cache := cache, s_cache_hits := s_cache_hits s + 1\<rparr>) of
                (p, s) \<Rightarrow> (Some p, s))
         | None \<Rightarrow>
             (case alloc_pages (le_page env) (le_mmap env) tot align (s_os s) of
                (None, os) \<Rightarrow> (None, set_os os s)
              | (Some m, os) \<Rightarrow>
                  (case write_header (map_ptr m) pad
                          (header_for System tot (fst (unmap_range m)) (snd (unmap_range m)) hash hint ctx align) (set_os os s) of
                     (p, s) \<Rightarrow> (Some p, s))))"

text \<open>A mapping that a full bucket evicts is unmapped by \<open>put\<close>; one that is declined is unmapped here.\<close>

definition system_free :: "'os lo_env \<Rightarrow> bool \<Rightarrow> usize \<Rightarrow> usize \<Rightarrow> 'os sys \<Rightarrow> 'os sys" where
  "system_free env locked base len s =
     (if locked then set_os (le_munmap env (s_os s) (base, len)) s
      else case cache_put (s_cache s) base len of
             (taken, evicted, cache) \<Rightarrow>
               let s = s\<lparr>s_cache := cache\<rparr>;
                   s = (case evicted of None \<Rightarrow> s | Some r \<Rightarrow> set_os (le_munmap env (s_os s) r) s)
               in if taken then s else set_os (le_munmap env (s_os s) (base, len)) s)"

section \<open>The arms of the backends\<close>

text \<open>What a request carries through the arms.\<close>

record request =
  rq_total :: usize
  rq_align :: usize
  rq_pad :: usize
  rq_hash :: u64
  rq_hint :: u8
  rq_ctx :: u8

definition with_header :: "request \<Rightarrow> backend \<Rightarrow> usize option \<times> 'os sys \<Rightarrow> usize option \<times> 'os sys" where
  "with_header rq backend bs =
     (case bs of (None, s) \<Rightarrow> (None, s)
      | (Some block, s) \<Rightarrow>
          (case write_header block (rq_pad rq)
                  (header_for backend (rq_total rq) 0 0 (rq_hash rq) (rq_hint rq) (rq_ctx rq) (rq_align rq)) s of
             (p, s) \<Rightarrow> (Some p, s)))"

definition slab_arm ::
  "'os lo_env \<Rightarrow> (nat \<Rightarrow> bool) \<Rightarrow> request \<Rightarrow> 'os sys \<Rightarrow> (usize option \<times> 'os sys) option"
where
  "slab_arm env busy rq s =
     (if s_slab_headerless s \<and> rq_align rq \<le> MIN_ALIGN
      then slab_block_headerless_via_magazine env busy (rq_total rq - rq_pad rq) s
      else map_option (with_header rq Slab) (slab_block_via_magazine env busy (rq_total rq) s))"

definition buddy_arm :: "'os lo_env \<Rightarrow> request \<Rightarrow> 'os sys \<Rightarrow> (usize option \<times> 'os sys) option" where
  "buddy_arm env rq s =
     (if s_buddy_headerless s \<and> rq_align rq \<le> MIN_ALIGN
      then buddy_block_headerless_via_magazine env (rq_total rq - rq_pad rq) s
      else map_option (with_header rq Buddy) (buddy_block_via_magazine env (rq_total rq) s))"

text \<open>The arena's arm under the instance's current magazine id.\<close>

definition arena_env_of :: "'os lo_env \<Rightarrow> u64 \<Rightarrow> 'os arena_env" where
  "arena_env_of env owner = (le_arena env)\<lparr>ae_owner := owner\<rparr>"

definition arena_arm_of :: "'os lo_env \<Rightarrow> request \<Rightarrow> 'os sys \<Rightarrow> (usize option \<times> 'os sys) option" where
  "arena_arm_of env rq s =
     (if aw_exhausted (s_arena s) then Some (None, s)
      else
        let (owner, s) = magazine_owner s
        in do {
             (r, h, w) \<leftarrow> arena_arm (arena_env_of env owner) (rq_total rq) (rq_pad rq) (rq_align rq) (s_hot s) (s_arena s);
             let s = s\<lparr>s_hot := h, s_arena := w\<rparr>;
             Some (case r of None \<Rightarrow> (None, s)
                   | Some (p, headerless) \<Rightarrow> if headerless then (Some p, s) else with_header rq Arena (Some p, s))
           })"

definition try_backend ::
  "'os lo_env \<Rightarrow> (nat \<Rightarrow> bool) \<Rightarrow> bool \<Rightarrow> backend \<Rightarrow> request \<Rightarrow> 'os sys \<Rightarrow> (usize option \<times> 'os sys) option"
where
  "try_backend env busy locked backend rq s =
     (case backend of
        Slab \<Rightarrow> if rq_total rq \<le> SLAB_MAX then slab_arm env busy rq s else Some (None, s)
      | Buddy \<Rightarrow> if rq_total rq \<le> BUDDY_MAX then buddy_arm env rq s else Some (None, s)
      | Arena \<Rightarrow> arena_arm_of env rq s
      | System \<Rightarrow>
          Some (system_alloc_with_header env locked (rq_total rq) (rq_align rq) (rq_hash rq) (rq_hint rq) (rq_ctx rq) s))"

text \<open>The fallback chain: slab, buddy, system, without the backend that has just failed.\<close>

definition route_by_size ::
  "'os lo_env \<Rightarrow> (nat \<Rightarrow> bool) \<Rightarrow> bool \<Rightarrow> request \<Rightarrow> backend option \<Rightarrow> 'os sys \<Rightarrow> (usize option \<times> 'os sys) option"
where
  "route_by_size env busy locked rq skip s =
     do {
       (p, s) \<leftarrow> (if rq_total rq \<le> SLAB_MAX \<and> skip \<noteq> Some Slab then slab_arm env busy rq s else Some (None, s));
       (case p of Some p \<Rightarrow> Some (Some p, s)
        | None \<Rightarrow>
            do {
              (p, s) \<leftarrow> (if rq_total rq \<le> BUDDY_MAX \<and> skip \<noteq> Some Buddy then buddy_arm env rq s else Some (None, s));
              (case p of Some p \<Rightarrow> Some (Some p, s)
               | None \<Rightarrow>
                   Some (system_alloc_with_header env locked (rq_total rq) (rq_align rq) (rq_hash rq) (rq_hint rq) (rq_ctx rq) s))
            })
     }"

section \<open>Freeing\<close>

text \<open>The free of a block with a header; \<open>pad\<close> is recomputed from the header's alignment.\<close>

definition header_slab_free :: "'os lo_env \<Rightarrow> usize \<Rightarrow> header \<Rightarrow> 'os sys \<Rightarrow> 'os sys" where
  "header_slab_free env block hdr s =
     (let c = unat (hdr_slab_class hdr)
      in if hdr_slab_class hdr = SIZE_CLASS_UNTRACKED \<or> c \<ge> length SLAB_SIZE_CLASSES
         then (case thread_stripe_of env s of (i, s) \<Rightarrow> put_slab i (slab_dealloc block (hdr_size hdr) (slab_world_of i s)) s)
         else if s_slab_headerless s
         then (case thread_stripe_of env s of (i, s) \<Rightarrow>
                 note_slab_central_gain env c (put_slab i (slab_dealloc_class block c (slab_world_of i s)) s))
         else
           let (owner, s) = magazine_owner s; (ok, h) = mag_push (s_hot s) owner c (unat block); s = s\<lparr>s_hot := h\<rparr>
           in if ok then s
              else let (bs, h) = mag_take (s_hot s) owner c (min (mag_refill_count c) 16); s = s\<lparr>s_hot := h\<rparr>;
                       (i, s) = thread_stripe_of env s
                   in note_slab_central_gain env c
                        (put_slab i (slab_dealloc_class block c (slab_dealloc_batch c (map of_nat bs) (slab_world_of i s))) s))"

text \<open>\<open>arena_note_free\<close> under the instance's magazine id.\<close>

definition note_arena_free :: "'os lo_env \<Rightarrow> usize \<Rightarrow> 'os sys \<Rightarrow> 'os sys option" where
  "note_arena_free env p s =
     (let (owner, s) = (if fst (arena_reclaim_active (le_arena env) (s_arena s)) then magazine_owner s else (0, s))
      in do {
           (h, w) \<leftarrow> arena_note_free (arena_env_of env owner) p (s_hot s) (s_arena s);
           Some (s\<lparr>s_hot := h, s_arena := w\<rparr>)
         })"

definition dealloc_with_header :: "'os lo_env \<Rightarrow> bool \<Rightarrow> usize \<Rightarrow> header \<Rightarrow> 'os sys \<Rightarrow> 'os sys option" where
  "dealloc_with_header env locked p hdr s =
     (let pad = header_pad (push_bit (unat (hdr_align_log2 hdr) mod 64) 1)
      in case backend_of_u8 (hdr_backend hdr) of
           Some Slab \<Rightarrow> Some (header_slab_free env (p - pad) hdr s)
         | Some Buddy \<Rightarrow> buddy_dealloc_via_magazine env (p - pad) (hdr_size hdr) s
         | Some System \<Rightarrow> Some (system_free env locked (hdr_base hdr) (hdr_map_len hdr) s)
         | Some Arena \<Rightarrow> note_arena_free env p s
         | None \<Rightarrow> Some s)"

text \<open>The fast lane's last-segment cache, and its free.\<close>

definition seg_cache_fill :: "usize \<Rightarrow> nat \<Rightarrow> 'os sys \<Rightarrow> 'os sys" where
  "seg_cache_fill p c s =
     (if \<not> s_fast_lane s then s
      else let (owner, s) = magazine_owner s
           in s\<lparr>s_hot := (s_hot s)\<lparr>seg_base := p AND NOT (SEGMENT_SIZE - 1), seg_class := of_nat c, seg_owner := owner\<rparr>\<rparr>)"

definition slab_fast_dealloc :: "usize \<Rightarrow> 'os sys \<Rightarrow> bool \<times> 'os sys" where
  "slab_fast_dealloc p s =
     (let (owner, s) = magazine_owner s; h = s_hot s; base = p AND NOT (SEGMENT_SIZE - 1)
      in if seg_base h \<noteq> base \<or> seg_owner h \<noteq> owner then (False, s)
         else if mag_owner h \<noteq> owner then (False, s)
         else let c = unat (seg_class h); n = mag_counts h c
              in if n \<ge> CLASS_CAPS ! c then (False, s)
                 else (True, s\<lparr>s_hot := h\<lparr>mag_slots := (mag_slots h)(c := (mag_slots h c)(unat n := unat p)),
                                     mag_counts := (mag_counts h)(c := n + 1)\<rparr>\<rparr>))"

text \<open>
  What a free does with a pointer: the registries are asked first, then the header is read. \<open>FForeign\<close> is a
  header without the magic number.
\<close>

datatype free_kind = FSlab nat | FBuddy nat | FArena | FHeader header | FForeign

definition classify :: "'os lo_env \<Rightarrow> usize \<Rightarrow> 'os sys \<Rightarrow> free_kind" where
  "classify env p s =
     (case headerless_class_for p s of Some c \<Rightarrow> FSlab c
      | None \<Rightarrow>
          (case buddy_headerless_order_for env p s of Some k \<Rightarrow> FBuddy k
           | None \<Rightarrow>
               if arena_headerless_hit p (s_arena s) then FArena
               else let hdr = read_header p s in if hdr_magic hdr \<noteq> HEADER_MAGIC then FForeign else FHeader hdr))"

fun free_as :: "'os lo_env \<Rightarrow> bool \<Rightarrow> usize \<Rightarrow> free_kind \<Rightarrow> 'os sys \<Rightarrow> 'os sys option" where
  "free_as env locked p (FSlab c) s = Some (slab_dealloc_headerless_front env p c s)"
| "free_as env locked p (FBuddy k) s = buddy_dealloc_via_magazine env p (block_size_of k) s"
| "free_as env locked p FArena s = note_arena_free env p s"
| "free_as env locked p (FHeader hdr) s = dealloc_with_header env locked p hdr s"
| "free_as env locked p FForeign s = Some s"

text \<open>\<open>GlobalAlloc::dealloc\<close>, without the reward bookkeeping.\<close>

definition dealloc :: "'os lo_env \<Rightarrow> bool \<Rightarrow> usize \<Rightarrow> 'os sys \<Rightarrow> 'os sys option" where
  "dealloc env locked p s =
     (if p = 0 then Some s
      else
        let s = (if s_ahr_on s then s\<lparr>s_hot := ahr_push_dealloc (s_hot s)\<rparr> else s);
            (lane, s) = (if s_fast_lane s then slab_fast_dealloc p s else (False, s))
        in if lane then Some s
           else let k = classify env p s; s = (case k of FSlab c \<Rightarrow> seg_cache_fill p c s | _ \<Rightarrow> s)
                in free_as env locked p k s)"

text \<open>The fused entry point of the C interface: whether the pointer is ours.\<close>

definition try_dealloc_raw :: "'os lo_env \<Rightarrow> bool \<Rightarrow> usize \<Rightarrow> 'os sys \<Rightarrow> (bool \<times> 'os sys) option" where
  "try_dealloc_raw env locked p s =
     (if p = 0 then Some (False, s)
      else
        let (lane, s) = (if s_fast_lane s then slab_fast_dealloc p s else (False, s))
        in if lane then Some (True, s)
           else let k = classify env p s; s = (case k of FSlab c \<Rightarrow> seg_cache_fill p c s | _ \<Rightarrow> s)
                in if k = FForeign then Some (False, s) else map_option (Pair True) (free_as env locked p k s))"

section \<open>Queries\<close>

definition backend_for_ptr :: "'os lo_env \<Rightarrow> usize \<Rightarrow> 'os sys \<Rightarrow> backend option" where
  "backend_for_ptr env p s =
     (if p = 0 then None
      else if headerless_class_for p s \<noteq> None then Some Slab
      else if buddy_headerless_order_for env p s \<noteq> None then Some Buddy
      else if arena_headerless_hit p (s_arena s) then Some Arena
      else backend_of_u8 (hdr_backend (read_header p s)))"

definition saturating_sub :: "usize \<Rightarrow> usize \<Rightarrow> usize" where "saturating_sub a b = (if a < b then 0 else a - b)"

definition header_usable :: "header \<Rightarrow> usize" where
  "header_usable hdr = saturating_sub (hdr_size hdr) (header_pad (push_bit (unat (hdr_align_log2 hdr) mod 64) 1))"

definition try_usable_size :: "'os lo_env \<Rightarrow> usize \<Rightarrow> 'os sys \<Rightarrow> usize option" where
  "try_usable_size env p s =
     (if p = 0 then None
      else case classify env p s of
             FSlab c \<Rightarrow> Some (SLAB_SIZE_CLASSES ! c)
           | FBuddy k \<Rightarrow> Some (block_size_of k)
           | FArena \<Rightarrow> Some 0
           | FHeader hdr \<Rightarrow> Some (header_usable hdr)
           | FForeign \<Rightarrow> None)"

definition usable_size :: "'os lo_env \<Rightarrow> usize \<Rightarrow> 'os sys \<Rightarrow> usize" where
  "usable_size env p s = (case try_usable_size env p s of None \<Rightarrow> 0 | Some n \<Rightarrow> n)"

definition owns :: "'os lo_env \<Rightarrow> usize \<Rightarrow> 'os sys \<Rightarrow> bool" where
  "owns env p s \<longleftrightarrow> p \<noteq> 0 \<and> classify env p s \<noteq> FForeign"

text \<open>
  The size to copy by and the token that frees the block, for \<open>realloc\<close>. A header-free arena block has no size of
  its own: the bound is the distance to the end of its chunk.
\<close>

definition usable_size_for_realloc :: "'os lo_env \<Rightarrow> usize \<Rightarrow> 'os sys \<Rightarrow> (usize \<times> free_kind) option" where
  "usable_size_for_realloc env p s =
     (if p = 0 then None
      else case classify env p s of
             FSlab c \<Rightarrow> Some (SLAB_SIZE_CLASSES ! c, FSlab c)
           | FBuddy k \<Rightarrow> Some (block_size_of k, FBuddy k)
           | FArena \<Rightarrow> Some ((p AND NOT (CHUNK_BYTES - 1)) + CHUNK_BYTES - p, FArena)
           | FHeader hdr \<Rightarrow> Some (header_usable hdr, FHeader hdr)
           | FForeign \<Rightarrow> None)"

definition allows_in_place :: "free_kind \<Rightarrow> bool" where "allows_in_place t \<longleftrightarrow> t \<noteq> FArena"

definition dealloc_with_header_token :: "'os lo_env \<Rightarrow> bool \<Rightarrow> usize \<Rightarrow> free_kind \<Rightarrow> 'os sys \<Rightarrow> 'os sys option" where
  "dealloc_with_header_token env locked p t s = free_as env locked p t s"

end
