(* ===== verification/Frontend.thy ===== *)
theory Frontend
  imports Routes
begin

text \<open>
  From a request to a block (\<open>lib.rs\<close>): the pin cache, the fast lane, the routing of a frozen and of a training
  instance, the entry points, and the publication of a frozen plane. The stack walk is the argument \<open>site\<close>, and the
  bandit's answer for a set of masked arms is the argument \<open>advice\<close>, \<open>None\<close> when its lock is poisoned. Rewards and
  latencies are not modelled: they do not affect which memory is served.
\<close>

section \<open>The pin cache\<close>

record call_site =
  cs_leaf :: "usize option"
  cs_hash :: u64
  cs_one_frame :: u64

definition pin_index :: "usize \<Rightarrow> nat" where
  "pin_index ret0 = unat (drop_bit 58 (ret0 * 0x9E3779B97F4A7C15) AND (of_nat PIN_ENTRIES - 1))"

datatype pin_probe_result = Pinned backend | NotPinned | Miss

fun pin_backend_from_u8 :: "u8 \<Rightarrow> backend" where
  "pin_backend_from_u8 b = (if b = 0 then Slab else if b = 1 then Buddy else if b = 2 then System else Arena)"

definition pin_probe :: "usize \<Rightarrow> usize \<Rightarrow> u8 \<Rightarrow> hot_tls \<Rightarrow> pin_probe_result" where
  "pin_probe table ret0 sc h =
     (if unat sc \<ge> PIN_SC_SLOTS then NotPinned
      else let e = pin h (pin_index ret0)
           in if pin_ret0 e \<noteq> ret0 \<or> pin_table e \<noteq> table then Miss
              else let b = pin_states e (unat sc)
                   in if b = PIN_UNKNOWN then Miss else if b = PIN_NOT_PINNED then NotPinned
                      else Pinned (pin_backend_from_u8 b))"

definition pin_store :: "usize \<Rightarrow> usize \<Rightarrow> u8 \<Rightarrow> backend option \<Rightarrow> hot_tls \<Rightarrow> hot_tls" where
  "pin_store table ret0 sc pinned h =
     (if unat sc \<ge> PIN_SC_SLOTS then h
      else let i = pin_index ret0; e = pin h i;
               e = (if pin_ret0 e \<noteq> ret0 \<or> pin_table e \<noteq> table
                    then \<lparr>pin_table = table, pin_ret0 = ret0, pin_states = (\<lambda>_. PIN_UNKNOWN)\<rparr> else e);
               v = (case pinned of Some b \<Rightarrow> backend_u8 b | None \<Rightarrow> PIN_NOT_PINNED)
           in h\<lparr>pin := (pin h)(i := e\<lparr>pin_states := (pin_states e)(unat sc := v)\<rparr>)\<rparr>)"

section \<open>The fast lane\<close>

definition slab_fast_alloc :: "call_site \<Rightarrow> usize \<Rightarrow> 'os sys \<Rightarrow> usize option \<times> 'os sys" where
  "slab_fast_alloc site sz s =
     (case slab_class_for sz of None \<Rightarrow> (None, s)
      | Some c \<Rightarrow>
          (case s_table s of None \<Rightarrow> (None, s)
           | Some (table, _) \<Rightarrow>
               (case cs_leaf site of None \<Rightarrow> (None, s)
                | Some ret0 \<Rightarrow>
                    let (owner, s) = magazine_owner s; h = s_hot s; e = pin h (pin_index ret0); sc = size_class_for sz
                    in if in_alloc h > 0 then (None, s)
                       else if pin_ret0 e \<noteq> ret0 \<or> pin_table e \<noteq> table then (None, s)
                       else if pin_states e (unat sc) \<noteq> backend_u8 Slab then (None, s)
                       else if mag_owner h \<noteq> owner then (None, s)
                       else let n = mag_counts h c
                            in if n = 0 then (None, s)
                               else let n = n - 1; h = h\<lparr>mag_counts := (mag_counts h)(c := n)\<rparr>; p = of_nat (mag_slots h c (unat n));
                                        h = (if s_ahr_on s then h\<lparr>ahr := push_bit CTX_EVENT_BITS (ahr h) OR ahr_alloc_code sc\<rparr> else h)
                                    in (Some p, s\<lparr>s_hot := h\<rparr>))))"

section \<open>Routing\<close>

text \<open>A backend's arm, and the size chain without it when it fails.\<close>

definition serve_or_fall ::
  "'os lo_env \<Rightarrow> (nat \<Rightarrow> bool) \<Rightarrow> bool \<Rightarrow> backend \<Rightarrow> request \<Rightarrow> 'os sys \<Rightarrow> (usize option \<times> 'os sys) option"
where
  "serve_or_fall env busy locked b rq s =
     do {
       (p, s) \<leftarrow> try_backend env busy locked b rq s;
       (case p of Some p \<Rightarrow> Some (Some p, s) | None \<Rightarrow> route_by_size env busy locked rq (Some b) s)
     }"

definition request_of :: "usize \<Rightarrow> usize \<Rightarrow> u64 \<Rightarrow> u8 \<Rightarrow> u8 \<Rightarrow> request" where
  "request_of sz align hash hint ctx =
     \<lparr>rq_total = sz + header_pad align, rq_align = align, rq_pad = header_pad align, rq_hash = hash, rq_hint = hint, rq_ctx = ctx\<rparr>"

text \<open>The buddy arm is masked when this instance would refuse the request header-free.\<close>

definition unservable_mask :: "'os lo_env \<Rightarrow> usize \<Rightarrow> usize \<Rightarrow> 'os sys \<Rightarrow> u8" where
  "unservable_mask env tot align s =
     (if s_buddy_headerless s \<and> align \<le> MIN_ALIGN
         \<and> (case order_for tot of Some k \<Rightarrow> k < MIN_HEADERLESS_ORDER | None \<Rightarrow> False) \<and> le_servable env
      then push_bit (unat (backend_u8 Buddy)) 1 else 0)"

definition route_alloc_inner ::
  "'os lo_env \<Rightarrow> (nat \<Rightarrow> bool) \<Rightarrow> bool \<Rightarrow> (u8 \<Rightarrow> backend option) \<Rightarrow> u64 \<Rightarrow> usize \<Rightarrow> usize \<Rightarrow> 'os sys \<Rightarrow>
   (usize option \<times> 'os sys) option"
where
  "route_alloc_inner env busy locked advice hash sz align s =
     (let s = (if s_train_init s then s else latch_train_headerless_once env s);
          sc = size_class_for sz;
          (ctx, s) =
            (if s_ahr_on s
             then case ahr_ctx_and_push_alloc (s_hot s) sc of
                    (raw, h) \<Rightarrow> (Some (ahr_shallow raw, ahr_deep raw), s\<lparr>s_hot := h\<rparr>)
             else (None, s));
          rq = request_of sz align hash sc (case ctx of Some (shallow, _) \<Rightarrow> shallow | None \<Rightarrow> CTX_UNTRACKED)
      in case s_table s of
           Some (_, table) \<Rightarrow>
             let key = combine_hash_size_class hash sc;
                 b = (case route_main table key ctx of Some b \<Rightarrow> b | None \<Rightarrow> default_backend_for_size sz)
             in serve_or_fall env busy locked b rq s
         | None \<Rightarrow>
             (case advice (unservable_mask env (rq_total rq) align s) of
                Some b \<Rightarrow> serve_or_fall env busy locked b rq s
              | None \<Rightarrow> route_by_size env busy locked rq None s))"

definition route_alloc ::
  "'os lo_env \<Rightarrow> (nat \<Rightarrow> bool) \<Rightarrow> bool \<Rightarrow> (u8 \<Rightarrow> backend option) \<Rightarrow> call_site \<Rightarrow> usize \<Rightarrow> usize \<Rightarrow> 'os sys \<Rightarrow>
   (usize option \<times> 'os sys) option"
where
  "route_alloc env busy locked advice site sz align s =
     (let sc = size_class_for sz; rq = request_of sz align 0 sc CTX_UNTRACKED;
          push = (\<lambda>s. s\<lparr>s_hot := ahr_push_alloc (s_hot s) sc\<rparr>);
          shortcut = (case s_table s of Some (_, fr) \<Rightarrow> if s_sc_shortcut s then sc_verdict fr sc else None | None \<Rightarrow> None)
      in case shortcut of
           Some b \<Rightarrow>
             let s = (case s_table s of Some (_, fr) \<Rightarrow> if fr_ahr_needed fr \<and> s_ahr_on s then push s else s | None \<Rightarrow> s)
             in serve_or_fall env busy locked b rq s
         | None \<Rightarrow>
             (case cs_leaf site of None \<Rightarrow> route_alloc_inner env busy locked advice 0 sz align s
              | Some ret0 \<Rightarrow>
                  (case s_table s of
                     None \<Rightarrow> route_alloc_inner env busy locked advice (cs_hash site) sz align s
                   | Some (table, fr) \<Rightarrow>
                       (case pin_probe table ret0 sc (s_hot s) of
                          Pinned b \<Rightarrow> serve_or_fall env busy locked b rq (if s_ahr_on s then push s else s)
                        | NotPinned \<Rightarrow> route_alloc_inner env busy locked advice (cs_hash site) sz align s
                        | Miss \<Rightarrow>
                            let pinned = lookup (fr_distilled fr) (combine_hash_size_class (cs_one_frame site) sc)
                            in route_alloc_inner env busy locked advice (cs_hash site) sz align
                                 (s\<lparr>s_hot := pin_store table ret0 sc pinned (s_hot s)\<rparr>)))))"

section \<open>Entry points\<close>

text \<open>The re-entrancy depth is raised around the routing; a nested call is served by the system backend.\<close>

definition guarded ::
  "'os lo_env \<Rightarrow> bool \<Rightarrow> u64 \<Rightarrow> usize \<Rightarrow> usize \<Rightarrow> ('os sys \<Rightarrow> (usize option \<times> 'os sys) option) \<Rightarrow> 'os sys \<Rightarrow>
   (usize option \<times> 'os sys) option"
where
  "guarded env locked hash sz align f s =
     (let depth = in_alloc_get (s_hot s)
      in if depth > 0
         then Some (system_alloc_with_header env locked (sz + header_pad align) align hash SIZE_CLASS_UNTRACKED CTX_UNTRACKED s)
         else do {
           (p, s) \<leftarrow> f (s\<lparr>s_hot := in_alloc_set (s_hot s) (depth + 1)\<rparr>);
           Some (p, s\<lparr>s_hot := in_alloc_set (s_hot s) depth\<rparr>)
         })"

definition alloc ::
  "'os lo_env \<Rightarrow> (nat \<Rightarrow> bool) \<Rightarrow> bool \<Rightarrow> (u8 \<Rightarrow> backend option) \<Rightarrow> call_site \<Rightarrow> usize \<Rightarrow> usize \<Rightarrow> 'os sys \<Rightarrow>
   (usize option \<times> 'os sys) option"
where
  "alloc env busy locked advice site sz0 align0 s =
     (let sz = max sz0 1; align = max align0 MIN_ALIGN; tot = sz + header_pad align;
          (fast, s) =
            (if s_fast_lane s \<and> align \<le> MIN_ALIGN \<and> tot \<le> SLAB_MAX then slab_fast_alloc site sz s else (None, s))
      in case fast of Some p \<Rightarrow> Some (Some p, s)
         | None \<Rightarrow> guarded env locked 0 sz align (route_alloc env busy locked advice site sz align) s)"

definition alloc_with_hash ::
  "'os lo_env \<Rightarrow> (nat \<Rightarrow> bool) \<Rightarrow> bool \<Rightarrow> (u8 \<Rightarrow> backend option) \<Rightarrow> u64 \<Rightarrow> usize \<Rightarrow> usize \<Rightarrow> 'os sys \<Rightarrow>
   (usize option \<times> 'os sys) option"
where
  "alloc_with_hash env busy locked advice hash sz0 align0 s =
     (let sz = max sz0 1; align = max align0 MIN_ALIGN
      in guarded env locked hash sz align (route_alloc_inner env busy locked advice hash sz align) s)"

text \<open>The strategy's backend first, without a routing hint in the header.\<close>

definition alloc_with_hash_and_strategy ::
  "'os lo_env \<Rightarrow> (nat \<Rightarrow> bool) \<Rightarrow> bool \<Rightarrow> (u8 \<Rightarrow> backend option) \<Rightarrow> u64 \<Rightarrow> usize \<Rightarrow> usize \<Rightarrow> strategy \<Rightarrow> 'os sys \<Rightarrow>
   (usize option \<times> 'os sys) option"
where
  "alloc_with_hash_and_strategy env busy locked advice hash sz0 align0 strat s =
     (let sz = max sz0 1; align = max align0 MIN_ALIGN
      in guarded env locked hash sz align
           (\<lambda>s. do {
              (p, s) \<leftarrow> (case preferred_backend strat sz of
                 Some b \<Rightarrow> try_backend env busy locked b (request_of sz align hash SIZE_CLASS_UNTRACKED CTX_UNTRACKED) s
               | None \<Rightarrow> Some (None, s));
              (case p of Some p \<Rightarrow> Some (Some p, s)
               | None \<Rightarrow> route_alloc_inner env busy locked advice hash sz align s)
            }) s)"

section \<open>Publishing a frozen plane\<close>

definition publish_frozen_table :: "'os lo_env \<Rightarrow> usize \<Rightarrow> frozen_routing option \<Rightarrow> 'os sys \<Rightarrow> 'os sys" where
  "publish_frozen_table env ptr routing s =
     (case routing of None \<Rightarrow> s
      | Some fr \<Rightarrow>
          s\<lparr>s_ahr_on := has_context_entries fr, s_sc_shortcut := le_sc_shortcut env,
            s_fast_lane := s_slab_headerless s \<and> le_fast_lane env \<and> has_backend (fr_distilled fr) Slab,
            s_table := Some (ptr, fr)\<rparr>)"

text \<open>\<open>load\<close>: a plane read from a model file, at the address it is leaked to; malformed data change nothing.\<close>

definition load_model :: "'os lo_env \<Rightarrow> usize \<Rightarrow> u8 list \<Rightarrow> 'os sys \<Rightarrow> (bool \<times> 'os sys) rust" where
  "load_model env ptr data s =
     (case deserialize data of
        Panic \<Rightarrow> Panic
      | Return None \<Rightarrow> Return (False, s)
      | Return (Some fr) \<Rightarrow>
          Return (True, (publish_frozen_table env ptr (Some fr) (latch_headerless s))\<lparr>s_frozen := True\<rparr>))"

text \<open>Back to training: the plane is unpublished and the lanes are disarmed.\<close>

definition reset_to_training :: "'os sys \<Rightarrow> 'os sys" where
  "reset_to_training s =
     s\<lparr>s_fast_lane := False, s_table := None, s_frozen := False, s_ahr_on := True\<rparr>"

end
