(* ===== verification/SlabFleet.thy ===== *)
theory SlabFleet
  imports Instance
begin

text \<open>
  The striped slab behind the per-thread magazines. Each stripe sees the blocks that the other stripes hold as live
  blocks of its own invariant; so every operation of one stripe, and the migration of a block from one stripe's free
  list to another's, keeps one invariant for all of them.
\<close>

section \<open>The free blocks of a tier are determined\<close>

lemma chain_unique: "chain mem h xs \<Longrightarrow> chain mem h ys \<Longrightarrow> xs = ys"
proof (induction xs arbitrary: h ys)
  case Nil
  then show ?case by (cases ys) auto
next
  case (Cons x xs)
  then show ?case by (cases ys) auto
qed

lemma tier_free_unique:
  assumes "c < 12" and "tier_free mem t c us" and "tier_free mem t c vs"
  shows "us = vs"
proof -
  obtain xs n ys m where us: "us = cache_list t c @ xs @ grid (carve_cursor t c) c n"
    "chain mem (free_heads t c) xs" "unat (carve_end t c) = unat (carve_cursor t c) + n * unat (class_stride c)"
    and vs: "vs = cache_list t c @ ys @ grid (carve_cursor t c) c m"
    "chain mem (free_heads t c) ys" "unat (carve_end t c) = unat (carve_cursor t c) + m * unat (class_stride c)"
    using assms(2,3) unfolding tier_free_def by blast
  have "unat (class_stride c) \<noteq> 0" using class_stride_bounds [OF assms(1)] by linarith
  moreover have "n * unat (class_stride c) = m * unat (class_stride c)" using us(3) vs(3) by linarith
  ultimately have "n = m" by (metis mult_right_cancel)
  then show ?thesis using us(1) vs(1) chain_unique [OF us(2) vs(2)] by simp
qed

section \<open>One invariant for all stripes\<close>

abbreviation seg_rinv :: "segment_registry \<Rightarrow> bool" where
  "seg_rinv r \<equiv> probe_inv SEGMENT_CAPACITY (seg_keys r)"

abbreviation stripe_inv :: "('os \<Rightarrow> nat set) \<Rightarrow> ('os, segment_registry) slab_world \<Rightarrow> live \<Rightarrow> grant list \<Rightarrow> bool" where
  "stripe_inv mapped \<equiv> slab_inv mapped seg_rinv SlabSafety.seg_owner"

type_synonym frees = "nat \<Rightarrow> bool \<Rightarrow> nat \<Rightarrow> usize list"

definition stripe_view :: "nat \<Rightarrow> frees \<Rightarrow> nat \<Rightarrow> live \<Rightarrow> live" where
  "stripe_view N F i live fl c = (if c < 12 then live fl c + (\<Sum>j \<in> {..<N} - {i}. mset (F j fl c)) else {#})"

definition fleet_inv :: "('os \<Rightarrow> nat set) \<Rightarrow> nat \<Rightarrow> 'os sys \<Rightarrow> live \<Rightarrow> grant list \<Rightarrow> frees \<Rightarrow> bool" where
  "fleet_inv mapped N s live G F \<longleftrightarrow>
     (\<forall>i < N. stripe_inv mapped (slab_world_of i s) (stripe_view N F i live) G)
     \<and> (\<forall>i < N. \<forall>fl. \<forall>c < 12. tier_free (s_nodes s) (tiers_of fl (s_slab s i)) c (F i fl c))
     \<and> (\<forall>fl c. 12 \<le> c \<longrightarrow> live fl c = {#})"

lemma slab_world_simps [simp]:
  "w_slab (slab_world_of i s) = s_slab s i" "w_mem (slab_world_of i s) = s_nodes s"
  "w_os (slab_world_of i s) = s_os s" "w_reg (slab_world_of i s) = s_segments s"
  by (simp_all add: slab_world_of_def)

lemma put_slab_simps [simp]:
  "s_slab (put_slab i w s) = (s_slab s)(i := w_slab w)" "s_nodes (put_slab i w s) = w_mem w"
  "s_os (put_slab i w s) = w_os w" "s_segments (put_slab i w s) = w_reg w"
  "s_hot (put_slab i w s) = s_hot s" "s_magazine_id (put_slab i w s) = s_magazine_id s"
  "s_next_id (put_slab i w s) = s_next_id s" "s_slab_headerless (put_slab i w s) = s_slab_headerless s"
  "s_gain (put_slab i w s) = s_gain s" "s_fast_lane (put_slab i w s) = s_fast_lane s"
  by (simp_all add: put_slab_def set_os_def)

text \<open>The invariant reads four fields of the state.\<close>

lemma fleet_inv_cong:
  assumes "s_slab s' = s_slab s" and "s_nodes s' = s_nodes s" and "s_os s' = s_os s" and "s_segments s' = s_segments s"
  shows "fleet_inv mapped N s' live G F \<longleftrightarrow> fleet_inv mapped N s live G F"
  by (simp add: fleet_inv_def slab_world_of_def assms)

lemma slab_inv_choose:
  assumes "slab_inv mapped rinv owner w live G"
  obtains X where "\<And>fl c. c < 12 \<Longrightarrow> tier_free (w_mem w) (tiers_of fl (w_slab w)) c (X fl c)"
    and "\<And>fl c. c < 12 \<Longrightarrow> mset (X fl c) + live fl c = mset (blocks_of fl c G)"
proof -
  have "\<forall>fl c. \<exists>us. c < 12 \<longrightarrow> tier_free (w_mem w) (tiers_of fl (w_slab w)) c us \<and> mset us + live fl c = mset (blocks_of fl c G)"
    using assms unfolding slab_inv_def by blast
  then obtain X where "\<forall>fl c. c < 12 \<longrightarrow> tier_free (w_mem w) (tiers_of fl (w_slab w)) c (X fl c)
      \<and> mset (X fl c) + live fl c = mset (blocks_of fl c G)" by metis
  then show thesis using that by blast
qed

lemma fleet_total:
  assumes "fleet_inv mapped N s live G F" and "0 < N" and "c < 12"
  shows "(\<Sum>j < N. mset (F j fl c)) + live fl c = mset (blocks_of fl c G)"
proof -
  have I: "stripe_inv mapped (slab_world_of 0 s) (stripe_view N F 0 live) G"
    "tier_free (s_nodes s) (tiers_of fl (s_slab s 0)) c (F 0 fl c)"
    using assms by (simp_all add: fleet_inv_def)
  obtain X where X: "\<And>fl c. c < 12 \<Longrightarrow> tier_free (w_mem (slab_world_of 0 s)) (tiers_of fl (w_slab (slab_world_of 0 s))) c (X fl c)"
    "\<And>fl c. c < 12 \<Longrightarrow> mset (X fl c) + stripe_view N F 0 live fl c = mset (blocks_of fl c G)"
    using slab_inv_choose [OF I(1)] by blast
  have "X fl c = F 0 fl c" using tier_free_unique [OF assms(3) X(1) [OF assms(3), of fl]] I(2) by simp
  then have "mset (F 0 fl c) + (live fl c + (\<Sum>j \<in> {..<N} - {0}. mset (F j fl c))) = mset (blocks_of fl c G)"
    using X(2) [OF assms(3), of fl] assms(3) by (simp add: stripe_view_def)
  moreover have "(\<Sum>j < N. mset (F j fl c)) = mset (F 0 fl c) + (\<Sum>j \<in> {..<N} - {0}. mset (F j fl c))"
    by (rule sum.remove) (use assms(2) in auto)
  ultimately show ?thesis by (simp add: ac_simps)
qed

text \<open>What a stripe did to its own world is what happened to the fleet.\<close>

lemma fleet_update:
  assumes inv: "fleet_inv mapped N s live G F" and i: "i < N"
    and here: "stripe_inv mapped w' view' G'"
    and view: "\<And>fl c. c < 12 \<Longrightarrow> view' fl c = live' fl c + (\<Sum>j \<in> {..<N} - {i}. mset (F j fl c))"
    and big: "\<And>fl c. 12 \<le> c \<Longrightarrow> live' fl c = {#}"
    and others: "\<And>j fl c. j < N \<Longrightarrow> j \<noteq> i \<Longrightarrow> c < 12 \<Longrightarrow> tier_free (w_mem w') (tiers_of fl (s_slab s j)) c (F j fl c)"
  shows "\<exists>F'. fleet_inv mapped N (put_slab i w' s) live' G' F'"
proof -
  obtain X where X: "\<And>fl c. c < 12 \<Longrightarrow> tier_free (w_mem w') (tiers_of fl (w_slab w')) c (X fl c)"
    "\<And>fl c. c < 12 \<Longrightarrow> mset (X fl c) + view' fl c = mset (blocks_of fl c G')"
    using slab_inv_choose [OF here] by blast
  let ?F = "F(i := X)" and ?s = "put_slab i w' s"
  have tf: "tier_free (s_nodes ?s) (tiers_of fl (s_slab ?s j)) c (?F j fl c)" if "j < N" "c < 12" for j fl c
    using X(1) [OF that(2)] others [OF that(1) _ that(2)] by simp
  have total: "(\<Sum>k < N. mset (?F k fl c)) + live' fl c = mset (blocks_of fl c G')" if "c < 12" for fl c
  proof -
    have "(\<Sum>k < N. mset (?F k fl c)) = mset (X fl c) + (\<Sum>k \<in> {..<N} - {i}. mset (F k fl c))"
      by (subst sum.remove [of _ i]) (use i in auto)
    then show ?thesis using X(2) [OF that, of fl] view [OF that, of fl] by (simp add: ac_simps)
  qed
  have "stripe_inv mapped (slab_world_of j ?s) (stripe_view N ?F j live') G'" if j: "j < N" for j
  proof -
    have "mset (?F j fl c) + stripe_view N ?F j live' fl c = mset (blocks_of fl c G')" if "c < 12" for fl c
    proof -
      have "(\<Sum>k < N. mset (?F k fl c)) = mset (?F j fl c) + (\<Sum>k \<in> {..<N} - {j}. mset (?F k fl c))"
        by (rule sum.remove) (use j in auto)
      then show ?thesis using total [OF that, of fl] that by (simp add: stripe_view_def ac_simps)
    qed
    then show ?thesis using here tf [OF j] unfolding slab_inv_def
      by (simp add: stripe_view_def del: fun_upd_apply) blast
  qed
  then show ?thesis using tf big unfolding fleet_inv_def by blast
qed

section \<open>Operations of one stripe\<close>

lemma recycled_frame:
  "slab_alloc_batch_recycled c len fl w = (bs, w') \<Longrightarrow> w_mem w' = w_mem w \<and> w_os w' = w_os w \<and> w_reg w' = w_reg w"
  by (auto simp: slab_alloc_batch_recycled_def split: if_splits prod.splits)

lemma refill_segment_mem: "refill_segment env c w = (r, w') \<Longrightarrow> w_mem w' = w_mem w"
  by (auto simp: refill_segment_def Let_def split: option.splits prod.splits bool.splits)

lemma slab_refill_mem: "slab_refill env c sz w = (r, w') \<Longrightarrow> w_mem w' = w_mem w \<and> w_reg w' = w_reg w"
  by (auto simp: slab_refill_def Let_def split: option.splits prod.splits)

lemma alloc_batch_loop_mem: "slab_alloc_batch_loop env c r k w = (bs, w') \<Longrightarrow> w_mem w' = w_mem w \<and> w_reg w' = w_reg w"
proof (induction env c r k w arbitrary: bs w' rule: slab_alloc_batch_loop.induct)
  case (2 env c r k w)
  obtain x w1 where p: "pop_header c w = (x, w1)" by force
  have m: "w_mem w1 = w_mem w \<and> w_reg w1 = w_reg w" using header.pop_tiers [OF p] by blast
  show ?case
  proof (cases x)
    case (Some b)
    obtain bs1 w2 where r1: "slab_alloc_batch_loop env c r k w1 = (bs1, w2)" by force
    have "w' = w2" using 2(3) p Some r1 by simp
    then show ?thesis using 2(2) [OF p [symmetric] Some r1] m by simp
  next
    case None
    show ?thesis
    proof (cases r)
      case True
      then show ?thesis using 2(3) p m None by simp
    next
      case False
      obtain ok w2 where f: "slab_refill env c (SLAB_SIZE_CLASSES ! c) w1 = (ok, w2)" by force
      have m2: "w_mem w2 = w_mem w \<and> w_reg w2 = w_reg w" using slab_refill_mem [OF f] m by simp
      show ?thesis
      proof (cases ok)
        case True
        have "slab_alloc_batch_loop env c True (Suc k) w2 = (bs, w')" using 2(3) p None False f True by simp
        then show ?thesis using 2(1) [OF p [symmetric] None False f [symmetric]] True m2 by simp
      next
        case ok: False
        then show ?thesis using 2(3) p None False f m2 by simp
      qed
    qed
  qed
qed simp

lemma alloc_batch_headerless_mem:
  assumes "slab_alloc_batch_headerless env c len w = Some r"
  shows "w_mem (snd r) = w_mem w"
proof (rule slab_alloc_batch_headerless.raw_induct [where P = "\<lambda>env c len w r. w_mem (snd r) = w_mem w", OF _ assms])
  fix f env c len w r
  assume IH: "\<And>env c len w r. f env c len w = Some r \<Longrightarrow> w_mem (snd r) = w_mem w"
    and res: "(if len = 0 then Some ([], w)
      else case pop_hl c w of
        (Some b, w') \<Rightarrow> Option.bind (f env c (len - 1) w') (\<lambda>(bs, w''). Some (b # bs, w''))
      | (None, w') \<Rightarrow>
          (case refill_segment env c w' of
             (None, w'') \<Rightarrow> Some ([], w'')
           | (Some base, w'') \<Rightarrow> f env c len w'')) = Some r"
  obtain x w1 where p: "pop_hl c w = (x, w1)" by force
  have m: "w_mem w1 = w_mem w" using headerless.pop_tiers [OF p] by blast
  obtain q w2 where f: "refill_segment env c w1 = (q, w2)" by force
  have m2: "w_mem w2 = w_mem w" using refill_segment_mem [OF f] m by simp
  show "w_mem (snd r) = w_mem w"
  proof (cases "len = 0")
    case True
    then show ?thesis using res by auto
  next
    case len: False
    show ?thesis
    proof (cases x)
      case (Some b)
      then obtain r1 where "f env c (len - 1) w1 = Some r1" "snd r = snd r1"
        using res len p by (auto simp: Option.bind_eq_Some_conv)
      then show ?thesis using IH m by metis
    next
      case None
      show ?thesis
      proof (cases q)
        case N: None
        then show ?thesis using res len p None f m2 by auto
      next
        case (Some base)
        then have "f env c len w2 = Some r" using res len p None f by simp
        then show ?thesis using IH m2 by metis
      qed
    qed
  qed
qed

lemma dealloc_headerless_mem: "a \<noteq> b \<Longrightarrow> w_mem (slab_dealloc_headerless b c w) a = w_mem w a"
  using dealloc_frame(2) headerless.dealloc_tiers [of w b c] by blast

lemma dealloc_batch_headerless_mem: "a \<notin> set bs \<Longrightarrow> w_mem (slab_dealloc_batch_headerless c bs w) a = w_mem w a"
  by (induction bs arbitrary: w) (auto simp: dealloc_headerless_mem)

lemma dealloc_class_mem: "a \<noteq> b \<Longrightarrow> w_mem (slab_dealloc_class b c w) a = w_mem w a"
  using dealloc_frame(2) header.dealloc_tiers [of w b c] by blast

lemma dealloc_batch_mem: "a \<notin> set bs \<Longrightarrow> w_mem (slab_dealloc_batch c bs w) a = w_mem w a"
  by (induction bs arbitrary: w) (auto simp: dealloc_class_mem)

section \<open>The fleet under an operation of one stripe\<close>

lemma fleetD:
  assumes "fleet_inv mapped N s live G F" and "i < N"
  shows "stripe_inv mapped (slab_world_of i s) (stripe_view N F i live) G"
    and "c < 12 \<Longrightarrow> tier_free (s_nodes s) (tiers_of fl (s_slab s i)) c (F i fl c)"
    and "12 \<le> c \<Longrightarrow> live fl c = {#}"
  using assms by (auto simp: fleet_inv_def)

lemma fleet_alloc:
  assumes inv: "fleet_inv mapped N s live G F" and i: "i < N" and c: "c < 12"
    and here: "stripe_inv mapped w' (live_adds (stripe_view N F i live) fl c bs) G'" and mem: "w_mem w' = s_nodes s"
  shows "\<exists>F'. fleet_inv mapped N (put_slab i w' s) (live_adds live fl c bs) G' F'"
proof (rule fleet_update [OF inv i here])
  show "live_adds (stripe_view N F i live) fl c bs f d = live_adds live fl c bs f d + (\<Sum>j \<in> {..<N} - {i}. mset (F j f d))"
    if "d < 12" for f d
    using that by (auto simp: live_adds_def stripe_view_def ac_simps)
  show "live_adds live fl c bs f d = {#}" if "12 \<le> d" for f d
    using that c fleetD(3) [OF inv i that, of f] by (auto simp: live_adds_def)
  show "tier_free (w_mem w') (tiers_of f (s_slab s j)) d (F j f d)" if "j < N" "j \<noteq> i" "d < 12" for j f d
    using fleetD(2) [OF inv that(1,3)] mem by simp
qed

lemma fleet_foreign:
  assumes inv: "fleet_inv mapped N s live G F" and i: "i < N" and j: "j < N" "j \<noteq> i" and d: "d < 12" "p \<in> set (F j f d)"
    and b: "b \<in># live fl c"
  shows "p \<noteq> b"
proof
  assume eq: "p = b"
  note I = fleetD(1) [OF inv i]
  have c: "c < 12" using fleetD(3) [OF inv i, of c fl] b by (metis not_le empty_iff set_mset_empty)
  have S: "p \<in># (\<Sum>k \<in> {..<N} - {i}. mset (F k f d))" using j d(2) by (auto simp: set_mset_sum)
  then have pv: "p \<in># stripe_view N F i live f d" using d(1) by (simp add: stripe_view_def)
  have bv: "b \<in># stripe_view N F i live fl c" using b c by (simp add: stripe_view_def)
  show False
  proof (cases "(f, d) = (fl, c)")
    case True
    then have "1 \<le> count (live fl c) b" "1 \<le> count (\<Sum>k \<in> {..<N} - {i}. mset (F k fl c)) b"
      using b S eq by (simp_all add: Suc_le_eq count_greater_zero_iff)
    moreover have "count (stripe_view N F i live fl c) b = count (live fl c) b + count (\<Sum>k \<in> {..<N} - {i}. mset (F k fl c)) b"
      using c by (simp add: stripe_view_def)
    ultimately have "2 \<le> count (stripe_view N F i live fl c) b" by linarith
    then show False using slab_inv_live(2) [OF I bv] by simp
  next
    case False
    then have "block_span d p \<inter> block_span c b = {}"
      using blocks_disjoint [OF slab_inv_grants [OF I] slab_inv_live(6) [OF I pv] slab_inv_live(6) [OF I bv]] eq by auto
    then show False using span_nonempty [OF d(1), of p] span_nonempty [OF c, of b] eq by blast
  qed
qed

lemma fleet_free:
  assumes inv: "fleet_inv mapped N s live G F" and i: "i < N" and c: "c < 12" and sub: "mset bs \<subseteq># live fl c"
    and here: "stripe_inv mapped w' (live_removes (stripe_view N F i live) fl c bs) G"
    and mem: "\<And>a. a \<notin> set bs \<Longrightarrow> w_mem w' a = s_nodes s a"
  shows "\<exists>F'. fleet_inv mapped N (put_slab i w' s) (live_removes live fl c bs) G F'"
proof (rule fleet_update [OF inv i here])
  show "live_removes (stripe_view N F i live) fl c bs f d = live_removes live fl c bs f d + (\<Sum>j \<in> {..<N} - {i}. mset (F j f d))"
    if "d < 12" for f d
  proof (cases "f = fl \<and> d = c")
    case True
    then show ?thesis using that subset_mset.diff_add_assoc2 [OF sub] by (simp add: live_removes_def stripe_view_def)
  next
    case False
    then show ?thesis using that by (auto simp: live_removes_def stripe_view_def)
  qed
  show "live_removes live fl c bs f d = {#}" if "12 \<le> d" for f d
    using that c fleetD(3) [OF inv i that, of f] by (auto simp: live_removes_def)
  show "tier_free (w_mem w') (tiers_of f (s_slab s j)) d (F j f d)" if "j < N" "j \<noteq> i" "d < 12" for j f d
  proof (rule tier_free_mem [OF fleetD(2) [OF inv that(1,3)]])
    fix p assume p: "p \<in> set (F j f d)"
    have "p \<notin> set bs"
    proof
      assume "p \<in> set bs"
      then have "p \<in># live fl c" using sub by (metis mset_subset_eqD set_mset_mset)
      then show False using fleet_foreign [OF inv i that(1,2,3) p] by blast
    qed
    then show "w_mem w' p = s_nodes s p" by (rule mem)
  qed
qed

section \<open>The central paths\<close>

definition lo_kernel_ok :: "'os lo_env \<Rightarrow> ('os \<Rightarrow> nat set) \<Rightarrow> bool" where
  "lo_kernel_ok env mapped \<longleftrightarrow> unat (le_mask env) < 32 \<and> pages_ok (le_page env) (le_mmap env) mapped
     \<and> (\<forall>os b len. mapped (le_munmap env os (b, len)) = mapped os - {unat b ..< unat b + unat len})"

lemma slab_env_kernel: "lo_kernel_ok env mapped \<Longrightarrow> kernel_ok (slab_env_of env i c) mapped"
  by (simp add: lo_kernel_ok_def kernel_ok_def slab_env_of_def)

lemma slab_env_register: "slab_env_of env i c = (slab_env_of env i c)\<lparr>env_register := seg_register (of_nat i) c\<rparr>"
  by (simp add: slab_env_of_def)

text \<open>All \<open>MAX_STRIPES\<close> stripes exist; the mask says which of them threads are assigned to.\<close>

abbreviation STRIPES :: nat where "STRIPES \<equiv> 32"

lemma fleet_recycled:
  assumes inv: "fleet_inv mapped N s live G F" and i: "i < N" and c: "c < 12"
    and res: "slab_alloc_batch_recycled c len fl (slab_world_of i s) = (bs, w)"
  shows "\<exists>F'. fleet_inv mapped N (put_slab i w s) (live_adds live fl c bs) G F'"
  using fleet_alloc [OF inv i c slab_alloc_batch_recycled_inv [OF fleetD(1) [OF inv i] c res]] recycled_frame [OF res]
  by simp

lemma fleet_carve:
  assumes kern: "lo_kernel_ok env mapped" and inv: "fleet_inv mapped N s live G F" and i: "i < N" and c: "c < 12"
  shows "\<exists>bs w G' F'. central_carve env c len fl i s = Some (bs, put_slab i w s)
    \<and> fleet_inv mapped N (put_slab i w s) (live_adds live fl c bs) G' F'"
proof (cases fl)
  case True
  obtain bs w G' where b: "slab_alloc_batch_headerless (slab_env_of env i c) c len (slab_world_of i s) = Some (bs, w)"
    and I: "stripe_inv mapped w (live_adds (stripe_view N F i live) True c bs) G'"
    using slab_alloc_batch_headerless_inv [OF slab_env_kernel [OF kern, of i c] seg_registrar_ok [of "of_nat i"] c
        fleetD(1) [OF inv i], of len] slab_env_register [of env i c] by auto
  have "w_mem w = s_nodes s" using alloc_batch_headerless_mem [OF b] by simp
  from fleet_alloc [OF inv i c I this] show ?thesis using b True by (auto simp: central_carve_def)
next
  case False
  obtain bs w where b: "slab_alloc_batch (slab_env_of env i c) c len (slab_world_of i s) = (bs, w)" by force
  then have b': "slab_alloc_batch_loop (slab_env_of env i c) c False len (slab_world_of i s) = (bs, w)"
    by (simp add: slab_alloc_batch_def)
  obtain G' where I: "stripe_inv mapped w (live_adds (stripe_view N F i live) False c bs) G'"
    using slab_alloc_batch_loop_inv [OF slab_env_kernel [OF kern] c fleetD(1) [OF inv i] b'] by blast
  have "w_mem w = s_nodes s" using alloc_batch_loop_mem [OF b'] by simp
  from fleet_alloc [OF inv i c I this] show ?thesis using b False by (auto simp: central_carve_def)
qed

text \<open>What the central paths leave alone: the magazine, its owner and the flavour it holds.\<close>

definition same_front :: "'os sys \<Rightarrow> 'os sys \<Rightarrow> bool" where
  "same_front s s' \<longleftrightarrow> s_magazine_id s' = s_magazine_id s \<and> s_next_id s' = s_next_id s
     \<and> s_slab_headerless s' = s_slab_headerless s \<and> mag_owner (s_hot s') = mag_owner (s_hot s)
     \<and> mag_counts (s_hot s') = mag_counts (s_hot s) \<and> mag_slots (s_hot s') = mag_slots (s_hot s)"

lemma same_front_refl: "same_front s s" by (simp add: same_front_def)
lemma same_front_trans: "same_front s t \<Longrightarrow> same_front t u \<Longrightarrow> same_front s u" by (simp add: same_front_def)
lemma same_front_put [simp]: "same_front s (put_slab i w s)" by (simp add: same_front_def)
lemma same_front_stack: "same_front s s' \<Longrightarrow> mag_stack (s_hot s') = mag_stack (s_hot s)"
  unfolding same_front_def mag_stack_def [abs_def] by (elim conjE) (simp only:)

lemma masked_stripe: "lo_kernel_ok env mapped \<Longrightarrow> unat (x AND le_mask env) < STRIPES"
proof -
  have "x AND le_mask env \<le> le_mask env" by (metis and.commute word_and_le1)
  then show "lo_kernel_ok env mapped \<Longrightarrow> unat (x AND le_mask env) < STRIPES" by (simp add: word_le_nat_alt lo_kernel_ok_def)
qed

lemma thread_stripe_frame:
  assumes "thread_stripe_of env s = (i, s')"
  shows "same_front s s'" and "fleet_inv mapped N s' live G F \<longleftrightarrow> fleet_inv mapped N s live G F"
    and "s_slab s' = s_slab s" and "s_segments s' = s_segments s" and "s_gain s' = s_gain s"
    and "lo_kernel_ok env mapped \<Longrightarrow> thread_stripe (s_hot s) = - 1 \<or> unat (thread_stripe (s_hot s)) < STRIPES \<Longrightarrow> i < STRIPES
      \<and> unat (thread_stripe (s_hot s')) < STRIPES"
proof -
  show "same_front s s'" "s_slab s' = s_slab s" "s_segments s' = s_segments s" "s_gain s' = s_gain s"
    using assms by (auto simp: thread_stripe_of_def same_front_def Let_def split: if_splits)
  show "fleet_inv mapped N s' live G F \<longleftrightarrow> fleet_inv mapped N s live G F"
    by (rule fleet_inv_cong) (use assms in \<open>auto simp: thread_stripe_of_def Let_def split: if_splits\<close>)
  show "lo_kernel_ok env mapped \<Longrightarrow> thread_stripe (s_hot s) = - 1 \<or> unat (thread_stripe (s_hot s)) < STRIPES \<Longrightarrow> i < STRIPES
      \<and> unat (thread_stripe (s_hot s')) < STRIPES"
    using assms masked_stripe [of env mapped "s_next_stripe s"] by (auto simp: thread_stripe_of_def Let_def split: if_splits)
qed

lemma live_adds_append: "live_adds (live_adds live fl c bs) fl c cs = live_adds live fl c (bs @ cs)"
  by (auto simp: live_adds_def ac_simps fun_eq_iff)

lemma sibling_scan_inv:
  assumes kern: "lo_kernel_ok env mapped" and "fleet_inv mapped STRIPES s live G F" and c: "c < 12"
    and "sibling_scan env busy c len fl i ks s = (bs, s')"
  shows "same_front s s' \<and> (\<exists>F'. fleet_inv mapped STRIPES s' (live_adds live fl c bs) G F')
    \<and> thread_stripe (s_hot s') = thread_stripe (s_hot s) \<and> s_gain s' = s_gain s"
  using assms(2,4)
proof (induction ks arbitrary: s F)
  case (Cons k ks)
  let ?j = "unat (of_nat (i + k) AND le_mask env)"
  have j: "?j < STRIPES" by (rule masked_stripe [OF kern])
  show ?case
  proof (cases "busy ?j")
    case True
    then show ?thesis using Cons by simp
  next
    case False
    obtain cs w where r: "slab_alloc_batch_recycled c len fl (slab_world_of ?j s) = (cs, w)" by force
    obtain F' where I: "fleet_inv mapped STRIPES (put_slab ?j w s) (live_adds live fl c cs) G F'"
      using fleet_recycled [OF Cons.prems(1) j c r] by blast
    show ?thesis
    proof (cases "cs = []")
      case True
      then have "sibling_scan env busy c len fl i ks (put_slab ?j w s) = (bs, s')" using Cons.prems(2) False r by simp
      moreover have "fleet_inv mapped STRIPES (put_slab ?j w s) live G F'" using I True by simp
      ultimately have "same_front (put_slab ?j w s) s' \<and> (\<exists>F'. fleet_inv mapped STRIPES s' (live_adds live fl c bs) G F')
          \<and> thread_stripe (s_hot s') = thread_stripe (s_hot (put_slab ?j w s)) \<and> s_gain s' = s_gain (put_slab ?j w s)"
        using Cons.IH by blast
      then show ?thesis using same_front_trans [OF same_front_put [of s ?j w]] by simp
    next
      case ne: False
      then have "bs = cs" "s' = put_slab ?j w s" using Cons.prems(2) False r by (auto simp: Let_def)
      then show ?thesis using I by auto
    qed
  qed
qed (auto simp: same_front_refl)

lemma batch_recycled_first_inv:
  assumes kern: "lo_kernel_ok env mapped" and inv: "fleet_inv mapped STRIPES s live G F" and c: "c < 12"
    and t: "thread_stripe (s_hot s) = - 1 \<or> unat (thread_stripe (s_hot s)) < STRIPES"
  shows "\<exists>bs s' G' F'. slab_batch_recycled_first env busy c len fl s = Some (bs, s') \<and> same_front s s'
    \<and> fleet_inv mapped STRIPES s' (live_adds live fl c bs) G' F' \<and> unat (thread_stripe (s_hot s')) < STRIPES"
proof -
  obtain i s1 where ts: "thread_stripe_of env s = (i, s1)" by force
  note T = thread_stripe_frame [OF ts]
  have i: "i < STRIPES" and t1: "unat (thread_stripe (s_hot s1)) < STRIPES" using T(6) [OF kern t] by blast+
  have inv1: "fleet_inv mapped STRIPES s1 live G F" using inv T(2) by blast
  let ?gated = "le_scan_gate env \<and> slab_scan_miss_epoch (s_hot s1) c = s_gain s1 c"
  note unfold = slab_batch_recycled_first_def [of env busy c len fl s] ts
  show ?thesis
  proof (cases ?gated)
    case True
    obtain bs w G' F' where C: "central_carve env c len fl i s1 = Some (bs, put_slab i w s1)"
      "fleet_inv mapped STRIPES (put_slab i w s1) (live_adds live fl c bs) G' F'"
      using fleet_carve [OF kern inv1 i c] by blast
    have "same_front s (put_slab i w s1)" using same_front_trans [OF T(1) same_front_put] .
    moreover have "unat (thread_stripe (s_hot (put_slab i w s1))) < STRIPES" using t1 by simp
    moreover have "slab_batch_recycled_first env busy c len fl s = Some (bs, put_slab i w s1)"
      using C(1) True by (simp add: unfold Let_def)
    ultimately show ?thesis using C(2) by blast
  next
    case False
    then have g: "?gated = False" by blast
    obtain bs1 w1 where r: "slab_alloc_batch_recycled c len fl (slab_world_of i s1) = (bs1, w1)" by force
    obtain F1 where I1: "fleet_inv mapped STRIPES (put_slab i w1 s1) (live_adds live fl c bs1) G F1"
      using fleet_recycled [OF inv1 i c r] by blast
    have f1: "same_front s (put_slab i w1 s1)" using same_front_trans [OF T(1) same_front_put] .
    show ?thesis
    proof (cases "bs1 = []")
      case ne: False
      have "slab_batch_recycled_first env busy c len fl s = Some (bs1, put_slab i w1 s1)"
        using r ne by (simp add: unfold Let_def g)
      moreover have "unat (thread_stripe (s_hot (put_slab i w1 s1))) < STRIPES" using t1 by simp
      ultimately show ?thesis using I1 f1 by blast
    next
      case True
      obtain bs2 s2 where q: "sibling_scan env busy c len fl i [1 ..< unat (le_mask env) + 1] (put_slab i w1 s1) = (bs2, s2)" by force
      have I1': "fleet_inv mapped STRIPES (put_slab i w1 s1) live G F1" using I1 True by simp
      obtain F2 where S: "same_front (put_slab i w1 s1) s2" "fleet_inv mapped STRIPES s2 (live_adds live fl c bs2) G F2"
        "thread_stripe (s_hot s2) = thread_stripe (s_hot (put_slab i w1 s1))"
        using sibling_scan_inv [OF kern I1' c q] by blast
      have f2: "same_front s s2" using same_front_trans [OF f1 S(1)] .
      have t2: "unat (thread_stripe (s_hot s2)) < STRIPES" using S(3) t1 by simp
      show ?thesis
      proof (cases "bs2 = []")
        case ne: False
        have "slab_batch_recycled_first env busy c len fl s = Some (bs2, s2)"
          using r True q ne by (simp add: unfold Let_def g)
        then show ?thesis using S(2) f2 t2 by blast
      next
        case e: True
        let ?s3 = "s2\<lparr>s_hot := (s_hot s2)\<lparr>slab_scan_miss_epoch := (slab_scan_miss_epoch (s_hot s2))(c := s_gain s1 c)\<rparr>\<rparr>"
        have "fleet_inv mapped STRIPES ?s3 live G F2"
          using S(2) e fleet_inv_cong [of ?s3 s2 mapped "STRIPES" live G F2] by simp
        from fleet_carve [OF kern this i c] obtain bs w G' F' where
          C: "central_carve env c len fl i ?s3 = Some (bs, put_slab i w ?s3)"
          "fleet_inv mapped STRIPES (put_slab i w ?s3) (live_adds live fl c bs) G' F'" by blast
        have "slab_batch_recycled_first env busy c len fl s = Some (bs, put_slab i w ?s3)"
          using r True q e C(1) by (simp add: unfold Let_def g)
        moreover have "same_front s (put_slab i w ?s3)" using f2 by (simp add: same_front_def)
        moreover have "unat (thread_stripe (s_hot (put_slab i w ?s3))) < STRIPES" using t2 by simp
        ultimately show ?thesis using C(2) by blast
      qed
    qed
  qed
qed

end
