(* ===== verification/SlabFront.thy ===== *)
theory SlabFront
  imports SlabFleet Routes
begin

text \<open>
  The slab as the application sees it: any number of threads with their magazines in front of the striped central
  slab, in the header and in the headerless mode, with the latch from one to the other. What an application holds and
  what the magazines hold is accounted for in the fleet's live blocks.
\<close>

section \<open>One thread\<close>

text \<open>The blocks in the magazine of the thread that runs.\<close>

definition mag_held :: "hot_tls \<Rightarrow> u64 \<Rightarrow> nat \<Rightarrow> usize multiset" where
  "mag_held h owner c = (if owner = 0 then {#} else image_mset of_nat (mset (mag_stack h owner c)))"

definition stripe_ok :: "hot_tls \<Rightarrow> bool" where
  "stripe_ok h \<longleftrightarrow> thread_stripe h = - 1 \<or> unat (thread_stripe h) < STRIPES"

definition ids_ok :: "'os sys \<Rightarrow> hot_tls \<Rightarrow> bool" where
  "ids_ok s h \<longleftrightarrow> unat (mag_owner h) < unat (s_next_id s) \<and> unat (s_magazine_id s) < unat (s_next_id s)"

text \<open>The magazine holds blocks of one flavour, header-free ones once that mode is latched.\<close>

definition mag_share :: "'os sys \<Rightarrow> hot_tls \<Rightarrow> bool \<Rightarrow> nat \<Rightarrow> usize multiset" where
  "mag_share s h fl c = (if fl = s_slab_headerless s then mag_held h (s_magazine_id s) c else {#})"

lemma mag_share_hot [simp]: "mag_share (s\<lparr>s_hot := h'\<rparr>) h fl c = mag_share s h fl c"
  by (simp add: mag_share_def)

text \<open>\<open>held\<close>: what the application and the magazines of the other threads hold.\<close>

definition local_inv ::
  "('os \<Rightarrow> nat set) \<Rightarrow> 'os sys \<Rightarrow> live \<Rightarrow> live \<Rightarrow> bool"
where
  "local_inv mapped s held live \<longleftrightarrow>
     (\<exists>G F. fleet_inv mapped STRIPES s live G F)
     \<and> (\<forall>fl c. held fl c + mag_share s (s_hot s) fl c \<subseteq># live fl c)
     \<and> stripe_ok (s_hot s) \<and> ids_ok s (s_hot s)"

lemma mag_held_foreign: "mag_owner h \<noteq> owner \<Longrightarrow> mag_held h owner c = {#}"
  by (simp add: mag_held_def mag_stack_def)

lemma magazine_owner_inv:
  assumes "local_inv mapped s held live" and "unat (s_next_id s) + 1 < 2 ^ 64" and "magazine_owner s = (owner, s')"
  shows "local_inv mapped s' held live" and "owner = s_magazine_id s'" and "owner \<noteq> 0"
    and "s_hot s' = s_hot s" and "s_slab_headerless s' = s_slab_headerless s"
    and "if s_magazine_id s = 0 then owner = s_next_id s \<and> s_next_id s' = s_next_id s + 1 else s' = s"
proof -
  note L = assms(1) [unfolded local_inv_def ids_ok_def]
  have next_id: "unat (s_next_id s + 1) = unat (s_next_id s) + 1" using assms(2) by (simp add: unat_add_64)
  have pos: "s_next_id s \<noteq> 0" using L by (auto simp: unat_gt_0 [symmetric])
  show o: "owner = s_magazine_id s'" "owner \<noteq> 0" "s_hot s' = s_hot s" "s_slab_headerless s' = s_slab_headerless s"
    "if s_magazine_id s = 0 then owner = s_next_id s \<and> s_next_id s' = s_next_id s + 1 else s' = s"
    using assms(3) pos by (auto simp: magazine_owner_def Let_def split: if_splits)
  show "local_inv mapped s' held live"
  proof (cases "s_magazine_id s = 0")
    case False
    then show ?thesis using assms(1) o(5) by simp
  next
    case True
    then have s': "s' = s\<lparr>s_next_id := s_next_id s + 1, s_magazine_id := s_next_id s\<rparr>"
      using assms(3) by (auto simp: magazine_owner_def Let_def)
    have fl: "fleet_inv mapped STRIPES s' live G F \<longleftrightarrow> fleet_inv mapped STRIPES s live G F" for G F
      by (rule fleet_inv_cong) (simp_all add: s')
    have "mag_owner (s_hot s) \<noteq> s_next_id s" using L by auto
    then have "mag_held (s_hot s) (s_next_id s) c = {#}" for c by (rule mag_held_foreign)
    then have "mag_share s' (s_hot s) fl c = {#}" for fl c by (simp add: mag_share_def s')
    moreover have "held fl c \<subseteq># live fl c" for fl c
      using L by (metis mset_subset_eq_add_left subset_mset.order_trans)
    ultimately show ?thesis using L True next_id fl by (simp add: local_inv_def ids_ok_def o(3)) (simp add: s')
  qed
qed

text \<open>Changes of the magazine alone.\<close>

lemma local_inv_hot:
  assumes "local_inv mapped s held live" and "thread_stripe h = thread_stripe (s_hot s)"
    and "unat (mag_owner h) < unat (s_next_id s)"
    and "\<And>fl c. held' fl c + mag_share s h fl c \<subseteq># live fl c"
  shows "local_inv mapped (s\<lparr>s_hot := h\<rparr>) held' live"
proof -
  have "fleet_inv mapped STRIPES (s\<lparr>s_hot := h\<rparr>) live G F \<longleftrightarrow> fleet_inv mapped STRIPES s live G F" for G F
    by (rule fleet_inv_cong) simp_all
  then show ?thesis using assms by (simp add: local_inv_def ids_ok_def stripe_ok_def)
qed

lemma mag_pop_held:
  assumes "mag_pop h owner c = (b, h')" and "c < 12" and "owner \<noteq> 0"
  shows "mag_held h owner d = (case b of Some x \<Rightarrow> if d = c then {#of_nat x#} else {#} | None \<Rightarrow> {#}) + mag_held h' owner d"
    and "thread_stripe h' = thread_stripe h" and "mag_owner h' = owner"
    and "b = None \<Longrightarrow> mag_stack h' owner c = []"
proof -
  have L: "b = (case mag_stack h owner c of [] \<Rightarrow> None | x # xs \<Rightarrow> Some x)"
    "\<And>d. mag_stack h' owner d = (if d = c then tl (mag_stack h owner c) else mag_stack h owner d)"
    using slab_mag.pop_law [OF assms(2), of h owner owner] assms(1) by auto
  show "mag_held h owner d = (case b of Some x \<Rightarrow> if d = c then {#of_nat x#} else {#} | None \<Rightarrow> {#}) + mag_held h' owner d"
    using L assms(3) by (auto simp: mag_held_def split: list.splits)
  show "b = None \<Longrightarrow> mag_stack h' owner c = []" using L by (auto split: list.splits)
  show "thread_stripe h' = thread_stripe h" "mag_owner h' = owner"
    using assms(1) by (auto simp: mag_pop_def mag_ensure_owner_def Let_def split: if_splits)
qed

lemma mag_push_held:
  assumes "mag_push h owner c b = (ok, h')" and "c < 12" and "owner \<noteq> 0"
  shows "mag_held h' owner d = (if ok \<and> d = c then {#of_nat b#} else {#}) + mag_held h owner d"
    and "thread_stripe h' = thread_stripe h" and "mag_owner h' = owner"
proof -
  have "\<And>d. mag_stack h' owner d = (if d = c \<and> ok then b # mag_stack h owner c else mag_stack h owner d)"
    using slab_mag.push_law [OF assms(2), of h owner b owner] assms(1) by auto
  then show "mag_held h' owner d = (if ok \<and> d = c then {#of_nat b#} else {#}) + mag_held h owner d"
    using assms(3) by (auto simp: mag_held_def)
  show "thread_stripe h' = thread_stripe h" "mag_owner h' = owner"
    using assms(1) by (auto simp: mag_push_def mag_ensure_owner_def Let_def split: if_splits)
qed

lemma mag_take_held:
  assumes "mag_take h owner c n = (bs, h')" and "c < 12" and "owner \<noteq> 0"
  shows "mag_held h owner d = (if d = c then mset (map of_nat bs) else {#}) + mag_held h' owner d"
    and "thread_stripe h' = thread_stripe h" and "mag_owner h' = owner"
proof -
  have L: "bs = take n (mag_stack h owner c)"
    "\<And>d. mag_stack h' owner d = (if d = c then drop n (mag_stack h owner c) else mag_stack h owner d)"
    using slab_mag.take_law [OF assms(2), of h owner n owner] assms(1) by auto
  have "mset (take n xs) + mset (drop n xs) = mset xs" for xs :: "addr list" by (metis append_take_drop_id mset_append)
  then show "mag_held h owner d = (if d = c then mset (map of_nat bs) else {#}) + mag_held h' owner d"
    using L assms(3) by (auto simp: mag_held_def image_mset_union [symmetric])
  show "thread_stripe h' = thread_stripe h" "mag_owner h' = owner"
    using assms(1) by (auto simp: mag_take_def mag_ensure_owner_def Let_def)
qed

lemma mag_push_all_held:
  assumes "c < 12" and "owner \<noteq> 0" and "mag_owner h = owner"
  shows "mag_held (mag_push_all owner c ps h) owner d \<subseteq># (if d = c then mset ps else {#}) + mag_held h owner d"
    and "thread_stripe (mag_push_all owner c ps h) = thread_stripe h" and "mag_owner (mag_push_all owner c ps h) = owner"
  using assms(3)
proof (induction ps arbitrary: h)
  case (Cons p ps)
  { case 1
    obtain ok h1 where e: "mag_push h owner c (unat p) = (ok, h1)" by force
    note P = mag_push_held [OF e assms(1,2)]
    have s: "mag_push_all owner c (p # ps) h = mag_push_all owner c ps h1" using e by simp
    have "mag_held h1 owner d \<subseteq># (if d = c then {#p#} else {#}) + mag_held h owner d" by (simp add: P(1))
    then have "(if d = c then mset ps else {#}) + mag_held h1 owner d
        \<subseteq># (if d = c then mset ps else {#}) + ((if d = c then {#p#} else {#}) + mag_held h owner d)"
      by (rule subset_mset.add_left_mono)
    then have "(if d = c then mset ps else {#}) + mag_held h1 owner d \<subseteq># (if d = c then mset (p # ps) else {#}) + mag_held h owner d"
      by (cases "d = c") (simp_all add: ac_simps)
    then show ?case unfolding s using Cons(1) [OF P(3)] subset_mset.order_trans by blast
  next
    case 2
    obtain ok h1 where e: "mag_push h owner c (unat p) = (ok, h1)" by force
    show ?case using Cons(2) [OF mag_push_held(3) [OF e assms(1,2)]] mag_push_held(2) [OF e assms(1,2)] e by simp
  next
    case 3
    obtain ok h1 where e: "mag_push h owner c (unat p) = (ok, h1)" by force
    show ?case using Cons(3) [OF mag_push_held(3) [OF e assms(1,2)]] e by simp }
qed (use assms in simp_all)

text \<open>What an operation of one thread may do to the instance's ids and mode.\<close>

definition later :: "'os sys \<Rightarrow> 'os sys \<Rightarrow> bool" where
  "later s s' \<longleftrightarrow> s_slab_headerless s' = s_slab_headerless s \<and> unat (s_next_id s) \<le> unat (s_next_id s')
     \<and> (s_magazine_id s' = s_magazine_id s \<or> s_magazine_id s = 0 \<and> unat (s_next_id s) \<le> unat (s_magazine_id s') \<and> unat (s_magazine_id s') < unat (s_next_id s'))"

lemma later_refl: "later s s" by (simp add: later_def)
lemma later_trans: "later s t \<Longrightarrow> later t u \<Longrightarrow> later s u" unfolding later_def by (elim conjE disjE) simp_all

lemma later_owner:
  assumes "unat (s_next_id s) + 1 < 2 ^ 64" and "magazine_owner s = (owner, s')"
  shows "later s s'"
proof -
  have "unat (s_next_id s + 1) = unat (s_next_id s) + 1" using assms(1) by (simp add: unat_add_64)
  then show ?thesis using assms(2) by (auto simp: later_def magazine_owner_def Let_def split: if_splits)
qed

lemma later_same:
  assumes "later s s1" and "s_slab_headerless s2 = s_slab_headerless s1" and "s_next_id s2 = s_next_id s1"
    and "s_magazine_id s2 = s_magazine_id s1"
  shows "later s s2"
  using assms by (simp add: later_def)

lemma later_front: "later s s1 \<Longrightarrow> same_front s1 s2 \<Longrightarrow> later s s2"
  by (rule later_same) (simp_all add: same_front_def)

lemma local_inv_front:
  assumes "local_inv mapped s held live" and "same_front s s'" and "fleet_inv mapped STRIPES s' live' G F"
    and "\<And>fl c. held' fl c + mag_share s (s_hot s) fl c \<subseteq># live' fl c" and "stripe_ok (s_hot s')"
  shows "local_inv mapped s' held' live'"
proof -
  have "mag_share s' (s_hot s') fl c = mag_share s (s_hot s) fl c" for fl c
    using assms(2) same_front_stack [OF assms(2)] by (simp add: mag_share_def mag_held_def same_front_def)
  moreover have "ids_ok s' (s_hot s')" using assms(1,2) by (simp add: local_inv_def ids_ok_def same_front_def)
  ultimately show ?thesis using assms(3-5) unfolding local_inv_def by auto
qed

lemma local_invD:
  assumes "local_inv mapped s held live"
  shows "\<exists>G F. fleet_inv mapped STRIPES s live G F" and "held fl c + mag_share s (s_hot s) fl c \<subseteq># live fl c"
    and "stripe_ok (s_hot s)" and "ids_ok s (s_hot s)"
  using assms by (auto simp: local_inv_def)

lemma local_inv_magazine:
  assumes L: "local_inv mapped s held live" and h: "thread_stripe h = thread_stripe (s_hot s)" "mag_owner h = s_magazine_id s"
    and sub: "\<And>c. held' (s_slab_headerless s) c + mag_held h (s_magazine_id s) c
        \<subseteq># held (s_slab_headerless s) c + mag_held (s_hot s) (s_magazine_id s) c"
    and other: "\<And>c. held' (\<not> s_slab_headerless s) c = held (\<not> s_slab_headerless s) c"
  shows "local_inv mapped (s\<lparr>s_hot := h\<rparr>) held' live"
proof (rule local_inv_hot [OF L h(1)])
  show "unat (mag_owner h) < unat (s_next_id s)" using local_invD(4) [OF L] h(2) by (simp add: ids_ok_def)
  fix fl c
  have "held' fl c + mag_share s h fl c \<subseteq># held fl c + mag_share s (s_hot s) fl c"
    using sub [of c] other [of c] by (cases "fl = s_slab_headerless s") (auto simp: mag_share_def)
  then show "held' fl c + mag_share s h fl c \<subseteq># live fl c"
    using local_invD(2) [OF L] subset_mset.order_trans by blast
qed

lemma serve_inv:
  assumes kern: "lo_kernel_ok env mapped" and L: "local_inv mapped s held live" and small: "unat (s_next_id s) + 1 < 2 ^ 64"
    and fl: "fl = s_slab_headerless s"
  shows "\<exists>r s' live'. slab_magazine_or_batch env busy fl sz s = Some (r, s') \<and> later s s'
    \<and> local_inv mapped s' (case r of None \<Rightarrow> held | Some p \<Rightarrow> live_add held fl (the (slab_class_for sz)) p) live'
    \<and> (r \<noteq> None \<longrightarrow> slab_class_for sz \<noteq> None)"
proof (cases "slab_class_for sz")
  case None
  then show ?thesis using L later_refl by (auto simp: slab_magazine_or_batch_def)
next
  case (Some c)
  have c: "c < 12" by (rule slab_class_bound [OF Some])
  obtain owner s1 where o: "magazine_owner s = (owner, s1)" by force
  note M = magazine_owner_inv [OF L small o]
  have l1: "later s s1" by (rule later_owner [OF small o])
  obtain b h1 where p: "mag_pop (s_hot s1) owner c = (b, h1)" by force
  note P = mag_pop_held [OF p c M(3)]
  let ?s2 = "s1\<lparr>s_hot := h1\<rparr>"
  have l2: "later s ?s2" by (rule later_same [OF l1]) simp_all
  have fl1: "fl = s_slab_headerless s1" using fl M(5) by simp
  note unfold = slab_magazine_or_batch_def Some o p
  show ?thesis
  proof (cases b)
    case hit: (Some x)
    have "local_inv mapped ?s2 (live_add held fl c (of_nat x)) live"
      using P(1) hit M(2) P(2,3) fl1
      by (intro local_inv_magazine [OF M(1)]) (auto simp: live_add_def)
    moreover have "slab_magazine_or_batch env busy fl sz s = Some (Some (of_nat x), ?s2)"
      using hit by (simp add: unfold)
    ultimately show ?thesis using l2 Some by auto
  next
    case miss: None
    have L2: "local_inv mapped ?s2 held live"
      using P(1) miss M(2) P(2,3) by (intro local_inv_magazine [OF M(1)]) auto
    obtain G F where I2: "fleet_inv mapped STRIPES ?s2 live G F" using local_invD(1) [OF L2] by blast
    obtain bs s3 G' F' where B: "slab_batch_recycled_first env busy c (min (mag_refill_count c) 16) fl ?s2 = Some (bs, s3)"
      "same_front ?s2 s3" "fleet_inv mapped STRIPES s3 (live_adds live fl c bs) G' F'"
      "unat (thread_stripe (s_hot s3)) < STRIPES"
      using batch_recycled_first_inv [OF kern I2 c] local_invD(3) [OF L2] unfolding stripe_ok_def by blast
    have l3: "later s s3" by (rule later_front [OF l2 B(2)])
    have ok3: "stripe_ok (s_hot s3)" using B(4) by (simp add: stripe_ok_def)
    show ?thesis
    proof (cases bs)
      case Nil
      have "local_inv mapped s3 held (live_adds live fl c bs)"
        by (rule local_inv_front [OF L2 B(2,3) _ ok3]) (use local_invD(2) [OF L2] Nil in simp)
      moreover have "slab_magazine_or_batch env busy fl sz s = Some (None, s3)" using miss B(1) Nil by (simp add: unfold)
      ultimately show ?thesis using l3 by auto
    next
      case (Cons q qs)
      let ?held = "live_adds held fl c bs" and ?h4 = "mag_push_all owner c qs (s_hot s3)"
      have "local_inv mapped s3 ?held (live_adds live fl c bs)"
      proof (rule local_inv_front [OF L2 B(2,3) _ ok3])
        fix f d
        show "?held f d + mag_share ?s2 (s_hot ?s2) f d \<subseteq># live_adds live fl c bs f d"
          using local_invD(2) [OF L2, of f d] by (auto simp: live_adds_def ac_simps)
      qed
      moreover have id3: "s_magazine_id s3 = owner" "s_slab_headerless s3 = fl" "mag_owner (s_hot s3) = owner"
        using B(2) M(2) P(3) fl1 by (simp_all add: same_front_def)
      moreover note A = mag_push_all_held [OF c M(3) id3(3), of qs]
      ultimately have "local_inv mapped (s3\<lparr>s_hot := ?h4\<rparr>) (live_add held fl c q) (live_adds live fl c bs)"
      proof (intro local_inv_magazine)
        fix d
        show "live_add held fl c q (s_slab_headerless s3) d + mag_held ?h4 (s_magazine_id s3) d
            \<subseteq># ?held (s_slab_headerless s3) d + mag_held (s_hot s3) (s_magazine_id s3) d"
          using A(1) [of d] Cons by (auto simp: live_add_def live_adds_def id3 ac_simps split: if_splits)
        show "live_add held fl c q (\<not> s_slab_headerless s3) d = ?held (\<not> s_slab_headerless s3) d"
          by (simp add: live_add_def live_adds_def id3)
      qed auto
      moreover have "slab_magazine_or_batch env busy fl sz s = Some (Some q, s3\<lparr>s_hot := ?h4\<rparr>)"
        using miss B(1) Cons by (simp add: unfold)
      moreover have "later s (s3\<lparr>s_hot := ?h4\<rparr>)" by (rule later_same [OF l3]) simp_all
      ultimately show ?thesis using Some by auto
    qed
  qed
qed

section \<open>Freeing\<close>

lemma flush_to_inv:
  assumes inv: "fleet_inv mapped STRIPES s live G F" and i: "i < STRIPES" and c: "c < 12" and sub: "mset bs \<subseteq># live True c"
  shows "\<exists>F'. fleet_inv mapped STRIPES (flush_to c i bs s) (live_removes live True c bs) G F'"
proof -
  have "mset bs \<subseteq># stripe_view STRIPES F i live True c" using sub c by (simp add: stripe_view_def subset_mset.add_increasing2)
  from slab_dealloc_batch_headerless_inv [OF fleetD(1) [OF inv i] c this]
  have "stripe_inv mapped (slab_dealloc_batch_headerless c bs (slab_world_of i s)) (live_removes (stripe_view STRIPES F i live) True c bs) G" .
  from fleet_free [OF inv i c sub this] show ?thesis
    unfolding flush_to_def by (simp add: dealloc_batch_headerless_mem)
qed

lemma flush_to_front: "same_front s (flush_to c i bs s)" "s_hot (flush_to c i bs s) = s_hot s"
  by (simp_all add: flush_to_def)

lemma live_removes_minus: "live_removes live fl c bs fl c = live fl c - mset bs"
  "(f, d) \<noteq> (fl, c) \<Longrightarrow> live_removes live fl c bs f d = live f d"
  by (auto simp: live_removes_def)

lemma mset_le_minus: "A + B \<subseteq># C \<Longrightarrow> B \<subseteq># C - (A :: 'a multiset)"
  unfolding subseteq_mset_def count_union count_diff by (metis add.commute add_le_imp_le_diff)

lemma live_removes_split:
  "mset xs = mset ys + mset zs \<Longrightarrow> live_removes (live_removes live fl c ys) fl c zs = live_removes live fl c xs"
  by (simp add: live_removes_def)

lemma mset_tagged_Cons:
  fixes tg :: "('a \<times> nat) list"
  assumes "j \<notin> set js"
  shows "mset (map fst (filter (\<lambda>e. snd e \<in> set (j # js)) tg))
    = mset (map fst (filter (\<lambda>e. snd e = j) tg)) + mset (map fst (filter (\<lambda>e. snd e \<in> set js) tg))"
  using assms by (induction tg) auto

text \<open>The groups of distinct stripes take disjoint parts of the batch.\<close>

lemma flush_groups_inv:
  assumes "fleet_inv mapped STRIPES s live G F" and c: "c < 12" and "distinct js" and "\<forall>j \<in> set js. j < STRIPES"
    and "mset (map fst (filter (\<lambda>e. snd e \<in> set js) tagged)) \<subseteq># live True c"
  shows "\<exists>F'. fleet_inv mapped STRIPES (flush_groups c tagged js s)
      (live_removes live True c (map fst (filter (\<lambda>e. snd e \<in> set js) tagged))) G F'"
  using assms(1,3-5)
proof (induction js arbitrary: s live F)
  case Nil
  then show ?case by (auto simp: live_removes_Nil)
next
  case (Cons j js)
  let ?g = "map fst (filter (\<lambda>e. snd e = j) tagged)" and ?r = "map fst (filter (\<lambda>e. snd e \<in> set js) tagged)"
  have split: "mset (map fst (filter (\<lambda>e. snd e \<in> set (j # js)) tagged)) = mset ?g + mset ?r"
    using Cons.prems(2) by (intro mset_tagged_Cons) simp
  have sub: "mset ?g \<subseteq># live True c" using Cons.prems(4) unfolding split by (rule subset_mset.order_trans [OF mset_subset_eq_add_left])
  have one: "\<exists>F1. fleet_inv mapped STRIPES (if g = [] then s else flush_to c j g s) (live_removes live True c g) G F1"
    if "mset g \<subseteq># live True c" for g
    using flush_to_inv [OF Cons.prems(1) _ c that, of j] Cons.prems(1,3) by (cases g) (auto simp: live_removes_Nil)
  obtain F1 where I: "fleet_inv mapped STRIPES (if ?g = [] then s else flush_to c j ?g s) (live_removes live True c ?g) G F1"
    using one [OF sub] by blast
  have "mset ?r \<subseteq># live_removes live True c ?g True c"
    using Cons.prems(4) unfolding split live_removes_minus by (rule mset_le_minus)
  note sub2 = this
  have D: "distinct js" "\<forall>j \<in> set js. j < STRIPES" using Cons.prems(2,3) by simp_all
  obtain F' where "fleet_inv mapped STRIPES (flush_groups c tagged js (if ?g = [] then s else flush_to c j ?g s))
      (live_removes (live_removes live True c ?g) True c ?r) G F'"
    using Cons.IH [OF I D sub2] by blast
  then have "fleet_inv mapped STRIPES (flush_groups c tagged (j # js) s) (live_removes (live_removes live True c ?g) True c ?r) G F'"
    by (simp only: flush_groups.simps Let_def)
  moreover have "live_removes (live_removes live True c ?g) True c ?r = live_removes live True c (map fst (filter (\<lambda>e. snd e \<in> set (j # js)) tagged))"
    by (rule live_removes_split [OF split])
  ultimately show ?case by (simp only: ex_simps) blast
qed

lemma flush_groups_front: "same_front s (flush_groups c tagged js s)" "s_hot (flush_groups c tagged js s) = s_hot s"
proof (induction js arbitrary: s)
  case (Cons j js)
  { case 1
    show ?case using Cons(1) same_front_trans [OF flush_to_front(1) Cons(1)] by (auto simp: Let_def)
  next
    case 2
    show ?case using Cons(2) flush_to_front(2) by (auto simp: Let_def) }
qed (simp_all add: same_front_refl)

lemma note_gain_frame:
  "same_front s (note_slab_central_gain env c s)" "s_hot (note_slab_central_gain env c s) = s_hot s"
  "fleet_inv mapped N (note_slab_central_gain env c s) live G F \<longleftrightarrow> fleet_inv mapped N s live G F"
proof -
  show "same_front s (note_slab_central_gain env c s)" "s_hot (note_slab_central_gain env c s) = s_hot s"
    by (simp_all add: note_slab_central_gain_def same_front_def)
  show "fleet_inv mapped N (note_slab_central_gain env c s) live G F \<longleftrightarrow> fleet_inv mapped N s live G F"
    by (rule fleet_inv_cong) (simp_all add: note_slab_central_gain_def)
qed

text \<open>What has been flushed is no longer held.\<close>

lemma local_inv_flushed:
  assumes L: "local_inv mapped s held live" and b: "p \<in># held fl c" and f: "same_front s s'" "s_hot s' = s_hot s"
    and taken: "mset qs \<subseteq># mset buf" and I: "fleet_inv mapped STRIPES s' (live_removes live fl c qs) G F"
    and held: "held fl c = mset buf + held' fl c" "\<And>f d. (f, d) \<noteq> (fl, c) \<Longrightarrow> held' f d = held f d"
  shows "local_inv mapped s' held' (live_removes live fl c qs)"
proof (rule local_inv_front [OF L f(1) I])
  show "stripe_ok (s_hot s')" using local_invD(3) [OF L] f(2) by simp
  fix g d
  show "held' g d + mag_share s (s_hot s) g d \<subseteq># live_removes live fl c qs g d"
  proof (cases "(g, d) = (fl, c)")
    case True
    have "mset qs + (held' fl c + mag_share s (s_hot s) fl c) \<subseteq># mset buf + (held' fl c + mag_share s (s_hot s) fl c)"
      using taken by (rule subset_mset.add_right_mono)
    also have "\<dots> \<subseteq># live fl c" using local_invD(2) [OF L, of fl c] by (simp add: held(1) ac_simps)
    finally have "held' fl c + mag_share s (s_hot s) fl c \<subseteq># live fl c - mset qs" by (rule mset_le_minus)
    then show ?thesis using True by (simp add: live_removes_def)
  next
    case False
    then show ?thesis using local_invD(2) [OF L, of g d] held(2) [OF False] by (simp add: live_removes_minus(2))
  qed
qed

lemma of_nat_unat_list: "map (of_nat \<circ> unat) (xs :: usize list) = xs" by (simp add: o_def)

lemma local_inv_taken:
  assumes L: "local_inv mapped s held live" and t: "mag_take (s_hot s) owner c n = (bs, h)" and c: "c < 12"
    and o: "owner = s_magazine_id s" "owner \<noteq> 0" and fl: "fl = s_slab_headerless s"
  shows "local_inv mapped (s\<lparr>s_hot := h\<rparr>) (live_adds held fl c (map of_nat bs)) live"
  using mag_take_held [OF t c o(2)] fl o(1)
  by (intro local_inv_magazine [OF L]) (auto simp: live_adds_def ac_simps)

lemma thread_stripe_inv:
  assumes kern: "lo_kernel_ok env mapped" and L: "local_inv mapped s held live" and t: "thread_stripe_of env s = (i, s')"
  shows "local_inv mapped s' held live" and "i < STRIPES" and "same_front s s'" and "s_segments s' = s_segments s"
proof -
  note T = thread_stripe_frame [OF t]
  have ok: "i < STRIPES" "unat (thread_stripe (s_hot s')) < STRIPES"
    using T(6) [OF kern] local_invD(3) [OF L] unfolding stripe_ok_def by blast+
  show "i < STRIPES" "same_front s s'" "s_segments s' = s_segments s" using ok(1) T by blast+
  obtain G F where "fleet_inv mapped STRIPES s live G F" using local_invD(1) [OF L] by blast
  then have "fleet_inv mapped STRIPES s' live G F" using T(2) by blast
  then show "local_inv mapped s' held live"
    using ok(2) local_invD(2) [OF L] by (intro local_inv_front [OF L T(1)]) (auto simp: stripe_ok_def)
qed

lemma slab_stripe_bound: "slab_stripe_of p s = Some i \<Longrightarrow> i < STRIPES"
proof -
  have "unat (x AND 31) < 32" for x :: usize using word_and_le1 [of x 31] by (simp add: word_le_nat_alt)
  then show "slab_stripe_of p s = Some i \<Longrightarrow> i < STRIPES" by (auto simp: slab_stripe_of_def MAX_STRIPES_def)
qed

lemma mset_filter_tagged: "mset (map fst (filter P (map (\<lambda>p. (p, f p)) xs))) \<subseteq># mset xs"
  by (induction xs) (auto intro: subset_mset.order_trans)

lemma free_front_inv:
  assumes kern: "lo_kernel_ok env mapped" and L: "local_inv mapped s held live" and small: "unat (s_next_id s) + 1 < 2 ^ 64"
    and hl: "s_slab_headerless s" and c: "c < 12" and p: "p \<in># held True c"
  shows "\<exists>live'. local_inv mapped (slab_dealloc_headerless_front env p c s) (live_remove held True c p) live'
    \<and> later s (slab_dealloc_headerless_front env p c s)"
proof -
  obtain owner s1 where o: "magazine_owner s = (owner, s1)" by force
  note M = magazine_owner_inv [OF L small o]
  have l1: "later s s1" by (rule later_owner [OF small o])
  obtain ok h1 where q: "mag_push (s_hot s1) owner c (unat p) = (ok, h1)" by force
  note Q = mag_push_held [OF q c M(3)]
  let ?s2 = "s1\<lparr>s_hot := h1\<rparr>" and ?held = "live_remove held True c p"
  have hl1: "s_slab_headerless s1" using hl M(5) by simp
  note unfold = slab_dealloc_headerless_front_def o q
  show ?thesis
  proof (cases ok)
    case True
    have "add_mset p (held True c - {#p#}) = held True c" using p by simp
    then have "local_inv mapped ?s2 ?held live"
      using True M(2) Q hl1 by (intro local_inv_magazine [OF M(1)]) (auto simp: live_remove_def)
    moreover have "slab_dealloc_headerless_front env p c s = ?s2" using True by (simp add: unfold)
    moreover have "later s ?s2" by (rule later_same [OF l1]) simp_all
    ultimately show ?thesis by auto
  next
    case False
    have L2: "local_inv mapped ?s2 held live"
      using False M(2) Q by (intro local_inv_magazine [OF M(1)]) auto
    obtain bs h3 where t: "mag_take h1 owner c (min (mag_refill_count c) 16) = (bs, h3)" by force
    let ?s3 = "?s2\<lparr>s_hot := h3\<rparr>" and ?held3 = "live_adds held True c (map of_nat bs)" and ?buf = "map of_nat bs @ [p]"
    have L3: "local_inv mapped ?s3 ?held3 live"
      using local_inv_taken [OF L2, of owner c _ bs h3 True] t c M(2,3) hl1 by simp
    obtain fb s4 where ts: "thread_stripe_of env ?s3 = (fb, s4)" by force
    note T = thread_stripe_inv [OF kern L3 ts]
    have l4: "later s s4" by (rule later_front [OF later_same [OF l1] T(3)]) simp_all
    obtain G F where I: "fleet_inv mapped STRIPES s4 live G F" using local_invD(1) [OF T(1)] by blast
    have p3: "p \<in># ?held3 True c" using p by (simp add: live_adds_def)
    have held: "?held3 True c = mset ?buf + ?held True c" using p by (simp add: live_adds_def live_remove_def)
    have held': "?held f d = ?held3 f d" if "(f, d) \<noteq> (True, c)" for f d
      using that by (auto simp: live_adds_def live_remove_def)
    have sub: "mset ?buf \<subseteq># live True c"
    proof -
      have "mset ?buf \<subseteq># ?held3 True c" unfolding held by simp
      also have "\<dots> \<subseteq># live True c" using local_invD(2) [OF T(1), of True c] by (rule subset_mset.order_trans [OF mset_subset_eq_add_left])
      finally show ?thesis .
    qed
    have done1: ?thesis if e: "slab_dealloc_headerless_front env p c s = note_slab_central_gain env c s5"
      and f: "same_front s4 s5" "s_hot s5 = s_hot s4" and I5: "fleet_inv mapped STRIPES s5 (live_removes live True c qs) G F5"
      and qs: "mset qs \<subseteq># mset ?buf" for s5 qs F5
    proof -
      let ?s6 = "note_slab_central_gain env c s5"
      have f6: "same_front s4 ?s6" "s_hot ?s6 = s_hot s4" using same_front_trans [OF f(1) note_gain_frame(1)] f(2) by (simp_all add: note_gain_frame(2))
      have "fleet_inv mapped STRIPES ?s6 (live_removes live True c qs) G F5" using I5 note_gain_frame(3) by blast
      from local_inv_flushed [OF T(1) p3 f6 qs this held held'] later_front [OF l4 f6(1)] show ?thesis unfolding e by blast
    qed
    have to: ?thesis if e: "slab_dealloc_headerless_front env p c s = note_slab_central_gain env c (flush_to c i ?buf s4)"
      and i: "i < STRIPES" for i
      using flush_to_inv [OF I i c sub] done1 [OF e flush_to_front] by blast
    let ?stripe = "\<lambda>p. case slab_stripe_of p s4 of Some i \<Rightarrow> i | None \<Rightarrow> fb"
    show ?thesis
    proof (cases "le_owner_free env")
      case own: False
      have "slab_dealloc_headerless_front env p c s = note_slab_central_gain env c (flush_to c fb ?buf s4)"
        using False t ts own by (simp add: unfold)
      then show ?thesis using to T(2) by blast
    next
      case own: True
      show ?thesis
      proof (cases "list_all (\<lambda>p. ?stripe p = ?stripe (hd ?buf)) ?buf")
        case True
        have "slab_dealloc_headerless_front env p c s = note_slab_central_gain env c (flush_to c (?stripe (hd ?buf)) ?buf s4)"
          using False t ts own True by (simp add: unfold Let_def)
        moreover have "?stripe (hd ?buf) < STRIPES" using slab_stripe_bound T(2) by (auto split: option.splits)
        ultimately show ?thesis using to by blast
      next
        case mixed: False
        then have m: "list_all (\<lambda>p. ?stripe p = ?stripe (hd ?buf)) ?buf = False" by blast
        let ?tagged = "map (\<lambda>p. (p, ?stripe p)) ?buf" and ?js = "stripes_of env"
        let ?qs = "map fst (filter (\<lambda>e. snd e \<in> set ?js) ?tagged)"
        have e: "slab_dealloc_headerless_front env p c s = note_slab_central_gain env c (flush_groups c ?tagged ?js s4)"
          using False t ts own by (simp add: unfold Let_def m del: list_all_append)
        have js: "distinct ?js" "\<forall>j \<in> set ?js. j < STRIPES" using kern by (auto simp: stripes_of_def lo_kernel_ok_def)
        have qs: "mset ?qs \<subseteq># mset ?buf" by (rule mset_filter_tagged)
        then have "mset ?qs \<subseteq># live True c" using sub by (rule subset_mset.order_trans)
        from flush_groups_inv [OF I c js this] show ?thesis using done1 [OF e flush_groups_front _ qs] by blast
      qed
    qed
  qed
qed

lemma dealloc_batch_snoc: "slab_dealloc_class b c (slab_dealloc_batch c bs w) = slab_dealloc_batch c (bs @ [b]) w"
  by (induction bs arbitrary: w) simp_all

lemma put_header_batch_inv:
  assumes inv: "fleet_inv mapped STRIPES s live G F" and i: "i < STRIPES" and c: "c < 12" and sub: "mset bs \<subseteq># live False c"
  shows "\<exists>F'. fleet_inv mapped STRIPES (put_slab i (slab_dealloc_batch c bs (slab_world_of i s)) s) (live_removes live False c bs) G F'"
proof -
  have "mset bs \<subseteq># stripe_view STRIPES F i live False c" using sub c by (simp add: stripe_view_def subset_mset.add_increasing2)
  from slab_dealloc_batch_inv [OF fleetD(1) [OF inv i] c this] fleet_free [OF inv i c sub] show ?thesis
    by (simp add: dealloc_batch_mem)
qed

lemma header_free_inv:
  assumes kern: "lo_kernel_ok env mapped" and L: "local_inv mapped s held live" and small: "unat (s_next_id s) + 1 < 2 ^ 64"
    and c: "c < 12" and p: "p \<in># held False c" and hdr: "hdr_slab_class hdr = of_nat c"
  shows "\<exists>live'. local_inv mapped (header_slab_free env p hdr s) (live_remove held False c p) live' \<and> later s (header_slab_free env p hdr s)"
proof -
  have u: "unat (of_nat c :: u8) = c" using c by (simp add: unat_of_nat take_bit_nat_eq_self)
  then have cls: "\<not> (hdr_slab_class hdr = SIZE_CLASS_UNTRACKED \<or> unat (hdr_slab_class hdr) \<ge> length SLAB_SIZE_CLASSES)"
    using c hdr by (auto simp: SIZE_CLASS_UNTRACKED_def)
  let ?held = "live_remove held False c p"
  have finish: "\<exists>live'. local_inv mapped (note_slab_central_gain env c (put_slab i (slab_dealloc_batch c buf (slab_world_of i s4)) s4)) ?held live'
      \<and> later s (note_slab_central_gain env c (put_slab i (slab_dealloc_batch c buf (slab_world_of i s4)) s4))"
    if L4: "local_inv mapped s4 held4 live" and l4: "later s s4" and i: "i < STRIPES" and p4: "p \<in># held4 False c"
      and h4: "held4 False c = mset buf + ?held False c" "\<And>f d. (f, d) \<noteq> (False, c) \<Longrightarrow> ?held f d = held4 f d"
    for s4 held4 i buf
  proof -
    obtain G F where I: "fleet_inv mapped STRIPES s4 live G F" using local_invD(1) [OF L4] by blast
    have "mset buf \<subseteq># held4 False c" unfolding h4(1) by simp
    also have "\<dots> \<subseteq># live False c" using local_invD(2) [OF L4, of False c] by (rule subset_mset.order_trans [OF mset_subset_eq_add_left])
    finally have sub: "mset buf \<subseteq># live False c" .
    let ?s5 = "put_slab i (slab_dealloc_batch c buf (slab_world_of i s4)) s4"
    let ?s6 = "note_slab_central_gain env c ?s5"
    obtain F5 where "fleet_inv mapped STRIPES ?s5 (live_removes live False c buf) G F5" using put_header_batch_inv [OF I i c sub] by blast
    then have I6: "fleet_inv mapped STRIPES ?s6 (live_removes live False c buf) G F5" using note_gain_frame(3) by blast
    have f6: "same_front s4 ?s6" "s_hot ?s6 = s_hot s4"
      using same_front_trans [OF same_front_put note_gain_frame(1)] by (auto simp: note_gain_frame(2))
    from local_inv_flushed [OF L4 p4 f6 subset_mset.order_refl I6 h4] later_front [OF l4 f6(1)] show ?thesis by blast
  qed
  have one: "held False c = mset [p] + ?held False c" "\<And>f d. (f, d) \<noteq> (False, c) \<Longrightarrow> ?held f d = held f d"
    using p by (auto simp: live_remove_def)
  show ?thesis
  proof (cases "s_slab_headerless s")
    case True
    obtain i s1 where ts: "thread_stripe_of env s = (i, s1)" by force
    note T = thread_stripe_inv [OF kern L ts]
    have "header_slab_free env p hdr s = note_slab_central_gain env c (put_slab i (slab_dealloc_batch c [p] (slab_world_of i s1)) s1)"
      using cls True ts u hdr by (simp add: header_slab_free_def Let_def)
    then show ?thesis using finish [OF T(1) later_front [OF later_refl T(3)] T(2) p one] by simp
  next
    case mode: False
    obtain owner s1 where o: "magazine_owner s = (owner, s1)" by force
    note M = magazine_owner_inv [OF L small o]
    have l1: "later s s1" by (rule later_owner [OF small o])
    obtain ok h1 where q: "mag_push (s_hot s1) owner c (unat p) = (ok, h1)" by force
    note Q = mag_push_held [OF q c M(3)]
    let ?s2 = "s1\<lparr>s_hot := h1\<rparr>"
    have hl1: "\<not> s_slab_headerless s1" using mode M(5) by simp
    have unfold: "header_slab_free env p hdr s = (if ok then ?s2
        else let (bs, h) = mag_take h1 owner c (min (mag_refill_count c) 16); s = ?s2\<lparr>s_hot := h\<rparr>; (i, s) = thread_stripe_of env s
             in note_slab_central_gain env c (put_slab i (slab_dealloc_batch c (map of_nat bs @ [p]) (slab_world_of i s)) s))"
      using cls mode u hdr o q by (simp add: header_slab_free_def Let_def dealloc_batch_snoc)
    show ?thesis
    proof (cases ok)
      case True
      have "add_mset p (held False c - {#p#}) = held False c" using p by simp
      then have "local_inv mapped ?s2 ?held live"
        using True M(2) Q hl1 by (intro local_inv_magazine [OF M(1)]) (auto simp: live_remove_def)
      moreover have "later s ?s2" by (rule later_same [OF l1]) simp_all
      ultimately show ?thesis using True by (auto simp: unfold)
    next
      case False
      have L2: "local_inv mapped ?s2 held live" using False M(2) Q by (intro local_inv_magazine [OF M(1)]) auto
      obtain bs h3 where t: "mag_take h1 owner c (min (mag_refill_count c) 16) = (bs, h3)" by force
      let ?s3 = "?s2\<lparr>s_hot := h3\<rparr>" and ?held3 = "live_adds held False c (map of_nat bs)" and ?buf = "map of_nat bs @ [p]"
      have L3: "local_inv mapped ?s3 ?held3 live"
        using local_inv_taken [OF L2, of owner c _ bs h3 False] t c M(2,3) hl1 by simp
      obtain i s4 where ts: "thread_stripe_of env ?s3 = (i, s4)" by force
      note T = thread_stripe_inv [OF kern L3 ts]
      have l4: "later s s4" by (rule later_front [OF later_same [OF l1] T(3)]) simp_all
      have p3: "p \<in># ?held3 False c" using p by (simp add: live_adds_def)
      have held: "?held3 False c = mset ?buf + ?held False c" using p by (simp add: live_adds_def live_remove_def)
      have held': "?held f d = ?held3 f d" if "(f, d) \<noteq> (False, c)" for f d
        using that by (auto simp: live_adds_def live_remove_def)
      from finish [OF T(1) l4 T(2) p3 held held'] show ?thesis using False t ts by (simp add: unfold)
    qed
  qed
qed

end
