(* ===== verification/SegCache.thy ===== *)
theory SegCache
  imports SlabFront
begin

text \<open>
  What stays put while the slab paths run: a registered segment keeps its class and stripe, and the last-segment cache
  of a thread's hot block is written by the free that fills it alone.
\<close>

section \<open>Registrations are permanent\<close>

definition reg_le :: "segment_registry \<Rightarrow> segment_registry \<Rightarrow> bool" where
  "reg_le r r' \<longleftrightarrow> (\<forall>b v. seg_lookup_full r b = Some v \<longrightarrow> seg_lookup_full r' b = Some v)"

lemma reg_le_refl: "reg_le r r" by (simp add: reg_le_def)
lemma reg_le_trans: "reg_le r s \<Longrightarrow> reg_le s t \<Longrightarrow> reg_le r t" by (simp add: reg_le_def)

lemma find_stop_kept:
  "find (probe_stop ks d) is = Some i \<Longrightarrow> ks i \<noteq> 0 \<Longrightarrow> ks j = 0 \<Longrightarrow> find (probe_stop (ks(j := b)) d) is = Some i"
  by (induction "is") (auto simp: probe_stop_def split: if_splits)

lemma seg_insert_le: "reg_le r (snd (seg_insert r b cls st))"
proof -
  have "seg_lookup_full (snd (seg_insert r b cls st)) d = Some v" if look: "seg_lookup_full r d = Some v" for d v
  proof (cases "seg_insert r b cls st = (True, r) \<or> seg_insert r b cls st = (False, r)")
    case True
    then show ?thesis using look by auto
  next
    case False
    let ?js = "\<lambda>d. probe_seq SEGMENT_CAPACITY PROBE_MAX (slot_for d SEGMENT_CAPACITY)"
    obtain j where j: "find (probe_stop (seg_keys r) b) (?js b) = Some j" "seg_keys r j \<noteq> b"
      and r': "snd (seg_insert r b cls st) = r\<lparr>seg_vals := (seg_vals r)(j := cls), seg_stripes := (seg_stripes r)(j := st),
        seg_keys := (seg_keys r)(j := b)\<rparr>"
      using False by (auto simp: seg_insert_def seg_insert_loop_find split: option.splits if_splits)
    have "seg_keys r j = 0" using find_SomeD [OF j(1)] j(2) by (auto simp: probe_stop_def)
    moreover obtain i where i: "find (probe_stop (seg_keys r) d) (?js d) = Some i" "seg_keys r i \<noteq> 0"
      "v = (seg_vals r i, seg_stripes r i)"
      using look by (auto simp: seg_lookup_full_def seg_lookup_loop_find split: option.splits if_splits)
    moreover have "i \<noteq> j" using calculation by auto
    ultimately show ?thesis
      using find_stop_kept [OF i(1,2), of j b] by (simp add: seg_lookup_full_def seg_lookup_loop_find r')
  qed
  then show ?thesis by (simp add: reg_le_def)
qed

section \<open>The frame of the slab paths\<close>

definition seg_frame :: "'os sys \<Rightarrow> 'os sys \<Rightarrow> bool" where
  "seg_frame s s' \<longleftrightarrow> reg_le (s_segments s) (s_segments s')
     \<and> seg_base (s_hot s') = seg_base (s_hot s) \<and> seg_class (s_hot s') = seg_class (s_hot s)
     \<and> hot_tls.seg_owner (s_hot s') = hot_tls.seg_owner (s_hot s) \<and> s_fast_lane s' = s_fast_lane s"

lemma seg_frame_refl: "seg_frame s s" by (simp add: seg_frame_def reg_le_refl)
lemma seg_frame_trans: "seg_frame s t \<Longrightarrow> seg_frame t u \<Longrightarrow> seg_frame s u"
  unfolding seg_frame_def using reg_le_trans by metis

lemma seg_frame_same:
  "s_segments s' = s_segments s \<Longrightarrow> seg_base (s_hot s') = seg_base (s_hot s) \<Longrightarrow> seg_class (s_hot s') = seg_class (s_hot s) \<Longrightarrow>
     hot_tls.seg_owner (s_hot s') = hot_tls.seg_owner (s_hot s) \<Longrightarrow> s_fast_lane s' = s_fast_lane s \<Longrightarrow> seg_frame s s'"
  by (simp add: seg_frame_def reg_le_refl)

lemma seg_frame_put: "reg_le (s_segments s) (w_reg w) \<Longrightarrow> seg_frame s (put_slab i w s)"
  by (simp add: seg_frame_def)

text \<open>Registration happens in one place.\<close>

lemma refill_segment_le:
  assumes "\<And>r b. reg_le r (snd (env_register env r b))" and "refill_segment env c w = (r, w')"
  shows "reg_le (w_reg w) (w_reg w')"
proof -
  have e: "env_register env (w_reg w) b = (ok, r') \<Longrightarrow> reg_le (w_reg w) r'" for b ok r'
    using assms(1) [of "w_reg w" b] by simp
  show ?thesis using assms(2) e
    by (auto simp: refill_segment_def Let_def reg_le_refl split: option.splits prod.splits bool.splits)
qed

lemma alloc_batch_headerless_le:
  assumes reg: "\<And>r b. reg_le r (snd (env_register env r b))" and run: "slab_alloc_batch_headerless env c len w = Some r"
  shows "reg_le (w_reg w) (w_reg (snd r))"
proof -
  let ?P = "\<lambda>env c len w r. (\<forall>r b. reg_le r (snd (env_register env r b))) \<longrightarrow> reg_le (w_reg w) (w_reg (snd r))"
  have "?P env c len w r"
  proof (rule slab_alloc_batch_headerless.raw_induct [where P = ?P, OF _ run], intro impI)
    fix f :: "('a, segment_registry) slab_env \<Rightarrow> nat \<Rightarrow> nat \<Rightarrow> ('a, segment_registry) slab_world \<Rightarrow> _"
      and env :: "('a, segment_registry) slab_env" and c len w r
    assume IH: "\<And>env c len w r. f env c len w = Some r \<Longrightarrow> ?P env c len w r"
      and res: "(if len = 0 then Some ([], w)
        else case pop_hl c w of
          (Some b, w') \<Rightarrow> Option.bind (f env c (len - 1) w') (\<lambda>(bs, w''). Some (b # bs, w''))
        | (None, w') \<Rightarrow>
            (case refill_segment env c w' of
               (None, w'') \<Rightarrow> Some ([], w'')
             | (Some base, w'') \<Rightarrow> f env c len w'')) = Some r"
      and reg: "\<forall>r b. reg_le r (snd (env_register env r b))"
    obtain x w1 where p: "pop_hl c w = (x, w1)" by force
    have m: "w_reg w1 = w_reg w" using headerless.pop_tiers [OF p] by blast
    obtain q w2 where f: "refill_segment env c w1 = (q, w2)" by force
    have m2: "reg_le (w_reg w) (w_reg w2)" using refill_segment_le [OF _ f] reg m by simp
    show "reg_le (w_reg w) (w_reg (snd r))"
    proof (cases "len = 0")
      case True
      then show ?thesis using res by (auto simp: reg_le_refl)
    next
      case len: False
      show ?thesis
      proof (cases x)
        case (Some b)
        then obtain r1 where "f env c (len - 1) w1 = Some r1" "snd r = snd r1"
          using res len p by (auto simp: Option.bind_eq_Some_conv)
        then show ?thesis using IH reg m by metis
      next
        case None
        then show ?thesis
          using res len p f m2 IH [of env c len w2 r] reg reg_le_trans by (cases q) auto
      qed
    qed
  qed
  then show ?thesis using reg by blast
qed

lemma central_carve_frame:
  assumes "central_carve env c len fl i s = Some (bs, s')"
  shows "seg_frame s s'"
proof -
  have e: "reg_le r (snd (env_register (slab_env_of env i c) r b))" for r b
    by (simp add: slab_env_of_def seg_register_def seg_insert_le)
  have "seg_frame s (put_slab i w s)"
    if "slab_alloc_batch_headerless (slab_env_of env i c) c len (slab_world_of i s) = Some (cs, w)" for cs w
    using alloc_batch_headerless_le [OF e that] by (intro seg_frame_put) simp
  moreover have "seg_frame s (put_slab i w s)"
    if "slab_alloc_batch (slab_env_of env i c) c len (slab_world_of i s) = (cs, w)" for cs w
    using alloc_batch_loop_mem [of "slab_env_of env i c" c False len "slab_world_of i s" cs w] that
    by (intro seg_frame_put) (simp add: slab_alloc_batch_def reg_le_refl)
  ultimately show ?thesis using assms
    by (auto simp: central_carve_def Option.bind_eq_Some_conv split: if_splits prod.splits)
qed

lemma recycled_put_frame:
  "slab_alloc_batch_recycled c len fl (slab_world_of i s) = (bs, w) \<Longrightarrow> seg_frame s (put_slab i w s)"
  using recycled_frame [of c len fl "slab_world_of i s" bs w] by (intro seg_frame_put) (simp add: reg_le_refl)

lemma sibling_scan_frame: "seg_frame s (snd (sibling_scan env busy c len fl i ks s))"
proof (induction ks arbitrary: s)
  case (Cons k ks)
  let ?j = "unat (of_nat (i + k) AND le_mask env)"
  obtain cs w where r: "slab_alloc_batch_recycled c len fl (slab_world_of ?j s) = (cs, w)" by force
  note f = recycled_put_frame [OF r]
  show ?case using Cons [of s] seg_frame_trans [OF f Cons] f r by (auto simp: Let_def)
qed (simp add: seg_frame_refl)

lemma thread_stripe_seg_frame: "seg_frame s (snd (thread_stripe_of env s))"
  by (rule seg_frame_same) (simp_all add: thread_stripe_of_def Let_def)

lemma magazine_owner_frame: "seg_frame s (snd (magazine_owner s))"
  by (rule seg_frame_same) (simp_all add: magazine_owner_def Let_def)

lemma batch_recycled_first_frame:
  assumes "slab_batch_recycled_first env busy c len fl s = Some (bs, s')"
  shows "seg_frame s s'"
proof -
  obtain i s1 where t: "thread_stripe_of env s = (i, s1)" by force
  have f1: "seg_frame s s1" using thread_stripe_seg_frame [of s env] t by simp
  obtain bs1 w1 where r: "slab_alloc_batch_recycled c len fl (slab_world_of i s1) = (bs1, w1)" by force
  let ?s2 = "put_slab i w1 s1"
  have f2: "seg_frame s ?s2" using seg_frame_trans [OF f1 recycled_put_frame [OF r]] .
  obtain bs2 s3 where q: "sibling_scan env busy c len fl i [1 ..< unat (le_mask env) + 1] ?s2 = (bs2, s3)" by force
  have f3: "seg_frame s s3" using seg_frame_trans [OF f2 sibling_scan_frame] q by (metis snd_conv)
  let ?s4 = "s3\<lparr>s_hot := (s_hot s3)\<lparr>slab_scan_miss_epoch := (slab_scan_miss_epoch (s_hot s3))(c := s_gain s1 c)\<rparr>\<rparr>"
  have f4: "seg_frame s ?s4" by (rule seg_frame_trans [OF f3 seg_frame_same]) simp_all
  have carve: "seg_frame s s'" if "seg_frame s u" "central_carve env c len fl i u = Some (bs, s')" for u
    using seg_frame_trans [OF that(1) central_carve_frame [OF that(2)]] .
  show ?thesis using assms carve [OF f1] carve [OF f4] f2 f3
    by (simp add: slab_batch_recycled_first_def Let_def t r q split: if_splits
      del: upt_Suc One_nat_def sibling_scan.simps)
qed

lemma mag_seg_fields:
  "mag_pop h owner c = (b, h') \<Longrightarrow> seg_base h' = seg_base h \<and> seg_class h' = seg_class h \<and> hot_tls.seg_owner h' = hot_tls.seg_owner h"
  "mag_push h owner c p = (ok, h') \<Longrightarrow> seg_base h' = seg_base h \<and> seg_class h' = seg_class h \<and> hot_tls.seg_owner h' = hot_tls.seg_owner h"
  "mag_take h owner c n = (bs, h') \<Longrightarrow> seg_base h' = seg_base h \<and> seg_class h' = seg_class h \<and> hot_tls.seg_owner h' = hot_tls.seg_owner h"
  by (auto simp: mag_pop_def mag_push_def mag_take_def mag_ensure_owner_def Let_def split: if_splits)

lemma mag_push_all_seg:
  "seg_base (mag_push_all owner c ps h) = seg_base h \<and> seg_class (mag_push_all owner c ps h) = seg_class h
     \<and> hot_tls.seg_owner (mag_push_all owner c ps h) = hot_tls.seg_owner h"
proof (induction ps arbitrary: h)
  case (Cons p ps)
  obtain ok h1 where e: "mag_push h owner c (unat p) = (ok, h1)" by force
  show ?case using Cons [of h1] mag_seg_fields(2) [OF e] e by simp
qed simp

lemma seg_frame_hot:
  "seg_base h = seg_base (s_hot s) \<and> seg_class h = seg_class (s_hot s) \<and> hot_tls.seg_owner h = hot_tls.seg_owner (s_hot s) \<Longrightarrow>
     seg_frame s (s\<lparr>s_hot := h\<rparr>)"
  by (rule seg_frame_same) simp_all

lemma slab_magazine_or_batch_frame:
  assumes "slab_magazine_or_batch env busy fl sz s = Some (r, s')"
  shows "seg_frame s s'"
proof (cases "slab_class_for sz")
  case None
  then show ?thesis using assms by (simp add: slab_magazine_or_batch_def seg_frame_refl)
next
  case (Some c)
  obtain owner s1 where o: "magazine_owner s = (owner, s1)" by force
  obtain b h1 where p: "mag_pop (s_hot s1) owner c = (b, h1)" by force
  let ?s2 = "s1\<lparr>s_hot := h1\<rparr>"
  have f1: "seg_frame s s1" using magazine_owner_frame [of s] o by simp
  have f2: "seg_frame s ?s2" by (rule seg_frame_trans [OF f1 seg_frame_hot]) (rule mag_seg_fields(1) [OF p])
  note unfold = slab_magazine_or_batch_def Some o p
  show ?thesis
  proof (cases b)
    case (Some x)
    then show ?thesis using assms f2 by (simp add: unfold)
  next
    case None
    then obtain bs s3 where B: "slab_batch_recycled_first env busy c (min (mag_refill_count c) 16) fl ?s2 = Some (bs, s3)"
      using assms by (auto simp: unfold Option.bind_eq_Some_conv)
    have f3: "seg_frame s s3" by (rule seg_frame_trans [OF f2 batch_recycled_first_frame [OF B]])
    have "seg_frame s (s3\<lparr>s_hot := mag_push_all owner c qs (s_hot s3)\<rparr>)" for qs
      by (rule seg_frame_trans [OF f3 seg_frame_hot]) (rule mag_push_all_seg)
    then show ?thesis using assms None B f3 by (cases bs) (auto simp: unfold)
  qed
qed

lemma dealloc_batch_reg:
  "w_reg (slab_dealloc_batch_headerless c bs w) = w_reg w" "w_reg (slab_dealloc_batch c bs w) = w_reg w"
  "w_reg (slab_dealloc_class b c w) = w_reg w"
  by (induction bs arbitrary: w) (simp_all add: header.dealloc_tiers headerless.dealloc_tiers)

lemma put_free_frame:
  "seg_frame s (put_slab i (slab_dealloc_batch_headerless c bs (slab_world_of i s)) s)"
  "seg_frame s (put_slab i (slab_dealloc_batch c bs (slab_world_of i s)) s)"
  "seg_frame s (put_slab i (slab_dealloc_class b c (slab_world_of i s)) s)"
  by (simp_all add: seg_frame_put dealloc_batch_reg reg_le_refl)

lemma flush_groups_frame: "seg_frame s (flush_groups c tagged js s)"
proof (induction js arbitrary: s)
  case (Cons j js)
  have "seg_frame s (flush_to c j g s)" for g by (simp add: flush_to_def put_free_frame)
  then have "seg_frame s (flush_groups c tagged js (flush_to c j g s))" for g using Cons seg_frame_trans by blast
  then show ?case using Cons by (auto simp: Let_def)
qed (simp add: seg_frame_refl)

lemma note_gain_seg_frame: "seg_frame s (note_slab_central_gain env c s)"
  by (rule seg_frame_same) (simp_all add: note_slab_central_gain_def)

lemma free_front_frame: "seg_frame s (slab_dealloc_headerless_front env p c s)"
proof -
  obtain owner s1 where o: "magazine_owner s = (owner, s1)" by force
  obtain ok h1 where q: "mag_push (s_hot s1) owner c (unat p) = (ok, h1)" by force
  obtain bs h2 where t: "mag_take h1 owner c (min (mag_refill_count c) 16) = (bs, h2)" by force
  let ?s2 = "s1\<lparr>s_hot := h1\<rparr>" and ?s3 = "s1\<lparr>s_hot := h2\<rparr>"
  have f1: "seg_frame s s1" using magazine_owner_frame [of s] o by simp
  have f2: "seg_frame s ?s2" by (rule seg_frame_trans [OF f1 seg_frame_hot]) (rule mag_seg_fields(2) [OF q])
  have f3: "seg_frame s ?s3"
    by (rule seg_frame_trans [OF f1 seg_frame_hot]) (use mag_seg_fields(2) [OF q] mag_seg_fields(3) [OF t] in simp)
  obtain i s4 where ts: "thread_stripe_of env ?s3 = (i, s4)" by force
  have f4: "seg_frame s s4" using seg_frame_trans [OF f3 thread_stripe_seg_frame] ts by (metis snd_conv)
  have fl: "seg_frame s (note_slab_central_gain env c (flush_to c j buf s4))" for j buf
    unfolding flush_to_def by (rule seg_frame_trans [OF f4 seg_frame_trans [OF put_free_frame(1) note_gain_seg_frame]])
  have fg: "seg_frame s (note_slab_central_gain env c (flush_groups c tg js s4))" for tg js
    by (rule seg_frame_trans [OF f4 seg_frame_trans [OF flush_groups_frame note_gain_seg_frame]])
  show ?thesis using f2 fl fg by (simp add: slab_dealloc_headerless_front_def o q t ts Let_def)
qed

lemma header_slab_free_frame: "seg_frame s (header_slab_free env p hdr s)"
proof -
  let ?c = "unat (hdr_slab_class hdr)"
  obtain i0 s0 where t0: "thread_stripe_of env s = (i0, s0)" by force
  have f0: "seg_frame s s0" using thread_stripe_seg_frame [of s env] t0 by simp
  have g0: "seg_frame s (put_slab i0 (slab_dealloc p sz (slab_world_of i0 s0)) s0)" for sz
    by (rule seg_frame_trans [OF f0]) (simp add: slab_dealloc_def seg_frame_put dealloc_batch_reg reg_le_refl split: option.split)
  have g1: "seg_frame s (note_slab_central_gain env ?c (put_slab i0 (slab_dealloc_class p ?c (slab_world_of i0 s0)) s0))"
    by (rule seg_frame_trans [OF f0 seg_frame_trans [OF put_free_frame(3) note_gain_seg_frame]])
  obtain owner s1 where o: "magazine_owner s = (owner, s1)" by force
  obtain ok h1 where q: "mag_push (s_hot s1) owner ?c (unat p) = (ok, h1)" by force
  obtain bs h2 where t: "mag_take h1 owner ?c (min (mag_refill_count ?c) 16) = (bs, h2)" by force
  let ?s2 = "s1\<lparr>s_hot := h1\<rparr>" and ?s3 = "s1\<lparr>s_hot := h2\<rparr>"
  have f1: "seg_frame s s1" using magazine_owner_frame [of s] o by simp
  have f2: "seg_frame s ?s2" by (rule seg_frame_trans [OF f1 seg_frame_hot]) (rule mag_seg_fields(2) [OF q])
  have f3: "seg_frame s ?s3"
    by (rule seg_frame_trans [OF f1 seg_frame_hot]) (use mag_seg_fields(2) [OF q] mag_seg_fields(3) [OF t] in simp)
  obtain i s4 where ts: "thread_stripe_of env ?s3 = (i, s4)" by force
  have f4: "seg_frame s s4" using seg_frame_trans [OF f3 thread_stripe_seg_frame] ts by (metis snd_conv)
  have "seg_frame s (note_slab_central_gain env ?c (put_slab i (slab_dealloc_batch ?c (map of_nat bs @ [p]) (slab_world_of i s4)) s4))"
    by (rule seg_frame_trans [OF f4 seg_frame_trans [OF put_free_frame(2) note_gain_seg_frame]])
  then show ?thesis using g0 g1 f2 by (simp add: header_slab_free_def Let_def t0 o q t ts dealloc_batch_snoc)
qed

end
