(* ===== verification/SlabThreads.thy ===== *)
theory SlabThreads
  imports SegCache Frontend
begin

text \<open>
  The slab under any number of threads of one instance: allocations through the magazine and through the fast lane,
  frees through the dispatch, the last-segment cache and the header path, the latch from headers to header-free
  blocks, the publication of a frozen plane, other instances that use the same threads' magazines, and writes of the
  application into the blocks it holds. One step is one operation of one thread.
\<close>

section \<open>The invariant of all threads\<close>

definition as_thread :: "(nat \<Rightarrow> hot_tls) \<Rightarrow> nat \<Rightarrow> 'os sys \<Rightarrow> 'os sys" where
  "as_thread hots t s = s\<lparr>s_hot := hots t\<rparr>"

text \<open>A last-segment cache that carries the instance's id is right.\<close>

definition seg_ok :: "'os sys \<Rightarrow> hot_tls \<Rightarrow> bool" where
  "seg_ok s h \<longleftrightarrow> unat (hot_tls.seg_owner h) < unat (s_next_id s)
     \<and> (hot_tls.seg_owner h = s_magazine_id s \<longrightarrow> s_magazine_id s \<noteq> 0 \<longrightarrow>
         s_slab_headerless s \<and> seg_lookup (s_segments s) (seg_base h) = Some (seg_class h))"

definition others :: "nat \<Rightarrow> 'os sys \<Rightarrow> (nat \<Rightarrow> hot_tls) \<Rightarrow> nat \<Rightarrow> live" where
  "others T s hots t fl c = (\<Sum>u \<in> {..<T} - {t}. mag_share s (hots u) fl c)"

definition front_inv ::
  "('os \<Rightarrow> nat set) \<Rightarrow> nat \<Rightarrow> 'os sys \<Rightarrow> (nat \<Rightarrow> hot_tls) \<Rightarrow> live \<Rightarrow> bool"
where
  "front_inv mapped T s hots app \<longleftrightarrow>
     (\<exists>live. (\<exists>G F. fleet_inv mapped STRIPES s live G F)
        \<and> (\<forall>fl c. app fl c + (\<Sum>u<T. mag_share s (hots u) fl c) \<subseteq># live fl c))
     \<and> (\<forall>u<T. stripe_ok (hots u) \<and> ids_ok s (hots u) \<and> seg_ok s (hots u))
     \<and> (\<forall>c. app True c \<noteq> {#} \<longrightarrow> s_slab_headerless s) \<and> (s_fast_lane s \<longrightarrow> s_slab_headerless s)"

lemma shares_split: "t < T \<Longrightarrow> (\<Sum>u<T. mag_share s (hots u) fl c) = others T s hots t fl c + mag_share s (hots t) fl c"
  by (simp add: others_def sum.remove [of "{..<T}" t] ac_simps)

lemma front_local:
  assumes "front_inv mapped T s hots app" and "t < T"
  shows "\<exists>live. local_inv mapped (as_thread hots t s) (\<lambda>fl c. app fl c + others T s hots t fl c) live"
proof -
  obtain live G F where I: "fleet_inv mapped STRIPES s live G F"
    and sub: "\<And>fl c. app fl c + (\<Sum>u<T. mag_share s (hots u) fl c) \<subseteq># live fl c"
    and ok: "stripe_ok (hots t)" "ids_ok s (hots t)"
    using assms unfolding front_inv_def by blast
  have "fleet_inv mapped STRIPES (as_thread hots t s) live G F"
    using I fleet_inv_cong [of "as_thread hots t s" s mapped STRIPES live G F] by (simp add: as_thread_def)
  moreover have "app fl c + others T s hots t fl c + mag_share s (hots t) fl c \<subseteq># live fl c" for fl c
    using sub [of fl c] by (simp only: shares_split [OF assms(2)] add.assoc)
  ultimately show ?thesis using ok by (auto simp: local_inv_def as_thread_def ids_ok_def)
qed

lemma later_share:
  assumes "later s s'" and "ids_ok s h"
  shows "mag_share s' h fl c = mag_share s h fl c" and "ids_ok s' h"
proof -
  note L = assms(1) [unfolded later_def]
  have "mag_held h (s_magazine_id s') c = mag_held h (s_magazine_id s) c"
  proof (cases "s_magazine_id s' = s_magazine_id s")
    case False
    then have "s_magazine_id s = 0" "unat (s_next_id s) \<le> unat (s_magazine_id s')" using L by blast+
    then show ?thesis using assms(2) mag_held_foreign [of h "s_magazine_id s'" c] by (force simp: mag_held_def ids_ok_def)
  qed simp
  then show "mag_share s' h fl c = mag_share s h fl c" using L by (simp add: mag_share_def)
  show "ids_ok s' h" using assms by (auto simp: later_def ids_ok_def)
qed

lemma seg_ok_later:
  assumes "seg_ok s h" and "later s s'" and "reg_le (s_segments s) (s_segments s')"
  shows "seg_ok s' h"
proof -
  note L = assms(2) [unfolded later_def] and S = assms(1) [unfolded seg_ok_def]
  have look: "seg_lookup (s_segments s') b = Some v" if "seg_lookup (s_segments s) b = Some v" for b v
    using that assms(3) by (auto simp: seg_lookup_def reg_le_def)
  show ?thesis unfolding seg_ok_def
  proof (intro conjI impI)
    show "unat (hot_tls.seg_owner h) < unat (s_next_id s')" using L S by linarith
    assume o: "hot_tls.seg_owner h = s_magazine_id s'" "s_magazine_id s' \<noteq> 0"
    have "s_magazine_id s' = s_magazine_id s"
    proof (rule ccontr)
      assume "s_magazine_id s' \<noteq> s_magazine_id s"
      then have "unat (s_next_id s) \<le> unat (hot_tls.seg_owner h)" using L o by auto
      then show False using S by simp
    qed
    then show "s_slab_headerless s'" "seg_lookup (s_segments s') (seg_base h) = Some (seg_class h)"
      using S L o look by auto
  qed
qed

lemma seg_ok_cong:
  "seg_base h' = seg_base h \<Longrightarrow> seg_class h' = seg_class h \<Longrightarrow> hot_tls.seg_owner h' = hot_tls.seg_owner h \<Longrightarrow> seg_ok s h' \<longleftrightarrow> seg_ok s h"
  by (simp add: seg_ok_def)

lemma stripe_fleet_hot: "fleet_inv mapped N (s\<lparr>s_hot := h\<rparr>) live G F \<longleftrightarrow> fleet_inv mapped N s live G F"
  by (rule fleet_inv_cong) simp_all

text \<open>An operation of one thread that keeps the local invariant keeps the whole one.\<close>

lemma local_front:
  assumes inv: "front_inv mapped T s hots app" and t: "t < T"
    and L: "local_inv mapped s' (\<lambda>fl c. app' fl c + others T s hots t fl c) live'" and lt: "later s s'"
    and reg: "reg_le (s_segments s) (s_segments s')" and seg: "seg_ok s' (s_hot s')" and lane: "s_fast_lane s' = s_fast_lane s"
    and hl: "\<And>c. app' True c \<noteq> {#} \<Longrightarrow> s_slab_headerless s"
  shows "front_inv mapped T s' (hots(t := s_hot s')) app'"
proof -
  let ?hots = "hots(t := s_hot s')"
  have ok: "stripe_ok (hots u) \<and> ids_ok s (hots u) \<and> seg_ok s (hots u)" if "u < T" for u
    using inv that unfolding front_inv_def by blast
  have same: "mag_share s' (?hots u) fl c = mag_share s (hots u) fl c" if "u < T" "u \<noteq> t" for u fl c
    using later_share(1) [OF lt] ok [OF that(1)] that(2) by simp
  have "others T s' ?hots t fl c = others T s hots t fl c" for fl c
    unfolding others_def by (rule sum.cong) (use same in auto)
  then have sum: "(\<Sum>u<T. mag_share s' (?hots u) fl c) = others T s hots t fl c + mag_share s' (s_hot s') fl c" for fl c
    using shares_split [OF t, of s' ?hots fl c] by simp
  have "app' fl c + (\<Sum>u<T. mag_share s' (?hots u) fl c) \<subseteq># live' fl c" for fl c
    unfolding sum using local_invD(2) [OF L, of fl c] by (simp add: add.assoc)
  moreover have "stripe_ok (?hots u) \<and> ids_ok s' (?hots u) \<and> seg_ok s' (?hots u)" if "u < T" for u
    using ok [OF that] local_invD(3,4) [OF L] seg later_share(2) [OF lt] seg_ok_later [OF _ lt reg] by (cases "u = t") auto
  moreover have "s_slab_headerless s' = s_slab_headerless s" using lt by (simp add: later_def)
  moreover have "s_fast_lane s \<longrightarrow> s_slab_headerless s" using inv by (simp add: front_inv_def)
  ultimately show ?thesis using local_invD(1) [OF L] hl lane unfolding front_inv_def by auto
qed

lemma later_as_thread [simp]: "later (as_thread hots t s) s' \<longleftrightarrow> later s s'"
  by (simp add: later_def as_thread_def)
lemma as_thread_simps [simp]:
  "s_hot (as_thread hots t s) = hots t" "s_segments (as_thread hots t s) = s_segments s" "s_slab_headerless (as_thread hots t s) = s_slab_headerless s"
  "s_next_id (as_thread hots t s) = s_next_id s" "s_magazine_id (as_thread hots t s) = s_magazine_id s"
  "s_fast_lane (as_thread hots t s) = s_fast_lane s" "mag_share (as_thread hots t s) = mag_share s" "seg_ok (as_thread hots t s) = seg_ok s"
  "s_ahr_on (as_thread hots t s) = s_ahr_on s"
  by (simp_all add: as_thread_def fun_eq_iff mag_share_def seg_ok_def)

lemma frame_seg_ok:
  assumes "seg_ok s (s_hot s)" and "later s s'" and "seg_frame s s'"
  shows "seg_ok s' (s_hot s')"
  using seg_ok_later [OF assms(1,2)] assms(3) seg_ok_cong [of "s_hot s'" "s_hot s" s'] by (simp add: seg_frame_def)

text \<open>The same for an operation that keeps the frame of the slab paths.\<close>

lemma frame_front:
  assumes inv: "front_inv mapped T s hots app" and t: "t < T"
    and L: "local_inv mapped s' (\<lambda>fl c. app' fl c + others T s hots t fl c) live'" and lt: "later s s'"
    and frame: "seg_frame (as_thread hots t s) s'" and hl: "\<And>c. app' True c \<noteq> {#} \<Longrightarrow> s_slab_headerless s"
  shows "front_inv mapped T s' (hots(t := s_hot s')) app'"
proof (rule local_front [OF inv t L lt _ _ _ hl])
  show "reg_le (s_segments s) (s_segments s')" "s_fast_lane s' = s_fast_lane s" using frame by (simp_all add: seg_frame_def)
  have "seg_ok (as_thread hots t s) (s_hot (as_thread hots t s))" using inv t unfolding front_inv_def by simp
  then show "seg_ok s' (s_hot s')" by (rule frame_seg_ok) (use lt frame in simp_all)
qed

section \<open>Allocation\<close>

text \<open>What the arm gives out: the flavour and class of the block, and the block itself.\<close>

definition grant_of :: "'os sys \<Rightarrow> request \<Rightarrow> usize \<Rightarrow> bool \<times> nat \<times> usize" where
  "grant_of s rq p =
     (if s_slab_headerless s \<and> rq_align rq \<le> MIN_ALIGN then (True, the (slab_class_for (rq_total rq - rq_pad rq)), p)
      else (False, the (slab_class_for (rq_total rq)), p - rq_pad rq))"

definition app_grant :: "live \<Rightarrow> bool \<times> nat \<times> usize \<Rightarrow> live" where
  "app_grant app g = (case g of (fl, c, b) \<Rightarrow> live_add app fl c b)"

lemma live_add_shift: "live_add (\<lambda>fl c. A fl c + B fl c) f d b = (\<lambda>fl c. live_add A f d b fl c + B fl c)"
  by (auto simp: live_add_def fun_eq_iff)

lemma with_header_frame:
  assumes "with_header rq bk (r, s) = (r', s')"
  shows "\<exists>bytes. s' = s\<lparr>s_bytes := bytes\<rparr>" and "r' = map_option (\<lambda>b. b + rq_pad rq) r"
  using assms by (auto simp: with_header_def write_header_def Let_def split: option.splits intro: exI [of _ "s_bytes s"])

lemma local_inv_bytes: "local_inv mapped (s\<lparr>s_bytes := bytes\<rparr>) held live \<longleftrightarrow> local_inv mapped s held live"
proof -
  have "fleet_inv mapped STRIPES (s\<lparr>s_bytes := bytes\<rparr>) live G F \<longleftrightarrow> fleet_inv mapped STRIPES s live G F" for G F
    by (rule fleet_inv_cong) simp_all
  then show ?thesis by (simp add: local_inv_def mag_share_def ids_ok_def)
qed

lemma slab_arm_inv:
  assumes kern: "lo_kernel_ok env mapped" and L: "local_inv mapped s held live" and small: "unat (s_next_id s) + 1 < 2 ^ 64"
    and mode: "s_slab_headerless s \<longrightarrow> rq_align rq \<le> MIN_ALIGN"
  shows "\<exists>r s' live'. slab_arm env busy rq s = Some (r, s') \<and> later s s' \<and> seg_frame s s'
    \<and> local_inv mapped s' (case r of None \<Rightarrow> held | Some p \<Rightarrow> app_grant held (grant_of s rq p)) live'
    \<and> (r \<noteq> None \<longrightarrow> slab_class_for (if s_slab_headerless s then rq_total rq - rq_pad rq else rq_total rq) \<noteq> None)"
proof (cases "s_slab_headerless s")
  case True
  then have m: "s_slab_headerless s \<and> rq_align rq \<le> MIN_ALIGN" using mode by blast
  have fl: "True = s_slab_headerless s" using True by simp
  obtain r s' live' where S: "slab_magazine_or_batch env busy True (rq_total rq - rq_pad rq) s = Some (r, s')" "later s s'"
    "local_inv mapped s' (case r of None \<Rightarrow> held | Some p \<Rightarrow> live_add held True (the (slab_class_for (rq_total rq - rq_pad rq))) p) live'"
    "r \<noteq> None \<longrightarrow> slab_class_for (rq_total rq - rq_pad rq) \<noteq> None"
    using serve_inv [OF kern L small fl] by blast
  have "slab_arm env busy rq s = Some (r, s')" using S(1) m by (simp add: slab_arm_def slab_block_headerless_via_magazine_def)
  moreover have "seg_frame s s'" by (rule slab_magazine_or_batch_frame [OF S(1)])
  ultimately show ?thesis using S True m by (auto simp: grant_of_def app_grant_def split: option.splits)
next
  case False
  then have m: "\<not> (s_slab_headerless s \<and> rq_align rq \<le> MIN_ALIGN)" by blast
  have fl: "False = s_slab_headerless s" using False by simp
  obtain r s' live' where S: "slab_magazine_or_batch env busy False (rq_total rq) s = Some (r, s')" "later s s'"
    "local_inv mapped s' (case r of None \<Rightarrow> held | Some p \<Rightarrow> live_add held False (the (slab_class_for (rq_total rq))) p) live'"
    "r \<noteq> None \<longrightarrow> slab_class_for (rq_total rq) \<noteq> None"
    using serve_inv [OF kern L small fl] by blast
  obtain r2 s2 where w: "with_header rq Slab (r, s') = (r2, s2)" by force
  obtain bytes where W: "s2 = s'\<lparr>s_bytes := bytes\<rparr>" "r2 = map_option (\<lambda>b. b + rq_pad rq) r"
    using with_header_frame [OF w] by blast
  have "slab_arm env busy rq s = Some (r2, s2)" using S(1) False w by (simp add: slab_arm_def slab_block_via_magazine_def)
  moreover have "later s s2" using S(2) by (simp add: W later_def)
  moreover have "seg_frame s s2" using slab_magazine_or_batch_frame [OF S(1)] by (simp add: W seg_frame_def)
  moreover have "local_inv mapped s2 (case r2 of None \<Rightarrow> held | Some p \<Rightarrow> app_grant held (grant_of s rq p)) live'"
    using S(3) False by (cases r) (auto simp: W local_inv_bytes grant_of_def app_grant_def)
  ultimately show ?thesis using S(4) False W by auto
qed

section \<open>Freeing\<close>

lemma local_inv_lookup:
  assumes "local_inv mapped s held live" and "p \<in># held True c"
  shows "c < 12" and "p \<noteq> 0" and "seg_lookup (s_segments s) (p AND NOT (SEGMENT_SIZE - 1)) = Some (of_nat c)"
proof -
  obtain G F where I: "fleet_inv mapped STRIPES s live G F" using local_invD(1) [OF assms(1)] by blast
  have "held True c \<subseteq># live True c"
    using local_invD(2) [OF assms(1), of True c] by (rule subset_mset.order_trans [OF mset_subset_eq_add_left])
  then have pl: "p \<in># live True c" using assms(2) by (rule mset_subset_eqD)
  show c: "c < 12" using fleetD(3) [OF I, of 0 c True] pl by (cases "12 \<le> c") auto
  have "p \<in># stripe_view STRIPES F 0 live True c" using pl c by (simp add: stripe_view_def)
  note S = slab_inv_live [OF fleetD(1) [OF I] this]
  show "p \<noteq> 0" using S(3) by simp
  show "seg_lookup (s_segments s) (p AND NOT (SEGMENT_SIZE - 1)) = Some (of_nat c)"
    using S(7) by (auto simp: SlabSafety.seg_owner_def)
qed

lemma lookup_class:
  assumes "s_slab_headerless s" and "c < 12" and "seg_lookup (s_segments s) (p AND NOT (SEGMENT_SIZE - 1)) = Some (of_nat c)"
  shows "headerless_class_for p s = Some c" and "classify env p s = FSlab c"
  using assms by (simp_all add: classify_def headerless_class_for_def unat_of_nat take_bit_nat_eq_self)

lemma fast_dealloc_cases:
  assumes "slab_fast_dealloc p s = (ok, s')" and "magazine_owner s = (owner, s1)"
  shows "if ok then seg_base (s_hot s1) = p AND NOT (SEGMENT_SIZE - 1) \<and> hot_tls.seg_owner (s_hot s1) = owner
      \<and> (\<exists>h. mag_push (s_hot s1) owner (unat (seg_class (s_hot s1))) (unat p) = (True, h) \<and> s' = s1\<lparr>s_hot := h\<rparr>)
    else s' = s1"
  using assms by (auto simp: slab_fast_dealloc_def Let_def mag_push_def mag_ensure_owner_def split: if_splits)

text \<open>A free that the lane takes is the free of the classic path.\<close>

lemma fast_dealloc_classic:
  assumes ok: "seg_ok s (s_hot s)" and look: "seg_lookup (s_segments s) (p AND NOT (SEGMENT_SIZE - 1)) = Some (of_nat c)"
    and c: "c < 12" and lane: "slab_fast_dealloc p s = (True, s')"
  shows "slab_dealloc_headerless_front env p c s = s'"
proof -
  obtain owner s1 where o: "magazine_owner s = (owner, s1)" by force
  note F = fast_dealloc_cases [OF lane o, simplified]
  have h1: "s_hot s1 = s_hot s" using o by (auto simp: magazine_owner_def Let_def split: if_splits)
  have "owner = s_magazine_id s \<and> s_magazine_id s \<noteq> 0"
    using o F ok h1 by (auto simp: magazine_owner_def Let_def seg_ok_def split: if_splits)
  then have "seg_class (s_hot s1) = of_nat c" using ok F look h1 by (auto simp: seg_ok_def)
  then have "unat (seg_class (s_hot s1)) = c" using c by (simp only:) (simp add: unat_of_nat take_bit_nat_eq_self)
  then show ?thesis using F o by (auto simp: slab_dealloc_headerless_front_def)
qed

lemma local_inv_same_front:
  assumes L: "local_inv mapped s held live" and f: "same_front s s'" "thread_stripe (s_hot s') = thread_stripe (s_hot s)"
    and "s_slab s' = s_slab s" "s_nodes s' = s_nodes s" "s_os s' = s_os s" "s_segments s' = s_segments s"
  shows "local_inv mapped s' held live"
proof -
  obtain G F where "fleet_inv mapped STRIPES s live G F" using local_invD(1) [OF L] by blast
  then have "fleet_inv mapped STRIPES s' live G F" using fleet_inv_cong [OF assms(4-7)] by blast
  then show ?thesis
    using local_invD(2,3) [OF L] f(2) by (intro local_inv_front [OF L f(1)]) (auto simp: stripe_ok_def)
qed

lemma seg_cache_fill_inv:
  assumes L: "local_inv mapped s held live" and small: "unat (s_next_id s) + 1 < 2 ^ 64" and hl: "s_slab_headerless s"
    and seg: "seg_ok s (s_hot s)" and look: "seg_lookup (s_segments s) (p AND NOT (SEGMENT_SIZE - 1)) = Some (of_nat c)"
  shows "local_inv mapped (seg_cache_fill p c s) held live \<and> later s (seg_cache_fill p c s)
    \<and> seg_ok (seg_cache_fill p c s) (s_hot (seg_cache_fill p c s)) \<and> s_segments (seg_cache_fill p c s) = s_segments s
    \<and> s_fast_lane (seg_cache_fill p c s) = s_fast_lane s
    \<and> unat (s_next_id (seg_cache_fill p c s)) \<le> unat (s_next_id s) + 1"
proof (cases "s_fast_lane s")
  case False
  then show ?thesis using L seg later_refl by (simp add: seg_cache_fill_def)
next
  case True
  obtain owner s1 where o: "magazine_owner s = (owner, s1)" by force
  note M = magazine_owner_inv [OF L small o]
  let ?s2 = "s1\<lparr>s_hot := (s_hot s1)\<lparr>seg_base := p AND NOT (SEGMENT_SIZE - 1), seg_class := of_nat c, seg_owner := owner\<rparr>\<rparr>"
  have e: "seg_cache_fill p c s = ?s2" using True o by (simp add: seg_cache_fill_def)
  have "local_inv mapped ?s2 held live" by (rule local_inv_same_front [OF M(1)]) (simp_all add: same_front_def)
  moreover have "later s ?s2" by (rule later_same [OF later_owner [OF small o]]) simp_all
  moreover have s1: "s_segments s1 = s_segments s" "s_fast_lane s1 = s_fast_lane s"
    using o by (auto simp: magazine_owner_def Let_def split: if_splits)
  moreover have "seg_ok ?s2 (s_hot ?s2)"
    using local_invD(4) [OF M(1)] M(2) look hl M(5) s1 by (simp add: seg_ok_def ids_ok_def)
  moreover have "unat (s_next_id s1) \<le> unat (s_next_id s) + 1" using M(6) small by (auto simp: unat_add_64 split: if_splits)
  ultimately show ?thesis unfolding e by simp
qed

lemma dispatch_free_inv:
  assumes kern: "lo_kernel_ok env mapped" and L: "local_inv mapped s held live" and small: "unat (s_next_id s) + 3 < 2 ^ 64"
    and hl: "s_slab_headerless s" and seg: "seg_ok s (s_hot s)" and p: "p \<in># held True c"
  shows "\<exists>s' live'. dealloc env locked p s = Some s' \<and> later s s' \<and> local_inv mapped s' (live_remove held True c p) live'
    \<and> seg_ok s' (s_hot s') \<and> reg_le (s_segments s) (s_segments s') \<and> s_fast_lane s' = s_fast_lane s"
proof -
  note K = local_inv_lookup [OF L p]
  let ?s1 = "if s_ahr_on s then s\<lparr>s_hot := ahr_push_dealloc (s_hot s)\<rparr> else s"
  have f1: "same_front s ?s1" "thread_stripe (s_hot ?s1) = thread_stripe (s_hot s)" "s_slab ?s1 = s_slab s" "s_nodes ?s1 = s_nodes s"
    "s_os ?s1 = s_os s" "s_segments ?s1 = s_segments s" "s_fast_lane ?s1 = s_fast_lane s" "s_slab_headerless ?s1 = s_slab_headerless s"
    "s_next_id ?s1 = s_next_id s"
    by (simp_all add: same_front_def ahr_push_dealloc_def)
  have L1: "local_inv mapped ?s1 held live" by (rule local_inv_same_front [OF L f1(1-6)])
  have lt1: "later s ?s1" by (rule later_front [OF later_refl f1(1)])
  have seg1: "seg_ok ?s1 (s_hot ?s1)" using seg by (simp add: seg_ok_def ahr_push_dealloc_def)
  have small1: "unat (s_next_id ?s1) + 1 < 2 ^ 64" using small f1(9) by simp
  obtain lane s2 where la: "(if s_fast_lane ?s1 then slab_fast_dealloc p ?s1 else (False, ?s1)) = (lane, s2)" by force
  note look = K(3) [folded f1(6)]
  have hl1: "s_slab_headerless ?s1" using hl f1(8) by simp
  have finish: ?thesis if u: "dealloc env locked p s = Some (slab_dealloc_headerless_front env p c u)" "local_inv mapped u held live"
      "later s u" "unat (s_next_id u) + 1 < 2 ^ 64" "seg_ok u (s_hot u)" "s_segments u = s_segments s" "s_fast_lane u = s_fast_lane s" for u
  proof -
    let ?u = "slab_dealloc_headerless_front env p c u"
    have hu: "s_slab_headerless u" using u(3) hl by (simp add: later_def)
    obtain live' where I: "local_inv mapped ?u (live_remove held True c p) live'" "later u ?u"
      using free_front_inv [OF kern u(2,4) hu K(1) p] by blast
    have f: "seg_frame u ?u" by (rule free_front_frame)
    have "seg_ok ?u (s_hot ?u)" by (rule frame_seg_ok [OF u(5) I(2) f])
    then show ?thesis using u(1,6,7) I later_trans [OF u(3) I(2)] f by (auto simp: seg_frame_def)
  qed
  show ?thesis
  proof (cases lane)
    case True
    then have fd: "slab_fast_dealloc p ?s1 = (True, s2)" using la by (cases "s_fast_lane ?s1") auto
    have e: "slab_dealloc_headerless_front env p c ?s1 = s2" by (rule fast_dealloc_classic [OF seg1 look K(1) fd])
    have "dealloc env locked p s = Some (slab_dealloc_headerless_front env p c ?s1)"
      unfolding e using la True K(2) by (simp add: dealloc_def Let_def)
    then show ?thesis using finish [OF _ L1 lt1 small1 seg1 f1(6,7)] by blast
  next
    case False
    obtain owner s1 where o: "magazine_owner ?s1 = (owner, s1)" by force
    note M = magazine_owner_inv [OF L1 small1 o]
    have fo: "s_segments s1 = s_segments ?s1" "s_fast_lane s1 = s_fast_lane ?s1"
      using o by (auto simp: magazine_owner_def Let_def split: if_splits)
    have lo: "later ?s1 s1" by (rule later_owner [OF small1 o])
    have s2: "s2 = ?s1 \<or> s2 = s1"
      using la False fast_dealloc_cases [OF _ o, of p lane s2] by (auto split: if_splits)
    have n2: "unat (s_next_id s1) \<le> unat (s_next_id ?s1) + 1" using M(6) small1 by (auto simp: unat_add_64 split: if_splits)
    have sm: "s_slab_headerless s1" "unat (s_next_id s1) + 2 < 2 ^ 64" using M(5) hl1 n2 f1(9) small by simp_all
    have seg2: "seg_ok s1 (s_hot s1)" by (rule frame_seg_ok [OF seg1 lo]) (use magazine_owner_frame [of ?s1] o in simp)
    have q2: "local_inv mapped s2 held live" "later s s2" "unat (s_next_id s2) + 2 < 2 ^ 64" "seg_ok s2 (s_hot s2)"
      "s_segments s2 = s_segments s" "s_fast_lane s2 = s_fast_lane s" "s_slab_headerless s2"
      using s2 L1 M(1) lt1 later_trans [OF lt1 lo] seg1 seg2 f1(6-9) fo sm small hl1 by (elim disjE; simp)+
    have cl: "classify env p s2 = FSlab c" by (rule lookup_class(2) [OF q2(7) K(1)]) (use K(3) q2(5) in simp)
    have "unat (s_next_id s2) + 1 < 2 ^ 64" using q2(3) by simp
    note fill = seg_cache_fill_inv [OF q2(1) this q2(7,4), of p c, unfolded q2(5,6), OF K(3)]
    have "dealloc env locked p s = Some (slab_dealloc_headerless_front env p c (seg_cache_fill p c s2))"
      using la False K(2) cl by (simp add: dealloc_def Let_def)
    then show ?thesis using finish [of "seg_cache_fill p c s2"] fill later_trans [OF q2(2)] q2(3) by simp
  qed
qed

section \<open>The fast lane\<close>

lemma fast_alloc_cases:
  assumes res: "slab_fast_alloc site sz s = (r, s')" and o: "magazine_owner s = (owner, s1)"
  shows "(r = None \<and> (s' = s \<or> s' = s1)) \<or> (\<exists>c x h a. slab_class_for sz = Some c \<and> mag_pop (s_hot s1) owner c = (Some x, h)
        \<and> r = Some (of_nat x) \<and> s' = s1\<lparr>s_hot := h\<lparr>ahr := a\<rparr>\<rparr>)"
proof (cases "slab_class_for sz = None \<or> s_table s = None \<or> cs_leaf site = None")
  case True
  then show ?thesis using res by (auto simp: slab_fast_alloc_def split: option.splits prod.splits)
next
  case False
  then obtain c table fr ret0 where k: "slab_class_for sz = Some c" "s_table s = Some (table, fr)" "cs_leaf site = Some ret0" by auto
  let ?h = "s_hot s1" and ?n = "mag_counts (s_hot s1) c"
  let ?h' = "?h\<lparr>mag_counts := (mag_counts ?h)(c := ?n - 1)\<rparr>"
  consider "r = None" "s' = s1" | a where "mag_owner ?h = owner" "?n \<noteq> 0" "r = Some (of_nat (mag_slots ?h c (unat (?n - 1))))"
      "s' = s1\<lparr>s_hot := ?h'\<lparr>ahr := a\<rparr>\<rparr>"
  proof (cases "in_alloc ?h > 0 \<or> pin_ret0 (pin ?h (pin_index ret0)) \<noteq> ret0 \<or> pin_table (pin ?h (pin_index ret0)) \<noteq> table
      \<or> pin_states (pin ?h (pin_index ret0)) (unat (size_class_for sz)) \<noteq> backend_u8 Slab \<or> mag_owner ?h \<noteq> owner \<or> ?n = 0")
    case True
    then have "r = None \<and> s' = s1" using res by (auto simp: slab_fast_alloc_def k o Let_def split: if_splits)
    then show thesis using that(1) by blast
  next
    case False
    then have "mag_owner ?h = owner" "?n \<noteq> 0" "r = Some (of_nat (mag_slots ?h c (unat (?n - 1))))"
      "s' = s1\<lparr>s_hot := if s_ahr_on s1 then ?h'\<lparr>ahr := push_bit CTX_EVENT_BITS (ahr ?h) OR ahr_alloc_code (size_class_for sz)\<rparr> else ?h'\<rparr>"
      using res by (auto simp: slab_fast_alloc_def k o Let_def)
    note F = this
    show thesis
      by (rule that(2) [of "if s_ahr_on s1 then push_bit CTX_EVENT_BITS (ahr ?h) OR ahr_alloc_code (size_class_for sz) else ahr ?h"])
        (use F in auto)
  qed
  then show ?thesis
  proof cases
    case (2 a)
    then have "mag_pop ?h owner c = (Some (mag_slots ?h c (unat (?n - 1))), ?h')"
      by (simp add: mag_pop_def mag_ensure_owner_def Let_def)
    then show ?thesis using 2 k(1) by blast
  qed simp
qed

lemma fast_alloc_inv:
  assumes L: "local_inv mapped s held live" and small: "unat (s_next_id s) + 1 < 2 ^ 64" and hl: "s_slab_headerless s"
    and res: "slab_fast_alloc site sz s = (r, s')"
  shows "later s s' \<and> seg_frame s s'
    \<and> local_inv mapped s' (case r of None \<Rightarrow> held | Some p \<Rightarrow> live_add held True (the (slab_class_for sz)) p) live"
proof -
  obtain owner s1 where o: "magazine_owner s = (owner, s1)" by force
  note M = magazine_owner_inv [OF L small o]
  have l1: "later s s1" by (rule later_owner [OF small o])
  have f1: "seg_frame s s1" using magazine_owner_frame [of s] o by simp
  note C = fast_alloc_cases [OF res o]
  show ?thesis
  proof (cases r)
    case None
    then show ?thesis using C L M(1) l1 f1 later_refl seg_frame_refl by auto
  next
    case (Some p)
    obtain c x h a where c: "slab_class_for sz = Some c" and pop: "mag_pop (s_hot s1) owner c = (Some x, h)"
      and p: "p = of_nat x" and s': "s' = s1\<lparr>s_hot := h\<lparr>ahr := a\<rparr>\<rparr>" using C Some by auto
    note P = mag_pop_held [OF pop slab_class_bound [OF c] M(3)]
    have "local_inv mapped (s1\<lparr>s_hot := h\<rparr>) (live_add held True c p) live"
      using P(1) M(2) P(2,3) hl M(5) p by (intro local_inv_magazine [OF M(1)]) (auto simp: live_add_def)
    then have "local_inv mapped s' (live_add held True c p) live"
      by (rule local_inv_same_front) (simp_all add: s' same_front_def)
    moreover have "later s s'" by (rule later_same [OF l1]) (simp_all add: s')
    moreover have "seg_frame s s'"
      by (rule seg_frame_trans [OF f1 seg_frame_same]) (simp_all add: s' mag_seg_fields(1) [OF pop])
    ultimately show ?thesis using Some c by simp
  qed
qed

section \<open>The steps\<close>

inductive front_step ::
  "'os lo_env \<Rightarrow> ('os \<Rightarrow> nat set) \<Rightarrow> nat \<Rightarrow> 'os sys \<times> (nat \<Rightarrow> hot_tls) \<times> live \<Rightarrow> 'os sys \<times> (nat \<Rightarrow> hot_tls) \<times> live \<Rightarrow> bool"
  for env mapped T
where
  serve: "t < T \<Longrightarrow> unat (s_next_id s) + 3 < 2 ^ 64 \<Longrightarrow> s_slab_headerless s \<longrightarrow> rq_align rq \<le> MIN_ALIGN \<Longrightarrow>
    slab_arm env busy rq (as_thread hots t s) = Some (Some p, s') \<Longrightarrow>
    front_step env mapped T (s, hots, app) (s', hots(t := s_hot s'), app_grant app (grant_of s rq p))"
| refuse: "t < T \<Longrightarrow> unat (s_next_id s) + 3 < 2 ^ 64 \<Longrightarrow> s_slab_headerless s \<longrightarrow> rq_align rq \<le> MIN_ALIGN \<Longrightarrow>
    slab_arm env busy rq (as_thread hots t s) = Some (None, s') \<Longrightarrow>
    front_step env mapped T (s, hots, app) (s', hots(t := s_hot s'), app)"
| lane: "t < T \<Longrightarrow> unat (s_next_id s) + 3 < 2 ^ 64 \<Longrightarrow> s_fast_lane s \<Longrightarrow>
    slab_fast_alloc site sz (as_thread hots t s) = (r, s') \<Longrightarrow>
    front_step env mapped T (s, hots, app)
      (s', hots(t := s_hot s'), case r of None \<Rightarrow> app | Some p \<Rightarrow> live_add app True (the (slab_class_for sz)) p)"
| free: "t < T \<Longrightarrow> unat (s_next_id s) + 3 < 2 ^ 64 \<Longrightarrow> p \<in># app True c \<Longrightarrow>
    dealloc env locked p (as_thread hots t s) = Some s' \<Longrightarrow>
    front_step env mapped T (s, hots, app) (s', hots(t := s_hot s'), live_remove app True c p)"
| header_free: "t < T \<Longrightarrow> unat (s_next_id s) + 3 < 2 ^ 64 \<Longrightarrow> p \<in># app False c \<Longrightarrow> hdr_slab_class hdr = of_nat c \<Longrightarrow>
    header_slab_free env p hdr (as_thread hots t s) = s' \<Longrightarrow>
    front_step env mapped T (s, hots, app) (s', hots(t := s_hot s'), live_remove app False c p)"
| latch: "unat (s_next_id s) + 3 < 2 ^ 64 \<Longrightarrow> front_step env mapped T (s, hots, app) (latch_headerless s, hots, app)"
| publish: "front_step env mapped T (s, hots, app) (publish_frozen_table env ptr routing s, hots, app)"
| reset: "front_step env mapped T (s, hots, app) (reset_to_training s, hots, app)"
| foreign: "unat (s_next_id s) \<le> unat n \<Longrightarrow> unat (mag_owner h) < unat n \<Longrightarrow> mag_owner h \<noteq> s_magazine_id s \<Longrightarrow> stripe_ok h \<Longrightarrow>
    hot_tls.seg_owner h \<noteq> s_magazine_id s \<Longrightarrow> unat (hot_tls.seg_owner h) < unat n \<Longrightarrow>
    front_step env mapped T (s, hots, app) (s\<lparr>s_next_id := n\<rparr>, hots(t := h), app)"
| elsewhere: "later s s' \<Longrightarrow> s_slab s' = s_slab s \<Longrightarrow> s_nodes s' = s_nodes s \<Longrightarrow> s_segments s' = s_segments s \<Longrightarrow>
    s_fast_lane s' = s_fast_lane s \<Longrightarrow> mapped (s_os s) \<subseteq> mapped (s_os s') \<Longrightarrow> stripe_ok h \<Longrightarrow> mag_owner h = mag_owner (hots t) \<Longrightarrow>
    mag_counts h = mag_counts (hots t) \<Longrightarrow> mag_slots h = mag_slots (hots t) \<Longrightarrow> seg_base h = seg_base (hots t) \<Longrightarrow>
    seg_class h = seg_class (hots t) \<Longrightarrow> hot_tls.seg_owner h = hot_tls.seg_owner (hots t) \<Longrightarrow>
    front_step env mapped T (s, hots, app) (s', hots(t := h), app)"
| app_write: "b \<in># app fl c \<Longrightarrow> unat a \<in> block_span c b \<Longrightarrow>
    front_step env mapped T (s, hots, app) (s\<lparr>s_nodes := (s_nodes s)(a := v)\<rparr>, hots, app)"

inductive front_reach ::
  "'os lo_env \<Rightarrow> ('os \<Rightarrow> nat set) \<Rightarrow> nat \<Rightarrow> 'os sys \<times> (nat \<Rightarrow> hot_tls) \<times> live \<Rightarrow> 'os sys \<times> (nat \<Rightarrow> hot_tls) \<times> live \<Rightarrow> bool"
  for env mapped T x0
where
  start: "front_reach env mapped T x0 x0"
| more: "front_reach env mapped T x0 x \<Longrightarrow> front_step env mapped T x y \<Longrightarrow> front_reach env mapped T x0 y"

section \<open>Every step keeps the invariant\<close>

lemma live_remove_shift:
  "p \<in># A f d \<Longrightarrow> live_remove (\<lambda>fl c. A fl c + B fl c) f d p = (\<lambda>fl c. live_remove A f d p fl c + B fl c)"
  by (auto simp: live_remove_def fun_eq_iff)

lemma app_grant_shift: "app_grant (\<lambda>fl c. A fl c + B fl c) g = (\<lambda>fl c. app_grant A g fl c + B fl c)"
  by (cases g) (simp add: app_grant_def live_add_shift)

lemma front_invD:
  assumes "front_inv mapped T s hots app"
  shows "t < T \<Longrightarrow> stripe_ok (hots t) \<and> ids_ok s (hots t) \<and> seg_ok s (hots t)"
    and "app True c \<noteq> {#} \<Longrightarrow> s_slab_headerless s" and "s_fast_lane s \<Longrightarrow> s_slab_headerless s"
  using assms unfolding front_inv_def by blast+

lemma step_serve:
  assumes kern: "lo_kernel_ok env mapped" and inv: "front_inv mapped T s hots app" and t: "t < T"
    and small: "unat (s_next_id s) + 3 < 2 ^ 64" and mode: "s_slab_headerless s \<longrightarrow> rq_align rq \<le> MIN_ALIGN"
  shows "\<exists>r s'. slab_arm env busy rq (as_thread hots t s) = Some (r, s')
    \<and> front_inv mapped T s' (hots(t := s_hot s')) (case r of None \<Rightarrow> app | Some p \<Rightarrow> app_grant app (grant_of s rq p))
    \<and> (r \<noteq> None \<longrightarrow> slab_class_for (if s_slab_headerless s then rq_total rq - rq_pad rq else rq_total rq) \<noteq> None)"
proof -
  obtain live where L: "local_inv mapped (as_thread hots t s) (\<lambda>fl c. app fl c + others T s hots t fl c) live"
    using front_local [OF inv t] by blast
  obtain r s' live' where A: "slab_arm env busy rq (as_thread hots t s) = Some (r, s')" "later s s'" "seg_frame (as_thread hots t s) s'"
    "local_inv mapped s' (case r of None \<Rightarrow> (\<lambda>fl c. app fl c + others T s hots t fl c)
       | Some p \<Rightarrow> app_grant (\<lambda>fl c. app fl c + others T s hots t fl c) (grant_of (as_thread hots t s) rq p)) live'"
    "r \<noteq> None \<longrightarrow> slab_class_for (if s_slab_headerless s then rq_total rq - rq_pad rq else rq_total rq) \<noteq> None"
    using slab_arm_inv [OF kern L, of rq busy] small mode by auto
  let ?app = "case r of None \<Rightarrow> app | Some p \<Rightarrow> app_grant app (grant_of s rq p)"
  have "local_inv mapped s' (\<lambda>fl c. ?app fl c + others T s hots t fl c) live'"
    using A(4) by (cases r) (simp_all add: app_grant_shift grant_of_def)
  moreover have "s_slab_headerless s" if "?app True c \<noteq> {#}" for c
    using that front_invD(2) [OF inv, of c]
    by (cases r) (auto simp: app_grant_def grant_of_def live_add_def split: if_splits)
  ultimately have "front_inv mapped T s' (hots(t := s_hot s')) ?app" using frame_front [OF inv t _ A(2,3)] by blast
  then show ?thesis using A(1,5) by blast
qed

lemma step_lane:
  assumes inv: "front_inv mapped T s hots app" and t: "t < T" and small: "unat (s_next_id s) + 3 < 2 ^ 64" and lane: "s_fast_lane s"
    and res: "slab_fast_alloc site sz (as_thread hots t s) = (r, s')"
  shows "front_inv mapped T s' (hots(t := s_hot s'))
    (case r of None \<Rightarrow> app | Some p \<Rightarrow> live_add app True (the (slab_class_for sz)) p)"
proof -
  obtain live where L: "local_inv mapped (as_thread hots t s) (\<lambda>fl c. app fl c + others T s hots t fl c) live"
    using front_local [OF inv t] by blast
  have hl: "s_slab_headerless s" using front_invD(3) [OF inv lane] .
  note A = fast_alloc_inv [OF L _ _ res]
  let ?app = "case r of None \<Rightarrow> app | Some p \<Rightarrow> live_add app True (the (slab_class_for sz)) p"
  have "local_inv mapped s' (\<lambda>fl c. ?app fl c + others T s hots t fl c) live"
    using A small hl by (cases r) (simp_all add: live_add_shift)
  then show ?thesis using A small hl by (intro frame_front [OF inv t]) simp_all
qed

lemma step_free:
  assumes kern: "lo_kernel_ok env mapped" and inv: "front_inv mapped T s hots app" and t: "t < T"
    and small: "unat (s_next_id s) + 3 < 2 ^ 64" and p: "p \<in># app True c"
  shows "\<exists>s'. dealloc env locked p (as_thread hots t s) = Some s' \<and> front_inv mapped T s' (hots(t := s_hot s')) (live_remove app True c p)"
proof -
  obtain live where L: "local_inv mapped (as_thread hots t s) (\<lambda>fl c. app fl c + others T s hots t fl c) live"
    using front_local [OF inv t] by blast
  have "app True c \<noteq> {#}" using p by (metis empty_iff set_mset_empty)
  then have hl: "s_slab_headerless s" by (rule front_invD(2) [OF inv])
  have "p \<in># app True c + others T s hots t True c" using p by simp
  then obtain s' live' where D: "dealloc env locked p (as_thread hots t s) = Some s'" "later s s'"
    "local_inv mapped s' (live_remove (\<lambda>fl c. app fl c + others T s hots t fl c) True c p) live'"
    "seg_ok s' (s_hot s')" "reg_le (s_segments s) (s_segments s')" "s_fast_lane s' = s_fast_lane s"
    using dispatch_free_inv [OF kern L, of p c locked] small hl front_invD(1) [OF inv t] by auto
  have "front_inv mapped T s' (hots(t := s_hot s')) (live_remove app True c p)"
    by (rule local_front [OF inv t D(3) [unfolded live_remove_shift [of p app, OF p]] D(2,5,4,6)]) (rule hl)
  then show ?thesis using D(1) by blast
qed

lemma step_header_free:
  assumes kern: "lo_kernel_ok env mapped" and inv: "front_inv mapped T s hots app" and t: "t < T"
    and small: "unat (s_next_id s) + 3 < 2 ^ 64" and p: "p \<in># app False c" and hdr: "hdr_slab_class hdr = of_nat c"
    and res: "header_slab_free env p hdr (as_thread hots t s) = s'"
  shows "front_inv mapped T s' (hots(t := s_hot s')) (live_remove app False c p)"
proof -
  obtain live where L: "local_inv mapped (as_thread hots t s) (\<lambda>fl c. app fl c + others T s hots t fl c) live"
    using front_local [OF inv t] by blast
  obtain G F where I: "fleet_inv mapped STRIPES (as_thread hots t s) live G F" using local_invD(1) [OF L] by blast
  have "app False c \<subseteq># live False c"
    using local_invD(2) [OF L, of False c] by (metis add.assoc mset_subset_eq_add_left subset_mset.order_trans)
  then have "p \<in># live False c" using p by (rule mset_subset_eqD)
  then have c: "c < 12" using fleetD(3) [OF I, of 0 c False] by (cases "12 \<le> c") auto
  have "p \<in># app False c + others T s hots t False c" using p by simp
  then obtain live' where D: "later s s'"
    "local_inv mapped s' (live_remove (\<lambda>fl c. app fl c + others T s hots t fl c) False c p) live'"
    using header_free_inv [OF kern L _ c _ hdr, of p] small res by auto
  have "seg_frame (as_thread hots t s) s'" using header_slab_free_frame [of "as_thread hots t s" env p hdr] res by simp
  then show ?thesis
    using front_invD(2) [OF inv] by (intro frame_front [OF inv t D(2) [unfolded live_remove_shift [of p app, OF p]] D(1)])
      (auto simp: live_remove_def)
qed

text \<open>The steps that leave the slab alone.\<close>

lemma front_inv_cong:
  assumes "s_slab s' = s_slab s" "s_nodes s' = s_nodes s" "s_os s' = s_os s" "s_segments s' = s_segments s"
    "s_slab_headerless s' = s_slab_headerless s" "s_magazine_id s' = s_magazine_id s" "s_next_id s' = s_next_id s"
    and lane: "s_fast_lane s' \<longrightarrow> s_slab_headerless s"
    and inv: "front_inv mapped T s hots app"
  shows "front_inv mapped T s' hots app"
proof -
  have share: "mag_share s' = mag_share s" by (simp add: fun_eq_iff mag_share_def assms(5,6))
  have ok: "ids_ok s' h = ids_ok s h" "seg_ok s' h = seg_ok s h" for h
    by (simp_all add: ids_ok_def seg_ok_def assms(4-7))
  have fleet: "fleet_inv mapped STRIPES s' live G F = fleet_inv mapped STRIPES s live G F" for live G F
    by (rule fleet_inv_cong) (simp_all add: assms(1-4))
  show ?thesis using inv lane unfolding front_inv_def fleet share ok assms(5) by blast
qed

lemma record_untouched_frame:
  assumes "record_untouched js s = (b, s')"
  shows "s_slab s' = s_slab s \<and> s_nodes s' = s_nodes s \<and> s_arena s' = s_arena s \<and> s_segments s' = s_segments s
    \<and> s_slab_headerless s' = s_slab_headerless s \<and> s_magazine_id s' = s_magazine_id s \<and> s_next_id s' = s_next_id s
    \<and> s_fast_lane s' = s_fast_lane s"
  using assms by (induction js arbitrary: s) (fastforce split: if_splits)+

lemma latch_frame:
  "s_slab (latch_headerless s) = s_slab s \<and> s_nodes (latch_headerless s) = s_nodes s \<and> s_os (latch_headerless s) = s_os s
    \<and> s_segments (latch_headerless s) = s_segments s \<and> s_slab_headerless (latch_headerless s)
    \<and> s_magazine_id (latch_headerless s) = s_next_id s \<and> s_next_id (latch_headerless s) = s_next_id s + 1
    \<and> s_fast_lane (latch_headerless s) = s_fast_lane s"
proof -
  let ?s = "invalidate_magazines (s\<lparr>s_slab_headerless := True\<rparr>)"
  obtain b s' where r: "record_untouched [0 ..< unat MAX_STRIPES] ?s = (b, s')" by force
  show ?thesis using record_untouched_frame [OF r]
    unfolding latch_headerless_def Let_def r prod.case by (simp add: invalidate_magazines_def)
qed

lemma step_latch:
  assumes inv: "front_inv mapped T s hots app" and small: "unat (s_next_id s) + 3 < 2 ^ 64"
  shows "front_inv mapped T (latch_headerless s) hots app"
proof -
  let ?s = "latch_headerless s"
  note F = latch_frame [of s]
  obtain live G H where I: "fleet_inv mapped STRIPES s live G H"
    and sub: "\<And>fl c. app fl c + (\<Sum>u<T. mag_share s (hots u) fl c) \<subseteq># live fl c"
    using inv unfolding front_inv_def by blast
  have n: "unat (s_next_id ?s) = unat (s_next_id s) + 1" using F small by (simp add: unat_add_64)
  have fleet: "fleet_inv mapped STRIPES ?s live G H" using I fleet_inv_cong [of ?s s] F by blast
  have ok: "stripe_ok (hots u)" "unat (mag_owner (hots u)) < unat (s_next_id s)" "unat (hot_tls.seg_owner (hots u)) < unat (s_next_id s)"
    if "u < T" for u using front_invD(1) [OF inv that] by (auto simp: ids_ok_def seg_ok_def)
  have none: "mag_share ?s (hots u) fl c = {#}" if "u < T" for u fl c
  proof -
    have "mag_owner (hots u) \<noteq> s_next_id s" using ok(2) [OF that] by auto
    then show ?thesis using mag_held_foreign [of "hots u" "s_next_id s" c] F by (simp add: mag_share_def)
  qed
  have "app fl c + (\<Sum>u<T. mag_share ?s (hots u) fl c) \<subseteq># live fl c" for fl c
    using sub [of fl c] none by (simp add: subset_mset.order_trans [OF mset_subset_eq_add_left])
  moreover have "stripe_ok (hots u) \<and> ids_ok ?s (hots u) \<and> seg_ok ?s (hots u)" if "u < T" for u
    using ok [OF that] F n by (auto simp: ids_ok_def seg_ok_def)
  ultimately show ?thesis using fleet F unfolding front_inv_def by blast
qed

lemma mset_sum_mono: "(\<And>u. f u \<subseteq># g u) \<Longrightarrow> (\<Sum>u<T. f u) \<subseteq># (\<Sum>u<(T :: nat). (g u :: 'a multiset))"
  by (induction T) (simp_all add: subset_mset.add_mono)

lemma step_foreign:
  assumes inv: "front_inv mapped T s hots app" and n: "unat (s_next_id s) \<le> unat n"
    and h: "unat (mag_owner h) < unat n" "mag_owner h \<noteq> s_magazine_id s" "stripe_ok h"
      "hot_tls.seg_owner h \<noteq> s_magazine_id s" "unat (hot_tls.seg_owner h) < unat n"
  shows "front_inv mapped T (s\<lparr>s_next_id := n\<rparr>) (hots(t := h)) app"
proof -
  let ?s = "s\<lparr>s_next_id := n\<rparr>" and ?hots = "hots(t := h)"
  obtain live G F where I: "fleet_inv mapped STRIPES s live G F"
    and sub: "\<And>fl c. app fl c + (\<Sum>u<T. mag_share s (hots u) fl c) \<subseteq># live fl c"
    using inv unfolding front_inv_def by blast
  have "mag_share ?s (?hots u) fl c \<subseteq># mag_share s (hots u) fl c" for u fl c
    using mag_held_foreign [OF h(2)] by (auto simp: mag_share_def)
  then have "(\<Sum>u<T. mag_share ?s (?hots u) fl c) \<subseteq># (\<Sum>u<T. mag_share s (hots u) fl c)" for fl c
    by (rule mset_sum_mono)
  then have "app fl c + (\<Sum>u<T. mag_share ?s (?hots u) fl c) \<subseteq># live fl c" for fl c
    using sub [of fl c] subset_mset.add_left_mono subset_mset.order_trans by blast
  moreover have "stripe_ok (?hots u) \<and> ids_ok ?s (?hots u) \<and> seg_ok ?s (?hots u)" if "u < T" for u
    using front_invD(1) [OF inv that] n h by (force simp: ids_ok_def seg_ok_def)
  moreover have "fleet_inv mapped STRIPES ?s live G F" using I fleet_inv_cong [of ?s s mapped STRIPES live G F] by simp
  ultimately show ?thesis using front_invD(2,3) [OF inv] unfolding front_inv_def by auto
qed

lemma fleet_write:
  assumes inv: "fleet_inv mapped STRIPES s live G F" and b: "b \<in># live fl c" and a: "unat a \<in> block_span c b"
  shows "fleet_inv mapped STRIPES (s\<lparr>s_nodes := (s_nodes s)(a := v)\<rparr>) live G F"
proof -
  let ?s = "s\<lparr>s_nodes := (s_nodes s)(a := v)\<rparr>"
  have c: "c < 12" using fleetD(3) [OF inv, of 0 c fl] b by (cases "12 \<le> c") auto
  have view: "b \<in># stripe_view STRIPES F i live fl c" for i using b c by (simp add: stripe_view_def)
  have w: "slab_world_of i ?s = (slab_world_of i s)\<lparr>w_mem := (w_mem (slab_world_of i s))(a := v)\<rparr>" for i
    by (simp add: slab_world_of_def)
  have stripe: "stripe_inv mapped (slab_world_of i ?s) (stripe_view STRIPES F i live) G" if "i < STRIPES" for i
    using slab_write_inv [OF fleetD(1) [OF inv that] c view a] by (simp only: w)
  moreover have tier: "tier_free (s_nodes ?s) (tiers_of f (s_slab ?s i)) d (F i f d)" if i: "i < STRIPES" and d: "d < 12" for i f d
  proof -
    note I = fleetD(1) [OF inv i] and tf = fleetD(2) [OF inv i d, of f]
    obtain gs where gs: "tier_free (w_mem (slab_world_of i s)) (tiers_of f (w_slab (slab_world_of i s))) d gs"
      "mset gs + stripe_view STRIPES F i live f d = mset (blocks_of f d G)"
      "\<And>x. x \<in># stripe_view STRIPES F i live f d \<Longrightarrow> x \<notin> set gs"
      using slab_inv_free [OF I d] by metis
    have eq: "gs = F i f d" using tier_free_unique [OF d gs(1)] tf by simp
    have "tier_free ((s_nodes s)(a := v)) (tiers_of f (s_slab s i)) d (F i f d)"
    proof (rule tier_free_mem [OF tf])
      fix p assume p: "p \<in> set (F i f d)"
      then have "p \<in> set (blocks_of f d G)" using gs(2) eq by (metis set_mset_mset set_mset_union Un_iff)
      moreover have "(fl, c, b) \<noteq> (f, d, p)"
      proof
        assume "(fl, c, b) = (f, d, p)"
        then have "p \<in># stripe_view STRIPES F i live f d" using view [of i] by simp
        then show False using gs(3) p eq by blast
      qed
      ultimately have "block_span c b \<inter> block_span d p = {}"
        using blocks_disjoint [OF slab_inv_grants [OF I] slab_inv_live(6) [OF I view]] by blast
      then show "((s_nodes s)(a := v)) p = s_nodes s p" using span_nonempty [OF d, of p] a by auto
    qed
    then show ?thesis by simp
  qed
  moreover have "live f d = {#}" if "12 \<le> d" for f d using fleetD(3) [OF inv, of 0 d f] that by simp
  ultimately show ?thesis using stripe unfolding fleet_inv_def by blast
qed

lemma step_write:
  assumes inv: "front_inv mapped T s hots app" and b: "b \<in># app fl c" and a: "unat a \<in> block_span c b"
  shows "front_inv mapped T (s\<lparr>s_nodes := (s_nodes s)(a := v)\<rparr>) hots app"
proof -
  obtain live G F where I: "fleet_inv mapped STRIPES s live G F"
    and sub: "\<And>fl c. app fl c + (\<Sum>u<T. mag_share s (hots u) fl c) \<subseteq># live fl c"
    using inv unfolding front_inv_def by blast
  have "app fl c \<subseteq># live fl c" using sub [of fl c] by (rule subset_mset.order_trans [OF mset_subset_eq_add_left])
  then have "b \<in># live fl c" using b by (rule mset_subset_eqD)
  note W = fleet_write [OF I this a, of v]
  have "mag_share (s\<lparr>s_nodes := (s_nodes s)(a := v)\<rparr>) = mag_share s" by (simp add: fun_eq_iff mag_share_def)
  then show ?thesis using W sub front_invD [OF inv]
    unfolding front_inv_def by (simp add: ids_ok_def seg_ok_def) blast
qed

lemma fleet_elsewhere:
  assumes "fleet_inv mapped N s live G F" and "s_slab s' = s_slab s" "s_nodes s' = s_nodes s" "s_segments s' = s_segments s"
    and "mapped (s_os s) \<subseteq> mapped (s_os s')"
  shows "fleet_inv mapped N s' live G F"
proof -
  have w: "slab_world_of i s' = (slab_world_of i s)\<lparr>w_os := s_os s'\<rparr>" for i by (simp add: slab_world_of_def assms)
  have "stripe_inv mapped (slab_world_of i s') (stripe_view N F i live) G" if "i < N" for i
    unfolding w by (rule slab_inv_os [OF fleetD(1) [OF assms(1) that]]) (simp add: assms(5))
  then show ?thesis using assms(1) unfolding fleet_inv_def assms(2,3) by blast
qed

lemma step_elsewhere:
  assumes inv: "front_inv mapped T s hots app" and lt: "later s s'" and s': "s_slab s' = s_slab s" "s_nodes s' = s_nodes s"
      "s_segments s' = s_segments s" "s_fast_lane s' = s_fast_lane s" "mapped (s_os s) \<subseteq> mapped (s_os s')"
    and h: "stripe_ok h" "mag_owner h = mag_owner (hots t)" "mag_counts h = mag_counts (hots t)" "mag_slots h = mag_slots (hots t)"
      "seg_base h = seg_base (hots t)" "seg_class h = seg_class (hots t)" "hot_tls.seg_owner h = hot_tls.seg_owner (hots t)"
  shows "front_inv mapped T s' (hots(t := h)) app"
proof -
  let ?hots = "hots(t := h)"
  obtain live G F where I: "fleet_inv mapped STRIPES s live G F"
    and sub: "\<And>fl c. app fl c + (\<Sum>u<T. mag_share s (hots u) fl c) \<subseteq># live fl c"
    using inv unfolding front_inv_def by blast
  have held: "mag_share s (?hots u) fl c = mag_share s (hots u) fl c" for u fl c
    using h(2-4) by (auto simp: mag_share_def mag_held_def mag_stack_def)
  have ok: "stripe_ok (?hots u)" "ids_ok s (?hots u)" "seg_ok s (?hots u)" if "u < T" for u
    using front_invD(1) [OF inv that] h by (auto simp: ids_ok_def seg_ok_def)
  have share: "mag_share s' (?hots u) fl c = mag_share s (hots u) fl c" if "u < T" for u fl c
    using later_share(1) [OF lt ok(2) [OF that]] held by metis
  have "app fl c + (\<Sum>u<T. mag_share s' (?hots u) fl c) \<subseteq># live fl c" for fl c
    using sub [of fl c] share by simp
  moreover have "stripe_ok (?hots u) \<and> ids_ok s' (?hots u) \<and> seg_ok s' (?hots u)" if "u < T" for u
    using ok [OF that] later_share(2) [OF lt] seg_ok_later [OF _ lt] s'(3) by (simp add: reg_le_refl)
  moreover have "fleet_inv mapped STRIPES s' live G F" by (rule fleet_elsewhere [OF I s'(1-3,5)])
  moreover have "s_slab_headerless s' = s_slab_headerless s" using lt by (simp add: later_def)
  ultimately show ?thesis using front_invD(2,3) [OF inv] s'(4) unfolding front_inv_def by auto
qed

lemma step_publish:
  assumes inv: "front_inv mapped T s hots app"
  shows "front_inv mapped T (publish_frozen_table env ptr routing s) hots app" and "front_inv mapped T (reset_to_training s) hots app"
  by (rule front_inv_cong [OF _ _ _ _ _ _ _ _ inv];
      use front_invD(3) [OF inv] in \<open>auto simp: publish_frozen_table_def reset_to_training_def split: option.splits\<close>)+

lemma front_step_inv:
  assumes "front_step env mapped T x y" and kern: "lo_kernel_ok env mapped"
    and "front_inv mapped T (fst x) (fst (snd x)) (snd (snd x))"
  shows "front_inv mapped T (fst y) (fst (snd y)) (snd (snd y))"
  using assms(1,3)
proof (cases rule: front_step.cases)
  case (serve t s rq busy hots p s' app)
  then show ?thesis using step_serve [OF kern, of T s hots app t rq busy] assms(3) by auto
next
  case (refuse t s rq busy hots s' app)
  then show ?thesis using step_serve [OF kern, of T s hots app t rq busy] assms(3) by auto
next
  case (free t s p app c locked hots s')
  then show ?thesis using step_free [OF kern, of T s hots app t p c locked] assms(3) by auto
next
  case (lane t s site sz hots r s' app)
  then show ?thesis using step_lane [of mapped T s hots app t site sz r s'] assms(3) by simp
next
  case (header_free t s p app c hdr hots s')
  then show ?thesis using step_header_free [OF kern, of T s hots app t p c hdr s'] assms(3) by simp
next
  case (latch s hots app)
  then show ?thesis using step_latch [of mapped T s hots app] assms(3) by simp
next
  case (foreign s n h hots app t)
  then show ?thesis using step_foreign [of mapped T s hots app n h t] assms(3) by simp
next
  case (elsewhere s s' h hots t app)
  then show ?thesis using step_elsewhere [of mapped T s hots app s' h t] assms(3) by simp
next
  case (app_write b app fl c a s hots v)
  then show ?thesis using step_write [of mapped T s hots app b fl c a v] assms(3) by simp
qed (use assms(3) step_publish in simp_all)

lemma front_reach_inv:
  assumes "front_reach env mapped T x0 x" and kern: "lo_kernel_ok env mapped"
    and "front_inv mapped T (fst x0) (fst (snd x0)) (snd (snd x0))"
  shows "front_inv mapped T (fst x) (fst (snd x)) (snd (snd x))"
  using assms(1,3) by induction (auto intro: front_step_inv [OF _ kern])

end
