(* ===== verification/SlabThreadsSafety.thy ===== *)
theory SlabThreadsSafety
  imports SlabThreads
begin

text \<open>
  What holds in every state the threads of an instance can reach: the blocks the application holds, the
  availability of allocation, and the agreement of the fast lane with the dispatch.
\<close>

section \<open>When the central slab gives nothing\<close>

text \<open>
  The registry has no slot for a segment: the bounded probe from its base meets only slots that other segments hold.
\<close>

definition no_slot_for :: "segment_registry \<Rightarrow> usize \<Rightarrow> bool" where
  "no_slot_for r base \<longleftrightarrow> (\<forall>i \<in> set (probe_seq SEGMENT_CAPACITY PROBE_MAX (slot_for base SEGMENT_CAPACITY)).
     seg_keys r i \<noteq> base \<and> seg_keys r i \<noteq> 0)"

text \<open>
  The refill of a class fails in a state: the kernel refuses the very mapping the refill asks for there or, for a
  header-free segment, maps one for which the registry has no slot.
\<close>

definition refill_fails ::
  "usize \<Rightarrow> ('os \<Rightarrow> usize \<Rightarrow> usize option \<times> 'os) \<Rightarrow> bool \<Rightarrow> nat \<Rightarrow> 'os \<Rightarrow> segment_registry \<Rightarrow> bool"
where
  "refill_fails page mmap fl c os r \<longleftrightarrow>
     (if fl then os_refuses mmap os (pages_len page SEGMENT_SIZE SEGMENT_SIZE)
        \<or> (\<exists>m os'. alloc_pages page mmap SEGMENT_SIZE SEGMENT_SIZE os = (Some m, os') \<and> no_slot_for r (map_ptr m))
      else os_refuses mmap os (refill_len page c))"

lemma no_slot_forI: "seg_insert r base c i = (False, r') \<Longrightarrow> no_slot_for r base"
  using seg_insert_outcome [of r base c i] by (auto simp: no_slot_for_def)

lemma refill_segment_refused:
  assumes "refill_segment env c w = (None, w')"
  shows "os_refuses (env_mmap env) (w_os w) (pages_len (env_page env) SEGMENT_SIZE SEGMENT_SIZE)
    \<or> (\<exists>m os r. alloc_pages (env_page env) (env_mmap env) SEGMENT_SIZE SEGMENT_SIZE (w_os w) = (Some m, os)
        \<and> env_register env (w_reg w) (map_ptr m) = (False, r))"
proof -
  have nz: "SEGMENT_SIZE \<noteq> 0" by (simp add: SEGMENT_SIZE_def)
  obtain q os' where a: "alloc_pages (env_page env) (env_mmap env) SEGMENT_SIZE SEGMENT_SIZE (w_os w) = (q, os')" by force
  show ?thesis
  proof (cases q)
    case None
    from alloc_pages_refused [OF a [unfolded None] nz] show ?thesis by blast
  next
    case (Some m)
    obtain ok r where e: "env_register env (w_reg w) (map_ptr m) = (ok, r)" by force
    have "ok = False" using assms by (simp add: refill_segment_def a Some Let_def e split: bool.splits)
    then show ?thesis using a Some e by blast
  qed
qed

lemma batch_headerless_refused:
  assumes kern: "kernel_ok env mapped" and reg: "registrar_ok rinv owner register" and c: "c < 12"
    and inv: "slab_inv mapped rinv owner w live G" and len: "0 < len"
    and res: "slab_alloc_batch_headerless (env\<lparr>env_register := register c\<rparr>) c len w = Some ([], w')"
  shows "os_refuses (env_mmap env) (w_os w) (pages_len (env_page env) SEGMENT_SIZE SEGMENT_SIZE)
    \<or> (\<exists>m os r. alloc_pages (env_page env) (env_mmap env) SEGMENT_SIZE SEGMENT_SIZE (w_os w) = (Some m, os)
        \<and> register c (w_reg w) (map_ptr m) = (False, r))"
proof -
  let ?env = "env\<lparr>env_register := register c\<rparr>"
  obtain r1 w1 where p1: "pop_hl c w = (r1, w1)" by force
  have hit: False if "pop_hl c v = (Some b, v')" and "slab_alloc_batch_headerless ?env c len v = Some ([], w')" for v b v'
    using that len slab_alloc_batch_headerless.simps [of ?env c len v] by (auto simp: Option.bind_eq_Some_conv)
  have None: "r1 = None" using hit [OF _ res] p1 by (cases r1) auto
  have same: "w_os w1 = w_os w" "w_reg w1 = w_reg w" using headerless.pop_tiers [OF p1] by blast+
  have inv1: "slab_inv mapped rinv owner w1 live G" and e1: "tier_free (w_mem w1) (tiers_of True (w_slab w1)) c []"
    using headerless.pop_inv [OF inv c p1] None by auto
  obtain q w2 where rf: "refill_segment ?env c w1 = (q, w2)" by force
  show ?thesis
  proof (cases q)
    case N: None
    from refill_segment_refused [OF rf [unfolded N]] show ?thesis by (simp add: same)
  next
    case (Some base)
    then obtain b fs where f2: "tier_free (w_mem w2) (tiers_of True (w_slab w2)) c (b # fs)"
      using refill_segment_inv [OF kern inv1 c reg e1 rf] by auto
    obtain r3 w3 where p3: "pop_hl c w2 = (r3, w3)" by force
    have "r3 = Some b" using pop_any_free [OF f2 c headerless.pop_tiers [OF p3, THEN conjunct1]] by simp
    moreover have "slab_alloc_batch_headerless ?env c len w2 = Some ([], w')"
      using res len slab_alloc_batch_headerless.simps [of ?env c len w] by (simp add: p1 None rf Some)
    ultimately show ?thesis using hit p3 by blast
  qed
qed

lemma batch_refused:
  assumes kern: "kernel_ok env mapped" and c: "c < 12" and inv: "slab_inv mapped rinv owner w live G" and len: "0 < len"
    and res: "slab_alloc_batch env c len w = ([], w')"
  shows "os_refuses (env_mmap env) (w_os w) (refill_len (env_page env) c)"
proof -
  obtain k where k: "len = Suc k" using len gr0_implies_Suc by blast
  obtain r1 w1 where p1: "pop_header c w = (r1, w1)" by force
  have None: "r1 = None" using res p1 by (cases r1) (auto simp: slab_alloc_batch_def k split: prod.splits)
  have os: "w_os w1 = w_os w" using header.pop_tiers [OF p1] by blast
  have inv1: "slab_inv mapped rinv owner w1 live G" and e1: "tier_free (w_mem w1) (tiers_of False (w_slab w1)) c []"
    using header.pop_inv [OF inv c p1] None by auto
  obtain ok w2 where rf: "slab_refill env c (SLAB_SIZE_CLASSES ! c) w1 = (ok, w2)" by force
  show ?thesis
  proof (cases ok)
    case False
    then show ?thesis using slab_refill_refused [OF kern c, of w1 w2] rf os by simp
  next
    case True
    then obtain b fs where f2: "tier_free (w_mem w2) (tiers_of False (w_slab w2)) c (b # fs)"
      using slab_refill_inv [OF kern inv1 c e1 rf] by auto
    obtain r3 w3 where p3: "pop_header c w2 = (r3, w3)" by force
    have "r3 = Some b" using pop_any_free [OF f2 c header.pop_tiers [OF p3, THEN conjunct1]] by simp
    moreover have "slab_alloc_batch_loop env c True (Suc k) w2 = ([], w')"
      using res by (simp add: slab_alloc_batch_def k p1 None rf True)
    ultimately show ?thesis using p3 by (simp split: prod.splits)
  qed
qed

lemma central_carve_refused:
  assumes kern: "lo_kernel_ok env mapped" and inv: "fleet_inv mapped N s live G F" and i: "i < N" and c: "c < 12" and len: "0 < len"
    and res: "central_carve env c len fl i s = Some ([], s')"
  shows "refill_fails (le_page env) (le_mmap env) fl c (s_os s) (s_segments s)"
proof (cases fl)
  case True
  obtain w where b: "slab_alloc_batch_headerless (slab_env_of env i c) c len (slab_world_of i s) = Some ([], w)"
    using res True by (auto simp: central_carve_def Option.bind_eq_Some_conv split: prod.splits)
  have m: "env_mmap (slab_env_of env i c) = le_mmap env" "env_page (slab_env_of env i c) = le_page env"
    "w_os (slab_world_of i s) = s_os s" "w_reg (slab_world_of i s) = s_segments s"
    by (simp_all add: slab_env_of_def slab_world_of_def)
  have b': "slab_alloc_batch_headerless ((slab_env_of env i c)\<lparr>env_register := seg_register (of_nat i) c\<rparr>) c len (slab_world_of i s)
      = Some ([], w)" using b by (simp only: slab_env_register [symmetric])
  from batch_headerless_refused [OF slab_env_kernel [OF kern, of i c] seg_registrar_ok [of "of_nat i"] c fleetD(1) [OF inv i] len b']
  show ?thesis unfolding m using True by (auto simp: refill_fails_def seg_register_def intro: no_slot_forI)
next
  case False
  obtain w where b: "slab_alloc_batch (slab_env_of env i c) c len (slab_world_of i s) = ([], w)"
    using res False by (auto simp: central_carve_def split: prod.splits)
  have m: "env_mmap (slab_env_of env i c) = le_mmap env" "env_page (slab_env_of env i c) = le_page env"
    "w_os (slab_world_of i s) = s_os s" "w_reg (slab_world_of i s) = s_segments s"
    by (simp_all add: slab_env_of_def slab_world_of_def)
  from batch_refused [OF slab_env_kernel [OF kern] c fleetD(1) [OF inv i] len b] show ?thesis
    unfolding m using False by (simp add: refill_fails_def)
qed

lemma sibling_scan_kernel:
  "s_os (snd (sibling_scan env busy c len fl i ks s)) = s_os s \<and> s_segments (snd (sibling_scan env busy c len fl i ks s)) = s_segments s"
proof (induction ks arbitrary: s)
  case (Cons k ks)
  let ?j = "unat (of_nat (i + k) AND le_mask env)"
  obtain cs w where r: "slab_alloc_batch_recycled c len fl (slab_world_of ?j s) = (cs, w)" by force
  have "s_os (put_slab ?j w s) = s_os s" "s_segments (put_slab ?j w s) = s_segments s"
    using recycled_frame [OF r] by simp_all
  then show ?case using Cons [of s] Cons [of "put_slab ?j w s"] r by (simp add: Let_def)
qed simp

lemma batch_recycled_first_refused:
  assumes kern: "lo_kernel_ok env mapped" and inv: "fleet_inv mapped STRIPES s live G F" and c: "c < 12" and len: "0 < len"
    and t: "stripe_ok (s_hot s)" and res: "slab_batch_recycled_first env busy c len fl s = Some ([], s')"
  shows "refill_fails (le_page env) (le_mmap env) fl c (s_os s) (s_segments s)"
proof -
  obtain i s1 where ts: "thread_stripe_of env s = (i, s1)" by force
  note T = thread_stripe_frame [OF ts]
  have i: "i < STRIPES" using T(6) [OF kern] t unfolding stripe_ok_def by blast
  have os1: "s_os s1 = s_os s" using ts by (auto simp: thread_stripe_of_def Let_def split: if_splits)
  have inv1: "fleet_inv mapped STRIPES s1 live G F" using inv T(2) by blast
  obtain bs1 w1 where r: "slab_alloc_batch_recycled c len fl (slab_world_of i s1) = (bs1, w1)" by force
  let ?s2 = "put_slab i w1 s1"
  have f2: "s_os ?s2 = s_os s" "s_segments ?s2 = s_segments s" using recycled_frame [OF r] os1 T(4) by simp_all
  obtain bs2 s3 where q: "sibling_scan env busy c len fl i [1 ..< unat (le_mask env) + 1] ?s2 = (bs2, s3)" by force
  have f3: "s_os s3 = s_os s" "s_segments s3 = s_segments s"
    using sibling_scan_kernel [of env busy c len fl i "[1 ..< unat (le_mask env) + 1]" ?s2] f2 unfolding q by simp_all
  let ?s4 = "s3\<lparr>s_hot := (s_hot s3)\<lparr>slab_scan_miss_epoch := (slab_scan_miss_epoch (s_hot s3))(c := s_gain s1 c)\<rparr>\<rparr>"
  have carve: ?thesis if "fleet_inv mapped STRIPES u live G H" "s_os u = s_os s" "s_segments u = s_segments s"
      "central_carve env c len fl i u = Some ([], s')" for u H
    using central_carve_refused [OF kern that(1) i c len that(4)] that(2,3) by simp
  have I4: "\<exists>H. fleet_inv mapped STRIPES ?s4 live G H" if e: "bs1 = []" "bs2 = []"
  proof -
    obtain H where "fleet_inv mapped STRIPES ?s2 live G H" using fleet_recycled [OF inv1 i c r] e by auto
    from sibling_scan_inv [OF kern this c q] e obtain H where "fleet_inv mapped STRIPES s3 live G H" by auto
    then have "fleet_inv mapped STRIPES ?s4 live G H" using fleet_inv_cong [of ?s4 s3 mapped STRIPES live G H] by simp
    then show ?thesis by blast
  qed
  show ?thesis
  proof (cases "le_scan_gate env \<and> slab_scan_miss_epoch (s_hot s1) c = s_gain s1 c")
    case True
    then have "central_carve env c len fl i s1 = Some ([], s')" using res by (simp add: slab_batch_recycled_first_def Let_def ts)
    then show ?thesis using carve [OF inv1 os1 T(4)] by blast
  next
    case False
    then have g: "(le_scan_gate env \<and> slab_scan_miss_epoch (s_hot s1) c = s_gain s1 c) = False" by blast
    have e: "bs1 = []" "bs2 = []" and C: "central_carve env c len fl i ?s4 = Some ([], s')"
      using res by (auto simp: slab_batch_recycled_first_def Let_def ts r g q split: if_splits simp del: upt_Suc One_nat_def sibling_scan.simps)
    obtain H where "fleet_inv mapped STRIPES ?s4 live G H" using I4 [OF e] by blast
    from carve [OF this _ _ C] f3 show ?thesis by simp
  qed
qed

lemma slab_magazine_or_batch_refused:
  assumes kern: "lo_kernel_ok env mapped" and L: "local_inv mapped s held live" and small: "unat (s_next_id s) + 1 < 2 ^ 64"
    and res: "slab_magazine_or_batch env busy fl sz s = Some (None, s')"
  shows "slab_class_for sz = None
    \<or> (\<exists>c. slab_class_for sz = Some c \<and> refill_fails (le_page env) (le_mmap env) fl c (s_os s) (s_segments s))"
proof (cases "slab_class_for sz")
  case (Some c)
  have c: "c < 12" by (rule slab_class_bound [OF Some])
  obtain owner s1 where o: "magazine_owner s = (owner, s1)" by force
  note M = magazine_owner_inv [OF L small o]
  have same: "s_os s1 = s_os s" "s_segments s1 = s_segments s" using o by (auto simp: magazine_owner_def Let_def split: if_splits)
  obtain b h1 where p: "mag_pop (s_hot s1) owner c = (b, h1)" by force
  note P = mag_pop_held [OF p c M(3)]
  let ?s2 = "s1\<lparr>s_hot := h1\<rparr>"
  obtain G F where "fleet_inv mapped STRIPES s1 live G F" using local_invD(1) [OF M(1)] by blast
  then have I: "fleet_inv mapped STRIPES ?s2 live G F" using stripe_fleet_hot by blast
  have ok: "stripe_ok (s_hot ?s2)" using local_invD(3) [OF M(1)] P(2) by (simp add: stripe_ok_def)
  have len: "0 < min (mag_refill_count c) 16" by (simp add: mag_refill_count_def)
  have "b = None" using res by (cases b) (auto simp: slab_magazine_or_batch_def Some o p)
  then obtain bs s3 where B: "slab_batch_recycled_first env busy c (min (mag_refill_count c) 16) fl ?s2 = Some (bs, s3)"
    "(case bs of [] \<Rightarrow> Some (None, s3) | p # ps \<Rightarrow> Some (Some p, s3\<lparr>s_hot := mag_push_all owner c ps (s_hot s3)\<rparr>)) = Some (None, s')"
    using res by (auto simp: slab_magazine_or_batch_def Some o p Option.bind_eq_Some_conv)
  then have "bs = []" by (cases bs) auto
  from batch_recycled_first_refused [OF kern I c len ok B(1) [unfolded this]] show ?thesis using Some by (simp add: same)
qed simp

lemma slab_arm_refused:
  assumes kern: "lo_kernel_ok env mapped" and L: "local_inv mapped s held live" and small: "unat (s_next_id s) + 1 < 2 ^ 64"
    and mode: "s_slab_headerless s \<longrightarrow> rq_align rq \<le> MIN_ALIGN" and res: "slab_arm env busy rq s = Some (None, s')"
    and sz: "sz = (if s_slab_headerless s then rq_total rq - rq_pad rq else rq_total rq)"
  shows "slab_class_for sz = None
    \<or> (\<exists>c. slab_class_for sz = Some c
        \<and> refill_fails (le_page env) (le_mmap env) (s_slab_headerless s) c (s_os s) (s_segments s))"
proof (cases "s_slab_headerless s")
  case True
  then have "slab_magazine_or_batch env busy True (rq_total rq - rq_pad rq) s = Some (None, s')"
    using res mode by (simp add: slab_arm_def slab_block_headerless_via_magazine_def)
  from slab_magazine_or_batch_refused [OF kern L small this] True show ?thesis unfolding sz by simp
next
  case False
  then obtain r s1 where r: "slab_magazine_or_batch env busy False (rq_total rq) s = Some (r, s1)" and w: "with_header rq Slab (r, s1) = (None, s')"
    using res by (auto simp: slab_arm_def slab_block_via_magazine_def)
  have "r = None" using with_header_frame(2) [OF w] by simp
  from slab_magazine_or_batch_refused [OF kern L small r [unfolded this]] False show ?thesis unfolding sz by simp
qed

section \<open>Reachable states\<close>

text \<open>A fresh instance and threads whose hot blocks are new; \<open>i0\<close> is the counter of instance ids, which starts at 1.\<close>

abbreviation front_from ::
  "'os lo_env \<Rightarrow> ('os \<Rightarrow> nat set) \<Rightarrow> nat \<Rightarrow> 'os sys \<Rightarrow> 'os sys \<times> (nat \<Rightarrow> hot_tls) \<times> live \<Rightarrow> bool"
where
  "front_from env mapped T s0 x \<equiv> front_reach env mapped T (s0, \<lambda>_. HOT, \<lambda>_ _. {#}) x"

lemma tier_free_new: "tier_free m (tiers_of fl slab_new) c []"
  unfolding tier_free_def
  by (intro exI [of _ "[]"] exI [of _ 0])
    (simp add: slab_new_def tiers_of_def tiers_new_def cache_list_def grid_def)

lemma front_inv_start:
  assumes "i0 \<noteq> 0"
  shows "front_inv mapped T (lohalloc_new os i0 st nodes bnodes bytes) (\<lambda>_. HOT) (\<lambda>_ _. {#})"
proof -
  let ?s = "lohalloc_new os i0 st nodes bnodes bytes"
  have f: "s_slab ?s i = slab_new" "s_segments ?s = segment_registry_new" "s_next_id ?s = i0" "s_magazine_id ?s = 0"
    "\<not> s_slab_headerless ?s" "\<not> s_fast_lane ?s" for i
    by (simp_all add: lohalloc_new_def)
  have own: "seg_rinv segment_registry_new" "\<forall>b. SlabSafety.seg_owner segment_registry_new b = None"
    using seg.table_inv_empty seg.look_empty by (simp_all add: capacity_pow2 SlabSafety.seg_owner_def seg_lookup_def)
  have "stripe_inv mapped (slab_world_of i ?s) (\<lambda>_ _. {#}) []" for i
    by (rule slab_inv_start) (simp_all add: slab_start_def f own)
  moreover have "stripe_view STRIPES (\<lambda>_ _ _. []) i (\<lambda>_ _. {#}) = (\<lambda>_ _. {#})" for i
    by (simp add: fun_eq_iff stripe_view_def)
  ultimately have "fleet_inv mapped STRIPES ?s (\<lambda>_ _. {#}) [] (\<lambda>_ _ _. [])"
    by (simp add: fleet_inv_def tier_free_new f)
  moreover have "mag_share ?s HOT fl c = {#}" for fl c by (simp add: mag_share_def mag_held_def f)
  moreover have "0 < unat i0" using assms by (simp add: unat_gt_0)
  then have "stripe_ok HOT \<and> ids_ok ?s HOT \<and> seg_ok ?s HOT"
    by (simp add: stripe_ok_def ids_ok_def seg_ok_def HOT_def f)
  ultimately show ?thesis unfolding front_inv_def by (auto simp: f(6) intro!: exI [of _ "\<lambda>_ _. {#}"])
qed

lemma front_from_inv:
  assumes "lo_kernel_ok env mapped" and "i0 \<noteq> 0"
    and "front_from env mapped T (lohalloc_new os i0 st nodes bnodes bytes) (s, hots, app)"
  shows "front_inv mapped T s hots app"
  using front_reach_inv [OF assms(3,1), unfolded fst_conv snd_conv, OF front_inv_start [OF assms(2)]] .

text \<open>What the invariant says of the blocks the application holds.\<close>

lemma front_blocks:
  assumes inv: "front_inv mapped T s hots app"
  obtains live G F where "fleet_inv mapped STRIPES s live G F"
    "\<And>fl c. app fl c + (\<Sum>u<T. mag_share s (hots u) fl c) \<subseteq># live fl c"
    "\<And>fl c b. b \<in># live fl c \<Longrightarrow> c < 12 \<and> count (live fl c) b = 1 \<and> b \<noteq> 0 \<and> 16 dvd unat b \<and> block_span c b \<subseteq> mapped (s_os s)
      \<and> (fl \<longrightarrow> SlabSafety.seg_owner (s_segments s) (b AND NOT (SEGMENT_SIZE - 1)) = Some c)"
    "\<And>fl c b fl' c' b'. b \<in># live fl c \<Longrightarrow> b' \<in># live fl' c' \<Longrightarrow> (fl, c, b) \<noteq> (fl', c', b') \<Longrightarrow> block_span c b \<inter> block_span c' b' = {}"
proof -
  obtain live G F where I: "fleet_inv mapped STRIPES s live G F"
    and sub: "\<And>fl c. app fl c + (\<Sum>u<T. mag_share s (hots u) fl c) \<subseteq># live fl c"
    using inv unfolding front_inv_def by blast
  let ?v = "stripe_view STRIPES F 0 live"
  have i: "(0 :: nat) < STRIPES" by simp
  note S = slab_inv_live [OF fleetD(1) [OF I i]]
  have c: "c < 12" if "b \<in># live fl c" for b fl c using fleetD(3) [OF I i, of c fl] that by (cases "12 \<le> c") auto
  have v: "b \<in># ?v fl c" "count (live fl c) b \<le> count (?v fl c) b" if "b \<in># live fl c" for b fl c
    using c [OF that] that by (simp_all add: stripe_view_def)
  show thesis
  proof (rule that [OF I sub])
    fix fl c b assume b: "b \<in># live fl c"
    have "count (live fl c) b = 1"
      using v [OF b] S(2) [OF v(1) [OF b]] b by (metis One_nat_def Suc_leI count_greater_zero_iff le_antisym)
    then show "c < 12 \<and> count (live fl c) b = 1 \<and> b \<noteq> 0 \<and> 16 dvd unat b \<and> block_span c b \<subseteq> mapped (s_os s)
        \<and> (fl \<longrightarrow> SlabSafety.seg_owner (s_segments s) (b AND NOT (SEGMENT_SIZE - 1)) = Some c)"
      using S [OF v(1) [OF b]] by simp
  next
    fix fl c b fl' c' b'
    assume "b \<in># live fl c" "b' \<in># live fl' c'" "(fl, c, b) \<noteq> (fl', c', b')"
    then show "block_span c b \<inter> block_span c' b' = {}"
      using blocks_disjoint [OF slab_inv_grants [OF fleetD(1) [OF I i]] S(6) S(6)] v(1) by blast
  qed
qed

lemma front_held:
  assumes "\<And>fl c. app fl c + (\<Sum>u<T. mag_share s (hots u) fl c) \<subseteq># live fl c" and "b \<in># app fl c"
  shows "b \<in># live fl c" and "count (app fl c) b + count (\<Sum>u<T. mag_share s (hots u) fl c) b \<le> count (live fl c) b"
proof -
  have "app fl c \<subseteq># live fl c" using assms(1) [of fl c] by (rule subset_mset.order_trans [OF mset_subset_eq_add_left])
  then show "b \<in># live fl c" using assms(2) by (rule mset_subset_eqD)
  show "count (app fl c) b + count (\<Sum>u<T. mag_share s (hots u) fl c) b \<le> count (live fl c) b"
    using mset_subset_eq_count [OF assms(1) [of fl c], of b] by simp
qed

section \<open>Properties\<close>

text \<open>
  C1: Whatever any number of threads do on an instance (allocations through the magazines with any locks of sibling
  stripes taken, the fast lane, frees of held blocks, the latch to header-free blocks, publications and resets, other
  instances and writes into held blocks), as long as no request asks for more than \<open>MIN_ALIGN\<close> once blocks are
  header-free (the theory OverAligned shows that such a request makes held blocks overlap): each block the application holds was handed out once, is in no
  thread's magazine, is non-null, aligned and mapped, no two held blocks overlap, and the class of a header-free one is
  found from its address.
\<close>
theorem slab_threads_live_disjoint:
  assumes "lo_kernel_ok env mapped" and "i0 \<noteq> 0"
    and "front_from env mapped T (lohalloc_new os i0 st nodes bnodes bytes) (s, hots, app)"
  shows "(\<forall>fl c b. b \<in># app fl c \<longrightarrow> c < 12 \<and> count (app fl c) b = 1 \<and> b \<noteq> 0 \<and> 16 dvd unat b
        \<and> block_span c b \<subseteq> mapped (s_os s) \<and> (\<forall>t < T. b \<notin># mag_share s (hots t) fl c)
        \<and> (fl \<longrightarrow> headerless_class_for b s = Some c))
    \<and> (\<forall>fl c b fl' c' b'. b \<in># app fl c \<longrightarrow> b' \<in># app fl' c' \<longrightarrow> (fl, c, b) \<noteq> (fl', c', b') \<longrightarrow>
        block_span c b \<inter> block_span c' b' = {})"
proof -
  note inv = front_from_inv [OF assms]
  obtain live G F where sub: "\<And>fl c. app fl c + (\<Sum>u<T. mag_share s (hots u) fl c) \<subseteq># live fl c"
    and B: "\<And>fl c b. b \<in># live fl c \<Longrightarrow> c < 12 \<and> count (live fl c) b = 1 \<and> b \<noteq> 0 \<and> 16 dvd unat b \<and> block_span c b \<subseteq> mapped (s_os s)
      \<and> (fl \<longrightarrow> SlabSafety.seg_owner (s_segments s) (b AND NOT (SEGMENT_SIZE - 1)) = Some c)"
    and D: "\<And>fl c b fl' c' b'. b \<in># live fl c \<Longrightarrow> b' \<in># live fl' c' \<Longrightarrow> (fl, c, b) \<noteq> (fl', c', b') \<Longrightarrow> block_span c b \<inter> block_span c' b' = {}"
    by (rule front_blocks [OF inv]) blast
  note H = front_held [OF sub]
  have one: "count (app fl c) b = 1 \<and> (\<forall>t < T. b \<notin># mag_share s (hots t) fl c)" if b: "b \<in># app fl c" for fl c b
  proof -
    have "1 \<le> count (app fl c) b" using b by (simp add: Suc_le_eq)
    then have e: "count (app fl c) b = 1" "count (\<Sum>u<T. mag_share s (hots u) fl c) b = 0"
      using H(2) [OF b] B [OF H(1) [OF b]] by linarith+
    then show ?thesis by (auto simp: count_sum sum_nonneg_eq_0_iff not_in_iff)
  qed
  have cls: "headerless_class_for b s = Some c" if b: "b \<in># app True c" for c b
  proof -
    have "s_slab_headerless s" using front_invD(2) [OF inv, of c] b by (metis empty_iff set_mset_empty)
    then show ?thesis using B [OF H(1) [OF b]] by (simp add: headerless_class_for_def SlabSafety.seg_owner_def)
  qed
  show ?thesis
  proof (intro conjI allI impI)
    fix fl c b t assume "b \<in># app fl c" "t < T"
    then show "b \<notin># mag_share s (hots t) fl c" using one by blast
  next
    fix fl c b assume "b \<in># app fl c" fl
    then show "headerless_class_for b s = Some c" using cls by simp
  next
    fix fl c b fl' c' b' assume "b \<in># app fl c" "b' \<in># app fl' c'" "(fl, c, b) \<noteq> (fl', c', b')"
    then show "block_span c b \<inter> block_span c' b' = {}" using D [OF H(1) H(1)] by blast
  qed (use B H(1) one in \<open>blast+\<close>)
qed

text \<open>
  C2: In every reachable state the slab arm returns for every request a thread may make of it (of alignment at most
  \<open>MIN_ALIGN\<close> once blocks are header-free). It gives nothing only for a size above the largest class, or when the
  refill of the class of that size fails in this state: the kernel refuses the mapping the refill asks for or, for
  header-free blocks, maps a segment for which the bounded probe of the segment registry finds no slot. Otherwise
  the block's stride covers the size and it overlaps no block that is held.
\<close>
theorem slab_threads_alloc_returns:
  assumes "lo_kernel_ok env mapped" and "i0 \<noteq> 0"
    and "front_from env mapped T (lohalloc_new os i0 st nodes bnodes bytes) (s, hots, app)"
    and "t < T" and "unat (s_next_id s) + 3 < 2 ^ 64" and "s_slab_headerless s \<longrightarrow> rq_align rq \<le> MIN_ALIGN"
    and "sz = (if s_slab_headerless s then rq_total rq - rq_pad rq else rq_total rq)"
  shows "\<exists>r s'. slab_arm env busy rq (as_thread hots t s) = Some (r, s')
    \<and> (case r of None \<Rightarrow> 16384 < unat sz \<or> (\<exists>c. slab_class_for sz = Some c
          \<and> refill_fails (le_page env) (le_mmap env) (s_slab_headerless s) c (s_os s) (s_segments s))
       | Some p \<Rightarrow> \<exists>fl c b. grant_of s rq p = (fl, c, b) \<and> fl = s_slab_headerless s \<and> unat sz \<le> unat (class_stride c)
           \<and> (\<forall>fl' c' b'. b' \<in># app fl' c' \<longrightarrow> block_span c b \<inter> block_span c' b' = {}))"
proof -
  note inv = front_from_inv [OF assms(1-3)]
  obtain r s' where A: "slab_arm env busy rq (as_thread hots t s) = Some (r, s')"
    "front_inv mapped T s' (hots(t := s_hot s')) (case r of None \<Rightarrow> app | Some p \<Rightarrow> app_grant app (grant_of s rq p))"
    "r \<noteq> None \<longrightarrow> slab_class_for sz \<noteq> None"
    using step_serve [OF assms(1) inv assms(4-6), of busy] assms(7) by blast
  show ?thesis
  proof (cases r)
    case None
    obtain live where L: "local_inv mapped (as_thread hots t s) (\<lambda>fl c. app fl c + others T s hots t fl c) live"
      using front_local [OF inv assms(4)] by blast
    have "slab_class_for sz = None \<or> (\<exists>c. slab_class_for sz = Some c
        \<and> refill_fails (le_page env) (le_mmap env) (s_slab_headerless s) c (s_os s) (s_segments s))"
      using slab_arm_refused [OF assms(1) L, of rq busy s' sz] assms(5-7) A(1) None by (simp add: as_thread_def)
    then show ?thesis using A(1) None slab_class_for_None [of sz] by auto
  next
    case (Some p)
    obtain fl c b where g: "grant_of s rq p = (fl, c, b)" by (cases "grant_of s rq p")
    have fl: "fl = s_slab_headerless s" "c = the (slab_class_for sz)"
      using g assms(6,7) by (auto simp: grant_of_def split: if_splits)
    obtain d where d: "slab_class_for sz = Some d" using A(3) Some by auto
    have cd: "slab_class_for sz = Some c" using d fl(2) by simp
    have sz: "unat sz \<le> unat (class_stride c)"
      using slab_class_le_iff [OF cd slab_class_bound [OF cd]] class_stride_bounds [OF slab_class_bound [OF cd]]
      by (simp add: word_le_nat_alt)
    let ?app = "live_add app fl c b"
    have inv': "front_inv mapped T s' (hots(t := s_hot s')) ?app" using A(2) Some g by (simp add: app_grant_def)
    obtain live where sub: "\<And>fl c. ?app fl c + (\<Sum>u<T. mag_share s' ((hots(t := s_hot s')) u) fl c) \<subseteq># live fl c"
      and B: "\<And>fl c b. b \<in># live fl c \<Longrightarrow> count (live fl c) b = 1"
      and D: "\<And>fl c b fl' c' b'. b \<in># live fl c \<Longrightarrow> b' \<in># live fl' c' \<Longrightarrow> (fl, c, b) \<noteq> (fl', c', b') \<Longrightarrow> block_span c b \<inter> block_span c' b' = {}"
      by (rule front_blocks [OF inv']) blast
    note H = front_held [OF sub]
    have m: "b \<in># ?app fl c" by (simp add: live_add_def)
    have "block_span c b \<inter> block_span c' b' = {}" if b': "b' \<in># app fl' c'" for fl' c' b'
    proof (rule D [OF H(1) [OF m] H(1)])
      show "b' \<in># ?app fl' c'" using b' by (auto simp: live_add_def)
      show "(fl, c, b) \<noteq> (fl', c', b')"
      proof
        assume "(fl, c, b) = (fl', c', b')"
        then have "b \<in># app fl c" using b' by simp
        then show False using H(2) [OF m] B [OF H(1) [OF m]] by (auto simp: live_add_def count_eq_zero_iff)
      qed
    qed
    then show ?thesis using A(1) Some g fl(1) sz by auto
  qed
qed

text \<open>
  C3: In every reachable state the free of a held header-free block returns, and the last-segment cache of the fast
  lane is transparent: when the lane takes the free it leaves the state that the registry dispatch would leave, and when
  it declines the dispatch finds the block's class.
\<close>
theorem slab_lane_is_dispatch:
  assumes "lo_kernel_ok env mapped" and "i0 \<noteq> 0"
    and "front_from env mapped T (lohalloc_new os i0 st nodes bnodes bytes) (s, hots, app)"
    and "t < T" and "unat (s_next_id s) + 3 < 2 ^ 64" and "p \<in># app True c"
  shows "(\<exists>s'. dealloc env locked p (as_thread hots t s) = Some s')
    \<and> (case slab_fast_dealloc p (as_thread hots t s) of
         (True, s') \<Rightarrow> Some s' = free_as env locked p (classify env p (as_thread hots t s)) (as_thread hots t s)
       | (False, s') \<Rightarrow> classify env p s' = FSlab c)"
proof -
  note inv = front_from_inv [OF assms(1-3)]
  let ?s = "as_thread hots t s"
  obtain live where L: "local_inv mapped ?s (\<lambda>fl c. app fl c + others T s hots t fl c) live"
    using front_local [OF inv assms(4)] by blast
  have "p \<in># app True c + others T s hots t True c" using assms(6) by simp
  note K = local_inv_lookup [OF L, of p c, OF this]
  have hl: "s_slab_headerless s" using front_invD(2) [OF inv, of c] assms(6) by (metis empty_iff set_mset_empty)
  have seg: "seg_ok ?s (s_hot ?s)" using front_invD(1) [OF inv assms(4)] by simp
  have cl: "classify env p ?s = FSlab c" by (rule lookup_class(2) [OF _ K(1,3)]) (simp add: hl)
  obtain ok s' where f: "slab_fast_dealloc p ?s = (ok, s')" by force
  obtain owner s1 where o: "magazine_owner ?s = (owner, s1)" by force
  have s1: "s_segments s1 = s_segments ?s" "s_slab_headerless s1 = s_slab_headerless ?s"
    using o by (auto simp: magazine_owner_def Let_def split: if_splits)
  have "if ok then s' = slab_dealloc_headerless_front env p c ?s else classify env p s' = FSlab c"
  proof (cases ok)
    case True
    then show ?thesis using fast_dealloc_classic [OF seg K(3,1), of s' env] f by simp
  next
    case False
    then have "s' = s1" using fast_dealloc_cases [OF f o] by simp
    then show ?thesis using False lookup_class(2) [of s1 c p env] K s1 hl by simp
  qed
  then show ?thesis using step_free [OF assms(1) inv assms(4-6), of locked] f cl by (auto split: bool.splits)
qed

section \<open>A run\<close>

text \<open>One thread on the kernel above: the instance is latched and serves one block of the largest class.\<close>

definition demo_lo_env :: "bump lo_env" where
  "demo_lo_env = \<lparr>le_arena = arena_demo_env, le_munmap = bump_munmap, le_mask = 0, le_owner_free = True,
     le_scan_gate = True, le_train_headerless = True, le_fast_lane = True, le_sc_shortcut = False, le_servable = False\<rparr>"

definition demo_instance :: "bump sys" where
  "demo_instance = lohalloc_new (0x10000, []) 1 0 (\<lambda>_. None) (\<lambda>_. \<lparr>fn_prev = 0, fn_next = 0\<rparr>) (\<lambda>_. 0)"

definition demo_slab_request :: request where
  "demo_slab_request = \<lparr>rq_total = 16000 + 48, rq_align = 16, rq_pad = 48, rq_hash = 0, rq_hint = 0, rq_ctx = 0\<rparr>"

lemma demo_lo_kernel: "lo_kernel_ok demo_lo_env bump_mapped"
  using bump_pages_ok by (auto simp: lo_kernel_ok_def demo_lo_env_def arena_demo_env_def bump_munmap_def bump_mapped_def)

lemma demo_hl_batch:
  "map_option (\<lambda>(bs, w). (bs, seg_lookup (w_reg w) 0x10000))
     (slab_alloc_batch_headerless (bump_env\<lparr>env_register := seg_register 0 11\<rparr>) 11 2 bump_world)
     = Some ([0x10000, 0x14000], Some 11)"
  by code_simp

text \<open>What the slab's paths leave alone in the instance.\<close>

definition demo_frame :: "bump sys \<Rightarrow> bump sys \<Rightarrow> bool" where
  "demo_frame s s' \<longleftrightarrow> s_slab_headerless s' = s_slab_headerless s \<and> s_train_init s' = s_train_init s \<and> s_fast_lane s' = s_fast_lane s
     \<and> s_table s' = s_table s \<and> s_magazine_id s' = s_magazine_id s \<and> s_next_id s' = s_next_id s
     \<and> in_alloc (s_hot s') = in_alloc (s_hot s)"

lemma demo_frame_put: "s_train_init (put_slab i w s) = s_train_init s" "s_table (put_slab i w s) = s_table s"
  by (simp_all add: put_slab_def set_os_def)

text \<open>The first header-free request of a thread finds its magazine and the slab's free lists empty.\<close>

lemma demo_fresh:
  "s_slab demo_instance = (\<lambda>_. slab_new)" "s_nodes demo_instance = (\<lambda>_. None)"
  "s_os demo_instance = (0x10000, [])" "s_segments demo_instance = segment_registry_new" "s_next_id demo_instance = 1"
  by (simp_all add: demo_instance_def lohalloc_new_def arena_world_new_def)

lemma demo_latched:
  "s_slab (latch_headerless demo_instance) = (\<lambda>_. slab_new)" "s_nodes (latch_headerless demo_instance) = (\<lambda>_. None)"
  "s_os (latch_headerless demo_instance) = (0x10000, [])" "s_segments (latch_headerless demo_instance) = segment_registry_new"
  "s_slab_headerless (latch_headerless demo_instance)" "s_magazine_id (latch_headerless demo_instance) = 1"
  "s_next_id (latch_headerless demo_instance) = 2"
  using latch_frame [of demo_instance] by (simp_all add: demo_fresh)

text \<open>A header-free request of the largest class when the magazine and the slab are empty.\<close>

lemma demo_refill:
  assumes fresh: "s_slab s = (\<lambda>_. slab_new)" "s_nodes s = (\<lambda>_. None)" "s_os s = (0x10000, [])" "s_segments s = segment_registry_new"
    and hot: "s_magazine_id s = 1" "mag_owner (s_hot s) \<noteq> 1" "thread_stripe (s_hot s) = - 1"
  shows "\<exists>s'. slab_magazine_or_batch demo_lo_env busy True 16000 s = Some (Some 0x10000, s')
    \<and> demo_frame s s' \<and> seg_lookup (s_segments s') 0x10000 = Some 11
    \<and> mag_owner (s_hot s') = 1 \<and> mag_counts (s_hot s') 11 = 1 \<and> mag_slots (s_hot s') 11 0 = 0x14000"
proof -
  obtain w where b: "slab_alloc_batch_headerless (bump_env\<lparr>env_register := seg_register 0 11\<rparr>) 11 2 bump_world = Some ([0x10000, 0x14000], w)"
    and look: "seg_lookup (w_reg w) 0x10000 = Some 11"
    using demo_hl_batch by (auto simp: map_option_case split: option.splits)
  have "bit_len 15999 = Suc 13" by (rule bit_len_eqI) simp_all
  then have cls: "slab_class_for 16000 = Some 11" by (simp add: slab_class_for_bit_len)
  have world: "slab_world_of 0 u = bump_world" if "s_slab u 0 = slab_new" "s_nodes u = (\<lambda>_. None)" "s_os u = (0x10000, [])"
    "s_segments u = segment_registry_new" for u :: "bump sys"
    using that by (simp add: slab_world_of_def bump_world_def)
  have env: "slab_env_of demo_lo_env 0 11 = bump_env\<lparr>env_register := seg_register 0 11\<rparr>"
    by (simp add: slab_env_of_def demo_lo_env_def arena_demo_env_def bump_env_def)
  let ?h = "(s_hot s)\<lparr>mag_counts := (\<lambda>_. 0), mag_owner := 1\<rparr>"
  let ?s1 = "s\<lparr>s_hot := ?h\<rparr>"
  let ?P = "\<lambda>u. demo_frame s u \<and> seg_lookup (s_segments u) 0x10000 = Some 11 \<and> mag_owner (s_hot u) = 1 \<and> mag_counts (s_hot u) = (\<lambda>_. 0)"
  have carve: "\<exists>u'. central_carve demo_lo_env 11 2 True 0 u = Some ([0x10000, 0x14000], u') \<and> ?P u'"
    if "s_slab u 0 = slab_new" "s_nodes u = (\<lambda>_. None)" "s_os u = (0x10000, [])" "s_segments u = segment_registry_new"
      "demo_frame s u" "mag_owner (s_hot u) = 1" "mag_counts (s_hot u) = (\<lambda>_. 0)" for u
    using b look world [OF that(1-4)] that(5-) by (simp add: central_carve_def env demo_frame_put demo_frame_def)
  have rec: "slab_alloc_batch_recycled 11 2 True bump_world = ([], bump_world)"
    by (simp add: slab_alloc_batch_recycled_def bump_world_def slab_new_def tiers_new_def eval_nat_numeral
        pop_recycled_def pop_untouched_def pop_intrusive_def)
  have own: "magazine_owner s = (1, s)" by (simp add: magazine_owner_def hot)
  have pop: "mag_pop (s_hot s) 1 11 = (None, ?h)" using hot(2) by (simp add: mag_pop_def mag_ensure_owner_def)
  obtain s2 where ts: "thread_stripe_of demo_lo_env ?s1 = (0, s2)"
    and f2: "s_slab s2 0 = slab_new" "s_nodes s2 = (\<lambda>_. None)" "s_os s2 = (0x10000, [])" "s_segments s2 = segment_registry_new"
      "demo_frame s s2" "mag_owner (s_hot s2) = 1" "mag_counts (s_hot s2) = (\<lambda>_. 0)"
    by (rule that [of "?s1\<lparr>s_next_stripe := s_next_stripe ?s1 + 1, s_hot := (s_hot ?s1)\<lparr>thread_stripe := 0\<rparr>\<rparr>"])
      (simp_all add: thread_stripe_of_def demo_lo_env_def Let_def fresh hot demo_frame_def)
  have len: "min (mag_refill_count 11) 16 = 2" by (simp add: mag_refill_count_def CLASS_CAPS_def)
  have "\<exists>u'. slab_batch_recycled_first demo_lo_env busy 11 2 True ?s1 = Some ([0x10000, 0x14000], u') \<and> ?P u'"
  proof (cases "le_scan_gate demo_lo_env \<and> slab_scan_miss_epoch (s_hot s2) 11 = s_gain s2 11")
    case True
    then have g: "(le_scan_gate demo_lo_env \<and> slab_scan_miss_epoch (s_hot s2) 11 = s_gain s2 11) = True" by blast
    show ?thesis
      unfolding slab_batch_recycled_first_def ts Let_def prod.case g if_True by (rule carve [OF f2])
  next
    case False
    then have g: "(le_scan_gate demo_lo_env \<and> slab_scan_miss_epoch (s_hot s2) 11 = s_gain s2 11) = False" by blast
    obtain s4 where s4: "s4 = (put_slab 0 bump_world s2)\<lparr>s_hot := (s_hot (put_slab 0 bump_world s2))\<lparr>slab_scan_miss_epoch :=
        (slab_scan_miss_epoch (s_hot (put_slab 0 bump_world s2)))(11 := s_gain s2 11)\<rparr>\<rparr>" by blast
    have f4: "s_slab s4 0 = slab_new" "s_nodes s4 = (\<lambda>_. None)" "s_os s4 = (0x10000, [])" "s_segments s4 = segment_registry_new"
      "demo_frame s s4" "mag_owner (s_hot s4) = 1" "mag_counts (s_hot s4) = (\<lambda>_. 0)"
      using f2(5-) by (simp_all add: s4 bump_world_def demo_frame_put demo_frame_def)
    have ks: "[1 ..< unat (le_mask demo_lo_env) + 1] = []" by (simp add: demo_lo_env_def)
    show ?thesis
      unfolding slab_batch_recycled_first_def ts Let_def prod.case g if_False world [OF f2(1-4)] rec ks sibling_scan.simps
      using carve [OF f4] unfolding s4 by simp
  qed
  then obtain u' where B: "slab_batch_recycled_first demo_lo_env busy 11 2 True ?s1 = Some ([0x10000, 0x14000], u')" and u': "?P u'"
    by (elim exE) (erule conjE, rule that)
  have "slab_magazine_or_batch demo_lo_env busy True 16000 s = Some (Some 0x10000, u'\<lparr>s_hot := mag_push_all 1 11 [0x14000] (s_hot u')\<rparr>)"
    by (simp only: slab_magazine_or_batch_def cls option.case own Let_def prod.case pop len B Option.bind.simps list.case)
  then show ?thesis using u' by (simp add: mag_push_def mag_ensure_owner_def CLASS_CAPS_def demo_frame_def Let_def)
qed

lemma demo_serve:
  "\<exists>s'. slab_arm demo_lo_env busy demo_slab_request (as_thread (\<lambda>_. HOT) 0 (latch_headerless demo_instance)) = Some (Some 0x10000, s')
    \<and> s_next_id s' = 2 \<and> s_slab_headerless s'"
proof -
  let ?s = "as_thread (\<lambda>_. HOT) 0 (latch_headerless demo_instance)"
  obtain s' where s': "slab_magazine_or_batch demo_lo_env busy True 16000 ?s = Some (Some 0x10000, s')" "demo_frame ?s s'"
    using demo_refill [of ?s busy] by (auto simp: as_thread_def demo_latched HOT_def)
  have "rq_total demo_slab_request - rq_pad demo_slab_request = 16000" "rq_align demo_slab_request \<le> MIN_ALIGN"
    by (simp_all add: demo_slab_request_def MIN_ALIGN_def)
  then show ?thesis using s'
    by (simp add: slab_arm_def slab_block_headerless_via_magazine_def demo_latched as_thread_def demo_frame_def)
qed

lemma demo_front:
  "\<exists>s hots. front_from demo_lo_env bump_mapped 1 demo_instance (s, hots, live_add (\<lambda>_ _. {#}) True 11 0x10000) \<and> s_next_id s = 2
     \<and> s_slab_headerless s"
proof -
  let ?s1 = "latch_headerless demo_instance" and ?e = "\<lambda>_ _. {#} :: usize multiset"
  obtain s2 where a: "slab_arm demo_lo_env (\<lambda>_. False) demo_slab_request (as_thread (\<lambda>_. HOT) 0 ?s1) = Some (Some 0x10000, s2)"
    "s_next_id s2 = 2" "s_slab_headerless s2" using demo_serve by blast
  have "bit_len 15999 = Suc 13" by (rule bit_len_eqI) simp_all
  then have g: "grant_of ?s1 demo_slab_request 0x10000 = (True, 11, 0x10000)"
    by (simp add: grant_of_def demo_latched demo_slab_request_def MIN_ALIGN_def slab_class_for_bit_len)
  have "front_step demo_lo_env bump_mapped 1 (demo_instance, \<lambda>_. HOT, ?e) (?s1, \<lambda>_. HOT, ?e)"
    by (rule front_step.latch) (simp add: demo_fresh)
  moreover have "front_step demo_lo_env bump_mapped 1 (?s1, \<lambda>_. HOT, ?e)
      (s2, (\<lambda>_. HOT)(0 := s_hot s2), app_grant ?e (grant_of ?s1 demo_slab_request 0x10000))"
    by (rule front_step.serve [OF _ _ _ a(1)]) (simp_all add: demo_latched demo_slab_request_def MIN_ALIGN_def)
  ultimately have r: "front_from demo_lo_env bump_mapped 1 demo_instance (s2, (\<lambda>_. HOT)(0 := s_hot s2), live_add ?e True 11 0x10000)"
    unfolding g app_grant_def prod.case by (rule front_reach.more [OF front_reach.more [OF front_reach.start]])
  then show ?thesis using a(2,3) by blast
qed

lemma demo_front_new: "front_from demo_lo_env bump_mapped 1 demo_instance x \<Longrightarrow>
    front_from demo_lo_env bump_mapped 1 (lohalloc_new (0x10000, []) 1 0 (\<lambda>_. None) (\<lambda>_. \<lparr>fn_prev = 0, fn_next = 0\<rparr>) (\<lambda>_. 0)) x"
  by (simp only: demo_instance_def)

lemma slab_threads_live_disjoint_witness:
  "\<exists>s hots app. front_from demo_lo_env bump_mapped 1 demo_instance (s, hots, app) \<and> 0x10000 \<in># app True 11
     \<and> headerless_class_for 0x10000 s = Some 11"
proof -
  obtain s hots where r: "front_from demo_lo_env bump_mapped 1 demo_instance (s, hots, live_add (\<lambda>_ _. {#}) True 11 0x10000)"
    using demo_front by blast
  have m: "0x10000 \<in># live_add (\<lambda>_ _. {#}) True 11 0x10000 True 11" by (simp add: live_add_def)
  have "headerless_class_for 0x10000 s = Some 11"
    using slab_threads_live_disjoint [OF demo_lo_kernel one_neq_zero demo_front_new [OF r], THEN conjunct1, rule_format, OF m] by simp
  then show ?thesis using r m by (intro exI conjI)
qed

lemma slab_threads_alloc_returns_witness:
  "\<exists>s hots app. front_from demo_lo_env bump_mapped 1 demo_instance (s, hots, app) \<and> 0x10000 \<in># app True 11
     \<and> (\<exists>r s'. slab_arm demo_lo_env (\<lambda>_. True) demo_slab_request (as_thread hots 0 s) = Some (r, s'))"
proof -
  obtain s hots where r: "front_from demo_lo_env bump_mapped 1 demo_instance (s, hots, live_add (\<lambda>_ _. {#}) True 11 0x10000)"
    and s: "s_next_id s = 2" "s_slab_headerless s" using demo_front by blast
  have m: "0x10000 \<in># live_add (\<lambda>_ _. {#}) True 11 0x10000 True 11" by (simp add: live_add_def)
  have h: "(0 :: nat) < 1" "unat (s_next_id s) + 3 < 2 ^ 64" "s_slab_headerless s \<longrightarrow> rq_align demo_slab_request \<le> MIN_ALIGN"
    by (simp_all add: s demo_slab_request_def MIN_ALIGN_def)
  obtain r' s' where "slab_arm demo_lo_env (\<lambda>_. True) demo_slab_request (as_thread hots 0 s) = Some (r', s')"
    using slab_threads_alloc_returns [OF demo_lo_kernel one_neq_zero demo_front_new [OF r] h refl, of "\<lambda>_. True"] by (elim exE conjE)
  then show ?thesis using r m by (intro exI conjI)
qed

lemma slab_lane_is_dispatch_witness:
  "\<exists>s hots app. front_from demo_lo_env bump_mapped 1 demo_instance (s, hots, app) \<and> 0x10000 \<in># app True 11
     \<and> (\<exists>s'. dealloc demo_lo_env False 0x10000 (as_thread hots 0 s) = Some s')"
proof -
  obtain s hots where r: "front_from demo_lo_env bump_mapped 1 demo_instance (s, hots, live_add (\<lambda>_ _. {#}) True 11 0x10000)"
    and s: "s_next_id s = 2" using demo_front by blast
  have m: "0x10000 \<in># live_add (\<lambda>_ _. {#}) True 11 0x10000 True 11" by (simp add: live_add_def)
  obtain s' where "dealloc demo_lo_env False 0x10000 (as_thread hots 0 s) = Some s'"
    by (rule slab_lane_is_dispatch [OF demo_lo_kernel one_neq_zero demo_front_new [OF r] _ _ m, THEN conjunct1, THEN exE])
      (simp_all add: s)
  then show ?thesis using r m by (intro exI conjI)
qed

end
