(* ===== verification/OverAligned.thy ===== *)
theory OverAligned
  imports SlabThreadsSafety
begin

text \<open>
  Over-aligned requests on an instance that serves header-free blocks (\<open>lib.rs\<close>). Such a request takes the header path
  of the slab arm, which pops the magazine that now holds header-free blocks. Its block lies in a registered segment,
  so the free finds the class from the address and takes the pointer behind the header for the start of a
  block. A run of the entry points shows that the instance then serves memory that is in use.
\<close>

section \<open>The entry point in training\<close>

text \<open>The state in which a training instance reaches the arm: latched, with the depth raised and the event pushed.\<close>

definition latched :: "'os lo_env \<Rightarrow> 'os sys \<Rightarrow> 'os sys" where
  "latched env s = (if s_train_init s then s else latch_train_headerless_once env s)"

definition entered :: "'os lo_env \<Rightarrow> usize \<Rightarrow> 'os sys \<Rightarrow> 'os sys" where
  "entered env sz s =
     (let u = latched env (s\<lparr>s_hot := in_alloc_set (s_hot s) 1\<rparr>)
      in if s_ahr_on u then u\<lparr>s_hot := snd (ahr_ctx_and_push_alloc (s_hot u) (size_class_for sz))\<rparr> else u)"

definition left :: "'os sys \<Rightarrow> 'os sys" where "left s = s\<lparr>s_hot := in_alloc_set (s_hot s) 0\<rparr>"

lemma record_untouched_hot:
  "s_hot (snd (record_untouched js s)) = s_hot s \<and> s_table (snd (record_untouched js s)) = s_table s
     \<and> s_train_init (snd (record_untouched js s)) = s_train_init s"
  by (induction js arbitrary: s) simp_all

lemma latch_hot:
  "s_hot (latch_headerless s) = s_hot s \<and> s_table (latch_headerless s) = s_table s
     \<and> s_train_init (latch_headerless s) = s_train_init s"
proof -
  let ?s = "invalidate_magazines (s\<lparr>s_slab_headerless := True\<rparr>)"
  obtain b s' where r: "record_untouched [0 ..< unat MAX_STRIPES] ?s = (b, s')" by force
  show ?thesis using record_untouched_hot [of "[0 ..< unat MAX_STRIPES]" ?s]
    unfolding latch_headerless_def Let_def r prod.case by (simp add: invalidate_magazines_def)
qed

lemma latched_table: "s_table (latched env s) = s_table s"
  by (simp add: latched_def latch_train_headerless_once_def Let_def latch_hot)

lemma inner_via_slab:
  assumes "s_table s = None" "sz + header_pad align \<le> SLAB_MAX"
    and arm: "\<And>hint ctx. \<exists>s'. slab_arm env busy (request_of sz align hash hint ctx) (entered env sz s) = Some (Some p, s') \<and> P s'"
  shows "\<exists>s'. route_alloc_inner env busy locked (\<lambda>_. Some Slab) hash sz align (s\<lparr>s_hot := in_alloc_set (s_hot s) 1\<rparr>)
    = Some (Some p, s') \<and> P s'"
proof -
  let ?u = "latched env (s\<lparr>s_hot := in_alloc_set (s_hot s) 1\<rparr>)"
  obtain raw h where a: "ahr_ctx_and_push_alloc (s_hot ?u) (size_class_for sz) = (raw, h)" by force
  define c where "c = (if s_ahr_on ?u then ahr_shallow raw else CTX_UNTRACKED)"
  obtain s' where s': "slab_arm env busy (request_of sz align hash (size_class_for sz) c) (entered env sz s) = Some (Some p, s')" "P s'"
    using arm by blast
  have t: "s_table ?u = None" using assms(1) by (simp add: latched_table)
  have e: "entered env sz s = (if s_ahr_on ?u then ?u\<lparr>s_hot := h\<rparr> else ?u)" using a by (simp add: entered_def Let_def)
  have "serve_or_fall env busy locked Slab (request_of sz align hash (size_class_for sz) c) (entered env sz s) = Some (Some p, s')"
    using s'(1) assms(2) by (simp add: serve_or_fall_def try_backend_def request_of_def)
  then have "route_alloc_inner env busy locked (\<lambda>_. Some Slab) hash sz align (s\<lparr>s_hot := in_alloc_set (s_hot s) 1\<rparr>)
      = Some (Some p, s')"
    unfolding route_alloc_inner_def Let_def latched_def [symmetric] a e c_def using t by (cases "s_ahr_on ?u") simp_all
  then show ?thesis using s'(2) by blast
qed

lemma alloc_via_slab:
  assumes "s_table s = None" "\<not> s_fast_lane s" "in_alloc (s_hot s) = 0"
    and "1 \<le> sz" "MIN_ALIGN \<le> align" "sz + header_pad align \<le> SLAB_MAX"
    and arm: "\<And>hash hint ctx. \<exists>s'. slab_arm env busy (request_of sz align hash hint ctx) (entered env sz s) = Some (Some p, s') \<and> P s'"
  shows "\<exists>s'. alloc env busy locked (\<lambda>_. Some Slab) site sz align s = Some (Some p, left s') \<and> P s'"
proof -
  let ?s = "s\<lparr>s_hot := in_alloc_set (s_hot s) 1\<rparr>"
  have r: "\<exists>hash. route_alloc env busy locked (\<lambda>_. Some Slab) site sz align ?s
      = route_alloc_inner env busy locked (\<lambda>_. Some Slab) hash sz align ?s"
    using assms(1) by (cases "cs_leaf site") (auto simp: route_alloc_def)
  then obtain s' where s': "route_alloc env busy locked (\<lambda>_. Some Slab) site sz align ?s = Some (Some p, s')" "P s'"
    using inner_via_slab [OF assms(1,6) arm] by metis
  have m: "max sz 1 = sz" "max align MIN_ALIGN = align" using assms(4,5) by (simp_all add: max_absorb1)
  have "alloc env busy locked (\<lambda>_. Some Slab) site sz align s = Some (Some p, left s')"
    using assms(2,3) s'(1) by (simp add: alloc_def Let_def m guarded_def in_alloc_get_def left_def)
  then show ?thesis using s'(2) by blast
qed

section \<open>A run\<close>

text \<open>
  The instance with the magazine row of the largest class empty or holding one block, and the first segment registered for
  that class.
\<close>

definition stocked :: "bump sys \<Rightarrow> usize option \<Rightarrow> bool" where
  "stocked s stack \<longleftrightarrow> s_train_init s \<and> s_slab_headerless s \<and> \<not> s_fast_lane s \<and> s_table s = None \<and> s_magazine_id s = 1
     \<and> in_alloc (s_hot s) = 0 \<and> mag_owner (s_hot s) = 1 \<and> seg_lookup (s_segments s) 0x10000 = Some 11
     \<and> (case stack of None \<Rightarrow> mag_counts (s_hot s) 11 = 0
        | Some b \<Rightarrow> mag_counts (s_hot s) 11 = 1 \<and> mag_slots (s_hot s) 11 0 = unat b)"

lemma entered_stocked:
  assumes "s_train_init s"
  shows "entered env sz s = s\<lparr>s_hot := s_hot (entered env sz s)\<rparr>"
    and "mag_owner (s_hot (entered env sz s)) = mag_owner (s_hot s) \<and> mag_counts (s_hot (entered env sz s)) = mag_counts (s_hot s)
      \<and> mag_slots (s_hot (entered env sz s)) = mag_slots (s_hot s)"
  using assms by (simp_all add: entered_def latched_def Let_def ahr_ctx_and_push_alloc_def in_alloc_set_def)

text \<open>Every pop of the row, with or without a header.\<close>

lemma stocked_pop:
  assumes "stocked s (Some b)" "slab_class_for n = Some 11"
  shows "\<exists>s'. slab_magazine_or_batch env busy fl n (entered env sz s) = Some (Some b, s') \<and> stocked (left s') None"
proof -
  have t: "s_train_init s" using assms(1) by (simp add: stocked_def)
  obtain h where e: "entered env sz s = s\<lparr>s_hot := h\<rparr>" and h: "mag_owner h = mag_owner (s_hot s)"
    "mag_counts h = mag_counts (s_hot s)" "mag_slots h = mag_slots (s_hot s)"
    using entered_stocked [OF t, of env sz] by metis
  have o: "magazine_owner (s\<lparr>s_hot := h\<rparr>) = (1, s\<lparr>s_hot := h\<rparr>)" using assms(1) by (simp add: magazine_owner_def stocked_def)
  have p: "mag_pop h 1 11 = (Some (unat b), h\<lparr>mag_counts := (mag_counts h)(11 := 0)\<rparr>)"
    using assms(1) h by (simp add: mag_pop_def mag_ensure_owner_def stocked_def Let_def)
  show ?thesis
    using assms(1) h by (simp add: slab_magazine_or_batch_def assms(2) e o p stocked_def left_def in_alloc_set_def)
qed

lemma largest_class: "8192 < unat n \<Longrightarrow> unat n \<le> 16384 \<Longrightarrow> slab_class_for n = Some 11"
proof -
  assume n: "8192 < unat n" "unat n \<le> 16384"
  have "bit_len (unat n - 1) = Suc 13" by (rule bit_len_eqI) (use n in simp_all)
  moreover have "max (max (unat n) 1 - 1) 7 = unat n - 1" using n(1) by simp
  ultimately show ?thesis using slab_class_for_bit_len [OF n(2)] by simp
qed

lemma pads: "header_pad 16 = 48" "header_pad 4096 = 4096" "SLAB_MAX = 16384" "MIN_ALIGN = 16"
  by (simp_all add: header_pad_def align_up_def HEADER_SIZE_def SLAB_MAX_def MIN_ALIGN_def)

lemma stocked_serve:
  assumes "stocked s (Some b)"
  shows "\<exists>s'. alloc env busy locked (\<lambda>_. Some Slab) site 16000 16 s = Some (Some b, s') \<and> stocked s' None"
proof -
  have t: "s_train_init s" "s_slab_headerless s" "s_table s = None" "\<not> s_fast_lane s" "in_alloc (s_hot s) = 0"
    using assms by (simp_all add: stocked_def)
  obtain h where e: "entered env 16000 s = s\<lparr>s_hot := h\<rparr>" using entered_stocked(1) [OF t(1)] by metis
  have "\<exists>s'. slab_arm env busy (request_of 16000 16 hash hint ctx) (entered env 16000 s) = Some (Some b, s') \<and> stocked (left s') None"
    for hash hint ctx
    using stocked_pop [OF assms largest_class, of 16000 env busy True 16000] t(2)
    by (simp add: slab_arm_def request_of_def pads slab_block_headerless_via_magazine_def e)
  from alloc_via_slab [OF t(3-5) _ _ _ this] show ?thesis by (auto simp: pads)
qed

lemma stocked_over_aligned:
  assumes "stocked s (Some b)"
  shows "\<exists>s'. alloc env busy locked (\<lambda>_. Some Slab) site 12000 4096 s = Some (Some (b + 4096), s') \<and> stocked s' None"
proof -
  have t: "s_train_init s" "s_slab_headerless s" "s_table s = None" "\<not> s_fast_lane s" "in_alloc (s_hot s) = 0"
    using assms by (simp_all add: stocked_def)
  obtain u where u: "slab_magazine_or_batch env busy False 16096 (entered env 12000 s) = Some (Some b, u)" "stocked (left u) None"
    using stocked_pop [OF assms largest_class, of 16096 env busy False 12000] by auto
  have "\<exists>s'. slab_arm env busy (request_of 12000 4096 hash hint ctx) (entered env 12000 s) = Some (Some (b + 4096), s') \<and> stocked (left s') None"
    for hash hint ctx
    using u by (simp add: slab_arm_def request_of_def pads slab_block_via_magazine_def with_header_def write_header_def
        stocked_def left_def Let_def)
  from alloc_via_slab [OF t(3-5) _ _ _ this] show ?thesis by (auto simp: pads)
qed

lemma stocked_free:
  assumes "stocked s None" "p AND NOT (SEGMENT_SIZE - 1) = 0x10000" "p \<noteq> 0"
  shows "\<exists>s'. dealloc env locked p s = Some s' \<and> stocked s' (Some p)"
proof -
  let ?s = "if s_ahr_on s then s\<lparr>s_hot := ahr_push_dealloc (s_hot s)\<rparr> else s"
  have s: "stocked ?s None" using assms(1) by (simp add: stocked_def ahr_push_dealloc_def)
  have k: "classify env p ?s = FSlab 11" using s assms(2) by (simp add: classify_def headerless_class_for_def stocked_def)
  have "stocked (slab_dealloc_headerless_front env p 11 ?s) (Some p)"
    using s by (simp add: slab_dealloc_headerless_front_def magazine_owner_def stocked_def mag_push_def mag_ensure_owner_def
        CLASS_CAPS_def Let_def)
  then show ?thesis using s assms(3) k by (simp add: dealloc_def Let_def seg_cache_fill_def stocked_def)
qed

lemma stocked_first:
  "\<exists>s'. alloc demo_lo_env busy locked (\<lambda>_. Some Slab) site 16000 16 demo_instance = Some (Some 0x10000, s') \<and> stocked s' (Some 0x14000)"
proof -
  let ?start = "demo_instance\<lparr>s_hot := in_alloc_set (s_hot demo_instance) 1, s_train_init := True\<rparr>"
  let ?s = "entered demo_lo_env 16000 demo_instance"
  have t: "s_table demo_instance = None" "\<not> s_fast_lane demo_instance" "in_alloc (s_hot demo_instance) = 0"
    "\<not> s_train_init demo_instance" "\<not> s_frozen demo_instance" "s_hot demo_instance = HOT"
    by (simp_all add: demo_instance_def lohalloc_new_def HOT_def)
  have l: "latched demo_lo_env (demo_instance\<lparr>s_hot := in_alloc_set (s_hot demo_instance) 1\<rparr>) = latch_headerless ?start"
    using t by (simp add: latched_def latch_train_headerless_once_def demo_lo_env_def Let_def)
  define h where "h = s_hot ?s"
  have h0: "s_hot (latch_headerless ?start) = HOT\<lparr>in_alloc := 1\<rparr>" by (simp add: latch_hot t in_alloc_set_def)
  have "?s = (latch_headerless ?start)\<lparr>s_hot := h\<rparr>" and "h = HOT\<lparr>in_alloc := 1\<rparr> \<or> h = snd (ahr_ctx_and_push_alloc (HOT\<lparr>in_alloc := 1\<rparr>) (size_class_for 16000))"
    unfolding h_def entered_def Let_def l h0 by (auto simp: h0)
  then have e: "?s = (latch_headerless ?start)\<lparr>s_hot := h\<rparr>"
    and h: "mag_owner h = 0" "thread_stripe h = - 1" "in_alloc h = 1"
    by (auto simp: ahr_ctx_and_push_alloc_def Let_def) (auto simp: HOT_def)
  obtain u where u: "slab_magazine_or_batch demo_lo_env busy True 16000 ?s = Some (Some 0x10000, u)" "demo_frame ?s u"
    "seg_lookup (s_segments u) 0x10000 = Some 11" "mag_owner (s_hot u) = 1" "mag_counts (s_hot u) 11 = 1" "mag_slots (s_hot u) 11 0 = 0x14000"
    using demo_refill [of ?s busy] by (auto simp: e h latch_frame demo_fresh)
  have c: "s_slab_headerless ?s" "s_train_init ?s" "\<not> s_fast_lane ?s" "s_table ?s = None" "s_magazine_id ?s = 1"
    by (simp_all add: e latch_frame latch_hot t demo_fresh)
  have "stocked (left u) (Some 0x14000)"
    using u(2-) c by (simp add: stocked_def left_def demo_frame_def in_alloc_set_def)
  then have "\<exists>s'. slab_arm demo_lo_env busy (request_of 16000 16 hash hint ctx) ?s = Some (Some 0x10000, s') \<and> stocked (left s') (Some 0x14000)"
    for hash hint ctx
    using u(1) c(1) by (simp add: slab_arm_def request_of_def pads slab_block_headerless_via_magazine_def)
  from alloc_via_slab [OF t(1-3) _ _ _ this] show ?thesis by (auto simp: pads)
qed

text \<open>
  C4: An over-aligned request makes an instance in training serve memory that is in use, whoever holds the locks and
  wherever the requests come from. Two blocks of 16000 bytes are served and the first is freed; a request of 12000 bytes
  aligned to 4096 is served in its place, behind a header, and freed; the next request of 16000
  bytes gets the address of the freed pointer, inside the first block, and its bytes overlap the second block,
  which is still held.
\<close>
theorem overaligned_free_corrupts:
  "\<exists>s1 s2 s3 s4 s5 s6.
     alloc demo_lo_env busy locked (\<lambda>_. Some Slab) site 16000 16 demo_instance = Some (Some 0x10000, s1)
   \<and> alloc demo_lo_env busy locked (\<lambda>_. Some Slab) site 16000 16 s1 = Some (Some 0x14000, s2)
   \<and> dealloc demo_lo_env locked 0x10000 s2 = Some s3
   \<and> alloc demo_lo_env busy locked (\<lambda>_. Some Slab) site 12000 4096 s3 = Some (Some 0x11000, s4)
   \<and> dealloc demo_lo_env locked 0x11000 s4 = Some s5
   \<and> alloc demo_lo_env busy locked (\<lambda>_. Some Slab) site 16000 16 s5 = Some (Some 0x11000, s6)
   \<and> {unat (0x11000 :: usize) ..< unat (0x11000 :: usize) + 16000} \<inter> {unat (0x14000 :: usize) ..< unat (0x14000 :: usize) + 16000} \<noteq> {}"
proof -
  have seg: "(0x10000 :: usize) AND NOT (SEGMENT_SIZE - 1) = 0x10000" "(0x11000 :: usize) AND NOT (SEGMENT_SIZE - 1) = 0x10000"
    by (simp_all add: SEGMENT_SIZE_def)
  obtain s1 where s1: "alloc demo_lo_env busy locked (\<lambda>_. Some Slab) site 16000 16 demo_instance = Some (Some 0x10000, s1)"
    "stocked s1 (Some 0x14000)" using stocked_first by blast
  obtain s2 where s2: "alloc demo_lo_env busy locked (\<lambda>_. Some Slab) site 16000 16 s1 = Some (Some 0x14000, s2)" "stocked s2 None"
    using stocked_serve [OF s1(2)] by blast
  obtain s3 where s3: "dealloc demo_lo_env locked 0x10000 s2 = Some s3" "stocked s3 (Some 0x10000)"
    using stocked_free [OF s2(2) seg(1), of demo_lo_env locked] by auto
  obtain s4 where s4: "alloc demo_lo_env busy locked (\<lambda>_. Some Slab) site 12000 4096 s3 = Some (Some 0x11000, s4)" "stocked s4 None"
    using stocked_over_aligned [OF s3(2), of demo_lo_env busy locked site] by auto
  obtain s5 where s5: "dealloc demo_lo_env locked 0x11000 s4 = Some s5" "stocked s5 (Some 0x11000)"
    using stocked_free [OF s4(2) seg(2), of demo_lo_env locked] by auto
  obtain s6 where s6: "alloc demo_lo_env busy locked (\<lambda>_. Some Slab) site 16000 16 s5 = Some (Some 0x11000, s6)"
    using stocked_serve [OF s5(2)] by blast
  have "(0x14000 :: nat) \<in> {0x11000 ..< 0x11000 + 16000} \<inter> {0x14000 ..< 0x14000 + 16000}" by simp
  then have "{unat (0x11000 :: usize) ..< unat (0x11000 :: usize) + 16000}
      \<inter> {unat (0x14000 :: usize) ..< unat (0x14000 :: usize) + 16000} \<noteq> {}" by auto
  then show ?thesis using s1(1) s2(1) s3(1) s4(1) s5(1) s6 by blast
qed

end
