(* ===== verification/SystemSafety.thy ===== *)
theory SystemSafety
  imports OverAligned
begin

text \<open>
  The system backend of an instance: blocks in mappings of their own, the header in front of each, the retention cache,
  and the dispatch that finds the mapping of a block again. One step is one request or one free of any thread.
\<close>

section \<open>The header survives in memory\<close>

lemma header_roundtrip:
  assumes "length (hdr_pad hdr) = 3" shows "header_of_bytes (header_bytes hdr) = hdr"
proof -
  obtain a b c where p: "hdr_pad hdr = [a, b, c]" using assms by (auto simp: numeral_3_eq_3 length_Suc_conv)
  have f: "from_le_bytes (to_le_bytes 8 w) = w" for w :: u64 by (rule from_to_le_bytes) simp
  show ?thesis
    by (rule header.equality) (simp_all add: header_of_bytes_def header_bytes_def p f nth_append)
qed

lemma read_write_bytes: "length bs < 2 ^ 64 \<Longrightarrow> read_bytes a (length bs) (write_bytes a bs m) = bs"
  by (rule nth_equalityI) (simp_all add: read_bytes_def write_bytes_def unat_of_nat take_bit_nat_eq_self_iff)

lemma length_header_bytes: "length (hdr_pad hdr) = 3 \<Longrightarrow> length (header_bytes hdr) = 48"
  by (simp add: header_bytes_def)

lemma read_written_header:
  assumes "length (hdr_pad hdr) = 3" and "write_header block pad hdr s = (p, s')"
  shows "p = block + pad" "read_header p s' = hdr" "s' = s\<lparr>s_bytes := s_bytes s'\<rparr>"
    and "s_bytes s' = write_bytes (p - HEADER_SIZE) (header_bytes hdr) (s_bytes s)"
  using assms read_write_bytes [of "header_bytes hdr" "p - HEADER_SIZE" "s_bytes s"] header_roundtrip [OF assms(1)]
  by (auto simp: write_header_def Let_def read_header_def length_header_bytes HEADER_SIZE_def)

lemma unat_numeral_48: "unat (48 :: usize) = 48" by simp

text \<open>A header is read from the 48 bytes below the pointer, and written there.\<close>

lemma read_header_cong:
  assumes "48 \<le> unat p" and "\<And>x. unat p - 48 \<le> unat x \<Longrightarrow> unat x < unat p \<Longrightarrow> s_bytes s' x = s_bytes s x"
  shows "read_header p s' = read_header p s"
proof -
  have "s_bytes s' (p - 48 + of_nat i) = s_bytes s (p - 48 + of_nat i)" if "i < 48" for i
  proof (rule assms(2))
    have "unat (p - 48) = unat p - 48" using assms(1) by (simp add: unat_sub word_le_nat_alt)
    moreover have "unat (of_nat i :: usize) = i" using that by (simp add: unat_of_nat take_bit_nat_eq_self_iff)
    moreover have "unat p < 2 ^ 64" using unsigned_less [of p] by simp
    ultimately have "unat (p - 48 + of_nat i) = unat p - 48 + i" using that assms(1) by (simp add: unat_add_64)
    then show "unat p - 48 \<le> unat (p - 48 + of_nat i)" "unat (p - 48 + of_nat i) < unat p" using that assms(1) by simp_all
  qed
  then have "map (\<lambda>i. s_bytes s' (p - 48 + of_nat i)) [0..<48] = map (\<lambda>i. s_bytes s (p - 48 + of_nat i)) [0..<48]"
    by (intro map_cong refl) (simp only: set_upt atLeastLessThan_iff)
  then show ?thesis by (simp only: read_header_def read_bytes_def HEADER_SIZE_def unat_numeral_48)
qed

lemma write_bytes_outside:
  assumes "unat a + length bs < 2 ^ 64" and "unat x < unat a \<or> unat a + length bs \<le> unat x"
  shows "write_bytes a bs m x = m x"
proof -
  have "length bs \<le> unat (x - a)"
  proof (cases "unat a \<le> unat x")
    case True
    then show ?thesis using assms(2) by (simp add: unat_sub word_le_nat_alt)
  next
    case False
    then have "unat (x - a) = 2 ^ 64 + unat x - unat a" by (simp add: unat_sub_if_size word_size word_le_nat_alt)
    then show ?thesis using assms by simp
  qed
  then show ?thesis by (simp add: write_bytes_def)
qed

section \<open>Blocks and mappings\<close>

text \<open>A block of the application: its pointer, its size, and the mapping that its header names.\<close>

record sys_block =
  sb_ptr :: usize
  sb_size :: usize
  sb_base :: usize
  sb_len :: usize

definition granted :: "usize \<Rightarrow> usize \<Rightarrow> 'os sys \<Rightarrow> sys_block" where
  "granted p n s = (let hdr = read_header p s in \<lparr>sb_ptr = p, sb_size = n, sb_base = hdr_base hdr, sb_len = hdr_map_len hdr\<rparr>)"

definition map_span :: "usize \<times> usize \<Rightarrow> nat set" where
  "map_span r = {unat (fst r) ..< unat (fst r) + unat (snd r)}"

definition block_map :: "sys_block \<Rightarrow> usize \<times> usize" where "block_map k = (sb_base k, sb_len k)"

text \<open>The mappings that the backend accounts for: retained, or behind a block of the application.\<close>

definition sys_maps :: "'os sys \<Rightarrow> sys_block multiset \<Rightarrow> (usize \<times> usize) multiset" where
  "sys_maps s held = cache_entries (s_cache s) + image_mset block_map held"

definition disjoint_maps :: "(usize \<times> usize) multiset \<Rightarrow> bool" where
  "disjoint_maps R \<longleftrightarrow> (\<forall>r \<in># R. count R r = 1) \<and> (\<forall>r \<in># R. \<forall>r' \<in># R. r \<noteq> r' \<longrightarrow> map_span r \<inter> map_span r' = {})"

definition maps_ok :: "nat set \<Rightarrow> (usize \<times> usize) multiset \<Rightarrow> bool" where
  "maps_ok M R \<longleftrightarrow> disjoint_maps R
     \<and> (\<forall>r \<in># R. snd r \<noteq> 0 \<and> unat (fst r) + unat (snd r) < 2 ^ 63 \<and> map_span r \<subseteq> M)"

lemma maps_ok_split:
  assumes "maps_ok M (add_mset r R)"
  shows "maps_ok M R" and "\<forall>r' \<in># R. map_span r \<inter> map_span r' = {}" and "map_span r \<subseteq> M"
    and "unat (fst r) + unat (snd r) < 2 ^ 63" and "snd r \<noteq> 0"
proof -
  have c: "count (add_mset r R) x = 1" if "x \<in># add_mset r R" for x
    using assms that by (auto simp: maps_ok_def disjoint_maps_def)
  have "r \<notin># R" using c [of r] by (simp add: not_in_iff)
  then have "r' \<noteq> r" if "r' \<in># R" for r' using that by auto
  then show "\<forall>r' \<in># R. map_span r \<inter> map_span r' = {}" using assms by (auto simp: maps_ok_def disjoint_maps_def)
  have "count R x = 1" if "x \<in># R" for x
    using c [of x] that \<open>r \<notin># R\<close> by (cases "x = r") simp_all
  then show "maps_ok M R" using assms by (auto simp: maps_ok_def disjoint_maps_def)
qed (use assms in \<open>auto simp: maps_ok_def\<close>)

lemma maps_ok_add:
  assumes "maps_ok M R" and "\<forall>r' \<in># R. map_span r \<inter> map_span r' = {}" and "map_span r \<subseteq> M"
    and "unat (fst r) + unat (snd r) < 2 ^ 63" and "snd r \<noteq> 0"
  shows "maps_ok M (add_mset r R)"
proof -
  have "unat (fst r) \<in> map_span r" using assms(5) by (simp add: map_span_def unat_gt_0)
  then have "r \<notin># R" using assms(2) by blast
  then have "count (add_mset r R) x = 1" if "x \<in># add_mset r R" for x
    using that assms(1) by (cases "x = r") (auto simp: maps_ok_def disjoint_maps_def not_in_iff)
  moreover have "map_span x \<inter> map_span y = {}" if "x \<in># add_mset r R" "y \<in># add_mset r R" "x \<noteq> y" for x y
    using that assms(1,2) unfolding maps_ok_def disjoint_maps_def
    by (metis Int_commute insert_iff set_mset_add_mset_insert)
  ultimately show ?thesis using assms(1,3-5) by (auto simp: maps_ok_def disjoint_maps_def)
qed

lemma maps_ok_more: "maps_ok M R \<Longrightarrow> (\<And>r. r \<in># R \<Longrightarrow> map_span r \<subseteq> M') \<Longrightarrow> maps_ok M' R"
  by (simp add: maps_ok_def)

text \<open>A mapping that leaves the accounts may be unmapped.\<close>

lemma maps_ok_drop:
  assumes "maps_ok M (add_mset r R)" shows "maps_ok (M - map_span r) R"
proof (rule maps_ok_more [OF maps_ok_split(1) [OF assms]])
  fix r' assume r': "r' \<in># R"
  have "map_span r' \<subseteq> M" using maps_ok_split(1) [OF assms] r' by (simp add: maps_ok_def)
  then show "map_span r' \<subseteq> M - map_span r" using maps_ok_split(2) [OF assms] r' by blast
qed

section \<open>The invariant\<close>

definition sys_block_ok :: "'os sys \<Rightarrow> sys_block \<Rightarrow> bool" where
  "sys_block_ok s k \<longleftrightarrow>
     (let hdr = read_header (sb_ptr k) s
      in hdr_magic hdr = HEADER_MAGIC \<and> hdr_backend hdr = backend_u8 System \<and> hdr_base hdr = sb_base k \<and> hdr_map_len hdr = sb_len k)
     \<and> unat (sb_base k) + 48 \<le> unat (sb_ptr k) \<and> unat (sb_ptr k) + unat (sb_size k) \<le> unat (sb_base k) + unat (sb_len k)"

definition sys_inv :: "('os \<Rightarrow> nat set) \<Rightarrow> 'os sys \<Rightarrow> sys_block multiset \<Rightarrow> bool" where
  "sys_inv mapped s held \<longleftrightarrow> cache_inv (s_cache s) \<and> maps_ok (mapped (s_os s)) (sys_maps s held) \<and> (\<forall>k \<in># held. sys_block_ok s k)"

lemma sys_block_ok_cong:
  assumes "sys_block_ok s k"
    and "\<And>x. unat (sb_ptr k) - 48 \<le> unat x \<Longrightarrow> unat x < unat (sb_ptr k) \<Longrightarrow> s_bytes s' x = s_bytes s x"
  shows "sys_block_ok s' k"
proof -
  have "48 \<le> unat (sb_ptr k)" using assms(1) by (simp add: sys_block_ok_def)
  then have "read_header (sb_ptr k) s' = read_header (sb_ptr k) s" by (rule read_header_cong) (rule assms(2))
  then show ?thesis using assms(1) by (simp add: sys_block_ok_def)
qed

text \<open>A new block: the header is written inside its own mapping.\<close>

lemma sys_inv_grant:
  assumes c: "cache_inv (s_cache s)" and m: "maps_ok (mapped (s_os s)) (add_mset (rb, rl) (sys_maps s held))"
    and h: "\<forall>k \<in># held. sys_block_ok s k"
    and q: "unat rb \<le> unat q" "unat q + unat tot \<le> unat rb + unat rl" and a: "a < 60" "header_pad (2 ^ a) \<le> tot"
    and w: "write_header q (header_pad (2 ^ a)) (header_for System tot rb rl hash hint ctx (2 ^ a)) s = (p, s')"
  shows "sys_inv mapped s' (add_mset (granted p (tot - header_pad (2 ^ a)) s') held)"
    and "granted p (tot - header_pad (2 ^ a)) s' = \<lparr>sb_ptr = p, sb_size = tot - header_pad (2 ^ a), sb_base = rb, sb_len = rl\<rparr>"
    and "unat p = unat q + unat (header_pad (2 ^ a))"
proof -
  let ?pad = "header_pad (2 ^ a)" and ?hdr = "header_for System tot rb rl hash hint ctx (2 ^ a)"
  let ?k = "\<lparr>sb_ptr = p, sb_size = tot - ?pad, sb_base = rb, sb_len = rl\<rparr>"
  have pad: "48 \<le> unat ?pad" using header_pad_fits [of a] a(1) by (simp add: HEADER_SIZE_def)
  have rl: "unat rb + unat rl < 2 ^ 63" using maps_ok_split(4) [OF m] by simp
  have le: "unat ?pad \<le> unat tot" using a(2) by (simp add: word_le_nat_alt)
  have l3: "length (hdr_pad ?hdr) = 3" by (simp add: header_for_def)
  note R = read_written_header [OF l3 w]
  have p: "unat p = unat q + unat ?pad" using R(1) q(2) le rl by (simp add: unat_add_64)
  then show "unat p = unat q + unat ?pad" .
  have sz: "unat (tot - ?pad) = unat tot - unat ?pad" using a(2) by (simp add: unat_sub word_le_nat_alt)
  show g: "granted p (tot - ?pad) s' = ?k" by (simp add: granted_def R(2) header_for_def)
  have p48: "unat (p - 48) = unat p - 48" using p pad by (simp add: unat_sub word_le_nat_alt)
  have new: "sys_block_ok s' ?k"
    using R(2) p sz q pad le by (simp add: sys_block_ok_def header_for_def)
  have same: "s_bytes s' x = s_bytes s x" if "unat x \<notin> map_span (rb, rl)" for x
    unfolding R(4) HEADER_SIZE_def
    by (rule write_bytes_outside) (use that p p48 pad q le rl in \<open>auto simp: map_span_def length_header_bytes [OF l3]\<close>)
  have old: "sys_block_ok s' k" if k: "k \<in># held" for k
  proof (rule sys_block_ok_cong [OF bspec [OF h k]])
    fix x :: usize assume x: "unat (sb_ptr k) - 48 \<le> unat x" "unat x < unat (sb_ptr k)"
    have "unat x \<in> map_span (block_map k)" using bspec [OF h k] x by (auto simp: map_span_def block_map_def sys_block_ok_def)
    moreover have "block_map k \<in># sys_maps s held" using k by (simp add: sys_maps_def)
    ultimately have "unat x \<notin> map_span (rb, rl)" using maps_ok_split(2) [OF m] by blast
    then show "s_bytes s' x = s_bytes s x" by (rule same)
  qed
  have "s_cache s' = s_cache s" "s_os s' = s_os s" by (subst R(3), simp)+
  then show "sys_inv mapped s' (add_mset (granted p (tot - ?pad) s') held)"
    using c m new old unfolding g by (simp add: sys_inv_def sys_maps_def block_map_def)
qed

section \<open>Serving and freeing\<close>

text \<open>
  A request can be served by neither source: the cache, unless its lock is taken, holds no mapping that fits, and the
  kernel refuses the very length the backend asks for in this state.
\<close>

definition system_starved :: "'os lo_env \<Rightarrow> bool \<Rightarrow> usize \<Rightarrow> usize \<Rightarrow> 'os sys \<Rightarrow> bool" where
  "system_starved env locked tot align s \<longleftrightarrow>
     (locked \<or> cache_get (s_cache s) tot (max align (le_page env)) = None)
     \<and> os_refuses (le_mmap env) (s_os s) (pages_len (le_page env) tot align)"

lemma sys_serve:
  assumes kern: "lo_kernel_ok env mapped" and inv: "sys_inv mapped s held" and a: "a < 60" and tot: "unat tot < 2 ^ 60" "header_pad (2 ^ a) \<le> tot"
    and run: "system_alloc_with_header env locked tot (2 ^ a) hash hint ctx s = (r, s')"
  shows "case r of None \<Rightarrow> sys_inv mapped s' held \<and> system_starved env locked tot (2 ^ a) s
    | Some p \<Rightarrow> sys_inv mapped s' (add_mset (granted p (tot - header_pad (2 ^ a)) s') held) \<and> 2 ^ a dvd unat p"
proof -
  let ?hit = "if locked then None else cache_get (s_cache s) tot (max (2 ^ a) (le_page env))"
  have c: "cache_inv (s_cache s)" and m: "maps_ok (mapped (s_os s)) (sys_maps s held)" and h: "\<forall>k \<in># held. sys_block_ok s k"
    using inv by (simp_all add: sys_inv_def)
  have pg: "pages_ok (le_page env) (le_mmap env) mapped" using kern by (simp add: lo_kernel_ok_def)
  obtain j where j: "j < 30" "le_page env = 2 ^ j" using pages_okD(1) [OF pg] by blast
  have eff: "max (2 ^ a) (le_page env) = 2 ^ max a j" using j a by (simp add: max_pow2)
  have mx: "max a j < 60" using a j(1) by simp
  have dv: "(2 :: nat) ^ a dvd unat (header_pad (2 ^ a))" using header_pad_fits [of a] a by simp
  show ?thesis
  proof (cases ?hit)
    case (Some x)
    obtain rb rl c' where x: "x = ((rb, rl), c')" by (metis prod.collapse)
    have nl: "\<not> locked" and g: "cache_get (s_cache s) tot (2 ^ max a j) = Some ((rb, rl), c')" using Some x eff by (auto split: if_splits)
    let ?q = "align_up rb (2 ^ max a j)"
    let ?s = "s\<lparr>s_cache := c', s_cache_hits := s_cache_hits s + 1\<rparr>"
    obtain p s1 where w: "write_header ?q (header_pad (2 ^ a)) (header_for System tot rb rl hash hint ctx (2 ^ a)) ?s = (p, s1)" by force
    have rs: "r = Some p" "s' = s1" using run nl g w by (simp_all add: system_alloc_with_header_def Let_def align_up_addr_eq eff)
    obtain bi where bi: "bi \<in> cache_ix" "slots (s_cache s) bi = (rb, rl)" "rl \<noteq> 0" using cache_get_Some [OF g] by auto
    have "(rb, rl) \<in># sys_maps s held" using cache_entry_member [OF bi(1), of "s_cache s"] bi by (simp add: sys_maps_def)
    then have rng: "unat rb + unat rl < 2 ^ 63" using m by (auto simp: maps_ok_def)
    have C: "unat ?q + unat tot \<le> unat rb + unat rl" "cache_entries (s_cache s) = add_mset (rb, rl) (cache_entries c')" "cache_inv c'"
      using cache_get_serves [OF c g mx _ rng] tot(1) by simp_all
    have al: "unat rb \<le> unat ?q" "2 ^ max a j dvd unat ?q" using align_up_unat_le [of rb "max a j"] rng mx by simp_all
    have M: "maps_ok (mapped (s_os ?s)) (add_mset (rb, rl) (sys_maps ?s held))" using m C(2) by (simp add: sys_maps_def)
    have H: "\<forall>k \<in># held. sys_block_ok ?s k" using h by (auto intro: sys_block_ok_cong)
    have C': "cache_inv (s_cache ?s)" using C(3) by simp
    note G = sys_inv_grant [where mapped = mapped, OF C' M H al(1) C(1) a tot(2) w]
    have "(2 :: nat) ^ a dvd 2 ^ max a j" by (rule le_imp_power_dvd) simp
    then have "2 ^ a dvd unat p" unfolding G(3) using dvd_trans [OF _ al(2)] dv by (intro dvd_add)
    then show ?thesis using G(1) rs by simp
  next
    case None
    obtain m1 os' where al: "alloc_pages (le_page env) (le_mmap env) tot (2 ^ a) (s_os s) = (m1, os')" by force
    note F = alloc_pages_fresh [OF pg a tot(1) al]
    have t0: "tot \<noteq> 0" using tot(2) header_pad_fits [of a] a by (auto simp: HEADER_SIZE_def word_le_nat_alt)
    show ?thesis
    proof (cases m1)
      case none: None
      have rs: "r = None" "s' = set_os os' s"
        using run al none by (simp_all add: system_alloc_with_header_def Let_def None)
      have "maps_ok (mapped os') (sys_maps s held)" using maps_ok_more [OF m] m F none by (fastforce simp: maps_ok_def)
      moreover have "system_starved env locked tot (2 ^ a) s"
        using alloc_pages_refused [OF _ t0] al none None by (auto simp: system_starved_def split: if_splits)
      moreover have "\<forall>k \<in># held. sys_block_ok (set_os os' s) k" using h by (auto intro: sys_block_ok_cong simp: set_os_def)
      ultimately show ?thesis using c rs by (simp add: sys_inv_def sys_maps_def set_os_def)
    next
      case m1: (Some mp)
      let ?rb = "map_base mp" and ?rl = "map_len mp" and ?q = "map_ptr mp"
      obtain p s1 where w: "write_header ?q (header_pad (2 ^ a)) (header_for System tot ?rb ?rl hash hint ctx (2 ^ a)) (set_os os' s) = (p, s1)"
        by force
      have rs: "r = Some p" "s' = s1"
        using run al m1 w by (simp_all add: system_alloc_with_header_def Let_def None unmap_range_def)
      have "alloc_pages (2 ^ j) (le_mmap env) tot (2 ^ a) (s_os s) = (Some mp, os')" using al m1 j by simp
      note A = alloc_pages_Some [OF this _ _ a tot(1), unfolded j(2) [symmetric], OF pages_okD(2) [OF pg]]
      have j60: "j < 60" using j(1) by simp
      note A = A [OF j60]
      have q: "unat ?rb \<le> unat ?q" "unat ?q + unat tot \<le> unat ?rb + unat ?rl" using A(3-5) by simp_all
      have os: "mapped os' = mapped (s_os s) \<union> map_span (?rb, ?rl)" "map_span (?rb, ?rl) \<inter> mapped (s_os s) = {}"
        using F m1 by (simp_all add: map_span_def)
      have "0 < unat tot" using t0 by (simp add: unat_gt_0)
      then have "?rl \<noteq> 0" using q by auto
      moreover have "\<forall>r' \<in># sys_maps s held. map_span (?rb, ?rl) \<inter> map_span r' = {}" using os(2) m by (fastforce simp: maps_ok_def)
      moreover have "maps_ok (mapped os') (sys_maps s held)" using maps_ok_more [OF m] m os(1) by (fastforce simp: maps_ok_def)
      ultimately have M: "maps_ok (mapped (s_os (set_os os' s))) (add_mset (?rb, ?rl) (sys_maps (set_os os' s) held))"
        using A(6) os(1) by (intro maps_ok_add) (simp_all add: sys_maps_def set_os_def)
      have H: "\<forall>k \<in># held. sys_block_ok (set_os os' s) k" using h by (auto intro: sys_block_ok_cong simp: set_os_def)
      have C: "cache_inv (s_cache (set_os os' s))" using c by (simp add: set_os_def)
      note G = sys_inv_grant [where mapped = mapped, OF C M H q a tot(2) w]
      have "2 ^ a dvd unat p" using G(3) dv A(1) by (simp add: is_aligned_unat)
      then show ?thesis using G(1) rs by simp
    qed
  qed
qed

text \<open>A mapping that is freed is retained or unmapped, and so is the one that it evicts.\<close>

lemma sys_unmap:
  assumes kern: "lo_kernel_ok env mapped" and m: "maps_ok (mapped (s_os s)) (add_mset r R)"
  shows "maps_ok (mapped (s_os (set_os (le_munmap env (s_os s) r) s))) R"
    and "mapped (s_os (set_os (le_munmap env (s_os s) r) s)) = mapped (s_os s) - map_span r"
proof -
  show e: "mapped (s_os (set_os (le_munmap env (s_os s) r) s)) = mapped (s_os s) - map_span r"
    using kern by (cases r) (simp add: lo_kernel_ok_def map_span_def set_os_def)
  show "maps_ok (mapped (s_os (set_os (le_munmap env (s_os s) r) s))) R" unfolding e by (rule maps_ok_drop [OF m])
qed

lemma sys_release:
  fixes locked :: bool
  assumes kern: "lo_kernel_ok env mapped" and inv: "sys_inv mapped s (add_mset k held)"
  defines "s' \<equiv> system_free env locked (sb_base k) (sb_len k) s"
  shows "sys_inv mapped s' held"
    and "\<exists>gone. sys_maps s (add_mset k held) = sys_maps s' held + gone
      \<and> mapped (s_os s') = mapped (s_os s) - (\<Union>r \<in> set_mset gone. map_span r)"
proof -
  let ?r = "(sb_base k, sb_len k)"
  have c: "cache_inv (s_cache s)" and m: "maps_ok (mapped (s_os s)) (add_mset ?r (sys_maps s held))"
    and h: "\<forall>k \<in># held. sys_block_ok s k"
    using inv by (simp_all add: sys_inv_def sys_maps_def block_map_def)
  have "sys_inv mapped s' held \<and> (\<exists>gone. add_mset ?r (sys_maps s held) = sys_maps s' held + gone
      \<and> mapped (s_os s') = mapped (s_os s) - (\<Union>r \<in> set_mset gone. map_span r))"
  proof (cases locked)
    case True
    have s': "s' = set_os (le_munmap env (s_os s) ?r) s" using True by (simp add: s'_def system_free_def)
    have same: "s_cache s' = s_cache s" "s_bytes s' = s_bytes s" by (simp_all add: s' set_os_def)
    have "maps_ok (mapped (s_os s')) (sys_maps s' held)" using sys_unmap(1) [OF kern m] s' same by (simp add: sys_maps_def)
    moreover have "\<forall>k \<in># held. sys_block_ok s' k" using h same by (auto intro: sys_block_ok_cong)
    moreover have "sys_maps s' held = sys_maps s held" using same by (simp add: sys_maps_def)
    ultimately show ?thesis using c same sys_unmap(2) [OF kern m] s'
      by (intro conjI exI [of _ "{#?r#}"]) (simp_all add: sys_inv_def)
  next
    case False
    obtain taken ev c' where p: "cache_put (s_cache s) (sb_base k) (sb_len k) = (taken, ev, c')" by (metis prod.collapse)
    have rl: "unat (sb_len k) < 2 ^ 63" using maps_ok_split(4) [OF m] by simp
    have P: "cache_entries c' + (case ev of None \<Rightarrow> {#} | Some e \<Rightarrow> {#e#}) = cache_entries (s_cache s) + (if taken then {#?r#} else {#})"
      "cache_inv c'" using cache_put_ok [OF c p rl] by simp_all
    have ev: "taken \<or> ev = None" using p by (auto simp: cache_put_def Let_def split: if_splits)
    define gone where "gone = (if taken then case ev of None \<Rightarrow> {#} | Some e \<Rightarrow> {#e#} else {#?r#})"
    have all: "add_mset ?r (sys_maps s held) = cache_entries c' + image_mset block_map held + gone"
      using P(1) ev by (cases taken; cases ev) (simp_all add: sys_maps_def gone_def)
    let ?s = "s\<lparr>s_cache := c'\<rparr>"
    have s': "s' = (if gone = {#} then ?s else set_os (le_munmap env (s_os s) (if taken then the ev else ?r)) ?s)"
      using False p ev by (cases taken; cases ev) (simp_all add: s'_def system_free_def gone_def Let_def)
    have same: "s_cache s' = c'" "s_bytes s' = s_bytes s" by (simp_all add: s' set_os_def)
    have sm: "sys_maps s' held + gone = add_mset ?r (sys_maps s held)" using all same by (simp add: sys_maps_def)
    have "maps_ok (mapped (s_os s')) (sys_maps s' held)
        \<and> mapped (s_os s') = mapped (s_os s) - (\<Union>r \<in> set_mset gone. map_span r)"
    proof (cases "gone = {#}")
      case True
      then show ?thesis using m sm s' by simp
    next
      case False
      define r where "r = (if taken then the ev else ?r)"
      have g: "gone = {#r#}" using False by (auto simp: gone_def r_def split: option.splits if_splits)
      have M: "maps_ok (mapped (s_os ?s)) (add_mset r (sys_maps s' held))" using m sm g by simp
      show ?thesis using sys_unmap [OF kern M] s' False g by (simp add: r_def [symmetric])
    qed
    moreover have "\<forall>k \<in># held. sys_block_ok s' k" using h same by (auto intro: sys_block_ok_cong)
    ultimately have "sys_inv mapped s' held" "mapped (s_os s') = mapped (s_os s) - (\<Union>r \<in> set_mset gone. map_span r)"
      using P(2) same(1) unfolding sys_inv_def by blast+
    then show ?thesis using sm by (intro conjI exI [of _ gone]) simp_all
  qed
  then show "sys_inv mapped s' held" and "\<exists>gone. sys_maps s (add_mset k held) = sys_maps s' held + gone
      \<and> mapped (s_os s') = mapped (s_os s) - (\<Union>r \<in> set_mset gone. map_span r)"
    by (simp_all add: sys_maps_def block_map_def)
qed

text \<open>The dispatch of a free, once the registries know nothing of the pointer.\<close>

definition unregistered :: "'os lo_env \<Rightarrow> usize \<Rightarrow> 'os sys \<Rightarrow> bool" where
  "unregistered env p s \<longleftrightarrow> headerless_class_for p s = None \<and> buddy_headerless_order_for env p s = None
     \<and> \<not> arena_headerless_hit p (s_arena s)"

lemma sys_dispatch:
  assumes "sys_block_ok s k" "unregistered env (sb_ptr k) s"
  shows "free_as env locked (sb_ptr k) (classify env (sb_ptr k) s) s = Some (system_free env locked (sb_base k) (sb_len k) s)"
proof -
  have "classify env (sb_ptr k) s = FHeader (read_header (sb_ptr k) s)"
    using assms by (simp add: classify_def unregistered_def sys_block_ok_def Let_def)
  then show ?thesis using assms(1) by (simp add: dealloc_with_header_def sys_block_ok_def Let_def backend_of_u8_def)
qed

section \<open>The steps\<close>

text \<open>
  One step is a request or a free of any thread, with the cache's lock free or taken, or anything else that the application, the
  other backends and the kernel do: it leaves the cache, the headers and the accounted mappings alone.
\<close>

inductive sys_step ::
  "'os lo_env \<Rightarrow> ('os \<Rightarrow> nat set) \<Rightarrow> 'os sys \<times> sys_block multiset \<Rightarrow> 'os sys \<times> sys_block multiset \<Rightarrow> bool"
  for env mapped
where
  serve: "system_alloc_with_header env locked tot (2 ^ a) hash hint ctx s = (Some p, s') \<Longrightarrow> a < 60 \<Longrightarrow> unat tot < 2 ^ 60 \<Longrightarrow>
    header_pad (2 ^ a) \<le> tot \<Longrightarrow> sys_step env mapped (s, held) (s', add_mset (granted p (tot - header_pad (2 ^ a)) s') held)"
| refuse: "system_alloc_with_header env locked tot (2 ^ a) hash hint ctx s = (None, s') \<Longrightarrow> a < 60 \<Longrightarrow> unat tot < 2 ^ 60 \<Longrightarrow>
    header_pad (2 ^ a) \<le> tot \<Longrightarrow> sys_step env mapped (s, held) (s', held)"
| free: "unregistered env (sb_ptr k) s \<Longrightarrow> free_as env locked (sb_ptr k) (classify env (sb_ptr k) s) s = Some s' \<Longrightarrow>
    sys_step env mapped (s, add_mset k held) (s', held)"
| others: "s_cache s' = s_cache s \<Longrightarrow> (\<forall>r \<in># sys_maps s held. map_span r \<subseteq> mapped (s_os s')) \<Longrightarrow>
    (\<forall>k \<in># held. \<forall>x. unat (sb_ptr k) - 48 \<le> unat x \<and> unat x < unat (sb_ptr k) \<longrightarrow> s_bytes s' x = s_bytes s x) \<Longrightarrow>
    sys_step env mapped (s, held) (s', held)"

inductive sys_reach ::
  "'os lo_env \<Rightarrow> ('os \<Rightarrow> nat set) \<Rightarrow> 'os sys \<times> sys_block multiset \<Rightarrow> 'os sys \<times> sys_block multiset \<Rightarrow> bool"
  for env mapped x
where
  start: "sys_reach env mapped x x"
| more: "sys_reach env mapped x y \<Longrightarrow> sys_step env mapped y z \<Longrightarrow> sys_reach env mapped x z"

lemma sys_step_inv:
  assumes kern: "lo_kernel_ok env mapped" and step: "sys_step env mapped y z" and inv: "sys_inv mapped (fst y) (snd y)"
  shows "sys_inv mapped (fst z) (snd z)"
  using step inv
proof cases
  case (serve locked tot a hash hint ctx s p s' held)
  then show ?thesis using sys_serve [OF kern _ serve(4-6,3), of held] inv by simp
next
  case (refuse locked tot a hash hint ctx s s' held)
  then show ?thesis using sys_serve [OF kern _ refuse(4-6,3), of held] inv by simp
next
  case (free k s locked s' held)
  have "sys_block_ok s k" using inv free(1) by (simp add: sys_inv_def)
  then have "s' = system_free env locked (sb_base k) (sb_len k) s" using sys_dispatch [OF _ free(3)] free(4) by simp
  then show ?thesis using sys_release(1) [OF kern, of s k held locked] inv free(1,2) by simp
next
  case (others s' s held)
  have "maps_ok (mapped (s_os s')) (sys_maps s' held)"
    using maps_ok_more [of "mapped (s_os s)" "sys_maps s held" "mapped (s_os s')"] inv others by (simp add: sys_inv_def sys_maps_def)
  moreover have "sys_block_ok s' k" if k: "k \<in># held" for k
  proof (rule sys_block_ok_cong)
    show "sys_block_ok s k" using inv others(1) k by (simp add: sys_inv_def)
    show "s_bytes s' x = s_bytes s x" if "unat (sb_ptr k) - 48 \<le> unat x" "unat x < unat (sb_ptr k)" for x
      using bspec [OF others(5) k] that by blast
  qed
  moreover have "cache_inv (s_cache s')" using inv others(1,3) by (simp add: sys_inv_def)
  ultimately show ?thesis using others(2) by (simp add: sys_inv_def)
qed

lemma sys_reach_inv:
  assumes kern: "lo_kernel_ok env mapped" and run: "sys_reach env mapped (lohalloc_new os i0 st nodes bnodes bytes, {#}) z"
  shows "sys_inv mapped (fst z) (snd z)"
  using run
proof induction
  case start
  have "cache_entries system_cache_new = {#}" unfolding set_mset_eq_empty_iff [symmetric]
    by (auto simp: cache_entries_def system_cache_new_def)
  then show ?case by (simp add: sys_inv_def sys_maps_def lohalloc_new_def cache_inv_new maps_ok_def disjoint_maps_def)
next
  case (more y z)
  then show ?case using sys_step_inv [OF kern] by blast
qed

section \<open>Properties\<close>

text \<open>
  C18: In every state that any requests and frees of the system backend reach, whatever the other backends and the
  application do in between, each block of the application lies with its header in a mapping of its
  own, which is mapped, is no retained mapping and overlaps none, nor that of another block; the retained bytes are
  the sum of the retained mappings and at most 64 MiB.
\<close>
theorem system_live_disjoint:
  assumes "lo_kernel_ok env mapped"
    and "sys_reach env mapped (lohalloc_new os i0 st nodes bnodes bytes, {#}) (s, held)"
  shows "(\<forall>k \<in># held. {unat (sb_ptr k) - 48 ..< unat (sb_ptr k) + unat (sb_size k)} \<subseteq> map_span (block_map k)
        \<and> map_span (block_map k) \<subseteq> mapped (s_os s) \<and> (\<forall>r \<in># cache_entries (s_cache s). map_span (block_map k) \<inter> map_span r = {}))
    \<and> (\<forall>k k' M. held = add_mset k (add_mset k' M) \<longrightarrow> map_span (block_map k) \<inter> map_span (block_map k') = {})
    \<and> unat (retained (s_cache s)) = (\<Sum>r \<in># cache_entries (s_cache s). unat (snd r)) \<and> unat (retained (s_cache s)) \<le> 64 * 2 ^ 20"
proof -
  have inv: "sys_inv mapped s held" using sys_reach_inv [OF assms] by simp
  have c: "cache_inv (s_cache s)" and m: "maps_ok (mapped (s_os s)) (sys_maps s held)" and h: "\<forall>k \<in># held. sys_block_ok s k"
    using inv by (simp_all add: sys_inv_def)
  have split: "maps_ok (mapped (s_os s)) (add_mset (block_map k) (cache_entries (s_cache s) + image_mset block_map M))"
    if "held = add_mset k M" for k M using m that by (simp add: sys_maps_def)
  have one: "{unat (sb_ptr k) - 48 ..< unat (sb_ptr k) + unat (sb_size k)} \<subseteq> map_span (block_map k)
      \<and> map_span (block_map k) \<subseteq> mapped (s_os s) \<and> (\<forall>r \<in># cache_entries (s_cache s). map_span (block_map k) \<inter> map_span r = {})"
    if k: "k \<in># held" for k
  proof -
    obtain M where M: "held = add_mset k M" using k by (metis mset_add)
    note S = maps_ok_split(2,3) [OF split [OF M]]
    have "{unat (sb_ptr k) - 48 ..< unat (sb_ptr k) + unat (sb_size k)} \<subseteq> map_span (block_map k)"
      using bspec [OF h k] by (auto simp: sys_block_ok_def map_span_def block_map_def)
    then show ?thesis using S by simp
  qed
  have two: "map_span (block_map k) \<inter> map_span (block_map k') = {}" if "held = add_mset k (add_mset k' M)" for k k' M
    using maps_ok_split(2) [OF split [OF that]] by simp
  have "unat (retained (s_cache s)) \<le> 64 * 2 ^ 20"
    using c by (simp add: cache_inv_def word_le_nat_alt SYSCACHE_MAX_BYTES_def push_bit_eq_mult)
  then show ?thesis using one two c by (simp add: cache_inv_def)
qed

text \<open>
  C19: In every such state a request returns an aligned pointer, or nothing when the cache is locked or holds no
  mapping that fits and the kernel refuses, in this state, the length the request needs; and the free of a block whose
  pointer is in no registry of the other backends returns, and hands exactly the mapping
  behind the block to the cache, or to the kernel when the cache declines it or is locked: every mapping that was held or
  retained still is, or is unmapped, and no other memory is.
\<close>
theorem system_frees_its_mapping:
  assumes "lo_kernel_ok env mapped"
    and "sys_reach env mapped (lohalloc_new os i0 st nodes bnodes bytes, {#}) (s, held)"
  shows "(\<forall>tot a r s'. system_alloc_with_header env locked tot (2 ^ a) hash hint ctx s = (r, s') \<longrightarrow> a < 60 \<longrightarrow> unat tot < 2 ^ 60 \<longrightarrow>
        header_pad (2 ^ a) \<le> tot \<longrightarrow> (case r of None \<Rightarrow> system_starved env locked tot (2 ^ a) s | Some p \<Rightarrow> 2 ^ a dvd unat p))
    \<and> (\<forall>k M. held = add_mset k M \<longrightarrow> unregistered env (sb_ptr k) s \<longrightarrow>
        (\<exists>s' gone. free_as env locked (sb_ptr k) (classify env (sb_ptr k) s) s = Some s'
          \<and> cache_entries (s_cache s) + {#block_map k#} = cache_entries (s_cache s') + gone
          \<and> mapped (s_os s') = mapped (s_os s) - (\<Union>r \<in> set_mset gone. map_span r)))"
proof -
  have inv: "sys_inv mapped s held" using sys_reach_inv [OF assms] by simp
  have alloc: "case r of None \<Rightarrow> system_starved env locked tot (2 ^ a) s | Some p \<Rightarrow> 2 ^ a dvd unat p"
    if "system_alloc_with_header env locked tot (2 ^ a) hash hint ctx s = (r, s')" "a < 60" "unat tot < 2 ^ 60" "header_pad (2 ^ a) \<le> tot"
    for tot a r s'
    using sys_serve [OF assms(1) inv that(2-4,1)] by (auto split: option.splits)
  have free: "\<exists>s' gone. free_as env locked (sb_ptr k) (classify env (sb_ptr k) s) s = Some s'
      \<and> cache_entries (s_cache s) + {#block_map k#} = cache_entries (s_cache s') + gone
      \<and> mapped (s_os s') = mapped (s_os s) - (\<Union>r \<in> set_mset gone. map_span r)"
    if k: "held = add_mset k M" "unregistered env (sb_ptr k) s" for k M
  proof -
    have "sys_block_ok s k" using inv k(1) by (simp add: sys_inv_def)
    note D = sys_dispatch [OF this k(2)]
    let ?s' = "system_free env locked (sb_base k) (sb_len k) s"
    obtain gone where g: "sys_maps s (add_mset k M) = sys_maps ?s' M + gone"
      "mapped (s_os ?s') = mapped (s_os s) - (\<Union>r \<in> set_mset gone. map_span r)"
      using sys_release(2) [OF assms(1), of s k M locked] inv k(1) by blast
    have "cache_entries (s_cache s) + {#block_map k#} = cache_entries (s_cache ?s') + gone"
      using g(1) by (simp add: sys_maps_def union_ac)
    then show ?thesis using D g(2) by blast
  qed
  show ?thesis using alloc free by blast
qed

section \<open>A run\<close>

text \<open>The first request of an instance: 4000 bytes in a fresh page.\<close>

lemma demo_system_pages:
  "map_option (\<lambda>m. (map_base m, map_ptr m, map_len m)) (fst (alloc_pages 4096 bump_mmap 4048 16 (0x10000, []))) = Some (0x10000, 0x10000, 4096)"
  by code_simp

lemma demo_system:
  "\<exists>s. sys_reach demo_lo_env bump_mapped (demo_instance, {#}) (s, {#\<lparr>sb_ptr = 0x10030, sb_size = 4000, sb_base = 0x10000, sb_len = 4096\<rparr>#})
    \<and> unregistered demo_lo_env 0x10030 s"
proof -
  have none: "cache_get system_cache_new tot al = None" for tot al
    using cache_get_Some [of system_cache_new tot al] by (cases "cache_get system_cache_new tot al") (auto simp: system_cache_new_def)
  obtain mp os' where m: "alloc_pages 4096 bump_mmap 4048 16 (0x10000, []) = (Some mp, os')"
    "map_base mp = 0x10000" "map_ptr mp = 0x10000" "map_len mp = 4096"
    using demo_system_pages by (cases "alloc_pages 4096 bump_mmap 4048 16 (0x10000, [])") (auto simp: map_option_case split: option.splits)
  let ?hdr = "header_for System 4048 0x10000 4096 0 0 0 16"
  obtain p s where w: "write_header 0x10000 48 ?hdr (set_os os' demo_instance) = (p, s)" by force
  have l3: "length (hdr_pad ?hdr) = 3" by (simp add: header_for_def)
  note R = read_written_header [OF l3 w]
  have c: "s_cache demo_instance = system_cache_new" by (simp add: demo_instance_def lohalloc_new_def)
  have pad: "header_pad (2 ^ 4) = 48" by (simp add: pads)
  have run: "system_alloc_with_header demo_lo_env False 4048 (2 ^ 4) 0 0 0 demo_instance = (Some 0x10030, s)"
    using m w R(1) pad
    by (simp add: system_alloc_with_header_def Let_def c none demo_fresh unmap_range_def) (simp add: demo_lo_env_def arena_demo_env_def unmap_range_def)
  have g: "granted 0x10030 (4048 - header_pad (2 ^ 4)) s = \<lparr>sb_ptr = 0x10030, sb_size = 4000, sb_base = 0x10000, sb_len = 4096\<rparr>"
    using R(1,2) unfolding pad by (simp add: granted_def header_for_def)
  have "sys_step demo_lo_env bump_mapped (demo_instance, {#}) (s, {#granted 0x10030 (4048 - header_pad (2 ^ 4)) s#})"
    by (rule sys_step.serve [OF run]) (simp, simp, simp only: pad, simp)
  then have "sys_reach demo_lo_env bump_mapped (demo_instance, {#}) (s, {#\<lparr>sb_ptr = 0x10030, sb_size = 4000, sb_base = 0x10000, sb_len = 4096\<rparr>#})"
    unfolding g by (rule sys_reach.more [OF sys_reach.start])
  moreover have "unregistered demo_lo_env 0x10030 s"
    by (subst R(3)) (simp add: unregistered_def headerless_class_for_def buddy_headerless_order_for_def arena_headerless_hit_def
        demo_instance_def lohalloc_new_def set_os_def arena_world_new_def)
  ultimately show ?thesis by blast
qed

lemma demo_system_new:
  "sys_reach demo_lo_env bump_mapped (demo_instance, {#}) x \<Longrightarrow>
     sys_reach demo_lo_env bump_mapped (lohalloc_new (0x10000, []) 1 0 (\<lambda>_. None) (\<lambda>_. \<lparr>fn_prev = 0, fn_next = 0\<rparr>) (\<lambda>_. 0), {#}) x"
  by (simp only: demo_instance_def)

lemma system_live_disjoint_witness:
  "\<exists>s k. sys_reach demo_lo_env bump_mapped (demo_instance, {#}) (s, {#k#}) \<and> sb_ptr k = 0x10030
     \<and> map_span (block_map k) \<subseteq> bump_mapped (s_os s)"
proof -
  let ?k = "\<lparr>sb_ptr = 0x10030, sb_size = 4000, sb_base = 0x10000, sb_len = 4096\<rparr>"
  obtain s where r: "sys_reach demo_lo_env bump_mapped (demo_instance, {#}) (s, {#?k#})" using demo_system by blast
  have "map_span (block_map ?k) \<subseteq> bump_mapped (s_os s)"
    using system_live_disjoint [OF demo_lo_kernel demo_system_new [OF r]] by simp
  then show ?thesis using r by (intro exI [of _ s] exI [of _ ?k]) simp
qed

lemma system_frees_its_mapping_witness:
  "\<exists>s k s'. sys_reach demo_lo_env bump_mapped (demo_instance, {#}) (s, {#k#}) \<and> sb_ptr k = 0x10030
     \<and> free_as demo_lo_env False 0x10030 (classify demo_lo_env 0x10030 s) s = Some s'"
proof -
  let ?k = "\<lparr>sb_ptr = 0x10030, sb_size = 4000, sb_base = 0x10000, sb_len = 4096\<rparr>"
  obtain s where r: "sys_reach demo_lo_env bump_mapped (demo_instance, {#}) (s, {#?k#})" "unregistered demo_lo_env 0x10030 s"
    using demo_system by blast
  have "\<exists>s'. free_as demo_lo_env False (sb_ptr ?k) (classify demo_lo_env (sb_ptr ?k) s) s = Some s'"
    using system_frees_its_mapping [OF demo_lo_kernel demo_system_new [OF r(1)], THEN conjunct2, rule_format, of ?k "{#}" False] r(2)
    by auto
  then obtain s' where "free_as demo_lo_env False (sb_ptr ?k) (classify demo_lo_env (sb_ptr ?k) s) s = Some s'" by blast
  then show ?thesis using r(1) by (intro exI [of _ s] exI [of _ ?k] exI [of _ s']) simp
qed

end
