(* ===== verification/Spec2Isabelle.thy ===== *)
theory Spec2Isabelle
  imports
    Core SysBackend Registry RegistryRace HotTls Magazine
    Routing PerfectHash PerfectHashCorrect Float64 Tune BTree Bandit Engine EngineReward EngineRun
    EngineFreeze EngineDistill
    SlabSafety BuddySafety ArenaSafety
    Instance Routes Frontend SlabThreadsSafety OverAligned SystemSafety
begin

text \<open>
  Lohalloc: a model of the memory allocator of the crates \<open>lohalloc-core\<close> and
  \<open>lohalloc-alloc\<close> (\<open>src/crates/\<close>), translated definition by definition from the Rust source, with the
  theorems that make it correct.

  \<^bold>\<open>The program.\<close> A \<open>Lohalloc\<close> instance (\<open>lib.rs\<close>) serves requests from four backends: a slab of
  twelve size classes (\<open>slab.rs\<close>), a buddy allocator over 4 MiB regions (\<open>buddy.rs\<close>), a bump
  arena of 1 MiB chunks (\<open>arena.rs\<close>) and whole mappings with a retention cache (\<open>system.rs\<close>). Slab
  and buddy are striped, one mutex each, and stand behind per-thread magazines (\<open>magazine.rs\<close>,
  \<open>buddy_mag.rs\<close>) in the thread's hot block (\<open>hot.rs\<close>). A free finds the owner of its address
  in three insert-only registries that are read without a lock (\<open>registry.rs\<close>), or in a header in front of the block.
  Which backend a call site is routed to is decided by an engine (\<open>state.rs\<close>): in training by a bandit
  (\<open>bandit.rs\<close>) under a configuration (\<open>tune.rs\<close>), after a freeze by two perfect hash tables
  (\<open>perfect_hash.rs\<close>) that can be saved to a \<open>.lohalloc\<close> file and loaded again.

  \<^bold>\<open>The theories.\<close>
  \<^item> \<open>Prelude\<close>, \<open>LinkedList\<close>, \<open>BTree\<close>, \<open>Float64\<close>: words and machine integers, doubly linked lists
    over link functions, ordered maps (locale \<open>key_value_map\<close>), and binary64 and binary32 arithmetic.
  \<^item> \<open>Core\<close>: \<open>lohalloc-core/src/lib.rs\<close>, the shared types and the size arithmetic.
  \<^item> \<open>SysBackend\<close>: \<open>system.rs\<close>, the mappings and \<open>SystemCache\<close>.
  \<^item> \<open>Registry\<close>: \<open>registry.rs\<close>, one thread at a time (locale \<open>probe_table\<close>, interpreted on all three
    tables); \<open>RegistryRace\<close>: the segment registry with one step per atomic access.
  \<^item> \<open>HotTls\<close>, \<open>Magazine\<close>: \<open>hot.rs\<close>, \<open>magazine.rs\<close>, \<open>buddy_mag.rs\<close> (locale \<open>bounded_stacks\<close>, interpreted
    on both magazines).
  \<^item> \<open>Routing\<close>: the keys, the clamp, the latency histogram (\<open>state.rs\<close>), the history register and the header
    layout (\<open>lib.rs\<close>). \<open>PerfectHash\<close>, \<open>PerfectHashCorrect\<close>: \<open>perfect_hash.rs\<close>.
  \<^item> \<open>Tune\<close>, \<open>Bandit\<close>, \<open>Engine\<close>: \<open>tune.rs\<close>, \<open>bandit.rs\<close> and \<open>AllocatorState\<close> of \<open>state.rs\<close>;
    \<open>EngineReward\<close>, \<open>EngineRun\<close>, \<open>EngineFreeze\<close>, \<open>EngineDistill\<close>: their properties.
  \<^item> \<open>SlabAlloc\<close>, \<open>SlabCorrect\<close>, \<open>SlabSafety\<close>: \<open>slab.rs\<close> (locale \<open>flavour\<close>, interpreted on the header and
    the headerless tiers).
  \<^item> \<open>BuddyAlloc\<close>, then \<open>BuddyGeometry\<close>, \<open>BuddyTiers\<close>, \<open>BuddyCorrect\<close>, \<open>BuddyFree\<close>, \<open>BuddyTake\<close>,
    \<open>BuddySafety\<close>: \<open>buddy.rs\<close>.
  \<^item> \<open>ArenaAlloc\<close>, \<open>ArenaLib\<close>: \<open>arena.rs\<close> and its users in \<open>lib.rs\<close>; \<open>ArenaInv\<close>, \<open>ArenaBump\<close>,
    \<open>ArenaGrow\<close>, \<open>ArenaSpan\<close>, \<open>ArenaWorld\<close>, \<open>ArenaSafety\<close>: their invariant and properties.
  \<^item> \<open>Instance\<close>, \<open>Routes\<close>, \<open>Frontend\<close>: the rest of \<open>lib.rs\<close>: stripes behind magazines; the arms of the backends,
    the fallback, the header and the dispatch of a free; the pin cache, the fast lane and the entry points.
  \<^item> \<open>SlabFleet\<close>, \<open>SlabFront\<close>, \<open>SegCache\<close>, \<open>SlabThreads\<close>, \<open>SlabThreadsSafety\<close>: the slab under all threads of
    an instance. \<open>OverAligned\<close>: a run of the entry points that goes wrong. \<open>SystemSafety\<close>: the
    system backend with its headers and its retention cache under all threads.

  \<^bold>\<open>How state is modelled.\<close> A struct is a record, an enum a datatype, \<open>usize\<close> and \<open>u64\<close> are 64-bit words
  that wrap, as in a release build. Memory that the allocator writes into free blocks (list nodes) and in
  front of live ones (headers) is a function from addresses. The kernel is a parameter: \<open>mmap\<close> is a function of a kernel
  state, assumed only to return page-aligned memory that no earlier mapping covers; \<open>munmap\<close> calls are
  results. An operation is a function on the state, \<open>None\<close> or \<open>Panic\<close> when the code panics or does not return.
  Runs are inductive step relations: any sequence of operations, with the application writing into its
  blocks and the kernel mapping other memory in between.

  \<^bold>\<open>What is shown.\<close>
  \<^item> Safety of each sub-allocator, and of the slab and the system backend with all threads: in every reachable state live blocks are
    mapped, aligned and disjoint, a free finds the owner of its address, and the buddy loses no byte.
    The arena's theorem on owners supposes that every request fits an empty chunk; a first request that does not
    publishes a chunk that the free path never learns of.
    The theorems of the slab's threads suppose that no over-aligned request is made once blocks are header-free;
    \<open>OverAligned\<close> shows that such a request corrupts the instance.
  \<^item> Availability: an allocation returns, does not panic, and fails only for the reasons that the theorem names, each
    of them a fact of the state that the request finds: the kernel refuses there the very length that the refill,
    the chunk or the mapping needs (\<open>os_refuses\<close>), a registry has no slot for the address mapped, a cap is reached, or
    the request is larger than the backend serves.
  \<^item> Registries: a lookup returns the first accepted registration; with one writer this holds
    under every interleaving, with one writer per stripe, as \<open>lib.rs\<close> calls it, it does not.
  \<^item> Routing: a perfect hash table answers like the list it is built from; files round-trip and truncated ones are
    rejected; the context gate is sound.
  \<^item> The engine: its bookkeeping invariant; every full batch of samples reaches the bandit; the
    selection is the first best servable arm; rewards fall with the latency when the reference latency is
    positive; a frozen plane serves the verdicts of training, the arms of the best mean, only servable ones, and reloads; the pin cache never overrides a context entry, but
    it can serve a site otherwise than the main table.
  \<^item> Configuration: what is loaded is always usable, and which of several values of a knob wins.

  \<^bold>\<open>Bounds and fuel.\<close> No definition has fuel that the code has not. The probe loops of the registries and the
  displacement search and retries of the hash construction have the bounds of the source. The refill loops of the
  slab, and the loops of the buddy and the arena that are not structural, are in the option monad, where \<open>None\<close> is also a
  run that does not end; the availability theorems show that it is never the result.

  \<^bold>\<open>What is not modelled.\<close>
  \<^item> Concurrency within an operation, except for the segment registry: a step of the instance is a whole
    operation of one thread, so races between the atomics of one operation are out of scope, and
    memory is sequentially consistent. Poisoned mutexes are not modelled.
  \<^item> The safety theorems of the instance cover the slab arm and the system backend; the buddy and the arena are
    proved as sub-allocators with their registries, and their arms in \<open>Routes\<close> are definitions only.
  \<^item> Where the latency of a request is taken and rewarded: \<open>Engine\<close> receives the samples as arguments. The
    verdict of the engine is a parameter \<open>advice\<close> of \<open>Frontend\<close>, whose theorems hold for every verdict.
  \<^item> \<open>f64::ln\<close> is a parameter (the platform's choice); the two floating-point zeros are one value.
  \<^item> CPU topology, the cycle clock, the observer, the C ABI, the telemetry server, the benchmarks, the
    GUI and the shim: inputs and outputs around the allocator.
\<close>

end
